(* ===== verification/Prelude.thy ===== *)
theory Prelude
  imports Main "HOL-Library.Monad_Syntax" "HOL-Library.Word"
begin

text \<open>
  Shared vocabulary of the development.

  A C function becomes a HOL function whose result type is an \<open>option\<close>, written with the
  do-notation of the option monad. \<open>None\<close> stands for a run with no defined result: it reads
  or writes out of bounds, uses or frees a dead block, reads an indeterminate value, or does
  not return. A value \<open>Some r\<close> holds the C return value together with the new state, so
  every error code and every early return of the source is an ordinary value of the model.

  The development fixes the data model LP64, with 32-bit \<open>int\<close> and \<open>unsigned int\<close>, and
  64-bit \<open>size_t\<close> and pointers.
\<close>

unbundle bit_operations_syntax

named_theorems run_simps \<open>unfolding of runs into their successful steps\<close>
named_theorems heap_simps \<open>reads of a heap after its operations\<close>
named_theorems inv_intros \<open>preservation of the component invariants\<close>

section \<open>Machine integers of the source\<close>

definition UINT_MOD :: nat where
  "UINT_MOD = 4294967296"

definition SIZE_MOD :: nat where
  "SIZE_MOD = 18446744073709551616"

definition PTR_BYTES :: nat where
  "PTR_BYTES = 8"

text \<open>Conversions between the integer types, with the wrap-around of unsigned arithmetic.\<close>

definition to_uint :: "nat \<Rightarrow> nat" where
  "to_uint n = n mod UINT_MOD"

definition to_size :: "nat \<Rightarrow> nat" where
  "to_size n = n mod SIZE_MOD"

definition int_to_size :: "int \<Rightarrow> nat" where
  "int_to_size i = nat (i mod int SIZE_MOD)"

definition int_to_uint :: "int \<Rightarrow> nat" where
  "int_to_uint i = nat (i mod int UINT_MOD)"

lemma to_uint_small [simp]: "n < UINT_MOD \<Longrightarrow> to_uint n = n"
  by (simp add: to_uint_def)

lemma to_size_small [simp]: "n < SIZE_MOD \<Longrightarrow> to_size n = n"
  by (simp add: to_size_def)

lemma int_to_size_small: "0 \<le> i \<Longrightarrow> i < int SIZE_MOD \<Longrightarrow> int_to_size i = nat i"
  by (simp add: int_to_size_def)

lemma int_to_uint_small: "0 \<le> i \<Longrightarrow> i < int UINT_MOD \<Longrightarrow> int_to_uint i = nat i"
  by (simp add: int_to_uint_def)

lemma UINT_le_SIZE: "n < UINT_MOD \<Longrightarrow> n < SIZE_MOD"
  by (simp add: UINT_MOD_def SIZE_MOD_def)

section \<open>Runs\<close>

lemma bind_Some_iff [run_simps]:
  "Option.bind m f = Some r \<longleftrightarrow> (\<exists>x. m = Some x \<and> f x = Some r)"
  by (cases m) auto

lemma bind_not_None: "m = Some x \<Longrightarrow> f x \<noteq> None \<Longrightarrow> Option.bind m f \<noteq> None"
  by simp

text \<open>An assertion: the run is undefined where the condition fails.\<close>

definition require :: "bool \<Rightarrow> unit option" where
  "require b = (if b then Some () else None)"

lemma require_True [simp]: "require True = Some ()"
  by (simp add: require_def)

lemma require_False [simp]: "require False = None"
  by (simp add: require_def)

lemma require_Some [run_simps]: "require b = Some u \<longleftrightarrow> b"
  by (simp add: require_def)

section \<open>Lists\<close>

text \<open>A list seen as a total map, with a default beyond its end.\<close>

definition nth_or :: "'a \<Rightarrow> 'a list \<Rightarrow> nat \<Rightarrow> 'a" where
  "nth_or d xs i = (if i < length xs then xs ! i else d)"

lemma nth_or_replicate [simp]: "nth_or d (xs @ replicate n d) = nth_or d xs"
  by (rule ext) (auto simp: nth_or_def nth_append)

lemma nth_or_update: "i < length xs \<Longrightarrow> nth_or d (xs[i := x]) = (nth_or d xs)(i := x)"
  by (rule ext) (auto simp: nth_or_def)

text \<open>Lists grown with a default to hold an index.\<close>

definition pad :: "'a \<Rightarrow> nat \<Rightarrow> 'a list \<Rightarrow> 'a list" where
  "pad d n xs = xs @ replicate (n - length xs) d"

lemma length_pad [simp]: "length (pad d n xs) = max (length xs) n"
  by (simp add: pad_def)

lemma nth_or_pad [simp]: "nth_or d (pad d n xs) = nth_or d xs"
  by (simp add: pad_def)

lemma pad_id [simp]: "n \<le> length xs \<Longrightarrow> pad d n xs = xs"
  by (simp add: pad_def)

lemma pad_pad: "m \<le> n \<Longrightarrow> pad d n (pad d m xs) = pad d n xs"
  by (simp add: pad_def replicate_add [symmetric])

lemma replicate_snoc: "replicate n x @ [x] = replicate (Suc n) x"
  by (simp add: replicate_append_same)

lemma map_take_update: "i < n \<Longrightarrow> map f (take n (xs[i := x])) = (map f (take n xs))[i := f x]"
  by (simp add: map_update take_update_swap)

lemma all_set_update:
  "\<forall>x \<in> set xs. P x \<Longrightarrow> P y \<Longrightarrow> \<forall>x \<in> set (xs[i := y]). P x"
  by (auto dest: set_update_subset_insert [THEN subsetD])

end
