(* ===== verification/CHeap.thy ===== *)
theory CHeap
  imports Prelude
begin

text \<open>
  The C heap. A block is an opaque struct whose fields the model keeps elsewhere (\<open>Raw\<close>, only
  its liveness is tracked), an array of pointers (\<open>Arr\<close>, a cell is \<open>None\<close> while its
  content is indeterminate) or an object of the client's type (\<open>Obj\<close>). The heap decides each
  allocation request by the oracle \<open>avail\<close>, a function of the number of requests made before,
  so that every \<open>malloc\<close> and \<open>realloc\<close> of the source may fail. \<open>errno\<close> is the value the
  system leaves there.
\<close>

section \<open>Blocks, pointers and the heap\<close>

datatype ptr = Null | Ref nat

datatype 'o block = Raw | Arr "ptr option list" | Obj 'o

record 'o heap =
  store :: "nat \<rightharpoonup> 'o block"
  fresh :: nat
  avail :: "nat \<Rightarrow> bool"
  asked :: nat
  errno :: int

definition empty_heap :: "(nat \<Rightarrow> bool) \<Rightarrow> 'o heap" where
  "empty_heap av = \<lparr>store = Map.empty, fresh = 0, avail = av, asked = 0, errno = 12\<rparr>"

text \<open>Addresses from \<open>fresh\<close> on were never handed out.\<close>

definition heap_ok :: "'o heap \<Rightarrow> bool" where
  "heap_ok h \<longleftrightarrow> (\<forall>a. fresh h \<le> a \<longrightarrow> store h a = None)"

definition set_block :: "nat \<Rightarrow> 'o block \<Rightarrow> 'o heap \<Rightarrow> 'o heap" where
  "set_block a b h = h\<lparr>store := (store h)(a \<mapsto> b)\<rparr>"

definition drop_block :: "nat \<Rightarrow> 'o heap \<Rightarrow> 'o heap" where
  "drop_block a h = h\<lparr>store := (store h)(a := None)\<rparr>"

section \<open>malloc, free, realloc\<close>

definition take_block :: "'o block \<Rightarrow> 'o heap \<Rightarrow> ptr \<times> 'o heap" where
  "take_block b h =
     (Ref (fresh h), h\<lparr>store := (store h)(fresh h \<mapsto> b), fresh := Suc (fresh h)\<rparr>)"

definition malloc :: "'o block \<Rightarrow> 'o heap \<Rightarrow> ptr \<times> 'o heap" where
  "malloc b h =
     (let h1 = h\<lparr>asked := Suc (asked h)\<rparr>
      in if avail h (asked h) then take_block b h1 else (Null, h1))"

fun cfree :: "ptr \<Rightarrow> 'o heap \<Rightarrow> 'o heap option" where
  "cfree Null h = Some h"
| "cfree (Ref a) h = (case store h a of None \<Rightarrow> None | Some b \<Rightarrow> Some (drop_block a h))"

fun arr_at :: "'o heap \<Rightarrow> ptr \<Rightarrow> ptr option list option" where
  "arr_at h Null = None"
| "arr_at h (Ref a) = (case store h a of Some (Arr cs) \<Rightarrow> Some cs | _ \<Rightarrow> None)"

fun obj_at :: "'o heap \<Rightarrow> ptr \<Rightarrow> 'o option" where
  "obj_at h Null = None"
| "obj_at h (Ref a) = (case store h a of Some (Obj v) \<Rightarrow> Some v | _ \<Rightarrow> None)"

text \<open>
  A \<open>realloc\<close> that succeeds gives a new block that keeps the cells the two sizes share, and
  kills the old one: a program that still holds the old pointer holds a dead one.
\<close>

definition arr_realloc :: "ptr \<Rightarrow> nat \<Rightarrow> 'o heap \<Rightarrow> (ptr \<times> 'o heap) option" where
  "arr_realloc p n h =
     (case p of
        Null \<Rightarrow> Some (malloc (Arr (replicate n None)) h)
      | Ref a \<Rightarrow>
          (case arr_at h p of
             None \<Rightarrow> None
           | Some cs \<Rightarrow>
               (let r = malloc (Arr (take n cs @ replicate (n - length cs) None)) h
                in if fst r = Null then Some r else Some (fst r, drop_block a (snd r)))))"

section \<open>Reads and writes\<close>

definition arr_get :: "ptr \<Rightarrow> nat \<Rightarrow> 'o heap \<Rightarrow> ptr option" where
  "arr_get p i h =
     (case arr_at h p of
        None \<Rightarrow> None
      | Some cs \<Rightarrow> if i < length cs then cs ! i else None)"

definition arr_put :: "ptr \<Rightarrow> nat \<Rightarrow> ptr \<Rightarrow> 'o heap \<Rightarrow> 'o heap option" where
  "arr_put p i q h =
     (case p of
        Null \<Rightarrow> None
      | Ref a \<Rightarrow>
          (case arr_at h p of
             None \<Rightarrow> None
           | Some cs \<Rightarrow>
               if i < length cs then Some (set_block a (Arr (cs[i := Some q])) h) else None))"

definition obj_put :: "ptr \<Rightarrow> 'o \<Rightarrow> 'o heap \<Rightarrow> 'o heap option" where
  "obj_put p v h =
     (case p of
        Null \<Rightarrow> None
      | Ref a \<Rightarrow> (case obj_at h p of None \<Rightarrow> None | Some _ \<Rightarrow> Some (set_block a (Obj v) h)))"

text \<open>The loop that stores \<open>NULL\<close> into \<open>n\<close> consecutive cells from \<open>i\<close> on.\<close>

fun arr_clear :: "ptr \<Rightarrow> nat \<Rightarrow> nat \<Rightarrow> 'o heap \<Rightarrow> 'o heap option" where
  "arr_clear p i 0 h = Some h"
| "arr_clear p i (Suc n) h = do { h1 \<leftarrow> arr_put p i Null h; arr_clear p (Suc i) n h1 }"

section \<open>Laws\<close>

lemma store_set_block [heap_simps, simp]: "store (set_block a b h) = (store h)(a \<mapsto> b)"
  by (simp add: set_block_def)

lemma store_drop_block [heap_simps, simp]: "store (drop_block a h) = (store h)(a := None)"
  by (simp add: drop_block_def)

lemma set_block_frame [simp]:
  "fresh (set_block a b h) = fresh h" "avail (set_block a b h) = avail h"
  "asked (set_block a b h) = asked h" "errno (set_block a b h) = errno h"
  by (simp_all add: set_block_def)

lemma drop_block_frame [simp]:
  "fresh (drop_block a h) = fresh h" "avail (drop_block a h) = avail h"
  "asked (drop_block a h) = asked h" "errno (drop_block a h) = errno h"
  by (simp_all add: drop_block_def)

lemma set_block_twice [simp]: "set_block a b (set_block a c h) = set_block a b h"
  by (simp add: set_block_def)

lemma heap_ok_empty [simp]: "heap_ok (empty_heap av)"
  by (simp add: heap_ok_def empty_heap_def)

lemma heap_okD: "heap_ok h \<Longrightarrow> store h a = Some b \<Longrightarrow> a < fresh h"
  by (rule ccontr) (simp add: heap_ok_def)

lemma heap_ok_fresh [simp]: "heap_ok h \<Longrightarrow> store h (fresh h) = None"
  by (simp add: heap_ok_def)

lemma heap_ok_set_block [inv_intros]: "heap_ok h \<Longrightarrow> store h a \<noteq> None \<Longrightarrow> heap_ok (set_block a b h)"
  by (auto simp: heap_ok_def)

lemma heap_ok_drop_block [inv_intros]: "heap_ok h \<Longrightarrow> heap_ok (drop_block a h)"
  by (auto simp: heap_ok_def)

lemma arr_at_Some: "arr_at h p = Some cs \<longleftrightarrow> (\<exists>a. p = Ref a \<and> store h a = Some (Arr cs))"
  by (cases p) (auto split: option.splits block.splits)

lemma obj_at_Some: "obj_at h p = Some v \<longleftrightarrow> (\<exists>a. p = Ref a \<and> store h a = Some (Obj v))"
  by (cases p) (auto split: option.splits block.splits)

text \<open>The two outcomes of \<open>malloc\<close>.\<close>

definition refused :: "'o heap \<Rightarrow> 'o heap" where
  "refused h = h\<lparr>asked := Suc (asked h)\<rparr>"

lemma refused_frame [simp]:
  "store (refused h) = store h" "fresh (refused h) = fresh h" "avail (refused h) = avail h"
  "errno (refused h) = errno h" "heap_ok (refused h) = heap_ok h"
  by (simp_all add: refused_def heap_ok_def)

lemma arr_at_refused [simp]: "arr_at (refused h) p = arr_at h p"
  by (cases p) simp_all

lemma obj_at_refused [simp]: "obj_at (refused h) p = obj_at h p"
  by (cases p) simp_all

definition granted :: "'o block \<Rightarrow> 'o heap \<Rightarrow> 'o heap" where
  "granted b h =
     h\<lparr>asked := Suc (asked h), store := (store h)(fresh h \<mapsto> b), fresh := Suc (fresh h)\<rparr>"

lemma granted_frame [simp]:
  "store (granted b h) = (store h)(fresh h \<mapsto> b)" "fresh (granted b h) = Suc (fresh h)"
  "avail (granted b h) = avail h" "errno (granted b h) = errno h"
  by (simp_all add: granted_def)

lemma set_block_granted [simp]: "set_block (fresh h) b (granted b0 h) = granted b h"
  by (simp add: set_block_def granted_def)

lemma malloc_eq:
  "malloc b h = (if avail h (asked h) then (Ref (fresh h), granted b h) else (Null, refused h))"
  by (simp add: malloc_def take_block_def Let_def refused_def granted_def)

lemma malloc_cases:
  assumes "malloc b h = (p, h')"
  obtains "p = Null" "h' = refused h" "\<not> avail h (asked h)"
    | "p = Ref (fresh h)" "h' = granted b h" "avail h (asked h)"
  using assms by (auto simp: malloc_eq split: if_splits)

lemma heap_ok_granted [inv_intros, simp]: "heap_ok h \<Longrightarrow> heap_ok (granted b h)"
  by (auto simp: heap_ok_def)

lemma heap_ok_malloc [inv_intros]: "heap_ok h \<Longrightarrow> malloc b h = (p, h') \<Longrightarrow> heap_ok h'"
  by (erule malloc_cases) simp_all

lemma cfree_Some:
  "cfree p h = Some h' \<longleftrightarrow>
     (p = Null \<and> h' = h) \<or> (\<exists>a b. p = Ref a \<and> store h a = Some b \<and> h' = drop_block a h)"
  by (cases p) (auto split: option.splits)

lemma heap_ok_cfree [inv_intros]: "heap_ok h \<Longrightarrow> cfree p h = Some h' \<Longrightarrow> heap_ok h'"
  by (auto simp: cfree_Some heap_ok_drop_block)

text \<open>Reads after a change of one block.\<close>

lemma obj_at_set_block [heap_simps]:
  "obj_at (set_block a b h) p
     = (if p = Ref a then (case b of Obj v \<Rightarrow> Some v | _ \<Rightarrow> None) else obj_at h p)"
  by (cases p) auto

lemma obj_at_drop_block [heap_simps]:
  "obj_at (drop_block a h) p = (if p = Ref a then None else obj_at h p)"
  by (cases p) auto

lemma obj_at_granted [heap_simps]:
  "obj_at (granted b h) p
     = (if p = Ref (fresh h) then (case b of Obj v \<Rightarrow> Some v | _ \<Rightarrow> None) else obj_at h p)"
  by (cases p) auto

lemma obj_at_Null [simp]: "obj_at h Null = None"
  by simp

lemma obj_at_fresh: "heap_ok h \<Longrightarrow> obj_at h p = Some v \<Longrightarrow> p \<noteq> Ref (fresh h)"
  by auto

lemma arr_at_set_block [heap_simps]:
  "arr_at (set_block a b h) p
     = (if p = Ref a then (case b of Arr cs \<Rightarrow> Some cs | _ \<Rightarrow> None) else arr_at h p)"
  by (cases p) auto

lemma arr_at_drop_block [heap_simps]:
  "arr_at (drop_block a h) p = (if p = Ref a then None else arr_at h p)"
  by (cases p) auto

lemma arr_at_granted [heap_simps]:
  "arr_at (granted b h) p
     = (if p = Ref (fresh h) then (case b of Arr cs \<Rightarrow> Some cs | _ \<Rightarrow> None) else arr_at h p)"
  by (cases p) auto

text \<open>A block that is freed once cannot be freed again.\<close>

lemma cfree_twice: "cfree (Ref a) h = Some h' \<Longrightarrow> cfree (Ref a) h' = None"
  by (auto split: option.splits)

lemma arr_get_Some: "arr_get p i h = Some q \<longleftrightarrow> (\<exists>cs. arr_at h p = Some cs \<and> i < length cs \<and> cs ! i = Some q)"
  by (auto simp: arr_get_def split: option.splits)

lemma arr_put_Some:
  "arr_put p i q h = Some h' \<longleftrightarrow>
     (\<exists>a cs. p = Ref a \<and> store h a = Some (Arr cs) \<and> i < length cs
        \<and> h' = set_block a (Arr (cs[i := Some q])) h)"
  by (cases p) (auto simp: arr_put_def split: option.splits block.splits if_splits)

lemma arr_put_eq:
  "store h a = Some (Arr cs) \<Longrightarrow> i < length cs \<Longrightarrow>
     arr_put (Ref a) i q h = Some (set_block a (Arr (cs[i := Some q])) h)"
  by (simp add: arr_put_def)

lemma arr_put_None: "arr_at h p = Some cs \<Longrightarrow> length cs \<le> i \<Longrightarrow> arr_put p i q h = None"
  by (cases p) (auto simp: arr_put_def)

text \<open>The clearing loop in closed form, and the bound it needs.\<close>

lemma arr_clear_eq:
  "store h a = Some (Arr cs) \<Longrightarrow> i + n \<le> length cs \<Longrightarrow>
     arr_clear (Ref a) i n h
       = Some (set_block a (Arr (take i cs @ replicate n (Some Null) @ drop (i + n) cs)) h)"
proof (induction n arbitrary: i cs h)
  case 0
  then show ?case by (simp add: set_block_def map_upd_triv)
next
  case (Suc n)
  let ?cs = "cs[i := Some Null]"
  have put: "arr_put (Ref a) i Null h = Some (set_block a (Arr ?cs) h)"
    using Suc.prems by (intro arr_put_eq) auto
  have step: "arr_clear (Ref a) (Suc i) n (set_block a (Arr ?cs) h)
      = Some (set_block a (Arr (take (Suc i) ?cs @ replicate n (Some Null) @ drop (Suc i + n) ?cs))
                (set_block a (Arr ?cs) h))"
    using Suc.prems by (intro Suc.IH) auto
  have "take (Suc i) ?cs = take i cs @ [Some Null]"
    using Suc.prems by (simp add: take_Suc_conv_app_nth)
  with put step show ?case
    by simp
qed

lemma arr_clear_bounds:
  "store h a = Some (Arr cs) \<Longrightarrow> length cs < i + n \<Longrightarrow> 0 < n \<Longrightarrow> arr_clear (Ref a) i n h = None"
proof (induction n arbitrary: i cs h)
  case 0
  then show ?case by simp
next
  case (Suc n)
  show ?case
  proof (cases "i < length cs")
    case True
    have "arr_clear (Ref a) (Suc i) n (set_block a (Arr (cs[i := Some Null])) h) = None"
      using Suc.prems True by (intro Suc.IH [where cs = "cs[i := Some Null]"]) auto
    with True Suc.prems show ?thesis by (simp add: arr_put_eq)
  next
    case False
    with Suc.prems show ?thesis by (simp add: arr_put_def)
  qed
qed

lemma arr_realloc_eq:
  "store h a = Some (Arr cs) \<Longrightarrow>
     arr_realloc (Ref a) n h =
       (if avail h (asked h)
        then Some (Ref (fresh h),
               drop_block a (granted (Arr (take n cs @ replicate (n - length cs) None)) h))
        else Some (Null, refused h))"
  by (simp add: arr_realloc_def malloc_eq Let_def)

lemma arr_realloc_Null:
  "arr_realloc Null n h = Some (malloc (Arr (replicate n None)) h)"
  by (simp add: arr_realloc_def)

section \<open>The state a component runs on\<close>

text \<open>The heap together with whatever else the callbacks act on.\<close>

record ('o, 's) cstate =
  hp :: "'o heap"
  ext :: 's

end
