(* ===== verification/GenericStack.thy ===== *)
theory GenericStack
  imports CHeap
begin

text \<open>
  The growable stack of \<open>src/src/genericStack.c\<close>: an array of pointers to element blocks, each a
  private copy of the element the caller handed in.

  The struct is a record; its own block and the array \<open>bufpp\<close> live on the heap, so that a read
  or write past the array, or through a dead pointer, is an undefined run. User callbacks are
  functions on the external state \<open>'s\<close> (the \<open>void *\<close> user data is part of the closure); a
  \<open>NULL\<close> callback is \<open>None\<close>.
\<close>

section \<open>Types and constants\<close>

datatype genericStack_error =
    GENERICSTACK_ERROR_SYSTEM
  | GENERICSTACK_ERROR_PARAMETER
  | GENERICSTACK_ERROR_RUNTIME
  | GENERICSTACK_ERROR_CALLBACK

definition GENERICSTACK_ERROR_PARAMETER_ELEMENTSIZE :: int where
  "GENERICSTACK_ERROR_PARAMETER_ELEMENTSIZE = 0"

definition GENERICSTACK_ERROR_RUNTIME_STACK_EMPTY :: int where
  "GENERICSTACK_ERROR_RUNTIME_STACK_EMPTY = 0"

definition GENERICSTACK_ERROR_RUNTIME_STACK_TOO_SMALL_GET :: int where
  "GENERICSTACK_ERROR_RUNTIME_STACK_TOO_SMALL_GET = 1"

definition GENERICSTACK_ERROR_RUNTIME_STACK_TOO_SMALL_SET :: int where
  "GENERICSTACK_ERROR_RUNTIME_STACK_TOO_SMALL_SET = 2"

definition GENERICSTACK_OPTION_GROW_ON_GET :: "32 word" where
  "GENERICSTACK_OPTION_GROW_ON_GET = 1"

definition GENERICSTACK_OPTION_GROW_ON_SET :: "32 word" where
  "GENERICSTACK_OPTION_GROW_ON_SET = 2"

definition GENERICSTACK_OPTION_GROW_DEFAULT :: "32 word" where
  "GENERICSTACK_OPTION_GROW_DEFAULT =
     GENERICSTACK_OPTION_GROW_ON_GET OR GENERICSTACK_OPTION_GROW_ON_SET"

definition STACK_INIT_SIZE :: nat where
  "STACK_INIT_SIZE = 4"

type_synonym 's failure_cb = "genericStack_error \<Rightarrow> int \<Rightarrow> 's \<Rightarrow> 's"
type_synonym ('o, 's) free_cb = "'o \<Rightarrow> 's \<Rightarrow> int \<times> 's"
type_synonym ('o, 's) copy_cb = "'o \<Rightarrow> 's \<Rightarrow> int \<times> 'o \<times> 's"

record ('o, 's) genericStack_option =
  growFlags :: "32 word"
  opt_failureCallbackp :: "'s failure_cb option"
  opt_freeCallbackp :: "('o, 's) free_cb option"
  opt_copyCallbackp :: "('o, 's) copy_cb option"

record ('o, 's) genericStack =
  selfp :: ptr
  bufpp :: ptr
  allocSizei :: nat
  stackSizei :: nat
  elementSizei :: nat
  failureCallbackp :: "'s failure_cb option"
  freeCallbackp :: "('o, 's) free_cb option"
  copyCallbackp :: "('o, 's) copy_cb option"
  optionGrowOnSeti :: bool
  optionGrowOnGeti :: bool

section \<open>Operations\<close>

text \<open>The guarded call of the failure callback.\<close>

definition report ::
  "'s failure_cb option \<Rightarrow> genericStack_error \<Rightarrow> int \<Rightarrow> ('o, 's) cstate \<Rightarrow> ('o, 's) cstate" where
  "report cb err n c = (case cb of None \<Rightarrow> c | Some f \<Rightarrow> c\<lparr>ext := f err n (ext c)\<rparr>)"

definition has_flag :: "32 word \<Rightarrow> 32 word \<Rightarrow> bool" where
  "has_flag flags f \<longleftrightarrow> flags AND f = f"

definition genericStack_newp ::
  "nat \<Rightarrow> ('o, 's) genericStack_option option \<Rightarrow> ('o, 's) cstate
     \<Rightarrow> (('o, 's) genericStack option \<times> ('o, 's) cstate) option" where
  "genericStack_newp elemSize optionp c =
     (let failure = (case optionp of None \<Rightarrow> None | Some q \<Rightarrow> opt_failureCallbackp q) in
      if elemSize \<le> 0
      then Some (None, report failure GENERICSTACK_ERROR_PARAMETER
                         GENERICSTACK_ERROR_PARAMETER_ELEMENTSIZE c)
      else
        (let (self, h1) = malloc Raw (hp c) in
         if self = Null
         then Some (None, report failure GENERICSTACK_ERROR_SYSTEM (errno h1) (c\<lparr>hp := h1\<rparr>))
         else
           (let (buf, h2) =
              malloc (Arr (replicate (to_size (elemSize * STACK_INIT_SIZE) div PTR_BYTES) None)) h1 in
            if buf = Null
            then do {
              let c2 = report failure GENERICSTACK_ERROR_SYSTEM (errno h2) (c\<lparr>hp := h2\<rparr>);
              h3 \<leftarrow> cfree self (hp c2);
              Some (None, c2\<lparr>hp := h3\<rparr>)
            }
            else do {
              h3 \<leftarrow> arr_clear buf 0 STACK_INIT_SIZE h2;
              Some (Some
                \<lparr>selfp = self, bufpp = buf, allocSizei = STACK_INIT_SIZE, stackSizei = 0,
                 elementSizei = elemSize, failureCallbackp = failure,
                 freeCallbackp = (case optionp of None \<Rightarrow> None | Some q \<Rightarrow> opt_freeCallbackp q),
                 copyCallbackp = (case optionp of None \<Rightarrow> None | Some q \<Rightarrow> opt_copyCallbackp q),
                 optionGrowOnSeti = (case optionp of None \<Rightarrow> False
                   | Some q \<Rightarrow> has_flag (growFlags q) GENERICSTACK_OPTION_GROW_ON_SET),
                 optionGrowOnGeti = (case optionp of None \<Rightarrow> False
                   | Some q \<Rightarrow> has_flag (growFlags q) GENERICSTACK_OPTION_GROW_ON_GET)\<rparr>,
                c\<lparr>hp := h3\<rparr>)
            })))"

text \<open>
  The element at one slot is handed to the free callback, freed, and the slot cleared. The loop
  of \<open>genericStack_destroyv\<close> and the first half of \<open>genericStack_seti\<close> both do this.
\<close>

definition run_freeCallback ::
  "('o, 's) genericStack \<Rightarrow> ptr \<Rightarrow> ('o, 's) cstate \<Rightarrow> ('o, 's) cstate option" where
  "run_freeCallback s p c =
     (case freeCallbackp s of
        None \<Rightarrow> Some c
      | Some f \<Rightarrow> do {
          v \<leftarrow> obj_at (hp c) p;
          let (errnum, x) = f v (ext c);
          let c1 = c\<lparr>ext := x\<rparr>;
          Some (if errnum \<noteq> 0
                then report (failureCallbackp s) GENERICSTACK_ERROR_CALLBACK errnum c1 else c1)
        })"

definition release_slot ::
  "('o, 's) genericStack \<Rightarrow> nat \<Rightarrow> ('o, 's) cstate \<Rightarrow> ('o, 's) cstate option" where
  "release_slot s i c = do {
     p \<leftarrow> arr_get (bufpp s) i (hp c);
     if p = Null then Some c
     else do {
       c1 \<leftarrow> run_freeCallback s p c;
       h1 \<leftarrow> cfree p (hp c1);
       h2 \<leftarrow> arr_put (bufpp s) i Null h1;
       Some (c1\<lparr>hp := h2\<rparr>)
     }
   }"

fun destroy_slots ::
  "('o, 's) genericStack \<Rightarrow> nat \<Rightarrow> nat \<Rightarrow> ('o, 's) cstate \<Rightarrow> ('o, 's) cstate option" where
  "destroy_slots s i 0 c = Some c"
| "destroy_slots s i (Suc n) c = do { c1 \<leftarrow> release_slot s i c; destroy_slots s (Suc i) n c1 }"

text \<open>
  The outer \<open>option\<close> is the \<open>genericStack_t **\<close> argument, the inner one what it points to. The
  loop counter is an \<open>unsigned int\<close>, which never reaches an allocation of \<open>2 ^ 32\<close> slots.
\<close>

definition genericStack_destroyv ::
  "('o, 's) genericStack option option \<Rightarrow> ('o, 's) cstate
     \<Rightarrow> (('o, 's) genericStack option option \<times> ('o, 's) cstate) option" where
  "genericStack_destroyv spp c =
     (case spp of
        None \<Rightarrow> Some (None, c)
      | Some None \<Rightarrow> Some (Some None, c)
      | Some (Some s) \<Rightarrow> do {
          require (allocSizei s < UINT_MOD);
          c1 \<leftarrow> destroy_slots s 0 (allocSizei s) c;
          h1 \<leftarrow> cfree (bufpp s) (hp c1);
          h2 \<leftarrow> cfree (selfp s) h1;
          Some (Some None, c1\<lparr>hp := h2\<rparr>)
        })"

text \<open>Doubling of the array by \<open>genericStack_pushi\<close>; the flag says whether it succeeded.\<close>

definition grow_bufpp ::
  "('o, 's) genericStack \<Rightarrow> ('o, 's) cstate
     \<Rightarrow> (bool \<times> ('o, 's) genericStack \<times> ('o, 's) cstate) option" where
  "grow_bufpp s c =
     (let newAlloc = to_size (allocSizei s * 2) in
      do {
        (p, h1) \<leftarrow> arr_realloc (bufpp s) (to_size (newAlloc * PTR_BYTES) div PTR_BYTES) (hp c);
        if p = Null
        then Some (False, s,
               report (failureCallbackp s) GENERICSTACK_ERROR_SYSTEM (errno h1) (c\<lparr>hp := h1\<rparr>))
        else do {
          require (newAlloc < UINT_MOD);
          h2 \<leftarrow> arr_clear p (allocSizei s) (newAlloc - allocSizei s) h1;
          Some (True, s\<lparr>bufpp := p, allocSizei := newAlloc\<rparr>, c\<lparr>hp := h2\<rparr>)
        }
      })"

text \<open>
  \<open>malloc\<close>, \<open>memcpy\<close> and the copy callback for a non-\<open>NULL\<close> element, common to \<open>pushi\<close> and
  \<open>seti\<close>: the new block, or \<open>Null\<close> when the allocation failed (after the report). The status of
  the copy callback is reported and otherwise ignored.
\<close>

definition copy_element ::
  "('o, 's) genericStack \<Rightarrow> ptr \<Rightarrow> ('o, 's) cstate \<Rightarrow> (ptr \<times> ('o, 's) cstate) option" where
  "copy_element s elementp c =
     (let (p, h1) = malloc Raw (hp c) in
      case p of
        Null \<Rightarrow>
          Some (Null, report (failureCallbackp s) GENERICSTACK_ERROR_SYSTEM (errno h1) (c\<lparr>hp := h1\<rparr>))
      | Ref a \<Rightarrow> do {
          v \<leftarrow> obj_at h1 elementp;
          let h2 = set_block a (Obj v) h1;
          case copyCallbackp s of
            None \<Rightarrow> Some (p, c\<lparr>hp := h2\<rparr>)
          | Some f \<Rightarrow>
              (let (errnum, v', x) = f v (ext c);
                   c1 = c\<lparr>hp := set_block a (Obj v') h2, ext := x\<rparr>
               in Some (p, if errnum \<noteq> 0
                    then report (failureCallbackp s) GENERICSTACK_ERROR_CALLBACK errnum c1 else c1))
        })"

definition push_onto ::
  "('o, 's) genericStack \<Rightarrow> ptr \<Rightarrow> ('o, 's) cstate
     \<Rightarrow> (nat \<times> ('o, 's) genericStack \<times> ('o, 's) cstate) option" where
  "push_onto s elementp c =
     (if elementp \<noteq> Null
      then do {
        (p, c1) \<leftarrow> copy_element s elementp c;
        if p = Null then Some (0, s, c1)
        else do {
          h \<leftarrow> arr_put (bufpp s) (stackSizei s) p (hp c1);
          Some (1, s\<lparr>stackSizei := Suc (stackSizei s)\<rparr>, c1\<lparr>hp := h\<rparr>)
        }
      }
      else do {
        h \<leftarrow> arr_put (bufpp s) (stackSizei s) Null (hp c);
        Some (1, s\<lparr>stackSizei := Suc (stackSizei s)\<rparr>, c\<lparr>hp := h\<rparr>)
      })"

text \<open>\<open>genericStack_pushi\<close> on a stack that exists, and the guard of the API around it.\<close>

definition pushi ::
  "('o, 's) genericStack \<Rightarrow> ptr \<Rightarrow> ('o, 's) cstate
     \<Rightarrow> (nat \<times> ('o, 's) genericStack \<times> ('o, 's) cstate) option" where
  "pushi s elementp c =
     (if allocSizei s \<le> stackSizei s
      then do {
        (ok, s1, c1) \<leftarrow> grow_bufpp s c;
        if ok then push_onto s1 elementp c1 else Some (0, s1, c1)
      }
      else push_onto s elementp c)"

definition genericStack_pushi ::
  "('o, 's) genericStack option \<Rightarrow> ptr \<Rightarrow> ('o, 's) cstate
     \<Rightarrow> (nat \<times> ('o, 's) genericStack option \<times> ('o, 's) cstate) option" where
  "genericStack_pushi sp elementp c =
     (case sp of
        None \<Rightarrow> Some (0, None, c)
      | Some s \<Rightarrow> do { (r, s1, c1) \<leftarrow> pushi s elementp c; Some (r, Some s1, c1) })"

definition genericStack_popp ::
  "('o, 's) genericStack option \<Rightarrow> ('o, 's) cstate
     \<Rightarrow> (ptr \<times> ('o, 's) genericStack option \<times> ('o, 's) cstate) option" where
  "genericStack_popp sp c =
     (case sp of
        None \<Rightarrow> Some (Null, None, c)
      | Some s \<Rightarrow>
          if stackSizei s \<le> 0
          then Some (Null, Some s, report (failureCallbackp s) GENERICSTACK_ERROR_RUNTIME
                                     GENERICSTACK_ERROR_RUNTIME_STACK_EMPTY c)
          else do {
            value \<leftarrow> arr_get (bufpp s) (stackSizei s - 1) (hp c);
            let s1 = s\<lparr>stackSizei := stackSizei s - 1\<rparr>;
            if to_size (stackSizei s1 * 2) \<le> allocSizei s1 \<and> 8 \<le> allocSizei s1
            then do {
              let newAlloc = allocSizei s1 div 2;
              (p, h1) \<leftarrow> arr_realloc (bufpp s1) (to_size (newAlloc * PTR_BYTES) div PTR_BYTES) (hp c);
              Some (value,
                    Some (if p \<noteq> Null then s1\<lparr>allocSizei := newAlloc, bufpp := p\<rparr> else s1),
                    c\<lparr>hp := h1\<rparr>)
            }
            else Some (value, Some s1, c)
          })"

text \<open>The growth loop of \<open>getp\<close> and \<open>seti\<close>: \<open>None\<close> also where it never ends.\<close>

partial_function (option) grow_to ::
  "nat \<Rightarrow> ('o, 's) genericStack \<Rightarrow> ('o, 's) cstate
     \<Rightarrow> (('o, 's) genericStack \<times> ('o, 's) cstate) option" where
  "grow_to index s c =
     (if allocSizei s \<le> index
      then do { (r, s1, c1) \<leftarrow> pushi s Null c; grow_to index s1 c1 }
      else Some (s, c))"

declare grow_to.simps [code]

definition genericStack_getp ::
  "('o, 's) genericStack option \<Rightarrow> nat \<Rightarrow> ('o, 's) cstate
     \<Rightarrow> (ptr \<times> ('o, 's) genericStack option \<times> ('o, 's) cstate) option" where
  "genericStack_getp sp index c =
     (case sp of
        None \<Rightarrow> Some (Null, None, c)
      | Some s0 \<Rightarrow> do {
          (s, c1) \<leftarrow> (if allocSizei s0 \<le> index \<and> optionGrowOnGeti s0
                     then grow_to index s0 c else Some (s0, c));
          if stackSizei s \<le> index \<and> \<not> optionGrowOnGeti s
          then Some (Null, Some s, report (failureCallbackp s) GENERICSTACK_ERROR_RUNTIME
                                     GENERICSTACK_ERROR_RUNTIME_STACK_TOO_SMALL_GET c1)
          else do { p \<leftarrow> arr_get (bufpp s) index (hp c1); Some (p, Some s, c1) }
        })"

text \<open>The second half of \<open>genericStack_seti\<close>, from the test of \<open>elementp\<close> on.\<close>

definition set_slot ::
  "('o, 's) genericStack \<Rightarrow> nat \<Rightarrow> ptr \<Rightarrow> ('o, 's) cstate
     \<Rightarrow> (nat \<times> ('o, 's) genericStack \<times> ('o, 's) cstate) option" where
  "set_slot s index elementp c =
     (let minStackSize = to_uint (index + 1);
          s1 = (if stackSizei s < minStackSize then s\<lparr>stackSizei := minStackSize\<rparr> else s)
      in if elementp \<noteq> Null
         then do {
           (p, c1) \<leftarrow> copy_element s elementp c;
           if p = Null then Some (0, s, c1)
           else do {
             h \<leftarrow> arr_put (bufpp s) index p (hp c1);
             Some (1, s1, c1\<lparr>hp := h\<rparr>)
           }
         }
         else Some (1, s1, c))"

definition genericStack_seti ::
  "('o, 's) genericStack option \<Rightarrow> nat \<Rightarrow> ptr \<Rightarrow> ('o, 's) cstate
     \<Rightarrow> (nat \<times> ('o, 's) genericStack option \<times> ('o, 's) cstate) option" where
  "genericStack_seti sp index elementp c =
     (case sp of
        None \<Rightarrow> Some (0, None, c)
      | Some s0 \<Rightarrow> do {
          (s, c1) \<leftarrow> (if allocSizei s0 \<le> index \<and> optionGrowOnSeti s0
                     then grow_to index s0 c else Some (s0, c));
          if stackSizei s \<le> index \<and> \<not> optionGrowOnSeti s
          then Some (0, Some s, report (failureCallbackp s) GENERICSTACK_ERROR_RUNTIME
                                  GENERICSTACK_ERROR_RUNTIME_STACK_TOO_SMALL_SET c1)
          else do {
            c2 \<leftarrow> release_slot s index c1;
            (r, s2, c3) \<leftarrow> set_slot s index elementp c2;
            Some (r, Some s2, c3)
          }
        })"

definition genericStack_sizei :: "('o, 's) genericStack option \<Rightarrow> nat" where
  "genericStack_sizei sp = (case sp of None \<Rightarrow> 0 | Some s \<Rightarrow> stackSizei s)"

end
