(* ===== verification/StackInv.thy ===== *)
theory StackInv
  imports GenericStack
begin

text \<open>
  The representation invariant of the generic stack and what each internal step does to it. The
  stack owns its struct, its array and the element blocks the array points to, each through one
  slot only; slots from \<open>stackSizei\<close> on are \<open>NULL\<close>. \<open>frame\<close> is the rest of the heap.
\<close>

section \<open>Representation\<close>

definition uniq_refs :: "ptr list \<Rightarrow> bool" where
  "uniq_refs ps \<longleftrightarrow>
     (\<forall>i < length ps. \<forall>j < length ps. ps ! i = ps ! j \<longrightarrow> ps ! i \<noteq> Null \<longrightarrow> i = j)"

definition null_from :: "nat \<Rightarrow> ptr list \<Rightarrow> bool" where
  "null_from n ps \<longleftrightarrow> (\<forall>i < length ps. n \<le> i \<longrightarrow> ps ! i = Null)"

definition all_live :: "'o heap \<Rightarrow> ptr list \<Rightarrow> bool" where
  "all_live h ps \<longleftrightarrow> (\<forall>p \<in> set ps. p = Null \<or> obj_at h p \<noteq> None)"

definition slots_ok :: "'o heap \<Rightarrow> nat \<Rightarrow> ptr list \<Rightarrow> bool" where
  "slots_ok h n ps \<longleftrightarrow> all_live h ps \<and> uniq_refs ps \<and> null_from n ps"

definition layout ::
  "'o heap \<Rightarrow> ('o, 's) genericStack \<Rightarrow> nat \<Rightarrow> nat \<Rightarrow> ptr list \<Rightarrow> ptr option list \<Rightarrow> bool" where
  "layout h s a b ps rest \<longleftrightarrow>
     heap_ok h \<and> selfp s = Ref a \<and> store h a = Some Raw
   \<and> bufpp s = Ref b \<and> store h b = Some (Arr (map Some ps @ rest))
   \<and> length ps = allocSizei s \<and> 4 \<le> allocSizei s \<and> allocSizei s < UINT_MOD
   \<and> stackSizei s \<le> allocSizei s \<and> slots_ok h (stackSizei s) ps"

definition owned :: "nat \<Rightarrow> nat \<Rightarrow> ptr list \<Rightarrow> nat set" where
  "owned a b ps = {a, b} \<union> {e. Ref e \<in> set ps}"

definition frame :: "'o heap \<Rightarrow> nat \<Rightarrow> nat \<Rightarrow> ptr list \<Rightarrow> nat \<rightharpoonup> 'o block" where
  "frame h a b ps = store h |` (- owned a b ps)"

text \<open>The contents of the slots; \<open>None\<close> for a \<open>NULL\<close> slot.\<close>

abbreviation contents :: "'o heap \<Rightarrow> ptr list \<Rightarrow> 'o option list" where
  "contents h ps \<equiv> map (obj_at h) ps"

lemma layoutD:
  assumes "layout h s a b ps rest"
  shows "heap_ok h" "selfp s = Ref a" "store h a = Some Raw" "bufpp s = Ref b"
    "store h b = Some (Arr (map Some ps @ rest))" "length ps = allocSizei s"
    "4 \<le> allocSizei s" "allocSizei s < UINT_MOD" "stackSizei s \<le> allocSizei s"
    "slots_ok h (stackSizei s) ps" "a \<noteq> b"
  using assms by (auto simp: layout_def)

lemma uniq_refsD:
  "uniq_refs ps \<Longrightarrow> i < length ps \<Longrightarrow> j < length ps \<Longrightarrow> ps ! i = Ref e \<Longrightarrow> ps ! j = Ref e \<Longrightarrow> i = j"
  unfolding uniq_refs_def by (metis ptr.distinct(1))

lemma uniq_refs_update:
  assumes U: "uniq_refs ps" and i: "i < length ps" and q: "q = Null \<or> q \<notin> set ps"
  shows "uniq_refs (ps[i := q])"
  unfolding uniq_refs_def
proof (intro allI impI)
  fix k j
  assume k: "k < length (ps[i := q])" and j: "j < length (ps[i := q])"
    and eq: "ps[i := q] ! k = ps[i := q] ! j" and ne: "ps[i := q] ! k \<noteq> Null"
  have "ps ! k \<noteq> q" "ps ! j \<noteq> q" if "q \<noteq> Null"
    using q that k j by (metis length_list_update nth_mem)+
  with U k j eq ne i show "k = j"
    by (cases "k = i"; cases "j = i") (auto simp: uniq_refs_def)
qed

lemma null_from_update:
  "null_from n ps \<Longrightarrow> i < length ps \<Longrightarrow> q = Null \<or> i < m \<Longrightarrow> n \<le> m \<Longrightarrow> null_from m (ps[i := q])"
  by (auto simp: null_from_def nth_list_update)

lemma all_live_mono:
  "all_live h ps \<Longrightarrow> (\<And>p. p \<in> set ps \<Longrightarrow> obj_at h p \<noteq> None \<Longrightarrow> obj_at h' p \<noteq> None) \<Longrightarrow> all_live h' ps"
  unfolding all_live_def by blast

lemma all_live_update:
  "all_live h ps \<Longrightarrow> q = Null \<or> obj_at h q \<noteq> None \<Longrightarrow> all_live h (ps[i := q])"
  unfolding all_live_def by (rule all_set_update)

lemma slot_live:
  "slots_ok h n ps \<Longrightarrow> i < length ps \<Longrightarrow> ps ! i = Ref e \<Longrightarrow> \<exists>v. store h e = Some (Obj v)"
  unfolding slots_ok_def all_live_def by (metis obj_at_Some nth_mem not_None_eq ptr.distinct(1) ptr.inject)

lemma not_in_update:
  assumes "uniq_refs ps" "i < length ps" "ps ! i = Ref e" "q \<noteq> Ref e"
  shows "Ref e \<notin> set (ps[i := q])"
proof
  assume "Ref e \<in> set (ps[i := q])"
  then obtain j where "j < length ps" "ps[i := q] ! j = Ref e"
    by (auto simp: in_set_conv_nth)
  with assms show False
    by (cases "j = i") (auto dest: uniq_refsD)
qed

lemma owned_live:
  assumes "layout h s a b ps rest" "e \<in> owned a b ps"
  shows "store h e \<noteq> None"
proof -
  from assms(2) consider "e = a" | "e = b" | "Ref e \<in> set ps"
    by (auto simp: owned_def)
  then show ?thesis
    using layoutD [OF assms(1)] by cases (auto simp: slots_ok_def all_live_def obj_at_Some)
qed

lemma slots_ok_clear:
  assumes S: "slots_ok h n ps" and i: "i < length ps" and e: "ps ! i = Ref e"
  shows "slots_ok (drop_block e h) n (ps[i := Null])"
proof -
  have "Ref e \<notin> set (ps[i := Null])"
    using S i e by (intro not_in_update) (simp_all add: slots_ok_def)
  then have "all_live (drop_block e h) (ps[i := Null])"
    using S all_live_update [of h ps Null i]
    by (auto simp: slots_ok_def all_live_def obj_at_drop_block)
  with S i show ?thesis
    by (simp add: slots_ok_def uniq_refs_update null_from_update [of n])
qed

lemma slots_ok_put:
  assumes S: "slots_ok h n ps" and i: "i < length ps" "i < m" "n \<le> m" and e: "Ref e \<notin> set ps"
    and live: "\<And>p. p \<in> set ps \<Longrightarrow> obj_at h p \<noteq> None \<Longrightarrow> obj_at h' p \<noteq> None"
    and new: "obj_at h' (Ref e) \<noteq> None"
  shows "slots_ok h' m (ps[i := Ref e])"
proof -
  have "all_live h' ps"
    using S live all_live_mono [of h ps h'] unfolding slots_ok_def by blast
  with S i e new show ?thesis
    by (simp add: slots_ok_def all_live_update uniq_refs_update null_from_update [of n])
qed

lemma contents_clear:
  assumes S: "slots_ok h n ps" and i: "i < length ps" and e: "ps ! i = Ref e"
  shows "contents (drop_block e h) (ps[i := Null]) = (contents h ps)[i := None]"
proof -
  have "Ref e \<notin> set (ps[i := Null])"
    using S i e by (intro not_in_update) (simp_all add: slots_ok_def)
  then have "contents (drop_block e h) (ps[i := Null]) = contents h (ps[i := Null])"
    by (auto simp: obj_at_drop_block)
  then show ?thesis by (simp add: map_update)
qed

section \<open>Reading a slot\<close>

lemma arr_get_slot:
  assumes "layout h s a b ps rest" "i < allocSizei s"
  shows "arr_get (bufpp s) i h = Some (ps ! i)"
  using layoutD [OF assms(1)] assms(2) by (simp add: arr_get_def nth_append)

section \<open>Callbacks touch the external state only\<close>

lemma hp_report [simp]: "hp (report cb err n c) = hp c"
  by (simp add: report_def split: option.splits)

lemma run_freeCallback_hp:
  assumes "obj_at (hp c) p \<noteq> None"
  obtains c1 where "run_freeCallback s p c = Some c1" "hp c1 = hp c"
proof -
  obtain v where "obj_at (hp c) p = Some v" using assms by auto
  then have "\<exists>c1. run_freeCallback s p c = Some c1 \<and> hp c1 = hp c"
    by (auto simp: run_freeCallback_def Let_def split: option.splits prod.splits)
  then show thesis using that by blast
qed

section \<open>Releasing a slot\<close>

lemma release_slot_spec:
  assumes L: "layout (hp c) s a b ps rest" and i: "i < allocSizei s"
  obtains c' where "release_slot s i c = Some c'"
    "layout (hp c') s a b (ps[i := Null]) rest"
    "frame (hp c') a b (ps[i := Null]) = frame (hp c) a b ps"
    "contents (hp c') (ps[i := Null]) = (contents (hp c) ps)[i := None]"
    "avail (hp c') = avail (hp c)" "asked (hp c') = asked (hp c)" "fresh (hp c') = fresh (hp c)"
proof (cases "ps ! i")
  case Null
  have [simp]: "ps[i := Null] = ps" using Null by (metis list_update_id)
  have [simp]: "(contents (hp c) ps)[i := None] = contents (hp c) ps"
    using Null i layoutD(6) [OF L] by (metis list_update_id map_update obj_at_Null \<open>ps[i := Null] = ps\<close>)
  have "release_slot s i c = Some c"
    using Null by (simp add: release_slot_def arr_get_slot [OF L i])
  with L show thesis by (intro that) auto
next
  case (Ref e)
  note D = layoutD [OF L]
  obtain v where v: "store (hp c) e = Some (Obj v)"
    using slot_live [OF D(10) _ Ref] i D(6) by auto
  have ne: "e \<noteq> a" "e \<noteq> b" using v D(3,5) by auto
  obtain c1 where c1: "run_freeCallback s (Ref e) c = Some c1" "hp c1 = hp c"
    using run_freeCallback_hp [of c "Ref e" s] v by auto
  let ?h = "set_block b (Arr ((map Some ps @ rest)[i := Some Null])) (drop_block e (hp c))"
  have put: "arr_put (bufpp s) i Null (drop_block e (hp c)) = Some ?h"
    using D ne i by (simp add: arr_put_eq)
  have run: "release_slot s i c = Some (c1\<lparr>hp := ?h\<rparr>)"
    using c1 v put Ref by (simp add: release_slot_def arr_get_slot [OF L i])
  have upd: "(map Some ps @ rest)[i := Some Null] = map Some (ps[i := Null]) @ rest"
    using i D(6) by (simp add: list_update_append map_update)
  have nb: "Ref b \<notin> set (ps[i := Null])"
    using all_live_update [of "hp c" ps Null i] D(5,10) by (auto simp: slots_ok_def all_live_def)
  have sl: "slots_ok ?h (stackSizei s) (ps[i := Null])"
    using slots_ok_clear [OF D(10) _ Ref] i D(6) nb
    by (auto simp: slots_ok_def all_live_def obj_at_set_block)
  have lay: "layout ?h s a b (ps[i := Null]) rest"
    using D ne sl upd by (simp add: layout_def heap_ok_set_block heap_ok_drop_block)
  have uniq: "Ref e \<notin> set (ps[i := Null])"
    using D(6,10) i Ref by (intro not_in_update) (auto simp: slots_ok_def)
  have fr: "frame ?h a b (ps[i := Null]) = frame (hp c) a b ps"
  proof
    fix x
    have "Ref x \<in> set (ps[i := Null]) \<longleftrightarrow> Ref x \<in> set ps" if "x \<noteq> e"
      using that Ref i D(6)
      by (metis in_set_conv_nth length_list_update nth_list_update ptr.distinct(1) ptr.inject)
    then show "frame ?h a b (ps[i := Null]) x = frame (hp c) a b ps x"
      using uniq ne Ref i D(6) nth_mem [of i ps]
      by (auto simp: frame_def restrict_map_def owned_def)
  qed
  have ct: "contents ?h (ps[i := Null]) = (contents (hp c) ps)[i := None]"
  proof -
    have "contents ?h (ps[i := Null]) = contents (drop_block e (hp c)) (ps[i := Null])"
      using nb by (auto simp: obj_at_set_block)
    with contents_clear [OF D(10) _ Ref] i D(6) show ?thesis by simp
  qed
  show thesis
    by (rule that [OF run]) (use lay fr ct c1(2) in auto)
qed

section \<open>Filling a slot\<close>

lemma layout_resize:
  "layout h s a b ps rest \<Longrightarrow> stackSizei s \<le> m \<Longrightarrow> m \<le> allocSizei s
     \<Longrightarrow> layout h (s\<lparr>stackSizei := m\<rparr>) a b ps rest"
  by (auto simp: layout_def slots_ok_def null_from_def)

lemma layout_refused: "layout (refused h) s a b ps rest = layout h s a b ps rest"
  by (simp add: layout_def slots_ok_def all_live_def)

lemma contents_refused [simp]: "contents (refused h) ps = contents h ps"
  by simp

lemma frame_refused [simp]: "frame (refused h) a b ps = frame h a b ps"
  by (simp add: frame_def)

lemma fresh_not_owned:
  assumes "layout h s a b ps rest"
  shows "fresh h \<notin> owned a b ps"
  using owned_live [OF assms, of "fresh h"] layoutD(1) [OF assms] by auto

text \<open>A block just allocated goes into an empty slot.\<close>

lemma fill_slot:
  assumes L: "layout h s a b ps rest" and i: "i < allocSizei s" "ps ! i = Null"
    and m: "i < m" "stackSizei s \<le> m" "m \<le> allocSizei s"
  obtains h' where "arr_put (bufpp s) i (Ref (fresh h)) (granted (Obj v) h) = Some h'"
    "layout h' (s\<lparr>stackSizei := m\<rparr>) a b (ps[i := Ref (fresh h)]) rest"
    "frame h' a b (ps[i := Ref (fresh h)]) = frame h a b ps"
    "contents h' (ps[i := Ref (fresh h)]) = (contents h ps)[i := Some v]"
    "avail h' = avail h"
proof -
  note D = layoutD [OF L]
  let ?f = "fresh h" and ?ps = "ps[i := Ref (fresh h)]"
  define h' where "h' = set_block b (Arr (map Some ?ps @ rest)) (granted (Obj v) h)"
  have fo: "?f \<noteq> a" "?f \<noteq> b" "Ref ?f \<notin> set ps"
    using fresh_not_owned [OF L] by (auto simp: owned_def)
  have nb: "Ref b \<notin> set ps"
    using D(5,10) by (auto simp: slots_ok_def all_live_def)
  have put: "arr_put (bufpp s) i (Ref ?f) (granted (Obj v) h) = Some h'"
    using D i fo by (simp add: h'_def arr_put_def list_update_append map_update)
  have same: "obj_at h' p = obj_at h p" if "p \<in> set ps" for p
    using that fo nb by (auto simp: h'_def obj_at_set_block obj_at_granted)
  have new: "obj_at h' (Ref ?f) = Some v"
    using fo by (simp add: h'_def obj_at_set_block obj_at_granted)
  have "slots_ok h' m ?ps"
    using D(6,10) i m fo same new by (intro slots_ok_put [of h "stackSizei s"]) auto
  then have lay: "layout h' (s\<lparr>stackSizei := m\<rparr>) a b ?ps rest"
    using D fo m by (simp add: h'_def layout_def heap_ok_set_block)
  have fr: "frame h' a b ?ps = frame h a b ps"
  proof
    fix x
    have "Ref x \<in> set ?ps \<longleftrightarrow> Ref x \<in> set ps \<or> x = ?f"
      using i D(6) by (auto simp: in_set_conv_nth nth_list_update) (metis ptr.distinct(1))
    then show "frame h' a b ?ps x = frame h a b ps x"
      using fo D(1) by (auto simp: h'_def frame_def restrict_map_def owned_def)
  qed
  have old: "contents h' ps = contents h ps"
    by (rule map_cong [OF refl same])
  have ct: "contents h' ?ps = (contents h ps)[i := Some v]"
    by (simp only: map_update new old)
  show thesis
    by (rule that [OF put lay fr ct]) (simp add: h'_def)
qed

section \<open>Copying an element\<close>

definition copied :: "('o, 's) genericStack \<Rightarrow> 'o \<Rightarrow> 's \<Rightarrow> 'o" where
  "copied s v x = (case copyCallbackp s of None \<Rightarrow> v | Some f \<Rightarrow> fst (snd (f v x)))"

lemma copy_element_spec [consumes 2, case_names refused granted]:
  assumes ok: "heap_ok (hp c)" and v: "obj_at (hp c) elementp = Some v"
  obtains (refused) c' where "copy_element s elementp c = Some (Null, c')" "hp c' = refused (hp c)"
      "\<not> avail (hp c) (asked (hp c))"
    | (granted) c' where "copy_element s elementp c = Some (Ref (fresh (hp c)), c')"
      "hp c' = granted (Obj (copied s v (ext c))) (hp c)" "avail (hp c) (asked (hp c))"
proof (cases "avail (hp c) (asked (hp c))")
  case False
  then show thesis
    by (intro refused) (auto simp: copy_element_def malloc_eq)
next
  case True
  have "obj_at (granted Raw (hp c)) elementp = Some v"
    using obj_at_fresh [OF ok v] v by (simp add: obj_at_granted)
  with True have "\<exists>c'. copy_element s elementp c = Some (Ref (fresh (hp c)), c')
      \<and> hp c' = granted (Obj (copied s v (ext c))) (hp c)"
    by (cases "copyCallbackp s")
      (auto simp: copy_element_def malloc_eq copied_def Let_def split: prod.splits)
  with True granted show thesis by blast
qed

end
