(* ===== verification/StackOps.thy ===== *)
theory StackOps
  imports StackInv
begin

text \<open>
  What each operation of the generic stack does to the represented value: a list with one entry
  per slot, \<open>None\<close> for a \<open>NULL\<close> slot, together with the part \<open>g\<close> of the heap the stack does not
  own. The operations are total where every allocation is granted and sizes stay below
  \<open>2 ^ 31\<close>; the invariant and the frame survive every refused allocation too.
\<close>

section \<open>The represented value\<close>

definition stack_rep ::
  "'o heap \<Rightarrow> ('o, 's) genericStack \<Rightarrow> 'o option list \<Rightarrow> (nat \<rightharpoonup> 'o block) \<Rightarrow> bool" where
  "stack_rep h s xs g \<longleftrightarrow>
     (\<exists>a b ps rest. layout h s a b ps rest \<and> xs = contents h ps \<and> g = frame h a b ps)"

text \<open>The same configuration: only the array and the two sizes may differ.\<close>

definition same_conf :: "('o, 's) genericStack \<Rightarrow> ('o, 's) genericStack \<Rightarrow> bool" where
  "same_conf s t \<longleftrightarrow>
     t = s\<lparr>bufpp := bufpp t, allocSizei := allocSizei t, stackSizei := stackSizei t\<rparr>"

lemma same_conf_refl [simp]: "same_conf s s"
  by (simp add: same_conf_def)

lemma same_conf_trans: "same_conf s t \<Longrightarrow> same_conf t u \<Longrightarrow> same_conf s u"
  unfolding same_conf_def by (cases s; cases t; cases u) simp

lemma same_conf_upd [simp]:
  "same_conf s (s\<lparr>stackSizei := n\<rparr>)"
  "same_conf s (s\<lparr>bufpp := p, allocSizei := m\<rparr>)"
  by (simp_all add: same_conf_def)

lemma same_confD:
  assumes "same_conf s t"
  shows "selfp t = selfp s" "elementSizei t = elementSizei s"
    "failureCallbackp t = failureCallbackp s" "freeCallbackp t = freeCallbackp s"
    "copyCallbackp t = copyCallbackp s" "optionGrowOnSeti t = optionGrowOnSeti s"
    "optionGrowOnGeti t = optionGrowOnGeti s"
  using assms unfolding same_conf_def by (cases s; cases t; simp)+

lemma stack_repD:
  assumes "stack_rep h s xs g"
  shows "length xs = allocSizei s" "4 \<le> allocSizei s" "allocSizei s < UINT_MOD"
    "stackSizei s \<le> allocSizei s" "heap_ok h"
    "\<And>i. i < allocSizei s \<Longrightarrow> stackSizei s \<le> i \<Longrightarrow> xs ! i = None"
proof -
  obtain a b ps rest where L: "layout h s a b ps rest" and xs: "xs = contents h ps"
    using assms unfolding stack_rep_def by blast
  note D = layoutD [OF L]
  show "length xs = allocSizei s" "4 \<le> allocSizei s" "allocSizei s < UINT_MOD"
    "stackSizei s \<le> allocSizei s" "heap_ok h"
    using D xs by simp_all
  show "xs ! i = None" if "i < allocSizei s" "stackSizei s \<le> i" for i
    using D(6,10) that xs by (simp add: slots_ok_def null_from_def)
qed

lemma stack_rep_pad: "stack_rep h s xs g \<Longrightarrow> stack_rep h s (pad None (allocSizei s) xs) g"
  by (simp add: stack_repD(1))

text \<open>The frame is part of the heap.\<close>

lemma stack_rep_frame: "stack_rep h s xs g \<Longrightarrow> g x = Some k \<Longrightarrow> store h x = Some k"
  unfolding stack_rep_def frame_def by (auto simp: restrict_map_def split: if_splits)

lemma stack_rep_refused: "stack_rep (refused h) s xs g = stack_rep h s xs g"
  by (simp add: stack_rep_def layout_refused)

section \<open>Growth\<close>

lemma grow_cells:
  "n < UINT_MOD \<Longrightarrow> to_size (n * PTR_BYTES) div PTR_BYTES = n"
  by (simp add: to_size_def UINT_MOD_def SIZE_MOD_def PTR_BYTES_def)

lemma null_from_append: "null_from n ps \<Longrightarrow> null_from n (ps @ replicate m Null)"
  by (auto simp: null_from_def nth_append)

lemma uniq_refs_append: "uniq_refs ps \<Longrightarrow> uniq_refs (ps @ replicate m Null)"
  unfolding uniq_refs_def by (auto simp: nth_append split: if_splits)

lemma slots_ok_append: "slots_ok h n ps \<Longrightarrow> slots_ok h n (ps @ replicate m Null)"
  by (auto simp: slots_ok_def null_from_append uniq_refs_append all_live_def)

lemma contents_append: "contents h (ps @ replicate m Null) = contents h ps @ replicate m None"
  by simp

lemma grow_bufpp_granted:
  assumes L: "layout (hp c) s a b ps rest" and av: "avail (hp c) (asked (hp c))"
    and sz: "2 * allocSizei s < UINT_MOD"
  obtains c' where
    "grow_bufpp s c
       = Some (True, s\<lparr>bufpp := Ref (fresh (hp c)), allocSizei := 2 * allocSizei s\<rparr>, c')"
    "layout (hp c') (s\<lparr>bufpp := Ref (fresh (hp c)), allocSizei := 2 * allocSizei s\<rparr>)
       a (fresh (hp c)) (ps @ replicate (allocSizei s) Null) []"
    "frame (hp c') a (fresh (hp c)) (ps @ replicate (allocSizei s) Null) = frame (hp c) a b ps"
    "contents (hp c') (ps @ replicate (allocSizei s) Null)
       = contents (hp c) ps @ replicate (allocSizei s) None"
    "avail (hp c') = avail (hp c)"
proof -
  note D = layoutD [OF L]
  let ?n = "allocSizei s" and ?f = "fresh (hp c)" and ?cs = "map Some ps @ rest"
  let ?ps = "ps @ replicate ?n Null"
  define new where "new = take (2 * ?n) ?cs @ replicate (2 * ?n - length ?cs) None"
  have len: "length new = 2 * ?n" by (simp add: new_def)
  have pre: "take ?n new = map Some ps" using D(6) by (simp add: new_def)
  define h1 where "h1 = drop_block b (granted (Arr new) (hp c))"
  define h2 where "h2 = set_block ?f (Arr (map Some ?ps)) h1"
  have fo: "?f \<noteq> a" "?f \<noteq> b" "Ref ?f \<notin> set ps"
    using fresh_not_owned [OF L] by (auto simp: owned_def)
  have nb: "Ref b \<notin> set ps"
    using D(5,10) by (auto simp: slots_ok_def all_live_def)
  have re: "arr_realloc (bufpp s) (2 * ?n) (hp c) = Some (Ref ?f, h1)"
    using D(4,5) av by (simp add: arr_realloc_eq h1_def new_def)
  have "store h1 ?f = Some (Arr new)" using fo by (simp add: h1_def)
  then have cl: "arr_clear (Ref ?f) ?n ?n h1 = Some h2"
    using len pre by (simp add: arr_clear_eq h2_def)
  have tw: "to_size (?n * 2) = 2 * ?n"
    using sz UINT_le_SIZE by (simp add: mult.commute)
  have run: "grow_bufpp s c
      = Some (True, s\<lparr>bufpp := Ref ?f, allocSizei := 2 * ?n\<rparr>, c\<lparr>hp := h2\<rparr>)"
    using re cl sz by (simp add: grow_bufpp_def Let_def tw grow_cells)
  have same: "obj_at h2 p = obj_at (hp c) p" if "p \<in> set ?ps" for p
    using that fo nb by (auto simp: h2_def h1_def obj_at_set_block obj_at_drop_block obj_at_granted)
  have "slots_ok (hp c) (stackSizei s) ?ps" using D(10) by (rule slots_ok_append)
  then have sl: "slots_ok h2 (stackSizei s) ?ps"
    using same by (simp add: slots_ok_def all_live_def)
  have lay: "layout h2 (s\<lparr>bufpp := Ref ?f, allocSizei := 2 * ?n\<rparr>) a ?f ?ps []"
    using D fo sl sz
    by (simp add: layout_def h2_def h1_def heap_ok_set_block heap_ok_drop_block)
  have fr: "frame h2 a ?f ?ps = frame (hp c) a b ps"
    using fo D(1)
    by (intro ext) (auto simp: frame_def restrict_map_def owned_def h2_def h1_def)
  have ct: "contents h2 ?ps = contents (hp c) ps @ replicate ?n None"
    using same by (subst contents_append [symmetric]) (rule map_cong [OF refl])
  show thesis
    by (rule that [OF run]) (use lay fr ct in \<open>auto simp: h2_def h1_def\<close>)
qed

lemma grow_bufpp_refused:
  assumes L: "layout (hp c) s a b ps rest" and av: "\<not> avail (hp c) (asked (hp c))"
  obtains c' where "grow_bufpp s c = Some (False, s, c')" "hp c' = refused (hp c)"
  using that layoutD [OF L] av by (auto simp: grow_bufpp_def arr_realloc_eq Let_def)

lemma grow_bufpp_too_big:
  assumes L: "layout (hp c) s a b ps rest" and av: "avail (hp c) (asked (hp c))"
    and sz: "UINT_MOD \<le> 2 * allocSizei s"
  shows "grow_bufpp s c = None"
proof -
  have "to_size (allocSizei s * 2) = 2 * allocSizei s"
    using layoutD(8) [OF L] by (simp add: to_size_def UINT_MOD_def SIZE_MOD_def)
  with layoutD [OF L] av sz show ?thesis
    by (auto simp: grow_bufpp_def arr_realloc_eq Let_def)
qed

section \<open>Pushing\<close>

text \<open>What an element argument denotes: nothing for \<open>NULL\<close>, else the copy the stack makes.\<close>

definition incoming :: "('o, 's) genericStack \<Rightarrow> 'o heap \<Rightarrow> ptr \<Rightarrow> 's \<Rightarrow> 'o option" where
  "incoming s h p x = map_option (\<lambda>v. copied s v x) (obj_at h p)"

definition live_arg :: "'o heap \<Rightarrow> ptr \<Rightarrow> bool" where
  "live_arg h p \<longleftrightarrow> p = Null \<or> obj_at h p \<noteq> None"

lemma live_arg_refused [simp]: "live_arg (refused h) p = live_arg h p"
  by (simp add: live_arg_def)

text \<open>An element goes into an empty slot \<open>i\<close> while the used size becomes \<open>m\<close>.\<close>

lemma store_in_slot [consumes 7, case_names refused granted]:
  assumes L: "layout (hp c) s a b ps rest" and i: "i < allocSizei s" "ps ! i = Null"
    and m: "i < m" "stackSizei s \<le> m" "m \<le> allocSizei s"
    and v: "obj_at (hp c) elementp = Some v"
  obtains (refused) c' where "copy_element s elementp c = Some (Null, c')"
      "hp c' = refused (hp c)" "\<not> avail (hp c) (asked (hp c))"
    | (granted) c' h' q where "copy_element s elementp c = Some (Ref q, c')"
      "arr_put (bufpp s) i (Ref q) (hp c') = Some h'"
      "layout h' (s\<lparr>stackSizei := m\<rparr>) a b (ps[i := Ref q]) rest"
      "frame h' a b (ps[i := Ref q]) = frame (hp c) a b ps"
      "contents h' (ps[i := Ref q]) = (contents (hp c) ps)[i := Some (copied s v (ext c))]"
      "avail h' = avail (hp c)"
proof -
  from layoutD(1) [OF L] v show thesis
  proof (cases rule: copy_element_spec [where s = s])
    case (refused c')
    then show thesis by (rule that(1))
  next
    case (granted c')
    from L i m obtain h' where
      "arr_put (bufpp s) i (Ref (fresh (hp c))) (hp c') = Some h'"
      "layout h' (s\<lparr>stackSizei := m\<rparr>) a b (ps[i := Ref (fresh (hp c))]) rest"
      "frame h' a b (ps[i := Ref (fresh (hp c))]) = frame (hp c) a b ps"
      "contents h' (ps[i := Ref (fresh (hp c))])
         = (contents (hp c) ps)[i := Some (copied s v (ext c))]"
      "avail h' = avail (hp c)"
      unfolding granted(2) by (rule fill_slot)
    with granted(1) show thesis by (rule that(2))
  qed
qed

lemma push_onto_spec [consumes 3, case_names refused pushed]:
  assumes R: "stack_rep (hp c) s xs g" and room: "stackSizei s < allocSizei s"
    and p: "live_arg (hp c) p"
  obtains (refused) c' where "push_onto s p c = Some (0, s, c')" "stack_rep (hp c') s xs g"
      "p \<noteq> Null" "\<not> avail (hp c) (asked (hp c))" "avail (hp c') = avail (hp c)"
    | (pushed) c' where
      "push_onto s p c = Some (1, s\<lparr>stackSizei := Suc (stackSizei s)\<rparr>, c')"
      "stack_rep (hp c') (s\<lparr>stackSizei := Suc (stackSizei s)\<rparr>)
         (xs[stackSizei s := incoming s (hp c) p (ext c)]) g"
      "avail (hp c') = avail (hp c)"
proof -
  let ?n = "stackSizei s"
  obtain a b ps rest where L: "layout (hp c) s a b ps rest" and xs: "xs = contents (hp c) ps"
    and g: "g = frame (hp c) a b ps"
    using R unfolding stack_rep_def by blast
  note D = layoutD [OF L]
  have slot: "ps ! ?n = Null"
    using D(6,10) room by (simp add: slots_ok_def null_from_def)
  show thesis
  proof (cases p)
    case Null
    have "arr_put (bufpp s) ?n Null (hp c) = Some (hp c)"
      using D room slot list_update_id [of "map Some ps @ rest" ?n]
      by (simp add: arr_put_def nth_append set_block_def map_upd_triv)
    then have run: "push_onto s p c = Some (1, s\<lparr>stackSizei := Suc ?n\<rparr>, c)"
      using Null by (simp add: push_onto_def)
    have "xs[?n := incoming s (hp c) p (ext c)] = xs"
      using stack_repD(6) [OF R room] Null by (metis incoming_def le_refl list_update_id obj_at_Null option.map(1))
    moreover have "stack_rep (hp c) (s\<lparr>stackSizei := Suc ?n\<rparr>) xs g"
      using layout_resize [OF L, of "Suc ?n"] room xs g unfolding stack_rep_def by fastforce
    ultimately show thesis by (intro pushed [OF run]) simp_all
  next
    case (Ref e)
    then obtain v where v: "obj_at (hp c) p = Some v"
      using p by (auto simp: live_arg_def)
    have m: "?n < Suc ?n" "?n \<le> Suc ?n" "Suc ?n \<le> allocSizei s"
      using room by simp_all
    from L room slot m v show thesis
    proof (cases rule: store_in_slot)
      case (refused c')
      then show thesis
        using Ref R by (intro that(1) [of c']) (auto simp: push_onto_def stack_rep_refused)
    next
      case (granted c' h' q)
      have "stack_rep h' (s\<lparr>stackSizei := Suc ?n\<rparr>) (xs[?n := Some (copied s v (ext c))]) g"
        unfolding stack_rep_def xs g using granted(3-5) by metis
      with granted(1,2,6) Ref v show thesis
        by (intro that(2) [of "c'\<lparr>hp := h'\<rparr>"]) (auto simp: push_onto_def incoming_def)
    qed
  qed
qed

lemma grow_bufpp_rep:
  assumes R: "stack_rep (hp c) s xs g" and run: "grow_bufpp s c = Some (ok, s1, c1)"
  shows "same_conf s s1 \<and> avail (hp c1) = avail (hp c) \<and> stackSizei s1 = stackSizei s
    \<and> (if ok then avail (hp c) (asked (hp c)) \<and> allocSizei s1 = 2 * allocSizei s
          \<and> stack_rep (hp c1) s1 (xs @ replicate (allocSizei s) None) g
       else \<not> avail (hp c) (asked (hp c)) \<and> s1 = s \<and> stack_rep (hp c1) s xs g)"
proof -
  obtain a b ps rest where L: "layout (hp c) s a b ps rest" and xs: "xs = contents (hp c) ps"
    and g: "g = frame (hp c) a b ps"
    using R unfolding stack_rep_def by blast
  show ?thesis
  proof (cases "avail (hp c) (asked (hp c))")
    case False
    from L False obtain c' where "grow_bufpp s c = Some (False, s, c')" "hp c' = refused (hp c)"
      by (rule grow_bufpp_refused)
    with run R False show ?thesis by (auto simp: stack_rep_refused)
  next
    case True
    have sz: "2 * allocSizei s < UINT_MOD"
      using grow_bufpp_too_big [OF L True] run by (metis not_le option.distinct(1))
    let ?s = "s\<lparr>bufpp := Ref (fresh (hp c)), allocSizei := 2 * allocSizei s\<rparr>"
    from L True sz obtain c' where c': "grow_bufpp s c = Some (True, ?s, c')"
      "layout (hp c') ?s a (fresh (hp c)) (ps @ replicate (allocSizei s) Null) []"
      "frame (hp c') a (fresh (hp c)) (ps @ replicate (allocSizei s) Null) = g"
      "contents (hp c') (ps @ replicate (allocSizei s) Null) = xs @ replicate (allocSizei s) None"
      "avail (hp c') = avail (hp c)"
      unfolding xs g by (rule grow_bufpp_granted)
    then have "stack_rep (hp c') ?s (xs @ replicate (allocSizei s) None) g"
      unfolding stack_rep_def by metis
    with c' run True show ?thesis by auto
  qed
qed

lemma arr_clear_obj:
  "arr_clear p i n h = Some h' \<Longrightarrow> obj_at h' q = obj_at h q"
  by (induction n arbitrary: i h) (fastforce simp: run_simps arr_put_Some obj_at_set_block)+

lemma grow_bufpp_obj:
  assumes R: "stack_rep (hp c) s xs g" and run: "grow_bufpp s c = Some (ok, s1, c1)"
  shows "obj_at (hp c1) p = obj_at (hp c) p" and "ok \<Longrightarrow> ext c1 = ext c"
proof -
  obtain a b ps rest where L: "layout (hp c) s a b ps rest"
    using R unfolding stack_rep_def by blast
  note D = layoutD [OF L]
  have "obj_at (hp c1) p = obj_at (hp c) p \<and> (ok \<longrightarrow> ext c1 = ext c)"
  proof (cases "avail (hp c) (asked (hp c))")
    case False
    from L False obtain c' where "grow_bufpp s c = Some (False, s, c')" "hp c' = refused (hp c)"
      by (rule grow_bufpp_refused)
    with run show ?thesis by auto
  next
    case True
    then obtain n h2 cs where h2: "hp c1 = h2" "ext c1 = ext c"
      "arr_clear (Ref (fresh (hp c))) (allocSizei s) n
         (drop_block b (granted (Arr cs) (hp c))) = Some h2"
      using run D(4,5) by (auto simp: grow_bufpp_def arr_realloc_eq Let_def run_simps)
    have "obj_at h2 p = obj_at (drop_block b (granted (Arr cs) (hp c))) p"
      using h2(3) by (rule arr_clear_obj)
    with h2 D(1,5) show ?thesis
      by (cases p) (auto simp: obj_at_drop_block obj_at_granted)
  qed
  then show "obj_at (hp c1) p = obj_at (hp c) p" "ok \<Longrightarrow> ext c1 = ext c" by simp_all
qed

lemma pushi_run:
  assumes R: "stack_rep (hp c) s xs g" and p: "live_arg (hp c) p"
    and run: "pushi s p c = Some (r, s1, c1)"
  shows "same_conf s s1 \<and> avail (hp c1) = avail (hp c) \<and> allocSizei s \<le> allocSizei s1
    \<and> (if r = 1
       then stackSizei s1 = Suc (stackSizei s)
          \<and> stack_rep (hp c1) s1
              ((pad None (allocSizei s1) xs)[stackSizei s := incoming s (hp c) p (ext c)]) g
       else r = 0 \<and> \<not> (\<forall>n. avail (hp c) n) \<and> stackSizei s1 = stackSizei s
          \<and> stack_rep (hp c1) s1 (pad None (allocSizei s1) xs) g)"
proof -
  note RD = stack_repD [OF R]
  have pad_xs: "pad None (allocSizei s) xs = xs" using RD(1) by simp
  show ?thesis
  proof (cases "allocSizei s \<le> stackSizei s")
    case False
    then have room: "stackSizei s < allocSizei s" and po: "pushi s p c = push_onto s p c"
      by (simp_all add: pushi_def)
    from R room p show ?thesis
      using run po pad_xs by (cases rule: push_onto_spec) auto
  next
    case True
    with run obtain ok s2 c2 where gr: "grow_bufpp s c = Some (ok, s2, c2)"
      and rest: "(if ok then push_onto s2 p c2 else Some (0, s2, c2)) = Some (r, s1, c1)"
      by (auto simp: pushi_def run_simps)
    note G = grow_bufpp_rep [OF R gr] and O = grow_bufpp_obj [OF R gr]
    show ?thesis
    proof (cases ok)
      case False
      with G rest R pad_xs show ?thesis by auto
    next
      case True
      with G have sc: "same_conf s s2" and al: "allocSizei s2 = 2 * allocSizei s"
        and st: "stackSizei s2 = stackSizei s" and av: "avail (hp c2) = avail (hp c)"
        and R2: "stack_rep (hp c2) s2 (xs @ replicate (allocSizei s) None) g"
        by simp_all
      have pd: "xs @ replicate (allocSizei s) None = pad None (allocSizei s2) xs"
        using RD(1) al by (simp add: pad_def)
      have inc: "incoming s2 (hp c2) p (ext c2) = incoming s (hp c) p (ext c)"
        using O True same_confD(5) [OF sc] by (simp add: incoming_def copied_def)
      have room: "stackSizei s2 < allocSizei s2" using RD(2,4) al st by simp
      have p2: "live_arg (hp c2) p" using p O by (simp add: live_arg_def)
      have po: "push_onto s2 p c2 = Some (r, s1, c1)" using rest True by simp
      from R2 room p2 show ?thesis
        using po sc al st av inc unfolding pd
        by (cases rule: push_onto_spec) (auto intro: same_conf_trans)
    qed
  qed
qed

lemma pushi_defined:
  assumes R: "stack_rep (hp c) s xs g" and p: "live_arg (hp c) p"
    and sz: "2 * allocSizei s < UINT_MOD"
  shows "\<exists>r s1 c1. pushi s p c = Some (r, s1, c1)"
proof (cases "allocSizei s \<le> stackSizei s")
  case False
  then have room: "stackSizei s < allocSizei s" by simp
  from R room p show ?thesis
    using False by (cases rule: push_onto_spec) (auto simp: pushi_def)
next
  case True
  have "\<exists>ok s2 c2. grow_bufpp s c = Some (ok, s2, c2)"
    using R sz grow_bufpp_granted grow_bufpp_refused unfolding stack_rep_def by metis
  then obtain ok s2 c2 where gr: "grow_bufpp s c = Some (ok, s2, c2)" by blast
  note G = grow_bufpp_rep [OF R gr] and O = grow_bufpp_obj [OF R gr]
  show ?thesis
  proof (cases ok)
    case False
    with True gr show ?thesis by (simp add: pushi_def)
  next
    case ok: True
    with G have R2: "stack_rep (hp c2) s2 (xs @ replicate (allocSizei s) None) g"
      and room: "stackSizei s2 < allocSizei s2"
      using stack_repD(2,4) [OF R] by simp_all
    have p2: "live_arg (hp c2) p" using p O by (simp add: live_arg_def)
    from R2 room p2 show ?thesis
      using ok True gr by (cases rule: push_onto_spec) (auto simp: pushi_def)
  qed
qed

section \<open>The growth loop\<close>

lemma live_arg_Null [simp]: "live_arg h Null"
  by (simp add: live_arg_def)

lemma pushi_Null_run:
  assumes R: "stack_rep (hp c) s xs g" and run: "pushi s Null c = Some (r, s1, c1)"
  shows "stack_rep (hp c1) s1 (pad None (allocSizei s1) xs) g"
    and "same_conf s s1" "avail (hp c1) = avail (hp c)" "allocSizei s \<le> allocSizei s1"
    and "stackSizei s \<le> stackSizei s1" "stackSizei s1 \<le> Suc (stackSizei s)"
    and "(\<forall>n. avail (hp c) n) \<Longrightarrow> stackSizei s1 = Suc (stackSizei s)"
proof -
  have beyond: "(pad None m xs)[stackSizei s := None] = pad None m xs" for m
  proof (cases "stackSizei s < length xs")
    case True
    then have "pad None m xs ! stackSizei s = None"
      using stack_repD(1,6) [OF R] by (simp add: pad_def nth_append)
    then show ?thesis by (metis list_update_id)
  next
    case False
    then have "pad None m xs ! i = None" if "i = stackSizei s" "i < length (pad None m xs)" for i
      using that by (simp add: pad_def nth_append)
    then show ?thesis by (metis list_update_beyond list_update_id not_le_imp_less)
  qed
  note P = pushi_run [OF R live_arg_Null run, unfolded incoming_def, simplified]
  show "stack_rep (hp c1) s1 (pad None (allocSizei s1) xs) g"
    using P by (auto simp: beyond split: if_splits)
  show "same_conf s s1" "avail (hp c1) = avail (hp c)" "allocSizei s \<le> allocSizei s1"
    "stackSizei s \<le> stackSizei s1" "stackSizei s1 \<le> Suc (stackSizei s)"
    "(\<forall>n. avail (hp c) n) \<Longrightarrow> stackSizei s1 = Suc (stackSizei s)"
    using P by (auto split: if_splits)
qed

text \<open>Whatever the allocator does, a growth loop that ends leaves a stack with the slot asked for.\<close>

lemma grow_to_run:
  assumes "grow_to index s c = Some (s', c')" and "stack_rep (hp c) s xs g"
  shows "stack_rep (hp c') s' (pad None (allocSizei s') xs) g \<and> same_conf s s'
    \<and> avail (hp c') = avail (hp c) \<and> index < allocSizei s' \<and> allocSizei s \<le> allocSizei s'
    \<and> stackSizei s \<le> stackSizei s' \<and> stackSizei s' \<le> max (stackSizei s) (Suc index)"
proof -
  let ?P = "\<lambda>index s c (s', c'). \<forall>xs. stack_rep (hp c) s xs g \<longrightarrow>
    stack_rep (hp c') s' (pad None (allocSizei s') xs) g \<and> same_conf s s'
    \<and> avail (hp c') = avail (hp c) \<and> index < allocSizei s' \<and> allocSizei s \<le> allocSizei s'
    \<and> stackSizei s \<le> stackSizei s' \<and> stackSizei s' \<le> max (stackSizei s) (Suc index)"
  have "?P index s c (s', c')"
  proof (rule grow_to.raw_induct [OF _ assms(1)])
    fix f :: "nat \<Rightarrow> ('a, 'b) genericStack \<Rightarrow> ('a, 'b) cstate
                \<Rightarrow> (('a, 'b) genericStack \<times> ('a, 'b) cstate) option"
      and i and t :: "('a, 'b) genericStack" and d and r
    assume IH: "\<And>i t d r. f i t d = Some r \<Longrightarrow> ?P i t d r"
      and run: "(if allocSizei t \<le> i
         then do { (k, s1, c1) \<leftarrow> pushi t Null d; f i s1 c1 } else Some (t, d)) = Some r"
    show "?P i t d r"
    proof (cases "allocSizei t \<le> i")
      case False
      with run show ?thesis by (auto intro: stack_rep_pad)
    next
      case True
      with run obtain k s1 c1 where p: "pushi t Null d = Some (k, s1, c1)" and next': "f i s1 c1 = Some r"
        by (auto simp: run_simps)
      obtain u e where r: "r = (u, e)" by (cases r)
      show ?thesis
        unfolding r prod.case
      proof (intro allI impI)
        fix xs assume R: "stack_rep (hp d) t xs g"
        note N = pushi_Null_run [OF R p]
        note I = IH [OF next', unfolded r prod.case, rule_format, OF N(1)]
        have "pad None (allocSizei u) (pad None (allocSizei s1) xs) = pad None (allocSizei u) xs"
          using I by (simp add: pad_pad)
        with I N(2-6) stack_repD(4) [OF R] True
        show "stack_rep (hp e) u (pad None (allocSizei u) xs) g \<and> same_conf t u
          \<and> avail (hp e) = avail (hp d) \<and> i < allocSizei u \<and> allocSizei t \<le> allocSizei u
          \<and> stackSizei t \<le> stackSizei u \<and> stackSizei u \<le> max (stackSizei t) (Suc i)"
          by (auto intro: same_conf_trans)
      qed
    qed
  qed
  with assms(2) show ?thesis by auto
qed

text \<open>The loop ends when every allocation is granted.\<close>

lemma grow_to_ends:
  assumes "stack_rep (hp c) s xs g" "\<forall>n. avail (hp c) n" "2 * index < UINT_MOD"
  shows "\<exists>s' c'. grow_to index s c = Some (s', c')"
  using assms
proof (induction "Suc index - stackSizei s" arbitrary: s c xs rule: less_induct)
  case less
  show ?case
  proof (cases "allocSizei s \<le> index")
    case False
    then show ?thesis by (subst grow_to.simps) simp
  next
    case True
    then have "2 * allocSizei s < UINT_MOD" using less.prems(3) by simp
    with pushi_defined [OF less.prems(1) live_arg_Null] obtain r s1 c1
      where p: "pushi s Null c = Some (r, s1, c1)" by blast
    note N = pushi_Null_run [OF less.prems(1) p]
    have "Suc index - stackSizei s1 < Suc index - stackSizei s"
      using N(7) [OF less.prems(2)] stack_repD(4) [OF less.prems(1)] True by simp
    from less.hyps [OF this N(1)] N(3) less.prems(2,3)
    obtain s' c' where "grow_to index s1 c1 = Some (s', c')" by auto
    with True p show ?thesis by (subst grow_to.simps) simp
  qed
qed

end
