(* ===== verification/StackSpec.thy ===== *)
theory StackSpec
  imports StackOps
begin

text \<open>
  The contract of the generic stack as its callers see it: a total map from indices to contents
  (\<open>stack_view\<close>, where \<open>None\<close> is \<open>NULL\<close>), the invariant \<open>stack_ok\<close>, and the part \<open>g\<close> of the
  heap that is not the stack's. Construction and destruction are inverse on the heap; every
  operation in between leaves \<open>g\<close> alone. The theorems also record where the code breaks: small
  elements, popped elements, a growth loop without memory, self-assignment.
\<close>

section \<open>Contract\<close>

definition stack_ok :: "'o heap \<Rightarrow> ('o, 's) genericStack \<Rightarrow> (nat \<rightharpoonup> 'o block) \<Rightarrow> bool" where
  "stack_ok h s g \<longleftrightarrow> (\<exists>xs. stack_rep h s xs g)"

definition stack_view :: "'o heap \<Rightarrow> ('o, 's) genericStack \<Rightarrow> nat \<Rightarrow> 'o option" where
  "stack_view h s i =
     (if i < allocSizei s
      then (case arr_get (bufpp s) i h of None \<Rightarrow> None | Some p \<Rightarrow> obj_at h p) else None)"

text \<open>A caller's element argument: \<open>NULL\<close> or an object that is not part of the stack.\<close>

definition outside_arg :: "(nat \<rightharpoonup> 'o block) \<Rightarrow> ptr \<Rightarrow> bool" where
  "outside_arg g p \<longleftrightarrow> (case p of Null \<Rightarrow> True
     | Ref a \<Rightarrow> (case g a of Some (Obj v) \<Rightarrow> True | _ \<Rightarrow> False))"

lemma stack_rep_view: "stack_rep h s xs g \<Longrightarrow> stack_view h s = nth_or None xs"
proof
  fix i
  assume "stack_rep h s xs g"
  then obtain a b ps rest where L: "layout h s a b ps rest" and xs: "xs = contents h ps"
    unfolding stack_rep_def by blast
  show "stack_view h s i = nth_or None xs i"
    using layoutD(6) [OF L] by (auto simp: stack_view_def arr_get_slot [OF L] nth_or_def xs)
qed

lemma stack_ok_heap: "stack_ok h s g \<Longrightarrow> heap_ok h"
  unfolding stack_ok_def by (auto dest: stack_repD)

lemma stack_ok_refused [simp]: "stack_ok (refused h) s g = stack_ok h s g"
  by (simp add: stack_ok_def stack_rep_refused)

lemma outside_live: "stack_rep h s xs g \<Longrightarrow> outside_arg g p \<Longrightarrow> live_arg h p"
  by (cases p) (auto simp: outside_arg_def live_arg_def dest: stack_rep_frame
      split: option.splits block.splits)

section \<open>Construction\<close>

text \<open>
  With elements of at least a pointer's size the new stack is empty and well formed, and it owns
  exactly the blocks added to the heap.
\<close>

lemma granted_asked: "asked (granted b h) = Suc (asked h)"
  by (simp add: granted_def)

lemma newp_granted:
  assumes pos: "0 < elemSize" and n: "4 \<le> to_size (elemSize * STACK_INIT_SIZE) div PTR_BYTES"
    and ok: "heap_ok (hp c)" and av: "avail (hp c) (asked (hp c))" "avail (hp c) (Suc (asked (hp c)))"
  obtains s c' where "genericStack_newp elemSize optionp c = Some (Some s, c')"
    "stack_rep (hp c') s (replicate 4 None) (store (hp c))" "avail (hp c') = avail (hp c)"
    "stackSizei s = 0" "ext c' = ext c" "elementSizei s = elemSize"
    "failureCallbackp s = Option.bind optionp opt_failureCallbackp"
    "freeCallbackp s = Option.bind optionp opt_freeCallbackp"
    "copyCallbackp s = Option.bind optionp opt_copyCallbackp"
    "optionGrowOnSeti s \<longleftrightarrow> (\<exists>q. optionp = Some q \<and> has_flag (growFlags q) GENERICSTACK_OPTION_GROW_ON_SET)"
    "optionGrowOnGeti s \<longleftrightarrow> (\<exists>q. optionp = Some q \<and> has_flag (growFlags q) GENERICSTACK_OPTION_GROW_ON_GET)"
proof -
  let ?f = "fresh (hp c)"
  define n where "n = to_size (elemSize * STACK_INIT_SIZE) div PTR_BYTES"
  have n: "4 \<le> n" using n by (simp add: n_def)
  define h2 where "h2 = granted (Arr (replicate n None)) (granted Raw (hp c))"
  define h3 where "h3 = set_block (Suc ?f) (Arr (map Some (replicate 4 Null) @ replicate (n - 4) None)) h2"
  have "store h2 (Suc ?f) = Some (Arr (replicate n None))" by (simp add: h2_def)
  then have cl: "arr_clear (Ref (Suc ?f)) 0 STACK_INIT_SIZE h2 = Some h3"
    using n by (simp add: arr_clear_eq h3_def STACK_INIT_SIZE_def)
  have cells: "to_size (elemSize * STACK_INIT_SIZE) div PTR_BYTES = n" by (simp add: n_def)
  let ?s = "\<lparr>selfp = Ref ?f, bufpp = Ref (Suc ?f), allocSizei = STACK_INIT_SIZE, stackSizei = 0,
     elementSizei = elemSize,
     failureCallbackp = (case optionp of None \<Rightarrow> None | Some q \<Rightarrow> opt_failureCallbackp q),
     freeCallbackp = (case optionp of None \<Rightarrow> None | Some q \<Rightarrow> opt_freeCallbackp q),
     copyCallbackp = (case optionp of None \<Rightarrow> None | Some q \<Rightarrow> opt_copyCallbackp q),
     optionGrowOnSeti = (case optionp of None \<Rightarrow> False
       | Some q \<Rightarrow> has_flag (growFlags q) GENERICSTACK_OPTION_GROW_ON_SET),
     optionGrowOnGeti = (case optionp of None \<Rightarrow> False
       | Some q \<Rightarrow> has_flag (growFlags q) GENERICSTACK_OPTION_GROW_ON_GET)\<rparr>"
  have run: "genericStack_newp elemSize optionp c = Some (Some ?s, c\<lparr>hp := h3\<rparr>)"
    using pos av cl by (simp add: genericStack_newp_def malloc_eq Let_def cells h2_def granted_asked)
  have "heap_ok h3"
    using ok by (simp add: h3_def h2_def heap_ok_set_block)
  then have "layout h3 ?s ?f (Suc ?f) (replicate 4 Null) (replicate (n - 4) None)"
    by (simp add: layout_def h3_def h2_def STACK_INIT_SIZE_def UINT_MOD_def slots_ok_def all_live_def
        uniq_refs_def null_from_def)
  moreover have "frame h3 ?f (Suc ?f) (replicate 4 Null) = store (hp c)"
    using heap_okD [OF ok] by (auto simp: frame_def owned_def restrict_map_def h3_def h2_def fun_eq_iff
        heap_ok_def intro: ok [unfolded heap_ok_def, rule_format, symmetric])
  ultimately have rep: "stack_rep h3 ?s (replicate 4 None) (store (hp c))"
    unfolding stack_rep_def by (metis map_replicate obj_at_Null)
  show thesis
    by (rule that [OF run]) (use rep in \<open>auto simp: h3_def h2_def split: option.splits\<close>)
qed

lemma newp_built:
  assumes sz: "PTR_BYTES \<le> elemSize" "elemSize * STACK_INIT_SIZE < SIZE_MOD"
    and ok: "heap_ok (hp c)" and av: "\<forall>n. avail (hp c) n"
  obtains s c' where "genericStack_newp elemSize optionp c = Some (Some s, c')"
    "stack_rep (hp c') s (replicate 4 None) (store (hp c))" "avail (hp c') = avail (hp c)"
    "stackSizei s = 0" "ext c' = ext c" "elementSizei s = elemSize"
    "failureCallbackp s = Option.bind optionp opt_failureCallbackp"
    "freeCallbackp s = Option.bind optionp opt_freeCallbackp"
    "copyCallbackp s = Option.bind optionp opt_copyCallbackp"
    "optionGrowOnSeti s \<longleftrightarrow> (\<exists>q. optionp = Some q \<and> has_flag (growFlags q) GENERICSTACK_OPTION_GROW_ON_SET)"
    "optionGrowOnGeti s \<longleftrightarrow> (\<exists>q. optionp = Some q \<and> has_flag (growFlags q) GENERICSTACK_OPTION_GROW_ON_GET)"
proof -
  have "0 < elemSize" "4 \<le> to_size (elemSize * STACK_INIT_SIZE) div PTR_BYTES"
    using sz by (simp_all add: STACK_INIT_SIZE_def PTR_BYTES_def)
  from newp_granted [OF this ok, of optionp] av that show thesis by metis
qed

text \<open>Whatever is refused, a construction that returns gives a new stack, or nothing and leaks nothing.\<close>

lemma newp_runs:
  assumes run: "genericStack_newp elemSize optionp c = Some (sp, c')" and ok: "heap_ok (hp c)"
  shows "case sp of
      None \<Rightarrow> store (hp c') = store (hp c) \<and> heap_ok (hp c')
    | Some s \<Rightarrow> stack_rep (hp c') s (replicate 4 None) (store (hp c))
        \<and> freeCallbackp s = Option.bind optionp opt_freeCallbackp
        \<and> copyCallbackp s = Option.bind optionp opt_copyCallbackp
        \<and> (optionGrowOnSeti s \<longleftrightarrow> (\<exists>q. optionp = Some q \<and> has_flag (growFlags q) GENERICSTACK_OPTION_GROW_ON_SET))
        \<and> (optionGrowOnGeti s \<longleftrightarrow> (\<exists>q. optionp = Some q \<and> has_flag (growFlags q) GENERICSTACK_OPTION_GROW_ON_GET))"
proof -
  let ?n = "to_size (elemSize * STACK_INIT_SIZE) div PTR_BYTES" and ?h = "hp c"
  consider "elemSize = 0" | "0 < elemSize" "\<not> avail ?h (asked ?h)"
    | "0 < elemSize" "avail ?h (asked ?h)" "\<not> avail ?h (Suc (asked ?h))"
    | (built) "0 < elemSize" "avail ?h (asked ?h)" "avail ?h (Suc (asked ?h))" by blast
  then show ?thesis
  proof cases
    case built
    have "4 \<le> ?n"
    proof (rule ccontr)
      assume "\<not> 4 \<le> ?n"
      then have "arr_clear (Ref (Suc (fresh ?h))) 0 STACK_INIT_SIZE (granted (Arr (replicate ?n None)) (granted Raw ?h)) = None"
        by (intro arr_clear_bounds [of _ _ "replicate ?n None"]) (simp_all add: STACK_INIT_SIZE_def)
      with run built show False by (simp add: genericStack_newp_def malloc_eq Let_def granted_asked)
    qed
    then show ?thesis
    proof (rule newp_granted [OF built(1) _ ok built(2,3), of optionp])
      fix t d
      assume "genericStack_newp elemSize optionp c = Some (Some t, d)"
        "stack_rep (hp d) t (replicate 4 None) (store (hp c))"
        "freeCallbackp t = Option.bind optionp opt_freeCallbackp"
        "copyCallbackp t = Option.bind optionp opt_copyCallbackp"
        "optionGrowOnSeti t \<longleftrightarrow> (\<exists>q. optionp = Some q \<and> has_flag (growFlags q) GENERICSTACK_OPTION_GROW_ON_SET)"
        "optionGrowOnGeti t \<longleftrightarrow> (\<exists>q. optionp = Some q \<and> has_flag (growFlags q) GENERICSTACK_OPTION_GROW_ON_GET)"
      moreover from run this(1) have "sp = Some t" "c' = d" by simp_all
      ultimately show ?thesis by simp
    qed
  next
    case 3
    have "store ?h (fresh ?h) = None" using ok by simp
    with run 3 ok show ?thesis
      by (auto simp: genericStack_newp_def malloc_eq Let_def bind_Some_iff fun_upd_idem heap_ok_drop_block granted_asked)
  qed (use run ok in \<open>auto simp: genericStack_newp_def malloc_eq Let_def\<close>)
qed

section \<open>Changes outside the stack\<close>

text \<open>A block is outside (\<open>f\<close> shows it as it is, before and after) or owned (it stays as it was).\<close>

lemma stack_rep_change:
  assumes R: "stack_rep h s xs f" and ok: "heap_ok h'"
    and ch: "\<And>a. (f a = store h a \<and> f' a = store h' a) \<or> (f a \<noteq> store h a \<and> f' a = None \<and> store h' a = store h a)"
  shows "stack_rep h' s xs f'"
proof -
  obtain a b ps rest where L: "layout h s a b ps rest" and xs: "xs = contents h ps" and f: "f = frame h a b ps"
    using R unfolding stack_rep_def by blast
  have own: "store h' e = store h e \<and> f' e = None" if "e \<in> owned a b ps" for e
  proof -
    have "f e = None" using that by (simp add: f frame_def restrict_map_def)
    with owned_live [OF L that] ch [of e] show ?thesis by auto
  qed
  have out: "f' e = store h' e" if "e \<notin> owned a b ps" for e
    using ch [of e] that by (auto simp: f frame_def restrict_map_def)
  have same: "obj_at h' p = obj_at h p" if "p \<in> set ps" for p
    using own that by (cases p) (auto simp: owned_def)
  have ab: "store h' a = store h a" "store h' b = store h b" using own by (auto simp: owned_def)
  have "layout h' s a b ps rest"
    using L ok ab same unfolding layout_def slots_ok_def all_live_def by simp
  moreover have "xs = contents h' ps" using same by (simp add: xs)
  moreover have "f' = frame h' a b ps"
    by (rule ext) (use own out in \<open>auto simp: frame_def restrict_map_def\<close>)
  ultimately show ?thesis unfolding stack_rep_def by blast
qed

section \<open>Destruction\<close>

lemma destroy_slots_run:
  assumes "layout (hp c) s a b ps rest" "i + n = allocSizei s" "\<forall>j < i. ps ! j = Null"
  obtains c' where "destroy_slots s i n c = Some c'"
    "layout (hp c') s a b (replicate (allocSizei s) Null) rest"
    "frame (hp c') a b (replicate (allocSizei s) Null) = frame (hp c) a b ps"
proof -
  have "\<exists>c'. destroy_slots s i n c = Some c'
    \<and> layout (hp c') s a b (replicate (allocSizei s) Null) rest
    \<and> frame (hp c') a b (replicate (allocSizei s) Null) = frame (hp c) a b ps"
    using assms
  proof (induction n arbitrary: i ps c)
    case 0
    have "ps = replicate (allocSizei s) Null"
      using 0 layoutD(6) [OF 0(1)] by (intro nth_equalityI) auto
    with 0 show ?case by auto
  next
    case (Suc n)
    from Suc.prems have i: "i < allocSizei s" by simp
    from Suc.prems(1) i obtain c1 where c1: "release_slot s i c = Some c1"
      "layout (hp c1) s a b (ps[i := Null]) rest"
      "frame (hp c1) a b (ps[i := Null]) = frame (hp c) a b ps"
      by (rule release_slot_spec)
    have "\<forall>j < Suc i. ps[i := Null] ! j = Null"
      using Suc.prems(3) i layoutD(6) [OF Suc.prems(1)] by (auto simp: less_Suc_eq)
    with Suc.IH [OF c1(2), of "Suc i"] Suc.prems(2) c1 show ?case by simp
  qed
  with that show thesis by blast
qed

lemma stack_destroyv_run:
  assumes "stack_rep (hp c) s xs g"
  obtains c' where "genericStack_destroyv (Some (Some s)) c = Some (Some None, c')"
    "store (hp c') = g" "heap_ok (hp c')"
proof -
  obtain a b ps rest where L: "layout (hp c) s a b ps rest" and g: "g = frame (hp c) a b ps"
    using assms unfolding stack_rep_def by blast
  have start: "0 + allocSizei s = allocSizei s" "\<forall>j < 0. ps ! j = Null" by simp_all
  from L start obtain c1 where c1: "destroy_slots s 0 (allocSizei s) c = Some c1"
    "layout (hp c1) s a b (replicate (allocSizei s) Null) rest"
    "frame (hp c1) a b (replicate (allocSizei s) Null) = g"
    unfolding g by (rule destroy_slots_run)
  note D = layoutD [OF c1(2)]
  let ?h = "drop_block a (drop_block b (hp c1))"
  have "genericStack_destroyv (Some (Some s)) c = Some (Some None, c1\<lparr>hp := ?h\<rparr>)"
    using c1(1) D by (simp add: genericStack_destroyv_def)
  moreover have "store ?h = g"
    unfolding c1(3) [symmetric]
    by (rule ext) (auto simp: frame_def owned_def restrict_map_def)
  moreover have "heap_ok ?h" using D(1) by (simp add: heap_ok_drop_block)
  ultimately show thesis by (intro that) auto
qed

section \<open>Access\<close>

lemma getp_in_range:
  assumes R: "stack_rep (hp c) s xs g" and i: "index < allocSizei s"
  shows "\<exists>p. arr_get (bufpp s) index (hp c) = Some p \<and> obj_at (hp c) p = nth_or None xs index
    \<and> live_arg (hp c) p"
proof -
  obtain a b ps rest where L: "layout (hp c) s a b ps rest" and xs: "xs = contents (hp c) ps"
    using R unfolding stack_rep_def by blast
  have "ps ! index \<in> set ps" using layoutD(6) [OF L] i by simp
  then have "live_arg (hp c) (ps ! index)"
    using layoutD(10) [OF L] by (auto simp: slots_ok_def all_live_def live_arg_def)
  with i layoutD(6) [OF L] show ?thesis
    by (simp add: arr_get_slot [OF L] xs nth_or_def)
qed

lemma getp_run:
  assumes R: "stack_rep (hp c) s xs g" and gr: "optionGrowOnGeti s"
    and run: "genericStack_getp (Some s) index c = Some (p, sp, c')"
  shows "\<exists>s'. sp = Some s' \<and> stack_rep (hp c') s' (pad None (allocSizei s') xs) g \<and> same_conf s s'
    \<and> obj_at (hp c') p = nth_or None xs index \<and> live_arg (hp c') p
    \<and> avail (hp c') = avail (hp c)"
proof -
  obtain s1 c1 where gt: "(if allocSizei s \<le> index then grow_to index s c else Some (s, c)) = Some (s1, c1)"
    and rest: "optionGrowOnGeti s1 \<longrightarrow>
      arr_get (bufpp s1) index (hp c1) = Some p \<and> sp = Some s1 \<and> c' = c1"
    using run gr by (fastforce simp: genericStack_getp_def run_simps split: if_splits)
  have R1: "stack_rep (hp c1) s1 (pad None (allocSizei s1) xs) g \<and> same_conf s s1
      \<and> index < allocSizei s1 \<and> avail (hp c1) = avail (hp c)"
  proof (cases "allocSizei s \<le> index")
    case True
    with gt have "grow_to index s c = Some (s1, c1)" by simp
    from grow_to_run [OF this R] show ?thesis by simp
  next
    case False
    with gt R show ?thesis by (auto intro: stack_rep_pad)
  qed
  then have "optionGrowOnGeti s1" using gr same_confD(7) by metis
  with getp_in_range [of c1 s1] R1 rest show ?thesis by fastforce
qed

lemma getp_defined:
  assumes R: "stack_rep (hp c) s xs g"
    and room: "index < allocSizei s \<or> \<not> optionGrowOnGeti s \<or> (\<forall>n. avail (hp c) n) \<and> 2 * index < UINT_MOD"
  shows "genericStack_getp (Some s) index c \<noteq> None"
proof (cases "allocSizei s \<le> index \<and> optionGrowOnGeti s")
  case True
  then obtain s1 c1 where gt: "grow_to index s c = Some (s1, c1)"
    using grow_to_ends [OF R, of index] room by auto
  note G = grow_to_run [OF gt R]
  with getp_in_range [of c1 s1] obtain p where "arr_get (bufpp s1) index (hp c1) = Some p" by blast
  with True gt G same_confD(7) [of s s1] show ?thesis by (simp add: genericStack_getp_def)
next
  case False
  show ?thesis
  proof (cases "stackSizei s \<le> index \<and> \<not> optionGrowOnGeti s")
    case True
    with False show ?thesis by (auto simp: genericStack_getp_def)
  next
    case c: False
    then have "index < allocSizei s" using False stack_repD(4) [OF R] by auto
    from getp_in_range [OF R this] obtain p where "arr_get (bufpp s) index (hp c) = Some p" by blast
    with False c show ?thesis by (auto simp: genericStack_getp_def)
  qed
qed

section \<open>Update\<close>

definition arg_value :: "(nat \<rightharpoonup> 'o block) \<Rightarrow> ptr \<Rightarrow> 'o option" where
  "arg_value g p =
     (case p of Null \<Rightarrow> None | Ref a \<Rightarrow> (case g a of Some (Obj v) \<Rightarrow> Some v | _ \<Rightarrow> None))"

lemma outside_value:
  assumes "stack_rep h s xs g" "outside_arg g p"
  shows "obj_at h p = arg_value g p" "arg_value g p = None \<longleftrightarrow> p = Null"
  using assms by (cases p; fastforce simp: outside_arg_def arg_value_def dest: stack_rep_frame
      split: option.splits block.splits)+

lemma release_slot_rep:
  assumes R: "stack_rep (hp c) s xs g" and i: "i < allocSizei s"
  obtains c' where "release_slot s i c = Some c'" "stack_rep (hp c') s (xs[i := None]) g"
    "avail (hp c') = avail (hp c)" "asked (hp c') = asked (hp c)"
proof -
  obtain a b ps rest where L: "layout (hp c) s a b ps rest" and xs: "xs = contents (hp c) ps"
    and g: "g = frame (hp c) a b ps"
    using R unfolding stack_rep_def by blast
  from L i obtain c' where c': "release_slot s i c = Some c'"
    "layout (hp c') s a b (ps[i := Null]) rest"
    "frame (hp c') a b (ps[i := Null]) = g"
    "contents (hp c') (ps[i := Null]) = xs[i := None]"
    "avail (hp c') = avail (hp c)" "asked (hp c') = asked (hp c)"
    unfolding xs g by (rule release_slot_spec)
  then have "stack_rep (hp c') s (xs[i := None]) g"
    unfolding stack_rep_def by metis
  then show thesis using c' that by blast
qed

lemma set_slot_run:
  assumes R: "stack_rep (hp c) s xs g" and i: "i < allocSizei s" "xs ! i = None"
    and p: "outside_arg g p"
  shows "\<exists>r s' c'. set_slot s i p c = Some (r, s', c') \<and> same_conf s s'
    \<and> allocSizei s' = allocSizei s \<and> avail (hp c') = avail (hp c)
    \<and> (if p = Null \<or> avail (hp c) (asked (hp c))
       then r = 1 \<and> stackSizei s' = max (stackSizei s) (Suc i)
         \<and> stack_rep (hp c') s' (xs[i := map_option (\<lambda>v. copied s v (ext c)) (arg_value g p)]) g
       else r = 0 \<and> s' = s \<and> stack_rep (hp c') s xs g)"
proof -
  obtain a b ps rest where L: "layout (hp c) s a b ps rest" and xs: "xs = contents (hp c) ps"
    and g: "g = frame (hp c) a b ps"
    using R unfolding stack_rep_def by blast
  note D = layoutD [OF L]
  let ?m = "max (stackSizei s) (Suc i)"
  have mu: "to_uint (Suc i) = Suc i" using i(1) D(8) by simp
  have s1: "(if stackSizei s < Suc i then s\<lparr>stackSizei := Suc i\<rparr> else s) = s\<lparr>stackSizei := ?m\<rparr>"
    by (cases s) auto
  have m: "i < ?m" "stackSizei s \<le> ?m" "?m \<le> allocSizei s" using i D(9) by auto
  have slot: "ps ! i = Null"
    using i D(6,10) nth_mem [of i ps] xs by (auto simp: slots_ok_def all_live_def)
  show ?thesis
  proof (cases p)
    case Null
    have "stack_rep (hp c) (s\<lparr>stackSizei := ?m\<rparr>) xs g"
      using layout_resize [OF L m(2,3)] xs g unfolding stack_rep_def by blast
    with Null i show ?thesis
      by (simp add: set_slot_def Let_def mu s1 arg_value_def) (metis list_update_id)
  next
    case (Ref e)
    obtain v where v: "obj_at (hp c) p = Some v" "arg_value g p = Some v"
      using outside_value [OF R p] Ref by auto
    from L i(1) slot m v(1) show ?thesis
    proof (cases rule: store_in_slot)
      case (refused c')
      with R Ref show ?thesis by (simp add: set_slot_def Let_def mu s1 stack_rep_refused)
    next
      case (granted c' h' q)
      have av: "avail (hp c) (asked (hp c))"
        using granted(1) L v(1) D(1)
        by (cases rule: copy_element_spec [OF D(1) v(1), of s]) auto
      have "stack_rep h' (s\<lparr>stackSizei := ?m\<rparr>) (xs[i := Some (copied s v (ext c))]) g"
        unfolding stack_rep_def xs g using granted(3-5) by metis
      with granted(1,2,6) Ref v(2) av show ?thesis
        by (simp add: set_slot_def Let_def mu s1)
    qed
  qed
qed

lemma seti_run:
  assumes R: "stack_rep (hp c) s xs g" and gr: "optionGrowOnSeti s" and p: "outside_arg g p"
    and run: "genericStack_seti (Some s) index p c = Some (r, sp, c')"
  shows "\<exists>s' x. sp = Some s' \<and> same_conf s s' \<and> avail (hp c') = avail (hp c)
    \<and> (if r = 1
       then stackSizei s' = max (stackSizei s) (Suc index)
         \<and> stack_rep (hp c') s' ((pad None (allocSizei s') xs)
              [index := map_option (\<lambda>v. copied s v x) (arg_value g p)]) g
       else r = 0 \<and> p \<noteq> Null \<and> \<not> (\<forall>n. avail (hp c) n)
         \<and> stack_rep (hp c') s' ((pad None (allocSizei s') xs)[index := None]) g)"
proof -
  obtain s1 c1 where gt: "(if allocSizei s \<le> index then grow_to index s c else Some (s, c)) = Some (s1, c1)"
    and rest: "optionGrowOnSeti s1 \<longrightarrow> (\<exists>c2 s2. release_slot s1 index c1 = Some c2
      \<and> set_slot s1 index p c2 = Some (r, s2, c') \<and> sp = Some s2)"
    using run gr by (fastforce simp: genericStack_seti_def run_simps split: if_splits)
  have R1: "stack_rep (hp c1) s1 (pad None (allocSizei s1) xs) g \<and> same_conf s s1
      \<and> index < allocSizei s1 \<and> avail (hp c1) = avail (hp c)
      \<and> stackSizei s \<le> stackSizei s1 \<and> stackSizei s1 \<le> max (stackSizei s) (Suc index)"
  proof (cases "allocSizei s \<le> index")
    case True
    with gt have "grow_to index s c = Some (s1, c1)" by simp
    from grow_to_run [OF this R] show ?thesis by simp
  next
    case False
    with gt R show ?thesis by (auto intro: stack_rep_pad)
  qed
  let ?ys = "pad None (allocSizei s1) xs"
  have "optionGrowOnSeti s1" using R1 gr same_confD(6) by metis
  with rest obtain c2 s2 where c2: "release_slot s1 index c1 = Some c2"
    and st: "set_slot s1 index p c2 = Some (r, s2, c')" and sp: "sp = Some s2" by blast
  have R2: "stack_rep (hp c2) s1 (?ys[index := None]) g" "avail (hp c2) = avail (hp c)"
    using release_slot_rep [of c1 s1 ?ys g index] R1 c2 by auto
  have "?ys[index := None] ! index = None"
    using R1 stack_repD(1) [of "hp c1" s1 ?ys g] by simp
  from set_slot_run [OF R2(1) _ this p] R1 st
  have S: "same_conf s1 s2" "allocSizei s2 = allocSizei s1" "avail (hp c') = avail (hp c)"
    "if p = Null \<or> avail (hp c2) (asked (hp c2))
       then r = 1 \<and> stackSizei s2 = max (stackSizei s1) (Suc index)
         \<and> stack_rep (hp c') s2 (?ys[index := map_option (\<lambda>v. copied s1 v (ext c2)) (arg_value g p)]) g
       else r = 0 \<and> s2 = s1 \<and> stack_rep (hp c') s1 (?ys[index := None]) g"
    using R2(2) by auto
  have cp: "copied s1 v x = copied s v x" for v x
    using same_confD(5) [of s s1] R1 by (simp add: copied_def)
  show ?thesis
    using S R1 R2(2) sp cp same_conf_trans [of s s1 s2]
    by (cases "p = Null \<or> avail (hp c2) (asked (hp c2))") auto
qed

lemma seti_defined:
  assumes R: "stack_rep (hp c) s xs g" and p: "outside_arg g p"
    and room: "index < allocSizei s \<or> \<not> optionGrowOnSeti s \<or> (\<forall>n. avail (hp c) n) \<and> 2 * index < UINT_MOD"
  shows "genericStack_seti (Some s) index p c \<noteq> None"
proof -
  have fin: "genericStack_seti (Some s) index p c \<noteq> None"
    if R1: "stack_rep (hp c1) s1 ys g" and i: "index < allocSizei s1"
      and gt: "(if allocSizei s \<le> index \<and> optionGrowOnSeti s then grow_to index s c else Some (s, c)) = Some (s1, c1)"
    for s1 c1 ys
  proof -
    from R1 i obtain c2 where c2: "release_slot s1 index c1 = Some c2"
      "stack_rep (hp c2) s1 (ys[index := None]) g"
      by (rule release_slot_rep)
    have "ys[index := None] ! index = None" using i stack_repD(1) [OF R1] by simp
    from set_slot_run [OF c2(2) i this p] gt c2(1) show ?thesis
      by (auto simp: genericStack_seti_def)
  qed
  show ?thesis
  proof (cases "allocSizei s \<le> index")
    case False
    with fin [OF R] show ?thesis by simp
  next
    case True
    show ?thesis
    proof (cases "optionGrowOnSeti s")
      case False
      with True stack_repD(4) [OF R] show ?thesis by (simp add: genericStack_seti_def)
    next
      case gr: True
      with True obtain s1 c1 where gt: "grow_to index s c = Some (s1, c1)"
        using grow_to_ends [OF R, of index] room by auto
      from grow_to_run [OF gt R] have "stack_rep (hp c1) s1 (pad None (allocSizei s1) xs) g"
        "index < allocSizei s1" by simp_all
      then show ?thesis by (rule fin) (simp add: gt True gr)
    qed
  qed
qed

end
