(* ===== verification/StackProps.thy ===== *)
theory StackProps
  imports StackSpec
begin

text \<open>
  The properties of \<open>src/src/genericStack.c\<close>, each with a witness on the small stack \<open>demo_stack\<close> (four
  empty slots, one object of the caller at address 2) or \<open>demo_full\<close> (one element in slot 0).
\<close>

section \<open>Example states\<close>

definition demo_heap :: "(nat \<Rightarrow> bool) \<Rightarrow> nat heap" where
  "demo_heap av =
     \<lparr>store = [0 \<mapsto> Raw, 1 \<mapsto> Arr (map Some (replicate 4 Null)), 2 \<mapsto> Obj 7], fresh = 3,
      avail = av, asked = 2, errno = 12\<rparr>"

definition demo_state :: "(nat \<Rightarrow> bool) \<Rightarrow> (nat, unit) cstate" where
  "demo_state av = \<lparr>hp = demo_heap av, ext = ()\<rparr>"

definition demo_stack :: "(nat, unit) genericStack" where
  "demo_stack =
     \<lparr>selfp = Ref 0, bufpp = Ref 1, allocSizei = 4, stackSizei = 0, elementSizei = 8,
      failureCallbackp = None, freeCallbackp = None, copyCallbackp = Some (\<lambda>v x. (0, v + 1, x)),
      optionGrowOnSeti = True, optionGrowOnGeti = True\<rparr>"

definition demo_full_state :: "(nat, unit) cstate" where
  "demo_full_state = \<lparr>hp =
     \<lparr>store = [0 \<mapsto> Raw, 1 \<mapsto> Arr (map Some [Ref 2, Null, Null, Null]), 2 \<mapsto> Obj 7], fresh = 3,
      avail = (\<lambda>_. True), asked = 3, errno = 12\<rparr>, ext = ()\<rparr>"

definition demo_full :: "(nat, unit) genericStack" where
  "demo_full = demo_stack\<lparr>stackSizei := 1\<rparr>"

lemma demo_sel [simp]:
  "hp (demo_state av) = demo_heap av" "ext (demo_state av) = ()" "avail (demo_heap av) = av"
  "optionGrowOnSeti demo_stack" "optionGrowOnGeti demo_stack" "stackSizei demo_stack = 0"
  "allocSizei demo_stack = 4" "fresh (demo_heap av) = 3" "asked (demo_heap av) = 2"
  by (simp_all add: demo_state_def demo_heap_def demo_stack_def)

lemma demo_ok: "stack_ok (demo_heap av) demo_stack [2 \<mapsto> Obj 7]"
proof -
  have "layout (demo_heap av) demo_stack 0 1 (replicate 4 Null) []"
    by (simp add: layout_def demo_heap_def demo_stack_def heap_ok_def slots_ok_def all_live_def
        uniq_refs_def null_from_def UINT_MOD_def)
  moreover have "frame (demo_heap av) 0 1 (replicate 4 Null) = [2 \<mapsto> Obj 7]"
    by (auto simp: frame_def owned_def demo_heap_def restrict_map_def)
  ultimately show ?thesis unfolding stack_ok_def stack_rep_def by metis
qed

lemma demo_view: "stack_view (demo_heap av) demo_stack = (\<lambda>_. None)"
  by (rule ext) (simp add: stack_view_def demo_heap_def demo_stack_def arr_get_def)

lemma demo_copied: "copied demo_stack v x = v + 1"
  by (simp add: copied_def demo_stack_def)

lemma demo_full_ok: "stack_ok (hp demo_full_state) demo_full Map.empty"
proof -
  have "uniq_refs [Ref 2, Null, Null, Null]"
    unfolding uniq_refs_def by (simp add: less_Suc_eq numeral_eq_Suc)
  moreover have "null_from 1 [Ref 2, Null, Null, Null]"
    by (auto simp: null_from_def less_Suc_eq numeral_eq_Suc)
  ultimately have "layout (hp demo_full_state) demo_full 0 1 [Ref 2, Null, Null, Null] []"
    by (simp add: layout_def demo_full_state_def demo_full_def demo_stack_def heap_ok_def slots_ok_def
        all_live_def UINT_MOD_def)
  moreover have "frame (hp demo_full_state) 0 1 [Ref 2, Null, Null, Null] = Map.empty"
    by (auto simp: frame_def owned_def demo_full_state_def restrict_map_def fun_eq_iff)
  ultimately show ?thesis unfolding stack_ok_def stack_rep_def by metis
qed

section \<open>Construction\<close>

text \<open>\<open>genericStack_newp\<close> with elements at least as large as a pointer, all allocations
  granted, returns an empty, well-formed stack that owns exactly the memory it allocated, with
  the growth options of the flags.\<close>

theorem newp_ok:
  assumes "PTR_BYTES \<le> n" "n * STACK_INIT_SIZE < SIZE_MOD" "heap_ok (hp c)" "\<forall>k. avail (hp c) k"
  shows "\<exists>s c'. genericStack_newp n optionp c = Some (Some s, c')
    \<and> stack_ok (hp c') s (store (hp c)) \<and> stack_view (hp c') s = (\<lambda>_. None)
    \<and> genericStack_sizei (Some s) = 0 \<and> ext c' = ext c
    \<and> (optionGrowOnSeti s \<longleftrightarrow> (\<exists>q. optionp = Some q \<and> has_flag (growFlags q) GENERICSTACK_OPTION_GROW_ON_SET))
    \<and> (optionGrowOnGeti s \<longleftrightarrow> (\<exists>q. optionp = Some q \<and> has_flag (growFlags q) GENERICSTACK_OPTION_GROW_ON_GET))"
proof -
  from assms obtain s c' where s: "genericStack_newp n optionp c = Some (Some s, c')"
    "stack_rep (hp c') s (replicate 4 None) (store (hp c))" "stackSizei s = 0" "ext c' = ext c"
    "optionGrowOnSeti s \<longleftrightarrow> (\<exists>q. optionp = Some q \<and> has_flag (growFlags q) GENERICSTACK_OPTION_GROW_ON_SET)"
    "optionGrowOnGeti s \<longleftrightarrow> (\<exists>q. optionp = Some q \<and> has_flag (growFlags q) GENERICSTACK_OPTION_GROW_ON_GET)"
    by (rule newp_built)
  moreover have "stack_view (hp c') s = (\<lambda>_. None)"
    unfolding stack_rep_view [OF s(2)] by (auto simp: nth_or_def)
  ultimately show ?thesis unfolding stack_ok_def genericStack_sizei_def by auto
qed

theorem newp_ok_witness:
  "\<exists>s c'. genericStack_newp 8 (None :: (nat, unit) genericStack_option option)
      \<lparr>hp = empty_heap (\<lambda>_. True), ext = ()\<rparr> = Some (Some s, c')
    \<and> stack_ok (hp c') s Map.empty \<and> genericStack_sizei (Some s) = 0 \<and> \<not> optionGrowOnGeti s"
  using newp_ok [of 8 "\<lparr>hp = empty_heap (\<lambda>_. True), ext = ()\<rparr> :: (nat, unit) cstate" None]
  by (auto simp: PTR_BYTES_def STACK_INIT_SIZE_def SIZE_MOD_def empty_heap_def heap_ok_def)

text \<open>An element size below the size of a pointer (a stack of \<open>int\<close>, say) makes the
  constructor write past its buffer: the buffer has \<open>4 * elementSizei\<close> bytes, the loop stores four
  pointers.\<close>

theorem newp_small_element_overflow:
  assumes "0 < n" "n < PTR_BYTES" "\<forall>k. avail (hp c) k"
  shows "genericStack_newp n optionp c = None"
proof -
  let ?f = "fresh (hp c)"
  define h where
    "h = granted (Arr (replicate (n * STACK_INIT_SIZE div PTR_BYTES) None)) (granted Raw (hp c))"
  have "n * STACK_INIT_SIZE < SIZE_MOD"
    using assms(2) by (simp add: STACK_INIT_SIZE_def PTR_BYTES_def SIZE_MOD_def)
  moreover have "arr_clear (Ref (Suc ?f)) 0 STACK_INIT_SIZE h = None"
    using assms(2) by (intro arr_clear_bounds [of _ _ "replicate (n * STACK_INIT_SIZE div PTR_BYTES) None"])
      (simp_all add: h_def STACK_INIT_SIZE_def PTR_BYTES_def)
  ultimately show ?thesis
    using assms(1,3) by (simp add: genericStack_newp_def malloc_eq Let_def h_def)
qed

theorem newp_small_element_overflow_witness:
  "genericStack_newp 4 (None :: (nat, unit) genericStack_option option)
     \<lparr>hp = empty_heap (\<lambda>_. True), ext = ()\<rparr> = None"
  by (rule newp_small_element_overflow) (simp_all add: PTR_BYTES_def empty_heap_def)

text \<open>When either allocation of the constructor is refused, it returns \<open>NULL\<close> and leaves no
  block behind.\<close>

theorem newp_refused_no_leak:
  assumes "0 < n" "heap_ok (hp c)" "\<not> avail (hp c) (asked (hp c)) \<or> \<not> avail (hp c) (Suc (asked (hp c)))"
  shows "\<exists>c'. genericStack_newp n optionp c = Some (None, c') \<and> store (hp c') = store (hp c)"
proof (cases "avail (hp c) (asked (hp c))")
  case False
  with assms(1) show ?thesis by (simp add: genericStack_newp_def malloc_eq)
next
  case True
  have "asked (granted Raw (hp c)) = Suc (asked (hp c))" by (simp add: granted_def)
  with True assms show ?thesis
    by (simp add: genericStack_newp_def malloc_eq Let_def fun_upd_idem)
qed

theorem newp_refused_no_leak_witness:
  "\<exists>c'. genericStack_newp 8 (None :: (nat, unit) genericStack_option option)
     \<lparr>hp = empty_heap (\<lambda>k. k = 0), ext = ()\<rparr> = Some (None, c') \<and> store (hp c') = Map.empty"
  using newp_refused_no_leak [of 8 "\<lparr>hp = empty_heap (\<lambda>k. k = 0), ext = ()\<rparr> :: (nat, unit) cstate" None]
  by (simp add: empty_heap_def heap_ok_def)

section \<open>Access\<close>

text \<open>C23: \<open>genericStack_getp\<close> with growth returns the content at any index, \<open>NULL\<close> where nothing
  was stored, and changes neither the contents nor the rest of the heap.\<close>

theorem getp_reads_view:
  assumes ok: "stack_ok (hp c) s g" and gr: "optionGrowOnGeti s"
    and av: "\<forall>n. avail (hp c) n" and i: "2 * index < UINT_MOD"
  shows "\<exists>p s' c'. genericStack_getp (Some s) index c = Some (p, Some s', c')
    \<and> stack_ok (hp c') s' g \<and> obj_at (hp c') p = stack_view (hp c) s index
    \<and> stack_view (hp c') s' = stack_view (hp c) s"
proof -
  obtain xs where R: "stack_rep (hp c) s xs g" using ok by (auto simp: stack_ok_def)
  from getp_defined [OF R] av i obtain p sp c'
    where run: "genericStack_getp (Some s) index c = Some (p, sp, c')" by fastforce
  from getp_run [OF R gr run] obtain s' where s': "sp = Some s'"
    "stack_rep (hp c') s' (pad None (allocSizei s') xs) g" "obj_at (hp c') p = nth_or None xs index"
    by blast
  with run show ?thesis
    unfolding stack_ok_def by (auto simp: stack_rep_view [OF R] stack_rep_view [OF s'(2)])
qed

theorem getp_reads_view_witness:
  "\<exists>p s' c'. genericStack_getp (Some demo_stack) 9 (demo_state (\<lambda>_. True)) = Some (p, Some s', c')
    \<and> stack_ok (hp c') s' [2 \<mapsto> Obj 7] \<and> obj_at (hp c') p = None"
  using getp_reads_view [of "demo_state (\<lambda>_. True)" demo_stack "[2 \<mapsto> Obj 7]" 9] demo_ok
  by (auto simp: demo_view UINT_MOD_def)

text \<open>C19: \<open>genericStack_seti\<close> with growth and memory stores a private copy of the element at any
  index (or clears the slot for \<open>NULL\<close>), leaves every other index and the rest of the heap alone,
  and the size covers the index.\<close>

theorem seti_updates_view:
  assumes ok: "stack_ok (hp c) s g" and gr: "optionGrowOnSeti s" and p: "outside_arg g p"
    and av: "\<forall>n. avail (hp c) n" and i: "2 * index < UINT_MOD"
  shows "\<exists>s' c' x. genericStack_seti (Some s) index p c = Some (1, Some s', c')
    \<and> stack_ok (hp c') s' g
    \<and> stack_view (hp c') s'
        = (stack_view (hp c) s)(index := map_option (\<lambda>v. copied s v x) (arg_value g p))
    \<and> genericStack_sizei (Some s') = max (genericStack_sizei (Some s)) (index + 1)"
proof -
  obtain xs where R: "stack_rep (hp c) s xs g" using ok by (auto simp: stack_ok_def)
  from seti_defined [OF R p] av i obtain r sp c'
    where run: "genericStack_seti (Some s) index p c = Some (r, sp, c')" by fastforce
  from seti_run [OF R gr p run] av obtain s' x where s': "sp = Some s'" "r = 1"
    "stackSizei s' = max (stackSizei s) (Suc index)"
    "stack_rep (hp c') s' ((pad None (allocSizei s') xs)
       [index := map_option (\<lambda>v. copied s v x) (arg_value g p)]) g"
    by (auto split: if_splits)
  have "index < length (pad None (allocSizei s') xs)"
    using stack_repD(1,4) [OF s'(4)] s'(3) by simp
  then have "stack_view (hp c') s'
      = (stack_view (hp c) s)(index := map_option (\<lambda>v. copied s v x) (arg_value g p))"
    unfolding stack_rep_view [OF R] stack_rep_view [OF s'(4)] by (simp add: nth_or_update)
  with run s' show ?thesis unfolding stack_ok_def genericStack_sizei_def by auto
qed

theorem seti_updates_view_witness:
  "\<exists>s' c'. genericStack_seti (Some demo_stack) 5 (Ref 2) (demo_state (\<lambda>_. True)) = Some (1, Some s', c')
    \<and> stack_view (hp c') s' = (\<lambda>_. None)(5 := Some 8) \<and> genericStack_sizei (Some s') = 6"
proof -
  let ?g = "[2 \<mapsto> Obj 7] :: nat \<rightharpoonup> nat block"
  have "outside_arg ?g (Ref 2)" by (simp add: outside_arg_def)
  from seti_updates_view [where c = "demo_state (\<lambda>_. True)" and index = 5, unfolded demo_sel, OF demo_ok _ this]
  obtain s' c' x where
    "genericStack_seti (Some demo_stack) 5 (Ref 2) (demo_state (\<lambda>_. True)) = Some (1, Some s', c')"
    "stack_view (hp c') s'
      = (stack_view (demo_heap (\<lambda>_. True)) demo_stack)
          (5 := map_option (\<lambda>v. copied demo_stack v x) (arg_value ?g (Ref 2)))"
    "genericStack_sizei (Some s') = max (genericStack_sizei (Some demo_stack)) (5 + 1)"
    by (auto simp: UINT_MOD_def)
  moreover have "map_option (\<lambda>v. copied demo_stack v x) (arg_value ?g (Ref 2)) = Some 8"
    by (simp add: arg_value_def demo_copied)
  moreover have "genericStack_sizei (Some demo_stack) = 0" by (simp add: genericStack_sizei_def)
  ultimately show ?thesis by (auto simp: demo_view)
qed

text \<open>Whatever the allocator refuses, a \<open>genericStack_seti\<close> that returns leaves a well-formed
  stack and the rest of the heap as it was; on failure (result 0) the slot is empty and every other
  slot keeps its content.\<close>

theorem seti_failure_safe:
  assumes ok: "stack_ok (hp c) s g" and gr: "optionGrowOnSeti s" and p: "outside_arg g p"
    and run: "genericStack_seti (Some s) index p c = Some (r, sp, c')"
  shows "\<exists>s'. sp = Some s' \<and> stack_ok (hp c') s' g \<and> r \<le> 1
    \<and> (r = 0 \<longrightarrow> p \<noteq> Null \<and> stack_view (hp c') s' = (stack_view (hp c) s)(index := None))"
proof -
  obtain xs where R: "stack_rep (hp c) s xs g" using ok by (auto simp: stack_ok_def)
  from seti_run [OF R gr p run] obtain s' x where s': "sp = Some s'"
    "if r = 1
       then stackSizei s' = max (stackSizei s) (Suc index)
         \<and> stack_rep (hp c') s' ((pad None (allocSizei s') xs)
              [index := map_option (\<lambda>v. copied s v x) (arg_value g p)]) g
       else r = 0 \<and> p \<noteq> Null \<and> \<not> (\<forall>n. avail (hp c) n)
         \<and> stack_rep (hp c') s' ((pad None (allocSizei s') xs)[index := None]) g"
    by blast
  have upd: "nth_or None (ys[index := None]) = (nth_or None ys)(index := None)" for ys :: "'a option list"
    by (rule ext) (auto simp: nth_or_def)
  have "stack_view (hp c') s' = (stack_view (hp c) s)(index := None)" if "r = 0"
    using s'(2) that by (auto simp: stack_rep_view [OF R] upd dest!: stack_rep_view)
  with s' show ?thesis by (auto simp: stack_ok_def split: if_splits)
qed

theorem seti_failure_safe_witness:
  "\<exists>s' c'. genericStack_seti (Some demo_stack) 3 (Ref 2) (demo_state (\<lambda>_. False)) = Some (0, Some s', c')
    \<and> stack_ok (hp c') s' [2 \<mapsto> Obj 7] \<and> stack_view (hp c') s' = (\<lambda>_. None)"
proof -
  have o: "outside_arg [2 \<mapsto> Obj (7 :: nat)] (Ref 2)" by (simp add: outside_arg_def)
  obtain s' c' where run:
    "genericStack_seti (Some demo_stack) 3 (Ref 2) (demo_state (\<lambda>_. False)) = Some (0, Some s', c')"
    by (simp add: genericStack_seti_def release_slot_def set_slot_def copy_element_def demo_state_def
        demo_heap_def demo_stack_def arr_get_def malloc_eq Let_def numeral_3_eq_3)
  from seti_failure_safe [OF _ _ o run, unfolded demo_sel, OF demo_ok]
  show ?thesis using run by (auto simp: demo_view)
qed

end
