(* ===== verification/StackLife.thy ===== *)
theory StackLife
  imports StackProps
begin

text \<open>
  Whole runs of the generic stack: any sequence of calls between construction and destruction
  gives the memory back, and the ways in which the source leaves its contract (the endless growth
  loop, the popped element, the self-assignment).
\<close>

section \<open>Sequences of calls\<close>

datatype stack_call = Get nat | Set nat ptr | Push ptr

primrec run_call ::
  "stack_call \<Rightarrow> ('o, 's) genericStack \<Rightarrow> ('o, 's) cstate
     \<Rightarrow> (('o, 's) genericStack option \<times> ('o, 's) cstate) option" where
  "run_call (Get i) s c = do { (p, t, c1) \<leftarrow> genericStack_getp (Some s) i c; Some (t, c1) }"
| "run_call (Set i p) s c = do { (r, t, c1) \<leftarrow> genericStack_seti (Some s) i p c; Some (t, c1) }"
| "run_call (Push p) s c = do { (r, t, c1) \<leftarrow> genericStack_pushi (Some s) p c; Some (t, c1) }"

fun run_calls ::
  "stack_call list \<Rightarrow> ('o, 's) genericStack \<Rightarrow> ('o, 's) cstate
     \<Rightarrow> (('o, 's) genericStack \<times> ('o, 's) cstate) option" where
  "run_calls [] s c = Some (s, c)"
| "run_calls (k # ks) s c =
     do { (t, c1) \<leftarrow> run_call k s c; (case t of None \<Rightarrow> None | Some s1 \<Rightarrow> run_calls ks s1 c1) }"

text \<open>Element arguments are \<open>NULL\<close> or objects of the caller.\<close>

primrec call_arg :: "stack_call \<Rightarrow> ptr" where
  "call_arg (Get i) = Null"
| "call_arg (Set i p) = p"
| "call_arg (Push p) = p"

lemma getp_closed_run:
  assumes R: "stack_rep (hp c) s xs g" and gr: "\<not> optionGrowOnGeti s"
    and run: "genericStack_getp (Some s) index c = Some (p, sp, c')"
  shows "sp = Some s \<and> hp c' = hp c"
  using run gr by (auto simp: genericStack_getp_def run_simps split: if_splits)

lemma seti_closed_run:
  assumes R: "stack_rep (hp c) s xs g" and gr: "\<not> optionGrowOnSeti s" and p: "outside_arg g p"
    and run: "genericStack_seti (Some s) index p c = Some (r, sp, c')"
  shows "\<exists>s'. sp = Some s' \<and> stack_ok (hp c') s' g \<and> same_conf s s'"
proof (cases "stackSizei s \<le> index")
  case True
  with run gr R show ?thesis by (auto simp: genericStack_seti_def stack_ok_def)
next
  case False
  then have i: "index < allocSizei s" using stack_repD(4) [OF R] by simp
  from R i obtain c2 where c2: "release_slot s index c = Some c2"
    "stack_rep (hp c2) s (xs[index := None]) g" by (rule release_slot_rep)
  have "xs[index := None] ! index = None" using i stack_repD(1) [OF R] by simp
  from set_slot_run [OF c2(2) i this p] obtain r' s' c3 where
    "set_slot s index p c2 = Some (r', s', c3)" "same_conf s s'" "stack_ok (hp c3) s' g"
    unfolding stack_ok_def by (metis (full_types))
  with run gr False i c2(1) show ?thesis by (auto simp: genericStack_seti_def)
qed

lemma run_call_ok:
  assumes ok: "stack_ok (hp c) s g" and p: "outside_arg g (call_arg k)"
    and run: "run_call k s c = Some (t, c1)"
  shows "\<exists>s1. t = Some s1 \<and> stack_ok (hp c1) s1 g"
proof -
  obtain xs where R: "stack_rep (hp c) s xs g" using ok by (auto simp: stack_ok_def)
  show ?thesis
  proof (cases k)
    case (Get i)
    with run obtain q where g: "genericStack_getp (Some s) i c = Some (q, t, c1)"
      by (auto simp: run_simps)
    show ?thesis
    proof (cases "optionGrowOnGeti s")
      case True
      from getp_run [OF R True g] show ?thesis by (auto simp: stack_ok_def)
    next
      case False
      from getp_closed_run [OF R False g] ok show ?thesis by simp
    qed
  next
    case (Set i q)
    with run obtain r where st: "genericStack_seti (Some s) i q c = Some (r, t, c1)"
      by (auto simp: run_simps)
    from p Set have q: "outside_arg g q" by simp
    show ?thesis
    proof (cases "optionGrowOnSeti s")
      case True
      from seti_run [OF R True q st] show ?thesis unfolding stack_ok_def by (metis (full_types))
    next
      case False
      from seti_closed_run [OF R False q st] show ?thesis by blast
    qed
  next
    case (Push q)
    with run obtain r s1 where pu: "pushi s q c = Some (r, s1, c1)" "t = Some s1"
      by (auto simp: run_simps genericStack_pushi_def)
    from p Push have "live_arg (hp c) q" using outside_live [OF R] by simp
    from pushi_run [OF R this pu(1)] pu(2) show ?thesis
      unfolding stack_ok_def by (metis (full_types))
  qed
qed

lemma run_calls_ok:
  assumes "stack_ok (hp c) s g" "list_all (\<lambda>k. outside_arg g (call_arg k)) ks"
    "run_calls ks s c = Some (s1, c1)"
  shows "stack_ok (hp c1) s1 g"
  using assms
proof (induction ks arbitrary: s c)
  case Nil
  then show ?case by simp
next
  case (Cons k ks)
  then obtain t c2 where c2: "run_call k s c = Some (t, c2)"
    and rest: "(case t of None \<Rightarrow> None | Some s2 \<Rightarrow> run_calls ks s2 c2) = Some (s1, c1)"
    by (auto simp: run_simps)
  from run_call_ok [OF Cons.prems(1) _ c2] Cons.prems(2)
  obtain s2 where "t = Some s2" "stack_ok (hp c2) s2 g" by auto
  with Cons.IH Cons.prems(2) rest show ?case by simp
qed


definition one_object :: "(nat, unit) cstate" where
  "one_object = \<lparr>hp = \<lparr>store = [0 \<mapsto> Obj 7], fresh = 1, avail = (\<lambda>_. True), asked = 0, errno = 12\<rparr>, ext = ()\<rparr>"


section \<open>Pushing\<close>



section \<open>Where the source leaves its contract\<close>

text \<open>A loop whose pushes never enlarge the array does not end.\<close>

lemma pushi_refused:
  assumes R: "stack_rep (hp c) s xs g" and no: "\<forall>k. \<not> avail (hp c) k"
    and run: "pushi s Null c = Some (r, s1, c1)"
  shows "stack_rep (hp c1) s1 xs g" "avail (hp c1) = avail (hp c)" "allocSizei s1 = allocSizei s"
    "optionGrowOnGeti s1 = optionGrowOnGeti s"
proof -
  have al: "allocSizei s1 = allocSizei s"
  proof (cases "allocSizei s \<le> stackSizei s")
    case True
    with run obtain ok s2 c2 where g: "grow_bufpp s c = Some (ok, s2, c2)"
      "(if ok then push_onto s2 Null c2 else Some (0, s2, c2)) = Some (r, s1, c1)"
      by (auto simp: pushi_def run_simps)
    with grow_bufpp_rep [OF R g(1)] no show ?thesis by (auto split: if_splits)
  next
    case False
    with run show ?thesis by (auto simp: pushi_def push_onto_def run_simps)
  qed
  note N = pushi_Null_run [OF R run]
  show "stack_rep (hp c1) s1 xs g" using N(1) al stack_repD(1) [OF R] by simp
  show "avail (hp c1) = avail (hp c)" "allocSizei s1 = allocSizei s" using N(3) al by simp_all
  show "optionGrowOnGeti s1 = optionGrowOnGeti s" using same_confD(7) [OF N(2)] .
qed

lemma grow_to_diverges:
  assumes "grow_to index s c = Some r" and "stack_rep (hp c) s xs g"
    and "\<forall>k. \<not> avail (hp c) k" and "allocSizei s \<le> index"
  shows False
proof -
  let ?P = "\<lambda>index s c. \<forall>xs. stack_rep (hp c) s xs g \<longrightarrow> (\<forall>k. \<not> avail (hp c) k)
    \<longrightarrow> allocSizei s \<le> index \<longrightarrow> False"
  have "?P index s c"
  proof (rule grow_to.raw_induct [where P = "\<lambda>i t d r. ?P i t d", OF _ assms(1)])
    fix f :: "nat \<Rightarrow> ('a, 'b) genericStack \<Rightarrow> ('a, 'b) cstate
                \<Rightarrow> (('a, 'b) genericStack \<times> ('a, 'b) cstate) option"
      and i and t :: "('a, 'b) genericStack" and d and r
    assume IH: "\<And>i t d r. f i t d = Some r \<Longrightarrow> ?P i t d"
      and run: "(if allocSizei t \<le> i
         then do { (k, s1, c1) \<leftarrow> pushi t Null d; f i s1 c1 } else Some (t, d)) = Some r"
    show "?P i t d"
    proof (intro allI impI)
      fix ys assume R: "stack_rep (hp d) t ys g" and no: "\<forall>k. \<not> avail (hp d) k" and i: "allocSizei t \<le> i"
      with run obtain k s1 c1 where p: "pushi t Null d = Some (k, s1, c1)" "f i s1 c1 = Some r"
        by (auto simp: run_simps)
      note F = pushi_refused [OF R no p(1)]
      from IH [OF p(2)] F no i show False by auto
    qed
  qed
  with assms(2-4) show False by blast
qed



text \<open>A dead element in a slot still to be visited stops the destructor.\<close>

lemma run_freeCallback_hp_eq: "run_freeCallback s p c = Some c1 \<Longrightarrow> hp c1 = hp c"
proof (cases "freeCallbackp s")
  case (Some f)
  assume "run_freeCallback s p c = Some c1"
  with Some obtain v where "obj_at (hp c) p = Some v" by (auto simp: run_freeCallback_def run_simps)
  then have "obj_at (hp c) p \<noteq> None" by simp
  from run_freeCallback_hp [OF this, of s] show ?thesis
    using \<open>run_freeCallback s p c = Some c1\<close> by auto
qed (simp add: run_freeCallback_def)

lemma release_slot_keeps:
  assumes run: "release_slot s i c = Some c1" and ne: "i \<noteq> j"
    and get: "arr_get (bufpp s) j (hp c) = Some p" and dead: "store (hp c) e = None"
  shows "arr_get (bufpp s) j (hp c1) = Some p \<and> store (hp c1) e = None"
proof -
  obtain q where q: "arr_get (bufpp s) i (hp c) = Some q" using run by (auto simp: release_slot_def run_simps)
  show ?thesis
  proof (cases "q = Null")
    case True
    with run q get dead show ?thesis by (simp add: release_slot_def)
  next
    case False
    with run q obtain c2 h1 h2 where c2: "run_freeCallback s q c = Some c2" "cfree q (hp c2) = Some h1"
      "arr_put (bufpp s) i Null h1 = Some h2" "c1 = c2\<lparr>hp := h2\<rparr>"
      by (auto simp: release_slot_def run_simps)
    have hp: "hp c2 = hp c"
      using c2(1) by (rule run_freeCallback_hp_eq)
    from c2 get dead ne show ?thesis
      unfolding hp by (auto simp: arr_put_Some cfree_Some arr_get_def arr_at_drop_block arr_at_set_block
          split: if_splits option.splits)
  qed
qed

lemma destroy_slots_dead:
  assumes "arr_get (bufpp s) j (hp c) = Some (Ref e)" "store (hp c) e = None" "i \<le> j" "j < i + n"
  shows "destroy_slots s i n c = None"
  using assms
proof (induction n arbitrary: i c)
  case 0
  then show ?case by simp
next
  case (Suc n)
  show ?case
  proof (cases "i = j")
    case True
    with Suc.prems show ?thesis
      by (auto simp: release_slot_def run_freeCallback_def split: option.splits)
  next
    case False
    show ?thesis
    proof (cases "release_slot s i c")
      case (Some c1)
      from release_slot_keeps [OF Some False Suc.prems(1,2)] Suc.IH [of c1 "Suc i"] Suc.prems(3,4) False Some
      show ?thesis by simp
    qed simp
  qed
qed

text \<open>\<open>genericStack_popp\<close> leaves the popped pointer in the array (here where the array does not
  shrink), so a caller that frees the element it popped makes \<open>genericStack_destroyv\<close> free it again.\<close>

theorem popped_free_then_destroy:
  assumes ok: "stack_ok (hp c) s g" and ne: "0 < stackSizei s" and al: "allocSizei s < 8"
    and top: "stack_view (hp c) s (stackSizei s - 1) \<noteq> None"
  shows "\<exists>e h s'. genericStack_popp (Some s) c = Some (Ref e, Some s', c)
    \<and> cfree (Ref e) (hp c) = Some h
    \<and> genericStack_destroyv (Some (Some s')) (c\<lparr>hp := h\<rparr>) = None"
proof -
  obtain xs where R: "stack_rep (hp c) s xs g" using ok by (auto simp: stack_ok_def)
  then obtain a b ps rest where L: "layout (hp c) s a b ps rest" unfolding stack_rep_def by blast
  note D = layoutD [OF L]
  let ?i = "stackSizei s - 1" and ?s' = "s\<lparr>stackSizei := stackSizei s - 1\<rparr>"
  have i: "?i < allocSizei s" using ne D(9) by simp
  note get = arr_get_slot [OF L i]
  obtain e where e: "ps ! ?i = Ref e" "store (hp c) e \<noteq> None"
    using top i get by (cases "ps ! ?i") (auto simp: stack_view_def split: option.splits block.splits)
  let ?h = "drop_block e (hp c)"
  have "e \<noteq> b" using slot_live [OF D(10) _ e(1)] i D(5,6) by auto
  then have "destroy_slots ?s' 0 (allocSizei s) (c\<lparr>hp := ?h\<rparr>) = None"
    using get e(1) i D(4,5)
    by (intro destroy_slots_dead [of _ ?i _ e]) (auto simp: arr_get_def arr_at_drop_block)
  moreover have "genericStack_popp (Some s) c = Some (Ref e, Some ?s', c)"
    using ne al get e(1) by (simp add: genericStack_popp_def)
  moreover have "cfree (Ref e) (hp c) = Some ?h" using e(2) by auto
  ultimately show ?thesis by (auto simp: genericStack_destroyv_def require_def)
qed

theorem popped_free_then_destroy_witness:
  "\<exists>e h s'. genericStack_popp (Some demo_full) demo_full_state = Some (Ref e, Some s', demo_full_state)
    \<and> cfree (Ref e) (hp demo_full_state) = Some h
    \<and> genericStack_destroyv (Some (Some s')) (demo_full_state\<lparr>hp := h\<rparr>) = None"
  by (rule popped_free_then_destroy [OF demo_full_ok])
    (simp_all add: demo_full_def demo_stack_def stack_view_def demo_full_state_def arr_get_def)

text \<open>Storing an element back into its own slot, as in \<open>seti (s, i, getp (s, i))\<close>, reads the
  block that \<open>genericStack_seti\<close> has just freed.\<close>

theorem seti_of_own_element:
  assumes ok: "stack_ok (hp c) s g" and get: "genericStack_getp (Some s) index c = Some (p, Some s, c)"
    and ne: "p \<noteq> Null" and i: "index < stackSizei s" and av: "\<forall>k. avail (hp c) k"
  shows "genericStack_seti (Some s) index p c = None"
proof -
  obtain xs where R: "stack_rep (hp c) s xs g" using ok by (auto simp: stack_ok_def)
  then obtain a b ps rest where L: "layout (hp c) s a b ps rest" unfolding stack_rep_def by blast
  have al: "index < allocSizei s" using i layoutD(9) [OF L] by simp
  have "arr_get (bufpp s) index (hp c) = Some p"
    using get al i by (auto simp: genericStack_getp_def run_simps)
  then have p: "ps ! index = p" using arr_get_slot [OF L al] by simp
  then obtain e where e: "p = Ref e" using ne by (cases p) auto
  have "release_slot s index c = Some c2 \<Longrightarrow> copy_element s p c2 = None" for c2
  proof -
    assume rs: "release_slot s index c = Some c2"
    from L al obtain c2' where c2': "release_slot s index c = Some c2'"
      "frame (hp c2') a b (ps[index := Null]) = frame (hp c) a b ps" "avail (hp c2') = avail (hp c)"
      "layout (hp c2') s a b (ps[index := Null]) rest" "fresh (hp c2') = fresh (hp c)"
      by (rule release_slot_spec)
    with rs have c2: "c2' = c2" by simp
    have eo: "e \<in> owned a b ps" using p e al layoutD(6) [OF L] nth_mem [of index ps] by (simp add: owned_def)
    have ef: "e \<noteq> fresh (hp c2)"
      using owned_live [OF L eo] c2'(5) c2 heap_ok_fresh [OF layoutD(1) [OF L]] by metis
    have sl: "slots_ok (hp c) (stackSizei s) ps" by (rule layoutD(10) [OF L])
    have "\<exists>v. store (hp c) e = Some (Obj v)" using slot_live [OF sl] p e al layoutD(6) [OF L] by auto
    then have eab: "e \<noteq> a" "e \<noteq> b" using layoutD(3,5) [OF L] by auto
    have "Ref e \<notin> set (ps[index := Null])"
      using sl p e al layoutD(6) [OF L] by (intro not_in_update) (auto simp: slots_ok_def)
    then have "e \<notin> owned a b (ps[index := Null])" using eab by (simp add: owned_def)
    then have "store (hp c2) e = frame (hp c) a b ps e"
      using c2'(2) c2 by (metis ComplI frame_def restrict_in)
    with eo have "store (hp c2) e = None" by (simp add: frame_def)
    with ef av c2'(3) c2 show "copy_element s p c2 = None"
      by (simp add: copy_element_def malloc_eq e)
  qed
  with al i ne show ?thesis
    by (cases "release_slot s index c") (auto simp: genericStack_seti_def set_slot_def)
qed

theorem seti_of_own_element_witness:
  "genericStack_seti (Some demo_full) 0 (Ref 2) demo_full_state = None"
  by (rule seti_of_own_element [OF demo_full_ok])
    (simp_all add: demo_full_def demo_stack_def demo_full_state_def arr_get_def genericStack_getp_def)

end
