(* ===== verification/ManageBuf.thy ===== *)
theory ManageBuf
  imports StackOps
begin

text \<open>
  The pointer tables of \<open>src/src/manageBuf.c\<close>, which hold the symbols, rules, progress reports and
  user values of the wrapper: \<open>manageBuf_createp\<close> grows a table by doubling from 100 slots,
  \<open>manageBuf_freev\<close> frees its used entries and the table. The interface \<open>pointer_table\<close> states what
  the wrapper relies on; it is interpreted on the two functions at the end.
\<close>

section \<open>Operations\<close>

definition ERANGE :: int where
  "ERANGE = 34"

definition INT_MAX :: nat where
  "INT_MAX = 2147483647"

definition MANAGEBUF_INIT :: nat where
  "MANAGEBUF_INIT = 100"

text \<open>
  The growth loop. It returns the grown table and its size, or \<open>Null\<close>; on failure the caller keeps
  the pointer and the size it passed. At the loop head \<open>prevSizei\<close> equals \<open>sizei\<close>.
\<close>

function grow_table ::
  "ptr \<Rightarrow> nat \<Rightarrow> nat \<Rightarrow> nat \<Rightarrow> 'o heap \<Rightarrow> (ptr \<times> nat \<times> 'o heap) option" where
  "grow_table pp sizei wanted elemSize h =
     (if \<not> sizei < wanted then Some (pp, sizei, h)
      else if sizei \<le> 0
      then
        (let (q, h1) = malloc (Arr (replicate (to_size (MANAGEBUF_INIT * elemSize) div PTR_BYTES) None)) h
         in if q = Null then Some (Null, sizei, h1) else grow_table q MANAGEBUF_INIT wanted elemSize h1)
      else if to_size (sizei * 2) < sizei then Some (Null, sizei, h\<lparr>errno := ERANGE\<rparr>)
      else
        (case arr_realloc pp (to_size (to_size (sizei * 2) * elemSize) div PTR_BYTES) h of
           None \<Rightarrow> None
         | Some (q, h1) \<Rightarrow>
             if q = Null then Some (Null, sizei, h1)
             else grow_table q (to_size (sizei * 2)) wanted elemSize h1))"
  by pat_completeness auto

text \<open>Without turnaround, doubling a positive size enlarges it.\<close>

lemma double_grows:
  assumes "0 < n" "\<not> to_size (n * 2) < n"
  shows "n < to_size (n * 2)"
proof (rule ccontr)
  assume "\<not> n < to_size (n * 2)"
  with assms have eq: "n * 2 mod SIZE_MOD = n" by (simp add: to_size_def)
  then have "n < SIZE_MOD" by (metis SIZE_MOD_def mod_less_divisor zero_less_numeral)
  with eq assms(1) show False
    by (cases "n * 2 < SIZE_MOD") (simp_all add: mod_if split: if_splits)
qed

termination grow_table
  by (relation "measure (\<lambda>(pp, sizei, wanted, elemSize, h). wanted - sizei)")
    (use double_grows in \<open>auto simp: MANAGEBUF_INIT_def intro: diff_less_mono2\<close>)

declare grow_table.simps [simp del]

text \<open>
  The result is the C return value, followed by the table and the size the caller's variables hold
  afterwards. The counter of the loop that clears the new slots is an \<open>int\<close>.
\<close>

definition manageBuf_createp ::
  "ptr \<Rightarrow> nat \<Rightarrow> nat \<Rightarrow> nat \<Rightarrow> 'o heap \<Rightarrow> (ptr \<times> ptr \<times> nat \<times> 'o heap) option" where
  "manageBuf_createp pp sizei wanted elemSize h = do {
     (q, n, h1) \<leftarrow> grow_table pp sizei wanted elemSize h;
     if sizei < wanted \<and> q = Null then Some (Null, pp, sizei, h1)
     else do {
       require (sizei < n \<longrightarrow> n \<le> INT_MAX);
       h2 \<leftarrow> arr_clear q sizei (n - sizei) h1;
       Some (q, q, n, h2)
     }
   }"

fun free_entries :: "ptr \<Rightarrow> nat \<Rightarrow> nat \<Rightarrow> 'o heap \<Rightarrow> 'o heap option" where
  "free_entries pp i 0 h = Some h"
| "free_entries pp i (Suc n) h = do {
     p \<leftarrow> arr_get pp i h;
     h1 \<leftarrow> (if p = Null then Some h else do { h1 \<leftarrow> cfree p h; arr_put pp i Null h1 });
     free_entries pp (Suc i) n h1
   }"

text \<open>The caller's table, size and number of used entries become \<open>NULL\<close>, 0 and 0.\<close>

definition manageBuf_freev :: "ptr \<Rightarrow> nat \<Rightarrow> 'o heap \<Rightarrow> 'o heap option" where
  "manageBuf_freev pp used h =
     (if pp = Null then Some h else do { h1 \<leftarrow> free_entries pp 0 used h; cfree pp h1 })"

section \<open>Representation\<close>

text \<open>
  A table that was never grown is \<open>NULL\<close> with size 0. Otherwise it is an array whose first
  \<open>length ps\<close> cells are defined; the used entries are distinct live objects. \<open>g\<close> is what the table
  does not own.
\<close>

definition entries_ok :: "'o heap \<Rightarrow> nat \<Rightarrow> ptr list \<Rightarrow> bool" where
  "entries_ok h b ps \<longleftrightarrow> all_live h ps \<and> uniq_refs ps \<and> Ref b \<notin> set ps"

definition table_frame :: "'o heap \<Rightarrow> nat \<Rightarrow> ptr list \<Rightarrow> nat \<rightharpoonup> 'o block" where
  "table_frame h b ps = store h |` (- ({b} \<union> {e. Ref e \<in> set ps}))"

definition table_at :: "'o heap \<Rightarrow> nat \<Rightarrow> nat \<Rightarrow> nat \<Rightarrow> ptr list \<Rightarrow> ptr option list \<Rightarrow> bool" where
  "table_at h b m n ps rest \<longleftrightarrow> heap_ok h
     \<and> store h b = Some (Arr (map Some ps @ rest)) \<and> length ps = m
     \<and> 0 < m \<and> m \<le> INT_MAX \<and> n \<le> m \<and> null_from n ps \<and> entries_ok h b ps"

definition table_rep ::
  "'o heap \<Rightarrow> ptr \<Rightarrow> nat \<Rightarrow> 'o option list \<Rightarrow> (nat \<rightharpoonup> 'o block) \<Rightarrow> bool" where
  "table_rep h pp m xs g \<longleftrightarrow>
     (pp = Null \<and> m = 0 \<and> xs = [] \<and> g = store h \<and> heap_ok h)
   \<or> (\<exists>b ps rest. pp = Ref b \<and> table_at h b m (length xs) ps rest
        \<and> xs = map (obj_at h) (take (length xs) ps) \<and> g = table_frame h b ps)"

lemma table_rep_empty: "heap_ok h \<Longrightarrow> table_rep h Null 0 [] (store h)"
  by (simp add: table_rep_def)

lemma table_atD:
  assumes "table_at h b m n ps rest"
  shows "heap_ok h" "store h b = Some (Arr (map Some ps @ rest))" "length ps = m" "0 < m"
    "m \<le> INT_MAX" "n \<le> m" "null_from n ps" "entries_ok h b ps"
  using assms by (simp_all add: table_at_def)

lemma table_rep_cases [consumes 1, case_names empty array]:
  assumes "table_rep h pp m xs g"
  obtains (empty) "pp = Null" "m = 0" "xs = []" "g = store h" "heap_ok h"
    | (array) b ps rest where "pp = Ref b" "table_at h b m (length xs) ps rest"
      "xs = map (obj_at h) (take (length xs) ps)" "g = table_frame h b ps"
  using assms unfolding table_rep_def by blast

lemma table_rep_heap: "table_rep h pp m xs g \<Longrightarrow> heap_ok h"
  by (erule table_rep_cases) (simp_all add: table_at_def)

lemma table_rep_room: "table_rep h pp m xs g \<Longrightarrow> length xs \<le> m \<and> m \<le> INT_MAX"
  by (erule table_rep_cases) (simp_all add: table_at_def)

section \<open>The growth loop\<close>

text \<open>A table with room for \<open>m\<close> pointers, and the heap without it.\<close>

definition is_table :: "'o heap \<Rightarrow> ptr \<Rightarrow> nat \<Rightarrow> ptr option list \<Rightarrow> bool" where
  "is_table h pp m cs \<longleftrightarrow>
     (case pp of Null \<Rightarrow> m = 0 \<and> cs = []
      | Ref b \<Rightarrow> 0 < m \<and> store h b = Some (Arr cs) \<and> m \<le> length cs)"

definition without :: "'o heap \<Rightarrow> ptr \<Rightarrow> nat \<rightharpoonup> 'o block" where
  "without h pp = (case pp of Null \<Rightarrow> store h | Ref b \<Rightarrow> (store h)(b := None))"

definition grown ::
  "'o heap \<Rightarrow> ptr \<Rightarrow> nat \<Rightarrow> nat \<Rightarrow> ptr option list \<Rightarrow> ptr \<Rightarrow> nat \<Rightarrow> 'o heap \<Rightarrow> bool" where
  "grown h pp m wanted cs q n h' \<longleftrightarrow>
     heap_ok h' \<and> avail h' = avail h \<and> fresh h \<le> fresh h' \<and> m \<le> n
   \<and> n \<le> max (max 100 m) (2 * wanted)
   \<and> (\<exists>cs'. is_table h' q n cs' \<and> take m cs' = take m cs) \<and> without h' q = without h pp
   \<and> (q = pp \<and> h' = h \<and> n = m \<or> (\<exists>a. q = Ref a \<and> fresh h \<le> a \<and> m < n))"

lemma grown_refl:
  "heap_ok h \<Longrightarrow> is_table h pp m cs \<Longrightarrow> grown h pp m wanted cs pp m h"
  by (auto simp: grown_def)

lemma grown_trans:
  assumes "grown h pp m wanted cs q n h1" "is_table h1 q n cs1" "take m cs1 = take m cs"
    "grown h1 q n wanted cs1 r k h2"
  shows "grown h pp m wanted cs r k h2"
proof -
  have "take m cs2 = take m cs" if "take n cs2 = take n cs1" for cs2
    using that assms(1,3) by (metis grown_def min.absorb1 take_take)
  with assms show ?thesis unfolding grown_def by (auto intro: order_trans)
qed

text \<open>One turn of the loop, as a relation between the loop variables.\<close>

lemma cells_bytes: "n \<le> INT_MAX \<Longrightarrow> to_size (n * PTR_BYTES) div PTR_BYTES = n"
  by (simp add: to_size_def INT_MAX_def SIZE_MOD_def PTR_BYTES_def)

lemma grow_first:
  assumes "heap_ok h" "0 < wanted"
  shows "grown h Null 0 wanted [] (Ref (fresh h)) 100 (granted (Arr (replicate 100 None)) h)"
  using assms by (auto simp: grown_def is_table_def without_def)

lemma grow_double:
  assumes ok: "heap_ok h" and tab: "is_table h (Ref b) m cs" and w: "m < wanted"
  shows "grown h (Ref b) m wanted cs (Ref (fresh h)) (2 * m)
    (drop_block b (granted (Arr (take (2 * m) cs @ replicate (2 * m - length cs) None)) h))"
proof -
  have b: "b \<noteq> fresh h" "0 < m" "m \<le> length cs"
    using tab heap_ok_fresh [OF ok] by (auto simp: is_table_def)
  moreover have "(store h)(fresh h := None) = store h" using heap_ok_fresh [OF ok] by (simp add: fun_upd_idem)
  ultimately show ?thesis
    using ok w by (auto simp: grown_def is_table_def without_def heap_ok_drop_block fun_eq_iff min_def)
qed

lemma grow_table_cases [consumes 3, case_names enough first_refused first doubled_refused doubled]:
  assumes ok: "heap_ok h" and tab: "is_table h pp m cs" and bound: "m \<le> INT_MAX div 2"
  obtains (enough) "wanted \<le> m" "grow_table pp m wanted PTR_BYTES h = Some (pp, m, h)"
  | (first_refused) "m = 0" "pp = Null" "0 < wanted" "\<not> avail h (asked h)"
      "grow_table pp m wanted PTR_BYTES h = Some (Null, m, refused h)"
  | (first) h1 where "m = 0" "pp = Null" "0 < wanted" "avail h (asked h)"
      "h1 = granted (Arr (replicate 100 None)) h" "grown h pp m wanted cs (Ref (fresh h)) 100 h1"
      "is_table h1 (Ref (fresh h)) 100 (replicate 100 None)"
      "grow_table pp m wanted PTR_BYTES h = grow_table (Ref (fresh h)) 100 wanted PTR_BYTES h1"
  | (doubled_refused) "0 < m" "m < wanted" "\<not> avail h (asked h)"
      "grow_table pp m wanted PTR_BYTES h = Some (Null, m, refused h)"
  | (doubled) b cs1 h1 where "pp = Ref b" "0 < m" "m < wanted" "avail h (asked h)"
      "h1 = drop_block b (granted (Arr cs1) h)"
      "grown h pp m wanted cs (Ref (fresh h)) (2 * m) h1" "take m cs1 = take m cs"
      "is_table h1 (Ref (fresh h)) (2 * m) cs1"
      "grow_table pp m wanted PTR_BYTES h = grow_table (Ref (fresh h)) (2 * m) wanted PTR_BYTES h1"
proof (cases "wanted \<le> m")
  case True
  then show thesis by (intro enough) (simp_all add: grow_table.simps)
next
  case w: False
  show thesis
  proof (cases pp)
    case Null
    with tab have m: "m = 0" "cs = []" by (simp_all add: is_table_def)
    have cells: "to_size (MANAGEBUF_INIT * PTR_BYTES) div PTR_BYTES = 100"
      by (simp add: MANAGEBUF_INIT_def PTR_BYTES_def to_size_def SIZE_MOD_def)
    have pos: "0 < MANAGEBUF_INIT" by (simp add: MANAGEBUF_INIT_def)
    show thesis
    proof (cases "avail h (asked h)")
      case True
      show thesis
        by (rule first [OF m(1) Null _ True refl])
          (use w m Null True grow_first [OF ok, of wanted]
            in \<open>simp_all add: cells pos is_table_def malloc_eq MANAGEBUF_INIT_def [symmetric] grow_table.simps [of Null]\<close>)
    next
      case False
      with w m Null show thesis
        by (intro first_refused) (simp_all add: cells malloc_eq grow_table.simps [of Null])
    qed
  next
    case (Ref b)
    with tab have m: "0 < m" "store h b = Some (Arr cs)" "m \<le> length cs" by (simp_all add: is_table_def)
    let ?cs = "take (2 * m) cs @ replicate (2 * m - length cs) None"
    have sz: "to_size (m * 2) = 2 * m" "to_size (2 * m * PTR_BYTES) div PTR_BYTES = 2 * m"
      using bound cells_bytes [of "2 * m"] by (simp_all add: INT_MAX_def to_size_def SIZE_MOD_def mult.commute)
    show thesis
    proof (cases "avail h (asked h)")
      case True
      have b: "fresh h \<noteq> b" using m(2) heap_ok_fresh [OF ok] by auto
      show thesis
        by (rule doubled [OF Ref m(1) _ True refl])
          (use w m Ref True b grow_double [OF ok tab [unfolded Ref]] in
            \<open>simp_all add: sz is_table_def arr_realloc_eq min_def grow_table.simps [of "Ref b"]\<close>)
    next
      case False
      with w m Ref show thesis
        by (intro doubled_refused) (simp_all add: sz arr_realloc_eq grow_table.simps [of "Ref b"])
    qed
  qed
qed

text \<open>With memory the loop reaches the size wanted; the table keeps its cells.\<close>

lemma grow_table_granted:
  assumes "heap_ok h" "is_table h pp m cs" "m \<le> INT_MAX div 2" "wanted \<le> INT_MAX div 2"
    "\<forall>k. avail h k"
  shows "\<exists>q n h'. grow_table pp m wanted PTR_BYTES h = Some (q, n, h')
    \<and> grown h pp m wanted cs q n h' \<and> wanted \<le> n"
  using assms
proof (induction "wanted - m" arbitrary: h pp m cs rule: less_induct)
  case less
  show ?case
    using less.prems(1-3)
  proof (cases rule: grow_table_cases [where wanted = wanted])
    case enough
    with less.prems show ?thesis by (auto intro: grown_refl)
  next
    case (first h1)
    have "\<exists>q n h'. grow_table (Ref (fresh h)) 100 wanted PTR_BYTES h1 = Some (q, n, h')
        \<and> grown h1 (Ref (fresh h)) 100 wanted (replicate 100 None) q n h' \<and> wanted \<le> n"
      using first less.prems by (intro less.hyps) (auto simp: grown_def INT_MAX_def)
    with first show ?thesis by (metis grown_trans take_0)
  next
    case (doubled b cs1 h1)
    have "\<exists>q n h'. grow_table (Ref (fresh h)) (2 * m) wanted PTR_BYTES h1 = Some (q, n, h')
        \<and> grown h1 (Ref (fresh h)) (2 * m) wanted cs1 q n h' \<and> wanted \<le> n"
    proof (cases "wanted \<le> 2 * m")
      case True
      with doubled show ?thesis
        by (intro exI conjI) (auto simp: grow_table.simps [of "Ref (fresh h)"] grown_def intro!: grown_refl)
    next
      case False
      with doubled less.prems show ?thesis by (intro less.hyps) (auto simp: grown_def)
    qed
    with doubled show ?thesis by (metis grown_trans)
  qed (use less.prems in auto)
qed

section \<open>Growing a represented table\<close>

text \<open>The objects of the heap survive, in place and with their values.\<close>

definition keeps_objs :: "'o heap \<Rightarrow> 'o heap \<Rightarrow> bool" where
  "keeps_objs h h' \<longleftrightarrow> (\<forall>p. obj_at h p \<noteq> None \<longrightarrow> obj_at h' p = obj_at h p)"

lemma keeps_objsI: "(\<And>p. obj_at h p \<noteq> None \<Longrightarrow> obj_at h' p = obj_at h p) \<Longrightarrow> keeps_objs h h'"
  by (simp add: keeps_objs_def)

lemma keeps_objs_refl [simp]: "keeps_objs h h"
  by (simp add: keeps_objs_def)

lemma keeps_objs_refused [simp]: "keeps_objs h (refused h)"
  by (simp add: keeps_objs_def)

lemma keeps_objs_trans: "keeps_objs h h1 \<Longrightarrow> keeps_objs h1 h2 \<Longrightarrow> keeps_objs h h2"
  unfolding keeps_objs_def by auto

lemma keeps_objsD: "keeps_objs h h' \<Longrightarrow> obj_at h p = Some v \<Longrightarrow> obj_at h' p = Some v"
  by (simp add: keeps_objs_def)

lemma table_cells:
  assumes "table_rep h pp m xs g"
  shows "\<exists>cs. is_table h pp m cs"
  using assms by (cases rule: table_rep_cases) (auto simp: is_table_def table_at_def)

text \<open>A grown table whose new slots are cleared represents the same entries.\<close>

lemma clear_grown:
  assumes R: "table_rep h pp m xs g" and tab: "is_table h pp m cs"
    and G: "grown h pp m wanted cs q n h1" and n: "n \<le> INT_MAX"
  obtains h2 where "arr_clear q m (n - m) h1 = Some h2" "table_rep h2 q n xs g"
    "avail h2 = avail h" "asked h2 = asked h1" "keeps_objs h h2"
proof (cases "q = pp \<and> h1 = h \<and> n = m")
  case True
  with R show thesis by (intro that [of h]) simp_all
next
  case False
  with G obtain a cs' where a: "q = Ref a" "fresh h \<le> a" "m < n" and cs': "store h1 a = Some (Arr cs')"
    "n \<le> length cs'" "take m cs' = take m cs" and wo: "(store h1)(a := None) = without h pp"
    and ok1: "heap_ok h1" and av: "avail h1 = avail h"
    by (auto simp: grown_def is_table_def without_def)
  let ?new = "take m cs' @ replicate (n - m) (Some Null) @ drop n cs'"
  let ?h2 = "set_block a (Arr ?new) h1"
  have clear: "arr_clear q m (n - m) h1 = Some ?h2"
    using arr_clear_eq [OF cs'(1), of m "n - m"] a cs'(2) by simp
  have ha: "store h a = None" using a(2) table_rep_heap [OF R] by (simp add: heap_ok_def)
  have ok2: "heap_ok ?h2" using ok1 cs'(1) by (simp add: heap_ok_set_block)
  have else_same: "store ?h2 e = without h pp e" if "e \<noteq> a" for e
    using that wo by (metis fun_upd_other store_set_block)
  have objs: "obj_at ?h2 p = obj_at h p" if "obj_at h p \<noteq> None" for p
  proof -
    from that obtain e v where e: "p = Ref e" "store h e = Some (Obj v)" by (auto simp: obj_at_Some)
    then have "e \<noteq> a" "without h pp e = store h e"
      using ha tab by (auto simp: without_def is_table_def split: ptr.splits)
    with else_same e(1) show ?thesis by simp
  qed
  have rep: "table_rep ?h2 q n xs g"
    using R
  proof (cases rule: table_rep_cases)
    case empty
    have "table_at ?h2 a n 0 (replicate n Null) (drop n cs')"
      using ok2 a n empty(2) by (auto simp: table_at_def null_from_def entries_ok_def all_live_def
          uniq_refs_def map_replicate_const)
    moreover have "table_frame ?h2 a (replicate n Null) = g"
    proof (rule ext)
      fix e
      show "table_frame ?h2 a (replicate n Null) e = g e"
        using else_same [of e] ha empty
        by (cases "e = a") (auto simp: table_frame_def restrict_map_def without_def)
    qed
    ultimately show ?thesis using a(1) empty by (fastforce simp: table_rep_def)
  next
    case (array b ps rest)
    note D = table_atD [OF array(2)]
    let ?ps = "ps @ replicate (n - m) Null"
    have "take m cs' = map Some ps"
      using tab array(1) D(2,3) cs'(3) by (auto simp: is_table_def)
    then have new: "?new = map Some ?ps @ drop n cs'" by simp
    have al: "all_live h ps" and ub: "uniq_refs ps" using D(8) by (simp_all add: entries_ok_def)
    have "all_live ?h2 ?ps" using al objs by (auto simp: all_live_def)
    moreover have nin: "Ref a \<notin> set ps" using al ha by (auto simp: all_live_def)
    ultimately have "entries_ok ?h2 a ?ps"
      using ub by (simp add: entries_ok_def uniq_refs_append)
    then have T: "table_at ?h2 a n (length xs) ?ps (drop n cs')"
      using D a(3) n ok2 new by (simp add: table_at_def null_from_append)
    have "table_frame ?h2 a ?ps = table_frame h b ps"
    proof (rule ext)
      fix e
      show "table_frame ?h2 a ?ps e = table_frame h b ps e"
        using else_same [of e] ha array(1)
        by (cases "e = a") (auto simp: table_frame_def restrict_map_def without_def)
    qed
    moreover have "xs = map (obj_at ?h2) (take (length xs) ?ps)"
    proof -
      have "map (obj_at ?h2) (take (length xs) ps) = map (obj_at h) (take (length xs) ps)"
        using al objs by (intro map_cong refl) (auto simp: all_live_def dest!: in_set_takeD)
      then show ?thesis using array(3) D(3,6) by simp
    qed
    ultimately show ?thesis
      unfolding table_rep_def array(4) using T a(1) by metis
  qed
  show thesis by (rule that [OF clear rep]) (use av objs in \<open>auto intro: keeps_objsI\<close>)
qed

text \<open>The general case: with memory, any number of slots below \<open>2 ^ 30\<close>.\<close>

lemma createp_granted:
  assumes R: "table_rep h pp m xs g" and m: "m \<le> INT_MAX div 2" and w: "0 < wanted" "wanted \<le> INT_MAX div 2"
    and av: "\<forall>k. avail h k"
  obtains q n h' where "manageBuf_createp pp m wanted PTR_BYTES h = Some (q, q, n, h')" "q \<noteq> Null"
    "table_rep h' q n xs g" "wanted \<le> n" "m \<le> n" "avail h' = avail h"
proof -
  obtain cs where tab: "is_table h pp m cs" using table_cells [OF R] by blast
  from grow_table_granted [OF table_rep_heap [OF R] tab m w(2) av] obtain q n h1
    where G: "grow_table pp m wanted PTR_BYTES h = Some (q, n, h1)"
      "grown h pp m wanted cs q n h1" "wanted \<le> n" by blast
  have n: "n \<le> INT_MAX" using G(2) m w(2) by (auto simp: grown_def INT_MAX_def)
  have q: "q \<noteq> Null" using G(2,3) w(1) by (auto simp: grown_def is_table_def)
  from R tab G(2) n obtain h2 where h2: "arr_clear q m (n - m) h1 = Some h2" "table_rep h2 q n xs g"
    "avail h2 = avail h" by (rule clear_grown)
  have "m \<le> n" using G(2) by (simp add: grown_def)
  moreover have "manageBuf_createp pp m wanted PTR_BYTES h = Some (q, q, n, h2)"
    using G(1) h2(1) n q by (simp add: manageBuf_createp_def)
  ultimately show thesis using that h2 q G(3) by blast
qed

text \<open>
  The case of the wrapper: at most one turn of the loop, so a refused allocation leaves the table
  as it was.
\<close>

definition one_turn :: "nat \<Rightarrow> nat \<Rightarrow> bool" where
  "one_turn m wanted \<longleftrightarrow> 0 < wanted \<and> wanted \<le> (if m = 0 then 100 else 2 * m)"

lemma createp_step:
  assumes R: "table_rep h pp m xs g" and m: "m \<le> INT_MAX div 2" and w: "one_turn m wanted"
  shows "\<exists>r q n h'. manageBuf_createp pp m wanted PTR_BYTES h = Some (r, q, n, h')
    \<and> table_rep h' q n xs g \<and> avail h' = avail h \<and> keeps_objs h h'
    \<and> (if r = Null then q = pp \<and> n = m \<and> \<not> avail h (asked h) else r = q \<and> wanted \<le> n)"
proof -
  obtain cs where tab: "is_table h pp m cs" using table_cells [OF R] by blast
  note ok = table_rep_heap [OF R] and len = table_rep_room [OF R]
  have small: "n \<le> INT_MAX" if "n = 100 \<or> n \<le> 2 * m" for n using that m by (auto simp: INT_MAX_def)
  have fin: ?thesis
    if grow: "grow_table pp m wanted PTR_BYTES h = Some (Ref a, n, h1)"
      and G: "grown h pp m wanted cs (Ref a) n h1" and n: "wanted \<le> n" "n \<le> INT_MAX"
    for a n h1
  proof -
    from R tab G n(2) obtain h2 where h2: "arr_clear (Ref a) m (n - m) h1 = Some h2"
      "table_rep h2 (Ref a) n xs g" "avail h2 = avail h" "asked h2 = asked h1" "keeps_objs h h2"
      by (rule clear_grown)
    have "manageBuf_createp pp m wanted PTR_BYTES h = Some (Ref a, Ref a, n, h2)"
      using grow h2(1) n(2) by (simp add: manageBuf_createp_def)
    with h2 n(1) show ?thesis by simp
  qed
  have ref: ?thesis
    if "grow_table pp m wanted PTR_BYTES h = Some (Null, m, refused h)"
      and "m < wanted" "\<not> avail h (asked h)"
  proof -
    have "table_rep (refused h) pp m xs g"
      using R unfolding table_rep_def table_at_def table_frame_def entries_ok_def all_live_def by simp
    with that show ?thesis by (simp add: manageBuf_createp_def)
  qed
  show ?thesis
    using ok tab m
  proof (cases rule: grow_table_cases [where wanted = wanted])
    case enough
    with R w obtain b where "pp = Ref b" by (auto elim: table_rep_cases simp: one_turn_def)
    with enough grown_refl [OF ok tab] len show ?thesis by (intro fin) auto
  next
    case (first h1)
    with w small show ?thesis
      by (intro fin [of "fresh h" 100 h1]) (auto simp: grow_table.simps [of "Ref (fresh h)"] one_turn_def)
  next
    case (doubled b cs1 h1)
    with w small show ?thesis
      by (intro fin [of "fresh h" "2 * m" h1]) (auto simp: grow_table.simps [of "Ref (fresh h)"] one_turn_def)
  qed (use ref in auto)
qed

section \<open>Storing an entry\<close>

text \<open>The entries after a store at index \<open>i\<close>; the used number becomes \<open>i + 1\<close>.\<close>

definition entered :: "'o option list \<Rightarrow> nat \<Rightarrow> 'o \<Rightarrow> 'o option list" where
  "entered xs i v = pad None i xs @ [Some v]"

lemma length_entered [simp]: "length xs \<le> i \<Longrightarrow> length (entered xs i v) = Suc i"
  by (simp add: entered_def)

lemma refs_after_put:
  assumes "ps ! i = Null" "i < length ps"
  shows "Ref x \<in> set (ps[i := Ref e]) \<longleftrightarrow> x = e \<or> Ref x \<in> set ps"
proof
  assume "Ref x \<in> set (ps[i := Ref e])"
  then show "x = e \<or> Ref x \<in> set ps" by (auto dest: set_update_subset_insert [THEN subsetD])
next
  assume R: "x = e \<or> Ref x \<in> set ps"
  show "Ref x \<in> set (ps[i := Ref e])"
  proof (cases "x = e")
    case True
    with assms(2) show ?thesis by (simp add: set_update_memI)
  next
    case False
    with R obtain j where "j < length ps" "ps ! j = Ref x" by (auto simp: in_set_conv_nth)
    with assms show ?thesis by (metis length_list_update nth_list_update_neq nth_mem ptr.distinct(1))
  qed
qed

lemma put_entry:
  assumes R: "table_rep h pp m xs g" and i: "length xs \<le> i" "i < m" and v: "g e = Some (Obj v)"
  obtains h' where "arr_put pp i (Ref e) h = Some h'" "table_rep h' pp m (entered xs i v) (g(e := None))"
    "avail h' = avail h" "asked h' = asked h" "\<And>p. obj_at h' p = obj_at h p"
  using R
proof (cases rule: table_rep_cases)
  case empty
  with i show thesis by simp
next
  case (array b ps rest)
  note D = table_atD [OF array(2)]
  have e: "e \<noteq> b" "Ref e \<notin> set ps" "store h e = Some (Obj v)"
    using v array(4) by (auto simp: table_frame_def restrict_map_def split: if_splits)
  let ?ps = "ps[i := Ref e]" and ?h = "set_block b (Arr (map Some (ps[i := Ref e]) @ rest)) h"
  have put: "arr_put pp i (Ref e) h = Some ?h"
    using arr_put_eq [OF D(2), of i] i(2) D(3) array(1) by (simp add: list_update_append map_update)
  have objs: "obj_at ?h p = obj_at h p" for p
    using D(2) by (auto simp: obj_at_set_block)
  have E: "entries_ok ?h b ?ps"
    using D(3,8) e i objs unfolding entries_ok_def
    by (auto intro!: all_live_update uniq_refs_update simp: all_live_def dest: set_update_subset_insert [THEN subsetD])
  have nf: "null_from (Suc i) ?ps"
    using D(3,7) i by (auto simp: null_from_def nth_list_update)
  have T: "table_at ?h b m (Suc i) ?ps rest"
    using D E nf i by (simp add: table_at_def heap_ok_set_block)
  have "entered xs i v = map (obj_at ?h) (take (Suc i) ?ps)"
  proof (rule nth_equalityI)
    show "length (entered xs i v) = length (map (obj_at ?h) (take (Suc i) ?ps))"
      using i D(3) by simp
  next
    fix j assume "j < length (entered xs i v)"
    then have j: "j \<le> i" using i by simp
    have xs: "j < length xs \<Longrightarrow> xs ! j = obj_at h (ps ! j)"
      using array(3) D(3,6) by (metis length_map nth_map nth_take length_take min_less_iff_conj)
    have nul: "length xs \<le> j \<Longrightarrow> ps ! j = Null"
      using D(3,7) i j by (simp add: null_from_def)
    have "(map (obj_at ?h) (take (Suc i) ?ps)) ! j = obj_at h (?ps ! j)"
      using j i D(3) objs by simp
    then show "entered xs i v ! j = (map (obj_at ?h) (take (Suc i) ?ps)) ! j"
      using j i D(3) xs nul e(3)
      by (cases "j = i") (auto simp: entered_def nth_append pad_def nth_list_update)
  qed
  moreover have "table_frame ?h b ?ps = g(e := None)"
  proof (rule ext)
    fix x
    have "ps ! i = Null" using D(3,7) i by (simp add: null_from_def)
    then have "Ref x \<in> set ?ps \<longleftrightarrow> x = e \<or> Ref x \<in> set ps"
      using i(2) D(3) by (simp add: refs_after_put)
    then show "table_frame ?h b ?ps x = (g(e := None)) x"
      using array(4) by (auto simp: table_frame_def restrict_map_def)
  qed
  ultimately have "table_rep ?h pp m (entered xs i v) (g(e := None))"
    unfolding table_rep_def using T array(1) i length_entered [OF i(1), of v] by metis
  with put show thesis by (intro that [of ?h]) (simp_all add: objs)
qed

end
