(* ===== verification/PointerTable.thy ===== *)
theory PointerTable
  imports ManageBuf
begin

text \<open>
  The contract of the pointer tables and its users' view of it: the interface \<open>pointer_table\<close>, the
  growth step every user shares (\<open>next_slot\<close> and a store), the interpretation on
  \<open>src/src/manageBuf.c\<close>, and the properties of the two functions.
\<close>

section \<open>Freeing\<close>

lemma free_entries_run:
  assumes "table_at h b m n ps rest" "i + k \<le> m" "\<forall>j < i. ps ! j = Null"
  obtains h' ps' where "free_entries (Ref b) i k h = Some h'" "table_at h' b m n ps' rest"
    "table_frame h' b ps' = table_frame h b ps" "\<forall>j < i + k. ps' ! j = Null"
    "avail h' = avail h"
  using assms
proof (induction k arbitrary: i h ps thesis)
  case 0
  then show ?case by simp
next
  case (Suc k)
  note D = table_atD [OF Suc.prems(2)]
  have i: "i < m" using Suc.prems(3) by simp
  have get: "arr_get (Ref b) i h = Some (ps ! i)"
    using D(2,3) i by (simp add: arr_get_def nth_append)
  show ?case
  proof (cases "ps ! i")
    case Null
    then have "\<forall>j < Suc i. ps ! j = Null" using Suc.prems(4) by (simp add: less_Suc_eq)
    with Suc.IH [OF _ Suc.prems(2), of "Suc i"] Suc.prems(3) obtain h' ps' where
      "free_entries (Ref b) (Suc i) k h = Some h'" "table_at h' b m n ps' rest"
      "table_frame h' b ps' = table_frame h b ps" "\<forall>j < Suc i + k. ps' ! j = Null" "avail h' = avail h"
      by auto
    with get Null show ?thesis by (intro Suc.prems(1) [of h' ps']) auto
  next
    case (Ref e)
    let ?ps = "ps[i := Null]" and ?h1 = "drop_block e h"
    let ?h = "set_block b (Arr (map Some ?ps @ rest)) ?h1"
    have E: "all_live h ps" "uniq_refs ps" "Ref b \<notin> set ps" using D(8) by (simp_all add: entries_ok_def)
    have ein: "Ref e \<in> set ps" using Ref i D(3) by (metis nth_mem)
    then have "obj_at h (Ref e) \<noteq> None" using E(1) unfolding all_live_def by blast
    then have e: "e \<noteq> b" "store h e \<noteq> None" using ein E(3) by (auto split: option.splits)
    have nin: "Ref e \<notin> set ?ps" using E(2) i D(3) Ref by (intro not_in_update) simp_all
    have sub: "set ?ps \<subseteq> insert Null (set ps)" by (rule set_update_subset_insert)
    have live: "all_live ?h ?ps"
      using E(1,3) nin sub D(2) by (force simp: all_live_def obj_at_set_block obj_at_drop_block)
    have ent: "entries_ok ?h b ?ps"
      using live E sub i D(3) by (auto simp: entries_ok_def intro: uniq_refs_update)
    have T: "table_at ?h b m n ?ps rest"
      using D ent e null_from_update [OF D(7), of i Null n] i
      by (simp add: table_at_def heap_ok_set_block heap_ok_drop_block)
    have refs: "Ref x \<in> set ps \<longleftrightarrow> x = e \<or> Ref x \<in> set ?ps" for x
    proof -
      have "set ps \<subseteq> insert (ps ! i) (set ?ps)"
        by (metis list_update_id list_update_overwrite set_update_subset_insert)
      with Ref ein sub show ?thesis by auto
    qed
    have "table_frame ?h b ?ps = table_frame h b ps"
      by (rule ext) (auto simp: table_frame_def restrict_map_def refs)
    moreover have "\<forall>j < Suc i. ?ps ! j = Null"
      using Suc.prems(4) i D(3) by (simp add: less_Suc_eq)
    moreover have "Suc i + k \<le> m" using Suc.prems(3) by simp
    ultimately obtain h' ps' where "free_entries (Ref b) (Suc i) k ?h = Some h'"
      "table_at h' b m n ps' rest" "table_frame h' b ps' = table_frame h b ps"
      "\<forall>j < Suc i + k. ps' ! j = Null" "avail h' = avail h"
      using Suc.IH [OF _ T, of "Suc i"] by auto
    moreover have "arr_put (Ref b) i Null ?h1 = Some ?h"
      using arr_put_eq [of ?h1 b "map Some ps @ rest" i] D(2,3) e(1) i
      by (simp add: list_update_append map_update)
    moreover have "cfree (Ref e) h = Some ?h1" using e(2) by auto
    ultimately show ?thesis using get Ref by (intro Suc.prems(1) [of h' ps']) auto
  qed
qed

lemma freev_run:
  assumes R: "table_rep h pp m xs g"
  obtains h' where "manageBuf_freev pp (length xs) h = Some h'" "store h' = g" "heap_ok h'"
    "avail h' = avail h"
  using R
proof (cases rule: table_rep_cases)
  case empty
  then show thesis by (intro that [of h]) (simp_all add: manageBuf_freev_def)
next
  case (array b ps rest)
  have "0 + length xs \<le> m" "\<forall>j < 0. ps ! j = Null" using table_atD(6) [OF array(2)] by simp_all
  with array(2) obtain h1 ps' where h1: "free_entries (Ref b) 0 (length xs) h = Some h1"
    "table_at h1 b m (length xs) ps' rest" "table_frame h1 b ps' = g"
    "\<forall>j < 0 + length xs. ps' ! j = Null" "avail h1 = avail h"
    unfolding array(4) by (rule free_entries_run)
  note D = table_atD [OF h1(2)]
  have "\<forall>p \<in> set ps'. p = Null"
    using D(3,7) h1(4) by (auto simp: null_from_def in_set_conv_nth) (metis not_le)
  then have "store (drop_block b h1) = g"
    unfolding h1(3) [symmetric] by (auto simp: table_frame_def restrict_map_def fun_eq_iff)
  with h1 D(1,2) array(1) show thesis
    by (intro that [of "drop_block b h1"]) (simp_all add: manageBuf_freev_def heap_ok_drop_block)
qed

section \<open>The interface\<close>

text \<open>
  What the wrapper relies on: growth that keeps the entries and fails without a trace, stores,
  and a release that gives back everything the table owns.
\<close>

locale pointer_table =
  fixes create :: "ptr \<Rightarrow> nat \<Rightarrow> nat \<Rightarrow> 'o heap \<Rightarrow> (ptr \<times> ptr \<times> nat \<times> 'o heap) option"
    and free_all :: "ptr \<Rightarrow> nat \<Rightarrow> 'o heap \<Rightarrow> 'o heap option"
    and rep :: "'o heap \<Rightarrow> ptr \<Rightarrow> nat \<Rightarrow> 'o option list \<Rightarrow> (nat \<rightharpoonup> 'o block) \<Rightarrow> bool"
    and max_size :: nat
  assumes create_law: "rep h pp m xs g \<Longrightarrow> m \<le> max_size \<Longrightarrow> one_turn m wanted \<Longrightarrow>
      \<exists>r q n h'. create pp m wanted h = Some (r, q, n, h') \<and> rep h' q n xs g \<and> avail h' = avail h
        \<and> keeps_objs h h'
        \<and> (if r = Null then q = pp \<and> n = m \<and> \<not> avail h (asked h) else r = q \<and> wanted \<le> n)"
    and store_law: "rep h pp m xs g \<Longrightarrow> length xs \<le> i \<Longrightarrow> i < m \<Longrightarrow> g e = Some (Obj v) \<Longrightarrow>
      \<exists>h'. arr_put pp i (Ref e) h = Some h' \<and> rep h' pp m (entered xs i v) (g(e := None))
        \<and> avail h' = avail h \<and> (\<forall>p. obj_at h' p = obj_at h p)"
    and free_law: "rep h pp m xs g \<Longrightarrow>
      \<exists>h'. free_all pp (length xs) h = Some h' \<and> store h' = g \<and> heap_ok h' \<and> avail h' = avail h"
    and grant_law: "rep h pp m xs g \<Longrightarrow> rep (granted (Obj v) h) pp m xs (g(fresh h \<mapsto> Obj v))"
    and refuse_law: "rep h pp m xs g \<Longrightarrow> rep (refused h) pp m xs g"
    and heap_law: "rep h pp m xs g \<Longrightarrow> heap_ok h \<and> length xs \<le> m
      \<and> (\<forall>e k. g e = Some k \<longrightarrow> store h e = Some k)"
    and entry_law: "rep h pp m xs g \<Longrightarrow> i < length xs \<Longrightarrow>
      \<exists>p. arr_get pp i h = Some p \<and> obj_at h p = xs ! i \<and> (p = Null \<longleftrightarrow> xs ! i = None)"
begin

text \<open>
  Adding an object as the users do: room first, then the block of the object, then the store. Either
  the object becomes the entry at \<open>i\<close>, or an allocation was refused and the table is unchanged.
\<close>

lemma add_entry:
  assumes R: "rep h pp m xs g" and m: "m \<le> max_size" and i: "length xs \<le> i" and w: "one_turn m (Suc i)"
    and cr: "create pp m (Suc i) h = Some (r, q, n, h1)"
  shows "(if r = Null then q = pp \<and> n = m \<and> rep h1 q n xs g \<and> \<not> avail h (asked h)
          else if avail h1 (asked h1)
          then \<exists>h2. arr_put q i (Ref (fresh h1)) (granted (Obj v) h1) = Some h2
                 \<and> rep h2 q n (entered xs i v) g \<and> avail h2 = avail h \<and> obj_at h2 (Ref (fresh h1)) = Some v
          else rep (refused h1) q n xs g)"
proof -
  from create_law [OF R m w] cr have C: "rep h1 q n xs g" "avail h1 = avail h"
    "if r = Null then q = pp \<and> n = m \<and> \<not> avail h (asked h) else r = q \<and> Suc i \<le> n"
    by auto
  have fresh: "g (fresh h1) = None"
    using heap_law [OF C(1)] heap_ok_fresh by (metis not_Some_eq)
  show ?thesis
  proof (cases "r = Null \<or> \<not> avail h1 (asked h1)")
    case True
    with C refuse_law [OF C(1)] show ?thesis by (cases "r = Null") auto
  next
    case False
    with C(3) have n: "i < n" by (auto split: if_splits)
    from store_law [OF grant_law [OF C(1), of v] i n, of "fresh h1" v] obtain h2 where
      "arr_put q i (Ref (fresh h1)) (granted (Obj v) h1) = Some h2"
      "rep h2 q n (entered xs i v) (g(fresh h1 := None))" "avail h2 = avail h1"
      "\<forall>p. obj_at h2 p = obj_at (granted (Obj v) h1) p"
      by auto
    moreover have "obj_at (granted (Obj v) h1) (Ref (fresh h1)) = Some v" by simp
    ultimately show ?thesis using False C(2) fresh
      by (auto simp: fun_upd_idem simp del: obj_at.simps)
  qed
qed

text \<open>With memory the object is stored and the release afterwards frees it with the table.\<close>

lemma add_then_free:
  assumes R: "rep h pp m xs g" and m: "m \<le> max_size" and i: "length xs \<le> i" and w: "one_turn m (Suc i)"
    and av: "\<forall>k. avail h k"
  shows "\<exists>q n h1 h2 h3. create pp m (Suc i) h = Some (q, q, n, h1)
    \<and> arr_put q i (Ref (fresh h1)) (granted (Obj v) h1) = Some h2
    \<and> rep h2 q n (entered xs i v) g \<and> free_all q (Suc i) h2 = Some h3 \<and> store h3 = g"
proof -
  from create_law [OF R m w] av obtain q n h1 where C: "create pp m (Suc i) h = Some (q, q, n, h1)"
    "q \<noteq> Null" "avail h1 = avail h"
    by (auto split: if_splits)
  from add_entry [OF R m i w C(1), of v] C(2,3) av obtain h2 where
    h2: "arr_put q i (Ref (fresh h1)) (granted (Obj v) h1) = Some h2" "rep h2 q n (entered xs i v) g"
    by auto
  from free_law [OF h2(2)] i obtain h3 where "free_all q (Suc i) h2 = Some h3" "store h3 = g" by auto
  with C h2 show ?thesis by blast
qed

end

section \<open>The tables of the source\<close>

lemma table_rep_granted:
  assumes R: "table_rep h pp m xs g"
  shows "table_rep (granted (Obj v) h) pp m xs (g(fresh h \<mapsto> Obj v))"
  using R
proof (cases rule: table_rep_cases)
  case empty
  then show ?thesis by (simp add: table_rep_def)
next
  case (array b ps rest)
  note D = table_atD [OF array(2)]
  have E: "all_live h ps" using D(8) by (simp add: entries_ok_def)
  have f: "store h (fresh h) = None" using D(1) by simp
  then have nin: "Ref (fresh h) \<notin> set ps" and nb: "fresh h \<noteq> b"
    using E D(2) by (auto simp: all_live_def)
  have same: "obj_at (granted (Obj v) h) p = obj_at h p" if "p \<in> set ps" for p
    using that nin by (auto simp: obj_at_granted)
  have "entries_ok (granted (Obj v) h) b ps"
    using D(8) same by (auto simp: entries_ok_def all_live_def)
  then have T: "table_at (granted (Obj v) h) b m (length xs) ps rest"
    using D nb by (simp add: table_at_def)
  have "map (obj_at (granted (Obj v) h)) (take (length xs) ps) = map (obj_at h) (take (length xs) ps)"
    using same by (intro map_cong refl) (auto dest: in_set_takeD)
  moreover have "table_frame (granted (Obj v) h) b ps = g(fresh h \<mapsto> Obj v)"
    unfolding array(4) using nin nb by (auto simp: table_frame_def restrict_map_def fun_eq_iff)
  ultimately show ?thesis
    unfolding table_rep_def using T array(1,3) by metis
qed

lemma table_rep_refused: "table_rep h pp m xs g \<Longrightarrow> table_rep (refused h) pp m xs g"
  unfolding table_rep_def table_at_def table_frame_def entries_ok_def all_live_def by simp

lemma table_rep_entry:
  assumes R: "table_rep h pp m xs g" and i: "i < length xs"
  shows "\<exists>p. arr_get pp i h = Some p \<and> obj_at h p = xs ! i \<and> (p = Null \<longleftrightarrow> xs ! i = None)"
  using R
proof (cases rule: table_rep_cases)
  case empty
  with i show ?thesis by simp
next
  case (array b ps rest)
  note D = table_atD [OF array(2)]
  have ip: "i < length ps" using i D(3,6) by simp
  have "xs ! i = obj_at h (ps ! i)" by (subst array(3)) (use i ip in simp)
  moreover have "arr_get pp i h = Some (ps ! i)"
    using D(2) ip array(1) by (simp add: arr_get_def nth_append)
  moreover have "ps ! i = Null \<or> obj_at h (ps ! i) \<noteq> None"
    using D(8) ip by (auto simp: entries_ok_def all_live_def)
  ultimately show ?thesis by (metis obj_at_Null)
qed

lemma table_rep_frame: "table_rep h pp m xs g \<Longrightarrow> g e = Some k \<Longrightarrow> store h e = Some k"
  by (erule table_rep_cases) (auto simp: table_frame_def restrict_map_def split: if_splits)

interpretation tab: pointer_table "\<lambda>pp m wanted. manageBuf_createp pp m wanted PTR_BYTES"
  manageBuf_freev table_rep "INT_MAX div 2"
proof
  fix h :: "'a heap" and pp m xs g
  assume R: "table_rep h pp m xs g"
  show "\<exists>r q n h'. manageBuf_createp pp m wanted PTR_BYTES h = Some (r, q, n, h') \<and> table_rep h' q n xs g
      \<and> avail h' = avail h \<and> keeps_objs h h'
      \<and> (if r = Null then q = pp \<and> n = m \<and> \<not> avail h (asked h) else r = q \<and> wanted \<le> n)"
    if "m \<le> INT_MAX div 2" "one_turn m wanted" for wanted
    using R that by (rule createp_step)
  show "\<exists>h'. arr_put pp i (Ref e) h = Some h' \<and> table_rep h' pp m (entered xs i v) (g(e := None))
      \<and> avail h' = avail h \<and> (\<forall>p. obj_at h' p = obj_at h p)"
    if "length xs \<le> i" "i < m" "g e = Some (Obj v)" for i e v
    using R that by (rule put_entry) auto
  show "\<exists>h'. manageBuf_freev pp (length xs) h = Some h' \<and> store h' = g \<and> heap_ok h' \<and> avail h' = avail h"
    using R by (rule freev_run) auto
  show "table_rep (granted (Obj v) h) pp m xs (g(fresh h \<mapsto> Obj v))" for v
    using R by (rule table_rep_granted)
  show "table_rep (refused h) pp m xs g" using R by (rule table_rep_refused)
  show "heap_ok h \<and> length xs \<le> m \<and> (\<forall>e k. g e = Some k \<longrightarrow> store h e = Some k)"
    using table_rep_heap [OF R] table_rep_room [OF R] table_rep_frame [OF R] by blast
  show "\<exists>p. arr_get pp i h = Some p \<and> obj_at h p = xs ! i \<and> (p = Null \<longleftrightarrow> xs ! i = None)"
    if "i < length xs" for i
    using R that by (rule table_rep_entry)
qed

section \<open>Properties\<close>

text \<open>C24: with memory, \<open>manageBuf_createp\<close> returns a table with room for the number wanted (below
  \<open>2 ^ 30\<close>) that holds the same entries; the rest of the heap is unchanged.\<close>

theorem createp_grows:
  assumes R: "table_rep h pp m xs g" and m: "m \<le> INT_MAX div 2" and w: "0 < wanted" "wanted \<le> INT_MAX div 2"
    and av: "\<forall>k. avail h k"
  shows "\<exists>q n h'. manageBuf_createp pp m wanted PTR_BYTES h = Some (q, q, n, h')
    \<and> q \<noteq> Null \<and> wanted \<le> n \<and> m \<le> n \<and> table_rep h' q n xs g"
  using assms by (rule createp_granted) blast

theorem createp_grows_witness:
  "\<exists>q n h'. manageBuf_createp Null 0 250 PTR_BYTES (empty_heap (\<lambda>_. True) :: nat heap) = Some (q, q, n, h')
    \<and> q \<noteq> Null \<and> 250 \<le> n \<and> table_rep h' q n [] Map.empty"
  using createp_grows [OF table_rep_empty [OF heap_ok_empty], of 250 "\<lambda>_. True"]
  by (simp add: INT_MAX_def empty_heap_def)

text \<open>Asked for at most twice the size it has, \<open>manageBuf_createp\<close> either succeeds or leaves the
  caller's table exactly as it was; this is the only use the wrapper makes of it.\<close>

theorem createp_atomic:
  assumes "table_rep h pp m xs g" "m \<le> INT_MAX div 2" "one_turn m wanted"
  shows "\<exists>r q n h'. manageBuf_createp pp m wanted PTR_BYTES h = Some (r, q, n, h')
    \<and> table_rep h' q n xs g \<and> (if r = Null then q = pp \<and> n = m else r = q \<and> wanted \<le> n)"
  using tab.create_law [OF assms] by (metis (full_types))

theorem createp_atomic_witness:
  "\<exists>r q n h'. manageBuf_createp Null 0 1 PTR_BYTES (empty_heap (\<lambda>_. False) :: nat heap) = Some (r, q, n, h')
    \<and> table_rep h' q n [] Map.empty"
  using createp_atomic [OF table_rep_empty [OF heap_ok_empty], of 1 "\<lambda>_. False"]
  by (auto simp: INT_MAX_def one_turn_def empty_heap_def)

text \<open>Beyond twice the size, a failure after a first \<open>realloc\<close> that succeeded leaves the caller
  with a freed table: the function returns \<open>NULL\<close> without storing the new address.\<close>

theorem createp_dangling:
  assumes R: "table_rep h (Ref b) m xs g" and m: "m \<le> INT_MAX div 4" and w: "2 * m < wanted"
    and av: "avail h (asked h)" "\<not> avail h (Suc (asked h))"
  shows "\<exists>h'. manageBuf_createp (Ref b) m wanted PTR_BYTES h = Some (Null, Ref b, m, h')
    \<and> store h' b = None \<and> (\<forall>used. manageBuf_freev (Ref b) used h' = None)"
proof -
  obtain cs where tab: "is_table h (Ref b) m cs" using table_cells [OF R] by blast
  note ok = table_rep_heap [OF R]
  have m2: "m \<le> INT_MAX div 2" using m by simp
  from ok tab m2 show ?thesis
  proof (cases rule: grow_table_cases [where wanted = wanted])
    case (doubled b' cs1 h1)
    have h1: "store h1 b = None" "heap_ok h1" "\<not> avail h1 (asked h1)"
      using doubled(1,5,6) av(2) by (auto simp: grown_def granted_def drop_block_def)
    have m4: "2 * m \<le> INT_MAX div 2" using m by simp
    from h1(2) doubled(8) m4 have fin: "grow_table (Ref (fresh h)) (2 * m) wanted PTR_BYTES h1
        = Some (Null, 2 * m, refused h1)"
      by (cases rule: grow_table_cases [where wanted = wanted]) (use h1(3) doubled(2) w in auto)
    have dead: "manageBuf_freev (Ref b) used (refused h1) = None" for used
    proof -
      have "store h2 b = None" if "free_entries (Ref b) 0 used (refused h1) = Some h2" for h2
        using that h1(1) by (cases used) (auto simp: arr_get_def run_simps)
      then show ?thesis
        by (cases "free_entries (Ref b) 0 used (refused h1)") (auto simp: manageBuf_freev_def)
    qed
    have "manageBuf_createp (Ref b) m wanted PTR_BYTES h = Some (Null, Ref b, m, refused h1)"
      using doubled fin w by (simp add: manageBuf_createp_def)
    with h1(1) dead show ?thesis by simp
  qed (use w av in auto)
qed

definition one_table :: "(nat \<Rightarrow> bool) \<Rightarrow> nat heap" where
  "one_table av = \<lparr>store = [0 \<mapsto> Arr (map Some (replicate 100 Null))], fresh = 1, avail = av, asked = 0, errno = 12\<rparr>"

lemma one_table_rep: "table_rep (one_table av) (Ref 0) 100 [] Map.empty"
proof -
  have "table_at (one_table av) 0 100 0 (replicate 100 Null) []"
    by (simp add: table_at_def one_table_def heap_ok_def null_from_def entries_ok_def all_live_def
        uniq_refs_def INT_MAX_def)
  moreover have "table_frame (one_table av) 0 (replicate 100 Null) = Map.empty"
    by (auto simp: table_frame_def restrict_map_def one_table_def fun_eq_iff)
  ultimately show ?thesis unfolding table_rep_def by (metis length_0_conv list.map_disc_iff list.size(3) take0)
qed

theorem createp_dangling_witness:
  "\<exists>h'. manageBuf_createp (Ref 0) 100 250 PTR_BYTES (one_table (\<lambda>k. k = 0)) = Some (Null, Ref 0, 100, h')
    \<and> store h' 0 = None"
  using createp_dangling [OF one_table_rep, of 250 "\<lambda>k. k = 0"]
  by (auto simp: INT_MAX_def one_table_def)

text \<open>\<open>manageBuf_freev\<close> frees the entries and the table, each once, and nothing else.\<close>

theorem freev_frees_table:
  assumes "table_rep h pp m xs g"
  shows "\<exists>h'. manageBuf_freev pp (length xs) h = Some h' \<and> store h' = g"
  using tab.free_law [OF assms] by blast

theorem freev_frees_table_witness:
  "\<exists>h'. manageBuf_freev (Ref 0) 0 (one_table (\<lambda>_. True)) = Some h' \<and> store h' = Map.empty"
  using freev_frees_table [OF one_table_rep, of "\<lambda>_. True"] by simp

end
