(* ===== verification/Messages.thy ===== *)
theory Messages
  imports CHeap
begin

text \<open>
  \<open>src/src/messageBuilder.c\<close> and \<open>src/src/dateBuilder.c\<close>: strings built in heap buffers. A format with its
  arguments is given by its rendering: \<open>None\<close> where the formatting fails, otherwise the whole text.
  Since \<open>VA_COPY\<close> renews the argument list, each attempt of the loop renders the same text. A buffer
  is a \<open>Raw\<close> block; its characters are part of the reference.
\<close>

section \<open>Strings handed to callers\<close>

datatype static_string = MessageBuilder_internalErrors | DateBuilder_internalErrors | Empty_message

datatype str_ref = Static static_string | Buffer ptr string

primrec static_chars :: "static_string \<Rightarrow> string" where
  "static_chars MessageBuilder_internalErrors = ''Internal error''"
| "static_chars DateBuilder_internalErrors = ''Internal error''"
| "static_chars Empty_message = ''Empty message''"

primrec str_chars :: "str_ref \<Rightarrow> string" where
  "str_chars (Static k) = static_chars k"
| "str_chars (Buffer p s) = s"

definition messageBuilder_internalErrors :: str_ref where
  "messageBuilder_internalErrors = Static MessageBuilder_internalErrors"

definition dateBuilder_internalErrors :: str_ref where
  "dateBuilder_internalErrors = Static DateBuilder_internalErrors"

text \<open>\<open>free\<close> applied to a string: only a live buffer can be freed.\<close>

primrec free_str :: "str_ref \<Rightarrow> 'o heap \<Rightarrow> 'o heap option" where
  "free_str (Static k) h = None"
| "free_str (Buffer p s) h = cfree p h"

section \<open>messageBuilder\<close>

definition INT_LIMIT :: nat where
  "INT_LIMIT = 2147483647"

definition vsnprintf :: "string option \<Rightarrow> nat \<Rightarrow> int \<times> string" where
  "vsnprintf r n =
     (case r of
        None \<Rightarrow> (- 1, '''')
      | Some s \<Rightarrow> if INT_LIMIT < length s then (- 1, '''') else (int (length s), take (n - 1) s))"

definition raw_realloc :: "ptr \<Rightarrow> 'o heap \<Rightarrow> (ptr \<times> 'o heap) option" where
  "raw_realloc p h =
     (let (q, h1) = malloc Raw h
      in if q = Null then Some (Null, h1) else do { h2 \<leftarrow> cfree p h1; Some (q, h2) })"

text \<open>The loop of \<open>messageBuilder_ap\<close>; \<open>n + 1\<close> is an addition of \<open>int\<close>s.\<close>

partial_function (option) print_loop ::
  "string option \<Rightarrow> nat \<Rightarrow> ptr \<Rightarrow> 'o heap \<Rightarrow> (str_ref \<times> 'o heap) option" where
  "print_loop r sz p h =
     (let (n, s) = vsnprintf r sz in
      if n < 0 then do { h1 \<leftarrow> cfree p h; Some (messageBuilder_internalErrors, h1) }
      else if nat n < sz then Some (Buffer p s, h)
      else do {
        _ \<leftarrow> require (n < int INT_LIMIT);
        (np, h1) \<leftarrow> raw_realloc p h;
        if np = Null then do { h2 \<leftarrow> cfree p h1; Some (messageBuilder_internalErrors, h2) }
        else print_loop r (nat n + 1) np h1
      })"

declare print_loop.simps [code]

definition messageBuilder_ap :: "string option \<Rightarrow> 'o heap \<Rightarrow> (str_ref \<times> 'o heap) option" where
  "messageBuilder_ap r h =
     (let (p, h1) = malloc Raw h
      in if p = Null then Some (messageBuilder_internalErrors, h1) else print_loop r 4096 p h1)"

definition messageBuilder :: "string option \<Rightarrow> 'o heap \<Rightarrow> (str_ref \<times> 'o heap) option" where
  "messageBuilder r h = messageBuilder_ap r h"

section \<open>dateBuilder\<close>

definition DATEBUILDER_MAX_SIZE :: nat where
  "DATEBUILDER_MAX_SIZE = 1024 + 1"

text \<open>\<open>strftime\<close> returns 0 where the text with its terminator does not fit, or is empty.\<close>

definition strftime :: "nat \<Rightarrow> string \<Rightarrow> nat" where
  "strftime n s = (if length s < n then length s else 0)"

text \<open>The argument is the local time rendered by the format, \<open>None\<close> where \<open>localtime\<close> fails.\<close>

definition dateBuilder :: "string option \<Rightarrow> 'o heap \<Rightarrow> str_ref \<times> 'o heap" where
  "dateBuilder t h =
     (let (p, h1) = malloc Raw h in
      if p = Null then (dateBuilder_internalErrors, h1)
      else
        (case t of
           None \<Rightarrow> (dateBuilder_internalErrors, h1)
         | Some s \<Rightarrow>
             if strftime DATEBUILDER_MAX_SIZE s = 0 then (dateBuilder_internalErrors, h1)
             else (Buffer p s, h1)))"

section \<open>The interface\<close>

text \<open>
  What the headers promise of both builders: the result is the builder's static string, or a buffer
  the caller has to free, the only block that was added.
\<close>

definition hands_over :: "str_ref \<Rightarrow> 'o heap \<Rightarrow> str_ref \<Rightarrow> 'o heap \<Rightarrow> bool" where
  "hands_over internal h m h' \<longleftrightarrow>
     heap_ok h' \<and> avail h' = avail h
   \<and> ((m = internal \<and> store h' = store h)
      \<or> (\<exists>a s. m = Buffer (Ref a) s \<and> store h a = None \<and> store h' = (store h)(a \<mapsto> Raw)))"

lemma hands_over_static:
  "heap_ok h \<Longrightarrow> heap_ok h' \<Longrightarrow> avail h' = avail h \<Longrightarrow> store h' = store h \<Longrightarrow> hands_over internal h internal h'"
  by (simp add: hands_over_def)

locale message_source =
  fixes build :: "'o heap \<Rightarrow> (str_ref \<times> 'o heap) option" and internal :: str_ref
  assumes internal_static: "\<exists>k. internal = Static k"
    and build_law: "heap_ok h \<Longrightarrow> build h = Some (m, h') \<Longrightarrow> hands_over internal h m h'"
begin

text \<open>The caller's protocol: free the result unless it is the static string.\<close>

lemma build_then_free:
  assumes "heap_ok h" "build h = Some (m, h')"
  shows "\<exists>h''. (if m \<noteq> internal then free_str m h' else Some h') = Some h'' \<and> store h'' = store h"
  using build_law [OF assms] internal_static
  by (auto simp: hands_over_def fun_upd_idem split: option.splits)

text \<open>Freeing the static string is an error, and so is freeing a buffer twice.\<close>

lemma internal_not_freed: "free_str internal h = None"
  using internal_static by auto

lemma freed_once:
  assumes "heap_ok h" "build h = Some (m, h')" "free_str m h' = Some h''"
  shows "free_str m h'' = None"
  using build_law [OF assms(1,2)] assms(3) internal_static
  by (cases m) (auto simp: hands_over_def cfree_Some)

end

lemma print_loop_error:
  assumes "store h a = Some Raw" "r = None \<or> (\<exists>s. r = Some s \<and> INT_LIMIT < length s)"
  shows "print_loop r sz (Ref a) h = Some (messageBuilder_internalErrors, drop_block a h)"
  using assms by (subst print_loop.simps) (auto simp: vsnprintf_def)

lemma print_loop_fits:
  "length s < sz \<Longrightarrow> length s \<le> INT_LIMIT \<Longrightarrow> print_loop (Some s) sz p h = Some (Buffer p s, h)"
  by (subst print_loop.simps) (simp add: vsnprintf_def)

lemma print_loop_enlarges:
  assumes "store h a = Some Raw" "sz \<le> length s" "length s < INT_LIMIT" "fresh h \<noteq> a"
  shows "print_loop (Some s) sz (Ref a) h =
    (if avail h (asked h)
     then Some (Buffer (Ref (fresh h)) s, drop_block a (granted Raw h))
     else Some (messageBuilder_internalErrors, drop_block a (refused h)))"
proof -
  have "print_loop (Some s) (length s + 1) (Ref (fresh h)) (drop_block a (granted Raw h))
      = Some (Buffer (Ref (fresh h)) s, drop_block a (granted Raw h))"
    using assms(3) by (intro print_loop_fits) auto
  with assms show ?thesis
    by (subst print_loop.simps) (simp add: vsnprintf_def raw_realloc_def malloc_eq)
qed

text \<open>
  The two outcomes of a build. A text of exactly \<open>INT_MAX\<close> characters is excluded: there \<open>n + 1\<close>
  overflows.
\<close>

definition built :: "string option \<Rightarrow> str_ref \<Rightarrow> bool" where
  "built r m \<longleftrightarrow> m = messageBuilder_internalErrors \<or> (\<exists>p s. r = Some s \<and> m = Buffer p s)"

definition printable :: "string option \<Rightarrow> bool" where
  "printable r \<longleftrightarrow> (\<exists>s. r = Some s \<and> length s \<le> INT_LIMIT)"

lemma messageBuilder_run:
  assumes ok: "heap_ok h" and lim: "\<forall>s. r = Some s \<longrightarrow> length s \<noteq> INT_LIMIT"
  obtains m h' where "messageBuilder_ap r h = Some (m, h')" "built r m"
    "hands_over messageBuilder_internalErrors h m h'"
    "(\<forall>k. avail h k) \<and> printable r \<longrightarrow> m \<noteq> messageBuilder_internalErrors"
proof (cases "avail h (asked h)")
  case False
  then have "messageBuilder_ap r h = Some (messageBuilder_internalErrors, refused h)"
    by (simp add: messageBuilder_ap_def malloc_eq)
  then show thesis
    using ok False by (intro that) (auto simp: built_def hands_over_def)
next
  case True
  let ?a = "fresh h" and ?h = "granted Raw h"
  have ap: "messageBuilder_ap r h = print_loop r 4096 (Ref ?a) ?h"
    using True by (simp add: messageBuilder_ap_def malloc_eq)
  have raw: "store ?h ?a = Some Raw" "heap_ok ?h" using ok by simp_all
  have fresh: "store h ?a = None" "store h (Suc ?a) = None" using ok by (simp_all add: heap_ok_def)
  show thesis
  proof (cases "printable r")
    case False
    have bad: "r = None \<or> (\<exists>s. r = Some s \<and> INT_LIMIT < length s)"
      using False by (cases r) (auto simp: printable_def)
    have "messageBuilder_ap r h = Some (messageBuilder_internalErrors, drop_block ?a ?h)"
      unfolding ap using raw(1) bad by (rule print_loop_error)
    then show thesis using ok fresh False
      by (intro that) (auto simp: built_def hands_over_def fun_upd_idem heap_ok_drop_block)
  next
    case True
    then obtain s where s: "r = Some s" "length s \<le> INT_LIMIT" by (auto simp: printable_def)
    then have lt: "length s < INT_LIMIT" using lim by force
    show thesis
    proof (cases "length s < 4096")
      case True
      then have "messageBuilder_ap r h = Some (Buffer (Ref ?a) s, ?h)"
        using s print_loop_fits [of s 4096] ap by simp
      then show thesis using ok fresh s
        by (intro that) (auto simp: built_def hands_over_def messageBuilder_internalErrors_def)
    next
      case False
      then have run: "messageBuilder_ap r h =
          (if avail ?h (asked ?h)
           then Some (Buffer (Ref (fresh ?h)) s, drop_block ?a (granted Raw ?h))
           else Some (messageBuilder_internalErrors, drop_block ?a (refused ?h)))"
        using print_loop_enlarges [OF raw(1) _ lt, of 4096] ap s(1) by simp
      show thesis
      proof (cases "avail ?h (asked ?h)")
        case True
        have "(store h)(?a := None) = store h" using fresh(1) by (rule fun_upd_idem)
        then have "hands_over messageBuilder_internalErrors h (Buffer (Ref (fresh ?h)) s)
            (drop_block ?a (granted Raw ?h))"
          using ok fresh by (auto simp: hands_over_def heap_ok_drop_block fun_upd_twist)
        with run True s show thesis
          by (intro that) (auto simp: built_def messageBuilder_internalErrors_def)
      next
        case False
        with run ok fresh show thesis
          by (intro that) (auto simp: built_def hands_over_def fun_upd_idem heap_ok_drop_block)
      qed
    qed
  qed
qed

text \<open>A text of \<open>INT_MAX\<close> characters has no defined result unless the first buffer is refused.\<close>

lemma messageBuilder_overflow:
  assumes "heap_ok h" "avail h (asked h)" "length s = INT_LIMIT"
  shows "messageBuilder_ap (Some s) h = None"
proof -
  have "(4096 :: nat) \<le> INT_LIMIT" by (simp add: INT_LIMIT_def)
  with assms show ?thesis
    by (simp add: messageBuilder_ap_def malloc_eq)
      (subst print_loop.simps, simp add: vsnprintf_def)
qed

interpretation msg: message_source "messageBuilder_ap r" messageBuilder_internalErrors
proof
  show "\<exists>k. messageBuilder_internalErrors = Static k"
    by (simp add: messageBuilder_internalErrors_def)
  fix h :: "'a heap" and m h'
  assume ok: "heap_ok h" and run: "messageBuilder_ap r h = Some (m, h')"
  show "hands_over messageBuilder_internalErrors h m h'"
  proof (cases "\<exists>s. r = Some s \<and> length s = INT_LIMIT")
    case True
    with run messageBuilder_overflow [OF ok] have "\<not> avail h (asked h)" by auto
    with run ok show ?thesis by (auto simp: messageBuilder_ap_def malloc_eq hands_over_def)
  next
    case False
    from messageBuilder_run [OF ok, of r] False run show ?thesis by auto
  qed
qed

section \<open>Properties\<close>

text \<open>C31: \<open>messageBuilder\<close> returns after at most one enlargement, with the whole text in a buffer of
  its own when memory is granted and the text is printable, and never with \<open>NULL\<close>.\<close>

theorem messageBuilder_total:
  assumes "heap_ok h" "\<forall>s. r = Some s \<longrightarrow> length s \<noteq> INT_LIMIT"
  shows "\<exists>m h'. messageBuilder r h = Some (m, h')
    \<and> (m = messageBuilder_internalErrors \<or> (\<exists>a s. m = Buffer (Ref a) s \<and> r = Some s \<and> store h' a = Some Raw))
    \<and> ((\<forall>k. avail h k) \<and> printable r \<longrightarrow> m \<noteq> messageBuilder_internalErrors)"
  using assms by (rule messageBuilder_run)
    (auto simp: messageBuilder_def built_def hands_over_def)

theorem messageBuilder_total_witness:
  "\<exists>m h'. messageBuilder (Some ''hello'') (empty_heap (\<lambda>_. True) :: nat heap) = Some (m, h')
    \<and> str_chars m = ''hello''"
proof -
  obtain m h' where "messageBuilder (Some ''hello'') (empty_heap (\<lambda>_. True) :: nat heap) = Some (m, h')"
    "m = messageBuilder_internalErrors \<or> (\<exists>a s. m = Buffer (Ref a) s \<and> Some ''hello'' = Some s)"
    "m \<noteq> messageBuilder_internalErrors"
    using messageBuilder_total [of "empty_heap (\<lambda>_. True) :: nat heap" "Some ''hello''"]
    by (auto simp: INT_LIMIT_def printable_def empty_heap_def heap_ok_def)
  then show ?thesis by auto
qed

text \<open>The caller that frees the result of \<open>messageBuilder\<close> exactly when it is not
  \<open>messageBuilder_internalErrors\<close> leaves the heap as it was, whatever was refused.\<close>

theorem messageBuilder_ownership:
  assumes "heap_ok h" "messageBuilder_ap r h = Some (m, h')"
  shows "\<exists>h''. (if m \<noteq> messageBuilder_internalErrors then free_str m h' else Some h') = Some h''
    \<and> store h'' = store h"
  using assms by (rule msg.build_then_free)

theorem messageBuilder_ownership_witness:
  "\<exists>m h' h''. messageBuilder_ap None (empty_heap (\<lambda>_. True) :: nat heap) = Some (m, h')
    \<and> (if m \<noteq> messageBuilder_internalErrors then free_str m h' else Some h') = Some h''
    \<and> store h'' = Map.empty"
proof -
  obtain m h' where run: "messageBuilder_ap None (empty_heap (\<lambda>_. True) :: nat heap) = Some (m, h')"
    by (rule messageBuilder_run [of "empty_heap (\<lambda>_. True) :: nat heap" None]) auto
  have "store (empty_heap (\<lambda>_. True) :: nat heap) = Map.empty" by (simp add: empty_heap_def)
  with messageBuilder_ownership [OF heap_ok_empty run] run show ?thesis by metis
qed

text \<open>\<open>dateBuilder\<close> keeps the contract only where the date is rendered: when \<open>localtime\<close> or
  \<open>strftime\<close> fails it returns the static string and leaves its buffer allocated for good.\<close>

theorem dateBuilder_leaks:
  assumes "avail h (asked h)" "heap_ok h"
  shows "case dateBuilder t h of (m, h') \<Rightarrow>
    if \<exists>s. t = Some s \<and> 0 < length s \<and> length s < DATEBUILDER_MAX_SIZE
    then hands_over dateBuilder_internalErrors h m h'
    else m = dateBuilder_internalErrors \<and> store h' = (store h)(fresh h \<mapsto> Raw) \<and> store h' \<noteq> store h"
proof -
  have "store h (fresh h) = None" using assms(2) by simp
  then have "(store h)(fresh h \<mapsto> Raw) \<noteq> store h" by (metis fun_upd_same option.distinct(1))
  with assms show ?thesis
    by (auto simp: dateBuilder_def malloc_eq hands_over_def strftime_def dateBuilder_internalErrors_def
        split: option.splits prod.splits if_splits)
qed

theorem dateBuilder_leaks_witness:
  "store (snd (dateBuilder None (empty_heap (\<lambda>_. True) :: nat heap))) = [0 \<mapsto> Raw]"
  using dateBuilder_leaks [of "empty_heap (\<lambda>_. True) :: nat heap" None]
  by (auto simp: empty_heap_def heap_ok_def split: prod.splits)

end
