(* ===== verification/Logger.thy ===== *)
theory Logger
  imports Messages
begin

text \<open>
  \<open>src/src/genericLogger.c\<close>: leveled logging through a user callback or the default one, which writes
  a line to \<open>stderr\<close>. The clock and the \<open>write\<close> system call are parameters: \<open>clock\<close> gives the
  local time rendered by the default format, \<open>write_fd\<close> gets the bytes still to be written.
\<close>

section \<open>Levels\<close>

datatype genericLoggerLevel =
    GENERICLOGGER_LOGLEVEL_TRACE
  | GENERICLOGGER_LOGLEVEL_DEBUG
  | GENERICLOGGER_LOGLEVEL_INFO
  | GENERICLOGGER_LOGLEVEL_NOTICE
  | GENERICLOGGER_LOGLEVEL_WARNING
  | GENERICLOGGER_LOGLEVEL_ERROR
  | GENERICLOGGER_LOGLEVEL_CRITICAL
  | GENERICLOGGER_LOGLEVEL_ALERT
  | GENERICLOGGER_LOGLEVEL_EMERGENCY

text \<open>The value of the enumeration constant, by which levels are compared.\<close>

primrec level_value :: "genericLoggerLevel \<Rightarrow> nat" where
  "level_value GENERICLOGGER_LOGLEVEL_TRACE = 0"
| "level_value GENERICLOGGER_LOGLEVEL_DEBUG = 1"
| "level_value GENERICLOGGER_LOGLEVEL_INFO = 2"
| "level_value GENERICLOGGER_LOGLEVEL_NOTICE = 3"
| "level_value GENERICLOGGER_LOGLEVEL_WARNING = 4"
| "level_value GENERICLOGGER_LOGLEVEL_ERROR = 5"
| "level_value GENERICLOGGER_LOGLEVEL_CRITICAL = 6"
| "level_value GENERICLOGGER_LOGLEVEL_ALERT = 7"
| "level_value GENERICLOGGER_LOGLEVEL_EMERGENCY = 8"

lemma level_value_inject: "level_value a = level_value b \<Longrightarrow> a = b"
  by (cases a; cases b) simp_all

instantiation genericLoggerLevel :: linorder
begin

definition less_eq_genericLoggerLevel :: "genericLoggerLevel \<Rightarrow> genericLoggerLevel \<Rightarrow> bool" where
  "less_eq_genericLoggerLevel a b \<longleftrightarrow> level_value a \<le> level_value b"

definition less_genericLoggerLevel :: "genericLoggerLevel \<Rightarrow> genericLoggerLevel \<Rightarrow> bool" where
  "less_genericLoggerLevel a b \<longleftrightarrow> level_value a < level_value b"

instance
  by standard (auto simp: less_eq_genericLoggerLevel_def less_genericLoggerLevel_def level_value_inject)

end

primrec level_prefix :: "genericLoggerLevel \<Rightarrow> string" where
  "level_prefix GENERICLOGGER_LOGLEVEL_TRACE = ''TRACE''"
| "level_prefix GENERICLOGGER_LOGLEVEL_DEBUG = ''DEBUG''"
| "level_prefix GENERICLOGGER_LOGLEVEL_INFO = ''INFO''"
| "level_prefix GENERICLOGGER_LOGLEVEL_NOTICE = ''NOTICE''"
| "level_prefix GENERICLOGGER_LOGLEVEL_WARNING = ''WARNING''"
| "level_prefix GENERICLOGGER_LOGLEVEL_ERROR = ''ERROR''"
| "level_prefix GENERICLOGGER_LOGLEVEL_CRITICAL = ''CRITICAL''"
| "level_prefix GENERICLOGGER_LOGLEVEL_ALERT = ''ALERT''"
| "level_prefix GENERICLOGGER_LOGLEVEL_EMERGENCY = ''EMERGENCY''"

section \<open>The logger object\<close>

type_synonym 's log_callback = "genericLoggerLevel \<Rightarrow> string \<Rightarrow> 's \<Rightarrow> 's"

record 's genericLogger =
  logger_selfp :: ptr
  logCallbackp :: "'s log_callback option"
  genericLoggerLeveli :: genericLoggerLevel

record 's system =
  clock :: "'s \<Rightarrow> string option"
  write_fd :: "string \<Rightarrow> 's \<Rightarrow> int \<times> 's"

definition genericLogger_logLevel_seti ::
  "'s genericLogger \<Rightarrow> genericLoggerLevel \<Rightarrow> genericLoggerLevel \<times> 's genericLogger" where
  "genericLogger_logLevel_seti l v = (v, l\<lparr>genericLoggerLeveli := v\<rparr>)"

definition genericLogger_logLevel_geti :: "'s genericLogger \<Rightarrow> genericLoggerLevel" where
  "genericLogger_logLevel_geti l = genericLoggerLeveli l"

definition genericLogger_newp ::
  "'s log_callback option \<Rightarrow> genericLoggerLevel \<Rightarrow> 'o heap \<Rightarrow> 's genericLogger option \<times> 'o heap" where
  "genericLogger_newp cb level h =
     (let (p, h1) = malloc Raw h in
      if p = Null then (None, h1)
      else (Some \<lparr>logger_selfp = p, logCallbackp = cb, genericLoggerLeveli = level\<rparr>, h1))"

definition genericLogger_freev ::
  "'s genericLogger option option \<Rightarrow> 'o heap \<Rightarrow> ('s genericLogger option option \<times> 'o heap) option" where
  "genericLogger_freev lpp h =
     (case lpp of
        None \<Rightarrow> Some (None, h)
      | Some None \<Rightarrow> Some (Some None, h)
      | Some (Some l) \<Rightarrow> do { h1 \<leftarrow> cfree (logger_selfp l) h; Some (Some None, h1) })"

section \<open>The default callback\<close>

text \<open>The format \<open>%s %9s %s\<close> and a newline.\<close>

definition default_line :: "string \<Rightarrow> genericLoggerLevel \<Rightarrow> string \<Rightarrow> string" where
  "default_line d level m =
     d @ '' '' @ replicate (9 - length (level_prefix level)) CHR '' '' @ level_prefix level @ '' '' @ m
       @ [CHR 0x0A]"

text \<open>
  The loop around \<open>write\<close>. The number of bytes written is signed, the length is not: the
  comparison converts the former.
\<close>

partial_function (option) write_all ::
  "(string \<Rightarrow> 's \<Rightarrow> int \<times> 's) \<Rightarrow> string \<Rightarrow> int \<Rightarrow> 's \<Rightarrow> 's option" where
  "write_all wr s b x =
     (if int_to_size b < length s
      then (let (n, x1) = wr (drop (nat b) s) x in write_all wr s (b + n) x1)
      else Some x)"

declare write_all.simps [code]

definition genericLogger_defaultCallback ::
  "'s system \<Rightarrow> genericLoggerLevel \<Rightarrow> string \<Rightarrow> ('o, 's) cstate \<Rightarrow> ('o, 's) cstate option" where
  "genericLogger_defaultCallback sys level msgs c =
     (let (dates, h1) = dateBuilder (clock sys (ext c)) (hp c) in
      do {
        (localMsgs, h2) \<leftarrow> messageBuilder (Some (default_line (str_chars dates) level msgs)) h1;
        x \<leftarrow> write_all (write_fd sys) (str_chars localMsgs) 0 (ext c);
        h3 \<leftarrow> (if dates \<noteq> dateBuilder_internalErrors then free_str dates h2 else Some h2);
        h4 \<leftarrow> (if localMsgs \<noteq> messageBuilder_internalErrors then free_str localMsgs h3 else Some h3);
        Some \<lparr>hp = h4, ext = x\<rparr>
      })"

section \<open>Logging\<close>

text \<open>
  \<open>fmt\<close> is \<open>None\<close> for a \<open>NULL\<close> format, otherwise the rendering of the format and its arguments.
\<close>

definition call_logger ::
  "'s system \<Rightarrow> 's log_callback option \<Rightarrow> genericLoggerLevel \<Rightarrow> string \<Rightarrow> ('o, 's) cstate
     \<Rightarrow> ('o, 's) cstate option" where
  "call_logger sys cb level msgs c =
     (case cb of
        None \<Rightarrow> genericLogger_defaultCallback sys level msgs c
      | Some f \<Rightarrow> Some (c\<lparr>ext := f level msgs (ext c)\<rparr>))"

definition genericLogger_log ::
  "'s system \<Rightarrow> 's genericLogger option \<Rightarrow> genericLoggerLevel \<Rightarrow> string option option
     \<Rightarrow> ('o, 's) cstate \<Rightarrow> ('o, 's) cstate option" where
  "genericLogger_log sys lp level fmt c =
     (let cb = (case lp of None \<Rightarrow> None | Some l \<Rightarrow> logCallbackp l);
          threshold = (case lp of None \<Rightarrow> GENERICLOGGER_LOGLEVEL_WARNING
                                | Some l \<Rightarrow> genericLoggerLeveli l)
      in if threshold \<le> level
         then do {
           (msgs, h1) \<leftarrow> (case fmt of None \<Rightarrow> Some (Static Empty_message, hp c)
                                    | Some r \<Rightarrow> messageBuilder_ap r (hp c));
           c2 \<leftarrow> call_logger sys cb
                  (if msgs \<noteq> messageBuilder_internalErrors then level else GENERICLOGGER_LOGLEVEL_ERROR)
                  (str_chars msgs) (c\<lparr>hp := h1\<rparr>);
           h3 \<leftarrow> (if msgs \<noteq> Static Empty_message \<and> msgs \<noteq> messageBuilder_internalErrors
                  then free_str msgs (hp c2) else Some (hp c2));
           Some (c2\<lparr>hp := h3\<rparr>)
         }
         else Some c)"

section \<open>Lemmas\<close>

text \<open>A system call that accepts between one byte and all of them.\<close>

definition writes_some :: "(string \<Rightarrow> 's \<Rightarrow> int \<times> 's) \<Rightarrow> bool" where
  "writes_some wr \<longleftrightarrow>
     (\<forall>s x. s \<noteq> '''' \<longrightarrow> 0 < fst (wr s x) \<and> fst (wr s x) \<le> int (length s))"

text \<open>The chunks a run of the loop hands to the system call, as accepted.\<close>

lemma write_all_done: "length s \<le> int_to_size b \<Longrightarrow> write_all wr s b x = Some x"
  by (subst write_all.simps) simp

lemma write_all_step:
  "0 \<le> b \<Longrightarrow> b < int (length s) \<Longrightarrow> length s < SIZE_MOD \<Longrightarrow> wr (drop (nat b) s) x = (n, x1) \<Longrightarrow>
     write_all wr s b x = write_all wr s (b + n) x1"
  by (subst write_all.simps) (simp add: int_to_size_small nat_less_iff)

text \<open>
  An output device: what it accepted so far is part of the state. Under \<open>writes_some\<close> the loop
  writes the text once, from front to back.
\<close>

definition appends :: "('s \<Rightarrow> string) \<Rightarrow> (string \<Rightarrow> 's \<Rightarrow> int \<times> 's) \<Rightarrow> bool" where
  "appends out wr \<longleftrightarrow> (\<forall>s x. out (snd (wr s x)) = out x @ take (nat (fst (wr s x))) s)"

lemma write_all_once:
  assumes "writes_some wr" "appends out wr" "length s < SIZE_MOD" "b \<le> length s"
  shows "\<exists>x'. write_all wr s (int b) x = Some x' \<and> out x' = out x @ drop b s"
  using assms(4)
proof (induction "length s - b" arbitrary: b x rule: less_induct)
  case less
  show ?case
  proof (cases "b = length s")
    case True
    then have "int_to_size (int b) = length s" using assms(3) by (simp add: int_to_size_small)
    with True show ?thesis by (simp add: write_all_done)
  next
    case False
    then have b: "b < length s" using less.prems by simp
    obtain n x1 where w: "wr (drop b s) x = (n, x1)" by (cases "wr (drop b s) x")
    have ne: "drop b s \<noteq> ''''" using b by simp
    have n: "0 < n" "n \<le> int (length s) - int b"
      using assms(1) ne b unfolding writes_some_def by (metis w fst_conv, metis w fst_conv length_drop of_nat_diff less_imp_le)
    have out: "out x1 = out x @ take (nat n) (drop b s)"
      using assms(2) unfolding appends_def by (metis w fst_conv snd_conv)
    have step: "write_all wr s (int b) x = write_all wr s (int (b + nat n)) x1"
      using write_all_step [of "int b" s wr x n x1] b assms(3) w n(1) by simp
    have le: "b + nat n \<le> length s" "length s - (b + nat n) < length s - b" using n b by linarith+
    from less.hyps [OF le(2,1), of x1] obtain x' where
      "write_all wr s (int (b + nat n)) x1 = Some x'" "out x' = out x1 @ drop (b + nat n) s" by blast
    moreover have "take (nat n) (drop b s) @ drop (b + nat n) s = drop b s"
      by (metis append_take_drop_id drop_drop add.commute)
    ultimately show ?thesis using step out by auto
  qed
qed

lemma hands_over_ok: "hands_over i h m h' \<Longrightarrow> heap_ok h'"
  by (simp add: hands_over_def)

lemma call_logger_user [simp]: "call_logger sys (Some f) level m c = Some (c\<lparr>ext := f level m (ext c)\<rparr>)"
  by (simp add: call_logger_def)

text \<open>The message a run of \<open>genericLogger_log\<close> delivers.\<close>

definition delivered :: "genericLoggerLevel \<Rightarrow> str_ref \<Rightarrow> genericLoggerLevel \<times> string" where
  "delivered level m =
     (if m \<noteq> messageBuilder_internalErrors then level else GENERICLOGGER_LOGLEVEL_ERROR, str_chars m)"

lemma log_user_run:
  assumes ok: "heap_ok (hp c)" and l: "logCallbackp l = Some f" and lv: "genericLoggerLeveli l \<le> level"
    and r: "\<forall>s. r = Some s \<longrightarrow> length s \<noteq> INT_LIMIT"
  obtains m c' where "genericLogger_log sys (Some l) level (Some r) c = Some c'"
    "store (hp c') = store (hp c)" "built r m"
    "(\<forall>k. avail (hp c) k) \<and> printable r \<longrightarrow> m \<noteq> messageBuilder_internalErrors"
    "ext c' = (case delivered level m of (v, t) \<Rightarrow> f v t (ext c))"
proof -
  from ok r obtain m h1 where b: "messageBuilder_ap r (hp c) = Some (m, h1)" "built r m"
    "hands_over messageBuilder_internalErrors (hp c) m h1"
    "(\<forall>k. avail (hp c) k) \<and> printable r \<longrightarrow> m \<noteq> messageBuilder_internalErrors"
    by (rule messageBuilder_run)
  have ne: "m \<noteq> Static Empty_message"
    using b(2) by (auto simp: built_def messageBuilder_internalErrors_def)
  let ?c2 = "c\<lparr>hp := h1, ext := f (fst (delivered level m)) (str_chars m) (ext c)\<rparr>"
  obtain h3 where h3: "(if m \<noteq> messageBuilder_internalErrors then free_str m h1 else Some h1) = Some h3"
    "store h3 = store (hp c)"
    using msg.build_then_free [OF ok b(1)] by blast
  have run: "genericLogger_log sys (Some l) level (Some r) c = Some (?c2\<lparr>hp := h3\<rparr>)"
    using l lv b(1) h3 ne by (simp add: genericLogger_log_def delivered_def split: if_splits)
  show thesis by (rule that [OF run]) (use b h3 in \<open>simp_all add: delivered_def\<close>)
qed

text \<open>The default callback with memory and a date: the line reaches the device, the heap is restored.\<close>

lemma default_callback_run:
  assumes ok: "heap_ok (hp c)" and av: "\<forall>k. avail (hp c) k"
    and date: "clock sys (ext c) = Some d" "0 < length d" "length d < DATEBUILDER_MAX_SIZE"
    and len: "length (default_line d level msgs) < INT_LIMIT"
    and dev: "writes_some (write_fd sys)" "appends out (write_fd sys)"
  shows "\<exists>c'. genericLogger_defaultCallback sys level msgs c = Some c'
    \<and> store (hp c') = store (hp c) \<and> out (ext c') = out (ext c) @ default_line d level msgs"
proof -
  let ?line = "default_line d level msgs" and ?p = "Ref (fresh (hp c))"
  have db: "dateBuilder (clock sys (ext c)) (hp c) = (Buffer ?p d, granted Raw (hp c))"
    using date av by (simp add: dateBuilder_def malloc_eq strftime_def)
  have ok1: "heap_ok (granted Raw (hp c))" using ok by simp
  have r: "\<forall>s. Some ?line = Some s \<longrightarrow> length s \<noteq> INT_LIMIT" and pr: "printable (Some ?line)"
    using len by (auto simp: printable_def)
  from ok1 r have "\<exists>m h2. messageBuilder_ap (Some ?line) (granted Raw (hp c)) = Some (m, h2)
      \<and> built (Some ?line) m \<and> hands_over messageBuilder_internalErrors (granted Raw (hp c)) m h2
      \<and> m \<noteq> messageBuilder_internalErrors"
    by (rule messageBuilder_run) (use av pr in auto)
  then obtain m h2 where b: "messageBuilder_ap (Some ?line) (granted Raw (hp c)) = Some (m, h2)"
    "built (Some ?line) m" "hands_over messageBuilder_internalErrors (granted Raw (hp c)) m h2"
    "m \<noteq> messageBuilder_internalErrors"
    by blast
  from b(2,4) obtain q where m: "m = Buffer q ?line" by (auto simp: built_def)
  from b(3) m obtain a where a: "q = Ref a" "store (granted Raw (hp c)) a = None"
    "store h2 = (store (granted Raw (hp c)))(a \<mapsto> Raw)"
    by (auto simp: hands_over_def messageBuilder_internalErrors_def)
  have "length ?line < SIZE_MOD" using len by (simp add: INT_LIMIT_def SIZE_MOD_def)
  from write_all_once [OF dev this, of 0 "ext c"] obtain x where
    x: "write_all (write_fd sys) ?line 0 (ext c) = Some x" "out x = out (ext c) @ ?line"
    by auto
  have af: "a \<noteq> fresh (hp c)" "store (hp c) a = None" "store (hp c) (fresh (hp c)) = None"
    using a(2) ok by (auto split: if_splits)
  have "genericLogger_defaultCallback sys level msgs c
      = Some \<lparr>hp = drop_block a (drop_block (fresh (hp c)) h2), ext = x\<rparr>"
    using db b(1) m x(1) a af
    by (simp add: genericLogger_defaultCallback_def messageBuilder_def dateBuilder_internalErrors_def
        messageBuilder_internalErrors_def)
  moreover have "store (drop_block a (drop_block (fresh (hp c)) h2)) = store (hp c)"
    using a(3) af by (auto simp: fun_eq_iff)
  ultimately show ?thesis using x(2) by auto
qed

section \<open>Properties\<close>

text \<open>C27: a logger with a callback of its own passes a message on exactly when its level reaches the
  threshold; the callback gets the whole text at the level of the call (an internal error is
  reported by its own text at level ERROR), and the heap is left as it was.\<close>

theorem log_to_callback:
  assumes "heap_ok (hp c)" "logCallbackp l = Some f" "\<forall>s. r = Some s \<longrightarrow> length s \<noteq> INT_LIMIT"
  shows "\<exists>c'. genericLogger_log sys (Some l) level (Some r) c = Some c' \<and> store (hp c') = store (hp c)
    \<and> (if genericLoggerLeveli l \<le> level
       then (\<exists>s. r = Some s \<and> ext c' = f level s (ext c))
         \<or> (\<not> ((\<forall>k. avail (hp c) k) \<and> printable r)
             \<and> ext c' = f GENERICLOGGER_LOGLEVEL_ERROR ''Internal error'' (ext c))
       else c' = c)"
proof (cases "genericLoggerLeveli l \<le> level")
  case False
  then show ?thesis by (simp add: genericLogger_log_def)
next
  case True
  from assms(1,2) True assms(3) obtain m c' where
    run: "genericLogger_log sys (Some l) level (Some r) c = Some c'" "store (hp c') = store (hp c)"
    and m: "built r m" "(\<forall>k. avail (hp c) k) \<and> printable r \<longrightarrow> m \<noteq> messageBuilder_internalErrors"
      "ext c' = (case delivered level m of (v, t) \<Rightarrow> f v t (ext c))"
    by (rule log_user_run [where sys = sys])
  show ?thesis
  proof (cases "m = messageBuilder_internalErrors")
    case True
    then have "ext c' = f GENERICLOGGER_LOGLEVEL_ERROR ''Internal error'' (ext c)"
      using m(3) by (simp add: delivered_def messageBuilder_internalErrors_def)
    moreover have "\<not> ((\<forall>k. avail (hp c) k) \<and> printable r)" using m(2) True by blast
    ultimately show ?thesis using run \<open>genericLoggerLeveli l \<le> level\<close> by auto
  next
    case False
    with m(1) obtain p s where "r = Some s" "m = Buffer p s" by (auto simp: built_def)
    with m(3) False have "\<exists>s. r = Some s \<and> ext c' = f level s (ext c)" by (simp add: delivered_def)
    with run \<open>genericLoggerLeveli l \<le> level\<close> show ?thesis by auto
  qed
qed

definition demo_logger :: "(genericLoggerLevel \<times> string) list genericLogger" where
  "demo_logger = \<lparr>logger_selfp = Ref 0, logCallbackp = Some (\<lambda>v s x. x @ [(v, s)]),
     genericLoggerLeveli = GENERICLOGGER_LOGLEVEL_NOTICE\<rparr>"

theorem log_to_callback_witness:
  "\<exists>c'. genericLogger_log \<lparr>clock = (\<lambda>_. None), write_fd = (\<lambda>s x. (1, x))\<rparr> (Some demo_logger)
      GENERICLOGGER_LOGLEVEL_ERROR (Some (Some ''boom'')) \<lparr>hp = empty_heap (\<lambda>_. True) :: nat heap, ext = []\<rparr>
    = Some c' \<and> ext c' = [(GENERICLOGGER_LOGLEVEL_ERROR, ''boom'')]"
proof -
  let ?c = "\<lparr>hp = empty_heap (\<lambda>_. True) :: nat heap, ext = [] :: (genericLoggerLevel \<times> string) list\<rparr>"
  have "avail (hp ?c) k" for k by (simp add: empty_heap_def)
  moreover have "printable (Some ''boom'')" by (simp add: printable_def INT_LIMIT_def)
  moreover have "heap_ok (hp ?c)" "\<forall>s. Some ''boom'' = Some s \<longrightarrow> length s \<noteq> INT_LIMIT"
    "logCallbackp demo_logger = Some (\<lambda>v s x. x @ [(v, s)])"
    by (simp_all add: INT_LIMIT_def demo_logger_def)
  ultimately show ?thesis
    using log_to_callback [of ?c demo_logger "\<lambda>v s x. x @ [(v, s)]" "Some ''boom''"
        "\<lparr>clock = (\<lambda>_. None), write_fd = (\<lambda>s x. (1, x))\<rparr>" GENERICLOGGER_LOGLEVEL_ERROR]
    by (auto simp: demo_logger_def less_eq_genericLoggerLevel_def)
qed


definition byte_device :: "string system" where
  "byte_device = \<lparr>clock = (\<lambda>_. Some ''01/02/2015 10:11:12''), write_fd = (\<lambda>s x. (1, x @ take 1 s))\<rparr>"


text \<open>An error of \<open>write\<close> is taken as a count: at the start it silently drops the message, and
  after \<open>b\<close> bytes it moves the loop back by one, so that byte \<open>b - 1\<close> is written again.\<close>

theorem write_error_counts:
  assumes "b < length s" "length s < SIZE_MOD" "wr (drop b s) x = (- 1, x1)"
  shows "write_all wr s (int b) x = (if b = 0 then Some x1 else write_all wr s (int (b - 1)) x1)"
proof -
  have step: "write_all wr s (int b) x = write_all wr s (int b - 1) x1"
    using write_all_step [of "int b" s wr x "- 1" x1] assms by simp
  show ?thesis
  proof (cases "b = 0")
    case True
    have "int_to_size (- 1) = SIZE_MOD - 1" by (simp add: int_to_size_def SIZE_MOD_def)
    then have "write_all wr s (- 1) x1 = Some x1" using assms(2) by (intro write_all_done) simp
    with True step show ?thesis by simp
  next
    case False
    then have "int b - 1 = int (b - 1)" by simp
    with step have "write_all wr s (int b) x = write_all wr s (int (b - 1)) x1" by metis
    with False show ?thesis by (simp only: if_False)
  qed
qed

theorem write_error_counts_witness:
  "write_all (\<lambda>s x. (- 1, x + 1)) ''abc'' 0 (0 :: nat) = Some 1"
  using write_error_counts [of 0 "''abc''" "\<lambda>s x. (- 1, x + 1)" "0 :: nat" 1]
  by (simp add: SIZE_MOD_def)

end
