(* ===== verification/MarpaCodes.thy ===== *)
theory MarpaCodes
  imports Logger
begin

text \<open>
  The numbers of \<open>src/libmarpa-dist/marpa.h\<close>, the description tables of \<open>src/libmarpa-dist/marpa_codes.c\<close> and
  the error texts of \<open>_marpaWrapper_strerror\<close> in \<open>src/src/marpaWrapper.c\<close>.
\<close>

named_theorems marpa_consts \<open>values of the libmarpa constants\<close>

section \<open>Constants\<close>

definition MARPA_ERR_NONE :: int where [marpa_consts]:
  "MARPA_ERR_NONE = 0"

definition MARPA_ERR_AHFA_IX_NEGATIVE :: int where [marpa_consts]:
  "MARPA_ERR_AHFA_IX_NEGATIVE = 1"

definition MARPA_ERR_AHFA_IX_OOB :: int where [marpa_consts]:
  "MARPA_ERR_AHFA_IX_OOB = 2"

definition MARPA_ERR_ANDID_NEGATIVE :: int where [marpa_consts]:
  "MARPA_ERR_ANDID_NEGATIVE = 3"

definition MARPA_ERR_ANDID_NOT_IN_OR :: int where [marpa_consts]:
  "MARPA_ERR_ANDID_NOT_IN_OR = 4"

definition MARPA_ERR_ANDIX_NEGATIVE :: int where [marpa_consts]:
  "MARPA_ERR_ANDIX_NEGATIVE = 5"

definition MARPA_ERR_BAD_SEPARATOR :: int where [marpa_consts]:
  "MARPA_ERR_BAD_SEPARATOR = 6"

definition MARPA_ERR_BOCAGE_ITERATION_EXHAUSTED :: int where [marpa_consts]:
  "MARPA_ERR_BOCAGE_ITERATION_EXHAUSTED = 7"

definition MARPA_ERR_COUNTED_NULLABLE :: int where [marpa_consts]:
  "MARPA_ERR_COUNTED_NULLABLE = 8"

definition MARPA_ERR_DEVELOPMENT :: int where [marpa_consts]:
  "MARPA_ERR_DEVELOPMENT = 9"

definition MARPA_ERR_DUPLICATE_AND_NODE :: int where [marpa_consts]:
  "MARPA_ERR_DUPLICATE_AND_NODE = 10"

definition MARPA_ERR_DUPLICATE_RULE :: int where [marpa_consts]:
  "MARPA_ERR_DUPLICATE_RULE = 11"

definition MARPA_ERR_DUPLICATE_TOKEN :: int where [marpa_consts]:
  "MARPA_ERR_DUPLICATE_TOKEN = 12"

definition MARPA_ERR_YIM_COUNT :: int where [marpa_consts]:
  "MARPA_ERR_YIM_COUNT = 13"

definition MARPA_ERR_YIM_ID_INVALID :: int where [marpa_consts]:
  "MARPA_ERR_YIM_ID_INVALID = 14"

definition MARPA_ERR_EVENT_IX_NEGATIVE :: int where [marpa_consts]:
  "MARPA_ERR_EVENT_IX_NEGATIVE = 15"

definition MARPA_ERR_EVENT_IX_OOB :: int where [marpa_consts]:
  "MARPA_ERR_EVENT_IX_OOB = 16"

definition MARPA_ERR_GRAMMAR_HAS_CYCLE :: int where [marpa_consts]:
  "MARPA_ERR_GRAMMAR_HAS_CYCLE = 17"

definition MARPA_ERR_INACCESSIBLE_TOKEN :: int where [marpa_consts]:
  "MARPA_ERR_INACCESSIBLE_TOKEN = 18"

definition MARPA_ERR_INTERNAL :: int where [marpa_consts]:
  "MARPA_ERR_INTERNAL = 19"

definition MARPA_ERR_INVALID_AHFA_ID :: int where [marpa_consts]:
  "MARPA_ERR_INVALID_AHFA_ID = 20"

definition MARPA_ERR_INVALID_AIMID :: int where [marpa_consts]:
  "MARPA_ERR_INVALID_AIMID = 21"

definition MARPA_ERR_INVALID_BOOLEAN :: int where [marpa_consts]:
  "MARPA_ERR_INVALID_BOOLEAN = 22"

definition MARPA_ERR_INVALID_IRLID :: int where [marpa_consts]:
  "MARPA_ERR_INVALID_IRLID = 23"

definition MARPA_ERR_INVALID_NSYID :: int where [marpa_consts]:
  "MARPA_ERR_INVALID_NSYID = 24"

definition MARPA_ERR_INVALID_LOCATION :: int where [marpa_consts]:
  "MARPA_ERR_INVALID_LOCATION = 25"

definition MARPA_ERR_INVALID_RULE_ID :: int where [marpa_consts]:
  "MARPA_ERR_INVALID_RULE_ID = 26"

definition MARPA_ERR_INVALID_START_SYMBOL :: int where [marpa_consts]:
  "MARPA_ERR_INVALID_START_SYMBOL = 27"

definition MARPA_ERR_INVALID_SYMBOL_ID :: int where [marpa_consts]:
  "MARPA_ERR_INVALID_SYMBOL_ID = 28"

definition MARPA_ERR_I_AM_NOT_OK :: int where [marpa_consts]:
  "MARPA_ERR_I_AM_NOT_OK = 29"

definition MARPA_ERR_MAJOR_VERSION_MISMATCH :: int where [marpa_consts]:
  "MARPA_ERR_MAJOR_VERSION_MISMATCH = 30"

definition MARPA_ERR_MICRO_VERSION_MISMATCH :: int where [marpa_consts]:
  "MARPA_ERR_MICRO_VERSION_MISMATCH = 31"

definition MARPA_ERR_MINOR_VERSION_MISMATCH :: int where [marpa_consts]:
  "MARPA_ERR_MINOR_VERSION_MISMATCH = 32"

definition MARPA_ERR_NOOKID_NEGATIVE :: int where [marpa_consts]:
  "MARPA_ERR_NOOKID_NEGATIVE = 33"

definition MARPA_ERR_NOT_PRECOMPUTED :: int where [marpa_consts]:
  "MARPA_ERR_NOT_PRECOMPUTED = 34"

definition MARPA_ERR_NOT_TRACING_COMPLETION_LINKS :: int where [marpa_consts]:
  "MARPA_ERR_NOT_TRACING_COMPLETION_LINKS = 35"

definition MARPA_ERR_NOT_TRACING_LEO_LINKS :: int where [marpa_consts]:
  "MARPA_ERR_NOT_TRACING_LEO_LINKS = 36"

definition MARPA_ERR_NOT_TRACING_TOKEN_LINKS :: int where [marpa_consts]:
  "MARPA_ERR_NOT_TRACING_TOKEN_LINKS = 37"

definition MARPA_ERR_NO_AND_NODES :: int where [marpa_consts]:
  "MARPA_ERR_NO_AND_NODES = 38"

definition MARPA_ERR_NO_EARLEY_SET_AT_LOCATION :: int where [marpa_consts]:
  "MARPA_ERR_NO_EARLEY_SET_AT_LOCATION = 39"

definition MARPA_ERR_NO_OR_NODES :: int where [marpa_consts]:
  "MARPA_ERR_NO_OR_NODES = 40"

definition MARPA_ERR_NO_PARSE :: int where [marpa_consts]:
  "MARPA_ERR_NO_PARSE = 41"

definition MARPA_ERR_NO_RULES :: int where [marpa_consts]:
  "MARPA_ERR_NO_RULES = 42"

definition MARPA_ERR_NO_START_SYMBOL :: int where [marpa_consts]:
  "MARPA_ERR_NO_START_SYMBOL = 43"

definition MARPA_ERR_NO_TOKEN_EXPECTED_HERE :: int where [marpa_consts]:
  "MARPA_ERR_NO_TOKEN_EXPECTED_HERE = 44"

definition MARPA_ERR_NO_TRACE_YIM :: int where [marpa_consts]:
  "MARPA_ERR_NO_TRACE_YIM = 45"

definition MARPA_ERR_NO_TRACE_YS :: int where [marpa_consts]:
  "MARPA_ERR_NO_TRACE_YS = 46"

definition MARPA_ERR_NO_TRACE_PIM :: int where [marpa_consts]:
  "MARPA_ERR_NO_TRACE_PIM = 47"

definition MARPA_ERR_NO_TRACE_SRCL :: int where [marpa_consts]:
  "MARPA_ERR_NO_TRACE_SRCL = 48"

definition MARPA_ERR_NULLING_TERMINAL :: int where [marpa_consts]:
  "MARPA_ERR_NULLING_TERMINAL = 49"

definition MARPA_ERR_ORDER_FROZEN :: int where [marpa_consts]:
  "MARPA_ERR_ORDER_FROZEN = 50"

definition MARPA_ERR_ORID_NEGATIVE :: int where [marpa_consts]:
  "MARPA_ERR_ORID_NEGATIVE = 51"

definition MARPA_ERR_OR_ALREADY_ORDERED :: int where [marpa_consts]:
  "MARPA_ERR_OR_ALREADY_ORDERED = 52"

definition MARPA_ERR_PARSE_EXHAUSTED :: int where [marpa_consts]:
  "MARPA_ERR_PARSE_EXHAUSTED = 53"

definition MARPA_ERR_PARSE_TOO_LONG :: int where [marpa_consts]:
  "MARPA_ERR_PARSE_TOO_LONG = 54"

definition MARPA_ERR_PIM_IS_NOT_LIM :: int where [marpa_consts]:
  "MARPA_ERR_PIM_IS_NOT_LIM = 55"

definition MARPA_ERR_POINTER_ARG_NULL :: int where [marpa_consts]:
  "MARPA_ERR_POINTER_ARG_NULL = 56"

definition MARPA_ERR_PRECOMPUTED :: int where [marpa_consts]:
  "MARPA_ERR_PRECOMPUTED = 57"

definition MARPA_ERR_PROGRESS_REPORT_EXHAUSTED :: int where [marpa_consts]:
  "MARPA_ERR_PROGRESS_REPORT_EXHAUSTED = 58"

definition MARPA_ERR_PROGRESS_REPORT_NOT_STARTED :: int where [marpa_consts]:
  "MARPA_ERR_PROGRESS_REPORT_NOT_STARTED = 59"

definition MARPA_ERR_RECCE_NOT_ACCEPTING_INPUT :: int where [marpa_consts]:
  "MARPA_ERR_RECCE_NOT_ACCEPTING_INPUT = 60"

definition MARPA_ERR_RECCE_NOT_STARTED :: int where [marpa_consts]:
  "MARPA_ERR_RECCE_NOT_STARTED = 61"

definition MARPA_ERR_RECCE_STARTED :: int where [marpa_consts]:
  "MARPA_ERR_RECCE_STARTED = 62"

definition MARPA_ERR_RHS_IX_NEGATIVE :: int where [marpa_consts]:
  "MARPA_ERR_RHS_IX_NEGATIVE = 63"

definition MARPA_ERR_RHS_IX_OOB :: int where [marpa_consts]:
  "MARPA_ERR_RHS_IX_OOB = 64"

definition MARPA_ERR_RHS_TOO_LONG :: int where [marpa_consts]:
  "MARPA_ERR_RHS_TOO_LONG = 65"

definition MARPA_ERR_SEQUENCE_LHS_NOT_UNIQUE :: int where [marpa_consts]:
  "MARPA_ERR_SEQUENCE_LHS_NOT_UNIQUE = 66"

definition MARPA_ERR_SOURCE_TYPE_IS_AMBIGUOUS :: int where [marpa_consts]:
  "MARPA_ERR_SOURCE_TYPE_IS_AMBIGUOUS = 67"

definition MARPA_ERR_SOURCE_TYPE_IS_COMPLETION :: int where [marpa_consts]:
  "MARPA_ERR_SOURCE_TYPE_IS_COMPLETION = 68"

definition MARPA_ERR_SOURCE_TYPE_IS_LEO :: int where [marpa_consts]:
  "MARPA_ERR_SOURCE_TYPE_IS_LEO = 69"

definition MARPA_ERR_SOURCE_TYPE_IS_NONE :: int where [marpa_consts]:
  "MARPA_ERR_SOURCE_TYPE_IS_NONE = 70"

definition MARPA_ERR_SOURCE_TYPE_IS_TOKEN :: int where [marpa_consts]:
  "MARPA_ERR_SOURCE_TYPE_IS_TOKEN = 71"

definition MARPA_ERR_SOURCE_TYPE_IS_UNKNOWN :: int where [marpa_consts]:
  "MARPA_ERR_SOURCE_TYPE_IS_UNKNOWN = 72"

definition MARPA_ERR_START_NOT_LHS :: int where [marpa_consts]:
  "MARPA_ERR_START_NOT_LHS = 73"

definition MARPA_ERR_SYMBOL_VALUED_CONFLICT :: int where [marpa_consts]:
  "MARPA_ERR_SYMBOL_VALUED_CONFLICT = 74"

definition MARPA_ERR_TERMINAL_IS_LOCKED :: int where [marpa_consts]:
  "MARPA_ERR_TERMINAL_IS_LOCKED = 75"

definition MARPA_ERR_TOKEN_IS_NOT_TERMINAL :: int where [marpa_consts]:
  "MARPA_ERR_TOKEN_IS_NOT_TERMINAL = 76"

definition MARPA_ERR_TOKEN_LENGTH_LE_ZERO :: int where [marpa_consts]:
  "MARPA_ERR_TOKEN_LENGTH_LE_ZERO = 77"

definition MARPA_ERR_TOKEN_TOO_LONG :: int where [marpa_consts]:
  "MARPA_ERR_TOKEN_TOO_LONG = 78"

definition MARPA_ERR_TREE_EXHAUSTED :: int where [marpa_consts]:
  "MARPA_ERR_TREE_EXHAUSTED = 79"

definition MARPA_ERR_TREE_PAUSED :: int where [marpa_consts]:
  "MARPA_ERR_TREE_PAUSED = 80"

definition MARPA_ERR_UNEXPECTED_TOKEN_ID :: int where [marpa_consts]:
  "MARPA_ERR_UNEXPECTED_TOKEN_ID = 81"

definition MARPA_ERR_UNPRODUCTIVE_START :: int where [marpa_consts]:
  "MARPA_ERR_UNPRODUCTIVE_START = 82"

definition MARPA_ERR_VALUATOR_INACTIVE :: int where [marpa_consts]:
  "MARPA_ERR_VALUATOR_INACTIVE = 83"

definition MARPA_ERR_VALUED_IS_LOCKED :: int where [marpa_consts]:
  "MARPA_ERR_VALUED_IS_LOCKED = 84"

definition MARPA_ERR_RANK_TOO_LOW :: int where [marpa_consts]:
  "MARPA_ERR_RANK_TOO_LOW = 85"

definition MARPA_ERR_RANK_TOO_HIGH :: int where [marpa_consts]:
  "MARPA_ERR_RANK_TOO_HIGH = 86"

definition MARPA_ERR_SYMBOL_IS_NULLING :: int where [marpa_consts]:
  "MARPA_ERR_SYMBOL_IS_NULLING = 87"

definition MARPA_ERR_SYMBOL_IS_UNUSED :: int where [marpa_consts]:
  "MARPA_ERR_SYMBOL_IS_UNUSED = 88"

definition MARPA_ERR_NO_SUCH_RULE_ID :: int where [marpa_consts]:
  "MARPA_ERR_NO_SUCH_RULE_ID = 89"

definition MARPA_ERR_NO_SUCH_SYMBOL_ID :: int where [marpa_consts]:
  "MARPA_ERR_NO_SUCH_SYMBOL_ID = 90"

definition MARPA_ERR_BEFORE_FIRST_TREE :: int where [marpa_consts]:
  "MARPA_ERR_BEFORE_FIRST_TREE = 91"

definition MARPA_ERR_SYMBOL_IS_NOT_COMPLETION_EVENT :: int where [marpa_consts]:
  "MARPA_ERR_SYMBOL_IS_NOT_COMPLETION_EVENT = 92"

definition MARPA_ERR_SYMBOL_IS_NOT_NULLED_EVENT :: int where [marpa_consts]:
  "MARPA_ERR_SYMBOL_IS_NOT_NULLED_EVENT = 93"

definition MARPA_ERR_SYMBOL_IS_NOT_PREDICTION_EVENT :: int where [marpa_consts]:
  "MARPA_ERR_SYMBOL_IS_NOT_PREDICTION_EVENT = 94"

definition MARPA_ERR_RECCE_IS_INCONSISTENT :: int where [marpa_consts]:
  "MARPA_ERR_RECCE_IS_INCONSISTENT = 95"

definition MARPA_ERR_INVALID_ASSERTION_ID :: int where [marpa_consts]:
  "MARPA_ERR_INVALID_ASSERTION_ID = 96"

definition MARPA_ERR_NO_SUCH_ASSERTION_ID :: int where [marpa_consts]:
  "MARPA_ERR_NO_SUCH_ASSERTION_ID = 97"

definition MARPA_ERR_HEADERS_DO_NOT_MATCH :: int where [marpa_consts]:
  "MARPA_ERR_HEADERS_DO_NOT_MATCH = 98"

definition MARPA_EVENT_NONE :: int where [marpa_consts]:
  "MARPA_EVENT_NONE = 0"

definition MARPA_EVENT_COUNTED_NULLABLE :: int where [marpa_consts]:
  "MARPA_EVENT_COUNTED_NULLABLE = 1"

definition MARPA_EVENT_EARLEY_ITEM_THRESHOLD :: int where [marpa_consts]:
  "MARPA_EVENT_EARLEY_ITEM_THRESHOLD = 2"

definition MARPA_EVENT_EXHAUSTED :: int where [marpa_consts]:
  "MARPA_EVENT_EXHAUSTED = 3"

definition MARPA_EVENT_LOOP_RULES :: int where [marpa_consts]:
  "MARPA_EVENT_LOOP_RULES = 4"

definition MARPA_EVENT_NULLING_TERMINAL :: int where [marpa_consts]:
  "MARPA_EVENT_NULLING_TERMINAL = 5"

definition MARPA_EVENT_SYMBOL_COMPLETED :: int where [marpa_consts]:
  "MARPA_EVENT_SYMBOL_COMPLETED = 6"

definition MARPA_EVENT_SYMBOL_EXPECTED :: int where [marpa_consts]:
  "MARPA_EVENT_SYMBOL_EXPECTED = 7"

definition MARPA_EVENT_SYMBOL_NULLED :: int where [marpa_consts]:
  "MARPA_EVENT_SYMBOL_NULLED = 8"

definition MARPA_EVENT_SYMBOL_PREDICTED :: int where [marpa_consts]:
  "MARPA_EVENT_SYMBOL_PREDICTED = 9"

definition MARPA_STEP_INTERNAL1 :: int where [marpa_consts]:
  "MARPA_STEP_INTERNAL1 = 0"

definition MARPA_STEP_RULE :: int where [marpa_consts]:
  "MARPA_STEP_RULE = 1"

definition MARPA_STEP_TOKEN :: int where [marpa_consts]:
  "MARPA_STEP_TOKEN = 2"

definition MARPA_STEP_NULLING_SYMBOL :: int where [marpa_consts]:
  "MARPA_STEP_NULLING_SYMBOL = 3"

definition MARPA_STEP_TRACE :: int where [marpa_consts]:
  "MARPA_STEP_TRACE = 4"

definition MARPA_STEP_INACTIVE :: int where [marpa_consts]:
  "MARPA_STEP_INACTIVE = 5"

definition MARPA_STEP_INTERNAL2 :: int where [marpa_consts]:
  "MARPA_STEP_INTERNAL2 = 6"

definition MARPA_STEP_INITIAL :: int where [marpa_consts]:
  "MARPA_STEP_INITIAL = 7"

definition MARPA_PROPER_SEPARATION :: int where [marpa_consts]:
  "MARPA_PROPER_SEPARATION = 2"

section \<open>Description tables\<close>

definition marpa_error_description :: "(int \<times> string \<times> string) list" where
  "marpa_error_description =
    [(0, ''MARPA_ERR_NONE'', ''No error''),
     (1, ''MARPA_ERR_AHFA_IX_NEGATIVE'', ''MARPA_ERR_AHFA_IX_NEGATIVE''),
     (2, ''MARPA_ERR_AHFA_IX_OOB'', ''MARPA_ERR_AHFA_IX_OOB''),
     (3, ''MARPA_ERR_ANDID_NEGATIVE'', ''MARPA_ERR_ANDID_NEGATIVE''),
     (4, ''MARPA_ERR_ANDID_NOT_IN_OR'', ''MARPA_ERR_ANDID_NOT_IN_OR''),
     (5, ''MARPA_ERR_ANDIX_NEGATIVE'', ''MARPA_ERR_ANDIX_NEGATIVE''),
     (6, ''MARPA_ERR_BAD_SEPARATOR'', ''Separator has invalid symbol ID''),
     (7, ''MARPA_ERR_BOCAGE_ITERATION_EXHAUSTED'', ''MARPA_ERR_BOCAGE_ITERATION_EXHAUSTED''),
     (8, ''MARPA_ERR_COUNTED_NULLABLE'', ''Nullable symbol on RHS of a sequence rule''),
     (9, ''MARPA_ERR_DEVELOPMENT'', ''Development error, see string''),
     (10, ''MARPA_ERR_DUPLICATE_AND_NODE'', ''MARPA_ERR_DUPLICATE_AND_NODE''),
     (11, ''MARPA_ERR_DUPLICATE_RULE'', ''Duplicate rule''),
     (12, ''MARPA_ERR_DUPLICATE_TOKEN'', ''Duplicate token''),
     (13, ''MARPA_ERR_YIM_COUNT'', ''Maximum number of Earley items exceeded''),
     (14, ''MARPA_ERR_YIM_ID_INVALID'', ''MARPA_ERR_YIM_ID_INVALID''),
     (15, ''MARPA_ERR_EVENT_IX_NEGATIVE'', ''Negative event index''),
     (16, ''MARPA_ERR_EVENT_IX_OOB'', ''No event at that index''),
     (17, ''MARPA_ERR_GRAMMAR_HAS_CYCLE'', ''Grammar has cycle''),
     (18, ''MARPA_ERR_INACCESSIBLE_TOKEN'', ''Token symbol is inaccessible''),
     (19, ''MARPA_ERR_INTERNAL'', ''MARPA_ERR_INTERNAL''),
     (20, ''MARPA_ERR_INVALID_AHFA_ID'', ''MARPA_ERR_INVALID_AHFA_ID''),
     (21, ''MARPA_ERR_INVALID_AIMID'', ''MARPA_ERR_INVALID_AIMID''),
     (22, ''MARPA_ERR_INVALID_BOOLEAN'', ''Argument is not boolean''),
     (23, ''MARPA_ERR_INVALID_IRLID'', ''MARPA_ERR_INVALID_IRLID''),
     (24, ''MARPA_ERR_INVALID_NSYID'', ''MARPA_ERR_INVALID_NSYID''),
     (25, ''MARPA_ERR_INVALID_LOCATION'', ''Location is not valid''),
     (26, ''MARPA_ERR_INVALID_RULE_ID'', ''Rule ID is malformed''),
     (27, ''MARPA_ERR_INVALID_START_SYMBOL'', ''Specified start symbol is not valid''),
     (28, ''MARPA_ERR_INVALID_SYMBOL_ID'', ''Symbol ID is malformed''),
     (29, ''MARPA_ERR_I_AM_NOT_OK'', ''Marpa is in a not OK state''),
     (30, ''MARPA_ERR_MAJOR_VERSION_MISMATCH'', ''Libmarpa major version number is a mismatch''),
     (31, ''MARPA_ERR_MICRO_VERSION_MISMATCH'', ''Libmarpa micro version number is a mismatch''),
     (32, ''MARPA_ERR_MINOR_VERSION_MISMATCH'', ''Libmarpa minor version number is a mismatch''),
     (33, ''MARPA_ERR_NOOKID_NEGATIVE'', ''MARPA_ERR_NOOKID_NEGATIVE''),
     (34, ''MARPA_ERR_NOT_PRECOMPUTED'', ''This grammar is not precomputed''),
     (35, ''MARPA_ERR_NOT_TRACING_COMPLETION_LINKS'', ''MARPA_ERR_NOT_TRACING_COMPLETION_LINKS''),
     (36, ''MARPA_ERR_NOT_TRACING_LEO_LINKS'', ''MARPA_ERR_NOT_TRACING_LEO_LINKS''),
     (37, ''MARPA_ERR_NOT_TRACING_TOKEN_LINKS'', ''MARPA_ERR_NOT_TRACING_TOKEN_LINKS''),
     (38, ''MARPA_ERR_NO_AND_NODES'', ''MARPA_ERR_NO_AND_NODES''),
     (39, ''MARPA_ERR_NO_EARLEY_SET_AT_LOCATION'', ''Earley set ID is after latest Earley set''),
     (40, ''MARPA_ERR_NO_OR_NODES'', ''MARPA_ERR_NO_OR_NODES''),
     (41, ''MARPA_ERR_NO_PARSE'', ''No parse''),
     (42, ''MARPA_ERR_NO_RULES'', ''This grammar does not have any rules''),
     (43, ''MARPA_ERR_NO_START_SYMBOL'', ''This grammar has no start symbol''),
     (44, ''MARPA_ERR_NO_TOKEN_EXPECTED_HERE'', ''No token is expected at this earleme location''),
     (45, ''MARPA_ERR_NO_TRACE_YIM'', ''MARPA_ERR_NO_TRACE_YIM''),
     (46, ''MARPA_ERR_NO_TRACE_YS'', ''MARPA_ERR_NO_TRACE_YS''),
     (47, ''MARPA_ERR_NO_TRACE_PIM'', ''MARPA_ERR_NO_TRACE_PIM''),
     (48, ''MARPA_ERR_NO_TRACE_SRCL'', ''MARPA_ERR_NO_TRACE_SRCL''),
     (49, ''MARPA_ERR_NULLING_TERMINAL'', ''A symbol is both terminal and nulling''),
     (50, ''MARPA_ERR_ORDER_FROZEN'', ''The ordering is frozen''),
     (51, ''MARPA_ERR_ORID_NEGATIVE'', ''MARPA_ERR_ORID_NEGATIVE''),
     (52, ''MARPA_ERR_OR_ALREADY_ORDERED'', ''MARPA_ERR_OR_ALREADY_ORDERED''),
     (53, ''MARPA_ERR_PARSE_EXHAUSTED'', ''The parse is exhausted''),
     (54, ''MARPA_ERR_PARSE_TOO_LONG'', ''This input would make the parse too long''),
     (55, ''MARPA_ERR_PIM_IS_NOT_LIM'', ''MARPA_ERR_PIM_IS_NOT_LIM''),
     (56, ''MARPA_ERR_POINTER_ARG_NULL'', ''An argument is null when it should not be''),
     (57, ''MARPA_ERR_PRECOMPUTED'', ''This grammar is precomputed''),
     (58, ''MARPA_ERR_PROGRESS_REPORT_EXHAUSTED'', ''The progress report is exhausted''),
     (59, ''MARPA_ERR_PROGRESS_REPORT_NOT_STARTED'', ''No progress report has been started''),
     (60, ''MARPA_ERR_RECCE_NOT_ACCEPTING_INPUT'', ''The recognizer is not accepting input''),
     (61, ''MARPA_ERR_RECCE_NOT_STARTED'', ''The recognizer has not been started''),
     (62, ''MARPA_ERR_RECCE_STARTED'', ''The recognizer has been started''),
     (63, ''MARPA_ERR_RHS_IX_NEGATIVE'', ''RHS index cannot be negative''),
     (64, ''MARPA_ERR_RHS_IX_OOB'', ''RHS index must be less than rule length''),
     (65, ''MARPA_ERR_RHS_TOO_LONG'', ''The RHS is too long''),
     (66, ''MARPA_ERR_SEQUENCE_LHS_NOT_UNIQUE'', ''LHS of sequence rule would not be unique''),
     (67, ''MARPA_ERR_SOURCE_TYPE_IS_AMBIGUOUS'', ''MARPA_ERR_SOURCE_TYPE_IS_AMBIGUOUS''),
     (68, ''MARPA_ERR_SOURCE_TYPE_IS_COMPLETION'', ''MARPA_ERR_SOURCE_TYPE_IS_COMPLETION''),
     (69, ''MARPA_ERR_SOURCE_TYPE_IS_LEO'', ''MARPA_ERR_SOURCE_TYPE_IS_LEO''),
     (70, ''MARPA_ERR_SOURCE_TYPE_IS_NONE'', ''MARPA_ERR_SOURCE_TYPE_IS_NONE''),
     (71, ''MARPA_ERR_SOURCE_TYPE_IS_TOKEN'', ''MARPA_ERR_SOURCE_TYPE_IS_TOKEN''),
     (72, ''MARPA_ERR_SOURCE_TYPE_IS_UNKNOWN'', ''MARPA_ERR_SOURCE_TYPE_IS_UNKNOWN''),
     (73, ''MARPA_ERR_START_NOT_LHS'', ''Start symbol not on LHS of any rule''),
     (74, ''MARPA_ERR_SYMBOL_VALUED_CONFLICT'', ''Symbol is treated both as valued and unvalued''),
     (75, ''MARPA_ERR_TERMINAL_IS_LOCKED'', ''The terminal status of the symbol is locked''),
     (76, ''MARPA_ERR_TOKEN_IS_NOT_TERMINAL'', ''Token symbol must be a terminal''),
     (77, ''MARPA_ERR_TOKEN_LENGTH_LE_ZERO'', ''Token length must greater than zero''),
     (78, ''MARPA_ERR_TOKEN_TOO_LONG'', ''Token is too long''),
     (79, ''MARPA_ERR_TREE_EXHAUSTED'', ''Tree iterator is exhausted''),
     (80, ''MARPA_ERR_TREE_PAUSED'', ''Tree iterator is paused''),
     (81, ''MARPA_ERR_UNEXPECTED_TOKEN_ID'', ''Unexpected token''),
     (82, ''MARPA_ERR_UNPRODUCTIVE_START'', ''Unproductive start symbol''),
     (83, ''MARPA_ERR_VALUATOR_INACTIVE'', ''Valuator inactive''),
     (84, ''MARPA_ERR_VALUED_IS_LOCKED'', ''The valued status of the symbol is locked''),
     (85, ''MARPA_ERR_RANK_TOO_LOW'', ''Rule or symbol rank too low''),
     (86, ''MARPA_ERR_RANK_TOO_HIGH'', ''Rule or symbol rank too high''),
     (87, ''MARPA_ERR_SYMBOL_IS_NULLING'', ''Symbol is nulling''),
     (88, ''MARPA_ERR_SYMBOL_IS_UNUSED'', ''Symbol is not used''),
     (89, ''MARPA_ERR_NO_SUCH_RULE_ID'', ''No rule with this ID exists''),
     (90, ''MARPA_ERR_NO_SUCH_SYMBOL_ID'', ''No symbol with this ID exists''),
     (91, ''MARPA_ERR_BEFORE_FIRST_TREE'', ''Tree iterator is before first tree''),
     (92, ''MARPA_ERR_SYMBOL_IS_NOT_COMPLETION_EVENT'', ''Symbol is not set up for completion events''),
     (93, ''MARPA_ERR_SYMBOL_IS_NOT_NULLED_EVENT'', ''Symbol is not set up for nulled events''),
     (94, ''MARPA_ERR_SYMBOL_IS_NOT_PREDICTION_EVENT'', ''Symbol is not set up for prediction events''),
     (95, ''MARPA_ERR_RECCE_IS_INCONSISTENT'', ''MARPA_ERR_RECCE_IS_INCONSISTENT''),
     (96, ''MARPA_ERR_INVALID_ASSERTION_ID'', ''Assertion ID is malformed''),
     (97, ''MARPA_ERR_NO_SUCH_ASSERTION_ID'', ''No assertion with this ID exists''),
     (98, ''MARPA_ERR_HEADERS_DO_NOT_MATCH'', ''Internal error: Libmarpa was built incorrectly'')]"

definition marpa_event_description :: "(int \<times> string \<times> string) list" where
  "marpa_event_description =
    [(0, ''MARPA_EVENT_NONE'', ''No event''),
     (1, ''MARPA_EVENT_COUNTED_NULLABLE'', ''This symbol is a counted nullable''),
     (2, ''MARPA_EVENT_EARLEY_ITEM_THRESHOLD'', ''Too many Earley items''),
     (3, ''MARPA_EVENT_EXHAUSTED'', ''Recognizer is exhausted''),
     (4, ''MARPA_EVENT_LOOP_RULES'', ''Grammar contains a infinite loop''),
     (5, ''MARPA_EVENT_NULLING_TERMINAL'', ''This symbol is a nulling terminal''),
     (6, ''MARPA_EVENT_SYMBOL_COMPLETED'', ''Completed symbol''),
     (7, ''MARPA_EVENT_SYMBOL_EXPECTED'', ''Expecting symbol''),
     (8, ''MARPA_EVENT_SYMBOL_NULLED'', ''Symbol was nulled''),
     (9, ''MARPA_EVENT_SYMBOL_PREDICTED'', ''Symbol was predicted'')]"

section \<open>Error texts of the wrapper\<close>

definition marpa_texts :: "(int \<times> string) list" where
  "marpa_texts =
    [(MARPA_ERR_NONE, ''MARPA_ERR_NONE: No error''),
     (MARPA_ERR_AHFA_IX_NEGATIVE, ''MARPA_ERR_AHFA_IX_NEGATIVE''),
     (MARPA_ERR_AHFA_IX_OOB, ''MARPA_ERR_AHFA_IX_OOB''),
     (MARPA_ERR_ANDID_NEGATIVE, ''MARPA_ERR_ANDID_NEGATIVE''),
     (MARPA_ERR_ANDID_NOT_IN_OR, ''MARPA_ERR_ANDID_NOT_IN_OR''),
     (MARPA_ERR_ANDIX_NEGATIVE, ''MARPA_ERR_ANDIX_NEGATIVE''),
     (MARPA_ERR_BAD_SEPARATOR, ''MARPA_ERR_BAD_SEPARATOR: Separator has invalid symbol ID''),
     (MARPA_ERR_BOCAGE_ITERATION_EXHAUSTED, ''MARPA_ERR_BOCAGE_ITERATION_EXHAUSTED''),
     (MARPA_ERR_COUNTED_NULLABLE, ''MARPA_ERR_COUNTED_NULLABLE: Nullable symbol on RHS of a sequence rule''),
     (MARPA_ERR_DEVELOPMENT, ''MARPA_ERR_DEVELOPMENT: Development error, see string''),
     (MARPA_ERR_DUPLICATE_AND_NODE, ''MARPA_ERR_DUPLICATE_AND_NODE''),
     (MARPA_ERR_DUPLICATE_RULE, ''MARPA_ERR_DUPLICATE_RULE: Duplicate rule''),
     (MARPA_ERR_DUPLICATE_TOKEN, ''MARPA_ERR_DUPLICATE_TOKEN: Duplicate token''),
     (MARPA_ERR_YIM_COUNT, ''MARPA_ERR_YIM_COUNT: Maximum number of Earley items exceeded''),
     (MARPA_ERR_YIM_ID_INVALID, ''MARPA_ERR_YIM_ID_INVALID''),
     (MARPA_ERR_EVENT_IX_NEGATIVE, ''MARPA_ERR_EVENT_IX_NEGATIVE: Negative event index''),
     (MARPA_ERR_EVENT_IX_OOB, ''MARPA_ERR_EVENT_IX_OOB: No event at that index''),
     (MARPA_ERR_GRAMMAR_HAS_CYCLE, ''MARPA_ERR_GRAMMAR_HAS_CYCLE: Grammar has cycle''),
     (MARPA_ERR_INACCESSIBLE_TOKEN, ''MARPA_ERR_INACCESSIBLE_TOKEN: Token symbol is inaccessible''),
     (MARPA_ERR_INTERNAL, ''MARPA_ERR_INTERNAL''),
     (MARPA_ERR_INVALID_AHFA_ID, ''MARPA_ERR_INVALID_AHFA_ID''),
     (MARPA_ERR_INVALID_AIMID, ''MARPA_ERR_INVALID_AIMID''),
     (MARPA_ERR_INVALID_BOOLEAN, ''MARPA_ERR_INVALID_BOOLEAN: Argument is not boolean''),
     (MARPA_ERR_INVALID_IRLID, ''MARPA_ERR_INVALID_IRLID''),
     (MARPA_ERR_INVALID_NSYID, ''MARPA_ERR_INVALID_NSYID''),
     (MARPA_ERR_INVALID_LOCATION, ''MARPA_ERR_INVALID_LOCATION: Location is not valid''),
     (MARPA_ERR_INVALID_RULE_ID, ''MARPA_ERR_INVALID_RULE_ID: Rule ID is malformed''),
     (MARPA_ERR_INVALID_START_SYMBOL, ''MARPA_ERR_INVALID_START_SYMBOL: Specified start symbol is not valid''),
     (MARPA_ERR_INVALID_SYMBOL_ID, ''MARPA_ERR_INVALID_SYMBOL_ID: Symbol ID is malformed''),
     (MARPA_ERR_I_AM_NOT_OK, ''MARPA_ERR_I_AM_NOT_OK: Marpa is in a not OK state''),
     (MARPA_ERR_MAJOR_VERSION_MISMATCH, ''MARPA_ERR_MAJOR_VERSION_MISMATCH: Libmarpa major version number is a mismatch''),
     (MARPA_ERR_MICRO_VERSION_MISMATCH, ''MARPA_ERR_MICRO_VERSION_MISMATCH: Libmarpa micro version number is a mismatch''),
     (MARPA_ERR_MINOR_VERSION_MISMATCH, ''MARPA_ERR_MINOR_VERSION_MISMATCH: Libmarpa minor version number is a mismatch''),
     (MARPA_ERR_NOOKID_NEGATIVE, ''MARPA_ERR_NOOKID_NEGATIVE''),
     (MARPA_ERR_NOT_PRECOMPUTED, ''MARPA_ERR_NOT_PRECOMPUTED: This grammar is not precomputed''),
     (MARPA_ERR_NOT_TRACING_COMPLETION_LINKS, ''MARPA_ERR_NOT_TRACING_COMPLETION_LINKS''),
     (MARPA_ERR_NOT_TRACING_LEO_LINKS, ''MARPA_ERR_NOT_TRACING_LEO_LINKS''),
     (MARPA_ERR_NOT_TRACING_TOKEN_LINKS, ''MARPA_ERR_NOT_TRACING_TOKEN_LINKS''),
     (MARPA_ERR_NO_AND_NODES, ''MARPA_ERR_NO_AND_NODES''),
     (MARPA_ERR_NO_EARLEY_SET_AT_LOCATION, ''MARPA_ERR_NO_EARLEY_SET_AT_LOCATION: Earley set ID is after latest Earley set''),
     (MARPA_ERR_NO_OR_NODES, ''MARPA_ERR_NO_OR_NODES''),
     (MARPA_ERR_NO_PARSE, ''MARPA_ERR_NO_PARSE: No parse''),
     (MARPA_ERR_NO_RULES, ''MARPA_ERR_NO_RULES: This grammar does not have any rules''),
     (MARPA_ERR_NO_START_SYMBOL, ''MARPA_ERR_NO_START_SYMBOL: This grammar has no start symbol''),
     (MARPA_ERR_NO_TOKEN_EXPECTED_HERE, ''MARPA_ERR_NO_TOKEN_EXPECTED_HERE: No token is expected at this earleme location''),
     (MARPA_ERR_NO_TRACE_YIM, ''MARPA_ERR_NO_TRACE_YIM''),
     (MARPA_ERR_NO_TRACE_YS, ''MARPA_ERR_NO_TRACE_YS''),
     (MARPA_ERR_NO_TRACE_PIM, ''MARPA_ERR_NO_TRACE_PIM''),
     (MARPA_ERR_NO_TRACE_SRCL, ''MARPA_ERR_NO_TRACE_SRCL''),
     (MARPA_ERR_NULLING_TERMINAL, ''MARPA_ERR_NULLING_TERMINAL: A symbol is both terminal and nulling''),
     (MARPA_ERR_ORDER_FROZEN, ''MARPA_ERR_ORDER_FROZEN: The ordering is frozen''),
     (MARPA_ERR_ORID_NEGATIVE, ''MARPA_ERR_ORID_NEGATIVE''),
     (MARPA_ERR_OR_ALREADY_ORDERED, ''MARPA_ERR_OR_ALREADY_ORDERED''),
     (MARPA_ERR_PARSE_EXHAUSTED, ''MARPA_ERR_PARSE_EXHAUSTED: The parse is exhausted''),
     (MARPA_ERR_PARSE_TOO_LONG, ''MARPA_ERR_PARSE_TOO_LONG: This input would make the parse too long''),
     (MARPA_ERR_PIM_IS_NOT_LIM, ''MARPA_ERR_PIM_IS_NOT_LIM''),
     (MARPA_ERR_POINTER_ARG_NULL, ''MARPA_ERR_POINTER_ARG_NULL: An argument is null when it should not be''),
     (MARPA_ERR_PRECOMPUTED, ''MARPA_ERR_PRECOMPUTED: This grammar is precomputed''),
     (MARPA_ERR_PROGRESS_REPORT_EXHAUSTED, ''MARPA_ERR_PROGRESS_REPORT_EXHAUSTED: The progress report is exhausted''),
     (MARPA_ERR_PROGRESS_REPORT_NOT_STARTED, ''MARPA_ERR_PROGRESS_REPORT_NOT_STARTED: No progress report has been started''),
     (MARPA_ERR_RECCE_NOT_ACCEPTING_INPUT, ''MARPA_ERR_RECCE_NOT_ACCEPTING_INPUT: The recognizer is not accepting input''),
     (MARPA_ERR_RECCE_NOT_STARTED, ''MARPA_ERR_RECCE_NOT_STARTED: The recognizer has not been started''),
     (MARPA_ERR_RECCE_STARTED, ''MARPA_ERR_RECCE_STARTED: The recognizer has been started''),
     (MARPA_ERR_RHS_IX_NEGATIVE, ''MARPA_ERR_RHS_IX_NEGATIVE: RHS index cannot be negative''),
     (MARPA_ERR_RHS_IX_OOB, ''MARPA_ERR_RHS_IX_OOB: RHS index must be less than rule length''),
     (MARPA_ERR_RHS_TOO_LONG, ''MARPA_ERR_RHS_TOO_LONG: The RHS is too long''),
     (MARPA_ERR_SEQUENCE_LHS_NOT_UNIQUE, ''MARPA_ERR_SEQUENCE_LHS_NOT_UNIQUE: LHS of sequence rule would not be unique''),
     (MARPA_ERR_SOURCE_TYPE_IS_AMBIGUOUS, ''MARPA_ERR_SOURCE_TYPE_IS_AMBIGUOUS''),
     (MARPA_ERR_SOURCE_TYPE_IS_COMPLETION, ''MARPA_ERR_SOURCE_TYPE_IS_COMPLETION''),
     (MARPA_ERR_SOURCE_TYPE_IS_LEO, ''MARPA_ERR_SOURCE_TYPE_IS_LEO''),
     (MARPA_ERR_SOURCE_TYPE_IS_NONE, ''MARPA_ERR_SOURCE_TYPE_IS_NONE''),
     (MARPA_ERR_SOURCE_TYPE_IS_TOKEN, ''MARPA_ERR_SOURCE_TYPE_IS_TOKEN''),
     (MARPA_ERR_SOURCE_TYPE_IS_UNKNOWN, ''MARPA_ERR_SOURCE_TYPE_IS_UNKNOWN''),
     (MARPA_ERR_START_NOT_LHS, ''MARPA_ERR_START_NOT_LHS: Start symbol not on LHS of any rule''),
     (MARPA_ERR_SYMBOL_VALUED_CONFLICT, ''MARPA_ERR_SYMBOL_VALUED_CONFLICT: Symbol is treated both as valued and unvalued''),
     (MARPA_ERR_TERMINAL_IS_LOCKED, ''MARPA_ERR_TERMINAL_IS_LOCKED: The terminal status of the symbol is locked''),
     (MARPA_ERR_TOKEN_IS_NOT_TERMINAL, ''MARPA_ERR_TOKEN_IS_NOT_TERMINAL: Token symbol must be a terminal''),
     (MARPA_ERR_TOKEN_LENGTH_LE_ZERO, ''MARPA_ERR_TOKEN_LENGTH_LE_ZERO: Token length must greater than zero''),
     (MARPA_ERR_TOKEN_TOO_LONG, ''MARPA_ERR_TOKEN_TOO_LONG: Token is too long''),
     (MARPA_ERR_TREE_EXHAUSTED, ''MARPA_ERR_TREE_EXHAUSTED: Tree iterator is exhausted''),
     (MARPA_ERR_TREE_PAUSED, ''MARPA_ERR_TREE_PAUSED: Tree iterator is paused''),
     (MARPA_ERR_UNEXPECTED_TOKEN_ID, ''MARPA_ERR_UNEXPECTED_TOKEN_ID: Unexpected token''),
     (MARPA_ERR_UNPRODUCTIVE_START, ''MARPA_ERR_UNPRODUCTIVE_START: Unproductive start symbol''),
     (MARPA_ERR_VALUATOR_INACTIVE, ''MARPA_ERR_VALUATOR_INACTIVE: Valuator inactive''),
     (MARPA_ERR_VALUED_IS_LOCKED, ''MARPA_ERR_VALUED_IS_LOCKED: The valued status of the symbol is locked''),
     (MARPA_ERR_RANK_TOO_LOW, ''MARPA_ERR_RANK_TOO_LOW: Rule or symbol rank too low''),
     (MARPA_ERR_RANK_TOO_HIGH, ''MARPA_ERR_RANK_TOO_HIGH: Rule or symbol rank too high''),
     (MARPA_ERR_SYMBOL_IS_NULLING, ''MARPA_ERR_SYMBOL_IS_NULLING: Symbol is nulling''),
     (MARPA_ERR_SYMBOL_IS_UNUSED, ''MARPA_ERR_SYMBOL_IS_UNUSED: Symbol is not used''),
     (MARPA_ERR_NO_SUCH_RULE_ID, ''MARPA_ERR_NO_SUCH_RULE_ID: No rule with this ID exists''),
     (MARPA_ERR_NO_SUCH_SYMBOL_ID, ''MARPA_ERR_NO_SUCH_SYMBOL_ID: No symbol with this ID exists''),
     (MARPA_ERR_BEFORE_FIRST_TREE, ''MARPA_ERR_BEFORE_FIRST_TREE: Tree iterator is before first tree''),
     (MARPA_ERR_SYMBOL_IS_NOT_COMPLETION_EVENT, ''MARPA_ERR_SYMBOL_IS_NOT_COMPLETION_EVENT: Symbol is not set up for completion events''),
     (MARPA_ERR_SYMBOL_IS_NOT_NULLED_EVENT, ''MARPA_ERR_SYMBOL_IS_NOT_NULLED_EVENT: Symbol is not set up for nulled events''),
     (MARPA_ERR_SYMBOL_IS_NOT_PREDICTION_EVENT, ''MARPA_ERR_SYMBOL_IS_NOT_PREDICTION_EVENT: Symbol is not set up for prediction events''),
     (MARPA_ERR_RECCE_IS_INCONSISTENT, ''MARPA_ERR_RECCE_IS_INCONSISTENT''),
     (MARPA_ERR_INVALID_ASSERTION_ID, ''MARPA_ERR_INVALID_ASSERTION_ID: Assertion ID is malformed''),
     (MARPA_ERR_NO_SUCH_ASSERTION_ID, ''MARPA_ERR_NO_SUCH_ASSERTION_ID: No assertion with this ID exists'')]"

datatype marpaWrapperErrorOrigin =
    MARPAWRAPPERERRORORIGIN_SYSTEM
  | MARPAWRAPPERERRORORIGIN_MARPA
  | MARPAWRAPPERERRORORIGIN_NA

text \<open>\<open>os\<close> is the \<open>strerror\<close> of the C library.\<close>

definition marpaWrapper_strerror ::
  "(int \<Rightarrow> string) \<Rightarrow> marpaWrapperErrorOrigin \<Rightarrow> int \<Rightarrow> string" where
  "marpaWrapper_strerror os origin n =
     (case origin of
        MARPAWRAPPERERRORORIGIN_SYSTEM \<Rightarrow> os n
      | MARPAWRAPPERERRORORIGIN_NA \<Rightarrow> ''''
      | MARPAWRAPPERERRORORIGIN_MARPA \<Rightarrow>
          (case map_of marpa_texts n of Some s \<Rightarrow> s | None \<Rightarrow> ''Unknown Marpa error''))"

section \<open>Agreement of the tables\<close>

text \<open>The text the wrapper builds from a row of libmarpa's table.\<close>

definition described :: "int \<times> string \<times> string \<Rightarrow> string" where
  "described row = (case row of (n, name, msg) \<Rightarrow> if msg = name then name else name @ '': '' @ msg)"

lemma last_row: "last marpa_error_description
    = (98, ''MARPA_ERR_HEADERS_DO_NOT_MATCH'', ''Internal error: Libmarpa was built incorrectly'')"
  unfolding marpa_error_description_def by (simp only: last.simps if_False list.distinct list.simps if_True refl)

lemma no_text_for_98: "map_of marpa_texts 98 = None"
  unfolding marpa_texts_def by (simp only: map_of.simps fun_upd_apply fst_conv snd_conv marpa_consts num.distinct num.inject numeral_eq_iff if_False zero_neq_numeral one_eq_numeral_iff numeral_eq_one_iff numeral_neq_zero)

lemma texts_match_rows:
  "list_all2 (\<lambda>row t. fst row = fst t \<and> described row = snd t) (butlast marpa_error_description) marpa_texts"
  unfolding marpa_error_description_def marpa_texts_def
  by (simp only: butlast.simps list_all2_Cons list_all2_Nil fst_conv snd_conv described_def prod.case append.simps
    marpa_consts list.distinct list.simps if_True if_False char.inject simp_thms refl)
lemma texts_numbered: "map fst marpa_texts = [0..97]"
  unfolding marpa_texts_def
  by (simp only: list.map fst_conv marpa_consts) (simp add: upto.simps)

lemma text_of_row:
  assumes "row \<in> set (butlast marpa_error_description)"
  shows "map_of marpa_texts (fst row) = Some (described row)"
proof -
  have "distinct (map fst marpa_texts)" unfolding texts_numbered by simp
  moreover obtain i where i: "i < length (butlast marpa_error_description)"
    "row = butlast marpa_error_description ! i"
    using assms by (auto simp: in_set_conv_nth)
  then have "marpa_texts ! i \<in> set marpa_texts" "fst row = fst (marpa_texts ! i)"
    "described row = snd (marpa_texts ! i)"
    using list_all2_lengthD [OF texts_match_rows] list_all2_nthD [OF texts_match_rows] by simp_all
  ultimately show ?thesis by (metis map_of_is_SomeI prod.collapse)
qed

text \<open>C32: for every error of libmarpa's own description table but the last, \<open>_marpaWrapper_strerror\<close> gives
  the name of the code and libmarpa's description of it; the last one is unknown to it.\<close>

theorem strerror_describes:
  assumes "(n, name, msg) \<in> set marpa_error_description"
  shows "marpaWrapper_strerror os MARPAWRAPPERERRORORIGIN_MARPA n
    = (if n = MARPA_ERR_HEADERS_DO_NOT_MATCH then ''Unknown Marpa error''
       else if msg = name then name else name @ '': '' @ msg)"
proof -
  have ne: "marpa_error_description \<noteq> []" by (simp only: marpa_error_description_def list.distinct not_False_eq_True)
  have "set marpa_error_description = insert (last marpa_error_description) (set (butlast marpa_error_description))"
    using append_butlast_last_id [OF ne] by (metis Un_insert_right list.set(1,2) set_append sup_bot_right)
  with assms consider "(n, name, msg) = last marpa_error_description" | "(n, name, msg) \<in> set (butlast marpa_error_description)"
    by blast
  then show ?thesis
  proof cases
    case 1
    then have "n = 98" by (simp only: last_row prod.inject)
    then show ?thesis by (simp add: marpaWrapper_strerror_def no_text_for_98 MARPA_ERR_HEADERS_DO_NOT_MATCH_def)
  next
    case 2
    note T = text_of_row [OF this]
    then have "n \<noteq> 98" using no_text_for_98 by auto
    with T show ?thesis
      by (simp add: marpaWrapper_strerror_def described_def MARPA_ERR_HEADERS_DO_NOT_MATCH_def)
  qed
qed

theorem strerror_describes_witness:
  "marpaWrapper_strerror (\<lambda>_. '''') MARPAWRAPPERERRORORIGIN_MARPA 41 = ''MARPA_ERR_NO_PARSE: No parse''"
proof -
  have "(41, ''MARPA_ERR_NO_PARSE'', ''No parse'') \<in> set marpa_error_description"
    unfolding marpa_error_description_def by (simp only: list.set insert_iff simp_thms)
  from strerror_describes [OF this] show ?thesis by (simp add: MARPA_ERR_HEADERS_DO_NOT_MATCH_def)
qed

end
