(* ===== verification/WrapperTypes.thy ===== *)
theory WrapperTypes
  imports MarpaCodes StackLife PointerTable
begin

text \<open>
  The data of \<open>src/include/marpaWrapper.h\<close> and the structs of \<open>src/src/marpaWrapper.c\<close>, and the
  world the wrapper talks to. libmarpa (a vendored library) and the user callbacks are one
  responder: a function from a call and the state \<open>'e\<close> of the outside world to the reply and the
  next state. Every call is kept in a trace, so that properties can speak of the calls made.

  \<open>'d\<close> is the type of the user's data pointers, \<open>'v\<close> of the user's parse values. libmarpa's
  objects are numbers, 0 for \<open>NULL\<close>. A field that a function leaves uninitialised is \<open>None\<close>.
\<close>

section \<open>Published types\<close>

datatype marpaWrapperEventType =
    MARPAWRAPPER_EVENTTYPE_COMPLETED
  | MARPAWRAPPER_EVENTTYPE_NULLED
  | MARPAWRAPPER_EVENTTYPE_PREDICTED

primrec eventtype_value :: "marpaWrapperEventType \<Rightarrow> int" where
  "eventtype_value MARPAWRAPPER_EVENTTYPE_COMPLETED = 1"
| "eventtype_value MARPAWRAPPER_EVENTTYPE_NULLED = 2"
| "eventtype_value MARPAWRAPPER_EVENTTYPE_PREDICTED = 4"

text \<open>The test \<open>(set & type) == type\<close>.\<close>

definition subscribes :: "32 word \<Rightarrow> marpaWrapperEventType \<Rightarrow> bool" where
  "subscribes s t = has_flag s (word_of_int (eventtype_value t))"

definition MARPAWRAPPER_BOOL_FALSE :: int where
  "MARPAWRAPPER_BOOL_FALSE = 0"

definition MARPAWRAPPER_BOOL_TRUE :: int where
  "MARPAWRAPPER_BOOL_TRUE = 1"

definition MARPAWRAPPER_VALUECALLBACKBOOL_STOP :: int where
  "MARPAWRAPPER_VALUECALLBACKBOOL_STOP = - 1"

definition MARPAWRAPPER_VALUECALLBACKBOOL_FALSE :: int where
  "MARPAWRAPPER_VALUECALLBACKBOOL_FALSE = 0"

record marpaWrapperEvent =
  eventType :: marpaWrapperEventType
  eventSymbolp :: ptr

record 'd marpaWrapperSymbolOption =
  symbol_datavp :: "'d option"
  terminalb :: bool
  startb :: bool
  eventSeti :: "32 word"
  sizel :: nat
  firstChari :: "int option"

record 'd marpaWrapperRuleOption =
  rule_datavp :: "'d option"
  lhsSymbolp :: ptr
  nRhsSymboli :: nat
  rhsSymbolpp :: "ptr list"
  ranki :: int
  nullRanksHighb :: bool
  sequenceb :: bool
  separatorSymbolp :: ptr
  properb :: bool
  minimumi :: int

record 'e marpaWrapperOption =
  versionip :: "(int \<times> int \<times> int) option"
  option_loggerp :: "'e genericLogger option"
  eventCallbackp :: bool
  warningIsErrorb :: bool
  warningIsIgnoredb :: bool
  unsortedEventsb :: bool

record marpaWrapperProgress =
  progressEarleySetIdi :: int
  progressOrigini :: int
  progressRulep :: ptr
  positioni :: int

record marpaWrapperRecognizerOption =
  remainingDataIsOkb :: bool
  longestAcceptableTokenMatchb :: bool
  longestAcceptableTokensShareTheSameValueAndLengthb :: bool
  readerCallbackp :: bool
  isLexemebCallbackp :: bool
  lexemeValuebCallbackp :: bool

record marpaWrapperValueOption =
  highRankOnlyb :: bool
  orderByRankb :: bool
  ambiguityb :: bool
  nullb :: bool
  valueRuleCallbackp :: bool
  valueSymbolCallbackp :: bool
  valueNullingCallbackp :: bool
  valueResultCallbackp :: bool

record marpaWrapperStackOption =
  stackElementSizei :: nat
  stackElementFreeCallbackp :: bool
  stackElementCopyCallbackp :: bool

text \<open>A callback field says whether the pointer is set; what the callback does is the responder's.\<close>

section \<open>The structs of the wrapper\<close>

record 'd marpaWrapperSymbol =
  marpaSymbolIdi :: int
  symbolOption :: "'d marpaWrapperSymbolOption"
  isLexemeb :: "int option"
  lengthl :: "nat option"

record 'd marpaWrapperRule =
  marpaRuleIdi :: int
  ruleOption :: "'d marpaWrapperRuleOption"

datatype ('d, 'v) obj =
    SymbolObj "'d marpaWrapperSymbol"
  | RuleObj "'d marpaWrapperRule"
  | ProgressObj marpaWrapperProgress
  | IntsObj "int option list"
  | ValueObj 'v

record ('e, 'd) marpaWrapper =
  wrapSelfp :: ptr
  marpaGrammarp :: int
  marpaRecognizerp :: int
  genericLoggerp :: "'e genericLogger option"
  sizeMarpaWrapperSymboli :: nat
  nMarpaWrapperSymboli :: nat
  marpaWrapperSymbolpp :: ptr
  sizeMarpaWrapperRulei :: nat
  nMarpaWrapperRulei :: nat
  marpaWrapperRulepp :: ptr
  expectedMarpaSymbolIdArrayp :: ptr
  expectedMarpaWrapperSymbolArraypp :: ptr
  sizeMarpaWrapperProgressi :: nat
  nMarpaWrapperProgressi :: nat
  marpaWrapperProgresspp :: ptr
  marpaWrapperOption :: "'e marpaWrapperOption"

section \<open>The outside world\<close>

datatype grammar_call =
    Marpa_version
  | Marpa_check_version int int int
  | Marpa_c_init
  | Marpa_c_error
  | Marpa_g_new
  | Marpa_g_force_valued int
  | Marpa_g_error int
  | Marpa_g_unref int
  | Marpa_g_symbol_new int
  | Marpa_g_symbol_is_terminal_set int int int
  | Marpa_g_start_symbol_set int int
  | Marpa_g_symbol_is_completion_event_set int int int
  | Marpa_g_symbol_is_nulled_event_set int int int
  | Marpa_g_symbol_is_prediction_event_set int int int
  | Marpa_g_rule_new int int "int list" int
  | Marpa_g_sequence_new int int int int int int
  | Marpa_g_rule_rank_set int int int
  | Marpa_g_rule_null_high_set int int int
  | Marpa_g_precompute int
  | Marpa_g_event_count int
  | Marpa_g_event int nat
  | Marpa_g_highest_symbol_id int

datatype recce_call =
    Marpa_r_new int
  | Marpa_r_unref int
  | Marpa_r_start_input int
  | Marpa_r_alternative int int int int
  | Marpa_r_earleme_complete int
  | Marpa_r_terminals_expected int
  | Marpa_r_terminal_is_expected int int
  | Marpa_r_completion_symbol_activate int int int
  | Marpa_r_nulled_symbol_activate int int int
  | Marpa_r_prediction_symbol_activate int int int
  | Marpa_r_latest_earley_set int
  | Marpa_r_earleme int int
  | Marpa_r_progress_report_start int int
  | Marpa_r_progress_item int
  | Marpa_r_progress_report_finish int

datatype value_call =
    Marpa_b_new int int
  | Marpa_b_unref int
  | Marpa_o_new int
  | Marpa_o_high_rank_only_set int int
  | Marpa_o_rank int
  | Marpa_o_ambiguity_metric int
  | Marpa_o_is_null int
  | Marpa_o_unref int
  | Marpa_t_new int
  | Marpa_t_next int
  | Marpa_t_unref int
  | Marpa_v_new int
  | Marpa_v_valued_force int
  | Marpa_v_step int
  | Marpa_v_unref int

datatype ('d, 'v) user_call =
    EventCallback "marpaWrapperEvent list"
  | ReaderCallback
  | IsLexemeCallback "'d option"
  | LexemeValueCallback "'d option" int
  | ValueRuleCallback ptr "'v option list"
  | ValueSymbolCallback ptr int
  | ValueNullingCallback ptr
  | ValueResultCallback "'v option"
  | StackElementFreeCallback 'v
  | StackElementCopyCallback 'v

datatype ('d, 'v) call =
    G grammar_call
  | R recce_call
  | V value_call
  | U "('d, 'v) user_call"

text \<open>The return value, the numbers stored through out parameters, and a user value.\<close>

record 'v reply =
  ret :: int
  outs :: "int list"
  outv :: "'v option"

definition out :: "'v reply \<Rightarrow> nat \<Rightarrow> int option" where
  "out r i = (if i < length (outs r) then Some (outs r ! i) else None)"

record ('e, 'd, 'v) io =
  env :: 'e
  trace :: "(('d, 'v) call \<times> 'v reply) list"

text \<open>
  The parameters of the model: the responder, the clock and error output of the logger, the
  \<open>strerror\<close> and the \<open>qsort\<close> of the C library on the two kinds of arrays that are sorted, and which
  allocations are granted while the generic stack calls back into the wrapper.
\<close>

record ('e, 'd, 'v) world =
  respond :: "('d, 'v) call \<Rightarrow> 'e \<Rightarrow> 'v reply \<times> 'e"
  os :: "'e system"
  os_error :: "int \<Rightarrow> string"
  qsort_events :: "(marpaWrapperEvent \<Rightarrow> marpaWrapperEvent \<Rightarrow> int) \<Rightarrow> marpaWrapperEvent list \<Rightarrow> marpaWrapperEvent list"
  qsort_ptrs :: "(ptr \<Rightarrow> ptr \<Rightarrow> int) \<Rightarrow> ptr list \<Rightarrow> ptr list"
  callback_memory :: "'e \<Rightarrow> nat \<Rightarrow> bool"

type_synonym ('e, 'd, 'v) wstate = "(('d, 'v) obj, ('e, 'd, 'v) io) cstate"

definition ask ::
  "('e, 'd, 'v) world \<Rightarrow> ('d, 'v) call \<Rightarrow> ('e, 'd, 'v) io \<Rightarrow> 'v reply \<times> ('e, 'd, 'v) io" where
  "ask W k x =
     (let r = respond W k (env x) in (fst r, \<lparr>env = snd r, trace = trace x @ [(k, fst r)]\<rparr>))"

definition call ::
  "('e, 'd, 'v) world \<Rightarrow> ('d, 'v) call \<Rightarrow> ('e, 'd, 'v) wstate \<Rightarrow> 'v reply \<times> ('e, 'd, 'v) wstate" where
  "call W k c = (let a = ask W k (ext c) in (fst a, c\<lparr>ext := snd a\<rparr>))"

lemma hp_call [simp]: "hp (snd (call W k c)) = hp c"
  by (simp add: call_def Let_def)

lemma trace_call: "trace (ext (snd (call W k c))) = trace (ext c) @ [(k, fst (call W k c))]"
  by (simp add: call_def ask_def Let_def)

section \<open>Logging\<close>

definition with_env ::
  "(('o, 'e) cstate \<Rightarrow> ('o, 'e) cstate option) \<Rightarrow> ('o, ('e, 'd, 'v) io) cstate
     \<Rightarrow> ('o, ('e, 'd, 'v) io) cstate option" where
  "with_env f c =
     (case f \<lparr>hp = hp c, ext = env (ext c)\<rparr> of
        None \<Rightarrow> None
      | Some d \<Rightarrow> Some \<lparr>hp = hp d, ext = (ext c)\<lparr>env := ext d\<rparr>\<rparr>)"

definition free_message :: "str_ref \<Rightarrow> ('o, 's) cstate \<Rightarrow> ('o, 's) cstate option" where
  "free_message m c = do { h \<leftarrow> free_str m (hp c); Some (c\<lparr>hp := h\<rparr>) }"

text \<open>\<open>calls\<close> is \<open>None\<close> for a \<open>NULL\<close> pointer.\<close>

definition marpaWrapper_logExt ::
  "('e, 'd, 'v) world \<Rightarrow> ('e, 'd) marpaWrapper option \<Rightarrow> marpaWrapperErrorOrigin \<Rightarrow> int \<Rightarrow> string option
     \<Rightarrow> genericLoggerLevel \<Rightarrow> ('e, 'd, 'v) wstate \<Rightarrow> ('e, 'd, 'v) wstate option" where
  "marpaWrapper_logExt W wp origin n calls level c =
     (case wp of
        None \<Rightarrow> Some c
      | Some w \<Rightarrow>
          (let strerrors = marpaWrapper_strerror (os_error W) origin n;
               text = (if 0 < length strerrors
                       then (case calls of Some s \<Rightarrow> s @ '': '' @ strerrors | None \<Rightarrow> strerrors)
                       else (case calls of Some s \<Rightarrow> s | None \<Rightarrow> ''Unknown call''))
           in do {
             (msgs, h1) \<leftarrow> messageBuilder (Some text) (hp c);
             let c1 = c\<lparr>hp := h1\<rparr>;
             if msgs \<noteq> messageBuilder_internalErrors
             then do {
               c2 \<leftarrow> with_env (genericLogger_log (os W) (genericLoggerp w) level
                       (Some (Some (str_chars msgs)))) c1;
               free_message msgs c2
             }
             else with_env (genericLogger_log (os W) (genericLoggerp w) GENERICLOGGER_LOGLEVEL_ERROR
                    (Some (Some (str_chars msgs)))) c1
           }))"

definition marpaWrapper_logWrapper ::
  "('e, 'd, 'v) world \<Rightarrow> ('e, 'd) marpaWrapper option \<Rightarrow> marpaWrapperErrorOrigin \<Rightarrow> int \<Rightarrow> string option
     \<Rightarrow> genericLoggerLevel \<Rightarrow> ('e, 'd, 'v) wstate \<Rightarrow> ('e, 'd, 'v) wstate option" where
  "marpaWrapper_logWrapper W wp origin n calls level c =
     (if wp \<noteq> None then marpaWrapper_logExt W wp origin n calls level c else Some c)"

text \<open>\<open>fmt\<close> is \<open>None\<close> for a \<open>NULL\<close> format, otherwise the rendered text.\<close>

definition marpaWrapper_log ::
  "('e, 'd, 'v) world \<Rightarrow> ('e, 'd) marpaWrapper option \<Rightarrow> genericLoggerLevel \<Rightarrow> marpaWrapperErrorOrigin \<Rightarrow> int
     \<Rightarrow> string option \<Rightarrow> ('e, 'd, 'v) wstate \<Rightarrow> ('e, 'd, 'v) wstate option" where
  "marpaWrapper_log W wp level origin n fmt c = do {
     (msgs, h1) \<leftarrow> (case fmt of None \<Rightarrow> Some (Static Empty_message, hp c)
                              | Some s \<Rightarrow> messageBuilder_ap (Some s) (hp c));
     c2 \<leftarrow> marpaWrapper_logWrapper W wp origin n (Some (str_chars msgs)) level (c\<lparr>hp := h1\<rparr>);
     if msgs \<noteq> Static Empty_message \<and> msgs \<noteq> messageBuilder_internalErrors
     then free_message msgs c2 else Some c2
   }"

text \<open>The logging macros of the source.\<close>

definition log_error0 ::
  "('e, 'd, 'v) world \<Rightarrow> ('e, 'd) marpaWrapper \<Rightarrow> string \<Rightarrow> ('e, 'd, 'v) wstate \<Rightarrow> ('e, 'd, 'v) wstate option" where
  "log_error0 W w s =
     marpaWrapper_log W (Some w) GENERICLOGGER_LOGLEVEL_ERROR MARPAWRAPPERERRORORIGIN_NA 0 (Some s)"

definition log_level0 ::
  "('e, 'd, 'v) world \<Rightarrow> ('e, 'd) marpaWrapper \<Rightarrow> genericLoggerLevel \<Rightarrow> string \<Rightarrow> ('e, 'd, 'v) wstate
     \<Rightarrow> ('e, 'd, 'v) wstate option" where
  "log_level0 W w level s = marpaWrapper_log W (Some w) level MARPAWRAPPERERRORORIGIN_NA 0 (Some s)"

definition log_sys_error ::
  "('e, 'd, 'v) world \<Rightarrow> ('e, 'd) marpaWrapper \<Rightarrow> string \<Rightarrow> ('e, 'd, 'v) wstate \<Rightarrow> ('e, 'd, 'v) wstate option" where
  "log_sys_error W w s c =
     marpaWrapper_log W (Some w) GENERICLOGGER_LOGLEVEL_ERROR MARPAWRAPPERERRORORIGIN_SYSTEM
       (errno (hp c)) (Some s) c"

definition log_marpa_error ::
  "('e, 'd, 'v) world \<Rightarrow> ('e, 'd) marpaWrapper \<Rightarrow> int \<Rightarrow> ('e, 'd, 'v) wstate \<Rightarrow> ('e, 'd, 'v) wstate option" where
  "log_marpa_error W w n =
     marpaWrapper_log W (Some w) GENERICLOGGER_LOGLEVEL_ERROR MARPAWRAPPERERRORORIGIN_MARPA n (Some ''Marpa'')"

definition log_marpa_g_error ::
  "('e, 'd, 'v) world \<Rightarrow> ('e, 'd) marpaWrapper \<Rightarrow> ('e, 'd, 'v) wstate \<Rightarrow> ('e, 'd, 'v) wstate option" where
  "log_marpa_g_error W w c =
     (let (r, c1) = call W (G (Marpa_g_error (marpaGrammarp w))) c in log_marpa_error W w (ret r) c1)"

definition log_marpa_c_error ::
  "('e, 'd, 'v) world \<Rightarrow> ('e, 'd) marpaWrapper \<Rightarrow> ('e, 'd, 'v) wstate \<Rightarrow> ('e, 'd, 'v) wstate option" where
  "log_marpa_c_error W w c =
     (let (r, c1) = call W (G Marpa_c_error) c in log_marpa_error W w (ret r) c1)"

end
