(* ===== verification/WrapperLog.thy ===== *)
theory WrapperLog
  imports WrapperTypes
begin

text \<open>
  What logging does to the wrapper's state: nothing but the environment behind the logger changes.
  The heap ends as it was (every message buffer is freed), the trace of calls too.
\<close>

section \<open>Quiet steps\<close>

text \<open>
  A step is quiet when the blocks of the heap are unchanged. Addresses may have been used up in
  between, and allocations asked for.
\<close>

definition same_store :: "'o heap \<Rightarrow> 'o heap \<Rightarrow> bool" where
  "same_store h h' \<longleftrightarrow> store h' = store h \<and> avail h' = avail h \<and> (heap_ok h \<longrightarrow> heap_ok h')"

lemma same_store_refl [simp]: "same_store h h"
  by (simp add: same_store_def)

lemma same_store_trans: "same_store h h1 \<Longrightarrow> same_store h1 h2 \<Longrightarrow> same_store h h2"
  by (auto simp: same_store_def)

lemma same_store_refused [simp]: "same_store h (refused h)"
  by (simp add: same_store_def)

lemma same_storeD:
  assumes "same_store h h'"
  shows "store h' = store h" "avail h' = avail h" "heap_ok h \<Longrightarrow> heap_ok h'"
  using assms by (simp_all add: same_store_def)

lemma same_store_obj_at: "same_store h h' \<Longrightarrow> obj_at h' p = obj_at h p"
  by (cases p) (simp_all add: same_store_def)

lemma same_store_arr_at: "same_store h h' \<Longrightarrow> arr_at h' p = arr_at h p"
  by (cases p) (simp_all add: same_store_def)

lemma same_store_arr_get: "same_store h h' \<Longrightarrow> arr_get p i h' = arr_get p i h"
  by (simp add: arr_get_def same_store_arr_at)

definition quiet :: "(('d, 'v) obj, ('e, 'd, 'v) io) cstate \<Rightarrow> ('e, 'd, 'v) wstate \<Rightarrow> bool" where
  "quiet c c' \<longleftrightarrow> same_store (hp c) (hp c') \<and> trace (ext c') = trace (ext c)"

lemma quiet_refl [simp]: "quiet c c"
  by (simp add: quiet_def)

lemma quiet_trans: "quiet c c1 \<Longrightarrow> quiet c1 c2 \<Longrightarrow> quiet c c2"
  by (auto simp: quiet_def intro: same_store_trans)

section \<open>The logger leaves the heap alone\<close>

text \<open>A clock that can be rendered: then the default callback does not leak its date buffer.\<close>

definition sane_clock :: "'s system \<Rightarrow> bool" where
  "sane_clock sys \<longleftrightarrow>
     (\<forall>x. \<exists>d. clock sys x = Some d \<and> 0 < length d \<and> length d < DATEBUILDER_MAX_SIZE)"

lemma freed_buffer_store:
  assumes "hands_over (Static k) h m h'" "same_store h' h2"
    "(if m \<noteq> Static k then free_str m h2 else Some h2) = Some h3"
  shows "same_store h h3"
proof (cases "m = Static k")
  case True
  with assms show ?thesis by (auto simp: hands_over_def same_store_def)
next
  case False
  with assms(1) obtain a s where m: "m = Buffer (Ref a) s" "store h a = None" "store h' = (store h)(a \<mapsto> Raw)"
    "heap_ok h'" "avail h' = avail h"
    by (auto simp: hands_over_def)
  with assms(2,3) have h3: "h3 = drop_block a h2" by (auto simp: same_store_def)
  then have "store h3 = store h" using m assms(2) by (simp add: same_store_def fun_upd_idem)
  moreover have "heap_ok h3" using m assms(2) h3 by (auto simp: same_store_def heap_ok_drop_block)
  ultimately show ?thesis using m assms(2) h3 by (simp add: same_store_def)
qed

lemma messageBuilder_hands_over:
  "heap_ok h \<Longrightarrow> messageBuilder_ap r h = Some (m, h') \<Longrightarrow> hands_over messageBuilder_internalErrors h m h'"
  by (rule msg.build_law)

lemma dateBuilder_hands_over:
  assumes "heap_ok h" "t = Some d" "0 < length d" "length d < DATEBUILDER_MAX_SIZE"
  shows "hands_over dateBuilder_internalErrors h (fst (dateBuilder t h)) (snd (dateBuilder t h))"
  using assms
  by (auto simp: dateBuilder_def malloc_eq strftime_def hands_over_def dateBuilder_internalErrors_def)

lemma default_callback_store:
  assumes ok: "heap_ok (hp c)" and ck: "sane_clock sys"
    and run: "genericLogger_defaultCallback sys level msgs c = Some c'"
  shows "same_store (hp c) (hp c')"
proof -
  obtain d where d: "clock sys (ext c) = Some d" "0 < length d" "length d < DATEBUILDER_MAX_SIZE"
    using ck by (auto simp: sane_clock_def)
  define m1 where "m1 = fst (dateBuilder (clock sys (ext c)) (hp c))"
  define h1 where "h1 = snd (dateBuilder (clock sys (ext c)) (hp c))"
  have D: "hands_over dateBuilder_internalErrors (hp c) m1 h1"
    unfolding m1_def h1_def by (rule dateBuilder_hands_over [OF ok d])
  then have ok1: "heap_ok h1" by (simp add: hands_over_def)
  have db: "dateBuilder (clock sys (ext c)) (hp c) = (m1, h1)" by (simp add: m1_def h1_def)
  from run obtain m2 h2 x h3 h4 where
    r: "messageBuilder_ap (Some (default_line (str_chars m1) level msgs)) h1 = Some (m2, h2)"
    "(if m1 \<noteq> dateBuilder_internalErrors then free_str m1 h2 else Some h2) = Some h3"
    "(if m2 \<noteq> messageBuilder_internalErrors then free_str m2 h3 else Some h3) = Some h4"
    "c' = \<lparr>hp = h4, ext = x\<rparr>"
    by (auto simp: genericLogger_defaultCallback_def messageBuilder_def db run_simps)
  have M: "hands_over messageBuilder_internalErrors h1 m2 h2"
    using messageBuilder_hands_over [OF ok1 r(1)] .
  show ?thesis
  proof (cases "m1 = dateBuilder_internalErrors")
    case True
    with r(2) have "h3 = h2" by simp
    with r(3) have "(if m2 \<noteq> Static MessageBuilder_internalErrors then free_str m2 h2 else Some h2) = Some h4"
      by (simp only: messageBuilder_internalErrors_def)
    then have "same_store h1 h4"
      by (rule freed_buffer_store [OF M [unfolded messageBuilder_internalErrors_def] same_store_refl])
    moreover have "same_store (hp c) h1"
      using D True by (auto simp: hands_over_def same_store_def dateBuilder_internalErrors_def)
    ultimately show ?thesis using r(4) by (auto intro: same_store_trans)
  next
    case False
    with D obtain a s where a: "m1 = Buffer (Ref a) s" "store (hp c) a = None"
      "store h1 = (store (hp c))(a \<mapsto> Raw)" "avail h1 = avail (hp c)"
      by (auto simp: hands_over_def)
    with r(2) False have h3: "h3 = drop_block a h2" by (auto split: option.splits)
    have s2: "store h2 a = Some Raw \<and> avail h2 = avail h1 \<and> heap_ok h2"
      using M a(3) by (auto simp: hands_over_def)
    have "same_store (hp c) h4"
    proof (cases "m2 = messageBuilder_internalErrors")
      case True
      with r(3) have "h4 = h3" by simp
      with M True h3 a s2 ok show ?thesis
        by (auto simp: hands_over_def same_store_def fun_upd_idem heap_ok_drop_block messageBuilder_internalErrors_def)
    next
      case m2: False
      with M obtain b t where b: "m2 = Buffer (Ref b) t" "store h1 b = None" "store h2 = (store h1)(b \<mapsto> Raw)"
        by (auto simp: hands_over_def)
      have ba: "b \<noteq> a" using b(2) a(3) by auto
      have h4: "h4 = drop_block b h3" using r(3) m2 b by (auto split: option.splits)
      have "store h4 = store (hp c)"
        unfolding h4 h3 using a b ba by (auto simp: fun_eq_iff)
      with s2 a(4) h4 h3 show ?thesis by (auto simp: same_store_def heap_ok_drop_block)
    qed
    with r(4) show ?thesis by simp
  qed
qed

lemma genericLogger_log_store:
  assumes ok: "heap_ok (hp c)" and ck: "sane_clock sys"
    and run: "genericLogger_log sys lp level (Some r) c = Some c'"
  shows "same_store (hp c) (hp c')"
proof (cases "(case lp of None \<Rightarrow> GENERICLOGGER_LOGLEVEL_WARNING | Some l \<Rightarrow> genericLoggerLeveli l) \<le> level")
  case False
  with run show ?thesis by (simp add: genericLogger_log_def)
next
  case True
  with run obtain m h1 c2 h3 where
    b: "messageBuilder_ap r (hp c) = Some (m, h1)"
    "call_logger sys (case lp of None \<Rightarrow> None | Some l \<Rightarrow> logCallbackp l)
       (if m \<noteq> messageBuilder_internalErrors then level else GENERICLOGGER_LOGLEVEL_ERROR)
       (str_chars m) (c\<lparr>hp := h1\<rparr>) = Some c2"
    and f: "(if m \<noteq> Static Empty_message \<and> m \<noteq> messageBuilder_internalErrors
         then free_str m (hp c2) else Some (hp c2)) = Some h3" "hp c' = h3"
    by (auto simp: genericLogger_log_def run_simps)
  have M: "hands_over messageBuilder_internalErrors (hp c) m h1"
    using messageBuilder_hands_over [OF ok b(1)] .
  then have ne: "m \<noteq> Static Empty_message"
    by (auto simp: hands_over_def messageBuilder_internalErrors_def)
  have ok1: "heap_ok (hp (c\<lparr>hp := h1\<rparr>))" using M by (simp add: hands_over_def)
  have "same_store h1 (hp c2)"
  proof (cases "case lp of None \<Rightarrow> None | Some l \<Rightarrow> logCallbackp l")
    case None
    with b(2) default_callback_store [OF ok1 ck] show ?thesis by (simp add: call_logger_def)
  next
    case (Some f)
    with b(2) show ?thesis by (auto simp: call_logger_def)
  qed
  from freed_buffer_store [OF M [unfolded messageBuilder_internalErrors_def] this] f ne show ?thesis
    by (simp add: messageBuilder_internalErrors_def)
qed

lemma with_env_quiet:
  assumes "with_env (genericLogger_log sys lp level (Some r)) c = Some c'" "heap_ok (hp c)" "sane_clock sys"
  shows "same_store (hp c) (hp c') \<and> trace (ext c') = trace (ext c)"
proof -
  obtain d where d: "genericLogger_log sys lp level (Some r) \<lparr>hp = hp c, ext = env (ext c)\<rparr> = Some d"
    "c' = \<lparr>hp = hp d, ext = (ext c)\<lparr>env := ext d\<rparr>\<rparr>"
    using assms(1) by (auto simp: with_env_def split: option.splits)
  have "same_store (hp \<lparr>hp = hp c, ext = env (ext c)\<rparr>) (hp d)"
    by (rule genericLogger_log_store [OF _ assms(3) d(1)]) (simp add: assms(2))
  with d(2) show ?thesis by simp
qed

lemma logExt_quiet:
  assumes "marpaWrapper_logExt W wp origin n calls level c = Some c'" "heap_ok (hp c)" "sane_clock (os W)"
  shows "quiet c c'"
proof (cases wp)
  case None
  with assms(1) show ?thesis by (simp add: marpaWrapper_logExt_def)
next
  case (Some w)
  let ?log = "\<lambda>lv m. with_env (genericLogger_log (os W) (genericLoggerp w) lv (Some (Some (str_chars m))))"
  from assms(1) Some obtain r m h1 where b: "messageBuilder_ap r (hp c) = Some (m, h1)"
    and rest: "if m \<noteq> messageBuilder_internalErrors
      then \<exists>c2. ?log level m (c\<lparr>hp := h1\<rparr>) = Some c2 \<and> free_message m c2 = Some c'
      else ?log GENERICLOGGER_LOGLEVEL_ERROR m (c\<lparr>hp := h1\<rparr>) = Some c'"
    by (auto simp: marpaWrapper_logExt_def messageBuilder_def run_simps Let_def split: if_splits)
  have M: "hands_over (Static MessageBuilder_internalErrors) (hp c) m h1"
    using messageBuilder_hands_over [OF assms(2) b] by (simp add: messageBuilder_internalErrors_def)
  have ok1: "heap_ok (hp (c\<lparr>hp := h1\<rparr>))" using M by (simp add: hands_over_def)
  show ?thesis
  proof (cases "m = messageBuilder_internalErrors")
    case True
    with rest have "?log GENERICLOGGER_LOGLEVEL_ERROR m (c\<lparr>hp := h1\<rparr>) = Some c'" by simp
    from with_env_quiet [OF this ok1 assms(3)] freed_buffer_store [OF M] True show ?thesis
      by (simp add: quiet_def messageBuilder_internalErrors_def)
  next
    case False
    with rest obtain c2 where c2: "?log level m (c\<lparr>hp := h1\<rparr>) = Some c2" "free_message m c2 = Some c'"
      by auto
    from with_env_quiet [OF c2(1) ok1 assms(3)] have q: "same_store h1 (hp c2)" "trace (ext c2) = trace (ext c)"
      by simp_all
    from c2(2) obtain h3 where h3: "free_str m (hp c2) = Some h3" "c' = c2\<lparr>hp := h3\<rparr>"
      by (auto simp: free_message_def run_simps)
    from freed_buffer_store [OF M q(1), of h3] h3 False q(2) show ?thesis
      by (simp add: quiet_def messageBuilder_internalErrors_def)
  qed
qed

lemma log_quiet:
  assumes "marpaWrapper_log W wp level origin n (Some s) c = Some c'" "heap_ok (hp c)" "sane_clock (os W)"
  shows "quiet c c'"
proof -
  from assms(1) obtain m h1 c2 where b: "messageBuilder_ap (Some s) (hp c) = Some (m, h1)"
    and l: "marpaWrapper_logWrapper W wp origin n (Some (str_chars m)) level (c\<lparr>hp := h1\<rparr>) = Some c2"
    and f: "(if m \<noteq> Static Empty_message \<and> m \<noteq> messageBuilder_internalErrors
       then free_message m c2 else Some c2) = Some c'"
    by (auto simp: marpaWrapper_log_def run_simps)
  have M: "hands_over (Static MessageBuilder_internalErrors) (hp c) m h1"
    using messageBuilder_hands_over [OF assms(2) b] by (simp add: messageBuilder_internalErrors_def)
  then have ne: "m \<noteq> Static Empty_message" by (auto simp: hands_over_def)
  have ok1: "heap_ok (hp (c\<lparr>hp := h1\<rparr>))" using M by (simp add: hands_over_def)
  have q: "quiet (c\<lparr>hp := h1\<rparr>) c2"
    using l logExt_quiet [OF _ ok1 assms(3)] by (auto simp: marpaWrapper_logWrapper_def split: if_splits)
  then have s: "same_store h1 (hp c2)" "trace (ext c2) = trace (ext c)" by (simp_all add: quiet_def)
  obtain h3 where h3: "(if m \<noteq> Static MessageBuilder_internalErrors then free_str m (hp c2) else Some (hp c2)) = Some h3"
    "hp c' = h3" "ext c' = ext c2"
    using f ne by (auto simp: free_message_def run_simps messageBuilder_internalErrors_def split: if_splits)
  from freed_buffer_store [OF M s(1) h3(1)] s(2) h3 show ?thesis by (simp add: quiet_def)
qed

text \<open>The macros: quiet up to the one call that asks libmarpa for its error code.\<close>

definition logged :: "('e, 'd, 'v) wstate \<Rightarrow> ('e, 'd, 'v) wstate \<Rightarrow> bool" where
  "logged c c' \<longleftrightarrow> same_store (hp c) (hp c')
     \<and> (\<exists>t. trace (ext c') = trace (ext c) @ t
          \<and> list_all (\<lambda>(k, r). (\<exists>g. k = G (Marpa_g_error g)) \<or> k = G Marpa_c_error) t)"

lemma quiet_logged: "quiet c c' \<Longrightarrow> logged c c'"
  by (simp add: quiet_def logged_def)

lemma log_error0_logged:
  "log_error0 W w s c = Some c' \<Longrightarrow> heap_ok (hp c) \<Longrightarrow> sane_clock (os W) \<Longrightarrow> logged c c'"
  unfolding log_error0_def by (rule quiet_logged [OF log_quiet])

lemma log_level0_logged:
  "log_level0 W w lv s c = Some c' \<Longrightarrow> heap_ok (hp c) \<Longrightarrow> sane_clock (os W) \<Longrightarrow> logged c c'"
  unfolding log_level0_def by (rule quiet_logged [OF log_quiet])

lemma log_sys_error_logged:
  "log_sys_error W w s c = Some c' \<Longrightarrow> heap_ok (hp c) \<Longrightarrow> sane_clock (os W) \<Longrightarrow> logged c c'"
  unfolding log_sys_error_def by (rule quiet_logged [OF log_quiet])

lemma log_marpa_error_logged:
  "log_marpa_error W w n c = Some c' \<Longrightarrow> heap_ok (hp c) \<Longrightarrow> sane_clock (os W) \<Longrightarrow> logged c c'"
  unfolding log_marpa_error_def by (rule quiet_logged [OF log_quiet])

lemma log_call_logged:
  assumes "log_marpa_error W w (ret (fst (call W k c))) (snd (call W k c)) = Some c'"
    "k = G Marpa_c_error \<or> (\<exists>g. k = G (Marpa_g_error g))" "heap_ok (hp c)" "sane_clock (os W)"
  shows "logged c c'"
  using log_quiet [OF assms(1) [unfolded log_marpa_error_def]] assms(2-4)
  by (auto simp: quiet_def logged_def trace_call)

lemma log_marpa_g_error_logged:
  "log_marpa_g_error W w c = Some c' \<Longrightarrow> heap_ok (hp c) \<Longrightarrow> sane_clock (os W) \<Longrightarrow> logged c c'"
  by (rule log_call_logged [where k = "G (Marpa_g_error (marpaGrammarp w))" and w = w])
    (simp_all add: log_marpa_g_error_def split_def Let_def)

lemma log_marpa_c_error_logged:
  "log_marpa_c_error W w c = Some c' \<Longrightarrow> heap_ok (hp c) \<Longrightarrow> sane_clock (os W) \<Longrightarrow> logged c c'"
  by (rule log_call_logged [where k = "G Marpa_c_error" and w = w])
    (simp_all add: log_marpa_c_error_def split_def Let_def)

lemmas logged_macros = log_error0_logged log_level0_logged log_sys_error_logged log_marpa_error_logged
  log_marpa_g_error_logged log_marpa_c_error_logged

end
