(* ===== verification/WrapperOptions.thy ===== *)
theory WrapperOptions
  imports WrapperLog
begin

text \<open>
  The default-options helpers and the accessors of \<open>src/src/marpaWrapper.c\<close>. An option structure
  handed in by address is \<open>None\<close> for \<open>NULL\<close>; a helper returns the C result and the structure
  afterwards. A field a helper does not set keeps what the caller's memory held.
\<close>

section \<open>Defaults\<close>

definition marpaWrapper_optionDefaultb ::
  "'e marpaWrapperOption option \<Rightarrow> int \<times> 'e marpaWrapperOption option" where
  "marpaWrapper_optionDefaultb p =
     (case p of
        None \<Rightarrow> (MARPAWRAPPER_BOOL_FALSE, None)
      | Some q \<Rightarrow> (MARPAWRAPPER_BOOL_TRUE, Some (q
          \<lparr>versionip := None, option_loggerp := None, eventCallbackp := False,
           warningIsErrorb := False, warningIsIgnoredb := False, unsortedEventsb := False\<rparr>)))"

definition marpaWrapper_symbolOptionDefaultb ::
  "'d marpaWrapperSymbolOption option \<Rightarrow> int \<times> 'd marpaWrapperSymbolOption option" where
  "marpaWrapper_symbolOptionDefaultb p =
     (case p of
        None \<Rightarrow> (MARPAWRAPPER_BOOL_FALSE, None)
      | Some q \<Rightarrow> (MARPAWRAPPER_BOOL_TRUE, Some (q
          \<lparr>symbol_datavp := None, terminalb := False, startb := False, eventSeti := 0, sizel := 0\<rparr>)))"

definition marpaWrapper_valueOptionDefaultb ::
  "marpaWrapperValueOption option \<Rightarrow> int \<times> marpaWrapperValueOption option" where
  "marpaWrapper_valueOptionDefaultb p =
     (case p of
        None \<Rightarrow> (MARPAWRAPPER_BOOL_FALSE, None)
      | Some q \<Rightarrow> (MARPAWRAPPER_BOOL_TRUE, Some (q
          \<lparr>valueRuleCallbackp := False, valueSymbolCallbackp := False, valueNullingCallbackp := False,
           valueResultCallbackp := False, highRankOnlyb := True, orderByRankb := True,
           ambiguityb := True, nullb := True\<rparr>)))"

definition marpaWrapper_ruleOptionDefaultb ::
  "'d marpaWrapperRuleOption option \<Rightarrow> int \<times> 'd marpaWrapperRuleOption option" where
  "marpaWrapper_ruleOptionDefaultb p =
     (case p of
        None \<Rightarrow> (MARPAWRAPPER_BOOL_FALSE, None)
      | Some q \<Rightarrow> (MARPAWRAPPER_BOOL_TRUE, Some (q
          \<lparr>rule_datavp := None, lhsSymbolp := Null, nRhsSymboli := 0, rhsSymbolpp := [], ranki := 0,
           nullRanksHighb := False, sequenceb := False, separatorSymbolp := Null, properb := False,
           minimumi := 0\<rparr>)))"

definition marpaWrapper_stackOptionDefaultb ::
  "marpaWrapperStackOption option \<Rightarrow> int \<times> marpaWrapperStackOption option" where
  "marpaWrapper_stackOptionDefaultb p =
     (case p of
        None \<Rightarrow> (MARPAWRAPPER_BOOL_FALSE, None)
      | Some q \<Rightarrow> (MARPAWRAPPER_BOOL_TRUE, Some (q
          \<lparr>stackElementSizei := 0, stackElementFreeCallbackp := False, stackElementCopyCallbackp := False\<rparr>)))"

text \<open>Structures in fresh memory: what is not set is indeterminate.\<close>

definition default_symbolOption :: "'d marpaWrapperSymbolOption" where
  "default_symbolOption =
     (case marpaWrapper_symbolOptionDefaultb (Some
        \<lparr>symbol_datavp = None, terminalb = False, startb = False, eventSeti = 0, sizel = 0, firstChari = None\<rparr>)
      of (r, q) \<Rightarrow> the q)"

definition default_wrapperOption :: "'e marpaWrapperOption" where
  "default_wrapperOption =
     \<lparr>versionip = None, option_loggerp = None, eventCallbackp = False, warningIsErrorb = False,
      warningIsIgnoredb = False, unsortedEventsb = False\<rparr>"

definition default_valueOption :: marpaWrapperValueOption where
  "default_valueOption =
     \<lparr>highRankOnlyb = True, orderByRankb = True, ambiguityb = True, nullb = True,
      valueRuleCallbackp = False, valueSymbolCallbackp = False, valueNullingCallbackp = False,
      valueResultCallbackp = False\<rparr>"

lemma default_symbolOption_fields [simp]:
  "symbol_datavp default_symbolOption = None" "\<not> terminalb default_symbolOption"
  "\<not> startb default_symbolOption" "eventSeti default_symbolOption = 0" "sizel default_symbolOption = 0"
  "firstChari default_symbolOption = None"
  by (simp_all add: default_symbolOption_def marpaWrapper_symbolOptionDefaultb_def)

lemma default_wrapperOption_set:
  "marpaWrapper_optionDefaultb (Some q) = (MARPAWRAPPER_BOOL_TRUE, Some default_wrapperOption)"
  by (cases q) (simp add: marpaWrapper_optionDefaultb_def default_wrapperOption_def)

lemma default_valueOption_set:
  "marpaWrapper_valueOptionDefaultb (Some q) = (MARPAWRAPPER_BOOL_TRUE, Some default_valueOption)"
  by (cases q) (simp add: marpaWrapper_valueOptionDefaultb_def default_valueOption_def)

section \<open>Accessors\<close>

text \<open>The macro \<open>MARPAWRAPPER_GENERATE_GETTER_DEFINITION\<close>: the result, and what is stored.\<close>

definition getb :: "('a \<Rightarrow> 'b) \<Rightarrow> 'a option \<Rightarrow> int \<times> 'b option" where
  "getb sel p =
     (case p of None \<Rightarrow> (MARPAWRAPPER_BOOL_FALSE, None) | Some x \<Rightarrow> (MARPAWRAPPER_BOOL_TRUE, Some (sel x)))"

definition marpaWrapper_sizeMarpaWrapperSymboli_getb :: "('e, 'd) marpaWrapper option \<Rightarrow> int \<times> nat option" where
  "marpaWrapper_sizeMarpaWrapperSymboli_getb = getb sizeMarpaWrapperSymboli"

definition marpaWrapper_marpaWrapperSymbolpp_getb :: "('e, 'd) marpaWrapper option \<Rightarrow> int \<times> ptr option" where
  "marpaWrapper_marpaWrapperSymbolpp_getb = getb marpaWrapperSymbolpp"

definition marpaWrapper_sizeMarpaWrapperRulei_getb :: "('e, 'd) marpaWrapper option \<Rightarrow> int \<times> nat option" where
  "marpaWrapper_sizeMarpaWrapperRulei_getb = getb sizeMarpaWrapperRulei"

definition marpaWrapper_marpaWrapperRulepp_getb :: "('e, 'd) marpaWrapper option \<Rightarrow> int \<times> ptr option" where
  "marpaWrapper_marpaWrapperRulepp_getb = getb marpaWrapperRulepp"

definition marpaWrapper_Marpa_Grammar_getb :: "('e, 'd) marpaWrapper option \<Rightarrow> int \<times> int option" where
  "marpaWrapper_Marpa_Grammar_getb = getb marpaGrammarp"

definition marpaWrapper_Marpa_Recognizer_getb :: "('e, 'd) marpaWrapper option \<Rightarrow> int \<times> int option" where
  "marpaWrapper_Marpa_Recognizer_getb = getb marpaRecognizerp"

text \<open>Symbols and rules are blocks of the heap; a dead one has no defined result.\<close>

definition symbol_at :: "('d, 'v) obj heap \<Rightarrow> ptr \<Rightarrow> 'd marpaWrapperSymbol option" where
  "symbol_at h p = (case obj_at h p of Some (SymbolObj s) \<Rightarrow> Some s | _ \<Rightarrow> None)"

definition rule_at :: "('d, 'v) obj heap \<Rightarrow> ptr \<Rightarrow> 'd marpaWrapperRule option" where
  "rule_at h p = (case obj_at h p of Some (RuleObj r) \<Rightarrow> Some r | _ \<Rightarrow> None)"

definition progress_at :: "('d, 'v) obj heap \<Rightarrow> ptr \<Rightarrow> marpaWrapperProgress option" where
  "progress_at h p = (case obj_at h p of Some (ProgressObj r) \<Rightarrow> Some r | _ \<Rightarrow> None)"

definition marpaWrapperSymbol_datavp_getb ::
  "ptr \<Rightarrow> ('d, 'v) obj heap \<Rightarrow> (int \<times> 'd option option) option" where
  "marpaWrapperSymbol_datavp_getb p h =
     (if p = Null then Some (getb (\<lambda>_. None) (None :: unit option))
      else do { s \<leftarrow> symbol_at h p; Some (getb (\<lambda>s. symbol_datavp (symbolOption s)) (Some s)) })"

definition marpaWrapperSymbol_Marpa_Symbol_ID_getb ::
  "ptr \<Rightarrow> ('d, 'v) obj heap \<Rightarrow> (int \<times> nat option) option" where
  "marpaWrapperSymbol_Marpa_Symbol_ID_getb p h =
     (if p = Null then Some (getb (\<lambda>_. 0) (None :: unit option))
      else do { s \<leftarrow> symbol_at h p; Some (getb (\<lambda>s. int_to_uint (marpaSymbolIdi s)) (Some s)) })"

definition marpaWrapperRule_datavp_getb ::
  "ptr \<Rightarrow> ('d, 'v) obj heap \<Rightarrow> (int \<times> 'd option option) option" where
  "marpaWrapperRule_datavp_getb p h =
     (if p = Null then Some (getb (\<lambda>_. None) (None :: unit option))
      else do { r \<leftarrow> rule_at h p; Some (getb (\<lambda>r. rule_datavp (ruleOption r)) (Some r)) })"

definition marpaWrapperRule_Marpa_Rule_ID_getb ::
  "ptr \<Rightarrow> ('d, 'v) obj heap \<Rightarrow> (int \<times> nat option) option" where
  "marpaWrapperRule_Marpa_Rule_ID_getb p h =
     (if p = Null then Some (getb (\<lambda>_. 0) (None :: unit option))
      else do { r \<leftarrow> rule_at h p; Some (getb (\<lambda>r. int_to_uint (marpaRuleIdi r)) (Some r)) })"

definition marpaWrapper_genericLoggerp :: "('e, 'd) marpaWrapper option \<Rightarrow> 'e genericLogger option" where
  "marpaWrapper_genericLoggerp p = (case p of None \<Rightarrow> None | Some w \<Rightarrow> genericLoggerp w)"

lemma symbol_at_Some: "symbol_at h p = Some s \<longleftrightarrow> obj_at h p = Some (SymbolObj s)"
  by (auto simp: symbol_at_def split: option.splits obj.splits)

lemma rule_at_Some: "rule_at h p = Some r \<longleftrightarrow> obj_at h p = Some (RuleObj r)"
  by (auto simp: rule_at_def split: option.splits obj.splits)

lemma progress_at_Some: "progress_at h p = Some r \<longleftrightarrow> obj_at h p = Some (ProgressObj r)"
  by (auto simp: progress_at_def split: option.splits obj.splits)

end
