(* ===== verification/WrapperEvents.thy ===== *)
theory WrapperEvents
  imports WrapperOptions
begin

text \<open>
  Event handling of \<open>src/src/marpaWrapper.c\<close>: \<open>_marpaWrapper_event\<close> collects libmarpa's events after
  a grammar or recognizer step, turns warnings and errors into a result, and hands the events the
  user subscribed to, sorted, to the event callback.
\<close>

section \<open>Order of events\<close>

definition marpaWrapper_event_weight :: "int \<Rightarrow> int" where
  "marpaWrapper_event_weight t =
     (if t = MARPA_EVENT_SYMBOL_COMPLETED then - 1
      else if t = MARPA_EVENT_SYMBOL_NULLED then 0
      else if t = MARPA_EVENT_SYMBOL_EXPECTED \<or> t = MARPA_EVENT_SYMBOL_PREDICTED then 1
      else 0)"

definition marpaWrapper_event_cmp :: "marpaWrapperEvent \<Rightarrow> marpaWrapperEvent \<Rightarrow> int" where
  "marpaWrapper_event_cmp e1 e2 =
     (let rc1 = marpaWrapper_event_weight (eventtype_value (eventType e1));
          rc2 = marpaWrapper_event_weight (eventtype_value (eventType e2))
      in if rc1 < rc2 then - 1 else if rc1 > rc2 then 1 else 0)"

section \<open>Collecting events\<close>

fun show_nat :: "nat \<Rightarrow> string" where
  "show_nat n =
     (if n < 10 then [char_of (48 + n)] else show_nat (n div 10) @ [char_of (48 + n mod 10)])"

definition show_int :: "int \<Rightarrow> string" where
  "show_int i = (if i < 0 then ''-'' @ show_nat (nat (- i)) else show_nat (nat i))"

declare show_nat.simps [simp del]

text \<open>What the switch on the event type decides.\<close>

datatype event_action =
    Ignore
  | Subscribed marpaWrapperEventType
  | Warning string
  | Fatal string
  | Info string
  | Unsupported

definition event_action :: "int \<Rightarrow> event_action" where
  "event_action t =
     (if t = MARPA_EVENT_NONE then Ignore
      else if t = MARPA_EVENT_COUNTED_NULLABLE then Fatal ''This symbol is a counted nullable''
      else if t = MARPA_EVENT_EARLEY_ITEM_THRESHOLD then Warning ''Too many Earley items''
      else if t = MARPA_EVENT_EXHAUSTED then Info ''Recognizer is exhausted''
      else if t = MARPA_EVENT_LOOP_RULES then Warning ''Grammar contains a infinite loop''
      else if t = MARPA_EVENT_NULLING_TERMINAL then Fatal ''This symbol is a nulling terminal''
      else if t = MARPA_EVENT_SYMBOL_COMPLETED then Subscribed MARPAWRAPPER_EVENTTYPE_COMPLETED
      else if t = MARPA_EVENT_SYMBOL_NULLED then Subscribed MARPAWRAPPER_EVENTTYPE_NULLED
      else if t = MARPA_EVENT_SYMBOL_EXPECTED then Subscribed MARPAWRAPPER_EVENTTYPE_PREDICTED
      else if t = MARPA_EVENT_SYMBOL_PREDICTED then Subscribed MARPAWRAPPER_EVENTTYPE_PREDICTED
      else Unsupported)"

text \<open>
  The loop over the \<open>n\<close> events from \<open>i\<close> on. It ends with \<open>None\<close> where the function returns FALSE; the
  caller then frees the event array, as each of those returns does. Addresses are left out of the
  message texts.
\<close>

fun collect_events ::
  "('e, 'd, 'v) world \<Rightarrow> ('e, 'd) marpaWrapper \<Rightarrow> nat \<Rightarrow> nat \<Rightarrow> marpaWrapperEvent list \<Rightarrow> ('e, 'd, 'v) wstate
     \<Rightarrow> (marpaWrapperEvent list option \<times> ('e, 'd, 'v) wstate) option" where
  "collect_events W w i 0 evs c = Some (Some evs, c)"
| "collect_events W w i (Suc n) evs c =
     (let (r, c1) = call W (G (Marpa_g_event (marpaGrammarp w) i)) c in
      if ret r < 0 then do { c2 \<leftarrow> log_marpa_g_error W w c1; Some (None, c2) }
      else
        (case event_action (ret r) of
           Ignore \<Rightarrow> collect_events W w (Suc i) n evs c1
         | Subscribed ty \<Rightarrow> do {
             v \<leftarrow> out r 0;
             _ \<leftarrow> require (0 \<le> v);
             p \<leftarrow> arr_get (marpaWrapperSymbolpp w) (nat v) (hp c1);
             collect_events W w (Suc i) n (evs @ [\<lparr>eventType = ty, eventSymbolp = p\<rparr>]) c1
           }
         | Warning m \<Rightarrow>
             if warningIsErrorb (marpaWrapperOption w)
             then do { c2 \<leftarrow> log_error0 W w m c1; Some (None, c2) }
             else do {
               c2 \<leftarrow> log_level0 W w GENERICLOGGER_LOGLEVEL_WARNING m c1;
               collect_events W w (Suc i) n evs c2
             }
         | Fatal m \<Rightarrow> do { c2 \<leftarrow> log_error0 W w m c1; Some (None, c2) }
         | Info m \<Rightarrow> do { c2 \<leftarrow> log_level0 W w GENERICLOGGER_LOGLEVEL_INFO m c1; Some (None, c2) }
         | Unsupported \<Rightarrow> do {
             c2 \<leftarrow> log_level0 W w GENERICLOGGER_LOGLEVEL_NOTICE
                    (''marpa_g_event_value() returns unsupported event type '' @ show_int (ret r)) c1;
             collect_events W w (Suc i) n evs c2
           }))"

definition deliver_events ::
  "('e, 'd, 'v) world \<Rightarrow> ('e, 'd) marpaWrapper \<Rightarrow> marpaWrapperEvent list \<Rightarrow> ('e, 'd, 'v) wstate
     \<Rightarrow> ('e, 'd, 'v) wstate" where
  "deliver_events W w evs c =
     (if 0 < length evs
      then
        (let evs' = (if 1 < length evs \<and> \<not> unsortedEventsb (marpaWrapperOption w)
                     then qsort_events W marpaWrapper_event_cmp evs else evs)
         in if eventCallbackp (marpaWrapperOption w) then snd (call W (U (EventCallback evs')) c) else c)
      else c)"

definition marpaWrapper_event ::
  "('e, 'd, 'v) world \<Rightarrow> ('e, 'd) marpaWrapper \<Rightarrow> ('e, 'd, 'v) wstate \<Rightarrow> (int \<times> ('e, 'd, 'v) wstate) option" where
  "marpaWrapper_event W w c =
     (let (r, c1) = call W (G (Marpa_g_event_count (marpaGrammarp w))) c in
      if ret r < 0 then Some (MARPAWRAPPER_BOOL_TRUE, c1)
      else
        (let (p, h1) = malloc Raw (hp c1); c2 = c1\<lparr>hp := h1\<rparr> in
         if p = Null
         then do { c3 \<leftarrow> log_sys_error W w ''malloc()'' c2; Some (MARPAWRAPPER_BOOL_FALSE, c3) }
         else do {
           (res, c3) \<leftarrow> collect_events W w 0 (nat (ret r)) [] c2;
           (case res of
              None \<Rightarrow> do { h \<leftarrow> cfree p (hp c3); Some (MARPAWRAPPER_BOOL_FALSE, c3\<lparr>hp := h\<rparr>) }
            | Some evs \<Rightarrow>
                (let c4 = deliver_events W w evs c3 in
                 do { h \<leftarrow> cfree p (hp c4); Some (MARPAWRAPPER_BOOL_TRUE, c4\<lparr>hp := h\<rparr>) }))
         }))"

section \<open>What a run reports\<close>

text \<open>The calls of a state's trace after those of another.\<close>

definition calls_since ::
  "('e, 'd, 'v) wstate \<Rightarrow> ('e, 'd, 'v) wstate \<Rightarrow> (('d, 'v) call \<times> 'v reply) list \<Rightarrow> bool" where
  "calls_since c c' t \<longleftrightarrow> trace (ext c') = trace (ext c) @ t"

lemma calls_since_trans: "calls_since c c1 t \<Longrightarrow> calls_since c1 c2 u \<Longrightarrow> calls_since c c2 (t @ u)"
  by (simp add: calls_since_def)

lemma calls_since_hp [simp]: "calls_since c (c'\<lparr>hp := h\<rparr>) t = calls_since c c' t"
  by (simp add: calls_since_def)

text \<open>The subscribed event in a reply to \<open>marpa_g_event\<close>, and the events given to the callback.\<close>

definition reply_event ::
  "('e, 'd) marpaWrapper \<Rightarrow> ('d, 'v) obj heap \<Rightarrow> ('d, 'v) call \<times> 'v reply \<Rightarrow> marpaWrapperEvent option" where
  "reply_event w h kr =
     (case kr of
        (G (Marpa_g_event g i), r) \<Rightarrow>
          (case event_action (ret r) of
             Subscribed ty \<Rightarrow>
               (case out r 0 of
                  None \<Rightarrow> None
                | Some v \<Rightarrow>
                    (case arr_get (marpaWrapperSymbolpp w) (nat v) h of
                       None \<Rightarrow> None
                     | Some p \<Rightarrow> Some \<lparr>eventType = ty, eventSymbolp = p\<rparr>))
           | _ \<Rightarrow> None)
      | _ \<Rightarrow> None)"

definition subscriptions ::
  "('e, 'd) marpaWrapper \<Rightarrow> ('d, 'v) obj heap \<Rightarrow> (('d, 'v) call \<times> 'v reply) list \<Rightarrow> marpaWrapperEvent list" where
  "subscriptions w h t = List.map_filter (reply_event w h) t"

definition delivered_events :: "(('d, 'v) call \<times> 'v reply) list \<Rightarrow> marpaWrapperEvent list list" where
  "delivered_events t = List.map_filter (\<lambda>(k, r). case k of U (EventCallback evs) \<Rightarrow> Some evs | _ \<Rightarrow> None) t"

lemma map_filter_append: "List.map_filter f (xs @ ys) = List.map_filter f xs @ List.map_filter f ys"
  by (simp add: List.map_filter_def)

lemma subscriptions_append: "subscriptions w h (t @ u) = subscriptions w h t @ subscriptions w h u"
  by (simp add: subscriptions_def map_filter_append)

lemma delivered_append: "delivered_events (t @ u) = delivered_events t @ delivered_events u"
  by (simp add: delivered_events_def map_filter_append)

text \<open>Logging adds no event.\<close>

definition silent :: "(('d, 'v) call \<times> 'v reply) list \<Rightarrow> bool" where
  "silent t \<longleftrightarrow> list_all (\<lambda>(k, r). (\<exists>g. k = G (Marpa_g_error g)) \<or> k = G Marpa_c_error) t"

lemma logged_silent: "logged c c' \<Longrightarrow> \<exists>t. calls_since c c' t \<and> silent t"
  by (auto simp: logged_def calls_since_def silent_def)

lemma logged_store: "logged c c' \<Longrightarrow> same_store (hp c) (hp c')"
  by (simp add: logged_def)

lemma silent_events: "silent t \<Longrightarrow> subscriptions w h t = [] \<and> delivered_events t = []"
  by (induction t) (auto simp: silent_def subscriptions_def delivered_events_def reply_event_def)

lemma silent_delivered: "silent t \<Longrightarrow> delivered_events t = []"
  using silent_events by blast

lemma silent_subscriptions: "silent t \<Longrightarrow> subscriptions w h t = []"
  using silent_events by blast

lemma delivered_event_reply: "delivered_events [(G k, r)] = []"
  by (simp add: delivered_events_def List.map_filter_def)

lemma maybe_logged:
  assumes "c2 = c1 \<or> logged c1 c2"
  obtains s where "calls_since c1 c2 s" "silent s" "same_store (hp c1) (hp c2)"
proof (cases "c2 = c1")
  case True
  then show thesis by (intro that [of "[]"]) (simp_all add: calls_since_def silent_def)
next
  case False
  with assms have "logged c1 c2" by simp
  with logged_silent [OF this] logged_store [OF this] show thesis by (auto intro: that)
qed

lemma reply_event_store: "same_store h h' \<Longrightarrow> reply_event w h' = reply_event w h"
  by (rule ext) (simp only: reply_event_def same_store_arr_get)

lemma subscriptions_store: "same_store h h' \<Longrightarrow> subscriptions w h' = subscriptions w h"
  by (rule ext) (simp add: subscriptions_def reply_event_store)

section \<open>Runs\<close>

lemma calls_since_call: "calls_since c (snd (call W k c)) [(k, fst (call W k c))]"
  by (simp add: calls_since_def trace_call)

text \<open>The part of a run that continues after one event and possibly a log message.\<close>

lemma collect_continue:
  assumes c1: "c1 = snd (call W (G (Marpa_g_event g i)) c)" and lg: "c2 = c1 \<or> logged c1 c2"
    and rest: "same_store (hp c2) (hp c')" "calls_since c2 c' t" "delivered_events t = []"
    and res: "\<forall>x. res = Some x \<longrightarrow> x = evs' @ subscriptions w (hp c2) t"
    and evs: "evs' = evs @ subscriptions w (hp c) [(G (Marpa_g_event g i), fst (call W (G (Marpa_g_event g i)) c))]"
  shows "same_store (hp c) (hp c') \<and> (\<exists>t. calls_since c c' t \<and> delivered_events t = []
    \<and> (\<forall>x. res = Some x \<longrightarrow> x = evs @ subscriptions w (hp c) t))"
proof -
  let ?e = "(G (Marpa_g_event g i), fst (call W (G (Marpa_g_event g i)) c))"
  from lg obtain s where s: "calls_since c1 c2 s" "silent s" "same_store (hp c1) (hp c2)"
    by (rule maybe_logged)
  have st: "same_store (hp c) (hp c2)" using s(3) c1 by simp
  have "calls_since c c' ([?e] @ (s @ t))"
    using calls_since_trans [OF calls_since_call [of c W "G (Marpa_g_event g i)"]
        calls_since_trans [OF s(1) [unfolded c1] rest(2)]] .
  moreover have "delivered_events ([?e] @ (s @ t)) = []"
    using rest(3) by (simp only: delivered_append delivered_event_reply silent_delivered [OF s(2)] append_Nil)
  moreover have "\<forall>x. res = Some x \<longrightarrow> x = evs @ subscriptions w (hp c) ([?e] @ (s @ t))"
    unfolding subscriptions_append silent_subscriptions [OF s(2)]
    using res unfolding evs subscriptions_store [OF st] by simp
  ultimately show ?thesis using same_store_trans [OF st rest(1)] by blast
qed

lemma collect_stop:
  assumes c1: "c1 = snd (call W (G (Marpa_g_event g i)) c)" and lg: "logged c1 c'"
  shows "same_store (hp c) (hp c') \<and> (\<exists>t. calls_since c c' t \<and> delivered_events t = [])"
proof -
  let ?e = "(G (Marpa_g_event g i), fst (call W (G (Marpa_g_event g i)) c))"
  from lg have "c' = c1 \<or> logged c1 c'" by simp
  then obtain s where s: "calls_since c1 c' s" "silent s" "same_store (hp c1) (hp c')" by (rule maybe_logged)
  have "calls_since c c' ([?e] @ s)"
    using calls_since_trans [OF calls_since_call [of c W "G (Marpa_g_event g i)"] s(1) [unfolded c1]] .
  moreover have "delivered_events ([?e] @ s) = []"
    by (simp only: delivered_append delivered_event_reply silent_delivered [OF s(2)] append_Nil)
  ultimately show ?thesis using s(3) c1 by auto
qed

lemma collect_events_run:
  assumes "collect_events W w i n evs c = Some (res, c')" "heap_ok (hp c)" "sane_clock (os W)"
  shows "same_store (hp c) (hp c') \<and> (\<exists>t. calls_since c c' t \<and> delivered_events t = []
    \<and> (\<forall>x. res = Some x \<longrightarrow> x = evs @ subscriptions w (hp c) t))"
  using assms
proof (induction n arbitrary: i evs c)
  case 0
  then show ?case by (auto simp: calls_since_def delivered_events_def subscriptions_def List.map_filter_def)
next
  case (Suc n)
  let ?k = "G (Marpa_g_event (marpaGrammarp w) i)"
  define r c1 where "r = fst (call W ?k c)" and "c1 = snd (call W ?k c)"
  have cl: "call W ?k c = (r, c1)" by (simp add: r_def c1_def)
  have hp1: "hp c1 = hp c" by (simp add: c1_def)
  then have ok1: "heap_ok (hp c1)" using Suc.prems(2) by simp
  have stop: ?case if "logged c1 c'" "res = None"
    using collect_stop [OF c1_def that(1)] that(2) by simp
  have go: ?case if "collect_events W w (Suc i) n evs' c2 = Some (res, c')" "c2 = c1 \<or> logged c1 c2"
    "evs' = evs @ subscriptions w (hp c) [(?k, r)]" for evs' c2
  proof -
    from that(2) obtain s where "same_store (hp c1) (hp c2)" by (rule maybe_logged)
    then have "heap_ok (hp c2)" using ok1 same_storeD(3) by blast
    from Suc.IH [OF that(1) this Suc.prems(3)] obtain t where t: "same_store (hp c2) (hp c')"
      "calls_since c2 c' t" "delivered_events t = []" "\<forall>x. res = Some x \<longrightarrow> x = evs' @ subscriptions w (hp c2) t"
      by blast
    show ?thesis by (rule collect_continue [OF c1_def that(2) t that(3) [unfolded r_def]])
  qed
  have sub: "subscriptions w (hp c) [(?k, r)] =
      (case event_action (ret r) of
         Subscribed ty \<Rightarrow>
           (case out r 0 of None \<Rightarrow> []
            | Some v \<Rightarrow> (case arr_get (marpaWrapperSymbolpp w) (nat v) (hp c) of None \<Rightarrow> []
                | Some p \<Rightarrow> [\<lparr>eventType = ty, eventSymbolp = p\<rparr>]))
       | _ \<Rightarrow> [])"
    by (simp add: subscriptions_def reply_event_def List.map_filter_def split: event_action.splits option.splits)
  note lg = logged_macros [OF _ ok1 Suc.prems(3)]
  show ?case
  proof (cases "ret r < 0")
    case True
    with Suc.prems(1) cl obtain c2 where "log_marpa_g_error W w c1 = Some c2" "res = None" "c' = c2"
      by (auto simp: run_simps)
    with stop lg show ?thesis by blast
  next
    case False
    note P = Suc.prems(1) [unfolded collect_events.simps cl Let_def prod.case, simplified False if_False]
    show ?thesis
    proof (cases "event_action (ret r)")
      case Ignore
      with P sub show ?thesis by (intro go [of evs c1]) simp_all
    next
      case (Subscribed ty)
      with P obtain v p where v: "out r 0 = Some v" "arr_get (marpaWrapperSymbolpp w) (nat v) (hp c1) = Some p"
        "collect_events W w (Suc i) n (evs @ [\<lparr>eventType = ty, eventSymbolp = p\<rparr>]) c1 = Some (res, c')"
        by (auto simp: run_simps)
      then show ?thesis using sub Subscribed by (intro go [OF v(3)]) (simp_all add: c1_def)
    next
      case (Warning m)
      show ?thesis
      proof (cases "warningIsErrorb (marpaWrapperOption w)")
        case True
        with P Warning obtain c2 where "log_error0 W w m c1 = Some c2" "res = None" "c' = c2"
          by (auto simp: run_simps)
        with stop lg show ?thesis by blast
      next
        case False
        with P Warning obtain c2 where "log_level0 W w GENERICLOGGER_LOGLEVEL_WARNING m c1 = Some c2"
          "collect_events W w (Suc i) n evs c2 = Some (res, c')"
          by (auto simp: run_simps)
        with go lg sub Warning show ?thesis by fastforce
      qed
    next
      case (Fatal m)
      with P obtain c2 where "log_error0 W w m c1 = Some c2" "res = None" "c' = c2"
        by (auto simp: run_simps)
      with stop lg show ?thesis by blast
    next
      case (Info m)
      with P obtain c2 where "log_level0 W w GENERICLOGGER_LOGLEVEL_INFO m c1 = Some c2" "res = None" "c' = c2"
        by (auto simp: run_simps)
      with stop lg show ?thesis by blast
    next
      case Unsupported
      with P obtain m c2 where "log_level0 W w GENERICLOGGER_LOGLEVEL_NOTICE m c1 = Some c2"
        "collect_events W w (Suc i) n evs c2 = Some (res, c')"
        by (auto simp: run_simps)
      with go lg sub Unsupported show ?thesis by fastforce
    qed
  qed
qed

lemma arr_get_granted_raw: "heap_ok h \<Longrightarrow> arr_get p i (granted Raw h) = arr_get p i h"
  by (cases p) (auto simp: arr_get_def)

lemma reply_event_granted: "heap_ok h \<Longrightarrow> reply_event w (granted Raw h) = reply_event w h"
  by (rule ext) (simp only: reply_event_def arr_get_granted_raw)

lemma subscriptions_granted: "heap_ok h \<Longrightarrow> subscriptions w (granted Raw h) = subscriptions w h"
  by (rule ext) (simp add: subscriptions_def reply_event_granted)

text \<open>A temporary block: allocated, used, freed.\<close>

lemma temporary_block:
  assumes "heap_ok h" "same_store (granted Raw h) h1" "cfree (Ref (fresh h)) h1 = Some h2"
  shows "same_store h h2"
proof -
  have "store h (fresh h) = None" using assms(1) by simp
  with assms show ?thesis
    by (auto simp: same_store_def fun_upd_idem heap_ok_drop_block split: option.splits)
qed

definition events_given ::
  "('e, 'd, 'v) world \<Rightarrow> ('e, 'd) marpaWrapper \<Rightarrow> marpaWrapperEvent list \<Rightarrow> marpaWrapperEvent list list" where
  "events_given W w evs =
     (if evs \<noteq> [] \<and> eventCallbackp (marpaWrapperOption w)
      then [if 1 < length evs \<and> \<not> unsortedEventsb (marpaWrapperOption w)
            then qsort_events W marpaWrapper_event_cmp evs else evs]
      else [])"

lemma deliver_events_run:
  "hp (deliver_events W w evs c) = hp c
   \<and> (\<exists>t. calls_since c (deliver_events W w evs c) t \<and> delivered_events t = events_given W w evs
        \<and> subscriptions w h t = [])"
proof (cases "evs \<noteq> [] \<and> eventCallbackp (marpaWrapperOption w)")
  case False
  then show ?thesis
    by (auto simp: deliver_events_def events_given_def calls_since_def delivered_events_def subscriptions_def
        List.map_filter_def)
next
  case True
  define k :: "('a, 'b) call" where "k = U (EventCallback (if 1 < length evs \<and> \<not> unsortedEventsb (marpaWrapperOption w)
    then qsort_events W marpaWrapper_event_cmp evs else evs))"
  have "deliver_events W w evs c = snd (call W k c)"
    using True by (simp add: deliver_events_def k_def)
  moreover have "delivered_events [(k, r)] = events_given W w evs" "subscriptions w h [(k, r)] = []" for r
    using True by (simp_all add: k_def delivered_events_def events_given_def subscriptions_def reply_event_def
        List.map_filter_def)
  ultimately show ?thesis using calls_since_call [of c W k] by auto
qed

lemma event_run:
  assumes run: "marpaWrapper_event W w c = Some (rc, c')" and ok: "heap_ok (hp c)" and ck: "sane_clock (os W)"
  obtains t where "same_store (hp c) (hp c')" "calls_since c c' t" "rc = 0 \<or> rc = 1"
    "delivered_events t = (if rc = 1 then events_given W w (subscriptions w (hp c) t) else [])"
proof -
  define k r c1 where "k = G (Marpa_g_event_count (marpaGrammarp w))"
    and "r = fst (call W k c)" and "c1 = snd (call W k c)"
  have cl: "call W (G (Marpa_g_event_count (marpaGrammarp w))) c = (r, c1)" by (simp add: r_def c1_def k_def)
  have hp1: "hp c1 = hp c" by (simp add: c1_def)
  have cs1: "calls_since c c1 [(k, r)]" unfolding r_def c1_def by (rule calls_since_call)
  have none1: "subscriptions w h ((k, r) # t) = subscriptions w h t"
    "delivered_events ((k, r) # t) = delivered_events t" for h t
    by (simp_all add: k_def subscriptions_def reply_event_def delivered_events_def List.map_filter_def)
  show thesis
  proof (cases "ret r < 0")
    case True
    with run cl have "rc = 1" "c' = c1" by (simp_all add: marpaWrapper_event_def MARPAWRAPPER_BOOL_TRUE_def)
    with cs1 hp1 none1(1) [of "hp c" "[]"] none1(2) [of "[]"] show thesis
      by (intro that [of "[(k, r)]"])
        (simp_all add: events_given_def subscriptions_def delivered_events_def List.map_filter_def)
  next
    case r: False
    show thesis
    proof (cases "avail (hp c1) (asked (hp c1))")
      case False
      with run cl r obtain c3 where lg: "log_sys_error W w ''malloc()'' (c1\<lparr>hp := refused (hp c1)\<rparr>) = Some c3"
        and c3: "rc = 0" "c' = c3"
        by (auto simp: marpaWrapper_event_def malloc_eq run_simps MARPAWRAPPER_BOOL_FALSE_def)
      have "logged (c1\<lparr>hp := refused (hp c1)\<rparr>) c3"
        using logged_macros(3) [OF lg] ok hp1 ck by simp
      from logged_silent [OF this] logged_store [OF this] obtain s where
        s: "calls_since c1 c3 s" "silent s" "same_store (refused (hp c1)) (hp c3)"
        by (auto simp: calls_since_def)
      show thesis
        using c3 s(3) hp1 calls_since_trans [OF cs1 s(1)] silent_delivered [OF s(2)] none1(2)
        by (intro that [of "[(k, r)] @ s"]) (auto intro: same_store_trans [OF same_store_refused])
    next
      case True
      let ?c2 = "c1\<lparr>hp := granted Raw (hp c1)\<rparr>" and ?p = "Ref (fresh (hp c1))"
      obtain x where x: "collect_events W w 0 (nat (ret r)) [] ?c2 = Some x"
        using run cl r True
        by (cases "collect_events W w 0 (nat (ret r)) [] ?c2") (simp_all add: marpaWrapper_event_def malloc_eq)
      obtain res c3 where xe: "x = (res, c3)" by (cases x)
      note col = x [unfolded xe]
      have stop: "\<exists>h. cfree ?p (hp c3) = Some h \<and> rc = 0 \<and> c' = c3\<lparr>hp := h\<rparr>" if "res = None"
        using run cl r True col that
        by (simp add: marpaWrapper_event_def malloc_eq bind_Some_iff MARPAWRAPPER_BOOL_FALSE_def del: cfree.simps)
          blast
      have go: "\<exists>h. cfree ?p (hp (deliver_events W w evs c3)) = Some h \<and> rc = 1
          \<and> c' = (deliver_events W w evs c3)\<lparr>hp := h\<rparr>" if "res = Some evs" for evs
        using run cl r True col that
        by (simp add: marpaWrapper_event_def malloc_eq bind_Some_iff Let_def MARPAWRAPPER_BOOL_TRUE_def
            del: cfree.simps) blast
      have "heap_ok (hp ?c2)" using ok hp1 by simp
      from collect_events_run [OF col this ck] obtain t where t: "same_store (granted Raw (hp c)) (hp c3)"
        "calls_since c1 c3 t" "delivered_events t = []"
        "\<forall>x. res = Some x \<longrightarrow> x = subscriptions w (hp c) t"
        by (auto simp: hp1 subscriptions_granted [OF ok] calls_since_def)
      show thesis
      proof (cases res)
        case None
        from stop [OF None] obtain h where h: "cfree ?p (hp c3) = Some h" "rc = 0" "c' = c3\<lparr>hp := h\<rparr>"
          by blast
        show thesis
          using temporary_block [OF ok t(1), of h] h hp1 calls_since_trans [OF cs1 t(2)] none1(2) t(3)
          by (intro that [of "[(k, r)] @ t"]) simp_all
      next
        case (Some evs)
        obtain u where u: "hp (deliver_events W w evs c3) = hp c3" "calls_since c3 (deliver_events W w evs c3) u"
          "delivered_events u = events_given W w evs" "subscriptions w (hp c) u = []"
          using deliver_events_run by blast
        from go [OF Some] u(1) obtain h where h: "cfree ?p (hp c3) = Some h" "rc = 1"
          "c' = (deliver_events W w evs c3)\<lparr>hp := h\<rparr>"
          by force
        have "subscriptions w (hp c) ([(k, r)] @ (t @ u)) = evs"
          using t(4) Some u(4) none1(1) by (simp add: subscriptions_append)
        moreover have "delivered_events ([(k, r)] @ (t @ u)) = events_given W w evs"
          using none1(2) t(3) u(3) by (simp add: delivered_append)
        moreover have "calls_since c c' ([(k, r)] @ (t @ u))"
          using calls_since_trans [OF cs1 calls_since_trans [OF t(2) u(2)]] h(3) by simp
        ultimately show thesis
          using temporary_block [OF ok t(1), of h] h hp1 by (intro that [of "[(k, r)] @ (t @ u)"]) simp_all
      qed
    qed
  qed
qed

end
