(* ===== verification/Ownership.thy ===== *)
theory Ownership
  imports PointerTable
begin

text \<open>
  Ownership of blocks: a store is split into disjoint parts, one per owner. A pointer table owns its
  array and its entries; a single pointer owns the block it points to, or nothing when it is \<open>NULL\<close>.
  The wrapper's invariant is stated with these.
\<close>

section \<open>Disjoint parts\<close>

inductive joins :: "('a \<rightharpoonup> 'b) list \<Rightarrow> ('a \<rightharpoonup> 'b) \<Rightarrow> bool" where
  none: "joins [] Map.empty"
| part: "joins ss u \<Longrightarrow> dom s \<inter> dom u = {} \<Longrightarrow> joins (s # ss) (s ++ u)"

inductive_cases joins_NilE: "joins [] t"
inductive_cases joins_ConsE: "joins (s # ss) t"
inductive_simps joins_Cons: "joins (s # ss) t"

lemma joins_swap:
  assumes "joins (s # t # ss) u"
  shows "joins (t # s # ss) u"
  using assms
proof (rule joins_ConsE)
  fix v
  assume v: "u = s ++ v" "joins (t # ss) v" "dom s \<inter> dom v = {}"
  from v(2) show ?thesis
  proof (rule joins_ConsE)
    fix x
    assume x: "v = t ++ x" "joins ss x" "dom t \<inter> dom x = {}"
    have d: "dom s \<inter> dom x = {}" "dom t \<inter> dom (s ++ x) = {}" "dom s \<inter> dom t = {}"
      using v(3) x by auto
    from x(2) d(1) have "joins (s # ss) (s ++ x)" by (rule joins.part)
    then have "joins (t # s # ss) (t ++ (s ++ x))" using d(2) by (rule joins.part)
    moreover have "t ++ (s ++ x) = u"
      using v(1) x(1) map_add_comm [OF d(3)] by (metis map_add_assoc)
    ultimately show ?thesis by simp
  qed
qed

lemma joins_to_front: "joins (ss @ s # ts) u \<Longrightarrow> joins (s # ss @ ts) u"
proof (induction ss arbitrary: u)
  case Nil
  then show ?case by simp
next
  case (Cons t ss)
  from Cons.prems show ?case
    unfolding append_Cons
  proof (rule joins_ConsE)
    fix x
    assume "u = t ++ x" "joins (ss @ s # ts) x" "dom t \<inter> dom x = {}"
    with Cons.IH have "joins (t # s # ss @ ts) u" by (auto intro: joins.part)
    then show "joins (s # t # ss @ ts) u" by (rule joins_swap)
  qed
qed

lemma joins_from_front: "joins (s # ss @ ts) u \<Longrightarrow> joins (ss @ s # ts) u"
proof (induction ss arbitrary: u)
  case Nil
  then show ?case by simp
next
  case (Cons t ss)
  from Cons.prems have "joins (t # s # ss @ ts) u" unfolding append_Cons by (rule joins_swap)
  then show ?case
    unfolding append_Cons
  proof (rule joins_ConsE)
    fix x
    assume "u = t ++ x" "joins (s # ss @ ts) x" "dom t \<inter> dom x = {}"
    with Cons.IH show "joins (t # ss @ s # ts) u" by (auto intro: joins.part)
  qed
qed

text \<open>The part of one owner and the rest.\<close>

lemma joins_focus:
  assumes "joins (ss @ s # ts) u"
  obtains v where "u = s ++ v" "dom s \<inter> dom v = {}"
    "\<forall>s'. dom s' \<inter> dom v = {} \<longrightarrow> joins (ss @ s' # ts) (s' ++ v)"
  using joins_to_front [OF assms]
proof (rule joins_ConsE)
  fix x
  assume x: "u = s ++ x" "joins (ss @ ts) x" "dom s \<inter> dom x = {}"
  have "\<forall>s'. dom s' \<inter> dom x = {} \<longrightarrow> joins (ss @ s' # ts) (s' ++ x)"
    using x(2) by (auto intro: joins_from_front joins.part)
  with x show thesis using that by blast
qed

section \<open>Owners\<close>

definition table_own :: "(nat \<rightharpoonup> 'o block) \<Rightarrow> ptr \<Rightarrow> nat \<Rightarrow> 'o option list \<Rightarrow> bool" where
  "table_own s pp m xs \<longleftrightarrow> (\<exists>h. store h = s \<and> table_rep h pp m xs Map.empty)"

definition ptr_own :: "(nat \<rightharpoonup> 'o block) \<Rightarrow> ptr \<Rightarrow> ('o block \<Rightarrow> bool) \<Rightarrow> bool" where
  "ptr_own s p P \<longleftrightarrow> (p = Null \<and> s = Map.empty) \<or> (\<exists>a b. p = Ref a \<and> s = [a \<mapsto> b] \<and> P b)"

lemma ptr_own_Null [simp]: "ptr_own s Null P \<longleftrightarrow> s = Map.empty"
  by (simp add: ptr_own_def)

lemma ptr_own_Ref: "ptr_own s (Ref a) P \<longleftrightarrow> (\<exists>b. s = [a \<mapsto> b] \<and> P b)"
  by (simp add: ptr_own_def)

lemma table_own_empty: "table_own Map.empty Null 0 []"
  unfolding table_own_def
  by (rule exI [of _ "empty_heap (\<lambda>_. True)"]) (simp add: table_rep_def empty_heap_def heap_ok_def)

lemma obj_at_restrict: "p \<in> insert Null (Ref ` A) \<Longrightarrow> obj_at (h\<lparr>store := store h |` A\<rparr>) p = obj_at h p"
  by (cases p) (auto simp: restrict_map_def)

lemma obj_at_add: "dom s \<inter> dom g = {} \<Longrightarrow> store h = s ++ g \<Longrightarrow> store h0 = s \<Longrightarrow>
  obj_at h0 p \<noteq> None \<Longrightarrow> obj_at h p = obj_at h0 p"
  by (cases p) (auto simp: map_add_dom_app_simps dom_def split: option.splits block.splits)

text \<open>A table is represented on a heap when the heap is what it owns beside its frame.\<close>

lemma table_rep_split:
  assumes "table_rep h pp m xs g"
  shows "heap_ok h \<and> (\<exists>s. table_own s pp m xs \<and> dom s \<inter> dom g = {} \<and> store h = s ++ g)"
  using assms
proof (cases rule: table_rep_cases)
  case empty
  then show ?thesis using table_own_empty by (intro conjI exI [of _ Map.empty]) auto
next
  case (array b ps rest)
  note D = table_atD [OF array(2)]
  let ?B = "{b} \<union> {e. Ref e \<in> set ps}"
  let ?h = "h\<lparr>store := store h |` ?B\<rparr>"
  have E: "all_live h ps" "uniq_refs ps" "Ref b \<notin> set ps" using D(8) by (simp_all add: entries_ok_def)
  have same: "obj_at ?h p = obj_at h p" if "p \<in> set ps" for p
    using that by (intro obj_at_restrict) (cases p; auto)
  have "entries_ok ?h b ps" using E same by (auto simp: entries_ok_def all_live_def)
  moreover have "heap_ok ?h" using D(1) by (auto simp: heap_ok_def restrict_map_def)
  ultimately have T: "table_at ?h b m (length xs) ps rest" using D by (simp add: table_at_def)
  have "map (obj_at ?h) (take (length xs) ps) = map (obj_at h) (take (length xs) ps)"
    using same by (intro map_cong refl) (auto dest: in_set_takeD)
  then have X: "xs = map (obj_at ?h) (take (length xs) ps)" using array(3) by simp
  have "Map.empty = table_frame ?h b ps" by (auto simp: table_frame_def restrict_map_def fun_eq_iff)
  with T X array(1) have "table_rep ?h pp m xs Map.empty" unfolding table_rep_def by blast
  moreover have "store h = (store h |` ?B) ++ g"
    unfolding array(4) table_frame_def
    by (rule ext) (auto simp: restrict_map_def map_add_def split: option.splits)
  moreover have "dom (store h |` ?B) \<inter> dom g = {}"
    unfolding array(4) table_frame_def by (auto simp: restrict_map_def split: if_splits)
  ultimately show ?thesis using D(1) unfolding table_own_def
    by (intro conjI exI [of _ "store h |` ?B"] exI [of _ ?h]) simp_all
qed

lemma table_rep_join:
  assumes own: "table_own s pp m xs" and d: "dom s \<inter> dom g = {}" and st: "store h = s ++ g" and ok: "heap_ok h"
  shows "table_rep h pp m xs g"
proof -
  from own obtain h0 where h0: "store h0 = s" "table_rep h0 pp m xs Map.empty"
    unfolding table_own_def by blast
  from h0(2) show ?thesis
  proof (cases rule: table_rep_cases)
    case empty
    then have "store h = g" using h0(1) st by (metis empty_map_add)
    with empty(1-3) ok show ?thesis by (simp add: table_rep_def)
  next
    case (array b ps rest)
    note D = table_atD [OF array(2)]
    have E: "all_live h0 ps" "uniq_refs ps" "Ref b \<notin> set ps" using D(8) by (simp_all add: entries_ok_def)
    have same: "obj_at h p = obj_at h0 p" if "p \<in> set ps" for p
    proof (cases "p = Null")
      case False
      with that E(1) have "obj_at h0 p \<noteq> None" by (auto simp: all_live_def)
      then show ?thesis by (rule obj_at_add [OF d st h0(1)])
    qed simp
    have "store h b = Some (Arr (map Some ps @ rest))"
      using D(2) h0(1) st d by (simp add: map_add_dom_app_simps dom_def disjoint_iff)
    moreover have "entries_ok h b ps" using E same by (auto simp: entries_ok_def all_live_def)
    ultimately have T: "table_at h b m (length xs) ps rest" using D ok by (simp add: table_at_def)
    have "map (obj_at h) (take (length xs) ps) = map (obj_at h0) (take (length xs) ps)"
      using same by (intro map_cong refl) (auto dest: in_set_takeD)
    then have X: "xs = map (obj_at h) (take (length xs) ps)" using array(3) by simp
    have B: "dom s = {b} \<union> {e. Ref e \<in> set ps}"
    proof
      show "dom s \<subseteq> {b} \<union> {e. Ref e \<in> set ps}"
        using array(4) h0(1) by (auto simp: table_frame_def restrict_map_def fun_eq_iff split: if_splits)
      show "{b} \<union> {e. Ref e \<in> set ps} \<subseteq> dom s"
        using D(2) E(1) h0(1) by (force simp: all_live_def split: option.splits)
    qed
    have "g = table_frame h b ps"
      unfolding table_frame_def B [symmetric] st
      by (rule ext) (use d in \<open>auto simp: restrict_map_def map_add_def split: option.splits\<close>)
    with T X array(1) show ?thesis unfolding table_rep_def by blast
  qed
qed

section \<open>Working on one part\<close>

text \<open>A part in the middle can be taken out, changed with its rest untouched, and put back.\<close>

definition refits :: "(nat \<rightharpoonup> 'o block) list \<Rightarrow> (nat \<rightharpoonup> 'o block) list \<Rightarrow> (nat \<rightharpoonup> 'o block) \<Rightarrow> bool" where
  "refits ss ts v \<longleftrightarrow> (\<forall>s. dom s \<inter> dom v = {} \<longrightarrow> joins (ss @ s # ts) (s ++ v))"

lemma refitsD: "refits ss ts v \<Longrightarrow> dom s \<inter> dom v = {} \<Longrightarrow> joins (ss @ s # ts) (s ++ v)"
  by (simp add: refits_def)

lemma take_table:
  assumes J: "joins (ss @ s # ts) (store h)" and own: "table_own s pp m xs" and ok: "heap_ok h"
  obtains v where "table_rep h pp m xs v" "refits ss ts v"
proof -
  from J obtain v where v: "store h = s ++ v" "dom s \<inter> dom v = {}" "refits ss ts v"
    unfolding refits_def by (rule joins_focus)
  from table_rep_join [OF own v(2,1) ok] v(3) show thesis by (rule that)
qed

lemma put_table:
  assumes "table_rep h pp m xs v" "refits ss ts v"
  obtains s where "joins (ss @ s # ts) (store h)" "table_own s pp m xs" "heap_ok h"
proof -
  from table_rep_split [OF assms(1)] obtain s where s: "heap_ok h" "table_own s pp m xs"
    "dom s \<inter> dom v = {}" "store h = s ++ v"
    by blast
  from refitsD [OF assms(2) s(3)] s(4) have "joins (ss @ s # ts) (store h)" by simp
  with s(2,1) show thesis by (intro that)
qed

lemma take_ptr:
  assumes J: "joins (ss @ s # ts) (store h)" and own: "ptr_own s p P"
  obtains v where "refits ss ts v" "p = Null \<longrightarrow> store h = v"
    "\<forall>a. p = Ref a \<longrightarrow> v a = None \<and> (\<exists>b. P b \<and> store h = v(a \<mapsto> b))"
proof -
  from J obtain v where v: "store h = s ++ v" "dom s \<inter> dom v = {}" "refits ss ts v"
    unfolding refits_def by (rule joins_focus)
  show thesis
  proof (rule that [OF v(3)])
    show "p = Null \<longrightarrow> store h = v"
    proof
      assume "p = Null"
      with own have "s = Map.empty" by simp
      with v(1) show "store h = v" by (metis empty_map_add)
    qed
    show "\<forall>a. p = Ref a \<longrightarrow> v a = None \<and> (\<exists>b. P b \<and> store h = v(a \<mapsto> b))"
    proof (intro allI impI)
      fix a
      assume "p = Ref a"
      with own obtain b where b: "s = [a \<mapsto> b]" "P b" by (auto simp: ptr_own_def)
      then have va: "v a = None" using v(2) by auto
      moreover have "store h = v(a \<mapsto> b)"
        unfolding v(1) b(1) by (rule ext) (use va in \<open>auto simp: map_add_def split: option.splits\<close>)
      ultimately show "v a = None \<and> (\<exists>b. P b \<and> store h = v(a \<mapsto> b))" using b(2) by blast
    qed
  qed
qed

lemma put_ptr_Ref:
  assumes "refits ss ts v" "v a = None" "store h = v(a \<mapsto> b)" "P b"
  obtains s where "joins (ss @ s # ts) (store h)" "ptr_own s (Ref a) P"
proof (rule that [of "[a \<mapsto> b]"])
  have "[a \<mapsto> b] ++ v = v(a \<mapsto> b)"
    by (rule ext) (use assms(2) in \<open>auto simp: map_add_def split: option.splits\<close>)
  moreover have "dom [a \<mapsto> b] \<inter> dom v = {}" using assms(2) by auto
  ultimately show "joins (ss @ [a \<mapsto> b] # ts) (store h)"
    using refitsD [OF assms(1)] assms(3) by metis
  show "ptr_own [a \<mapsto> b] (Ref a) P" using assms(4) unfolding ptr_own_Ref by blast
qed

lemma put_ptr_Null:
  assumes "refits ss ts v" "store h = v"
  obtains s where "joins (ss @ s # ts) (store h)" "ptr_own s Null P"
  using refitsD [OF assms(1), of Map.empty] assms(2) by (intro that [of Map.empty]) auto

end
