(* ===== verification/WrapperReady.thy ===== *)
theory WrapperReady
  imports WrapperEvents Ownership
begin

text \<open>
  Logging always returns, for a system whose date and error texts are of bounded length and whose
  \<open>write\<close> makes progress. With this the properties of the wrapper's operations say that they return,
  and not only what holds if they do.
\<close>

section \<open>Bounded texts\<close>

definition TEXT_MAX :: nat where
  "TEXT_MAX = 1048576"

text \<open>Replies are C \<open>int\<close>s; this bounds the messages that print one.\<close>

definition int_range :: "int \<Rightarrow> bool" where
  "int_range i \<longleftrightarrow> - 2147483648 \<le> i \<and> i \<le> 2147483647"

definition ready :: "('e, 'd, 'v) world \<Rightarrow> bool" where
  "ready W \<longleftrightarrow> sane_clock (os W) \<and> writes_some (write_fd (os W))
     \<and> (\<forall>n. length (os_error W n) < TEXT_MAX) \<and> (\<forall>k x. int_range (ret (fst (respond W k x))))"

lemma ready_clock: "ready W \<Longrightarrow> sane_clock (os W)"
  by (simp add: ready_def)

lemma reply_range: "ready W \<Longrightarrow> int_range (ret (fst (call W k c)))"
  by (simp add: ready_def call_def ask_def Let_def)

lemma texts_short: "list_all (\<lambda>t. length (snd t) < 200) marpa_texts"
  unfolding marpa_texts_def by (simp only: list.pred_inject snd_conv list.size simp_thms) simp

lemma strerror_short:
  assumes "ready W"
  shows "length (marpaWrapper_strerror (os_error W) origin n) < TEXT_MAX"
proof -
  have "length s < 200" if "map_of marpa_texts n = Some s" for s
    using map_of_SomeD [OF that] texts_short by (auto simp: list_all_iff)
  then show ?thesis
    using assms by (auto simp: ready_def marpaWrapper_strerror_def TEXT_MAX_def
        split: marpaWrapperErrorOrigin.splits option.splits)
qed

lemma show_nat_length: "length (show_nat n) \<le> Suc (n div 10)"
proof (induction n rule: show_nat.induct)
  case (1 n)
  show ?case
  proof (cases "n < 10")
    case True
    then show ?thesis by (subst show_nat.simps) simp
  next
    case False
    then have "length (show_nat n) = Suc (length (show_nat (n div 10)))" by (subst show_nat.simps) simp
    also have "\<dots> \<le> Suc (Suc (n div 10 div 10))" using 1 [OF False] by simp
    also have "\<dots> \<le> Suc (n div 10)" using False by simp
    finally show ?thesis .
  qed
qed

lemma show_int_length: "int_range i \<Longrightarrow> length (show_int i) < 300000000"
proof -
  assume i: "int_range i"
  have "length (show_nat (nat \<bar>i\<bar>)) \<le> Suc (nat \<bar>i\<bar> div 10)" by (rule show_nat_length)
  also have "\<dots> \<le> Suc (2147483648 div 10)" using i by (auto simp: int_range_def intro!: div_le_mono)
  finally show ?thesis by (auto simp: show_int_def split: if_splits)
qed

section \<open>The loop around write\<close>

lemma write_all_ends:
  assumes "writes_some wr" "length s < SIZE_MOD" "b \<le> length s"
  shows "\<exists>x'. write_all wr s (int b) x = Some x'"
  using assms(3)
proof (induction "length s - b" arbitrary: b x rule: less_induct)
  case less
  show ?case
  proof (cases "b = length s")
    case True
    then have "int_to_size (int b) = length s" using assms(2) by (simp add: int_to_size_small)
    with True show ?thesis by (simp add: write_all_done)
  next
    case False
    then have b: "b < length s" using less.prems by simp
    obtain n x1 where w: "wr (drop b s) x = (n, x1)" by (cases "wr (drop b s) x")
    have n: "0 < n" "n \<le> int (length s) - int b"
      using assms(1) b unfolding writes_some_def
      by (metis w fst_conv drop_eq_Nil not_le, metis w fst_conv length_drop of_nat_diff less_imp_le drop_eq_Nil not_le)
    have "write_all wr s (int b) x = write_all wr s (int (b + nat n)) x1"
      using write_all_step [of "int b" s wr x n x1] b assms(2) w n(1) by simp
    moreover have "b + nat n \<le> length s" "length s - (b + nat n) < length s - b" using n b by linarith+
    ultimately show ?thesis using less.hyps by metis
  qed
qed

lemma default_line_length:
  "length (default_line d level m) \<le> length d + length m + 23"
  by (cases level) (simp_all add: default_line_def)

section \<open>Logging returns\<close>

lemma free_handed_over:
  assumes "hands_over (Static k) h m h'" "store h2 = store h'"
  shows "\<exists>h3. (if m \<noteq> Static k then free_str m h2 else Some h2) = Some h3"
  using assms by (auto simp: hands_over_def)

lemma default_callback_total:
  assumes ok: "heap_ok (hp c)" and ck: "sane_clock sys" and wr: "writes_some (write_fd sys)"
    and len: "length msgs < 2000000000"
  shows "\<exists>c'. genericLogger_defaultCallback sys level msgs c = Some c'"
proof -
  obtain d where d: "clock sys (ext c) = Some d" "0 < length d" "length d < DATEBUILDER_MAX_SIZE"
    using ck by (auto simp: sane_clock_def)
  define m1 where "m1 = fst (dateBuilder (clock sys (ext c)) (hp c))"
  define h1 where "h1 = snd (dateBuilder (clock sys (ext c)) (hp c))"
  have D: "hands_over dateBuilder_internalErrors (hp c) m1 h1"
    unfolding m1_def h1_def by (rule dateBuilder_hands_over [OF ok d])
  have db: "dateBuilder (clock sys (ext c)) (hp c) = (m1, h1)" by (simp add: m1_def h1_def)
  have ok1: "heap_ok h1" using D by (simp add: hands_over_def)
  have "length (str_chars m1) < 1100"
    using d db by (auto simp: dateBuilder_def malloc_eq strftime_def DATEBUILDER_MAX_SIZE_def
        dateBuilder_internalErrors_def split: if_splits)
  then have l: "length (default_line (str_chars m1) level msgs) < INT_LIMIT"
    using default_line_length [of "str_chars m1" level msgs] len by (simp add: INT_LIMIT_def)
  then have "\<forall>s. Some (default_line (str_chars m1) level msgs) = Some s \<longrightarrow> length s \<noteq> INT_LIMIT" by auto
  with ok1 obtain m2 h2 where
    b: "messageBuilder_ap (Some (default_line (str_chars m1) level msgs)) h1 = Some (m2, h2)"
    and bt: "built (Some (default_line (str_chars m1) level msgs)) m2"
    and M: "hands_over messageBuilder_internalErrors h1 m2 h2"
    by (rule messageBuilder_run)
  have "length (str_chars m2) < SIZE_MOD"
    using bt l by (auto simp: built_def SIZE_MOD_def INT_LIMIT_def messageBuilder_internalErrors_def)
  from write_all_ends [OF wr this, of 0] obtain x where
    x: "write_all (write_fd sys) (str_chars m2) 0 (ext c) = Some x"
    by auto
  obtain h3 where h3: "(if m1 \<noteq> dateBuilder_internalErrors then free_str m1 h2 else Some h2) = Some h3"
    "m2 \<noteq> messageBuilder_internalErrors \<longrightarrow> (\<exists>h4. free_str m2 h3 = Some h4)"
  proof (cases "m1 = dateBuilder_internalErrors")
    case True
    with M show thesis by (intro that [of h2]) (auto simp: hands_over_def)
  next
    case False
    with D obtain a s where a: "m1 = Buffer (Ref a) s" "store h1 a = Some Raw"
      by (auto simp: hands_over_def)
    have "store h2 a = Some Raw" using M a(2) by (auto simp: hands_over_def)
    moreover have "m2 \<noteq> messageBuilder_internalErrors \<longrightarrow> (\<exists>b t. m2 = Buffer (Ref b) t \<and> b \<noteq> a \<and> store h2 b = Some Raw)"
      using M a(2) by (auto simp: hands_over_def)
    ultimately show thesis using False a(1) by (intro that [of "drop_block a h2"]) auto
  qed
  show ?thesis
    using b x h3 by (auto simp: genericLogger_defaultCallback_def messageBuilder_def db)
qed

lemma genericLogger_log_total:
  assumes ok: "heap_ok (hp c)" and ck: "sane_clock sys" and wr: "writes_some (write_fd sys)"
    and len: "length s < 2000000000"
  shows "\<exists>c'. genericLogger_log sys lp level (Some (Some s)) c = Some c'"
proof (cases "(case lp of None \<Rightarrow> GENERICLOGGER_LOGLEVEL_WARNING | Some l \<Rightarrow> genericLoggerLeveli l) \<le> level")
  case False
  then show ?thesis by (simp add: genericLogger_log_def)
next
  case True
  have "\<forall>t. Some s = Some t \<longrightarrow> length t \<noteq> INT_LIMIT" using len by (auto simp: INT_LIMIT_def)
  with ok obtain m h1 where b: "messageBuilder_ap (Some s) (hp c) = Some (m, h1)" "built (Some s) m"
    and M: "hands_over messageBuilder_internalErrors (hp c) m h1"
    by (rule messageBuilder_run)
  have ne: "m \<noteq> Static Empty_message" using b(2) by (auto simp: built_def messageBuilder_internalErrors_def)
  have ok1: "heap_ok (hp (c\<lparr>hp := h1\<rparr>))" using M by (simp add: hands_over_def)
  let ?lv = "if m \<noteq> messageBuilder_internalErrors then level else GENERICLOGGER_LOGLEVEL_ERROR"
  let ?cb = "case lp of None \<Rightarrow> None | Some l \<Rightarrow> logCallbackp l"
  have lm: "length (str_chars m) < 2000000000"
    using b(2) len by (auto simp: built_def messageBuilder_internalErrors_def)
  have "\<exists>c2. call_logger sys ?cb ?lv (str_chars m) (c\<lparr>hp := h1\<rparr>) = Some c2 \<and> same_store h1 (hp c2)"
  proof (cases ?cb)
    case None
    from default_callback_total [OF ok1 ck wr lm, of ?lv] obtain c2 where
      c2: "genericLogger_defaultCallback sys ?lv (str_chars m) (c\<lparr>hp := h1\<rparr>) = Some c2" by blast
    from default_callback_store [OF ok1 ck c2] c2 None show ?thesis by (simp add: call_logger_def)
  next
    case (Some f)
    then show ?thesis by (simp add: call_logger_def)
  qed
  then obtain c2 where c2: "call_logger sys ?cb ?lv (str_chars m) (c\<lparr>hp := h1\<rparr>) = Some c2" "same_store h1 (hp c2)"
    by blast
  from free_handed_over [OF M [unfolded messageBuilder_internalErrors_def], of "hp c2"] c2(2) obtain h3 where
    "(if m \<noteq> messageBuilder_internalErrors then free_str m (hp c2) else Some (hp c2)) = Some h3"
    by (auto simp: same_store_def messageBuilder_internalErrors_def)
  with True b(1) c2(1) ne show ?thesis by (simp add: genericLogger_log_def)
qed

lemma logExt_total:
  assumes ok: "heap_ok (hp c)" and r: "ready W" and len: "\<forall>s. calls = Some s \<longrightarrow> length s < 1000000000"
  shows "\<exists>c'. marpaWrapper_logExt W (Some w) origin n calls level c = Some c'"
proof -
  define full where "full = (if 0 < length (marpaWrapper_strerror (os_error W) origin n)
    then (case calls of Some s \<Rightarrow> s @ '': '' @ marpaWrapper_strerror (os_error W) origin n
                     | None \<Rightarrow> marpaWrapper_strerror (os_error W) origin n)
    else (case calls of Some s \<Rightarrow> s | None \<Rightarrow> ''Unknown call''))"
  have lt: "length full < 2000000000"
    using strerror_short [OF r, of origin n] len by (auto simp: full_def TEXT_MAX_def split: option.splits)
  have "\<forall>s. Some full = Some s \<longrightarrow> length s \<noteq> INT_LIMIT" using lt by (auto simp: INT_LIMIT_def)
  with ok obtain m h1 where b: "messageBuilder_ap (Some full) (hp c) = Some (m, h1)" "built (Some full) m"
    and M: "hands_over messageBuilder_internalErrors (hp c) m h1"
    by (rule messageBuilder_run)
  have ok1: "heap_ok (hp \<lparr>hp = h1, ext = env (ext c)\<rparr>)" using M by (simp add: hands_over_def)
  have lm: "length (str_chars m) < 2000000000"
    using b(2) lt by (auto simp: built_def messageBuilder_internalErrors_def)
  let ?lv = "if m \<noteq> messageBuilder_internalErrors then level else GENERICLOGGER_LOGLEVEL_ERROR"
  from r have ck: "sane_clock (os W)" "writes_some (write_fd (os W))" by (simp_all add: ready_def)
  from genericLogger_log_total [OF ok1 ck lm, of "genericLoggerp w" ?lv] obtain d where
    d: "genericLogger_log (os W) (genericLoggerp w) ?lv (Some (Some (str_chars m))) \<lparr>hp = h1, ext = env (ext c)\<rparr> = Some d"
    by blast
  from genericLogger_log_store [OF ok1 ck(1) d] have "store (hp d) = store h1" by (simp add: same_store_def)
  from free_handed_over [OF M [unfolded messageBuilder_internalErrors_def] this] obtain h3 where
    h3: "(if m \<noteq> Static MessageBuilder_internalErrors then free_str m (hp d) else Some (hp d)) = Some h3"
    by blast
  have "marpaWrapper_logExt W (Some w) origin n calls level c =
      (let c1 = c\<lparr>hp := h1\<rparr> in
       if m \<noteq> messageBuilder_internalErrors
       then do {
         c2 \<leftarrow> with_env (genericLogger_log (os W) (genericLoggerp w) level (Some (Some (str_chars m)))) c1;
         free_message m c2
       }
       else with_env (genericLogger_log (os W) (genericLoggerp w) GENERICLOGGER_LOGLEVEL_ERROR
          (Some (Some (str_chars m)))) c1)"
    unfolding marpaWrapper_logExt_def option.case Let_def full_def [symmetric]
    by (simp only: messageBuilder_def b(1) bind.bind_lunit prod.case)
  with d h3 show ?thesis
    by (cases "m = messageBuilder_internalErrors")
      (simp_all add: with_env_def Let_def free_message_def messageBuilder_internalErrors_def)
qed

lemma log_total:
  assumes ok: "heap_ok (hp c)" and r: "ready W" and len: "length s < 1000000000"
  shows "\<exists>c'. marpaWrapper_log W (Some w) level origin n (Some s) c = Some c'"
proof -
  have "\<forall>t. Some s = Some t \<longrightarrow> length t \<noteq> INT_LIMIT" using len by (auto simp: INT_LIMIT_def)
  with ok obtain m h1 where b: "messageBuilder_ap (Some s) (hp c) = Some (m, h1)" "built (Some s) m"
    and M: "hands_over messageBuilder_internalErrors (hp c) m h1"
    by (rule messageBuilder_run)
  have ne: "m \<noteq> Static Empty_message" using b(2) by (auto simp: built_def messageBuilder_internalErrors_def)
  have ok1: "heap_ok (hp (c\<lparr>hp := h1\<rparr>))" using M by (simp add: hands_over_def)
  have lm: "\<forall>t. Some (str_chars m) = Some t \<longrightarrow> length t < 1000000000"
    using b(2) len by (auto simp: built_def messageBuilder_internalErrors_def)
  from logExt_total [OF ok1 r lm, of w origin n level] obtain c2 where
    c2: "marpaWrapper_logExt W (Some w) origin n (Some (str_chars m)) level (c\<lparr>hp := h1\<rparr>) = Some c2"
    by blast
  from logExt_quiet [OF c2 ok1 ready_clock [OF r]] have "store (hp c2) = store h1"
    by (simp add: quiet_def same_store_def)
  from free_handed_over [OF M [unfolded messageBuilder_internalErrors_def] this] obtain h3 where
    "(if m \<noteq> Static MessageBuilder_internalErrors then free_str m (hp c2) else Some (hp c2)) = Some h3"
    by blast
  with b(1) c2 ne show ?thesis
    by (auto simp: marpaWrapper_log_def marpaWrapper_logWrapper_def free_message_def
        messageBuilder_internalErrors_def split: if_splits)
qed

text \<open>The macros return, and are quiet up to the question for the error code.\<close>

definition logs :: "(('e, 'd, 'v) wstate \<Rightarrow> ('e, 'd, 'v) wstate option) \<Rightarrow> ('e, 'd, 'v) wstate \<Rightarrow> bool" where
  "logs f c \<longleftrightarrow> (\<exists>c'. f c = Some c' \<and> logged c c')"

lemma log_error0_logs: "ready W \<Longrightarrow> heap_ok (hp c) \<Longrightarrow> length s < 1000000000 \<Longrightarrow> logs (log_error0 W w s) c"
  using log_total [of c W s] log_error0_logged ready_clock unfolding logs_def log_error0_def by blast

lemma log_level0_logs: "ready W \<Longrightarrow> heap_ok (hp c) \<Longrightarrow> length s < 1000000000 \<Longrightarrow> logs (log_level0 W w lv s) c"
  using log_total [of c W s] log_level0_logged ready_clock unfolding logs_def log_level0_def by blast

lemma log_sys_error_logs: "ready W \<Longrightarrow> heap_ok (hp c) \<Longrightarrow> length s < 1000000000 \<Longrightarrow> logs (log_sys_error W w s) c"
  using log_total [of c W s] log_sys_error_logged ready_clock unfolding logs_def log_sys_error_def by blast

lemma log_marpa_error_logs: "ready W \<Longrightarrow> heap_ok (hp c) \<Longrightarrow> logs (log_marpa_error W w n) c"
  using log_total [of c W "''Marpa''"] log_marpa_error_logged ready_clock
  unfolding logs_def log_marpa_error_def by fastforce

lemma log_marpa_g_error_logs:
  assumes "ready W" "heap_ok (hp c)"
  shows "logs (log_marpa_g_error W w) c"
proof -
  let ?k = "G (Marpa_g_error (marpaGrammarp w))"
  have "heap_ok (hp (snd (call W ?k c)))" using assms(2) by simp
  from log_marpa_error_logs [OF assms(1) this] obtain c' where "log_marpa_g_error W w c = Some c'"
    by (auto simp: logs_def log_marpa_g_error_def split_def Let_def)
  with log_marpa_g_error_logged [OF this assms(2) ready_clock [OF assms(1)]] show ?thesis
    by (auto simp: logs_def)
qed

lemma log_marpa_c_error_logs:
  assumes "ready W" "heap_ok (hp c)"
  shows "logs (log_marpa_c_error W w) c"
proof -
  have "heap_ok (hp (snd (call W (G Marpa_c_error) c)))" using assms(2) by simp
  from log_marpa_error_logs [OF assms(1) this] obtain c' where "log_marpa_c_error W w c = Some c'"
    by (auto simp: logs_def log_marpa_c_error_def split_def Let_def)
  with log_marpa_c_error_logged [OF this assms(2) ready_clock [OF assms(1)]] show ?thesis
    by (auto simp: logs_def)
qed

lemmas macros_log = log_error0_logs log_level0_logs log_sys_error_logs log_marpa_error_logs
  log_marpa_g_error_logs log_marpa_c_error_logs

end
