(* ===== verification/WrapperState.thy ===== *)
theory WrapperState
  imports WrapperReady
begin

text \<open>
  What the operations of the wrapper share: the pattern of a libmarpa call that is logged when it
  fails, the record of the calls an operation made, and the invariant that says what a wrapper owns.
\<close>

section \<open>Calls made\<close>

definition error_query :: "('d, 'v) call \<Rightarrow> bool" where
  "error_query k = (case k of G (Marpa_g_error g) \<Rightarrow> True | G Marpa_c_error \<Rightarrow> True | _ \<Rightarrow> False)"

text \<open>The calls between two states with their replies, without the questions for error codes.\<close>

definition made ::
  "('e, 'd, 'v) wstate \<Rightarrow> ('e, 'd, 'v) wstate \<Rightarrow> (('d, 'v) call \<times> 'v reply) list \<Rightarrow> bool" where
  "made c c' ks \<longleftrightarrow> (\<exists>t. calls_since c c' t \<and> filter (\<lambda>(k, r). \<not> error_query k) t = ks)"

lemma made_refl [simp]: "made c c []"
  by (auto simp: made_def calls_since_def)

lemma made_hp [simp]: "made c (c'\<lparr>hp := h\<rparr>) ks = made c c' ks" "made (c\<lparr>hp := h\<rparr>) c' ks = made c c' ks"
  by (simp_all add: made_def calls_since_def)

lemma made_trans: "made c c1 ks \<Longrightarrow> made c1 c2 ls \<Longrightarrow> made c c2 (ks @ ls)"
  unfolding made_def by (metis calls_since_trans filter_append)

lemma made_unique: "made c c' ks \<Longrightarrow> made c c' ls \<Longrightarrow> ks = ls"
  by (auto simp: made_def calls_since_def)

lemma made_call: "\<not> error_query k \<Longrightarrow> made c (snd (call W k c)) [(k, fst (call W k c))]"
  unfolding made_def using calls_since_call by fastforce

lemma made_query: "error_query k \<Longrightarrow> made c (snd (call W k c)) []"
  unfolding made_def using calls_since_call by fastforce

lemma made_logged:
  assumes "logged c c'"
  shows "made c c' []"
proof -
  from logged_silent [OF assms] obtain t where t: "calls_since c c' t" "silent t" by blast
  from t(2) have "filter (\<lambda>(k, r). \<not> error_query k) t = []"
    by (induction t) (auto simp: silent_def error_query_def)
  with t(1) show ?thesis unfolding made_def by blast
qed

text \<open>An operation that changes no block and makes the calls \<open>ks\<close>.\<close>

definition steps ::
  "('e, 'd, 'v) wstate \<Rightarrow> ('e, 'd, 'v) wstate \<Rightarrow> (('d, 'v) call \<times> 'v reply) list \<Rightarrow> bool" where
  "steps c c' ks \<longleftrightarrow> same_store (hp c) (hp c') \<and> made c c' ks"

lemma steps_refl [simp]: "steps c c []"
  by (simp add: steps_def)

lemma steps_trans: "steps c c1 ks \<Longrightarrow> steps c1 c2 ls \<Longrightarrow> steps c c2 (ks @ ls)"
  unfolding steps_def by (meson made_trans same_store_trans)

lemma steps_call: "\<not> error_query k \<Longrightarrow> steps c (snd (call W k c)) [(k, fst (call W k c))]"
  by (simp add: steps_def made_call)

lemma steps_logged: "logged c c' \<Longrightarrow> steps c c' []"
  by (simp add: steps_def made_logged logged_store)

lemma steps_call_logged:
  assumes "\<not> error_query k" "logged (snd (call W k c)) c'"
  shows "steps c c' [(k, fst (call W k c))]"
  using steps_trans [OF steps_call [OF assms(1)] steps_logged [OF assms(2)]] by simp

lemma steps_heap_ok: "steps c c' ks \<Longrightarrow> heap_ok (hp c) \<Longrightarrow> heap_ok (hp c')"
  by (simp add: steps_def same_store_def)

section \<open>Checked calls\<close>

text \<open>A call of libmarpa whose failure is logged with \<open>MARPAWRAPPER_LOG_MARPA_G_ERROR\<close>.\<close>

definition checked ::
  "('e, 'd, 'v) world \<Rightarrow> ('e, 'd) marpaWrapper \<Rightarrow> ('d, 'v) call \<Rightarrow> (int \<Rightarrow> bool) \<Rightarrow> ('e, 'd, 'v) wstate
     \<Rightarrow> ('v reply option \<times> ('e, 'd, 'v) wstate) option" where
  "checked W w k good c =
     (let (r, c1) = call W k c in
      if good (ret r) then Some (Some r, c1)
      else do { c2 \<leftarrow> log_marpa_g_error W w c1; Some (None, c2) })"

text \<open>Calls that are made where an option asks for them, up to the first that fails.\<close>

fun apply_settings ::
  "('e, 'd, 'v) world \<Rightarrow> ('e, 'd) marpaWrapper \<Rightarrow> (bool \<times> ('d, 'v) call \<times> (int \<Rightarrow> bool)) list
     \<Rightarrow> ('e, 'd, 'v) wstate \<Rightarrow> (bool \<times> ('e, 'd, 'v) wstate) option" where
  "apply_settings W w [] c = Some (True, c)"
| "apply_settings W w ((wanted, k, good) # ss) c =
     (if wanted
      then do {
        (r, c1) \<leftarrow> checked W w k good c;
        if r = None then Some (False, c1) else apply_settings W w ss c1
      }
      else apply_settings W w ss c)"

lemma checked_good:
  "good (ret (fst (call W k c))) \<Longrightarrow> checked W w k good c = Some (Some (fst (call W k c)), snd (call W k c))"
  by (simp add: checked_def split_def Let_def)

lemma checked_bad:
  assumes "ready W" "heap_ok (hp c)" "\<not> good (ret (fst (call W k c)))"
  obtains c' where "checked W w k good c = Some (None, c')" "logged (snd (call W k c)) c'"
proof -
  have "heap_ok (hp (snd (call W k c)))" using assms(2) by simp
  from log_marpa_g_error_logs [OF assms(1) this, of w] obtain c' where
    "log_marpa_g_error W w (snd (call W k c)) = Some c'" "logged (snd (call W k c)) c'"
    by (auto simp: logs_def)
  with assms(3) show thesis by (intro that [of c']) (simp_all add: checked_def split_def Let_def)
qed

lemma checked_run:
  assumes "ready W" "heap_ok (hp c)" "\<not> error_query k"
  obtains r c' where "checked W w k good c = Some (if good (ret r) then Some r else None, c')"
    "r = fst (call W k c)" "steps c c' [(k, r)]" "good (ret r) \<longrightarrow> hp c' = hp c"
proof (cases "good (ret (fst (call W k c)))")
  case True
  then show thesis
    by (intro that [of "fst (call W k c)" "snd (call W k c)"])
      (simp_all add: checked_good steps_call [OF assms(3)])
next
  case False
  from checked_bad [where good = good, OF assms(1,2) False] obtain c' where
    "checked W w k good c = Some (None, c')" "logged (snd (call W k c)) c'" .
  with False steps_call_logged [OF assms(3)] show thesis
    by (intro that [of "fst (call W k c)" c']) auto
qed

text \<open>
  Settings in specification form: the calls made are those asked for, in order, all answered well
  but the last, which is answered badly exactly when the result is FALSE.
\<close>

definition asked_for :: "(bool \<times> 'k \<times> (int \<Rightarrow> bool)) list \<Rightarrow> ('k \<times> (int \<Rightarrow> bool)) list" where
  "asked_for ss = map snd (filter fst ss)"

fun answered :: "('k \<times> (int \<Rightarrow> bool)) list \<Rightarrow> bool \<Rightarrow> ('k \<times> 'v reply) list \<Rightarrow> bool" where
  "answered [] b ks \<longleftrightarrow> b \<and> ks = []"
| "answered ((k, good) # ss) b ks \<longleftrightarrow>
     (\<exists>r ls. ks = (k, r) # ls \<and> (if good (ret r) then answered ss b ls else \<not> b \<and> ls = []))"

lemma asked_for_simps [simp]:
  "asked_for [] = []"
  "asked_for ((wanted, k, good) # ss) = (if wanted then (k, good) # asked_for ss else asked_for ss)"
  by (simp_all add: asked_for_def)

lemma answered_all: "answered ss True ks \<Longrightarrow> map fst ks = map fst ss"
  by (induction ss "True" ks rule: answered.induct) (auto split: if_splits)

lemma settings_run:
  assumes "ready W" "heap_ok (hp c)" "\<forall>s \<in> set ss. \<not> error_query (fst (snd s))"
  shows "\<exists>b c' ks. apply_settings W w ss c = Some (b, c') \<and> steps c c' ks \<and> answered (asked_for ss) b ks"
  using assms(2,3)
proof (induction ss arbitrary: c)
  case Nil
  then show ?case by (intro exI [of _ True] exI [of _ c] exI [of _ "[]"]) simp
next
  case (Cons s ss)
  obtain wanted k good where s: "s = (wanted, k, good)" by (cases s)
  show ?case
  proof (cases wanted)
    case False
    with Cons s show ?thesis by simp
  next
    case True
    from Cons.prems(2) s have nq: "\<not> error_query k" by simp
    from assms(1) Cons.prems(1) nq obtain r c1 where
      r: "checked W w k good c = Some (if good (ret r) then Some r else None, c1)" "steps c c1 [(k, r)]"
      by (rule checked_run)
    show ?thesis
    proof (cases "good (ret r)")
      case good: True
      have "heap_ok (hp c1)" using steps_heap_ok [OF r(2) Cons.prems(1)] .
      from Cons.IH [OF this] Cons.prems(2) obtain b c' ks where
        "apply_settings W w ss c1 = Some (b, c')" "steps c1 c' ks" "answered (asked_for ss) b ks"
        by auto
      with r good True s steps_trans [OF r(2)] show ?thesis by fastforce
    next
      case False
      with r True s show ?thesis by fastforce
    qed
  qed
qed

section \<open>What a wrapper owns\<close>

text \<open>
  A wrapper owns its own block, the tables of its symbols, rules and progress reports, and the two
  arrays for expected terminals. \<open>syms\<close>, \<open>rules\<close> and \<open>progs\<close> are the entries of the tables, \<open>g\<close> is
  what the wrapper does not own.
\<close>

definition wrapper_rep ::
  "('e, 'd) marpaWrapper \<Rightarrow> ('d, 'v) obj heap \<Rightarrow> ('d, 'v) obj option list \<Rightarrow> ('d, 'v) obj option list
     \<Rightarrow> ('d, 'v) obj option list \<Rightarrow> (nat \<rightharpoonup> ('d, 'v) obj block) \<Rightarrow> bool" where
  "wrapper_rep w h syms rules progs g \<longleftrightarrow> heap_ok h
     \<and> nMarpaWrapperSymboli w = length syms \<and> nMarpaWrapperRulei w = length rules
     \<and> nMarpaWrapperProgressi w = length progs \<and> wrapSelfp w \<noteq> Null
     \<and> (\<exists>s1 s2 s3 s4 s5 s6.
          table_own s1 (marpaWrapperSymbolpp w) (sizeMarpaWrapperSymboli w) syms
        \<and> table_own s2 (marpaWrapperRulepp w) (sizeMarpaWrapperRulei w) rules
        \<and> table_own s3 (marpaWrapperProgresspp w) (sizeMarpaWrapperProgressi w) progs
        \<and> ptr_own s4 (expectedMarpaSymbolIdArrayp w) (\<lambda>b. \<exists>xs. b = Obj (IntsObj xs))
        \<and> ptr_own s5 (expectedMarpaWrapperSymbolArraypp w) (\<lambda>b. \<exists>ps. b = Arr ps)
        \<and> ptr_own s6 (wrapSelfp w) (\<lambda>b. b = Raw)
        \<and> joins [s1, s2, s3, s4, s5, s6, g] (store h))"

lemma wrapper_repI:
  assumes "heap_ok h" "nMarpaWrapperSymboli w = length syms" "nMarpaWrapperRulei w = length rules"
    "nMarpaWrapperProgressi w = length progs" "wrapSelfp w \<noteq> Null"
    "table_own s1 (marpaWrapperSymbolpp w) (sizeMarpaWrapperSymboli w) syms"
    "table_own s2 (marpaWrapperRulepp w) (sizeMarpaWrapperRulei w) rules"
    "table_own s3 (marpaWrapperProgresspp w) (sizeMarpaWrapperProgressi w) progs"
    "ptr_own s4 (expectedMarpaSymbolIdArrayp w) (\<lambda>b. \<exists>xs. b = Obj (IntsObj xs))"
    "ptr_own s5 (expectedMarpaWrapperSymbolArraypp w) (\<lambda>b. \<exists>ps. b = Arr ps)"
    "ptr_own s6 (wrapSelfp w) (\<lambda>b. b = Raw)"
    "joins [s1, s2, s3, s4, s5, s6, g] (store h)"
  shows "wrapper_rep w h syms rules progs g"
  using assms unfolding wrapper_rep_def by blast

lemma wrapper_heap_ok: "wrapper_rep w h syms rules progs g \<Longrightarrow> heap_ok h"
  by (simp add: wrapper_rep_def)

lemma wrapper_same_store:
  "wrapper_rep w h syms rules progs g \<Longrightarrow> same_store h h' \<Longrightarrow> wrapper_rep w h' syms rules progs g"
  by (simp add: wrapper_rep_def same_store_def)

lemma wrapper_rep_handles [simp]:
  "wrapper_rep (w\<lparr>marpaRecognizerp := r\<rparr>) h syms rules progs g = wrapper_rep w h syms rules progs g"
  "wrapper_rep (w\<lparr>marpaGrammarp := r\<rparr>) h syms rules progs g = wrapper_rep w h syms rules progs g"
  by (simp_all add: wrapper_rep_def)

text \<open>One table at a time.\<close>

definition with_symbols :: "ptr \<Rightarrow> nat \<Rightarrow> nat \<Rightarrow> ('e, 'd) marpaWrapper \<Rightarrow> ('e, 'd) marpaWrapper" where
  "with_symbols q m n w =
     w\<lparr>marpaWrapperSymbolpp := q, sizeMarpaWrapperSymboli := m, nMarpaWrapperSymboli := n\<rparr>"

definition with_rules :: "ptr \<Rightarrow> nat \<Rightarrow> nat \<Rightarrow> ('e, 'd) marpaWrapper \<Rightarrow> ('e, 'd) marpaWrapper" where
  "with_rules q m n w =
     w\<lparr>marpaWrapperRulepp := q, sizeMarpaWrapperRulei := m, nMarpaWrapperRulei := n\<rparr>"

definition with_progress :: "ptr \<Rightarrow> nat \<Rightarrow> nat \<Rightarrow> ('e, 'd) marpaWrapper \<Rightarrow> ('e, 'd) marpaWrapper" where
  "with_progress q m n w =
     w\<lparr>marpaWrapperProgresspp := q, sizeMarpaWrapperProgressi := m, nMarpaWrapperProgressi := n\<rparr>"

lemma wrapper_symbols:
  assumes "wrapper_rep w h syms rules progs g"
  obtains v where "table_rep h (marpaWrapperSymbolpp w) (sizeMarpaWrapperSymboli w) syms v"
    "\<forall>h' q m xs. table_rep h' q m xs v \<longrightarrow> wrapper_rep (with_symbols q m (length xs) w) h' xs rules progs g"
proof -
  from assms obtain s1 s2 s3 s4 s5 s6 where W: "heap_ok h"
    "nMarpaWrapperRulei w = length rules" "nMarpaWrapperProgressi w = length progs" "wrapSelfp w \<noteq> Null"
    "table_own s2 (marpaWrapperRulepp w) (sizeMarpaWrapperRulei w) rules"
    "table_own s3 (marpaWrapperProgresspp w) (sizeMarpaWrapperProgressi w) progs"
    "ptr_own s4 (expectedMarpaSymbolIdArrayp w) (\<lambda>b. \<exists>xs. b = Obj (IntsObj xs))"
    "ptr_own s5 (expectedMarpaWrapperSymbolArraypp w) (\<lambda>b. \<exists>ps. b = Arr ps)"
    "ptr_own s6 (wrapSelfp w) (\<lambda>b. b = Raw)"
    and J: "table_own s1 (marpaWrapperSymbolpp w) (sizeMarpaWrapperSymboli w) syms"
      "joins ([] @ s1 # [s2, s3, s4, s5, s6, g]) (store h)"
    unfolding wrapper_rep_def by auto
  from take_table [OF J(2,1) W(1)] obtain v where
    v: "table_rep h (marpaWrapperSymbolpp w) (sizeMarpaWrapperSymboli w) syms v"
    "refits [] [s2, s3, s4, s5, s6, g] v" .
  show thesis
  proof (rule that [OF v(1)], intro allI impI)
    fix h' q m xs
    assume "table_rep h' q m xs v"
    from put_table [OF this v(2)] obtain s where
      "joins [s, s2, s3, s4, s5, s6, g] (store h')" "table_own s q m xs" "heap_ok h'"
      by auto
    with W show "wrapper_rep (with_symbols q m (length xs) w) h' xs rules progs g"
      unfolding with_symbols_def by (intro wrapper_repI [of _ _ _ _ _ s s2 s3 s4 s5 s6]) simp_all
  qed
qed

lemma wrapper_rules:
  assumes "wrapper_rep w h syms rules progs g"
  obtains v where "table_rep h (marpaWrapperRulepp w) (sizeMarpaWrapperRulei w) rules v"
    "\<forall>h' q m xs. table_rep h' q m xs v \<longrightarrow> wrapper_rep (with_rules q m (length xs) w) h' syms xs progs g"
proof -
  from assms obtain s1 s2 s3 s4 s5 s6 where W: "heap_ok h"
    "nMarpaWrapperSymboli w = length syms" "nMarpaWrapperProgressi w = length progs" "wrapSelfp w \<noteq> Null"
    "table_own s1 (marpaWrapperSymbolpp w) (sizeMarpaWrapperSymboli w) syms"
    "table_own s3 (marpaWrapperProgresspp w) (sizeMarpaWrapperProgressi w) progs"
    "ptr_own s4 (expectedMarpaSymbolIdArrayp w) (\<lambda>b. \<exists>xs. b = Obj (IntsObj xs))"
    "ptr_own s5 (expectedMarpaWrapperSymbolArraypp w) (\<lambda>b. \<exists>ps. b = Arr ps)"
    "ptr_own s6 (wrapSelfp w) (\<lambda>b. b = Raw)"
    and J: "table_own s2 (marpaWrapperRulepp w) (sizeMarpaWrapperRulei w) rules"
      "joins ([s1] @ s2 # [s3, s4, s5, s6, g]) (store h)"
    unfolding wrapper_rep_def by auto
  from take_table [OF J(2,1) W(1)] obtain v where
    v: "table_rep h (marpaWrapperRulepp w) (sizeMarpaWrapperRulei w) rules v"
    "refits [s1] [s3, s4, s5, s6, g] v" .
  show thesis
  proof (rule that [OF v(1)], intro allI impI)
    fix h' q m xs
    assume "table_rep h' q m xs v"
    from put_table [OF this v(2)] obtain s where
      "joins [s1, s, s3, s4, s5, s6, g] (store h')" "table_own s q m xs" "heap_ok h'"
      by auto
    with W show "wrapper_rep (with_rules q m (length xs) w) h' syms xs progs g"
      unfolding with_rules_def by (intro wrapper_repI [of _ _ _ _ _ s1 s s3 s4 s5 s6]) simp_all
  qed
qed

lemma wrapper_progress:
  assumes "wrapper_rep w h syms rules progs g"
  obtains v where "table_rep h (marpaWrapperProgresspp w) (sizeMarpaWrapperProgressi w) progs v"
    "\<forall>h' q m xs. table_rep h' q m xs v \<longrightarrow> wrapper_rep (with_progress q m (length xs) w) h' syms rules xs g"
proof -
  from assms obtain s1 s2 s3 s4 s5 s6 where W: "heap_ok h"
    "nMarpaWrapperSymboli w = length syms" "nMarpaWrapperRulei w = length rules" "wrapSelfp w \<noteq> Null"
    "table_own s1 (marpaWrapperSymbolpp w) (sizeMarpaWrapperSymboli w) syms"
    "table_own s2 (marpaWrapperRulepp w) (sizeMarpaWrapperRulei w) rules"
    "ptr_own s4 (expectedMarpaSymbolIdArrayp w) (\<lambda>b. \<exists>xs. b = Obj (IntsObj xs))"
    "ptr_own s5 (expectedMarpaWrapperSymbolArraypp w) (\<lambda>b. \<exists>ps. b = Arr ps)"
    "ptr_own s6 (wrapSelfp w) (\<lambda>b. b = Raw)"
    and J: "table_own s3 (marpaWrapperProgresspp w) (sizeMarpaWrapperProgressi w) progs"
      "joins ([s1, s2] @ s3 # [s4, s5, s6, g]) (store h)"
    unfolding wrapper_rep_def by auto
  from take_table [OF J(2,1) W(1)] obtain v where
    v: "table_rep h (marpaWrapperProgresspp w) (sizeMarpaWrapperProgressi w) progs v"
    "refits [s1, s2] [s4, s5, s6, g] v" .
  show thesis
  proof (rule that [OF v(1)], intro allI impI)
    fix h' q m xs
    assume "table_rep h' q m xs v"
    from put_table [OF this v(2)] obtain s where
      "joins [s1, s2, s, s4, s5, s6, g] (store h')" "table_own s q m xs" "heap_ok h'"
      by auto
    with W show "wrapper_rep (with_progress q m (length xs) w) h' syms rules xs g"
      unfolding with_progress_def by (intro wrapper_repI [of _ _ _ _ _ s1 s2 s s4 s5 s6]) simp_all
  qed
qed

end
