(* ===== verification/WrapperGrammar.thy ===== *)
theory WrapperGrammar
  imports WrapperState
begin

text \<open>
  The life of a wrapper and the grammar part of \<open>src/src/marpaWrapper.c\<close>: \<open>marpaWrapper_newp\<close>,
  \<open>marpaWrapper_destroyv\<close>, \<open>marpaWrapper_g_addSymbolp\<close>, \<open>marpaWrapper_g_addRulep\<close> and
  \<open>marpaWrapper_g_precomputeb\<close>.
\<close>

section \<open>Creation and destruction\<close>

text \<open>\<open>None\<close> for a \<open>NULL\<close> address, \<open>Some None\<close> for the address of a \<open>NULL\<close> pointer.\<close>

definition marpaWrapper_destroyv ::
  "('e, 'd, 'v) world \<Rightarrow> ('e, 'd) marpaWrapper option option \<Rightarrow> ('e, 'd, 'v) wstate
     \<Rightarrow> (('e, 'd) marpaWrapper option option \<times> ('e, 'd, 'v) wstate) option" where
  "marpaWrapper_destroyv W wpp c =
     (case wpp of
        None \<Rightarrow> Some (None, c)
      | Some None \<Rightarrow> Some (Some None, c)
      | Some (Some w) \<Rightarrow>
          (let c1 = (if marpaRecognizerp w \<noteq> 0 then snd (call W (R (Marpa_r_unref (marpaRecognizerp w))) c) else c);
               c2 = (if marpaGrammarp w \<noteq> 0 then snd (call W (G (Marpa_g_unref (marpaGrammarp w))) c1) else c1)
           in do {
             h1 \<leftarrow> manageBuf_freev (marpaWrapperSymbolpp w) (nMarpaWrapperSymboli w) (hp c2);
             h2 \<leftarrow> manageBuf_freev (marpaWrapperRulepp w) (nMarpaWrapperRulei w) h1;
             h3 \<leftarrow> manageBuf_freev (marpaWrapperProgresspp w) (nMarpaWrapperProgressi w) h2;
             h4 \<leftarrow> (if expectedMarpaSymbolIdArrayp w \<noteq> Null then cfree (expectedMarpaSymbolIdArrayp w) h3 else Some h3);
             h5 \<leftarrow> (if expectedMarpaWrapperSymbolArraypp w \<noteq> Null
                    then cfree (expectedMarpaWrapperSymbolArraypp w) h4 else Some h4);
             h6 \<leftarrow> cfree (wrapSelfp w) h5;
             Some (Some None, c2\<lparr>hp := h6\<rparr>)
           }))"

definition new_wrapper :: "ptr \<Rightarrow> 'e marpaWrapperOption \<Rightarrow> ('e, 'd) marpaWrapper" where
  "new_wrapper p opts =
     \<lparr>wrapSelfp = p, marpaGrammarp = 0, marpaRecognizerp = 0, genericLoggerp = option_loggerp opts,
      sizeMarpaWrapperSymboli = 0, nMarpaWrapperSymboli = 0, marpaWrapperSymbolpp = Null,
      sizeMarpaWrapperRulei = 0, nMarpaWrapperRulei = 0, marpaWrapperRulepp = Null,
      expectedMarpaSymbolIdArrayp = Null, expectedMarpaWrapperSymbolArraypp = Null,
      sizeMarpaWrapperProgressi = 0, nMarpaWrapperProgressi = 0, marpaWrapperProgresspp = Null,
      marpaWrapperOption = opts\<rparr>"

text \<open>The four failures after the allocation: log, destroy, return \<open>NULL\<close>.\<close>

definition give_up ::
  "('e, 'd, 'v) world \<Rightarrow> ('e, 'd) marpaWrapper \<Rightarrow> (('e, 'd, 'v) wstate \<Rightarrow> ('e, 'd, 'v) wstate option)
     \<Rightarrow> ('e, 'd, 'v) wstate \<Rightarrow> (('e, 'd) marpaWrapper option \<times> ('e, 'd, 'v) wstate) option" where
  "give_up W w log c = do {
     c1 \<leftarrow> log c;
     (wp, c2) \<leftarrow> marpaWrapper_destroyv W (Some (Some w)) c1;
     Some (None, c2)
   }"

definition marpaWrapper_newp ::
  "('e, 'd, 'v) world \<Rightarrow> 'e marpaWrapperOption option \<Rightarrow> ('e, 'd, 'v) wstate
     \<Rightarrow> (('e, 'd) marpaWrapper option \<times> ('e, 'd, 'v) wstate) option" where
  "marpaWrapper_newp W op c =
     (let opts = (case op of None \<Rightarrow> default_wrapperOption | Some x \<Rightarrow> x);
          (p, h1) = malloc Raw (hp c); c1 = c\<lparr>hp := h1\<rparr> in
      if p = Null
      then do {
        c2 \<leftarrow> marpaWrapper_logExt W None MARPAWRAPPERERRORORIGIN_SYSTEM (errno h1) (Some ''malloc()'')
               GENERICLOGGER_LOGLEVEL_ERROR c1;
        Some (None, c2)
      }
      else
        (let w = new_wrapper p opts;
             (rv, c2) = call W (G Marpa_version) c1 in
         if ret rv < 0 then give_up W w (log_marpa_error W w (ret rv)) c2
         else
           (let (rc, c3) = (case versionip opts of
                              None \<Rightarrow> (MARPA_ERR_NONE, c2)
                            | Some (x, y, z) \<Rightarrow>
                                (let (r, c3) = call W (G (Marpa_check_version x y z)) c2 in (ret r, c3))) in
            if rc \<noteq> MARPA_ERR_NONE then give_up W w (log_marpa_error W w rc) c3
            else
              (let (ri, c4) = call W (G Marpa_c_init) c3;
                   (rg, c5) = call W (G Marpa_g_new) c4;
                   w1 = w\<lparr>marpaGrammarp := ret rg\<rparr> in
               if ret rg = 0 then give_up W w1 (log_marpa_c_error W w1) c5
               else
                 (let (rf, c6) = call W (G (Marpa_g_force_valued (ret rg))) c5 in
                  if ret rf < 0 then give_up W w1 (log_marpa_g_error W w1) c6
                  else Some (Some w1, c6))))))"

section \<open>Symbols\<close>

definition symbol_settings ::
  "int \<Rightarrow> int \<Rightarrow> 'd marpaWrapperSymbolOption \<Rightarrow> (bool \<times> ('d, 'v) call \<times> (int \<Rightarrow> bool)) list" where
  "symbol_settings g i opts =
     [(terminalb opts, G (Marpa_g_symbol_is_terminal_set g i 1), \<lambda>r. r = 1),
      (startb opts, G (Marpa_g_start_symbol_set g i), \<lambda>r. \<not> r < 0),
      (subscribes (eventSeti opts) MARPAWRAPPER_EVENTTYPE_COMPLETED,
         G (Marpa_g_symbol_is_completion_event_set g i 1), \<lambda>r. r = 1),
      (subscribes (eventSeti opts) MARPAWRAPPER_EVENTTYPE_NULLED,
         G (Marpa_g_symbol_is_nulled_event_set g i 1), \<lambda>r. r = 1),
      (subscribes (eventSeti opts) MARPAWRAPPER_EVENTTYPE_PREDICTED,
         G (Marpa_g_symbol_is_prediction_event_set g i 1), \<lambda>r. r = 1)]"

definition new_symbol :: "int \<Rightarrow> 'd marpaWrapperSymbolOption option \<Rightarrow> 'd marpaWrapperSymbol" where
  "new_symbol i op =
     \<lparr>marpaSymbolIdi = i, symbolOption = (case op of None \<Rightarrow> default_symbolOption | Some x \<Rightarrow> x),
      isLexemeb = None, lengthl = None\<rparr>"

text \<open>The addition \<open>marpaSymbolIdi + 1\<close> is one of \<open>int\<close>s. Results: the symbol, the wrapper, the state.\<close>

definition internal_g_addSymbolp ::
  "('e, 'd, 'v) world \<Rightarrow> ('e, 'd) marpaWrapper \<Rightarrow> int \<Rightarrow> 'd marpaWrapperSymbolOption option
     \<Rightarrow> ('e, 'd, 'v) wstate \<Rightarrow> (ptr \<times> ('e, 'd) marpaWrapper \<times> ('e, 'd, 'v) wstate) option" where
  "internal_g_addSymbolp W w i op c = do {
     _ \<leftarrow> require (i < int INT_MAX);
     (r, q, m, h1) \<leftarrow> manageBuf_createp (marpaWrapperSymbolpp w) (sizeMarpaWrapperSymboli w)
                       (int_to_size (i + 1)) PTR_BYTES (hp c);
     let w1 = w\<lparr>marpaWrapperSymbolpp := q, sizeMarpaWrapperSymboli := m\<rparr>;
     if r = Null
     then do { c2 \<leftarrow> log_sys_error W w1 ''manageBuf_createp()'' (c\<lparr>hp := h1\<rparr>); Some (Null, w1, c2) }
     else
       (let s = new_symbol i op; (p, h2) = malloc (Obj (SymbolObj s)) h1 in
        if p = Null
        then do { c2 \<leftarrow> log_sys_error W w1 ''malloc()'' (c\<lparr>hp := h2\<rparr>); Some (Null, w1, c2) }
        else do {
          _ \<leftarrow> require (0 \<le> i);
          h3 \<leftarrow> arr_put q (nat i) p h2;
          let w2 = w1\<lparr>nMarpaWrapperSymboli := int_to_size (i + 1)\<rparr>;
          (b, c3) \<leftarrow> apply_settings W w2 (symbol_settings (marpaGrammarp w) i (symbolOption s)) (c\<lparr>hp := h3\<rparr>);
          Some (if b then p else Null, w2, c3)
        })
   }"

definition marpaWrapper_g_addSymbolp ::
  "('e, 'd, 'v) world \<Rightarrow> ('e, 'd) marpaWrapper option \<Rightarrow> 'd marpaWrapperSymbolOption option
     \<Rightarrow> ('e, 'd, 'v) wstate \<Rightarrow> (ptr \<times> ('e, 'd) marpaWrapper option \<times> ('e, 'd, 'v) wstate) option" where
  "marpaWrapper_g_addSymbolp W wp op c =
     (case wp of
        None \<Rightarrow> Some (Null, None, c)
      | Some w \<Rightarrow> do {
          (r, c1) \<leftarrow> checked W w (G (Marpa_g_symbol_new (marpaGrammarp w))) (\<lambda>i. i \<noteq> - 2) c;
          (case r of
             None \<Rightarrow> Some (Null, Some w, c1)
           | Some x \<Rightarrow> do {
               (p, w', c2) \<leftarrow> internal_g_addSymbolp W w (ret x) op c1;
               Some (p, Some w', c2)
             })
        })"

section \<open>Rules\<close>

definition INT_BYTES :: nat where
  "INT_BYTES = 4"

definition size_to_int :: "nat \<Rightarrow> int" where
  "size_to_int n = (let m = to_uint n in if INT_MAX < m then int m - int UINT_MOD else int m)"

text \<open>The loop that collects the ids of the right-hand side.\<close>

fun rhs_ids :: "('d, 'v) obj heap \<Rightarrow> ptr list \<Rightarrow> nat \<Rightarrow> nat \<Rightarrow> int list option" where
  "rhs_ids h ps i 0 = Some []"
| "rhs_ids h ps i (Suc n) = do {
     _ \<leftarrow> require (i < length ps);
     s \<leftarrow> symbol_at h (ps ! i);
     ids \<leftarrow> rhs_ids h ps (Suc i) n;
     Some (marpaSymbolIdi s # ids)
   }"

definition internal_g_addRulep ::
  "('e, 'd, 'v) world \<Rightarrow> ('e, 'd) marpaWrapper \<Rightarrow> int \<Rightarrow> 'd marpaWrapperRuleOption
     \<Rightarrow> ('e, 'd, 'v) wstate \<Rightarrow> (ptr \<times> ('e, 'd) marpaWrapper \<times> ('e, 'd, 'v) wstate) option" where
  "internal_g_addRulep W w i opts c = do {
     _ \<leftarrow> require (i < int INT_MAX);
     (r, q, m, h1) \<leftarrow> manageBuf_createp (marpaWrapperRulepp w) (sizeMarpaWrapperRulei w)
                       (int_to_size (i + 1)) PTR_BYTES (hp c);
     let w1 = w\<lparr>marpaWrapperRulepp := q, sizeMarpaWrapperRulei := m\<rparr>;
     if r = Null
     then do { c2 \<leftarrow> log_sys_error W w1 ''manageBuf_createp()'' (c\<lparr>hp := h1\<rparr>); Some (Null, w1, c2) }
     else
       (let (p, h2) = malloc (Obj (RuleObj \<lparr>marpaRuleIdi = i, ruleOption = opts\<rparr>)) h1 in
        if p = Null
        then do { c2 \<leftarrow> log_sys_error W w1 ''malloc()'' (c\<lparr>hp := h2\<rparr>); Some (Null, w1, c2) }
        else do {
          _ \<leftarrow> require (0 \<le> i);
          h3 \<leftarrow> arr_put q (nat i) p h2;
          let w2 = w1\<lparr>nMarpaWrapperRulei := int_to_size (i + 1)\<rparr>;
          let c3 = c\<lparr>hp := h3\<rparr>;
          (b, c4) \<leftarrow>
            (if ranki opts \<noteq> 0
             then (let (r1, d1) = call W (G (Marpa_g_rule_rank_set (marpaGrammarp w) i (ranki opts))) c3;
                       (r2, d2) = call W (G (Marpa_g_error (marpaGrammarp w))) d1 in
                   if ret r2 \<noteq> MARPA_ERR_NONE
                   then do { d3 \<leftarrow> log_marpa_g_error W w2 d2; Some (False, d3) }
                   else Some (True, d2))
             else Some (True, c3));
          if \<not> b then Some (Null, w2, c4)
          else do {
            (b', c5) \<leftarrow> apply_settings W w2
              [(nullRanksHighb opts, G (Marpa_g_rule_null_high_set (marpaGrammarp w) i 1), \<lambda>r. r \<noteq> - 2)] c4;
            Some (if b' then p else Null, w2, c5)
          }
        })
   }"

text \<open>\<open>None\<close> where the arguments are rejected, otherwise the message that is logged for them.\<close>

definition rule_complaint :: "'d marpaWrapperRuleOption option \<Rightarrow> string option" where
  "rule_complaint op =
     (case op of
        None \<Rightarrow> Some ''marpaWrapperRuleOptionp is NULL''
      | Some q \<Rightarrow>
          if lhsSymbolp q = Null then Some ''marpaWrapperRuleOptionp->lhsSymbolp is NULL''
          else if sequenceb q \<and> nRhsSymboli q \<noteq> 1 then Some ''A sequence must have exactly one RHS''
          else if sequenceb q \<and> minimumi q \<noteq> 0 \<and> minimumi q \<noteq> 1
          then Some ''A sequence must have a minimum of exactly 0 or 1''
          else None)"

text \<open>
  The libmarpa call for a rule. \<open>ids\<close> is \<open>None\<close> for the \<open>NULL\<close> array of an empty right-hand side;
  the length is converted to \<open>int\<close>. In the allocation the number of bytes may wrap around; then the
  ids do not fit.
\<close>

definition rule_call ::
  "('d, 'v) obj heap \<Rightarrow> int \<Rightarrow> 'd marpaWrapperRuleOption \<Rightarrow> int list \<Rightarrow> ('d, 'v) call option" where
  "rule_call h g q ids = do {
     lhs \<leftarrow> symbol_at h (lhsSymbolp q);
     if sequenceb q
     then do {
       _ \<leftarrow> require (0 < length ids);
       sep \<leftarrow> (if separatorSymbolp q \<noteq> Null
               then do { s \<leftarrow> symbol_at h (separatorSymbolp q); Some (marpaSymbolIdi s) }
               else Some (- 1));
       Some (G (Marpa_g_sequence_new g (marpaSymbolIdi lhs) (ids ! 0) sep (minimumi q)
         (if properb q then MARPA_PROPER_SEPARATION else 0)))
     }
     else Some (G (Marpa_g_rule_new g (marpaSymbolIdi lhs) ids (size_to_int (nRhsSymboli q))))
   }"

definition marpaWrapper_g_addRulep ::
  "('e, 'd, 'v) world \<Rightarrow> ('e, 'd) marpaWrapper option \<Rightarrow> 'd marpaWrapperRuleOption option
     \<Rightarrow> ('e, 'd, 'v) wstate \<Rightarrow> (ptr \<times> ('e, 'd) marpaWrapper option \<times> ('e, 'd, 'v) wstate) option" where
  "marpaWrapper_g_addRulep W wp op c =
     (case wp of
        None \<Rightarrow> Some (Null, None, c)
      | Some w \<Rightarrow>
          (case rule_complaint op of
             Some m \<Rightarrow> do { c1 \<leftarrow> log_error0 W w m c; Some (Null, Some w, c1) }
           | None \<Rightarrow> do {
               q \<leftarrow> op;
               let (p, h1) = (if 0 < nRhsSymboli q then malloc Raw (hp c) else (Null, hp c));
               if 0 < nRhsSymboli q \<and> p = Null
               then do { c1 \<leftarrow> log_sys_error W w ''malloc()'' (c\<lparr>hp := h1\<rparr>); Some (Null, Some w, c1) }
               else do {
                 _ \<leftarrow> require (nRhsSymboli q \<le> to_size (nRhsSymboli q * INT_BYTES) div INT_BYTES);
                 ids \<leftarrow> rhs_ids h1 (rhsSymbolpp q) 0 (nRhsSymboli q);
                 k \<leftarrow> rule_call h1 (marpaGrammarp w) q ids;
                 let (r, c1) = call W k (c\<lparr>hp := h1\<rparr>);
                 h2 \<leftarrow> (if p \<noteq> Null then cfree p (hp c1) else Some (hp c1));
                 let c2 = c1\<lparr>hp := h2\<rparr>;
                 if ret r = - 2
                 then do { c3 \<leftarrow> log_marpa_g_error W w c2; Some (Null, Some w, c3) }
                 else do {
                   (p', w', c3) \<leftarrow> internal_g_addRulep W w (ret r) q c2;
                   Some (p', Some w', c3)
                 }
               }
             }))"

section \<open>Precomputation\<close>

definition marpaWrapper_g_precomputeb ::
  "('e, 'd, 'v) world \<Rightarrow> ('e, 'd) marpaWrapper option \<Rightarrow> ('e, 'd, 'v) wstate
     \<Rightarrow> (int \<times> ('e, 'd, 'v) wstate) option" where
  "marpaWrapper_g_precomputeb W wp c =
     (case wp of
        None \<Rightarrow> Some (MARPAWRAPPER_BOOL_FALSE, c)
      | Some w \<Rightarrow> do {
          (r, c1) \<leftarrow> checked W w (G (Marpa_g_precompute (marpaGrammarp w))) (\<lambda>i. \<not> i < 0) c;
          if r = None then Some (MARPAWRAPPER_BOOL_FALSE, c1) else marpaWrapper_event W w c1
        })"

section \<open>Adding an entry to a table\<close>

lemma add_table_entry:
  assumes R: "table_rep h pp m xs v" and m: "m \<le> INT_MAX div 2" and i: "length xs \<le> i"
    and t: "one_turn m (Suc i)"
  obtains (no_room) h1 where "manageBuf_createp pp m (Suc i) PTR_BYTES h = Some (Null, pp, m, h1)"
      "table_rep h1 pp m xs v" "\<not> avail h (asked h)"
    | (no_object) q n h1 h2 where "manageBuf_createp pp m (Suc i) PTR_BYTES h = Some (q, q, n, h1)"
      "q \<noteq> Null" "malloc (Obj x) h1 = (Null, h2)" "table_rep h2 q n xs v" "\<not> (\<forall>k. avail h k)"
    | (stored) q n h1 h2 h3 p where "manageBuf_createp pp m (Suc i) PTR_BYTES h = Some (q, q, n, h1)"
      "q \<noteq> Null" "p \<noteq> Null" "malloc (Obj x) h1 = (p, h2)" "arr_put q i p h2 = Some h3"
      "table_rep h3 q n (entered xs i x) v" "obj_at h3 p = Some x" "arr_get q i h3 = Some p"
      "avail h3 = avail h"
proof -
  from tab.create_law [OF R m t] obtain r q n h1 where
    cr: "manageBuf_createp pp m (Suc i) PTR_BYTES h = Some (r, q, n, h1)" and av: "avail h1 = avail h"
    and rq: "if r = Null then q = pp \<and> n = m \<and> \<not> avail h (asked h) else r = q \<and> Suc i \<le> n"
    by blast
  note A = tab.add_entry [OF R m i t cr, of x]
  consider (a) "r = Null" | (b) "r \<noteq> Null" "\<not> avail h1 (asked h1)" | (c) "r \<noteq> Null" "avail h1 (asked h1)"
    by blast
  then show thesis
  proof cases
    case a
    then have "q = pp" "n = m" "\<not> avail h (asked h)" "table_rep h1 pp m xs v" using rq A by auto
    with a cr show thesis by (intro no_room) simp_all
  next
    case b
    then have "r = q" "table_rep (refused h1) q n xs v" using rq A by auto
    moreover have "\<not> (\<forall>k. avail h k)" using b(2) av by auto
    ultimately show thesis using b cr by (intro no_object [of q n h1 "refused h1"]) (simp_all add: malloc_eq)
  next
    case c
    then obtain h2 where "r = q" "arr_put q i (Ref (fresh h1)) (granted (Obj x) h1) = Some h2"
      "table_rep h2 q n (entered xs i x) v" "avail h2 = avail h" "obj_at h2 (Ref (fresh h1)) = Some x"
      using rq A by auto
    moreover from this(2) have "arr_get q i h2 = Some (Ref (fresh h1))"
      by (auto simp: arr_put_Some arr_get_def)
    ultimately show thesis using c cr by (intro stored [of q n h1 "Ref (fresh h1)" "granted (Obj x) h1" h2]) (simp_all add: malloc_eq del: obj_at.simps)
  qed
qed

text \<open>Ids that libmarpa gives out: the next ones, so that one doubling makes room.\<close>

definition next_id :: "nat \<Rightarrow> 'a list \<Rightarrow> int \<Rightarrow> bool" where
  "next_id m xs i \<longleftrightarrow> 0 \<le> i \<and> i < int INT_MAX \<and> length xs \<le> nat i \<and> one_turn m (Suc (nat i))
     \<and> m \<le> INT_MAX div 2"

lemma id_plus_one: "0 \<le> i \<Longrightarrow> i < int INT_MAX \<Longrightarrow> int_to_size (i + 1) = Suc (nat i)"
  by (simp add: int_to_size_small INT_MAX_def SIZE_MOD_def nat_add_distrib)

lemma settings_no_query: "\<forall>s \<in> set (symbol_settings g i opts). \<not> error_query (fst (snd s))"
  by (simp add: symbol_settings_def error_query_def)

text \<open>The table afterwards: unchanged, or with the new entry at its id.\<close>

lemma internal_addSymbol_run:
  assumes R: "wrapper_rep w (hp c) syms rules progs g" and W: "ready W"
    and i: "next_id (sizeMarpaWrapperSymboli w) syms i"
  obtains p q m c' syms' ks where
    "internal_g_addSymbolp W w i op c = Some (p, with_symbols q m (length syms') w, c')"
    "wrapper_rep (with_symbols q m (length syms') w) (hp c') syms' rules progs g" "made c c' ks"
    "(p = Null \<and> syms' = syms \<and> ks = [] \<and> \<not> (\<forall>k. avail (hp c) k))
     \<or> (syms' = entered syms (nat i) (SymbolObj (new_symbol i op))
        \<and> answered (asked_for (symbol_settings (marpaGrammarp w) i (symbolOption (new_symbol i op)))) (p \<noteq> Null) ks)"
    "p \<noteq> Null \<longrightarrow> symbol_at (hp c') p = Some (new_symbol i op) \<and> arr_get q (nat i) (hp c') = Some p"
proof -
  note result = that
  from i have i': "0 \<le> i" "i < int INT_MAX" "length syms \<le> nat i"
    "one_turn (sizeMarpaWrapperSymboli w) (Suc (nat i))" "sizeMarpaWrapperSymboli w \<le> INT_MAX div 2"
    by (simp_all add: next_id_def)
  have n: "nMarpaWrapperSymboli w = length syms" using R by (simp add: wrapper_rep_def)
  from R obtain v where v: "table_rep (hp c) (marpaWrapperSymbolpp w) (sizeMarpaWrapperSymboli w) syms v"
    and close: "\<forall>h' q m xs. table_rep h' q m xs v \<longrightarrow> wrapper_rep (with_symbols q m (length xs) w) h' xs rules progs g"
    by (rule wrapper_symbols)
  have logs: "logs (log_sys_error W w' s) (c\<lparr>hp := h\<rparr>)"
    if "heap_ok h" "length s < 1000" for w' s h
    using that by (intro log_sys_error_logs [OF W]) simp_all
  have retreat: thesis
    if eq: "internal_g_addSymbolp W w i op c = map_option (\<lambda>c2. (Null, with_symbols q m (length syms) w, c2))
          (log_sys_error W (with_symbols q m (length syms) w) s (c\<lparr>hp := h\<rparr>))"
    and t: "table_rep h q m syms v" and s: "length s < 1000" and av: "\<not> (\<forall>k. avail (hp c) k)" for q m h s
  proof -
    from logs [OF table_rep_heap [OF t] s] obtain c2 where
      c2: "log_sys_error W (with_symbols q m (length syms) w) s (c\<lparr>hp := h\<rparr>) = Some c2" "logged (c\<lparr>hp := h\<rparr>) c2"
      by (auto simp: logs_def)
    have "wrapper_rep (with_symbols q m (length syms) w) (hp c2) syms rules progs g"
      using wrapper_same_store [OF close [rule_format, OF t]] logged_store [OF c2(2)] by simp
    moreover have "made c c2 []" using made_logged [OF c2(2)] by simp
    ultimately show thesis using eq c2(1) av by (intro result [of Null q m syms c2 "[]"]) simp_all
  qed
  have w1: "w\<lparr>marpaWrapperSymbolpp := q, sizeMarpaWrapperSymboli := m\<rparr> = with_symbols q m (length syms) w" for q m
    using n by (cases w) (simp add: with_symbols_def)
  show thesis
    using v i'(5,3,4)
  proof (cases rule: add_table_entry [where x = "SymbolObj (new_symbol i op)"])
    case (no_room h1)
    show thesis
      using no_room(1,3) i'(1,2)
      by (intro retreat [OF _ no_room(2), of "''manageBuf_createp()''"])
        (auto simp: internal_g_addSymbolp_def id_plus_one w1 map_option_case split: option.splits)
  next
    case (no_object q m h1 h2)
    show thesis
      using no_object(1-3,5) i'(1,2)
      by (intro retreat [OF _ no_object(4), of "''malloc()''"])
        (auto simp: internal_g_addSymbolp_def id_plus_one w1 map_option_case split: option.splits)
  next
    case (stored q m h1 h2 h3 p)
    let ?w = "with_symbols q m (Suc (nat i)) w" and ?syms = "entered syms (nat i) (SymbolObj (new_symbol i op))"
    have w2: "w\<lparr>marpaWrapperSymbolpp := q, sizeMarpaWrapperSymboli := m, nMarpaWrapperSymboli := Suc (nat i)\<rparr> = ?w"
      by (simp add: with_symbols_def)
    have len: "length ?syms = Suc (nat i)" using i'(3) by simp
    have R3: "wrapper_rep ?w h3 ?syms rules progs g" using close [rule_format, OF stored(6)] len by simp
    have ok: "heap_ok (hp (c\<lparr>hp := h3\<rparr>))" using wrapper_heap_ok [OF R3] by simp
    from settings_run [OF W ok settings_no_query, of ?w] obtain b c' ks where
      st: "apply_settings W ?w (symbol_settings (marpaGrammarp w) i (symbolOption (new_symbol i op))) (c\<lparr>hp := h3\<rparr>)
        = Some (b, c')" "steps (c\<lparr>hp := h3\<rparr>) c' ks"
        "answered (asked_for (symbol_settings (marpaGrammarp w) i (symbolOption (new_symbol i op)))) b ks"
      by blast
    have same: "same_store h3 (hp c')" using st(2) by (simp add: steps_def)
    show thesis
    proof (rule result [of "if b then p else Null" q m ?syms c' ks])
      show "internal_g_addSymbolp W w i op c =
          Some (if b then p else Null, with_symbols q m (length ?syms) w, c')"
        using stored(1-5) st(1) i'(1,2) len w2 by (simp add: internal_g_addSymbolp_def id_plus_one)
      show "wrapper_rep (with_symbols q m (length ?syms) w) (hp c') ?syms rules progs g"
        using wrapper_same_store [OF R3 same] len by simp
      show "made c c' ks" using st(2) by (simp add: steps_def)
      show "(if b then p else Null) = Null \<and> ?syms = syms \<and> ks = [] \<and> \<not> (\<forall>k. avail (hp c) k)
        \<or> ?syms = ?syms \<and> answered (asked_for (symbol_settings (marpaGrammarp w) i
             (symbolOption (new_symbol i op)))) ((if b then p else Null) \<noteq> Null) ks"
        using st(3) stored(3) by (cases b) simp_all
      show "(if b then p else Null) \<noteq> Null \<longrightarrow>
          symbol_at (hp c') (if b then p else Null) = Some (new_symbol i op)
          \<and> arr_get q (nat i) (hp c') = Some (if b then p else Null)"
        using stored(7,8) same_store_obj_at [OF same] same_store_arr_get [OF same]
        by (simp add: symbol_at_Some del: obj_at.simps)
    qed
  qed
qed

text \<open>\<open>marpaWrapper_g_addSymbolp\<close>: what libmarpa is asked for, and the table afterwards.\<close>

lemma addSymbol_run:
  assumes R: "wrapper_rep w (hp c) syms rules progs g" and W: "ready W"
    and r: "r = fst (call W (G (Marpa_g_symbol_new (marpaGrammarp w))) c)"
    and i: "ret r = - 2 \<or> next_id (sizeMarpaWrapperSymboli w) syms (ret r)"
  obtains p q m c' syms' ks where
    "marpaWrapper_g_addSymbolp W (Some w) op c = Some (p, Some (with_symbols q m (length syms') w), c')"
    "wrapper_rep (with_symbols q m (length syms') w) (hp c') syms' rules progs g"
    "made c c' ((G (Marpa_g_symbol_new (marpaGrammarp w)), r) # ks)"
    "(p = Null \<and> syms' = syms \<and> ks = [] \<and> (ret r = - 2 \<or> \<not> (\<forall>k. avail (hp c) k)))
     \<or> (ret r \<noteq> - 2 \<and> syms' = entered syms (nat (ret r)) (SymbolObj (new_symbol (ret r) op))
        \<and> answered (asked_for (symbol_settings (marpaGrammarp w) (ret r) (symbolOption (new_symbol (ret r) op))))
            (p \<noteq> Null) ks)"
    "p \<noteq> Null \<longrightarrow> symbol_at (hp c') p = Some (new_symbol (ret r) op) \<and> arr_get q (nat (ret r)) (hp c') = Some p"
proof -
  let ?k = "G (Marpa_g_symbol_new (marpaGrammarp w)) :: ('b, 'c) call"
  have nq: "\<not> error_query ?k" by (simp add: error_query_def)
  have n: "with_symbols (marpaWrapperSymbolpp w) (sizeMarpaWrapperSymboli w) (length syms) w = w"
    using R by (cases w) (simp add: with_symbols_def wrapper_rep_def)
  from checked_run [where good = "\<lambda>i. i \<noteq> - 2" and w = w, OF W wrapper_heap_ok [OF R] nq] obtain c1 where
    ch: "checked W w ?k (\<lambda>i. i \<noteq> - 2) c = Some (if ret r \<noteq> - 2 then Some r else None, c1)"
    "steps c c1 [(?k, r)]"
    unfolding r by blast
  have R1: "wrapper_rep w (hp c1) syms rules progs g"
    using wrapper_same_store [OF R] ch(2) by (simp add: steps_def)
  show thesis
  proof (cases "ret r = - 2")
    case True
    show thesis
      using ch True R1 n
      by (intro that [of Null "marpaWrapperSymbolpp w" "sizeMarpaWrapperSymboli w" syms c1 "[]"])
        (simp_all add: marpaWrapper_g_addSymbolp_def steps_def)
  next
    case False
    with i have nx: "next_id (sizeMarpaWrapperSymboli w) syms (ret r)" by simp
    obtain p q m c' syms' ks where A:
      "internal_g_addSymbolp W w (ret r) op c1 = Some (p, with_symbols q m (length syms') w, c')"
      "wrapper_rep (with_symbols q m (length syms') w) (hp c') syms' rules progs g" "made c1 c' ks"
      "(p = Null \<and> syms' = syms \<and> ks = [] \<and> \<not> (\<forall>k. avail (hp c1) k))
       \<or> (syms' = entered syms (nat (ret r)) (SymbolObj (new_symbol (ret r) op))
          \<and> answered (asked_for (symbol_settings (marpaGrammarp w) (ret r) (symbolOption (new_symbol (ret r) op))))
              (p \<noteq> Null) ks)"
      "p \<noteq> Null \<longrightarrow> symbol_at (hp c') p = Some (new_symbol (ret r) op) \<and> arr_get q (nat (ret r)) (hp c') = Some p"
      by (rule internal_addSymbol_run [OF R1 W nx, of op])
    have av: "avail (hp c1) = avail (hp c)" using ch(2) by (simp add: steps_def same_store_def)
    have M: "made c c' ((?k, r) # ks)"
      using made_trans [OF _ A(3), of c "[(?k, r)]"] ch(2) by (simp add: steps_def)
    have E: "marpaWrapper_g_addSymbolp W (Some w) op c = Some (p, Some (with_symbols q m (length syms') w), c')"
      using ch(1) False A(1) by (simp add: marpaWrapper_g_addSymbolp_def)
    show thesis
      by (rule that [OF E A(2) M _ A(5)]) (use A(4) [unfolded av] False in blast)
  qed
qed

section \<open>Adding a rule\<close>

lemma wrapper_rules_count: "wrapper_rep w h syms rules progs g \<Longrightarrow>
  w\<lparr>marpaWrapperRulepp := q, sizeMarpaWrapperRulei := m\<rparr> = with_rules q m (length rules) w"
  by (cases w) (simp add: with_rules_def wrapper_rep_def)

definition rule_settings :: "int \<Rightarrow> int \<Rightarrow> 'd marpaWrapperRuleOption \<Rightarrow> (bool \<times> ('d, 'v) call \<times> (int \<Rightarrow> bool)) list" where
  "rule_settings g i opts = [(nullRanksHighb opts, G (Marpa_g_rule_null_high_set g i 1), \<lambda>r. r \<noteq> - 2)]"

text \<open>The calls for the rank and the null ranking of a rule that is in the table.\<close>

lemma rule_rank_run:
  assumes W: "ready W" and ok: "heap_ok (hp c)"
  shows "\<exists>b c' ks. (if ranki opts \<noteq> 0
      then (let (r1, d1) = call W (G (Marpa_g_rule_rank_set g i (ranki opts))) c;
                (r2, d2) = call W (G (Marpa_g_error g')) d1 in
            if ret r2 \<noteq> MARPA_ERR_NONE then do { d3 \<leftarrow> log_marpa_g_error W w d2; Some (False, d3) }
            else Some (True, d2))
      else Some (True, c)) = Some (b, c') \<and> steps c c' ks
    \<and> map fst ks = (if ranki opts \<noteq> 0 then [G (Marpa_g_rule_rank_set g i (ranki opts))] else [])"
proof (cases "ranki opts = 0")
  case True
  then show ?thesis by (intro exI [of _ True] exI [of _ c] exI [of _ "[]"]) simp
next
  case False
  let ?k1 = "G (Marpa_g_rule_rank_set g i (ranki opts)) :: ('b, 'c) call"
    and ?k2 = "G (Marpa_g_error g') :: ('b, 'c) call"
  define r1 d1 where "r1 = fst (call W ?k1 c)" and "d1 = snd (call W ?k1 c)"
  define r2 d2 where "r2 = fst (call W ?k2 d1)" and "d2 = snd (call W ?k2 d1)"
  have eq: "call W ?k1 c = (r1, d1)" "call W ?k2 d1 = (r2, d2)"
    by (simp_all add: r1_def d1_def r2_def d2_def)
  have s1: "steps c d1 [(?k1, r1)]" unfolding r1_def d1_def by (rule steps_call) (simp add: error_query_def)
  have s2: "steps d1 d2 []" unfolding d2_def by (simp add: steps_def made_query error_query_def)
  have s: "steps c d2 [(?k1, r1)]" using steps_trans [OF s1 s2] by simp
  show ?thesis
  proof (cases "ret r2 = MARPA_ERR_NONE")
    case True
    with False eq s show ?thesis
      by (intro exI [of _ True] exI [of _ d2] exI [of _ "[(?k1, r1)]"]) simp
  next
    case bad: False
    from log_marpa_g_error_logs [OF W steps_heap_ok [OF s ok], of w] obtain d3 where
      "log_marpa_g_error W w d2 = Some d3" "logged d2 d3"
      by (auto simp: logs_def)
    with bad False eq steps_trans [OF s steps_logged] show ?thesis
      by (intro exI [of _ False] exI [of _ d3] exI [of _ "[(?k1, r1)]"]) simp
  qed
qed

lemma internal_addRule_run:
  assumes R: "wrapper_rep w (hp c) syms rules progs g" and W: "ready W"
    and i: "next_id (sizeMarpaWrapperRulei w) rules i"
  obtains p q m c' rules' ks where
    "internal_g_addRulep W w i opts c = Some (p, with_rules q m (length rules') w, c')"
    "wrapper_rep (with_rules q m (length rules') w) (hp c') syms rules' progs g" "made c c' ks"
    "(p = Null \<and> rules' = rules \<and> ks = [] \<and> \<not> (\<forall>k. avail (hp c) k))
     \<or> rules' = entered rules (nat i) (RuleObj \<lparr>marpaRuleIdi = i, ruleOption = opts\<rparr>)"
    "p \<noteq> Null \<longrightarrow> rule_at (hp c') p = Some \<lparr>marpaRuleIdi = i, ruleOption = opts\<rparr>
       \<and> arr_get q (nat i) (hp c') = Some p"
    "set (map fst ks) \<subseteq> {G (Marpa_g_rule_rank_set (marpaGrammarp w) i (ranki opts)),
       G (Marpa_g_rule_null_high_set (marpaGrammarp w) i 1)}"
proof -
  note result = that
  let ?x = "RuleObj \<lparr>marpaRuleIdi = i, ruleOption = opts\<rparr> :: ('b, 'c) obj"
  from i have i': "0 \<le> i" "i < int INT_MAX" "length rules \<le> nat i"
    "one_turn (sizeMarpaWrapperRulei w) (Suc (nat i))" "sizeMarpaWrapperRulei w \<le> INT_MAX div 2"
    by (simp_all add: next_id_def)
  from R obtain v where v: "table_rep (hp c) (marpaWrapperRulepp w) (sizeMarpaWrapperRulei w) rules v"
    and close: "\<forall>h' q m xs. table_rep h' q m xs v \<longrightarrow> wrapper_rep (with_rules q m (length xs) w) h' syms xs progs g"
    by (rule wrapper_rules)
  have logs: "logs (log_sys_error W w' s) (c\<lparr>hp := h\<rparr>)" if "heap_ok h" "length s < 1000" for w' s h
    using that by (intro log_sys_error_logs [OF W]) simp_all
  have retreat: thesis
    if eq: "internal_g_addRulep W w i opts c = map_option (\<lambda>c2. (Null, with_rules q m (length rules) w, c2))
          (log_sys_error W (with_rules q m (length rules) w) s (c\<lparr>hp := h\<rparr>))"
    and t: "table_rep h q m rules v" and s: "length s < 1000" and av: "\<not> (\<forall>k. avail (hp c) k)" for q m h s
  proof -
    from logs [OF table_rep_heap [OF t] s] obtain c2 where
      c2: "log_sys_error W (with_rules q m (length rules) w) s (c\<lparr>hp := h\<rparr>) = Some c2" "logged (c\<lparr>hp := h\<rparr>) c2"
      by (auto simp: logs_def)
    have "wrapper_rep (with_rules q m (length rules) w) (hp c2) syms rules progs g"
      using wrapper_same_store [OF close [rule_format, OF t]] logged_store [OF c2(2)] by simp
    moreover have "made c c2 []" using made_logged [OF c2(2)] by simp
    ultimately show thesis using eq c2(1) av by (intro result [of Null q m rules c2 "[]"]) simp_all
  qed
  note w1 = wrapper_rules_count [OF R]
  show thesis
    using v i'(5,3,4)
  proof (cases rule: add_table_entry [where x = ?x])
    case (no_room h1)
    show thesis
      using no_room(1,3) i'(1,2)
      by (intro retreat [OF _ no_room(2), of "''manageBuf_createp()''"])
        (auto simp: internal_g_addRulep_def id_plus_one w1 map_option_case split: option.splits)
  next
    case (no_object q m h1 h2)
    show thesis
      using no_object(1-3,5) i'(1,2)
      by (intro retreat [OF _ no_object(4), of "''malloc()''"])
        (auto simp: internal_g_addRulep_def id_plus_one w1 map_option_case split: option.splits)
  next
    case (stored q m h1 h2 h3 p)
    let ?w = "with_rules q m (Suc (nat i)) w" and ?rules = "entered rules (nat i) ?x"
    have w2: "w\<lparr>marpaWrapperRulepp := q, sizeMarpaWrapperRulei := m, nMarpaWrapperRulei := Suc (nat i)\<rparr> = ?w"
      by (simp add: with_rules_def)
    have len: "length ?rules = Suc (nat i)" using i'(3) by simp
    have R3: "wrapper_rep ?w h3 syms ?rules progs g" using close [rule_format, OF stored(6)] len by simp
    have ok: "heap_ok (hp (c\<lparr>hp := h3\<rparr>))" using wrapper_heap_ok [OF R3] by simp
    from rule_rank_run [OF W ok, of opts "marpaGrammarp w" i "marpaGrammarp w" ?w] obtain b c4 ks where
      rk: "(if ranki opts \<noteq> 0
        then (let (r1, d1) = call W (G (Marpa_g_rule_rank_set (marpaGrammarp w) i (ranki opts))) (c\<lparr>hp := h3\<rparr>);
                (r2, d2) = call W (G (Marpa_g_error (marpaGrammarp w))) d1 in
            if ret r2 \<noteq> MARPA_ERR_NONE then do { d3 \<leftarrow> log_marpa_g_error W ?w d2; Some (False, d3) }
            else Some (True, d2))
        else Some (True, c\<lparr>hp := h3\<rparr>)) = Some (b, c4)" "steps (c\<lparr>hp := h3\<rparr>) c4 ks"
        "map fst ks = (if ranki opts \<noteq> 0 then [G (Marpa_g_rule_rank_set (marpaGrammarp w) i (ranki opts))] else [])"
      by blast
    have fin: thesis if "internal_g_addRulep W w i opts c = Some (p', ?w, c5)" "steps (c\<lparr>hp := h3\<rparr>) c5 ls"
      "p' = Null \<or> p' = p" "set (map fst ls) \<subseteq> {G (Marpa_g_rule_rank_set (marpaGrammarp w) i (ranki opts)),
       G (Marpa_g_rule_null_high_set (marpaGrammarp w) i 1)}" for p' c5 ls
    proof -
      have same: "same_store h3 (hp c5)" using that(2) by (simp add: steps_def)
      show thesis
        using that(1,3,4) len wrapper_same_store [OF R3 same] that(2) stored(7,8)
          same_store_obj_at [OF same] same_store_arr_get [OF same]
        by (intro result [of p' q m ?rules c5 ls])
          (auto simp: steps_def rule_at_Some simp del: obj_at.simps)
    qed
    show thesis
    proof (cases b)
      case False
      with rk(1) have "internal_g_addRulep W w i opts c = Some (Null, ?w, c4)"
        using stored(1-5) i'(1,2) w2 by (simp add: internal_g_addRulep_def id_plus_one)
      from fin [OF this rk(2)] rk(3) show thesis by (simp split: if_splits)
    next
      case True
      have nq: "\<forall>s \<in> set (rule_settings (marpaGrammarp w) i opts :: (bool \<times> ('b, 'c) call \<times> (int \<Rightarrow> bool)) list).
          \<not> error_query (fst (snd s))"
        by (simp add: rule_settings_def error_query_def)
      from settings_run [OF W steps_heap_ok [OF rk(2) ok] nq, of ?w] obtain b' c5 ls where
        st: "apply_settings W ?w (rule_settings (marpaGrammarp w) i opts) c4 = Some (b', c5)" "steps c4 c5 ls"
        "answered (asked_for (rule_settings (marpaGrammarp w) i opts :: (bool \<times> ('b, 'c) call \<times> (int \<Rightarrow> bool)) list)) b' ls"
        by blast
      have ls: "set (map fst ls) \<subseteq> {G (Marpa_g_rule_null_high_set (marpaGrammarp w) i 1)}"
        using st(3) by (auto simp: rule_settings_def split: if_splits)
      have "internal_g_addRulep W w i opts c = Some (if b' then p else Null, ?w, c5)"
        using stored(1-5) i'(1,2) w2 rk(1) True st(1)
        by (simp add: internal_g_addRulep_def id_plus_one rule_settings_def)
      moreover have "steps (c\<lparr>hp := h3\<rparr>) c5 (ks @ ls)" using steps_trans [OF rk(2) st(2)] .
      ultimately show thesis by (rule fin) (use rk(3) ls in \<open>auto split: if_splits\<close>)
    qed
  qed
qed

text \<open>The arguments of a rule: what has to be alive, and the request they stand for.\<close>

definition symbol_id :: "('d, 'v) obj heap \<Rightarrow> ptr \<Rightarrow> int" where
  "symbol_id h p = (case symbol_at h p of Some s \<Rightarrow> marpaSymbolIdi s | None \<Rightarrow> 0)"

definition rule_args_live :: "('d, 'v) obj heap \<Rightarrow> 'd marpaWrapperRuleOption \<Rightarrow> bool" where
  "rule_args_live h q \<longleftrightarrow> symbol_at h (lhsSymbolp q) \<noteq> None
     \<and> nRhsSymboli q \<le> length (rhsSymbolpp q) \<and> nRhsSymboli q \<le> INT_MAX
     \<and> (\<forall>i < nRhsSymboli q. symbol_at h (rhsSymbolpp q ! i) \<noteq> None)
     \<and> (separatorSymbolp q = Null \<or> symbol_at h (separatorSymbolp q) \<noteq> None)"

definition rule_request :: "('d, 'v) obj heap \<Rightarrow> int \<Rightarrow> 'd marpaWrapperRuleOption \<Rightarrow> ('d, 'v) call" where
  "rule_request h g q =
     (if sequenceb q
      then G (Marpa_g_sequence_new g (symbol_id h (lhsSymbolp q)) (symbol_id h (hd (rhsSymbolpp q)))
             (if separatorSymbolp q = Null then - 1 else symbol_id h (separatorSymbolp q))
             (minimumi q) (if properb q then MARPA_PROPER_SEPARATION else 0))
      else G (Marpa_g_rule_new g (symbol_id h (lhsSymbolp q))
             (map (symbol_id h) (take (nRhsSymboli q) (rhsSymbolpp q))) (int (nRhsSymboli q))))"

lemma rhs_ids_run:
  "i + n \<le> length ps \<Longrightarrow> \<forall>j < i + n. symbol_at h (ps ! j) \<noteq> None \<Longrightarrow>
     rhs_ids h ps i n = Some (map (symbol_id h) (take n (drop i ps)))"
proof (induction n arbitrary: i)
  case 0
  then show ?case by simp
next
  case (Suc n)
  obtain s where s: "symbol_at h (ps ! i) = Some s" using Suc.prems(2) by fastforce
  have "rhs_ids h ps (Suc i) n = Some (map (symbol_id h) (take n (drop (Suc i) ps)))"
    using Suc.prems by (intro Suc.IH) simp_all
  moreover have "take (Suc n) (drop i ps) = ps ! i # take n (drop (Suc i) ps)"
    using Suc.prems(1) by (simp add: Cons_nth_drop_Suc [symmetric])
  ultimately show ?case using s Suc.prems(1) by (simp add: symbol_id_def)
qed

lemma rule_call_run:
  assumes L: "rule_args_live h q" and s: "sequenceb q \<longrightarrow> nRhsSymboli q = 1"
  shows "\<exists>ids. rhs_ids h (rhsSymbolpp q) 0 (nRhsSymboli q) = Some ids
    \<and> rule_call h g q ids = Some (rule_request h g q)"
proof -
  let ?n = "nRhsSymboli q" and ?ps = "rhsSymbolpp q"
  have ids: "rhs_ids h ?ps 0 ?n = Some (map (symbol_id h) (take ?n ?ps))"
    using rhs_ids_run [of 0 ?n ?ps h] L by (simp add: rule_args_live_def)
  obtain l where l: "symbol_at h (lhsSymbolp q) = Some l" using L by (auto simp: rule_args_live_def)
  have n: "size_to_int ?n = int ?n"
    using L by (simp add: rule_args_live_def size_to_int_def Let_def INT_MAX_def UINT_MOD_def)
  have "rule_call h g q (map (symbol_id h) (take ?n ?ps)) = Some (rule_request h g q)"
  proof (cases "sequenceb q")
    case True
    with s L obtain x xs where x: "?ps = x # xs" "?n = 1"
      by (cases ?ps) (auto simp: rule_args_live_def)
    show ?thesis
    proof (cases "separatorSymbolp q = Null")
      case True
      with x l n \<open>sequenceb q\<close> show ?thesis by (simp add: rule_call_def rule_request_def symbol_id_def)
    next
      case False
      with L obtain t where "symbol_at h (separatorSymbolp q) = Some t" by (auto simp: rule_args_live_def)
      with False x l n \<open>sequenceb q\<close> show ?thesis by (simp add: rule_call_def rule_request_def symbol_id_def)
    qed
  next
    case False
    with l n show ?thesis by (simp add: rule_call_def rule_request_def symbol_id_def)
  qed
  with ids show ?thesis by blast
qed

lemma symbol_at_granted_raw: "heap_ok h \<Longrightarrow> symbol_at (granted Raw h) p = symbol_at h p"
  by (cases p) (auto simp: symbol_at_def)

lemma symbol_id_granted_raw: "heap_ok h \<Longrightarrow> symbol_id (granted Raw h) = symbol_id h"
  by (rule ext) (simp add: symbol_id_def symbol_at_granted_raw)

lemma rule_complaint_None:
  "rule_complaint (Some q) = None \<Longrightarrow> lhsSymbolp q \<noteq> Null \<and> (sequenceb q \<longrightarrow> nRhsSymboli q = 1 \<and> minimumi q \<in> {0, 1})"
  by (auto simp: rule_complaint_def split: if_splits)

lemma rule_complaint_short: "rule_complaint op = Some m \<Longrightarrow> length m < 1000"
  by (auto simp: rule_complaint_def split: option.splits if_splits)

text \<open>\<open>marpaWrapper_g_addRulep\<close>: the temporary array is gone, libmarpa was asked for the rule.\<close>

lemma addRule_run:
  assumes R: "wrapper_rep w (hp c) syms rules progs g" and W: "ready W"
    and args: "\<forall>q. op = Some q \<and> rule_complaint op = None \<longrightarrow> rule_args_live (hp c) q"
    and r: "\<forall>q. op = Some q \<longrightarrow> r = fst (call W (rule_request (hp c) (marpaGrammarp w) q) c)"
    and i: "ret r = - 2 \<or> next_id (sizeMarpaWrapperRulei w) rules (ret r)"
  obtains p q m c' rules' ks where
    "marpaWrapper_g_addRulep W (Some w) op c = Some (p, Some (with_rules q m (length rules') w), c')"
    "wrapper_rep (with_rules q m (length rules') w) (hp c') syms rules' progs g"
    "made c c' ks"
    "(p = Null \<and> rules' = rules)
     \<or> (\<exists>x. op = Some x \<and> rules' = entered rules (nat (ret r)) (RuleObj \<lparr>marpaRuleIdi = ret r, ruleOption = x\<rparr>))"
    "(ks = [] \<and> p = Null \<and> (rule_complaint op \<noteq> None \<or> \<not> (\<forall>k. avail (hp c) k)))
     \<or> (\<exists>x ls. op = Some x \<and> rule_complaint op = None
          \<and> ks = (rule_request (hp c) (marpaGrammarp w) x, r) # ls \<and> (ret r = - 2 \<longrightarrow> p = Null \<and> ls = []))"
    "p \<noteq> Null \<longrightarrow> (\<exists>x. op = Some x \<and> rule_at (hp c') p = Some \<lparr>marpaRuleIdi = ret r, ruleOption = x\<rparr>
       \<and> arr_get q (nat (ret r)) (hp c') = Some p)"
proof -
  note result = that
  have ok: "heap_ok (hp c)" using wrapper_heap_ok [OF R] .
  have n: "with_rules (marpaWrapperRulepp w) (sizeMarpaWrapperRulei w) (length rules) w = w"
    using R by (cases w) (simp add: with_rules_def wrapper_rep_def)
  have untouched: thesis
    if "marpaWrapper_g_addRulep W (Some w) op c = Some (Null, Some w, c')" "steps c c' []"
      "rule_complaint op \<noteq> None \<or> \<not> (\<forall>k. avail (hp c) k)" for c'
  proof (rule result [of Null "marpaWrapperRulepp w" "sizeMarpaWrapperRulei w" rules c' "[]"])
    show "wrapper_rep (with_rules (marpaWrapperRulepp w) (sizeMarpaWrapperRulei w) (length rules) w) (hp c')
        syms rules progs g"
      using wrapper_same_store [OF R] that(2) n by (simp add: steps_def)
  qed (use that n in \<open>simp_all add: steps_def\<close>)
  show thesis
  proof (cases "rule_complaint op")
    case (Some m)
    have "logs (log_error0 W w m) c"
      using rule_complaint_short [OF Some] by (intro log_error0_logs [OF W ok]) simp
    then obtain c1 where c1: "log_error0 W w m c = Some c1" "logged c c1" by (auto simp: logs_def)
    show thesis
      by (rule untouched [OF _ steps_logged [OF c1(2)]]) (simp_all add: marpaWrapper_g_addRulep_def Some c1(1))
  next
    case None
    then obtain x where x: "op = Some x" by (cases op) (simp_all add: rule_complaint_def)
    have cs: "lhsSymbolp x \<noteq> Null" "sequenceb x \<longrightarrow> nRhsSymboli x = 1"
      using rule_complaint_None None x by auto
    have L: "rule_args_live (hp c) x" using args x None by simp
    let ?k = "rule_request (hp c) (marpaGrammarp w) x"
    have rx: "r = fst (call W ?k c)" using r x by simp
    have nb: "nRhsSymboli x \<le> to_size (nRhsSymboli x * INT_BYTES) div INT_BYTES"
      using L by (simp add: rule_args_live_def INT_MAX_def INT_BYTES_def SIZE_MOD_def)
    define p h1 where "p = (if 0 < nRhsSymboli x then fst (malloc Raw (hp c)) else Null)"
      and "h1 = (if 0 < nRhsSymboli x then snd (malloc Raw (hp c)) else hp c)"
    have ph: "(if 0 < nRhsSymboli x then malloc Raw (hp c) else (Null, hp c)) = (p, h1)"
      by (simp add: p_def h1_def)
    show thesis
    proof (cases "0 < nRhsSymboli x \<and> p = Null")
      case True
      then have h1: "h1 = refused (hp c)" "\<not> (\<forall>k. avail (hp c) k)"
        by (auto simp: p_def h1_def malloc_eq split: if_splits)
      have "logs (log_sys_error W w ''malloc()'') (c\<lparr>hp := h1\<rparr>)"
        using ok h1 by (intro log_sys_error_logs [OF W]) simp_all
      then obtain c1 where c1: "log_sys_error W w ''malloc()'' (c\<lparr>hp := h1\<rparr>) = Some c1" "logged (c\<lparr>hp := h1\<rparr>) c1"
        by (auto simp: logs_def)
      have s: "steps c c1 []"
        using steps_logged [OF c1(2)] h1 same_store_trans [OF same_store_refused] by (auto simp: steps_def)
      show thesis
        by (rule untouched [OF _ s]) (use c1(1) x None True ph h1(2) in
          \<open>simp_all add: marpaWrapper_g_addRulep_def Let_def\<close>)
    next
      case False
      have h1: "p = Null \<and> h1 = hp c \<or> p = Ref (fresh (hp c)) \<and> h1 = granted Raw (hp c)"
        using False by (auto simp: p_def h1_def malloc_eq split: if_splits)
      have sym: "symbol_at h1 = symbol_at (hp c)" "symbol_id h1 = symbol_id (hp c)"
        using h1 symbol_at_granted_raw [OF ok] symbol_id_granted_raw [OF ok] by auto
      have "rule_args_live h1 x" using L by (simp add: rule_args_live_def sym)
      from rule_call_run [OF this cs(2), of "marpaGrammarp w"] obtain ids where
        ids: "rhs_ids h1 (rhsSymbolpp x) 0 (nRhsSymboli x) = Some ids"
        "rule_call h1 (marpaGrammarp w) x ids = Some (rule_request h1 (marpaGrammarp w) x)"
        by blast
      have k: "rule_request h1 (marpaGrammarp w) x = ?k"
        by (simp add: rule_request_def sym)
      define c1 where "c1 = snd (call W ?k (c\<lparr>hp := h1\<rparr>))"
      have cl: "call W ?k (c\<lparr>hp := h1\<rparr>) = (r, c1)"
        unfolding c1_def rx by (simp add: call_def Let_def)
      have hp1: "hp c1 = h1" by (simp add: c1_def)
      define h2 where "h2 = (if p = Null then h1 else drop_block (fresh (hp c)) h1)"
      have fr: "(if p \<noteq> Null then cfree p (hp c1) else Some (hp c1)) = Some h2"
        using h1 hp1 by (auto simp: h2_def)
      have st: "same_store (hp c) h2"
        using h1 ok by (auto simp: h2_def same_store_def heap_ok_drop_block fun_upd_idem)
      have nq: "\<not> error_query ?k" by (simp add: rule_request_def error_query_def)
      have "made (c\<lparr>hp := h1\<rparr>) c1 [(?k, r)]"
        using made_call [OF nq, of "c\<lparr>hp := h1\<rparr>" W] cl by simp
      then have md: "made c (c1\<lparr>hp := h2\<rparr>) [(?k, r)]" by simp
      have R2: "wrapper_rep w (hp (c1\<lparr>hp := h2\<rparr>)) syms rules progs g"
        using wrapper_same_store [OF R st] by simp
      have run: "marpaWrapper_g_addRulep W (Some w) op c =
          (if ret r = - 2
           then do { c3 \<leftarrow> log_marpa_g_error W w (c1\<lparr>hp := h2\<rparr>); Some (Null, Some w, c3) }
           else do {
             (p', w', c3) \<leftarrow> internal_g_addRulep W w (ret r) x (c1\<lparr>hp := h2\<rparr>);
             Some (p', Some w', c3)
           })"
        using None x ph nb ids k cl fr
        by (simp only: marpaWrapper_g_addRulep_def Let_def option.case prod.case bind.bind_lunit
            require_True if_False False)
      show thesis
      proof (cases "ret r = - 2")
        case True
        from log_marpa_g_error_logs [OF W wrapper_heap_ok [OF R2], of w] obtain c3 where
          c3: "log_marpa_g_error W w (c1\<lparr>hp := h2\<rparr>) = Some c3" "logged (c1\<lparr>hp := h2\<rparr>) c3"
          by (auto simp: logs_def)
        have R3: "wrapper_rep w (hp c3) syms rules progs g"
          by (rule wrapper_same_store [OF R2 logged_store [OF c3(2)]])
        have "made c c3 [(?k, r)]" using made_trans [OF md made_logged [OF c3(2)]] by simp
        then show thesis
          using run c3(1) True R3 n x None
          by (intro result [of Null "marpaWrapperRulepp w" "sizeMarpaWrapperRulei w" rules c3 "[(?k, r)]"])
            simp_all
      next
        case nf: False
        with i have nx: "next_id (sizeMarpaWrapperRulei w) rules (ret r)" by simp
        obtain p' q m c' rules' ks where A:
          "internal_g_addRulep W w (ret r) x (c1\<lparr>hp := h2\<rparr>) = Some (p', with_rules q m (length rules') w, c')"
          "wrapper_rep (with_rules q m (length rules') w) (hp c') syms rules' progs g" "made (c1\<lparr>hp := h2\<rparr>) c' ks"
          "(p' = Null \<and> rules' = rules \<and> ks = [] \<and> \<not> (\<forall>k. avail (hp (c1\<lparr>hp := h2\<rparr>)) k))
           \<or> rules' = entered rules (nat (ret r)) (RuleObj \<lparr>marpaRuleIdi = ret r, ruleOption = x\<rparr>)"
          "p' \<noteq> Null \<longrightarrow> rule_at (hp c') p' = Some \<lparr>marpaRuleIdi = ret r, ruleOption = x\<rparr>
             \<and> arr_get q (nat (ret r)) (hp c') = Some p'"
          by (rule internal_addRule_run [OF R2 W nx])
        have E: "marpaWrapper_g_addRulep W (Some w) op c = Some (p', Some (with_rules q m (length rules') w), c')"
          using run nf A(1) by simp
        have M: "made c c' ((?k, r) # ks)" using made_trans [OF md A(3)] by simp
        show thesis
          by (rule result [OF E A(2) M]) (use A(4,5) x None nf in auto)
      qed
    qed
  qed
qed

end
