(* ===== verification/WrapperLife.thy ===== *)
theory WrapperLife
  imports WrapperGrammar
begin

text \<open>
  What creation, destruction and the grammar calls of a wrapper guarantee.
\<close>

section \<open>Destruction\<close>

text \<open>Freeing one owner.\<close>

lemma free_table_part:
  assumes J: "joins (ss @ s # ts) (store h)" and own: "table_own s pp m xs" and ok: "heap_ok h"
  obtains h' where "manageBuf_freev pp (length xs) h = Some h'" "joins (ss @ Map.empty # ts) (store h')"
    "heap_ok h'" "avail h' = avail h"
proof -
  from J own ok obtain v where v: "table_rep h pp m xs v" "refits ss ts v" by (rule take_table)
  from tab.free_law [OF v(1)] obtain h' where
    h': "manageBuf_freev pp (length xs) h = Some h'" "store h' = v" "heap_ok h'" "avail h' = avail h"
    by blast
  have "joins (ss @ Map.empty # ts) (store h')"
    using refitsD [OF v(2), of Map.empty] h'(2) by simp
  with h' show thesis by (intro that)
qed

lemma free_ptr_part:
  assumes J: "joins (ss @ s # ts) (store h)" and own: "ptr_own s p P" and ok: "heap_ok h"
  obtains h' where "cfree p h = Some h'" "(if p \<noteq> Null then cfree p h else Some h) = Some h'"
    "joins (ss @ Map.empty # ts) (store h')" "heap_ok h'" "avail h' = avail h"
proof -
  from J own obtain v where v: "refits ss ts v" "p = Null \<longrightarrow> store h = v"
    "\<forall>a. p = Ref a \<longrightarrow> v a = None \<and> (\<exists>b. P b \<and> store h = v(a \<mapsto> b))"
    by (rule take_ptr)
  have J': "joins (ss @ Map.empty # ts) v" using refitsD [OF v(1), of Map.empty] by simp
  show thesis
  proof (cases p)
    case Null
    with v(2) J' ok show thesis by (intro that [of h]) simp_all
  next
    case (Ref a)
    with v(3) obtain b where b: "v a = None" "store h = v(a \<mapsto> b)" by blast
    then have "store (drop_block a h) = v" by (simp add: fun_upd_idem)
    with Ref b J' ok show thesis
      by (intro that [of "drop_block a h"]) (simp_all add: heap_ok_drop_block)
  qed
qed

lemma joins_empties: "joins [Map.empty, Map.empty, Map.empty, Map.empty, Map.empty, Map.empty, g] t \<Longrightarrow> t = g"
  by (auto elim!: joins_ConsE joins_NilE)

definition unrefs :: "('e, 'd) marpaWrapper \<Rightarrow> ('d, 'v) call list" where
  "unrefs w = (if marpaRecognizerp w \<noteq> 0 then [R (Marpa_r_unref (marpaRecognizerp w))] else [])
     @ (if marpaGrammarp w \<noteq> 0 then [G (Marpa_g_unref (marpaGrammarp w))] else [])"

lemma destroyv_run:
  assumes R: "wrapper_rep w (hp c) syms rules progs g"
  obtains c' ks where "marpaWrapper_destroyv W (Some (Some w)) c = Some (Some None, c')"
    "store (hp c') = g" "heap_ok (hp c')" "avail (hp c') = avail (hp c)" "made c c' ks" "map fst ks = unrefs w"
proof -
  define c1 where "c1 = (if marpaRecognizerp w \<noteq> 0 then snd (call W (R (Marpa_r_unref (marpaRecognizerp w))) c) else c)"
  define c2 where "c2 = (if marpaGrammarp w \<noteq> 0 then snd (call W (G (Marpa_g_unref (marpaGrammarp w))) c1) else c1)"
  have hp2: "hp c2 = hp c" by (simp add: c2_def c1_def)
  have m1: "made c c1 (if marpaRecognizerp w \<noteq> 0
      then [(R (Marpa_r_unref (marpaRecognizerp w)), fst (call W (R (Marpa_r_unref (marpaRecognizerp w))) c))] else [])"
    using made_call [of "R (Marpa_r_unref (marpaRecognizerp w))" c W] by (simp add: c1_def error_query_def)
  have m2: "made c1 c2 (if marpaGrammarp w \<noteq> 0
      then [(G (Marpa_g_unref (marpaGrammarp w)), fst (call W (G (Marpa_g_unref (marpaGrammarp w))) c1))] else [])"
    using made_call [of "G (Marpa_g_unref (marpaGrammarp w))" c1 W] by (simp add: c2_def error_query_def)
  obtain ks where ks: "made c c2 ks" "map fst ks = unrefs w"
    using made_trans [OF m1 m2] that by (intro that) (auto simp: unrefs_def)
  from R obtain s1 s2 s3 s4 s5 s6 where W: "heap_ok (hp c2)" "nMarpaWrapperSymboli w = length syms"
    "nMarpaWrapperRulei w = length rules" "nMarpaWrapperProgressi w = length progs"
    "table_own s1 (marpaWrapperSymbolpp w) (sizeMarpaWrapperSymboli w) syms"
    "table_own s2 (marpaWrapperRulepp w) (sizeMarpaWrapperRulei w) rules"
    "table_own s3 (marpaWrapperProgresspp w) (sizeMarpaWrapperProgressi w) progs"
    "ptr_own s4 (expectedMarpaSymbolIdArrayp w) (\<lambda>b. \<exists>xs. b = Obj (IntsObj xs))"
    "ptr_own s5 (expectedMarpaWrapperSymbolArraypp w) (\<lambda>b. \<exists>ps. b = Arr ps)"
    "ptr_own s6 (wrapSelfp w) (\<lambda>b. b = Raw)"
    and J: "joins ([] @ s1 # [s2, s3, s4, s5, s6, g]) (store (hp c2))"
    unfolding wrapper_rep_def hp2 by auto
  let ?e = "Map.empty :: nat \<rightharpoonup> ('b, 'c) obj block"
  from J W(5,1) obtain h1 where h1: "manageBuf_freev (marpaWrapperSymbolpp w) (length syms) (hp c2) = Some h1"
    "joins ([] @ ?e # [s2, s3, s4, s5, s6, g]) (store h1)" "heap_ok h1" "avail h1 = avail (hp c2)"
    by (rule free_table_part)
  then have "joins ([?e] @ s2 # [s3, s4, s5, s6, g]) (store h1)" by simp
  from this W(6) h1(3) obtain h2 where h2: "manageBuf_freev (marpaWrapperRulepp w) (length rules) h1 = Some h2"
    "joins ([?e] @ ?e # [s3, s4, s5, s6, g]) (store h2)" "heap_ok h2" "avail h2 = avail h1"
    by (rule free_table_part)
  then have "joins ([?e, ?e] @ s3 # [s4, s5, s6, g]) (store h2)" by simp
  from this W(7) h2(3) obtain h3 where h3: "manageBuf_freev (marpaWrapperProgresspp w) (length progs) h2 = Some h3"
    "joins ([?e, ?e] @ ?e # [s4, s5, s6, g]) (store h3)" "heap_ok h3" "avail h3 = avail h2"
    by (rule free_table_part)
  then have "joins ([?e, ?e, ?e] @ s4 # [s5, s6, g]) (store h3)" by simp
  from this W(8) h3(3) obtain h4 where
    h4: "(if expectedMarpaSymbolIdArrayp w \<noteq> Null then cfree (expectedMarpaSymbolIdArrayp w) h3 else Some h3) = Some h4"
    "joins ([?e, ?e, ?e] @ ?e # [s5, s6, g]) (store h4)" "heap_ok h4" "avail h4 = avail h3"
    by (rule free_ptr_part)
  then have "joins ([?e, ?e, ?e, ?e] @ s5 # [s6, g]) (store h4)" by simp
  from this W(9) h4(3) obtain h5 where
    h5: "(if expectedMarpaWrapperSymbolArraypp w \<noteq> Null then cfree (expectedMarpaWrapperSymbolArraypp w) h4
        else Some h4) = Some h5"
    "joins ([?e, ?e, ?e, ?e] @ ?e # [s6, g]) (store h5)" "heap_ok h5" "avail h5 = avail h4"
    by (rule free_ptr_part)
  then have "joins ([?e, ?e, ?e, ?e, ?e] @ s6 # [g]) (store h5)" by simp
  from this W(10) h5(3) obtain h6 where h6: "cfree (wrapSelfp w) h5 = Some h6"
    "joins ([?e, ?e, ?e, ?e, ?e] @ ?e # [g]) (store h6)" "heap_ok h6" "avail h6 = avail h5"
    by (rule free_ptr_part)
  have run: "marpaWrapper_destroyv W (Some (Some w)) c = Some (Some None, c2\<lparr>hp := h6\<rparr>)"
    unfolding marpaWrapper_destroyv_def option.case Let_def c1_def [symmetric] c2_def [symmetric] W(2-4)
    by (simp only: h1(1) h2(1) h3(1) h4(1) h5(1) h6(1) bind.bind_lunit)
  show thesis
    by (rule that [OF run])
      (use joins_empties h6 h5(4) h4(4) h3(4) h2(4) h1(4) ks hp2 in simp_all)
qed

section \<open>Creation\<close>

lemma new_wrapper_rep:
  assumes "heap_ok h"
  shows "wrapper_rep (new_wrapper (Ref (fresh h)) opts) (granted Raw h) [] [] [] (store h)"
proof (rule wrapper_repI [where ?s1.0 = Map.empty and ?s2.0 = Map.empty and ?s3.0 = Map.empty
      and ?s4.0 = Map.empty and ?s5.0 = Map.empty and ?s6.0 = "[fresh h \<mapsto> Raw]"])
  have f: "store h (fresh h) = None" using assms by simp
  have "joins [store h] (store h)" using joins.part [OF joins.none, of "store h"] by simp
  then have "joins [[fresh h \<mapsto> Raw], store h] ([fresh h \<mapsto> Raw] ++ store h)"
    by (rule joins.part) (use f in auto)
  moreover have "[fresh h \<mapsto> Raw] ++ store h = store (granted Raw h)"
    by (rule ext) (use f in \<open>auto simp: map_add_def split: option.splits\<close>)
  ultimately have J: "joins [[fresh h \<mapsto> Raw], store h] (store (granted Raw h))" by simp
  have E: "joins (Map.empty # ss) t" if "joins ss t"
    for ss and t :: "nat \<rightharpoonup> ('a, 'b) obj block"
    using joins.part [OF that, of Map.empty] by simp
  show "joins [Map.empty, Map.empty, Map.empty, Map.empty, Map.empty, [fresh h \<mapsto> Raw], store h] (store (granted Raw h))"
    by (intro E J)
qed (use assms in \<open>simp_all add: new_wrapper_def table_own_empty ptr_own_Ref\<close>)

text \<open>The grammars taken from libmarpa and given back in a list of calls.\<close>

definition grammars_made :: "(('d, 'v) call \<times> 'v reply) list \<Rightarrow> int list" where
  "grammars_made ks = List.map_filter (\<lambda>(k, r). case k of G Marpa_g_new \<Rightarrow> if ret r = 0 then None else Some (ret r) | _ \<Rightarrow> None) ks"

definition grammars_dropped :: "(('d, 'v) call \<times> 'v reply) list \<Rightarrow> int list" where
  "grammars_dropped ks = List.map_filter (\<lambda>(k, r). case k of G (Marpa_g_unref g) \<Rightarrow> Some g | _ \<Rightarrow> None) ks"

lemma grammars_append [simp]:
  "grammars_made (ks @ ls) = grammars_made ks @ grammars_made ls"
  "grammars_dropped (ks @ ls) = grammars_dropped ks @ grammars_dropped ls"
  by (simp_all add: grammars_made_def grammars_dropped_def map_filter_append)

lemma grammars_unrefs:
  assumes "map fst ks = unrefs w"
  shows "grammars_made ks = [] \<and> grammars_dropped ks = (if marpaGrammarp w \<noteq> 0 then [marpaGrammarp w] else [])"
  using assms
  by (cases "marpaRecognizerp w = 0"; cases "marpaGrammarp w = 0")
    (auto simp: unrefs_def grammars_made_def grammars_dropped_def List.map_filter_def)

lemma give_up_run:
  assumes "wrapper_rep w (hp c) [] [] [] g" "logs log c"
  shows "\<exists>c' ks. give_up W w log c = Some (None, c') \<and> store (hp c') = g \<and> heap_ok (hp c') \<and> made c c' ks
    \<and> grammars_made ks = [] \<and> grammars_dropped ks = (if marpaGrammarp w \<noteq> 0 then [marpaGrammarp w] else [])"
proof -
  from assms(2) obtain c1 where c1: "log c = Some c1" "logged c c1" by (auto simp: logs_def)
  from destroyv_run [OF wrapper_same_store [OF assms(1) logged_store [OF c1(2)]], of W] obtain c' ks where
    d: "marpaWrapper_destroyv W (Some (Some w)) c1 = Some (Some None, c')" "store (hp c') = g" "heap_ok (hp c')"
    "made c1 c' ks" "map fst ks = unrefs w" .
  have "made c c' ks" using made_trans [OF made_logged [OF c1(2)] d(4)] by simp
  with c1 d grammars_unrefs [OF d(5)] show ?thesis by (auto simp: give_up_def)
qed

text \<open>The version check as one step.\<close>

definition version_check ::
  "('e, 'd, 'v) world \<Rightarrow> 'e marpaWrapperOption \<Rightarrow> ('e, 'd, 'v) wstate \<Rightarrow> int \<times> ('e, 'd, 'v) wstate" where
  "version_check W opts c =
     (case versionip opts of
        None \<Rightarrow> (MARPA_ERR_NONE, c)
      | Some (x, y, z) \<Rightarrow> (let (r, c3) = call W (G (Marpa_check_version x y z)) c in (ret r, c3)))"

lemma version_check_run:
  fixes W :: "('e, 'd, 'v) world"
  shows "hp (snd (version_check W opts c)) = hp c \<and> (\<exists>ks. made c (snd (version_check W opts c)) ks
     \<and> grammars_made ks = [] \<and> grammars_dropped ks = [])"
proof (cases "versionip opts")
  case None
  then show ?thesis
    by (auto simp: version_check_def grammars_made_def grammars_dropped_def List.map_filter_def
        intro!: exI [of _ "[]"])
next
  case (Some v)
  obtain x y z where v: "v = (x, y, z)" by (cases v)
  have "\<not> error_query (G (Marpa_check_version x y z) :: ('d, 'v) call)" by (simp add: error_query_def)
  from made_call [OF this, of c W] Some v show ?thesis
    by (auto simp: version_check_def split_def Let_def grammars_made_def grammars_dropped_def
        List.map_filter_def intro!: exI)
qed

lemma grammars_one:
  "grammars_made [(G Marpa_version, r)] = []" "grammars_dropped [(G Marpa_version, r)] = []"
  "grammars_made [(G Marpa_c_init, r)] = []" "grammars_dropped [(G Marpa_c_init, r)] = []"
  "grammars_made [(G Marpa_g_new, r)] = (if ret r = 0 then [] else [ret r])"
  "grammars_dropped [(G Marpa_g_new, r)] = []"
  "grammars_made [(G (Marpa_g_force_valued g), r)] = []" "grammars_dropped [(G (Marpa_g_force_valued g), r)] = []"
  "grammars_made [] = []" "grammars_dropped [] = []"
  by (simp_all add: grammars_made_def grammars_dropped_def List.map_filter_def)

text \<open>One call of the constructor: what it adds to the record.\<close>

definition so_far :: "('e, 'd, 'v) wstate \<Rightarrow> ('e, 'd, 'v) wstate \<Rightarrow> int list \<Rightarrow> int list \<Rightarrow> bool" where
  "so_far c c' ms ds \<longleftrightarrow> (\<exists>ks. made c c' ks \<and> grammars_made ks = ms \<and> grammars_dropped ks = ds)"

lemma so_far_trans: "so_far c c1 ms ds \<Longrightarrow> so_far c1 c2 ms' ds' \<Longrightarrow> so_far c c2 (ms @ ms') (ds @ ds')"
  unfolding so_far_def by (metis made_trans grammars_append)

lemma so_far_call:
  "\<not> error_query k \<Longrightarrow> so_far c (snd (call W k c)) (grammars_made [(k, fst (call W k c))])
     (grammars_dropped [(k, fst (call W k c))])"
  unfolding so_far_def using made_call by blast

lemma newp_run:
  fixes W :: "('e, 'd, 'v) world"
  assumes W: "ready W" and ok: "heap_ok (hp c)"
  obtains wp c' ms ds where "marpaWrapper_newp W op c = Some (wp, c')" "so_far c c' ms ds" "heap_ok (hp c')"
    "wp = None \<longrightarrow> store (hp c') = store (hp c) \<and> ms = ds"
    "\<forall>w. wp = Some w \<longrightarrow> wrapper_rep w (hp c') [] [] [] (store (hp c)) \<and> marpaRecognizerp w = 0
       \<and> marpaGrammarp w \<noteq> 0 \<and> ms = [marpaGrammarp w] \<and> ds = []
       \<and> marpaWrapperOption w = (case op of None \<Rightarrow> default_wrapperOption | Some x \<Rightarrow> x)"
proof -
  note result = that
  let ?opts = "case op of None \<Rightarrow> default_wrapperOption | Some x \<Rightarrow> x"
  show thesis
  proof (cases "avail (hp c) (asked (hp c))")
    case False
    have "marpaWrapper_newp W op c = Some (None, c\<lparr>hp := refused (hp c)\<rparr>)"
      using False by (simp add: marpaWrapper_newp_def malloc_eq marpaWrapper_logExt_def)
    moreover have "so_far c (c\<lparr>hp := refused (hp c)\<rparr>) [] []"
      unfolding so_far_def using grammars_one(9,10) by (metis made_hp(1) made_refl)
    ultimately show thesis using ok by (intro result [of None "c\<lparr>hp := refused (hp c)\<rparr>" "[]" "[]"]) simp_all
  next
    case True
    let ?w = "new_wrapper (Ref (fresh (hp c))) ?opts :: ('e, 'd) marpaWrapper"
    let ?c1 = "c\<lparr>hp := granted Raw (hp c)\<rparr>"
    define rv c2 where "rv = fst (call W (G Marpa_version) ?c1)" and "c2 = snd (call W (G Marpa_version) ?c1)"
    define rc c3 where "rc = fst (version_check W ?opts c2)" and "c3 = snd (version_check W ?opts c2)"
    define ri c4 where "ri = fst (call W (G Marpa_c_init) c3)" and "c4 = snd (call W (G Marpa_c_init) c3)"
    define rg c5 where "rg = fst (call W (G Marpa_g_new) c4)" and "c5 = snd (call W (G Marpa_g_new) c4)"
    define rf c6 where "rf = fst (call W (G (Marpa_g_force_valued (ret rg))) c5)"
      and "c6 = snd (call W (G (Marpa_g_force_valued (ret rg))) c5)"
    let ?w1 = "?w\<lparr>marpaGrammarp := ret rg\<rparr>"
    have run: "marpaWrapper_newp W op c =
        (if ret rv < 0 then give_up W ?w (log_marpa_error W ?w (ret rv)) c2
         else if rc \<noteq> MARPA_ERR_NONE then give_up W ?w (log_marpa_error W ?w rc) c3
         else if ret rg = 0 then give_up W ?w1 (log_marpa_c_error W ?w1) c5
         else if ret rf < 0 then give_up W ?w1 (log_marpa_g_error W ?w1) c6
         else Some (Some ?w1, c6))"
      unfolding marpaWrapper_newp_def Let_def version_check_def [symmetric, unfolded Let_def]
      by (simp add: malloc_eq True split_def rv_def c2_def rc_def c3_def ri_def c4_def rg_def c5_def rf_def c6_def)
    have hps: "hp c2 = hp ?c1" "hp c3 = hp ?c1" "hp c4 = hp ?c1" "hp c5 = hp ?c1" "hp c6 = hp ?c1"
      using version_check_run [of W ?opts c2] by (simp_all add: c2_def c3_def c4_def c5_def c6_def)
    have s1: "so_far c ?c1 [] []"
      unfolding so_far_def using grammars_one(9,10) by (metis made_hp(1) made_refl)
    have s2: "so_far c c2 [] []"
      using so_far_trans [OF s1 so_far_call [of "G Marpa_version" ?c1 W]]
      by (simp add: error_query_def c2_def grammars_one)
    have s3: "so_far c c3 [] []"
      using version_check_run [of W ?opts c2] so_far_trans [OF s2, of c3 "[]" "[]"]
      by (simp add: so_far_def c3_def)
    have s4: "so_far c c4 [] []"
      using so_far_trans [OF s3 so_far_call [of "G Marpa_c_init" c3 W]]
      by (simp add: error_query_def c4_def grammars_one)
    have s5: "so_far c c5 (if ret rg = 0 then [] else [ret rg]) []"
      using so_far_trans [OF s4 so_far_call [of "G Marpa_g_new" c4 W]]
      by (simp add: error_query_def c5_def grammars_one rg_def split: if_splits)
    have s6: "so_far c c6 (if ret rg = 0 then [] else [ret rg]) []"
      using so_far_trans [OF s5 so_far_call [of "G (Marpa_g_force_valued (ret rg))" c5 W]]
      by (simp add: error_query_def c6_def grammars_one)
    have R: "wrapper_rep ?w (hp ?c1) [] [] [] (store (hp c))" "wrapper_rep ?w1 (hp ?c1) [] [] [] (store (hp c))"
      using new_wrapper_rep [OF ok, of ?opts] by simp_all
    have ok1: "heap_ok (hp ?c1)" using ok by simp
    have fail: thesis
      if "marpaWrapper_newp W op c = give_up W u lg d" "u = ?w \<and> ms = [] \<or> u = ?w1 \<and> ms = (if ret rg = 0 then [] else [ret rg])"
        "hp d = hp ?c1" "logs lg d" "so_far c d ms []" for u lg d ms
    proof -
      have "wrapper_rep u (hp d) [] [] [] (store (hp c))" using that(2,3) R by auto
      from give_up_run [OF this that(4), of W] obtain c' ks where g: "give_up W u lg d = Some (None, c')"
        "store (hp c') = store (hp c)" "heap_ok (hp c')" "made d c' ks" "grammars_made ks = []"
        "grammars_dropped ks = (if marpaGrammarp u \<noteq> 0 then [marpaGrammarp u] else [])"
        by blast
      have "so_far d c' [] ms"
        using g(4-6) that(2) by (auto simp: so_far_def new_wrapper_def)
      from so_far_trans [OF that(5) this] g that(1) show thesis
        by (intro result [of None c' ms ms]) simp_all
    qed
    have lg: "logs (log_marpa_error W u n) d" "logs (log_marpa_c_error W u) d" "logs (log_marpa_g_error W u) d"
      if "hp d = hp ?c1" for u n d
      using that ok1 by (intro log_marpa_error_logs log_marpa_c_error_logs log_marpa_g_error_logs W; simp)+
    consider "ret rv < 0" | "\<not> ret rv < 0" "rc \<noteq> MARPA_ERR_NONE"
      | "\<not> ret rv < 0" "rc = MARPA_ERR_NONE" "ret rg = 0"
      | "\<not> ret rv < 0" "rc = MARPA_ERR_NONE" "ret rg \<noteq> 0" "ret rf < 0"
      | "\<not> ret rv < 0" "rc = MARPA_ERR_NONE" "ret rg \<noteq> 0" "\<not> ret rf < 0"
      by blast
    then show thesis
    proof cases
      case 1
      show thesis by (rule fail [of ?w _ c2 "[]", OF _ _ hps(1) lg(1) [OF hps(1)] s2]) (use run 1 in simp_all)
    next
      case 2
      show thesis by (rule fail [of ?w _ c3 "[]", OF _ _ hps(2) lg(1) [OF hps(2)] s3]) (use run 2 in simp_all)
    next
      case 3
      show thesis by (rule fail [of ?w1 _ c5, OF _ _ hps(4) lg(2) [OF hps(4)] s5]) (use run 3 in simp_all)
    next
      case 4
      show thesis by (rule fail [of ?w1 _ c6, OF _ _ hps(5) lg(3) [OF hps(5)] s6]) (use run 4 in simp_all)
    next
      case 5
      show thesis
        by (rule result [OF _ s6, of "Some ?w1"])
          (use run 5 R(2) hps(5) ok1 in \<open>simp_all add: new_wrapper_def\<close>)
    qed
  qed
qed

section \<open>A world for examples\<close>

definition clamp :: "int \<Rightarrow> int" where
  "clamp i = max (- 2147483648) (min 2147483647 i)"

definition number :: "int \<Rightarrow> 'v reply" where
  "number i = \<lparr>ret = i, outs = [], outv = None\<rparr>"

text \<open>A world whose state counts the calls and whose replies are given by \<open>f\<close>.\<close>

definition demo_world ::
  "(('d, 'v) call \<Rightarrow> nat \<Rightarrow> 'v reply) \<Rightarrow> (nat, 'd, 'v) world" where
  "demo_world f =
     \<lparr>respond = (\<lambda>k n. ((f k n)\<lparr>ret := clamp (ret (f k n))\<rparr>, Suc n)),
      os = \<lparr>clock = (\<lambda>_. Some ''01/01/2015 00:00:00''), write_fd = (\<lambda>s x. (int (length s), x))\<rparr>,
      os_error = (\<lambda>_. ''Cannot allocate memory''),
      qsort_events = (\<lambda>cmp xs. xs), qsort_ptrs = (\<lambda>cmp xs. xs), callback_memory = (\<lambda>_ _. True)\<rparr>"

lemma demo_ready [simp]: "ready (demo_world f)"
  by (auto simp: ready_def demo_world_def sane_clock_def writes_some_def TEXT_MAX_def int_range_def clamp_def
      DATEBUILDER_MAX_SIZE_def)

lemma demo_call:
  "call (demo_world f) k c =
     ((f k (env (ext c)))\<lparr>ret := clamp (ret (f k (env (ext c))))\<rparr>,
      c\<lparr>ext := \<lparr>env = Suc (env (ext c)),
        trace = trace (ext c) @ [(k, (f k (env (ext c)))\<lparr>ret := clamp (ret (f k (env (ext c))))\<rparr>)]\<rparr>\<rparr>)"
  by (simp add: call_def ask_def demo_world_def Let_def)

definition demo_state :: "(nat \<Rightarrow> bool) \<Rightarrow> (nat, 'd, 'v) wstate" where
  "demo_state av = \<lparr>hp = empty_heap av, ext = \<lparr>env = 0, trace = []\<rparr>\<rparr>"

lemma demo_state_heap [simp]: "hp (demo_state av) = empty_heap av" "env (ext (demo_state av)) = 0"
  by (simp_all add: demo_state_def)

definition demo_wrapper :: "(nat, nat) marpaWrapper" where
  "demo_wrapper = new_wrapper (Ref 0) default_wrapperOption"

definition demo_heap :: "(nat \<Rightarrow> bool) \<Rightarrow> (nat, nat) obj heap" where
  "demo_heap av = granted Raw (empty_heap av)"

lemma demo_rep: "wrapper_rep demo_wrapper (demo_heap av) [] [] [] Map.empty"
  using new_wrapper_rep [OF heap_ok_empty [of av], of default_wrapperOption]
  by (simp add: demo_wrapper_def demo_heap_def empty_heap_def)

definition demo_start :: "(nat \<Rightarrow> bool) \<Rightarrow> (nat, nat, nat) wstate" where
  "demo_start av = (demo_state av)\<lparr>hp := demo_heap av\<rparr>"

lemma demo_start_fields [simp]: "hp (demo_start av) = demo_heap av" "env (ext (demo_start av)) = 0"
  by (simp_all add: demo_start_def demo_state_def)

section \<open>Properties\<close>

text \<open>C14: \<open>marpaWrapper_newp\<close> always returns. It gives a wrapper that owns a grammar and one block, or
  \<open>NULL\<close>, and then every block it took is freed and every grammar libmarpa gave it is given back.\<close>

theorem newp_all_or_nothing:
  assumes "ready W" "heap_ok (hp c)"
  shows "\<exists>wp c' ks. marpaWrapper_newp W op c = Some (wp, c') \<and> made c c' ks
    \<and> (case wp of
         None \<Rightarrow> store (hp c') = store (hp c) \<and> grammars_dropped ks = grammars_made ks
       | Some w \<Rightarrow> wrapper_rep w (hp c') [] [] [] (store (hp c)) \<and> marpaRecognizerp w = 0
           \<and> grammars_made ks = [marpaGrammarp w] \<and> grammars_dropped ks = [])"
proof -
  from newp_run [OF assms, of op] obtain wp c' ms ds where N: "marpaWrapper_newp W op c = Some (wp, c')"
    "so_far c c' ms ds" "wp = None \<longrightarrow> store (hp c') = store (hp c) \<and> ms = ds"
    "\<forall>w. wp = Some w \<longrightarrow> wrapper_rep w (hp c') [] [] [] (store (hp c)) \<and> marpaRecognizerp w = 0
       \<and> marpaGrammarp w \<noteq> 0 \<and> ms = [marpaGrammarp w] \<and> ds = []
       \<and> marpaWrapperOption w = (case op of None \<Rightarrow> default_wrapperOption | Some x \<Rightarrow> x)"
    .
  from N(2) obtain ks where ks: "made c c' ks" "grammars_made ks = ms" "grammars_dropped ks = ds"
    unfolding so_far_def by blast
  show ?thesis
    by (rule exI [of _ wp], rule exI [of _ c'], rule exI [of _ ks], cases wp) (use N(1,3,4) ks in simp_all)
qed

theorem newp_all_or_nothing_witness:
  "\<exists>wp c' ks. marpaWrapper_newp (demo_world (\<lambda>k n. number 1)) None (demo_state (\<lambda>_. True) :: (nat, nat, nat) wstate)
      = Some (wp, c') \<and> made (demo_state (\<lambda>_. True)) c' ks"
  using newp_all_or_nothing [of "demo_world (\<lambda>k n. number 1)" "demo_state (\<lambda>_. True) :: (nat, nat, nat) wstate" None]
  by auto

text \<open>C12: \<open>marpaWrapper_destroyv\<close> frees everything the wrapper owns, each block once and nothing else,
  after it gave back the recognizer and then the grammar; the caller's pointer becomes \<open>NULL\<close>.\<close>

theorem destroyv_frees_all:
  assumes "wrapper_rep w (hp c) syms rules progs g"
  shows "\<exists>c' ks. marpaWrapper_destroyv W (Some (Some w)) c = Some (Some None, c') \<and> store (hp c') = g
    \<and> made c c' ks \<and> map fst ks
      = (if marpaRecognizerp w \<noteq> 0 then [R (Marpa_r_unref (marpaRecognizerp w))] else [])
      @ (if marpaGrammarp w \<noteq> 0 then [G (Marpa_g_unref (marpaGrammarp w))] else [])"
  by (rule destroyv_run [OF assms, of W]) (auto simp: unrefs_def)

theorem destroyv_frees_all_witness:
  "\<exists>c'. marpaWrapper_destroyv (demo_world (\<lambda>k n. number 1)) (Some (Some demo_wrapper)) (demo_start (\<lambda>_. True))
      = Some (Some None, c') \<and> store (hp c') = Map.empty"
proof -
  have "wrapper_rep demo_wrapper (hp (demo_start (\<lambda>_. True))) [] [] [] Map.empty" using demo_rep by simp
  from destroyv_frees_all [OF this, of "demo_world (\<lambda>k n. number 1)"] show ?thesis by blast
qed




text \<open>A rule on a symbol added before.\<close>

definition demo_rule :: "ptr \<Rightarrow> nat marpaWrapperRuleOption" where
  "demo_rule p = \<lparr>rule_datavp = None, lhsSymbolp = p, nRhsSymboli = 1, rhsSymbolpp = [p], ranki = 0,
     nullRanksHighb = False, sequenceb = True, separatorSymbolp = Null, properb = True, minimumi = 1\<rparr>"


end
