(* ===== verification/EventProps.thy ===== *)
theory EventProps
  imports WrapperLife
begin

text \<open>
  Properties of the event handling that ends \<open>marpaWrapper_g_precomputeb\<close>, \<open>marpaWrapper_r_startb\<close>
  and \<open>marpaWrapper_r_completeb\<close>.
\<close>

section \<open>Runs return\<close>

text \<open>The value of an event the user can subscribe to is the id of a symbol in the table.\<close>

definition event_symbols :: "('e, 'd, 'v) world \<Rightarrow> nat \<Rightarrow> bool" where
  "event_symbols W n \<longleftrightarrow>
     (\<forall>g i x ty. event_action (ret (fst (respond W (G (Marpa_g_event g i)) x))) = Subscribed ty \<longrightarrow>
        (\<exists>v < n. out (fst (respond W (G (Marpa_g_event g i)) x)) 0 = Some (int v)))"

lemma event_symbolsD:
  "event_symbols W n \<Longrightarrow> event_action (ret (fst (call W (G (Marpa_g_event g i)) c))) = Subscribed ty \<Longrightarrow>
     \<exists>v < n. out (fst (call W (G (Marpa_g_event g i)) c)) 0 = Some (int v)"
  by (simp add: event_symbols_def call_def ask_def Let_def)

lemma event_text_short: "event_action t = Warning m \<or> event_action t = Fatal m \<or> event_action t = Info m \<Longrightarrow> length m < 1000"
  by (auto simp: event_action_def split: if_splits)

lemma collect_events_total:
  assumes W: "ready W" and es: "event_symbols W k"
  shows "heap_ok (hp c) \<Longrightarrow> \<forall>v < k. arr_get (marpaWrapperSymbolpp w) v (hp c) \<noteq> None \<Longrightarrow>
    \<exists>res c'. collect_events W w i n evs c = Some (res, c')"
proof (induction n arbitrary: i evs c)
  case 0
  then show ?case by simp
next
  case (Suc n)
  let ?k = "G (Marpa_g_event (marpaGrammarp w) i)"
  define r c1 where "r = fst (call W ?k c)" and "c1 = snd (call W ?k c)"
  have cl: "call W ?k c = (r, c1)" by (simp add: r_def c1_def)
  have hp1: "hp c1 = hp c" by (simp add: c1_def)
  have ok1: "heap_ok (hp c1)" using Suc.prems(1) hp1 by simp
  have next1: "\<exists>res c'. collect_events W w (Suc i) n evs' c2 = Some (res, c')"
    if "c2 = c1 \<or> logged c1 c2" for evs' c2
  proof -
    from that have st: "same_store (hp c) (hp c2)" using hp1 logged_store by fastforce
    then show ?thesis
      using Suc.prems same_storeD(3) [OF st] by (intro Suc.IH) (simp_all add: same_store_arr_get [OF st])
  qed
  have lvl: "\<exists>c2. log_level0 W w lv m c1 = Some c2 \<and> logged c1 c2" if "length m < 1000000000" for lv m
    using log_level0_logs [OF W ok1 that] by (auto simp: logs_def)
  have err: "\<exists>c2. log_error0 W w m c1 = Some c2" if "length m < 1000" for m
    using log_error0_logs [OF W ok1, of m] that by (auto simp: logs_def)
  show ?case
  proof (cases "ret r < 0")
    case True
    from log_marpa_g_error_logs [OF W ok1, of w] obtain c2 where "log_marpa_g_error W w c1 = Some c2"
      by (auto simp: logs_def)
    with True cl show ?thesis by simp
  next
    case False
    show ?thesis
    proof (cases "event_action (ret r)")
      case Ignore
      with False cl next1 show ?thesis by simp
    next
      case (Subscribed ty)
      with event_symbolsD [OF es] cl obtain v where v: "v < k" "out r 0 = Some (int v)"
        unfolding r_def by (metis fst_conv)
      with Suc.prems(2) hp1 obtain p where "arr_get (marpaWrapperSymbolpp w) v (hp c1) = Some p" by auto
      with v False cl Subscribed next1 show ?thesis by simp
    next
      case (Warning m)
      have m: "length m < 1000" using event_text_short Warning by blast
      from err [OF m] obtain c2 where e: "log_error0 W w m c1 = Some c2" by blast
      from lvl [of m GENERICLOGGER_LOGLEVEL_WARNING] m obtain c3 where
        l: "log_level0 W w GENERICLOGGER_LOGLEVEL_WARNING m c1 = Some c3" "logged c1 c3"
        by auto
      show ?thesis
        using Warning False cl e l(1) next1 [of c3 evs] l(2) by simp
    next
      case (Fatal m)
      have "length m < 1000" using event_text_short Fatal by blast
      from err [OF this] obtain c2 where "log_error0 W w m c1 = Some c2" by blast
      with Fatal False cl show ?thesis by simp
    next
      case (Info m)
      have "length m < 1000" using event_text_short Info by blast
      with lvl [of m GENERICLOGGER_LOGLEVEL_INFO] obtain c2 where
        "log_level0 W w GENERICLOGGER_LOGLEVEL_INFO m c1 = Some c2"
        by auto
      with Info False cl show ?thesis by simp
    next
      case Unsupported
      have "int_range (ret r)" unfolding r_def by (rule reply_range [OF W])
      from show_int_length [OF this]
      have "length (''marpa_g_event_value() returns unsupported event type '' @ show_int (ret r)) < 1000000000"
        by simp
      from lvl [OF this, of GENERICLOGGER_LOGLEVEL_NOTICE] obtain c2 where
        "log_level0 W w GENERICLOGGER_LOGLEVEL_NOTICE
          (''marpa_g_event_value() returns unsupported event type '' @ show_int (ret r)) c1 = Some c2" "logged c1 c2"
        by blast
      with Unsupported False cl next1 [of c2 evs] show ?thesis by (simp del: append.simps)
    qed
  qed
qed

lemma wrapper_symbol_cells:
  assumes "wrapper_rep w h syms rules progs g"
  shows "\<forall>v < length syms. arr_get (marpaWrapperSymbolpp w) v h \<noteq> None"
  using assms by (rule wrapper_symbols) (use table_rep_entry in blast)

lemma event_total:
  assumes R: "wrapper_rep w (hp c) syms rules progs g" and W: "ready W" and es: "event_symbols W (length syms)"
  shows "\<exists>rc c'. marpaWrapper_event W w c = Some (rc, c')"
proof -
  define r c1 where "r = fst (call W (G (Marpa_g_event_count (marpaGrammarp w))) c)"
    and "c1 = snd (call W (G (Marpa_g_event_count (marpaGrammarp w))) c)"
  have cl: "call W (G (Marpa_g_event_count (marpaGrammarp w))) c = (r, c1)" by (simp add: r_def c1_def)
  have hp1: "hp c1 = hp c" by (simp add: c1_def)
  have ok: "heap_ok (hp c)" using wrapper_heap_ok [OF R] .
  show ?thesis
  proof (cases "ret r < 0")
    case True
    with cl show ?thesis by (simp add: marpaWrapper_event_def)
  next
    case r: False
    show ?thesis
    proof (cases "avail (hp c1) (asked (hp c1))")
      case False
      have "heap_ok (hp (c1\<lparr>hp := refused (hp c1)\<rparr>))" using ok hp1 by simp
      from log_sys_error_logs [OF W this, of "''malloc()''" w] obtain c3 where
        "log_sys_error W w ''malloc()'' (c1\<lparr>hp := refused (hp c1)\<rparr>) = Some c3"
        by (auto simp: logs_def)
      with False r cl show ?thesis by (simp add: marpaWrapper_event_def malloc_eq)
    next
      case True
      let ?c2 = "c1\<lparr>hp := granted Raw (hp c1)\<rparr>"
      have ok2: "heap_ok (hp ?c2)" using ok hp1 by simp
      have "\<forall>v < length syms. arr_get (marpaWrapperSymbolpp w) v (hp ?c2) \<noteq> None"
        using wrapper_symbol_cells [OF R] hp1 arr_get_granted_raw [OF ok] by simp
      from collect_events_total [OF W es ok2 this] obtain res c3 where
        col: "collect_events W w 0 (nat (ret r)) [] ?c2 = Some (res, c3)" by blast
      from collect_events_run [OF col ok2 ready_clock [OF W]] have "store (hp c3) (fresh (hp c1)) = Some Raw"
        by (simp add: same_store_def)
      moreover have "hp (deliver_events W w evs c3) = hp c3" for evs using deliver_events_run by blast
      ultimately show ?thesis using col True r cl
        by (cases res) (simp_all add: marpaWrapper_event_def malloc_eq Let_def)
    qed
  qed
qed

text \<open>What the events of a successful run are.\<close>

definition passed :: "int \<Rightarrow> bool" where
  "passed t \<longleftrightarrow> \<not> t < 0 \<and> (case event_action t of Fatal m \<Rightarrow> False | Info m \<Rightarrow> False | _ \<Rightarrow> True)"

definition all_passed :: "(('d, 'v) call \<times> 'v reply) list \<Rightarrow> bool" where
  "all_passed t \<longleftrightarrow> list_all (\<lambda>kr. \<forall>g i. fst kr = G (Marpa_g_event g i) \<longrightarrow> passed (ret (snd kr))) t"

lemma all_passed_append [simp]: "all_passed (t @ u) \<longleftrightarrow> all_passed t \<and> all_passed u"
  by (simp add: all_passed_def)

lemma all_passed_silent: "silent t \<Longrightarrow> all_passed t"
  by (fastforce simp: silent_def all_passed_def list_all_iff)

lemma collect_events_passed:
  assumes W: "ready W"
  shows "collect_events W w i n evs c = Some (Some x, c') \<Longrightarrow> heap_ok (hp c) \<Longrightarrow>
    \<exists>t. calls_since c c' t \<and> all_passed t"
proof (induction n arbitrary: i evs c)
  case 0
  then show ?case by (auto simp: calls_since_def all_passed_def)
next
  case (Suc n)
  let ?k = "G (Marpa_g_event (marpaGrammarp w) i)"
  define r c1 where "r = fst (call W ?k c)" and "c1 = snd (call W ?k c)"
  have cl: "call W ?k c = (r, c1)" by (simp add: r_def c1_def)
  have ok1: "heap_ok (hp c1)" using Suc.prems(2) by (simp add: c1_def)
  have one: "calls_since c c1 [(?k, r)]" unfolding r_def c1_def by (rule calls_since_call)
  note lg = logged_macros [OF _ ok1 ready_clock [OF W]]
  have "passed (ret r) \<and> (\<exists>evs' c2. collect_events W w (Suc i) n evs' c2 = Some (Some x, c') \<and> (c2 = c1 \<or> logged c1 c2))"
    using Suc.prems(1) lg(2) by (auto simp: cl run_simps passed_def Let_def split: if_splits event_action.splits) blast+
  then obtain evs' c2 where p: "passed (ret r)" and rest: "collect_events W w (Suc i) n evs' c2 = Some (Some x, c')"
    and l: "c2 = c1 \<or> logged c1 c2"
    by blast
  from l obtain s where s: "calls_since c1 c2 s" "silent s" "same_store (hp c1) (hp c2)" by (rule maybe_logged)
  from Suc.IH [OF rest] same_storeD(3) [OF s(3) ok1] obtain t where t: "calls_since c2 c' t" "all_passed t" by blast
  have "calls_since c c' ([(?k, r)] @ (s @ t))"
    using calls_since_trans [OF one calls_since_trans [OF s(1) t(1)]] .
  moreover have "all_passed ([(?k, r)] @ (s @ t))"
    using p t(2) all_passed_silent [OF s(2)] by (simp add: all_passed_def)
  ultimately show ?case by blast
qed

lemma deliver_passed: "\<exists>u. calls_since c (deliver_events W w evs c) u \<and> all_passed u"
proof -
  define ev where "ev = (if 1 < length evs \<and> \<not> unsortedEventsb (marpaWrapperOption w)
    then qsort_events W marpaWrapper_event_cmp evs else evs)"
  have "deliver_events W w evs c = c \<or> deliver_events W w evs c = snd (call W (U (EventCallback ev)) c)"
    by (simp add: deliver_events_def ev_def)
  moreover have "calls_since c c [] \<and> all_passed []" by (simp add: calls_since_def all_passed_def)
  moreover have "all_passed [(U (EventCallback ev), r)]" for r by (simp add: all_passed_def)
  ultimately show ?thesis using calls_since_call by metis
qed

text \<open>The same for a whole run that succeeds with events to look at.\<close>

lemma event_passed:
  assumes run: "marpaWrapper_event W w c = Some (1, c')" and ok: "heap_ok (hp c)" and W: "ready W"
  shows "\<exists>t. calls_since c c' t \<and> all_passed t"
proof -
  define k r c1 where "k = G (Marpa_g_event_count (marpaGrammarp w))" and "r = fst (call W k c)"
    and "c1 = snd (call W k c)"
  have cl: "call W (G (Marpa_g_event_count (marpaGrammarp w))) c = (r, c1)" by (simp add: r_def c1_def k_def)
  have cs: "calls_since c c1 [(k, r)]" unfolding r_def c1_def by (rule calls_since_call)
  have p1: "all_passed [(k, r)]" by (simp add: all_passed_def k_def)
  show ?thesis
  proof (cases "ret r < 0")
    case True
    with run cl have "c' = c1" by (simp add: marpaWrapper_event_def)
    with cs p1 show ?thesis by blast
  next
    case False
    with run cl obtain h1 evs c3 h where h1: "malloc Raw (hp c1) = (Ref (fresh (hp c1)), h1)"
      and col: "collect_events W w 0 (nat (ret r)) [] (c1\<lparr>hp := h1\<rparr>) = Some (Some evs, c3)"
      and c': "c' = (deliver_events W w evs c3)\<lparr>hp := h\<rparr>"
      by (auto simp: marpaWrapper_event_def malloc_eq run_simps Let_def MARPAWRAPPER_BOOL_FALSE_def
          split: if_splits option.splits)
    have "heap_ok (hp c1)" using ok by (simp add: c1_def)
    then have "heap_ok (hp (c1\<lparr>hp := h1\<rparr>))" using heap_ok_malloc [OF _ h1] by simp
    from collect_events_passed [OF W col this] obtain t where t: "calls_since c1 c3 t" "all_passed t"
      by (auto simp: calls_since_def)
    obtain u where u: "calls_since c3 (deliver_events W w evs c3) u" "all_passed u"
      using deliver_passed by blast
    have "calls_since c c' ([(k, r)] @ (t @ u))"
      using calls_since_trans [OF cs calls_since_trans [OF t(1) u(1)]] c' by simp
    with p1 t(2) u(2) show ?thesis by (metis all_passed_append)
  qed
qed

section \<open>Properties\<close>



text \<open>The comparison for the sort of events takes every two events as equal: it looks up libmarpa's
  event codes while the events carry the wrapper's own. So no order between completion, nulled and
  prediction events is established.\<close>

theorem event_order_void: "marpaWrapper_event_cmp e1 e2 = 0"
proof -
  have "marpaWrapper_event_weight (eventtype_value t) = 0" for t
    by (cases t) (simp_all add: marpaWrapper_event_weight_def marpa_consts)
  then show ?thesis by (simp add: marpaWrapper_event_cmp_def)
qed

text \<open>Event handling succeeds only when every event libmarpa reports is one it passes over or
  delivers. A single exhaustion event, an information in the log, makes the step report failure, and
  the events collected before it are not delivered.\<close>

theorem exhaustion_fails:
  assumes "wrapper_rep w (hp c) syms rules progs g" "ready W" "event_symbols W (length syms)"
  shows "\<exists>rc c' t. marpaWrapper_event W w c = Some (rc, c') \<and> trace (ext c') = trace (ext c) @ t
    \<and> (\<forall>g i r. (G (Marpa_g_event g i), r) \<in> set t \<longrightarrow> ret r = MARPA_EVENT_EXHAUSTED \<longrightarrow>
         rc = MARPAWRAPPER_BOOL_FALSE \<and> delivered_events t = [])"
proof -
  from event_total [OF assms] obtain rc c' where run: "marpaWrapper_event W w c = Some (rc, c')" by blast
  have ok: "heap_ok (hp c)" by (rule wrapper_heap_ok [OF assms(1)])
  obtain t where t: "calls_since c c' t" "rc = 0 \<or> rc = 1"
    "delivered_events t = (if rc = 1 then events_given W w (subscriptions w (hp c) t) else [])"
    by (rule event_run [OF run ok ready_clock [OF assms(2)]])
  have "event_action MARPA_EVENT_EXHAUSTED = Info ''Recognizer is exhausted''"
    by (simp add: event_action_def marpa_consts)
  then have np: "\<not> passed MARPA_EVENT_EXHAUSTED" by (simp add: passed_def)
  have "rc \<noteq> 1" if "(G (Marpa_g_event g i), r) \<in> set t" "ret r = MARPA_EVENT_EXHAUSTED" for g i r
  proof
    assume "rc = 1"
    with event_passed [of W w c c'] run ok assms(2) obtain u where u: "calls_since c c' u" "all_passed u" by blast
    have "u = t" using u(1) t(1) by (simp add: calls_since_def)
    with u(2) that np show False by (auto simp: all_passed_def list_all_iff)
  qed
  with t(2,3) have "\<forall>g i r. (G (Marpa_g_event g i), r) \<in> set t \<longrightarrow> ret r = MARPA_EVENT_EXHAUSTED \<longrightarrow>
      rc = MARPAWRAPPER_BOOL_FALSE \<and> delivered_events t = []"
    unfolding MARPAWRAPPER_BOOL_FALSE_def by metis
  with run t(1) show ?thesis unfolding calls_since_def by blast
qed

theorem exhaustion_fails_witness:
  "\<exists>rc c' t. marpaWrapper_event (demo_world (\<lambda>k n. number (if n = 0 then 1 else 3))) demo_wrapper
      (demo_start (\<lambda>_. True) :: (nat, nat, nat) wstate) = Some (rc, c')
    \<and> trace (ext c') = trace (ext (demo_start (\<lambda>_. True) :: (nat, nat, nat) wstate)) @ t"
proof -
  let ?W = "demo_world (\<lambda>k n. number (if n = 0 then 1 else 3)) :: (nat, nat, nat) world"
    and ?c = "demo_start (\<lambda>_. True)"
  have R: "wrapper_rep demo_wrapper (hp ?c) [] [] [] Map.empty" using demo_rep by simp
  have "event_symbols ?W (length ([] :: (nat, nat) obj option list))"
    by (simp add: event_symbols_def demo_world_def number_def clamp_def event_action_def marpa_consts)
  from exhaustion_fails [OF R demo_ready this] show ?thesis by blast
qed

end
