(* ===== verification/WrapperRecognizer.thy ===== *)
theory WrapperRecognizer
  imports EventProps
begin

text \<open>
  The recognizer part of \<open>src/src/marpaWrapper.c\<close>: starting it, feeding alternatives, activating
  events, and asking for the expected terminals.
\<close>

section \<open>Cells of an array\<close>

fun arr_read :: "ptr \<Rightarrow> nat \<Rightarrow> nat \<Rightarrow> 'o heap \<Rightarrow> ptr list option" where
  "arr_read p i 0 h = Some []"
| "arr_read p i (Suc n) h = do { q \<leftarrow> arr_get p i h; qs \<leftarrow> arr_read p (Suc i) n h; Some (q # qs) }"

fun arr_write :: "ptr \<Rightarrow> nat \<Rightarrow> ptr list \<Rightarrow> 'o heap \<Rightarrow> 'o heap option" where
  "arr_write p i [] h = Some h"
| "arr_write p i (q # qs) h = do { h1 \<leftarrow> arr_put p i q h; arr_write p (Suc i) qs h1 }"

text \<open>
  \<open>qsort\<close> on \<open>n\<close> pointers. With two or more elements every element is compared, so that what the
  comparison reads of it has to be defined.
\<close>

definition qsort_cells ::
  "('e, 'd, 'v) world \<Rightarrow> (ptr \<Rightarrow> bool) \<Rightarrow> (ptr \<Rightarrow> ptr \<Rightarrow> int) \<Rightarrow> ptr \<Rightarrow> nat \<Rightarrow> 'o heap \<Rightarrow> 'o heap option" where
  "qsort_cells W readable cmp p n h = do {
     qs \<leftarrow> arr_read p 0 n h;
     _ \<leftarrow> require (n \<le> 1 \<or> list_all readable qs);
     arr_write p 0 (qsort_ptrs W cmp qs) h
   }"

section \<open>Input\<close>

definition no_read_phase ::
  "('e, 'd, 'v) world \<Rightarrow> ('e, 'd) marpaWrapper \<Rightarrow> ('e, 'd, 'v) wstate \<Rightarrow> ('e, 'd, 'v) wstate option" where
  "no_read_phase W w = log_error0 W w ''Read phase not started''"

definition marpaWrapper_r_startb ::
  "('e, 'd, 'v) world \<Rightarrow> ('e, 'd) marpaWrapper option \<Rightarrow> ('e, 'd, 'v) wstate
     \<Rightarrow> (int \<times> ('e, 'd) marpaWrapper option \<times> ('e, 'd, 'v) wstate) option" where
  "marpaWrapper_r_startb W wp c =
     (case wp of
        None \<Rightarrow> Some (MARPAWRAPPER_BOOL_FALSE, None, c)
      | Some w \<Rightarrow> do {
          (w1, c1) \<leftarrow>
            (if marpaRecognizerp w \<noteq> 0
             then (let c0 = snd (call W (R (Marpa_r_unref (marpaRecognizerp w))) c) in do {
               h1 \<leftarrow> (if expectedMarpaSymbolIdArrayp w \<noteq> Null
                      then cfree (expectedMarpaSymbolIdArrayp w) (hp c0) else Some (hp c0));
               h2 \<leftarrow> (if expectedMarpaWrapperSymbolArraypp w \<noteq> Null
                      then cfree (expectedMarpaWrapperSymbolArraypp w) h1 else Some h1);
               Some (w\<lparr>expectedMarpaSymbolIdArrayp := Null, expectedMarpaWrapperSymbolArraypp := Null\<rparr>, c0\<lparr>hp := h2\<rparr>)
             })
             else Some (w, c));
          let (r, c2) = call W (R (Marpa_r_new (marpaGrammarp w1))) c1;
          let w2 = w1\<lparr>marpaRecognizerp := ret r\<rparr>;
          if ret r = 0
          then do { c3 \<leftarrow> log_marpa_g_error W w2 c2; Some (MARPAWRAPPER_BOOL_FALSE, Some w2, c3) }
          else do {
            (s, c3) \<leftarrow> checked W w2 (R (Marpa_r_start_input (ret r))) (\<lambda>i. \<not> i < 0) c2;
            if s = None then Some (MARPAWRAPPER_BOOL_FALSE, Some w2, c3)
            else do { (rc, c4) \<leftarrow> marpaWrapper_event W w2 c3; Some (rc, Some w2, c4) }
          }
        })"

definition marpaWrapper_r_alternativeb ::
  "('e, 'd, 'v) world \<Rightarrow> ('e, 'd) marpaWrapper option \<Rightarrow> ptr \<Rightarrow> int \<Rightarrow> int \<Rightarrow> ('e, 'd, 'v) wstate
     \<Rightarrow> (int \<times> ('e, 'd, 'v) wstate) option" where
  "marpaWrapper_r_alternativeb W wp sp v l c =
     (case wp of
        None \<Rightarrow> Some (MARPAWRAPPER_BOOL_FALSE, c)
      | Some w \<Rightarrow>
          if sp = Null then Some (MARPAWRAPPER_BOOL_FALSE, c)
          else if marpaRecognizerp w = 0
          then do { c1 \<leftarrow> no_read_phase W w c; Some (MARPAWRAPPER_BOOL_FALSE, c1) }
          else do {
            s \<leftarrow> symbol_at (hp c) sp;
            (r, c1) \<leftarrow> checked W w (R (Marpa_r_alternative (marpaRecognizerp w) (marpaSymbolIdi s) v l))
                       (\<lambda>i. i = MARPA_ERR_NONE) c;
            Some (if r = None then MARPAWRAPPER_BOOL_FALSE else MARPAWRAPPER_BOOL_TRUE, c1)
          })"

definition marpaWrapper_r_completeb ::
  "('e, 'd, 'v) world \<Rightarrow> ('e, 'd) marpaWrapper option \<Rightarrow> ('e, 'd, 'v) wstate
     \<Rightarrow> (int \<times> ('e, 'd, 'v) wstate) option" where
  "marpaWrapper_r_completeb W wp c =
     (case wp of
        None \<Rightarrow> Some (MARPAWRAPPER_BOOL_FALSE, c)
      | Some w \<Rightarrow>
          if marpaRecognizerp w = 0
          then do { c1 \<leftarrow> no_read_phase W w c; Some (MARPAWRAPPER_BOOL_FALSE, c1) }
          else do {
            (r, c1) \<leftarrow> checked W w (R (Marpa_r_earleme_complete (marpaRecognizerp w))) (\<lambda>i. i \<noteq> - 2) c;
            if r = None then Some (MARPAWRAPPER_BOOL_FALSE, c1) else marpaWrapper_event W w c1
          })"

definition marpaWrapper_r_readb ::
  "('e, 'd, 'v) world \<Rightarrow> ('e, 'd) marpaWrapper option \<Rightarrow> ptr \<Rightarrow> int \<Rightarrow> int \<Rightarrow> ('e, 'd, 'v) wstate
     \<Rightarrow> (int \<times> ('e, 'd, 'v) wstate) option" where
  "marpaWrapper_r_readb W wp sp v l c = do {
     (rc, c1) \<leftarrow> marpaWrapper_r_alternativeb W wp sp v l c;
     if rc = MARPAWRAPPER_BOOL_TRUE then marpaWrapper_r_completeb W wp c1
     else Some (MARPAWRAPPER_BOOL_FALSE, c1)
   }"

definition activation_settings ::
  "int \<Rightarrow> int \<Rightarrow> 32 word \<Rightarrow> int \<Rightarrow> (bool \<times> ('d, 'v) call \<times> (int \<Rightarrow> bool)) list" where
  "activation_settings r i evs b =
     [(subscribes evs MARPAWRAPPER_EVENTTYPE_COMPLETED, R (Marpa_r_completion_symbol_activate r i b), \<lambda>x. x = b),
      (subscribes evs MARPAWRAPPER_EVENTTYPE_NULLED, R (Marpa_r_nulled_symbol_activate r i b), \<lambda>x. x = b),
      (subscribes evs MARPAWRAPPER_EVENTTYPE_PREDICTED, R (Marpa_r_prediction_symbol_activate r i b), \<lambda>x. x = b)]"

definition marpaWrapper_r_event_activateb ::
  "('e, 'd, 'v) world \<Rightarrow> ('e, 'd) marpaWrapper option \<Rightarrow> ptr \<Rightarrow> 32 word \<Rightarrow> int \<Rightarrow> ('e, 'd, 'v) wstate
     \<Rightarrow> (int \<times> ('e, 'd, 'v) wstate) option" where
  "marpaWrapper_r_event_activateb W wp sp evs onb c =
     (let b = (if onb = MARPAWRAPPER_BOOL_TRUE then 1 else 0) in
      case wp of
        None \<Rightarrow> Some (MARPAWRAPPER_BOOL_FALSE, c)
      | Some w \<Rightarrow>
          if sp = Null then Some (MARPAWRAPPER_BOOL_FALSE, c)
          else if marpaRecognizerp w = 0
          then do { c1 \<leftarrow> no_read_phase W w c; Some (MARPAWRAPPER_BOOL_FALSE, c1) }
          else do {
            s \<leftarrow> symbol_at (hp c) sp;
            (ok, c1) \<leftarrow> apply_settings W w (activation_settings (marpaRecognizerp w) (marpaSymbolIdi s) evs b) c;
            Some (if ok then MARPAWRAPPER_BOOL_TRUE else MARPAWRAPPER_BOOL_FALSE, c1)
          })"

section \<open>Expected terminals\<close>

definition ints_at :: "('d, 'v) obj heap \<Rightarrow> ptr \<Rightarrow> int option list option" where
  "ints_at h p = (case obj_at h p of Some (IntsObj xs) \<Rightarrow> Some xs | _ \<Rightarrow> None)"

text \<open>libmarpa fills the array of ids from the front; it is undefined what happens beyond its end.\<close>

definition fill_ints :: "ptr \<Rightarrow> int list \<Rightarrow> ('d, 'v) obj heap \<Rightarrow> ('d, 'v) obj heap option" where
  "fill_ints p is h = do {
     xs \<leftarrow> ints_at h p;
     _ \<leftarrow> require (length is \<le> length xs);
     obj_put p (IntsObj (map Some is @ drop (length is) xs)) h
   }"

text \<open>The loop that turns ids into symbols.\<close>

fun fill_symbols :: "ptr \<Rightarrow> ptr \<Rightarrow> ptr \<Rightarrow> nat \<Rightarrow> nat \<Rightarrow> ('d, 'v) obj heap \<Rightarrow> ('d, 'v) obj heap option" where
  "fill_symbols symbolpp idp arrp i 0 h = Some h"
| "fill_symbols symbolpp idp arrp i (Suc n) h = do {
     xs \<leftarrow> ints_at h idp;
     _ \<leftarrow> require (i < length xs);
     k \<leftarrow> xs ! i;
     _ \<leftarrow> require (0 \<le> k);
     p \<leftarrow> arr_get symbolpp (nat k) h;
     h1 \<leftarrow> arr_put arrp i p h;
     fill_symbols symbolpp idp arrp (Suc i) n h1
   }"

text \<open>The two arrays are allocated at the first use, for as many cells as the grammar has symbols.\<close>

definition expected_arrays ::
  "('e, 'd, 'v) world \<Rightarrow> ('e, 'd) marpaWrapper \<Rightarrow> ('e, 'd, 'v) wstate
     \<Rightarrow> (bool \<times> ('e, 'd) marpaWrapper \<times> ('e, 'd, 'v) wstate) option" where
  "expected_arrays W w c =
     (if expectedMarpaSymbolIdArrayp w \<noteq> Null then Some (True, w, c)
      else do {
        (r, c1) \<leftarrow> checked W w (G (Marpa_g_highest_symbol_id (marpaGrammarp w))) (\<lambda>i. i \<noteq> - 2) c;
        (case r of
           None \<Rightarrow> Some (False, w, c1)
         | Some x \<Rightarrow> do {
             _ \<leftarrow> require (ret x < int INT_MAX);
             let n = int_to_size (ret x + 1);
             let (p, h1) = malloc (Obj (IntsObj (replicate (to_size (n * INT_BYTES) div INT_BYTES) None))) (hp c1);
             if p = Null
             then do { c2 \<leftarrow> log_sys_error W w ''malloc()'' (c1\<lparr>hp := h1\<rparr>); Some (False, w, c2) }
             else
               (let (q, h2) = malloc (Arr (replicate (to_size (n * PTR_BYTES) div PTR_BYTES) None)) h1 in
                if q = Null
                then do {
                  c2 \<leftarrow> log_sys_error W (w\<lparr>expectedMarpaSymbolIdArrayp := p\<rparr>) ''malloc()'' (c1\<lparr>hp := h2\<rparr>);
                  h3 \<leftarrow> cfree p (hp c2);
                  Some (False, w, c2\<lparr>hp := h3\<rparr>)
                }
                else Some (True, w\<lparr>expectedMarpaSymbolIdArrayp := p, expectedMarpaWrapperSymbolArraypp := q\<rparr>,
                       c1\<lparr>hp := h2\<rparr>))
           })
      })"

text \<open>The result, what is stored for the caller, the wrapper and the state.\<close>

definition marpaWrapper_r_terminals_expectedb ::
  "('e, 'd, 'v) world \<Rightarrow> ('e, 'd) marpaWrapper option \<Rightarrow> ('e, 'd, 'v) wstate
     \<Rightarrow> (int \<times> (nat \<times> ptr) option \<times> ('e, 'd) marpaWrapper option \<times> ('e, 'd, 'v) wstate) option" where
  "marpaWrapper_r_terminals_expectedb W wp c =
     (case wp of
        None \<Rightarrow> Some (MARPAWRAPPER_BOOL_FALSE, None, None, c)
      | Some w \<Rightarrow>
          if marpaRecognizerp w = 0
          then do { c1 \<leftarrow> no_read_phase W w c; Some (MARPAWRAPPER_BOOL_FALSE, None, Some w, c1) }
          else do {
            (ok, w1, c1) \<leftarrow> expected_arrays W w c;
            if \<not> ok then Some (MARPAWRAPPER_BOOL_FALSE, None, Some w1, c1)
            else
              (let (r, c2) = call W (R (Marpa_r_terminals_expected (marpaRecognizerp w1))) c1 in do {
                 h2 \<leftarrow> fill_ints (expectedMarpaSymbolIdArrayp w1) (outs r) (hp c2);
                 let c3 = c2\<lparr>hp := h2\<rparr>;
                 if ret r = - 2
                 then do {
                   c4 \<leftarrow> log_marpa_g_error W w1 c3;
                   Some (MARPAWRAPPER_BOOL_FALSE, None, Some w1, c4)
                 }
                 else do {
                   h4 \<leftarrow> (if 0 < ret r
                          then fill_symbols (marpaWrapperSymbolpp w1) (expectedMarpaSymbolIdArrayp w1)
                                 (expectedMarpaWrapperSymbolArraypp w1) 0 (nat (ret r)) h2
                          else Some h2);
                   Some (MARPAWRAPPER_BOOL_TRUE,
                     Some (int_to_size (ret r), expectedMarpaWrapperSymbolArraypp w1), Some w1, c3\<lparr>hp := h4\<rparr>)
                 }
               })
          })"

definition marpaWrapper_r_terminal_is_expectedb ::
  "('e, 'd, 'v) world \<Rightarrow> ('e, 'd) marpaWrapper option \<Rightarrow> ptr \<Rightarrow> ('e, 'd, 'v) wstate
     \<Rightarrow> (int \<times> int option \<times> ('e, 'd, 'v) wstate) option" where
  "marpaWrapper_r_terminal_is_expectedb W wp sp c =
     (case wp of
        None \<Rightarrow> Some (MARPAWRAPPER_BOOL_FALSE, None, c)
      | Some w \<Rightarrow>
          if sp = Null then Some (MARPAWRAPPER_BOOL_FALSE, None, c)
          else if marpaRecognizerp w = 0
          then do { c1 \<leftarrow> no_read_phase W w c; Some (MARPAWRAPPER_BOOL_FALSE, None, c1) }
          else do {
            s \<leftarrow> symbol_at (hp c) sp;
            (r, c1) \<leftarrow> checked W w (R (Marpa_r_terminal_is_expected (marpaRecognizerp w) (marpaSymbolIdi s)))
                       (\<lambda>i. i \<noteq> - 2) c;
            (case r of
               None \<Rightarrow> Some (MARPAWRAPPER_BOOL_FALSE, None, c1)
             | Some x \<Rightarrow> Some (MARPAWRAPPER_BOOL_TRUE,
                 Some (if 0 < ret x then MARPAWRAPPER_BOOL_TRUE else MARPAWRAPPER_BOOL_FALSE), c1))
          })"

end
