(* ===== verification/RecognizerProps.thy ===== *)
theory RecognizerProps
  imports WrapperRecognizer
begin

text \<open>
  What the recognizer calls guarantee: they return, keep what the wrapper owns, and ask libmarpa for
  what they should; and the contents of the array of expected terminals.
\<close>

section \<open>The arrays of the wrapper\<close>

definition with_arrays :: "ptr \<Rightarrow> ptr \<Rightarrow> ('e, 'd) marpaWrapper \<Rightarrow> ('e, 'd) marpaWrapper" where
  "with_arrays p q w = w\<lparr>expectedMarpaSymbolIdArrayp := p, expectedMarpaWrapperSymbolArraypp := q\<rparr>"

lemma with_arrays_fields [simp]:
  "marpaRecognizerp (with_arrays p q w) = marpaRecognizerp w" "marpaGrammarp (with_arrays p q w) = marpaGrammarp w"
  "marpaWrapperSymbolpp (with_arrays p q w) = marpaWrapperSymbolpp w"
  "expectedMarpaSymbolIdArrayp (with_arrays p q w) = p"
  "expectedMarpaWrapperSymbolArraypp (with_arrays p q w) = q"
  by (simp_all add: with_arrays_def)

text \<open>The two arrays as parts of the store.\<close>

lemma wrapper_ids:
  assumes "wrapper_rep w h syms rules progs g"
  obtains v ss ts where "refits ss ts v" "expectedMarpaSymbolIdArrayp w = Null \<longrightarrow> store h = v"
    "\<forall>a. expectedMarpaSymbolIdArrayp w = Ref a \<longrightarrow> v a = None \<and> (\<exists>xs. store h = v(a \<mapsto> Obj (IntsObj xs)))"
    "\<forall>s p h'. joins (ss @ s # ts) (store h') \<longrightarrow> ptr_own s p (\<lambda>b. \<exists>xs. b = Obj (IntsObj xs)) \<longrightarrow> heap_ok h' \<longrightarrow>
       wrapper_rep (with_arrays p (expectedMarpaWrapperSymbolArraypp w) w) h' syms rules progs g"
proof -
  from assms obtain s1 s2 s3 s4 s5 s6 where W: "nMarpaWrapperSymboli w = length syms"
    "nMarpaWrapperRulei w = length rules" "nMarpaWrapperProgressi w = length progs" "wrapSelfp w \<noteq> Null"
    "table_own s1 (marpaWrapperSymbolpp w) (sizeMarpaWrapperSymboli w) syms"
    "table_own s2 (marpaWrapperRulepp w) (sizeMarpaWrapperRulei w) rules"
    "table_own s3 (marpaWrapperProgresspp w) (sizeMarpaWrapperProgressi w) progs"
    "ptr_own s5 (expectedMarpaWrapperSymbolArraypp w) (\<lambda>b. \<exists>ps. b = Arr ps)"
    "ptr_own s6 (wrapSelfp w) (\<lambda>b. b = Raw)"
    and J: "ptr_own s4 (expectedMarpaSymbolIdArrayp w) (\<lambda>b. \<exists>xs. b = Obj (IntsObj xs))"
      "joins ([s1, s2, s3] @ s4 # [s5, s6, g]) (store h)"
    unfolding wrapper_rep_def by auto
  from take_ptr [OF J(2,1)] obtain v where v: "refits [s1, s2, s3] [s5, s6, g] v"
    "expectedMarpaSymbolIdArrayp w = Null \<longrightarrow> store h = v"
    "\<forall>a. expectedMarpaSymbolIdArrayp w = Ref a \<longrightarrow> v a = None \<and>
       (\<exists>b. (\<exists>xs. b = Obj (IntsObj xs)) \<and> store h = v(a \<mapsto> b))" .
  show thesis
  proof (rule that [OF v(1,2)])
    show "\<forall>a. expectedMarpaSymbolIdArrayp w = Ref a \<longrightarrow> v a = None \<and> (\<exists>xs. store h = v(a \<mapsto> Obj (IntsObj xs)))"
      using v(3) by blast
    show "\<forall>s p h'. joins ([s1, s2, s3] @ s # [s5, s6, g]) (store h') \<longrightarrow>
        ptr_own s p (\<lambda>b. \<exists>xs. b = Obj (IntsObj xs)) \<longrightarrow> heap_ok h' \<longrightarrow>
        wrapper_rep (with_arrays p (expectedMarpaWrapperSymbolArraypp w) w) h' syms rules progs g"
      unfolding with_arrays_def
      by (intro allI impI wrapper_repI [of _ _ _ _ _ s1 s2 s3 _ s5 s6]) (use W in simp_all)
  qed
qed

lemma wrapper_arr:
  assumes "wrapper_rep w h syms rules progs g"
  obtains v ss ts where "refits ss ts v" "expectedMarpaWrapperSymbolArraypp w = Null \<longrightarrow> store h = v"
    "\<forall>a. expectedMarpaWrapperSymbolArraypp w = Ref a \<longrightarrow> v a = None \<and> (\<exists>ps. store h = v(a \<mapsto> Arr ps))"
    "\<forall>s p h'. joins (ss @ s # ts) (store h') \<longrightarrow> ptr_own s p (\<lambda>b. \<exists>ps. b = Arr ps) \<longrightarrow> heap_ok h' \<longrightarrow>
       wrapper_rep (with_arrays (expectedMarpaSymbolIdArrayp w) p w) h' syms rules progs g"
proof -
  from assms obtain s1 s2 s3 s4 s5 s6 where W: "nMarpaWrapperSymboli w = length syms"
    "nMarpaWrapperRulei w = length rules" "nMarpaWrapperProgressi w = length progs" "wrapSelfp w \<noteq> Null"
    "table_own s1 (marpaWrapperSymbolpp w) (sizeMarpaWrapperSymboli w) syms"
    "table_own s2 (marpaWrapperRulepp w) (sizeMarpaWrapperRulei w) rules"
    "table_own s3 (marpaWrapperProgresspp w) (sizeMarpaWrapperProgressi w) progs"
    "ptr_own s4 (expectedMarpaSymbolIdArrayp w) (\<lambda>b. \<exists>xs. b = Obj (IntsObj xs))"
    "ptr_own s6 (wrapSelfp w) (\<lambda>b. b = Raw)"
    and J: "ptr_own s5 (expectedMarpaWrapperSymbolArraypp w) (\<lambda>b. \<exists>ps. b = Arr ps)"
      "joins ([s1, s2, s3, s4] @ s5 # [s6, g]) (store h)"
    unfolding wrapper_rep_def by auto
  from take_ptr [OF J(2,1)] obtain v where v: "refits [s1, s2, s3, s4] [s6, g] v"
    "expectedMarpaWrapperSymbolArraypp w = Null \<longrightarrow> store h = v"
    "\<forall>a. expectedMarpaWrapperSymbolArraypp w = Ref a \<longrightarrow> v a = None \<and>
       (\<exists>b. (\<exists>ps. b = Arr ps) \<and> store h = v(a \<mapsto> b))" .
  show thesis
  proof (rule that [OF v(1,2)])
    show "\<forall>a. expectedMarpaWrapperSymbolArraypp w = Ref a \<longrightarrow> v a = None \<and> (\<exists>ps. store h = v(a \<mapsto> Arr ps))"
      using v(3) by blast
    show "\<forall>s p h'. joins ([s1, s2, s3, s4] @ s # [s6, g]) (store h') \<longrightarrow>
        ptr_own s p (\<lambda>b. \<exists>ps. b = Arr ps) \<longrightarrow> heap_ok h' \<longrightarrow>
        wrapper_rep (with_arrays (expectedMarpaSymbolIdArrayp w) p w) h' syms rules progs g"
      unfolding with_arrays_def
      by (intro allI impI wrapper_repI [of _ _ _ _ _ s1 s2 s3 s4 _ s6]) (use W in simp_all)
  qed
qed

text \<open>Taking a fresh block for an array that was \<open>NULL\<close>, overwriting it, and giving it up.\<close>

lemma wrapper_new_ids:
  assumes R: "wrapper_rep w h syms rules progs g" and n: "expectedMarpaSymbolIdArrayp w = Null"
  shows "wrapper_rep (with_arrays (Ref (fresh h)) (expectedMarpaWrapperSymbolArraypp w) w)
    (granted (Obj (IntsObj xs)) h) syms rules progs g"
proof -
  note ok = wrapper_heap_ok [OF R]
  from R obtain v ss ts where v: "refits ss ts v" "store h = v"
    "\<forall>s p h'. joins (ss @ s # ts) (store h') \<longrightarrow> ptr_own s p (\<lambda>b. \<exists>xs. b = Obj (IntsObj xs)) \<longrightarrow> heap_ok h' \<longrightarrow>
       wrapper_rep (with_arrays p (expectedMarpaWrapperSymbolArraypp w) w) h' syms rules progs g"
    by (rule wrapper_ids) (use n in blast)
  have f: "v (fresh h) = None" "store (granted (Obj (IntsObj xs)) h) = v(fresh h \<mapsto> Obj (IntsObj xs))"
    using ok v(2) by auto
  obtain s where "joins (ss @ s # ts) (store (granted (Obj (IntsObj xs)) h))"
    "ptr_own s (Ref (fresh h)) (\<lambda>b. \<exists>xs. b = Obj (IntsObj xs))"
    by (rule put_ptr_Ref [where P = "\<lambda>b. \<exists>xs. b = Obj (IntsObj xs)", OF v(1) f]) blast+
  with v(3) ok show ?thesis by simp
qed

lemma wrapper_new_arr:
  assumes R: "wrapper_rep w h syms rules progs g" and n: "expectedMarpaWrapperSymbolArraypp w = Null"
  shows "wrapper_rep (with_arrays (expectedMarpaSymbolIdArrayp w) (Ref (fresh h)) w)
    (granted (Arr ps) h) syms rules progs g"
proof -
  note ok = wrapper_heap_ok [OF R]
  from R obtain v ss ts where v: "refits ss ts v" "store h = v"
    "\<forall>s p h'. joins (ss @ s # ts) (store h') \<longrightarrow> ptr_own s p (\<lambda>b. \<exists>ps. b = Arr ps) \<longrightarrow> heap_ok h' \<longrightarrow>
       wrapper_rep (with_arrays (expectedMarpaSymbolIdArrayp w) p w) h' syms rules progs g"
    by (rule wrapper_arr) (use n in blast)
  have f: "v (fresh h) = None" "store (granted (Arr ps) h) = v(fresh h \<mapsto> Arr ps)"
    using ok v(2) by auto
  obtain s where "joins (ss @ s # ts) (store (granted (Arr ps) h))"
    "ptr_own s (Ref (fresh h)) (\<lambda>b. \<exists>ps. b = Arr ps)"
    by (rule put_ptr_Ref [where P = "\<lambda>b. \<exists>ps. b = Arr ps", OF v(1) f]) blast+
  with v(3) ok show ?thesis by simp
qed

lemma wrapper_set_ids:
  assumes R: "wrapper_rep w h syms rules progs g" and p: "expectedMarpaSymbolIdArrayp w = Ref a"
  shows "wrapper_rep w (set_block a (Obj (IntsObj xs)) h) syms rules progs g"
proof -
  note ok = wrapper_heap_ok [OF R]
  from R obtain v ss ts ys where v: "refits ss ts v" "v a = None" "store h = v(a \<mapsto> Obj (IntsObj ys))"
    "\<forall>s p h'. joins (ss @ s # ts) (store h') \<longrightarrow> ptr_own s p (\<lambda>b. \<exists>xs. b = Obj (IntsObj xs)) \<longrightarrow> heap_ok h' \<longrightarrow>
       wrapper_rep (with_arrays p (expectedMarpaWrapperSymbolArraypp w) w) h' syms rules progs g"
    by (rule wrapper_ids) (use p in blast)
  have st: "store (set_block a (Obj (IntsObj xs)) h) = v(a \<mapsto> Obj (IntsObj xs))" using v(3) by simp
  obtain s where "joins (ss @ s # ts) (store (set_block a (Obj (IntsObj xs)) h))"
    "ptr_own s (Ref a) (\<lambda>b. \<exists>xs. b = Obj (IntsObj xs))"
    by (rule put_ptr_Ref [where P = "\<lambda>b. \<exists>xs. b = Obj (IntsObj xs)", OF v(1,2) st]) blast+
  moreover have "heap_ok (set_block a (Obj (IntsObj xs)) h)" using ok v(3) by (intro heap_ok_set_block) auto
  ultimately have "wrapper_rep (with_arrays (Ref a) (expectedMarpaWrapperSymbolArraypp w) w)
      (set_block a (Obj (IntsObj xs)) h) syms rules progs g"
    using v(4) by blast
  moreover have "with_arrays (Ref a) (expectedMarpaWrapperSymbolArraypp w) w = w"
    using p by (cases w) (simp add: with_arrays_def)
  ultimately show ?thesis by simp
qed

lemma wrapper_set_arr:
  assumes R: "wrapper_rep w h syms rules progs g" and p: "expectedMarpaWrapperSymbolArraypp w = Ref a"
  shows "wrapper_rep w (set_block a (Arr ps) h) syms rules progs g"
proof -
  note ok = wrapper_heap_ok [OF R]
  from R obtain v ss ts qs where v: "refits ss ts v" "v a = None" "store h = v(a \<mapsto> Arr qs)"
    "\<forall>s p h'. joins (ss @ s # ts) (store h') \<longrightarrow> ptr_own s p (\<lambda>b. \<exists>ps. b = Arr ps) \<longrightarrow> heap_ok h' \<longrightarrow>
       wrapper_rep (with_arrays (expectedMarpaSymbolIdArrayp w) p w) h' syms rules progs g"
    by (rule wrapper_arr) (use p in blast)
  have st: "store (set_block a (Arr ps) h) = v(a \<mapsto> Arr ps)" using v(3) by simp
  obtain s where "joins (ss @ s # ts) (store (set_block a (Arr ps) h))"
    "ptr_own s (Ref a) (\<lambda>b. \<exists>ps. b = Arr ps)"
    by (rule put_ptr_Ref [where P = "\<lambda>b. \<exists>ps. b = Arr ps", OF v(1,2) st]) blast+
  moreover have "heap_ok (set_block a (Arr ps) h)" using ok v(3) by (intro heap_ok_set_block) auto
  ultimately have "wrapper_rep (with_arrays (expectedMarpaSymbolIdArrayp w) (Ref a) w)
      (set_block a (Arr ps) h) syms rules progs g"
    using v(4) by blast
  moreover have "with_arrays (expectedMarpaSymbolIdArrayp w) (Ref a) w = w"
    using p by (cases w) (simp add: with_arrays_def)
  ultimately show ?thesis by simp
qed

lemma wrapper_free_ids:
  assumes R: "wrapper_rep w h syms rules progs g"
  obtains h' where "(if expectedMarpaSymbolIdArrayp w \<noteq> Null then cfree (expectedMarpaSymbolIdArrayp w) h
      else Some h) = Some h'"
    "wrapper_rep (with_arrays Null (expectedMarpaWrapperSymbolArraypp w) w) h' syms rules progs g"
    "avail h' = avail h"
proof -
  note ok = wrapper_heap_ok [OF R]
  from R obtain v ss ts where v: "refits ss ts v" "expectedMarpaSymbolIdArrayp w = Null \<longrightarrow> store h = v"
    "\<forall>a. expectedMarpaSymbolIdArrayp w = Ref a \<longrightarrow> v a = None \<and> (\<exists>xs. store h = v(a \<mapsto> Obj (IntsObj xs)))"
    and close: "\<forall>s p h'. joins (ss @ s # ts) (store h') \<longrightarrow> ptr_own s p (\<lambda>b. \<exists>xs. b = Obj (IntsObj xs)) \<longrightarrow> heap_ok h' \<longrightarrow>
       wrapper_rep (with_arrays p (expectedMarpaWrapperSymbolArraypp w) w) h' syms rules progs g"
    by (rule wrapper_ids)
  have fin: "wrapper_rep (with_arrays Null (expectedMarpaWrapperSymbolArraypp w) w) h' syms rules progs g"
    if "store h' = v" "heap_ok h'" for h'
    by (rule put_ptr_Null [OF v(1) that(1)]) (use close that(2) in blast)
  show thesis
  proof (cases "expectedMarpaSymbolIdArrayp w")
    case Null
    with v(2) fin ok show thesis by (intro that [of h]) simp_all
  next
    case (Ref a)
    with v(3) obtain xs where a: "v a = None" "store h = v(a \<mapsto> Obj (IntsObj xs))" by blast
    then have "store (drop_block a h) = v" by (simp add: fun_upd_idem)
    with Ref a fin ok show thesis by (intro that [of "drop_block a h"]) (simp_all add: heap_ok_drop_block)
  qed
qed

lemma wrapper_free_arr:
  assumes R: "wrapper_rep w h syms rules progs g"
  obtains h' where "(if expectedMarpaWrapperSymbolArraypp w \<noteq> Null then cfree (expectedMarpaWrapperSymbolArraypp w) h
      else Some h) = Some h'"
    "wrapper_rep (with_arrays (expectedMarpaSymbolIdArrayp w) Null w) h' syms rules progs g"
    "avail h' = avail h"
proof -
  note ok = wrapper_heap_ok [OF R]
  from R obtain v ss ts where v: "refits ss ts v" "expectedMarpaWrapperSymbolArraypp w = Null \<longrightarrow> store h = v"
    "\<forall>a. expectedMarpaWrapperSymbolArraypp w = Ref a \<longrightarrow> v a = None \<and> (\<exists>ps. store h = v(a \<mapsto> Arr ps))"
    and close: "\<forall>s p h'. joins (ss @ s # ts) (store h') \<longrightarrow> ptr_own s p (\<lambda>b. \<exists>ps. b = Arr ps) \<longrightarrow> heap_ok h' \<longrightarrow>
       wrapper_rep (with_arrays (expectedMarpaSymbolIdArrayp w) p w) h' syms rules progs g"
    by (rule wrapper_arr)
  have fin: "wrapper_rep (with_arrays (expectedMarpaSymbolIdArrayp w) Null w) h' syms rules progs g"
    if "store h' = v" "heap_ok h'" for h'
    by (rule put_ptr_Null [OF v(1) that(1)]) (use close that(2) in blast)
  show thesis
  proof (cases "expectedMarpaWrapperSymbolArraypp w")
    case Null
    with v(2) fin ok show thesis by (intro that [of h]) simp_all
  next
    case (Ref a)
    with v(3) obtain ps where a: "v a = None" "store h = v(a \<mapsto> Arr ps)" by blast
    then have "store (drop_block a h) = v" by (simp add: fun_upd_idem)
    with Ref a fin ok show thesis by (intro that [of "drop_block a h"]) (simp_all add: heap_ok_drop_block)
  qed
qed

section \<open>The calls of event handling\<close>

definition event_call :: "('d, 'v) call \<Rightarrow> bool" where
  "event_call k = (case k of
     G q \<Rightarrow> (case q of Marpa_g_event_count g \<Rightarrow> True | Marpa_g_event g i \<Rightarrow> True | Marpa_g_error g \<Rightarrow> True
       | Marpa_c_error \<Rightarrow> True | _ \<Rightarrow> False)
   | U q \<Rightarrow> (case q of EventCallback evs \<Rightarrow> True | _ \<Rightarrow> False)
   | _ \<Rightarrow> False)"

definition only_event_calls :: "('e, 'd, 'v) wstate \<Rightarrow> ('e, 'd, 'v) wstate \<Rightarrow> bool" where
  "only_event_calls c c' \<longleftrightarrow> (\<exists>t. calls_since c c' t \<and> list_all (\<lambda>kr. event_call (fst kr)) t)"

lemma only_event_trans: "only_event_calls c c1 \<Longrightarrow> only_event_calls c1 c2 \<Longrightarrow> only_event_calls c c2"
  unfolding only_event_calls_def by (metis calls_since_trans list_all_append)

lemma only_event_hp [simp]: "only_event_calls c (c'\<lparr>hp := h\<rparr>) = only_event_calls c c'"
  by (simp add: only_event_calls_def)

lemma only_event_refl [simp]: "only_event_calls c c"
  by (auto simp: only_event_calls_def calls_since_def intro: exI [of _ "[]"])

lemma only_event_call: "event_call k \<Longrightarrow> only_event_calls c (snd (call W k c))"
  unfolding only_event_calls_def using calls_since_call by fastforce

lemma only_event_logged: "logged c c' \<Longrightarrow> only_event_calls c c'"
proof -
  assume "logged c c'"
  then obtain t where t: "calls_since c c' t" "silent t" using logged_silent by blast
  have "list_all (\<lambda>kr. event_call (fst kr)) t"
    using t(2) by (fastforce simp: silent_def list_all_iff event_call_def)
  with t(1) show ?thesis unfolding only_event_calls_def by blast
qed

lemma collect_events_calls:
  assumes W: "ready W"
  shows "collect_events W w i n evs c = Some (res, c') \<Longrightarrow> heap_ok (hp c) \<Longrightarrow> only_event_calls c c'"
proof (induction n arbitrary: i evs c)
  case 0
  then show ?case by simp
next
  case (Suc n)
  let ?k = "G (Marpa_g_event (marpaGrammarp w) i)"
  define r c1 where "r = fst (call W ?k c)" and "c1 = snd (call W ?k c)"
  have cl: "call W ?k c = (r, c1)" by (simp add: r_def c1_def)
  have ok1: "heap_ok (hp c1)" using Suc.prems(2) by (simp add: c1_def)
  have one: "only_event_calls c c1" unfolding c1_def by (rule only_event_call) (simp add: event_call_def)
  note lg = logged_macros [OF _ ok1 ready_clock [OF W]]
  have stop: ?case if "logged c1 c'"
    by (rule only_event_trans [OF one only_event_logged [OF that]])
  have go: ?case if "collect_events W w (Suc i) n evs' c2 = Some (res, c')" "c2 = c1 \<or> logged c1 c2" for evs' c2
  proof -
    have "heap_ok (hp c2)" "only_event_calls c1 c2"
      using that(2) ok1 same_storeD(3) [OF logged_store] only_event_logged by auto
    with Suc.IH [OF that(1)] only_event_trans [OF one] only_event_trans show ?thesis by blast
  qed
  show ?case
  proof (cases "ret r < 0")
    case True
    with Suc.prems(1) cl obtain c2 where "log_marpa_g_error W w c1 = Some c2" "c' = c2"
      by (auto simp: run_simps)
    with stop lg show ?thesis by blast
  next
    case False
    note P = Suc.prems(1) [unfolded collect_events.simps cl Let_def prod.case, simplified False if_False]
    show ?thesis
    proof (cases "event_action (ret r)")
      case Ignore
      with P show ?thesis by (intro go [of evs c1]) simp_all
    next
      case (Subscribed ty)
      obtain v where v: "out r 0 = Some v" using P Subscribed by (cases "out r 0") simp_all
      then have "0 \<le> v" using P Subscribed by (cases "0 \<le> v") simp_all
      with v obtain p where "arr_get (marpaWrapperSymbolpp w) (nat v) (hp c1) = Some p"
        using P Subscribed by (cases "arr_get (marpaWrapperSymbolpp w) (nat v) (hp c1)") simp_all
      with v \<open>0 \<le> v\<close> P Subscribed
      have "collect_events W w (Suc i) n (evs @ [\<lparr>eventType = ty, eventSymbolp = p\<rparr>]) c1 = Some (res, c')"
        by simp
      then show ?thesis by (rule go) simp
    next
      case (Warning m)
      show ?thesis
      proof (cases "warningIsErrorb (marpaWrapperOption w)")
        case True
        with P Warning obtain c2 where "log_error0 W w m c1 = Some c2" "c' = c2"
          by (auto simp: run_simps)
        with stop lg show ?thesis by blast
      next
        case False
        with P Warning obtain c2 where "log_level0 W w GENERICLOGGER_LOGLEVEL_WARNING m c1 = Some c2"
          "collect_events W w (Suc i) n evs c2 = Some (res, c')"
          by (auto simp: run_simps)
        with go lg show ?thesis by blast
      qed
    next
      case (Fatal m)
      with P obtain c2 where "log_error0 W w m c1 = Some c2" "c' = c2"
        by (auto simp: run_simps)
      with stop lg show ?thesis by blast
    next
      case (Info m)
      with P obtain c2 where "log_level0 W w GENERICLOGGER_LOGLEVEL_INFO m c1 = Some c2" "c' = c2"
        by (auto simp: run_simps)
      with stop lg show ?thesis by blast
    next
      case Unsupported
      with P obtain m c2 where "log_level0 W w GENERICLOGGER_LOGLEVEL_NOTICE m c1 = Some c2"
        "collect_events W w (Suc i) n evs c2 = Some (res, c')"
        by (auto simp: run_simps)
      with go lg show ?thesis by blast
    qed
  qed
qed

lemma deliver_events_calls: "only_event_calls c (deliver_events W w evs c)"
proof -
  define ev where "ev = (if 1 < length evs \<and> \<not> unsortedEventsb (marpaWrapperOption w)
    then qsort_events W marpaWrapper_event_cmp evs else evs)"
  have "deliver_events W w evs c = c \<or> deliver_events W w evs c = snd (call W (U (EventCallback ev)) c)"
    by (simp add: deliver_events_def ev_def)
  moreover have "event_call (U (EventCallback ev))" by (simp add: event_call_def)
  ultimately show ?thesis using only_event_call [of "U (EventCallback ev)" c W] by auto
qed

lemma event_calls:
  assumes run: "marpaWrapper_event W w c = Some (rc, c')" and ok: "heap_ok (hp c)" and W: "ready W"
  shows "only_event_calls c c'"
proof -
  define r c1 where "r = fst (call W (G (Marpa_g_event_count (marpaGrammarp w))) c)"
    and "c1 = snd (call W (G (Marpa_g_event_count (marpaGrammarp w))) c)"
  have cl: "call W (G (Marpa_g_event_count (marpaGrammarp w))) c = (r, c1)" by (simp add: r_def c1_def)
  have one: "only_event_calls c c1" unfolding c1_def by (rule only_event_call) (simp add: event_call_def)
  have ok1: "heap_ok (hp c1)" using ok by (simp add: c1_def)
  show ?thesis
  proof (cases "ret r < 0")
    case True
    with run cl one show ?thesis by (simp add: marpaWrapper_event_def)
  next
    case r: False
    show ?thesis
    proof (cases "avail (hp c1) (asked (hp c1))")
      case False
      with run cl r obtain c3 where lg: "log_sys_error W w ''malloc()'' (c1\<lparr>hp := refused (hp c1)\<rparr>) = Some c3" "c' = c3"
        by (auto simp: marpaWrapper_event_def malloc_eq run_simps)
      have "heap_ok (hp (c1\<lparr>hp := refused (hp c1)\<rparr>))" using ok1 by simp
      from only_event_logged [OF logged_macros(3) [OF lg(1) this ready_clock [OF W]]] lg(2)
      have "only_event_calls c1 c'" by (simp add: only_event_calls_def calls_since_def)
      with only_event_trans [OF one] show ?thesis by blast
    next
      case True
      let ?c2 = "c1\<lparr>hp := granted Raw (hp c1)\<rparr>"
      obtain x where x: "collect_events W w 0 (nat (ret r)) [] ?c2 = Some x"
        using run cl r True
        by (cases "collect_events W w 0 (nat (ret r)) [] ?c2") (simp_all add: marpaWrapper_event_def malloc_eq)
      obtain res c3 where xe: "x = (res, c3)" by (cases x)
      have ok2: "heap_ok (hp ?c2)" using ok1 by simp
      have c3: "only_event_calls c1 c3"
        using collect_events_calls [OF W x [unfolded xe] ok2] by (simp add: only_event_calls_def calls_since_def)
      have "\<exists>h d. c' = d\<lparr>hp := h\<rparr> \<and> (d = c3 \<or> (\<exists>evs. d = deliver_events W w evs c3))"
        using run cl r True x xe
        by (cases res) (auto simp: marpaWrapper_event_def malloc_eq bind_Some_iff Let_def simp del: cfree.simps)
      then obtain h d where d: "c' = d\<lparr>hp := h\<rparr>" "d = c3 \<or> (\<exists>evs. d = deliver_events W w evs c3)" by blast
      then have "only_event_calls c3 d" using deliver_events_calls by auto
      with only_event_trans [OF one only_event_trans [OF c3]] d(1) show ?thesis by simp
    qed
  qed
qed

text \<open>Recognizers taken from libmarpa and given back.\<close>

definition held :: "int \<Rightarrow> int list" where
  "held x = (if x = 0 then [] else [x])"

lemma held_simps [simp]: "held 0 = []" "x \<noteq> 0 \<Longrightarrow> held x = [x]"
  by (simp_all add: held_def)

definition recces_made :: "(('d, 'v) call \<times> 'v reply) list \<Rightarrow> int list" where
  "recces_made t = List.map_filter (\<lambda>(k, r). case k of R (Marpa_r_new g) \<Rightarrow> if ret r = 0 then None else Some (ret r) | _ \<Rightarrow> None) t"

definition recces_dropped :: "(('d, 'v) call \<times> 'v reply) list \<Rightarrow> int list" where
  "recces_dropped t = List.map_filter (\<lambda>(k, r). case k of R (Marpa_r_unref x) \<Rightarrow> Some x | _ \<Rightarrow> None) t"

definition recces ::
  "('e, 'd, 'v) wstate \<Rightarrow> ('e, 'd, 'v) wstate \<Rightarrow> int list \<Rightarrow> int list \<Rightarrow> bool" where
  "recces c c' ms ds \<longleftrightarrow> (\<exists>t. calls_since c c' t \<and> recces_made t = ms \<and> recces_dropped t = ds)"

lemma recces_trans:
  assumes "recces c c1 ms ds" "recces c1 c2 ms' ds'"
  shows "recces c c2 (ms @ ms') (ds @ ds')"
proof -
  from assms obtain t u where t: "calls_since c c1 t" "recces_made t = ms" "recces_dropped t = ds"
    and u: "calls_since c1 c2 u" "recces_made u = ms'" "recces_dropped u = ds'"
    unfolding recces_def by blast
  have "recces_made (t @ u) = ms @ ms'" "recces_dropped (t @ u) = ds @ ds'"
    using t(2,3) u(2,3) by (simp_all add: recces_made_def recces_dropped_def map_filter_append)
  with calls_since_trans [OF t(1) u(1)] show ?thesis unfolding recces_def by blast
qed

lemma recces_hp [simp]: "recces c (c'\<lparr>hp := h\<rparr>) ms ds = recces c c' ms ds" "recces (c\<lparr>hp := h\<rparr>) c' ms ds = recces c c' ms ds"
  by (simp_all add: recces_def calls_since_def)

lemma recces_refl [simp]: "recces c c [] []"
  unfolding recces_def
  by (rule exI [of _ "[]"]) (simp add: calls_since_def recces_made_def recces_dropped_def List.map_filter_def)

lemma recces_call:
  "recces c (snd (call W k c)) (recces_made [(k, fst (call W k c))]) (recces_dropped [(k, fst (call W k c))])"
  unfolding recces_def using calls_since_call by blast

lemma recces_only_events: "only_event_calls c c' \<Longrightarrow> recces c c' [] []"
proof -
  assume "only_event_calls c c'"
  then obtain t where t: "calls_since c c' t" "list_all (\<lambda>kr. event_call (fst kr)) t"
    unfolding only_event_calls_def by blast
  from t(2) have "recces_made t = [] \<and> recces_dropped t = []"
    by (induction t) (auto simp: recces_made_def recces_dropped_def List.map_filter_def event_call_def
        split: call.splits)
  with t(1) show ?thesis unfolding recces_def by blast
qed

lemma recces_logged: "logged c c' \<Longrightarrow> recces c c' [] []"
  by (intro recces_only_events only_event_logged)

lemma recces_query:
  "recces_made (filter (\<lambda>(k, r). \<not> error_query k) t) = recces_made t"
  "recces_dropped (filter (\<lambda>(k, r). \<not> error_query k) t) = recces_dropped t"
  by (induction t) (auto simp: recces_made_def recces_dropped_def List.map_filter_def error_query_def
      split: call.splits recce_call.splits)

lemma recces_steps: "steps c c' ks \<Longrightarrow> recces c c' (recces_made ks) (recces_dropped ks)"
proof -
  assume "steps c c' ks"
  then obtain t where t: "calls_since c c' t" "filter (\<lambda>(k, r). \<not> error_query k) t = ks"
    unfolding steps_def made_def by blast
  then have "recces_made t = recces_made ks" "recces_dropped t = recces_dropped ks"
    using recces_query [of t] by simp_all
  with t(1) show ?thesis unfolding recces_def by blast
qed

lemma recces_one:
  "recces_made [(R (Marpa_r_new g), r)] = (held (ret r))"
  "recces_dropped [(R (Marpa_r_new g), r)] = []"
  "recces_made [(R (Marpa_r_unref x), r)] = []" "recces_dropped [(R (Marpa_r_unref x), r)] = [x]"
  "recces_made [(R (Marpa_r_start_input x), r)] = []" "recces_dropped [(R (Marpa_r_start_input x), r)] = []"
  "recces_made [(R (Marpa_r_earleme_complete x), r)] = []" "recces_dropped [(R (Marpa_r_earleme_complete x), r)] = []"
  "recces_made [(R (Marpa_r_alternative x i v l), r)] = []" "recces_dropped [(R (Marpa_r_alternative x i v l), r)] = []"
  "recces_made [] = []" "recces_dropped [] = []"
  by (simp_all add: recces_made_def recces_dropped_def List.map_filter_def held_def)

section \<open>Runs of the recognizer calls\<close>

text \<open>What every one of them guarantees of the heap.\<close>

lemma event_step:
  assumes R: "wrapper_rep w (hp c) syms rules progs g" and W: "ready W" and es: "event_symbols W (length syms)"
  obtains rc c' where "marpaWrapper_event W w c = Some (rc, c')" "rc = 0 \<or> rc = 1"
    "same_store (hp c) (hp c')" "only_event_calls c c'"
proof -
  from event_total [OF assms] obtain rc c' where run: "marpaWrapper_event W w c = Some (rc, c')" by blast
  have ok: "heap_ok (hp c)" by (rule wrapper_heap_ok [OF R])
  obtain t where t: "same_store (hp c) (hp c')" "rc = 0 \<or> rc = 1"
    by (rule event_run [OF run ok ready_clock [OF W]])
  with run event_calls [OF run ok W] show thesis by (intro that)
qed

lemma startb_run:
  assumes R: "wrapper_rep w (hp c) syms rules progs g" and W: "ready W" and es: "event_symbols W (length syms)"
  obtains rc w' c' where "marpaWrapper_r_startb W (Some w) c = Some (rc, Some w', c')"
    "wrapper_rep w' (hp c') syms rules progs g" "rc = 0 \<or> rc = 1" "rc = 1 \<longrightarrow> marpaRecognizerp w' \<noteq> 0"
    "recces c c' (held (marpaRecognizerp w'))
       (held (marpaRecognizerp w))"
    "w' = (if marpaRecognizerp w \<noteq> 0 then with_arrays Null Null w else w)\<lparr>marpaRecognizerp := marpaRecognizerp w'\<rparr>"
proof -
  note result = that
  let ?ku = "R (Marpa_r_unref (marpaRecognizerp w))"
  define w1 where "w1 = (if marpaRecognizerp w \<noteq> 0 then with_arrays Null Null w else w)"
  obtain c1 where c1: "(if marpaRecognizerp w \<noteq> 0
      then (let c0 = snd (call W ?ku c) in do {
        h1 \<leftarrow> (if expectedMarpaSymbolIdArrayp w \<noteq> Null
               then cfree (expectedMarpaSymbolIdArrayp w) (hp c0) else Some (hp c0));
        h2 \<leftarrow> (if expectedMarpaWrapperSymbolArraypp w \<noteq> Null
               then cfree (expectedMarpaWrapperSymbolArraypp w) h1 else Some h1);
        Some (w\<lparr>expectedMarpaSymbolIdArrayp := Null, expectedMarpaWrapperSymbolArraypp := Null\<rparr>, c0\<lparr>hp := h2\<rparr>)
      })
      else Some (w, c)) = Some (w1, c1)"
    "wrapper_rep w1 (hp c1) syms rules progs g"
    "recces c c1 [] (held (marpaRecognizerp w))"
  proof (cases "marpaRecognizerp w = 0")
    case True
    with R show thesis by (intro that [of c]) (simp_all add: w1_def)
  next
    case False
    let ?c0 = "snd (call W ?ku c)"
    have "wrapper_rep w (hp ?c0) syms rules progs g" using R by simp
    then obtain h1 where h1: "(if expectedMarpaSymbolIdArrayp w \<noteq> Null
        then cfree (expectedMarpaSymbolIdArrayp w) (hp ?c0) else Some (hp ?c0)) = Some h1"
      "wrapper_rep (with_arrays Null (expectedMarpaWrapperSymbolArraypp w) w) h1 syms rules progs g"
      by (rule wrapper_free_ids)
    from h1(2) obtain h2 where h2: "(if expectedMarpaWrapperSymbolArraypp w \<noteq> Null
        then cfree (expectedMarpaWrapperSymbolArraypp w) h1 else Some h1) = Some h2"
      "wrapper_rep (with_arrays Null Null (with_arrays Null (expectedMarpaWrapperSymbolArraypp w) w)) h2 syms rules progs g"
      by (rule wrapper_free_arr) (simp only: with_arrays_fields)
    have ww: "with_arrays Null Null (with_arrays Null (expectedMarpaWrapperSymbolArraypp w) w) = w1"
      "w\<lparr>expectedMarpaSymbolIdArrayp := Null, expectedMarpaWrapperSymbolArraypp := Null\<rparr> = w1"
      using False by (simp_all add: w1_def with_arrays_def)
    have "recces c (?c0\<lparr>hp := h2\<rparr>) [] [marpaRecognizerp w]"
      using recces_call [of c W ?ku] by (simp add: recces_one)
    with False h1(1) h2 ww show thesis by (intro that [of "?c0\<lparr>hp := h2\<rparr>"]) (simp_all add: Let_def)
  qed
  let ?kn = "R (Marpa_r_new (marpaGrammarp w1))"
  define r c2 where "r = fst (call W ?kn c1)" and "c2 = snd (call W ?kn c1)"
  have cl: "call W ?kn c1 = (r, c2)" by (simp add: r_def c2_def)
  let ?w2 = "w1\<lparr>marpaRecognizerp := ret r\<rparr>"
  have R2: "wrapper_rep ?w2 (hp c2) syms rules progs g" using c1(2) by (simp add: c2_def)
  have rc2: "recces c c2 (held (ret r)) (held (marpaRecognizerp w))"
    using recces_trans [OF c1(3) recces_call [of c1 W ?kn]] by (simp add: recces_one r_def c2_def)
  have step: thesis
    if run: "marpaWrapper_r_startb W (Some w) c = Some (rc, Some ?w2, c')" and st: "same_store (hp c2) (hp c')"
      and re: "recces c2 c' [] []" and v: "rc = 0 \<or> rc = 1" "rc = 1 \<longrightarrow> ret r \<noteq> 0" for rc c'
  proof (rule result [OF run])
    show "wrapper_rep ?w2 (hp c') syms rules progs g" by (rule wrapper_same_store [OF R2 st])
    show "recces c c' (held (marpaRecognizerp ?w2))
       (held (marpaRecognizerp w))"
      using recces_trans [OF rc2 re] by simp
    show "?w2 = (if marpaRecognizerp w \<noteq> 0 then with_arrays Null Null w else w)\<lparr>marpaRecognizerp := marpaRecognizerp ?w2\<rparr>"
      by (simp add: w1_def)
  qed (use v in simp_all)
  show thesis
  proof (cases "ret r = 0")
    case True
    from log_marpa_g_error_logs [OF W wrapper_heap_ok [OF R2], of ?w2] obtain c3 where
      c3: "log_marpa_g_error W ?w2 c2 = Some c3" "logged c2 c3"
      by (auto simp: logs_def)
    show thesis
    proof (rule step)
      show "marpaWrapper_r_startb W (Some w) c = Some (0, Some ?w2, c3)"
        using c1(1) cl True c3(1) by (simp add: marpaWrapper_r_startb_def MARPAWRAPPER_BOOL_FALSE_def)
    qed (use logged_store [OF c3(2)] recces_logged [OF c3(2)] in simp_all)
  next
    case False
    have nq: "\<not> error_query (R (Marpa_r_start_input (ret r)))" by (simp add: error_query_def)
    from checked_run [where good = "\<lambda>i. \<not> i < 0" and w = ?w2, OF W wrapper_heap_ok [OF R2] nq]
    obtain s c3 where c3: "checked W ?w2 (R (Marpa_r_start_input (ret r))) (\<lambda>i. \<not> i < 0) c2
        = Some (if \<not> ret s < 0 then Some s else None, c3)" "steps c2 c3 [(R (Marpa_r_start_input (ret r)), s)]"
      by blast
    have st3: "same_store (hp c2) (hp c3)" "recces c2 c3 [] []"
      using c3(2) recces_steps [OF c3(2)] by (simp_all add: steps_def recces_one)
    show thesis
    proof (cases "ret s < 0")
      case True
      show thesis
      proof (rule step)
        show "marpaWrapper_r_startb W (Some w) c = Some (0, Some ?w2, c3)"
          using c1(1) cl False c3(1) True by (simp add: marpaWrapper_r_startb_def MARPAWRAPPER_BOOL_FALSE_def)
      qed (use st3 in simp_all)
    next
      case good: False
      obtain rc c4 where e: "marpaWrapper_event W ?w2 c3 = Some (rc, c4)" "rc = 0 \<or> rc = 1"
        "same_store (hp c3) (hp c4)" "only_event_calls c3 c4"
        by (rule event_step [OF wrapper_same_store [OF R2 st3(1)] W es])
      show thesis
      proof (rule step)
        show "marpaWrapper_r_startb W (Some w) c = Some (rc, Some ?w2, c4)"
          using c1(1) cl False c3(1) good e(1) by (simp add: marpaWrapper_r_startb_def)
        show "recces c2 c4 [] []"
          using recces_trans [OF st3(2) recces_only_events [OF e(4)]] by simp
      qed (use same_store_trans [OF st3(1) e(3)] e(2) False in simp_all)
    qed
  qed
qed

lemma no_read_phase_run:
  assumes "ready W" "heap_ok (hp c)"
  obtains c' where "no_read_phase W w c = Some c'" "steps c c' []"
proof -
  have "logs (log_error0 W w ''Read phase not started'') c"
    by (intro log_error0_logs [OF assms]) simp
  then obtain c' where "log_error0 W w ''Read phase not started'' c = Some c'" "logged c c'"
    by (auto simp: logs_def)
  with steps_logged show thesis by (intro that [of c']) (simp_all add: no_read_phase_def)
qed

lemma alternativeb_run:
  assumes W: "ready W" and ok: "heap_ok (hp c)" and s: "symbol_at (hp c) sp = Some s" and w: "marpaRecognizerp w \<noteq> 0"
  obtains r c' where "marpaWrapper_r_alternativeb W (Some w) sp v l c =
      Some (if ret r = MARPA_ERR_NONE then MARPAWRAPPER_BOOL_TRUE else MARPAWRAPPER_BOOL_FALSE, c')"
    "r = fst (call W (R (Marpa_r_alternative (marpaRecognizerp w) (marpaSymbolIdi s) v l)) c)"
    "steps c c' [(R (Marpa_r_alternative (marpaRecognizerp w) (marpaSymbolIdi s) v l), r)]"
    "ret r = MARPA_ERR_NONE \<longrightarrow> hp c' = hp c"
proof -
  let ?k = "R (Marpa_r_alternative (marpaRecognizerp w) (marpaSymbolIdi s) v l)"
  have nq: "\<not> error_query ?k" by (simp add: error_query_def)
  have sp: "sp \<noteq> Null" using s by (auto simp: symbol_at_def)
  from checked_run [where good = "\<lambda>i. i = MARPA_ERR_NONE" and w = w, OF W ok nq] obtain r c' where
    "checked W w ?k (\<lambda>i. i = MARPA_ERR_NONE) c = Some (if ret r = MARPA_ERR_NONE then Some r else None, c')"
    "r = fst (call W ?k c)" "steps c c' [(?k, r)]" "ret r = MARPA_ERR_NONE \<longrightarrow> hp c' = hp c"
    by blast
  with s sp w show thesis
    by (intro that [of r c']) (simp_all add: marpaWrapper_r_alternativeb_def)
qed

lemma completeb_run:
  assumes R: "wrapper_rep w (hp c) syms rules progs g" and W: "ready W" and es: "event_symbols W (length syms)"
  obtains rc c' where "marpaWrapper_r_completeb W (Some w) c = Some (rc, c')" "rc = 0 \<or> rc = 1"
    "same_store (hp c) (hp c')" "recces c c' [] []"
proof (cases "marpaRecognizerp w = 0")
  case True
  obtain c' where "no_read_phase W w c = Some c'" "steps c c' []"
    by (rule no_read_phase_run [OF W wrapper_heap_ok [OF R]])
  with True recces_steps [of c c' "[]"] show thesis
    by (intro that [of 0 c']) (simp_all add: marpaWrapper_r_completeb_def MARPAWRAPPER_BOOL_FALSE_def steps_def recces_one)
next
  case False
  let ?k = "R (Marpa_r_earleme_complete (marpaRecognizerp w))"
  have nq: "\<not> error_query ?k" by (simp add: error_query_def)
  from checked_run [where good = "\<lambda>i. i \<noteq> - 2" and w = w, OF W wrapper_heap_ok [OF R] nq] obtain r c1 where
    c1: "checked W w ?k (\<lambda>i. i \<noteq> - 2) c = Some (if ret r \<noteq> - 2 then Some r else None, c1)" "steps c c1 [(?k, r)]"
    by blast
  have st1: "same_store (hp c) (hp c1)" "recces c c1 [] []"
    using c1(2) recces_steps [OF c1(2)] by (simp_all add: steps_def recces_one)
  show thesis
  proof (cases "ret r = - 2")
    case True
    with False c1(1) st1 show thesis
      by (intro that [of 0 c1]) (simp_all add: marpaWrapper_r_completeb_def MARPAWRAPPER_BOOL_FALSE_def)
  next
    case good: False
    obtain rc c2 where e: "marpaWrapper_event W w c1 = Some (rc, c2)" "rc = 0 \<or> rc = 1"
      "same_store (hp c1) (hp c2)" "only_event_calls c1 c2"
      by (rule event_step [OF wrapper_same_store [OF R st1(1)] W es])
    show thesis
    proof (rule that [OF _ e(2)])
      show "marpaWrapper_r_completeb W (Some w) c = Some (rc, c2)"
        using False good c1(1) e(1) by (simp add: marpaWrapper_r_completeb_def)
      show "same_store (hp c) (hp c2)" using same_store_trans [OF st1(1) e(3)] .
      show "recces c c2 [] []" using recces_trans [OF st1(2) recces_only_events [OF e(4)]] by simp
    qed
  qed
qed

lemma activateb_run:
  assumes W: "ready W" and ok: "heap_ok (hp c)" and s: "symbol_at (hp c) sp = Some s" and w: "marpaRecognizerp w \<noteq> 0"
  obtains b c' ks where "marpaWrapper_r_event_activateb W (Some w) sp evs onb c =
      Some (if b then MARPAWRAPPER_BOOL_TRUE else MARPAWRAPPER_BOOL_FALSE, c')" "steps c c' ks"
    "answered (asked_for (activation_settings (marpaRecognizerp w) (marpaSymbolIdi s) evs
       (if onb = MARPAWRAPPER_BOOL_TRUE then 1 else 0))) b ks"
proof -
  let ?ss = "activation_settings (marpaRecognizerp w) (marpaSymbolIdi s) evs
    (if onb = MARPAWRAPPER_BOOL_TRUE then 1 else 0)"
  have sp: "sp \<noteq> Null" using s by (auto simp: symbol_at_def)
  have "\<forall>x \<in> set ?ss. \<not> error_query (fst (snd x))" by (simp add: activation_settings_def error_query_def)
  from settings_run [OF W ok this, of w] obtain b c' ks where
    "apply_settings W w ?ss c = Some (b, c')" "steps c c' ks" "answered (asked_for ?ss) b ks"
    by blast
  with s sp w show thesis
    by (intro that [of b c' ks]) (simp_all add: marpaWrapper_r_event_activateb_def Let_def)
qed

section \<open>Expected terminals\<close>

text \<open>
  What libmarpa documents: the highest id is the number of symbols less one, the buffer is filled
  with ids of symbols, and the result is their number. \<open>n\<close> is the number of symbols.
\<close>

definition terminals_law :: "('e, 'd, 'v) world \<Rightarrow> nat \<Rightarrow> bool" where
  "terminals_law W n \<longleftrightarrow>
     (\<forall>g x. ret (fst (respond W (G (Marpa_g_highest_symbol_id g)) x)) \<in> {- 2, int n - 1})
   \<and> (\<forall>y x. let r = fst (respond W (R (Marpa_r_terminals_expected y)) x) in
        (ret r = - 2 \<and> outs r = [])
      \<or> (0 \<le> ret r \<and> length (outs r) = nat (ret r) \<and> nat (ret r) \<le> n \<and> (\<forall>i \<in> set (outs r). 0 \<le> i \<and> i < int n)))"

definition arrays_ok :: "('e, 'd) marpaWrapper \<Rightarrow> ('d, 'v) obj heap \<Rightarrow> nat \<Rightarrow> bool" where
  "arrays_ok w h n \<longleftrightarrow>
     (expectedMarpaSymbolIdArrayp w = Null \<and> expectedMarpaWrapperSymbolArraypp w = Null)
   \<or> (\<exists>a b xs ps. expectedMarpaSymbolIdArrayp w = Ref a \<and> expectedMarpaWrapperSymbolArraypp w = Ref b
        \<and> store h a = Some (Obj (IntsObj xs)) \<and> store h b = Some (Arr ps) \<and> length xs = n \<and> length ps = n)"

lemma highest_reply:
  assumes "terminals_law W n"
  shows "ret (fst (call W (G (Marpa_g_highest_symbol_id g)) c)) \<in> {- 2, int n - 1}"
  using assms unfolding terminals_law_def by (simp add: call_def ask_def Let_def)

lemma expected_reply:
  assumes "terminals_law W n" "r = fst (call W (R (Marpa_r_terminals_expected y)) c)"
  shows "(ret r = - 2 \<and> outs r = []) \<or> (0 \<le> ret r \<and> length (outs r) = nat (ret r) \<and> nat (ret r) \<le> n
    \<and> (\<forall>i \<in> set (outs r). 0 \<le> i \<and> i < int n))"
  using assms unfolding terminals_law_def by (simp add: call_def ask_def Let_def)

lemma arrays_ok_same_store: "same_store h h' \<Longrightarrow> arrays_ok w h' n = arrays_ok w h n"
  by (simp add: arrays_ok_def same_store_def)

lemma expected_arrays_run:
  assumes R: "wrapper_rep w (hp c) syms rules progs g" and W: "ready W" and L: "terminals_law W (length syms)"
    and A: "arrays_ok w (hp c) (length syms)" and n: "length syms \<le> INT_MAX"
  obtains b p q c' ks where "expected_arrays W w c = Some (b, with_arrays p q w, c')"
    "wrapper_rep (with_arrays p q w) (hp c') syms rules progs g"
    "arrays_ok (with_arrays p q w) (hp c') (length syms)" "b \<longrightarrow> p \<noteq> Null" "made c c' ks"
    "set (map fst ks) \<subseteq> {G (Marpa_g_highest_symbol_id (marpaGrammarp w))}"
proof (cases "expectedMarpaSymbolIdArrayp w = Null")
  case False
  have "with_arrays (expectedMarpaSymbolIdArrayp w) (expectedMarpaWrapperSymbolArraypp w) w = w"
    by (cases w) (simp add: with_arrays_def)
  with False R A show thesis
    by (intro that [of True "expectedMarpaSymbolIdArrayp w" "expectedMarpaWrapperSymbolArraypp w" c "[]"])
      (simp_all add: expected_arrays_def)
next
  case True
  note result = that
  have qn: "expectedMarpaWrapperSymbolArraypp w = Null" using True A by (auto simp: arrays_ok_def)
  have w0: "with_arrays Null Null w = w" using True qn by (cases w) (simp add: with_arrays_def)
  let ?k = "G (Marpa_g_highest_symbol_id (marpaGrammarp w))"
  have nq: "\<not> error_query ?k" by (simp add: error_query_def)
  from checked_run [where good = "\<lambda>i. i \<noteq> - 2" and w = w, OF W wrapper_heap_ok [OF R] nq] obtain r c1 where
    c1: "checked W w ?k (\<lambda>i. i \<noteq> - 2) c = Some (if ret r \<noteq> - 2 then Some r else None, c1)"
    "r = fst (call W ?k c)" "steps c c1 [(?k, r)]"
    by blast
  have R1: "wrapper_rep w (hp c1) syms rules progs g"
    using wrapper_same_store [OF R] c1(3) by (simp add: steps_def)
  have fail: thesis
    if "expected_arrays W w c = Some (False, w, c')" "steps c c' [(?k, r)]" for c'
    using that wrapper_same_store [OF R] w0 True qn
    by (intro result [of False Null Null c' "[(?k, r)]"]) (simp_all add: steps_def arrays_ok_def)
  show thesis
  proof (cases "ret r = - 2")
    case bad: True
    show thesis by (rule fail [OF _ c1(3)]) (use True bad c1(1) in \<open>simp add: expected_arrays_def\<close>)
  next
    case False
    then have rr: "ret r = int (length syms) - 1" using highest_reply [OF L] c1(2) by auto
    let ?n = "length syms"
    have cells: "to_size (int_to_size (ret r + 1) * INT_BYTES) div INT_BYTES = ?n"
      "to_size (int_to_size (ret r + 1) * PTR_BYTES) div PTR_BYTES = ?n" "ret r < int INT_MAX"
      using n rr by (simp_all add: int_to_size_small SIZE_MOD_def INT_BYTES_def PTR_BYTES_def INT_MAX_def)
    have ok1: "heap_ok (hp c1)" by (rule wrapper_heap_ok [OF R1])
    show thesis
    proof (cases "avail (hp c1) (asked (hp c1))")
      case no: False
      have "heap_ok (hp (c1\<lparr>hp := refused (hp c1)\<rparr>))" using ok1 by simp
      from log_sys_error_logs [OF W this, of "''malloc()''" w] obtain c2 where
        c2: "log_sys_error W w ''malloc()'' (c1\<lparr>hp := refused (hp c1)\<rparr>) = Some c2" "logged (c1\<lparr>hp := refused (hp c1)\<rparr>) c2"
        by (auto simp: logs_def)
      have "steps c1 c2 []"
        using steps_logged [OF c2(2)] same_store_trans [OF same_store_refused] by (auto simp: steps_def)
      from steps_trans [OF c1(3) this] have s: "steps c c2 [(?k, r)]" by simp
      show thesis
        by (rule fail [OF _ s]) (use True False c1(1) no c2(1) cells in \<open>simp add: expected_arrays_def malloc_eq\<close>)
    next
      case yes: True
      let ?h1 = "granted (Obj (IntsObj (replicate ?n None))) (hp c1)" and ?p = "Ref (fresh (hp c1))"
      have R2: "wrapper_rep (with_arrays ?p Null w) ?h1 syms rules progs g"
        using wrapper_new_ids [OF R1 True] qn by simp
      show thesis
      proof (cases "avail ?h1 (asked ?h1)")
        case no: False
        let ?w1 = "with_arrays ?p Null w"
        have w1: "w\<lparr>expectedMarpaSymbolIdArrayp := ?p\<rparr> = ?w1" using qn by (cases w) (simp add: with_arrays_def)
        have "heap_ok (hp (c1\<lparr>hp := refused ?h1\<rparr>))" using ok1 by simp
        from log_sys_error_logs [OF W this, of "''malloc()''" ?w1] obtain c2 where
          c2: "log_sys_error W ?w1 ''malloc()'' (c1\<lparr>hp := refused ?h1\<rparr>) = Some c2" "logged (c1\<lparr>hp := refused ?h1\<rparr>) c2"
          by (auto simp: logs_def)
        have st2: "store (hp c2) = store ?h1" "heap_ok (hp c2)" "avail (hp c2) = avail (hp c1)"
          using logged_store [OF c2(2)] ok1 by (auto simp: same_store_def)
        have fr: "cfree ?p (hp c2) = Some (drop_block (fresh (hp c1)) (hp c2))" using st2(1) by simp
        have "same_store (hp c1) (drop_block (fresh (hp c1)) (hp c2))"
          using st2 ok1 by (simp add: same_store_def heap_ok_drop_block fun_upd_idem)
        moreover have "made c1 c2 []" using made_logged [OF c2(2)] by simp
        ultimately have "steps c1 (c2\<lparr>hp := drop_block (fresh (hp c1)) (hp c2)\<rparr>) []" by (simp add: steps_def)
        from steps_trans [OF c1(3) this] have s: "steps c (c2\<lparr>hp := drop_block (fresh (hp c1)) (hp c2)\<rparr>) [(?k, r)]"
          by simp
        show thesis
          by (rule fail [OF _ s])
            (use True False c1(1) yes no c2(1) cells fr w1 in \<open>simp add: expected_arrays_def malloc_eq del: cfree.simps\<close>)
      next
        case yes2: True
        let ?h2 = "granted (Arr (replicate ?n None)) ?h1" and ?q = "Ref (Suc (fresh (hp c1)))"
        have R3: "wrapper_rep (with_arrays ?p ?q w) ?h2 syms rules progs g"
          using wrapper_new_arr [OF R2, of "replicate ?n None"] by (simp add: with_arrays_def)
        show thesis
        proof (rule result [of True ?p ?q "c1\<lparr>hp := ?h2\<rparr>" "[(?k, r)]"])
          show "expected_arrays W w c = Some (True, with_arrays ?p ?q w, c1\<lparr>hp := ?h2\<rparr>)"
            using True False c1(1) yes yes2 cells by (simp add: expected_arrays_def malloc_eq with_arrays_def)
          show "made c (c1\<lparr>hp := ?h2\<rparr>) [(?k, r)]" using c1(3) by (simp add: steps_def)
          show "arrays_ok (with_arrays ?p ?q w) (hp (c1\<lparr>hp := ?h2\<rparr>)) ?n" by (simp add: arrays_ok_def)
        qed (use R3 in simp_all)
      qed
    qed
  qed
qed

lemma fill_symbols_run:
  assumes "ints_at h idp = Some xs" "symbolpp \<noteq> Ref a" "store h a = Some (Arr cs)"
    "i + n \<le> length cs" "i + n \<le> length xs"
    "\<forall>j < i + n. \<exists>k. xs ! j = Some (int k) \<and> arr_get symbolpp k h = Some (P j)"
  shows "fill_symbols symbolpp idp (Ref a) i n h
    = Some (set_block a (Arr (take i cs @ map (\<lambda>j. Some (P j)) [i..<i + n] @ drop (i + n) cs)) h)"
  using assms
proof (induction n arbitrary: i cs h)
  case 0
  then show ?case by (simp add: set_block_def map_upd_triv)
next
  case (Suc n)
  let ?cs = "cs[i := Some (P i)]"
  let ?h = "set_block a (Arr ?cs) h"
  obtain k where k: "xs ! i = Some (int k)" "arr_get symbolpp k h = Some (P i)" using Suc.prems(6) [rule_format, of i] by auto
  have put: "arr_put (Ref a) i (P i) h = Some ?h" using Suc.prems(3,4) by (intro arr_put_eq) auto
  have same: "arr_get symbolpp j ?h = arr_get symbolpp j h" for j
    using Suc.prems(2) by (simp add: arr_get_def arr_at_set_block)
  have ints: "ints_at ?h idp = Some xs"
    using Suc.prems(1,3) by (auto simp: ints_at_def obj_at_set_block split: option.splits)
  have "fill_symbols symbolpp idp (Ref a) (Suc i) n ?h
      = Some (set_block a (Arr (take (Suc i) ?cs @ map (\<lambda>j. Some (P j)) [Suc i..<Suc i + n] @ drop (Suc i + n) ?cs)) ?h)"
    using Suc.prems by (intro Suc.IH [OF ints]) (auto simp: same)
  moreover have "take (Suc i) ?cs = take i cs @ [Some (P i)]"
    using Suc.prems(4) by (simp add: take_Suc_conv_app_nth)
  moreover have "[i..<i + Suc n] = i # [Suc i..<Suc i + n]" by (simp add: upt_rec)
  ultimately show ?case using k put Suc.prems(1,5) by simp
qed

lemma fill_ints_run:
  assumes "store h a = Some (Obj (IntsObj xs))" "length is \<le> length xs"
  shows "fill_ints (Ref a) is h = Some (set_block a (Obj (IntsObj (map Some is @ drop (length is) xs))) h)"
  using assms by (simp add: fill_ints_def ints_at_def obj_put_def)

lemma symbol_cells_at:
  assumes "wrapper_rep w h syms rules progs g" "i < length syms"
  obtains p where "arr_get (marpaWrapperSymbolpp w) i h = Some p" "obj_at h p = syms ! i"
    "(p = Null) = (syms ! i = None)"
proof -
  note result = that
  from assms(1) obtain v where "table_rep h (marpaWrapperSymbolpp w) (sizeMarpaWrapperSymboli w) syms v"
    by (rule wrapper_symbols)
  from table_rep_entry [OF this assms(2)] show thesis by (elim exE conjE) (rule result)
qed

text \<open>The array of a table is a block of its own.\<close>

lemma symbolpp_not_array:
  assumes R: "wrapper_rep w h syms rules progs g" and a: "expectedMarpaWrapperSymbolArraypp w = Ref a"
  shows "marpaWrapperSymbolpp w \<noteq> Ref a"
proof
  assume eq: "marpaWrapperSymbolpp w = Ref a"
  from R obtain s1 s2 s3 s4 s5 s6 where s: "table_own s1 (Ref a) (sizeMarpaWrapperSymboli w) syms"
    "ptr_own s5 (Ref a) (\<lambda>b. \<exists>ps. b = Arr ps)" "joins [s1, s2, s3, s4, s5, s6, g] (store h)"
    unfolding wrapper_rep_def eq a by blast
  from s(1) obtain h0 where h0: "store h0 = s1" "table_rep h0 (Ref a) (sizeMarpaWrapperSymboli w) syms Map.empty"
    unfolding table_own_def by blast
  then have "a \<in> dom s1" by (auto simp: table_rep_def table_at_def)
  moreover have "a \<in> dom s5" using s(2) unfolding ptr_own_Ref by auto
  moreover have "dom s1 \<inter> dom s5 = {}"
    using s(3) by (elim joins_ConsE) (simp add: Int_Un_distrib disjoint_iff domIff)
  ultimately show False by blast
qed

lemma terminals_expected_run:
  assumes R: "wrapper_rep w (hp c) syms rules progs g" and W: "ready W" and L: "terminals_law W (length syms)"
    and A: "arrays_ok w (hp c) (length syms)" and n: "length syms \<le> INT_MAX"
  obtains rc ro w' p q c' ks where "marpaWrapper_r_terminals_expectedb W (Some w) c = Some (rc, ro, Some w', c')"
    "w' = with_arrays p q w" "wrapper_rep w' (hp c') syms rules progs g" "arrays_ok w' (hp c') (length syms)"
    "made c c' ks" "recces_made ks = [] \<and> recces_dropped ks = []"
    "(rc = 0 \<and> ro = None) \<or> (rc = 1 \<and> (\<exists>r. ks \<noteq> [] \<and> last ks = (R (Marpa_r_terminals_expected (marpaRecognizerp w)), r)
        \<and> ro = Some (length (outs r), q) \<and> q \<noteq> Null \<and> length (outs r) \<le> length syms
        \<and> (\<forall>i < length (outs r). 0 \<le> outs r ! i \<and> outs r ! i < int (length syms)
             \<and> arr_get q i (hp c') = arr_get (marpaWrapperSymbolpp w) (nat (outs r ! i)) (hp c'))))"
proof (cases "marpaRecognizerp w = 0")
  case True
  have w0: "with_arrays (expectedMarpaSymbolIdArrayp w) (expectedMarpaWrapperSymbolArraypp w) w = w"
    by (cases w) (simp add: with_arrays_def)
  obtain c' where c': "no_read_phase W w c = Some c'" "steps c c' []"
    by (rule no_read_phase_run [OF W wrapper_heap_ok [OF R]])
  then have "same_store (hp c) (hp c')" by (simp add: steps_def)
  with c' True R A w0 show thesis
    by (intro that [of 0 None w c' "expectedMarpaSymbolIdArrayp w" "expectedMarpaWrapperSymbolArraypp w" "[]"])
      (simp_all add: marpaWrapper_r_terminals_expectedb_def MARPAWRAPPER_BOOL_FALSE_def recces_one steps_def
        arrays_ok_same_store wrapper_same_store)
next
  case False
  note result = that
  obtain b p q c1 ks where E: "expected_arrays W w c = Some (b, with_arrays p q w, c1)"
    "wrapper_rep (with_arrays p q w) (hp c1) syms rules progs g"
    "arrays_ok (with_arrays p q w) (hp c1) (length syms)" "b \<longrightarrow> p \<noteq> Null" "made c c1 ks"
    "set (map fst ks) \<subseteq> {G (Marpa_g_highest_symbol_id (marpaGrammarp w))}"
    by (rule expected_arrays_run [OF R W L A n])
  have rk: "recces_made ks = [] \<and> recces_dropped ks = []"
    using E(6) by (induction ks) (auto simp: recces_made_def recces_dropped_def List.map_filter_def)
  let ?w = "with_arrays p q w"
  show thesis
  proof (cases b)
    case False
    show thesis
      by (rule result [of 0 None ?w c1 p q ks])
        (use E rk False \<open>marpaRecognizerp w \<noteq> 0\<close> in \<open>simp_all add: marpaWrapper_r_terminals_expectedb_def
           MARPAWRAPPER_BOOL_FALSE_def\<close>)
  next
    case True
    with E(3,4) obtain a d xs ps where pq: "p = Ref a" "q = Ref d" "store (hp c1) a = Some (Obj (IntsObj xs))"
      "store (hp c1) d = Some (Arr ps)" "length xs = length syms" "length ps = length syms"
      by (auto simp: arrays_ok_def)
    let ?k = "R (Marpa_r_terminals_expected (marpaRecognizerp w))"
    define r c2 where "r = fst (call W ?k c1)" and "c2 = snd (call W ?k c1)"
    have cl: "call W ?k c1 = (r, c2)" by (simp add: r_def c2_def)
    have hp2: "hp c2 = hp c1" by (simp add: c2_def)
    note er = expected_reply [OF L r_def]
    have lo: "length (outs r) \<le> length syms" using er by auto
    let ?xs = "map Some (outs r) @ drop (length (outs r)) xs"
    let ?h2 = "set_block a (Obj (IntsObj ?xs)) (hp c1)"
    have fi: "fill_ints p (outs r) (hp c2) = Some ?h2"
      unfolding hp2 pq(1) by (rule fill_ints_run [OF pq(3)]) (use lo pq(5) in simp)
    have R2: "wrapper_rep ?w ?h2 syms rules progs g"
      by (rule wrapper_set_ids [OF E(2)]) (simp add: pq(1))
    have da: "d \<noteq> a" using pq(3,4) by auto
    have A2: "arrays_ok ?w ?h2 (length syms)"
      using pq da lo by (simp add: arrays_ok_def)
    have nq: "\<not> error_query ?k" by (simp add: error_query_def)
    have mk: "made c c2 (ks @ [(?k, r)])"
      unfolding c2_def r_def by (rule made_trans [OF E(5) made_call [OF nq]])
    have rk2: "recces_made (ks @ [(?k, r)]) = [] \<and> recces_dropped (ks @ [(?k, r)]) = []"
      using rk by (simp add: recces_made_def recces_dropped_def List.map_filter_def)
    show thesis
    proof (cases "ret r = - 2")
      case bad: True
      have "heap_ok (hp (c2\<lparr>hp := ?h2\<rparr>))" using wrapper_heap_ok [OF R2] by simp
      from log_marpa_g_error_logs [OF W this, of ?w] obtain c4 where
        c4: "log_marpa_g_error W ?w (c2\<lparr>hp := ?h2\<rparr>) = Some c4" "logged (c2\<lparr>hp := ?h2\<rparr>) c4"
        by (auto simp: logs_def)
      have st: "same_store ?h2 (hp c4)" using logged_store [OF c4(2)] by simp
      have mk4: "made c c4 (ks @ [(?k, r)])"
        using made_trans [OF mk, of c4 "[]"] made_logged [OF c4(2)] by simp
      have run: "marpaWrapper_r_terminals_expectedb W (Some w) c = Some (0, None, Some ?w, c4)"
        using E(1) True False cl fi bad c4(1)
        by (simp add: marpaWrapper_r_terminals_expectedb_def MARPAWRAPPER_BOOL_FALSE_def)
      show thesis
        by (rule result [OF run refl wrapper_same_store [OF R2 st] _ mk4 rk2])
          (use A2 st in \<open>simp_all add: arrays_ok_same_store\<close>)
    next
      case good: False
      with er have rr: "0 \<le> ret r" "length (outs r) = nat (ret r)" "\<forall>i \<in> set (outs r). 0 \<le> i \<and> i < int (length syms)"
        by auto
      let ?m = "nat (ret r)"
      define P where "P = (\<lambda>j. the (arr_get (marpaWrapperSymbolpp w) (nat (outs r ! j)) ?h2))"
      have cells: "\<exists>k. ?xs ! j = Some (int k) \<and> arr_get (marpaWrapperSymbolpp w) k ?h2 = Some (P j)" if "j < ?m" for j
      proof -
        have j: "j < length (outs r)" using that rr(2) by simp
        then have o: "0 \<le> outs r ! j" "outs r ! j < int (length syms)" using rr(3) nth_mem by blast+
        then have "nat (outs r ! j) < length syms" by linarith
        then obtain p' where "arr_get (marpaWrapperSymbolpp w) (nat (outs r ! j)) ?h2 = Some p'"
          using symbol_cells_at [OF R2] by (metis with_arrays_fields(3))
        with o(1) j show ?thesis by (intro exI [of _ "nat (outs r ! j)"]) (simp add: P_def nth_append)
      qed
      have spp: "marpaWrapperSymbolpp w \<noteq> Ref d"
        using symbolpp_not_array [OF R2, of d] pq(2) by simp
      have st2: "store ?h2 d = Some (Arr ps)" using pq(4) da by simp
      have "0 + ?m \<le> length ps" "0 + ?m \<le> length ?xs" using lo rr(2) pq(5,6) by simp_all
      moreover have "ints_at ?h2 p = Some ?xs" by (simp add: ints_at_def pq(1))
      ultimately have fs: "fill_symbols (marpaWrapperSymbolpp w) p (Ref d) 0 ?m ?h2
          = Some (set_block d (Arr (take 0 ps @ map (\<lambda>j. Some (P j)) [0..<0 + ?m] @ drop (0 + ?m) ps)) ?h2)"
        using spp st2 cells by (intro fill_symbols_run [where xs = ?xs]) auto
      let ?cs = "map (\<lambda>j. Some (P j)) [0..<?m] @ drop ?m ps"
      let ?h4 = "set_block d (Arr ?cs) ?h2"
      have f4: "(if 0 < ret r then fill_symbols (marpaWrapperSymbolpp w) p q 0 (nat (ret r)) ?h2 else Some ?h2) = Some ?h4"
        using fs pq(2) st2 rr(1) by (cases "ret r = 0") (simp_all add: set_block_def map_upd_triv)
      have R4: "wrapper_rep ?w ?h4 syms rules progs g"
        by (rule wrapper_set_arr [OF R2]) (simp add: pq(2))
      have A4: "arrays_ok ?w ?h4 (length syms)"
        using pq da lo rr(2) by (simp add: arrays_ok_def)
      have us: "int_to_size (ret r) = length (outs r)"
        using rr(1,2) lo n by (simp add: int_to_size_small SIZE_MOD_def INT_MAX_def)
      have run: "marpaWrapper_r_terminals_expectedb W (Some w) c
          = Some (1, Some (length (outs r), q), Some ?w, c2\<lparr>hp := ?h4\<rparr>)"
        using E(1) True cl fi good f4 us
        by (simp only: marpaWrapper_r_terminals_expectedb_def MARPAWRAPPER_BOOL_TRUE_def option.case False
            if_False bind.bind_lunit prod.case not_True_eq_False Let_def with_arrays_fields) simp
      have get: "arr_get q i ?h4 = arr_get (marpaWrapperSymbolpp w) (nat (outs r ! i)) ?h4"
        if "i < length (outs r)" for i
      proof -
        have i: "i < ?m" using that rr(2) by simp
        have "arr_get q i ?h4 = Some (P i)"
          using i pq(2) by (simp add: arr_get_def nth_append)
        moreover have "arr_get (marpaWrapperSymbolpp w) (nat (outs r ! i)) ?h4
            = arr_get (marpaWrapperSymbolpp w) (nat (outs r ! i)) ?h2"
          using spp by (simp add: arr_get_def arr_at_set_block)
        moreover have "\<dots> = Some (P i)"
          using cells [OF i] i rr by (auto simp: nth_append)
        ultimately show ?thesis by simp
      qed
      have mk4: "made c (c2\<lparr>hp := ?h4\<rparr>) (ks @ [(?k, r)])" using mk by simp
      have in_range: "0 \<le> outs r ! i \<and> outs r ! i < int (length syms)" if "i < length (outs r)" for i
        using rr(3) that nth_mem by blast
      show thesis
      proof (rule result [OF run refl _ _ mk4 rk2])
        show "wrapper_rep ?w (hp (c2\<lparr>hp := ?h4\<rparr>)) syms rules progs g" using R4 by simp
        show "arrays_ok ?w (hp (c2\<lparr>hp := ?h4\<rparr>)) (length syms)" using A4 by simp
        show "((1 :: int) = 0 \<and> Some (length (outs r), q) = None) \<or> ((1 :: int) = 1 \<and> (\<exists>r'. ks @ [(?k, r)] \<noteq> []
          \<and> last (ks @ [(?k, r)]) = (?k, r') \<and> Some (length (outs r), q) = Some (length (outs r'), q) \<and> q \<noteq> Null
          \<and> length (outs r') \<le> length syms
          \<and> (\<forall>i < length (outs r'). 0 \<le> outs r' ! i \<and> outs r' ! i < int (length syms)
               \<and> arr_get q i (hp (c2\<lparr>hp := ?h4\<rparr>)) = arr_get (marpaWrapperSymbolpp w) (nat (outs r' ! i)) (hp (c2\<lparr>hp := ?h4\<rparr>)))))"
          using get in_range lo pq(2) by (intro disjI2 conjI refl exI [of _ r]) simp_all
      qed
    qed
  qed
qed

end
