(* ===== verification/TableSort.thy ===== *)
theory TableSort
  imports RecognizerProps "HOL-Library.Multiset"
begin

text \<open>
  Sorting the entries of a pointer table in place, and adding an entry at the end: the steps the
  progress report and the lexing loop share.
\<close>

section \<open>Reading and writing cells\<close>

lemma arr_read_run:
  assumes "arr_at h p = Some (map Some ps @ rest)" "i + n \<le> length ps"
  shows "arr_read p i n h = Some (take n (drop i ps))"
  using assms(2)
proof (induction n arbitrary: i)
  case 0
  then show ?case by simp
next
  case (Suc n)
  have "arr_get p i h = Some (ps ! i)" using assms(1) Suc.prems by (simp add: arr_get_def nth_append)
  moreover have "arr_read p (Suc i) n h = Some (take n (drop (Suc i) ps))" using Suc by simp
  moreover have "take (Suc n) (drop i ps) = ps ! i # take n (drop (Suc i) ps)"
    using Suc.prems by (simp add: Cons_nth_drop_Suc [symmetric])
  ultimately show ?case by simp
qed

lemma arr_write_run:
  "store h b = Some (Arr cs) \<Longrightarrow> i + length qs \<le> length cs \<Longrightarrow>
     arr_write (Ref b) i qs h = Some (set_block b (Arr (take i cs @ map Some qs @ drop (i + length qs) cs)) h)"
proof (induction qs arbitrary: i cs h)
  case Nil
  then show ?case by (simp add: set_block_def map_upd_triv)
next
  case (Cons q qs)
  let ?cs = "cs[i := Some q]"
  have put: "arr_put (Ref b) i q h = Some (set_block b (Arr ?cs) h)"
    using Cons.prems by (intro arr_put_eq) auto
  have "arr_write (Ref b) (Suc i) qs (set_block b (Arr ?cs) h)
      = Some (set_block b (Arr (take (Suc i) ?cs @ map Some qs @ drop (Suc i + length qs) ?cs)) (set_block b (Arr ?cs) h))"
    using Cons.prems by (intro Cons.IH) auto
  moreover have "take (Suc i) ?cs = take i cs @ [Some q]"
    using Cons.prems by (simp add: take_Suc_conv_app_nth)
  ultimately show ?case using put by simp
qed

text \<open>What the C library promises of \<open>qsort\<close>: a permutation, sorted where the comparison is consistent.\<close>

definition consistent :: "('a \<Rightarrow> 'a \<Rightarrow> int) \<Rightarrow> 'a set \<Rightarrow> bool" where
  "consistent cmp A \<longleftrightarrow> (\<forall>x \<in> A. \<forall>y \<in> A. (cmp x y < 0) = (0 < cmp y x))
     \<and> (\<forall>x \<in> A. \<forall>y \<in> A. \<forall>z \<in> A. cmp x y \<le> 0 \<longrightarrow> cmp y z \<le> 0 \<longrightarrow> cmp x z \<le> 0)"

definition sorts :: "((ptr \<Rightarrow> ptr \<Rightarrow> int) \<Rightarrow> ptr list \<Rightarrow> ptr list) \<Rightarrow> bool" where
  "sorts f \<longleftrightarrow> (\<forall>cmp xs. mset (f cmp xs) = mset xs
     \<and> (consistent cmp (set xs) \<longrightarrow> sorted_wrt (\<lambda>x y. cmp x y \<le> 0) (f cmp xs)))"

lemma sorts_mset: "sorts f \<Longrightarrow> mset (f cmp xs) = mset xs"
  by (simp add: sorts_def)

lemma sorts_length: "sorts f \<Longrightarrow> length (f cmp xs) = length xs"
  by (metis sorts_mset size_mset)

lemma sorts_set: "sorts f \<Longrightarrow> set (f cmp xs) = set xs"
  by (metis sorts_mset set_mset_mset)

section \<open>Sorting a table\<close>

lemma uniq_refs_Cons:
  "uniq_refs (p # ps) \<longleftrightarrow> (p \<noteq> Null \<longrightarrow> p \<notin> set ps) \<and> uniq_refs ps"
proof (intro iffI conjI impI)
  assume U: "uniq_refs (p # ps)"
  show "p \<notin> set ps" if "p \<noteq> Null"
  proof
    assume "p \<in> set ps"
    then obtain j where "j < length ps" "ps ! j = p" by (auto simp: in_set_conv_nth)
    then have "(p # ps) ! 0 = (p # ps) ! Suc j" "Suc j < length (p # ps)" by simp_all
    with U that show False unfolding uniq_refs_def by (metis length_greater_0_conv list.distinct(1) nat.distinct(1) nth_Cons_0)
  qed
  show "uniq_refs ps"
    unfolding uniq_refs_def
  proof (intro allI impI)
    fix i j
    assume "i < length ps" "j < length ps" "ps ! i = ps ! j" "ps ! i \<noteq> Null"
    with U have "Suc i = Suc j" unfolding uniq_refs_def by (metis length_Cons not_less_eq nth_Cons_Suc)
    then show "i = j" by simp
  qed
next
  assume U: "(p \<noteq> Null \<longrightarrow> p \<notin> set ps) \<and> uniq_refs ps"
  show "uniq_refs (p # ps)"
    unfolding uniq_refs_def
  proof (intro allI impI)
    fix i j
    assume "i < length (p # ps)" "j < length (p # ps)" "(p # ps) ! i = (p # ps) ! j" "(p # ps) ! i \<noteq> Null"
    with U show "i = j" unfolding uniq_refs_def
      by (cases i; cases j) (auto dest: nth_mem)
  qed
qed

lemma uniq_refs_distinct: "uniq_refs ps \<longleftrightarrow> distinct (filter (\<lambda>p. p \<noteq> Null) ps)"
proof (induction ps)
  case Nil
  then show ?case by (simp add: uniq_refs_def)
next
  case (Cons p ps)
  then show ?case by (auto simp: uniq_refs_Cons)
qed

lemma uniq_refs_perm: "mset qs = mset ps \<Longrightarrow> uniq_refs ps \<Longrightarrow> uniq_refs qs"
  unfolding uniq_refs_distinct by (metis mset_eq_imp_distinct_iff mset_filter)

end
