(* ===== verification/WrapperValue.thy ===== *)
theory WrapperValue
  imports WrapperRecognizer
begin

text \<open>
  \<open>marpaWrapper_vb\<close> of \<open>src/src/marpaWrapper.c\<close>: the evaluation of the parse trees over a generic
  stack, and the three callbacks the wrapper hands to that stack.

  The generic stack runs with an external state \<open>io option\<close>, which is \<open>None\<close> once a callback had an
  undefined run. A callback stores its result as a block of its own (\<open>outv\<close>), or as the address of
  its input \<open>i\<close> (\<open>outs = [i]\<close>), or not at all. The macros \<open>marpa_v_token\<close>, \<open>marpa_v_token_value\<close>,
  \<open>marpa_v_rule\<close>, \<open>marpa_v_arg_0\<close>, \<open>marpa_v_arg_n\<close> and \<open>marpa_v_result\<close> read the fields that the last
  \<open>marpa_v_step\<close> left: its numbers, in this order.
\<close>

section \<open>The callbacks of the stack\<close>

type_synonym ('e, 'd, 'v) value_stack = "(('d, 'v) obj, ('e, 'd, 'v) io option) genericStack"
type_synonym ('e, 'd, 'v) sstate = "(('d, 'v) obj, ('e, 'd, 'v) io option) cstate"

definition stack_error_origin :: "genericStack_error \<Rightarrow> marpaWrapperErrorOrigin" where
  "stack_error_origin e =
     (case e of GENERICSTACK_ERROR_SYSTEM \<Rightarrow> MARPAWRAPPERERRORORIGIN_SYSTEM
              | _ \<Rightarrow> MARPAWRAPPERERRORORIGIN_NA)"

definition stack_error_text :: "genericStack_error \<Rightarrow> string" where
  "stack_error_text e =
     (case e of GENERICSTACK_ERROR_SYSTEM \<Rightarrow> ''Generic Stack system error''
              | GENERICSTACK_ERROR_PARAMETER \<Rightarrow> ''Generic Stack parameter validation error''
              | GENERICSTACK_ERROR_RUNTIME \<Rightarrow> ''Generic Stack runtime error''
              | GENERICSTACK_ERROR_CALLBACK \<Rightarrow> ''Generic Stack callback error'')"

text \<open>The log of a failure runs on buffers of its own.\<close>

definition marpaWrapperStackFailureCallback ::
  "('e, 'd, 'v) world \<Rightarrow> ('e, 'd) marpaWrapper \<Rightarrow> ('e, 'd, 'v) io option failure_cb" where
  "marpaWrapperStackFailureCallback W w e n xo =
     (case xo of
        None \<Rightarrow> None
      | Some x \<Rightarrow>
          map_option ext (marpaWrapper_logWrapper W (Some w) (stack_error_origin e) n (Some (stack_error_text e))
            GENERICLOGGER_LOGLEVEL_ERROR \<lparr>hp = empty_heap (callback_memory W (env x)), ext = x\<rparr>))"

text \<open>\<open>present\<close> says whether the user's callback is there; a call through \<open>NULL\<close> is undefined.\<close>

definition marpaWrapperStackFreeCallback ::
  "('e, 'd, 'v) world \<Rightarrow> bool \<Rightarrow> (('d, 'v) obj, ('e, 'd, 'v) io option) free_cb" where
  "marpaWrapperStackFreeCallback W present v xo =
     (case (v, xo) of
        (ValueObj u, Some x) \<Rightarrow>
          if present
          then (let (r, x1) = ask W (U (StackElementFreeCallback u)) x in
                (if ret r = MARPAWRAPPER_BOOL_TRUE then 0 else - 1, Some x1))
          else (0, None)
      | _ \<Rightarrow> (0, None))"

definition marpaWrapperStackCopyCallback ::
  "('e, 'd, 'v) world \<Rightarrow> bool \<Rightarrow> (('d, 'v) obj, ('e, 'd, 'v) io option) copy_cb" where
  "marpaWrapperStackCopyCallback W present v xo =
     (case (v, xo) of
        (ValueObj u, Some x) \<Rightarrow>
          if present
          then (let (r, x1) = ask W (U (StackElementCopyCallback u)) x in
                (if ret r = MARPAWRAPPER_BOOL_TRUE then 0 else - 1,
                 (case outv r of Some u' \<Rightarrow> ValueObj u' | None \<Rightarrow> v), Some x1))
          else (0, v, None)
      | _ \<Rightarrow> (0, v, None))"

definition value_stack_option ::
  "('e, 'd, 'v) world \<Rightarrow> ('e, 'd) marpaWrapper \<Rightarrow> marpaWrapperStackOption
     \<Rightarrow> (('d, 'v) obj, ('e, 'd, 'v) io option) genericStack_option" where
  "value_stack_option W w so =
     \<lparr>growFlags = GENERICSTACK_OPTION_GROW_DEFAULT,
      opt_failureCallbackp = Some (marpaWrapperStackFailureCallback W w),
      opt_freeCallbackp = Some (marpaWrapperStackFreeCallback W (stackElementFreeCallbackp so)),
      opt_copyCallbackp = Some (marpaWrapperStackCopyCallback W (stackElementCopyCallbackp so))\<rparr>"

text \<open>A stack operation from the wrapper's state.\<close>

definition on_stack ::
  "(('e, 'd, 'v) sstate \<Rightarrow> ('a \<times> ('e, 'd, 'v) sstate) option) \<Rightarrow> ('e, 'd, 'v) wstate
     \<Rightarrow> ('a \<times> ('e, 'd, 'v) wstate) option" where
  "on_stack f c = do {
     (a, d) \<leftarrow> f \<lparr>hp = hp c, ext = Some (ext c)\<rparr>;
     x \<leftarrow> ext d;
     Some (a, \<lparr>hp = hp d, ext = x\<rparr>)
   }"

definition stack_new ::
  "('e, 'd, 'v) world \<Rightarrow> ('e, 'd) marpaWrapper \<Rightarrow> marpaWrapperStackOption \<Rightarrow> ('e, 'd, 'v) wstate
     \<Rightarrow> (('e, 'd, 'v) value_stack option \<times> ('e, 'd, 'v) wstate) option" where
  "stack_new W w so = on_stack (genericStack_newp (stackElementSizei so) (Some (value_stack_option W w so)))"

definition stack_get ::
  "('e, 'd, 'v) value_stack option \<Rightarrow> nat \<Rightarrow> ('e, 'd, 'v) wstate
     \<Rightarrow> ((ptr \<times> ('e, 'd, 'v) value_stack option) \<times> ('e, 'd, 'v) wstate) option" where
  "stack_get sp i = on_stack (\<lambda>d. do { (p, sp1, d1) \<leftarrow> genericStack_getp sp i d; Some ((p, sp1), d1) })"

definition stack_set ::
  "('e, 'd, 'v) value_stack option \<Rightarrow> nat \<Rightarrow> ptr \<Rightarrow> ('e, 'd, 'v) wstate
     \<Rightarrow> ((nat \<times> ('e, 'd, 'v) value_stack option) \<times> ('e, 'd, 'v) wstate) option" where
  "stack_set sp i p = on_stack (\<lambda>d. do { (r, sp1, d1) \<leftarrow> genericStack_seti sp i p d; Some ((r, sp1), d1) })"

definition stack_destroy ::
  "('e, 'd, 'v) value_stack option \<Rightarrow> ('e, 'd, 'v) wstate
     \<Rightarrow> (('e, 'd, 'v) value_stack option option \<times> ('e, 'd, 'v) wstate) option" where
  "stack_destroy sp = on_stack (genericStack_destroyv (Some sp))"

section \<open>Locals and jumps\<close>

text \<open>\<open>valueOutputp\<close> is \<open>None\<close> until the function assigns it.\<close>

record ('e, 'd, 'v) value_locals =
  marpaBocagep :: int
  marpaOrderp :: int
  marpaTreep :: int
  marpaValuep :: int
  genericStackp :: "('e, 'd, 'v) value_stack option"
  valueInputArraypp :: ptr
  valueOutputp :: "ptr option"

text \<open>\<open>Leave\<close> is the jump to the end label with the value of \<open>rcb\<close>; \<open>Inactive\<close> clears \<open>nextb\<close>.\<close>

datatype value_flow = Next | Inactive | Leave int

type_synonym ('e, 'd, 'v) value_result =
  "(value_flow \<times> ('e, 'd, 'v) value_locals \<times> ('e, 'd, 'v) wstate) option"

definition and_then ::
  "('e, 'd, 'v) value_result
     \<Rightarrow> (('e, 'd, 'v) value_locals \<Rightarrow> ('e, 'd, 'v) wstate \<Rightarrow> ('e, 'd, 'v) value_result)
     \<Rightarrow> ('e, 'd, 'v) value_result" where
  "and_then m f = do { (e, l, c) \<leftarrow> m; case e of Leave r \<Rightarrow> Some (e, l, c) | _ \<Rightarrow> f l c }"

text \<open>A libmarpa call that leaves with FALSE, after a log, unless its result is good.\<close>

definition or_leave ::
  "('e, 'd, 'v) world \<Rightarrow> ('e, 'd) marpaWrapper \<Rightarrow> value_call \<Rightarrow> (int \<Rightarrow> bool)
     \<Rightarrow> (int \<Rightarrow> ('e, 'd, 'v) value_locals \<Rightarrow> ('e, 'd, 'v) value_locals)
     \<Rightarrow> ('e, 'd, 'v) value_locals \<Rightarrow> ('e, 'd, 'v) wstate \<Rightarrow> ('e, 'd, 'v) value_result" where
  "or_leave W w k good upd l c = do {
     (r, c1) \<leftarrow> checked W w (V k) good c;
     Some (case r of None \<Rightarrow> (Leave MARPAWRAPPER_BOOL_FALSE, l, c1) | Some x \<Rightarrow> (Next, upd (ret x) l, c1))
   }"

text \<open>A query whose answer may end the evaluation with a message.\<close>

definition unless_found ::
  "('e, 'd, 'v) world \<Rightarrow> ('e, 'd) marpaWrapper \<Rightarrow> value_call \<Rightarrow> (int \<Rightarrow> bool) \<Rightarrow> string
     \<Rightarrow> ('e, 'd, 'v) value_locals \<Rightarrow> ('e, 'd, 'v) wstate \<Rightarrow> ('e, 'd, 'v) value_result" where
  "unless_found W w k bad m l c =
     (let (r, c1) = call W (V k) c in
      if bad (ret r)
      then do { c2 \<leftarrow> log_error0 W w m c1; Some (Leave MARPAWRAPPER_BOOL_FALSE, l, c2) }
      else Some (Next, l, c1))"

section \<open>Bocage, order and tree\<close>

definition value_setup ::
  "('e, 'd, 'v) world \<Rightarrow> ('e, 'd) marpaWrapper \<Rightarrow> marpaWrapperValueOption \<Rightarrow> ('e, 'd, 'v) value_locals
     \<Rightarrow> ('e, 'd, 'v) wstate \<Rightarrow> ('e, 'd, 'v) value_result" where
  "value_setup W w vo l0 c =
     (let (r, c1) = call W (R (Marpa_r_latest_earley_set (marpaRecognizerp w))) c;
          flag = (if highRankOnlyb vo then 1 else 0) in
      and_then (or_leave W w (Marpa_b_new (marpaRecognizerp w) (ret r)) (\<lambda>i. i \<noteq> 0)
                  (\<lambda>i l. l\<lparr>marpaBocagep := i\<rparr>) l0 c1) (\<lambda>l c.
      and_then (or_leave W w (Marpa_o_new (marpaBocagep l)) (\<lambda>i. i \<noteq> 0) (\<lambda>i l. l\<lparr>marpaOrderp := i\<rparr>) l c) (\<lambda>l c.
      and_then (or_leave W w (Marpa_o_high_rank_only_set (marpaOrderp l) flag) (\<lambda>i. i = flag) (\<lambda>i l. l) l c) (\<lambda>l c.
      and_then (if orderByRankb vo
                then or_leave W w (Marpa_o_rank (marpaOrderp l)) (\<lambda>i. i \<noteq> - 2) (\<lambda>i l. l) l c
                else Some (Next, l, c)) (\<lambda>l c.
      and_then (if \<not> ambiguityb vo
                then unless_found W w (Marpa_o_ambiguity_metric (marpaOrderp l)) (\<lambda>i. 1 < i)
                       ''Ambiguous parse detected after bocage'' l c
                else Some (Next, l, c)) (\<lambda>l c.
      and_then (if \<not> nullb vo
                then unless_found W w (Marpa_o_is_null (marpaOrderp l)) (\<lambda>i. 1 \<le> i)
                       ''Null parse detected after bocage'' l c
                else Some (Next, l, c)) (\<lambda>l c.
      or_leave W w (Marpa_t_new (marpaOrderp l)) (\<lambda>i. i \<noteq> 0) (\<lambda>i l. l\<lparr>marpaTreep := i\<rparr>) l c)))))))"

section \<open>One step\<close>

text \<open>The address a callback stored, \<open>ins\<close> the addresses it was given.\<close>

definition stored_output :: "'v reply \<Rightarrow> ptr list \<Rightarrow> ('d, 'v) obj heap \<Rightarrow> (ptr \<times> ('d, 'v) obj heap) option" where
  "stored_output r ins h =
     (case outs r of
        i # is \<Rightarrow> do { _ \<leftarrow> require (0 \<le> i \<and> nat i < length ins); Some (ins ! nat i, h) }
      | [] \<Rightarrow> (case outv r of None \<Rightarrow> Some (Null, h) | Some v \<Rightarrow> Some (take_block (Obj (ValueObj v)) h)))"

definition value_at :: "('d, 'v) obj heap \<Rightarrow> ptr \<Rightarrow> 'v option" where
  "value_at h p = (case obj_at h p of Some (ValueObj v) \<Rightarrow> Some v | _ \<Rightarrow> None)"

text \<open>A user callback of the evaluation: \<open>m\<close> is logged where it fails.\<close>

definition value_callback ::
  "('e, 'd, 'v) world \<Rightarrow> ('e, 'd) marpaWrapper \<Rightarrow> ('d, 'v) user_call \<Rightarrow> ptr list \<Rightarrow> string
     \<Rightarrow> ('e, 'd, 'v) value_locals \<Rightarrow> ('e, 'd, 'v) wstate \<Rightarrow> ('e, 'd, 'v) value_result" where
  "value_callback W w k ins m l c =
     (let (r, c1) = call W (U k) c in do {
        (p, h) \<leftarrow> stored_output r ins (hp c1);
        let l1 = l\<lparr>valueOutputp := Some p\<rparr>;
        let c2 = c1\<lparr>hp := h\<rparr>;
        if ret r = MARPAWRAPPER_BOOL_FALSE
        then do { c3 \<leftarrow> log_error0 W w m c2; Some (Leave MARPAWRAPPER_BOOL_FALSE, l1, c3) }
        else Some (Next, l1, c2)
      })"

text \<open>The store of the result, at the index \<open>marpa_v_result\<close>.\<close>

definition store_result ::
  "int \<Rightarrow> ('e, 'd, 'v) value_locals \<Rightarrow> ('e, 'd, 'v) wstate \<Rightarrow> ('e, 'd, 'v) value_result" where
  "store_result i l c = do {
     p \<leftarrow> valueOutputp l;
     ((r, sp), c1) \<leftarrow> stack_set (genericStackp l) (int_to_uint i) p c;
     let l1 = l\<lparr>genericStackp := sp\<rparr>;
     Some (if r \<le> 0 then Leave MARPAWRAPPER_BOOL_FALSE else Next, l1, c1)
   }"

text \<open>The loop that fetches the \<open>n\<close> inputs from index \<open>first\<close> on.\<close>

fun fetch_inputs ::
  "ptr \<Rightarrow> int \<Rightarrow> nat \<Rightarrow> nat \<Rightarrow> ('e, 'd, 'v) value_stack option \<Rightarrow> ('e, 'd, 'v) wstate
     \<Rightarrow> (('e, 'd, 'v) value_stack option \<times> ('e, 'd, 'v) wstate) option" where
  "fetch_inputs arrp first i 0 sp c = Some (sp, c)"
| "fetch_inputs arrp first i (Suc n) sp c = do {
     ((p, sp1), c1) \<leftarrow> stack_get sp (to_uint (int_to_size first + i)) c;
     h \<leftarrow> arr_put arrp i p (hp c1);
     fetch_inputs arrp first (Suc i) n sp1 (c1\<lparr>hp := h\<rparr>)
   }"

text \<open>The call of the rule callback on the inputs, and what follows it.\<close>

definition call_rule ::
  "('e, 'd, 'v) world \<Rightarrow> ('e, 'd) marpaWrapper \<Rightarrow> marpaWrapperValueOption \<Rightarrow> int \<Rightarrow> ptr \<Rightarrow> nat
     \<Rightarrow> ('e, 'd, 'v) value_locals \<Rightarrow> ('e, 'd, 'v) wstate \<Rightarrow> ('e, 'd, 'v) value_result" where
  "call_rule W w vo rule arrp n l c =
     (if valueRuleCallbackp vo
      then do {
        _ \<leftarrow> require (0 \<le> rule);
        rp \<leftarrow> arr_get (marpaWrapperRulepp w) (nat rule) (hp c);
        ins \<leftarrow> arr_read arrp 0 n (hp c);
        value_callback W w (ValueRuleCallback rp (map (value_at (hp c)) ins)) ins
          ''valueRuleCallbackp() failure'' l c
      }
      else Some (Next, l, c))"

definition store_rule ::
  "int \<Rightarrow> ('e, 'd, 'v) value_locals \<Rightarrow> ('e, 'd, 'v) wstate \<Rightarrow> ('e, 'd, 'v) value_result" where
  "store_rule i l c = do {
     h \<leftarrow> cfree (valueInputArraypp l) (hp c);
     store_result i (l\<lparr>valueInputArraypp := Null\<rparr>) (c\<lparr>hp := h\<rparr>)
   }"

definition step_rule ::
  "('e, 'd, 'v) world \<Rightarrow> ('e, 'd) marpaWrapper \<Rightarrow> marpaWrapperValueOption \<Rightarrow> 'v reply
     \<Rightarrow> ('e, 'd, 'v) value_locals \<Rightarrow> ('e, 'd, 'v) wstate \<Rightarrow> ('e, 'd, 'v) value_result" where
  "step_rule W w vo r l0 c = do {
     rule \<leftarrow> out r 2;
     argFirst \<leftarrow> out r 3;
     argLast \<leftarrow> out r 4;
     result \<leftarrow> out r 5;
     _ \<leftarrow> require (- int INT_MAX - 1 \<le> argLast - argFirst \<and> argLast - argFirst < int INT_MAX);
     let n = int_to_size (argLast - argFirst + 1);
     let (arrp, h1) = malloc (Arr (replicate (to_size (n * PTR_BYTES) div PTR_BYTES) None)) (hp c);
     if arrp = Null
     then do {
       c1 \<leftarrow> log_sys_error W w ''malloc()'' (c\<lparr>hp := h1\<rparr>);
       Some (Leave MARPAWRAPPER_BOOL_FALSE, l0, c1)
     }
     else do {
       (sp, c1) \<leftarrow> fetch_inputs arrp argFirst 0 n (genericStackp l0) (c\<lparr>hp := h1\<rparr>);
       let l1 = l0\<lparr>valueInputArraypp := arrp, genericStackp := sp\<rparr>;
       and_then (call_rule W w vo rule arrp n l1 c1) (store_rule result)
     }
   }"

text \<open>The steps for tokens and nulling symbols, \<open>k\<close> the callback where the option gives one.\<close>

definition step_symbol ::
  "('e, 'd, 'v) world \<Rightarrow> ('e, 'd) marpaWrapper \<Rightarrow> (ptr \<Rightarrow> ('d, 'v) user_call) option \<Rightarrow> int \<Rightarrow> int \<Rightarrow> string
     \<Rightarrow> ('e, 'd, 'v) value_locals \<Rightarrow> ('e, 'd, 'v) wstate \<Rightarrow> ('e, 'd, 'v) value_result" where
  "step_symbol W w k symi result m l c =
     and_then
       (case k of
          None \<Rightarrow> Some (Next, l, c)
        | Some f \<Rightarrow> do {
            _ \<leftarrow> require (0 \<le> symi);
            p \<leftarrow> arr_get (marpaWrapperSymbolpp w) (nat symi) (hp c);
            value_callback W w (f p) [] m l c
          })
       (store_result result)"

definition step_token ::
  "('e, 'd, 'v) world \<Rightarrow> ('e, 'd) marpaWrapper \<Rightarrow> marpaWrapperValueOption \<Rightarrow> 'v reply
     \<Rightarrow> ('e, 'd, 'v) value_locals \<Rightarrow> ('e, 'd, 'v) wstate \<Rightarrow> ('e, 'd, 'v) value_result" where
  "step_token W w vo r l c = do {
     symi \<leftarrow> out r 0;
     tok \<leftarrow> out r 1;
     result \<leftarrow> out r 5;
     step_symbol W w (if valueSymbolCallbackp vo then Some (\<lambda>p. ValueSymbolCallback p tok) else None)
       symi result ''valueSymbolCallbackp() failure'' l c
   }"

definition step_nulling ::
  "('e, 'd, 'v) world \<Rightarrow> ('e, 'd) marpaWrapper \<Rightarrow> marpaWrapperValueOption \<Rightarrow> 'v reply
     \<Rightarrow> ('e, 'd, 'v) value_locals \<Rightarrow> ('e, 'd, 'v) wstate \<Rightarrow> ('e, 'd, 'v) value_result" where
  "step_nulling W w vo r l c = do {
     symi \<leftarrow> out r 0;
     result \<leftarrow> out r 5;
     step_symbol W w (if valueNullingCallbackp vo then Some ValueNullingCallback else None)
       symi result ''valueNullingCallbackp() failure'' l c
   }"

text \<open>After the step the wrapper's copy of the result is handed to the free callback and freed.\<close>

definition drop_output ::
  "('e, 'd, 'v) world \<Rightarrow> marpaWrapperStackOption \<Rightarrow> value_flow \<Rightarrow> ('e, 'd, 'v) value_locals
     \<Rightarrow> ('e, 'd, 'v) wstate \<Rightarrow> ('e, 'd, 'v) value_result" where
  "drop_output W so e l c = do {
     p \<leftarrow> valueOutputp l;
     if p = Null then Some (e, l, c)
     else do {
       v \<leftarrow> obj_at (hp c) p;
       let (n, xo) = marpaWrapperStackFreeCallback W (stackElementFreeCallbackp so) v (Some (ext c));
       x \<leftarrow> xo;
       let c1 = c\<lparr>ext := x\<rparr>;
       if n \<noteq> 0 then Some (Leave MARPAWRAPPER_BOOL_FALSE, l, c1)
       else do { h \<leftarrow> cfree p (hp c1); Some (e, l\<lparr>valueOutputp := Some Null\<rparr>, c1\<lparr>hp := h\<rparr>) }
     }
   }"

definition value_step ::
  "('e, 'd, 'v) world \<Rightarrow> ('e, 'd) marpaWrapper \<Rightarrow> marpaWrapperValueOption \<Rightarrow> marpaWrapperStackOption
     \<Rightarrow> ('e, 'd, 'v) value_locals \<Rightarrow> ('e, 'd, 'v) wstate \<Rightarrow> ('e, 'd, 'v) value_result" where
  "value_step W w vo so l0 c0 =
     (let (r, c) = call W (V (Marpa_v_step (marpaValuep l0))) c0; l = l0\<lparr>valueOutputp := Some Null\<rparr> in
      if ret r = MARPA_STEP_RULE then and_then (step_rule W w vo r l c) (drop_output W so Next)
      else if ret r = MARPA_STEP_TOKEN then and_then (step_token W w vo r l c) (drop_output W so Next)
      else if ret r = MARPA_STEP_NULLING_SYMBOL
      then and_then (step_nulling W w vo r l c) (drop_output W so Next)
      else if ret r = MARPA_STEP_INACTIVE then drop_output W so Inactive l c
      else drop_output W so Next l c)"

section \<open>The loops\<close>

partial_function (option) value_steps ::
  "('e, 'd, 'v) world \<Rightarrow> ('e, 'd) marpaWrapper \<Rightarrow> marpaWrapperValueOption \<Rightarrow> marpaWrapperStackOption
     \<Rightarrow> ('e, 'd, 'v) value_locals \<Rightarrow> ('e, 'd, 'v) wstate \<Rightarrow> ('e, 'd, 'v) value_result" where
  "value_steps W w vo so l c = do {
     (e, l1, c1) \<leftarrow> value_step W w vo so l c;
     if e = Next then value_steps W w vo so l1 c1 else Some (e, l1, c1)
   }"

text \<open>The result of a tree; \<open>STOP\<close> leaves with the value of \<open>rcb\<close>, which is TRUE here.\<close>

definition give_result ::
  "('e, 'd, 'v) world \<Rightarrow> ('e, 'd) marpaWrapper \<Rightarrow> marpaWrapperValueOption
     \<Rightarrow> ('e, 'd, 'v) value_locals \<Rightarrow> ('e, 'd, 'v) wstate \<Rightarrow> ('e, 'd, 'v) value_result" where
  "give_result W w vo l c =
     (if valueResultCallbackp vo
      then do {
        ((p, sp), c1) \<leftarrow> stack_get (genericStackp l) 0 c;
        let l1 = l\<lparr>genericStackp := sp\<rparr>;
        let (r, c2) = call W (U (ValueResultCallback (value_at (hp c1) p))) c1;
        if ret r = MARPAWRAPPER_VALUECALLBACKBOOL_FALSE
        then do {
          c3 \<leftarrow> log_error0 W w ''valueResultCallbackp() failure'' c2;
          Some (Leave MARPAWRAPPER_BOOL_FALSE, l1, c3)
        }
        else if ret r = MARPAWRAPPER_VALUECALLBACKBOOL_STOP then Some (Leave MARPAWRAPPER_BOOL_TRUE, l1, c2)
        else Some (Next, l1, c2)
      }
      else Some (Next, l, c))"

definition start_tree ::
  "('e, 'd, 'v) world \<Rightarrow> ('e, 'd) marpaWrapper \<Rightarrow> marpaWrapperStackOption
     \<Rightarrow> ('e, 'd, 'v) value_locals \<Rightarrow> ('e, 'd, 'v) wstate \<Rightarrow> ('e, 'd, 'v) value_result" where
  "start_tree W w so l0 c =
     and_then (or_leave W w (Marpa_v_new (marpaTreep l0)) (\<lambda>i. i \<noteq> 0) (\<lambda>i l. l\<lparr>marpaValuep := i\<rparr>) l0 c) (\<lambda>l c.
     and_then (or_leave W w (Marpa_v_valued_force (marpaValuep l)) (\<lambda>i. \<not> i < 0) (\<lambda>i l. l) l c) (\<lambda>l c. do {
       (sp, c1) \<leftarrow> stack_new W w so c;
       Some (if sp = None then Leave MARPAWRAPPER_BOOL_FALSE else Next, l\<lparr>genericStackp := sp\<rparr>, c1)
     }))"

definition end_tree ::
  "('e, 'd, 'v) world \<Rightarrow> ('e, 'd, 'v) value_locals \<Rightarrow> ('e, 'd, 'v) wstate \<Rightarrow> ('e, 'd, 'v) value_result" where
  "end_tree W l c = do {
     (sp, c1) \<leftarrow> stack_destroy (genericStackp l) c;
     let c2 = snd (call W (V (Marpa_v_unref (marpaValuep l))) c1);
     Some (Next, l\<lparr>genericStackp := None, marpaValuep := 0\<rparr>, c2)
   }"

partial_function (option) value_trees ::
  "('e, 'd, 'v) world \<Rightarrow> ('e, 'd) marpaWrapper \<Rightarrow> marpaWrapperValueOption \<Rightarrow> marpaWrapperStackOption
     \<Rightarrow> ('e, 'd, 'v) value_locals \<Rightarrow> ('e, 'd, 'v) wstate \<Rightarrow> ('e, 'd, 'v) value_result" where
  "value_trees W w vo so l c =
     (let (r, c1) = call W (V (Marpa_t_next (marpaTreep l))) c in
      if ret r < 0 then Some (Leave MARPAWRAPPER_BOOL_TRUE, l, c1)
      else do {
        (e, l2, c2) \<leftarrow>
          and_then (start_tree W w so l c1) (\<lambda>l c.
          and_then (value_steps W w vo so l c) (\<lambda>l c.
          and_then (give_result W w vo l c) (end_tree W)));
        (case e of Leave rc \<Rightarrow> Some (e, l2, c2) | _ \<Rightarrow> value_trees W w vo so l2 c2)
      })"

declare value_steps.simps [code] value_trees.simps [code]

section \<open>The whole function\<close>

definition unref_all ::
  "('e, 'd, 'v) world \<Rightarrow> ('e, 'd, 'v) value_locals \<Rightarrow> ('e, 'd, 'v) wstate \<Rightarrow> ('e, 'd, 'v) wstate" where
  "unref_all W l c2 =
     (let c3 = (if marpaValuep l \<noteq> 0 then snd (call W (V (Marpa_v_unref (marpaValuep l))) c2) else c2);
          c4 = (if marpaTreep l \<noteq> 0 then snd (call W (V (Marpa_t_unref (marpaTreep l))) c3) else c3);
          c5 = (if marpaOrderp l \<noteq> 0 then snd (call W (V (Marpa_o_unref (marpaOrderp l))) c4) else c4)
      in if marpaBocagep l \<noteq> 0 then snd (call W (V (Marpa_b_unref (marpaBocagep l))) c5) else c5)"

text \<open>What follows the end label. The test of \<open>valueOutputp\<close> reads it.\<close>

definition value_end ::
  "('e, 'd, 'v) world \<Rightarrow> int \<Rightarrow> ('e, 'd, 'v) value_locals \<Rightarrow> ('e, 'd, 'v) wstate
     \<Rightarrow> (int \<times> ('e, 'd, 'v) wstate) option" where
  "value_end W rcb l c = do {
     p \<leftarrow> valueOutputp l;
     h1 \<leftarrow> (if p \<noteq> Null then cfree p (hp c) else Some (hp c));
     h2 \<leftarrow> (if valueInputArraypp l \<noteq> Null then cfree (valueInputArraypp l) h1 else Some h1);
     c2 \<leftarrow> (if genericStackp l \<noteq> None
            then do { (sp, c2) \<leftarrow> stack_destroy (genericStackp l) (c\<lparr>hp := h2\<rparr>); Some c2 }
            else Some (c\<lparr>hp := h2\<rparr>));
     Some (rcb, unref_all W l c2)
   }"

definition no_locals :: "('e, 'd, 'v) value_locals" where
  "no_locals = \<lparr>marpaBocagep = 0, marpaOrderp = 0, marpaTreep = 0, marpaValuep = 0, genericStackp = None,
     valueInputArraypp = Null, valueOutputp = None\<rparr>"

definition marpaWrapper_vb ::
  "('e, 'd, 'v) world \<Rightarrow> ('e, 'd) marpaWrapper option \<Rightarrow> marpaWrapperValueOption option
     \<Rightarrow> marpaWrapperStackOption option \<Rightarrow> ('e, 'd, 'v) wstate \<Rightarrow> (int \<times> ('e, 'd, 'v) wstate) option" where
  "marpaWrapper_vb W wp vop sop c =
     (case wp of
        None \<Rightarrow> value_end W MARPAWRAPPER_BOOL_FALSE no_locals c
      | Some w \<Rightarrow>
          (case sop of
             None \<Rightarrow> do {
               c1 \<leftarrow> log_error0 W w ''marpaWrapperStackOptionp is NULL'' c;
               value_end W MARPAWRAPPER_BOOL_FALSE no_locals c1
             }
           | Some so \<Rightarrow>
               if marpaRecognizerp w = 0
               then do { c1 \<leftarrow> no_read_phase W w c; value_end W MARPAWRAPPER_BOOL_FALSE no_locals c1 }
               else do {
                 let vo = (case vop of None \<Rightarrow> default_valueOption | Some x \<Rightarrow> x);
                 (e, l, c1) \<leftarrow> and_then (value_setup W w vo no_locals c) (value_trees W w vo so);
                 (case e of Leave rcb \<Rightarrow> value_end W rcb l c1 | _ \<Rightarrow> None)
               }))"

end
