(* ===== verification/StackEffects.thy ===== *)
theory StackEffects
  imports StackSpec
begin

text \<open>
  What the operations of the generic stack do to the external state of their callbacks: a relation
  that is reflexive and transitive and that every callback keeps is kept by every operation. This
  is the contract \<open>effects\<close>, by which a client of the stack traces its own callbacks.
\<close>

section \<open>Callbacks that keep a relation\<close>

definition callbacks_keep :: "('s \<Rightarrow> 's \<Rightarrow> bool) \<Rightarrow> ('o, 's) genericStack \<Rightarrow> bool" where
  "callbacks_keep R s \<longleftrightarrow>
     (\<forall>f e n x. failureCallbackp s = Some f \<longrightarrow> R x (f e n x))
   \<and> (\<forall>f v x. freeCallbackp s = Some f \<longrightarrow> R x (snd (f v x)))
   \<and> (\<forall>f v x. copyCallbackp s = Some f \<longrightarrow> R x (snd (snd (f v x))))"

lemma callbacks_keep_update [simp]:
  "callbacks_keep R (s\<lparr>stackSizei := n\<rparr>) = callbacks_keep R s"
  "callbacks_keep R (s\<lparr>bufpp := p, allocSizei := m\<rparr>) = callbacks_keep R s"
  "callbacks_keep R (s\<lparr>allocSizei := m, bufpp := p\<rparr>) = callbacks_keep R s"
  by (simp_all add: callbacks_keep_def)

locale effects =
  fixes R :: "'s \<Rightarrow> 's \<Rightarrow> bool"
  assumes refl: "R x x" and trans: "R x y \<Longrightarrow> R y z \<Longrightarrow> R x z"
begin

lemma report_effect: "callbacks_keep R s \<Longrightarrow> R x (ext c) \<Longrightarrow> R x (ext (report (failureCallbackp s) e n c))"
  by (auto simp: report_def callbacks_keep_def split: option.splits intro: trans)

lemma run_freeCallback_effect:
  assumes "run_freeCallback s p c = Some c'" "callbacks_keep R s"
  shows "R (ext c) (ext c')"
proof (cases "freeCallbackp s")
  case None
  with assms show ?thesis by (simp add: run_freeCallback_def refl)
next
  case (Some f)
  with assms(1) obtain v where c': "c' = (let r = f v (ext c); c1 = c\<lparr>ext := snd r\<rparr> in
      if fst r \<noteq> 0 then report (failureCallbackp s) GENERICSTACK_ERROR_CALLBACK (fst r) c1 else c1)"
    by (auto simp: run_freeCallback_def bind_Some_iff Let_def split_def)
  have "R (ext c) (snd (f v (ext c)))" using assms(2) Some by (simp add: callbacks_keep_def)
  with report_effect [OF assms(2), of "ext c" "c\<lparr>ext := snd (f v (ext c))\<rparr>"] show ?thesis
    by (simp add: c' Let_def)
qed

lemma release_slot_effect:
  assumes "release_slot s i c = Some c'" "callbacks_keep R s"
  shows "R (ext c) (ext c')"
  using assms run_freeCallback_effect [OF _ assms(2)]
  by (auto simp: release_slot_def bind_Some_iff refl split: if_splits)

lemma destroy_slots_effect: "destroy_slots s i n c = Some c' \<Longrightarrow> callbacks_keep R s \<Longrightarrow> R (ext c) (ext c')"
proof (induction n arbitrary: i c)
  case 0
  then show ?case by (simp add: refl)
next
  case (Suc n)
  then obtain c1 where "release_slot s i c = Some c1" "destroy_slots s (Suc i) n c1 = Some c'"
    by (auto simp: bind_Some_iff)
  with Suc show ?case by (meson release_slot_effect trans)
qed

lemma destroyv_effect:
  assumes "genericStack_destroyv (Some (Some s)) c = Some (r, c')" "callbacks_keep R s"
  shows "R (ext c) (ext c')"
  using assms destroy_slots_effect [OF _ assms(2)]
  by (auto simp: genericStack_destroyv_def bind_Some_iff)

lemma copy_element_effect:
  assumes "copy_element s p c = Some (q, c')" "callbacks_keep R s"
  shows "R (ext c) (ext c')"
proof -
  obtain a h1 where m: "malloc Raw (hp c) = (a, h1)" by (cases "malloc Raw (hp c)") auto
  show ?thesis
  proof (cases a)
    case Null
    with assms m report_effect [OF assms(2) refl, of "c\<lparr>hp := h1\<rparr>"] show ?thesis
      by (auto simp: copy_element_def)
  next
    case (Ref b)
    show ?thesis
    proof (cases "copyCallbackp s")
      case None
      with assms m Ref show ?thesis by (auto simp: copy_element_def bind_Some_iff refl)
    next
      case (Some f)
      from assms(1) m Ref Some obtain v h where
        c': "c' = (let r = f v (ext c); c1 = c\<lparr>hp := h, ext := snd (snd r)\<rparr> in
           if fst r \<noteq> 0 then report (failureCallbackp s) GENERICSTACK_ERROR_CALLBACK (fst r) c1 else c1)"
        by (auto simp: copy_element_def bind_Some_iff Let_def split_def)
      have "R (ext c) (snd (snd (f v (ext c))))" using assms(2) Some by (simp add: callbacks_keep_def)
      with report_effect [OF assms(2), of "ext c" "c\<lparr>hp := h, ext := snd (snd (f v (ext c)))\<rparr>"] show ?thesis
        by (simp add: c' Let_def)
    qed
  qed
qed

lemma grow_bufpp_effect:
  assumes "grow_bufpp s c = Some (ok, s', c')" "callbacks_keep R s"
  shows "R (ext c) (ext c')" "callbacks_keep R s'"
proof -
  have "R (ext c) (ext (report (failureCallbackp s) e n (c\<lparr>hp := h\<rparr>)))" for e n h
    by (rule report_effect [OF assms(2)]) (simp add: refl)
  then show "R (ext c) (ext c')" "callbacks_keep R s'"
    using assms by (auto simp: grow_bufpp_def bind_Some_iff Let_def refl split: if_splits)
qed

lemma push_onto_effect:
  assumes "push_onto s p c = Some (r, s', c')" "callbacks_keep R s"
  shows "R (ext c) (ext c')" "callbacks_keep R s'"
  using assms copy_element_effect [OF _ assms(2)]
  by (auto simp: push_onto_def bind_Some_iff refl split: if_splits)

lemma pushi_effect:
  assumes "pushi s p c = Some (r, s', c')" "callbacks_keep R s"
  shows "R (ext c) (ext c') \<and> callbacks_keep R s'"
proof (cases "allocSizei s \<le> stackSizei s")
  case True
  with assms(1) obtain ok s1 c1 where g: "grow_bufpp s c = Some (ok, s1, c1)"
    "(if ok then push_onto s1 p c1 else Some (0, s1, c1)) = Some (r, s', c')"
    by (auto simp: pushi_def bind_Some_iff)
  from g(2) push_onto_effect [OF _ grow_bufpp_effect(2) [OF g(1) assms(2)]] grow_bufpp_effect [OF g(1) assms(2)]
  show ?thesis by (auto split: if_splits intro: trans)
next
  case False
  with assms(1) have "push_onto s p c = Some (r, s', c')" by (simp add: pushi_def)
  with push_onto_effect [OF this assms(2)] show ?thesis by simp
qed

lemma grow_to_effect:
  assumes "grow_to i s c = Some (s', c')" "callbacks_keep R s"
  shows "R (ext c) (ext c') \<and> callbacks_keep R s'"
proof -
  let ?P = "\<lambda>i s c (s', c'). callbacks_keep R s \<longrightarrow> R (ext c) (ext c') \<and> callbacks_keep R s'"
  have "?P i s c (s', c')"
  proof (rule grow_to.raw_induct [OF _ assms(1)])
    fix f and i and t and d and r
    assume IH: "\<And>i t d r. f i t d = Some r \<Longrightarrow> ?P i t d r"
      and run: "(if allocSizei t \<le> i
         then do { (k, s1, c1) \<leftarrow> pushi t Null d; f i s1 c1 } else Some (t, d)) = Some r"
    show "?P i t d r"
    proof (cases "allocSizei t \<le> i")
      case True
      with run obtain k s1 c1 where p: "pushi t Null d = Some (k, s1, c1)" and g: "f i s1 c1 = Some r"
        by (auto simp: bind_Some_iff)
      obtain s2 c2 where r: "r = (s2, c2)" by (cases r)
      show ?thesis
        unfolding r prod.case
      proof
        assume k: "callbacks_keep R t"
        from pushi_effect [OF p k] IH [OF g] show "R (ext d) (ext c2) \<and> callbacks_keep R s2"
          unfolding r prod.case by (metis trans)
      qed
    next
      case False
      with run show ?thesis by (auto simp: refl)
    qed
  qed
  with assms(2) show ?thesis by simp
qed

lemma grow_if_effect:
  assumes "(if b then grow_to i s c else Some (s, c)) = Some (s', c')" "callbacks_keep R s"
  shows "R (ext c) (ext c')" "callbacks_keep R s'"
  using assms(1) grow_to_effect [OF _ assms(2)] assms(2) by (auto simp: refl split: if_splits)

lemma getp_effect:
  assumes "genericStack_getp (Some s) i c = Some (p, sp, c')" "callbacks_keep R s"
  shows "R (ext c) (ext c') \<and> (\<exists>s'. sp = Some s' \<and> callbacks_keep R s')"
proof -
  from assms(1) obtain s1 c1 where g: "(if allocSizei s \<le> i \<and> optionGrowOnGeti s then grow_to i s c else Some (s, c)) = Some (s1, c1)"
    and sp: "sp = Some s1"
    and c': "c' = c1 \<or> c' = report (failureCallbackp s1) GENERICSTACK_ERROR_RUNTIME
       GENERICSTACK_ERROR_RUNTIME_STACK_TOO_SMALL_GET c1"
    by (auto simp: genericStack_getp_def bind_Some_iff split: if_splits)
  note e = grow_if_effect [OF g assms(2)]
  from c' e report_effect [OF e(2) e(1)] sp show ?thesis by auto
qed

lemma set_slot_effect:
  assumes "set_slot s i p c = Some (r, s', c')" "callbacks_keep R s"
  shows "R (ext c) (ext c')" "callbacks_keep R s'"
  using assms copy_element_effect [OF _ assms(2)]
  by (auto simp: set_slot_def bind_Some_iff Let_def refl split: if_splits)

lemma seti_effect:
  assumes "genericStack_seti (Some s) i p c = Some (r, sp, c')" "callbacks_keep R s"
  shows "R (ext c) (ext c') \<and> (\<exists>s'. sp = Some s' \<and> callbacks_keep R s')"
proof -
  from assms(1) obtain s1 c1 where g: "(if allocSizei s \<le> i \<and> optionGrowOnSeti s then grow_to i s c else Some (s, c)) = Some (s1, c1)"
    and rest: "(sp = Some s1 \<and> c' = report (failureCallbackp s1) GENERICSTACK_ERROR_RUNTIME
         GENERICSTACK_ERROR_RUNTIME_STACK_TOO_SMALL_SET c1)
      \<or> (\<exists>c2 s2. release_slot s1 i c1 = Some c2 \<and> set_slot s1 i p c2 = Some (r, s2, c') \<and> sp = Some s2)"
    by (auto simp: genericStack_seti_def bind_Some_iff split: if_splits)
  note e = grow_if_effect [OF g assms(2)]
  from rest show ?thesis
  proof
    assume "sp = Some s1 \<and> c' = report (failureCallbackp s1) GENERICSTACK_ERROR_RUNTIME
         GENERICSTACK_ERROR_RUNTIME_STACK_TOO_SMALL_SET c1"
    with e report_effect [OF e(2) e(1)] show ?thesis by auto
  next
    assume "\<exists>c2 s2. release_slot s1 i c1 = Some c2 \<and> set_slot s1 i p c2 = Some (r, s2, c') \<and> sp = Some s2"
    then obtain c2 s2 where a: "release_slot s1 i c1 = Some c2" and b: "set_slot s1 i p c2 = Some (r, s2, c')"
      and sp: "sp = Some s2" by blast
    from e(1) release_slot_effect [OF a e(2)] set_slot_effect [OF b e(2)] sp show ?thesis
      by (metis trans)
  qed
qed

end

section \<open>The constructor\<close>

text \<open>Its only callback is the report of a failure.\<close>

lemma newp_effect:
  assumes "genericStack_newp n q c = Some (sp, c')"
  shows "ext c' = ext c \<or> (\<exists>f e i. Option.bind q opt_failureCallbackp = Some f \<and> ext c' = f e i (ext c))"
  using assms
  by (cases q; cases "Option.bind q opt_failureCallbackp")
    (auto simp: genericStack_newp_def report_def bind_Some_iff Let_def split: if_splits prod.splits; blast)+

end
