(* ===== verification/ValueCalls.thy ===== *)
theory ValueCalls
  imports WrapperValue StackEffects
begin

text \<open>
  The calls \<open>marpaWrapper_vb\<close> makes. A small logic of triples for its phases carries an invariant
  over them: the libmarpa objects created so far and not yet released form a stack, the one the
  local variables hold, and \<open>valueOutputp\<close> is set only after a step of the valuator.
\<close>

section \<open>Triples\<close>

text \<open>\<open>Q\<close> holds where the phase falls through, \<open>E\<close> where it jumps to the end label.\<close>

definition triple ::
  "(('e, 'd, 'v) value_locals \<Rightarrow> ('e, 'd, 'v) wstate \<Rightarrow> bool)
     \<Rightarrow> (('e, 'd, 'v) value_locals \<Rightarrow> ('e, 'd, 'v) wstate \<Rightarrow> ('e, 'd, 'v) value_result)
     \<Rightarrow> (('e, 'd, 'v) value_locals \<Rightarrow> ('e, 'd, 'v) wstate \<Rightarrow> bool)
     \<Rightarrow> (('e, 'd, 'v) value_locals \<Rightarrow> ('e, 'd, 'v) wstate \<Rightarrow> bool) \<Rightarrow> bool" where
  "triple P f Q E \<longleftrightarrow>
     (\<forall>l c e l' c'. P l c \<longrightarrow> f l c = Some (e, l', c') \<longrightarrow> (case e of Leave r \<Rightarrow> E l' c' | _ \<Rightarrow> Q l' c'))"

lemma tripleI:
  "(\<And>l c e l' c'. P l c \<Longrightarrow> f l c = Some (e, l', c') \<Longrightarrow> (case e of Leave r \<Rightarrow> E l' c' | _ \<Rightarrow> Q l' c'))
     \<Longrightarrow> triple P f Q E"
  by (simp add: triple_def)

lemma tripleD:
  "triple P f Q E \<Longrightarrow> P l c \<Longrightarrow> f l c = Some (e, l', c') \<Longrightarrow> (case e of Leave r \<Rightarrow> E l' c' | _ \<Rightarrow> Q l' c')"
  by (simp add: triple_def)

lemma triple_seq:
  assumes f: "triple P f Q E" and g: "triple Q g S E"
  shows "triple P (\<lambda>l c. and_then (f l c) g) S E"
proof (rule tripleI)
  fix l c e l' c'
  assume P: "P l c" and run: "and_then (f l c) g = Some (e, l', c')"
  from run obtain e1 l1 c1 where m: "f l c = Some (e1, l1, c1)" by (auto simp: and_then_def bind_Some_iff)
  note F = tripleD [OF f P m]
  show "case e of Leave r \<Rightarrow> E l' c' | _ \<Rightarrow> S l' c'"
  proof (cases "\<exists>r. e1 = Leave r")
    case True
    with m run F show ?thesis by (auto simp: and_then_def)
  next
    case False
    then have "Q l1 c1" "g l1 c1 = Some (e, l', c')" using m run F
      by (auto simp: and_then_def split: value_flow.splits)
    then show ?thesis by (rule tripleD [OF g])
  qed
qed

lemma triple_if:
  "triple P f Q E \<Longrightarrow> triple P g Q E \<Longrightarrow> triple P (\<lambda>l c. if b then f l c else g l c) Q E"
  by (simp add: triple_def)

lemma triple_skip: "(\<And>l c. P l c \<Longrightarrow> Q l c) \<Longrightarrow> triple P (\<lambda>l c. Some (Next, l, c)) Q E"
  by (simp add: triple_def)

lemma triple_weaken:
  "triple P f Q E \<Longrightarrow> (\<And>l c. P' l c \<Longrightarrow> P l c) \<Longrightarrow> (\<And>l c. Q l c \<Longrightarrow> Q' l c) \<Longrightarrow> (\<And>l c. E l c \<Longrightarrow> E' l c)
     \<Longrightarrow> triple P' f Q' E'"
  unfolding triple_def by (auto split: value_flow.splits; blast)

section \<open>Logging asks for error codes only\<close>

definition queries :: "('e, 'd, 'v) wstate \<Rightarrow> ('e, 'd, 'v) wstate \<Rightarrow> bool" where
  "queries c c' \<longleftrightarrow> (\<exists>t. calls_since c c' t \<and> list_all (\<lambda>(k, r). error_query k) t)"

lemma queries_refl: "ext c' = ext c \<Longrightarrow> queries c c'"
  unfolding queries_def calls_since_def by (intro exI [of _ "[]"]) simp

lemma queries_same: "trace (ext c') = trace (ext c) \<Longrightarrow> queries c c'"
  unfolding queries_def calls_since_def by (intro exI [of _ "[]"]) simp

lemma with_env_trace: "with_env f c = Some c' \<Longrightarrow> trace (ext c') = trace (ext c)"
  by (auto simp: with_env_def split: option.splits)

lemma logExt_trace:
  assumes "marpaWrapper_logExt W wp origin n calls level c = Some c'"
  shows "trace (ext c') = trace (ext c)"
proof (cases wp)
  case None
  with assms show ?thesis by (simp add: marpaWrapper_logExt_def)
next
  case (Some w)
  with assms obtain r m h1 c2 f where "with_env f (c\<lparr>hp := h1\<rparr>) = Some c2" "c' = c2 \<or> free_message m c2 = Some c'"
    by (auto simp: marpaWrapper_logExt_def run_simps Let_def split: if_splits)
  then show ?thesis by (auto simp: free_message_def bind_Some_iff dest!: with_env_trace)
qed

lemma log_trace: "marpaWrapper_log W wp level origin n (Some s) c = Some c' \<Longrightarrow> trace (ext c') = trace (ext c)"
  by (auto simp: marpaWrapper_log_def marpaWrapper_logWrapper_def free_message_def bind_Some_iff
      dest!: logExt_trace split: if_splits)

lemma log_error0_queries: "log_error0 W w s c = Some c' \<Longrightarrow> queries c c'"
  unfolding log_error0_def by (rule queries_same [OF log_trace])

lemma log_sys_error_queries: "log_sys_error W w s c = Some c' \<Longrightarrow> queries c c'"
  unfolding log_sys_error_def by (rule queries_same [OF log_trace])

lemma log_marpa_g_error_queries:
  assumes "log_marpa_g_error W w c = Some c'"
  shows "queries c c'"
proof -
  let ?k = "G (Marpa_g_error (marpaGrammarp w))"
  have "trace (ext c') = trace (ext (snd (call W ?k c)))"
    using assms log_trace by (auto simp: log_marpa_g_error_def log_marpa_error_def split_def Let_def)
  then have "calls_since c c' [(?k, fst (call W ?k c))]" by (simp add: calls_since_def trace_call)
  moreover have "list_all (\<lambda>(k, r). error_query k) [(?k, fst (call W ?k c))]" by (simp add: error_query_def)
  ultimately show ?thesis unfolding queries_def by blast
qed

section \<open>Calls made by the stack\<close>

definition stack_call :: "('d, 'v) call \<Rightarrow> bool" where
  "stack_call k = (case k of U (StackElementFreeCallback v) \<Rightarrow> True | U (StackElementCopyCallback v) \<Rightarrow> True | _ \<Rightarrow> False)"

definition only_stack_calls :: "('e, 'd, 'v) io option \<Rightarrow> ('e, 'd, 'v) io option \<Rightarrow> bool" where
  "only_stack_calls xo yo \<longleftrightarrow> (\<forall>y. yo = Some y \<longrightarrow>
     (\<exists>x t. xo = Some x \<and> trace y = trace x @ t \<and> list_all (\<lambda>(k, r). stack_call k) t))"

interpretation value_stack: effects "only_stack_calls"
proof
  show "only_stack_calls x x" for x :: "('e, 'd, 'v) io option"
    by (auto simp: only_stack_calls_def intro!: exI [of _ "[]"])
  show "only_stack_calls x z" if "only_stack_calls x y" "only_stack_calls y z" for x y z :: "('e, 'd, 'v) io option"
    unfolding only_stack_calls_def
  proof (intro allI impI)
    fix w
    assume "z = Some w"
    with that(2) obtain v t where t: "y = Some v" "trace w = trace v @ t" "list_all (\<lambda>(k, r). stack_call k) t"
      unfolding only_stack_calls_def by blast
    with that(1) obtain u s where "x = Some u" "trace v = trace u @ s" "list_all (\<lambda>(k, r). stack_call k) s"
      unfolding only_stack_calls_def by blast
    with t show "\<exists>u t. x = Some u \<and> trace w = trace u @ t \<and> list_all (\<lambda>(k, r). stack_call k) t"
      by (intro exI [of _ u] exI [of _ "s @ t"]) simp
  qed
qed

lemma ask_trace: "ask W k x = (r, x1) \<Longrightarrow> trace x1 = trace x @ [(k, r)]"
  by (auto simp: ask_def Let_def)

lemma free_callback_calls: "only_stack_calls xo (snd (marpaWrapperStackFreeCallback W b v xo))"
  unfolding marpaWrapperStackFreeCallback_def only_stack_calls_def
  by (auto simp: Let_def stack_call_def split: obj.splits option.splits prod.splits dest: ask_trace)

lemma copy_callback_calls: "only_stack_calls xo (snd (snd (marpaWrapperStackCopyCallback W b v xo)))"
  unfolding marpaWrapperStackCopyCallback_def only_stack_calls_def
  by (auto simp: Let_def stack_call_def split: obj.splits option.splits prod.splits dest: ask_trace)

lemma failure_callback_calls: "only_stack_calls xo (marpaWrapperStackFailureCallback W w e n xo)"
  unfolding marpaWrapperStackFailureCallback_def only_stack_calls_def marpaWrapper_logWrapper_def
  by (auto split: option.splits dest!: logExt_trace)

section \<open>Handles\<close>

datatype handle = BocageHandle int | OrderHandle int | TreeHandle int | ValuatorHandle int

text \<open>What a call with its reply does to the objects alive: \<open>Inl\<close> for a new one, \<open>Inr\<close> for a release.\<close>

definition handle_change :: "('d, 'v) call \<times> 'v reply \<Rightarrow> (handle + handle) option" where
  "handle_change kr =
     (let made = (\<lambda>f. if ret (snd kr) = 0 then None else Some (Inl (f (ret (snd kr))))) in
      case fst kr of
        V (Marpa_b_new r i) \<Rightarrow> made BocageHandle
      | V (Marpa_o_new b) \<Rightarrow> made OrderHandle
      | V (Marpa_t_new p) \<Rightarrow> made TreeHandle
      | V (Marpa_v_new t) \<Rightarrow> made ValuatorHandle
      | V (Marpa_b_unref b) \<Rightarrow> Some (Inr (BocageHandle b))
      | V (Marpa_o_unref p) \<Rightarrow> Some (Inr (OrderHandle p))
      | V (Marpa_t_unref t) \<Rightarrow> Some (Inr (TreeHandle t))
      | V (Marpa_v_unref v) \<Rightarrow> Some (Inr (ValuatorHandle v))
      | _ \<Rightarrow> None)"

lemma handle_change_simps [simp]:
  "handle_change (G g, x) = None" "handle_change (R r, x) = None" "handle_change (U u, x) = None"
  "handle_change (V (Marpa_b_new i j), x) = (if ret x = 0 then None else Some (Inl (BocageHandle (ret x))))"
  "handle_change (V (Marpa_o_new i), x) = (if ret x = 0 then None else Some (Inl (OrderHandle (ret x))))"
  "handle_change (V (Marpa_t_new i), x) = (if ret x = 0 then None else Some (Inl (TreeHandle (ret x))))"
  "handle_change (V (Marpa_v_new i), x) = (if ret x = 0 then None else Some (Inl (ValuatorHandle (ret x))))"
  "handle_change (V (Marpa_b_unref i), x) = Some (Inr (BocageHandle i))"
  "handle_change (V (Marpa_o_unref i), x) = Some (Inr (OrderHandle i))"
  "handle_change (V (Marpa_t_unref i), x) = Some (Inr (TreeHandle i))"
  "handle_change (V (Marpa_v_unref i), x) = Some (Inr (ValuatorHandle i))"
  "handle_change (V (Marpa_o_high_rank_only_set i j), x) = None" "handle_change (V (Marpa_o_rank i), x) = None"
  "handle_change (V (Marpa_o_ambiguity_metric i), x) = None" "handle_change (V (Marpa_o_is_null i), x) = None"
  "handle_change (V (Marpa_t_next i), x) = None" "handle_change (V (Marpa_v_valued_force i), x) = None"
  "handle_change (V (Marpa_v_step i), x) = None"
  by (simp_all add: handle_change_def)

text \<open>The objects alive after some calls, newest first; \<open>None\<close> when another than the newest is released.\<close>

fun nest :: "(('d, 'v) call \<times> 'v reply) list \<Rightarrow> handle list \<Rightarrow> handle list option" where
  "nest [] st = Some st"
| "nest (x # t) st =
     (case handle_change x of
        None \<Rightarrow> nest t st
      | Some (Inl h) \<Rightarrow> nest t (h # st)
      | Some (Inr h) \<Rightarrow> (case st of [] \<Rightarrow> None | h' # st' \<Rightarrow> if h = h' then nest t st' else None))"

lemma nest_append: "nest (t @ u) st = Option.bind (nest t st) (nest u)"
  by (induction t st rule: nest.induct) (auto split: option.splits sum.splits list.splits)

definition no_handles :: "(('d, 'v) call \<times> 'v reply) list \<Rightarrow> bool" where
  "no_handles t \<longleftrightarrow> list_all (\<lambda>x. handle_change x = None) t"

lemma nest_no_handles: "no_handles t \<Longrightarrow> nest t st = Some st"
  by (induction t) (auto simp: no_handles_def)

lemma queries_no_handles: "list_all (\<lambda>(k, r). error_query k) t \<Longrightarrow> no_handles t"
  unfolding no_handles_def list_all_iff error_query_def handle_change_def
  by (fastforce split: call.splits grammar_call.splits)

lemma stack_no_handles: "list_all (\<lambda>(k, r). stack_call k) t \<Longrightarrow> no_handles t"
  unfolding no_handles_def list_all_iff stack_call_def handle_change_def
  by (fastforce split: call.splits)

definition stepped :: "(('d, 'v) call \<times> 'v reply) list \<Rightarrow> bool" where
  "stepped t \<longleftrightarrow> (\<exists>v r. (V (Marpa_v_step v), r) \<in> set t)"

lemma stepped_append [simp]: "stepped (t @ u) = (stepped t \<or> stepped u)"
  by (auto simp: stepped_def)

section \<open>The invariant\<close>

definition live :: "('e, 'd, 'v) value_locals \<Rightarrow> handle list" where
  "live l = (if marpaValuep l \<noteq> 0 then [ValuatorHandle (marpaValuep l)] else [])
     @ (if marpaTreep l \<noteq> 0 then [TreeHandle (marpaTreep l)] else [])
     @ (if marpaOrderp l \<noteq> 0 then [OrderHandle (marpaOrderp l)] else [])
     @ (if marpaBocagep l \<noteq> 0 then [BocageHandle (marpaBocagep l)] else [])"

definition stack_keeps :: "('e, 'd, 'v) value_locals \<Rightarrow> bool" where
  "stack_keeps l \<longleftrightarrow> (\<forall>s. genericStackp l = Some s \<longrightarrow> callbacks_keep only_stack_calls s)"

definition traced :: "('e, 'd, 'v) wstate \<Rightarrow> ('e, 'd, 'v) value_locals \<Rightarrow> ('e, 'd, 'v) wstate \<Rightarrow> bool" where
  "traced c0 l c \<longleftrightarrow> stack_keeps l
     \<and> (\<exists>t. calls_since c0 c t \<and> nest t [] = Some (live l) \<and> (valueOutputp l \<noteq> None \<longrightarrow> stepped t))"

lemma traced_no_handles:
  assumes "traced c0 l c" "calls_since c c' t" "no_handles t" "live l' = live l" "stack_keeps l'"
    "valueOutputp l' \<noteq> None \<longrightarrow> valueOutputp l \<noteq> None"
  shows "traced c0 l' c'"
proof -
  from assms(1) obtain u where u: "calls_since c0 c u" "nest u [] = Some (live l)" "valueOutputp l \<noteq> None \<longrightarrow> stepped u"
    unfolding traced_def by blast
  have "nest (u @ t) [] = Some (live l')" using u(2) assms(3,4) by (simp add: nest_append nest_no_handles)
  moreover have "valueOutputp l' \<noteq> None \<longrightarrow> stepped (u @ t)" using u(3) assms(6) by simp
  ultimately show ?thesis
    using calls_since_trans [OF u(1) assms(2)] assms(5) unfolding traced_def by blast
qed

lemma traced_queries: "traced c0 l c \<Longrightarrow> queries c c' \<Longrightarrow> traced c0 l c'"
  unfolding queries_def using traced_no_handles [of c0 l c c'] queries_no_handles
  by (metis traced_def)

lemma traced_hp [simp]: "traced c0 l (c\<lparr>hp := h\<rparr>) = traced c0 l c"
  by (simp add: traced_def)

lemma traced_quiet:
  "traced c0 l c \<Longrightarrow> ext c' = ext c \<Longrightarrow> live l' = live l \<Longrightarrow> stack_keeps l'
     \<Longrightarrow> (valueOutputp l' \<noteq> None \<longrightarrow> valueOutputp l \<noteq> None) \<Longrightarrow> traced c0 l' c'"
  by (rule traced_no_handles [where t = "[]"]) (simp_all add: calls_since_def no_handles_def)

lemma traced_call:
  assumes "traced c0 l c" "handle_change (k, fst (call W k c)) = None"
  shows "traced c0 l (snd (call W k c))"
  using assms by (intro traced_no_handles [OF assms(1) calls_since_call]) (auto simp: no_handles_def traced_def)

text \<open>A call that makes an object, held by the locals \<open>l'\<close> from then on.\<close>

lemma traced_made:
  assumes "traced c0 l c" "handle_change (k, fst (call W k c)) = Some (Inl h)" "live l' = h # live l"
    "genericStackp l' = genericStackp l" "valueOutputp l' = valueOutputp l"
  shows "traced c0 l' (snd (call W k c))"
proof -
  from assms(1) obtain u where u: "calls_since c0 c u" "nest u [] = Some (live l)" "valueOutputp l \<noteq> None \<longrightarrow> stepped u"
    unfolding traced_def by blast
  have "nest (u @ [(k, fst (call W k c))]) [] = Some (live l')" using u(2) assms(2,3) by (simp add: nest_append)
  moreover have "valueOutputp l' \<noteq> None \<longrightarrow> stepped (u @ [(k, fst (call W k c))])" using u(3) assms(5) by simp
  ultimately show ?thesis
    using calls_since_trans [OF u(1) calls_since_call] assms(1,4)
    unfolding traced_def stack_keeps_def by metis
qed

text \<open>A call that releases the newest object.\<close>

lemma traced_released:
  assumes "traced c0 l c" "handle_change (k, fst (call W k c)) = Some (Inr h)" "live l = h # live l'"
    "stack_keeps l'" "valueOutputp l' = valueOutputp l"
  shows "traced c0 l' (snd (call W k c))"
proof -
  from assms(1) obtain u where u: "calls_since c0 c u" "nest u [] = Some (live l)" "valueOutputp l \<noteq> None \<longrightarrow> stepped u"
    unfolding traced_def by blast
  have "nest (u @ [(k, fst (call W k c))]) [] = Some (live l')" using u(2) assms(2,3) by (simp add: nest_append)
  moreover have "valueOutputp l' \<noteq> None \<longrightarrow> stepped (u @ [(k, fst (call W k c))])" using u(3) assms(5) by simp
  ultimately show ?thesis
    using calls_since_trans [OF u(1) calls_since_call] assms(4)
    unfolding traced_def by metis
qed

section \<open>Stack operations\<close>

definition keeps_calls :: "('e, 'd, 'v) value_stack option \<Rightarrow> bool" where
  "keeps_calls sp \<longleftrightarrow> (\<forall>s. sp = Some s \<longrightarrow> callbacks_keep only_stack_calls s)"

lemma stack_keeps_iff: "stack_keeps l \<longleftrightarrow> keeps_calls (genericStackp l)"
  by (simp add: stack_keeps_def keeps_calls_def)

lemma on_stack_calls:
  assumes "on_stack f c = Some (a, c1)" "\<And>d a d'. f d = Some (a, d') \<Longrightarrow> only_stack_calls (ext d) (ext d')"
  obtains t where "calls_since c c1 t" "list_all (\<lambda>(k, r). stack_call k) t"
proof -
  from assms(1) obtain d x where d: "f \<lparr>hp = hp c, ext = Some (ext c)\<rparr> = Some (a, d)" "ext d = Some x" "ext c1 = x"
    by (auto simp: on_stack_def bind_Some_iff)
  from assms(2) [OF d(1)] d(2,3) that show thesis
    by (auto simp: only_stack_calls_def calls_since_def)
qed

lemma on_stack_result:
  assumes "on_stack f c = Some (a, c1)" "\<And>d a d'. f d = Some (a, d') \<Longrightarrow> Q a"
  shows "Q a"
  using assms by (auto simp: on_stack_def bind_Some_iff)

lemma stack_get_calls:
  assumes "keeps_calls sp" "stack_get sp i c = Some ((p, sp'), c1)"
  obtains t where "calls_since c c1 t" "list_all (\<lambda>(k, r). stack_call k) t" "keeps_calls sp'"
proof -
  let ?f = "\<lambda>d. do { (p, sp1, d1) \<leftarrow> genericStack_getp sp i d; Some ((p, sp1), d1) }"
  have f: "only_stack_calls (ext d) (ext d') \<and> keeps_calls (snd a)" if "?f d = Some (a, d')" for d a d'
  proof (cases sp)
    case None
    with that show ?thesis by (auto simp: genericStack_getp_def value_stack.refl keeps_calls_def)
  next
    case (Some s)
    with assms(1) have "callbacks_keep only_stack_calls s" by (simp add: keeps_calls_def)
    with that Some value_stack.getp_effect show ?thesis unfolding keeps_calls_def by (fastforce simp: bind_Some_iff)
  qed
  have "keeps_calls (snd (p, sp'))"
    by (rule on_stack_result [OF assms(2) [unfolded stack_get_def]]) (use f in blast)
  moreover obtain t where "calls_since c c1 t" "list_all (\<lambda>(k, r). stack_call k) t"
    using on_stack_calls [OF assms(2) [unfolded stack_get_def]] f by blast
  ultimately show thesis using that by simp
qed

lemma stack_set_calls:
  assumes "keeps_calls sp" "stack_set sp i q c = Some ((r, sp'), c1)"
  obtains t where "calls_since c c1 t" "list_all (\<lambda>(k, r). stack_call k) t" "keeps_calls sp'"
proof -
  let ?f = "\<lambda>d. do { (r, sp1, d1) \<leftarrow> genericStack_seti sp i q d; Some ((r, sp1), d1) }"
  have f: "only_stack_calls (ext d) (ext d') \<and> keeps_calls (snd a)" if "?f d = Some (a, d')" for d a d'
  proof (cases sp)
    case None
    with that show ?thesis by (auto simp: genericStack_seti_def value_stack.refl keeps_calls_def)
  next
    case (Some s)
    with assms(1) have "callbacks_keep only_stack_calls s" by (simp add: keeps_calls_def)
    with that Some value_stack.seti_effect show ?thesis unfolding keeps_calls_def by (fastforce simp: bind_Some_iff)
  qed
  have "keeps_calls (snd (r, sp'))"
    by (rule on_stack_result [OF assms(2) [unfolded stack_set_def]]) (use f in blast)
  moreover obtain t where "calls_since c c1 t" "list_all (\<lambda>(k, r). stack_call k) t"
    using on_stack_calls [OF assms(2) [unfolded stack_set_def]] f by blast
  ultimately show thesis using that by simp
qed

lemma stack_destroy_calls:
  assumes "keeps_calls sp" "stack_destroy sp c = Some (r, c1)"
  obtains t where "calls_since c c1 t" "list_all (\<lambda>(k, r). stack_call k) t"
proof -
  have f: "only_stack_calls (ext d) (ext d')" if "genericStack_destroyv (Some sp) d = Some (a, d')" for d a d'
  proof (cases sp)
    case None
    with that show ?thesis by (auto simp: genericStack_destroyv_def value_stack.refl)
  next
    case (Some s)
    with assms(1) have "callbacks_keep only_stack_calls s" by (simp add: keeps_calls_def)
    with that Some value_stack.destroyv_effect show ?thesis by fastforce
  qed
  from on_stack_calls [OF assms(2) [unfolded stack_destroy_def]] f that show thesis by blast
qed

lemma stack_new_calls:
  assumes "stack_new W w so c = Some (sp, c1)"
  obtains t where "calls_since c c1 t" "list_all (\<lambda>(k, r). stack_call k) t" "keeps_calls sp"
proof -
  let ?q = "value_stack_option W w so"
  have f: "only_stack_calls (ext d) (ext d')"
    if "genericStack_newp (stackElementSizei so) (Some ?q) d = Some (a, d')" for d a d'
    using newp_effect [OF that] failure_callback_calls by (auto simp: value_stack.refl value_stack_option_def)
  have k: "keeps_calls sp" if "genericStack_newp (stackElementSizei so) (Some ?q) d = Some (sp, d')" for d sp d'
    using that free_callback_calls copy_callback_calls failure_callback_calls unfolding keeps_calls_def
    by (auto simp: genericStack_newp_def callbacks_keep_def value_stack_option_def bind_Some_iff Let_def
        split: if_splits prod.splits)
  have "keeps_calls sp"
    by (rule on_stack_result [OF assms [unfolded stack_new_def]]) (use k in blast)
  moreover obtain t where "calls_since c c1 t" "list_all (\<lambda>(k, r). stack_call k) t"
    using on_stack_calls [OF assms [unfolded stack_new_def]] f by blast
  ultimately show thesis using that by simp
qed

lemma stack_get_traced:
  assumes "traced c0 l c" "stack_get (genericStackp l) i c = Some ((p, sp), c1)"
  shows "traced c0 (l\<lparr>genericStackp := sp\<rparr>) c1"
proof -
  have "keeps_calls (genericStackp l)" using assms(1) by (simp add: traced_def stack_keeps_iff)
  from stack_get_calls [OF this assms(2)] obtain t where "calls_since c c1 t" "no_handles t" "keeps_calls sp"
    by (metis stack_no_handles)
  then show ?thesis by (intro traced_no_handles [OF assms(1)]) (auto simp: live_def stack_keeps_iff)
qed

lemma stack_set_traced:
  assumes "traced c0 l c" "stack_set (genericStackp l) i q c = Some ((r, sp), c1)"
  shows "traced c0 (l\<lparr>genericStackp := sp\<rparr>) c1"
proof -
  have "keeps_calls (genericStackp l)" using assms(1) by (simp add: traced_def stack_keeps_iff)
  from stack_set_calls [OF this assms(2)] obtain t where "calls_since c c1 t" "no_handles t" "keeps_calls sp"
    by (metis stack_no_handles)
  then show ?thesis by (intro traced_no_handles [OF assms(1)]) (auto simp: live_def stack_keeps_iff)
qed

lemma stack_destroy_traced:
  assumes "traced c0 l c" "stack_destroy (genericStackp l) c = Some (r, c1)"
  shows "traced c0 (l\<lparr>genericStackp := None\<rparr>) c1"
proof -
  have "keeps_calls (genericStackp l)" using assms(1) by (simp add: traced_def stack_keeps_iff)
  from stack_destroy_calls [OF this assms(2)] obtain t where "calls_since c c1 t" "no_handles t"
    by (metis stack_no_handles)
  then show ?thesis by (intro traced_no_handles [OF assms(1)]) (auto simp: live_def stack_keeps_def)
qed

lemma stack_new_traced:
  assumes "traced c0 l c" "stack_new W w so c = Some (sp, c1)"
  shows "traced c0 (l\<lparr>genericStackp := sp\<rparr>) c1"
proof -
  from stack_new_calls [OF assms(2)] obtain t where "calls_since c c1 t" "no_handles t" "keeps_calls sp"
    by (metis stack_no_handles)
  then show ?thesis by (intro traced_no_handles [OF assms(1)]) (auto simp: live_def stack_keeps_iff)
qed

section \<open>The calls that drive the evaluation\<close>

text \<open>The callbacks that give a value.\<close>

definition gives_value :: "('d, 'v) user_call \<Rightarrow> bool" where
  "gives_value k = (case k of ValueRuleCallback p vs \<Rightarrow> True | ValueSymbolCallback p i \<Rightarrow> True
     | ValueNullingCallback p \<Rightarrow> True | _ \<Rightarrow> False)"

definition step_call :: "('d, 'v) call \<Rightarrow> bool" where
  "step_call k = (case k of V (Marpa_v_step v) \<Rightarrow> True | U u \<Rightarrow> gives_value u | _ \<Rightarrow> False)"

lemma step_call_simps [simp]:
  "\<not> step_call (G g)" "\<not> step_call (R r)" "step_call (U u) = gives_value u" "step_call (V (Marpa_v_step v))"
  by (simp_all add: step_call_def)

text \<open>The steps of the valuator and the values given, between two states.\<close>

definition seen ::
  "('e, 'd, 'v) wstate \<Rightarrow> ('e, 'd, 'v) wstate \<Rightarrow> (('d, 'v) call \<times> 'v reply) list \<Rightarrow> bool" where
  "seen c c' ks \<longleftrightarrow> (\<exists>t. calls_since c c' t \<and> filter (\<lambda>(k, r). step_call k) t = ks)"

lemma seen_hp [simp]: "seen c (c'\<lparr>hp := h\<rparr>) ks = seen c c' ks" "seen (c\<lparr>hp := h\<rparr>) c' ks = seen c c' ks"
  by (simp_all add: seen_def calls_since_def)

lemma seen_refl [simp]: "seen c c []"
  by (auto simp: seen_def calls_since_def)

lemma seen_trans: "seen c c1 ks \<Longrightarrow> seen c1 c2 ls \<Longrightarrow> seen c c2 (ks @ ls)"
  unfolding seen_def by (metis calls_since_trans filter_append)

lemma seen_call: "seen c (snd (call W k c)) (if step_call k then [(k, fst (call W k c))] else [])"
  unfolding seen_def using calls_since_call by fastforce

lemma seen_silent:
  assumes "calls_since c c' t" "\<And>k r. (k, r) \<in> set t \<Longrightarrow> \<not> step_call k"
  shows "seen c c' []"
proof -
  have "filter (\<lambda>(k, r). step_call k) t = []" using assms(2) by (auto simp: filter_empty_conv)
  with assms(1) show ?thesis unfolding seen_def by blast
qed

lemma seen_stack: "calls_since c c' t \<Longrightarrow> list_all (\<lambda>(k, r). stack_call k) t \<Longrightarrow> seen c c' []"
  by (erule seen_silent) (fastforce simp: list_all_iff stack_call_def step_call_def gives_value_def
      split: call.splits user_call.splits)

lemma seen_queries: "queries c c' \<Longrightarrow> seen c c' []"
  unfolding queries_def
  by (erule exE, erule conjE, erule seen_silent)
    (fastforce simp: list_all_iff error_query_def step_call_def split: call.splits)

end
