(* ===== verification/ValueTrace.thy ===== *)
theory ValueTrace
  imports ValueCalls
begin

text \<open>
  The invariant of \<open>ValueCalls\<close> through every phase of \<open>marpaWrapper_vb\<close>, and its two consequences:
  libmarpa's objects are released once, in the reverse order of their creation, and the function has
  a defined result only after a step of the valuator.
\<close>

section \<open>Calls that may leave\<close>

lemma or_leave_cases:
  assumes "or_leave W w k good upd l c = Some (e, l', c')"
  obtains (good) "good (ret (fst (call W (V k) c)))" "e = Next" "l' = upd (ret (fst (call W (V k) c))) l"
      "c' = snd (call W (V k) c)"
    | (bad) "\<not> good (ret (fst (call W (V k) c)))" "e = Leave MARPAWRAPPER_BOOL_FALSE" "l' = l"
      "queries (snd (call W (V k) c)) c'"
proof (cases "good (ret (fst (call W (V k) c)))")
  case True
  with assms good show thesis by (simp add: or_leave_def checked_good)
next
  case False
  with assms obtain c2 where "log_marpa_g_error W w (snd (call W (V k) c)) = Some c2" "e = Leave MARPAWRAPPER_BOOL_FALSE"
    "l' = l" "c' = c2"
    by (auto simp: or_leave_def checked_def split_def Let_def bind_Some_iff)
  with False bad log_marpa_g_error_queries show thesis by blast
qed

lemma or_leave_traced:
  fixes W :: "('e, 'd, 'v) world"
  assumes "\<And>r. handle_change (V k :: ('d, 'v) call, r) = None" "traced c0 l c" "or_leave W w k good (\<lambda>i l. l) l c = Some (e, l', c')"
  shows "l' = l \<and> traced c0 l c'"
  using assms(3)
proof (cases rule: or_leave_cases)
  case good
  with traced_call [OF assms(2)] assms(1) show ?thesis by simp
next
  case bad
  have "traced c0 l (snd (call W (V k) c))" using traced_call [OF assms(2)] assms(1) by simp
  with bad traced_queries show ?thesis by blast
qed

lemma or_leave_made:
  fixes W :: "('e, 'd, 'v) world"
  assumes "\<And>r. handle_change (V k :: ('d, 'v) call, r) = (if ret r = 0 then None else Some (Inl (h (ret r))))" "traced c0 l c"
    "\<And>i. i \<noteq> 0 \<Longrightarrow> live (upd i l) = h i # live l"
    "\<And>i. genericStackp (upd i l) = genericStackp l" "\<And>i. valueOutputp (upd i l) = valueOutputp l"
    "or_leave W w k (\<lambda>i. i \<noteq> 0) upd l c = Some (e, l', c')"
  shows "(case e of Leave r \<Rightarrow> traced c0 l' c' | _ \<Rightarrow> traced c0 l' c' \<and> (\<exists>i. i \<noteq> 0 \<and> l' = upd i l))"
  using assms(6)
proof (cases rule: or_leave_cases)
  case good
  let ?i = "ret (fst (call W (V k) c))"
  have "traced c0 (upd ?i l) (snd (call W (V k) c))"
    using good(1) by (intro traced_made [OF assms(2)]) (simp_all add: assms(1,3-5))
  with good show ?thesis by auto
next
  case bad
  then have "traced c0 l (snd (call W (V k) c))" by (intro traced_call [OF assms(2)]) (simp add: assms(1))
  with bad traced_queries show ?thesis by auto
qed

lemma unless_found_traced:
  fixes W :: "('e, 'd, 'v) world"
  assumes "\<And>r. handle_change (V k :: ('d, 'v) call, r) = None" "traced c0 l c" "unless_found W w k bad m l c = Some (e, l', c')"
  shows "l' = l \<and> traced c0 l c'"
proof -
  have t: "traced c0 l (snd (call W (V k) c))" using traced_call [OF assms(2)] assms(1) by simp
  from assms(3) show ?thesis
    using t traced_queries [OF t log_error0_queries]
    by (auto simp: unless_found_def split_def Let_def bind_Some_iff split: if_splits)
qed

section \<open>Bocage, order and tree\<close>

lemma setup_traced:
  fixes W :: "('e, 'd, 'v) world"
  assumes "value_setup W w vo no_locals c = Some (e, l', c')"
  shows "(case e of Leave r \<Rightarrow> traced c l' c' | _ \<Rightarrow> traced c l' c' \<and> marpaValuep l' = 0)"
proof -
  let ?c = "snd (call W (R (Marpa_r_latest_earley_set (marpaRecognizerp w))) c)"
  let ?P0 = "\<lambda>l c'. traced c l c' \<and> marpaValuep l = 0 \<and> marpaTreep l = 0 \<and> marpaOrderp l = 0 \<and> marpaBocagep l = 0"
  let ?P1 = "\<lambda>l c'. traced c l c' \<and> marpaValuep l = 0 \<and> marpaTreep l = 0 \<and> marpaOrderp l = 0"
  let ?P2 = "\<lambda>l c'. traced c l c' \<and> marpaValuep l = 0 \<and> marpaTreep l = 0"
  let ?P3 = "\<lambda>l c'. traced c l c' \<and> marpaValuep l = 0"
  have start: "?P0 no_locals ?c"
  proof -
    have "traced c no_locals c"
      by (auto simp: traced_def no_locals_def stack_keeps_def live_def calls_since_def intro!: exI [of _ "[]"])
    then have "traced c no_locals ?c" by (rule traced_call) (simp)
    then show ?thesis by (simp add: no_locals_def)
  qed
  have b: "triple ?P0 (or_leave W w (Marpa_b_new r i) (\<lambda>i. i \<noteq> 0) (\<lambda>i l. l\<lparr>marpaBocagep := i\<rparr>)) ?P1 (traced c)"
    for r i
    by (rule tripleI, elim conjE, drule or_leave_made [where h = BocageHandle, rotated 5])
      (auto simp: live_def split: value_flow.splits)
  have o1: "triple ?P1 (\<lambda>l. or_leave W w (Marpa_o_new (marpaBocagep l)) (\<lambda>i. i \<noteq> 0) (\<lambda>i l. l\<lparr>marpaOrderp := i\<rparr>) l)
      ?P2 (traced c)"
    by (rule tripleI, elim conjE, drule or_leave_made [where h = OrderHandle, rotated 5])
      (auto simp: live_def split: value_flow.splits)
  have keep: "triple ?P2 (\<lambda>l. or_leave W w (k l) good (\<lambda>i l. l) l) ?P2 (traced c)"
    if "\<And>l r. handle_change (V (k l) :: ('d, 'v) call, r) = None" for k :: "_ \<Rightarrow> value_call" and good
    by (rule tripleI, elim conjE, drule or_leave_traced [OF that, rotated])
      (auto split: value_flow.splits)
  have find: "triple ?P2 (\<lambda>l. unless_found W w (k l) bad m l) ?P2 (traced c)"
    if "\<And>l r. handle_change (V (k l) :: ('d, 'v) call, r) = None" for k :: "_ \<Rightarrow> value_call" and bad m
    by (rule tripleI, elim conjE, drule unless_found_traced [OF that, rotated])
      (auto split: value_flow.splits)
  have t: "triple ?P2 (\<lambda>l. or_leave W w (Marpa_t_new (marpaOrderp l)) (\<lambda>i. i \<noteq> 0) (\<lambda>i l. l\<lparr>marpaTreep := i\<rparr>) l)
      ?P3 (traced c)"
    by (rule tripleI, elim conjE, drule or_leave_made [where h = TreeHandle, rotated 5])
      (auto simp: live_def split: value_flow.splits)
  have T: "triple ?P0 (\<lambda>l0 c1. and_then (or_leave W w (Marpa_b_new (marpaRecognizerp w) r) (\<lambda>i. i \<noteq> 0)
                  (\<lambda>i l. l\<lparr>marpaBocagep := i\<rparr>) l0 c1) (\<lambda>l c.
      and_then (or_leave W w (Marpa_o_new (marpaBocagep l)) (\<lambda>i. i \<noteq> 0) (\<lambda>i l. l\<lparr>marpaOrderp := i\<rparr>) l c) (\<lambda>l c.
      and_then (or_leave W w (Marpa_o_high_rank_only_set (marpaOrderp l) flag) (\<lambda>i. i = flag) (\<lambda>i l. l) l c) (\<lambda>l c.
      and_then (if orderByRankb vo
                then or_leave W w (Marpa_o_rank (marpaOrderp l)) (\<lambda>i. i \<noteq> - 2) (\<lambda>i l. l) l c
                else Some (Next, l, c)) (\<lambda>l c.
      and_then (if \<not> ambiguityb vo
                then unless_found W w (Marpa_o_ambiguity_metric (marpaOrderp l)) (\<lambda>i. 1 < i)
                       ''Ambiguous parse detected after bocage'' l c
                else Some (Next, l, c)) (\<lambda>l c.
      and_then (if \<not> nullb vo
                then unless_found W w (Marpa_o_is_null (marpaOrderp l)) (\<lambda>i. 1 \<le> i)
                       ''Null parse detected after bocage'' l c
                else Some (Next, l, c)) (\<lambda>l c.
      or_leave W w (Marpa_t_new (marpaOrderp l)) (\<lambda>i. i \<noteq> 0) (\<lambda>i l. l\<lparr>marpaTreep := i\<rparr>) l c)))))))
      ?P3 (traced c)" for r flag
    by (rule triple_seq [OF b triple_seq [OF o1 triple_seq [OF keep triple_seq [OF triple_if [OF keep triple_skip]
          triple_seq [OF triple_if [OF find triple_skip] triple_seq [OF triple_if [OF find triple_skip] t]]]]]])
      (simp_all)
  from tripleD [OF T start] assms show ?thesis by (simp add: value_setup_def split_def Let_def)
qed

section \<open>One step\<close>

abbreviation in_step :: "('e, 'd, 'v) wstate \<Rightarrow> ('e, 'd, 'v) value_locals \<Rightarrow> ('e, 'd, 'v) wstate \<Rightarrow> bool" where
  "in_step c0 l c \<equiv> traced c0 l c \<and> marpaValuep l \<noteq> 0 \<and> valueOutputp l \<noteq> None"

lemma live_update [simp]:
  "live (l\<lparr>valueOutputp := x\<rparr>) = live l" "live (l\<lparr>valueInputArraypp := p\<rparr>) = live l"
  "live (l\<lparr>genericStackp := sp\<rparr>) = live l"
  "stack_keeps (l\<lparr>valueOutputp := x\<rparr>) = stack_keeps l" "stack_keeps (l\<lparr>valueInputArraypp := p\<rparr>) = stack_keeps l"
  by (simp_all add: live_def stack_keeps_def)

lemma traced_update:
  assumes "traced c0 l c" "ext c' = ext c" "valueOutputp l \<noteq> None"
  shows "traced c0 (l\<lparr>valueOutputp := x\<rparr>) c'" "traced c0 (l\<lparr>valueInputArraypp := p\<rparr>) c'"
  using assms(1,3) by (auto intro!: traced_quiet [OF assms(1,2)] simp: traced_def [of c0 l c])

lemma callback_traced: "triple (in_step c0) (value_callback W w k ins m) (in_step c0) (traced c0)"
proof (rule tripleI)
  fix l c e l' c'
  assume P: "in_step c0 l c" and run: "value_callback W w k ins m l c = Some (e, l', c')"
  let ?c1 = "snd (call W (U k) c)"
  from run obtain p h where o: "stored_output (fst (call W (U k) c)) ins (hp ?c1) = Some (p, h)"
    and l': "l' = l\<lparr>valueOutputp := Some p\<rparr>"
    and e: "(e = Next \<and> c' = ?c1\<lparr>hp := h\<rparr>) \<or> (e = Leave MARPAWRAPPER_BOOL_FALSE \<and> log_error0 W w m (?c1\<lparr>hp := h\<rparr>) = Some c')"
    by (auto simp: value_callback_def split_def Let_def bind_Some_iff split: if_splits)
  have "traced c0 l ?c1" using P by (intro traced_call) (simp_all)
  then have T: "traced c0 l' (?c1\<lparr>hp := h\<rparr>)" unfolding l' using P by (intro traced_update) simp_all
  from e show "case e of Leave r \<Rightarrow> traced c0 l' c' | _ \<Rightarrow> in_step c0 l' c'"
  proof
    assume "e = Next \<and> c' = ?c1\<lparr>hp := h\<rparr>"
    with T P l' show ?thesis by simp
  next
    assume "e = Leave MARPAWRAPPER_BOOL_FALSE \<and> log_error0 W w m (?c1\<lparr>hp := h\<rparr>) = Some c'"
    with traced_queries [OF T log_error0_queries] show ?thesis by auto
  qed
qed

lemma store_traced: "triple (in_step c0) (store_result i) (in_step c0) (traced c0)"
proof (rule tripleI)
  fix l c e l' c'
  assume P: "in_step c0 l c" and run: "store_result i l c = Some (e, l', c')"
  from run obtain p r sp where s: "stack_set (genericStackp l) (int_to_uint i) p c = Some ((r, sp), c')"
    and l': "l' = l\<lparr>genericStackp := sp\<rparr>"
    by (auto simp: store_result_def bind_Some_iff Let_def)
  have "traced c0 l' c'" unfolding l' using stack_set_traced [OF _ s] P by blast
  with P show "case e of Leave r \<Rightarrow> traced c0 l' c' | _ \<Rightarrow> in_step c0 l' c'"
    by (simp add: l' split: value_flow.splits)
qed

lemma fetch_traced:
  "traced c0 l c \<Longrightarrow> fetch_inputs arrp i j n (genericStackp l) c = Some (sp, c')
     \<Longrightarrow> traced c0 (l\<lparr>genericStackp := sp\<rparr>) c'"
proof (induction n arbitrary: j l c)
  case 0
  then show ?case by (cases l) simp
next
  case (Suc n)
  then obtain p sp1 c1 h where g: "stack_get (genericStackp l) (to_uint (int_to_size i + j)) c = Some ((p, sp1), c1)"
    and f: "fetch_inputs arrp i (Suc j) n sp1 (c1\<lparr>hp := h\<rparr>) = Some (sp, c')"
    by (auto simp: bind_Some_iff)
  have "traced c0 (l\<lparr>genericStackp := sp1\<rparr>) (c1\<lparr>hp := h\<rparr>)" using stack_get_traced [OF Suc.prems(1) g] by simp
  from Suc.IH [OF this] f show ?case by simp
qed

lemma call_rule_traced: "triple (in_step c0) (call_rule W w vo i arrp n) (in_step c0) (traced c0)"
proof (rule tripleI)
  fix l c e l' c'
  assume P: "in_step c0 l c" and run: "call_rule W w vo i arrp n l c = Some (e, l', c')"
  then have "(e = Next \<and> l' = l \<and> c' = c)
      \<or> (\<exists>k ins. value_callback W w k ins ''valueRuleCallbackp() failure'' l c = Some (e, l', c'))"
    by (auto simp: call_rule_def bind_Some_iff split: if_splits)
  with P tripleD [OF callback_traced P] show "case e of Leave r \<Rightarrow> traced c0 l' c' | _ \<Rightarrow> in_step c0 l' c'" by auto
qed

lemma store_rule_traced: "triple (in_step c0) (store_rule i) (in_step c0) (traced c0)"
proof (rule tripleI)
  fix l c e l' c'
  assume P: "in_step c0 l c" and run: "store_rule i l c = Some (e, l', c')"
  from run obtain h where s: "store_result i (l\<lparr>valueInputArraypp := Null\<rparr>) (c\<lparr>hp := h\<rparr>) = Some (e, l', c')"
    by (auto simp: store_rule_def bind_Some_iff)
  have "in_step c0 (l\<lparr>valueInputArraypp := Null\<rparr>) (c\<lparr>hp := h\<rparr>)" using P by (auto intro: traced_update)
  from tripleD [OF store_traced this s] show "case e of Leave r \<Rightarrow> traced c0 l' c' | _ \<Rightarrow> in_step c0 l' c'" .
qed

lemma rule_traced: "triple (in_step c0) (step_rule W w vo r) (in_step c0) (traced c0)"
proof (rule tripleI)
  fix l c e l' c'
  assume P: "in_step c0 l c" and run: "step_rule W w vo r l c = Some (e, l', c')"
  from run obtain arrp h1 rule argFirst n result where
    alt: "(\<exists>c1. log_sys_error W w ''malloc()'' (c\<lparr>hp := h1\<rparr>) = Some c1 \<and> l' = l \<and> c' = c1 \<and> e = Leave MARPAWRAPPER_BOOL_FALSE)
     \<or> (\<exists>sp c1. fetch_inputs arrp argFirst 0 n (genericStackp l) (c\<lparr>hp := h1\<rparr>) = Some (sp, c1)
          \<and> and_then (call_rule W w vo rule arrp n (l\<lparr>valueInputArraypp := arrp, genericStackp := sp\<rparr>) c1)
              (store_rule result) = Some (e, l', c'))"
    unfolding step_rule_def by (simp add: bind_Some_iff Let_def split_def split: if_splits) blast+
  then show "case e of Leave r \<Rightarrow> traced c0 l' c' | _ \<Rightarrow> in_step c0 l' c'"
  proof
    assume "\<exists>c1. log_sys_error W w ''malloc()'' (c\<lparr>hp := h1\<rparr>) = Some c1 \<and> l' = l \<and> c' = c1 \<and> e = Leave MARPAWRAPPER_BOOL_FALSE"
    then have "queries (c\<lparr>hp := h1\<rparr>) c'" and e: "l' = l" "e = Leave MARPAWRAPPER_BOOL_FALSE"
      using log_sys_error_queries by blast+
    with P have "traced c0 l c'" by (intro traced_queries [of c0 l "c\<lparr>hp := h1\<rparr>" c']) simp_all
    with e show ?thesis by simp
  next
    assume "\<exists>sp c1. fetch_inputs arrp argFirst 0 n (genericStackp l) (c\<lparr>hp := h1\<rparr>) = Some (sp, c1)
          \<and> and_then (call_rule W w vo rule arrp n (l\<lparr>valueInputArraypp := arrp, genericStackp := sp\<rparr>) c1)
              (store_rule result) = Some (e, l', c')"
    then obtain sp c1 where fe: "fetch_inputs arrp argFirst 0 n (genericStackp l) (c\<lparr>hp := h1\<rparr>) = Some (sp, c1)"
      and m: "and_then (call_rule W w vo rule arrp n (l\<lparr>valueInputArraypp := arrp, genericStackp := sp\<rparr>) c1)
              (store_rule result) = Some (e, l', c')" by blast
    have "traced c0 (l\<lparr>genericStackp := sp\<rparr>) c1" using fetch_traced [OF _ fe] P by simp
    from traced_update(2) [OF this refl, of arrp] P
    have "traced c0 (l\<lparr>genericStackp := sp, valueInputArraypp := arrp\<rparr>) c1" by simp
    also have "l\<lparr>genericStackp := sp, valueInputArraypp := arrp\<rparr> = l\<lparr>valueInputArraypp := arrp, genericStackp := sp\<rparr>"
      by simp
    finally have "in_step c0 (l\<lparr>valueInputArraypp := arrp, genericStackp := sp\<rparr>) c1" using P by simp
    from tripleD [OF triple_seq [OF call_rule_traced store_rule_traced] this m] show ?thesis .
  qed
qed

lemma symbol_traced: "triple (in_step c0) (step_symbol W w k i j m) (in_step c0) (traced c0)"
proof -
  let ?f = "\<lambda>l c. case k of None \<Rightarrow> Some (Next, l, c)
        | Some f \<Rightarrow> do {
            _ \<leftarrow> require (0 \<le> i);
            p \<leftarrow> arr_get (marpaWrapperSymbolpp w) (nat i) (hp c);
            value_callback W w (f p) [] m l c
          }"
  have "triple (in_step c0) ?f (in_step c0) (traced c0)"
  proof (rule tripleI)
    fix l c e l' c'
    assume P: "in_step c0 l c" and run: "?f l c = Some (e, l', c')"
    then have "(e = Next \<and> l' = l \<and> c' = c) \<or> (\<exists>u. value_callback W w u [] m l c = Some (e, l', c'))"
      by (auto simp: bind_Some_iff split: option.splits)
    with P tripleD [OF callback_traced P] show "case e of Leave r \<Rightarrow> traced c0 l' c' | _ \<Rightarrow> in_step c0 l' c'" by auto
  qed
  from triple_seq [OF this store_traced [of c0 j]] show ?thesis by (simp add: step_symbol_def [abs_def])
qed

lemma drop_traced: "triple (in_step c0) (drop_output W so f) (in_step c0) (traced c0)"
proof (rule tripleI)
  fix l c e l' c'
  assume P: "in_step c0 l c" and run: "drop_output W so f l c = Some (e, l', c')"
  show "case e of Leave r \<Rightarrow> traced c0 l' c' | _ \<Rightarrow> in_step c0 l' c'"
  proof (cases "valueOutputp l = Some Null")
    case True
    with run P show ?thesis by (auto simp: drop_output_def split: value_flow.splits)
  next
    case False
    with run obtain v x where cb: "snd (marpaWrapperStackFreeCallback W (stackElementFreeCallbackp so) v (Some (ext c))) = Some x"
      and r: "(l' = l \<and> c' = c\<lparr>ext := x\<rparr>) \<or> (\<exists>h. l' = l\<lparr>valueOutputp := Some Null\<rparr> \<and> c' = c\<lparr>ext := x, hp := h\<rparr>)"
      by (auto simp: drop_output_def bind_Some_iff Let_def split_def split: if_splits)
    have "only_stack_calls (Some (ext c)) (Some x)" using free_callback_calls [of "Some (ext c)"] cb by metis
    then obtain t where "calls_since c (c\<lparr>ext := x\<rparr>) t" "no_handles t"
      by (auto simp: only_stack_calls_def calls_since_def stack_no_handles)
    moreover have "stack_keeps l" using P by (simp add: traced_def)
    ultimately have T: "traced c0 l (c\<lparr>ext := x\<rparr>)" using P by (blast intro: traced_no_handles)
    have T2: "traced c0 (l\<lparr>valueOutputp := Some Null\<rparr>) (c\<lparr>ext := x, hp := h\<rparr>)" for h
      using P by (intro traced_update(1) [OF T]) auto
    from r T T2 P show ?thesis by (auto split: value_flow.splits)
  qed
qed

lemma step_traced:
  "triple (\<lambda>l c. traced c0 l c \<and> marpaValuep l \<noteq> 0) (value_step W w vo so) (in_step c0) (traced c0)"
proof (rule tripleI)
  fix l0 c1 e l' c'
  assume P: "traced c0 l0 c1 \<and> marpaValuep l0 \<noteq> 0" and run: "value_step W w vo so l0 c1 = Some (e, l', c')"
  let ?k = "V (Marpa_v_step (marpaValuep l0))" and ?l = "l0\<lparr>valueOutputp := Some Null\<rparr>"
  let ?r = "fst (call W ?k c1)" and ?c = "snd (call W ?k c1)"
  from P obtain u where u: "calls_since c0 c1 u" "nest u [] = Some (live l0)" "stack_keeps l0" by (auto simp: traced_def)
  have "nest (u @ [(?k, ?r)]) [] = Some (live ?l)"
    using u(2) by (simp add: nest_append live_def)
  moreover have "stepped (u @ [(?k, ?r)])" by (auto simp: stepped_def)
  moreover have "calls_since c0 ?c (u @ [(?k, ?r)])" by (rule calls_since_trans [OF u(1) calls_since_call])
  moreover have "stack_keeps ?l" using u(3) by simp
  ultimately have "traced c0 ?l ?c" unfolding traced_def by blast
  with P have I: "in_step c0 ?l ?c" by simp
  have tok: "triple (in_step c0) (step_token W w vo ?r) (in_step c0) (traced c0)"
    and nul: "triple (in_step c0) (step_nulling W w vo ?r) (in_step c0) (traced c0)"
    using symbol_traced by (auto simp: step_token_def step_nulling_def triple_def bind_Some_iff; blast)+
  have d: "triple (in_step c0) (drop_output W so f) (in_step c0) (traced c0)" for f by (rule drop_traced)
  note [simp] = value_step_def split_def Let_def
  consider (rule) "ret ?r = MARPA_STEP_RULE" "and_then (step_rule W w vo ?r ?l ?c) (drop_output W so Next) = Some (e, l', c')"
    | (token) "and_then (step_token W w vo ?r ?l ?c) (drop_output W so Next) = Some (e, l', c')"
    | (nulling) "and_then (step_nulling W w vo ?r ?l ?c) (drop_output W so Next) = Some (e, l', c')"
    | (other) f where "drop_output W so f ?l ?c = Some (e, l', c')"
    using run by (auto split: if_splits)
  then show "case e of Leave r \<Rightarrow> traced c0 l' c' | _ \<Rightarrow> in_step c0 l' c'"
  proof cases
    case rule
    show ?thesis by (rule tripleD [OF triple_seq [OF rule_traced d] I rule(2)])
  next
    case token
    show ?thesis by (rule tripleD [OF triple_seq [OF tok d] I token])
  next
    case nulling
    show ?thesis by (rule tripleD [OF triple_seq [OF nul d] I nulling])
  next
    case other
    show ?thesis by (rule tripleD [OF d I other])
  qed
qed

section \<open>The loops\<close>

lemma steps_traced:
  assumes "value_steps W w vo so l c = Some (e, l', c')" "traced c0 l c" "marpaValuep l \<noteq> 0"
  shows "case e of Leave r \<Rightarrow> traced c0 l' c' | _ \<Rightarrow> in_step c0 l' c'"
proof -
  let ?P = "\<lambda>W w vo so l c (e, l', c'). traced c0 l c \<longrightarrow> marpaValuep l \<noteq> 0 \<longrightarrow>
     (case e of Leave r \<Rightarrow> traced c0 l' c' | _ \<Rightarrow> in_step c0 l' c')"
  have "?P W w vo so l c (e, l', c')"
  proof (rule value_steps.raw_induct [OF _ assms(1)])
    fix f W w vo so l c r
    assume IH: "\<And>W w vo so l c r. f W w vo so l c = Some r \<Longrightarrow> ?P W w vo so l c r"
      and run: "do { (e, l1, c1) \<leftarrow> value_step W w vo so l c;
                     if e = Next then f W w vo so l1 c1 else Some (e, l1, c1) } = Some r"
    from run obtain e l1 c1 where s: "value_step W w vo so l c = Some (e, l1, c1)"
      and n: "(if e = Next then f W w vo so l1 c1 else Some (e, l1, c1)) = Some r"
      by (auto simp: bind_Some_iff)
    obtain e2 l2 c2 where r: "r = (e2, l2, c2)" by (metis prod_cases3)
    show "?P W w vo so l c r"
      unfolding r prod.case
    proof (intro impI)
      assume P: "traced c0 l c" "marpaValuep l \<noteq> 0"
      with tripleD [OF step_traced _ s] have S: "case e of Leave r \<Rightarrow> traced c0 l1 c1 | _ \<Rightarrow> in_step c0 l1 c1" by blast
      show "case e2 of Leave r \<Rightarrow> traced c0 l2 c2 | _ \<Rightarrow> in_step c0 l2 c2"
      proof (cases "e = Next")
        case True
        with n r IH [of W w vo so l1 c1 r] S show ?thesis by simp
      next
        case False
        with n r have "e = e2" "l1 = l2" "c1 = c2" by simp_all
        with S show ?thesis by auto
      qed
    qed
  qed
  with assms(2,3) show ?thesis by simp
qed

lemma result_traced: "triple (in_step c0) (give_result W w vo) (in_step c0) (traced c0)"
proof (rule tripleI)
  fix l c e l' c'
  assume P: "in_step c0 l c" and run: "give_result W w vo l c = Some (e, l', c')"
  show "case e of Leave r \<Rightarrow> traced c0 l' c' | _ \<Rightarrow> in_step c0 l' c'"
  proof (cases "valueResultCallbackp vo")
    case False
    with P run show ?thesis by (auto simp: give_result_def)
  next
    case True
    with run obtain p sp c1 where g: "stack_get (genericStackp l) 0 c = Some ((p, sp), c1)"
      and l': "l' = l\<lparr>genericStackp := sp\<rparr>"
      and r: "c' = snd (call W (U (ValueResultCallback (value_at (hp c1) p))) c1)
        \<or> log_error0 W w ''valueResultCallbackp() failure'' (snd (call W (U (ValueResultCallback (value_at (hp c1) p))) c1)) = Some c'"
      by (auto simp: give_result_def bind_Some_iff Let_def split_def split: if_splits)
    have "traced c0 l' c1" unfolding l' using stack_get_traced [OF _ g] P by blast
    then have T: "traced c0 l' (snd (call W (U (ValueResultCallback (value_at (hp c1) p))) c1))"
      by (rule traced_call) (simp)
    with r traced_queries [OF T log_error0_queries] have "traced c0 l' c'" by auto
    with P show ?thesis by (simp add: l' split: value_flow.splits)
  qed
qed

lemma start_traced:
  fixes W :: "('e, 'd, 'v) world"
  shows "triple (\<lambda>l c. traced c0 l c \<and> marpaValuep l = 0) (start_tree W w so)
    (\<lambda>l c. traced c0 l c \<and> marpaValuep l \<noteq> 0) (traced c0)"
proof -
  let ?H = "\<lambda>l c. traced c0 l c \<and> marpaValuep l = 0" and ?P = "\<lambda>l c. traced c0 l c \<and> marpaValuep l \<noteq> 0"
  have new: "triple ?H (\<lambda>l. or_leave W w (Marpa_v_new (marpaTreep l)) (\<lambda>i. i \<noteq> 0) (\<lambda>i l. l\<lparr>marpaValuep := i\<rparr>) l)
      ?P (traced c0)"
    by (rule tripleI, elim conjE, drule or_leave_made [where h = ValuatorHandle, rotated 5])
      (auto simp: live_def split: value_flow.splits)
  have force: "triple ?P (\<lambda>l. or_leave W w (Marpa_v_valued_force (marpaValuep l)) (\<lambda>i. \<not> i < 0) (\<lambda>i l. l) l)
      ?P (traced c0)"
  proof (rule tripleI)
    fix l c e l' c'
    assume P: "?P l c"
      and run: "or_leave W w (Marpa_v_valued_force (marpaValuep l)) (\<lambda>i. \<not> i < 0) (\<lambda>i l. l) l c = Some (e, l', c')"
    have "handle_change (V (Marpa_v_valued_force (marpaValuep l)) :: ('d, 'v) call, r) = None" for r
      by (simp)
    from or_leave_traced [OF this _ run] P show "case e of Leave r \<Rightarrow> traced c0 l' c' | _ \<Rightarrow> ?P l' c'"
      by (auto split: value_flow.splits)
  qed
  have stack: "triple ?P (\<lambda>l c. do {
       (sp, c1) \<leftarrow> stack_new W w so c;
       Some (if sp = None then Leave MARPAWRAPPER_BOOL_FALSE else Next, l\<lparr>genericStackp := sp\<rparr>, c1)
     }) ?P (traced c0)"
  proof (rule tripleI)
    fix l c e l' c'
    assume P: "?P l c"
      and run: "do { (sp, c1) \<leftarrow> stack_new W w so c;
         Some (if sp = None then Leave MARPAWRAPPER_BOOL_FALSE else Next, l\<lparr>genericStackp := sp\<rparr>, c1) } = Some (e, l', c')"
    from run obtain sp where n: "stack_new W w so c = Some (sp, c')" "l' = l\<lparr>genericStackp := sp\<rparr>"
      by (auto simp: bind_Some_iff)
    with stack_new_traced [OF _ n(1), of c0 l] P show "case e of Leave r \<Rightarrow> traced c0 l' c' | _ \<Rightarrow> ?P l' c'"
      by (auto split: value_flow.splits)
  qed
  show ?thesis
    using triple_seq [OF new triple_seq [OF force stack]] by (simp add: start_tree_def [abs_def])
qed

lemma end_tree_traced:
  "triple (in_step c0) (end_tree W) (\<lambda>l c. traced c0 l c \<and> marpaValuep l = 0) (traced c0)"
proof (rule tripleI)
  fix l c e l' c'
  assume P: "in_step c0 l c" and run: "end_tree W l c = Some (e, l', c')"
  from run obtain r c1 where d: "stack_destroy (genericStackp l) c = Some (r, c1)"
    and l': "l' = l\<lparr>genericStackp := None, marpaValuep := 0\<rparr>" "e = Next"
    and c': "c' = snd (call W (V (Marpa_v_unref (marpaValuep l))) c1)"
    by (auto simp: end_tree_def bind_Some_iff Let_def)
  have T: "traced c0 (l\<lparr>genericStackp := None\<rparr>) c1" using stack_destroy_traced [OF _ d] P by blast
  have "traced c0 l' c'"
    unfolding c' using P
    by (intro traced_released [OF T]) (auto simp: l' live_def stack_keeps_def)
  then show "case e of Leave r \<Rightarrow> traced c0 l' c' | _ \<Rightarrow> traced c0 l' c' \<and> marpaValuep l' = 0"
    by (simp add: l')
qed

lemma trees_traced:
  assumes "value_trees W w vo so l c = Some (e, l', c')" "traced c0 l c" "marpaValuep l = 0"
  shows "traced c0 l' c'"
proof -
  let ?P = "\<lambda>W w vo so l c (e, l', c'). traced c0 l c \<longrightarrow> marpaValuep l = 0 \<longrightarrow> traced c0 l' c'"
  have "?P W w vo so l c (e, l', c')"
  proof (rule value_trees.raw_induct [OF _ assms(1)])
    fix f and W :: "('a, 'b, 'c) world" and w vo so l c r
    assume IH: "\<And>W w vo so l c r. f W w vo so l c = Some r \<Longrightarrow> ?P W w vo so l c r"
      and run: "(let (r, c1) = call W (V (Marpa_t_next (marpaTreep l))) c in
      if ret r < 0 then Some (Leave MARPAWRAPPER_BOOL_TRUE, l, c1)
      else do {
        (e, l2, c2) \<leftarrow>
          and_then (start_tree W w so l c1) (\<lambda>l c.
          and_then (value_steps W w vo so l c) (\<lambda>l c.
          and_then (give_result W w vo l c) (end_tree W)));
        (case e of Leave rc \<Rightarrow> Some (e, l2, c2) | _ \<Rightarrow> f W w vo so l2 c2)
      }) = Some r"
    let ?c = "snd (call W (V (Marpa_t_next (marpaTreep l))) c)"
    obtain e2 l2 c2 where r: "r = (e2, l2, c2)" by (metis prod_cases3)
    show "?P W w vo so l c r"
      unfolding r prod.case
    proof (intro impI)
      assume P: "traced c0 l c" "marpaValuep l = 0"
      then have T: "traced c0 l ?c" by (intro traced_call) (simp_all)
      have steps: "triple (\<lambda>l c. traced c0 l c \<and> marpaValuep l \<noteq> 0) (value_steps W w vo so) (in_step c0) (traced c0)"
        by (rule tripleI) (blast dest: steps_traced)
      have one: "triple (\<lambda>l c. traced c0 l c \<and> marpaValuep l = 0) (\<lambda>l c. and_then (start_tree W w so l c) (\<lambda>l c.
          and_then (value_steps W w vo so l c) (\<lambda>l c.
          and_then (give_result W w vo l c) (end_tree W)))) (\<lambda>l c. traced c0 l c \<and> marpaValuep l = 0) (traced c0)"
        by (rule triple_seq [OF start_traced triple_seq [OF steps triple_seq [OF result_traced end_tree_traced]]])
      show "traced c0 l2 c2"
      proof (cases "ret (fst (call W (V (Marpa_t_next (marpaTreep l))) c)) < 0")
        case True
        with run r have "l = l2 \<and> ?c = c2" by (auto simp: split_def Let_def)
        with T show ?thesis by metis
      next
        case False
        obtain x y where x: "call W (V (Marpa_t_next (marpaTreep l))) c = (x, y)" by (rule prod.exhaust)
        from run False obtain e3 l3 c3 where m: "and_then (start_tree W w so l y) (\<lambda>l c.
          and_then (value_steps W w vo so l c) (\<lambda>l c.
          and_then (give_result W w vo l c) (end_tree W))) = Some (e3, l3, c3)"
          and n: "(case e3 of Leave rc \<Rightarrow> Some (e3, l3, c3) | _ \<Rightarrow> f W w vo so l3 c3) = Some r"
          by (auto simp: x Let_def bind_Some_iff)
        have S: "case e3 of Leave r \<Rightarrow> traced c0 l3 c3 | _ \<Rightarrow> traced c0 l3 c3 \<and> marpaValuep l3 = 0"
          using tripleD [OF one _ m] T P(2) by (simp add: x)
        show ?thesis
        proof (cases "\<exists>rc. e3 = Leave rc")
          case True
          with n r S show ?thesis by auto
        next
          case False
          with n S have "f W w vo so l3 c3 = Some r" "traced c0 l3 c3" "marpaValuep l3 = 0"
            by (auto split: value_flow.splits)
          with IH [of W w vo so l3 c3 r] r show ?thesis by simp
        qed
      qed
    qed
  qed
  with assms(2,3) show ?thesis by simp
qed

section \<open>The end label\<close>

lemma unref_one:
  fixes W :: "('e, 'd, 'v) world"
  assumes "calls_since c0 c u" "nest u [] = Some ((if v \<noteq> 0 then [h v] else []) @ st)" "stepped u"
    "\<And>r. handle_change (V k :: ('d, 'v) call, r) = Some (Inr (h v))"
  obtains u' where "calls_since c0 (if v \<noteq> 0 then snd (call W (V k) c) else c) u'" "nest u' [] = Some st" "stepped u'"
proof (cases "v = 0")
  case True
  with assms that [of u] show thesis by simp
next
  case False
  have "nest (u @ [(V k, fst (call W (V k) c))]) [] = Some st" using False assms(2,4) by (simp add: nest_append)
  with False assms(3) calls_since_trans [OF assms(1) calls_since_call] show thesis
    by (intro that [of "u @ [(V k, fst (call W (V k) c))]"]) simp_all
qed

lemma end_traced:
  assumes "traced c0 l c" "value_end W rcb l c = Some (rc, c')"
  obtains t where "calls_since c0 c' t" "nest t [] = Some []" "stepped t" "rc = rcb"
proof -
  from assms(2) obtain p h1 h2 c2 where o: "valueOutputp l = Some p"
    and s: "(if genericStackp l \<noteq> None
            then do { (sp, c2) \<leftarrow> stack_destroy (genericStackp l) (c\<lparr>hp := h2\<rparr>); Some c2 }
            else Some (c\<lparr>hp := h2\<rparr>)) = Some c2"
    and c': "c' = unref_all W l c2"
    and rc: "rc = rcb"
    unfolding value_end_def bind_Some_iff by auto
  have "traced c0 (l\<lparr>genericStackp := None\<rparr>) c2"
  proof (cases "genericStackp l")
    case None
    with s have "c2 = c\<lparr>hp := h2\<rparr>" by simp
    moreover have "l\<lparr>genericStackp := None\<rparr> = l" using None by (cases l) simp
    ultimately show ?thesis using assms(1) by simp
  next
    case (Some x)
    with s obtain sp where "stack_destroy (genericStackp l) (c\<lparr>hp := h2\<rparr>) = Some (sp, c2)"
      by (auto simp: bind_Some_iff)
    from stack_destroy_traced [OF _ this] assms(1) show ?thesis by simp
  qed
  then obtain u where u: "calls_since c0 c2 u" "nest u [] = Some (live l)" "stepped u"
    unfolding traced_def using o by auto
  obtain u3 where u3: "calls_since c0 (if marpaValuep l \<noteq> 0 then snd (call W (V (Marpa_v_unref (marpaValuep l))) c2) else c2) u3"
    "nest u3 [] = Some ((if marpaTreep l \<noteq> 0 then [TreeHandle (marpaTreep l)] else [])
     @ (if marpaOrderp l \<noteq> 0 then [OrderHandle (marpaOrderp l)] else [])
     @ (if marpaBocagep l \<noteq> 0 then [BocageHandle (marpaBocagep l)] else []))" "stepped u3"
    by (rule unref_one [where W = W and k = "Marpa_v_unref (marpaValuep l)" and h = ValuatorHandle and v = "marpaValuep l", OF u(1) u(2) [unfolded live_def] u(3)]) (simp, blast)
  obtain u4 where u4: "calls_since c0 (if marpaTreep l \<noteq> 0 then snd (call W (V (Marpa_t_unref (marpaTreep l)))
      (if marpaValuep l \<noteq> 0 then snd (call W (V (Marpa_v_unref (marpaValuep l))) c2) else c2))
      else (if marpaValuep l \<noteq> 0 then snd (call W (V (Marpa_v_unref (marpaValuep l))) c2) else c2)) u4"
    "nest u4 [] = Some ((if marpaOrderp l \<noteq> 0 then [OrderHandle (marpaOrderp l)] else [])
     @ (if marpaBocagep l \<noteq> 0 then [BocageHandle (marpaBocagep l)] else []))" "stepped u4"
    by (rule unref_one [where W = W and k = "Marpa_t_unref (marpaTreep l)" and h = TreeHandle and v = "marpaTreep l", OF u3]) (simp, blast)
  let ?c3 = "if marpaValuep l \<noteq> 0 then snd (call W (V (Marpa_v_unref (marpaValuep l))) c2) else c2"
  let ?c4 = "if marpaTreep l \<noteq> 0 then snd (call W (V (Marpa_t_unref (marpaTreep l))) ?c3) else ?c3"
  let ?c5 = "if marpaOrderp l \<noteq> 0 then snd (call W (V (Marpa_o_unref (marpaOrderp l))) ?c4) else ?c4"
  obtain u5 where u5: "calls_since c0 ?c5 u5"
    "nest u5 [] = Some (if marpaBocagep l \<noteq> 0 then [BocageHandle (marpaBocagep l)] else [])" "stepped u5"
    by (rule unref_one [where W = W and k = "Marpa_o_unref (marpaOrderp l)" and h = OrderHandle and v = "marpaOrderp l", OF u4])
      (simp, blast)
  have b: "nest u5 [] = Some ((if marpaBocagep l \<noteq> 0 then [BocageHandle (marpaBocagep l)] else []) @ [])"
    using u5(2) by simp
  obtain u6 where "calls_since c0 (if marpaBocagep l \<noteq> 0 then snd (call W (V (Marpa_b_unref (marpaBocagep l))) ?c5) else ?c5) u6"
    "nest u6 [] = Some []" "stepped u6"
    by (rule unref_one [where W = W and k = "Marpa_b_unref (marpaBocagep l)" and h = BocageHandle and v = "marpaBocagep l",
          OF u5(1) b u5(3)]) (simp, blast)
  then have "calls_since c0 (unref_all W l c2) u6" "nest u6 [] = Some []" "stepped u6"
    by (simp_all only: unref_all_def Let_def)
  with that c' rc show thesis by metis
qed

lemma vb_traced:
  assumes "marpaWrapper_vb W wp vop sop c = Some (rc, c')"
  obtains t where "calls_since c c' t" "nest t [] = Some []" "stepped t"
proof -
  have leaves: "(case e of Leave r \<Rightarrow> f r | _ \<Rightarrow> None) = Some y \<longleftrightarrow> (\<exists>r. e = Leave r \<and> f r = Some y)"
    for e and f :: "int \<Rightarrow> 'x option" and y by (cases e) auto
  have none: "value_end W b no_locals d = None" for b d
    by (simp add: value_end_def no_locals_def)
  from assms obtain w so vo e l c1 rcb
    where m: "and_then (value_setup W w vo no_locals c) (value_trees W w vo so) = Some (e, l, c1)"
      and e: "value_end W rcb l c1 = Some (rc, c')"
    by (auto simp: marpaWrapper_vb_def none bind_Some_iff leaves split: option.split_asm if_split_asm)
  from m obtain e1 l1 c2 where s: "value_setup W w vo no_locals c = Some (e1, l1, c2)"
    and r: "(case e1 of Leave r \<Rightarrow> Some (e1, l1, c2) | _ \<Rightarrow> value_trees W w vo so l1 c2) = Some (e, l, c1)"
    by (auto simp: and_then_def bind_Some_iff)
  note S = setup_traced [OF s]
  have "traced c l c1"
  proof (cases "\<exists>r. e1 = Leave r")
    case True
    with r S show ?thesis by auto
  next
    case False
    with r S have "value_trees W w vo so l1 c2 = Some (e, l, c1)" "traced c l1 c2" "marpaValuep l1 = 0"
      by (auto split: value_flow.splits)
    then show ?thesis by (rule trees_traced)
  qed
  from end_traced [OF this e] that show thesis by metis
qed

end
