(* ===== verification/ValueHeap.thy ===== *)
theory ValueHeap
  imports ValueTrace
begin

text \<open>
  The memory of \<open>marpaWrapper_vb\<close>. Beside the caller's blocks \<open>g\<close> the evaluation owns the generic
  stack, the array of inputs of the rule callback and the value a callback returned. The lemmas
  follow these blocks through the phases, together with the content of the stack: a total map from
  indices to values, \<open>None\<close> for a \<open>NULL\<close> pointer.
\<close>

section \<open>The stack beside the rest of the heap\<close>

definition holds ::
  "('e, 'd, 'v) world \<Rightarrow> ('e, 'd, 'v) value_stack option \<Rightarrow> ('d, 'v) obj heap \<Rightarrow> (nat \<Rightarrow> 'v option)
     \<Rightarrow> (nat \<rightharpoonup> ('d, 'v) obj block) \<Rightarrow> bool" where
  "holds W sp h m f \<longleftrightarrow> keeps_calls sp \<and>
     (case sp of
        None \<Rightarrow> store h = f \<and> heap_ok h \<and> m = (\<lambda>_. None)
      | Some s \<Rightarrow> (\<exists>xs. stack_rep h s (map (map_option ValueObj) xs) f \<and> m = nth_or None xs)
          \<and> optionGrowOnSeti s \<and> optionGrowOnGeti s
          \<and> (\<exists>b. copyCallbackp s = Some (marpaWrapperStackCopyCallback W b)))"

lemma holds_ok: "holds W sp h m f \<Longrightarrow> heap_ok h"
  by (auto simp: holds_def dest: stack_repD split: option.splits)

lemma holds_frame: "holds W sp h m f \<Longrightarrow> f a = Some b \<Longrightarrow> store h a = Some b"
  by (auto simp: holds_def dest: stack_rep_frame split: option.splits)

lemma holds_part: "holds W sp h m f \<Longrightarrow> f a = store h a \<or> f a = None"
  using holds_frame [of W sp h m f a] by (cases "f a") auto

lemma holds_change:
  assumes H: "holds W sp h m f" and ok: "heap_ok h'"
    and ch: "\<And>a. (f a = store h a \<and> f' a = store h' a) \<or> (f a \<noteq> store h a \<and> f' a = None \<and> store h' a = store h a)"
  shows "holds W sp h' m f'"
proof (cases sp)
  case None
  with H ch have "store h' = f'" by (auto simp: holds_def fun_eq_iff)
  with H None ok show ?thesis by (simp add: holds_def)
next
  case (Some s)
  with H stack_rep_change [OF _ ok ch] show ?thesis by (auto simp: holds_def)
qed

lemma holds_new:
  assumes H: "holds W sp h m f"
  shows "holds W sp (granted b h) m (f(fresh h \<mapsto> b))" "holds W sp (snd (take_block b h)) m (f(fresh h \<mapsto> b))"
    "f (fresh h) = None"
proof -
  note ok = holds_ok [OF H] and part = holds_part [OF H]
  show n: "f (fresh h) = None" using part [of "fresh h"] ok by auto
  have t: "heap_ok (snd (take_block b h))" using ok by (auto simp: heap_ok_def take_block_def)
  have ch: "(f a = store h a \<and> (f(fresh h \<mapsto> b)) a = ((store h)(fresh h \<mapsto> b)) a)
      \<or> (f a \<noteq> store h a \<and> (f(fresh h \<mapsto> b)) a = None \<and> ((store h)(fresh h \<mapsto> b)) a = store h a)" for a
    using part [of a] ok n by (cases "a = fresh h") auto
  show "holds W sp (granted b h) m (f(fresh h \<mapsto> b))"
    by (rule holds_change [OF H heap_ok_granted [OF ok]]) (use ch in simp)
  show "holds W sp (snd (take_block b h)) m (f(fresh h \<mapsto> b))"
    by (rule holds_change [OF H t]) (use ch in \<open>simp add: take_block_def\<close>)
qed

lemma holds_drop:
  assumes "holds W sp h m f" "f a \<noteq> None"
  shows "holds W sp (drop_block a h) m (f(a := None))"
proof (rule holds_change [OF assms(1)])
  show "heap_ok (drop_block a h)" using holds_ok [OF assms(1)] by (rule heap_ok_drop_block)
  show "(f x = store h x \<and> (f(a := None)) x = store (drop_block a h) x)
    \<or> (f x \<noteq> store h x \<and> (f(a := None)) x = None \<and> store (drop_block a h) x = store h x)" for x
    using holds_part [OF assms(1), of x] assms(2) by (cases "x = a") auto
qed

lemma holds_put:
  assumes "holds W sp h m f" "f a \<noteq> None"
  shows "holds W sp (set_block a b h) m (f(a \<mapsto> b))"
proof (rule holds_change [OF assms(1)])
  have "store h a \<noteq> None" using assms(2) holds_part [OF assms(1), of a] by metis
  then show "heap_ok (set_block a b h)" using holds_ok [OF assms(1)] by (intro heap_ok_set_block)
  show "(f x = store h x \<and> (f(a \<mapsto> b)) x = store (set_block a b h) x)
    \<or> (f x \<noteq> store h x \<and> (f(a \<mapsto> b)) x = None \<and> store (set_block a b h) x = store h x)" for x
    using holds_part [OF assms(1), of x] assms(2) by (cases "x = a") auto
qed

lemma holds_same:
  assumes "holds W sp h m f" "same_store h h'"
  shows "holds W sp h' m f"
proof (rule holds_change [OF assms(1)])
  show "heap_ok h'" using assms(2) holds_ok [OF assms(1)] by (simp add: same_store_def)
  show "(f x = store h x \<and> f x = store h' x) \<or> (f x \<noteq> store h x \<and> f x = None \<and> store h' x = store h x)" for x
    using holds_part [OF assms(1), of x] assms(2) by (auto simp: same_store_def)
qed

section \<open>Growth leaves the elements where they are\<close>

text \<open>The objects of \<open>h\<close> are in \<open>h'\<close> as they were.\<close>

definition keeps_objects :: "'o heap \<Rightarrow> 'o heap \<Rightarrow> bool" where
  "keeps_objects h h' \<longleftrightarrow> (heap_ok h \<longrightarrow> heap_ok h' \<and> (\<forall>p v. obj_at h p = Some v \<longrightarrow> obj_at h' p = Some v))"

lemma keeps_objects_refl [simp]: "keeps_objects h h"
  by (simp add: keeps_objects_def)

lemma keeps_objects_trans: "keeps_objects h h1 \<Longrightarrow> keeps_objects h1 h2 \<Longrightarrow> keeps_objects h h2"
  by (simp add: keeps_objects_def)

lemma arr_put_objects: "arr_put p i q h = Some h' \<Longrightarrow> keeps_objects h h'"
  by (auto simp: keeps_objects_def arr_put_Some obj_at_Some heap_ok_set_block)

lemma arr_clear_objects: "arr_clear p i n h = Some h' \<Longrightarrow> keeps_objects h h'"
proof (induction n arbitrary: i h)
  case (Suc n)
  then obtain h1 where "arr_put p i Null h = Some h1" "arr_clear p (Suc i) n h1 = Some h'"
    by (auto simp: bind_Some_iff)
  with Suc.IH [OF this(2)] show ?case by (blast intro: keeps_objects_trans arr_put_objects)
qed simp

lemma arr_realloc_objects:
  assumes "arr_realloc p n h = Some (q, h')"
  shows "keeps_objects h h'"
  unfolding keeps_objects_def
proof (intro impI conjI allI)
  assume ok: "heap_ok h"
  show "heap_ok h'"
    using assms ok by (cases p) (auto simp: arr_realloc_def malloc_eq Let_def heap_ok_drop_block split: option.splits if_splits)
  fix r v
  assume "obj_at h r = Some v"
  then obtain e where e: "r = Ref e" "store h e = Some (Obj v)" by (auto simp: obj_at_Some)
  then have "e \<noteq> fresh h" using ok by auto
  with assms e show "obj_at h' r = Some v"
    by (cases p) (auto simp: arr_realloc_def malloc_eq Let_def split: option.splits block.splits if_splits)
qed

lemma grow_bufpp_objects:
  assumes run: "grow_bufpp s c = Some (ok, s', c')"
  shows "keeps_objects (hp c) (hp c')"
proof -
  let ?n = "to_size (allocSizei s * 2)"
  obtain p h1 where p: "arr_realloc (bufpp s) (to_size (?n * PTR_BYTES) div PTR_BYTES) (hp c) = Some (p, h1)"
    using run by (auto simp: grow_bufpp_def Let_def run_simps)
  with run have "hp c' = h1 \<or> arr_clear p (allocSizei s) (?n - allocSizei s) h1 = Some (hp c')"
    by (auto simp: grow_bufpp_def Let_def run_simps split: if_splits)
  with arr_realloc_objects [OF p] show ?thesis by (auto dest: arr_clear_objects keeps_objects_trans)
qed

lemma push_Null_objects:
  assumes "push_onto s Null c = Some (r, s', c')"
  shows "keeps_objects (hp c) (hp c')"
  using assms by (auto simp: push_onto_def run_simps intro: arr_put_objects)

lemma pushi_Null_objects:
  assumes run: "pushi s Null c = Some (r, s', c')"
  shows "keeps_objects (hp c) (hp c')"
proof (cases "allocSizei s \<le> stackSizei s")
  case False
  with run show ?thesis by (simp add: pushi_def push_Null_objects)
next
  case True
  with run obtain ok s1 c1 where g: "grow_bufpp s c = Some (ok, s1, c1)"
    and "if ok then push_onto s1 Null c1 = Some (r, s', c') else c' = c1"
    by (auto simp: pushi_def run_simps split: if_splits)
  then have "keeps_objects (hp c1) (hp c')" by (cases ok) (auto dest: push_Null_objects)
  with grow_bufpp_objects [OF g] show ?thesis by (rule keeps_objects_trans)
qed

lemma grow_to_objects:
  assumes "grow_to index s c = Some (s', c')"
  shows "keeps_objects (hp c) (hp c')"
proof -
  have "(\<lambda>(index :: nat) s c (s', c'). keeps_objects (hp c) (hp c')) index s c (s', c')"
  proof (rule grow_to.raw_induct [OF _ assms])
    fix f :: "nat \<Rightarrow> ('a, 'b) genericStack \<Rightarrow> ('a, 'b) cstate
                \<Rightarrow> (('a, 'b) genericStack \<times> ('a, 'b) cstate) option"
      and i and t :: "('a, 'b) genericStack" and d and r
    assume IH: "\<And>i t d r. f i t d = Some r \<Longrightarrow> (case r of (s', c') \<Rightarrow> keeps_objects (hp d) (hp c'))"
      and run: "(if allocSizei t \<le> i
         then do { (k, s1, c1) \<leftarrow> pushi t Null d; f i s1 c1 } else Some (t, d)) = Some r"
    show "case r of (s', c') \<Rightarrow> keeps_objects (hp d) (hp c')"
    proof (cases "allocSizei t \<le> i")
      case False
      with run show ?thesis by auto
    next
      case True
      with run obtain k s1 c1 where p: "pushi t Null d = Some (k, s1, c1)" and rest: "f i s1 c1 = Some r"
        by (auto simp: run_simps)
      from IH [OF rest] keeps_objects_trans [OF pushi_Null_objects [OF p]] show ?thesis by auto
    qed
  qed
  then show ?thesis by simp
qed

lemma getp_objects:
  assumes "genericStack_getp sp index c = Some (p, sp', c')"
  shows "keeps_objects (hp c) (hp c')"
proof (cases sp)
  case None
  with assms show ?thesis by (simp add: genericStack_getp_def)
next
  case (Some s)
  with assms show ?thesis
    by (auto simp: genericStack_getp_def run_simps split: if_splits intro: grow_to_objects)
qed

section \<open>Operations of the stack\<close>

lemma on_stackE:
  assumes "on_stack f c = Some (a, c1)"
  obtains d where "f \<lparr>hp = hp c, ext = Some (ext c)\<rparr> = Some (a, d)" "hp c1 = hp d" "ext d = Some (ext c1)"
  using assms by (auto simp: on_stack_def bind_Some_iff)

lemma pad_map: "pad None n (map (map_option F) xs) = map (map_option F) (pad None n xs)"
  by (simp add: pad_def)

lemma nth_or_map: "nth_or None (map (map_option F) xs) i = map_option F (nth_or None xs i)"
  by (simp add: nth_or_def)

lemma same_confD2: "same_conf s t \<Longrightarrow> optionGrowOnSeti t = optionGrowOnSeti s \<and> optionGrowOnGeti t = optionGrowOnGeti s
    \<and> copyCallbackp t = copyCallbackp s"
  by (simp add: same_confD)

lemma nth_or_None_update: "nth_or None (xs[i := None]) = (nth_or None xs)(i := None)"
  by (rule ext) (auto simp: nth_or_def)

text \<open>A copy of a value: as it is, or what the copy callback stored for it.\<close>

definition copy_of :: "('e, 'd, 'v) world \<Rightarrow> 'v \<Rightarrow> 'v \<Rightarrow> bool" where
  "copy_of W v u \<longleftrightarrow> u = v \<or> (\<exists>x. outv (fst (ask W (U (StackElementCopyCallback v)) x)) = Some u)"

lemma copied_value:
  assumes "copyCallbackp s = Some (marpaWrapperStackCopyCallback W b)"
  obtains u where "copied s (ValueObj v) x = ValueObj u" "copy_of W v u"
proof (cases "b \<and> x \<noteq> None \<and> outv (fst (ask W (U (StackElementCopyCallback v)) (the x))) \<noteq> None")
  case True
  then obtain y u where "x = Some y" "outv (fst (ask W (U (StackElementCopyCallback v)) y)) = Some u" b by auto
  then show thesis
    using assms by (intro that [of u]) (auto simp: copied_def marpaWrapperStackCopyCallback_def copy_of_def split_def Let_def)
next
  case False
  then have "copied s (ValueObj v) x = ValueObj v"
    using assms by (auto simp: copied_def marpaWrapperStackCopyCallback_def split_def Let_def split: option.splits)
  then show thesis by (rule that) (simp add: copy_of_def)
qed

lemma value_at_Some: "value_at h p = Some v \<longleftrightarrow> obj_at h p = Some (ValueObj v)"
  by (simp add: value_at_def split: option.splits obj.splits)

lemma value_at_keeps: "keeps_objects h h' \<Longrightarrow> heap_ok h \<Longrightarrow> live_arg h p \<Longrightarrow> value_at h' p = value_at h p"
  by (auto simp: keeps_objects_def live_arg_def value_at_def)

lemma keeps_calls_None [simp]: "keeps_calls None"
  by (simp add: keeps_calls_def)

lemma stack_get_holds:
  assumes H: "holds W sp (hp c) m f" and run: "stack_get sp i c = Some ((p, sp'), c')"
  shows "holds W sp' (hp c') m f" "value_at (hp c') p = m i" "live_arg (hp c') p" "keeps_objects (hp c) (hp c')"
    "seen c c' []"
proof -
  have "keeps_calls sp" using H by (simp add: holds_def)
  from stack_get_calls [OF this run] have keeps: "keeps_calls sp'" and "seen c c' []" by (metis seen_stack)+
  then show "seen c c' []" by blast
  from run obtain d where d: "genericStack_getp sp i \<lparr>hp = hp c, ext = Some (ext c)\<rparr> = Some (p, sp', d)" "hp c' = hp d"
    unfolding stack_get_def by (elim on_stackE) (auto simp: bind_Some_iff)
  show "keeps_objects (hp c) (hp c')" using getp_objects [OF d(1)] d(2) by simp
  have "holds W sp' (hp c') m f \<and> value_at (hp c') p = m i \<and> live_arg (hp c') p"
  proof (cases sp)
    case None
    with d H keeps show ?thesis by (auto simp: genericStack_getp_def holds_def value_at_def live_arg_def)
  next
    case (Some s)
    with H obtain xs b where s: "stack_rep (hp c) s (map (map_option ValueObj) xs) f" "m = nth_or None xs"
      "optionGrowOnSeti s" "optionGrowOnGeti s" "copyCallbackp s = Some (marpaWrapperStackCopyCallback W b)"
      by (auto simp: holds_def)
    have "\<exists>s'. sp' = Some s' \<and> stack_rep (hp d) s' (pad None (allocSizei s') (map (map_option ValueObj) xs)) f \<and> same_conf s s'
      \<and> obj_at (hp d) p = nth_or None (map (map_option ValueObj) xs) i \<and> live_arg (hp d) p
      \<and> avail (hp d) = avail (hp c)"
      using getp_run [of "\<lparr>hp = hp c, ext = Some (ext c)\<rparr>" s "map (map_option ValueObj) xs" f i p sp' d] s d(1) Some
      by simp
    then obtain s' where s': "sp' = Some s'" "stack_rep (hp d) s' (pad None (allocSizei s') (map (map_option ValueObj) xs)) f"
      "same_conf s s'" "obj_at (hp d) p = nth_or None (map (map_option ValueObj) xs) i" "live_arg (hp d) p" by blast
    have "value_at (hp d) p = m i"
      using s'(4) by (cases "nth_or None xs i") (auto simp: value_at_def s(2) nth_or_map)
    with s s' d(2) keeps show ?thesis
      by (auto simp: holds_def same_confD2 pad_map intro!: exI [of _ "pad None (allocSizei s') xs"])
  qed
  then show "holds W sp' (hp c') m f" "value_at (hp c') p = m i" "live_arg (hp c') p" by blast+
qed

text \<open>The address of a value outside the stack.\<close>

definition value_arg :: "(nat \<rightharpoonup> ('d, 'v) obj block) \<Rightarrow> ptr \<Rightarrow> bool" where
  "value_arg f p \<longleftrightarrow> (case p of Null \<Rightarrow> True | Ref a \<Rightarrow> \<exists>v. f a = Some (Obj (ValueObj v)))"

lemma value_arg_cases:
  assumes "value_arg f p"
  obtains "p = Null" "outside_arg f p" "arg_value f p = None"
    | a v where "p = Ref a" "f a = Some (Obj (ValueObj v))" "outside_arg f p" "arg_value f p = Some (ValueObj v)"
  using assms by (cases p) (auto simp: value_arg_def outside_arg_def arg_value_def)

lemma stack_set_holds:
  assumes H: "holds W sp (hp c) m f" and p: "value_arg f p"
    and run: "stack_set sp i p c = Some ((r, sp'), c')"
  obtains u where "holds W sp' (hp c') (m(i := u)) f" "seen c c' []"
    "(0 < r \<and> (p = Null \<and> u = None \<or> (\<exists>v w. value_at (hp c) p = Some v \<and> u = Some w \<and> copy_of W v w)))
       \<or> r = 0 \<and> u = None"
proof -
  have "keeps_calls sp" using H by (simp add: holds_def)
  from stack_set_calls [OF this run] have keeps: "keeps_calls sp'" and seen: "seen c c' []" by (metis seen_stack)+
  note that = that [OF _ seen]
  show thesis
  proof (cases sp)
    case None
    with H run have "sp' = None" "r = 0" "hp c' = hp c" "m(i := None) = m"
      by (auto simp: stack_set_def on_stack_def genericStack_seti_def holds_def bind_Some_iff)
    with that [of None] H None show thesis by simp
  next
    case (Some s)
    from run obtain d where d: "genericStack_seti sp i p \<lparr>hp = hp c, ext = Some (ext c)\<rparr> = Some (r, sp', d)" "hp c' = hp d"
      unfolding stack_set_def by (elim on_stackE) (auto simp: bind_Some_iff)
    from H Some obtain xs b where s: "stack_rep (hp c) s (map (map_option ValueObj) xs) f" "m = nth_or None xs"
      "optionGrowOnSeti s" "optionGrowOnGeti s" "copyCallbackp s = Some (marpaWrapperStackCopyCallback W b)"
      by (auto simp: holds_def)
    let ?ys = "\<lambda>s'. pad None (allocSizei s') xs"
    have out: "outside_arg f p" using p by (rule value_arg_cases) simp_all
    let ?c = "\<lparr>hp = hp c, ext = Some (ext c)\<rparr>"
    have R: "stack_rep (hp ?c) s (map (map_option ValueObj) xs) f" and run': "genericStack_seti (Some s) i p ?c = Some (r, sp', d)"
      using s(1) d(1) Some by simp_all
    from seti_run [OF R s(3) out run'] obtain s' x where s': "sp' = Some s'" "same_conf s s'"
      and all: "if r = 1
         then stackSizei s' = max (stackSizei s) (Suc i)
           \<and> stack_rep (hp d) s' ((pad None (allocSizei s') (map (map_option ValueObj) xs))
                [i := map_option (\<lambda>v. copied s v x) (arg_value f p)]) f
         else r = 0 \<and> p \<noteq> Null \<and> \<not> (\<forall>n. avail (hp ?c) n)
           \<and> stack_rep (hp d) s' ((pad None (allocSizei s') (map (map_option ValueObj) xs))[i := None]) f"
      by blast
    from all have cases': "if r = 1
         then stackSizei s' = max (stackSizei s) (Suc i)
           \<and> stack_rep (hp d) s' ((map (map_option ValueObj) (?ys s'))
                [i := map_option (\<lambda>v. copied s v x) (arg_value f p)]) f
         else r = 0 \<and> stack_rep (hp d) s' ((map (map_option ValueObj) (?ys s'))[i := None]) f"
      by (simp add: pad_map split: if_splits)
    have conf: "optionGrowOnSeti s'" "optionGrowOnGeti s'" "copyCallbackp s' = Some (marpaWrapperStackCopyCallback W b)"
      using s s'(2) by (simp_all add: same_confD2)
    have fin: "holds W sp' (hp c') (m(i := u)) f"
      if R: "stack_rep (hp d) s' ((map (map_option ValueObj) (?ys s'))[i := map_option ValueObj u]) f"
        and i: "i < allocSizei s' \<or> u = None" for u
    proof -
      have "nth_or None ((?ys s')[i := u]) = m(i := u)"
        using i stack_repD(1) [OF R] by (auto simp: nth_or_update nth_or_None_update s(2))
      with R conf s'(1) d(2) keeps show ?thesis
        by (auto simp: holds_def map_update intro!: exI [of _ "(?ys s')[i := u]"])
    qed
    show thesis
    proof (cases "r = 1")
      case False
      with cases' have "r = 0" "stack_rep (hp d) s' ((map (map_option ValueObj) (?ys s'))[i := map_option ValueObj None]) f" by simp_all
      with that [of None] fin [of None] show thesis by simp
    next
      case True
      with cases' have R: "stack_rep (hp d) s' ((map (map_option ValueObj) (?ys s'))[i := map_option (\<lambda>v. copied s v x) (arg_value f p)]) f"
        and "stackSizei s' = max (stackSizei s) (Suc i)" by simp_all
      then have i: "i < allocSizei s'" using stack_repD [OF R] by simp
      from p show thesis
      proof (cases rule: value_arg_cases)
        case 1
        with R fin [of None] that [of None] True show thesis by simp
      next
        case (2 a v)
        from copied_value [OF s(5), of v x] obtain w where w: "copied s (ValueObj v) x = ValueObj w" "copy_of W v w" .
        have "value_at (hp c) p = Some v" using 2(1,2) holds_frame [OF H] by (simp add: value_at_def)
        with w that [of "Some w"] fin [of "Some w"] R i True 2 show thesis by simp
      qed
    qed
  qed
qed

lemma stack_destroy_holds:
  assumes H: "holds W sp (hp c) m f" and run: "stack_destroy sp c = Some (sp', c')"
  shows "holds W None (hp c') (\<lambda>_. None) f" "seen c c' []"
proof -
  have "keeps_calls sp" using H by (simp add: holds_def)
  from stack_destroy_calls [OF this run] show "seen c c' []" by (metis seen_stack)
  from run obtain d where d: "genericStack_destroyv (Some sp) \<lparr>hp = hp c, ext = Some (ext c)\<rparr> = Some (sp', d)" "hp c' = hp d"
    unfolding stack_destroy_def by (elim on_stackE) auto
  show "holds W None (hp c') (\<lambda>_. None) f"
  proof (cases sp)
    case None
    with d H show ?thesis by (auto simp: genericStack_destroyv_def holds_def)
  next
    case (Some s)
    with H obtain xs where "stack_rep (hp \<lparr>hp = hp c, ext = Some (ext c)\<rparr>) s xs f" by (auto simp: holds_def)
    then obtain e where "genericStack_destroyv (Some (Some s)) \<lparr>hp = hp c, ext = Some (ext c)\<rparr> = Some (Some None, e)"
      "store (hp e) = f" "heap_ok (hp e)"
      by (rule stack_destroyv_run)
    with d Some show ?thesis by (simp add: holds_def)
  qed
qed

lemma stack_new_holds:
  assumes H: "holds W None (hp c) m f" and run: "stack_new W w so c = Some (sp, c')"
  shows "holds W sp (hp c') (\<lambda>_. None) f" "seen c c' []"
proof -
  from stack_new_calls [OF run] have keeps: "keeps_calls sp" and "seen c c' []" by (metis seen_stack)+
  then show "seen c c' []" by blast
  from run obtain d where d: "genericStack_newp (stackElementSizei so) (Some (value_stack_option W w so))
      \<lparr>hp = hp c, ext = Some (ext c)\<rparr> = Some (sp, d)" "hp c' = hp d"
    unfolding stack_new_def by (elim on_stackE) auto
  have ok: "heap_ok (hp \<lparr>hp = hp c, ext = Some (ext c)\<rparr>)" and f: "store (hp c) = f" using H by (auto simp: holds_def)
  show "holds W sp (hp c') (\<lambda>_. None) f"
  proof (cases sp)
    case None
    with newp_runs [OF d(1) ok] d(2) f show ?thesis by (simp add: holds_def)
  next
    case (Some s)
    with newp_runs [OF d(1) ok] f have "stack_rep (hp d) s (replicate 4 None) f" "optionGrowOnSeti s" "optionGrowOnGeti s"
      "copyCallbackp s = Some (marpaWrapperStackCopyCallback W (stackElementCopyCallbackp so))"
      by (auto simp: value_stack_option_def has_flag_def GENERICSTACK_OPTION_GROW_DEFAULT_def
          GENERICSTACK_OPTION_GROW_ON_GET_def GENERICSTACK_OPTION_GROW_ON_SET_def)
    moreover from this(1) have "\<exists>xs. stack_rep (hp d) s (map (map_option ValueObj) xs) f \<and> (\<lambda>_. None) = nth_or None xs"
      by (intro exI [of _ "replicate 4 None"]) (simp add: nth_or_def fun_eq_iff)
    ultimately show ?thesis using Some d(2) keeps by (auto simp: holds_def)
  qed
qed

end
