(* ===== verification/ValueMemory.thy ===== *)
theory ValueMemory
  imports ValueHeap TableSort
begin

text \<open>
  The phases of \<open>marpaWrapper_vb\<close> on the memory: between two steps of the valuator the evaluation
  owns nothing but the stack, whatever callback fails and whatever allocation is refused, and a step
  changes one index of the stack.
\<close>

section \<open>Inputs and output\<close>

text \<open>The caller's blocks \<open>g\<close>, the value at \<open>po\<close> and the array of inputs at \<open>pi\<close>.\<close>

definition value_frame ::
  "(nat \<rightharpoonup> ('d, 'v) obj block) \<Rightarrow> ptr \<Rightarrow> ptr \<Rightarrow> (nat \<rightharpoonup> ('d, 'v) obj block) \<Rightarrow> bool" where
  "value_frame g po pi f \<longleftrightarrow>
     (case po of
        Null \<Rightarrow> (case pi of Null \<Rightarrow> f = g | Ref b \<Rightarrow> g b = None \<and> (\<exists>cs. f = g(b \<mapsto> Arr cs)))
      | Ref a \<Rightarrow> g a = None \<and>
          (case pi of
             Null \<Rightarrow> \<exists>v. f = g(a \<mapsto> Obj (ValueObj v))
           | Ref b \<Rightarrow> g b = None \<and> a \<noteq> b \<and> (\<exists>v cs. f = g(a \<mapsto> Obj (ValueObj v), b \<mapsto> Arr cs))))"

lemma value_frame_none [simp]: "value_frame g Null Null f \<longleftrightarrow> f = g"
  by (simp add: value_frame_def)

lemma value_frame_output_new:
  "value_frame g Null pi f \<Longrightarrow> f a = None \<Longrightarrow> value_frame g (Ref a) pi (f(a \<mapsto> Obj (ValueObj v)))"
  by (cases pi) (auto simp: value_frame_def fun_upd_twist split: if_splits, blast)

lemma value_frame_output_drop: "value_frame g (Ref a) pi f \<Longrightarrow> value_frame g Null pi (f(a := None))"
  by (cases pi) (auto simp: value_frame_def fun_eq_iff)

lemma value_frame_input_new:
  "value_frame g po Null f \<Longrightarrow> f b = None \<Longrightarrow> value_frame g po (Ref b) (f(b \<mapsto> Arr cs))"
  by (cases po) (auto simp: value_frame_def split: if_splits)

lemma value_frame_input_put: "value_frame g po (Ref b) f \<Longrightarrow> value_frame g po (Ref b) (f(b \<mapsto> Arr cs))"
  by (cases po) (auto simp: value_frame_def, blast)

lemma value_frame_input_drop: "value_frame g po (Ref b) f \<Longrightarrow> value_frame g po Null (f(b := None))"
  by (cases po) (auto simp: value_frame_def fun_eq_iff)

lemma value_frame_output: "value_frame g po pi f \<Longrightarrow> value_arg f po"
  by (cases po; cases pi) (auto simp: value_frame_def value_arg_def)

lemma value_frame_input: "value_frame g po (Ref b) f \<Longrightarrow> \<exists>cs. f b = Some (Arr cs)"
  by (cases po) (auto simp: value_frame_def)

definition output_ptr :: "('e, 'd, 'v) value_locals \<Rightarrow> ptr" where
  "output_ptr l = (case valueOutputp l of None \<Rightarrow> Null | Some p \<Rightarrow> p)"

definition value_heap ::
  "('e, 'd, 'v) world \<Rightarrow> (nat \<rightharpoonup> ('d, 'v) obj block) \<Rightarrow> ('e, 'd, 'v) value_locals
     \<Rightarrow> ('d, 'v) obj heap \<Rightarrow> (nat \<Rightarrow> 'v option) \<Rightarrow> bool" where
  "value_heap W g l h m \<longleftrightarrow>
     (\<exists>f. value_frame g (output_ptr l) (valueInputArraypp l) f \<and> holds W (genericStackp l) h m f)"

lemma value_heap_ok: "value_heap W g l h m \<Longrightarrow> heap_ok h"
  by (auto simp: value_heap_def dest: holds_ok)

lemma value_heap_same: "value_heap W g l h m \<Longrightarrow> same_store h h' \<Longrightarrow> value_heap W g l h' m"
  by (auto simp: value_heap_def dest: holds_same)

lemma value_heap_logged: "value_heap W g l (hp c) m \<Longrightarrow> logged c c' \<Longrightarrow> value_heap W g l (hp c') m"
  by (rule value_heap_same [OF _ logged_store])

section \<open>A callback\<close>

text \<open>The callbacks that give a value never give one of their inputs back.\<close>

definition own_outputs :: "('e, 'd, 'v) world \<Rightarrow> bool" where
  "own_outputs W \<longleftrightarrow> (\<forall>k x. gives_value k \<longrightarrow> outs (fst (respond W (U k) x)) = [])"

lemma own_outputsD: "own_outputs W \<Longrightarrow> gives_value k \<Longrightarrow> outs (fst (call W (U k) c)) = []"
  by (simp add: own_outputs_def call_def ask_def Let_def)

lemma stored_output_own:
  assumes V: "value_heap W g l h m" and n: "output_ptr l = Null" and o: "outs r = []"
    and run: "stored_output r ins h = Some (p, h')"
  shows "value_heap W g (l\<lparr>valueOutputp := Some p\<rparr>) h' m" "value_at h' p = outv r"
proof -
  have "value_heap W g (l\<lparr>valueOutputp := Some p\<rparr>) h' m \<and> value_at h' p = outv r"
  proof (cases "outv r")
    case None
    with run o V n show ?thesis by (auto simp: stored_output_def value_heap_def output_ptr_def value_at_def)
  next
    case (Some v)
    with run o have p: "p = Ref (fresh h)" "h' = snd (take_block (Obj (ValueObj v)) h)"
      by (auto simp: stored_output_def take_block_def)
    from V n obtain f where f: "value_frame g Null (valueInputArraypp l) f" "holds W (genericStackp l) h m f"
      unfolding value_heap_def by metis
    have "value_frame g (Ref (fresh h)) (valueInputArraypp l) (f(fresh h \<mapsto> Obj (ValueObj v)))"
      using f(1) holds_new(3) [OF f(2)] by (rule value_frame_output_new)
    with holds_new(2) [OF f(2)] p Some show ?thesis
      by (auto simp: value_heap_def output_ptr_def value_at_def take_block_def)
  qed
  then show "value_heap W g (l\<lparr>valueOutputp := Some p\<rparr>) h' m" "value_at h' p = outv r" by simp_all
qed

lemma callback_heap:
  assumes V: "value_heap W g l (hp c) m" and n: "output_ptr l = Null"
    and W: "own_outputs W" "ready W" "gives_value k"
    and run: "value_callback W w k ins s l c = Some (e, l', c')"
  obtains p x where "l' = l\<lparr>valueOutputp := Some p\<rparr>" "value_heap W g l' (hp c') m" "seen c c' [(U k, x)]"
    "e = Next \<and> ret x \<noteq> MARPAWRAPPER_BOOL_FALSE \<and> value_at (hp c') p = outv x \<or> e = Leave MARPAWRAPPER_BOOL_FALSE"
proof -
  obtain r c1 where call: "call W (U k) c = (r, c1)" by (cases "call W (U k) c")
  then have hp: "hp c1 = hp c" by (metis hp_call snd_conv)
  have seen: "seen c c1 [(U k, r)]" using seen_call [of c W "U k"] W(3) call by simp
  from own_outputsD [OF W(1,3), of c] call have o: "outs r = []" by simp
  from run call hp obtain p h where so: "stored_output r ins (hp c) = Some (p, h)"
    and rest: "(if ret r = MARPAWRAPPER_BOOL_FALSE
        then do { c3 \<leftarrow> log_error0 W w s (c1\<lparr>hp := h\<rparr>); Some (Leave MARPAWRAPPER_BOOL_FALSE, l\<lparr>valueOutputp := Some p\<rparr>, c3) }
        else Some (Next, l\<lparr>valueOutputp := Some p\<rparr>, c1\<lparr>hp := h\<rparr>)) = Some (e, l', c')"
    by (auto simp: value_callback_def Let_def bind_Some_iff)
  note S = stored_output_own [OF V n o so]
  show thesis
  proof (cases "ret r = MARPAWRAPPER_BOOL_FALSE")
    case True
    with rest obtain c3 where c3: "log_error0 W w s (c1\<lparr>hp := h\<rparr>) = Some c3"
      and e: "e = Leave MARPAWRAPPER_BOOL_FALSE" "l' = l\<lparr>valueOutputp := Some p\<rparr>" "c' = c3"
      by (auto simp: bind_Some_iff)
    have "heap_ok (hp (c1\<lparr>hp := h\<rparr>))" using value_heap_ok [OF S(1)] by simp
    from log_error0_logged [OF c3 this ready_clock [OF W(2)]]
    have "value_heap W g l' (hp c') m" using value_heap_logged [of W g l' "c1\<lparr>hp := h\<rparr>"] S(1) e by simp
    moreover have "seen c c' [(U k, r)]" using seen_trans [OF seen] seen_queries [OF log_error0_queries [OF c3]] e(3) by simp
    ultimately show thesis using e that by blast
  next
    case False
    with rest have e: "e = Next" "l' = l\<lparr>valueOutputp := Some p\<rparr>" "c' = c1\<lparr>hp := h\<rparr>" by simp_all
    with S seen False show thesis by (intro that [of p r]) simp_all
  qed
qed

section \<open>Fetching the inputs\<close>

lemma fetch_heap:
  "holds W sp (hp c) m f \<Longrightarrow> f a = Some (Arr cs) \<Longrightarrow> fetch_inputs (Ref a) first j n sp c = Some (sp', c')
     \<Longrightarrow> \<exists>ps. length ps = n \<and> holds W sp' (hp c') m (f(a \<mapsto> Arr (take j cs @ map Some ps @ drop (j + n) cs)))
       \<and> (\<forall>k < n. value_at (hp c') (ps ! k) = m (to_uint (int_to_size first + (j + k))))
       \<and> keeps_objects (hp c) (hp c') \<and> seen c c' []"
proof (induction n arbitrary: j sp c f cs)
  case 0
  have "take j cs @ map Some [] @ drop (j + 0) cs = cs" by simp
  moreover have "f(a \<mapsto> Arr cs) = f" using 0 by (simp add: map_upd_triv)
  ultimately show ?case using 0 by (intro exI [of _ "[]"]) auto
next
  case (Suc n)
  from Suc.prems(3) obtain p sp1 c1 h where get: "stack_get sp (to_uint (int_to_size first + j)) c = Some ((p, sp1), c1)"
    and put: "arr_put (Ref a) j p (hp c1) = Some h"
    and rest: "fetch_inputs (Ref a) first (Suc j) n sp1 (c1\<lparr>hp := h\<rparr>) = Some (sp', c')"
    by (auto simp: bind_Some_iff)
  note S = stack_get_holds [OF Suc.prems(1) get]
  from holds_frame [OF S(1) Suc.prems(2)] put
  have j: "j < length cs" and h: "h = set_block a (Arr (cs[j := Some p])) (hp c1)" by (auto simp: arr_put_Some)
  let ?f = "f(a \<mapsto> Arr (cs[j := Some p]))"
  have H: "holds W sp1 (hp (c1\<lparr>hp := h\<rparr>)) m ?f"
    using holds_put [OF S(1), of a] Suc.prems(2) by (simp add: h)
  have at: "?f a = Some (Arr (cs[j := Some p]))" by simp
  from Suc.IH [OF H at rest] obtain ps where ps: "length ps = n"
    "holds W sp' (hp c') m (?f(a \<mapsto> Arr (take (Suc j) (cs[j := Some p]) @ map Some ps @ drop (Suc j + n) (cs[j := Some p]))))"
    "\<forall>k < n. value_at (hp c') (ps ! k) = m (to_uint (int_to_size first + (Suc j + k)))" "keeps_objects (hp (c1\<lparr>hp := h\<rparr>)) (hp c')"
    "seen (c1\<lparr>hp := h\<rparr>) c' []"
    by blast
  have seen: "seen c c' []" using seen_trans [OF S(5), of c' "[]"] ps(5) by simp
  have keeps: "keeps_objects h (hp c')" using ps(4) by simp
  have put': "keeps_objects (hp c1) h" using put by (rule arr_put_objects)
  have "value_at (hp c') p = value_at (hp c1) p"
    using keeps_objects_trans [OF put' keeps] holds_ok [OF S(1)] S(3) by (rule value_at_keeps)
  with S(2) ps(3) have vals: "\<forall>k < Suc n. value_at (hp c') ((p # ps) ! k) = m (to_uint (int_to_size first + (j + k)))"
    by (auto simp: nth_Cons split: nat.split)
  have "take (Suc j) (cs[j := Some p]) @ map Some ps @ drop (Suc j + n) (cs[j := Some p])
      = take j cs @ map Some (p # ps) @ drop (j + Suc n) cs"
    using j by (simp add: take_Suc_conv_app_nth)
  with ps(2) have "holds W sp' (hp c') m (f(a \<mapsto> Arr (take j cs @ map Some (p # ps) @ drop (j + Suc n) cs)))"
    by (simp only: fun_upd_upd)
  with ps(1) vals seen keeps_objects_trans [OF S(4) keeps_objects_trans [OF put' keeps]] show ?case
    by (intro exI [of _ "p # ps"]) (simp only: length_Cons)
qed

section \<open>The end of a step\<close>

lemma value_heap_update [simp]:
  "value_heap W g (l\<lparr>marpaValuep := v\<rparr>) h m = value_heap W g l h m"
  "value_heap W g (l\<lparr>marpaTreep := v\<rparr>) h m = value_heap W g l h m"
  "value_heap W g (l\<lparr>marpaOrderp := v\<rparr>) h m = value_heap W g l h m"
  "value_heap W g (l\<lparr>marpaBocagep := v\<rparr>) h m = value_heap W g l h m"
  by (simp_all add: value_heap_def output_ptr_def)

text \<open>The result of a step as it goes into the stack.\<close>

definition stored_as :: "('e, 'd, 'v) world \<Rightarrow> 'v option \<Rightarrow> 'v option \<Rightarrow> bool" where
  "stored_as W v u \<longleftrightarrow> (case v of None \<Rightarrow> u = None | Some x \<Rightarrow> (\<exists>y. u = Some y \<and> copy_of W x y))"

lemma store_heap:
  assumes V: "value_heap W g l (hp c) m" and run: "store_result i l c = Some (e, l', c')"
  obtains u where "value_heap W g l' (hp c') (m(int_to_uint i := u))"
    "l' = l\<lparr>genericStackp := genericStackp l'\<rparr>" "seen c c' []"
    "e = Next \<and> stored_as W (value_at (hp c) (output_ptr l)) u \<or> e = Leave MARPAWRAPPER_BOOL_FALSE"
proof -
  from V obtain f where f: "value_frame g (output_ptr l) (valueInputArraypp l) f" "holds W (genericStackp l) (hp c) m f"
    unfolding value_heap_def by blast
  from run obtain p r sp where p: "valueOutputp l = Some p"
    and s: "stack_set (genericStackp l) (int_to_uint i) p c = Some ((r, sp), c')"
    and r: "e = (if r \<le> 0 then Leave MARPAWRAPPER_BOOL_FALSE else Next)" "l' = l\<lparr>genericStackp := sp\<rparr>"
    by (auto simp: store_result_def bind_Some_iff Let_def)
  have o: "output_ptr l = p" "output_ptr l' = p" using p r(2) by (simp_all add: output_ptr_def)
  have "value_arg f p" using value_frame_output [OF f(1)] o by simp
  from stack_set_holds [OF f(2) this s] obtain u where u: "holds W sp (hp c') (m(int_to_uint i := u)) f" "seen c c' []"
    "(0 < r \<and> (p = Null \<and> u = None \<or> (\<exists>v w. value_at (hp c) p = Some v \<and> u = Some w \<and> copy_of W v w)))
       \<or> r = 0 \<and> u = None" .
  have "value_heap W g l' (hp c') (m(int_to_uint i := u))"
    using f(1) u(1) o r(2) unfolding value_heap_def by auto
  moreover have "e = Next \<and> stored_as W (value_at (hp c) (output_ptr l)) u \<or> e = Leave MARPAWRAPPER_BOOL_FALSE"
    using u(3) r(1) o by (auto simp: stored_as_def value_at_def)
  ultimately show thesis using that r(2) u(2) by auto
qed

lemma drop_heap:
  assumes V: "value_heap W g l (hp c) m" and run: "drop_output W so e0 l c = Some (e, l', c')"
  shows "value_heap W g l' (hp c') m \<and> valueInputArraypp l' = valueInputArraypp l
    \<and> (e = e0 \<and> output_ptr l' = Null \<or> e = Leave MARPAWRAPPER_BOOL_FALSE) \<and> seen c c' []"
proof -
  from V obtain f where f: "value_frame g (output_ptr l) (valueInputArraypp l) f" "holds W (genericStackp l) (hp c) m f"
    unfolding value_heap_def by blast
  from run obtain p where p: "valueOutputp l = Some p" by (auto simp: drop_output_def bind_Some_iff)
  then have o: "output_ptr l = p" by (simp add: output_ptr_def)
  show ?thesis
  proof (cases p)
    case Null
    with run p o V show ?thesis by (auto simp: drop_output_def)
  next
    case (Ref a)
    from run p Ref obtain v where v: "obj_at (hp c) p = Some v"
      by (auto simp: drop_output_def bind_Some_iff simp del: obj_at.simps)
    obtain n xo where fc: "marpaWrapperStackFreeCallback W (stackElementFreeCallbackp so) v (Some (ext c)) = (n, xo)"
      by (rule prod.exhaust)
    from run p Ref v fc obtain x where x: "xo = Some x"
      and rest: "(if n \<noteq> 0 then Some (Leave MARPAWRAPPER_BOOL_FALSE, l, c\<lparr>ext := x\<rparr>)
        else do { h \<leftarrow> cfree p (hp (c\<lparr>ext := x\<rparr>)); Some (e0, l\<lparr>valueOutputp := Some Null\<rparr>, c\<lparr>ext := x, hp := h\<rparr>) }) = Some (e, l', c')"
      by (auto simp: drop_output_def bind_Some_iff Let_def simp del: cfree.simps obj_at.simps)
    have "only_stack_calls (Some (ext c)) (Some x)"
      using free_callback_calls [of "Some (ext c)" W "stackElementFreeCallbackp so" v] fc x by simp
    then obtain t where "calls_since c (c\<lparr>ext := x\<rparr>) t" "list_all (\<lambda>(k, r). stack_call k) t"
      by (auto simp: only_stack_calls_def calls_since_def)
    then have seen: "seen c (c\<lparr>ext := x\<rparr>) []" by (rule seen_stack)
    show ?thesis
    proof (cases "n = 0")
      case False
      with rest V seen show ?thesis by auto
    next
      case True
      with rest Ref have r: "e = e0" "l' = l\<lparr>valueOutputp := Some Null\<rparr>" "c' = c\<lparr>ext := x, hp := drop_block a (hp c)\<rparr>"
        by (auto simp: bind_Some_iff cfree_Some simp del: cfree.simps)
      have fr: "value_frame g Null (valueInputArraypp l) (f(a := None))"
        using f(1) o Ref by (simp add: value_frame_output_drop)
      have "f a \<noteq> None" using value_frame_output [OF f(1)] o Ref by (auto simp: value_arg_def)
      from holds_drop [OF f(2) this] fr r seen show ?thesis by (auto simp: value_heap_def output_ptr_def)
    qed
  qed
qed

section \<open>The stack machine\<close>

text \<open>
  What a step of the valuator does to the stack, in terms of the fields \<open>r\<close> it left: the callback it
  calls, if any, and the index that receives its result.
\<close>

definition frame_cell :: "(nat \<rightharpoonup> 'o block) \<Rightarrow> ptr \<Rightarrow> int \<Rightarrow> ptr option" where
  "frame_cell g p i =
     (case p of
        Null \<Rightarrow> None
      | Ref a \<Rightarrow> (case g a of
            Some (Arr cs) \<Rightarrow> if 0 \<le> i \<and> nat i < length cs then cs ! nat i else None
          | _ \<Rightarrow> None))"

definition arguments :: "(nat \<Rightarrow> 'v option) \<Rightarrow> int \<Rightarrow> int \<Rightarrow> 'v option list" where
  "arguments m first final = map (\<lambda>i. m (to_uint (int_to_size first + i))) [0..<int_to_size (final - first + 1)]"

definition step_wants ::
  "('e, 'd) marpaWrapper \<Rightarrow> marpaWrapperValueOption \<Rightarrow> (nat \<rightharpoonup> 'o block) \<Rightarrow> 'v reply \<Rightarrow> (nat \<Rightarrow> 'v option)
     \<Rightarrow> (('d, 'v) user_call option \<times> int) option" where
  "step_wants w vo g r m =
     (if ret r = MARPA_STEP_RULE then do {
        rule \<leftarrow> out r 2; first \<leftarrow> out r 3; final \<leftarrow> out r 4; res \<leftarrow> out r 5;
        if valueRuleCallbackp vo
        then do {
          p \<leftarrow> frame_cell g (marpaWrapperRulepp w) rule;
          Some (Some (ValueRuleCallback p (arguments m first final)), res)
        }
        else Some (None, res)
      }
      else if ret r = MARPA_STEP_TOKEN then do {
        symi \<leftarrow> out r 0; tok \<leftarrow> out r 1; res \<leftarrow> out r 5;
        if valueSymbolCallbackp vo
        then do { p \<leftarrow> frame_cell g (marpaWrapperSymbolpp w) symi; Some (Some (ValueSymbolCallback p tok), res) }
        else Some (None, res)
      }
      else do {
        symi \<leftarrow> out r 0; res \<leftarrow> out r 5;
        if valueNullingCallbackp vo
        then do { p \<leftarrow> frame_cell g (marpaWrapperSymbolpp w) symi; Some (Some (ValueNullingCallback p), res) }
        else Some (None, res)
      })"

inductive moved ::
  "('e, 'd, 'v) world \<Rightarrow> (('d, 'v) user_call option \<times> int) option \<Rightarrow> (nat \<Rightarrow> 'v option)
     \<Rightarrow> (('d, 'v) call \<times> 'v reply) list \<Rightarrow> (nat \<Rightarrow> 'v option) \<Rightarrow> bool" for W where
  moved_null: "moved W (Some (None, res)) m [] (m(int_to_uint res := None))"
| moved_value: "ret x \<noteq> MARPAWRAPPER_BOOL_FALSE \<Longrightarrow> stored_as W (outv x) u
    \<Longrightarrow> moved W (Some (Some k, res)) m [(U k, x)] (m(int_to_uint res := u))"

text \<open>A run: the replies of the valuator and the values given, with what they do to the stack.\<close>

definition moving :: "'v reply \<Rightarrow> bool" where
  "moving r \<longleftrightarrow> ret r = MARPA_STEP_RULE \<or> ret r = MARPA_STEP_TOKEN \<or> ret r = MARPA_STEP_NULLING_SYMBOL"

inductive value_machine ::
  "('e, 'd, 'v) world \<Rightarrow> ('e, 'd) marpaWrapper \<Rightarrow> marpaWrapperValueOption \<Rightarrow> (nat \<rightharpoonup> 'o block)
     \<Rightarrow> (nat \<Rightarrow> 'v option) \<Rightarrow> (('d, 'v) call \<times> 'v reply) list \<Rightarrow> (nat \<Rightarrow> 'v option) \<Rightarrow> bool"
  for W w vo g where
  machine_done: "value_machine W w vo g m [] m"
| machine_other: "\<not> moving r \<Longrightarrow> value_machine W w vo g m es m'
    \<Longrightarrow> value_machine W w vo g m ((V (Marpa_v_step v), r) # es) m'"
| machine_move: "moving r \<Longrightarrow> moved W (step_wants w vo g r m) m ks m1 \<Longrightarrow> value_machine W w vo g m1 es m'
    \<Longrightarrow> value_machine W w vo g m ((V (Marpa_v_step v), r) # ks @ es) m'"

end
