(* ===== verification/ValueMachine.thy ===== *)
theory ValueMachine
  imports ValueMemory
begin

text \<open>
  The steps of \<open>marpaWrapper_vb\<close> against the stack machine of \<open>ValueMemory\<close>: a step that falls
  through is a move of the machine, and a step that leaves keeps the memory in order.
\<close>

section \<open>The tables of the wrapper\<close>

definition in_frame :: "(nat \<rightharpoonup> 'o block) \<Rightarrow> ptr \<Rightarrow> bool" where
  "in_frame g p \<longleftrightarrow> (\<forall>a. p = Ref a \<longrightarrow> g a \<noteq> None)"

definition tables_in :: "(nat \<rightharpoonup> ('d, 'v) obj block) \<Rightarrow> ('e, 'd) marpaWrapper \<Rightarrow> bool" where
  "tables_in g w \<longleftrightarrow> in_frame g (marpaWrapperSymbolpp w) \<and> in_frame g (marpaWrapperRulepp w)"

lemma value_frame_base: "value_frame g po pi f \<Longrightarrow> g a = Some b \<Longrightarrow> f a = Some b"
  by (cases po; cases pi) (auto simp: value_frame_def)

lemma frame_cell_get:
  assumes V: "value_heap W g l h m" and t: "in_frame g p" and run: "arr_get p (nat i) h = Some q" "0 \<le> i"
  shows "frame_cell g p i = Some q"
proof -
  from V obtain f where f: "value_frame g (output_ptr l) (valueInputArraypp l) f" "holds W (genericStackp l) h m f"
    unfolding value_heap_def by blast
  from run obtain a cs where a: "p = Ref a" "store h a = Some (Arr cs)" "nat i < length cs" "cs ! nat i = Some q"
    by (auto simp: arr_get_Some arr_at_Some)
  with t obtain b where b: "g a = Some b" by (auto simp: in_frame_def)
  with a(2) value_frame_base [OF f(1) b] holds_frame [OF f(2)] have "g a = Some (Arr cs)" by simp
  with a run(2) show ?thesis by (simp add: frame_cell_def)
qed

section \<open>The step of a rule\<close>

lemma input_drop_heap:
  assumes V: "value_heap W g l h m" and run: "cfree (valueInputArraypp l) h = Some h'"
  shows "value_heap W g (l\<lparr>valueInputArraypp := Null\<rparr>) h' m" "value_at h' (output_ptr l) = value_at h (output_ptr l)"
proof -
  from V obtain f where f: "value_frame g (output_ptr l) (valueInputArraypp l) f" "holds W (genericStackp l) h m f"
    unfolding value_heap_def by blast
  have "value_heap W g (l\<lparr>valueInputArraypp := Null\<rparr>) h' m \<and> value_at h' (output_ptr l) = value_at h (output_ptr l)"
  proof (cases "valueInputArraypp l")
    case Null
    with run V show ?thesis by (auto simp: value_heap_def output_ptr_def)
  next
    case (Ref b)
    with f(1) obtain cs where b: "f b = Some (Arr cs)" by (metis value_frame_input)
    from run Ref have h': "h' = drop_block b h" by (auto simp: cfree_Some simp del: cfree.simps)
    have "value_frame g (output_ptr l) Null (f(b := None))" using f(1) Ref by (simp add: value_frame_input_drop)
    with holds_drop [OF f(2), of b] b h' have "value_heap W g (l\<lparr>valueInputArraypp := Null\<rparr>) h' m"
      by (auto simp: value_heap_def output_ptr_def)
    moreover have "output_ptr l \<noteq> Ref b" using value_frame_output [OF f(1)] b by (auto simp: value_arg_def)
    then have "value_at h' (output_ptr l) = value_at h (output_ptr l)"
      by (simp add: value_at_def h' obj_at_drop_block)
    ultimately show ?thesis by blast
  qed
  then show "value_heap W g (l\<lparr>valueInputArraypp := Null\<rparr>) h' m" "value_at h' (output_ptr l) = value_at h (output_ptr l)"
    by blast+
qed

lemma store_rule_heap:
  assumes V: "value_heap W g l (hp c) m" and run: "store_rule i l c = Some (e, l', c')"
  obtains u where "value_heap W g l' (hp c') (m(int_to_uint i := u))" "valueInputArraypp l' = Null" "seen c c' []"
    "e = Next \<and> stored_as W (value_at (hp c) (output_ptr l)) u \<or> e = Leave MARPAWRAPPER_BOOL_FALSE"
proof -
  from run obtain h where h: "cfree (valueInputArraypp l) (hp c) = Some h"
    and s: "store_result i (l\<lparr>valueInputArraypp := Null\<rparr>) (c\<lparr>hp := h\<rparr>) = Some (e, l', c')"
    by (auto simp: store_rule_def bind_Some_iff)
  note D = input_drop_heap [OF V h]
  have V': "value_heap W g (l\<lparr>valueInputArraypp := Null\<rparr>) (hp (c\<lparr>hp := h\<rparr>)) m" using D(1) by simp
  have o: "output_ptr (l\<lparr>valueInputArraypp := Null\<rparr>) = output_ptr l" by (simp add: output_ptr_def)
  from store_heap [OF V' s] obtain u where u: "value_heap W g l' (hp c') (m(int_to_uint i := u))"
    "l' = (l\<lparr>valueInputArraypp := Null\<rparr>)\<lparr>genericStackp := genericStackp l'\<rparr>" "seen (c\<lparr>hp := h\<rparr>) c' []"
    "e = Next \<and> stored_as W (value_at (hp (c\<lparr>hp := h\<rparr>)) (output_ptr (l\<lparr>valueInputArraypp := Null\<rparr>))) u
      \<or> e = Leave MARPAWRAPPER_BOOL_FALSE" .
  have "valueInputArraypp l' = Null" by (subst u(2)) simp
  with u(1,3,4) D(2) o that show thesis by simp
qed

text \<open>The call of the rule callback, with the inputs in the array.\<close>

lemma call_rule_heap:
  assumes V: "value_heap W g l (hp c) m" and n: "output_ptr l = Null" "valueOutputp l \<noteq> None"
    and W: "own_outputs W" "ready W" and t: "in_frame g (marpaWrapperRulepp w)"
    and a: "store (hp c) a = Some (Arr (map Some ps @ rest))"
    and run: "call_rule W w vo rule (Ref a) (length ps) l c = Some (e, l', c')"
  obtains ks where "value_heap W g l' (hp c') m" "seen c c' ks" "valueOutputp l' \<noteq> None"
    "e = Leave MARPAWRAPPER_BOOL_FALSE
     \<or> e = Next \<and> \<not> valueRuleCallbackp vo \<and> ks = [] \<and> output_ptr l' = Null
     \<or> (\<exists>rp x. e = Next \<and> valueRuleCallbackp vo \<and> frame_cell g (marpaWrapperRulepp w) rule = Some rp
          \<and> ks = [(U (ValueRuleCallback rp (map (value_at (hp c)) ps)), x)]
          \<and> ret x \<noteq> MARPAWRAPPER_BOOL_FALSE \<and> value_at (hp c') (output_ptr l') = outv x)"
proof (cases "valueRuleCallbackp vo")
  case False
  with run V n that [of "[]"] show thesis by (auto simp: call_rule_def)
next
  case True
  with run obtain rp ins where rp: "0 \<le> rule" "arr_get (marpaWrapperRulepp w) (nat rule) (hp c) = Some rp"
    and ins: "arr_read (Ref a) 0 (length ps) (hp c) = Some ins"
    and cb: "value_callback W w (ValueRuleCallback rp (map (value_at (hp c)) ins)) ins
          ''valueRuleCallbackp() failure'' l c = Some (e, l', c')"
    by (auto simp: call_rule_def run_simps)
  have "arr_at (hp c) (Ref a) = Some (map Some ps @ rest)" using a by simp
  from arr_read_run [OF this, of 0 "length ps"] ins have ins: "ins = ps" by simp
  have "gives_value (ValueRuleCallback rp (map (value_at (hp c)) ins))" by (simp add: gives_value_def)
  from callback_heap [OF V n(1) W this cb] obtain p x where x: "l' = l\<lparr>valueOutputp := Some p\<rparr>" "value_heap W g l' (hp c') m"
    "seen c c' [(U (ValueRuleCallback rp (map (value_at (hp c)) ins)), x)]"
    "e = Next \<and> ret x \<noteq> MARPAWRAPPER_BOOL_FALSE \<and> value_at (hp c') p = outv x \<or> e = Leave MARPAWRAPPER_BOOL_FALSE" .
  with True frame_cell_get [OF V t rp(2,1)] ins that show thesis by (auto simp: output_ptr_def)
qed

text \<open>A step that falls through is a move; every step keeps the memory in order.\<close>

definition step_ok ::
  "('e, 'd, 'v) world \<Rightarrow> (nat \<rightharpoonup> ('d, 'v) obj block) \<Rightarrow> (('d, 'v) user_call option \<times> int) option
     \<Rightarrow> (nat \<Rightarrow> 'v option) \<Rightarrow> ('e, 'd, 'v) wstate
     \<Rightarrow> value_flow \<Rightarrow> ('e, 'd, 'v) value_locals \<Rightarrow> ('e, 'd, 'v) wstate \<Rightarrow> bool" where
  "step_ok W g want m c e l' c' \<longleftrightarrow> (\<exists>m' ks. value_heap W g l' (hp c') m' \<and> seen c c' ks
     \<and> (e = Leave MARPAWRAPPER_BOOL_FALSE
        \<or> e = Next \<and> valueInputArraypp l' = Null \<and> moved W want m ks m'))"

lemma rule_heap:
  assumes V: "value_heap W g l (hp c) m" and n: "valueOutputp l = Some Null" "valueInputArraypp l = Null"
    and W: "own_outputs W" "ready W" and t: "in_frame g (marpaWrapperRulepp w)"
    and r: "ret r = MARPA_STEP_RULE" and run: "step_rule W w vo r l c = Some (e, l', c')"
  shows "step_ok W g (step_wants w vo g r m) m c e l' c'"
proof -
  obtain rule first final res where o: "out r 2 = Some rule" "out r 3 = Some first" "out r 4 = Some final" "out r 5 = Some res"
    using run by (auto simp: step_rule_def run_simps)
  let ?n = "int_to_size (final - first + 1)"
  define cells where "cells = replicate (to_size (?n * PTR_BYTES) div PTR_BYTES) (None :: ptr option)"
  obtain arrp h1 where m1: "malloc (Arr cells) (hp c) = (arrp, h1)" by (rule prod.exhaust)
  from V n obtain f where f: "value_frame g Null Null f" "holds W (genericStackp l) (hp c) m f"
    unfolding value_heap_def output_ptr_def by auto
  then have f: "holds W (genericStackp l) (hp c) m g" by simp
  from m1 show ?thesis
  proof (cases rule: malloc_cases)
    case 1
    with run o m1 obtain c1 where c1: "log_sys_error W w ''malloc()'' (c\<lparr>hp := h1\<rparr>) = Some c1"
      and e: "e = Leave MARPAWRAPPER_BOOL_FALSE" "l' = l" "c' = c1"
      by (auto simp: step_rule_def run_simps cells_def Let_def)
    have "value_heap W g l (hp (c\<lparr>hp := h1\<rparr>)) m"
      using value_heap_same [OF V] 1 by simp
    then have "value_heap W g l' (hp c') m"
      using value_heap_logged log_sys_error_logged [OF c1 _ ready_clock [OF W(2)]] value_heap_ok e by blast
    moreover have "seen c c' []" using seen_queries [OF log_sys_error_queries [OF c1]] e by simp
    ultimately show ?thesis using e(1) unfolding step_ok_def by blast
  next
    case 2
    let ?a = "fresh (hp c)"
    from run o m1 2 obtain sp c1 where ft: "fetch_inputs (Ref ?a) first 0 ?n (genericStackp l) (c\<lparr>hp := h1\<rparr>) = Some (sp, c1)"
      and rest: "and_then (call_rule W w vo rule (Ref ?a) ?n (l\<lparr>valueInputArraypp := Ref ?a, genericStackp := sp\<rparr>) c1) (store_rule res)
        = Some (e, l', c')"
      by (auto simp: step_rule_def run_simps cells_def Let_def)
    note N = holds_new(1) [where b = "Arr cells", OF f] holds_new(3) [OF f]
    have H: "holds W (genericStackp l) (hp (c\<lparr>hp := h1\<rparr>)) m (g(?a \<mapsto> Arr cells))" using N(1) 2 by simp
    have at: "(g(?a \<mapsto> Arr cells)) ?a = Some (Arr cells)" by simp
    from fetch_heap [OF H at ft] obtain ps where ps: "length ps = ?n"
      "holds W sp (hp c1) m ((g(?a \<mapsto> Arr cells))(?a \<mapsto> Arr (take 0 cells @ map Some ps @ drop (0 + ?n) cells)))"
      "\<forall>k < ?n. value_at (hp c1) (ps ! k) = m (to_uint (int_to_size first + (0 + k)))"
      and seen1: "seen (c\<lparr>hp := h1\<rparr>) c1 []"
      by blast
    let ?cells = "map Some ps @ drop ?n cells" and ?l = "l\<lparr>valueInputArraypp := Ref ?a, genericStackp := sp\<rparr>"
    have H1: "holds W sp (hp c1) m (g(?a \<mapsto> Arr ?cells))" using ps(2) by (simp only: fun_upd_upd take_0 append_Nil add_0)
    have args: "map (value_at (hp c1)) ps = arguments m first final"
      using ps(1,3) by (intro nth_equalityI) (simp_all add: arguments_def)
    have "value_frame g Null (Ref ?a) (g(?a \<mapsto> Arr ?cells))"
      by (rule value_frame_input_new) (use N(2) in simp_all)
    then have V1: "value_heap W g ?l (hp c1) m" using H1 n(1) by (auto simp: value_heap_def output_ptr_def)
    have a: "store (hp c1) ?a = Some (Arr ?cells)" using holds_frame [OF H1] by simp
    from rest obtain e1 l1 c2 where cr: "call_rule W w vo rule (Ref ?a) (length ps) ?l c1 = Some (e1, l1, c2)"
      and fin: "(case e1 of Leave x \<Rightarrow> Some (e1, l1, c2) | _ \<Rightarrow> store_rule res l1 c2) = Some (e, l', c')"
      using ps(1) by (auto simp: and_then_def bind_Some_iff)
    have n1: "output_ptr ?l = Null" "valueOutputp ?l \<noteq> None" using n(1) by (simp_all add: output_ptr_def)
    from call_rule_heap [OF V1 n1 W t a cr] obtain ks where C: "value_heap W g l1 (hp c2) m" "seen c1 c2 ks"
      "e1 = Leave MARPAWRAPPER_BOOL_FALSE
     \<or> e1 = Next \<and> \<not> valueRuleCallbackp vo \<and> ks = [] \<and> output_ptr l1 = Null
     \<or> (\<exists>rp x. e1 = Next \<and> valueRuleCallbackp vo \<and> frame_cell g (marpaWrapperRulepp w) rule = Some rp
          \<and> ks = [(U (ValueRuleCallback rp (map (value_at (hp c1)) ps)), x)]
          \<and> ret x \<noteq> MARPAWRAPPER_BOOL_FALSE \<and> value_at (hp c2) (output_ptr l1) = outv x)" .
    have seen2: "seen c c2 ks" using seen_trans [OF seen1 C(2)] by simp
    show ?thesis
    proof (cases "e1 = Next")
      case False
      with C(3) fin have "e = Leave MARPAWRAPPER_BOOL_FALSE" "l' = l1" "c' = c2" by auto
      with C(1) seen2 show ?thesis unfolding step_ok_def by blast
    next
      case True
      with fin have "store_rule res l1 c2 = Some (e, l', c')" by simp
      from store_rule_heap [OF C(1) this] obtain u where u: "value_heap W g l' (hp c') (m(int_to_uint res := u))"
        "valueInputArraypp l' = Null" "seen c2 c' []"
        "e = Next \<and> stored_as W (value_at (hp c2) (output_ptr l1)) u \<or> e = Leave MARPAWRAPPER_BOOL_FALSE" .
      have seen3: "seen c c' ks" using seen_trans [OF seen2 u(3)] by simp
      have "moved W (step_wants w vo g r m) m ks (m(int_to_uint res := u))"
        if st: "stored_as W (value_at (hp c2) (output_ptr l1)) u"
      proof (cases "valueRuleCallbackp vo")
        case False
        with C(3) True have "ks = []" "output_ptr l1 = Null" by auto
        moreover from this(2) st have "u = None" by (simp add: stored_as_def value_at_def)
        ultimately show ?thesis using r o False by (simp add: step_wants_def moved_null)
      next
        case True
        with C(3) \<open>e1 = Next\<close> obtain rp x where x: "frame_cell g (marpaWrapperRulepp w) rule = Some rp"
          "ks = [(U (ValueRuleCallback rp (arguments m first final)), x)]"
          "ret x \<noteq> MARPAWRAPPER_BOOL_FALSE" "value_at (hp c2) (output_ptr l1) = outv x"
          using args by auto
        moreover from st x(4) have "stored_as W (outv x) u" by simp
        ultimately show ?thesis using r o True by (simp add: step_wants_def moved_value)
      qed
      with u(1,2,4) seen3 show ?thesis unfolding step_ok_def by blast
    qed
  qed
qed

section \<open>The steps of tokens and nulling symbols\<close>

lemma symbol_heap:
  assumes V: "value_heap W g l (hp c) m" and n: "valueOutputp l = Some Null" "valueInputArraypp l = Null"
    and W: "own_outputs W" "ready W" and t: "in_frame g (marpaWrapperSymbolpp w)"
    and k: "\<forall>f. k = Some f \<longrightarrow> (\<forall>p. gives_value (f p))"
    and run: "step_symbol W w k symi res s l c = Some (e, l', c')"
  shows "step_ok W g (case k of None \<Rightarrow> Some (None, res)
      | Some f \<Rightarrow> do { p \<leftarrow> frame_cell g (marpaWrapperSymbolpp w) symi; Some (Some (f p), res) }) m c e l' c'"
proof (cases k)
  case None
  with run have "store_result res l c = Some (e, l', c')" by (simp add: step_symbol_def and_then_def)
  from store_heap [OF V this] obtain u where u: "value_heap W g l' (hp c') (m(int_to_uint res := u))"
    "l' = l\<lparr>genericStackp := genericStackp l'\<rparr>" "seen c c' []"
    "e = Next \<and> stored_as W (value_at (hp c) (output_ptr l)) u \<or> e = Leave MARPAWRAPPER_BOOL_FALSE" .
  have "valueInputArraypp l' = Null" by (subst u(2)) (simp add: n)
  moreover have "u = None" if "stored_as W (value_at (hp c) (output_ptr l)) u"
    using that n by (simp add: stored_as_def value_at_def output_ptr_def)
  ultimately show ?thesis
    using u(1,3,4) None moved_null [of W res m] unfolding step_ok_def by auto
next
  case (Some f)
  with run obtain p e1 l1 c1 where p: "0 \<le> symi" "arr_get (marpaWrapperSymbolpp w) (nat symi) (hp c) = Some p"
    and cb: "value_callback W w (f p) [] s l c = Some (e1, l1, c1)"
    and fin: "(case e1 of Leave x \<Rightarrow> Some (e1, l1, c1) | _ \<Rightarrow> store_result res l1 c1) = Some (e, l', c')"
    by (auto simp: step_symbol_def and_then_def run_simps)
  have o: "output_ptr l = Null" using n by (simp add: output_ptr_def)
  have "gives_value (f p)" using k Some by simp
  from callback_heap [OF V o W this cb] obtain q x where x: "l1 = l\<lparr>valueOutputp := Some q\<rparr>" "value_heap W g l1 (hp c1) m"
    "seen c c1 [(U (f p), x)]"
    "e1 = Next \<and> ret x \<noteq> MARPAWRAPPER_BOOL_FALSE \<and> value_at (hp c1) q = outv x \<or> e1 = Leave MARPAWRAPPER_BOOL_FALSE" .
  show ?thesis
  proof (cases "e1 = Next")
    case False
    with x(4) fin have "e = Leave MARPAWRAPPER_BOOL_FALSE" "l' = l1" "c' = c1" by auto
    with x(2,3) show ?thesis unfolding step_ok_def by blast
  next
    case True
    with fin have "store_result res l1 c1 = Some (e, l', c')" by simp
    from store_heap [OF x(2) this] obtain u where u: "value_heap W g l' (hp c') (m(int_to_uint res := u))"
      "l' = l1\<lparr>genericStackp := genericStackp l'\<rparr>" "seen c1 c' []"
      "e = Next \<and> stored_as W (value_at (hp c1) (output_ptr l1)) u \<or> e = Leave MARPAWRAPPER_BOOL_FALSE" .
    have "valueInputArraypp l' = Null" by (subst u(2)) (simp add: n x(1))
    moreover have "output_ptr l1 = q" using x(1) by (simp add: output_ptr_def)
    then have "moved W (Some (Some (f p), res)) m [(U (f p), x)] (m(int_to_uint res := u))" if "e = Next"
      using that u(4) x(4) True by (intro moved_value) auto
    moreover have "seen c c' [(U (f p), x)]" using seen_trans [OF x(3) u(3)] by simp
    ultimately show ?thesis
      using u(1,4) Some frame_cell_get [OF V t p(2,1)] unfolding step_ok_def by auto
  qed
qed

lemma token_heap:
  assumes V: "value_heap W g l (hp c) m" and n: "valueOutputp l = Some Null" "valueInputArraypp l = Null"
    and W: "own_outputs W" "ready W" and t: "in_frame g (marpaWrapperSymbolpp w)"
    and r: "ret r = MARPA_STEP_TOKEN" and run: "step_token W w vo r l c = Some (e, l', c')"
  shows "step_ok W g (step_wants w vo g r m) m c e l' c'"
proof -
  obtain symi tok res where o: "out r 0 = Some symi" "out r 1 = Some tok" "out r 5 = Some res"
    and s: "step_symbol W w (if valueSymbolCallbackp vo then Some (\<lambda>p. ValueSymbolCallback p tok) else None)
       symi res ''valueSymbolCallbackp() failure'' l c = Some (e, l', c')"
    using run by (auto simp: step_token_def run_simps)
  have gives: "\<forall>f. (if valueSymbolCallbackp vo then Some (\<lambda>p. ValueSymbolCallback p tok) else None) = Some f \<longrightarrow> (\<forall>p. gives_value (f p))"
    by (auto simp: gives_value_def split: if_splits)
  show ?thesis
    using symbol_heap [OF V n W t gives s] r o by (simp add: step_wants_def marpa_consts split: if_splits)
qed

lemma nulling_heap:
  assumes V: "value_heap W g l (hp c) m" and n: "valueOutputp l = Some Null" "valueInputArraypp l = Null"
    and W: "own_outputs W" "ready W" and t: "in_frame g (marpaWrapperSymbolpp w)"
    and r: "ret r = MARPA_STEP_NULLING_SYMBOL" and run: "step_nulling W w vo r l c = Some (e, l', c')"
  shows "step_ok W g (step_wants w vo g r m) m c e l' c'"
proof -
  obtain symi res where o: "out r 0 = Some symi" "out r 5 = Some res"
    and s: "step_symbol W w (if valueNullingCallbackp vo then Some ValueNullingCallback else None)
       symi res ''valueNullingCallbackp() failure'' l c = Some (e, l', c')"
    using run by (auto simp: step_nulling_def run_simps)
  have gives: "\<forall>f. (if valueNullingCallbackp vo then Some ValueNullingCallback else None) = Some f \<longrightarrow> (\<forall>p. gives_value (f p))"
    by (auto simp: gives_value_def split: if_splits)
  show ?thesis
    using symbol_heap [OF V n W t gives s] r o by (simp add: step_wants_def marpa_consts split: if_splits)
qed

end
