(* ===== verification/ValueRun.thy ===== *)
theory ValueRun
  imports ValueMachine
begin

text \<open>
  The loops of \<open>marpaWrapper_vb\<close>: a tree that is evaluated to its end is a run of the stack machine,
  the result callback receives what the machine left at index 0, and the memory of the caller is
  as before when the function returns.
\<close>

section \<open>A step\<close>

text \<open>The memory is in order; between two steps there is nothing but the stack.\<close>

definition tidy ::
  "('e, 'd, 'v) world \<Rightarrow> (nat \<rightharpoonup> ('d, 'v) obj block) \<Rightarrow> ('e, 'd, 'v) value_locals
     \<Rightarrow> ('e, 'd, 'v) wstate \<Rightarrow> (nat \<Rightarrow> 'v option) \<Rightarrow> bool" where
  "tidy W g l c m \<longleftrightarrow> value_heap W g l (hp c) m \<and> output_ptr l = Null \<and> valueInputArraypp l = Null"

text \<open>What a phase of the evaluation does: it leaves with FALSE, or runs the machine.\<close>

definition run_ok ::
  "('e, 'd, 'v) world \<Rightarrow> ('e, 'd) marpaWrapper \<Rightarrow> marpaWrapperValueOption \<Rightarrow> (nat \<rightharpoonup> ('d, 'v) obj block)
     \<Rightarrow> (nat \<Rightarrow> 'v option) \<Rightarrow> ('e, 'd, 'v) wstate
     \<Rightarrow> value_flow \<Rightarrow> ('e, 'd, 'v) value_locals \<Rightarrow> ('e, 'd, 'v) wstate \<Rightarrow> bool" where
  "run_ok W w vo g m c e l' c' \<longleftrightarrow> (\<exists>m' ks. value_heap W g l' (hp c') m' \<and> seen c c' ks
     \<and> (e = Leave MARPAWRAPPER_BOOL_FALSE
        \<or> (e = Next \<or> e = Inactive) \<and> tidy W g l' c' m' \<and> value_machine W w vo g m ks m'))"

lemma run_ok_drop:
  assumes S: "step_ok W g (step_wants w vo g r m) m c e1 l1 c1" and mv: "moving r"
    and c: "seen c0 c [(V (Marpa_v_step v), r)]"
    and run: "and_then (Some (e1, l1, c1)) (drop_output W so e0) = Some (e, l', c')" and e0: "e0 = Next \<or> e0 = Inactive"
  shows "run_ok W w vo g m c0 e l' c'"
proof -
  from S obtain m' ks where V: "value_heap W g l1 (hp c1) m'" and s: "seen c c1 ks"
    and m: "e1 = Leave MARPAWRAPPER_BOOL_FALSE \<or> e1 = Next \<and> valueInputArraypp l1 = Null \<and> moved W (step_wants w vo g r m) m ks m'"
    unfolding step_ok_def by blast
  have s1: "seen c0 c1 ((V (Marpa_v_step v), r) # ks)" using seen_trans [OF c s] by simp
  from m show ?thesis
  proof
    assume "e1 = Leave MARPAWRAPPER_BOOL_FALSE"
    with run V s1 show ?thesis unfolding run_ok_def by (auto simp: and_then_def)
  next
    assume n: "e1 = Next \<and> valueInputArraypp l1 = Null \<and> moved W (step_wants w vo g r m) m ks m'"
    with run have "drop_output W so e0 l1 c1 = Some (e, l', c')" by (simp add: and_then_def)
    note D = drop_heap [OF V this]
    have s2: "seen c0 c' ((V (Marpa_v_step v), r) # ks)" using seen_trans [OF s1, of c' "[]"] D by simp
    have "value_machine W w vo g m ((V (Marpa_v_step v), r) # ks @ []) m'"
      using mv n by (blast intro: machine_move machine_done)
    then have "value_machine W w vo g m ((V (Marpa_v_step v), r) # ks) m'" by simp
    with D s2 n e0 show ?thesis unfolding run_ok_def tidy_def by auto
  qed
qed

lemma step_runs:
  assumes T: "tidy W g l c m" and W: "own_outputs W" "ready W" and t: "tables_in g w"
    and run: "value_step W w vo so l c = Some (e, l', c')"
  shows "run_ok W w vo g m c e l' c'"
proof -
  let ?k = "V (Marpa_v_step (marpaValuep l))"
  obtain r c1 where call: "call W ?k c = (r, c1)" by (rule prod.exhaust)
  have s: "seen c c1 [(?k, r)]" using seen_call [of c W ?k] call by simp
  have hp: "hp c1 = hp c" using call by (metis hp_call snd_conv)
  let ?l = "l\<lparr>valueOutputp := Some Null\<rparr>"
  have "output_ptr ?l = Null" by (simp add: output_ptr_def)
  with T hp have V: "value_heap W g ?l (hp c1) m" by (auto simp: tidy_def value_heap_def)
  have n: "valueOutputp ?l = Some Null" "valueInputArraypp ?l = Null" using T by (simp_all add: tidy_def)
  have t': "in_frame g (marpaWrapperRulepp w)" "in_frame g (marpaWrapperSymbolpp w)" using t by (simp_all add: tables_in_def)
  consider (rule) "ret r = MARPA_STEP_RULE" | (token) "ret r = MARPA_STEP_TOKEN" | (nulling) "ret r = MARPA_STEP_NULLING_SYMBOL"
    | (other) "\<not> moving r" by (auto simp: moving_def)
  then show ?thesis
  proof cases
    case rule
    with run call have "and_then (step_rule W w vo r ?l c1) (drop_output W so Next) = Some (e, l', c')"
      by (simp add: value_step_def)
    moreover from this obtain e1 l1 c2 where st: "step_rule W w vo r ?l c1 = Some (e1, l1, c2)"
      by (auto simp: and_then_def bind_Some_iff)
    ultimately show ?thesis
      using run_ok_drop [OF rule_heap [OF V n W t'(1) rule st] _ s] rule by (simp add: moving_def)
  next
    case token
    with run call have "and_then (step_token W w vo r ?l c1) (drop_output W so Next) = Some (e, l', c')"
      by (simp add: value_step_def marpa_consts)
    moreover from this obtain e1 l1 c2 where st: "step_token W w vo r ?l c1 = Some (e1, l1, c2)"
      by (auto simp: and_then_def bind_Some_iff)
    ultimately show ?thesis
      using run_ok_drop [OF token_heap [OF V n W t'(2) token st] _ s] token by (simp add: moving_def)
  next
    case nulling
    with run call have "and_then (step_nulling W w vo r ?l c1) (drop_output W so Next) = Some (e, l', c')"
      by (simp add: value_step_def marpa_consts)
    moreover from this obtain e1 l1 c2 where st: "step_nulling W w vo r ?l c1 = Some (e1, l1, c2)"
      by (auto simp: and_then_def bind_Some_iff)
    ultimately show ?thesis
      using run_ok_drop [OF nulling_heap [OF V n W t'(2) nulling st] _ s] nulling by (simp add: moving_def)
  next
    case other
    with run call have "\<exists>e0. (e0 = Next \<or> e0 = Inactive) \<and> drop_output W so e0 ?l c1 = Some (e, l', c')"
      by (cases "ret r = MARPA_STEP_INACTIVE") (auto simp: value_step_def moving_def Let_def)
    then obtain e0 where e0: "e0 = Next \<or> e0 = Inactive" "drop_output W so e0 ?l c1 = Some (e, l', c')" by blast
    then have "l' = ?l" "e = e0" "c' = c1" by (simp_all add: drop_output_def)
    moreover have "value_machine W w vo g m [(?k, r)] m" using other by (blast intro: machine_other machine_done)
    moreover have "tidy W g ?l c1 m" using V n by (simp add: tidy_def output_ptr_def)
    ultimately show ?thesis using V s e0(1) unfolding run_ok_def by blast
  qed
qed

section \<open>The loop over the steps\<close>

lemma machine_append:
  "value_machine W w vo g m ks m1 \<Longrightarrow> value_machine W w vo g m1 ls m2 \<Longrightarrow> value_machine W w vo g m (ks @ ls) m2"
proof (induction rule: value_machine.induct)
  case (machine_done m)
  then show ?case by simp
next
  case (machine_other r m es m')
  then show ?case by (simp add: value_machine.machine_other)
next
  case (machine_move r m ks m1 es m')
  then have "value_machine W w vo g m1 (es @ ls) m2" by simp
  from value_machine.machine_move [OF machine_move(1,2) this] show ?case by simp
qed

lemma run_ok_trans:
  assumes A: "value_machine W w vo g m ks m1" "seen c c1 ks" and B: "run_ok W w vo g m1 c1 e l' c'"
  shows "run_ok W w vo g m c e l' c'"
  using B machine_append [OF A(1)] seen_trans [OF A(2)] unfolding run_ok_def by meson

lemma steps_run:
  assumes "value_steps W w vo so l c = Some (e, l', c')" "tidy W g l c m" "own_outputs W" "ready W" "tables_in g w"
  shows "run_ok W w vo g m c e l' c' \<and> e \<noteq> Next"
proof -
  let ?P = "\<lambda>W w vo so l c (e, l', c'). own_outputs W \<longrightarrow> ready W \<longrightarrow> tables_in g w \<longrightarrow>
    (\<forall>m. tidy W g l c m \<longrightarrow> run_ok W w vo g m c e l' c' \<and> e \<noteq> Next)"
  have "?P W w vo so l c (e, l', c')"
  proof (rule value_steps.raw_induct [OF _ assms(1)])
    fix f :: "('a, 'b, 'c) world \<Rightarrow> ('a, 'b) marpaWrapper \<Rightarrow> marpaWrapperValueOption \<Rightarrow> marpaWrapperStackOption
      \<Rightarrow> ('a, 'b, 'c) value_locals \<Rightarrow> ('a, 'b, 'c) wstate \<Rightarrow> ('a, 'b, 'c) value_result"
      and W and w :: "('a, 'b) marpaWrapper" and vo so l c r
    assume IH: "\<And>W w vo so l c r. f W w vo so l c = Some r \<Longrightarrow> ?P W w vo so l c r"
      and run: "do { (e, l1, c1) \<leftarrow> value_step W w vo so l c;
        if e = Next then f W w vo so l1 c1 else Some (e, l1, c1) } = Some r"
    obtain e2 l2 c2 where r: "r = (e2, l2, c2)" by (rule prod_cases3)
    from run obtain e1 l1 c1 where st: "value_step W w vo so l c = Some (e1, l1, c1)"
      and rest: "(if e1 = Next then f W w vo so l1 c1 else Some (e1, l1, c1)) = Some r"
      by (auto simp: bind_Some_iff)
    show "?P W w vo so l c r"
      unfolding r prod.case
    proof (intro impI allI)
      fix m
      assume W: "own_outputs W" "ready W" and t: "tables_in g w" and T: "tidy W g l c m"
      note S = step_runs [OF T W t st]
      show "run_ok W w vo g m c e2 l2 c2 \<and> e2 \<noteq> Next"
      proof (cases "e1 = Next")
        case False
        with rest r S show ?thesis by auto
      next
        case True
        with S obtain m1 ks where m1: "seen c c1 ks" "tidy W g l1 c1 m1" "value_machine W w vo g m ks m1"
          unfolding run_ok_def by auto
        from True rest r have "f W w vo so l1 c1 = Some (e2, l2, c2)" by simp
        from IH [OF this] W t m1(2) have "run_ok W w vo g m1 c1 e2 l2 c2 \<and> e2 \<noteq> Next" by simp
        with run_ok_trans [OF m1(3,1)] show ?thesis by blast
      qed
    qed
  qed
  with assms(2-) show ?thesis by simp
qed

section \<open>The result of a tree\<close>

definition result_flow :: "int \<Rightarrow> value_flow" where
  "result_flow i =
     (if i = MARPAWRAPPER_VALUECALLBACKBOOL_FALSE then Leave MARPAWRAPPER_BOOL_FALSE
      else if i = MARPAWRAPPER_VALUECALLBACKBOOL_STOP then Leave MARPAWRAPPER_BOOL_TRUE else Next)"

lemma stack_locals: "tidy W g l c m \<Longrightarrow> holds W (genericStackp l) (hp c) m g"
  by (auto simp: tidy_def value_heap_def)

lemma tidyI:
  "holds W (genericStackp l) (hp c) m g \<Longrightarrow> output_ptr l = Null \<Longrightarrow> valueInputArraypp l = Null \<Longrightarrow> tidy W g l c m"
  by (auto simp: tidy_def value_heap_def)

lemma tidy_update [simp]: "output_ptr (l\<lparr>genericStackp := sp\<rparr>) = output_ptr l"
  by (simp add: output_ptr_def)

lemma result_runs:
  assumes T: "tidy W g l c m" and W: "ready W" and run: "give_result W w vo l c = Some (e, l', c')"
  shows "tidy W g l' c' m" "e \<noteq> Inactive"
    "valueResultCallbackp vo \<Longrightarrow> \<exists>c1 c2 x. seen c c1 [] \<and> call W (U (ValueResultCallback (m 0))) c1 = (x, c2)
       \<and> (ret x \<noteq> MARPAWRAPPER_VALUECALLBACKBOOL_FALSE \<longrightarrow> c' = c2) \<and> e = result_flow (ret x)"
proof -
  have "tidy W g l' c' m \<and> e \<noteq> Inactive \<and> (valueResultCallbackp vo \<longrightarrow>
      (\<exists>c1 c2 x. seen c c1 [] \<and> call W (U (ValueResultCallback (m 0))) c1 = (x, c2)
       \<and> (ret x \<noteq> MARPAWRAPPER_VALUECALLBACKBOOL_FALSE \<longrightarrow> c' = c2) \<and> e = result_flow (ret x)))"
  proof (cases "valueResultCallbackp vo")
    case False
    with run T show ?thesis by (auto simp: give_result_def)
  next
    case True
    with run obtain p sp c1 where get: "stack_get (genericStackp l) 0 c = Some ((p, sp), c1)"
      by (auto simp: give_result_def bind_Some_iff)
    note G = stack_get_holds [OF stack_locals [OF T] get]
    let ?l = "l\<lparr>genericStackp := sp\<rparr>"
    obtain x c2 where x: "call W (U (ValueResultCallback (m 0))) c1 = (x, c2)" by (rule prod.exhaust)
    then have hp: "hp c2 = hp c1" by (metis hp_call snd_conv)
    have T2: "tidy W g ?l c2 m" using G(1) T hp by (intro tidyI) (simp_all add: tidy_def)
    have l: "give_result W w vo l c =
        (if ret x = MARPAWRAPPER_VALUECALLBACKBOOL_FALSE
         then do { c3 \<leftarrow> log_error0 W w ''valueResultCallbackp() failure'' c2; Some (Leave MARPAWRAPPER_BOOL_FALSE, ?l, c3) }
         else if ret x = MARPAWRAPPER_VALUECALLBACKBOOL_STOP then Some (Leave MARPAWRAPPER_BOOL_TRUE, ?l, c2)
         else Some (Next, ?l, c2))"
      using True get x G(2) by (simp add: give_result_def)
    show ?thesis
    proof (cases "ret x = MARPAWRAPPER_VALUECALLBACKBOOL_FALSE")
      case False
      with run l have "l' = ?l" "c' = c2" "e = result_flow (ret x)" by (auto simp: result_flow_def split: if_splits)
      moreover have "result_flow (ret x) \<noteq> Inactive" by (simp add: result_flow_def)
      ultimately show ?thesis using T2 x G(5) by metis
    next
      case R: True
      with run l obtain c3 where c3: "log_error0 W w ''valueResultCallbackp() failure'' c2 = Some c3"
        and e: "e = Leave MARPAWRAPPER_BOOL_FALSE" "l' = ?l" "c' = c3" by (auto simp: bind_Some_iff)
      have "heap_ok (hp c2)" using holds_ok [OF stack_locals [OF T2]] .
      from log_error0_logged [OF c3 this ready_clock [OF W]] have "tidy W g ?l c3 m"
        using T2 value_heap_logged by (auto simp: tidy_def)
      moreover have "result_flow (ret x) = e" using R e by (simp add: result_flow_def)
      ultimately show ?thesis using e R x G(5) by (metis value_flow.distinct(5))
    qed
  qed
  then show "tidy W g l' c' m" "e \<noteq> Inactive"
    "valueResultCallbackp vo \<Longrightarrow> \<exists>c1 c2 x. seen c c1 [] \<and> call W (U (ValueResultCallback (m 0))) c1 = (x, c2)
       \<and> (ret x \<noteq> MARPAWRAPPER_VALUECALLBACKBOOL_FALSE \<longrightarrow> c' = c2) \<and> e = result_flow (ret x)" by blast+
qed

section \<open>The trees\<close>

lemma or_leave_heap:
  assumes V: "value_heap W g l (hp c) m" and W: "ready W"
    and upd: "\<And>i h. value_heap W g (upd i l) h m = value_heap W g l h m"
    and run: "or_leave W w k good upd l c = Some (e, l', c')"
  shows "value_heap W g l' (hp c') m" "e = Leave MARPAWRAPPER_BOOL_FALSE \<and> l' = l \<or> e = Next \<and> (\<exists>i. l' = upd i l)"
proof -
  have "value_heap W g l' (hp c') m \<and> (e = Leave MARPAWRAPPER_BOOL_FALSE \<and> l' = l \<or> e = Next \<and> (\<exists>i. l' = upd i l))"
  proof (cases "good (ret (fst (call W (V k) c)))")
    case True
    with run V upd show ?thesis by (auto simp: or_leave_def checked_good)
  next
    case False
    let ?c = "snd (call W (V k) c)"
    from False run have log: "log_marpa_g_error W w ?c = Some c'" and e: "e = Leave MARPAWRAPPER_BOOL_FALSE" "l' = l"
      by (auto simp: or_leave_def checked_def split_def Let_def bind_Some_iff)
    have V1: "value_heap W g l (hp ?c) m" using V by simp
    from log_marpa_g_error_logs [OF W value_heap_ok [OF V1], of w] log have "logged ?c c'" by (auto simp: logs_def)
    from value_heap_logged [OF V1 this] e show ?thesis by simp
  qed
  then show "value_heap W g l' (hp c') m" "e = Leave MARPAWRAPPER_BOOL_FALSE \<and> l' = l \<or> e = Next \<and> (\<exists>i. l' = upd i l)"
    by blast+
qed

text \<open>Nothing but the caller's blocks; and some state of the memory in order.\<close>

definition idle ::
  "('e, 'd, 'v) world \<Rightarrow> (nat \<rightharpoonup> ('d, 'v) obj block) \<Rightarrow> ('e, 'd, 'v) value_locals \<Rightarrow> ('e, 'd, 'v) wstate \<Rightarrow> bool" where
  "idle W g l c \<longleftrightarrow> tidy W g l c (\<lambda>_. None) \<and> genericStackp l = None"

definition mem ::
  "('e, 'd, 'v) world \<Rightarrow> (nat \<rightharpoonup> ('d, 'v) obj block) \<Rightarrow> ('e, 'd, 'v) value_locals \<Rightarrow> ('e, 'd, 'v) wstate \<Rightarrow> bool" where
  "mem W g l c \<longleftrightarrow> (\<exists>m. value_heap W g l (hp c) m)"

lemma idle_mem: "idle W g l c \<Longrightarrow> mem W g l c"
  by (auto simp: idle_def mem_def tidy_def)

lemma idle_heap: "idle W g l c \<longleftrightarrow> value_heap W g l (hp c) (\<lambda>_. None) \<and> output_ptr l = Null
    \<and> valueInputArraypp l = Null \<and> genericStackp l = None"
  by (auto simp: idle_def tidy_def)

lemma output_ptr_update [simp]:
  "output_ptr (l\<lparr>marpaValuep := v\<rparr>) = output_ptr l" "output_ptr (l\<lparr>marpaTreep := v\<rparr>) = output_ptr l"
  "output_ptr (l\<lparr>marpaOrderp := v\<rparr>) = output_ptr l" "output_ptr (l\<lparr>marpaBocagep := v\<rparr>) = output_ptr l"
  by (simp_all add: output_ptr_def)

lemma or_leave_idle:
  assumes "ready W" "\<And>i l h. value_heap W g (upd i l) h (\<lambda>_. None) = value_heap W g l h (\<lambda>_. None)"
    "\<And>i l. output_ptr (upd i l) = output_ptr l" "\<And>i l. valueInputArraypp (upd i l) = valueInputArraypp l"
    "\<And>i l. genericStackp (upd i l) = genericStackp l"
  shows "triple (idle W g) (\<lambda>l. or_leave W w (k l) good upd l) (idle W g) (mem W g)"
proof (rule tripleI)
  fix l c e l' c'
  assume P: "idle W g l c" and run: "or_leave W w (k l) good upd l c = Some (e, l', c')"
  then have V: "value_heap W g l (hp c) (\<lambda>_. None)" by (simp add: idle_heap)
  note O = or_leave_heap [OF V assms(1) assms(2) run]
  from O P assms show "case e of Leave r \<Rightarrow> mem W g l' c' | _ \<Rightarrow> idle W g l' c'"
    by (auto simp: idle_heap mem_def)
qed

lemma unless_found_idle:
  assumes "ready W"
  shows "triple (idle W g) (\<lambda>l. unless_found W w (k l) bad s l) (idle W g) (mem W g)"
proof (rule tripleI)
  fix l c e l' c'
  assume P: "idle W g l c" and run: "unless_found W w (k l) bad s l c = Some (e, l', c')"
  obtain r c1 where call: "call W (V (k l)) c = (r, c1)" by (rule prod.exhaust)
  then have hp: "hp c1 = hp c" by (metis hp_call snd_conv)
  show "case e of Leave r \<Rightarrow> mem W g l' c' | _ \<Rightarrow> idle W g l' c'"
  proof (cases "bad (ret r)")
    case True
    with run call have log: "log_error0 W w s c1 = Some c'" and e: "e = Leave MARPAWRAPPER_BOOL_FALSE" "l' = l"
      by (auto simp: unless_found_def bind_Some_iff)
    have V: "value_heap W g l (hp c1) (\<lambda>_. None)" using P hp by (simp add: idle_heap)
    from value_heap_logged [OF V log_error0_logged [OF log value_heap_ok [OF V] ready_clock [OF assms]]] e
    show ?thesis by (auto simp: mem_def)
  next
    case False
    with run call P hp show ?thesis by (auto simp: unless_found_def idle_heap)
  qed
qed

lemma triple_call: "(\<And>l c. P l c \<Longrightarrow> P l (snd (call W (k l) c))) \<Longrightarrow> triple P f Q E
    \<Longrightarrow> triple P (\<lambda>l c. f l (snd (call W (k l) c))) Q E"
  unfolding triple_def by blast

lemma setup_idle:
  assumes W: "ready W"
  shows "triple (idle W g) (value_setup W w vo) (idle W g) (mem W g)"
proof -
  have skip: "triple (idle W g) (\<lambda>l c. Some (Next, l, c)) (idle W g) (mem W g)" by (rule triple_skip)
  have kept: "triple (idle W g) (\<lambda>l. or_leave W w (k l) good (\<lambda>i l. l) l) (idle W g) (mem W g)" for k good
    by (rule or_leave_idle [OF W]) simp_all
  have o: "triple (idle W g) (\<lambda>l. or_leave W w (k l) good (\<lambda>i l. l\<lparr>marpaOrderp := i\<rparr>) l) (idle W g) (mem W g)" for k good
    by (rule or_leave_idle [OF W]) simp_all
  have t: "triple (idle W g) (\<lambda>l. or_leave W w (k l) good (\<lambda>i l. l\<lparr>marpaTreep := i\<rparr>) l) (idle W g) (mem W g)" for k good
    by (rule or_leave_idle [OF W]) simp_all
  show ?thesis
  proof (rule tripleI)
    fix l c e l' c'
    assume P: "idle W g l c" and run: "value_setup W w vo l c = Some (e, l', c')"
    obtain r c1 where call: "call W (R (Marpa_r_latest_earley_set (marpaRecognizerp w))) c = (r, c1)" by (rule prod.exhaust)
    then have "hp c1 = hp c" by (metis hp_call snd_conv)
    with P have P1: "idle W g l c1" by (simp add: idle_heap)
    have b: "triple (idle W g) (\<lambda>l. or_leave W w (Marpa_b_new (marpaRecognizerp w) (ret r)) good (\<lambda>i l. l\<lparr>marpaBocagep := i\<rparr>) l) (idle W g) (mem W g)" for good
      by (rule or_leave_idle [OF W]) simp_all
    have F: "triple (idle W g) (\<lambda>l c.
      and_then (or_leave W w (Marpa_b_new (marpaRecognizerp w) (ret r)) (\<lambda>i. i \<noteq> 0)
                  (\<lambda>i l. l\<lparr>marpaBocagep := i\<rparr>) l c) (\<lambda>l c.
      and_then (or_leave W w (Marpa_o_new (marpaBocagep l)) (\<lambda>i. i \<noteq> 0) (\<lambda>i l. l\<lparr>marpaOrderp := i\<rparr>) l c) (\<lambda>l c.
      and_then (or_leave W w (Marpa_o_high_rank_only_set (marpaOrderp l) (if highRankOnlyb vo then 1 else 0)) (\<lambda>i. i = (if highRankOnlyb vo then 1 else 0)) (\<lambda>i l. l) l c) (\<lambda>l c.
      and_then (if orderByRankb vo
                then or_leave W w (Marpa_o_rank (marpaOrderp l)) (\<lambda>i. i \<noteq> - 2) (\<lambda>i l. l) l c
                else Some (Next, l, c)) (\<lambda>l c.
      and_then (if \<not> ambiguityb vo
                then unless_found W w (Marpa_o_ambiguity_metric (marpaOrderp l)) (\<lambda>i. 1 < i)
                       ''Ambiguous parse detected after bocage'' l c
                else Some (Next, l, c)) (\<lambda>l c.
      and_then (if \<not> nullb vo
                then unless_found W w (Marpa_o_is_null (marpaOrderp l)) (\<lambda>i. 1 \<le> i)
                       ''Null parse detected after bocage'' l c
                else Some (Next, l, c)) (\<lambda>l c.
      or_leave W w (Marpa_t_new (marpaOrderp l)) (\<lambda>i. i \<noteq> 0) (\<lambda>i l. l\<lparr>marpaTreep := i\<rparr>) l c))))))) (idle W g) (mem W g)"
      by (intro triple_seq [where Q = "idle W g"] b o t kept triple_if skip unless_found_idle W)
    show "case e of Leave r \<Rightarrow> mem W g l' c' | _ \<Rightarrow> idle W g l' c'"
      by (rule tripleD [OF F P1]) (use run call in \<open>simp add: value_setup_def Let_def\<close>)
  qed
qed

lemma start_tree_tidy:
  assumes W: "ready W"
  shows "triple (idle W g) (start_tree W w so) (\<lambda>l c. tidy W g l c (\<lambda>_. None)) (mem W g)"
proof -
  have kept: "triple (idle W g) (\<lambda>l. or_leave W w (k l) good (\<lambda>i l. l) l) (idle W g) (mem W g)" for k good
    by (rule or_leave_idle [OF W]) simp_all
  have v: "triple (idle W g) (\<lambda>l. or_leave W w (k l) good (\<lambda>i l. l\<lparr>marpaValuep := i\<rparr>) l) (idle W g) (mem W g)" for k good
    by (rule or_leave_idle [OF W]) simp_all
  have s: "triple (idle W g) (\<lambda>l c. do {
       (sp, c1) \<leftarrow> stack_new W w so c;
       Some (if sp = None then Leave MARPAWRAPPER_BOOL_FALSE else Next, l\<lparr>genericStackp := sp\<rparr>, c1)
     }) (\<lambda>l c. tidy W g l c (\<lambda>_. None)) (mem W g)"
  proof (rule tripleI)
    fix l c e l' c'
    assume P: "idle W g l c" and run: "do {
       (sp, c1) \<leftarrow> stack_new W w so c;
       Some (if sp = None then Leave MARPAWRAPPER_BOOL_FALSE else Next, l\<lparr>genericStackp := sp\<rparr>, c1)
     } = Some (e, l', c')"
    from run obtain sp where sp: "stack_new W w so c = Some (sp, c')" "l' = l\<lparr>genericStackp := sp\<rparr>"
      by (auto simp: bind_Some_iff)
    have "holds W None (hp c) (\<lambda>_. None) g" using stack_locals [of W g l c] P by (simp add: idle_def)
    from stack_new_holds(1) [OF this sp(1)] P sp(2) have "tidy W g l' c' (\<lambda>_. None)"
      by (intro tidyI) (simp_all add: idle_heap)
    then show "case e of Leave r \<Rightarrow> mem W g l' c' | _ \<Rightarrow> tidy W g l' c' (\<lambda>_. None)"
      by (auto simp: mem_def tidy_def split: value_flow.splits)
  qed
  show ?thesis
    unfolding start_tree_def [abs_def] by (rule triple_seq [OF v triple_seq [OF kept s]])
qed

lemma end_tree_idle: "triple (\<lambda>l c. \<exists>m. tidy W g l c m) (end_tree W) (idle W g) (mem W g)"
proof (rule tripleI)
  fix l c e l' c'
  assume P: "\<exists>m. tidy W g l c m" and run: "end_tree W l c = Some (e, l', c')"
  then obtain m where T: "tidy W g l c m" by blast
  from run obtain sp c1 where d: "stack_destroy (genericStackp l) c = Some (sp, c1)"
    and l': "l' = l\<lparr>genericStackp := None, marpaValuep := 0\<rparr>" "c' = snd (call W (V (Marpa_v_unref (marpaValuep l))) c1)" "e = Next"
    by (auto simp: end_tree_def bind_Some_iff Let_def)
  have "holds W (genericStackp l') (hp c') (\<lambda>_. None) g"
    using stack_destroy_holds(1) [OF stack_locals [OF T] d] l' by simp
  then have "tidy W g l' c' (\<lambda>_. None)" by (rule tidyI) (use T l' in \<open>simp_all add: tidy_def\<close>)
  then show "case e of Leave r \<Rightarrow> mem W g l' c' | _ \<Rightarrow> idle W g l' c'" by (simp add: l' idle_def)
qed

section \<open>The whole function\<close>

lemma one_tree:
  assumes W: "own_outputs W" "ready W" and t: "tables_in g w"
  shows "triple (idle W g) (\<lambda>l c. and_then (start_tree W w so l c) (\<lambda>l c.
      and_then (value_steps W w vo so l c) (\<lambda>l c. and_then (give_result W w vo l c) (end_tree W)))) (idle W g) (mem W g)"
proof -
  have steps: "triple (\<lambda>l c. tidy W g l c (\<lambda>_. None)) (value_steps W w vo so) (\<lambda>l c. \<exists>m. tidy W g l c m) (mem W g)"
  proof (rule tripleI)
    fix l c e l' c'
    assume T: "tidy W g l c (\<lambda>_. None)" and run: "value_steps W w vo so l c = Some (e, l', c')"
    from steps_run [OF run T W t] show "case e of Leave r \<Rightarrow> mem W g l' c' | _ \<Rightarrow> \<exists>m. tidy W g l' c' m"
      by (auto simp: run_ok_def mem_def split: value_flow.splits)
  qed
  have result: "triple (\<lambda>l c. \<exists>m. tidy W g l c m) (give_result W w vo) (\<lambda>l c. \<exists>m. tidy W g l c m) (mem W g)"
  proof (rule tripleI)
    fix l c e l' c'
    assume "\<exists>m. tidy W g l c m" and run: "give_result W w vo l c = Some (e, l', c')"
    then obtain m where T: "tidy W g l c m" by blast
    from result_runs(1) [OF T W(2) run] show "case e of Leave r \<Rightarrow> mem W g l' c' | _ \<Rightarrow> \<exists>m. tidy W g l' c' m"
      by (auto simp: mem_def tidy_def split: value_flow.splits)
  qed
  show ?thesis
    by (rule triple_seq [OF start_tree_tidy [OF W(2)] triple_seq [OF steps triple_seq [OF result end_tree_idle]]])
qed

lemma trees_mem:
  assumes "value_trees W w vo so l c = Some (e, l', c')" "idle W g l c" "own_outputs W" "ready W" "tables_in g w"
  shows "mem W g l' c'"
proof -
  let ?P = "\<lambda>W w vo so l c (e :: value_flow, l', c'). own_outputs W \<longrightarrow> ready W \<longrightarrow> tables_in g w \<longrightarrow>
    idle W g l c \<longrightarrow> mem W g l' c'"
  have "?P W w vo so l c (e, l', c')"
  proof (rule value_trees.raw_induct [OF _ assms(1)])
    fix f :: "('a, 'b, 'c) world \<Rightarrow> ('a, 'b) marpaWrapper \<Rightarrow> marpaWrapperValueOption \<Rightarrow> marpaWrapperStackOption
      \<Rightarrow> ('a, 'b, 'c) value_locals \<Rightarrow> ('a, 'b, 'c) wstate \<Rightarrow> ('a, 'b, 'c) value_result"
      and W :: "('a, 'b, 'c) world" and w :: "('a, 'b) marpaWrapper" and vo so l c r
    assume IH: "\<And>W w vo so l c r. f W w vo so l c = Some r \<Longrightarrow> ?P W w vo so l c r"
      and run: "(let (r, c1) = call W (V (Marpa_t_next (marpaTreep l))) c in
      if ret r < 0 then Some (Leave MARPAWRAPPER_BOOL_TRUE, l, c1)
      else do {
        (e, l2, c2) \<leftarrow>
          and_then (start_tree W w so l c1) (\<lambda>l c.
          and_then (value_steps W w vo so l c) (\<lambda>l c.
          and_then (give_result W w vo l c) (end_tree W)));
        (case e of Leave rc \<Rightarrow> Some (e, l2, c2) | _ \<Rightarrow> f W w vo so l2 c2)
      }) = Some r"
    obtain e2 l2 c2 where r: "r = (e2, l2, c2)" by (rule prod_cases3)
    obtain x y where x: "call W (V (Marpa_t_next (marpaTreep l))) c = (x, y)" by (rule prod.exhaust)
    then have hp: "hp y = hp c" by (metis hp_call snd_conv)
    show "?P W w vo so l c r"
      unfolding r prod.case
    proof (intro impI)
      assume W: "own_outputs W" "ready W" and t: "tables_in g w" and P: "idle W g l c"
      have P1: "idle W g l y" using P hp by (simp add: idle_heap)
      show "mem W g l2 c2"
      proof (cases "ret x < 0")
        case True
        with run r x P1 show ?thesis by (auto intro: idle_mem)
      next
        case False
        with run x obtain e3 l3 c3 where m: "and_then (start_tree W w so l y) (\<lambda>l c.
          and_then (value_steps W w vo so l c) (\<lambda>l c.
          and_then (give_result W w vo l c) (end_tree W))) = Some (e3, l3, c3)"
          and n: "(case e3 of Leave rc \<Rightarrow> Some (e3, l3, c3) | _ \<Rightarrow> f W w vo so l3 c3) = Some r"
          by (auto simp: Let_def bind_Some_iff)
        note S = tripleD [OF one_tree [OF W t] P1 m]
        show ?thesis
        proof (cases "\<exists>rc. e3 = Leave rc")
          case True
          with n r S show ?thesis by auto
        next
          case False
          with n S have "f W w vo so l3 c3 = Some r" "idle W g l3 c3" by (auto split: value_flow.splits)
          with IH [of W w vo so l3 c3 r] r W t show ?thesis by simp
        qed
      qed
    qed
  qed
  with assms(2-) show ?thesis by simp
qed

lemma unref_all_hp [simp]: "hp (unref_all W l c) = hp c"
  by (simp add: unref_all_def Let_def)

lemma end_store:
  assumes M: "mem W g l c" and run: "value_end W rcb l c = Some (rc, c')"
  shows "store (hp c') = g \<and> heap_ok (hp c')"
proof -
  from M obtain m f where f: "value_frame g (output_ptr l) (valueInputArraypp l) f" "holds W (genericStackp l) (hp c) m f"
    unfolding mem_def value_heap_def by blast
  from run obtain p h1 h2 c2 where p: "valueOutputp l = Some p"
    and h1: "(if p \<noteq> Null then cfree p (hp c) else Some (hp c)) = Some h1"
    and h2: "(if valueInputArraypp l \<noteq> Null then cfree (valueInputArraypp l) h1 else Some h1) = Some h2"
    and c2: "(if genericStackp l \<noteq> None
            then do { (sp, c2) \<leftarrow> stack_destroy (genericStackp l) (c\<lparr>hp := h2\<rparr>); Some c2 }
            else Some (c\<lparr>hp := h2\<rparr>)) = Some c2" and c': "c' = unref_all W l c2"
    by (auto simp: value_end_def bind_Some_iff simp del: cfree.simps)
  have o: "output_ptr l = p" using p by (simp add: output_ptr_def)
  obtain f1 where f1: "value_frame g Null (valueInputArraypp l) f1" "holds W (genericStackp l) h1 m f1"
  proof (cases p)
    case Null
    with f h1 o that show thesis by auto
  next
    case (Ref a)
    with h1 have h1: "h1 = drop_block a (hp c)" by (auto simp: cfree_Some simp del: cfree.simps)
    have "f a \<noteq> None" using value_frame_output [OF f(1)] o Ref by (auto simp: value_arg_def)
    from holds_drop [OF f(2) this] value_frame_output_drop [of g a] f(1) o Ref h1 that show thesis by auto
  qed
  obtain f2 where f2: "value_frame g Null Null f2" "holds W (genericStackp l) h2 m f2"
  proof (cases "valueInputArraypp l")
    case Null
    with f1 h2 that show thesis by auto
  next
    case (Ref b)
    with h2 have h2: "h2 = drop_block b h1" by (auto simp: cfree_Some simp del: cfree.simps)
    have "f1 b \<noteq> None" using value_frame_input [of g Null b f1] f1(1) Ref by auto
    from holds_drop [OF f1(2) this] value_frame_input_drop [of g Null b f1] f1(1) Ref h2 that show thesis by auto
  qed
  have "holds W None (hp c2) (\<lambda>_. None) g"
  proof (cases "genericStackp l")
    case None
    with c2 f2 show ?thesis by (auto simp: holds_def)
  next
    case (Some s)
    with c2 obtain sp where d: "stack_destroy (genericStackp l) (c\<lparr>hp := h2\<rparr>) = Some (sp, c2)"
      by (auto simp: bind_Some_iff)
    have "holds W (genericStackp l) (hp (c\<lparr>hp := h2\<rparr>)) m g" using f2 by simp
    from stack_destroy_holds(1) [OF this d] show ?thesis .
  qed
  with c' show ?thesis by (simp add: holds_def)
qed

lemma vb_store:
  assumes run: "marpaWrapper_vb W (Some w) vop sop c = Some (rc, c')" and ok: "heap_ok (hp c)"
    and W: "own_outputs W" "ready W" and t: "tables_in (store (hp c)) w"
  shows "store (hp c') = store (hp c) \<and> heap_ok (hp c')"
proof -
  have leaves: "(case e of Leave r \<Rightarrow> f r | _ \<Rightarrow> None) = Some y \<longleftrightarrow> (\<exists>r. e = Leave r \<and> f r = Some y)"
    for e and f :: "int \<Rightarrow> 'x option" and y by (cases e) auto
  have none: "value_end W b no_locals d = None" for b d
    by (simp add: value_end_def no_locals_def)
  let ?g = "store (hp c)"
  from run obtain so vo e l c1 rcb
    where m: "and_then (value_setup W w vo no_locals c) (value_trees W w vo so) = Some (e, l, c1)"
      and fin: "value_end W rcb l c1 = Some (rc, c')"
    by (auto simp: marpaWrapper_vb_def none bind_Some_iff leaves split: option.split_asm if_split_asm)
  have I: "idle W ?g no_locals c"
    using ok by (simp add: idle_heap value_heap_def holds_def no_locals_def output_ptr_def)
  have trees: "triple (idle W ?g) (value_trees W w vo so) (mem W ?g) (mem W ?g)"
    by (rule tripleI) (use trees_mem [OF _ _ W t] in \<open>auto split: value_flow.splits\<close>)
  have "triple (idle W ?g) (\<lambda>l c. and_then (value_setup W w vo l c) (value_trees W w vo so)) (mem W ?g) (mem W ?g)"
    by (rule triple_seq [OF setup_idle [OF W(2)] trees])
  from tripleD [OF this I m] have "mem W ?g l c1" by (simp split: value_flow.splits)
  from end_store [OF this fin] show ?thesis .
qed

end
