(* ===== verification/ValueProps.thy ===== *)
theory ValueProps
  imports ValueRun "HOL-Library.Code_Target_Nat"
begin

text \<open>
  What \<open>marpaWrapper_vb\<close> guarantees: which runs are defined at all, what happens to the libmarpa
  objects it makes and to the memory, and which value the result callback receives. The
  demonstrations run the function on a small calculator by evaluation.
\<close>

section \<open>A calculator\<close>

text \<open>
  A grammar with one symbol and one rule that adds its inputs, a tree with the tokens 3 and 4. The
  steps are told apart by the number of calls made before; \<open>sum_reply\<close> is the rule callback.
\<close>

definition step_reply :: "int \<Rightarrow> int list \<Rightarrow> nat reply" where
  "step_reply kind is = \<lparr>ret = kind, outs = is, outv = None\<rparr>"

definition value_reply :: "nat \<Rightarrow> nat reply" where
  "value_reply v = \<lparr>ret = 1, outs = [], outv = Some v\<rparr>"

definition sum_reply :: "nat option list \<Rightarrow> nat reply" where
  "sum_reply vs = value_reply (sum_list (List.map_filter id vs))"

definition calculator :: "(nat option list \<Rightarrow> nat reply) \<Rightarrow> (nat, nat) call \<Rightarrow> nat \<Rightarrow> nat reply" where
  "calculator rule k n =
     (case k of
        V (Marpa_t_next t) \<Rightarrow> number (if n < 10 then 0 else - 1)
      | V (Marpa_v_step v) \<Rightarrow>
          if n < 10 then step_reply MARPA_STEP_TOKEN [0, 3, 0, 0, 0, 0]
          else if n < 14 then step_reply MARPA_STEP_TOKEN [0, 4, 0, 0, 0, 1]
          else if n < 18 then step_reply MARPA_STEP_RULE [0, 0, 0, 0, 1, 0]
          else step_reply MARPA_STEP_INACTIVE []
      | U (ValueSymbolCallback p i) \<Rightarrow> value_reply (nat i)
      | U (ValueRuleCallback p vs) \<Rightarrow> rule vs
      | U (StackElementCopyCallback v) \<Rightarrow> value_reply v
      | _ \<Rightarrow> number 1)"

text \<open>The struct of the wrapper and its two tables.\<close>

definition calc_state :: "(nat, nat, nat) wstate" where
  "calc_state = \<lparr>hp = granted (Arr [Some (Ref 9)]) (granted (Arr [Some (Ref 8)]) (granted Raw (empty_heap (\<lambda>_. True)))),
     ext = \<lparr>env = 0, trace = []\<rparr>\<rparr>"

definition calc_wrapper :: "(nat, nat) marpaWrapper" where
  "calc_wrapper = (new_wrapper (Ref 0) default_wrapperOption)
     \<lparr>marpaGrammarp := 1, marpaRecognizerp := 1, sizeMarpaWrapperSymboli := 1, nMarpaWrapperSymboli := 1,
      marpaWrapperSymbolpp := Ref 1, sizeMarpaWrapperRulei := 1, nMarpaWrapperRulei := 1, marpaWrapperRulepp := Ref 2\<rparr>"

definition calc_option :: marpaWrapperValueOption where
  "calc_option = default_valueOption\<lparr>valueRuleCallbackp := True, valueSymbolCallbackp := True, valueResultCallbackp := True\<rparr>"

definition own_stack :: marpaWrapperStackOption where
  "own_stack = \<lparr>stackElementSizei = 8, stackElementFreeCallbackp = True, stackElementCopyCallbackp = True\<rparr>"

text \<open>What is handed to the result callback, and the result of the function.\<close>

definition shown :: "(int \<times> (nat, nat, nat) wstate) option \<Rightarrow> (int \<times> nat option list) option" where
  "shown = map_option (\<lambda>(rc, c). (rc, List.map_filter
     (\<lambda>(k, r). case k of U (ValueResultCallback v) \<Rightarrow> Some v | _ \<Rightarrow> None) (trace (ext c))))"

lemma calc_run:
  "shown (marpaWrapper_vb (demo_world (calculator sum_reply)) (Some calc_wrapper) (Some calc_option) (Some own_stack) calc_state)
     = Some (1, [Some 7])"
  by code_simp

lemma calc_returns:
  obtains c' where "marpaWrapper_vb (demo_world (calculator sum_reply)) (Some calc_wrapper) (Some calc_option)
    (Some own_stack) calc_state = Some (1, c')"
  using calc_run by (auto simp: shown_def)

section \<open>Which runs are defined\<close>

text \<open>C28: \<open>marpaWrapper_vb\<close> is defined only when it came to a step of the valuator: every exit before
  the first step (no wrapper, no stack option, no recognizer, no bocage, an ambiguous or a null parse)
  reads the uninitialised \<open>valueOutputp\<close> at the end label. A run that returns had all of these and
  has asked the valuator.\<close>

theorem vb_needs_step:
  assumes run: "marpaWrapper_vb W wp vop sop c = Some (rc, c')"
  shows "\<exists>w so t v r. wp = Some w \<and> sop = Some so \<and> marpaRecognizerp w \<noteq> 0
    \<and> calls_since c c' t \<and> (V (Marpa_v_step v), r) \<in> set t"
proof -
  have none: "value_end W b no_locals d = None" for b d
    by (simp add: value_end_def no_locals_def)
  from vb_traced [OF run] obtain t v r where "calls_since c c' t" "(V (Marpa_v_step v), r) \<in> set t"
    unfolding stepped_def by metis
  moreover from run have "\<exists>w so. wp = Some w \<and> sop = Some so \<and> marpaRecognizerp w \<noteq> 0"
    by (auto simp: marpaWrapper_vb_def none bind_Some_iff split: option.split_asm if_split_asm)
  ultimately show ?thesis by blast
qed

theorem vb_needs_step_witness:
  "\<exists>c' t v r. calls_since calc_state (c' :: (nat, nat, nat) wstate) t \<and> (V (Marpa_v_step v), r) \<in> set t"
proof -
  obtain c' where "marpaWrapper_vb (demo_world (calculator sum_reply)) (Some calc_wrapper) (Some calc_option)
    (Some own_stack) calc_state = Some (1, c')" by (rule calc_returns)
  from vb_needs_step [OF this] show ?thesis by blast
qed



section \<open>Memory\<close>

lemma calc_own: "own_outputs (demo_world (calculator sum_reply))"
  by (auto simp: own_outputs_def demo_world_def calculator_def value_reply_def sum_reply_def number_def gives_value_def
      split: user_call.splits)

lemma calc_tables: "tables_in (store (hp calc_state)) calc_wrapper"
  by (simp add: tables_in_def in_frame_def calc_state_def calc_wrapper_def new_wrapper_def empty_heap_def)

lemma calc_heap_ok: "heap_ok (hp calc_state)"
  by (simp add: calc_state_def)



text \<open>A callback that gives one of its inputs back, as a semantic action that selects a child
  would, makes \<open>marpaWrapper_vb\<close> free the block twice: the input belongs to the stack, which frees it
  too. A stack option without a free callback, the default of the header, is undefined as well.\<close>

definition first_input :: "nat option list \<Rightarrow> nat reply" where
  "first_input vs = \<lparr>ret = 1, outs = [0], outv = None\<rparr>"

theorem vb_input_given_back:
  "marpaWrapper_vb (demo_world (calculator first_input)) (Some calc_wrapper) (Some calc_option) (Some own_stack) calc_state
     = None
   \<and> marpaWrapper_vb (demo_world (calculator sum_reply)) (Some calc_wrapper) (Some calc_option)
      (Some (own_stack\<lparr>stackElementFreeCallbackp := False\<rparr>)) calc_state = None"
proof -
  have is_none: "x = None \<longleftrightarrow> Option.is_none x" for x :: "(int \<times> (nat, nat, nat) wstate) option"
    by (cases x) simp_all
  show ?thesis
    unfolding is_none by code_simp
qed

section \<open>The value of a tree\<close>

text \<open>C1: the evaluation of a tree runs the stack machine of the valuator: from the empty stack, the
  replies to \<open>marpa_v_step\<close> in their order, each with the value its callback gave, lead to a content
  \<open>m\<close>; a rule callback received the contents of its argument indices, its result went to the index
  of the result, and nothing else changed. The result callback receives the content of index 0, and
  its answer decides how the evaluation goes on.\<close>

theorem tree_evaluated:
  assumes l: "genericStackp l = None" "valueOutputp l = None \<or> valueOutputp l = Some Null" "valueInputArraypp l = Null"
    and c: "heap_ok (hp c)" "tables_in (store (hp c)) w" and W: "own_outputs W" "ready W"
    and start: "start_tree W w so l c = Some (Next, l1, c1)"
    and steps: "value_steps W w vo so l1 c1 = Some (Inactive, l2, c2)"
    and result: "give_result W w vo l2 c2 = Some (e, l3, c3)" "valueResultCallbackp vo"
  shows "\<exists>m ks c4 c5 x. seen c1 c2 ks \<and> value_machine W w vo (store (hp c)) (\<lambda>_. None) ks m
    \<and> seen c2 c4 [] \<and> call W (U (ValueResultCallback (m 0))) c4 = (x, c5) \<and> e = result_flow (ret x)"
proof -
  let ?g = "store (hp c)"
  have "idle W ?g l c"
    using l c(1) by (auto simp: idle_heap value_heap_def holds_def output_ptr_def)
  from tripleD [OF start_tree_tidy [OF W(2)] this start] have T1: "tidy W ?g l1 c1 (\<lambda>_. None)" by simp
  from steps_run [OF steps T1 W c(2)] obtain m ks where m: "tidy W ?g l2 c2 m" "seen c1 c2 ks"
    "value_machine W w vo ?g (\<lambda>_. None) ks m"
    unfolding run_ok_def by auto
  from result_runs(3) [OF m(1) W(2) result(1,2)] obtain c4 c5 x where
    "seen c2 c4 []" "call W (U (ValueResultCallback (m 0))) c4 = (x, c5)" "e = result_flow (ret x)" by blast
  with m(2,3) show ?thesis by (intro exI conjI)
qed

definition calc_tree :: "((nat, nat, nat) value_locals \<Rightarrow> (nat, nat, nat) wstate \<Rightarrow> (nat, nat, nat) value_result)
    \<Rightarrow> (value_flow \<times> (nat, nat, nat) value_locals \<times> (nat, nat, nat) wstate) option" where
  "calc_tree f = do {
     (e1, l1, c1) \<leftarrow> start_tree (demo_world (calculator sum_reply)) calc_wrapper own_stack no_locals calc_state;
     if e1 = Next then f l1 c1 else None
   }"

lemma calc_tree_run:
  "map_option fst (calc_tree (\<lambda>l c. do {
     (e2, l2, c2) \<leftarrow> value_steps (demo_world (calculator sum_reply)) calc_wrapper calc_option own_stack l c;
     if e2 = Inactive then give_result (demo_world (calculator sum_reply)) calc_wrapper calc_option l2 c2 else None
   })) = Some Next"
  by code_simp

theorem tree_evaluated_witness:
  "\<exists>c1 c2 m ks c4 c5 x. seen c1 c2 ks
     \<and> value_machine (demo_world (calculator sum_reply)) calc_wrapper calc_option (store (hp calc_state)) (\<lambda>_. None) ks m
     \<and> seen c2 c4 [] \<and> call (demo_world (calculator sum_reply)) (U (ValueResultCallback (m 0))) c4 = (x, c5)
     \<and> Next = result_flow (ret x)"
proof -
  from calc_tree_run obtain l1 c1 l2 c2 l3 c3 where
    runs: "start_tree (demo_world (calculator sum_reply)) calc_wrapper own_stack no_locals calc_state = Some (Next, l1, c1)"
    "value_steps (demo_world (calculator sum_reply)) calc_wrapper calc_option own_stack l1 c1 = Some (Inactive, l2, c2)"
    "give_result (demo_world (calculator sum_reply)) calc_wrapper calc_option l2 c2 = Some (Next, l3, c3)"
    by (auto simp: calc_tree_def bind_Some_iff split: if_split_asm)
  have "valueResultCallbackp calc_option" by (simp add: calc_option_def)
  from tree_evaluated [OF _ _ _ calc_heap_ok calc_tables calc_own demo_ready runs this]
  show ?thesis by (simp add: no_locals_def) blast
qed

end
