(* ===== verification/WrapperLexing.thy ===== *)
theory WrapperLexing
  imports WrapperRecognizer
begin

text \<open>
  \<open>marpaWrapper_r_recognizeb\<close> of \<open>src/src/marpaWrapper.c\<close>: the loop that asks the reader for data,
  tries the expected terminals (the longest ones first when only the longest acceptable tokens
  count), pushes the matches and completes the earleme. User callbacks do not touch the memory of the
  wrapper. An out parameter a callback leaves alone keeps its value, which is indeterminate (\<open>None\<close>)
  until the first time it is set.
\<close>

section \<open>Order of terminals\<close>

definition marpaWrapper_symbol_cmp :: "('d, 'v) obj heap \<Rightarrow> ptr \<Rightarrow> ptr \<Rightarrow> int option" where
  "marpaWrapper_symbol_cmp h p1 p2 = do {
     s1 \<leftarrow> symbol_at h p1;
     s2 \<leftarrow> symbol_at h p2;
     c1 \<leftarrow> firstChari (symbolOption s1);
     c2 \<leftarrow> firstChari (symbolOption s2);
     let l1 = sizel (symbolOption s1);
     let l2 = sizel (symbolOption s2);
     Some (if l1 < l2 then 1
           else if l1 = l2
           then (if c1 < 0 then 1 else if c2 < 0 then - 1
                 else if c1 < c2 then 1 else if c1 > c2 then - 1 else 0)
           else - 1)
   }"

text \<open>The comparison reads both symbols and their \<open>firstChari\<close>.\<close>

definition symbol_readable :: "('d, 'v) obj heap \<Rightarrow> ptr \<Rightarrow> bool" where
  "symbol_readable h p \<longleftrightarrow> marpaWrapper_symbol_cmp h p p \<noteq> None"

definition cmp_value :: "(ptr \<Rightarrow> ptr \<Rightarrow> int option) \<Rightarrow> ptr \<Rightarrow> ptr \<Rightarrow> int" where
  "cmp_value f p q = (case f p q of Some i \<Rightarrow> i | None \<Rightarrow> 0)"

section \<open>Trying the terminals\<close>

definition set_symbol :: "ptr \<Rightarrow> 'd marpaWrapperSymbol \<Rightarrow> ('d, 'v) obj heap \<Rightarrow> ('d, 'v) obj heap option" where
  "set_symbol p s h = obj_put p (SymbolObj s) h"

text \<open>
  The loop over the expected terminals. \<open>latm\<close> is the longest-match option, \<open>l\<close> the local
  \<open>lengthl\<close>, \<open>m\<close> the maximum so far. The third result is \<open>nbIsLexemebCallbackTruei\<close>.
\<close>

fun check_terminals ::
  "('e, 'd, 'v) world \<Rightarrow> bool \<Rightarrow> ptr \<Rightarrow> nat \<Rightarrow> nat \<Rightarrow> nat option \<Rightarrow> nat \<Rightarrow> nat \<Rightarrow> ('e, 'd, 'v) wstate
     \<Rightarrow> (nat option \<times> nat \<times> nat \<times> ('e, 'd, 'v) wstate) option" where
  "check_terminals W latm arrp i 0 l m b c = Some (l, m, b, c)"
| "check_terminals W latm arrp i (Suc n) l m b c = do {
     p \<leftarrow> arr_get arrp i (hp c);
     s \<leftarrow> symbol_at (hp c) p;
     if latm \<and> 0 < sizel (symbolOption s) \<and> sizel (symbolOption s) < m
     then do {
       h \<leftarrow> set_symbol p (s\<lparr>lengthl := Some 0\<rparr>) (hp c);
       check_terminals W latm arrp (Suc i) n l m b (c\<lparr>hp := h\<rparr>)
     }
     else
       (let (r, c1) = call W (U (IsLexemeCallback (symbol_datavp (symbolOption s)))) c;
            l1 = (case out r 0 of Some x \<Rightarrow> Some (int_to_size x) | None \<Rightarrow> l);
            s1 = s\<lparr>isLexemeb := Some (ret r)\<rparr> in
        if ret r = MARPAWRAPPER_BOOL_TRUE
        then do {
          x \<leftarrow> l1;
          h \<leftarrow> set_symbol p (s1\<lparr>lengthl := Some x\<rparr>) (hp c1);
          check_terminals W latm arrp (Suc i) n l1 (if m < x then x else m) (Suc b) (c1\<lparr>hp := h\<rparr>)
        }
        else do {
          h \<leftarrow> set_symbol p (s1\<lparr>lengthl := Some 0\<rparr>) (hp c1);
          check_terminals W latm arrp (Suc i) n l1 m b (c1\<lparr>hp := h\<rparr>)
        })
   }"

section \<open>Pushing the matches\<close>

text \<open>
  \<open>v\<close> is \<open>lexemeValuei\<close>, \<open>l\<close> is \<open>lexemelengthi\<close>. The first result is FALSE where the function leaves.
\<close>

fun push_terminals ::
  "('e, 'd, 'v) world \<Rightarrow> marpaWrapperRecognizerOption \<Rightarrow> ('e, 'd) marpaWrapper \<Rightarrow> ptr \<Rightarrow> nat \<Rightarrow> nat \<Rightarrow> nat
     \<Rightarrow> int \<Rightarrow> int option \<Rightarrow> ('e, 'd, 'v) wstate \<Rightarrow> (bool \<times> int option \<times> ('e, 'd, 'v) wstate) option" where
  "push_terminals W ro w arrp m i 0 v l c = Some (True, l, c)"
| "push_terminals W ro w arrp m i (Suc n) v l c = do {
     p \<leftarrow> arr_get arrp i (hp c);
     s \<leftarrow> symbol_at (hp c) p;
     len \<leftarrow> lengthl s;
     if (longestAcceptableTokenMatchb ro \<and> len = m) \<or> (\<not> longestAcceptableTokenMatchb ro \<and> 0 < len)
     then
       (let shared = longestAcceptableTokensShareTheSameValueAndLengthb ro;
            asks = (shared \<and> v = 0) \<or> \<not> shared;
            (r, c1) = (if asks then call W (U (LexemeValueCallback (symbol_datavp (symbolOption s)) v)) c
                       else (\<lparr>ret = MARPAWRAPPER_BOOL_TRUE, outs = [], outv = None\<rparr>, c));
            v1 = (case out r 0 of Some x \<Rightarrow> x | None \<Rightarrow> v);
            l1 = (case out r 1 of Some x \<Rightarrow> Some x | None \<Rightarrow> l) in
        if asks \<and> ret r = MARPAWRAPPER_BOOL_FALSE then Some (False, l1, c1)
        else do {
          x \<leftarrow> l1;
          (rc, c2) \<leftarrow> marpaWrapper_r_alternativeb W (Some w) p v1 x c1;
          if rc = MARPAWRAPPER_BOOL_FALSE then Some (False, l1, c2)
          else push_terminals W ro w arrp m (Suc i) n v1 l1 c2
        })
     else push_terminals W ro w arrp m (Suc i) n v l c
   }"

section \<open>The loop\<close>

text \<open>
  One round: the first result is FALSE where the function leaves with FALSE. The locals that outlive
  a round are \<open>lengthl\<close> and \<open>lexemelengthi\<close>.
\<close>

definition recognize_round ::
  "('e, 'd, 'v) world \<Rightarrow> marpaWrapperRecognizerOption \<Rightarrow> ('e, 'd) marpaWrapper \<Rightarrow> nat option \<Rightarrow> int option
     \<Rightarrow> ('e, 'd, 'v) wstate \<Rightarrow> (bool \<times> ('e, 'd) marpaWrapper \<times> nat option \<times> int option \<times> ('e, 'd, 'v) wstate) option" where
  "recognize_round W ro w l ll c = do {
     (rc, o1, wp, c1) \<leftarrow> marpaWrapper_r_terminals_expectedb W (Some w) c;
     w1 \<leftarrow> wp;
     if rc = MARPAWRAPPER_BOOL_FALSE then Some (False, w1, l, ll, c1)
     else do {
       (n, arrp) \<leftarrow> o1;
       h2 \<leftarrow> (if longestAcceptableTokenMatchb ro \<and> 1 < n
              then qsort_cells W (symbol_readable (hp c1)) (cmp_value (marpaWrapper_symbol_cmp (hp c1))) arrp n (hp c1)
              else Some (hp c1));
       (l1, m, b, c3) \<leftarrow> check_terminals W (longestAcceptableTokenMatchb ro) arrp 0 n l 0 0 (c1\<lparr>hp := h2\<rparr>);
       (ok, ll1, c4) \<leftarrow> (if 0 < m then push_terminals W ro w1 arrp m 0 n 0 ll c3 else Some (True, ll, c3));
       if \<not> ok then Some (False, w1, l1, ll1, c4)
       else do {
         (rc2, c5) \<leftarrow> marpaWrapper_r_completeb W (Some w1) c4;
         Some (rc2 \<noteq> MARPAWRAPPER_BOOL_FALSE, w1, l1, ll1, c5)
       }
     }
   }"

text \<open>\<open>eoi\<close> is \<open>endOfInputb\<close>; it is read after the loop.\<close>

partial_function (option) recognize_loop ::
  "('e, 'd, 'v) world \<Rightarrow> marpaWrapperRecognizerOption \<Rightarrow> ('e, 'd) marpaWrapper \<Rightarrow> int option \<Rightarrow> nat option
     \<Rightarrow> int option \<Rightarrow> ('e, 'd, 'v) wstate \<Rightarrow> (int \<times> ('e, 'd) marpaWrapper option \<times> ('e, 'd, 'v) wstate) option" where
  "recognize_loop W ro w eoi l ll c =
     (let (r, c1) = call W (U ReaderCallback) c;
          eoi1 = (case out r 0 of Some x \<Rightarrow> Some x | None \<Rightarrow> eoi) in
      if ret r = MARPAWRAPPER_BOOL_TRUE
      then do {
        (ok, w1, l1, ll1, c2) \<leftarrow> recognize_round W ro w l ll c1;
        if ok then recognize_loop W ro w1 eoi1 l1 ll1 c2
        else Some (MARPAWRAPPER_BOOL_FALSE, Some w1, c2)
      }
      else do {
        e \<leftarrow> eoi1;
        Some (if e = MARPAWRAPPER_BOOL_FALSE \<and> \<not> remainingDataIsOkb ro
              then MARPAWRAPPER_BOOL_FALSE else MARPAWRAPPER_BOOL_TRUE, Some w, c1)
      })"

declare recognize_loop.simps [code]

definition marpaWrapper_r_recognizeb ::
  "('e, 'd, 'v) world \<Rightarrow> ('e, 'd) marpaWrapper option \<Rightarrow> marpaWrapperRecognizerOption option
     \<Rightarrow> ('e, 'd, 'v) wstate \<Rightarrow> (int \<times> ('e, 'd) marpaWrapper option \<times> ('e, 'd, 'v) wstate) option" where
  "marpaWrapper_r_recognizeb W wp rop c =
     (case wp of
        None \<Rightarrow> Some (MARPAWRAPPER_BOOL_FALSE, None, c)
      | Some w \<Rightarrow>
          (case rop of
             None \<Rightarrow> Some (MARPAWRAPPER_BOOL_FALSE, Some w, c)
           | Some ro \<Rightarrow>
               if \<not> readerCallbackp ro \<or> \<not> isLexemebCallbackp ro \<or> \<not> lexemeValuebCallbackp ro
               then Some (MARPAWRAPPER_BOOL_FALSE, Some w, c)
               else do {
                 (rc, wp1, c1) \<leftarrow> marpaWrapper_r_startb W (Some w) c;
                 w1 \<leftarrow> wp1;
                 if rc = MARPAWRAPPER_BOOL_FALSE then Some (MARPAWRAPPER_BOOL_FALSE, Some w1, c1)
                 else recognize_loop W ro w1 None None None c1
               }))"

end
