(* ===== verification/WrapperProgress.thy ===== *)
theory WrapperProgress
  imports WrapperRecognizer
begin

text \<open>
  \<open>marpaWrapper_r_progressb\<close> of \<open>src/src/marpaWrapper.c\<close>: the progress report of a range of Earley
  sets, kept in the wrapper's third table and sorted by rule and position.
\<close>

section \<open>Order of items\<close>

definition marpaWrapper_progress_cmp :: "('d, 'v) obj heap \<Rightarrow> ptr \<Rightarrow> ptr \<Rightarrow> int option" where
  "marpaWrapper_progress_cmp h a b = do {
     p1 \<leftarrow> progress_at h a;
     p2 \<leftarrow> progress_at h b;
     r1 \<leftarrow> rule_at h (progressRulep p1);
     r2 \<leftarrow> rule_at h (progressRulep p2);
     Some (if marpaRuleIdi r1 < marpaRuleIdi r2 then - 1
           else if marpaRuleIdi r1 > marpaRuleIdi r2 then 1
           else if positioni p1 < positioni p2 then - 1
           else if positioni p1 > positioni p2 then 1
           else 0)
   }"

definition progress_readable :: "('d, 'v) obj heap \<Rightarrow> ptr \<Rightarrow> bool" where
  "progress_readable h p \<longleftrightarrow> marpaWrapper_progress_cmp h p p \<noteq> None"

definition progress_order :: "('d, 'v) obj heap \<Rightarrow> ptr \<Rightarrow> ptr \<Rightarrow> int" where
  "progress_order h p q = (case marpaWrapper_progress_cmp h p q of Some i \<Rightarrow> i | None \<Rightarrow> 0)"

section \<open>Ranges\<close>

text \<open>A bound counts from the end when it is negative. The addition is one of \<open>int\<close>s.\<close>

definition range_bound :: "int \<Rightarrow> int \<Rightarrow> int" where
  "range_bound latest i = (if i < 0 then i + (latest + 1) else i)"

datatype range_check = Range int int | Complaint string

definition check_range :: "int \<Rightarrow> int \<Rightarrow> int \<Rightarrow> range_check" where
  "check_range latest starti endi =
     (let s = range_bound latest starti; e = range_bound latest endi;
          r = ''['' @ show_int (- (latest + 1)) @ ''-'' @ show_int latest @ '']'' in
      if s < 0 \<or> s > latest then Complaint (''starti must be in range '' @ r)
      else if e < 0 \<or> e > latest then Complaint (''endi must be in range '' @ r)
      else if s > e
      then Complaint (''[starti,endi] range evaluated to ['' @ show_int s @ ''-'' @ show_int e @ '']'')
      else Range s e)"

section \<open>Collecting\<close>

text \<open>How a loop ends: at its end, by \<open>break\<close> after \<open>rcb\<close> was set to FALSE, or by a \<open>return\<close>.\<close>

datatype loop_end = Finished | Broken | Returned

text \<open>
  The items of one Earley set. \<open>k\<close> is the local counter of the items kept so far. The block of an item
  is allocated with placeholders, which are overwritten before anything reads them.
\<close>

fun progress_items ::
  "('e, 'd, 'v) world \<Rightarrow> int \<Rightarrow> nat \<Rightarrow> nat \<Rightarrow> nat \<Rightarrow> ('e, 'd) marpaWrapper \<Rightarrow> ('e, 'd, 'v) wstate
     \<Rightarrow> (loop_end \<times> nat \<times> ('e, 'd) marpaWrapper \<times> ('e, 'd, 'v) wstate) option" where
  "progress_items W es i 0 k w c = Some (Finished, k, w, c)"
| "progress_items W es i (Suc n) k w c = do {
     (x, c1) \<leftarrow> checked W w (R (Marpa_r_progress_item (marpaRecognizerp w))) (\<lambda>r. r \<noteq> - 2) c;
     (case x of
        None \<Rightarrow> Some (Broken, k, w, c1)
      | Some r \<Rightarrow>
          if ret r = - 1
          then do {
            c2 \<leftarrow> log_error0 W w (''Progress report No '' @ show_int (int i) @ '' at Earley Set Id ''
                    @ show_int es @ '' failure'') c1;
            Some (Broken, k, w, c2)
          }
          else do {
            (t, q, m, h2) \<leftarrow> manageBuf_createp (marpaWrapperProgresspp w) (sizeMarpaWrapperProgressi w)
                              (k + 1) PTR_BYTES (hp c1);
            let w1 = w\<lparr>marpaWrapperProgresspp := q, sizeMarpaWrapperProgressi := m\<rparr>;
            if t = Null
            then do {
              c2 \<leftarrow> log_sys_error W w1 ''manageBuf_createp()'' (c1\<lparr>hp := h2\<rparr>);
              Some (Broken, k, w1, c2)
            }
            else do {
              let (p, h3) = malloc (Obj (ProgressObj \<lparr>progressEarleySetIdi = es, progressOrigini = 0,
                              progressRulep = Null, positioni = 0\<rparr>)) h2;
              if p = Null
              then do {
                c2 \<leftarrow> log_sys_error W w1 ''malloc()'' (c1\<lparr>hp := h3\<rparr>);
                Some (Returned, k, w1, c2)
              }
              else do {
                pos \<leftarrow> out r 0;
                orig \<leftarrow> out r 1;
                _ \<leftarrow> require (0 \<le> ret r);
                rp \<leftarrow> arr_get (marpaWrapperRulepp w1) (nat (ret r)) h3;
                h4 \<leftarrow> obj_put p (ProgressObj \<lparr>progressEarleySetIdi = es, progressOrigini = orig,
                        progressRulep = rp, positioni = pos\<rparr>) h3;
                h5 \<leftarrow> arr_put q k p h4;
                progress_items W es (Suc i) n (k + 1) (w1\<lparr>nMarpaWrapperProgressi := k + 1\<rparr>) (c1\<lparr>hp := h5\<rparr>)
              }
            }
          })
   }"

text \<open>The Earley sets from \<open>es\<close> on, \<open>n\<close> of them.\<close>

fun progress_sets ::
  "('e, 'd, 'v) world \<Rightarrow> int \<Rightarrow> nat \<Rightarrow> nat \<Rightarrow> ('e, 'd) marpaWrapper \<Rightarrow> ('e, 'd, 'v) wstate
     \<Rightarrow> (loop_end \<times> ('e, 'd) marpaWrapper \<times> ('e, 'd, 'v) wstate) option" where
  "progress_sets W es 0 k w c = Some (Finished, w, c)"
| "progress_sets W es (Suc n) k w c = do {
     (x, c1) \<leftarrow> checked W w (R (Marpa_r_earleme (marpaRecognizerp w) es)) (\<lambda>r. r \<noteq> - 2) c;
     if x = None then Some (Broken, w, c1)
     else do {
       (y, c2) \<leftarrow> checked W w (R (Marpa_r_progress_report_start (marpaRecognizerp w) es)) (\<lambda>r. r \<noteq> - 2) c1;
       (case y of
          None \<Rightarrow> Some (Broken, w, c2)
        | Some r \<Rightarrow>
            if ret r < 0
            then do {
              c3 \<leftarrow> log_error0 W w (''Number of items for progress report at Earley Set Id '' @ show_int es
                      @ '' is '' @ show_int (ret r)) c2;
              Some (Broken, w, c3)
            }
            else do {
              (e, k1, w1, c3) \<leftarrow> progress_items W es 0 (nat (ret r)) k w c2;
              if e = Finished then progress_sets W (es + 1) n k1 w1 c3 else Some (e, w1, c3)
            })
     }
   }"

section \<open>The report\<close>

text \<open>The result, what is stored for the caller (number and table), the wrapper and the state.\<close>

definition finish_report ::
  "('e, 'd, 'v) world \<Rightarrow> bool \<Rightarrow> ('e, 'd) marpaWrapper \<Rightarrow> ('e, 'd, 'v) wstate
     \<Rightarrow> (int \<times> (nat \<times> ptr) option \<times> ('e, 'd) marpaWrapper option \<times> ('e, 'd, 'v) wstate) option" where
  "finish_report W rcb w c = do {
     (x, c1) \<leftarrow> checked W w (R (Marpa_r_progress_report_finish (marpaRecognizerp w))) (\<lambda>r. \<not> r < 0) c;
     if rcb \<and> x \<noteq> None
     then do {
       h2 \<leftarrow> (if 0 < nMarpaWrapperProgressi w
              then qsort_cells W (progress_readable (hp c1)) (progress_order (hp c1))
                     (marpaWrapperProgresspp w) (nMarpaWrapperProgressi w) (hp c1)
              else Some (hp c1));
       Some (MARPAWRAPPER_BOOL_TRUE, Some (nMarpaWrapperProgressi w, marpaWrapperProgresspp w), Some w, c1\<lparr>hp := h2\<rparr>)
     }
     else Some (MARPAWRAPPER_BOOL_FALSE, None, Some w, c1)
   }"

definition marpaWrapper_r_progressb ::
  "('e, 'd, 'v) world \<Rightarrow> ('e, 'd) marpaWrapper option \<Rightarrow> int \<Rightarrow> int \<Rightarrow> ('e, 'd, 'v) wstate
     \<Rightarrow> (int \<times> (nat \<times> ptr) option \<times> ('e, 'd) marpaWrapper option \<times> ('e, 'd, 'v) wstate) option" where
  "marpaWrapper_r_progressb W wp starti endi c =
     (case wp of
        None \<Rightarrow> Some (MARPAWRAPPER_BOOL_FALSE, None, None, c)
      | Some w \<Rightarrow>
          if marpaRecognizerp w = 0
          then do { c1 \<leftarrow> no_read_phase W w c; Some (MARPAWRAPPER_BOOL_FALSE, None, Some w, c1) }
          else do {
            h1 \<leftarrow> manageBuf_freev (marpaWrapperProgresspp w) (nMarpaWrapperProgressi w) (hp c);
            let w1 = w\<lparr>marpaWrapperProgresspp := Null, sizeMarpaWrapperProgressi := 0, nMarpaWrapperProgressi := 0\<rparr>;
            let (r, c2) = call W (R (Marpa_r_latest_earley_set (marpaRecognizerp w1))) (c\<lparr>hp := h1\<rparr>);
            _ \<leftarrow> require (ret r < int INT_MAX);
            (case check_range (ret r) starti endi of
               Complaint s \<Rightarrow> do {
                 c3 \<leftarrow> log_error0 W w1 s c2;
                 Some (MARPAWRAPPER_BOOL_FALSE, None, Some w1, c3)
               }
             | Range s e \<Rightarrow> do {
                 (l, w2, c3) \<leftarrow> progress_sets W s (nat (e - s + 1)) 0 w1 c2;
                 (if l = Returned then Some (MARPAWRAPPER_BOOL_FALSE, None, Some w2, c3)
                  else finish_report W (l = Finished) w2 c3)
               })
          })"

end
