(* ===== verification/Avl.thy ===== *)
theory Avl
  imports Prelude
begin

text \<open>
  The AVL trees of libmarpa, \<open>src/libmarpa-dist/marpa_avl.c\<close>: tables that only grow, with an
  iterative insertion and a traverser that keeps the nodes above its position on a stack.

  A node pointer is the number of the node in the order of allocation (\<open>avl_name\<close>): the nodes come
  from the obstack of the table and none is ever freed. A tree holds the nodes in place. The nodes
  that the loops address by a pointer into the tree are given by the directions that lead to them
  from the root, \<open>False\<close> for \<open>avl_link[0]\<close>. Items are addresses of type \<open>'a\<close>; \<open>None\<close> is a run that
  violates an assertion or writes past a fixed array.
\<close>

section \<open>Nodes and tables\<close>

datatype 'a avl_tree =
    NoNode
  | Node (avl_name: nat) (avl_link0: "'a avl_tree") (avl_data: 'a) (avl_balance: int) (avl_link1: "'a avl_tree")

text \<open>\<open>avl_obstack\<close> counts the nodes taken from the obstack.\<close>

record 'a avl_table =
  avl_root :: "'a avl_tree"
  avl_compare :: "'a \<Rightarrow> 'a \<Rightarrow> int"
  avl_obstack :: nat
  avl_count :: nat
  avl_generation :: nat

definition MARPA_AVL_MAX_HEIGHT :: nat where
  "MARPA_AVL_MAX_HEIGHT = 92"

definition avl_link :: "bool \<Rightarrow> 'a avl_tree \<Rightarrow> 'a avl_tree" where
  "avl_link d n = (if d then avl_link1 n else avl_link0 n)"

definition marpa_avl_create :: "('a \<Rightarrow> 'a \<Rightarrow> int) \<Rightarrow> 'a avl_table" where
  "marpa_avl_create compare =
     \<lparr>avl_root = NoNode, avl_compare = compare, avl_obstack = 0, avl_count = 0, avl_generation = 0\<rparr>"

section \<open>Searching\<close>

fun avl_find_from :: "('a \<Rightarrow> 'a \<Rightarrow> int) \<Rightarrow> 'a \<Rightarrow> 'a avl_tree \<Rightarrow> 'a option" where
  "avl_find_from compare item NoNode = None"
| "avl_find_from compare item (Node i l a b r) =
     (let cmp = compare item a in
      if cmp < 0 then avl_find_from compare item l
      else if 0 < cmp then avl_find_from compare item r
      else Some a)"

definition marpa_avl_find :: "'a avl_table \<Rightarrow> 'a \<Rightarrow> 'a option" where
  "marpa_avl_find tree item = avl_find_from (avl_compare tree) item (avl_root tree)"

fun at_or_after_from :: "('a \<Rightarrow> 'a \<Rightarrow> int) \<Rightarrow> 'a \<Rightarrow> 'a option \<Rightarrow> 'a avl_tree \<Rightarrow> 'a option" where
  "at_or_after_from compare item at_or_after NoNode = at_or_after"
| "at_or_after_from compare item at_or_after (Node i l a b r) =
     (let cmp = compare item a in
      if cmp < 0 then at_or_after_from compare item (Some a) l
      else if 0 < cmp then at_or_after_from compare item at_or_after r
      else Some a)"

definition marpa_avl_at_or_after :: "'a avl_table \<Rightarrow> 'a \<Rightarrow> 'a option" where
  "marpa_avl_at_or_after tree item = at_or_after_from (avl_compare tree) item None (avl_root tree)"

section \<open>Insertion\<close>

text \<open>
  The first loop: the node that holds the item, or the path to \<open>y\<close>, the last node on the way whose
  balance is not 0 (the root where there is none), and the directions \<open>da\<close> from there on.
\<close>

fun probe_search ::
  "('a \<Rightarrow> 'a \<Rightarrow> int) \<Rightarrow> 'a \<Rightarrow> 'a avl_tree \<Rightarrow> bool list \<Rightarrow> bool list \<Rightarrow> bool list
     \<Rightarrow> (nat \<times> 'a + bool list \<times> bool list) option" where
  "probe_search compare item NoNode here y da = Some (Inr (y, da))"
| "probe_search compare item (Node i l a b r) here y da =
     (let cmp = compare item a in
      if cmp = 0 then Some (Inl (i, a))
      else (let (y1, da1) = (if b \<noteq> 0 then (here, []) else (y, da)); dir = 0 < cmp in do {
        require (length da1 < MARPA_AVL_MAX_HEIGHT);
        probe_search compare item (if dir then r else l) (here @ [dir]) y1 (da1 @ [dir])
      }))"

text \<open>The new node \<open>n\<close> becomes the child at the end of the path.\<close>

fun link_new :: "'a avl_tree \<Rightarrow> bool list \<Rightarrow> 'a avl_tree \<Rightarrow> 'a avl_tree" where
  "link_new n [] t = n"
| "link_new n (dir # ds) NoNode = NoNode"
| "link_new n (dir # ds) (Node i l a b r) =
     (if dir then Node i l a b (link_new n ds r) else Node i (link_new n ds l) a b r)"

text \<open>The second loop updates the balance factors from \<open>y\<close> down to the new node.\<close>

fun adjust :: "bool list \<Rightarrow> 'a avl_tree \<Rightarrow> 'a avl_tree" where
  "adjust [] t = t"
| "adjust (dir # ds) NoNode = NoNode"
| "adjust (dir # ds) (Node i l a b r) =
     (if dir then Node i l a (b + 1) (adjust ds r) else Node i (adjust ds l) a (b - 1) r)"

text \<open>The rotation at \<open>y\<close>: the new root \<open>w\<close> of its subtree, and whether there was one.\<close>

definition rebalance_left :: "nat \<Rightarrow> 'a avl_tree \<Rightarrow> 'a \<Rightarrow> 'a avl_tree \<Rightarrow> 'a avl_tree option" where
  "rebalance_left i x a r =
     (case x of
        NoNode \<Rightarrow> None
      | Node xi xl xa xb xr \<Rightarrow>
          if xb = - 1 then Some (Node xi xl xa 0 (Node i xr a 0 r))
          else do {
            require (xb = 1);
            case xr of
              NoNode \<Rightarrow> None
            | Node wi wl wa wb wr \<Rightarrow>
                (let (xb', yb') = (if wb = - 1 then (0, 1) else if wb = 0 then (0, 0) else (- 1, 0)) in
                 Some (Node wi (Node xi xl xa xb' wl) wa 0 (Node i wr a yb' r)))
          })"

definition rebalance_right :: "nat \<Rightarrow> 'a avl_tree \<Rightarrow> 'a \<Rightarrow> 'a avl_tree \<Rightarrow> 'a avl_tree option" where
  "rebalance_right i l a x =
     (case x of
        NoNode \<Rightarrow> None
      | Node xi xl xa xb xr \<Rightarrow>
          if xb = 1 then Some (Node xi (Node i l a 0 xl) xa 0 xr)
          else do {
            require (xb = - 1);
            case xl of
              NoNode \<Rightarrow> None
            | Node wi wl wa wb wr \<Rightarrow>
                (let (xb', yb') = (if wb = 1 then (0, - 1) else if wb = 0 then (0, 0) else (1, 0)) in
                 Some (Node wi (Node i l a yb' wl) wa 0 (Node xi wr xa xb' xr)))
          })"

definition rebalance :: "'a avl_tree \<Rightarrow> ('a avl_tree \<times> bool) option" where
  "rebalance y =
     (case y of
        NoNode \<Rightarrow> None
      | Node i l a b r \<Rightarrow>
          if b = - 2 then do { w \<leftarrow> rebalance_left i l a r; Some (w, True) }
          else if b = 2 then do { w \<leftarrow> rebalance_right i l a r; Some (w, True) }
          else Some (y, False))"

text \<open>The node at a path replaced.\<close>

fun update_at ::
  "bool list \<Rightarrow> ('a avl_tree \<Rightarrow> ('a avl_tree \<times> bool) option) \<Rightarrow> 'a avl_tree \<Rightarrow> ('a avl_tree \<times> bool) option" where
  "update_at [] f t = f t"
| "update_at (dir # ds) f NoNode = None"
| "update_at (dir # ds) f (Node i l a b r) =
     (if dir then do { (r1, k) \<leftarrow> update_at ds f r; Some (Node i l a b r1, k) }
      else do { (l1, k) \<leftarrow> update_at ds f l; Some (Node i l1 a b r, k) })"

text \<open>The address returned is that of the data of a node: its name, and the item there.\<close>

definition marpa_avl_probe :: "'a avl_table \<Rightarrow> 'a \<Rightarrow> ((nat \<times> 'a) \<times> 'a avl_table) option" where
  "marpa_avl_probe tree item = do {
     found \<leftarrow> probe_search (avl_compare tree) item (avl_root tree) [] [] [];
     case found of
       Inl p \<Rightarrow> Some (p, tree)
     | Inr (y, da) \<Rightarrow>
         (let n = avl_obstack tree;
              root1 = link_new (Node n NoNode item 0 NoNode) (y @ da) (avl_root tree);
              tree1 = tree\<lparr>avl_root := root1, avl_obstack := Suc n, avl_count := to_size (avl_count tree + 1)\<rparr>
          in
          if avl_root tree = NoNode then Some ((n, item), tree1)
          else do {
            (root2, rotated) \<leftarrow> update_at y (\<lambda>t. rebalance (adjust da t)) root1;
            Some ((n, item), tree1\<lparr>avl_root := root2,
              avl_generation := if rotated then to_size (avl_generation tree + 1) else avl_generation tree\<rparr>)
          })
   }"

text \<open>The two ways to use it: the item found in the way of the new one, and its replacement.\<close>

definition marpa_avl_insert :: "'a avl_table \<Rightarrow> 'a \<Rightarrow> ('a option \<times> 'a avl_table) option" where
  "marpa_avl_insert tree item = do {
     ((n, a), tree1) \<leftarrow> marpa_avl_probe tree item;
     Some (if a = item then None else Some a, tree1)
   }"

fun set_data :: "nat \<Rightarrow> 'a \<Rightarrow> 'a avl_tree \<Rightarrow> 'a avl_tree" where
  "set_data n v NoNode = NoNode"
| "set_data n v (Node i l a b r) = Node i (set_data n v l) (if i = n then v else a) b (set_data n v r)"

definition marpa_avl_replace :: "'a avl_table \<Rightarrow> 'a \<Rightarrow> ('a option \<times> 'a avl_table) option" where
  "marpa_avl_replace tree item = do {
     ((n, a), tree1) \<leftarrow> marpa_avl_probe tree item;
     Some (if a = item then (None, tree1)
           else (Some a, tree1\<lparr>avl_root := set_data n item (avl_root tree1)\<rparr>))
   }"

end
