(* ===== verification/AvlInv.thy ===== *)
theory AvlInv
  imports Avl
begin

text \<open>
  The invariant of the AVL tables and the reason why the iterative insertion keeps it: below the node
  \<open>y\<close> the way down is balanced, so that the balance updates are right there, and the rotation at \<open>y\<close>
  restores its height. The order is a locale for the comparison function of a table.
\<close>

section \<open>The order of a comparison function\<close>

locale total_compare =
  fixes compare :: "'a \<Rightarrow> 'a \<Rightarrow> int"
  assumes swap: "compare b a < 0 \<longleftrightarrow> 0 < compare a b"
    and trans: "compare a b \<le> 0 \<Longrightarrow> compare b c \<le> 0 \<Longrightarrow> compare a c \<le> 0"
begin

lemma self [simp]: "compare a a = 0"
  using swap [of a a] by linarith

lemma zero_swap: "compare b a = 0 \<longleftrightarrow> compare a b = 0"
  using swap [of a b] swap [of b a] by linarith

lemma less_trans_le:
  assumes "compare a b < 0" "compare b c \<le> 0"
  shows "compare a c < 0"
proof (rule ccontr)
  assume "\<not> compare a c < 0"
  then have "compare c a \<le> 0" using swap [of a c] swap [of c a] by linarith
  from trans [OF assms(2) this] assms(1) swap [of b a] swap [of a b] show False by linarith
qed

lemma less_trans: "compare a b < 0 \<Longrightarrow> compare b c < 0 \<Longrightarrow> compare a c < 0"
  using less_trans_le [of a b c] by simp

lemma le_trans_less:
  assumes "compare a b \<le> 0" "compare b c < 0"
  shows "compare a c < 0"
proof (rule ccontr)
  assume "\<not> compare a c < 0"
  then have "compare c a \<le> 0" using swap [of a c] swap [of c a] by linarith
  from trans [OF this assms(1)] assms(2) swap [of b c] swap [of c b] show False by linarith
qed

lemma equal_less: "compare a b = 0 \<Longrightarrow> compare b c < 0 \<longleftrightarrow> compare a c < 0"
  using le_trans_less [of a b c] le_trans_less [of b a c] zero_swap [of a b] by auto

end

section \<open>The nodes of a tree in order\<close>

fun nodes :: "'a avl_tree \<Rightarrow> (nat \<times> 'a) list" where
  "nodes NoNode = []"
| "nodes (Node i l a b r) = nodes l @ (i, a) # nodes r"

definition items :: "'a avl_tree \<Rightarrow> 'a list" where
  "items t = map snd (nodes t)"

lemma items_simps [simp]: "items NoNode = []" "items (Node i l a b r) = items l @ a # items r"
  by (simp_all add: items_def)

fun height :: "'a avl_tree \<Rightarrow> nat" where
  "height NoNode = 0"
| "height (Node i l a b r) = Suc (max (height l) (height r))"

text \<open>The balance factors say by how much the right subtree is higher, and are small.\<close>

fun balanced :: "'a avl_tree \<Rightarrow> bool" where
  "balanced NoNode = True"
| "balanced (Node i l a b r) \<longleftrightarrow>
     b = int (height r) - int (height l) \<and> - 1 \<le> b \<and> b \<le> 1 \<and> balanced l \<and> balanced r"

lemma height_0 [simp]: "height t = 0 \<longleftrightarrow> t = NoNode"
  by (cases t) simp_all

lemma nodes_Nil [simp]: "nodes t = [] \<longleftrightarrow> t = NoNode"
  by (cases t) simp_all

section \<open>Paths\<close>

text \<open>The subtree at a path, and the tree with it replaced.\<close>

fun subtree :: "bool list \<Rightarrow> 'a avl_tree \<Rightarrow> 'a avl_tree" where
  "subtree [] t = t"
| "subtree (d # ds) NoNode = NoNode"
| "subtree (d # ds) (Node i l a b r) = subtree ds (if d then r else l)"

fun put_at :: "bool list \<Rightarrow> 'a avl_tree \<Rightarrow> 'a avl_tree \<Rightarrow> 'a avl_tree" where
  "put_at [] w t = w"
| "put_at (d # ds) w NoNode = NoNode"
| "put_at (d # ds) w (Node i l a b r) =
     (if d then Node i l a b (put_at ds w r) else Node i (put_at ds w l) a b r)"

text \<open>The way a search for a missing item takes, and the paths whose nodes all have balance 0.\<close>

fun search_path :: "('a \<Rightarrow> 'a \<Rightarrow> int) \<Rightarrow> 'a \<Rightarrow> 'a avl_tree \<Rightarrow> bool list" where
  "search_path compare x NoNode = []"
| "search_path compare x (Node i l a b r) =
     (0 < compare x a) # search_path compare x (if 0 < compare x a then r else l)"

fun level :: "bool list \<Rightarrow> 'a avl_tree \<Rightarrow> bool" where
  "level [] t \<longleftrightarrow> t = NoNode"
| "level (d # ds) NoNode \<longleftrightarrow> False"
| "level (d # ds) (Node i l a b r) \<longleftrightarrow> b = 0 \<and> level ds (if d then r else l)"

text \<open>
  What the search finds out: \<open>y\<close> is at \<open>p1\<close>, its balance is not 0, and the rest of the way is level; or
  the whole way is, and \<open>y\<close> is where it was.
\<close>

definition turns ::
  "bool list \<Rightarrow> bool list \<Rightarrow> bool list \<Rightarrow> bool list \<Rightarrow> bool list \<Rightarrow> 'a avl_tree \<Rightarrow> bool list \<Rightarrow> bool" where
  "turns here y da y' da' t path \<longleftrightarrow>
     (level path t \<and> y' = y \<and> da' = da @ path)
     \<or> (\<exists>p1 i l a b r d ds. path = p1 @ d # ds \<and> y' = here @ p1 \<and> da' = d # ds
          \<and> subtree p1 t = Node i l a b r \<and> b \<noteq> 0 \<and> level ds (if d then r else l))"

lemma turns_below:
  assumes T: "turns (here @ [d]) y1 (da1 @ [d]) y' da' (if d then r else l) path"
    and s: "if b \<noteq> 0 then y1 = here \<and> da1 = [] else y1 = y \<and> da1 = da"
  shows "turns here y da y' da' (Node i l a b r) (d # path)"
proof -
  from T consider (level) "level path (if d then r else l)" "y' = y1" "da' = da1 @ d # path"
    | (turn) p1 i' l' a' b' r' d' ds where "path = p1 @ d' # ds" "y' = here @ d # p1" "da' = d' # ds"
      "subtree p1 (if d then r else l) = Node i' l' a' b' r'" "b' \<noteq> 0" "level ds (if d' then r' else l')"
    unfolding turns_def by auto
  then show ?thesis
  proof cases
    case level
    with s show ?thesis
      unfolding turns_def by (cases "b = 0") (auto intro!: exI [of _ "[]"])
  next
    case turn
    then show ?thesis
      unfolding turns_def by (intro disjI2 exI [of _ "d # p1"]) auto
  qed
qed

lemma search_turns:
  "probe_search compare x t here y da = Some (Inr (y', da'))
     \<Longrightarrow> turns here y da y' da' t (search_path compare x t)"
proof (induction t arbitrary: here y da)
  case NoNode
  then show ?case by (simp add: turns_def)
next
  case (Node i l a b r)
  let ?d = "0 < compare x a"
  let ?y = "if b \<noteq> 0 then here else y" and ?da = "if b \<noteq> 0 then [] else da"
  from Node.prems have run: "probe_search compare x (if ?d then r else l) (here @ [?d]) ?y (?da @ [?d]) = Some (Inr (y', da'))"
    by (auto simp: Let_def bind_Some_iff split: if_split_asm)
  have "turns (here @ [?d]) ?y (?da @ [?d]) y' da' (if ?d then r else l) (search_path compare x (if ?d then r else l))"
  proof (cases ?d)
    case True
    with run Node.IH(2) show ?thesis by simp
  next
    case False
    with run Node.IH(1) show ?thesis by simp
  qed
  from turns_below [OF this, of b y da i a] show ?case by simp
qed

lemma search_found:
  "probe_search compare x t here y da = Some (Inl (n, a)) \<Longrightarrow> (n, a) \<in> set (nodes t) \<and> compare x a = 0"
proof (induction t arbitrary: here y da)
  case (Node i l c b r)
  let ?d = "0 < compare x c"
  show ?case
  proof (cases "compare x c = 0")
    case True
    with Node.prems show ?thesis by simp
  next
    case False
    let ?y = "if b \<noteq> 0 then here else y" and ?da = "if b \<noteq> 0 then [] else da"
    from Node.prems False
    have run: "probe_search compare x (if ?d then r else l) (here @ [?d]) ?y (?da @ [?d]) = Some (Inl (n, a))"
      by (auto simp: Let_def bind_Some_iff split: if_split_asm)
    show ?thesis
    proof (cases ?d)
      case True
      with run Node.IH(2) show ?thesis by simp
    next
      case False
      with run Node.IH(1) show ?thesis by simp
    qed
  qed
qed simp

text \<open>The search returns while the tree is not too high.\<close>

lemma search_returns:
  "length da + height t \<le> MARPA_AVL_MAX_HEIGHT \<Longrightarrow> probe_search compare x t here y da \<noteq> None"
proof (induction t arbitrary: here y da)
  case (Node i l a b r)
  let ?d = "0 < compare x a"
  let ?y = "if b \<noteq> 0 then here else y" and ?da = "if b \<noteq> 0 then [] else da"
  have "length (?da @ [?d]) + height (if ?d then r else l) \<le> MARPA_AVL_MAX_HEIGHT" "length ?da < MARPA_AVL_MAX_HEIGHT"
    using Node.prems by auto
  with Node.IH show ?case by (cases "b = 0"; cases ?d) (auto simp: Let_def)
qed simp

section \<open>The way down and back\<close>

text \<open>The new node and the balance updates below \<open>y\<close>: the subtree grows by one.\<close>

lemma adjust_level:
  assumes "level ds t" "balanced t"
  shows "balanced (adjust ds (link_new (Node n NoNode x 0 NoNode) ds t))
     \<and> height (adjust ds (link_new (Node n NoNode x 0 NoNode) ds t)) = Suc (height t)
     \<and> (t \<noteq> NoNode \<longrightarrow> avl_balance (adjust ds (link_new (Node n NoNode x 0 NoNode) ds t)) \<noteq> 0)
     \<and> adjust ds (link_new (Node n NoNode x 0 NoNode) ds t) \<noteq> NoNode"
  using assms
proof (induction ds t rule: level.induct)
  case (1 t)
  then show ?case by simp
next
  case (2 d ds)
  then show ?case by simp
next
  case (3 d ds i l a b r)
  then show ?case by (cases d) auto
qed

lemma adjust_nodes: "nodes (adjust ds t) = nodes t"
  by (induction ds t rule: adjust.induct) auto

lemma rebalance_left_ok:
  assumes "balanced x" "balanced r" "height x = height r + 2" "avl_balance x \<noteq> 0"
  obtains w where "rebalance_left i x a r = Some w" "balanced w" "height w = height r + 2"
    "nodes w = nodes x @ (i, a) # nodes r"
proof -
  obtain xi xl xa xb xr where x: "x = Node xi xl xa xb xr" using assms(3) by (cases x) auto
  show thesis
  proof (cases "xb = - 1")
    case True
    with assms x show thesis
      by (intro that [of "Node xi xl xa 0 (Node i xr a 0 r)"]) (auto simp: rebalance_left_def)
  next
    case False
    with assms x have xb: "xb = 1" by auto
    with assms x obtain wi wl wa wb wr where "xr = Node wi wl wa wb wr" by (cases xr) auto
    moreover from this assms x xb have "wb = - 1 \<or> wb = 0 \<or> wb = 1" by auto
    ultimately show thesis
      using assms x xb
      by (intro that [of "Node wi (Node xi xl xa (if wb = 1 then - 1 else 0) wl) wa 0 (Node i wr a (if wb = - 1 then 1 else 0) r)"])
        (auto simp: rebalance_left_def)
  qed
qed

lemma rebalance_right_ok:
  assumes "balanced l" "balanced x" "height x = height l + 2" "avl_balance x \<noteq> 0"
  obtains w where "rebalance_right i l a x = Some w" "balanced w" "height w = height l + 2"
    "nodes w = nodes l @ (i, a) # nodes x"
proof -
  obtain xi xl xa xb xr where x: "x = Node xi xl xa xb xr" using assms(3) by (cases x) auto
  show thesis
  proof (cases "xb = 1")
    case True
    with assms x show thesis
      by (intro that [of "Node xi (Node i l a 0 xl) xa 0 xr"]) (auto simp: rebalance_right_def)
  next
    case False
    with assms x have xb: "xb = - 1" by auto
    with assms x obtain wi wl wa wb wr where "xl = Node wi wl wa wb wr" by (cases xl) auto
    moreover from this assms x xb have "wb = - 1 \<or> wb = 0 \<or> wb = 1" by auto
    ultimately show thesis
      using assms x xb
      by (intro that [of "Node wi (Node i l a (if wb = 1 then - 1 else 0) wl) wa 0 (Node xi wr xa (if wb = - 1 then 1 else 0) xr)"])
        (auto simp: rebalance_right_def)
  qed
qed

text \<open>At \<open>y\<close>: the rotation brings back the height that \<open>y\<close> had.\<close>

lemma rebalance_turn:
  assumes s: "s = Node i l a b r" "balanced s" and ds: "level ds (if d then r else l)"
  obtains w k where "rebalance (adjust (d # ds) (link_new (Node n NoNode x 0 NoNode) (d # ds) s)) = Some (w, k)"
    "balanced w" "b \<noteq> 0 \<longrightarrow> height w = height s" "nodes w = nodes (link_new (Node n NoNode x 0 NoNode) (d # ds) s)"
proof (cases d)
  case True
  let ?r = "adjust ds (link_new (Node n NoNode x 0 NoNode) ds r)"
  have R: "balanced ?r" "height ?r = Suc (height r)" "r \<noteq> NoNode \<longrightarrow> avl_balance ?r \<noteq> 0"
    using adjust_level [of ds r n x] s ds True by simp_all
  show thesis
  proof (cases "b = 1")
    case False
    with s R True show thesis by (intro that [of "Node i l a (b + 1) ?r" False]) (auto simp: rebalance_def adjust_nodes)
  next
    case b: True
    with s have "height r = Suc (height l)" by auto
    with R s have "balanced l" "height ?r = height l + 2" "avl_balance ?r \<noteq> 0" by auto
    from rebalance_right_ok [OF this(1) R(1) this(2,3), of i a] obtain w where
      "rebalance_right i l a ?r = Some w" "balanced w" "height w = height l + 2" "nodes w = nodes l @ (i, a) # nodes ?r" .
    with s True b \<open>height r = Suc (height l)\<close> show thesis
      by (intro that [of w True]) (auto simp: rebalance_def adjust_nodes)
  qed
next
  case False
  let ?l = "adjust ds (link_new (Node n NoNode x 0 NoNode) ds l)"
  have L: "balanced ?l" "height ?l = Suc (height l)" "l \<noteq> NoNode \<longrightarrow> avl_balance ?l \<noteq> 0"
    using adjust_level [of ds l n x] s ds False by simp_all
  show thesis
  proof (cases "b = - 1")
    case b: False
    with s L False show thesis by (intro that [of "Node i ?l a (b - 1) r" False]) (auto simp: rebalance_def adjust_nodes)
  next
    case b: True
    with s have h: "height l = Suc (height r)" by auto
    with L s have "balanced r" "height ?l = height r + 2" "avl_balance ?l \<noteq> 0" by auto
    from rebalance_left_ok [OF L(1) this, of i a] obtain w where
      "rebalance_left i ?l a r = Some w" "balanced w" "height w = height r + 2" "nodes w = nodes ?l @ (i, a) # nodes r" .
    with s False b h show thesis
      by (intro that [of w True]) (auto simp: rebalance_def adjust_nodes)
  qed
qed

lemma update_put:
  "subtree p t \<noteq> NoNode \<Longrightarrow> update_at p f (link_new n (p @ da) t)
     = do { (w, k) \<leftarrow> f (link_new n da (subtree p t)); Some (put_at p w t, k) }"
proof (induction p t rule: subtree.induct)
  case (1 t)
  then show ?case by (cases "f (link_new n da t)") auto
next
  case (3 d ds i l a b r)
  then show ?case by (cases d) (auto simp: split_def Option.bind_assoc)
qed simp

lemma put_balanced:
  "subtree p t \<noteq> NoNode \<Longrightarrow> balanced t \<Longrightarrow> balanced w \<Longrightarrow> height w = height (subtree p t)
     \<Longrightarrow> balanced (put_at p w t) \<and> height (put_at p w t) = height t"
  by (induction p t rule: subtree.induct) auto

lemma put_nodes:
  "subtree p t \<noteq> NoNode \<Longrightarrow> nodes w = nodes (link_new n da (subtree p t))
     \<Longrightarrow> nodes (put_at p w t) = nodes (link_new n (p @ da) t)"
  by (induction p t rule: subtree.induct) auto

lemma balanced_subtree: "balanced t \<Longrightarrow> balanced (subtree p t)"
  by (induction p t rule: subtree.induct) auto

text \<open>The insertion below \<open>y\<close>, whatever the order.\<close>

lemma insertion:
  assumes T: "turns [] [] [] y da t path" and ne: "t \<noteq> NoNode" and bal: "balanced t"
  obtains t' k where
    "update_at y (\<lambda>s. rebalance (adjust da s)) (link_new (Node n NoNode x 0 NoNode) (y @ da) t) = Some (t', k)"
    "balanced t'" "nodes t' = nodes (link_new (Node n NoNode x 0 NoNode) path t)" "path = y @ da"
proof -
  obtain i l a b r d ds where y: "path = y @ d # ds" "da = d # ds" "subtree y t = Node i l a b r"
    "level ds (if d then r else l)" "b \<noteq> 0 \<or> y = []"
    using T unfolding turns_def
  proof
    assume L: "level path t \<and> y = [] \<and> da = [] @ path"
    obtain i l a b r where t: "t = Node i l a b r" using ne by (cases t) auto
    with L obtain d ds where "path = d # ds" by (cases path) auto
    with L t that [of d ds i l a b r] show thesis by simp
  next
    assume "\<exists>p1 i l a b r d ds. path = p1 @ d # ds \<and> y = [] @ p1 \<and> da = d # ds
          \<and> subtree p1 t = Node i l a b r \<and> b \<noteq> 0 \<and> level ds (if d then r else l)"
    then obtain p1 i l a b r d ds where "path = p1 @ d # ds" "y = p1" "da = d # ds" "subtree p1 t = Node i l a b r"
      "b \<noteq> 0" "level ds (if d then r else l)" by auto
    with that [of d ds i l a b r] show thesis by simp
  qed
  have "balanced (subtree y t)" using bal by (rule balanced_subtree)
  from rebalance_turn [OF y(3) this y(4), of n x] obtain w k where w:
    "rebalance (adjust (d # ds) (link_new (Node n NoNode x 0 NoNode) (d # ds) (subtree y t))) = Some (w, k)"
    "balanced w" "b \<noteq> 0 \<longrightarrow> height w = height (subtree y t)"
    "nodes w = nodes (link_new (Node n NoNode x 0 NoNode) (d # ds) (subtree y t))" .
  have s: "subtree y t \<noteq> NoNode" using y(3) by simp
  have "balanced (put_at y w t)"
    using y(5) w(2,3) put_balanced [OF s bal w(2)] by auto
  moreover have "nodes (put_at y w t) = nodes (link_new (Node n NoNode x 0 NoNode) path t)"
    using put_nodes [OF s w(4)] y(1) by simp
  moreover have "update_at y (\<lambda>s. rebalance (adjust da s)) (link_new (Node n NoNode x 0 NoNode) (y @ da) t) = Some (put_at y w t, k)"
    using update_put [OF s, of "\<lambda>s. rebalance (adjust da s)" "Node n NoNode x 0 NoNode" da] w(1) y(2) by simp
  ultimately show thesis using that y(1,2) by blast
qed

section \<open>The order\<close>

definition ordered :: "('a \<Rightarrow> 'a \<Rightarrow> int) \<Rightarrow> 'a list \<Rightarrow> bool" where
  "ordered compare xs \<longleftrightarrow> sorted_wrt (\<lambda>a b. compare a b < 0) xs"

text \<open>A new item in its place.\<close>

definition insert_at :: "('a \<Rightarrow> 'a \<Rightarrow> int) \<Rightarrow> nat \<times> 'a \<Rightarrow> (nat \<times> 'a) list \<Rightarrow> (nat \<times> 'a) list" where
  "insert_at compare p ps = takeWhile (\<lambda>q. compare (snd q) (snd p) < 0) ps
     @ p # dropWhile (\<lambda>q. compare (snd q) (snd p) < 0) ps"

lemma insert_at_parts:
  obtains us vs where "ps = us @ vs" "insert_at compare p ps = us @ p # vs"
  by (rule that [of "takeWhile (\<lambda>q. compare (snd q) (snd p) < 0) ps" "dropWhile (\<lambda>q. compare (snd q) (snd p) < 0) ps"])
    (simp_all add: insert_at_def)

lemma insert_at_set [simp]: "set (insert_at compare p ps) = insert p (set ps)"
  by (rule insert_at_parts [of ps compare p]) simp

lemma insert_at_length [simp]: "length (insert_at compare p ps) = Suc (length ps)"
  by (rule insert_at_parts [of ps compare p]) simp

lemma insert_at_distinct: "distinct (map fst (insert_at compare p ps)) \<longleftrightarrow> fst p \<notin> set (map fst ps) \<and> distinct (map fst ps)"
  by (rule insert_at_parts [of ps compare p]) auto

lemma find_append: "List.find P (xs @ ys) = (case List.find P xs of None \<Rightarrow> List.find P ys | Some x \<Rightarrow> Some x)"
  by (induction xs) auto

lemma find_None: "\<forall>x \<in> set xs. \<not> P x \<Longrightarrow> List.find P xs = None"
  by (induction xs) auto

context total_compare
begin

lemma ordered_split:
  "ordered compare (xs @ a # ys) \<longleftrightarrow> ordered compare xs \<and> ordered compare ys
     \<and> (\<forall>x \<in> set xs. compare x a < 0) \<and> (\<forall>y \<in> set ys. compare a y < 0)"
  unfolding ordered_def sorted_wrt_append by (auto intro: less_trans)

lemma find_in_order:
  "ordered compare (items t) \<Longrightarrow> avl_find_from compare x t = List.find (\<lambda>a. compare x a = 0) (items t)"
proof (induction t)
  case (Node i l a b r)
  then have o: "ordered compare (items l)" "ordered compare (items r)" "\<forall>y \<in> set (items l). compare y a < 0"
    "\<forall>y \<in> set (items r). compare a y < 0" by (simp_all add: ordered_split)
  consider "compare x a < 0" | "0 < compare x a" | "compare x a = 0" by linarith
  then show ?case
  proof cases
    case 1
    then have "\<forall>y \<in> set (items r). compare x y \<noteq> 0" using o(4) by (metis less_trans_le less_irrefl order_less_imp_le)
    with 1 Node.IH(1) o(1) show ?thesis by (auto simp: find_append find_None split: option.split)
  next
    case 2
    then have "\<forall>y \<in> set (items l). compare x y \<noteq> 0"
      using o(3) by (metis less_irrefl less_trans_le order_less_imp_le swap zero_swap)
    with 2 Node.IH(2) o(2) show ?thesis by (simp add: find_append find_None)
  next
    case 3
    then have "\<forall>y \<in> set (items l). compare x y \<noteq> 0"
      using o(3) by (metis equal_less less_irrefl zero_swap self)
    with 3 show ?thesis by (simp add: find_append find_None)
  qed
qed simp

lemma apart:
  assumes "ordered compare (items l @ a # items r)"
  shows "compare x a \<le> 0 \<Longrightarrow> y \<in> set (items r) \<Longrightarrow> compare x y < 0"
    "0 \<le> compare x a \<Longrightarrow> y \<in> set (items l) \<Longrightarrow> 0 < compare x y"
proof -
  show "compare x y < 0" if "compare x a \<le> 0" "y \<in> set (items r)"
    using assms that by (auto simp: ordered_split intro: le_trans_less)
  show "0 < compare x y" if "0 \<le> compare x a" "y \<in> set (items l)"
  proof -
    have "compare y a < 0" using assms that by (simp add: ordered_split)
    moreover have "compare a x \<le> 0" using that(1) swap [of x a] swap [of a x] by linarith
    ultimately show ?thesis using less_trans_le swap [of x y] swap [of y x] by metis
  qed
qed

lemma at_or_after_in_order:
  "ordered compare (items t) \<Longrightarrow> at_or_after_from compare x q t
     = (case List.find (\<lambda>a. compare x a \<le> 0) (items t) of None \<Rightarrow> q | Some a \<Rightarrow> Some a)"
proof (induction t arbitrary: q)
  case (Node i l a b r)
  then have o: "ordered compare (items l)" "ordered compare (items r)" by (simp_all add: ordered_split)
  have ord: "ordered compare (items l @ a # items r)" using Node.prems by simp
  consider "compare x a < 0" | "0 < compare x a" | "compare x a = 0" by linarith
  then show ?case
  proof cases
    case 1
    with Node.IH(1) o(1) show ?thesis by (auto simp: find_append split: option.split)
  next
    case 2
    then have "\<forall>y \<in> set (items l). \<not> compare x y \<le> 0" using apart(2) [OF ord, of x] by (simp add: not_le)
    with 2 Node.IH(2) o(2) show ?thesis by (simp add: find_append find_None)
  next
    case 3
    then have "\<forall>y \<in> set (items l). \<not> compare x y \<le> 0" using apart(2) [OF ord, of x] by (simp add: not_le)
    with 3 show ?thesis by (simp add: find_append find_None)
  qed
qed simp

lemma search_complete:
  "probe_search compare x t here y da = Some (Inr z) \<Longrightarrow> ordered compare (items t)
     \<Longrightarrow> \<forall>a \<in> set (items t). compare x a \<noteq> 0"
proof (induction t arbitrary: here y da)
  case (Node i l a b r)
  then have o: "ordered compare (items l)" "ordered compare (items r)" by (simp_all add: ordered_split)
  have ord: "ordered compare (items l @ a # items r)" using Node.prems by simp
  let ?d = "0 < compare x a"
  let ?y = "if b \<noteq> 0 then here else y" and ?da = "if b \<noteq> 0 then [] else da"
  from Node.prems(1) have ne: "compare x a \<noteq> 0"
    and run: "probe_search compare x (if ?d then r else l) (here @ [?d]) ?y (?da @ [?d]) = Some (Inr z)"
    by (auto simp: Let_def bind_Some_iff split: if_split_asm)
  show ?case
  proof (cases ?d)
    case True
    with run Node.IH(2) o(2) have "\<forall>a \<in> set (items r). compare x a \<noteq> 0" by simp
    moreover have "\<forall>y \<in> set (items l). compare x y \<noteq> 0" using apart(2) [OF ord, of x] True by force
    ultimately show ?thesis using ne by auto
  next
    case False
    with run Node.IH(1) o(1) have "\<forall>a \<in> set (items l). compare x a \<noteq> 0" by simp
    moreover have "\<forall>y \<in> set (items r). compare x y \<noteq> 0" using apart(1) [OF ord, of x] False by force
    ultimately show ?thesis using ne by auto
  qed
qed simp

lemma link_in_order:
  "ordered compare (items t) \<Longrightarrow> \<forall>a \<in> set (items t). compare x a \<noteq> 0
     \<Longrightarrow> nodes (link_new (Node n NoNode x 0 NoNode) (search_path compare x t) t) = insert_at compare (n, x) (nodes t)"
proof (induction t)
  case NoNode
  then show ?case by (simp add: insert_at_def)
next
  case (Node i l a b r)
  then have o: "ordered compare (items l)" "ordered compare (items r)" by (simp_all add: ordered_split)
  have ord: "ordered compare (items l @ a # items r)" using Node.prems by simp
  show ?case
  proof (cases "0 < compare x a")
    case True
    then have "\<forall>q \<in> set (nodes l). compare (snd q) x < 0" "compare a x < 0"
      using apart(2) [OF ord, of x] by (auto simp: items_def swap)
    with True Node o show ?thesis by (simp add: insert_at_def)
  next
    case False
    with Node.prems have "\<not> compare a x < 0" using swap [of x a] by simp
    with False Node o show ?thesis by (simp add: insert_at_def takeWhile_append dropWhile_append)
  qed
qed

lemma ordered_insert:
  assumes "ordered compare (map snd ps)" "\<forall>a \<in> set (map snd ps). compare x a \<noteq> 0"
  shows "ordered compare (map snd (insert_at compare (n, x) ps))"
  using assms
proof (induction ps)
  case Nil
  then show ?case by (simp add: insert_at_def ordered_def)
next
  case (Cons p ps)
  show ?case
  proof (cases "compare (snd p) x < 0")
    case True
    have "insert_at compare (n, x) (p # ps) = p # insert_at compare (n, x) ps" using True by (simp add: insert_at_def)
    with Cons True show ?thesis by (auto simp: ordered_def)
  next
    case False
    moreover have "compare x (snd p) \<noteq> 0" using Cons.prems(2) by simp
    ultimately have "compare x (snd p) < 0" using swap [of "snd p" x] by linarith
    with Cons.prems(1) False show ?thesis by (auto simp: insert_at_def ordered_def intro: less_trans)
  qed
qed

end

end
