(* ===== verification/MarpaOrders.thy ===== *)
theory MarpaOrders
  imports AvlInv
begin

text \<open>
  The three orders for which libmarpa builds AVL tables (\<open>src/libmarpa-dist/marpa.c\<close>): pairs of a
  symbol and a rule, zero-width predictions, and the items of a progress report. Each is a total
  order up to equality of the keys, so that the laws of the tables hold for it.

  The identifiers are \<open>int\<close> values that are not negative; the differences that the first two functions
  return then stay within the type.
\<close>

record sym_rule_pair =
  t_symid :: int
  t_ruleid :: int

record s_zwp =
  t_xrl_id :: int
  t_dot :: int
  t_zwaid :: int

record marpa_progress_item =
  t_rule_id :: int
  t_position :: int
  t_origin :: int

definition sym_rule_cmp :: "sym_rule_pair \<Rightarrow> sym_rule_pair \<Rightarrow> int" where
  "sym_rule_cmp pair_a pair_b =
     (let result = t_symid pair_a - t_symid pair_b in
      if result \<noteq> 0 then result else t_ruleid pair_a - t_ruleid pair_b)"

definition zwp_cmp :: "s_zwp \<Rightarrow> s_zwp \<Rightarrow> int" where
  "zwp_cmp zwp_a zwp_b =
     (let subkey = t_xrl_id zwp_a - t_xrl_id zwp_b in
      if subkey \<noteq> 0 then subkey
      else (let subkey = t_dot zwp_a - t_dot zwp_b in
            if subkey \<noteq> 0 then subkey else t_zwaid zwp_a - t_zwaid zwp_b))"

definition report_item_cmp :: "marpa_progress_item \<Rightarrow> marpa_progress_item \<Rightarrow> int" where
  "report_item_cmp report_a report_b =
     (if t_position report_a > t_position report_b then 1
      else if t_position report_a < t_position report_b then - 1
      else if t_rule_id report_a > t_rule_id report_b then 1
      else if t_rule_id report_a < t_rule_id report_b then - 1
      else if t_origin report_a > t_origin report_b then 1
      else if t_origin report_a < t_origin report_b then - 1
      else 0)"

interpretation sym_rule: total_compare sym_rule_cmp
  by unfold_locales (auto simp: sym_rule_cmp_def Let_def split: if_splits)

interpretation zwp: total_compare zwp_cmp
  by unfold_locales (auto simp: zwp_cmp_def Let_def split: if_splits)

interpretation report: total_compare report_item_cmp
  by unfold_locales (auto simp: report_item_cmp_def split: if_splits)

text \<open>Items compare as equal only when they are.\<close>

lemma sym_rule_cmp_0: "sym_rule_cmp a b = 0 \<longleftrightarrow> a = b"
  by (cases a; cases b) (auto simp: sym_rule_cmp_def Let_def)

lemma zwp_cmp_0: "zwp_cmp a b = 0 \<longleftrightarrow> a = b"
  by (cases a; cases b) (auto simp: zwp_cmp_def Let_def)

lemma report_item_cmp_0: "report_item_cmp a b = 0 \<longleftrightarrow> a = b"
  by (cases a; cases b) (auto simp: report_item_cmp_def)

lemma report_item_cmp_less:
  "report_item_cmp a b < 0 \<longleftrightarrow> t_position a < t_position b
     \<or> t_position a = t_position b \<and> (t_rule_id a < t_rule_id b \<or> t_rule_id a = t_rule_id b \<and> t_origin a < t_origin b)"
  by (auto simp: report_item_cmp_def)

lemma sym_rule_cmp_bounds:
  assumes "\<forall>p \<in> {a, b}. 0 \<le> t_symid p \<and> t_symid p < 2 ^ 31 \<and> 0 \<le> t_ruleid p \<and> t_ruleid p < 2 ^ 31"
  shows "- (2 ^ 31) < sym_rule_cmp a b \<and> sym_rule_cmp a b < 2 ^ 31"
  using assms by (auto simp: sym_rule_cmp_def Let_def)

lemma zwp_cmp_bounds:
  assumes "\<forall>p \<in> {a, b}. 0 \<le> t_xrl_id p \<and> t_xrl_id p < 2 ^ 31 \<and> 0 \<le> t_dot p \<and> t_dot p < 2 ^ 31
    \<and> 0 \<le> t_zwaid p \<and> t_zwaid p < 2 ^ 31"
  shows "- (2 ^ 31) < zwp_cmp a b \<and> zwp_cmp a b < 2 ^ 31"
  using assms by (auto simp: zwp_cmp_def Let_def)

end
