(* ===== verification/AvlProps.thy ===== *)
theory AvlProps
  imports MarpaOrders
begin

text \<open>
  The tables as finite ordered collections: the fixed arrays of the source are long enough for every
  tree whose nodes a \<open>size_t\<close> can count, an insertion puts a new item in its place and changes
  nothing else, and the searches find the item that a scan of the ordered items would.
\<close>

section \<open>The height of a balanced tree\<close>

text \<open>The least number of nodes for a height, computed with two accumulators.\<close>

fun min_nodes :: "nat \<Rightarrow> nat" where
  "min_nodes 0 = 0"
| "min_nodes (Suc 0) = 1"
| "min_nodes (Suc (Suc h)) = min_nodes (Suc h) + min_nodes h + 1"

fun min_nodes_acc :: "nat \<Rightarrow> int \<Rightarrow> int \<Rightarrow> int" where
  "min_nodes_acc 0 a b = a"
| "min_nodes_acc (Suc h) a b = min_nodes_acc h b (a + b + 1)"

lemma min_nodes_acc_from: "min_nodes_acc h (int (min_nodes k)) (int (min_nodes (Suc k))) = int (min_nodes (k + h))"
proof (induction h arbitrary: k)
  case (Suc h)
  have "int (min_nodes k) + int (min_nodes (Suc k)) + 1 = int (min_nodes (Suc (Suc k)))" by simp
  then show ?case using Suc [of "Suc k"] by (simp add: ac_simps)
qed simp

lemma min_nodes_93: "SIZE_MOD \<le> min_nodes 93"
proof -
  have "min_nodes_acc 93 0 1 = 31940434634990099904" by code_simp
  then have "int (min_nodes 93) = 31940434634990099904" using min_nodes_acc_from [of 93 0] by simp
  then show ?thesis by (simp add: SIZE_MOD_def)
qed

lemma min_nodes_step: "min_nodes h \<le> min_nodes (Suc h)"
  by (cases h) simp_all

lemma min_nodes_mono: "h \<le> k \<Longrightarrow> min_nodes h \<le> min_nodes k"
  by (rule lift_Suc_mono_le [where f = min_nodes]) (rule min_nodes_step)

lemma balanced_many: "balanced t \<Longrightarrow> min_nodes (height t) \<le> length (nodes t)"
proof (induction t)
  case (Node i l a b r)
  have "height l \<le> Suc (height r)" "height r \<le> Suc (height l)" using Node.prems by auto
  then obtain h k where h: "max (height l) (height r) = h" "min (height l) (height r) = k" "h \<le> Suc k" "k \<le> h"
    by (auto simp: max_def min_def)
  have "min_nodes h + min_nodes k \<le> length (nodes l) + length (nodes r)"
    using Node h(1,2) by (auto simp: max_def min_def split: if_split_asm)
  moreover have "min_nodes (Suc h) \<le> min_nodes h + min_nodes k + 1"
  proof (cases h)
    case (Suc h')
    with h(3) have "min_nodes h' \<le> min_nodes k" by (simp add: min_nodes_mono)
    with Suc show ?thesis by simp
  qed simp
  ultimately show ?case using h(1) by simp
qed simp

text \<open>So the arrays of \<open>MARPA_AVL_MAX_HEIGHT\<close> cells never overflow.\<close>

lemma height_bound:
  assumes "balanced t" "length (nodes t) < SIZE_MOD"
  shows "height t \<le> MARPA_AVL_MAX_HEIGHT"
proof (rule ccontr)
  assume "\<not> ?thesis"
  then have "min_nodes 93 \<le> min_nodes (height t)" by (intro min_nodes_mono) (simp add: MARPA_AVL_MAX_HEIGHT_def)
  with balanced_many [OF assms(1)] min_nodes_93 assms(2) show False by linarith
qed

section \<open>The invariant of a table\<close>

definition table_ok :: "'a avl_table \<Rightarrow> bool" where
  "table_ok T \<longleftrightarrow> total_compare (avl_compare T) \<and> balanced (avl_root T)
     \<and> ordered (avl_compare T) (items (avl_root T)) \<and> distinct (map fst (nodes (avl_root T)))
     \<and> (\<forall>n \<in> set (map fst (nodes (avl_root T))). n < avl_obstack T)
     \<and> avl_count T = length (nodes (avl_root T)) \<and> avl_count T < SIZE_MOD
     \<and> avl_generation T < SIZE_MOD"

lemma create_ok: "total_compare compare \<Longrightarrow> table_ok (marpa_avl_create compare)"
  by (simp add: table_ok_def marpa_avl_create_def ordered_def SIZE_MOD_def)

lemma find_unique:
  "q \<in> set xs \<Longrightarrow> P q \<Longrightarrow> \<forall>z \<in> set xs. P z \<longrightarrow> z = q \<Longrightarrow> List.find P xs = Some q"
proof (induction xs)
  case (Cons y ys)
  show ?case
  proof (cases "P y")
    case True
    with Cons.prems(3) have "y = q" by (meson list.set_intros(1))
    with True show ?thesis by simp
  next
    case False
    then have "y \<noteq> q" using Cons.prems(2) by blast
    then have "q \<in> set ys" using Cons.prems(1) by simp
    moreover have "\<forall>z \<in> set ys. P z \<longrightarrow> z = q" using Cons.prems(3) by (meson list.set_intros(2))
    ultimately have "List.find P ys = Some q" by (intro Cons.IH Cons.prems(2))
    with False show ?thesis by simp
  qed
qed simp

text \<open>
  A probe of a well-formed table: it returns, the table stays well-formed, and either the item was
  there and nothing changes, or the new node is in its place and no other node has changed.
\<close>

definition probed :: "'a avl_table \<Rightarrow> 'a \<Rightarrow> nat \<times> 'a \<Rightarrow> 'a avl_table \<Rightarrow> bool" where
  "probed T x p T' \<longleftrightarrow>
     (case List.find (\<lambda>q. avl_compare T x (snd q) = 0) (nodes (avl_root T)) of
        Some q \<Rightarrow> p = q \<and> T' = T
      | None \<Rightarrow> p = (avl_obstack T, x) \<and> avl_obstack T' = Suc (avl_obstack T)
          \<and> nodes (avl_root T') = insert_at (avl_compare T) p (nodes (avl_root T)))"

context total_compare
begin

lemma ordered_same:
  assumes "ordered compare (map snd ps)" "p \<in> set ps" "q \<in> set ps" "compare (snd p) (snd q) = 0"
  shows "p = q"
proof -
  obtain i j where i: "i < length ps" "ps ! i = p" "j < length ps" "ps ! j = q"
    using assms(2,3) by (auto simp: in_set_conv_nth)
  have less: "compare (snd (ps ! k)) (snd (ps ! m)) < 0" if "k < m" "m < length ps" for k m
    using assms(1) that sorted_wrt_nth_less [of "\<lambda>a b. compare a b < 0" "map snd ps" k m] by (simp add: ordered_def)
  have "\<not> i < j" using less [of i j] i assms(4) by auto
  moreover have "\<not> j < i" using less [of j i] i assms(4) zero_swap [of "snd p" "snd q"] by auto
  ultimately have "i = j" by simp
  with i show ?thesis by simp
qed

lemma find_this:
  assumes "ordered compare (map snd ps)" "p \<in> set ps" "compare x (snd p) = 0"
  shows "List.find (\<lambda>q. compare x (snd q) = 0) ps = Some p"
proof (rule find_unique [where P = "\<lambda>q. compare x (snd q) = 0", OF assms(2)], rule assms(3), intro ballI impI)
  fix z assume "z \<in> set ps" "compare x (snd z) = 0"
  moreover from this assms(3) have "compare (snd z) (snd p) = 0"
    using equal_less [of x "snd z" "snd p"] equal_less [of x "snd p" "snd z"] zero_swap swap
    by (metis linorder_neqE_linordered_idom less_irrefl)
  ultimately show "z = p" using ordered_same [OF assms(1) _ assms(2)] by simp
qed

lemma probe_runs:
  assumes T: "table_ok T" and c: "avl_compare T = compare" and room: "avl_count T + 1 < SIZE_MOD"
  obtains p T' where "marpa_avl_probe T x = Some (p, T')" "table_ok T'" "avl_compare T' = compare" "probed T x p T'"
proof -
  let ?t = "avl_root T" and ?n = "avl_obstack T"
  have t: "balanced ?t" "ordered compare (items ?t)" "distinct (map fst (nodes ?t))"
    "\<forall>n \<in> set (map fst (nodes ?t)). n < ?n" "avl_count T = length (nodes ?t)"
    using T c by (simp_all add: table_ok_def)
  have "height ?t \<le> MARPA_AVL_MAX_HEIGHT" using height_bound [OF t(1)] t(5) room by simp
  then have "probe_search compare x ?t [] [] [] \<noteq> None" by (intro search_returns) simp
  then obtain s where s: "probe_search compare x ?t [] [] [] = Some s" by auto
  show thesis
  proof (cases s)
    case (Inl q)
    then have "q \<in> set (nodes ?t)" "compare x (snd q) = 0" using search_found [of compare x ?t] s by (cases q; simp)+
    then have "List.find (\<lambda>q. compare x (snd q) = 0) (nodes ?t) = Some q"
      using t(2) by (intro find_this) (simp_all add: items_def)
    with Inl s c T show thesis by (intro that [of q T]) (simp_all add: marpa_avl_probe_def probed_def)
  next
    case (Inr z)
    then obtain y da where z: "s = Inr (y, da)" by (cases z) simp
    have new: "\<forall>a \<in> set (items ?t). compare x a \<noteq> 0" using search_complete s z t(2) by blast
    then have none: "List.find (\<lambda>q. compare x (snd q) = 0) (nodes ?t) = None"
      by (intro find_None) (auto simp: items_def)
    let ?path = "search_path compare x ?t" and ?N = "Node ?n NoNode x 0 NoNode"
    let ?T = "\<lambda>r g. T\<lparr>avl_root := r, avl_obstack := Suc ?n, avl_count := avl_count T + 1, avl_generation := g\<rparr>"
    have N: "nodes (link_new ?N ?path ?t) = insert_at compare (?n, x) (nodes ?t)"
      using link_in_order t(2) new by blast
    have ok: "table_ok (?T r g) \<and> avl_compare (?T r g) = compare \<and> probed T x (?n, x) (?T r g)"
      if "balanced r" "nodes r = insert_at compare (?n, x) (nodes ?t)" "g < SIZE_MOD" for r g
      using that t room none ordered_insert [of "nodes ?t" x ?n] new T c
      by (auto simp: table_ok_def probed_def items_def insert_at_distinct less_Suc_eq)
    have g: "avl_generation T < SIZE_MOD" "to_size (avl_generation T + 1) < SIZE_MOD"
      using T by (simp_all add: table_ok_def to_size_def SIZE_MOD_def)
    show thesis
    proof (cases "?t = NoNode")
      case True
      then have "marpa_avl_probe T x = Some ((?n, x), ?T ?N (avl_generation T))"
        using s z c room by (simp add: marpa_avl_probe_def Let_def)
      moreover have "nodes ?N = insert_at compare (?n, x) (nodes ?t)" using True N by simp
      ultimately show thesis using ok [of ?N "avl_generation T"] g that by simp
    next
      case False
      have "turns [] [] [] y da ?t ?path" using search_turns s z by fastforce
      from insertion [OF this False t(1), of ?n x] obtain t' k where t':
        "update_at y (\<lambda>s. rebalance (adjust da s)) (link_new ?N (y @ da) ?t) = Some (t', k)"
        "balanced t'" "nodes t' = nodes (link_new ?N ?path ?t)" .
      let ?g = "if k then to_size (avl_generation T + 1) else avl_generation T"
      have "marpa_avl_probe T x = Some ((?n, x), ?T t' ?g)"
        using s z c room t'(1) False by (simp add: marpa_avl_probe_def Let_def)
      moreover have "?g < SIZE_MOD" using g by simp
      ultimately show thesis using ok [of t' ?g] t'(2,3) N that by simp
    qed
  qed
qed

end

section \<open>Properties\<close>

text \<open>C13: inserting into a well-formed table always returns, keeps it a balanced search tree, and puts a
  new item in its place among the others or finds the one that compares as equal.\<close>

theorem probe_in_order:
  assumes "table_ok T" "avl_count T + 1 < SIZE_MOD"
  shows "\<exists>p T'. marpa_avl_probe T x = Some (p, T') \<and> table_ok T' \<and> avl_compare T' = avl_compare T \<and> probed T x p T'"
proof -
  have "total_compare (avl_compare T)" using assms(1) by (simp add: table_ok_def)
  from total_compare.probe_runs [OF this assms(1) refl assms(2)] show ?thesis by metis
qed

definition demo_pairs :: "sym_rule_pair avl_table" where
  "demo_pairs = \<lparr>avl_root = Node 1 (Node 0 NoNode \<lparr>t_symid = 1, t_ruleid = 1\<rparr> 0 NoNode) \<lparr>t_symid = 1, t_ruleid = 4\<rparr> (- 1) NoNode,
     avl_compare = sym_rule_cmp, avl_obstack = 2, avl_count = 2, avl_generation = 1\<rparr>"

lemma demo_pairs_ok: "table_ok demo_pairs"
  by (auto simp: table_ok_def demo_pairs_def ordered_def sym_rule_cmp_def SIZE_MOD_def sym_rule.total_compare_axioms)

theorem probe_in_order_witness:
  "\<exists>p T'. marpa_avl_probe demo_pairs \<lparr>t_symid = 1, t_ruleid = 3\<rparr> = Some (p, T') \<and> table_ok T'
     \<and> avl_compare T' = avl_compare demo_pairs \<and> probed demo_pairs \<lparr>t_symid = 1, t_ruleid = 3\<rparr> p T'"
  by (rule probe_in_order [OF demo_pairs_ok]) (simp add: demo_pairs_def SIZE_MOD_def)

text \<open>C26: the two searches of a well-formed table are scans of its items in order: for the one that
  compares as equal, and for the first that does not come before the item sought.\<close>

theorem searches_scan:
  assumes "table_ok T"
  shows "(marpa_avl_find T x, marpa_avl_at_or_after T x)
    = (List.find (\<lambda>a. avl_compare T x a = 0) (items (avl_root T)),
       List.find (\<lambda>a. avl_compare T x a \<le> 0) (items (avl_root T)))"
proof -
  have c: "total_compare (avl_compare T)" and o: "ordered (avl_compare T) (items (avl_root T))"
    using assms by (simp_all add: table_ok_def)
  show ?thesis
    using total_compare.find_in_order [OF c o, of x] total_compare.at_or_after_in_order [OF c o, of x None]
    by (simp add: marpa_avl_find_def marpa_avl_at_or_after_def split: option.split)
qed

theorem searches_scan_witness:
  "(marpa_avl_find demo_pairs \<lparr>t_symid = 1, t_ruleid = 3\<rparr>, marpa_avl_at_or_after demo_pairs \<lparr>t_symid = 1, t_ruleid = 3\<rparr>)
     = (None, Some \<lparr>t_symid = 1, t_ruleid = 4\<rparr>)"
  unfolding searches_scan [OF demo_pairs_ok] by (simp add: demo_pairs_def sym_rule_cmp_def)

text \<open>
  The insertion into an AVL table and the search in it, seen as operations on the set of its items.
\<close>

definition items_of :: "'a avl_table \<Rightarrow> 'a set" where
  "items_of T = set (items (avl_root T))"

lemma items_of_create [simp]: "items_of (marpa_avl_create c) = {}"
  by (simp add: items_of_def marpa_avl_create_def)

lemma items_of_finite [simp]: "finite (items_of T)"
  by (simp add: items_of_def)

lemma count_create [simp]: "avl_count (marpa_avl_create c) = 0"
  by (simp add: marpa_avl_create_def)

lemma compare_create [simp]: "avl_compare (marpa_avl_create c) = c"
  by (simp add: marpa_avl_create_def)

context total_compare
begin

lemma insert_new:
  assumes T: "table_ok T" "avl_compare T = compare" "avl_count T + 1 < SIZE_MOD"
    and new: "\<forall>y \<in> items_of T. compare x y \<noteq> 0"
  obtains T' where "marpa_avl_insert T x = Some (None, T')" "table_ok T'" "avl_compare T' = compare"
    "items_of T' = insert x (items_of T)" "avl_count T' = avl_count T + 1"
proof -
  from probe_runs [OF T, of x] obtain p T' where
    P: "marpa_avl_probe T x = Some (p, T')" "table_ok T'" "avl_compare T' = compare" "probed T x p T'" .
  have "List.find (\<lambda>q. compare x (snd q) = 0) (nodes (avl_root T)) = None"
    using new by (intro find_None) (auto simp: items_of_def items_def)
  then have n: "nodes (avl_root T') = insert_at compare p (nodes (avl_root T))" "snd p = x"
    using P(4) T(2) by (simp_all add: probed_def)
  then have "items_of T' = insert x (items_of T)" by (simp add: items_of_def items_def)
  moreover have "avl_count T' = avl_count T + 1" using n P(2) T(1) by (simp add: table_ok_def)
  moreover have "marpa_avl_insert T x = Some (None, T')" using P(1) n(2) by (simp add: marpa_avl_insert_def split_def)
  ultimately show thesis using P that by blast
qed

lemma insert_found:
  assumes T: "table_ok T" "avl_compare T = compare" "avl_count T + 1 < SIZE_MOD"
    and old: "y \<in> items_of T" "compare x y = 0"
  shows "marpa_avl_insert T x = Some (if y = x then None else Some y, T)"
proof -
  from probe_runs [OF T, of x] obtain p T' where
    P: "marpa_avl_probe T x = Some (p, T')" "probed T x p T'" .
  obtain q where q: "q \<in> set (nodes (avl_root T))" "snd q = y" using old(1) by (auto simp: items_of_def items_def)
  then have "List.find (\<lambda>q. compare x (snd q) = 0) (nodes (avl_root T)) = Some q"
    using T old(2) by (intro find_this) (simp_all add: table_ok_def items_def)
  then have "p = q" "T' = T" using P(2) T(2) by (simp_all add: probed_def)
  with P(1) q(2) show ?thesis by (simp add: marpa_avl_insert_def split_def)
qed

lemma find_runs:
  assumes T: "table_ok T" "avl_compare T = compare"
  shows "marpa_avl_find T x = List.find (\<lambda>a. compare x a = 0) (items (avl_root T))"
  using T find_in_order [of "avl_root T" x] by (simp add: marpa_avl_find_def table_ok_def)

lemma find_item:
  assumes T: "table_ok T" "avl_compare T = compare" and y: "y \<in> items_of T" "compare x y = 0"
  shows "marpa_avl_find T x = Some y"
proof -
  have o: "ordered compare (items (avl_root T))" using T by (simp add: table_ok_def)
  have "\<forall>z \<in> items_of T. compare x z = 0 \<longrightarrow> z = y"
  proof (intro ballI impI)
    fix z assume z: "z \<in> items_of T" "compare x z = 0"
    obtain p q where pq: "p \<in> set (nodes (avl_root T))" "snd p = z" "q \<in> set (nodes (avl_root T))" "snd q = y"
      using z(1) y(1) by (auto simp: items_of_def items_def)
    have "compare z x = 0" "compare y x = 0" using z(2) y(2) zero_swap by auto
    then have "compare z y \<le> 0" "compare y z \<le> 0" using trans [of z x y] trans [of y x z] z(2) y(2) by simp_all
    then have "compare z y = 0" using swap [of z y] by linarith
    then have "compare (snd p) (snd q) = 0" using pq by simp
    from ordered_same [OF o [unfolded items_def] pq(1,3) this] pq(2,4) show "z = y" by simp
  qed
  with y show ?thesis unfolding find_runs [OF T] items_of_def by (intro find_unique) blast+
qed

lemma find_missing:
  assumes T: "table_ok T" "avl_compare T = compare" and y: "\<forall>y \<in> items_of T. compare x y \<noteq> 0"
  shows "marpa_avl_find T x = None"
  using y unfolding find_runs [OF T] by (intro find_None) (simp add: items_of_def)

end

end
