(* ===== verification/AvlTraverser.thy ===== *)
theory AvlTraverser
  imports Avl
begin

text \<open>
  The traversers of \<open>src/libmarpa-dist/marpa_avl.c\<close>. A traverser points to a node and keeps the nodes
  above it, here with the last one pushed first; \<open>avl_height\<close> is the length of that list. The table
  it belongs to is an argument. The generation number tells whether a rotation made the stack stale.
\<close>

record avl_traverser =
  avl_node :: "nat option"
  avl_stack :: "nat list"
  trav_generation :: nat

text \<open>The node of a name.\<close>

fun node_at :: "nat \<Rightarrow> 'a avl_tree \<Rightarrow> 'a avl_tree" where
  "node_at n NoNode = NoNode"
| "node_at n (Node i l a b r) =
     (if i = n then Node i l a b r
      else (case node_at n l of NoNode \<Rightarrow> node_at n r | t \<Rightarrow> t))"

definition node_data :: "'a avl_tree \<Rightarrow> 'a option" where
  "node_data t = (case t of NoNode \<Rightarrow> None | Node i l a b r \<Rightarrow> Some a)"

definition push_node :: "nat \<Rightarrow> nat list \<Rightarrow> nat list option" where
  "push_node n st = do { require (length st < MARPA_AVL_MAX_HEIGHT); Some (n # st) }"

section \<open>Refresh and reset\<close>

fun refresh_from :: "('a \<Rightarrow> 'a \<Rightarrow> int) \<Rightarrow> 'a \<Rightarrow> nat \<Rightarrow> nat list \<Rightarrow> 'a avl_tree \<Rightarrow> nat list option" where
  "refresh_from compare d node st NoNode = None"
| "refresh_from compare d node st (Node i l a b r) =
     (if i = node then Some st
      else do {
        st1 \<leftarrow> push_node i st;
        refresh_from compare d node st1 (if 0 < compare d a then r else l)
      })"

definition trav_refresh :: "'a avl_table \<Rightarrow> avl_traverser \<Rightarrow> avl_traverser option" where
  "trav_refresh tree trav =
     (let trav1 = trav\<lparr>trav_generation := avl_generation tree\<rparr> in
      case avl_node trav of
        None \<Rightarrow> Some trav1
      | Some n \<Rightarrow> do {
          d \<leftarrow> node_data (node_at n (avl_root tree));
          st \<leftarrow> refresh_from (avl_compare tree) d n [] (avl_root tree);
          Some (trav1\<lparr>avl_stack := st\<rparr>)
        })"

definition trav_reset :: "'a avl_table \<Rightarrow> avl_traverser \<Rightarrow> avl_traverser" where
  "trav_reset tree trav =
     trav\<lparr>avl_node := None, avl_stack := [], trav_generation := avl_generation tree\<rparr>"

definition marpa_avl_t_init :: "'a avl_table \<Rightarrow> avl_traverser" where
  "marpa_avl_t_init tree =
     trav_reset tree \<lparr>avl_node = None, avl_stack = [], trav_generation = 0\<rparr>"

definition marpa_avl_t_reset :: "'a avl_table \<Rightarrow> avl_traverser \<Rightarrow> avl_traverser" where
  "marpa_avl_t_reset tree trav = trav_reset tree trav"

section \<open>First, last, find\<close>

text \<open>Down the links of one side; \<open>dir = False\<close> goes to the least item.\<close>

fun descend :: "bool \<Rightarrow> nat list \<Rightarrow> 'a avl_tree \<Rightarrow> ('a avl_tree \<times> nat list) option" where
  "descend dir st NoNode = None"
| "descend dir st (Node i l a b r) =
     (if (if dir then r else l) \<noteq> NoNode
      then do { st1 \<leftarrow> push_node i st; descend dir st1 (if dir then r else l) }
      else Some (Node i l a b r, st))"

definition t_end :: "bool \<Rightarrow> 'a avl_table \<Rightarrow> avl_traverser \<Rightarrow> ('a option \<times> avl_traverser) option" where
  "t_end dir tree trav =
     (if avl_root tree = NoNode then Some (None, trav\<lparr>avl_node := None\<rparr>)
      else do {
        (x, st) \<leftarrow> descend dir (avl_stack trav) (avl_root tree);
        Some (Some (avl_data x), trav\<lparr>avl_node := Some (avl_name x), avl_stack := st\<rparr>)
      })"

definition marpa_avl_t_first :: "'a avl_table \<Rightarrow> avl_traverser \<Rightarrow> ('a option \<times> avl_traverser) option" where
  "marpa_avl_t_first = t_end False"

definition marpa_avl_t_last :: "'a avl_table \<Rightarrow> avl_traverser \<Rightarrow> ('a option \<times> avl_traverser) option" where
  "marpa_avl_t_last = t_end True"

text \<open>The result of the search: the node, if any, and the stack.\<close>

fun t_find_from ::
  "('a \<Rightarrow> 'a \<Rightarrow> int) \<Rightarrow> 'a \<Rightarrow> nat list \<Rightarrow> 'a avl_tree \<Rightarrow> (('a avl_tree \<times> nat list) option) option" where
  "t_find_from compare item st NoNode = Some None"
| "t_find_from compare item st (Node i l a b r) =
     (let cmp = compare item a in
      if cmp = 0 then Some (Some (Node i l a b r, st))
      else do { st1 \<leftarrow> push_node i st; t_find_from compare item st1 (if cmp < 0 then l else r) })"

definition marpa_avl_t_find :: "'a avl_table \<Rightarrow> avl_traverser \<Rightarrow> 'a \<Rightarrow> ('a option \<times> avl_traverser) option" where
  "marpa_avl_t_find tree trav item = do {
     found \<leftarrow> t_find_from (avl_compare tree) item (avl_stack trav) (avl_root tree);
     Some (case found of
             Some (p, st) \<Rightarrow> (Some (avl_data p), trav\<lparr>avl_node := Some (avl_name p), avl_stack := st\<rparr>)
           | None \<Rightarrow> (None, trav\<lparr>avl_node := None, avl_stack := []\<rparr>))
   }"

definition marpa_avl_t_at_or_after ::
  "'a avl_table \<Rightarrow> avl_traverser \<Rightarrow> 'a \<Rightarrow> ('a option \<times> avl_traverser) option" where
  "marpa_avl_t_at_or_after tree trav sought_item =
     (case marpa_avl_at_or_after tree sought_item of
        None \<Rightarrow> Some (None, trav)
      | Some found_item \<Rightarrow> marpa_avl_t_find tree trav found_item)"

text \<open>The traverser may belong to another table before; the generation is made stale.\<close>

definition marpa_avl_t_insert ::
  "'a avl_table \<Rightarrow> avl_traverser \<Rightarrow> 'a \<Rightarrow> ('a \<times> avl_traverser \<times> 'a avl_table) option" where
  "marpa_avl_t_insert tree trav item = do {
     ((n, a), tree1) \<leftarrow> marpa_avl_probe tree item;
     Some (a, trav\<lparr>avl_node := Some n,
       trav_generation := int_to_size (int (avl_generation tree1) - 1)\<rparr>, tree1)
   }"

definition marpa_avl_t_cur :: "'a avl_table \<Rightarrow> avl_traverser \<Rightarrow> 'a option" where
  "marpa_avl_t_cur tree trav =
     (case avl_node trav of None \<Rightarrow> None | Some n \<Rightarrow> node_data (node_at n (avl_root tree)))"

definition marpa_avl_t_copy ::
  "'a avl_table \<Rightarrow> avl_traverser \<Rightarrow> avl_traverser \<Rightarrow> 'a option \<times> avl_traverser" where
  "marpa_avl_t_copy tree trav src =
     (let trav1 = trav\<lparr>avl_node := avl_node src, trav_generation := trav_generation src\<rparr>;
          trav2 = (if trav_generation src = avl_generation tree then trav1\<lparr>avl_stack := avl_stack src\<rparr> else trav1)
      in (marpa_avl_t_cur tree trav2, trav2))"

definition marpa_avl_t_replace ::
  "'a avl_table \<Rightarrow> avl_traverser \<Rightarrow> 'a \<Rightarrow> ('a \<times> 'a avl_table) option" where
  "marpa_avl_t_replace tree trav new = do {
     n \<leftarrow> avl_node trav;
     old \<leftarrow> node_data (node_at n (avl_root tree));
     Some (old, tree\<lparr>avl_root := set_data n new (avl_root tree)\<rparr>)
   }"

section \<open>Next and previous\<close>

text \<open>Up the stack while the node left is the child on side \<open>dir\<close>.\<close>

fun climb :: "bool \<Rightarrow> 'a avl_tree \<Rightarrow> nat \<Rightarrow> nat list \<Rightarrow> (nat \<times> nat list) option" where
  "climb dir root y [] = None"
| "climb dir root y (x # st) =
     (case avl_link dir (node_at x root) of
        NoNode \<Rightarrow> Some (x, st)
      | c \<Rightarrow> if avl_name c = y then climb dir root x st else Some (x, st))"

text \<open>The step to the neighbour on side \<open>dir\<close>; from the null node it starts at the other end.\<close>

definition t_step :: "bool \<Rightarrow> 'a avl_table \<Rightarrow> avl_traverser \<Rightarrow> ('a option \<times> avl_traverser) option" where
  "t_step dir tree trav0 = do {
     trav \<leftarrow> (if trav_generation trav0 \<noteq> avl_generation tree then trav_refresh tree trav0 else Some trav0);
     case avl_node trav of
       None \<Rightarrow> t_end (\<not> dir) tree trav
     | Some n \<Rightarrow> (let x = node_at n (avl_root tree) in do {
         require (x \<noteq> NoNode);
         if avl_link dir x \<noteq> NoNode
         then do {
           st1 \<leftarrow> push_node n (avl_stack trav);
           (x1, st2) \<leftarrow> descend (\<not> dir) st1 (avl_link dir x);
           Some (Some (avl_data x1), trav\<lparr>avl_node := Some (avl_name x1), avl_stack := st2\<rparr>)
         }
         else (case climb dir (avl_root tree) n (avl_stack trav) of
                 None \<Rightarrow> Some (None, trav\<lparr>avl_node := None, avl_stack := []\<rparr>)
               | Some (y, st) \<Rightarrow> do {
                   d \<leftarrow> node_data (node_at y (avl_root tree));
                   Some (Some d, trav\<lparr>avl_node := Some y, avl_stack := st\<rparr>)
                 })
       })
   }"

definition marpa_avl_t_next :: "'a avl_table \<Rightarrow> avl_traverser \<Rightarrow> ('a option \<times> avl_traverser) option" where
  "marpa_avl_t_next = t_step True"

definition marpa_avl_t_prev :: "'a avl_table \<Rightarrow> avl_traverser \<Rightarrow> ('a option \<times> avl_traverser) option" where
  "marpa_avl_t_prev = t_step False"

end
