(* ===== verification/AvlWalk.thy ===== *)
theory AvlWalk
  imports AvlProps AvlTraverser
begin

text \<open>
  What the traversers do. A position is a path from the root; the stack of a traverser there is the
  list of the nodes above. The nodes that are still to come on one side of a position (\<open>rest\<close>) are those
  below the node on that side, then those above it: a step goes to the first of them, whichever side.
\<close>

section \<open>Paths and sides\<close>

definition walk :: "bool \<Rightarrow> 'a avl_tree \<Rightarrow> (nat \<times> 'a) list" where
  "walk d t = (if d then nodes t else rev (nodes t))"

lemma walk_simps [simp]:
  "walk d NoNode = []"
  "walk d (Node i l a b r) = walk d (if d then l else r) @ (i, a) # walk d (if d then r else l)"
  by (simp_all add: walk_def)

fun above :: "bool list \<Rightarrow> 'a avl_tree \<Rightarrow> nat list" where
  "above [] t = []"
| "above (d # ds) NoNode = []"
| "above (d # ds) (Node i l a b r) = above ds (if d then r else l) @ [i]"

fun beyond :: "bool \<Rightarrow> bool list \<Rightarrow> 'a avl_tree \<Rightarrow> (nat \<times> 'a) list" where
  "beyond d [] t = []"
| "beyond d (e # ds) NoNode = []"
| "beyond d (e # ds) (Node i l a b r) =
     beyond d ds (if e then r else l) @ (if e = d then [] else (i, a) # walk d (if d then r else l))"

definition rest :: "bool \<Rightarrow> bool list \<Rightarrow> 'a avl_tree \<Rightarrow> (nat \<times> 'a) list" where
  "rest d p t = walk d (avl_link d (subtree p t)) @ beyond d p t"

lemma link_Node [simp]: "avl_link d (Node i l a b r) = (if d then r else l)"
  by (simp add: avl_link_def)

lemma subtree_NoNode [simp]: "subtree p NoNode = NoNode"
  by (cases p) simp_all

lemma above_NoNode [simp]: "above p NoNode = []"
  by (cases p) simp_all

lemma beyond_NoNode [simp]: "beyond d p NoNode = []"
  by (cases p) simp_all

lemma subtree_append: "subtree (p @ q) t = subtree q (subtree p t)"
  by (induction p t rule: subtree.induct) simp_all

lemma above_append: "above (p @ q) t = above q (subtree p t) @ above p t"
  by (induction p t rule: subtree.induct) simp_all

lemma beyond_append: "beyond d (p @ q) t = beyond d q (subtree p t) @ beyond d p t"
  by (induction p t rule: subtree.induct) simp_all

lemma height_subtree: "subtree p t \<noteq> NoNode \<Longrightarrow> length p + height (subtree p t) \<le> height t"
proof (induction p t rule: subtree.induct)
  case (3 d ds i l a b r)
  then show ?case by (cases d) auto
qed simp_all

lemma length_above: "subtree p t \<noteq> NoNode \<Longrightarrow> length (above p t) = length p"
  by (induction p t rule: subtree.induct) simp_all

text \<open>The nodes in order around a position, and the node of a name.\<close>

lemma walk_around:
  "subtree p t = Node n l a b r \<Longrightarrow> walk d t = rev (rest (\<not> d) p t) @ (n, a) # rest d p t"
proof (induction p t rule: subtree.induct)
  case (1 t)
  then show ?case by (cases d) (simp_all add: rest_def walk_def)
next
  case (3 e ds i l' a' b' r')
  then show ?case by (cases d; cases e) (simp_all add: rest_def walk_def)
qed simp_all

lemma subtree_node: "subtree p t = Node n l a b r \<Longrightarrow> (n, a) \<in> set (nodes t)"
  using walk_around [of p t n l a b r True] by (simp add: walk_def)

lemma node_at_missing: "n \<notin> set (map fst (nodes t)) \<Longrightarrow> node_at n t = NoNode"
  by (induction t) auto

lemma node_at_path:
  "subtree p t = Node n l a b r \<Longrightarrow> distinct (map fst (nodes t)) \<Longrightarrow> node_at n t = Node n l a b r"
proof (induction p t rule: subtree.induct)
  case (3 e ds i l' a' b' r')
  have "(n, a) \<in> set (nodes (if e then r' else l'))" using 3(2) by (intro subtree_node [of ds]) simp
  then have "n \<in> set (map fst (nodes (if e then r' else l')))" by force
  then have "i \<noteq> n" "e \<longrightarrow> n \<notin> set (map fst (nodes l'))" using 3(3) by (cases e; auto)+
  moreover have "node_at n (if e then r' else l') = Node n l a b r" using 3 by simp
  ultimately show ?case using node_at_missing [of n l'] by (cases e) simp_all
qed simp_all

lemma distinct_subtree: "distinct (map fst (nodes t)) \<Longrightarrow> distinct (map fst (nodes (subtree p t)))"
  by (induction p t rule: subtree.induct) auto

lemma path_of_node: "(n, a) \<in> set (nodes t) \<Longrightarrow> \<exists>p l b r. subtree p t = Node n l a b r"
proof (induction t)
  case (Node i l c b r)
  then consider "(n, a) \<in> set (nodes l)" | "n = i" "a = c" | "(n, a) \<in> set (nodes r)" by auto
  then show ?case
  proof cases
    case 1
    with Node.IH(1) obtain p where "\<exists>l' b r'. subtree p l = Node n l' a b r'" by blast
    then show ?thesis by (intro exI [of _ "False # p"]) simp
  next
    case 2
    then show ?thesis by (intro exI [of _ "[]"]) simp
  next
    case 3
    with Node.IH(2) obtain p where "\<exists>l' b r'. subtree p r = Node n l' a b r'" by blast
    then show ?thesis by (intro exI [of _ "True # p"]) simp
  qed
qed simp

section \<open>The loops\<close>

lemma descend_runs:
  assumes "t \<noteq> NoNode" "length st + height t \<le> Suc MARPA_AVL_MAX_HEIGHT"
  obtains q n l a b r where "descend d st t = Some (Node n l a b r, above q t @ st)"
    "subtree q t = Node n l a b r" "rest d q t = []"
proof -
  have "\<exists>q n l a b r. descend d st t = Some (Node n l a b r, above q t @ st)
    \<and> subtree q t = Node n l a b r \<and> rest d q t = []"
    using assms
  proof (induction t arbitrary: st)
    case (Node i l a b r)
    show ?case
    proof (cases "(if d then r else l) = NoNode")
      case True
      then show ?thesis by (intro exI [of _ "[]"]) (simp add: rest_def)
    next
      case False
      then have "\<exists>q n l' a b r'. descend d (i # st) (if d then r else l) = Some (Node n l' a b r', above q (if d then r else l) @ i # st)
        \<and> subtree q (if d then r else l) = Node n l' a b r' \<and> rest d q (if d then r else l) = []"
        using Node.IH(1) [of "i # st"] Node.IH(2) [of "i # st"] Node.prems(2) by (cases d) auto
      then obtain q n l' a' b' r' where q: "descend d (i # st) (if d then r else l) = Some (Node n l' a' b' r', above q (if d then r else l) @ i # st)"
        "subtree q (if d then r else l) = Node n l' a' b' r'" "rest d q (if d then r else l) = []" by blast
      have "height (if d then r else l) \<noteq> 0" using False by simp
      then have "length st < MARPA_AVL_MAX_HEIGHT"
        using Node.prems(2) by (simp only: height_0 height.simps) (cases d; force simp: height_0 [symmetric] simp del: height_0)
      with False q show ?thesis
        by (intro exI [of _ "d # q"]) (auto simp: rest_def push_node_def)
    qed
  qed simp
  with that show thesis by blast
qed

lemma climb_runs:
  assumes "distinct (map fst (nodes t))"
  shows "subtree p t = Node y l a b r \<Longrightarrow>
    (case beyond d p t of
       [] \<Rightarrow> climb d t y (above p t) = None
     | (m, c) # ws \<Rightarrow> (\<exists>q l b r. climb d t y (above p t) = Some (m, above q t)
          \<and> subtree q t = Node m l c b r \<and> rest d q t = ws))"
proof (induction p arbitrary: y l a b r rule: rev_induct)
  case (snoc e q)
  obtain m l' c b' r' where q: "subtree q t = Node m l' c b' r'"
    using snoc.prems by (cases "subtree q t") (auto simp: subtree_append)
  have y: "(if e then r' else l') = Node y l a b r" using snoc.prems q by (simp add: subtree_append)
  have at: "node_at m t = Node m l' c b' r'" by (rule node_at_path [OF q assms])
  show ?case
  proof (cases "e = d")
    case True
    with y at have "climb d t y (above (q @ [e]) t) = climb d t m (above q t)" by (simp add: above_append q)
    moreover have "beyond d (q @ [e]) t = beyond d q t" using True by (simp add: beyond_append q)
    ultimately show ?thesis using snoc.IH [OF q] by (simp only:)
  next
    case False
    have "distinct (map fst (nodes (Node m l' c b' r')))" using distinct_subtree [OF assms, of q] q by simp
    then have "(if d then r' else l') \<noteq> NoNode \<longrightarrow> avl_name (if d then r' else l') \<noteq> y"
      using y False by (cases d; cases e; cases l'; cases r') auto
    then have "climb d t y (above (q @ [e]) t) = Some (m, above q t)"
      using at by (auto simp: above_append q split: avl_tree.split)
    moreover have "beyond d (q @ [e]) t = (m, c) # rest d q t"
      using False by (simp add: beyond_append q rest_def)
    ultimately show ?thesis using q by auto
  qed
qed simp

context total_compare
begin

lemma refresh_runs:
  "ordered compare (items t) \<Longrightarrow> distinct (map fst (nodes t)) \<Longrightarrow> subtree p t = Node n l x b r
     \<Longrightarrow> length st + height t \<le> MARPA_AVL_MAX_HEIGHT
     \<Longrightarrow> refresh_from compare x n st t = Some (above p t @ st)"
proof (induction p t arbitrary: st rule: subtree.induct)
  case (1 t)
  then show ?case by simp
next
  case (2 e ds)
  then show ?case by simp
next
  case (3 e ds i l' a b' r')
  let ?c = "if e then r' else l'"
  have ord: "ordered compare (items l' @ a # items r')" using 3(2) by simp
  have nx: "(n, x) \<in> set (nodes ?c)" using 3(4) by (intro subtree_node [of ds]) simp
  then have x: "x \<in> set (items ?c)" by (force simp: items_def)
  have "n \<in> set (map fst (nodes ?c))" using nx by force
  then have "i \<noteq> n" using 3(3) by (cases e) auto
  moreover have "e = (0 < compare x a)"
    using x ord swap [of x a] swap [of a x] by (cases e) (auto simp: ordered_split)
  moreover have "length st < MARPA_AVL_MAX_HEIGHT" using 3(5) by simp
  moreover have "refresh_from compare x n (i # st) ?c = Some (above ds ?c @ i # st)"
  proof (rule 3(1))
    show "ordered compare (items ?c)" using ord by (simp add: ordered_split)
    show "distinct (map fst (nodes ?c))" using 3(3) by simp
    show "subtree ds ?c = Node n l x b r" using 3(4) by simp
    show "length (i # st) + height ?c \<le> MARPA_AVL_MAX_HEIGHT" using 3(5) by (cases e) simp_all
  qed
  ultimately show ?case by (simp add: push_node_def)
qed

end

section \<open>Steps\<close>

text \<open>A traverser at a path, and one at no node.\<close>

definition points :: "'a avl_table \<Rightarrow> bool list \<Rightarrow> avl_traverser \<Rightarrow> bool" where
  "points T p trav \<longleftrightarrow> (\<exists>n l a b r. subtree p (avl_root T) = Node n l a b r \<and> avl_node trav = Some n)
     \<and> (trav_generation trav = avl_generation T \<longrightarrow> avl_stack trav = above p (avl_root T))"

definition unset :: "avl_traverser \<Rightarrow> bool" where
  "unset trav \<longleftrightarrow> avl_node trav = None \<and> avl_stack trav = []"

text \<open>Where a step leads when \<open>ps\<close> are the nodes to come.\<close>

definition goes :: "bool \<Rightarrow> 'a avl_table \<Rightarrow> (nat \<times> 'a) list \<Rightarrow> ('a option \<times> avl_traverser) option \<Rightarrow> bool" where
  "goes d T ps res \<longleftrightarrow>
     (case ps of
        [] \<Rightarrow> (\<exists>trav. res = Some (None, trav) \<and> unset trav)
      | (m, b) # ws \<Rightarrow> (\<exists>trav q. res = Some (Some b, trav) \<and> points T q trav \<and> rest d q (avl_root T) = ws))"

lemma table_height: "table_ok T \<Longrightarrow> height (avl_root T) \<le> MARPA_AVL_MAX_HEIGHT"
  by (rule height_bound) (auto simp: table_ok_def)

lemma end_runs:
  assumes T: "table_ok T" and u: "unset trav"
  shows "goes d T (walk d (avl_root T)) (t_end (\<not> d) T trav)"
proof (cases "avl_root T = NoNode")
  case True
  with u show ?thesis by (simp add: goes_def t_end_def unset_def)
next
  case False
  have "length (avl_stack trav) + height (avl_root T) \<le> Suc MARPA_AVL_MAX_HEIGHT"
    using table_height [OF T] u by (simp add: unset_def)
  from descend_runs [OF False this, of "\<not> d"] obtain q n l a b r where
    q: "descend (\<not> d) (avl_stack trav) (avl_root T) = Some (Node n l a b r, above q (avl_root T) @ avl_stack trav)"
    "subtree q (avl_root T) = Node n l a b r" "rest (\<not> d) q (avl_root T) = []" .
  have "walk d (avl_root T) = (n, a) # rest d q (avl_root T)" using walk_around [OF q(2), of d] q(3) by simp
  moreover have "points T q (trav\<lparr>avl_node := Some n, avl_stack := above q (avl_root T)\<rparr>)"
    using q(2) by (simp add: points_def)
  moreover have "t_end (\<not> d) T trav = Some (Some a, trav\<lparr>avl_node := Some n, avl_stack := above q (avl_root T)\<rparr>)"
    using q(1) u False by (simp add: t_end_def unset_def)
  ultimately show ?thesis by (auto simp: goes_def)
qed

lemma start_runs:
  assumes "table_ok T" "unset trav"
  shows "goes d T (walk d (avl_root T)) (t_step d T trav)"
proof -
  let ?trav = "if trav_generation trav = avl_generation T then trav else trav\<lparr>trav_generation := avl_generation T\<rparr>"
  have "t_step d T trav = t_end (\<not> d) T ?trav"
    using assms(2) by (auto simp: t_step_def trav_refresh_def unset_def)
  moreover have "unset ?trav" using assms(2) by (simp add: unset_def)
  ultimately show ?thesis using end_runs [OF assms(1), of ?trav] by simp
qed

text \<open>After a refresh, the stack is the one of the path.\<close>

lemma refresh_points:
  assumes T: "table_ok T" and p: "points T p trav"
  obtains trav1 where
    "(if trav_generation trav \<noteq> avl_generation T then trav_refresh T trav else Some trav) = Some trav1"
    "avl_node trav1 = avl_node trav" "avl_stack trav1 = above p (avl_root T)" "trav_generation trav1 = avl_generation T"
proof (cases "trav_generation trav = avl_generation T")
  case True
  with p show thesis by (intro that [of trav]) (simp_all add: points_def)
next
  case False
  obtain n l a b r where s: "subtree p (avl_root T) = Node n l a b r" and n: "avl_node trav = Some n"
    using p by (auto simp: points_def)
  have c: "total_compare (avl_compare T)" "ordered (avl_compare T) (items (avl_root T))" "distinct (map fst (nodes (avl_root T)))"
    using T by (simp_all add: table_ok_def)
  have "refresh_from (avl_compare T) a n [] (avl_root T) = Some (above p (avl_root T) @ [])"
    using table_height [OF T] by (intro total_compare.refresh_runs [OF c s]) simp
  with False n node_at_path [OF s c(3)] show thesis
    by (intro that [of "trav\<lparr>avl_stack := above p (avl_root T), trav_generation := avl_generation T\<rparr>"])
      (simp_all add: trav_refresh_def node_data_def)
qed

lemma t_step_goes:
  assumes T: "table_ok T" and p: "points T p trav"
  shows "goes d T (rest d p (avl_root T)) (t_step d T trav)"
proof -
  let ?t = "avl_root T"
  have dist: "distinct (map fst (nodes ?t))" using T by (simp add: table_ok_def)
  obtain n l a b r where s: "subtree p ?t = Node n l a b r" and n: "avl_node trav = Some n"
    using p by (auto simp: points_def)
  from refresh_points [OF T p] obtain trav1 where
    t1: "(if trav_generation trav \<noteq> avl_generation T then trav_refresh T trav else Some trav) = Some trav1"
    "avl_node trav1 = Some n" "avl_stack trav1 = above p ?t" "trav_generation trav1 = avl_generation T"
    using n by metis
  have at: "node_at n ?t = Node n l a b r" by (rule node_at_path [OF s dist])
  have h: "length p + height (Node n l a b r) \<le> MARPA_AVL_MAX_HEIGHT"
    using height_subtree [of p ?t] s table_height [OF T] by simp
  show ?thesis
  proof (cases "(if d then r else l) = NoNode")
    case True
    then have "rest d p ?t = beyond d p ?t" by (simp add: rest_def s)
    moreover have step: "t_step d T trav = (case climb d ?t n (above p ?t) of
        None \<Rightarrow> Some (None, trav1\<lparr>avl_node := None, avl_stack := []\<rparr>)
      | Some (y, st) \<Rightarrow> do {
          e \<leftarrow> node_data (node_at y ?t);
          Some (Some e, trav1\<lparr>avl_node := Some y, avl_stack := st\<rparr>)
        })"
      using t1 at True by (simp add: t_step_def)
    moreover have "goes d T (beyond d p ?t) (t_step d T trav)"
    proof (cases "beyond d p ?t")
      case Nil
      with climb_runs [OF dist s, of d] step show ?thesis by (simp add: goes_def unset_def)
    next
      case (Cons x ws)
      obtain m c where x: "x = (m, c)" by (cases x)
      from climb_runs [OF dist s, of d] Cons x obtain q l' b' r' where
        q: "climb d ?t n (above p ?t) = Some (m, above q ?t)" "subtree q ?t = Node m l' c b' r'" "rest d q ?t = ws"
        by auto
      have "t_step d T trav = Some (Some c, trav1\<lparr>avl_node := Some m, avl_stack := above q ?t\<rparr>)"
        using step q(1) node_at_path [OF q(2) dist] by (simp add: node_data_def)
      moreover have "points T q (trav1\<lparr>avl_node := Some m, avl_stack := above q ?t\<rparr>)" using q(2) by (simp add: points_def)
      ultimately show ?thesis using Cons x q(3) by (auto simp: goes_def)
    qed
    ultimately show ?thesis by simp
  next
    case False
    let ?c = "if d then r else l"
    have "length (n # above p ?t) + height ?c \<le> Suc MARPA_AVL_MAX_HEIGHT"
      using h length_above [of p ?t] s by (cases d) simp_all
    from descend_runs [OF False this, of "\<not> d"] obtain q m l' c b' r' where
      q: "descend (\<not> d) (n # above p ?t) ?c = Some (Node m l' c b' r', above q ?c @ n # above p ?t)"
      "subtree q ?c = Node m l' c b' r'" "rest (\<not> d) q ?c = []" .
    let ?q = "p @ d # q"
    have "length (above p ?t) < MARPA_AVL_MAX_HEIGHT" using h length_above [of p ?t] s by simp
    then have "t_step d T trav = Some (Some c, trav1\<lparr>avl_node := Some m, avl_stack := above ?q ?t\<rparr>)"
      using t1 at False q(1) s by (simp add: t_step_def push_node_def above_append)
    moreover have "points T ?q (trav1\<lparr>avl_node := Some m, avl_stack := above ?q ?t\<rparr>)"
      using q(2) s by (simp add: points_def subtree_append)
    moreover have "rest d p ?t = (m, c) # rest d ?q ?t"
      using walk_around [OF q(2), of d] q(2,3) s by (simp add: rest_def beyond_append subtree_append)
    ultimately show ?thesis by (auto simp: goes_def)
  qed
qed

section \<open>Traversals\<close>

text \<open>Some calls of \<open>marpa_avl_t_next\<close> (\<open>d = True\<close>) or \<open>marpa_avl_t_prev\<close>, and their results.\<close>

fun traversal :: "bool \<Rightarrow> nat \<Rightarrow> 'a avl_table \<Rightarrow> avl_traverser \<Rightarrow> ('a option list \<times> avl_traverser) option" where
  "traversal d 0 T trav = Some ([], trav)"
| "traversal d (Suc k) T trav = do {
     (x, trav1) \<leftarrow> (if d then marpa_avl_t_next T trav else marpa_avl_t_prev T trav);
     (xs, trav2) \<leftarrow> traversal d k T trav1;
     Some (x # xs, trav2)
   }"

lemma next_or_prev: "(if d then marpa_avl_t_next T trav else marpa_avl_t_prev T trav) = t_step d T trav"
  by (cases d) (simp_all add: marpa_avl_t_next_def marpa_avl_t_prev_def)

lemma traversal_Suc: "traversal d (Suc k) T trav = do {
     (x, trav1) \<leftarrow> t_step d T trav; (xs, trav2) \<leftarrow> traversal d k T trav1; Some (x # xs, trav2) }"
  by (simp add: next_or_prev)

lemma goes_on:
  assumes "table_ok T"
  shows "goes d T ps (t_step d T trav) \<Longrightarrow>
    \<exists>trav'. traversal d (Suc (length ps)) T trav = Some (map (Some \<circ> snd) ps @ [None], trav') \<and> unset trav'"
proof (induction ps arbitrary: trav)
  case Nil
  then show ?case by (auto simp: goes_def next_or_prev)
next
  case (Cons x ps)
  then obtain trav1 q where t1: "t_step d T trav = Some (Some (snd x), trav1)" "points T q trav1" "rest d q (avl_root T) = ps"
    by (cases x) (auto simp: goes_def)
  from t_step_goes [OF assms t1(2), of d] t1(3) have "goes d T ps (t_step d T trav1)" by simp
  from Cons.IH [OF this] obtain trav' where
    "traversal d (length (x # ps)) T trav1 = Some (map (Some \<circ> snd) ps @ [None], trav')" "unset trav'" by auto
  with t1(1) have "traversal d (Suc (length (x # ps))) T trav = Some (map (Some \<circ> snd) (x # ps) @ [None], trav')"
    by (subst traversal_Suc) (simp del: traversal.simps)
  with \<open>unset trav'\<close> show ?case by blast
qed

text \<open>C17: from the null node, the steps in one direction return the items of the table in that order,
  each once, and then \<open>NULL\<close>, which leaves the traverser at the null node again.\<close>

theorem traversal_in_order:
  assumes "table_ok T" "unset trav"
  shows "\<exists>trav'. traversal d (Suc (length (items (avl_root T)))) T trav
      = Some (map Some (if d then items (avl_root T) else rev (items (avl_root T))) @ [None], trav') \<and> unset trav'"
  using goes_on [OF assms(1) start_runs [OF assms, of d]]
  by (cases d) (simp_all only: walk_def items_def rev_map if_True if_False length_map length_rev map_map)

theorem traversal_in_order_witness:
  "\<exists>trav'. traversal False 3 demo_pairs (marpa_avl_t_init demo_pairs)
     = Some ([Some \<lparr>t_symid = 1, t_ruleid = 4\<rparr>, Some \<lparr>t_symid = 1, t_ruleid = 1\<rparr>, None], trav') \<and> unset trav'"
  using traversal_in_order [OF demo_pairs_ok, of "marpa_avl_t_init demo_pairs" False]
  by (simp add: unset_def marpa_avl_t_init_def trav_reset_def demo_pairs_def numeral_3_eq_3)

text \<open>C25: an insertion through a traverser leaves it at the item, new or found, and the next steps go on
  from there, whatever rotations the insertion made.\<close>

theorem t_insert_continues:
  assumes "table_ok T" "avl_count T + 1 < SIZE_MOD"
  shows "\<exists>a trav1 T1 us ws trav2. marpa_avl_t_insert T trav x = Some (a, trav1, T1) \<and> table_ok T1
    \<and> marpa_avl_t_cur T1 trav1 = Some a \<and> avl_compare T x a = 0 \<and> items (avl_root T1) = us @ a # ws
    \<and> traversal True (Suc (length ws)) T1 trav1 = Some (map Some ws @ [None], trav2)"
proof -
  have c: "total_compare (avl_compare T)" using assms(1) by (simp add: table_ok_def)
  from total_compare.probe_runs [OF c assms(1) refl assms(2), of x] obtain p T1 where
    P: "marpa_avl_probe T x = Some (p, T1)" "table_ok T1" "avl_compare T1 = avl_compare T" "probed T x p T1" .
  obtain n a where p: "p = (n, a)" by (cases p)
  have na: "(n, a) \<in> set (nodes (avl_root T1)) \<and> avl_compare T x a = 0"
  proof (cases "List.find (\<lambda>q. avl_compare T x (snd q) = 0) (nodes (avl_root T))")
    case None
    with P(4) p total_compare.self [OF c] show ?thesis by (simp add: probed_def)
  next
    case (Some q)
    then have "q \<in> set (nodes (avl_root T))" "avl_compare T x (snd q) = 0" by (auto simp: find_Some_iff in_set_conv_nth)
    with Some P(4) p show ?thesis by (auto simp: probed_def)
  qed
  then obtain q l b r where q: "subtree q (avl_root T1) = Node n l a b r" using path_of_node by metis
  let ?trav = "trav\<lparr>avl_node := Some n, trav_generation := int_to_size (int (avl_generation T1) - 1)\<rparr>"
  have "avl_generation T1 < SIZE_MOD" "distinct (map fst (nodes (avl_root T1)))" using P(2) by (simp_all add: table_ok_def)
  moreover have "int_to_size (int g - 1) \<noteq> g" if "g < SIZE_MOD" for g
    using that by (cases g) (simp_all add: int_to_size_def SIZE_MOD_def nat_eq_iff)
  ultimately have "points T1 q ?trav" and cur: "marpa_avl_t_cur T1 ?trav = Some a"
    using q node_at_path [OF q] by (simp_all add: points_def marpa_avl_t_cur_def node_data_def)
  from goes_on [OF P(2) t_step_goes [OF P(2) this(1), of True]] obtain trav2 where
    "traversal True (Suc (length (rest True q (avl_root T1)))) T1 ?trav
       = Some (map (Some \<circ> snd) (rest True q (avl_root T1)) @ [None], trav2)" by blast
  moreover have "items (avl_root T1) = map snd (rev (rest False q (avl_root T1))) @ a # map snd (rest True q (avl_root T1))"
    using walk_around [OF q, of True] by (simp add: walk_def items_def)
  moreover have "marpa_avl_t_insert T trav x = Some (a, ?trav, T1)" using P(1) p by (simp add: marpa_avl_t_insert_def)
  ultimately show ?thesis using P(2) cur na
    by (intro exI [of _ a] exI [of _ ?trav] exI [of _ T1] exI [of _ "map snd (rev (rest False q (avl_root T1)))"]
        exI [of _ "map snd (rest True q (avl_root T1))"] exI [of _ trav2]) (simp del: traversal.simps)
qed

theorem t_insert_continues_witness:
  "\<exists>a trav1 T1 us ws trav2. marpa_avl_t_insert demo_pairs (marpa_avl_t_init demo_pairs) \<lparr>t_symid = 1, t_ruleid = 3\<rparr>
       = Some (a, trav1, T1) \<and> table_ok T1
    \<and> marpa_avl_t_cur T1 trav1 = Some a \<and> avl_compare demo_pairs \<lparr>t_symid = 1, t_ruleid = 3\<rparr> a = 0
    \<and> items (avl_root T1) = us @ a # ws
    \<and> traversal True (Suc (length ws)) T1 trav1 = Some (map Some ws @ [None], trav2)"
  by (rule t_insert_continues [OF demo_pairs_ok]) (simp add: demo_pairs_def SIZE_MOD_def)

text \<open>A search through a traverser that is not at the null node keeps the old stack below the new
  one: in a tree of three items, after the first one, a search for the last one and a step forward,
  the traverser comes back to the root although nothing is left.\<close>

definition demo_three :: "sym_rule_pair avl_table" where
  "demo_three = \<lparr>avl_root = Node 0 (Node 1 NoNode \<lparr>t_symid = 1, t_ruleid = 1\<rparr> 0 NoNode) \<lparr>t_symid = 2, t_ruleid = 1\<rparr> 0
       (Node 2 NoNode \<lparr>t_symid = 3, t_ruleid = 1\<rparr> 0 NoNode),
     avl_compare = sym_rule_cmp, avl_obstack = 3, avl_count = 3, avl_generation = 0\<rparr>"

theorem t_find_keeps_old_stack:
  "do {
     (first, trav1) \<leftarrow> marpa_avl_t_first demo_three (marpa_avl_t_init demo_three);
     (found, trav2) \<leftarrow> marpa_avl_t_find demo_three trav1 \<lparr>t_symid = 3, t_ruleid = 1\<rparr>;
     (following, trav3) \<leftarrow> marpa_avl_t_next demo_three trav2;
     Some (map (map_option t_symid) [first, found, following])
   } = Some [Some 1, Some 3, Some 2]"
  by code_simp

end
