(* ===== verification/ProgressReport.thy ===== *)
theory ProgressReport
  imports AvlWalk MarpaCodes
begin

text \<open>
  The progress reports of libmarpa, \<open>src/libmarpa-dist/marpa.c\<close>: the Earley items of a set, and the
  items that Leo items stand for, are inserted into an AVL table of (position, rule, origin), which a
  traverser then hands out one by one.

  The recognizer is seen through the fields that these functions use. An Earley set is the list of
  its items; the chain of the Leo items of a source link is a list. A report item is its address on
  the obstack of the table together with its content, which is written once.
\<close>

record s_xrl =
  t_id :: int
  t_is_sequence :: bool

record s_ahm =
  t_xrl :: "s_xrl option"
  t_xrl_position :: int
  ahm_position :: int
  t_is_virtual_lhs :: bool

record s_lim =
  t_trailhead_ahm :: s_ahm
  t_base_origin :: int

record s_srcl =
  srcl_is_active :: bool
  t_lims :: "s_lim list"

record s_yim =
  t_is_active :: bool
  t_ahm :: s_ahm
  yim_origin :: int
  t_leo :: "s_srcl list"

datatype input_phase = R_BEFORE_INPUT | R_DURING_INPUT | R_AFTER_INPUT

type_synonym report_ptr = "nat \<times> marpa_progress_item"

record marpa_r =
  header_mismatch :: bool
  t_is_ok :: bool
  t_error :: int
  t_input_phase :: input_phase
  t_earley_sets :: "s_yim list list"
  t_current_report_item :: marpa_progress_item
  t_progress_report_traverser :: "(report_ptr avl_table \<times> avl_traverser) option"

definition progress_report_not_ready :: marpa_progress_item where
  "progress_report_not_ready = \<lparr>t_rule_id = - 2, t_position = - 2, t_origin = - 2\<rparr>"

definition report_ptr_cmp :: "report_ptr \<Rightarrow> report_ptr \<Rightarrow> int" where
  "report_ptr_cmp ap bp = report_item_cmp (snd ap) (snd bp)"

definition MARPA_ERROR :: "int \<Rightarrow> marpa_r \<Rightarrow> marpa_r" where
  "MARPA_ERROR code r = r\<lparr>t_error := code\<rparr>"

text \<open>The conversion of a \<open>size_t\<close> to \<open>int\<close>.\<close>

definition size_to_int :: "nat \<Rightarrow> int" where
  "size_to_int n = sint (word_of_nat n :: 32 word)"

section \<open>Building a report\<close>

definition progress_report_item_insert ::
  "report_ptr avl_table \<Rightarrow> s_ahm \<Rightarrow> int \<Rightarrow> report_ptr avl_table option" where
  "progress_report_item_insert report_tree report_ahm report_origin =
     (case t_xrl report_ahm of
        None \<Rightarrow> Some report_tree
      | Some source_xrl \<Rightarrow>
          if t_is_sequence source_xrl \<and> ahm_position report_ahm \<le> 0 \<and> t_is_virtual_lhs report_ahm
          then Some report_tree
          else (let new_report_item =
                  (avl_obstack report_tree,
                   \<lparr>t_rule_id = t_id source_xrl, t_position = t_xrl_position report_ahm, t_origin = report_origin\<rparr>)
                in do {
                  (found, report_tree1) \<leftarrow>
                    marpa_avl_insert (report_tree\<lparr>avl_obstack := Suc (avl_obstack report_tree)\<rparr>) new_report_item;
                  Some report_tree1
                }))"

fun report_lims :: "report_ptr avl_table \<Rightarrow> s_lim list \<Rightarrow> report_ptr avl_table option" where
  "report_lims report_tree [] = Some report_tree"
| "report_lims report_tree (leo_item # lims) = do {
     report_tree1 \<leftarrow> progress_report_item_insert report_tree (t_trailhead_ahm leo_item) (t_base_origin leo_item);
     report_lims report_tree1 lims
   }"

fun report_leo_sources :: "report_ptr avl_table \<Rightarrow> s_srcl list \<Rightarrow> report_ptr avl_table option" where
  "report_leo_sources report_tree [] = Some report_tree"
| "report_leo_sources report_tree (leo_source_link # links) =
     (if \<not> srcl_is_active leo_source_link then report_leo_sources report_tree links
      else do {
        report_tree1 \<leftarrow> report_lims report_tree (t_lims leo_source_link);
        report_leo_sources report_tree1 links
      })"

fun report_earley_items :: "report_ptr avl_table \<Rightarrow> s_yim list \<Rightarrow> report_ptr avl_table option" where
  "report_earley_items report_tree [] = Some report_tree"
| "report_earley_items report_tree (earley_item # yims) =
     (if \<not> t_is_active earley_item then report_earley_items report_tree yims
      else do {
        report_tree1 \<leftarrow> progress_report_item_insert report_tree (t_ahm earley_item) (yim_origin earley_item);
        report_tree2 \<leftarrow> report_leo_sources report_tree1 (t_leo earley_item);
        report_earley_items report_tree2 yims
      })"

section \<open>The functions of the interface\<close>

text \<open>The checks that the functions start with; \<open>None\<close> when they pass.\<close>

definition fail_if_fatal :: "marpa_r \<Rightarrow> (int \<times> marpa_r) option" where
  "fail_if_fatal r =
     (if header_mismatch r then Some (- 2, MARPA_ERROR MARPA_ERR_HEADERS_DO_NOT_MATCH r)
      else if \<not> t_is_ok r then Some (- 2, MARPA_ERROR (t_error r) r)
      else None)"

definition fail_if_not_started :: "marpa_r \<Rightarrow> (int \<times> marpa_r) option" where
  "fail_if_not_started r =
     (if t_input_phase r = R_BEFORE_INPUT then Some (- 2, MARPA_ERROR MARPA_ERR_RECCE_NOT_STARTED r) else None)"

definition destroy_report :: "marpa_r \<Rightarrow> marpa_r" where
  "destroy_report r = r\<lparr>t_current_report_item := progress_report_not_ready, t_progress_report_traverser := None\<rparr>"

definition marpa_r_progress_report_start :: "marpa_r \<Rightarrow> int \<Rightarrow> (int \<times> marpa_r) option" where
  "marpa_r_progress_report_start r set_id =
     (case fail_if_fatal r of Some failure \<Rightarrow> Some failure | None \<Rightarrow>
      case fail_if_not_started r of Some failure \<Rightarrow> Some failure | None \<Rightarrow>
      if set_id < 0 then Some (- 2, MARPA_ERROR MARPA_ERR_INVALID_LOCATION r)
      else if \<not> (0 \<le> set_id \<and> set_id < int (length (t_earley_sets r)))
      then Some (- 2, MARPA_ERROR MARPA_ERR_NO_EARLEY_SET_AT_LOCATION r)
      else do {
        report_tree \<leftarrow> report_earley_items (marpa_avl_create report_ptr_cmp) (t_earley_sets r ! nat set_id);
        Some (size_to_int (avl_count report_tree),
          (destroy_report r)\<lparr>t_progress_report_traverser := Some (report_tree, marpa_avl_t_init report_tree)\<rparr>)
      })"

definition marpa_r_progress_report_reset :: "marpa_r \<Rightarrow> int \<times> marpa_r" where
  "marpa_r_progress_report_reset r =
     (case fail_if_fatal r of Some failure \<Rightarrow> failure | None \<Rightarrow>
      case fail_if_not_started r of Some failure \<Rightarrow> failure | None \<Rightarrow>
      case t_progress_report_traverser r of
        None \<Rightarrow> (- 2, MARPA_ERROR MARPA_ERR_PROGRESS_REPORT_NOT_STARTED r)
      | Some (report_tree, traverser) \<Rightarrow>
          (1, r\<lparr>t_progress_report_traverser := Some (report_tree, marpa_avl_t_reset report_tree traverser)\<rparr>))"

definition marpa_r_progress_report_finish :: "marpa_r \<Rightarrow> int \<times> marpa_r" where
  "marpa_r_progress_report_finish r =
     (if Option.is_none (t_progress_report_traverser r) then (- 2, MARPA_ERROR MARPA_ERR_PROGRESS_REPORT_NOT_STARTED r)
      else (1, destroy_report r))"

text \<open>The result, and what is stored through the two pointers, if anything.\<close>

definition marpa_r_progress_item ::
  "marpa_r \<Rightarrow> bool \<Rightarrow> bool \<Rightarrow> (int \<times> (int \<times> int) option \<times> marpa_r) option" where
  "marpa_r_progress_item r position origin =
     (case fail_if_fatal r of Some (n, r1) \<Rightarrow> Some (n, None, r1) | None \<Rightarrow>
      case fail_if_not_started r of Some (n, r1) \<Rightarrow> Some (n, None, r1) | None \<Rightarrow>
      if \<not> position \<or> \<not> origin then Some (- 2, None, MARPA_ERROR MARPA_ERR_POINTER_ARG_NULL r)
      else
      case t_progress_report_traverser r of
        None \<Rightarrow> Some (- 2, None, MARPA_ERROR MARPA_ERR_PROGRESS_REPORT_NOT_STARTED r)
      | Some (report_tree, traverser) \<Rightarrow> do {
          (report_item, traverser1) \<leftarrow> marpa_avl_t_next report_tree traverser;
          let r1 = r\<lparr>t_progress_report_traverser := Some (report_tree, traverser1)\<rparr>;
          Some (case report_item of
                  None \<Rightarrow> (- 1, None, MARPA_ERROR MARPA_ERR_PROGRESS_REPORT_EXHAUSTED r1)
                | Some p \<Rightarrow> (t_rule_id (snd p), Some (t_position (snd p), t_origin (snd p)), r1))
        })"

end
