(* ===== verification/ReportProps.thy ===== *)
theory ReportProps
  imports ProgressReport
begin

text \<open>
  What a progress report contains: the items that the Earley set asks for, each once, in the order
  of position, rule and origin. The proof goes through the tables: each insertion adds its item to
  the content, and the traverser hands the content out in order.
\<close>

section \<open>The items asked for\<close>

definition ahm_reports :: "s_ahm \<Rightarrow> int \<Rightarrow> marpa_progress_item list" where
  "ahm_reports ahm origin =
     (case t_xrl ahm of
        None \<Rightarrow> []
      | Some xrl \<Rightarrow> if t_is_sequence xrl \<and> ahm_position ahm \<le> 0 \<and> t_is_virtual_lhs ahm then []
          else [\<lparr>t_rule_id = t_id xrl, t_position = t_xrl_position ahm, t_origin = origin\<rparr>])"

definition lim_reports :: "s_lim list \<Rightarrow> marpa_progress_item list" where
  "lim_reports lims = concat (map (\<lambda>lim. ahm_reports (t_trailhead_ahm lim) (t_base_origin lim)) lims)"

definition leo_reports :: "s_srcl list \<Rightarrow> marpa_progress_item list" where
  "leo_reports links = concat (map (lim_reports \<circ> t_lims) (filter srcl_is_active links))"

definition set_reports :: "s_yim list \<Rightarrow> marpa_progress_item list" where
  "set_reports yims = concat (map (\<lambda>yim. ahm_reports (t_ahm yim) (yim_origin yim) @ leo_reports (t_leo yim)) (filter t_is_active yims))"

section \<open>Tables of report items\<close>

interpretation report_ptr: total_compare report_ptr_cmp
  by unfold_locales (auto simp: report_ptr_cmp_def report.swap intro: report.trans)

definition content :: "report_ptr avl_table \<Rightarrow> marpa_progress_item set" where
  "content T = snd ` set (items (avl_root T))"

definition grows :: "report_ptr avl_table \<Rightarrow> marpa_progress_item list \<Rightarrow> report_ptr avl_table option \<Rightarrow> bool" where
  "grows T xs res \<longleftrightarrow> (table_ok T \<and> avl_compare T = report_ptr_cmp \<and> avl_count T + length xs < SIZE_MOD \<longrightarrow>
     (\<exists>T'. res = Some T' \<and> table_ok T' \<and> avl_compare T' = report_ptr_cmp \<and> content T' = content T \<union> set xs
        \<and> avl_count T' \<le> avl_count T + length xs))"

lemma grows_Nil [intro]: "grows T [] (Some T)"
  by (auto simp: grows_def)

lemma grows_bind:
  assumes "grows T xs m" "\<And>T1. grows T1 ys (f T1)"
  shows "grows T (xs @ ys) (Option.bind m f)"
  unfolding grows_def
proof (intro impI, elim conjE)
  assume T: "table_ok T" "avl_compare T = report_ptr_cmp" "avl_count T + length (xs @ ys) < SIZE_MOD"
  then obtain T1 where T1: "m = Some T1" "table_ok T1" "avl_compare T1 = report_ptr_cmp" "content T1 = content T \<union> set xs"
    "avl_count T1 \<le> avl_count T + length xs" using assms(1) by (auto simp: grows_def)
  moreover have "avl_count T1 + length ys < SIZE_MOD" using T(3) T1(5) by simp
  ultimately obtain T2 where "f T1 = Some T2" "table_ok T2" "avl_compare T2 = report_ptr_cmp"
    "content T2 = content T1 \<union> set ys" "avl_count T2 \<le> avl_count T1 + length ys"
    using assms(2) [of T1] by (auto simp: grows_def)
  with T1 show "\<exists>T'. Option.bind m f = Some T' \<and> table_ok T' \<and> avl_compare T' = report_ptr_cmp
    \<and> content T' = content T \<union> set (xs @ ys) \<and> avl_count T' \<le> avl_count T + length (xs @ ys)" by auto
qed

lemma insert_grows:
  assumes T: "table_ok T" "avl_compare T = report_ptr_cmp" "avl_count T + 1 < SIZE_MOD"
  obtains f T' where "marpa_avl_insert T (n, x) = Some (f, T')" "table_ok T'" "avl_compare T' = report_ptr_cmp"
    "content T' = insert x (content T)" "avl_count T' \<le> avl_count T + 1"
proof -
  from report_ptr.probe_runs [OF T, of "(n, x)"] obtain p T' where
    P: "marpa_avl_probe T (n, x) = Some (p, T')" "table_ok T'" "avl_compare T' = report_ptr_cmp" "probed T (n, x) p T'" .
  have "content T' = insert x (content T) \<and> avl_count T' \<le> avl_count T + 1"
  proof (cases "List.find (\<lambda>q. report_ptr_cmp (n, x) (snd q) = 0) (nodes (avl_root T))")
    case None
    then have "nodes (avl_root T') = insert_at report_ptr_cmp p (nodes (avl_root T))" "snd p = (n, x)"
      using P(4) T(2) by (simp_all add: probed_def)
    then show ?thesis using P(2) T(1) by (simp add: content_def items_def table_ok_def)
  next
    case (Some q)
    then have "T' = T" using P(4) T(2) by (simp add: probed_def)
    moreover have "q \<in> set (nodes (avl_root T))" "report_ptr_cmp (n, x) (snd q) = 0"
      using Some by (auto simp: find_Some_iff in_set_conv_nth)
    then have "x \<in> content T"
      by (auto simp: content_def items_def report_ptr_cmp_def report_item_cmp_0 intro!: image_eqI)
    ultimately show ?thesis by auto
  qed
  with P that show thesis by (simp add: marpa_avl_insert_def split_def)
qed

lemma item_insert_grows: "grows T (ahm_reports ahm origin) (progress_report_item_insert T ahm origin)"
proof (cases "t_xrl ahm")
  case None
  then show ?thesis by (auto simp: progress_report_item_insert_def ahm_reports_def)
next
  case (Some xrl)
  let ?x = "\<lparr>t_rule_id = t_id xrl, t_position = t_xrl_position ahm, t_origin = origin\<rparr>"
  let ?T = "T\<lparr>avl_obstack := Suc (avl_obstack T)\<rparr>"
  show ?thesis
  proof (cases "t_is_sequence xrl \<and> ahm_position ahm \<le> 0 \<and> t_is_virtual_lhs ahm")
    case True
    with Some show ?thesis by (auto simp: progress_report_item_insert_def ahm_reports_def)
  next
    case False
    then have eq: "progress_report_item_insert T ahm origin = do {
        (found, T1) \<leftarrow> marpa_avl_insert ?T (avl_obstack T, ?x); Some T1 }" "ahm_reports ahm origin = [?x]"
      using Some by (auto simp: progress_report_item_insert_def ahm_reports_def Let_def)
    show ?thesis
      unfolding grows_def eq
    proof (intro impI, elim conjE)
      assume T: "table_ok T" "avl_compare T = report_ptr_cmp" "avl_count T + length [?x] < SIZE_MOD"
      have "table_ok ?T" using T(1) by (auto simp: table_ok_def)
      from insert_grows [OF this, of "avl_obstack T" ?x] T(2,3) obtain f T' where
        "marpa_avl_insert ?T (avl_obstack T, ?x) = Some (f, T')" "table_ok T'" "avl_compare T' = report_ptr_cmp"
        "content T' = insert ?x (content ?T)" "avl_count T' \<le> avl_count ?T + 1" by auto
      then show "\<exists>T'. (do { (found, T1) \<leftarrow> marpa_avl_insert ?T (avl_obstack T, ?x); Some T1 }) = Some T' \<and> table_ok T'
        \<and> avl_compare T' = report_ptr_cmp \<and> content T' = content T \<union> set [?x] \<and> avl_count T' \<le> avl_count T + length [?x]"
        by (simp add: content_def)
    qed
  qed
qed

lemma lims_grow: "grows T (lim_reports lims) (report_lims T lims)"
proof (induction lims arbitrary: T)
  case (Cons lim lims)
  from grows_bind [OF item_insert_grows this] show ?case by (simp add: lim_reports_def)
qed (auto simp: lim_reports_def)

lemma leo_sources_grow: "grows T (leo_reports links) (report_leo_sources T links)"
proof (induction links arbitrary: T)
  case (Cons link links)
  from Cons grows_bind [OF lims_grow Cons] show ?case by (simp add: leo_reports_def)
qed (auto simp: leo_reports_def)

lemma earley_items_grow: "grows T (set_reports yims) (report_earley_items T yims)"
proof (induction yims arbitrary: T)
  case (Cons yim yims)
  from Cons grows_bind [OF item_insert_grows grows_bind [OF leo_sources_grow Cons]] show ?case by (simp add: set_reports_def)
qed (auto simp: set_reports_def)

text \<open>The items of a well-formed table are in strict order, so that none is there twice.\<close>

lemma content_in_order:
  assumes "table_ok T" "avl_compare T = report_ptr_cmp"
  shows "sorted_wrt (\<lambda>a b. report_item_cmp a b < 0) (map snd (items (avl_root T)))"
  using assms by (simp add: table_ok_def ordered_def sorted_wrt_map report_ptr_cmp_def)

section \<open>Reading a report\<close>

text \<open>Some calls of \<open>marpa_r_progress_item\<close>: what each returns, and stores through its pointers.\<close>

fun read_report :: "nat \<Rightarrow> marpa_r \<Rightarrow> ((int \<times> (int \<times> int) option) list \<times> marpa_r) option" where
  "read_report 0 r = Some ([], r)"
| "read_report (Suc k) r = do {
     (n, stored, r1) \<leftarrow> marpa_r_progress_item r True True;
     (xs, r2) \<leftarrow> read_report k r1;
     Some ((n, stored) # xs, r2)
   }"

definition as_read :: "marpa_progress_item \<Rightarrow> int \<times> (int \<times> int) option" where
  "as_read x = (t_rule_id x, Some (t_position x, t_origin x))"

definition usable :: "marpa_r \<Rightarrow> bool" where
  "usable r \<longleftrightarrow> \<not> header_mismatch r \<and> t_is_ok r \<and> t_input_phase r \<noteq> R_BEFORE_INPUT"

lemma usable_checks: "usable r \<Longrightarrow> fail_if_fatal r = None \<and> fail_if_not_started r = None"
  by (simp add: usable_def fail_if_fatal_def fail_if_not_started_def)

lemma item_steps:
  assumes "usable r" "t_progress_report_traverser r = Some (T, trav)" "marpa_avl_t_next T trav = Some (x, trav1)"
  shows "marpa_r_progress_item r True True = Some (case x of
      None \<Rightarrow> (- 1, None, r\<lparr>t_progress_report_traverser := Some (T, trav1), t_error := MARPA_ERR_PROGRESS_REPORT_EXHAUSTED\<rparr>)
    | Some p \<Rightarrow> (t_rule_id (snd p), Some (t_position (snd p), t_origin (snd p)), r\<lparr>t_progress_report_traverser := Some (T, trav1)\<rparr>))"
  using assms usable_checks [OF assms(1)]
  by (simp add: marpa_r_progress_item_def MARPA_ERROR_def split: option.split)

lemma report_read:
  assumes T: "table_ok T"
  shows "usable r \<Longrightarrow> t_progress_report_traverser r = Some (T, trav) \<Longrightarrow> goes True T ps (t_step True T trav) \<Longrightarrow>
    \<exists>r'. read_report (Suc (length ps)) r = Some (map (as_read \<circ> snd \<circ> snd) ps @ [(- 1, None)], r')
      \<and> t_error r' = MARPA_ERR_PROGRESS_REPORT_EXHAUSTED"
proof (induction ps arbitrary: r trav)
  case Nil
  then obtain trav1 where "marpa_avl_t_next T trav = Some (None, trav1)" by (auto simp: goes_def marpa_avl_t_next_def)
  from item_steps [OF Nil(1,2) this] show ?case by simp
next
  case (Cons x ps)
  obtain m b where x: "x = (m, b)" by (cases x)
  with Cons.prems(3) obtain trav1 q where t1: "marpa_avl_t_next T trav = Some (Some b, trav1)" "points T q trav1"
    "rest True q (avl_root T) = ps" by (auto simp: goes_def marpa_avl_t_next_def)
  let ?r = "r\<lparr>t_progress_report_traverser := Some (T, trav1)\<rparr>"
  have "\<exists>r'. read_report (Suc (length ps)) ?r = Some (map (as_read \<circ> snd \<circ> snd) ps @ [(- 1, None)], r')
      \<and> t_error r' = MARPA_ERR_PROGRESS_REPORT_EXHAUSTED"
  proof (rule Cons.IH)
    show "usable ?r" using Cons.prems(1) by (simp add: usable_def)
    show "goes True T ps (t_step True T trav1)" using t_step_goes [OF T t1(2), of True] t1(3) by simp
  qed simp
  moreover have "read_report (Suc (length (x # ps))) r = do {
      (xs, r2) \<leftarrow> read_report (Suc (length ps)) ?r; Some (as_read (snd b) # xs, r2) }"
    using item_steps [OF Cons.prems(1,2) t1(1)] by (simp add: as_read_def)
  ultimately show ?case using x by (auto simp del: read_report.simps)
qed

lemma size_to_int_small: "n < 2 ^ 31 \<Longrightarrow> size_to_int n = int n"
  by (simp add: size_to_int_def signed_take_bit_int_eq_self_iff signed_of_nat)

text \<open>C10: a progress report starts with the number of its items, and gives the items that the Earley
  set asks for in the order of position, rule and origin, each once, and then \<open>-1\<close>.\<close>

theorem report_lists_set:
  assumes r: "usable r" "0 \<le> i" "i < int (length (t_earley_sets r))"
    and n: "length (set_reports (t_earley_sets r ! nat i)) < 2 ^ 31"
  shows "\<exists>xs r1 r2. marpa_r_progress_report_start r i = Some (int (length xs), r1)
    \<and> set xs = set (set_reports (t_earley_sets r ! nat i)) \<and> sorted_wrt (\<lambda>a b. report_item_cmp a b < 0) xs
    \<and> read_report (Suc (length xs)) r1 = Some (map as_read xs @ [(- 1, None)], r2)"
proof -
  let ?ys = "t_earley_sets r ! nat i"
  let ?T0 = "marpa_avl_create report_ptr_cmp"
  have "table_ok ?T0" by (rule create_ok) (rule report_ptr.total_compare_axioms)
  then obtain T where T: "report_earley_items ?T0 ?ys = Some T" "table_ok T" "avl_compare T = report_ptr_cmp"
    "content T = content ?T0 \<union> set (set_reports ?ys)" "avl_count T \<le> avl_count ?T0 + length (set_reports ?ys)"
    using earley_items_grow [of ?T0 ?ys] n by (auto simp: grows_def marpa_avl_create_def SIZE_MOD_def)
  let ?xs = "map snd (items (avl_root T))"
  let ?r1 = "(destroy_report r)\<lparr>t_progress_report_traverser := Some (T, marpa_avl_t_init T)\<rparr>"
  have len: "avl_count T = length ?xs" using T(2) by (simp add: table_ok_def items_def)
  moreover have "avl_count T < 2 ^ 31" using T(5) n by (simp add: marpa_avl_create_def)
  ultimately have "marpa_r_progress_report_start r i = Some (int (length ?xs), ?r1)"
    using r T(1) usable_checks [OF r(1)] by (simp add: marpa_r_progress_report_start_def size_to_int_small)
  moreover have "set ?xs = set (set_reports ?ys)"
    using T(4) by (simp add: content_def marpa_avl_create_def)
  moreover have "sorted_wrt (\<lambda>a b. report_item_cmp a b < 0) ?xs" by (rule content_in_order [OF T(2,3)])
  moreover have "usable ?r1" using r(1) by (simp add: usable_def destroy_report_def)
  have "unset (marpa_avl_t_init T)" by (simp add: unset_def marpa_avl_t_init_def trav_reset_def)
  from report_read [OF T(2) \<open>usable ?r1\<close> _ start_runs [OF T(2) this]]
  obtain r2 where "read_report (Suc (length (nodes (avl_root T)))) ?r1
     = Some (map (as_read \<circ> snd \<circ> snd) (nodes (avl_root T)) @ [(- 1, None)], r2)"
    by (auto simp: walk_def simp del: read_report.simps)
  then have "read_report (Suc (length ?xs)) ?r1 = Some (map as_read ?xs @ [(- 1, None)], r2)"
    by (simp add: items_def comp_assoc del: read_report.simps)
  ultimately show ?thesis by blast
qed

definition demo_r :: marpa_r where
  "demo_r = (let xrl = \<lambda>i. Some \<lparr>t_id = i, t_is_sequence = False\<rparr>;
                 ahm = \<lambda>i p. \<lparr>t_xrl = xrl i, t_xrl_position = p, ahm_position = p, t_is_virtual_lhs = False\<rparr>;
                 yim = \<lambda>i p s leo. \<lparr>t_is_active = True, t_ahm = ahm i p, yim_origin = s, t_leo = leo\<rparr> in
     \<lparr>header_mismatch = False, t_is_ok = True, t_error = 0, t_input_phase = R_DURING_INPUT,
      t_earley_sets = [[yim 1 (- 1) 0 [\<lparr>srcl_is_active = True, t_lims = [\<lparr>t_trailhead_ahm = ahm 0 1, t_base_origin = 0\<rparr>]\<rparr>],
         yim 0 0 0 [], yim 1 (- 1) 0 []]],
      t_current_report_item = progress_report_not_ready, t_progress_report_traverser = None\<rparr>)"

theorem report_lists_set_witness:
  "\<exists>xs r1 r2. marpa_r_progress_report_start demo_r 0 = Some (int (length xs), r1)
    \<and> set xs = set (set_reports (t_earley_sets demo_r ! nat 0)) \<and> sorted_wrt (\<lambda>a b. report_item_cmp a b < 0) xs
    \<and> read_report (Suc (length xs)) r1 = Some (map as_read xs @ [(- 1, None)], r2)"
proof (rule report_lists_set)
  show "usable demo_r" "0 < int (length (t_earley_sets demo_r))" by (simp_all add: usable_def demo_r_def Let_def)
  have "length (set_reports (t_earley_sets demo_r ! nat 0)) = 4" by code_simp
  then show "length (set_reports (t_earley_sets demo_r ! nat 0)) < 2 ^ 31" by simp
qed simp

text \<open>Without a report, fresh or finished, the other calls fail and change the error code only.\<close>

lemma report_not_started:
  assumes "usable r" "t_progress_report_traverser r = None"
  shows "marpa_r_progress_item r True True = Some (- 2, None, MARPA_ERROR MARPA_ERR_PROGRESS_REPORT_NOT_STARTED r)"
    "marpa_r_progress_report_reset r = (- 2, MARPA_ERROR MARPA_ERR_PROGRESS_REPORT_NOT_STARTED r)"
    "marpa_r_progress_report_finish r = (- 2, MARPA_ERROR MARPA_ERR_PROGRESS_REPORT_NOT_STARTED r)"
  using assms usable_checks [OF assms(1)]
  by (simp_all add: marpa_r_progress_item_def marpa_r_progress_report_reset_def marpa_r_progress_report_finish_def)

lemma finished: "t_progress_report_traverser (snd (marpa_r_progress_report_finish r)) = None"
  by (auto simp: marpa_r_progress_report_finish_def destroy_report_def MARPA_ERROR_def Option.is_none_def)

text \<open>A reset starts the same report again.\<close>

lemma report_again:
  assumes "usable r" "t_progress_report_traverser r = Some (T, trav)" "table_ok T"
  shows "\<exists>r1 r2. marpa_r_progress_report_reset r = (1, r1)
    \<and> read_report (Suc (length (items (avl_root T)))) r1 = Some (map (as_read \<circ> snd) (items (avl_root T)) @ [(- 1, None)], r2)"
proof -
  let ?r1 = "r\<lparr>t_progress_report_traverser := Some (T, marpa_avl_t_reset T trav)\<rparr>"
  have "unset (marpa_avl_t_reset T trav)" by (simp add: unset_def marpa_avl_t_reset_def trav_reset_def)
  moreover have "usable ?r1" using assms(1) by (simp add: usable_def)
  ultimately obtain r2 where "read_report (Suc (length (nodes (avl_root T)))) ?r1
     = Some (map (as_read \<circ> snd \<circ> snd) (nodes (avl_root T)) @ [(- 1, None)], r2)"
    using report_read [OF assms(3) _ _ start_runs [OF assms(3)], of ?r1 "marpa_avl_t_reset T trav"]
    by (auto simp: walk_def simp del: read_report.simps)
  then show ?thesis
    using assms(2) usable_checks [OF assms(1)]
    by (simp add: marpa_r_progress_report_reset_def items_def comp_assoc del: read_report.simps)
qed

end
