(* ===== verification/BitVector.thy ===== *)
theory BitVector
  imports Prelude
begin

text \<open>
  The bit vectors and bit matrices of libmarpa, \<open>src/libmarpa-dist/marpa.c\<close>. A \<open>Bit_Vector\<close> points to its
  first data word; the three words before it hold the number of bits, the number of data words and
  the mask of the bits that the last data word uses.

  The words are those of one memory, a list, in which a pointer is an index and new vectors are
  appended: both allocators, the heap and the obstack, end the program when they run out of memory,
  so that an allocation succeeds. A freed vector leaves its words unused. Bit numbers are \<open>int\<close> values
  that are not negative. \<open>None\<close> is an access outside the memory, or a loop that does not end.
\<close>

type_synonym words = "32 word list"

definition bv_wordbits :: nat where
  "bv_wordbits = 32"

definition bv_hiddenwords :: nat where
  "bv_hiddenwords = 3"

definition peek :: "words \<Rightarrow> nat \<Rightarrow> 32 word option" where
  "peek m i = (if i < length m then Some (m ! i) else None)"

definition poke :: "words \<Rightarrow> nat \<Rightarrow> 32 word \<Rightarrow> words option" where
  "poke m i w = (if i < length m then Some (m[i := w]) else None)"

text \<open>The word before a pointer.\<close>

definition peek_before :: "words \<Rightarrow> nat \<Rightarrow> nat \<Rightarrow> 32 word option" where
  "peek_before m v k = (if k \<le> v then peek m (v - k) else None)"

definition BV_BITS :: "words \<Rightarrow> nat \<Rightarrow> nat option" where
  "BV_BITS m v = map_option unat (peek_before m v 3)"

definition BV_SIZE :: "words \<Rightarrow> nat \<Rightarrow> nat option" where
  "BV_SIZE m v = map_option unat (peek_before m v 2)"

definition BV_MASK :: "words \<Rightarrow> nat \<Rightarrow> 32 word option" where
  "BV_MASK m v = peek_before m v 1"

section \<open>Creation\<close>

definition bv_bits_to_size :: "nat \<Rightarrow> nat" where
  "bv_bits_to_size bits = to_uint (bits + (bv_wordbits - 1)) div bv_wordbits"

definition bv_bits_to_unused_mask :: "nat \<Rightarrow> 32 word" where
  "bv_bits_to_unused_mask bits =
     (let msk = bits mod bv_wordbits in
      if msk \<noteq> 0 then NOT (push_bit msk (NOT 0)) else NOT 0)"

text \<open>The result is the new vector and the memory; \<open>bv_create\<close> and \<open>bv_obs_create\<close> do the same.\<close>

definition bv_create :: "words \<Rightarrow> nat \<Rightarrow> nat \<times> words" where
  "bv_create m bits =
     (let sz = bv_bits_to_size bits in
      (length m + bv_hiddenwords,
       m @ [word_of_nat bits, word_of_nat sz, bv_bits_to_unused_mask bits] @ replicate sz 0))"

definition bv_shadow :: "words \<Rightarrow> nat \<Rightarrow> (nat \<times> words) option" where
  "bv_shadow m bv = do { bits \<leftarrow> BV_BITS m bv; Some (bv_create m bits) }"

text \<open>\<open>n\<close> words from \<open>y\<close> and \<open>z\<close>, combined and stored from \<open>x\<close> on, one after the other.\<close>

fun each_word ::
  "(32 word \<Rightarrow> 32 word \<Rightarrow> 32 word) \<Rightarrow> nat \<Rightarrow> nat \<Rightarrow> nat \<Rightarrow> nat \<Rightarrow> words \<Rightarrow> words option" where
  "each_word f x y z 0 m = Some m"
| "each_word f x y z (Suc n) m = do {
     a \<leftarrow> peek m y;
     b \<leftarrow> peek m z;
     m1 \<leftarrow> poke m x (f a b);
     each_word f (Suc x) (Suc y) (Suc z) n m1
   }"

definition bv_copy :: "words \<Rightarrow> nat \<Rightarrow> nat \<Rightarrow> words option" where
  "bv_copy m bv_to bv_from = do {
     bits \<leftarrow> BV_BITS m bv_to;
     if 0 < bits
     then do { count \<leftarrow> BV_SIZE m bv_to; each_word (\<lambda>a b. a) bv_to bv_from bv_from count m }
     else Some m
   }"

definition bv_clone :: "words \<Rightarrow> nat \<Rightarrow> (nat \<times> words) option" where
  "bv_clone m bv = do {
     (v, m1) \<leftarrow> bv_shadow m bv;
     m2 \<leftarrow> bv_copy m1 v bv;
     Some (v, m2)
   }"

section \<open>Whole vectors\<close>

text \<open>The last word of the loop, which \<open>--X\<close> points to, with the mask.\<close>

definition mask_last :: "words \<Rightarrow> nat \<Rightarrow> nat \<Rightarrow> 32 word \<Rightarrow> words option" where
  "mask_last m v sz msk =
     (if v + sz = 0 then None
      else do { w \<leftarrow> peek m (v + sz - 1); poke m (v + sz - 1) (w AND msk) })"

definition bv_fill :: "words \<Rightarrow> nat \<Rightarrow> words option" where
  "bv_fill m bv = do {
     sz \<leftarrow> BV_SIZE m bv;
     if sz = 0 then Some m
     else do {
       m1 \<leftarrow> each_word (\<lambda>a b. NOT 0) bv bv bv sz m;
       msk \<leftarrow> BV_MASK m1 bv;
       mask_last m1 bv sz msk
     }
   }"

definition bv_clear :: "words \<Rightarrow> nat \<Rightarrow> words option" where
  "bv_clear m bv = do { sz \<leftarrow> BV_SIZE m bv; each_word (\<lambda>a b. 0) bv bv bv sz m }"

definition bv_over_clear :: "words \<Rightarrow> nat \<Rightarrow> nat \<Rightarrow> words option" where
  "bv_over_clear m bv raw_bit = each_word (\<lambda>a b. 0) bv bv bv (raw_bit div bv_wordbits + 1) m"

text \<open>The operations word by word, with the mask of \<open>X\<close> on the last word.\<close>

definition bv_combine ::
  "(32 word \<Rightarrow> 32 word \<Rightarrow> 32 word) \<Rightarrow> words \<Rightarrow> nat \<Rightarrow> nat \<Rightarrow> nat \<Rightarrow> words option" where
  "bv_combine f m x y z = do {
     sz \<leftarrow> BV_SIZE m x;
     msk \<leftarrow> BV_MASK m x;
     m1 \<leftarrow> each_word f x y z sz m;
     mask_last m1 x sz msk
   }"

definition bv_not :: "words \<Rightarrow> nat \<Rightarrow> nat \<Rightarrow> words option" where
  "bv_not m x y = bv_combine (\<lambda>a b. NOT a) m x y y"

definition bv_and :: "words \<Rightarrow> nat \<Rightarrow> nat \<Rightarrow> nat \<Rightarrow> words option" where
  "bv_and m x y z = bv_combine (\<lambda>a b. a AND b) m x y z"

definition bv_or :: "words \<Rightarrow> nat \<Rightarrow> nat \<Rightarrow> nat \<Rightarrow> words option" where
  "bv_or m x y z = bv_combine (\<lambda>a b. a OR b) m x y z"

definition bv_or_assign :: "words \<Rightarrow> nat \<Rightarrow> nat \<Rightarrow> words option" where
  "bv_or_assign m x y = bv_combine (\<lambda>a b. a OR b) m x x y"

section \<open>Single bits\<close>

definition bv_bit_set :: "words \<Rightarrow> nat \<Rightarrow> nat \<Rightarrow> words option" where
  "bv_bit_set m vector raw_bit = do {
     w \<leftarrow> peek m (vector + raw_bit div bv_wordbits);
     poke m (vector + raw_bit div bv_wordbits) (w OR push_bit (raw_bit mod bv_wordbits) 1)
   }"

definition bv_bit_clear :: "words \<Rightarrow> nat \<Rightarrow> nat \<Rightarrow> words option" where
  "bv_bit_clear m vector raw_bit = do {
     w \<leftarrow> peek m (vector + raw_bit div bv_wordbits);
     poke m (vector + raw_bit div bv_wordbits) (w AND NOT (push_bit (raw_bit mod bv_wordbits) 1))
   }"

definition bv_bit_test :: "words \<Rightarrow> nat \<Rightarrow> nat \<Rightarrow> bool option" where
  "bv_bit_test m vector raw_bit = do {
     w \<leftarrow> peek m (vector + raw_bit div bv_wordbits);
     Some (w AND push_bit (raw_bit mod bv_wordbits) 1 \<noteq> 0)
   }"

definition bv_bit_test_then_set :: "words \<Rightarrow> nat \<Rightarrow> nat \<Rightarrow> (bool \<times> words) option" where
  "bv_bit_test_then_set m vector raw_bit = do {
     let addr = vector + raw_bit div bv_wordbits;
     let msk = push_bit (raw_bit mod bv_wordbits) 1;
     w \<leftarrow> peek m addr;
     if w AND msk \<noteq> 0 then Some (True, m)
     else do { m1 \<leftarrow> poke m addr (w OR msk); Some (False, m1) }
   }"

fun all_zero :: "words \<Rightarrow> nat \<Rightarrow> nat \<Rightarrow> bool option" where
  "all_zero m p 0 = Some True"
| "all_zero m p (Suc n) = do { w \<leftarrow> peek m p; if w = 0 then all_zero m (Suc p) n else Some False }"

definition bv_is_empty :: "words \<Rightarrow> nat \<Rightarrow> (bool \<times> words) option" where
  "bv_is_empty m addr = do {
     sz \<leftarrow> BV_SIZE m addr;
     if 0 < sz
     then do {
       msk \<leftarrow> BV_MASK m addr;
       m1 \<leftarrow> mask_last m addr sz msk;
       r \<leftarrow> all_zero m1 addr sz;
       Some (r, m1)
     }
     else Some (True, m)
   }"

section \<open>Runs of bits\<close>

text \<open>
  The search for the next word that is not 0 after \<open>g\<close>: the words left, the offset of the word, and
  the word unless the search came to the end. One word is read in each turn.
\<close>

fun next_word :: "(32 word \<Rightarrow> 32 word) \<Rightarrow> words \<Rightarrow> nat \<Rightarrow> nat \<Rightarrow> nat \<Rightarrow> (nat \<times> nat \<times> 32 word option) option" where
  "next_word g m p offset 0 = Some (0, offset, None)"
| "next_word g m p offset (Suc n) = do {
     w \<leftarrow> peek m p;
     if g w \<noteq> 0 then Some (n, offset, Some (g w)) else next_word g m (Suc p) (Suc offset) n
   }"

text \<open>The loops that shift a word until its lowest bit is set, which count up \<open>start\<close> and shift \<open>bitmask\<close>.\<close>

function low_bit :: "32 word \<Rightarrow> 32 word \<Rightarrow> nat \<Rightarrow> (32 word \<times> 32 word \<times> nat) option" where
  "low_bit value bitmask start =
     (if value = 0 then None
      else if value AND 1 \<noteq> 0 then Some (value, bitmask, start)
      else low_bit (drop_bit 1 value) (push_bit 1 bitmask) (Suc start))"
  by pat_completeness auto

lemma drop_bit_less: "(w :: 32 word) \<noteq> 0 \<Longrightarrow> unat (drop_bit 1 w) < unat w"
  by (simp add: drop_bit_eq_div unat_div unat_gt_0)

termination low_bit
  by (relation "measure (\<lambda>(w, b, s). unat w)") (simp_all add: drop_bit_less [simplified])

declare low_bit.simps [simp del]

text \<open>
  \<open>bv_scan\<close> from the word at \<open>offset\<close> on: the first set bit at or after \<open>start\<close>, then the end of its run.
  \<open>size\<close> counts the words from \<open>offset\<close> on. The result of the first part is \<open>min\<close>, the word with the
  bits up to there cleared in \<open>mask\<close>, its offset and the number of words after it.
\<close>

definition scan_min ::
  "words \<Rightarrow> nat \<Rightarrow> nat \<Rightarrow> nat \<Rightarrow> nat \<Rightarrow> ((nat \<times> 32 word \<times> 32 word \<times> nat \<times> nat) option) option" where
  "scan_min m bv start offset sz = do {
     let bitmask = push_bit (start mod bv_wordbits) 1;
     let msk = NOT (bitmask OR (bitmask - 1));
     v \<leftarrow> peek m (bv + offset);
     if v AND bitmask \<noteq> 0 then Some (Some (start, v, msk, offset, sz - 1))
     else do {
       (n, offset1, found) \<leftarrow> (if v AND msk \<noteq> 0 then Some (sz - 1, offset, Some (v AND msk))
                              else next_word id m (bv + offset + 1) (Suc offset) (sz - 1));
       case found of
         None \<Rightarrow> Some None
       | Some v1 \<Rightarrow> do {
           (rest, bitmask1, start1) \<leftarrow> low_bit v1 1 (offset1 * bv_wordbits);
           Some (Some (start1, v1, NOT (bitmask1 OR (bitmask1 - 1)), offset1, n))
         }
     }
   }"

definition scan_max :: "words \<Rightarrow> nat \<Rightarrow> 32 word \<Rightarrow> 32 word \<Rightarrow> nat \<Rightarrow> nat \<Rightarrow> nat option" where
  "scan_max m bv v msk offset sz = do {
     (n, offset1, found) \<leftarrow> (if NOT v AND msk \<noteq> 0 then Some (sz, offset, Some (NOT v AND msk))
                            else next_word (\<lambda>w. NOT w) m (bv + offset + 1) (Suc offset) sz);
     (rest, bitmask, start) \<leftarrow> low_bit (case found of None \<Rightarrow> 1 | Some w \<Rightarrow> w) 1 (offset1 * bv_wordbits);
     Some (start - 1)
   }"

text \<open>The result is the run found, if any, and the memory, of which the last word may be masked.\<close>

definition bv_scan :: "words \<Rightarrow> nat \<Rightarrow> nat \<Rightarrow> ((nat \<times> nat) option \<times> words) option" where
  "bv_scan m bv start = do {
     sz \<leftarrow> BV_SIZE m bv;
     msk \<leftarrow> BV_MASK m bv;
     if sz = 0 then Some (None, m)
     else do {
       bits \<leftarrow> BV_BITS m bv;
       if bits \<le> start then Some (None, m)
       else do {
         m1 \<leftarrow> mask_last m bv sz msk;
         let offset = start div bv_wordbits;
         x \<leftarrow> scan_min m1 bv start offset (sz - offset);
         (case x of
            None \<Rightarrow> Some (None, m1)
          | Some (lo, v, msk, offset1, n) \<Rightarrow> do {
              hi \<leftarrow> scan_max m1 bv v msk offset1 n;
              Some (Some (lo, hi), m1)
            })
       }
     }
   }"

partial_function (option) bv_count_from :: "words \<Rightarrow> nat \<Rightarrow> nat \<Rightarrow> nat \<Rightarrow> (nat \<times> words) option" where
  "bv_count_from m v start count = do {
     (x, m1) \<leftarrow> bv_scan m v start;
     (case x of
        None \<Rightarrow> Some (count, m1)
      | Some (lo, hi) \<Rightarrow> bv_count_from m1 v (hi + 2) (count + (hi - lo + 1)))
   }"

declare bv_count_from.simps [code]

definition bv_count :: "words \<Rightarrow> nat \<Rightarrow> (nat \<times> words) option" where
  "bv_count m v = bv_count_from m v 0 0"

text \<open>
  The loops over the set bits of a vector: \<open>bv_scan\<close> from run to run, and a body for each bit of a
  run, which does not touch the vector.
\<close>

fun each :: "(nat \<Rightarrow> 's \<Rightarrow> 's option) \<Rightarrow> nat list \<Rightarrow> 's \<Rightarrow> 's option" where
  "each body [] s = Some s"
| "each body (i # is) s = do { s1 \<leftarrow> body i s; each body is s1 }"

partial_function (option) scan_loop ::
  "(nat \<Rightarrow> 's \<Rightarrow> 's option) \<Rightarrow> words \<Rightarrow> nat \<Rightarrow> nat \<Rightarrow> 's \<Rightarrow> ('s \<times> words) option" where
  "scan_loop body m v start s = do {
     (x, m1) \<leftarrow> bv_scan m v start;
     (case x of
        None \<Rightarrow> Some (s, m1)
      | Some (lo, hi) \<Rightarrow> do { s1 \<leftarrow> each body [lo..<Suc hi] s; scan_loop body m1 v (hi + 2) s1 })
   }"

declare scan_loop.simps [code]

text \<open>
  The bit matrices of \<open>src/libmarpa-dist/marpa.c\<close>, whose rows are bit vectors one after the other, and
  the transitive closure of a square one.
\<close>

record Bit_Matrix =
  t_row_count :: nat
  t_row_data :: nat

section \<open>Creation and rows\<close>

definition matrix_new_row :: "nat \<Rightarrow> words" where
  "matrix_new_row columns =
     [word_of_nat columns, word_of_nat (bv_bits_to_size columns), bv_bits_to_unused_mask columns]
       @ replicate (bv_bits_to_size columns) 0"

text \<open>
  The offset of a row is an \<open>unsigned int\<close>. The rows of a matrix of more words would be laid over each
  other: its creation counts as undefined.
\<close>

definition matrix_obs_create :: "words \<Rightarrow> nat \<Rightarrow> nat \<Rightarrow> (Bit_Matrix \<times> words) option" where
  "matrix_obs_create m rows columns = do {
     require (rows * (bv_bits_to_size columns + bv_hiddenwords) < UINT_MOD);
     Some (\<lparr>t_row_count = rows, t_row_data = length m\<rparr>, m @ concat (replicate rows (matrix_new_row columns)))
   }"

definition row0 :: "Bit_Matrix \<Rightarrow> nat" where
  "row0 matrix = t_row_data matrix + bv_hiddenwords"

definition matrix_columns :: "words \<Rightarrow> Bit_Matrix \<Rightarrow> nat option" where
  "matrix_columns m matrix = BV_BITS m (row0 matrix)"

definition matrix_row :: "words \<Rightarrow> Bit_Matrix \<Rightarrow> nat \<Rightarrow> nat option" where
  "matrix_row m matrix row = do {
     sz \<leftarrow> BV_SIZE m (row0 matrix);
     Some (row0 matrix + to_uint (row * (sz + bv_hiddenwords)))
   }"

fun clear_rows :: "words \<Rightarrow> nat \<Rightarrow> nat \<Rightarrow> nat \<Rightarrow> words option" where
  "clear_rows m row words_per_row 0 = Some m"
| "clear_rows m row words_per_row (Suc n) = do {
     m1 \<leftarrow> bv_clear m row;
     clear_rows m1 (row + words_per_row) words_per_row n
   }"

definition matrix_clear :: "words \<Rightarrow> Bit_Matrix \<Rightarrow> words option" where
  "matrix_clear m matrix = do {
     sz \<leftarrow> BV_SIZE m (row0 matrix);
     clear_rows m (row0 matrix) (sz + bv_hiddenwords) (t_row_count matrix)
   }"

definition matrix_bit_set :: "words \<Rightarrow> Bit_Matrix \<Rightarrow> nat \<Rightarrow> nat \<Rightarrow> words option" where
  "matrix_bit_set m matrix row column = do { vector \<leftarrow> matrix_row m matrix row; bv_bit_set m vector column }"

definition matrix_bit_clear :: "words \<Rightarrow> Bit_Matrix \<Rightarrow> nat \<Rightarrow> nat \<Rightarrow> words option" where
  "matrix_bit_clear m matrix row column = do { vector \<leftarrow> matrix_row m matrix row; bv_bit_clear m vector column }"

definition matrix_bit_test :: "words \<Rightarrow> Bit_Matrix \<Rightarrow> nat \<Rightarrow> nat \<Rightarrow> bool option" where
  "matrix_bit_test m matrix row column = do { vector \<leftarrow> matrix_row m matrix row; bv_bit_test m vector column }"

section \<open>Transitive closure\<close>

text \<open>The columns still to do for one outer row, and the outer rows still to do.\<close>

fun closure_columns :: "Bit_Matrix \<Rightarrow> nat \<Rightarrow> nat \<Rightarrow> nat list \<Rightarrow> words \<Rightarrow> words option" where
  "closure_columns matrix outer_row outer_row_v [] m = Some m"
| "closure_columns matrix outer_row outer_row_v (column # columns) m = do {
     inner_row_v \<leftarrow> matrix_row m matrix column;
     t \<leftarrow> bv_bit_test m inner_row_v outer_row;
     m1 \<leftarrow> (if t then bv_or_assign m inner_row_v outer_row_v else Some m);
     closure_columns matrix outer_row outer_row_v columns m1
   }"

fun closure_rows :: "Bit_Matrix \<Rightarrow> nat \<Rightarrow> nat list \<Rightarrow> words \<Rightarrow> words option" where
  "closure_rows matrix sz [] m = Some m"
| "closure_rows matrix sz (outer_row # rows) m = do {
     outer_row_v \<leftarrow> matrix_row m matrix outer_row;
     m1 \<leftarrow> closure_columns matrix outer_row outer_row_v [0..<sz] m;
     closure_rows matrix sz rows m1
   }"

definition transitive_closure :: "words \<Rightarrow> Bit_Matrix \<Rightarrow> words option" where
  "transitive_closure m matrix = do {
     sz \<leftarrow> matrix_columns m matrix;
     closure_rows matrix sz [0..<sz] m
   }"

end
