(* ===== verification/BitProps.thy ===== *)
theory BitProps
  imports BitVector
begin

text \<open>
  What the bit vectors represent: a set of numbers below the number of bits. Each operation is the set
  operation of its name, leaves every word outside its vector alone, and keeps the unused bits of the
  last word at 0.
\<close>

definition data_words :: "nat \<Rightarrow> nat" where
  "data_words n = (n + 31) div 32"

lemma small_word:
  assumes "unat (w :: 32 word) < 2 ^ k" "k \<le> j"
  shows "\<not> bit w j"
proof -
  have "(2 :: nat) ^ k \<le> 2 ^ j" using assms(2) by (rule power_increasing) simp
  with assms(1) have "unat w < 2 ^ j" by linarith
  then have "unat w div 2 ^ j = 0" by (rule div_less)
  then have "\<not> bit (unat w) j" by (simp add: bit_iff_odd)
  then show ?thesis by (simp add: bit_unsigned_iff)
qed

text \<open>A vector of \<open>n\<close> bits at \<open>v\<close>: its hidden words, its place, and its unused bits.\<close>

definition bv_ok :: "words \<Rightarrow> nat \<Rightarrow> nat \<Rightarrow> bool" where
  "bv_ok m v n \<longleftrightarrow> 3 \<le> v \<and> n < 2 ^ 31 \<and> v + data_words n \<le> length m
     \<and> m ! (v - 3) = word_of_nat n \<and> m ! (v - 2) = word_of_nat (data_words n) \<and> m ! (v - 1) = bv_bits_to_unused_mask n
     \<and> (n mod 32 \<noteq> 0 \<longrightarrow> (\<forall>j. n mod 32 \<le> j \<longrightarrow> \<not> bit (m ! (v + data_words n - 1)) j))"

definition bits_at :: "words \<Rightarrow> nat \<Rightarrow> nat \<Rightarrow> nat set" where
  "bits_at m v n = {i. i < n \<and> bit (m ! (v + i div 32)) (i mod 32)}"

text \<open>The memory is the same outside the data words of a vector.\<close>

definition only_data :: "nat \<Rightarrow> nat \<Rightarrow> words \<Rightarrow> words \<Rightarrow> bool" where
  "only_data v n m m' \<longleftrightarrow> length m' = length m \<and> (\<forall>i. i < v \<or> v + data_words n \<le> i \<longrightarrow> m' ! i = m ! i)"

lemma bits_at_finite [simp]: "finite (bits_at m v n)"
  by (rule finite_subset [of _ "{..<n}"]) (auto simp: bits_at_def)

lemma data_words_index: "i < n \<Longrightarrow> i div 32 < data_words n"
  by (simp add: data_words_def)

lemma div_up: "r < 32 \<Longrightarrow> r \<noteq> 0 \<Longrightarrow> (32 * q + r + 31) div 32 = q + (1 :: nat)"
  by (rule div_nat_eqI) simp_all

lemma data_words_eq: "data_words n = (if n mod 32 = 0 then n div 32 else n div 32 + 1)"
proof (cases "n mod 32 = 0")
  case True
  then have "n = 32 * (n div 32)" using mult_div_mod_eq [of 32 n] by simp
  moreover have "(32 * q + 31) div 32 = q" for q :: nat by simp
  ultimately show ?thesis using True unfolding data_words_def by metis
next
  case False
  with div_up [of "n mod 32" "n div 32"] show ?thesis unfolding data_words_def mult_div_mod_eq by simp
qed

lemma last_word:
  assumes "i < n" "i div 32 = data_words n - 1"
  shows "n mod 32 = 0 \<or> i mod 32 < n mod 32"
proof (rule disjCI)
  assume "\<not> i mod 32 < n mod 32"
  moreover have "n = 32 * (n div 32) + n mod 32" "i = 32 * (i div 32) + i mod 32" by simp_all
  ultimately have "i div 32 < n div 32" using assms(1) by linarith
  moreover have "data_words n = n div 32 + 1" if "n mod 32 \<noteq> 0" using that by (simp add: data_words_eq)
  ultimately show "n mod 32 = 0" using assms(2) by linarith
qed

lemma bits_to_size: "n < 2 ^ 31 \<Longrightarrow> bv_bits_to_size n = data_words n"
  by (simp add: bv_bits_to_size_def bv_wordbits_def data_words_def UINT_MOD_def)

lemma data_words_small: "n < 2 ^ 31 \<Longrightarrow> data_words n < 2 ^ 27"
  by (simp add: data_words_def)

lemma bv_reads:
  assumes "bv_ok m v n"
  shows "BV_BITS m v = Some n" "BV_SIZE m v = Some (data_words n)" "BV_MASK m v = Some (bv_bits_to_unused_mask n)"
proof -
  have v: "3 \<le> v" "v - 3 < length m" "v - 2 < length m" "v - 1 < length m" "n < 2 ^ 31"
    and w: "m ! (v - 3) = word_of_nat n" "m ! (v - 2) = word_of_nat (data_words n)" "m ! (v - 1) = bv_bits_to_unused_mask n"
    using assms unfolding bv_ok_def by linarith+
  show "BV_BITS m v = Some n" "BV_SIZE m v = Some (data_words n)" "BV_MASK m v = Some (bv_bits_to_unused_mask n)"
    using v w data_words_small [OF v(5)]
    by (simp_all add: BV_BITS_def BV_SIZE_def BV_MASK_def peek_before_def peek_def unat_of_nat)
qed

lemma unused_mask_bit:
  "j < 32 \<Longrightarrow> bit (bv_bits_to_unused_mask n) j \<longleftrightarrow> n mod 32 = 0 \<or> j < n mod 32"
  by (auto simp: bv_bits_to_unused_mask_def bv_wordbits_def Let_def bit_simps)

section \<open>Loops over words\<close>

lemma each_word_runs:
  assumes "x + k \<le> length m" "y + k \<le> length m" "z + k \<le> length m" "x \<le> y \<or> y + k \<le> x" "x \<le> z \<or> z + k \<le> x"
  obtains m' where "each_word f x y z k m = Some m'" "length m' = length m"
    "\<And>i. m' ! i = (if x \<le> i \<and> i < x + k then f (m ! (y + (i - x))) (m ! (z + (i - x))) else m ! i)"
proof -
  have "\<exists>m'. each_word f x y z k m = Some m' \<and> length m' = length m
    \<and> (\<forall>i. m' ! i = (if x \<le> i \<and> i < x + k then f (m ! (y + (i - x))) (m ! (z + (i - x))) else m ! i))"
    using assms
  proof (induction k arbitrary: x y z m)
    case (Suc k)
    let ?m = "m[x := f (m ! y) (m ! z)]"
    have "\<exists>m'. each_word f (Suc x) (Suc y) (Suc z) k ?m = Some m' \<and> length m' = length ?m
      \<and> (\<forall>i. m' ! i = (if Suc x \<le> i \<and> i < Suc x + k
                        then f (?m ! (Suc y + (i - Suc x))) (?m ! (Suc z + (i - Suc x))) else ?m ! i))"
      using Suc.prems by (intro Suc.IH) auto
    then obtain m' where m': "each_word f (Suc x) (Suc y) (Suc z) k ?m = Some m'" "length m' = length ?m"
      "\<And>i. m' ! i = (if Suc x \<le> i \<and> i < Suc x + k
                        then f (?m ! (Suc y + (i - Suc x))) (?m ! (Suc z + (i - Suc x))) else ?m ! i)" by blast
    have "m' ! i = (if x \<le> i \<and> i < x + Suc k then f (m ! (y + (i - x))) (m ! (z + (i - x))) else m ! i)" for i
    proof (cases "Suc x \<le> i \<and> i < Suc x + k")
      case True
      then have "Suc y + (i - Suc x) = y + (i - x)" "Suc z + (i - Suc x) = z + (i - x)" "y + (i - x) \<noteq> x" "z + (i - x) \<noteq> x"
        using Suc.prems(4,5) by auto
      with True m'(3) [of i] show ?thesis by simp
    next
      case False
      then consider "i = x" | "i < x" | "x + Suc k \<le> i" by linarith
      then show ?thesis using m'(3) [of i] Suc.prems(1) by cases auto
    qed
    moreover have "each_word f x y z (Suc k) m = Some m'"
      using m'(1) Suc.prems by (simp add: peek_def poke_def)
    ultimately show ?case using m'(2) by (intro exI [of _ m']) simp
  qed auto
  then show thesis using that by blast
qed

text \<open>The operations that combine words and mask the last one.\<close>

lemma combine_runs:
  assumes x: "bv_ok m x n" and y: "y + data_words n \<le> length m" "x \<le> y \<or> y + data_words n \<le> x"
    and z: "z + data_words n \<le> length m" "x \<le> z \<or> z + data_words n \<le> x"
  obtains m' where "bv_combine f m x y z = Some m'" "only_data x n m m'" "bv_ok m' x n"
    "\<And>i. i < n \<Longrightarrow> bit (m' ! (x + i div 32)) (i mod 32) = bit (f (m ! (y + i div 32)) (m ! (z + i div 32))) (i mod 32)"
proof -
  let ?k = "data_words n" and ?mask = "bv_bits_to_unused_mask n"
  have x': "3 \<le> x" "x + ?k \<le> length m" "m ! (x - 1) = ?mask" using x by (simp_all add: bv_ok_def)
  from each_word_runs [OF x'(2) y(1) z(1) y(2) z(2), of f] obtain m1 where
    m1: "each_word f x y z ?k m = Some m1" "length m1 = length m"
      "\<And>i. m1 ! i = (if x \<le> i \<and> i < x + ?k then f (m ! (y + (i - x))) (m ! (z + (i - x))) else m ! i)" by blast
  let ?l = "x + ?k - 1"
  let ?m = "m1[?l := m1 ! ?l AND ?mask]"
  have l: "?l < length m" using x' by simp
  have run: "bv_combine f m x y z = Some ?m"
    using bv_reads [OF x] m1(1,2) x' l by (simp add: bv_combine_def mask_last_def peek_def poke_def)
  have out: "?m ! i = m ! i" if "i < x \<or> x + ?k \<le> i" for i
  proof (cases "i = ?l")
    case True
    with that x'(1) have "?k = 0" "i = x - 1" by auto
    with m1(3) [of "x - 1"] x'(1,3) have "m1 ! ?l = ?mask" "m ! i = ?mask" by auto
    with True m1(2) l show ?thesis by (simp add: nth_list_update)
  next
    case False
    with that m1(3) show ?thesis by auto
  qed
  have fill: "bit (?m ! (x + i div 32)) (i mod 32) = bit (f (m ! (y + i div 32)) (m ! (z + i div 32))) (i mod 32)" if "i < n" for i
  proof -
    have i: "i div 32 < ?k" using that by (rule data_words_index)
    then have w: "m1 ! (x + i div 32) = f (m ! (y + i div 32)) (m ! (z + i div 32))" using m1(3) by simp
    show ?thesis
    proof (cases "i div 32 = ?k - 1")
      case True
      then have "n mod 32 = 0 \<or> i mod 32 < n mod 32"
        using that by (intro last_word)
      then have "bit ?mask (i mod 32)" by (simp add: unused_mask_bit)
      moreover have "x + i div 32 = ?l" using True i by simp
      ultimately show ?thesis using w l m1(2) by (simp add: bit_and_iff nth_list_update)
    next
      case False
      with i w show ?thesis by simp
    qed
  qed
  have "bv_ok ?m x n"
    unfolding bv_ok_def
  proof (intro conjI impI allI)
    fix j assume "n mod 32 \<noteq> 0" "n mod 32 \<le> j"
    then have "\<not> bit ?mask j" using unused_mask_bit [of j n] by (cases "j < 32") (auto dest: bit_imp_le_length)
    then show "\<not> bit (?m ! ?l) j" using l m1(2) by (simp add: bit_and_iff)
  qed (use x out m1(2) in \<open>auto simp: bv_ok_def\<close>)
  moreover have "only_data x n m ?m" using out m1(2) by (simp add: only_data_def)
  ultimately show thesis using run fill that by blast
qed

section \<open>Sets of bits\<close>

text \<open>Two places of \<open>n\<close> bits that are the same or do not overlap, and a vector that a write misses.\<close>

definition apart_or_same :: "nat \<Rightarrow> nat \<Rightarrow> nat \<Rightarrow> bool" where
  "apart_or_same n x y \<longleftrightarrow> x = y \<or> x + data_words n \<le> y \<or> y + data_words n \<le> x"

definition misses :: "nat \<Rightarrow> nat \<Rightarrow> nat \<Rightarrow> nat \<Rightarrow> bool" where
  "misses x n w k \<longleftrightarrow> w + data_words k \<le> x \<or> x + data_words n + 3 \<le> w"

lemma bits_at_less: "i \<in> bits_at m v n \<Longrightarrow> i < n"
  by (simp add: bits_at_def)

lemma bv_ok_place: "bv_ok m v n \<Longrightarrow> v + data_words n \<le> length m"
  by (simp add: bv_ok_def)

lemma missed:
  assumes "only_data x n m m'" "misses x n w k" "bv_ok m w k"
  shows "bv_ok m' w k \<and> bits_at m' w k = bits_at m w k"
proof -
  have w: "3 \<le> w" using assms(3) by (simp add: bv_ok_def)
  have same: "m' ! i = m ! i" if "w - 3 \<le> i" "i < w + data_words k" for i
    using assms(1,2) that by (auto simp: only_data_def misses_def)
  have hidden: "m' ! (w - 3) = m ! (w - 3)" "m' ! (w - 2) = m ! (w - 2)" "m' ! (w - 1) = m ! (w - 1)"
    using w by (auto intro!: same)
  have "m' ! (w + data_words k - 1) = m ! (w + data_words k - 1)" using w by (intro same) auto
  with hidden assms(1,3) have "bv_ok m' w k" by (simp add: bv_ok_def only_data_def)
  moreover have "bits_at m' w k = bits_at m w k"
    unfolding bits_at_def using same [of "w + i div 32" for i] data_words_index
    by (intro Collect_cong) auto
  ultimately show ?thesis by simp
qed

lemma combine_sets:
  assumes x: "bv_ok m x n" and y: "bv_ok m y n" "apart_or_same n x y" and z: "bv_ok m z n" "apart_or_same n x z"
    and F: "\<And>a b k. k < 32 \<Longrightarrow> bit (f a b) k \<longleftrightarrow> F (bit a k) (bit b k)"
  obtains m' where "bv_combine f m x y z = Some m'" "only_data x n m m'" "bv_ok m' x n"
    "bits_at m' x n = {i. i < n \<and> F (i \<in> bits_at m y n) (i \<in> bits_at m z n)}"
proof -
  have "x \<le> y \<or> y + data_words n \<le> x" "x \<le> z \<or> z + data_words n \<le> x"
    using y(2) z(2) by (auto simp: apart_or_same_def)
  from combine_runs [OF x bv_ok_place [OF y(1)] this(1) bv_ok_place [OF z(1)] this(2), of f] obtain m' where
    m': "bv_combine f m x y z = Some m'" "only_data x n m m'" "bv_ok m' x n"
    "\<And>i. i < n \<Longrightarrow> bit (m' ! (x + i div 32)) (i mod 32) = bit (f (m ! (y + i div 32)) (m ! (z + i div 32))) (i mod 32)" by blast
  from m'(4) F have "bits_at m' x n = {i. i < n \<and> F (i \<in> bits_at m y n) (i \<in> bits_at m z n)}"
    by (auto simp: bits_at_def)
  with m' that show thesis by blast
qed

lemma or_assign_runs:
  assumes "bv_ok m x n" "bv_ok m y n" "apart_or_same n x y"
  obtains m' where "bv_or_assign m x y = Some m'" "only_data x n m m'" "bv_ok m' x n"
    "bits_at m' x n = bits_at m x n \<union> bits_at m y n"
proof -
  have "apart_or_same n x x" by (simp add: apart_or_same_def)
  from combine_sets [OF assms(1,1) this assms(2,3), of "\<lambda>a b. a OR b" "(\<or>)"] obtain m' where
    "bv_or_assign m x y = Some m'" "only_data x n m m'" "bv_ok m' x n"
    "bits_at m' x n = {i. i < n \<and> (i \<in> bits_at m x n \<or> i \<in> bits_at m y n)}"
    by (auto simp: bv_or_assign_def bit_or_iff)
  with that show thesis by (auto dest: bits_at_less)
qed

lemma and_single_bit: "k < 32 \<Longrightarrow> (w :: 32 word) AND push_bit k 1 \<noteq> 0 \<longleftrightarrow> bit w k"
  by (auto simp: bit_eq_iff [where 'a = "32 word"] bit_simps)

lemma bit_test_runs: "bv_ok m v n \<Longrightarrow> i < n \<Longrightarrow> bv_bit_test m v i = Some (i \<in> bits_at m v n)"
  using data_words_index [of i n] bv_ok_place [of m v n]
  by (simp add: bv_bit_test_def peek_def bv_wordbits_def bits_at_def and_single_bit [simplified])

lemma change_bit:
  assumes v: "bv_ok m v n" and i: "i < n"
    and g: "\<And>j. j < 32 \<Longrightarrow> bit (g (m ! (v + i div 32))) j \<longleftrightarrow> (if j = i mod 32 then b else bit (m ! (v + i div 32)) j)"
  shows "only_data v n m (m[v + i div 32 := g (m ! (v + i div 32))])"
    "bv_ok (m[v + i div 32 := g (m ! (v + i div 32))]) v n"
    "bits_at (m[v + i div 32 := g (m ! (v + i div 32))]) v n = (if b then insert i (bits_at m v n) else bits_at m v n - {i})"
proof -
  let ?m = "m[v + i div 32 := g (m ! (v + i div 32))]"
  have p: "v + i div 32 < length m" "i div 32 < data_words n" using data_words_index [OF i] bv_ok_place [OF v] by simp_all
  show only: "only_data v n m ?m" using p by (auto simp: only_data_def)
  show "bv_ok ?m v n"
    unfolding bv_ok_def
  proof (intro conjI impI allI)
    fix j assume j: "n mod 32 \<noteq> 0" "n mod 32 \<le> j"
    show "\<not> bit (?m ! (v + data_words n - 1)) j"
    proof (cases "i div 32 = data_words n - 1")
      case True
      from last_word [OF i True] j have "j \<noteq> i mod 32" by simp
      moreover have "\<not> bit (m ! (v + i div 32)) j"
        using v j True p by (simp add: bv_ok_def)
      ultimately show ?thesis using g [of j] True p by (cases "j < 32") (auto dest: bit_imp_le_length)
    next
      case False
      with v j p show ?thesis by (simp add: bv_ok_def)
    qed
  qed (use v in \<open>auto simp: bv_ok_def\<close>)
  have at: "bit (?m ! (v + k div 32)) (k mod 32) \<longleftrightarrow> (if k = i then b else bit (m ! (v + k div 32)) (k mod 32))" for k
  proof (cases "k div 32 = i div 32")
    case True
    moreover have "k = i \<longleftrightarrow> k div 32 = i div 32 \<and> k mod 32 = i mod 32" by (metis div_mult_mod_eq)
    ultimately show ?thesis using g [of "k mod 32"] p by simp
  next
    case False
    then show ?thesis by auto
  qed
  show "bits_at ?m v n = (if b then insert i (bits_at m v n) else bits_at m v n - {i})"
    using i unfolding bits_at_def at by auto
qed

lemma bit_set_runs:
  assumes "bv_ok m v n" "i < n"
  obtains m' where "bv_bit_set m v i = Some m'" "only_data v n m m'" "bv_ok m' v n" "bits_at m' v n = insert i (bits_at m v n)"
proof -
  have "v + i div 32 < length m" using data_words_index [OF assms(2)] bv_ok_place [OF assms(1)] by simp
  then have "bv_bit_set m v i = Some (m[v + i div 32 := m ! (v + i div 32) OR push_bit (i mod 32) 1])"
    by (simp add: bv_bit_set_def peek_def poke_def bv_wordbits_def)
  with change_bit [OF assms, of "\<lambda>w. w OR push_bit (i mod 32) 1" True] that show thesis
    by (auto simp: bit_simps)
qed

lemma bit_clear_runs:
  assumes "bv_ok m v n" "i < n"
  obtains m' where "bv_bit_clear m v i = Some m'" "only_data v n m m'" "bv_ok m' v n" "bits_at m' v n = bits_at m v n - {i}"
proof -
  have "v + i div 32 < length m" using data_words_index [OF assms(2)] bv_ok_place [OF assms(1)] by simp
  then have "bv_bit_clear m v i = Some (m[v + i div 32 := m ! (v + i div 32) AND NOT (push_bit (i mod 32) 1)])"
    by (simp add: bv_bit_clear_def peek_def poke_def bv_wordbits_def)
  with change_bit [OF assms, of "\<lambda>w. w AND NOT (push_bit (i mod 32) 1)" False] that show thesis
    by (auto simp: bit_simps)
qed

end
