(* ===== verification/ClosureProps.thy ===== *)
theory ClosureProps
  imports BitProps
begin

text \<open>
  A bit matrix as a relation between row and column numbers, and what the transitive closure makes of
  it. After the outer rows below \<open>k\<close>, the relation is closed under the paths whose inner points are
  below \<open>k\<close> (\<open>closed_below\<close>).
\<close>

section \<open>Relations\<close>

definition closed_below :: "nat \<Rightarrow> (nat \<times> nat) set \<Rightarrow> bool" where
  "closed_below k R \<longleftrightarrow> (\<forall>i j. \<forall>l < k. (i, l) \<in> R \<longrightarrow> (l, j) \<in> R \<longrightarrow> (i, j) \<in> R)"

definition through :: "nat \<Rightarrow> nat set \<Rightarrow> (nat \<times> nat) set \<Rightarrow> (nat \<times> nat) set" where
  "through k A R = R \<union> {(i, j). i \<in> A \<and> (i, k) \<in> R \<and> (k, j) \<in> R}"

lemma through_twice: "through k B (through k A R) = through k (A \<union> B) R"
  by (auto simp: through_def)

lemma through_closed:
  assumes "closed_below k R" "R \<subseteq> {..<n} \<times> UNIV"
  shows "closed_below (Suc k) (through k {..<n} R)"
proof -
  have all: "through k {..<n} R = R \<union> {(i, j). (i, k) \<in> R \<and> (k, j) \<in> R}"
    using assms(2) by (auto simp: through_def)
  show ?thesis
    unfolding closed_below_def all
  proof (intro allI impI)
    fix i j l
    assume l: "l < Suc k" and a: "(i, l) \<in> R \<union> {(i, j). (i, k) \<in> R \<and> (k, j) \<in> R}"
      and b: "(l, j) \<in> R \<union> {(i, j). (i, k) \<in> R \<and> (k, j) \<in> R}"
    show "(i, j) \<in> R \<union> {(i, j). (i, k) \<in> R \<and> (k, j) \<in> R}"
    proof (cases "l = k")
      case True
      with a b show ?thesis by auto
    next
      case False
      then have "l < k" using l by simp
      then have "(x, l) \<in> R \<Longrightarrow> (l, y) \<in> R \<Longrightarrow> (x, y) \<in> R" for x y using assms(1) by (simp add: closed_below_def)
      with a b show ?thesis by auto
    qed
  qed
qed

lemma through_trancl: "(through k A R)\<^sup>+ = R\<^sup>+"
proof
  have "(x, y) \<in> (through k A R)\<^sup>+ \<Longrightarrow> (x, y) \<in> R\<^sup>+" for x y
    by (induction rule: trancl_induct) (auto simp: through_def intro: trancl_trans)
  then show "(through k A R)\<^sup>+ \<subseteq> R\<^sup>+" by auto
  show "R\<^sup>+ \<subseteq> (through k A R)\<^sup>+" by (auto simp: through_def intro: trancl_mono)
qed

lemma closed_trancl:
  assumes "closed_below n R" "R \<subseteq> UNIV \<times> {..<n}"
  shows "R\<^sup>+ = R"
proof (rule trancl_id, rule transI)
  fix i l j assume "(i, l) \<in> R" "(l, j) \<in> R"
  with assms show "(i, j) \<in> R" unfolding closed_below_def by blast
qed

section \<open>Matrices\<close>

definition row_at :: "Bit_Matrix \<Rightarrow> nat \<Rightarrow> nat \<Rightarrow> nat" where
  "row_at M n i = row0 M + i * (data_words n + 3)"

definition matrix_ok :: "words \<Rightarrow> Bit_Matrix \<Rightarrow> nat \<Rightarrow> bool" where
  "matrix_ok m M n \<longleftrightarrow> 0 < t_row_count M \<and> t_row_count M * (data_words n + 3) < UINT_MOD
     \<and> (\<forall>i < t_row_count M. bv_ok m (row_at M n i) n)"

definition relation_of :: "words \<Rightarrow> Bit_Matrix \<Rightarrow> nat \<Rightarrow> (nat \<times> nat) set" where
  "relation_of m M n = {(i, j). i < t_row_count M \<and> j \<in> bits_at m (row_at M n i) n}"

lemma rows_apart: "i \<noteq> k \<Longrightarrow> misses (row_at M n i) n (row_at M n k) n"
proof -
  assume "i \<noteq> k"
  then consider "Suc i \<le> k" | "Suc k \<le> i" by linarith
  then show ?thesis
  proof cases
    case 1
    then have "Suc i * (data_words n + 3) \<le> k * (data_words n + 3)" by (rule mult_le_mono1)
    then show ?thesis by (simp add: misses_def row_at_def)
  next
    case 2
    then have "Suc k * (data_words n + 3) \<le> i * (data_words n + 3)" by (rule mult_le_mono1)
    then show ?thesis by (simp add: misses_def row_at_def)
  qed
qed

lemma rows_apart_or_same: "apart_or_same n (row_at M n i) (row_at M n k)"
  using rows_apart [of i k M n] by (cases "i = k") (auto simp: apart_or_same_def misses_def)

lemma matrix_reads:
  assumes "matrix_ok m M n"
  shows "matrix_columns m M = Some n" "i < t_row_count M \<Longrightarrow> matrix_row m M i = Some (row_at M n i)"
proof -
  have small: "i * (data_words n + 3) < UINT_MOD" if "i < t_row_count M"
  proof -
    have "i * (data_words n + 3) \<le> t_row_count M * (data_words n + 3)" using that by (intro mult_le_mono1) simp
    moreover have "t_row_count M * (data_words n + 3) < UINT_MOD" using assms by (simp add: matrix_ok_def)
    ultimately show ?thesis by (rule le_less_trans)
  qed
  have "bv_ok m (row0 M) n" using assms by (auto simp: matrix_ok_def row_at_def)
  from bv_reads [OF this] show "matrix_columns m M = Some n" "i < t_row_count M \<Longrightarrow> matrix_row m M i = Some (row_at M n i)"
    using small by (simp_all add: matrix_columns_def matrix_row_def row_at_def bv_hiddenwords_def)
qed

lemma row_changed:
  assumes M: "matrix_ok m M n" and i: "i < t_row_count M"
    and m': "only_data (row_at M n i) n m m'" "bv_ok m' (row_at M n i) n"
  shows "matrix_ok m' M n"
    "relation_of m' M n = {(k, j) \<in> relation_of m M n. k \<noteq> i} \<union> {i} \<times> bits_at m' (row_at M n i) n"
proof -
  have other: "bv_ok m' (row_at M n k) n \<and> bits_at m' (row_at M n k) n = bits_at m (row_at M n k) n"
    if "k < t_row_count M" "k \<noteq> i" for k
    using M that by (intro missed [OF m'(1) rows_apart]) (auto simp: matrix_ok_def)
  show "matrix_ok m' M n"
    unfolding matrix_ok_def
  proof (intro conjI allI impI)
    show "0 < t_row_count M" "t_row_count M * (data_words n + 3) < UINT_MOD" using M by (simp_all add: matrix_ok_def)
    show "bv_ok m' (row_at M n k) n" if "k < t_row_count M" for k
      using other [OF that] m'(2) by (cases "k = i") auto
  qed
  show "relation_of m' M n = {(k, j) \<in> relation_of m M n. k \<noteq> i} \<union> {i} \<times> bits_at m' (row_at M n i) n"
    using i other by (fastforce simp: relation_of_def)
qed

lemma relation_row: "i < t_row_count M \<Longrightarrow> j \<in> bits_at m (row_at M n i) n \<longleftrightarrow> (i, j) \<in> relation_of m M n"
  by (simp add: relation_of_def)

text \<open>A vector apart from all rows, and memories that differ in the rows only.\<close>

definition outside :: "Bit_Matrix \<Rightarrow> nat \<Rightarrow> nat \<Rightarrow> nat \<Rightarrow> bool" where
  "outside M n v k \<longleftrightarrow> (\<forall>i < t_row_count M. misses (row_at M n i) n v k)"

definition only_rows :: "Bit_Matrix \<Rightarrow> nat \<Rightarrow> words \<Rightarrow> words \<Rightarrow> bool" where
  "only_rows M n m m' \<longleftrightarrow> length m' = length m
     \<and> (\<forall>v k. outside M n v k \<longrightarrow> bv_ok m v k \<longrightarrow> bv_ok m' v k \<and> bits_at m' v k = bits_at m v k)"

lemma only_rows_refl: "only_rows M n m m"
  by (simp add: only_rows_def)

lemma only_rows_trans: "only_rows M n m m1 \<Longrightarrow> only_rows M n m1 m2 \<Longrightarrow> only_rows M n m m2"
  by (simp add: only_rows_def)

lemma row_only_rows: "i < t_row_count M \<Longrightarrow> only_data (row_at M n i) n m m' \<Longrightarrow> only_rows M n m m'"
  using missed [of "row_at M n i" n m m'] by (auto simp: only_rows_def outside_def only_data_def)

section \<open>The closure\<close>

lemma columns_run:
  assumes "matrix_ok m M n" "t_row_count M = n" "k < n" "set cs \<subseteq> {..<n}"
  obtains m' where "closure_columns M k (row_at M n k) cs m = Some m'" "matrix_ok m' M n" "only_rows M n m m'"
    "relation_of m' M n = through k (set cs) (relation_of m M n)"
proof -
  have "\<exists>m'. closure_columns M k (row_at M n k) cs m = Some m' \<and> matrix_ok m' M n \<and> only_rows M n m m'
    \<and> relation_of m' M n = through k (set cs) (relation_of m M n)"
    using assms
  proof (induction cs arbitrary: m)
    case Nil
    then show ?case by (simp add: through_def only_rows_refl)
  next
    case (Cons c cs)
    let ?R = "relation_of m M n"
    have c: "c < t_row_count M" "k < t_row_count M" using Cons.prems by auto
    have ok: "bv_ok m (row_at M n c) n" "bv_ok m (row_at M n k) n" using Cons.prems(1) c by (simp_all add: matrix_ok_def)
    have test: "bv_bit_test m (row_at M n c) k = Some ((c, k) \<in> ?R)"
      using bit_test_runs [OF ok(1) Cons.prems(3)] c by (simp add: relation_row)
    obtain m1 where m1: "(if (c, k) \<in> ?R then bv_or_assign m (row_at M n c) (row_at M n k) else Some m) = Some m1"
      "matrix_ok m1 M n" "only_rows M n m m1" "relation_of m1 M n = through k {c} ?R"
    proof (cases "(c, k) \<in> ?R")
      case True
      from or_assign_runs [OF ok rows_apart_or_same] obtain m1 where
        m1: "bv_or_assign m (row_at M n c) (row_at M n k) = Some m1" "only_data (row_at M n c) n m m1"
        "bv_ok m1 (row_at M n c) n"
        "bits_at m1 (row_at M n c) n = bits_at m (row_at M n c) n \<union> bits_at m (row_at M n k) n" .
      have "relation_of m1 M n = through k {c} ?R"
        unfolding row_changed(2) [OF Cons.prems(1) c(1) m1(2,3)] m1(4)
        using True c by (auto simp: through_def relation_row)
      with True m1(1) row_changed(1) [OF Cons.prems(1) c(1) m1(2,3)] row_only_rows [OF c(1) m1(2)] that show thesis by simp
    next
      case False
      then have "?R = through k {c} ?R" by (auto simp: through_def)
      with False Cons.prems(1) that show thesis by (simp add: only_rows_refl)
    qed
    from Cons.IH [OF m1(2)] Cons.prems obtain m' where "closure_columns M k (row_at M n k) cs m1 = Some m'"
      "matrix_ok m' M n" "only_rows M n m1 m'" "relation_of m' M n = through k (set cs) (relation_of m1 M n)" by auto
    with m1 test only_rows_trans [of M n m m1 m'] show ?case
      by (intro exI [of _ m']) (simp add: matrix_reads(2) [OF Cons.prems(1) c(1)] through_twice)
  qed
  with that show thesis by blast
qed

lemma rows_run:
  assumes "matrix_ok m M n" "t_row_count M = n" "k + l = n" "closed_below k (relation_of m M n)"
  obtains m' where "closure_rows M n [k..<n] m = Some m'" "matrix_ok m' M n" "only_rows M n m m'"
    "closed_below n (relation_of m' M n)" "(relation_of m' M n)\<^sup>+ = (relation_of m M n)\<^sup>+"
proof -
  have "\<exists>m'. closure_rows M n [k..<n] m = Some m' \<and> matrix_ok m' M n \<and> only_rows M n m m'
    \<and> closed_below n (relation_of m' M n) \<and> (relation_of m' M n)\<^sup>+ = (relation_of m M n)\<^sup>+"
    using assms
  proof (induction l arbitrary: k m)
    case (Suc l)
    have k: "k < n" using Suc.prems(3) by simp
    from columns_run [OF Suc.prems(1,2) k, of "[0..<n]"] obtain m1 where
      m1: "closure_columns M k (row_at M n k) [0..<n] m = Some m1" "matrix_ok m1 M n" "only_rows M n m m1"
      "relation_of m1 M n = through k {..<n} (relation_of m M n)" by (auto simp: atLeast0LessThan)
    have "relation_of m M n \<subseteq> {..<n} \<times> UNIV" using Suc.prems(2) by (auto simp: relation_of_def)
    with Suc.prems(4) m1(4) have "closed_below (Suc k) (relation_of m1 M n)" by (simp add: through_closed)
    with Suc.IH [OF m1(2) Suc.prems(2)] Suc.prems(3) obtain m' where
      "closure_rows M n [Suc k..<n] m1 = Some m'" "matrix_ok m' M n" "only_rows M n m1 m'"
      "closed_below n (relation_of m' M n)" "(relation_of m' M n)\<^sup>+ = (relation_of m1 M n)\<^sup>+" by force
    moreover have "[k..<n] = k # [Suc k..<n]" using k by (rule upt_conv_Cons)
    ultimately show ?case
      using m1 only_rows_trans [of M n m m1 m']
      using k Suc.prems(2) by (intro exI [of _ m']) (simp add: matrix_reads(2) [OF Suc.prems(1)] through_trancl)
  qed (simp add: only_rows_refl)
  with that show thesis by blast
qed

lemma closure_runs:
  assumes "matrix_ok m M n" "t_row_count M = n"
  obtains m' where "transitive_closure m M = Some m'" "matrix_ok m' M n" "relation_of m' M n = (relation_of m M n)\<^sup>+" "only_rows M n m m'"
proof -
  have "closed_below 0 (relation_of m M n)" by (simp add: closed_below_def)
  from rows_run [OF assms _ this, of n] obtain m' where
    m': "closure_rows M n [0..<n] m = Some m'" "matrix_ok m' M n" "only_rows M n m m'" "closed_below n (relation_of m' M n)"
    "(relation_of m' M n)\<^sup>+ = (relation_of m M n)\<^sup>+" by auto
  have "(relation_of m' M n)\<^sup>+ = relation_of m' M n"
    using m'(4) by (rule closed_trancl) (auto simp: relation_of_def dest: bits_at_less)
  with m' show thesis by (intro that [of m']) (simp_all add: transitive_closure_def matrix_reads [OF assms(1)])
qed

text \<open>C36: the transitive closure of a square bit matrix always returns and is that of its relation; nothing
  outside the rows changes.\<close>

theorem closure_is_transitive_closure:
  assumes "matrix_ok m M n" "t_row_count M = n"
  shows "\<exists>m'. transitive_closure m M = Some m' \<and> matrix_ok m' M n \<and> relation_of m' M n = (relation_of m M n)\<^sup>+
    \<and> only_rows M n m m'"
  using closure_runs [OF assms] by metis

text \<open>Three rows of three bits.\<close>

definition demo_words :: words where
  "demo_words = [3, 1, 7, 2, 3, 1, 7, 4, 3, 1, 7, 0]"

definition demo_matrix :: Bit_Matrix where
  "demo_matrix = \<lparr>t_row_count = 3, t_row_data = 0\<rparr>"

lemma demo_matrix_ok: "matrix_ok demo_words demo_matrix 3"
proof -
  have "bv_ok demo_words (row_at demo_matrix 3 i) 3" if "i < 3" for i
  proof -
    from that consider "i = 0" | "i = 1" | "i = 2" by linarith
    then show ?thesis
      using small_word [of 2 3] small_word [of 4 3] small_word [of 0 3]
      by cases (simp_all add: bv_ok_def demo_words_def row_at_def row0_def demo_matrix_def bv_hiddenwords_def data_words_def
          bv_bits_to_unused_mask_def bv_wordbits_def mask_eq_exp_minus_1)
  qed
  then show ?thesis by (simp add: matrix_ok_def demo_matrix_def data_words_def UINT_MOD_def)
qed

theorem closure_is_transitive_closure_witness:
  "\<exists>m'. transitive_closure demo_words demo_matrix = Some m' \<and> matrix_ok m' demo_matrix 3
    \<and> relation_of m' demo_matrix 3 = (relation_of demo_words demo_matrix 3)\<^sup>+ \<and> only_rows demo_matrix 3 demo_words m'"
  by (rule closure_is_transitive_closure [OF demo_matrix_ok]) (simp add: demo_matrix_def)

end
