(* ===== verification/Cil.thy ===== *)
theory Cil
  imports AvlProps BitVector
begin

text \<open>
  The lists of sorted integers of libmarpa (\<open>src/libmarpa-dist/marpa.c\<close>), which are kept once: a list
  is built in the buffer of the arena, looked up in its AVL table, and copied to the obstack when it is new.

  A \<open>CIL\<close> is its place on the obstack together with its items, which are written once. The buffer is a
  \<open>MARPA_DSTACK\<close> (\<open>marpa_ami.h\<close>) of cells that may be unset; the number of the items of the list in the
  buffer is in its first cell.
\<close>

section \<open>Growing stacks of cells\<close>

record dstack =
  t_count :: nat
  t_cells :: "int option list"

definition t_capacity :: "dstack \<Rightarrow> nat" where
  "t_capacity s = length (t_cells s)"

definition MARPA_DSTACK_INIT :: "nat \<Rightarrow> dstack" where
  "MARPA_DSTACK_INIT n = \<lparr>t_count = 0, t_cells = replicate n None\<rparr>"

definition marpa_dstack_resize :: "dstack \<Rightarrow> nat \<Rightarrow> dstack" where
  "marpa_dstack_resize s new_size =
     (if t_capacity s < new_size then s\<lparr>t_cells := pad None new_size (t_cells s)\<rparr> else s)"

definition cell_put :: "dstack \<Rightarrow> nat \<Rightarrow> int \<Rightarrow> dstack option" where
  "cell_put s i x = do { require (i < t_capacity s); Some (s\<lparr>t_cells := (t_cells s)[i := Some x]\<rparr>) }"

definition cell_get :: "dstack \<Rightarrow> nat \<Rightarrow> int option" where
  "cell_get s i = (if i < t_capacity s then t_cells s ! i else None)"

definition MARPA_DSTACK_PUSH :: "dstack \<Rightarrow> int \<Rightarrow> dstack option" where
  "MARPA_DSTACK_PUSH s x = do {
     let s1 = (if t_capacity s \<le> t_count s then marpa_dstack_resize s (t_capacity s * 2) else s);
     cell_put (s1\<lparr>t_count := Suc (t_count s1)\<rparr>) (t_count s1) x
   }"

section \<open>The arena\<close>

type_synonym cil = "nat \<times> int list"

record cilar =
  cil_obs :: nat
  cil_avl :: "cil avl_table"
  cil_buffer :: dstack

text \<open>The comparison of two lists of the same length, and of any two.\<close>

fun cil_items_cmp :: "int list \<Rightarrow> int list \<Rightarrow> int" where
  "cil_items_cmp (item1 # as) (item2 # bs) =
     (if item1 = item2 then cil_items_cmp as bs else if item1 > item2 then 1 else - 1)"
| "cil_items_cmp as bs = 0"

definition cil_cmp :: "cil \<Rightarrow> cil \<Rightarrow> int" where
  "cil_cmp ap bp =
     (let count1 = length (snd ap); count2 = length (snd bp) in
      if count1 \<noteq> count2 then (if count1 > count2 then 1 else - 1)
      else cil_items_cmp (snd ap) (snd bp))"

definition cilar_buffer_reinit :: "cilar \<Rightarrow> cilar option" where
  "cilar_buffer_reinit ca = do { s \<leftarrow> cell_put (MARPA_DSTACK_INIT 2) 0 0; Some (ca\<lparr>cil_buffer := s\<rparr>) }"

definition cilar_init :: "cilar option" where
  "cilar_init = do {
     s \<leftarrow> cell_put (MARPA_DSTACK_INIT 2) 0 0;
     Some \<lparr>cil_obs = 0, cil_avl = marpa_avl_create cil_cmp, cil_buffer = s\<rparr>
   }"

text \<open>The items of the list in the buffer, which all have to be set.\<close>

fun cells_get :: "dstack \<Rightarrow> nat \<Rightarrow> nat \<Rightarrow> int list option" where
  "cells_get s i 0 = Some []"
| "cells_get s i (Suc n) = do { x \<leftarrow> cell_get s i; xs \<leftarrow> cells_get s (Suc i) n; Some (x # xs) }"

definition buffer_items :: "dstack \<Rightarrow> int list option" where
  "buffer_items s = do { n \<leftarrow> cell_get s 0; cells_get s 1 (nat n) }"

text \<open>The place of the buffer plays no part in the comparison.\<close>

definition cil_buffer_add :: "cilar \<Rightarrow> (cil \<times> cilar) option" where
  "cil_buffer_add ca = do {
     xs \<leftarrow> buffer_items (cil_buffer ca);
     let new = (cil_obs ca, xs);
     case marpa_avl_find (cil_avl ca) new of
       Some found \<Rightarrow> Some (found, ca)
     | None \<Rightarrow> do {
         (old, avl) \<leftarrow> marpa_avl_insert (cil_avl ca) new;
         Some (new, ca\<lparr>cil_obs := Suc (cil_obs ca), cil_avl := avl\<rparr>)
       }
   }"

section \<open>Building lists\<close>

definition cil_empty :: "cilar \<Rightarrow> (cil \<times> cilar) option" where
  "cil_empty ca = do {
     s \<leftarrow> cell_put (cil_buffer ca) 0 0;
     cil_buffer_add (ca\<lparr>cil_buffer := s\<rparr>)
   }"

definition cil_singleton :: "cilar \<Rightarrow> int \<Rightarrow> (cil \<times> cilar) option" where
  "cil_singleton ca element = do {
     s1 \<leftarrow> cell_put (cil_buffer ca) 0 1;
     s2 \<leftarrow> cell_put s1 1 element;
     cil_buffer_add (ca\<lparr>cil_buffer := s2\<rparr>)
   }"

definition cil_buffer_clear :: "dstack \<Rightarrow> dstack option" where
  "cil_buffer_clear s = MARPA_DSTACK_PUSH (s\<lparr>t_count := 0\<rparr>) 0"

definition cil_buffer_push :: "dstack \<Rightarrow> int \<Rightarrow> dstack option" where
  "cil_buffer_push s new_item = do {
     s1 \<leftarrow> MARPA_DSTACK_PUSH s new_item;
     n \<leftarrow> cell_get s1 0;
     cell_put s1 0 (n + 1)
   }"

definition cil_buffer_reserve :: "dstack \<Rightarrow> nat \<Rightarrow> dstack" where
  "cil_buffer_reserve s element_count =
     (if t_capacity s < element_count + 1
      then marpa_dstack_resize s (max (t_capacity s * 2) (element_count + 1))
      else s)"

text \<open>A list from the bits of a vector; the memory is the one that the scan leaves.\<close>

definition cil_bv_add :: "cilar \<Rightarrow> words \<Rightarrow> nat \<Rightarrow> ((cil \<times> cilar) \<times> words) option" where
  "cil_bv_add ca m bv = do {
     s \<leftarrow> cil_buffer_clear (cil_buffer ca);
     (s1, m1) \<leftarrow> scan_loop (\<lambda>new_item s. cil_buffer_push s (int new_item)) m bv 0 s;
     r \<leftarrow> cil_buffer_add (ca\<lparr>cil_buffer := s1\<rparr>);
     Some (r, m1)
   }"

text \<open>The loops write the item of the new list at index \<open>ix\<close>; the lists are the items still to read.\<close>

definition item_put :: "dstack \<Rightarrow> nat \<Rightarrow> int \<Rightarrow> dstack option" where
  "item_put s ix x = cell_put s (1 + ix) x"

fun copy_items :: "int list \<Rightarrow> nat \<Rightarrow> dstack \<Rightarrow> (nat \<times> dstack) option" where
  "copy_items [] ix s = Some (ix, s)"
| "copy_items (x # xs) ix s = do { s1 \<leftarrow> item_put s ix x; copy_items xs (Suc ix) s1 }"

fun merge_items ::
  "int list \<Rightarrow> int list \<Rightarrow> nat \<Rightarrow> dstack \<Rightarrow> (int list \<times> int list \<times> nat \<times> dstack) option" where
  "merge_items (item1 # as) (item2 # bs) ix s =
     (if item1 < item2 then do { s1 \<leftarrow> item_put s ix item1; merge_items as (item2 # bs) (Suc ix) s1 }
      else if item2 < item1 then do { s1 \<leftarrow> item_put s ix item2; merge_items (item1 # as) bs (Suc ix) s1 }
      else do { s1 \<leftarrow> item_put s ix item1; merge_items as bs (Suc ix) s1 })"
| "merge_items as bs ix s = Some (as, bs, ix, s)"

definition cil_merge :: "cilar \<Rightarrow> cil \<Rightarrow> cil \<Rightarrow> (cil \<times> cilar) option" where
  "cil_merge ca cil1 cil2 = do {
     let s = cil_buffer_reserve (cil_buffer ca) (length (snd cil1) + length (snd cil2));
     (as, bs, ix, s1) \<leftarrow> merge_items (snd cil1) (snd cil2) 0 s;
     (ix2, s2) \<leftarrow> copy_items as ix s1;
     (ix3, s3) \<leftarrow> copy_items bs ix2 s2;
     s4 \<leftarrow> cell_put s3 0 (int ix3);
     cil_buffer_add (ca\<lparr>cil_buffer := s4\<rparr>)
   }"

text \<open>The items before the new one; \<open>None\<close> when it is there already.\<close>

fun items_before :: "int \<Rightarrow> int list \<Rightarrow> nat \<Rightarrow> dstack \<Rightarrow> ((int list \<times> nat) option \<times> dstack) option" where
  "items_before new_element [] ix s = Some (Some ([], ix), s)"
| "items_before new_element (cil_item # xs) ix s =
     (if cil_item = new_element then Some (None, s)
      else if cil_item > new_element then Some (Some (cil_item # xs, ix), s)
      else do { s1 \<leftarrow> item_put s ix cil_item; items_before new_element xs (Suc ix) s1 })"

definition cil_merge_one :: "cilar \<Rightarrow> cil \<Rightarrow> int \<Rightarrow> (cil option \<times> cilar) option" where
  "cil_merge_one ca cil new_element = do {
     let s = cil_buffer_reserve (cil_buffer ca) (length (snd cil) + 1);
     (found, s1) \<leftarrow> items_before new_element (snd cil) 0 s;
     case found of
       None \<Rightarrow> Some (None, ca\<lparr>cil_buffer := s1\<rparr>)
     | Some (xs, ix) \<Rightarrow> do {
         s2 \<leftarrow> item_put s1 ix new_element;
         (ix2, s3) \<leftarrow> copy_items xs (Suc ix) s2;
         s4 \<leftarrow> cell_put s3 0 (int ix2);
         (r, ca1) \<leftarrow> cil_buffer_add (ca\<lparr>cil_buffer := s4\<rparr>);
         Some (Some r, ca1)
       }
   }"

end
