(* ===== verification/MarpaGrammar.thy ===== *)
theory MarpaGrammar
  imports ProgressReport Cil
begin

text \<open>
  The grammars of libmarpa (\<open>src/libmarpa-dist/marpa.c\<close>) up to their precomputation: symbols and rules are
  added one by one, each with the number that follows, and the equal rules are found in an AVL table.

  A symbol or a rule is its number, which indexes the stacks of the grammar. Function arguments that
  come from outside are \<open>int\<close>; the numbers inside are not negative. A pointer argument that is not read
  is left out. A function returns its value with the changed grammar; where the code may have undefined
  behaviour, \<open>None\<close> is such a run.
\<close>

section \<open>The grammar\<close>

record marpa_xsy =
  xsy_nulled_event_xsyids :: "cil option"
  xsy_rank :: int
  xsy_is_start :: bool
  xsy_is_lhs :: bool
  xsy_is_sequence_lhs :: bool
  xsy_is_valued :: bool
  xsy_is_valued_locked :: bool
  xsy_is_accessible :: bool
  xsy_is_counted :: bool
  xsy_is_nulling :: bool
  xsy_is_nullable :: bool
  xsy_is_terminal :: bool
  xsy_is_locked_terminal :: bool
  xsy_is_productive :: bool
  xsy_is_completion_event :: bool
  xsy_is_nulled_event :: bool
  xsy_is_prediction_event :: bool

text \<open>\<open>s_xrl\<close> has the number of the rule and whether it is a sequence.\<close>

record marpa_xrl = s_xrl +
  LHS_ID_of_XRL :: nat
  RHS_IDs_of_XRL :: "nat list"
  xrl_rank :: int
  t_null_ranks_high :: bool
  t_is_bnf :: bool
  t_minimum :: int
  t_separator_id :: int
  t_is_discard :: bool
  t_is_proper_separation :: bool
  t_is_loop :: bool
  xrl_is_nulling :: bool
  xrl_is_nullable :: bool
  xrl_is_accessible :: bool
  xrl_is_productive :: bool
  xrl_is_used :: bool

text \<open>A rule in the table of BNF rules: its place and the symbols it had when it was inserted.\<close>

type_synonym xrl_ptr = "nat \<times> nat \<times> nat list"

record marpa_g =
  g_header_mismatch :: bool
  g_is_ok :: bool
  t_ref_count :: int
  t_xsys :: "marpa_xsy list"
  t_xrls :: "marpa_xrl list"
  t_start_xsy_id :: int
  t_external_size :: nat
  t_max_rule_length :: nat
  t_default_rank :: int
  t_is_precomputed :: bool
  t_has_cycle :: bool
  t_events :: "(int \<times> int) list"
  t_xrl_tree :: "xrl_ptr avl_table option"
  t_cilar :: cilar
  g_error :: int
  t_error_string :: "string option"
  t_force_valued :: bool
  t_gzwas :: "bool list"
  t_zwps :: nat
  t_zwp_tree :: "(nat \<times> s_zwp) avl_table"

section \<open>Errors\<close>

definition set_error :: "int \<Rightarrow> string option \<Rightarrow> bool \<Rightarrow> marpa_g \<Rightarrow> marpa_g" where
  "set_error code message fatal g =
     (let g1 = g\<lparr>g_error := code, t_error_string := message\<rparr> in if fatal then g1\<lparr>g_is_ok := False\<rparr> else g1)"

definition MARPA_G_ERROR :: "int \<Rightarrow> marpa_g \<Rightarrow> marpa_g" where
  "MARPA_G_ERROR code g = set_error code None False g"

definition clear_error :: "marpa_g \<Rightarrow> int \<times> marpa_g" where
  "clear_error g =
     (if \<not> g_is_ok g
      then (let g1 = (if g_error g = MARPA_ERR_NONE then g\<lparr>g_error := MARPA_ERR_I_AM_NOT_OK\<rparr> else g) in (g_error g1, g1))
      else (MARPA_ERR_NONE, g\<lparr>g_error := MARPA_ERR_NONE, t_error_string := None\<rparr>))"

text \<open>
  The checks at the start of the functions: each gives the result when it fails. They run in the order
  of the list, and none changes the grammar unless it fails.
\<close>

type_synonym check = "(int \<times> marpa_g) option"

fun first_failure :: "check list \<Rightarrow> check" where
  "first_failure [] = None"
| "first_failure (c # cs) = (case c of None \<Rightarrow> first_failure cs | Some r \<Rightarrow> Some r)"

definition fail_if :: "bool \<Rightarrow> int \<Rightarrow> int \<Rightarrow> marpa_g \<Rightarrow> check" where
  "fail_if b code result g = (if b then Some (result, MARPA_G_ERROR code g) else None)"

definition g_fail_if_fatal :: "marpa_g \<Rightarrow> check" where
  "g_fail_if_fatal g = first_failure
     [fail_if (g_header_mismatch g) MARPA_ERR_HEADERS_DO_NOT_MATCH (- 2) g,
      fail_if (\<not> g_is_ok g) (g_error g) (- 2) g]"

definition fail_if_precomputed :: "marpa_g \<Rightarrow> check" where
  "fail_if_precomputed g = fail_if (t_is_precomputed g) MARPA_ERR_PRECOMPUTED (- 2) g"

definition fail_if_not_precomputed :: "marpa_g \<Rightarrow> check" where
  "fail_if_not_precomputed g = fail_if (\<not> t_is_precomputed g) MARPA_ERR_NOT_PRECOMPUTED (- 2) g"

definition XSYID_is_Malformed :: "int \<Rightarrow> bool" where
  "XSYID_is_Malformed xsy_id \<longleftrightarrow> xsy_id < 0"

definition XSYID_of_G_Exists :: "marpa_g \<Rightarrow> int \<Rightarrow> bool" where
  "XSYID_of_G_Exists g xsy_id \<longleftrightarrow> xsy_id < int (length (t_xsys g))"

definition fail_if_xsy_id_is_malformed :: "marpa_g \<Rightarrow> int \<Rightarrow> check" where
  "fail_if_xsy_id_is_malformed g xsy_id = fail_if (XSYID_is_Malformed xsy_id) MARPA_ERR_INVALID_SYMBOL_ID (- 2) g"

definition no_such_symbol :: "int \<Rightarrow> marpa_g \<Rightarrow> int \<Rightarrow> check" where
  "no_such_symbol result g xsy_id = fail_if (\<not> XSYID_of_G_Exists g xsy_id) MARPA_ERR_NO_SUCH_SYMBOL_ID result g"

definition XRLID_is_Malformed :: "int \<Rightarrow> bool" where
  "XRLID_is_Malformed rule_id \<longleftrightarrow> rule_id < 0"

definition XRLID_of_G_Exists :: "marpa_g \<Rightarrow> int \<Rightarrow> bool" where
  "XRLID_of_G_Exists g rule_id \<longleftrightarrow> rule_id < int (length (t_xrls g))"

definition fail_if_xrl_id_is_malformed :: "marpa_g \<Rightarrow> int \<Rightarrow> check" where
  "fail_if_xrl_id_is_malformed g xrl_id = fail_if (XRLID_is_Malformed xrl_id) MARPA_ERR_INVALID_RULE_ID (- 2) g"

definition no_such_rule :: "int \<Rightarrow> marpa_g \<Rightarrow> int \<Rightarrow> check" where
  "no_such_rule result g xrl_id = fail_if (\<not> XRLID_of_G_Exists g xrl_id) MARPA_ERR_NO_SUCH_RULE_ID result g"

definition or_else :: "check \<Rightarrow> int \<times> marpa_g \<Rightarrow> int \<times> marpa_g" where
  "or_else c r = (case c of None \<Rightarrow> r | Some failure \<Rightarrow> failure)"

definition xsy_id_is_valid :: "marpa_g \<Rightarrow> int \<Rightarrow> bool" where
  "xsy_id_is_valid g xsy_id \<longleftrightarrow> \<not> XSYID_is_Malformed xsy_id \<and> XSYID_of_G_Exists g xsy_id"

definition XSY_by_ID :: "marpa_g \<Rightarrow> int \<Rightarrow> marpa_xsy" where
  "XSY_by_ID g xsy_id = t_xsys g ! nat xsy_id"

definition XRL_by_ID :: "marpa_g \<Rightarrow> int \<Rightarrow> marpa_xrl" where
  "XRL_by_ID g xrl_id = t_xrls g ! nat xrl_id"

definition xsy_update :: "nat \<Rightarrow> (marpa_xsy \<Rightarrow> marpa_xsy) \<Rightarrow> marpa_g \<Rightarrow> marpa_g" where
  "xsy_update i f g = g\<lparr>t_xsys := (t_xsys g)[i := f (t_xsys g ! i)]\<rparr>"

definition xrl_update :: "nat \<Rightarrow> (marpa_xrl \<Rightarrow> marpa_xrl) \<Rightarrow> marpa_g \<Rightarrow> marpa_g" where
  "xrl_update i f g = g\<lparr>t_xrls := (t_xrls g)[i := f (t_xrls g ! i)]\<rparr>"

section \<open>The order of the rules\<close>

fun rhs_cmp :: "nat list \<Rightarrow> nat list \<Rightarrow> int" where
  "rhs_cmp (x # xs) (y # ys) = (let diff = int y - int x in if diff \<noteq> 0 then diff else rhs_cmp xs ys)"
| "rhs_cmp xs ys = 0"

definition duplicate_rule_cmp :: "xrl_ptr \<Rightarrow> xrl_ptr \<Rightarrow> int" where
  "duplicate_rule_cmp ap bp =
     (case ap of (place1, lhs1, rhs1) \<Rightarrow> case bp of (place2, lhs2, rhs2) \<Rightarrow>
        let diff = int lhs2 - int lhs1 in
        if diff \<noteq> 0 then diff
        else (let diff = int (length rhs2) - int (length rhs1) in
              if diff \<noteq> 0 then diff else rhs_cmp rhs1 rhs2))"

section \<open>Life\<close>

text \<open>The configuration, which may be \<open>NULL\<close>, receives the error; the grammar is \<open>None\<close> for \<open>NULL\<close>.\<close>

record marpa_config =
  c_is_ok :: bool
  c_error :: int
  c_error_string :: "string option"

definition marpa_c_init :: "marpa_config \<Rightarrow> int \<times> marpa_config" where
  "marpa_c_init config = (0, config\<lparr>c_is_ok := True, c_error := MARPA_ERR_NONE, c_error_string := None\<rparr>)"

definition marpa_c_error :: "marpa_config \<Rightarrow> int \<times> string option" where
  "marpa_c_error config = (c_error config, c_error_string config)"

definition zwp_ptr_cmp :: "nat \<times> s_zwp \<Rightarrow> nat \<times> s_zwp \<Rightarrow> int" where
  "zwp_ptr_cmp ap bp = zwp_cmp (snd ap) (snd bp)"

definition new_grammar :: "bool \<Rightarrow> marpa_g option" where
  "new_grammar mismatch = do {
     arena \<leftarrow> cilar_init;
     Some \<lparr>g_header_mismatch = mismatch, g_is_ok = True, t_ref_count = 1, t_xsys = [], t_xrls = [],
       t_start_xsy_id = - 1, t_external_size = 0, t_max_rule_length = 0, t_default_rank = 0,
       t_is_precomputed = False, t_has_cycle = False, t_events = [],
       t_xrl_tree = Some (marpa_avl_create duplicate_rule_cmp), t_cilar = arena,
       g_error = MARPA_ERR_NONE, t_error_string = None, t_force_valued = False, t_gzwas = [],
       t_zwps = 0, t_zwp_tree = marpa_avl_create zwp_ptr_cmp\<rparr>
   }"

definition marpa_g_new :: "marpa_config option \<Rightarrow> bool \<Rightarrow> (marpa_g option \<times> marpa_config option) option" where
  "marpa_g_new configuration mismatch =
     (case configuration of
        Some config \<Rightarrow>
          if \<not> c_is_ok config then Some (None, Some (config\<lparr>c_error := MARPA_ERR_I_AM_NOT_OK\<rparr>))
          else map_option (\<lambda>g. (Some g, configuration)) (new_grammar mismatch)
      | None \<Rightarrow> map_option (\<lambda>g. (Some g, configuration)) (new_grammar mismatch))"

text \<open>The references; \<open>None\<close> is the grammar freed.\<close>

definition marpa_g_unref :: "marpa_g \<Rightarrow> marpa_g option" where
  "marpa_g_unref g =
     (let g1 = g\<lparr>t_ref_count := t_ref_count g - 1\<rparr> in if t_ref_count g1 \<le> 0 then None else Some g1)"

definition marpa_g_ref :: "marpa_g \<Rightarrow> marpa_g" where
  "marpa_g_ref g = g\<lparr>t_ref_count := t_ref_count g + 1\<rparr>"

section \<open>Symbols\<close>

definition symbol_new :: "marpa_g \<Rightarrow> marpa_xsy" where
  "symbol_new g =
     \<lparr>xsy_nulled_event_xsyids = None, xsy_rank = t_default_rank g, xsy_is_start = False, xsy_is_lhs = False,
      xsy_is_sequence_lhs = False, xsy_is_valued = t_force_valued g, xsy_is_valued_locked = t_force_valued g,
      xsy_is_accessible = False, xsy_is_counted = False, xsy_is_nulling = False, xsy_is_nullable = False,
      xsy_is_terminal = False, xsy_is_locked_terminal = False, xsy_is_productive = False,
      xsy_is_completion_event = False, xsy_is_nulled_event = False, xsy_is_prediction_event = False\<rparr>"

definition symbol_add :: "marpa_g \<Rightarrow> marpa_xsy \<Rightarrow> marpa_g" where
  "symbol_add g symbol = g\<lparr>t_xsys := t_xsys g @ [symbol]\<rparr>"

definition marpa_g_symbol_new :: "marpa_g \<Rightarrow> int \<times> marpa_g" where
  "marpa_g_symbol_new g = (int (length (t_xsys g)), symbol_add g (symbol_new g))"

section \<open>Rules\<close>

definition MAX_RHS_LENGTH :: int where
  "MAX_RHS_LENGTH = drop_bit 2 2147483647"

text \<open>The start of a rule marks its left hand side; the symbols are then in place on the obstack.\<close>

definition xrl_start :: "marpa_g \<Rightarrow> nat \<Rightarrow> marpa_g" where
  "xrl_start g lhs = xsy_update lhs (\<lambda>xsy. xsy\<lparr>xsy_is_lhs := True\<rparr>) g"

definition rule_add :: "marpa_g \<Rightarrow> marpa_xrl \<Rightarrow> marpa_g" where
  "rule_add g rule =
     g\<lparr>t_xrls := t_xrls g @ [rule\<lparr>t_id := int (length (t_xrls g))\<rparr>],
       t_external_size := t_external_size g + (1 + length (RHS_IDs_of_XRL rule)),
       t_max_rule_length := max (length (RHS_IDs_of_XRL rule)) (t_max_rule_length g)\<rparr>"

definition xrl_finish :: "marpa_g \<Rightarrow> nat \<Rightarrow> nat list \<Rightarrow> marpa_g" where
  "xrl_finish g lhs rhs = rule_add g
     \<lparr>t_id = 0, t_is_sequence = False, LHS_ID_of_XRL = lhs, RHS_IDs_of_XRL = rhs, xrl_rank = t_default_rank g,
      t_null_ranks_high = False, t_is_bnf = False, t_minimum = - 1, t_separator_id = - 1, t_is_discard = False,
      t_is_proper_separation = False, t_is_loop = False, xrl_is_nulling = False, xrl_is_nullable = False,
      xrl_is_accessible = True, xrl_is_productive = True, xrl_is_used = False\<rparr>"

definition rule_new :: "marpa_g \<Rightarrow> nat \<Rightarrow> nat list \<Rightarrow> marpa_g" where
  "rule_new g lhs rhs = xrl_finish (xrl_start g lhs) lhs rhs"

text \<open>The loop over the right hand side, which stops at the first symbol that is not valid.\<close>

fun rhs_is_valid :: "marpa_g \<Rightarrow> int list \<Rightarrow> nat \<Rightarrow> bool option" where
  "rhs_is_valid g rhs_ids 0 = Some True"
| "rhs_is_valid g [] (Suc n) = None"
| "rhs_is_valid g (rhs_id # rhs_ids) (Suc n) =
     (if xsy_id_is_valid g rhs_id then rhs_is_valid g rhs_ids n else Some False)"

definition fail :: "int \<Rightarrow> marpa_g \<Rightarrow> int \<times> marpa_g" where
  "fail code g = (- 2, MARPA_G_ERROR code g)"

text \<open>A negative length makes the rule smaller than the symbol that is stored in it.\<close>

definition marpa_g_rule_new :: "marpa_g \<Rightarrow> int \<Rightarrow> int list \<Rightarrow> int \<Rightarrow> (int \<times> marpa_g) option" where
  "marpa_g_rule_new g lhs_id rhs_ids rhs_length =
     (case first_failure
        [g_fail_if_fatal g, fail_if_precomputed g,
         fail_if (rhs_length > MAX_RHS_LENGTH) MARPA_ERR_RHS_TOO_LONG (- 2) g,
         fail_if (\<not> xsy_id_is_valid g lhs_id) MARPA_ERR_INVALID_SYMBOL_ID (- 2) g]
      of Some failure \<Rightarrow> Some failure
      | None \<Rightarrow> do {
          valid \<leftarrow> rhs_is_valid g rhs_ids (nat rhs_length);
          if \<not> valid then Some (fail MARPA_ERR_INVALID_SYMBOL_ID g)
          else if xsy_is_sequence_lhs (XSY_by_ID g lhs_id) then Some (fail MARPA_ERR_SEQUENCE_LHS_NOT_UNIQUE g)
          else do {
            require (0 \<le> rhs_length);
            let lhs = nat lhs_id;
            let rhs = map nat (take (nat rhs_length) rhs_ids);
            let g1 = xrl_start g lhs;
            tree \<leftarrow> t_xrl_tree g1;
            (found, tree1) \<leftarrow> marpa_avl_insert tree (length (t_xrls g), lhs, rhs);
            let g2 = g1\<lparr>t_xrl_tree := Some tree1\<rparr>;
            if found \<noteq> None then Some (fail MARPA_ERR_DUPLICATE_RULE g2)
            else (let g3 = xrl_finish g2 lhs rhs;
                      rule_id = length (t_xrls g2);
                      g4 = xrl_update rule_id (\<lambda>rule. rule\<lparr>t_is_bnf := True\<rparr>) g3
                  in Some (int rule_id, g4))
          }
        })"

definition MARPA_KEEP_SEPARATION :: int where
  "MARPA_KEEP_SEPARATION = 1"

definition marpa_g_sequence_new :: "marpa_g \<Rightarrow> int \<Rightarrow> int \<Rightarrow> int \<Rightarrow> int \<Rightarrow> int \<Rightarrow> int \<times> marpa_g" where
  "marpa_g_sequence_new g lhs_id rhs_id separator_id mn flags =
     or_else (first_failure
        [g_fail_if_fatal g, fail_if_precomputed g,
         fail_if (separator_id \<noteq> - 1 \<and> \<not> xsy_id_is_valid g separator_id) MARPA_ERR_BAD_SEPARATOR (- 2) g,
         fail_if (\<not> xsy_id_is_valid g lhs_id) MARPA_ERR_INVALID_SYMBOL_ID (- 2) g,
         fail_if (xsy_is_lhs (XSY_by_ID g lhs_id)) MARPA_ERR_SEQUENCE_LHS_NOT_UNIQUE (- 2) g,
         fail_if (\<not> xsy_id_is_valid g rhs_id) MARPA_ERR_INVALID_SYMBOL_ID (- 2) g])
      (let original_rule_id = length (t_xrls g);
           g1 = rule_new g (nat lhs_id) [nat rhs_id];
           g2 = xrl_update original_rule_id (\<lambda>rule. rule
                  \<lparr>t_separator_id := (if 0 \<le> separator_id then separator_id else t_separator_id rule),
                   t_minimum := mn, t_is_sequence := True,
                   t_is_discard := (flags AND MARPA_KEEP_SEPARATION) = 0 \<and> 0 \<le> separator_id,
                   t_is_proper_separation :=
                     (if flags AND MARPA_PROPER_SEPARATION \<noteq> 0 then True else t_is_proper_separation rule)\<rparr>) g1;
           g3 = xsy_update (nat lhs_id) (\<lambda>xsy. xsy\<lparr>xsy_is_sequence_lhs := True\<rparr>) g2;
           g4 = xsy_update (nat rhs_id) (\<lambda>xsy. xsy\<lparr>xsy_is_counted := True\<rparr>) g3;
           g5 = (if 0 \<le> separator_id then xsy_update (nat separator_id) (\<lambda>xsy. xsy\<lparr>xsy_is_counted := True\<rparr>) g4 else g4)
       in (int original_rule_id, g5))"

section \<open>Start and terminals\<close>

definition marpa_g_start_symbol :: "marpa_g \<Rightarrow> int \<times> marpa_g" where
  "marpa_g_start_symbol g = or_else (g_fail_if_fatal g) (t_start_xsy_id g, g)"

definition marpa_g_start_symbol_set :: "marpa_g \<Rightarrow> int \<Rightarrow> int \<times> marpa_g" where
  "marpa_g_start_symbol_set g xsy_id = or_else (first_failure
     [g_fail_if_fatal g, fail_if_precomputed g, fail_if_xsy_id_is_malformed g xsy_id, no_such_symbol (- 1) g xsy_id])
     (xsy_id, g\<lparr>t_start_xsy_id := xsy_id\<rparr>)"

definition marpa_g_symbol_is_terminal :: "marpa_g \<Rightarrow> int \<Rightarrow> int \<times> marpa_g" where
  "marpa_g_symbol_is_terminal g xsy_id = or_else (first_failure
     [g_fail_if_fatal g, fail_if_xsy_id_is_malformed g xsy_id, no_such_symbol (- 1) g xsy_id])
     (of_bool (xsy_is_terminal (XSY_by_ID g xsy_id)), g)"

definition marpa_g_symbol_is_terminal_set :: "marpa_g \<Rightarrow> int \<Rightarrow> int \<Rightarrow> int \<times> marpa_g" where
  "marpa_g_symbol_is_terminal_set g xsy_id val = or_else (first_failure
     [g_fail_if_fatal g, fail_if_precomputed g, fail_if_xsy_id_is_malformed g xsy_id, no_such_symbol (- 1) g xsy_id,
      fail_if (val < 0 \<or> val > 1) MARPA_ERR_INVALID_BOOLEAN (- 2) g,
      fail_if (xsy_is_locked_terminal (XSY_by_ID g xsy_id) \<and> of_bool (xsy_is_terminal (XSY_by_ID g xsy_id)) \<noteq> val)
        MARPA_ERR_TERMINAL_IS_LOCKED (- 2) g])
     (val, xsy_update (nat xsy_id) (\<lambda>xsy. xsy\<lparr>xsy_is_locked_terminal := True, xsy_is_terminal := val \<noteq> 0\<rparr>) g)"

end
