(* ===== verification/RuleIndex.thy ===== *)
theory RuleIndex
  imports MarpaGrammar
begin

text \<open>
  \<open>rhs_closure\<close> of \<open>src/libmarpa-dist/marpa.c\<close>, the work list that adds to a set of symbols every left
  hand side whose right hand side is in the set.

  Symbols and rules are given by their ids, which index the stacks of the grammar. The rule ids of a
  symbol are a part of one array (\<open>rule_data\<close>); \<open>xrl_list\<close> holds where the part of each symbol starts,
  with one entry more than there are symbols.
\<close>

section \<open>The work list\<close>

text \<open>A stack of fixed capacity, the top first.\<close>

definition fstack_push :: "nat \<Rightarrow> nat \<Rightarrow> nat list \<Rightarrow> nat list option" where
  "fstack_push capacity x stack = do { require (length stack < capacity); Some (x # stack) }"

fun all_set :: "words \<Rightarrow> nat \<Rightarrow> nat list \<Rightarrow> bool option" where
  "all_set m bv [] = Some True"
| "all_set m bv (x # xs) = do { t \<leftarrow> bv_bit_test m bv x; if t then all_set m bv xs else Some False }"

definition separator_set :: "words \<Rightarrow> nat \<Rightarrow> 'a marpa_xrl_scheme \<Rightarrow> bool option" where
  "separator_set m bv rule =
     (if t_is_sequence rule \<and> 2 \<le> t_minimum rule \<and> 0 \<le> t_separator_id rule
      then bv_bit_test m bv (nat (t_separator_id rule))
      else Some True)"

text \<open>The body of the loop over the rules of a symbol; \<open>NEXT_RULE\<close> is the result unchanged.\<close>

definition closure_rule :: "marpa_g \<Rightarrow> nat \<Rightarrow> nat \<Rightarrow> words \<Rightarrow> nat list \<Rightarrow> (words \<times> nat list) option" where
  "closure_rule g bv rule_id m stack = do {
     require (rule_id < length (t_xrls g));
     let rule = t_xrls g ! rule_id;
     let lhs_id = LHS_ID_of_XRL rule;
     t \<leftarrow> bv_bit_test m bv lhs_id;
     if t then Some (m, stack)
     else do {
       a \<leftarrow> all_set m bv (RHS_IDs_of_XRL rule);
       if \<not> a then Some (m, stack)
       else do {
         s \<leftarrow> separator_set m bv rule;
         if \<not> s then Some (m, stack)
         else do {
           m1 \<leftarrow> bv_bit_set m bv lhs_id;
           stack1 \<leftarrow> fstack_push (length (t_xsys g)) lhs_id stack;
           Some (m1, stack1)
         }
       }
     }
   }"

fun closure_rules :: "marpa_g \<Rightarrow> nat \<Rightarrow> nat list \<Rightarrow> words \<Rightarrow> nat list \<Rightarrow> (words \<times> nat list) option" where
  "closure_rules g bv [] m stack = Some (m, stack)"
| "closure_rules g bv (rule_id # ids) m stack = do {
     (m1, stack1) \<leftarrow> closure_rule g bv rule_id m stack;
     closure_rules g bv ids m1 stack1
   }"

text \<open>The rule ids of a symbol.\<close>

definition listed :: "nat list \<Rightarrow> nat list \<Rightarrow> nat \<Rightarrow> nat list option" where
  "listed xrl_list rule_data x = do {
     require (Suc x < length xrl_list \<and> (xrl_list ! x < xrl_list ! Suc x \<longrightarrow> xrl_list ! Suc x \<le> length rule_data));
     Some (map (\<lambda>p. rule_data ! p) [xrl_list ! x..<xrl_list ! Suc x])
   }"

partial_function (option) closure_loop ::
  "marpa_g \<Rightarrow> nat \<Rightarrow> nat list \<Rightarrow> nat list \<Rightarrow> words \<Rightarrow> nat list \<Rightarrow> words option" where
  "closure_loop g bv xrl_list rule_data m stack =
     (case stack of
        [] \<Rightarrow> Some m
      | x # stack1 \<Rightarrow> do {
          ids \<leftarrow> listed xrl_list rule_data x;
          (m1, stack2) \<leftarrow> closure_rules g bv ids m stack1;
          closure_loop g bv xrl_list rule_data m1 stack2
        })"

declare closure_loop.simps [code]

definition rhs_closure :: "marpa_g \<Rightarrow> nat \<Rightarrow> nat list \<Rightarrow> nat list \<Rightarrow> words \<Rightarrow> words option" where
  "rhs_closure g bv xrl_list rule_data m = do {
     (stack, m1) \<leftarrow> scan_loop (fstack_push (length (t_xsys g))) m bv 0 [];
     closure_loop g bv xrl_list rule_data m1 stack
   }"

text \<open>
  The first step of the symbol census of \<open>marpa_g_precompute\<close> (\<open>src/libmarpa-dist/marpa.c\<close>): the symbols
  that are left hand sides, those with an empty rule, and for each symbol the rules that have it on
  the right or on the left, collected as pairs in two AVL tables and read off in order.

  A pair is its place in the array of the pairs and its content.
\<close>

type_synonym pair_ptr = "nat \<times> sym_rule_pair"

definition pair_ptr_cmp :: "pair_ptr \<Rightarrow> pair_ptr \<Rightarrow> int" where
  "pair_ptr_cmp ap bp = sym_rule_cmp (snd ap) (snd bp)"

record rule_census =
  census_words :: words
  lhs_avl_tree :: "pair_ptr avl_table"
  lhs_pairs :: nat
  rhs_avl_tree :: "pair_ptr avl_table"
  rhs_pairs :: nat

section \<open>The pairs\<close>

text \<open>The next pair of the array is written and inserted.\<close>

definition insert_pair ::
  "nat \<Rightarrow> nat \<Rightarrow> nat \<Rightarrow> pair_ptr avl_table \<Rightarrow> nat \<Rightarrow> (pair_ptr avl_table \<times> nat) option" where
  "insert_pair capacity symid ruleid tree k = do {
     require (k < capacity);
     (found, tree1) \<leftarrow> marpa_avl_insert tree (k, \<lparr>t_symid = int symid, t_ruleid = int ruleid\<rparr>);
     Some (tree1, Suc k)
   }"

fun insert_rhs ::
  "nat \<Rightarrow> nat list \<Rightarrow> nat \<Rightarrow> pair_ptr avl_table \<Rightarrow> nat \<Rightarrow> (pair_ptr avl_table \<times> nat) option" where
  "insert_rhs capacity [] ruleid tree k = Some (tree, k)"
| "insert_rhs capacity (symid # symids) ruleid tree k = do {
     (tree1, k1) \<leftarrow> insert_pair capacity symid ruleid tree k;
     insert_rhs capacity symids ruleid tree1 k1
   }"

text \<open>One rule. \<open>lhs_v\<close> and \<open>empty_lhs_v\<close> are the two vectors.\<close>

definition index_rule :: "marpa_g \<Rightarrow> nat \<Rightarrow> nat \<Rightarrow> nat \<Rightarrow> rule_census \<Rightarrow> rule_census option" where
  "index_rule g lhs_v empty_lhs_v rule_id c = do {
     require (rule_id < length (t_xrls g));
     let rule = t_xrls g ! rule_id;
     let lhs_id = LHS_ID_of_XRL rule;
     m1 \<leftarrow> bv_bit_set (census_words c) lhs_v lhs_id;
     (lhs_tree, kl) \<leftarrow> insert_pair (length (t_xrls g)) lhs_id rule_id (lhs_avl_tree c) (lhs_pairs c);
     m2 \<leftarrow> (if t_is_sequence rule \<and> t_minimum rule \<le> 0 then bv_bit_set m1 empty_lhs_v lhs_id else Some m1);
     (rhs_tree, kr) \<leftarrow>
       (if t_is_sequence rule \<and> 0 \<le> t_separator_id rule
        then insert_pair (t_external_size g) (nat (t_separator_id rule)) rule_id (rhs_avl_tree c) (rhs_pairs c)
        else Some (rhs_avl_tree c, rhs_pairs c));
     if RHS_IDs_of_XRL rule = []
     then do {
       m3 \<leftarrow> bv_bit_set m2 empty_lhs_v lhs_id;
       Some \<lparr>census_words = m3, lhs_avl_tree = lhs_tree, lhs_pairs = kl, rhs_avl_tree = rhs_tree, rhs_pairs = kr\<rparr>
     }
     else do {
       (rhs_tree1, kr1) \<leftarrow> insert_rhs (t_external_size g) (RHS_IDs_of_XRL rule) rule_id rhs_tree kr;
       Some \<lparr>census_words = m2, lhs_avl_tree = lhs_tree, lhs_pairs = kl, rhs_avl_tree = rhs_tree1, rhs_pairs = kr1\<rparr>
     }
   }"

fun index_rules :: "marpa_g \<Rightarrow> nat \<Rightarrow> nat \<Rightarrow> nat list \<Rightarrow> rule_census \<Rightarrow> rule_census option" where
  "index_rules g lhs_v empty_lhs_v [] c = Some c"
| "index_rules g lhs_v empty_lhs_v (rule_id # ids) c = do {
     c1 \<leftarrow> index_rule g lhs_v empty_lhs_v rule_id c;
     index_rules g lhs_v empty_lhs_v ids c1
   }"

section \<open>The lists\<close>

text \<open>
  The entries up to \<open>symid\<close> that are not yet there get the current end of the rule data; \<open>seen_symid\<close> is
  the number of the last entry.
\<close>

definition fill_to :: "nat \<Rightarrow> nat \<Rightarrow> nat list \<Rightarrow> nat list \<Rightarrow> nat list option" where
  "fill_to n symid xrl_list rule_data = do {
     let filled = xrl_list @ replicate (Suc symid - length xrl_list) (length rule_data);
     require (length filled \<le> Suc n);
     Some filled
   }"

partial_function (option) read_pairs ::
  "nat \<Rightarrow> nat \<Rightarrow> pair_ptr avl_table \<Rightarrow> pair_ptr option \<Rightarrow> avl_traverser \<Rightarrow> nat list \<Rightarrow> nat list
     \<Rightarrow> (nat list \<times> nat list) option" where
  "read_pairs n capacity tree pair traverser xrl_list rule_data =
     (case pair of
        None \<Rightarrow> Some (xrl_list, rule_data)
      | Some p \<Rightarrow> do {
          xrl_list1 \<leftarrow> fill_to n (nat (t_symid (snd p))) xrl_list rule_data;
          require (length rule_data < capacity);
          (pair1, traverser1) \<leftarrow> marpa_avl_t_next tree traverser;
          read_pairs n capacity tree pair1 traverser1 xrl_list1 (rule_data @ [nat (t_ruleid (snd p))])
        })"

declare read_pairs.simps [code]

definition index_of :: "nat \<Rightarrow> nat \<Rightarrow> pair_ptr avl_table \<Rightarrow> (nat list \<times> nat list) option" where
  "index_of n capacity tree = do {
     (pair, traverser) \<leftarrow> marpa_avl_t_first tree (marpa_avl_t_init tree);
     (xrl_list, rule_data) \<leftarrow> read_pairs n capacity tree pair traverser [] [];
     xrl_list1 \<leftarrow> fill_to n n xrl_list rule_data;
     Some (xrl_list1, rule_data)
   }"

section \<open>The step\<close>

record rule_index =
  lhs_v :: nat
  empty_lhs_v :: nat
  xrl_list_x_rh_sym :: "nat list"
  rh_rule_data :: "nat list"
  xrl_list_x_lh_sym :: "nat list"
  lh_rule_data :: "nat list"

definition census_index :: "marpa_g \<Rightarrow> words \<Rightarrow> (rule_index \<times> words) option" where
  "census_index g m = do {
     let n = length (t_xsys g);
     let (lv, m1) = bv_create m n;
     (ev, m2) \<leftarrow> bv_shadow m1 lv;
     c \<leftarrow> index_rules g lv ev [0..<length (t_xrls g)]
            \<lparr>census_words = m2, lhs_avl_tree = marpa_avl_create pair_ptr_cmp, lhs_pairs = 0,
             rhs_avl_tree = marpa_avl_create pair_ptr_cmp, rhs_pairs = 0\<rparr>;
     (rl, rd) \<leftarrow> index_of n (t_external_size g) (rhs_avl_tree c);
     (ll, ld) \<leftarrow> index_of n (length (t_xrls g)) (lhs_avl_tree c);
     Some (\<lparr>lhs_v = lv, empty_lhs_v = ev, xrl_list_x_rh_sym = rl, rh_rule_data = rd,
            xrl_list_x_lh_sym = ll, lh_rule_data = ld\<rparr>, census_words c)
   }"

end
