(* ===== verification/ScanProps.thy ===== *)
theory ScanProps
  imports BitProps
begin

text \<open>
  The search for the next run of set bits, \<open>bv_scan\<close>: the first set bit at or after the start, and the
  end of the run that it begins. A bit number is a word and a place in it; the two loops go through
  the words and then through the bits of one word.
\<close>

section \<open>Places\<close>

definition on :: "words \<Rightarrow> nat \<Rightarrow> nat \<Rightarrow> bool" where
  "on m v k \<longleftrightarrow> bit (m ! (v + k div 32)) (k mod 32)"

lemma place_less:
  "r < 32 \<Longrightarrow> s < 32 \<Longrightarrow> 32 * p + r < 32 * q + s \<longleftrightarrow> p < q \<or> p = q \<and> r < (s :: nat)"
proof -
  assume a: "r < 32" "s < 32"
  consider "p < q" | "p = q" | "q < p" by linarith
  then show ?thesis
  proof cases
    case 1
    then have "32 * Suc p \<le> 32 * q" by (intro mult_le_mono2) simp
    with a 1 show ?thesis by simp
  next
    case 3
    then have "32 * Suc q \<le> 32 * p" by (intro mult_le_mono2) simp
    with a 3 show ?thesis by simp
  qed simp
qed

lemma on_place: "r < 32 \<Longrightarrow> on m v (32 * q + r) \<longleftrightarrow> bit (m ! (v + q)) r"
  by (simp add: on_def)

lemma place_cases:
  obtains q r where "k = 32 * q + r" "r < (32 :: nat)"
  by (rule that [of "k div 32" "k mod 32"]) simp_all

lemma exI2: "P a b \<Longrightarrow> \<exists>x y. P x y"
  by blast

lemma exI3: "P a b c \<Longrightarrow> \<exists>x y z. P x y z"
  by blast

section \<open>The loops\<close>

lemma low_bit_runs:
  "w \<noteq> 0 \<Longrightarrow> \<exists>j < 32. bit w j \<and> (\<forall>i < j. \<not> bit w i) \<and> low_bit w b s = Some (drop_bit j w, push_bit j b, s + j)"
proof (induction w b s rule: low_bit.induct)
  case (1 w b s)
  show ?case
  proof (cases "w AND 1 \<noteq> 0")
    case True
    then have "bit w 0" using and_single_bit [of 0 w] by simp
    with 1(2) True show ?thesis by (intro exI [of _ 0]) (simp add: low_bit.simps)
  next
    case False
    then have even: "\<not> bit w 0" using and_single_bit [of 0 w] by simp
    have "drop_bit 1 w \<noteq> 0"
    proof
      assume "drop_bit 1 w = 0"
      then have "\<not> bit w (Suc j)" for j using bit_drop_bit_eq [of 1 w] by (metis bit_0_eq bot_apply plus_1_eq_Suc bot_bool_def comp_apply)
      with even have "w = 0" by (intro bit_word_eqI) (metis bit_0_eq bot_apply bot_bool_def not0_implies_Suc)
      with 1(2) show False by simp
    qed
    from 1(1) [OF 1(2) False this] obtain j where j: "bit (drop_bit 1 w) j" "\<forall>i < j. \<not> bit (drop_bit 1 w) i"
      "low_bit (drop_bit 1 w) (push_bit 1 b) (Suc s) = Some (drop_bit j (drop_bit 1 w), push_bit j (push_bit 1 b), Suc s + j)"
      by blast
    have "bit w (Suc j)" using j(1) by (simp add: bit_drop_bit_eq)
    moreover from this have "Suc j < 32" by (auto dest: bit_imp_le_length)
    moreover have "\<not> bit w i" if "i < Suc j" for i
      using that even j(2) by (cases i) (auto simp: bit_drop_bit_eq)
    moreover have "low_bit w b s = Some (drop_bit (Suc j) w, push_bit (Suc j) b, s + Suc j)"
      using 1(2) False j(3) by (subst low_bit.simps) (simp add: push_bit_push_bit)
    ultimately show ?thesis by blast
  qed
qed

lemma next_word_runs:
  "p + n \<le> length m \<Longrightarrow>
     (\<exists>i < n. (\<forall>j < i. g (m ! (p + j)) = 0) \<and> g (m ! (p + i)) \<noteq> 0
        \<and> next_word g m p off n = Some (n - Suc i, off + i, Some (g (m ! (p + i)))))
     \<or> (\<forall>j < n. g (m ! (p + j)) = 0) \<and> next_word g m p off n = Some (0, off + n, None)"
proof (induction n arbitrary: p off)
  case (Suc n)
  show ?case
  proof (cases "g (m ! p) = 0")
    case False
    with Suc.prems show ?thesis by (intro disjI1 exI [of _ 0]) (simp add: peek_def)
  next
    case True
    have run: "next_word g m p off (Suc n) = next_word g m (Suc p) (Suc off) n"
      using Suc.prems True by (simp add: peek_def)
    have "Suc p + n \<le> length m" using Suc.prems by simp
    from Suc.IH [OF this, of "Suc off"] show ?thesis
    proof (elim disjE exE conjE)
      fix i assume i: "i < n" "\<forall>j < i. g (m ! (Suc p + j)) = 0" "g (m ! (Suc p + i)) \<noteq> 0"
        "next_word g m (Suc p) (Suc off) n = Some (n - Suc i, Suc off + i, Some (g (m ! (Suc p + i))))"
      have "g (m ! (p + j)) = 0" if "j < Suc i" for j using that True i(2) by (cases j) auto
      with i run show ?thesis by (intro disjI1 exI [of _ "Suc i"]) simp
    next
      assume i: "\<forall>j < n. g (m ! (Suc p + j)) = 0" "next_word g m (Suc p) (Suc off) n = Some (0, Suc off + n, None)"
      have "g (m ! (p + j)) = 0" if "j < Suc n" for j using that True i(1) by (cases j) auto
      with i run show ?thesis by (intro disjI2) simp
    qed
  qed
qed simp

lemma above_mask: "k < 32 \<Longrightarrow> bit (NOT (push_bit k 1 OR (push_bit k 1 - 1)) :: 32 word) i \<longleftrightarrow> k < i \<and> i < 32"
  by (auto simp: push_bit_of_1 mask_eq_exp_minus_1 [symmetric] bit_simps)

lemma word_zero_iff: "(w :: 32 word) = 0 \<longleftrightarrow> (\<forall>i < 32. \<not> bit w i)"
  by (auto intro: bit_word_eqI)

text \<open>The first word with a bit that \<open>g\<close> leaves, and the lowest such bit.\<close>

lemma find_bit:
  assumes b: "v + off + n \<le> length m"
  shows "(\<exists>q r. off \<le> q \<and> q < off + n \<and> r < 32 \<and> bit (g (m ! (v + q))) r
      \<and> (\<forall>k. 32 * off \<le> k \<and> k < 32 * q + r \<longrightarrow> \<not> bit (g (m ! (v + k div 32))) (k mod 32))
      \<and> next_word g m (v + off) off n = Some (off + n - Suc q, q, Some (g (m ! (v + q))))
      \<and> low_bit (g (m ! (v + q))) 1 (q * 32) = Some (drop_bit r (g (m ! (v + q))), push_bit r 1, 32 * q + r))
    \<or> (\<forall>k. 32 * off \<le> k \<and> k < 32 * (off + n) \<longrightarrow> \<not> bit (g (m ! (v + k div 32))) (k mod 32))
      \<and> next_word g m (v + off) off n = Some (0, off + n, None)"
  using next_word_runs [OF b, of g off]
proof (elim disjE exE conjE)
  fix i assume i: "i < n" "\<forall>j < i. g (m ! (v + off + j)) = 0" "g (m ! (v + off + i)) \<noteq> 0"
    "next_word g m (v + off) off n = Some (n - Suc i, off + i, Some (g (m ! (v + off + i))))"
  let ?q = "off + i"
  from low_bit_runs [OF i(3), of 1 "?q * 32"] obtain r where r: "r < 32" "bit (g (m ! (v + ?q))) r"
    "\<forall>j < r. \<not> bit (g (m ! (v + ?q))) j"
    "low_bit (g (m ! (v + ?q))) 1 (?q * 32) = Some (drop_bit r (g (m ! (v + ?q))), push_bit r 1, ?q * 32 + r)"
    by (auto simp: add.assoc)
  have "\<not> bit (g (m ! (v + k div 32))) (k mod 32)" if k: "32 * off \<le> k" "k < 32 * ?q + r" for k
  proof -
    have "k div 32 < ?q \<or> k div 32 = ?q \<and> k mod 32 < r"
      using k(2) place_less [of "k mod 32" r "k div 32" ?q] r(1) by simp
    then show ?thesis
    proof
      assume "k div 32 < ?q"
      moreover have "off \<le> k div 32" using k(1) by (simp add: less_eq_div_iff_mult_less_eq)
      ultimately obtain j where "k div 32 = off + j" "j < i" by (metis add_less_cancel_left le_Suc_ex)
      with i(2) have "g (m ! (v + k div 32)) = 0" by (simp add: add.assoc)
      then show ?thesis by simp
    qed (use r(3) in simp)
  qed
  with i r show ?thesis by (intro disjI1 exI2 [of _ ?q r]) (simp add: add.assoc mult.commute)
next
  assume i: "\<forall>j < n. g (m ! (v + off + j)) = 0" "next_word g m (v + off) off n = Some (0, off + n, None)"
  have "\<not> bit (g (m ! (v + k div 32))) (k mod 32)" if k: "32 * off \<le> k" "k < 32 * (off + n)" for k
  proof -
    have "off \<le> k div 32" "k div 32 < off + n" using k by (simp_all add: less_eq_div_iff_mult_less_eq div_less_iff_less_mult)
    then obtain j where "k div 32 = off + j" "j < n" by (metis add_less_cancel_left le_Suc_ex)
    with i(1) have "g (m ! (v + k div 32)) = 0" by (simp add: add.assoc)
    then show ?thesis by simp
  qed
  with i(2) show ?thesis by simp
qed

section \<open>The two parts of the search\<close>

lemma same_word: "32 * q \<le> k \<Longrightarrow> k < 32 * q + 32 \<Longrightarrow> k div 32 = (q :: nat)"
  by (rule div_nat_eqI) simp_all

text \<open>What the first part finds: the bit and, in the word returned, the bits after it.\<close>

lemma scan_min_runs:
  assumes b: "v + sz \<le> length m" and s: "start div 32 < sz"
  shows "(\<forall>k. start \<le> k \<and> k < 32 * sz \<longrightarrow> \<not> on m v k)
      \<and> scan_min m v start (start div 32) (sz - start div 32) = Some None
    \<or> (\<exists>q r w. start \<le> 32 * q + r \<and> q < sz \<and> r < 32 \<and> on m v (32 * q + r)
        \<and> (\<forall>k. start \<le> k \<and> k < 32 * q + r \<longrightarrow> \<not> on m v k)
        \<and> (\<forall>i > r. bit w i = bit (m ! (v + q)) i)
        \<and> scan_min m v start (start div 32) (sz - start div 32)
          = Some (Some (32 * q + r, w, NOT (push_bit r 1 OR (push_bit r 1 - 1)), q, sz - Suc q)))"
proof -
  let ?q = "start div 32" and ?r = "start mod 32"
  let ?w = "m ! (v + ?q)" and ?mask = "NOT (push_bit ?r 1 OR (push_bit ?r 1 - 1)) :: 32 word"
  have r: "?r < 32" by simp
  have word: "peek m (v + ?q) = Some ?w" using b s by (simp add: peek_def)
  have start: "start = 32 * ?q + ?r" by simp
  show ?thesis
  proof (cases "bit ?w ?r")
    case True
    then have "?w AND push_bit ?r 1 \<noteq> 0" using and_single_bit [OF r] by blast
    then have "scan_min m v start ?q (sz - ?q) = Some (Some (start, ?w, ?mask, ?q, sz - Suc ?q))"
      using word by (simp add: scan_min_def bv_wordbits_def Let_def)
    with True s r start show ?thesis
      by (intro disjI2 exI3 [of _ ?q ?r ?w]) (auto simp: on_def)
  next
    case False
    then have off: "?w AND push_bit ?r 1 = 0" using and_single_bit [OF r] by blast
    have first: "\<not> on m v k" if "start \<le> k" "k \<le> start" for k using that False by (simp add: on_def)
    show ?thesis
    proof (cases "?w AND ?mask = 0")
      case False
      from low_bit_runs [OF this, of 1 "?q * 32"] obtain j where j: "j < 32" "bit (?w AND ?mask) j" "\<forall>i < j. \<not> bit (?w AND ?mask) i"
        "low_bit (?w AND ?mask) 1 (?q * 32) = Some (drop_bit j (?w AND ?mask), push_bit j 1, ?q * 32 + j)" by blast
      have j': "bit ?w j" "?r < j" using j(2) above_mask [OF r, of j] by (auto simp: bit_and_iff)
      have "\<not> on m v k" if k: "start \<le> k" "k < 32 * ?q + j" for k
      proof -
        have "k div 32 = ?q" using k j(1) start by (intro same_word) linarith+
        then have "k = 32 * ?q + k mod 32" using mult_div_mod_eq [of 32 k] by simp
        with k start have "k mod 32 < j" "k mod 32 = ?r \<or> ?r < k mod 32" by linarith+
        with j(3) \<open>\<not> bit ?w ?r\<close> above_mask [OF r, of "k mod 32"] \<open>k div 32 = ?q\<close> show ?thesis
          by (auto simp: on_def bit_and_iff)
      qed
      moreover have "scan_min m v start ?q (sz - ?q)
          = Some (Some (32 * ?q + j, ?w AND ?mask, NOT (push_bit j 1 OR (push_bit j 1 - 1)), ?q, sz - Suc ?q))"
        using word off False j(4) by (simp add: scan_min_def bv_wordbits_def Let_def mult.commute)
      moreover have "start \<le> 32 * ?q + j" using start j'(2) by linarith
      moreover have "bit (?w AND ?mask) i = bit ?w i" if "j < i" for i
        using that j' above_mask [OF r, of i] by (cases "i < 32") (auto simp: bit_and_iff dest: bit_imp_le_length)
      ultimately show ?thesis
        using s j(1) j'
        by (intro disjI2 exI3 [of _ ?q j "?w AND ?mask"]) (auto simp: on_place)
    next
      case True
      have gap: "\<not> on m v k" if k: "start \<le> k" "k < 32 * Suc ?q" for k
      proof -
        have "k div 32 = ?q" using k start by (intro div_nat_eqI) linarith+
        then have "k = 32 * ?q + k mod 32" using mult_div_mod_eq [of 32 k] by simp
        with k start have "k mod 32 = ?r \<or> ?r < k mod 32" by linarith
        moreover have "\<not> bit (?w AND ?mask) (k mod 32)" using True by simp
        ultimately show ?thesis
          using \<open>\<not> bit ?w ?r\<close> above_mask [OF r, of "k mod 32"] \<open>k div 32 = ?q\<close> by (auto simp: on_def bit_and_iff)
      qed
      have scan: "scan_min m v start ?q (sz - ?q) = do {
          (n, offset1, found) \<leftarrow> next_word id m (v + Suc ?q) (Suc ?q) (sz - Suc ?q);
          case found of None \<Rightarrow> Some None | Some v1 \<Rightarrow> do {
            (rest, bitmask1, start1) \<leftarrow> low_bit v1 1 (offset1 * 32);
            Some (Some (start1, v1, NOT bitmask1 AND NOT (bitmask1 - 1), offset1, n)) } }"
        using word off True by (simp add: scan_min_def bv_wordbits_def Let_def)
      have "v + Suc ?q + (sz - Suc ?q) \<le> length m" using b s by simp
      from find_bit [OF this, of id] show ?thesis
      proof (elim disjE exE conjE)
        fix q j assume q: "Suc ?q \<le> q" "q < Suc ?q + (sz - Suc ?q)" "j < 32" "bit (id (m ! (v + q))) j"
          "\<forall>k. 32 * Suc ?q \<le> k \<and> k < 32 * q + j \<longrightarrow> \<not> bit (id (m ! (v + k div 32))) (k mod 32)"
          "next_word id m (v + Suc ?q) (Suc ?q) (sz - Suc ?q) = Some (Suc ?q + (sz - Suc ?q) - Suc q, q, Some (id (m ! (v + q))))"
          "low_bit (id (m ! (v + q))) 1 (q * 32) = Some (drop_bit j (id (m ! (v + q))), push_bit j 1, 32 * q + j)"
        have "\<not> on m v k" if "start \<le> k" "k < 32 * q + j" for k
          using gap [OF that(1)] q(5) that(2) by (cases "k < 32 * Suc ?q") (auto simp: on_def)
        moreover have "start \<le> 32 * q + j" using q(1) start r by linarith
        moreover have "Suc ?q + (sz - Suc ?q) = sz" using s by simp
        ultimately show ?thesis
          using q scan by (intro disjI2 exI3 [of _ q j "m ! (v + q)"]) (simp add: on_place)
      next
        assume none: "\<forall>k. 32 * Suc ?q \<le> k \<and> k < 32 * (Suc ?q + (sz - Suc ?q)) \<longrightarrow> \<not> bit (id (m ! (v + k div 32))) (k mod 32)"
          "next_word id m (v + Suc ?q) (Suc ?q) (sz - Suc ?q) = Some (0, Suc ?q + (sz - Suc ?q), None)"
        have "\<not> on m v k" if "start \<le> k" "k < 32 * sz" for k
          using gap [OF that(1)] none(1) that(2) s by (cases "k < 32 * Suc ?q") (auto simp: on_def)
        with none(2) scan show ?thesis by simp
      qed
    qed
  qed
qed

text \<open>The second part ends before the first bit after that which is not set.\<close>

lemma scan_max_runs:
  assumes b: "v + sz \<le> length m" and q: "q < sz" "r < 32" "on m v (32 * q + r)"
    and w: "\<forall>i > r. bit w i = bit (m ! (v + q)) i"
  obtains hi where "scan_max m v w (NOT (push_bit r 1 OR (push_bit r 1 - 1))) q (sz - Suc q) = Some hi"
    "32 * q + r \<le> hi" "hi < 32 * sz" "\<And>k. 32 * q + r \<le> k \<Longrightarrow> k \<le> hi \<Longrightarrow> on m v k"
    "Suc hi < 32 * sz \<Longrightarrow> \<not> on m v (Suc hi)"
proof -
  let ?mask = "NOT (push_bit r 1 OR (push_bit r 1 - 1)) :: 32 word"
  let ?u = "NOT w AND ?mask"
  have u: "bit ?u i \<longleftrightarrow> r < i \<and> i < 32 \<and> \<not> bit (m ! (v + q)) i" for i
    using w above_mask [OF q(2), of i] by (auto simp: bit_and_iff bit_not_iff)
  have inside: "on m v k" if k: "32 * q + r \<le> k" "k < 32 * q + j" "j \<le> 32" "\<forall>i < j. \<not> bit ?u i" for k j
  proof -
    have "k div 32 = q" using k by (intro same_word) linarith+
    then have kk: "k = 32 * q + k mod 32" using mult_div_mod_eq [of 32 k] by simp
    have "k mod 32 = r \<or> r < k mod 32" "k mod 32 < j" using kk k by linarith+
    moreover have "on m v (32 * q + k mod 32)" if "r < k mod 32"
      using k(4) u that \<open>k mod 32 < j\<close> by (simp add: on_place)
    ultimately show ?thesis using kk q(3) by metis
  qed
  show thesis
  proof (cases "?u = 0")
    case False
    from low_bit_runs [OF this, of 1 "q * 32"] obtain j where j: "j < 32" "bit ?u j" "\<forall>i < j. \<not> bit ?u i"
      "low_bit ?u 1 (q * 32) = Some (drop_bit j ?u, push_bit j 1, q * 32 + j)" by blast
    have j': "r < j" "\<not> bit (m ! (v + q)) j" using j(2) u by auto
    have "32 * q + j < 32 * sz" using place_less [OF j(1), of 0 q sz] q(1) by simp
    then have lim: "32 * q + j - 1 < 32 * sz" by simp
    show thesis
    proof (rule that)
      show "scan_max m v w ?mask q (sz - Suc q) = Some (32 * q + j - 1)"
        using False j(4) by (simp add: scan_max_def bv_wordbits_def mult.commute)
      show "on m v k" if "32 * q + r \<le> k" "k \<le> 32 * q + j - 1" for k
        using inside [OF that(1) _ _ j(3)] that(2) j(1) j'(1) by simp
      show "\<not> on m v (Suc (32 * q + j - 1))" using j' j(1) on_place [OF j(1), of m v q] by simp
    qed (use j'(1) lim in simp_all)
  next
    case True
    have zero: "\<forall>i < 32. \<not> bit ?u i" using True by simp
    have scan: "scan_max m v w ?mask q (sz - Suc q) = do {
        (n, offset1, found) \<leftarrow> next_word (\<lambda>w. NOT w) m (v + Suc q) (Suc q) (sz - Suc q);
        (rest, bitmask, start) \<leftarrow> low_bit (case found of None \<Rightarrow> 1 | Some w \<Rightarrow> w) 1 (offset1 * 32);
        Some (start - 1) }"
      using True by (simp add: scan_max_def bv_wordbits_def)
    have sz: "Suc q + (sz - Suc q) = sz" using q(1) by simp
    have "v + Suc q + (sz - Suc q) \<le> length m" using b q(1) by simp
    from find_bit [OF this, of "\<lambda>w. NOT w"] show thesis
      unfolding sz
    proof (elim disjE exE conjE)
      fix q' j assume f: "Suc q \<le> q'" "q' < sz" "j < 32" "bit (NOT (m ! (v + q'))) j"
        "\<forall>k. 32 * Suc q \<le> k \<and> k < 32 * q' + j \<longrightarrow> \<not> bit (NOT (m ! (v + k div 32))) (k mod 32)"
        "next_word (\<lambda>w. NOT w) m (v + Suc q) (Suc q) (sz - Suc q) = Some (sz - Suc q', q', Some (NOT (m ! (v + q'))))"
        "low_bit (NOT (m ! (v + q'))) 1 (q' * 32) = Some (drop_bit j (NOT (m ! (v + q'))), push_bit j 1, 32 * q' + j)"
      have pos: "32 * q + r < 32 * q' + j" using place_less [OF q(2) f(3), of q q'] f(1) by simp
      show thesis
      proof (rule that)
        show "scan_max m v w ?mask q (sz - Suc q) = Some (32 * q' + j - 1)" using scan f(6,7) by simp
        show "32 * q + r \<le> 32 * q' + j - 1" using pos by linarith
        have "32 * q' + j < 32 * sz" using place_less [OF f(3), of 0 q' sz] f(2) by simp
        then show "32 * q' + j - 1 < 32 * sz" by simp
        show "on m v k" if k: "32 * q + r \<le> k" "k \<le> 32 * q' + j - 1" for k
        proof (cases "k < 32 * q + 32")
          case True
          with inside [OF k(1) True _ zero] show ?thesis by simp
        next
          case False
          with f(5) k pos have "\<not> bit (NOT (m ! (v + k div 32))) (k mod 32)" by auto
          then show ?thesis by (simp add: on_def bit_not_iff)
        qed
        have "Suc (32 * q' + j - 1) = 32 * q' + j" using pos by linarith
        then show "\<not> on m v (Suc (32 * q' + j - 1))" using f(4) on_place [OF f(3), of m v q'] by (simp add: bit_not_iff)
      qed
    next
      assume f: "\<forall>k. 32 * Suc q \<le> k \<and> k < 32 * sz \<longrightarrow> \<not> bit (NOT (m ! (v + k div 32))) (k mod 32)"
        "next_word (\<lambda>w. NOT w) m (v + Suc q) (Suc q) (sz - Suc q) = Some (0, sz, None)"
      have lim: "32 * q + 32 \<le> 32 * sz" using q(1) mult_le_mono2 [of "Suc q" sz 32] by simp
      show thesis
      proof (rule that)
        show "scan_max m v w ?mask q (sz - Suc q) = Some (32 * sz - 1)"
          using scan f(2) by (simp add: low_bit.simps mult.commute)
        show "32 * q + r \<le> 32 * sz - 1" "32 * sz - 1 < 32 * sz" using lim q(2) by linarith+
        show "on m v k" if k: "32 * q + r \<le> k" "k \<le> 32 * sz - 1" for k
        proof (cases "k < 32 * q + 32")
          case True
          with inside [OF k(1) True _ zero] show ?thesis by simp
        next
          case False
          with f(1) k lim have "\<not> bit (NOT (m ! (v + k div 32))) (k mod 32)" by auto
          then show ?thesis by (simp add: on_def bit_not_iff)
        qed
      qed simp
    qed
  qed
qed

section \<open>The search\<close>

lemma mask_last_same:
  assumes "bv_ok m v n" "0 < n"
  shows "mask_last m v (data_words n) (bv_bits_to_unused_mask n) = Some m"
proof -
  let ?l = "v + data_words n - 1"
  have l: "?l < length m" "v + data_words n \<noteq> 0" using assms by (auto simp: bv_ok_def)
  have "m ! ?l AND bv_bits_to_unused_mask n = m ! ?l"
  proof (rule bit_word_eqI)
    fix j assume "j < LENGTH(32)"
    then show "bit (m ! ?l AND bv_bits_to_unused_mask n) j = bit (m ! ?l) j"
      using assms(1) unused_mask_bit [of j n] by (auto simp: bv_ok_def bit_and_iff)
  qed
  with l show ?thesis by (simp add: mask_last_def peek_def poke_def)
qed

text \<open>A run of a set of bits: the first one from \<open>start\<close> on, as far as it goes.\<close>

definition next_run :: "nat set \<Rightarrow> nat \<Rightarrow> (nat \<times> nat) option \<Rightarrow> bool" where
  "next_run A start res \<longleftrightarrow>
     (case res of
        None \<Rightarrow> \<forall>k \<ge> start. k \<notin> A
      | Some (lo, hi) \<Rightarrow> start \<le> lo \<and> lo \<le> hi \<and> {lo..hi} \<subseteq> A \<and> {start..<lo} \<inter> A = {} \<and> Suc hi \<notin> A)"

lemma on_bits: "bv_ok m v n \<Longrightarrow> k < 32 * data_words n \<Longrightarrow> on m v k \<longleftrightarrow> k \<in> bits_at m v n"
proof -
  assume ok: "bv_ok m v n" and k: "k < 32 * data_words n"
  have "\<not> on m v k" if n: "n \<le> k"
  proof -
    have n': "n = 32 * (n div 32) + n mod 32" "k = 32 * (k div 32) + k mod 32" by simp_all
    have odd: "n mod 32 \<noteq> 0"
    proof
      assume "n mod 32 = 0"
      with k n'(1) have "k < n" by (simp add: data_words_eq)
      with n show False by simp
    qed
    then have dw: "data_words n = n div 32 + 1" by (simp add: data_words_eq)
    have "32 * (n div 32) \<le> k" "k < 32 * (n div 32) + 32" using n n'(1) k dw by linarith+
    then have "k div 32 = n div 32" by (rule same_word)
    with n n' have "n mod 32 \<le> k mod 32" by linarith
    with odd dw \<open>k div 32 = n div 32\<close> have q: "k div 32 = data_words n - 1" "n mod 32 \<noteq> 0" "n mod 32 \<le> k mod 32" by simp_all
    then have "0 < data_words n" using k by simp
    with ok q show ?thesis by (simp add: bv_ok_def on_def)
  qed
  then show ?thesis by (auto simp: bits_at_def on_def not_le [symmetric])
qed

lemma scan_runs:
  assumes ok: "bv_ok m v n"
  obtains res where "bv_scan m v start = Some (res, m)" "next_run (bits_at m v n) start res"
proof (cases "start < n")
  case False
  then have "bv_scan m v start = Some (None, m)" using bv_reads [OF ok] by (simp add: bv_scan_def)
  moreover have "next_run (bits_at m v n) start None" using False by (auto simp: next_run_def dest: bits_at_less)
  ultimately show thesis by (rule that)
next
  case True
  let ?sz = "data_words n" and ?A = "bits_at m v n"
  have s: "start div 32 < ?sz" "v + ?sz \<le> length m" using data_words_index [OF True] bv_ok_place [OF ok] by simp_all
  have on: "on m v k \<longleftrightarrow> k \<in> ?A" if "k < 32 * ?sz" for k using on_bits [OF ok that] .
  have beyond: "k \<notin> ?A" if "\<not> k < 32 * ?sz" for k
  proof
    assume "k \<in> ?A"
    then have "k div 32 < ?sz" by (intro data_words_index) (rule bits_at_less)
    with that show False by (simp add: div_less_iff_less_mult mult.commute)
  qed
  have run: "bv_scan m v start = do {
      x \<leftarrow> scan_min m v start (start div 32) (?sz - start div 32);
      (case x of None \<Rightarrow> Some (None, m)
       | Some (lo, w, msk, offset1, k) \<Rightarrow> do { hi \<leftarrow> scan_max m v w msk offset1 k; Some (Some (lo, hi), m) }) }"
    using bv_reads [OF ok] mask_last_same [OF ok] True s(1) by (simp add: bv_scan_def bv_wordbits_def Let_def)
  from scan_min_runs [OF s(2,1)] show thesis
  proof (elim disjE exE conjE)
    assume none: "\<forall>k. start \<le> k \<and> k < 32 * ?sz \<longrightarrow> \<not> on m v k"
      "scan_min m v start (start div 32) (?sz - start div 32) = Some None"
    have "k \<notin> ?A" if "start \<le> k" for k using none(1) that on beyond by metis
    with run none(2) show thesis by (intro that [of None]) (simp_all add: next_run_def)
  next
    fix q r w assume lo: "start \<le> 32 * q + r" "q < ?sz" "r < 32" "on m v (32 * q + r)"
      "\<forall>k. start \<le> k \<and> k < 32 * q + r \<longrightarrow> \<not> on m v k" "\<forall>i > r. bit w i = bit (m ! (v + q)) i"
      "scan_min m v start (start div 32) (?sz - start div 32)
         = Some (Some (32 * q + r, w, NOT (push_bit r 1 OR (push_bit r 1 - 1)), q, ?sz - Suc q))"
    from scan_max_runs [OF s(2) lo(2-4,6)] obtain hi where
      hi: "scan_max m v w (NOT (push_bit r 1 OR (push_bit r 1 - 1))) q (?sz - Suc q) = Some hi"
      "32 * q + r \<le> hi" "hi < 32 * ?sz" "\<And>k. 32 * q + r \<le> k \<Longrightarrow> k \<le> hi \<Longrightarrow> on m v k"
      "Suc hi < 32 * ?sz \<Longrightarrow> \<not> on m v (Suc hi)" by blast
    have "bv_scan m v start = Some (Some (32 * q + r, hi), m)" unfolding run lo(7) using hi(1) by simp
    moreover have "next_run ?A start (Some (32 * q + r, hi))"
      unfolding next_run_def option.case prod.case
    proof (intro conjI lo(1) hi(2))
      show "{32 * q + r..hi} \<subseteq> ?A"
      proof
        fix k assume "k \<in> {32 * q + r..hi}"
        then show "k \<in> ?A" using hi(3) hi(4) [of k] on [of k] by simp
      qed
      show "{start..<32 * q + r} \<inter> ?A = {}"
      proof (rule equals0I)
        fix k assume k: "k \<in> {start..<32 * q + r} \<inter> ?A"
        then have "\<not> on m v k" using lo(5) by simp
        with k hi(2,3) on [of k] show False by simp
      qed
      show "Suc hi \<notin> ?A" using hi(5) on beyond by metis
    qed
    ultimately show thesis by (rule that)
  qed
qed

section \<open>Counting\<close>

text \<open>The runs from one bit to the end, as the loops of \<open>bv_count\<close> and its like go through them.\<close>

lemma next_run_split:
  assumes "next_run A start (Some (lo, hi))"
  shows "A \<inter> {start..} = {lo..hi} \<union> A \<inter> {hi + 2..}"
proof -
  have a: "start \<le> lo" "lo \<le> hi" "{lo..hi} \<subseteq> A" "{start..<lo} \<inter> A = {}" "Suc hi \<notin> A"
    using assms by (simp_all add: next_run_def)
  have parts: "k \<in> {lo..hi} \<or> hi + 2 \<le> k" if k: "k \<in> A" "start \<le> k" for k
  proof -
    have "lo \<le> k"
    proof (rule ccontr)
      assume "\<not> lo \<le> k"
      then have "k \<in> {start..<lo} \<inter> A" using k by simp
      with a(4) show False by simp
    qed
    moreover have "k \<noteq> Suc hi" using a(5) k(1) by metis
    ultimately show ?thesis by (simp add: not_le) arith
  qed
  show ?thesis
  proof (intro equalityI subsetI)
    fix k assume "k \<in> A \<inter> {start..}"
    with parts [of k] show "k \<in> {lo..hi} \<union> A \<inter> {hi + 2..}" by auto
  next
    fix k assume "k \<in> {lo..hi} \<union> A \<inter> {hi + 2..}"
    with a(1-3) show "k \<in> A \<inter> {start..}" by auto
  qed
qed

lemma each_append: "each body (xs @ ys) s = do { s1 \<leftarrow> each body xs s; each body ys s1 }"
proof (induction xs arbitrary: s)
  case (Cons a xs)
  then show ?case by (cases "body a s") simp_all
qed simp

lemma sorted_runs:
  assumes "next_run A start (Some (lo, hi))" "finite A"
  shows "sorted_list_of_set (A \<inter> {start..}) = [lo..<Suc hi] @ sorted_list_of_set (A \<inter> {hi + 2..})"
proof (rule sorted_distinct_set_unique)
  show "sorted (sorted_list_of_set (A \<inter> {start..}))" "distinct (sorted_list_of_set (A \<inter> {start..}))" by simp_all
  have below: "\<forall>x \<in> set [lo..<Suc hi]. \<forall>y \<in> A \<inter> {hi + 2..}. x < y" by auto
  then show "sorted ([lo..<Suc hi] @ sorted_list_of_set (A \<inter> {hi + 2..}))"
    using assms(2) by (auto simp: sorted_append simp del: upt_Suc)
  show "distinct ([lo..<Suc hi] @ sorted_list_of_set (A \<inter> {hi + 2..}))"
    using assms(2) below by (auto simp del: upt_Suc)
  have "lo \<le> hi" using assms(1) by (simp add: next_run_def)
  then have "set [lo..<Suc hi] = {lo..hi}" by auto
  then show "set (sorted_list_of_set (A \<inter> {start..})) = set ([lo..<Suc hi] @ sorted_list_of_set (A \<inter> {hi + 2..}))"
    using next_run_split [OF assms(1)] assms(2) by (simp del: upt_Suc)
qed

lemma no_run: "next_run A start None \<Longrightarrow> A \<inter> {start..} = {}"
  by (auto simp: next_run_def)

text \<open>The loops go through the bits in order.\<close>

lemma scan_loop_runs:
  assumes "bv_ok m v n"
  shows "scan_loop body m v start s
    = map_option (\<lambda>s. (s, m)) (each body (sorted_list_of_set (bits_at m v n \<inter> {start..})) s)"
proof (induction "n - start" arbitrary: start s rule: less_induct)
  case less
  obtain res where res: "bv_scan m v start = Some (res, m)" "next_run (bits_at m v n) start res"
    using scan_runs [OF assms] .
  show ?case
  proof (cases res)
    case None
    with res show ?thesis by (subst scan_loop.simps) (simp add: no_run)
  next
    case (Some p)
    then obtain lo hi where r: "res = Some (lo, hi)" by (cases p) auto
    with res(2) have "start \<le> hi" "hi \<in> bits_at m v n" by (auto simp: next_run_def)
    then have "n - (hi + 2) < n - start" using bits_at_less by fastforce
    from less [OF this] res r show ?thesis
      by (subst scan_loop.simps; cases "each body [lo..<Suc hi] s") (simp_all add: sorted_runs each_append del: upt_Suc)
  qed
qed

lemma count_from_runs:
  assumes "bv_ok m v n"
  shows "bv_count_from m v start c = Some (c + card (bits_at m v n \<inter> {start..}), m)"
proof (induction "n - start" arbitrary: start c rule: less_induct)
  case less
  obtain res where res: "bv_scan m v start = Some (res, m)" "next_run (bits_at m v n) start res"
    using scan_runs [OF assms] .
  show ?case
  proof (cases res)
    case None
    with res show ?thesis by (subst bv_count_from.simps) (simp add: no_run)
  next
    case (Some p)
    then obtain lo hi where r: "res = Some (lo, hi)" by (cases p) auto
    with res(2) have "start \<le> hi" "hi \<in> bits_at m v n" "lo \<le> hi" by (auto simp: next_run_def)
    then have "n - (hi + 2) < n - start" using bits_at_less by fastforce
    from less [OF this] res r have "bv_count_from m v start c
        = Some (c + (hi - lo + 1) + card (bits_at m v n \<inter> {hi + 2..}), m)"
      by (subst bv_count_from.simps) simp
    moreover have "card ({lo..hi} \<union> bits_at m v n \<inter> {hi + 2..}) = card {lo..hi} + card (bits_at m v n \<inter> {hi + 2..})"
      by (rule card_Un_disjoint) auto
    ultimately show ?thesis using next_run_split [of "bits_at m v n" start lo hi] res(2) r \<open>lo \<le> hi\<close> by simp
  qed
qed

end
