(* ===== verification/ClosureLoop.thy ===== *)
theory ClosureLoop
  imports RuleIndex ScanProps
begin

text \<open>
  What \<open>rhs_closure\<close> computes: the least set of symbols that holds the given ones and is closed under
  the rules with a right hand side. The invariant of the work list: a rule that could add its left hand
  side needs a symbol that is still on the stack. Each turn takes a symbol off the stack or adds one
  to the set, so that the loop ends, and the stack never holds a symbol twice, so that it is large enough.
\<close>

section \<open>The closure of a set of symbols\<close>

text \<open>The symbols that a rule needs: its right hand side and, where two items are needed, the separator.\<close>

definition needs :: "'a marpa_xrl_scheme \<Rightarrow> nat set" where
  "needs r = set (RHS_IDs_of_XRL r)
     \<union> (if t_is_sequence r \<and> 2 \<le> t_minimum r \<and> 0 \<le> t_separator_id r then {nat (t_separator_id r)} else {})"

lemma needs_some: "RHS_IDs_of_XRL r \<noteq> [] \<Longrightarrow> needs r \<subseteq> B \<Longrightarrow> needs r \<inter> B \<noteq> {}"
  by (cases "RHS_IDs_of_XRL r") (auto simp: needs_def)

inductive_set rhs_closed :: "'a marpa_xrl_scheme list \<Rightarrow> nat set \<Rightarrow> nat set" for rules A where
  base: "x \<in> A \<Longrightarrow> x \<in> rhs_closed rules A"
| step: "r \<in> set rules \<Longrightarrow> RHS_IDs_of_XRL r \<noteq> [] \<Longrightarrow> (\<And>x. x \<in> needs r \<Longrightarrow> x \<in> rhs_closed rules A)
    \<Longrightarrow> LHS_ID_of_XRL r \<in> rhs_closed rules A"

text \<open>The symbols that the rules mention exist.\<close>

definition symbols_ok :: "nat \<Rightarrow> 'a marpa_xrl_scheme list \<Rightarrow> bool" where
  "symbols_ok n rules \<longleftrightarrow> (\<forall>r \<in> set rules. LHS_ID_of_XRL r < n \<and> (\<forall>x \<in> set (RHS_IDs_of_XRL r). x < n)
     \<and> t_separator_id r < int n)"

lemma needs_less: "symbols_ok n rules \<Longrightarrow> r \<in> set rules \<Longrightarrow> x \<in> needs r \<Longrightarrow> x < n"
  by (auto simp: symbols_ok_def needs_def split: if_split_asm)

text \<open>The lists name every rule that needs a symbol.\<close>

definition index_ok :: "'a marpa_xrl_scheme list \<Rightarrow> nat \<Rightarrow> nat list \<Rightarrow> nat list \<Rightarrow> bool" where
  "index_ok rules n xrl_list rule_data \<longleftrightarrow>
     (\<forall>x < n. \<exists>ids. listed xrl_list rule_data x = Some ids \<and> (\<forall>i \<in> set ids. i < length rules \<and> RHS_IDs_of_XRL (rules ! i) \<noteq> [])
        \<and> (\<forall>i < length rules. x \<in> needs (rules ! i) \<longrightarrow> i \<in> set ids))"

section \<open>One rule\<close>

lemma all_set_runs:
  "bv_ok m v n \<Longrightarrow> \<forall>x \<in> set xs. x < n \<Longrightarrow> all_set m v xs = Some (set xs \<subseteq> bits_at m v n)"
  by (induction xs) (auto simp: bit_test_runs)

lemma separator_runs:
  "bv_ok m v n \<Longrightarrow> t_separator_id r < int n \<Longrightarrow>
     separator_set m v r = Some (t_is_sequence r \<and> 2 \<le> t_minimum r \<and> 0 \<le> t_separator_id r
       \<longrightarrow> nat (t_separator_id r) \<in> bits_at m v n)"
  by (auto simp: separator_set_def bit_test_runs)

text \<open>
  The state of the work list: \<open>B\<close> the set, \<open>st\<close> the stack, and the rules \<open>R\<close> whose turn is still to come
  whatever the stack holds.
\<close>

definition work_ok :: "nat \<Rightarrow> 'a marpa_xrl_scheme list \<Rightarrow> nat set \<Rightarrow> nat set \<Rightarrow> nat list \<Rightarrow> nat set \<Rightarrow> bool" where
  "work_ok n rules A B st R \<longleftrightarrow> A \<subseteq> B \<and> B \<subseteq> rhs_closed rules A \<and> B \<subseteq> {..<n} \<and> set st \<subseteq> B \<and> distinct st
     \<and> (\<forall>i < length rules. RHS_IDs_of_XRL (rules ! i) \<noteq> [] \<and> needs (rules ! i) \<subseteq> B \<and> LHS_ID_of_XRL (rules ! i) \<notin> B
          \<longrightarrow> needs (rules ! i) \<inter> set st \<noteq> {} \<or> i \<in> R)"

definition work_left :: "nat \<Rightarrow> nat set \<Rightarrow> nat list \<Rightarrow> nat" where
  "work_left n B st = 2 * (n - card B) + length st"

lemma distinct_small: "distinct st \<Longrightarrow> set st \<subseteq> {..<n} \<Longrightarrow> length st \<le> n"
  using card_mono [of "{..<n}" "set st"] by (simp add: distinct_card)

lemma rule_runs:
  assumes g: "length (t_xsys g) = n" "symbols_ok n (t_xrls g)" and ok: "bv_ok m v n"
    and W: "work_ok n (t_xrls g) A (bits_at m v n) st (insert i R)" and i: "i < length (t_xrls g)"
    and ne: "RHS_IDs_of_XRL (t_xrls g ! i) \<noteq> []"
  obtains m' st' where "closure_rule g v i m st = Some (m', st')" "only_data v n m m'" "bv_ok m' v n"
    "work_ok n (t_xrls g) A (bits_at m' v n) st' R" "work_left n (bits_at m' v n) st' \<le> work_left n (bits_at m v n) st"
proof -
  let ?r = "t_xrls g ! i" and ?B = "bits_at m v n"
  have r: "?r \<in> set (t_xrls g)" using i by simp
  have lhs: "LHS_ID_of_XRL ?r < n" and rhs: "\<forall>x \<in> set (RHS_IDs_of_XRL ?r). x < n" and sep: "t_separator_id ?r < int n"
    using g(2) r by (auto simp: symbols_ok_def)
  have same: "only_data v n m m" by (simp add: only_data_def)
  have run: "closure_rule g v i m st = (if LHS_ID_of_XRL ?r \<in> ?B \<or> \<not> needs ?r \<subseteq> ?B then Some (m, st)
      else do { m1 \<leftarrow> bv_bit_set m v (LHS_ID_of_XRL ?r); st1 \<leftarrow> fstack_push n (LHS_ID_of_XRL ?r) st; Some (m1, st1) })"
    using i bit_test_runs [OF ok lhs] all_set_runs [OF ok rhs] separator_runs [OF ok sep] g(1)
    by (auto simp: closure_rule_def needs_def Let_def split: if_splits)
  show thesis
  proof (cases "LHS_ID_of_XRL ?r \<in> ?B \<or> \<not> needs ?r \<subseteq> ?B")
    case True
    with W have "work_ok n (t_xrls g) A ?B st R" by (auto simp: work_ok_def)
    with True run ok same that show thesis by simp
  next
    case False
    let ?y = "LHS_ID_of_XRL ?r"
    from bit_set_runs [OF ok lhs] obtain m' where m': "bv_bit_set m v ?y = Some m'" "only_data v n m m'" "bv_ok m' v n"
      "bits_at m' v n = insert ?y ?B" .
    have st: "?y \<notin> set st" "distinct (?y # st)" "set (?y # st) \<subseteq> {..<n}"
      using W False lhs by (auto simp: work_ok_def)
    then have "length st < n" using distinct_small [of "?y # st" n] by simp
    then have "closure_rule g v i m st = Some (m', ?y # st)" using run False m'(1) by (simp add: fstack_push_def)
    moreover have "?y \<in> rhs_closed (t_xrls g) A"
      using W False by (intro rhs_closed.step r ne) (auto simp: work_ok_def)
    then have "work_ok n (t_xrls g) A (insert ?y ?B) (?y # st) R"
      using W False st lhs unfolding work_ok_def by (auto 4 3)
    moreover have "card (insert ?y ?B) = Suc (card ?B)" using False by simp
    moreover have "card (insert ?y ?B) \<le> n"
      using W lhs card_mono [of "{..<n}" "insert ?y ?B"] by (auto simp: work_ok_def)
    ultimately show thesis using m' that by (simp add: work_left_def)
  qed
qed

lemma rules_run:
  assumes g: "length (t_xsys g) = n" "symbols_ok n (t_xrls g)"
  shows "bv_ok m v n \<Longrightarrow> work_ok n (t_xrls g) A (bits_at m v n) st (set ids)
    \<Longrightarrow> \<forall>i \<in> set ids. i < length (t_xrls g) \<and> RHS_IDs_of_XRL (t_xrls g ! i) \<noteq> []
    \<Longrightarrow> \<exists>m' st'. closure_rules g v ids m st = Some (m', st') \<and> only_data v n m m' \<and> bv_ok m' v n
      \<and> work_ok n (t_xrls g) A (bits_at m' v n) st' {} \<and> work_left n (bits_at m' v n) st' \<le> work_left n (bits_at m v n) st"
proof (induction ids arbitrary: m st)
  case Nil
  then show ?case by (simp add: only_data_def)
next
  case (Cons i ids)
  have "work_ok n (t_xrls g) A (bits_at m v n) st (insert i (set ids))" "i < length (t_xrls g)" "RHS_IDs_of_XRL (t_xrls g ! i) \<noteq> []"
    using Cons.prems by simp_all
  from rule_runs [OF g Cons.prems(1) this] obtain m1 st1 where
    1: "closure_rule g v i m st = Some (m1, st1)" "only_data v n m m1" "bv_ok m1 v n"
    "work_ok n (t_xrls g) A (bits_at m1 v n) st1 (set ids)" "work_left n (bits_at m1 v n) st1 \<le> work_left n (bits_at m v n) st" .
  have "\<forall>i \<in> set ids. i < length (t_xrls g) \<and> RHS_IDs_of_XRL (t_xrls g ! i) \<noteq> []" using Cons.prems(3) by simp
  from Cons.IH [OF 1(3,4) this] obtain m2 st2 where
    2: "closure_rules g v ids m1 st1 = Some (m2, st2)" "only_data v n m1 m2" "bv_ok m2 v n"
    "work_ok n (t_xrls g) A (bits_at m2 v n) st2 {}" "work_left n (bits_at m2 v n) st2 \<le> work_left n (bits_at m1 v n) st1" by blast
  have "only_data v n m m2" using 1(2) 2(2) by (simp add: only_data_def)
  with 1(1,5) 2 show ?case by (intro exI [of _ m2] exI [of _ st2]) simp
qed

section \<open>The loop\<close>

lemma loop_runs:
  assumes g: "length (t_xsys g) = n" "symbols_ok n (t_xrls g)" and ix: "index_ok (t_xrls g) n xrl_list rule_data"
  shows "bv_ok m v n \<Longrightarrow> work_ok n (t_xrls g) A (bits_at m v n) st {} \<Longrightarrow>
    \<exists>m'. closure_loop g v xrl_list rule_data m st = Some m' \<and> only_data v n m m' \<and> bv_ok m' v n
      \<and> work_ok n (t_xrls g) A (bits_at m' v n) [] {}"
proof (induction "work_left n (bits_at m v n) st" arbitrary: m st rule: less_induct)
  case less
  show ?case
  proof (cases st)
    case Nil
    with less.prems show ?thesis by (subst closure_loop.simps) (simp add: only_data_def)
  next
    case (Cons x st1)
    then have x: "x < n" "x \<notin> set st1" using less.prems(2) by (auto simp: work_ok_def)
    from ix x(1) obtain ids where ids: "listed xrl_list rule_data x = Some ids"
      "\<forall>i \<in> set ids. i < length (t_xrls g) \<and> RHS_IDs_of_XRL (t_xrls g ! i) \<noteq> []"
      "\<forall>i < length (t_xrls g). x \<in> needs (t_xrls g ! i) \<longrightarrow> i \<in> set ids" by (auto simp: index_ok_def)
    have "work_ok n (t_xrls g) A (bits_at m v n) st1 (set ids)"
      using less.prems(2) ids(3) unfolding work_ok_def Cons by auto
    from rules_run [OF g less.prems(1) this ids(2)] obtain m1 st2 where
      1: "closure_rules g v ids m st1 = Some (m1, st2)" "only_data v n m m1" "bv_ok m1 v n"
      "work_ok n (t_xrls g) A (bits_at m1 v n) st2 {}" "work_left n (bits_at m1 v n) st2 \<le> work_left n (bits_at m v n) st1" by blast
    have "work_left n (bits_at m1 v n) st2 < work_left n (bits_at m v n) st" using 1(5) Cons by (simp add: work_left_def)
    from less.hyps [OF this 1(3,4)] obtain m2 where
      2: "closure_loop g v xrl_list rule_data m1 st2 = Some m2" "only_data v n m1 m2" "bv_ok m2 v n"
      "work_ok n (t_xrls g) A (bits_at m2 v n) [] {}" by blast
    have "only_data v n m m2" using 1(2) 2(2) by (simp add: only_data_def)
    with 1(1) 2 ids(1) Cons show ?thesis by (subst closure_loop.simps) simp
  qed
qed

text \<open>At the end nothing is left to add.\<close>

lemma work_done:
  assumes "work_ok n rules A B [] {}"
  shows "B = rhs_closed rules A"
proof
  show "B \<subseteq> rhs_closed rules A" using assms by (simp add: work_ok_def)
  have "x \<in> rhs_closed rules A \<Longrightarrow> x \<in> B" for x
  proof (induction rule: rhs_closed.induct)
    case (base x)
    with assms show ?case by (auto simp: work_ok_def)
  next
    case (step r)
    from step.hyps(1) obtain i where "i < length rules" "rules ! i = r" by (auto simp: in_set_conv_nth)
    moreover have "needs r \<subseteq> B" using step.IH by blast
    ultimately show ?case using assms step.hyps(2) unfolding work_ok_def by (metis empty_iff inf_bot_right list.set(1))
  qed
  then show "rhs_closed rules A \<subseteq> B" by blast
qed

lemma push_all:
  "length st + length xs \<le> k \<Longrightarrow> each (fstack_push k) xs st = Some (rev xs @ st)"
  by (induction xs arbitrary: st) (simp_all add: fstack_push_def)

lemma rhs_closure_runs:
  assumes "length (t_xsys g) = n" "symbols_ok n (t_xrls g)" "index_ok (t_xrls g) n xrl_list rule_data" "bv_ok m v n"
  shows "\<exists>m'. rhs_closure g v xrl_list rule_data m = Some m' \<and> only_data v n m m' \<and> bv_ok m' v n
    \<and> bits_at m' v n = rhs_closed (t_xrls g) (bits_at m v n)"
proof -
  let ?B = "bits_at m v n"
  let ?xs = "sorted_list_of_set ?B"
  have B: "?B \<subseteq> {..<n}" by (auto dest: bits_at_less)
  have "length ?xs \<le> n" using card_mono [OF _ B] by simp
  then have "scan_loop (fstack_push n) m v 0 [] = Some (rev ?xs, m)"
    by (simp add: scan_loop_runs [OF assms(4)] push_all)
  moreover have "work_ok n (t_xrls g) ?B ?B (rev ?xs) {}"
    using B needs_some by (auto simp: work_ok_def intro: rhs_closed.base)
  from loop_runs [OF assms(1-4) this] obtain m' where m':
    "closure_loop g v xrl_list rule_data m (rev ?xs) = Some m'" "only_data v n m m'" "bv_ok m' v n"
    "work_ok n (t_xrls g) ?B (bits_at m' v n) [] {}" by blast
  moreover have "bits_at m' v n = rhs_closed (t_xrls g) ?B" using m'(4) by (rule work_done)
  ultimately show ?thesis using assms(1) m'(1-3) by (simp add: rhs_closure_def)
qed

text \<open>C37: \<open>rhs_closure\<close> always returns, and adds to the set of symbols in the vector exactly those that the
  rules derive from it; nothing else in the memory changes.\<close>

theorem rhs_closure_least:
  assumes "length (t_xsys g) = n" "symbols_ok n (t_xrls g)" "index_ok (t_xrls g) n xrl_list rule_data" "bv_ok m v n"
  shows "\<exists>m'. rhs_closure g v xrl_list rule_data m = Some m' \<and> only_data v n m m' \<and> bv_ok m' v n
    \<and> bits_at m' v n = rhs_closed (t_xrls g) (bits_at m v n)"
  using assms by (rule rhs_closure_runs)

text \<open>Three symbols, with the rules \<open>0 ::= 1 1\<close> and \<open>1 ::= 2\<close>.\<close>

definition demo_chain :: marpa_g where
  "demo_chain = (let g = the (new_grammar False) in
     rule_new (rule_new (g\<lparr>t_xsys := [symbol_new g, symbol_new g, symbol_new g]\<rparr>) 0 [1, 1]) 1 [2])"

lemma demo_chain_rules:
  "length (t_xsys demo_chain) = 3" "length (t_xrls demo_chain) = 2" "symbols_ok 3 (t_xrls demo_chain)"
  "RHS_IDs_of_XRL (t_xrls demo_chain ! 0) = [1, 1]" "RHS_IDs_of_XRL (t_xrls demo_chain ! 1) = [2]"
  "needs (t_xrls demo_chain ! 0) = {1}" "needs (t_xrls demo_chain ! 1) = {2}"
  by code_simp+

lemma demo_chain_index: "index_ok (t_xrls demo_chain) 3 [0, 0, 1, 2] [0, 1]"
proof -
  have l: "listed [0, 0, 1, 2] [0, 1] x = Some (if x = 0 then [] else [x - 1])" if "x < 3" for x
  proof -
    from that consider "x = 0" | "x = 1" | "x = 2" by linarith
    then show ?thesis by cases (simp_all add: listed_def numeral_eq_Suc)
  qed
  have n: "x \<in> needs (t_xrls demo_chain ! i) \<longleftrightarrow> x = Suc i" "RHS_IDs_of_XRL (t_xrls demo_chain ! i) \<noteq> []" if "i < 2" for i x
    using that demo_chain_rules(4-7) by (auto simp: less_2_cases_iff)
  show ?thesis unfolding index_ok_def demo_chain_rules(2)
  proof (intro allI impI)
    fix x :: nat assume x: "x < 3"
    show "\<exists>ids. listed [0, 0, 1, 2] [0, 1] x = Some ids
        \<and> (\<forall>i \<in> set ids. i < 2 \<and> RHS_IDs_of_XRL (t_xrls demo_chain ! i) \<noteq> [])
        \<and> (\<forall>i < 2. x \<in> needs (t_xrls demo_chain ! i) \<longrightarrow> i \<in> set ids)"
      by (rule exI [of _ "if x = 0 then [] else [x - 1]"]) (use x l [OF x] n in auto)
  qed
qed

lemma demo_vector_ok: "bv_ok [3, 1, 7, 4] 3 3"
  using small_word [of 4 3]
  by (simp add: bv_ok_def data_words_def bv_bits_to_unused_mask_def bv_wordbits_def mask_eq_exp_minus_1)

theorem rhs_closure_least_witness:
  "\<exists>m'. rhs_closure demo_chain 3 [0, 0, 1, 2] [0, 1] [3, 1, 7, 4] = Some m' \<and> only_data 3 3 [3, 1, 7, 4] m' \<and> bv_ok m' 3 3
    \<and> bits_at m' 3 3 = rhs_closed (t_xrls demo_chain) (bits_at [3, 1, 7, 4] 3 3)"
  by (rule rhs_closure_least [OF demo_chain_rules(1,3) demo_chain_index demo_vector_ok])

end
