(* ===== verification/BitLayout.thy ===== *)
theory BitLayout
  imports ScanProps ClosureProps
begin

text \<open>
  Several bit vectors of the same length in one memory, each a set: creation makes a new one that is apart
  from all others, and an operation changes the vectors it writes to. A square matrix is its rows.
\<close>

section \<open>Vectors\<close>

definition vec :: "words \<Rightarrow> nat \<Rightarrow> nat \<Rightarrow> nat set \<Rightarrow> bool" where
  "vec m n v A \<longleftrightarrow> bv_ok m v n \<and> bits_at m v n = A"

definition apart :: "nat \<Rightarrow> nat \<Rightarrow> nat \<Rightarrow> bool" where
  "apart n v w \<longleftrightarrow> v + data_words n + 3 \<le> w \<or> w + data_words n + 3 \<le> v"

lemma apart_sym: "apart n v w \<longleftrightarrow> apart n w v"
  by (auto simp: apart_def)

lemma apart_misses: "apart n v w \<Longrightarrow> misses v n w n"
  by (auto simp: apart_def misses_def)

lemma apart_same: "apart n v w \<Longrightarrow> apart_or_same n v w"
  by (auto simp: apart_def apart_or_same_def)

lemma vec_less: "vec m n v A \<Longrightarrow> A \<subseteq> {..<n}"
  by (auto simp: vec_def dest: bits_at_less)

lemma vec_finite: "vec m n v A \<Longrightarrow> finite A"
  by (auto simp: vec_def)

lemma vec_place: "vec m n v A \<Longrightarrow> v + data_words n \<le> length m \<and> 3 \<le> v"
  by (auto simp: vec_def bv_ok_def)

lemma vec_unique: "vec m n v A \<Longrightarrow> vec m n v B \<Longrightarrow> A = B"
  by (simp add: vec_def)

text \<open>Only the vectors \<open>W\<close> may have changed.\<close>

definition frame :: "nat \<Rightarrow> nat set \<Rightarrow> words \<Rightarrow> words \<Rightarrow> bool" where
  "frame n W m m' \<longleftrightarrow> length m \<le> length m' \<and> (\<forall>w A. (\<forall>v \<in> W. apart n v w) \<longrightarrow> vec m n w A \<longrightarrow> vec m' n w A)"

lemma frame_refl [simp]: "frame n W m m"
  by (simp add: frame_def)

lemma frame_vec: "frame n W m m' \<Longrightarrow> vec m n w A \<Longrightarrow> \<forall>v \<in> W. apart n v w \<Longrightarrow> vec m' n w A"
  by (simp add: frame_def)

lemma frame_mono: "frame n W m m' \<Longrightarrow> W \<subseteq> V \<Longrightarrow> frame n V m m'"
  by (auto simp: frame_def)

lemma frame_trans: "frame n W m m1 \<Longrightarrow> frame n W m1 m2 \<Longrightarrow> frame n W m m2"
  by (auto simp: frame_def)

lemma frame_join: "frame n W m m1 \<Longrightarrow> frame n V m1 m2 \<Longrightarrow> frame n (W \<union> V) m m2"
  by (auto simp: frame_def)

lemma frame_data: "only_data v n m m' \<Longrightarrow> frame n {v} m m'"
  using missed [of v n m m'] apart_misses [of n v] by (auto simp: frame_def vec_def only_data_def)

text \<open>A vector that was created after \<open>m\<close> is apart from those in \<open>m\<close>.\<close>

lemma new_apart: "length m + 3 \<le> v \<Longrightarrow> vec m n w A \<Longrightarrow> apart n v w"
  using vec_place [of m n w A] by (simp add: apart_def)

lemma frame_new: "frame n W m m' \<Longrightarrow> \<forall>v \<in> W. length m + 3 \<le> v \<Longrightarrow> frame n {} m m'"
  unfolding frame_def using new_apart by blast

section \<open>Creation\<close>

lemma fresh_words: "n < 2 ^ 31 \<Longrightarrow> bv_ok (m @ [word_of_nat n, word_of_nat (data_words n), bv_bits_to_unused_mask n]
     @ replicate (data_words n) 0 @ m2) (length m + 3) n"
  by (auto simp: bv_ok_def nth_append data_words_def)

lemma frame_append: "frame n {} m (m @ xs)"
proof -
  have "vec (m @ xs) n w A" if w: "vec m n w A" for w A
  proof -
    have same: "(m @ xs) ! i = m ! i" if "i < w + data_words n" for i
      using that vec_place [OF w] by (simp add: nth_append)
    have "bv_ok (m @ xs) w n" using w same unfolding vec_def bv_ok_def by auto
    moreover have "bits_at (m @ xs) w n = bits_at m w n"
      unfolding bits_at_def using same data_words_index by (intro Collect_cong) auto
    ultimately show ?thesis using w by (simp add: vec_def)
  qed
  then show ?thesis by (simp add: frame_def)
qed

lemma create_vec:
  assumes n: "n < 2 ^ 31" and run: "bv_create m n = (v, m')"
  shows "vec m' n v {}" "frame n {} m m'" "v = length m + 3"
proof -
  have eq: "v = length m + 3" "m' = m @ [word_of_nat n, word_of_nat (data_words n), bv_bits_to_unused_mask n] @ replicate (data_words n) 0"
    using run by (auto simp: bv_create_def bits_to_size [OF n] bv_hiddenwords_def Let_def)
  show "v = length m + 3" by (rule eq(1))
  have "bv_ok m' v n" using fresh_words [OF n, of m "[]"] eq by simp
  moreover have "bits_at m' v n = {}" using eq data_words_index by (auto simp: bits_at_def nth_append)
  ultimately show "vec m' n v {}" by (simp add: vec_def)
  show "frame n {} m m'" unfolding eq(2) by (rule frame_append)
qed

lemma shadow_vec:
  assumes "vec m n w A" "n < 2 ^ 31"
  obtains v m' where "bv_shadow m w = Some (v, m')" "vec m' n v {}" "frame n {} m m'" "v = length m + 3"
proof -
  obtain v m' where c: "bv_create m n = (v, m')" by (cases "bv_create m n")
  have "bv_shadow m w = Some (v, m')" using assms(1) bv_reads [of m w n] c by (simp add: bv_shadow_def vec_def)
  with create_vec [OF assms(2) c] that show thesis by blast
qed

section \<open>Operations\<close>

lemma vec_small: "vec m n v A \<Longrightarrow> n < 2 ^ 31"
  by (simp add: vec_def bv_ok_def)

lemma set_vec:
  assumes "vec m n v A" "i < n"
  obtains m' where "bv_bit_set m v i = Some m'" "vec m' n v (insert i A)" "frame n {v} m m'"
proof -
  have ok: "bv_ok m v n" "bits_at m v n = A" using assms(1) by (simp_all add: vec_def)
  from bit_set_runs [OF ok(1) assms(2)] obtain m' where
    "bv_bit_set m v i = Some m'" "only_data v n m m'" "bv_ok m' v n" "bits_at m' v n = insert i (bits_at m v n)" .
  with ok that frame_data [of v n m m'] show thesis by (simp add: vec_def)
qed

lemma clear_vec:
  assumes "vec m n v A" "i < n"
  obtains m' where "bv_bit_clear m v i = Some m'" "vec m' n v (A - {i})" "frame n {v} m m'"
proof -
  have ok: "bv_ok m v n" "bits_at m v n = A" using assms(1) by (simp_all add: vec_def)
  from bit_clear_runs [OF ok(1) assms(2)] obtain m' where
    "bv_bit_clear m v i = Some m'" "only_data v n m m'" "bv_ok m' v n" "bits_at m' v n = bits_at m v n - {i}" .
  with ok that frame_data [of v n m m'] show thesis by (simp add: vec_def)
qed

lemma test_vec: "vec m n v A \<Longrightarrow> i < n \<Longrightarrow> bv_bit_test m v i = Some (i \<in> A)"
  by (auto simp: vec_def bit_test_runs)

lemma combine_vec:
  assumes x: "vec m n x X" and y: "vec m n y A" "apart_or_same n x y" and z: "vec m n z B" "apart_or_same n x z"
    and F: "\<And>a b k. k < 32 \<Longrightarrow> bit (f a b) k \<longleftrightarrow> F (bit a k) (bit b k)"
  obtains m' where "bv_combine f m x y z = Some m'" "vec m' n x {i. i < n \<and> F (i \<in> A) (i \<in> B)}" "frame n {x} m m'"
proof -
  have ok: "bv_ok m x n" "bv_ok m y n" "bv_ok m z n" and bits: "bits_at m y n = A" "bits_at m z n = B"
    using x y z by (simp_all add: vec_def)
  from combine_sets [where f = f and F = F, OF ok(1,2) y(2) ok(3) z(2) F] obtain m' where
    "bv_combine f m x y z = Some m'" "only_data x n m m'" "bv_ok m' x n"
    "bits_at m' x n = {i. i < n \<and> F (i \<in> bits_at m y n) (i \<in> bits_at m z n)}" by blast
  with bits that frame_data [of x n m m'] show thesis by (simp add: vec_def)
qed

lemma not_vec:
  assumes "vec m n x X" "vec m n y A" "apart n x y"
  obtains m' where "bv_not m x y = Some m'" "vec m' n x ({..<n} - A)" "frame n {x} m m'"
proof -
  from combine_vec [OF assms(1,2) apart_same [OF assms(3)] assms(2) apart_same [OF assms(3)], of "\<lambda>a b. NOT a" "\<lambda>a b. \<not> a"]
  obtain m' where "bv_combine (\<lambda>a b. NOT a) m x y y = Some m'" "vec m' n x {i. i < n \<and> i \<notin> A}" "frame n {x} m m'"
    by (auto simp: bit_not_iff)
  moreover have "{i. i < n \<and> i \<notin> A} = {..<n} - A" by auto
  ultimately show thesis using that by (simp add: bv_not_def)
qed

lemma or_vec:
  assumes "vec m n x X" "vec m n y A" "apart n x y" "vec m n z B" "apart n x z"
  obtains m' where "bv_or m x y z = Some m'" "vec m' n x (A \<union> B)" "frame n {x} m m'"
proof -
  from combine_vec [OF assms(1,2) apart_same [OF assms(3)] assms(4) apart_same [OF assms(5)], of "\<lambda>a b. a OR b" "(\<or>)"]
  obtain m' where "bv_or m x y z = Some m'" "vec m' n x {i. i < n \<and> (i \<in> A \<or> i \<in> B)}" "frame n {x} m m'"
    by (auto simp: bit_or_iff bv_or_def)
  moreover have "{i. i < n \<and> (i \<in> A \<or> i \<in> B)} = A \<union> B" using vec_less [OF assms(2)] vec_less [OF assms(4)] by auto
  ultimately show thesis using that by simp
qed

lemma and_vec:
  assumes "vec m n x X" "vec m n y A" "apart n x y" "vec m n z B" "apart n x z"
  obtains m' where "bv_and m x y z = Some m'" "vec m' n x (A \<inter> B)" "frame n {x} m m'"
proof -
  from combine_vec [OF assms(1,2) apart_same [OF assms(3)] assms(4) apart_same [OF assms(5)], of "\<lambda>a b. a AND b" "(\<and>)"]
  obtain m' where "bv_and m x y z = Some m'" "vec m' n x {i. i < n \<and> (i \<in> A \<and> i \<in> B)}" "frame n {x} m m'"
    by (auto simp: bit_and_iff bv_and_def)
  moreover have "{i. i < n \<and> (i \<in> A \<and> i \<in> B)} = A \<inter> B" using vec_less [OF assms(2)] by auto
  ultimately show thesis using that by simp
qed

section \<open>More operations\<close>

lemma clone_vec:
  assumes v: "vec m n v A"
  obtains w m' where "bv_clone m v = Some (w, m')" "vec m' n w A" "frame n {} m m'" "w = length m + 3"
proof -
  have n: "n < 2 ^ 31" using v by (rule vec_small)
  from shadow_vec [OF v n] obtain w m1 where
    m1: "bv_shadow m v = Some (w, m1)" "vec m1 n w {}" "frame n {} m m1" "w = length m + 3" .
  have v1: "vec m1 n v A" using frame_vec [OF m1(3) v] by simp
  have ap: "apart n w v" using new_apart [OF _ v] m1(4) by simp
  have reads: "BV_BITS m1 w = Some n" "BV_SIZE m1 w = Some (data_words n)" using m1(2) bv_reads [of m1 w n] by (simp_all add: vec_def)
  have places: "w + data_words n \<le> length m1" "v + data_words n \<le> length m1" using vec_place [OF m1(2)] vec_place [OF v1] by simp_all
  have order: "w \<le> v \<or> v + data_words n \<le> w" using ap by (auto simp: apart_def)
  from each_word_runs [OF places(1,2,2) order order, of "\<lambda>a b. a"] obtain m2 where
    m2: "each_word (\<lambda>a b. a) w v v (data_words n) m1 = Some m2" "length m2 = length m1"
      "\<And>i. m2 ! i = (if w \<le> i \<and> i < w + data_words n then m1 ! (v + (i - w)) else m1 ! i)" by blast
  have only: "only_data w n m1 m2" using m2(2,3) by (simp add: only_data_def)
  have copied: "m2 ! (w + i) = m1 ! (v + i)" if "i < data_words n" for i using that m2(3) by simp
  have same: "m2 ! i = m1 ! i" if "i < w" for i using that m2(3) by simp
  have wok: "bv_ok m1 w n" and vok: "bv_ok m1 v n" using m1(2) v1 by (simp_all add: vec_def)
  have "bv_ok m2 w n"
    unfolding bv_ok_def
  proof (intro conjI impI allI)
    fix j assume j: "n mod 32 \<noteq> 0" "n mod 32 \<le> j"
    then have "0 < data_words n" by (simp add: data_words_eq)
    then have "m2 ! (w + data_words n - 1) = m1 ! (v + data_words n - 1)" using copied [of "data_words n - 1"] by simp
    then show "\<not> bit (m2 ! (w + data_words n - 1)) j" using vok j by (simp add: bv_ok_def)
  qed (use wok m2(2) same in \<open>auto simp: bv_ok_def\<close>)
  moreover have "bits_at m2 w n = bits_at m1 v n"
    unfolding bits_at_def using copied data_words_index by (intro Collect_cong) auto
  ultimately have "vec m2 n w A" using v1 by (simp add: vec_def)
  moreover have "bv_clone m v = Some (w, m2)"
  proof (cases "n = 0")
    case True
    then have "m2 = m1" using m2(1) by (simp add: data_words_def)
    with True m1(1) reads show ?thesis by (simp add: bv_clone_def bv_copy_def)
  next
    case False
    with m1(1) m2(1) reads show ?thesis by (simp add: bv_clone_def bv_copy_def)
  qed
  moreover have "frame n {} m m2"
    using frame_join [OF m1(3) frame_data [OF only]] m1(4) by (intro frame_new [of n "{w}"]) auto
  ultimately show thesis using m1(4) that by blast
qed

lemma all_zero_runs:
  "v + k \<le> length m \<Longrightarrow> all_zero m v k = Some (\<forall>i < k. m ! (v + i) = 0)"
proof (induction k arbitrary: v)
  case (Suc k)
  then have "all_zero m (Suc v) k = Some (\<forall>i < k. m ! (Suc v + i) = 0)" by simp
  moreover have "(\<forall>i < Suc k. m ! (v + i) = 0) \<longleftrightarrow> m ! v = 0 \<and> (\<forall>i < k. m ! (Suc v + i) = 0)"
    by (simp add: All_less_Suc2)
  ultimately show ?case using Suc.prems by (simp add: peek_def)
qed simp

lemma empty_vec:
  assumes "vec m n v A"
  shows "bv_is_empty m v = Some (A = {}, m)"
proof (cases "n = 0")
  case True
  with assms have "A = {}" by (auto simp: vec_def bits_at_def)
  with True assms bv_reads [of m v n] show ?thesis by (simp add: bv_is_empty_def vec_def data_words_def)
next
  case False
  have ok: "bv_ok m v n" "bits_at m v n = A" using assms by (simp_all add: vec_def)
  have size: "0 < data_words n" using False by (simp add: data_words_def)
  have "(\<forall>i < data_words n. m ! (v + i) = 0) \<longleftrightarrow> A = {}"
  proof
    assume "\<forall>i < data_words n. m ! (v + i) = 0"
    then show "A = {}" using ok(2) data_words_index by (auto simp: bits_at_def)
  next
    assume A: "A = {}"
    show "\<forall>i < data_words n. m ! (v + i) = 0"
    proof (intro allI impI)
      fix i assume i: "i < data_words n"
      have "\<not> bit (m ! (v + i)) j" if "j < 32" for j
      proof -
        have "32 * i + j < 32 * data_words n" using i that by simp
        from on_bits [OF ok(1) this] have "\<not> on m v (32 * i + j)" using A ok(2) by simp
        then show ?thesis using that by (simp add: on_def)
      qed
      then show "m ! (v + i) = 0" by (simp add: word_zero_iff)
    qed
  qed
  with bv_reads [OF ok(1)] size mask_last_same [OF ok(1)] False all_zero_runs [OF bv_ok_place [OF ok(1)]] show ?thesis
    by (simp add: bv_is_empty_def)
qed

section \<open>The memory as a map\<close>

text \<open>The vectors of \<open>n\<close> bits in a memory, each with its set.\<close>

definition layout :: "words \<Rightarrow> nat \<Rightarrow> (nat \<rightharpoonup> nat set) \<Rightarrow> bool" where
  "layout m n f \<longleftrightarrow> n < 2 ^ 31 \<and> (\<forall>v A. f v = Some A \<longrightarrow> vec m n v A) \<and> (\<forall>v \<in> dom f. \<forall>w \<in> dom f. v \<noteq> w \<longrightarrow> apart n v w)"

lemma layout_vec: "layout m n f \<Longrightarrow> f v = Some A \<Longrightarrow> vec m n v A"
  by (simp add: layout_def)

lemma layout_apart: "layout m n f \<Longrightarrow> f v = Some A \<Longrightarrow> f w = Some B \<Longrightarrow> v \<noteq> w \<Longrightarrow> apart n v w"
  unfolding layout_def by blast

lemma layout_same: "layout m n f \<Longrightarrow> f v = Some A \<Longrightarrow> f w = Some B \<Longrightarrow> apart_or_same n v w"
  using layout_apart [of m n f v A w B] apart_same [of n v w] by (cases "v = w") (auto simp: apart_or_same_def)

lemma layout_less: "layout m n f \<Longrightarrow> f v = Some A \<Longrightarrow> A \<subseteq> {..<n}"
  by (rule vec_less) (rule layout_vec)

lemma layout_place: "layout m n f \<Longrightarrow> f v = Some A \<Longrightarrow> v + data_words n \<le> length m \<and> 3 \<le> v"
  by (rule vec_place) (rule layout_vec)

lemma layout_small: "layout m n f \<Longrightarrow> n < 2 ^ 31"
  by (simp add: layout_def)

lemma layout_empty: "n < 2 ^ 31 \<Longrightarrow> layout m n Map.empty"
  by (simp add: layout_def)

lemma layout_put:
  assumes f: "layout m n f" "f v = Some A" and m': "vec m' n v B" "frame n {v} m m'"
  shows "layout m' n (f(v \<mapsto> B))"
  unfolding layout_def
proof (intro conjI allI impI ballI)
  show "n < 2 ^ 31" using f(1) by (rule layout_small)
  show "vec m' n w C" if "(f(v \<mapsto> B)) w = Some C" for w C
  proof (cases "w = v")
    case False
    with that have w: "f w = Some C" by simp
    have "apart n v w" using layout_apart [OF f w] False by simp
    with frame_vec [OF m'(2) layout_vec [OF f(1) w]] show ?thesis by simp
  qed (use that m'(1) in simp)
  show "apart n w u" if "w \<in> dom (f(v \<mapsto> B))" "u \<in> dom (f(v \<mapsto> B))" "w \<noteq> u" for w u
    using that f(2) layout_apart [OF f(1), of w _ u] by (auto split: if_split_asm)
qed

lemma layout_new:
  assumes f: "layout m n f" and m': "vec m' n v B" "frame n {} m m'" "length m + 3 \<le> v"
  shows "layout m' n (f(v \<mapsto> B))" "f v = None"
proof -
  have new: "apart n v w \<and> v \<noteq> w" if "f w = Some C" for w C
    using new_apart [OF m'(3) layout_vec [OF f that]] by (auto simp: apart_def)
  then show "f v = None" by (cases "f v") auto
  show "layout m' n (f(v \<mapsto> B))"
    unfolding layout_def
  proof (intro conjI allI impI ballI)
    show "n < 2 ^ 31" using f by (rule layout_small)
    show "vec m' n w C" if "(f(v \<mapsto> B)) w = Some C" for w C
      using that m'(1) frame_vec [OF m'(2) layout_vec [OF f]] by (cases "w = v") auto
    show "apart n w u" if "w \<in> dom (f(v \<mapsto> B))" "u \<in> dom (f(v \<mapsto> B))" "w \<noteq> u" for w u
      using that new layout_apart [OF f, of w _ u] by (auto simp: apart_sym [of n w v] split: if_split_asm)
  qed
qed

lemma map_le_new: "f v = None \<Longrightarrow> f \<subseteq>\<^sub>m f(v \<mapsto> A)"
  by (auto simp: map_le_def)

lemma map_leD: "f \<subseteq>\<^sub>m f' \<Longrightarrow> f v = Some A \<Longrightarrow> f' v = Some A"
  unfolding map_le_def by (metis domI)

text \<open>The operations on the map.\<close>

lemma layout_create:
  assumes "layout m n f" "bv_create m n = (v, m')"
  shows "layout m' n (f(v \<mapsto> {}))" "f v = None"
  using layout_new [OF assms(1), of m' v "{}"] create_vec [OF layout_small [OF assms(1)] assms(2)] by auto

lemma layout_shadow:
  assumes "layout m n f" "f w = Some A"
  obtains v m' where "bv_shadow m w = Some (v, m')" "layout m' n (f(v \<mapsto> {}))" "f v = None"
proof -
  from shadow_vec [OF layout_vec [OF assms] layout_small [OF assms(1)]] obtain v m' where
    "bv_shadow m w = Some (v, m')" "vec m' n v {}" "frame n {} m m'" "v = length m + 3" .
  with layout_new [OF assms(1), of m' v "{}"] that show thesis by simp
qed

lemma layout_clone:
  assumes "layout m n f" "f w = Some A"
  obtains v m' where "bv_clone m w = Some (v, m')" "layout m' n (f(v \<mapsto> A))" "f v = None"
proof -
  from clone_vec [OF layout_vec [OF assms]] obtain v m' where
    "bv_clone m w = Some (v, m')" "vec m' n v A" "frame n {} m m'" "v = length m + 3" .
  with layout_new [OF assms(1), of m' v A] that show thesis by simp
qed

lemma layout_set:
  assumes "layout m n f" "f v = Some A" "i < n"
  obtains m' where "bv_bit_set m v i = Some m'" "layout m' n (f(v \<mapsto> insert i A))"
  using set_vec [OF layout_vec [OF assms(1,2)] assms(3)] layout_put [OF assms(1,2)] that by metis

lemma layout_clear:
  assumes "layout m n f" "f v = Some A" "i < n"
  obtains m' where "bv_bit_clear m v i = Some m'" "layout m' n (f(v \<mapsto> A - {i}))"
  using clear_vec [OF layout_vec [OF assms(1,2)] assms(3)] layout_put [OF assms(1,2)] that by metis

lemma layout_test: "layout m n f \<Longrightarrow> f v = Some A \<Longrightarrow> i < n \<Longrightarrow> bv_bit_test m v i = Some (i \<in> A)"
  using layout_vec test_vec by blast

lemma layout_empty_test: "layout m n f \<Longrightarrow> f v = Some A \<Longrightarrow> bv_is_empty m v = Some (A = {}, m)"
  using layout_vec empty_vec by blast

lemma layout_not:
  assumes "layout m n f" "f x = Some X" "f y = Some A" "x \<noteq> y"
  obtains m' where "bv_not m x y = Some m'" "layout m' n (f(x \<mapsto> {..<n} - A))"
  using not_vec [OF layout_vec [OF assms(1,2)] layout_vec [OF assms(1,3)] layout_apart [OF assms]] layout_put [OF assms(1,2)] that
  by metis

lemma layout_or:
  assumes "layout m n f" "f x = Some X" "f y = Some A" "x \<noteq> y" "f z = Some B" "x \<noteq> z"
  obtains m' where "bv_or m x y z = Some m'" "layout m' n (f(x \<mapsto> A \<union> B))"
  using or_vec [OF layout_vec [OF assms(1,2)] layout_vec [OF assms(1,3)] layout_apart [OF assms(1-4)]
      layout_vec [OF assms(1,5)] layout_apart [OF assms(1,2,5,6)]] layout_put [OF assms(1,2)] that by metis

lemma layout_and:
  assumes "layout m n f" "f x = Some X" "f y = Some A" "x \<noteq> y" "f z = Some B" "x \<noteq> z"
  obtains m' where "bv_and m x y z = Some m'" "layout m' n (f(x \<mapsto> A \<inter> B))"
  using and_vec [OF layout_vec [OF assms(1,2)] layout_vec [OF assms(1,3)] layout_apart [OF assms(1-4)]
      layout_vec [OF assms(1,5)] layout_apart [OF assms(1,2,5,6)]] layout_put [OF assms(1,2)] that by metis

lemma layout_scan:
  assumes "layout m n f" "f v = Some A"
  shows "scan_loop body m v 0 s = map_option (\<lambda>s. (s, m)) (each body (sorted_list_of_set A) s)"
  using layout_vec [OF assms] scan_loop_runs [of m v n body 0 s] by (simp add: vec_def)

section \<open>Matrices in the memory\<close>

definition matrix_fits :: "nat \<Rightarrow> bool" where
  "matrix_fits n \<longleftrightarrow> 0 < n \<and> n < 2 ^ 31 \<and> n * (data_words n + 3) < UINT_MOD"

lemma new_rows:
  assumes "n < 2 ^ 31"
  shows "i < k \<Longrightarrow> vec (m @ concat (replicate k (matrix_new_row n))) n (length m + 3 + i * (data_words n + 3)) {}"
proof (induction k)
  case (Suc k)
  let ?r = "matrix_new_row n" and ?m = "m @ concat (replicate k (matrix_new_row n))"
  have r: "concat (replicate (Suc k) ?r) = concat (replicate k ?r) @ ?r"
    by (simp add: replicate_append_same [symmetric])
  show ?case
  proof (cases "i < k")
    case True
    from Suc.IH [OF this] frame_vec [OF frame_append [of n ?m ?r]] show ?thesis unfolding r by simp
  next
    case False
    with Suc.prems have i: "i = k" by simp
    have "length (concat (replicate k ?r)) = k * (data_words n + 3)"
      by (simp add: length_concat sum_list_replicate matrix_new_row_def bits_to_size [OF assms] algebra_simps)
    then have len: "length ?m + 3 = length m + 3 + i * (data_words n + 3)" using i by simp
    have "bv_create ?m n = (length ?m + 3, ?m @ ?r)"
      by (simp add: bv_create_def matrix_new_row_def bv_hiddenwords_def Let_def)
    from create_vec(1) [OF assms this] show ?thesis unfolding len r by simp
  qed
qed simp

lemma matrix_create_runs:
  assumes "matrix_fits n"
  obtains M m' where "matrix_obs_create m n n = Some (M, m')" "matrix_ok m' M n" "t_row_count M = n" "relation_of m' M n = {}"
    "\<And>k. frame k {} m m'" "row0 M = length m + 3"
proof -
  have n: "0 < n" "n < 2 ^ 31" "n * (data_words n + 3) < UINT_MOD" using assms by (simp_all add: matrix_fits_def)
  let ?M = "\<lparr>t_row_count = n, t_row_data = length m\<rparr>" and ?m = "m @ concat (replicate n (matrix_new_row n))"
  have row: "row_at ?M n i = length m + 3 + i * (data_words n + 3)" for i
    by (simp add: row_at_def row0_def bv_hiddenwords_def)
  have v: "vec ?m n (row_at ?M n i) {}" if "i < n" for i
    using new_rows [OF n(2) that, of m] unfolding row by simp
  have "matrix_obs_create m n n = Some (?M, ?m)"
    using n by (simp add: matrix_obs_create_def bits_to_size bv_hiddenwords_def)
  moreover have "matrix_ok ?m ?M n" using n v by (simp add: matrix_ok_def vec_def)
  moreover have "relation_of ?m ?M n = {}" using v by (auto simp: relation_of_def vec_def)
  moreover have "row0 ?M = length m + 3" by (simp add: row0_def bv_hiddenwords_def)
  ultimately show thesis by (intro that [of ?M ?m] frame_append) simp_all
qed

lemma rows_spread: "i < j \<Longrightarrow> row_at M n i + data_words n + 3 \<le> row_at M n j"
  using mult_le_mono1 [of "Suc i" j "data_words n + 3"] by (simp add: row_at_def)

lemma outside_before: "v + data_words k \<le> row0 M \<Longrightarrow> outside M n v k"
  by (auto simp: outside_def misses_def row_at_def)

lemma layout_rows:
  assumes f: "layout m n f" and m': "only_rows M n m m'" and out: "\<And>v. v \<in> dom f \<Longrightarrow> outside M n v n"
  shows "layout m' n f"
  unfolding layout_def
proof (intro conjI allI impI)
  show "n < 2 ^ 31" using f by (rule layout_small)
  show "vec m' n v A" if "f v = Some A" for v A
    using layout_vec [OF f that] m' out [of v] that by (auto simp: only_rows_def vec_def)
qed (use f in \<open>simp add: layout_def\<close>)

text \<open>The rows of a matrix join the map.\<close>

lemma layout_matrix:
  assumes f: "layout m n f" and M: "matrix_ok m M n" "t_row_count M = n"
    and ap: "\<And>v i. v \<in> dom f \<Longrightarrow> i < n \<Longrightarrow> apart n v (row_at M n i)"
  obtains f' where "layout m n f'" "f \<subseteq>\<^sub>m f'" "\<And>i. i < n \<Longrightarrow> f' (row_at M n i) = Some (relation_of m M n `` {i})"
proof -
  let ?f = "\<lambda>v. if v \<in> row_at M n ` {..<n} then Some (bits_at m v n) else f v"
  have row: "vec m n (row_at M n i) (bits_at m (row_at M n i) n)" if "i < n" for i
    using M that by (simp add: matrix_ok_def vec_def)
  have rows: "apart n (row_at M n i) (row_at M n j)" if "i \<noteq> j" for i j
  proof -
    from that consider "i < j" | "j < i" by linarith
    then show ?thesis using rows_spread [of i j M n] rows_spread [of j i M n] by cases (simp_all add: apart_def)
  qed
  have "layout m n ?f"
    unfolding layout_def
  proof (intro conjI allI impI ballI)
    show "n < 2 ^ 31" using f by (rule layout_small)
    show "vec m n v A" if "?f v = Some A" for v A
      using that row layout_vec [OF f] by (auto split: if_split_asm)
    show "apart n v w" if "v \<in> dom ?f" "w \<in> dom ?f" "v \<noteq> w" for v w
    proof (cases "v \<in> row_at M n ` {..<n}"; cases "w \<in> row_at M n ` {..<n}")
      assume "v \<in> row_at M n ` {..<n}" "w \<in> row_at M n ` {..<n}"
      then show ?thesis using that(3) rows by (metis imageE)
    next
      assume "v \<in> row_at M n ` {..<n}" "w \<notin> row_at M n ` {..<n}"
      then show ?thesis using that(2) ap [of w] apart_sym [of n w] by (auto simp: dom_def)
    next
      assume "v \<notin> row_at M n ` {..<n}" "w \<in> row_at M n ` {..<n}"
      then show ?thesis using that(1) ap [of v] by (auto simp: dom_def)
    next
      assume "v \<notin> row_at M n ` {..<n}" "w \<notin> row_at M n ` {..<n}"
      then have "v \<in> dom f" "w \<in> dom f" using that(1,2) by (simp_all add: dom_def)
      then show ?thesis using that(3) f by (simp add: layout_def)
    qed
  qed
  moreover have "f \<subseteq>\<^sub>m ?f"
    using ap by (fastforce simp: map_le_def apart_def)
  moreover have "?f (row_at M n i) = Some (relation_of m M n `` {i})" if "i < n" for i
    using that M(2) by (auto simp: relation_of_def)
  ultimately show thesis by (rule that)
qed

end
