(* ===== verification/IndexProps.thy ===== *)
theory IndexProps
  imports RuleIndex ClosureLoop AvlProps BitLayout
begin

text \<open>
  The index of the rules: the two AVL tables hold the pairs of the symbols and the rules, and reading
  them gives, for every symbol, its rules in ascending order, as \<open>rhs_closure\<close> needs them.
\<close>

section \<open>Tables of pairs\<close>

interpretation pair_ptr: total_compare pair_ptr_cmp
  by unfold_locales (auto simp: pair_ptr_cmp_def sym_rule.swap intro: sym_rule.trans)

definition pair_of :: "nat \<times> nat \<Rightarrow> sym_rule_pair" where
  "pair_of q = \<lparr>t_symid = int (fst q), t_ruleid = int (snd q)\<rparr>"

lemma pair_of_inj: "pair_of p = pair_of q \<longleftrightarrow> p = q"
  by (auto simp: pair_of_def prod_eq_iff)

text \<open>A table into which \<open>k\<close> pairs were inserted, which are the set \<open>P\<close>.\<close>

definition pairs_ok :: "pair_ptr avl_table \<Rightarrow> nat \<Rightarrow> (nat \<times> nat) set \<Rightarrow> bool" where
  "pairs_ok T k P \<longleftrightarrow> table_ok T \<and> avl_compare T = pair_ptr_cmp \<and> avl_count T \<le> k \<and> snd ` items_of T = pair_of ` P"

lemma pairs_ok_create: "pairs_ok (marpa_avl_create pair_ptr_cmp) 0 {}"
  by (simp add: pairs_ok_def create_ok pair_ptr.total_compare_axioms)

lemma insert_pair_runs:
  assumes T: "pairs_ok T k P" and room: "k < capacity" "capacity < SIZE_MOD"
  obtains T' where "insert_pair capacity s r T k = Some (T', Suc k)" "pairs_ok T' (Suc k) (insert (s, r) P)"
proof -
  let ?x = "(k, pair_of (s, r))"
  have t: "table_ok T" "avl_compare T = pair_ptr_cmp" "avl_count T + 1 < SIZE_MOD" using T room by (auto simp: pairs_ok_def)
  have run: "insert_pair capacity s r T k = do { (found, T1) \<leftarrow> marpa_avl_insert T ?x; Some (T1, Suc k) }"
    using room(1) by (simp add: insert_pair_def pair_of_def)
  show thesis
  proof (cases "pair_of (s, r) \<in> snd ` items_of T")
    case True
    then obtain y where y: "y \<in> items_of T" "snd y = pair_of (s, r)" by force
    then have "pair_ptr_cmp ?x y = 0" by (simp add: pair_ptr_cmp_def)
    from pair_ptr.insert_found [OF t y(1) this] have "insert_pair capacity s r T k = Some (T, Suc k)" unfolding run by simp
    moreover have "(s, r) \<in> P" using True T by (auto simp: pairs_ok_def pair_of_inj)
    then have "pairs_ok T (Suc k) (insert (s, r) P)" using T by (simp add: pairs_ok_def insert_absorb)
    ultimately show thesis by (rule that)
  next
    case False
    then have "\<forall>y \<in> items_of T. pair_ptr_cmp ?x y \<noteq> 0" by (force simp: pair_ptr_cmp_def sym_rule_cmp_0)
    from pair_ptr.insert_new [OF t this] obtain T' where T': "marpa_avl_insert T ?x = Some (None, T')" "table_ok T'"
      "avl_compare T' = pair_ptr_cmp" "items_of T' = insert ?x (items_of T)" "avl_count T' = avl_count T + 1" .
    then have "insert_pair capacity s r T k = Some (T', Suc k)" unfolding run by simp
    moreover have "pairs_ok T' (Suc k) (insert (s, r) P)" using T T' by (simp add: pairs_ok_def)
    ultimately show thesis by (rule that)
  qed
qed

lemma insert_rhs_runs:
  assumes "pairs_ok T k P" "k + length xs \<le> capacity" "capacity < SIZE_MOD"
  shows "\<exists>T'. insert_rhs capacity xs r T k = Some (T', k + length xs) \<and> pairs_ok T' (k + length xs) (P \<union> set xs \<times> {r})"
  using assms
proof (induction xs arbitrary: T k P)
  case (Cons x xs)
  have "k < capacity" using Cons.prems(2) by simp
  from insert_pair_runs [OF Cons.prems(1) this Cons.prems(3)] obtain T1 where
    T1: "insert_pair capacity x r T k = Some (T1, Suc k)" "pairs_ok T1 (Suc k) (insert (x, r) P)" .
  have "Suc k + length xs \<le> capacity" using Cons.prems(2) by simp
  from Cons.IH [OF T1(2) this Cons.prems(3)] obtain T' where
    "insert_rhs capacity xs r T1 (Suc k) = Some (T', Suc k + length xs)"
    "pairs_ok T' (Suc k + length xs) (insert (x, r) P \<union> set xs \<times> {r})" by auto
  moreover have "insert (x, r) P \<union> set xs \<times> {r} = P \<union> set (x # xs) \<times> {r}" by auto
  ultimately show ?case using T1(1) by simp
qed simp

section \<open>Reading a table\<close>

text \<open>The pairs of a table in order.\<close>

definition ordered_pairs :: "(nat \<times> nat) list \<Rightarrow> bool" where
  "ordered_pairs qs \<longleftrightarrow> sorted_wrt (\<lambda>p q. fst p < fst q \<or> fst p = fst q \<and> snd p < snd q) qs"

lemma nodes_in_order:
  assumes "pairs_ok T k P"
  obtains qs where "map (snd \<circ> snd) (nodes (avl_root T)) = map pair_of qs" "ordered_pairs qs" "set qs = P" "length qs \<le> k"
proof -
  let ?ps = "map (snd \<circ> snd) (nodes (avl_root T))"
  have items: "?ps = map snd (items (avl_root T))" by (simp add: items_def)
  have set: "set ?ps = pair_of ` P" using assms unfolding items by (simp add: pairs_ok_def items_of_def)
  define unpair :: "sym_rule_pair \<Rightarrow> nat \<times> nat" where "unpair = (\<lambda>p. (nat (t_symid p), nat (t_ruleid p)))"
  have unpair: "unpair (pair_of q) = q" for q by (simp add: unpair_def pair_of_def)
  have "map (pair_of \<circ> unpair) ?ps = ?ps" using set unpair by (intro map_idI) auto
  then have eq: "?ps = map pair_of (map unpair ?ps)" by simp
  have "ordered (avl_compare T) (items (avl_root T))" "avl_compare T = pair_ptr_cmp"
    using assms unfolding pairs_ok_def table_ok_def by blast+
  then have "ordered pair_ptr_cmp (items (avl_root T))" by simp
  then have "sorted_wrt (\<lambda>a b. sym_rule_cmp a b < 0) ?ps"
    unfolding items sorted_wrt_map ordered_def pair_ptr_cmp_def .
  then have "sorted_wrt (\<lambda>a b. sym_rule_cmp (pair_of a) (pair_of b) < 0) (map unpair ?ps)"
    by (subst (asm) eq) (simp only: sorted_wrt_map)
  then have "ordered_pairs (map unpair ?ps)"
    unfolding ordered_pairs_def
    by (rule sorted_wrt_mono_rel [rotated]) (auto simp: sym_rule_cmp_def pair_of_def Let_def split: if_splits)
  moreover have "set (map unpair ?ps) = P" unfolding set_map [of unpair] set by (force simp: unpair image_iff)
  moreover have "length (map unpair ?ps) \<le> k" using assms by (simp add: pairs_ok_def table_ok_def)
  ultimately show thesis using eq that by blast
qed

text \<open>How many pairs come before those of the symbol \<open>s\<close>.\<close>

definition before :: "nat \<Rightarrow> (nat \<times> nat) list \<Rightarrow> nat" where
  "before s qs = length (filter (\<lambda>q. fst q < s) qs)"

text \<open>The entries are right for the pairs read so far, and those to come do not change them.\<close>

definition laid :: "(nat \<times> nat) list \<Rightarrow> nat list \<Rightarrow> nat list \<Rightarrow> bool" where
  "laid qs xl rd \<longleftrightarrow> rd = map snd qs \<and> xl = map (\<lambda>s. before s qs) [0..<length xl] \<and> (\<forall>q \<in> set qs. fst q < length xl)"

lemma before_all: "\<forall>q \<in> set qs. fst q < s \<Longrightarrow> before s qs = length qs"
  by (simp add: before_def)

lemma fill_runs:
  assumes "laid qs xl rd" "s \<le> n" "length xl \<le> Suc n"
  obtains xl' where "fill_to n s xl rd = Some xl'" "laid qs xl' rd" "length xl' = max (length xl) (Suc s)"
proof -
  let ?xl = "xl @ replicate (Suc s - length xl) (length rd)"
  have "length ?xl = max (length xl) (Suc s)" by simp
  moreover have "?xl = map (\<lambda>s. before s qs) [0..<length ?xl]"
  proof (rule nth_equalityI)
    fix i assume i: "i < length ?xl"
    show "?xl ! i = map (\<lambda>s. before s qs) [0..<length ?xl] ! i"
    proof (cases "i < length xl")
      case True
      have "xl ! i = map (\<lambda>s. before s qs) [0..<length xl] ! i" using assms(1) unfolding laid_def by metis
      with True i show ?thesis by (simp add: nth_append)
    next
      case False
      then have "before i qs = length qs" using assms(1) by (intro before_all) (auto simp: laid_def)
      moreover have "i < Suc s" using False i by simp
      ultimately show ?thesis using False i assms(1) by (simp add: nth_append laid_def del: upt_Suc)
    qed
  qed simp
  then have "laid qs ?xl rd" using assms(1) by (auto simp: laid_def)
  moreover have "length xl + (Suc s - length xl) \<le> Suc n" using assms(2,3) by linarith
  then have "fill_to n s xl rd = Some ?xl" by (simp add: fill_to_def)
  ultimately show thesis using that by blast
qed

lemma laid_snoc:
  assumes "laid qs xl rd" "length xl = Suc s"
  shows "laid (qs @ [(s, r)]) xl (rd @ [r])"
proof -
  have "\<forall>i < Suc s. before i (qs @ [(s, r)]) = before i qs" by (auto simp: before_def)
  then have "map (\<lambda>i. before i (qs @ [(s, r)])) [0..<Suc s] = map (\<lambda>i. before i qs) [0..<Suc s]" by (intro map_cong) auto
  then show ?thesis using assms by (auto simp: laid_def)
qed

lemma read_runs:
  assumes T: "table_ok T"
  shows "goes True T ps (Some (pair, trav)) \<Longrightarrow> map (snd \<circ> snd) ps = map pair_of qs \<Longrightarrow> laid done xl rd
    \<Longrightarrow> ordered_pairs qs \<Longrightarrow> \<forall>q \<in> set qs. length xl \<le> Suc (fst q) \<and> fst q \<le> n \<Longrightarrow> length xl \<le> Suc n
    \<Longrightarrow> length rd + length qs \<le> capacity
    \<Longrightarrow> \<exists>xl'. read_pairs n capacity T pair trav xl rd = Some (xl', rd @ map snd qs) \<and> laid (done @ qs) xl' (rd @ map snd qs)
      \<and> length xl' \<le> Suc n"
proof (induction qs arbitrary: ps pair trav xl rd "done")
  case Nil
  then have "pair = None" by (simp add: goes_def)
  with Nil show ?case by (subst read_pairs.simps) simp
next
  case (Cons q qs)
  obtain m b ws where ps: "ps = (m, b) # ws" "snd b = pair_of q" "map (snd \<circ> snd) ws = map pair_of qs"
    using Cons.prems(2) by (cases ps) (auto simp: comp_def)
  obtain p where p: "pair = Some b" "points T p trav" "rest True p (avl_root T) = ws"
    using Cons.prems(1) unfolding ps by (auto simp: goes_def)
  obtain s r where q: "q = (s, r)" by (cases q)
  have s: "length xl \<le> Suc s" "s \<le> n" using Cons.prems(5) q by simp_all
  from fill_runs [OF Cons.prems(3) s(2) Cons.prems(6)] obtain xl1 where
    xl1: "fill_to n s xl rd = Some xl1" "laid done xl1 rd" "length xl1 = Suc s" using s(1) by (auto simp: max_def)
  from t_step_goes [OF T p(2), of True] have go: "goes True T ws (marpa_avl_t_next T trav)"
    using p(3) by (simp add: marpa_avl_t_next_def)
  then obtain pair1 trav1 where nx: "marpa_avl_t_next T trav = Some (pair1, trav1)"
    by (cases ws) (auto simp: goes_def)
  have "goes True T ws (Some (pair1, trav1))" using go nx by simp
  moreover have "laid (done @ [q]) xl1 (rd @ [r])" unfolding q by (rule laid_snoc [OF xl1(2,3)])
  moreover have "ordered_pairs qs" "\<forall>p \<in> set qs. s \<le> fst p" using Cons.prems(4) q by (auto simp: ordered_pairs_def)
  moreover from this(2) have "\<forall>p \<in> set qs. length xl1 \<le> Suc (fst p) \<and> fst p \<le> n" using Cons.prems(5) xl1(3) by auto
  moreover have "length xl1 \<le> Suc n" "length (rd @ [r]) + length qs \<le> capacity" using s(2) xl1(3) Cons.prems(7) by simp_all
  ultimately have "\<exists>xl'. read_pairs n capacity T pair1 trav1 xl1 (rd @ [r]) = Some (xl', (rd @ [r]) @ map snd qs)
      \<and> laid ((done @ [q]) @ qs) xl' ((rd @ [r]) @ map snd qs) \<and> length xl' \<le> Suc n"
    using ps(3) by (intro Cons.IH [of ws])
  moreover have "read_pairs n capacity T pair trav xl rd = read_pairs n capacity T pair1 trav1 xl1 (rd @ [r])"
    using p(1) ps(2) q xl1(1) nx Cons.prems(7) by (subst read_pairs.simps) (simp add: pair_of_def)
  ultimately show ?case using q by simp
qed

lemma index_of_runs:
  assumes T: "pairs_ok T k P" and n: "\<forall>q \<in> P. fst q < n" and cap: "k \<le> capacity"
  obtains qs where "index_of n capacity T = Some (map (\<lambda>s. before s qs) [0..<Suc n], map snd qs)" "ordered_pairs qs" "set qs = P"
proof -
  from nodes_in_order [OF T] obtain qs where
    qs: "map (snd \<circ> snd) (nodes (avl_root T)) = map pair_of qs" "ordered_pairs qs" "set qs = P" "length qs \<le> k" .
  have ok: "table_ok T" using T by (simp add: pairs_ok_def)
  have "unset (marpa_avl_t_init T)" by (simp add: unset_def marpa_avl_t_init_def trav_reset_def)
  from end_runs [OF ok this, of True] have go: "goes True T (nodes (avl_root T)) (marpa_avl_t_first T (marpa_avl_t_init T))"
    by (simp add: marpa_avl_t_first_def walk_def)
  then obtain pair trav where first: "marpa_avl_t_first T (marpa_avl_t_init T) = Some (pair, trav)"
    by (cases "nodes (avl_root T)") (auto simp: goes_def)
  have "goes True T (nodes (avl_root T)) (Some (pair, trav))" using go first by simp
  moreover have "laid [] [] []" by (simp add: laid_def)
  moreover have "\<forall>q \<in> set qs. length ([] :: nat list) \<le> Suc (fst q) \<and> fst q \<le> n" using n qs(3) by auto
  ultimately obtain xl where xl: "read_pairs n capacity T pair trav [] [] = Some (xl, map snd qs)"
    "laid qs xl (map snd qs)" "length xl \<le> Suc n"
    using read_runs [OF ok, of "nodes (avl_root T)" pair trav qs "[]" "[]" "[]" n capacity] qs cap by auto
  from fill_runs [OF xl(2) _ xl(3), of n] obtain xl' where
    xl': "fill_to n n xl (map snd qs) = Some xl'" "laid qs xl' (map snd qs)" "length xl' = Suc n" using xl(3) by (auto simp: max_def)
  then have "xl' = map (\<lambda>s. before s qs) [0..<Suc n]" unfolding laid_def by metis
  with first xl(1) xl'(1) have "index_of n capacity T = Some (map (\<lambda>s. before s qs) [0..<Suc n], map snd qs)"
    by (simp add: index_of_def del: upt_Suc)
  with qs(2,3) that show thesis by blast
qed

text \<open>The part of a symbol.\<close>

lemma sorted_parts:
  "ordered_pairs qs \<Longrightarrow> qs = filter (\<lambda>q. fst q < x) qs @ filter (\<lambda>q. fst q = x) qs @ filter (\<lambda>q. x < fst q) qs"
proof (induction qs)
  case (Cons q qs)
  then have IH: "qs = filter (\<lambda>q. fst q < x) qs @ filter (\<lambda>q. fst q = x) qs @ filter (\<lambda>q. x < fst q) qs"
    and le: "\<forall>p \<in> set qs. fst q \<le> fst p" by (auto simp: ordered_pairs_def)
  have "fst q = x \<Longrightarrow> filter (\<lambda>q. fst q < x) qs = []" "x < fst q \<Longrightarrow> filter (\<lambda>q. fst q < x) qs = []"
    "x < fst q \<Longrightarrow> filter (\<lambda>q. fst q = x) qs = []" using le by (fastforce simp: filter_empty_conv)+
  with IH show ?case by (cases "fst q" x rule: linorder_cases) auto
qed simp

lemma map_nth_middle: "map (\<lambda>p. (xs @ ys @ zs) ! p) [length xs..<length xs + length ys] = ys"
  by (rule nth_equalityI) (simp_all add: nth_append)

lemma before_Suc: "before (Suc x) qs = before x qs + length (filter (\<lambda>q. fst q = x) qs)"
  by (induction qs) (auto simp: before_def)

lemma listed_runs:
  assumes "ordered_pairs qs" "x < n"
  shows "listed (map (\<lambda>s. before s qs) [0..<Suc n]) (map snd qs) x = Some (map snd (filter (\<lambda>q. fst q = x) qs))"
proof -
  let ?a = "filter (\<lambda>q. fst q < x) qs" and ?b = "filter (\<lambda>q. fst q = x) qs" and ?c = "filter (\<lambda>q. x < fst q) qs"
  have parts: "map snd qs = map snd ?a @ map snd ?b @ map snd ?c"
    using arg_cong [OF sorted_parts [OF assms(1), of x], of "map snd"] by simp
  have ends: "before x qs = length (map snd ?a)" "before (Suc x) qs = length (map snd ?a) + length (map snd ?b)"
    unfolding before_Suc by (simp_all add: before_def)
  have "before (Suc x) qs \<le> length (map snd qs)" by (simp add: before_def)
  moreover have "map (\<lambda>p. map snd qs ! p) [before x qs..<before (Suc x) qs] = map snd ?b"
    unfolding ends parts by (rule map_nth_middle)
  ultimately show ?thesis using assms(2) by (simp add: listed_def del: upt_Suc)
qed

lemma listed_set: "set (map snd (filter (\<lambda>q. fst q = x) qs)) = {r. (x, r) \<in> set qs}"
  by force

section \<open>The rules\<close>

text \<open>The symbols that a rule is listed under: its right hand side and its separator.\<close>

definition mentions :: "'a marpa_xrl_scheme \<Rightarrow> nat set" where
  "mentions r = set (RHS_IDs_of_XRL r) \<union> (if t_is_sequence r \<and> 0 \<le> t_separator_id r then {nat (t_separator_id r)} else {})"

definition has_empty :: "'a marpa_xrl_scheme \<Rightarrow> bool" where
  "has_empty r \<longleftrightarrow> RHS_IDs_of_XRL r = [] \<or> t_is_sequence r \<and> t_minimum r \<le> 0"

definition rhs_pairs_of :: "'a marpa_xrl_scheme list \<Rightarrow> nat \<Rightarrow> (nat \<times> nat) set" where
  "rhs_pairs_of rules k = {(x, i). i < k \<and> x \<in> mentions (rules ! i)}"

definition lhs_pairs_of :: "'a marpa_xrl_scheme list \<Rightarrow> nat \<Rightarrow> (nat \<times> nat) set" where
  "lhs_pairs_of rules k = {(x, i). i < k \<and> x = LHS_ID_of_XRL (rules ! i)}"

definition lhs_upto :: "'a marpa_xrl_scheme list \<Rightarrow> nat \<Rightarrow> nat set" where
  "lhs_upto rules k = {LHS_ID_of_XRL (rules ! i) | i. i < k}"

definition empty_upto :: "'a marpa_xrl_scheme list \<Rightarrow> nat \<Rightarrow> nat set" where
  "empty_upto rules k = {LHS_ID_of_XRL (rules ! i) | i. i < k \<and> has_empty (rules ! i)}"

definition room_for :: "'a marpa_xrl_scheme list \<Rightarrow> nat" where
  "room_for rules = (\<Sum>r \<leftarrow> rules. 1 + length (RHS_IDs_of_XRL r))"

lemma upto_Suc:
  "rhs_pairs_of rules (Suc k) = rhs_pairs_of rules k \<union> mentions (rules ! k) \<times> {k}"
  "lhs_pairs_of rules (Suc k) = insert (LHS_ID_of_XRL (rules ! k), k) (lhs_pairs_of rules k)"
  "lhs_upto rules (Suc k) = insert (LHS_ID_of_XRL (rules ! k)) (lhs_upto rules k)"
  "empty_upto rules (Suc k) = (if has_empty (rules ! k) then insert (LHS_ID_of_XRL (rules ! k)) (empty_upto rules k)
     else empty_upto rules k)"
  by (auto simp: rhs_pairs_of_def lhs_pairs_of_def lhs_upto_def empty_upto_def less_Suc_eq)

lemma room_take: "k < length rules \<Longrightarrow> room_for (take (Suc k) rules) = room_for (take k rules) + 1 + length (RHS_IDs_of_XRL (rules ! k))"
  by (simp add: room_for_def take_Suc_conv_app_nth)

lemma room_mono: "room_for (take k rules) \<le> room_for rules"
proof -
  have "room_for rules = room_for (take k rules) + room_for (drop k rules)"
    unfolding room_for_def by (subst append_take_drop_id [of k rules, symmetric], simp only: map_append sum_list_append)
  then show ?thesis by simp
qed

text \<open>The census after \<open>k\<close> rules.\<close>

definition census_at :: "'a marpa_xrl_scheme list \<Rightarrow> nat \<Rightarrow> nat \<Rightarrow> nat \<Rightarrow> nat \<Rightarrow> (nat \<rightharpoonup> nat set) \<Rightarrow> rule_census \<Rightarrow> bool" where
  "census_at rules n k lv ev f c \<longleftrightarrow>
     layout (census_words c) n (f(lv \<mapsto> lhs_upto rules k, ev \<mapsto> empty_upto rules k))
     \<and> pairs_ok (lhs_avl_tree c) (lhs_pairs c) (lhs_pairs_of rules k) \<and> lhs_pairs c = k
     \<and> pairs_ok (rhs_avl_tree c) (rhs_pairs c) (rhs_pairs_of rules k) \<and> rhs_pairs c \<le> room_for (take k rules)"

lemma index_rule_runs:
  assumes c: "census_at (t_xrls g) n k lv ev f c" and k: "k < length (t_xrls g)" and ne: "lv \<noteq> ev"
    and ok: "symbols_ok n (t_xrls g)" and room: "t_external_size g = room_for (t_xrls g)" "t_external_size g < SIZE_MOD"
      "length (t_xrls g) < SIZE_MOD"
  obtains c' where "index_rule g lv ev k c = Some c'" "census_at (t_xrls g) n (Suc k) lv ev f c'"
proof -
  let ?rules = "t_xrls g" and ?r = "t_xrls g ! k" and ?y = "LHS_ID_of_XRL (t_xrls g ! k)"
  let ?E = "empty_upto (t_xrls g) k" and ?L = "lhs_upto (t_xrls g) (Suc k)"
  have r: "?r \<in> set ?rules" using k by simp
  have y: "?y < n" using ok r by (simp add: symbols_ok_def)
  have lay: "layout (census_words c) n (f(lv \<mapsto> lhs_upto ?rules k, ev \<mapsto> ?E))"
    and lt: "pairs_ok (lhs_avl_tree c) k (lhs_pairs_of ?rules k)" "lhs_pairs c = k"
    and rt: "pairs_ok (rhs_avl_tree c) (rhs_pairs c) (rhs_pairs_of ?rules k)" "rhs_pairs c \<le> room_for (take k ?rules)"
    using c by (auto simp: census_at_def)
  from layout_set [OF lay, of lv "lhs_upto ?rules k" ?y] ne y obtain m1 where
    m1: "bv_bit_set (census_words c) lv ?y = Some m1" "layout m1 n (f(lv \<mapsto> lhs_upto ?rules k, ev \<mapsto> ?E, lv \<mapsto> ?L))"
    by (auto simp: upto_Suc)
  then have l1: "layout m1 n (f(lv \<mapsto> ?L, ev \<mapsto> ?E))" using ne by (simp add: fun_upd_twist)
  from insert_pair_runs [OF lt(1) k room(3)] obtain T1 where
    T1: "insert_pair (length ?rules) ?y k (lhs_avl_tree c) k = Some (T1, Suc k)" "pairs_ok T1 (Suc k) (lhs_pairs_of ?rules (Suc k))"
    unfolding upto_Suc .
  define mark where "mark = (\<lambda>b m. if b then bv_bit_set m ev ?y else Some m)"
  have mark: "\<exists>m'. mark b m = Some m' \<and> layout m' n (f(lv \<mapsto> ?L, ev \<mapsto> (if b then insert ?y E else E)))"
    if "layout m n (f(lv \<mapsto> ?L, ev \<mapsto> E))" for b m E
  proof (cases b)
    case True
    have "(f(lv \<mapsto> ?L, ev \<mapsto> E)) ev = Some E" by simp
    from layout_set [OF that this y] obtain m' where
      "bv_bit_set m ev ?y = Some m'" "layout m' n ((f(lv \<mapsto> ?L, ev \<mapsto> E))(ev \<mapsto> insert ?y E))" .
    with True show ?thesis by (simp add: mark_def)
  qed (use that in \<open>simp add: mark_def\<close>)
  let ?b1 = "t_is_sequence ?r \<and> t_minimum ?r \<le> 0" and ?b2 = "RHS_IDs_of_XRL ?r = []"
  from mark [OF l1, of ?b1] obtain m2 where
    m2: "mark ?b1 m1 = Some m2" "layout m2 n (f(lv \<mapsto> ?L, ev \<mapsto> (if ?b1 then insert ?y ?E else ?E)))" by blast
  from mark [OF m2(2), of ?b2] obtain m3 where
    m3: "mark ?b2 m2 = Some m3" "layout m3 n (f(lv \<mapsto> ?L, ev \<mapsto> empty_upto ?rules (Suc k)))"
    by (auto simp: upto_Suc has_empty_def insert_absorb split: if_split_asm)
  have bound: "rhs_pairs c + 1 + length (RHS_IDs_of_XRL ?r) \<le> t_external_size g"
    using rt(2) room_take [OF k] room_mono [of "Suc k" ?rules] room(1) by simp
  let ?sep = "t_is_sequence ?r \<and> 0 \<le> t_separator_id ?r"
  let ?P = "rhs_pairs_of ?rules k \<union> (if ?sep then {(nat (t_separator_id ?r), k)} else {})"
  obtain T2 k2 where T2: "(if ?sep then insert_pair (t_external_size g) (nat (t_separator_id ?r)) k (rhs_avl_tree c) (rhs_pairs c)
        else Some (rhs_avl_tree c, rhs_pairs c)) = Some (T2, k2)"
    "pairs_ok T2 k2 ?P" "k2 \<le> rhs_pairs c + 1"
  proof (cases ?sep)
    case True
    have "rhs_pairs c < t_external_size g" using bound by simp
    from insert_pair_runs [OF rt(1) this room(2), of "nat (t_separator_id ?r)" k] obtain T2 where
      "insert_pair (t_external_size g) (nat (t_separator_id ?r)) k (rhs_avl_tree c) (rhs_pairs c) = Some (T2, Suc (rhs_pairs c))"
      "pairs_ok T2 (Suc (rhs_pairs c)) (insert (nat (t_separator_id ?r), k) (rhs_pairs_of ?rules k))" .
    with True that [of T2 "Suc (rhs_pairs c)"] show thesis by simp
  qed (use rt that in auto)
  have "k2 + length (RHS_IDs_of_XRL ?r) \<le> t_external_size g" using T2(3) bound by linarith
  from insert_rhs_runs [OF T2(2) this room(2), of k] obtain T3 where
    T3: "insert_rhs (t_external_size g) (RHS_IDs_of_XRL ?r) k T2 k2 = Some (T3, k2 + length (RHS_IDs_of_XRL ?r))"
      "pairs_ok T3 (k2 + length (RHS_IDs_of_XRL ?r)) (?P \<union> set (RHS_IDs_of_XRL ?r) \<times> {k})" by blast
  have P: "?P \<union> set (RHS_IDs_of_XRL ?r) \<times> {k} = rhs_pairs_of ?rules (Suc k)"
    by (auto simp: upto_Suc mentions_def)
  let ?c = "\<lparr>census_words = m3, lhs_avl_tree = T1, lhs_pairs = Suc k, rhs_avl_tree = T3, rhs_pairs = k2 + length (RHS_IDs_of_XRL ?r)\<rparr>"
  have "index_rule g lv ev k c = Some ?c"
  proof (cases ?b2)
    case True
    then have "bv_bit_set m2 ev ?y = Some m3" "T3 = T2" using m3(1) T3(1) by (simp_all add: mark_def)
    with True show ?thesis
      by (simp add: index_rule_def Let_def k m1(1) T1(1) lt(2) m2(1) [unfolded mark_def] T2(1) del: not_le)
  next
    case False
    then have "m3 = m2" using m3(1) by (simp add: mark_def)
    with False show ?thesis
      by (simp add: index_rule_def Let_def k m1(1) T1(1) lt(2) m2(1) [unfolded mark_def] T2(1) T3(1) del: not_le)
  qed
  moreover have "census_at ?rules n (Suc k) lv ev f ?c"
    using m3(2) T1(2) T2(3) T3(2) rt(2) unfolding census_at_def P room_take [OF k] by simp
  ultimately show thesis by (rule that)
qed

lemma index_rules_run:
  assumes "census_at (t_xrls g) n k lv ev f c" "k + l = length (t_xrls g)" "lv \<noteq> ev"
    and ok: "symbols_ok n (t_xrls g)" and room: "t_external_size g = room_for (t_xrls g)" "t_external_size g < SIZE_MOD"
      "length (t_xrls g) < SIZE_MOD"
  shows "\<exists>c'. index_rules g lv ev [k..<length (t_xrls g)] c = Some c' \<and> census_at (t_xrls g) n (length (t_xrls g)) lv ev f c'"
  using assms(1,2)
proof (induction l arbitrary: k c)
  case (Suc l)
  have k: "k < length (t_xrls g)" using Suc.prems(2) by simp
  from index_rule_runs [OF Suc.prems(1) k assms(3) ok room] obtain c1 where
    c1: "index_rule g lv ev k c = Some c1" "census_at (t_xrls g) n (Suc k) lv ev f c1" .
  have "Suc k + l = length (t_xrls g)" using Suc.prems(2) by simp
  from Suc.IH [OF c1(2) this] c1(1) show ?case by (simp add: upt_conv_Cons [OF k])
qed simp

text \<open>The index lists the rules of each symbol.\<close>

definition lists_of :: "nat list \<Rightarrow> nat list \<Rightarrow> nat \<Rightarrow> (nat \<times> nat) set \<Rightarrow> bool" where
  "lists_of xl rd n P \<longleftrightarrow> (\<forall>x < n. \<exists>ids. listed xl rd x = Some ids \<and> set ids = {i. (x, i) \<in> P})"

lemma index_of_lists:
  assumes "pairs_ok T k P" "\<forall>q \<in> P. fst q < n" "k \<le> capacity"
  obtains xl rd where "index_of n capacity T = Some (xl, rd)" "lists_of xl rd n P"
proof -
  from index_of_runs [OF assms] obtain qs where
    qs: "index_of n capacity T = Some (map (\<lambda>s. before s qs) [0..<Suc n], map snd qs)" "ordered_pairs qs" "set qs = P" .
  have "lists_of (map (\<lambda>s. before s qs) [0..<Suc n]) (map snd qs) n P"
    unfolding lists_of_def using listed_runs [OF qs(2)] listed_set [of _ qs] qs(3) by blast
  with qs(1) that show thesis by blast
qed

definition rules_indexed :: "marpa_xrl list \<Rightarrow> nat \<Rightarrow> rule_index \<Rightarrow> bool" where
  "rules_indexed rules n ri \<longleftrightarrow> index_ok rules n (xrl_list_x_rh_sym ri) (rh_rule_data ri)
     \<and> lists_of (xrl_list_x_rh_sym ri) (rh_rule_data ri) n (rhs_pairs_of rules (length rules))
     \<and> lists_of (xrl_list_x_lh_sym ri) (lh_rule_data ri) n (lhs_pairs_of rules (length rules))"

lemma lists_index_ok:
  assumes "lists_of xl rd n (rhs_pairs_of rules (length rules))" "\<forall>r \<in> set rules. t_is_sequence r \<longrightarrow> RHS_IDs_of_XRL r \<noteq> []"
  shows "index_ok rules n xl rd"
  unfolding index_ok_def
proof (intro allI impI)
  fix x assume "x < n"
  with assms(1) obtain ids where ids: "listed xl rd x = Some ids" "set ids = {i. (x, i) \<in> rhs_pairs_of rules (length rules)}"
    by (auto simp: lists_of_def)
  have "RHS_IDs_of_XRL (rules ! i) \<noteq> []" if "i < length rules" "x \<in> mentions (rules ! i)" for i
    using assms(2) that by (auto simp: mentions_def split: if_split_asm)
  moreover have "needs r \<subseteq> mentions r" for r :: "'a marpa_xrl_scheme" by (auto simp: needs_def mentions_def)
  ultimately show "\<exists>ids. listed xl rd x = Some ids \<and> (\<forall>i \<in> set ids. i < length rules \<and> RHS_IDs_of_XRL (rules ! i) \<noteq> [])
      \<and> (\<forall>i < length rules. x \<in> needs (rules ! i) \<longrightarrow> i \<in> set ids)"
    using ids by (intro exI [of _ ids]) (auto simp: rhs_pairs_of_def)
qed

lemma census_index_runs:
  assumes f: "layout m n f" and n: "length (t_xsys g) = n"
    and ok: "symbols_ok n (t_xrls g)" "\<forall>r \<in> set (t_xrls g). t_is_sequence r \<longrightarrow> RHS_IDs_of_XRL r \<noteq> []"
    and room: "t_external_size g = room_for (t_xrls g)" "t_external_size g < SIZE_MOD" "length (t_xrls g) < SIZE_MOD"
  obtains ri m' f' where "census_index g m = Some (ri, m')" "layout m' n f'" "f \<subseteq>\<^sub>m f'"
    "f' (lhs_v ri) = Some (LHS_ID_of_XRL ` set (t_xrls g))"
    "f' (empty_lhs_v ri) = Some {LHS_ID_of_XRL r | r. r \<in> set (t_xrls g) \<and> has_empty r}" "rules_indexed (t_xrls g) n ri"
proof -
  let ?rules = "t_xrls g" and ?k = "length (t_xrls g)"
  obtain lv m1 where lv: "bv_create m n = (lv, m1)" by (cases "bv_create m n")
  note l1 = layout_create [OF f lv]
  have "(f(lv \<mapsto> {})) lv = Some {}" by simp
  from layout_shadow [OF l1(1) this] obtain ev m2 where
    ev: "bv_shadow m1 lv = Some (ev, m2)" "layout m2 n (f(lv \<mapsto> {}, ev \<mapsto> {}))" "(f(lv \<mapsto> {})) ev = None" .
  then have ne: "lv \<noteq> ev" "f ev = None" by (auto split: if_split_asm)
  let ?c = "\<lparr>census_words = m2, lhs_avl_tree = marpa_avl_create pair_ptr_cmp, lhs_pairs = 0,
             rhs_avl_tree = marpa_avl_create pair_ptr_cmp, rhs_pairs = 0\<rparr>"
  have "census_at ?rules n 0 lv ev f ?c"
    using ev(2) pairs_ok_create
    by (simp add: census_at_def lhs_upto_def empty_upto_def lhs_pairs_of_def rhs_pairs_of_def)
  from index_rules_run [OF this _ ne(1) ok(1) room] obtain c where
    c: "index_rules g lv ev [0..<?k] ?c = Some c" "census_at ?rules n ?k lv ev f c" by auto
  have lay: "layout (census_words c) n (f(lv \<mapsto> lhs_upto ?rules ?k, ev \<mapsto> empty_upto ?rules ?k))"
    and lt: "pairs_ok (lhs_avl_tree c) ?k (lhs_pairs_of ?rules ?k)"
    and rt: "pairs_ok (rhs_avl_tree c) (rhs_pairs c) (rhs_pairs_of ?rules ?k)" "rhs_pairs c \<le> t_external_size g"
    using c(2) room(1) by (auto simp: census_at_def)
  have less: "\<forall>q \<in> rhs_pairs_of ?rules ?k. fst q < n" "\<forall>q \<in> lhs_pairs_of ?rules ?k. fst q < n"
    using ok(1) by (auto simp: rhs_pairs_of_def lhs_pairs_of_def mentions_def symbols_ok_def in_set_conv_nth split: if_split_asm)
      (metis nat_less_iff nth_mem)+
  from index_of_lists [OF rt(1) less(1) rt(2)] obtain rl rd where
    rl: "index_of n (t_external_size g) (rhs_avl_tree c) = Some (rl, rd)" "lists_of rl rd n (rhs_pairs_of ?rules ?k)" .
  from index_of_lists [OF lt less(2), of ?k] obtain ll ld where
    ll: "index_of n ?k (lhs_avl_tree c) = Some (ll, ld)" "lists_of ll ld n (lhs_pairs_of ?rules ?k)" by auto
  let ?ri = "\<lparr>lhs_v = lv, empty_lhs_v = ev, xrl_list_x_rh_sym = rl, rh_rule_data = rd, xrl_list_x_lh_sym = ll, lh_rule_data = ld\<rparr>"
  have "census_index g m = Some (?ri, census_words c)"
    using n lv ev(1) c(1) rl(1) ll(1) by (simp add: census_index_def Let_def)
  moreover have "f \<subseteq>\<^sub>m f(lv \<mapsto> lhs_upto ?rules ?k, ev \<mapsto> empty_upto ?rules ?k)"
    using l1(2) ne(2) by (auto simp: map_le_def)
  moreover have "lhs_upto ?rules ?k = LHS_ID_of_XRL ` set ?rules"
    by (force simp: lhs_upto_def in_set_conv_nth)
  moreover have "empty_upto ?rules ?k = {LHS_ID_of_XRL r | r. r \<in> set ?rules \<and> has_empty r}"
    by (force simp: empty_upto_def in_set_conv_nth)
  moreover have "rules_indexed ?rules n ?ri"
    using lists_index_ok [OF rl(2) ok(2)] rl(2) ll(2) by (simp add: rules_indexed_def)
  ultimately show thesis using lay ne(1) that [of ?ri "census_words c" "f(lv \<mapsto> lhs_upto ?rules ?k, ev \<mapsto> empty_upto ?rules ?k)"]
    by simp
qed

end
