(* ===== verification/CilProps.thy ===== *)
theory CilProps
  imports Cil AvlProps ScanProps
begin

text \<open>
  The lists of the arena are kept once, so that two of them have the same items exactly when they are
  the same pointer, and the operations build the list that their name says: the set operations on
  lists in ascending order.
\<close>

section \<open>The order\<close>

lemma items_cmp_cases:
  "length as = length bs \<Longrightarrow> cil_items_cmp as bs = 0 \<longleftrightarrow> as = bs"
  by (induction as bs rule: list_induct2) auto

lemma items_cmp_swap: "cil_items_cmp bs as = - cil_items_cmp as bs"
  by (induction as bs rule: cil_items_cmp.induct) auto

lemma items_cmp_trans:
  "length as = length bs \<Longrightarrow> length bs = length cs \<Longrightarrow> cil_items_cmp as bs \<le> 0 \<Longrightarrow> cil_items_cmp bs cs \<le> 0
    \<Longrightarrow> cil_items_cmp as cs \<le> 0"
  by (induction as bs cs rule: list_induct3) (auto split: if_split_asm)

interpretation cil: total_compare cil_cmp
proof
  fix a b c :: cil
  show "cil_cmp b a < 0 \<longleftrightarrow> 0 < cil_cmp a b"
    using items_cmp_swap [of "snd b" "snd a"] by (auto simp: cil_cmp_def Let_def)
  show "cil_cmp a b \<le> 0 \<Longrightarrow> cil_cmp b c \<le> 0 \<Longrightarrow> cil_cmp a c \<le> 0"
    using items_cmp_trans [of "snd a" "snd b" "snd c"] by (auto simp: cil_cmp_def Let_def split: if_split_asm)
qed

lemma cil_cmp_0: "cil_cmp a b = 0 \<longleftrightarrow> snd a = snd b"
  using items_cmp_cases [of "snd a" "snd b"] by (auto simp: cil_cmp_def Let_def)

section \<open>The arena\<close>

text \<open>The lists of the arena, and its invariant.\<close>

definition cils :: "cilar \<Rightarrow> cil set" where
  "cils ca = items_of (cil_avl ca)"

definition cilar_ok :: "cilar \<Rightarrow> bool" where
  "cilar_ok ca \<longleftrightarrow> table_ok (cil_avl ca) \<and> avl_compare (cil_avl ca) = cil_cmp
     \<and> (\<forall>c \<in> cils ca. fst c < cil_obs ca) \<and> inj_on fst (cils ca) \<and> inj_on snd (cils ca)
     \<and> avl_count (cil_avl ca) \<le> cil_obs ca \<and> 2 \<le> t_capacity (cil_buffer ca)"

text \<open>The items written to the buffer, and the list in it.\<close>

definition written :: "dstack \<Rightarrow> int list \<Rightarrow> bool" where
  "written s xs \<longleftrightarrow> length xs < t_capacity s \<and> (\<forall>i < length xs. t_cells s ! Suc i = Some (xs ! i))"

definition buffer_holds :: "dstack \<Rightarrow> int list \<Rightarrow> bool" where
  "buffer_holds s xs \<longleftrightarrow> written s xs \<and> t_cells s ! 0 = Some (int (length xs))"

lemma cells_get_runs:
  "i + length xs \<le> t_capacity s \<Longrightarrow> \<forall>j < length xs. t_cells s ! (i + j) = Some (xs ! j) \<Longrightarrow> cells_get s i (length xs) = Some xs"
proof (induction xs arbitrary: i)
  case (Cons x xs)
  from Cons.prems(2) have "\<forall>j < length xs. t_cells s ! (Suc i + j) = Some (xs ! j)" by fastforce
  with Cons have "cells_get s (Suc i) (length xs) = Some xs" by simp
  moreover have "cell_get s i = Some x" using Cons.prems by (auto simp: cell_get_def)
  ultimately show ?case by simp
qed simp

lemma buffer_items_runs: "buffer_holds s xs \<Longrightarrow> buffer_items s = Some xs"
  using cells_get_runs [of 1 xs s] by (simp add: buffer_holds_def written_def buffer_items_def cell_get_def)

lemma written_empty: "2 \<le> t_capacity s \<Longrightarrow> written s []"
  by (simp add: written_def)

lemma cell_put_capacity: "cell_put s i x = Some s' \<Longrightarrow> t_capacity s' = t_capacity s"
  by (auto simp: cell_put_def t_capacity_def run_simps)

lemma item_put_runs:
  assumes "written s ys" "Suc (length ys) < t_capacity s"
  obtains s' where "item_put s (length ys) x = Some s'" "written s' (ys @ [x])" "t_capacity s' = t_capacity s"
proof -
  let ?s = "s\<lparr>t_cells := (t_cells s)[Suc (length ys) := Some x]\<rparr>"
  have "written ?s (ys @ [x])" using assms by (auto simp: written_def t_capacity_def nth_append nth_list_update less_Suc_eq)
  with assms(2) show thesis by (intro that [of ?s]) (simp_all add: item_put_def cell_put_def t_capacity_def)
qed

text \<open>The number of the items makes a list of them.\<close>

lemma count_put:
  assumes "written s xs"
  obtains s' where "cell_put s 0 (int (length xs)) = Some s'" "buffer_holds s' xs" "t_capacity s' = t_capacity s"
proof -
  let ?s = "s\<lparr>t_cells := (t_cells s)[0 := Some (int (length xs))]\<rparr>"
  have "0 < t_capacity s" using assms by (simp add: written_def)
  moreover from this have "buffer_holds ?s xs" using assms by (simp add: buffer_holds_def written_def t_capacity_def)
  ultimately show thesis by (intro that [of ?s]) (simp_all add: cell_put_def t_capacity_def)
qed

lemma add_runs:
  assumes ok: "cilar_ok ca" and s: "buffer_holds (cil_buffer ca) xs" and room: "cil_obs ca + 1 < SIZE_MOD"
  obtains n ca' where "cil_buffer_add ca = Some ((n, xs), ca')" "cilar_ok ca'" "cils ca' = insert (n, xs) (cils ca)"
    "cil_buffer ca' = cil_buffer ca" "cil_obs ca' \<le> Suc (cil_obs ca)"
proof -
  let ?T = "cil_avl ca" and ?new = "(cil_obs ca, xs)"
  have T: "table_ok ?T" "avl_compare ?T = cil_cmp" "avl_count ?T + 1 < SIZE_MOD" using ok room by (auto simp: cilar_ok_def)
  show thesis
  proof (cases "xs \<in> snd ` cils ca")
    case True
    then obtain n where n: "(n, xs) \<in> cils ca" by auto
    then have "marpa_avl_find ?T ?new = Some (n, xs)"
      using cil.find_item [OF T(1,2), of "(n, xs)"] by (simp add: cils_def cil_cmp_0)
    with n ok buffer_items_runs [OF s] show thesis by (intro that [of n ca]) (auto simp: cil_buffer_add_def)
  next
    case False
    then have new: "\<forall>y \<in> items_of ?T. cil_cmp ?new y \<noteq> 0" by (auto simp: cils_def cil_cmp_0)
    from cil.insert_new [OF T new] obtain T' where T': "marpa_avl_insert ?T ?new = Some (None, T')" "table_ok T'"
      "avl_compare T' = cil_cmp" "items_of T' = insert ?new (items_of ?T)" "avl_count T' = avl_count ?T + 1" .
    let ?ca = "ca\<lparr>cil_obs := Suc (cil_obs ca), cil_avl := T'\<rparr>"
    have "cil_buffer_add ca = Some (?new, ?ca)"
      using T'(1) buffer_items_runs [OF s] cil.find_missing [OF T(1,2) new] by (simp add: cil_buffer_add_def)
    moreover have "cils ?ca = insert ?new (cils ca)" using T'(4) by (simp add: cils_def)
    moreover from this have "cilar_ok ?ca"
      using ok T'(2,3,5) False by (auto simp: cilar_ok_def less_Suc_eq image_iff)
    ultimately show thesis using that [of "cil_obs ca" ?ca] by simp
  qed
qed

section \<open>Building lists\<close>

lemma copy_runs:
  "written s ys \<Longrightarrow> length ys + length xs < t_capacity s \<Longrightarrow>
    \<exists>s'. copy_items xs (length ys) s = Some (length ys + length xs, s') \<and> written s' (ys @ xs) \<and> t_capacity s' = t_capacity s"
proof (induction xs arbitrary: ys s)
  case (Cons x xs)
  have "Suc (length ys) < t_capacity s" using Cons.prems(2) by simp
  from item_put_runs [OF Cons.prems(1) this] obtain s1 where
    s1: "item_put s (length ys) x = Some s1" "written s1 (ys @ [x])" "t_capacity s1 = t_capacity s" .
  from Cons.IH [OF s1(2)] Cons.prems(2) s1(3) obtain s' where
    "copy_items xs (Suc (length ys)) s1 = Some (Suc (length ys + length xs), s')" "written s' (ys @ x # xs)"
    "t_capacity s' = t_capacity s" by auto
  with s1(1) show ?case by auto
qed simp

text \<open>What the merge computes: two ascending lists without what is in both twice.\<close>

fun merged :: "int list \<Rightarrow> int list \<Rightarrow> int list" where
  "merged (a # as) (b # bs) =
     (if a < b then a # merged as (b # bs) else if b < a then b # merged (a # as) bs else a # merged as bs)"
| "merged as bs = as @ bs"

abbreviation ascending :: "int list \<Rightarrow> bool" where
  "ascending \<equiv> sorted_wrt (<)"

lemma merged_set [simp]: "set (merged as bs) = set as \<union> set bs"
  by (induction as bs rule: merged.induct) auto

lemma merged_ascending: "ascending as \<Longrightarrow> ascending bs \<Longrightarrow> ascending (merged as bs)"
  by (induction as bs rule: merged.induct) auto

lemma merged_length: "length (merged as bs) \<le> length as + length bs"
  by (induction as bs rule: merged.induct) auto

text \<open>One turn of both: the item taken, and the lists after it.\<close>

lemma merge_turn:
  fixes a b :: int
  obtains x as' bs' where "\<And>ix s. merge_items (a # as) (b # bs) ix s = do { s1 \<leftarrow> item_put s ix x; merge_items as' bs' (Suc ix) s1 }"
    "merged (a # as) (b # bs) = x # merged as' bs'" "length as' + length bs' < length (a # as) + length (b # bs)"
proof (cases a b rule: linorder_cases)
  case less
  then show thesis by (intro that [of a as "b # bs"]) auto
next
  case equal
  then show thesis by (intro that [of a as bs]) auto
next
  case greater
  then show thesis by (intro that [of b "a # as" bs]) auto
qed

lemma merge_runs:
  "written s ys \<Longrightarrow> length ys + length as + length bs < t_capacity s \<Longrightarrow>
    \<exists>as' bs' zs s'. merge_items as bs (length ys) s = Some (as', bs', length ys + length zs, s') \<and> written s' (ys @ zs)
      \<and> t_capacity s' = t_capacity s \<and> merged as bs = zs @ as' @ bs' \<and> length zs + length as' + length bs' \<le> length as + length bs"
proof (induction "length as + length bs" arbitrary: as bs ys s rule: less_induct)
  case less
  show ?case
  proof (cases "as = [] \<or> bs = []")
    case True
    then have "merge_items as bs (length ys) s = Some (as, bs, length ys, s)" "merged as bs = as @ bs"
      by (cases as; cases bs; simp)+
    with less.prems show ?thesis
      by (intro exI [of _ as] exI [of _ bs] exI [of _ "[]"] exI [of _ s]) simp
  next
    case False
    then obtain a as0 b bs0 where eq: "as = a # as0" "bs = b # bs0" by (meson list.exhaust)
    obtain x as1 bs1 where t: "\<And>ix s. merge_items as bs ix s = do { s1 \<leftarrow> item_put s ix x; merge_items as1 bs1 (Suc ix) s1 }"
      "merged as bs = x # merged as1 bs1" "length as1 + length bs1 < length as + length bs"
      unfolding eq by (rule merge_turn [of a as0 b bs0]) blast
    have "Suc (length ys) < t_capacity s" using less.prems(2) t(3) by simp
    from item_put_runs [OF less.prems(1) this] obtain s1 where
      s1: "item_put s (length ys) x = Some s1" "written s1 (ys @ [x])" "t_capacity s1 = t_capacity s" .
    have "length (ys @ [x]) + length as1 + length bs1 < t_capacity s1" using less.prems(2) t(3) s1(3) by simp
    from less.hyps [OF t(3) s1(2) this] obtain as' bs' zs s' where
      "merge_items as1 bs1 (length (ys @ [x])) s1 = Some (as', bs', length (ys @ [x]) + length zs, s')"
      "written s' ((ys @ [x]) @ zs)" "t_capacity s' = t_capacity s1" "merged as1 bs1 = zs @ as' @ bs'"
      "length zs + length as' + length bs' \<le> length as1 + length bs1" by blast
    with s1 t show ?thesis
      by (intro exI [of _ as'] exI [of _ bs'] exI [of _ "x # zs"] exI [of _ s']) simp
  qed
qed

lemma reserve_runs:
  assumes "2 \<le> t_capacity s"
  shows "n < t_capacity (cil_buffer_reserve s n)" "2 \<le> t_capacity (cil_buffer_reserve s n)"
  using assms by (auto simp: cil_buffer_reserve_def marpa_dstack_resize_def t_capacity_def)

text \<open>A list is finished by its count and the look-up.\<close>

lemma finish_runs:
  assumes ok: "cilar_ok ca" and room: "cil_obs ca + 1 < SIZE_MOD" and s: "written s xs" "2 \<le> t_capacity s"
  obtains n ca' s' where "cell_put s 0 (int (length xs)) = Some s'" "cil_buffer_add (ca\<lparr>cil_buffer := s'\<rparr>) = Some ((n, xs), ca')"
    "cilar_ok ca'" "cils ca' = insert (n, xs) (cils ca)" "cil_obs ca' \<le> Suc (cil_obs ca)"
proof -
  from count_put [OF s(1)] obtain s' where s': "cell_put s 0 (int (length xs)) = Some s'" "buffer_holds s' xs" "t_capacity s' = t_capacity s" .
  let ?ca = "ca\<lparr>cil_buffer := s'\<rparr>"
  have "cilar_ok ?ca" "buffer_holds (cil_buffer ?ca) xs" "cil_obs ?ca + 1 < SIZE_MOD"
    using ok s' s(2) room by (simp_all add: cilar_ok_def cils_def)
  from add_runs [OF this] obtain n ca' where
    "cil_buffer_add ?ca = Some ((n, xs), ca')" "cilar_ok ca'" "cils ca' = insert (n, xs) (cils ?ca)"
    "cil_obs ca' \<le> Suc (cil_obs ?ca)" .
  with s'(1) that show thesis by (simp add: cils_def)
qed

lemma cil_merge_runs:
  assumes ok: "cilar_ok ca" and room: "cil_obs ca + 1 < SIZE_MOD"
  obtains n ca' where "cil_merge ca c1 c2 = Some ((n, merged (snd c1) (snd c2)), ca')" "cilar_ok ca'"
    "cils ca' = insert (n, merged (snd c1) (snd c2)) (cils ca)" "cil_obs ca' \<le> Suc (cil_obs ca)"
proof -
  let ?as = "snd c1" and ?bs = "snd c2"
  let ?s = "cil_buffer_reserve (cil_buffer ca) (length ?as + length ?bs)"
  have "2 \<le> t_capacity (cil_buffer ca)" using ok by (simp add: cilar_ok_def)
  note cap = reserve_runs [OF this, of "length ?as + length ?bs"]
  from merge_runs [OF written_empty [OF cap(2)], of ?as ?bs] cap(1) obtain as' bs' zs s1 where
    m: "merge_items ?as ?bs 0 ?s = Some (as', bs', length zs, s1)" "written s1 zs" "t_capacity s1 = t_capacity ?s"
    "merged ?as ?bs = zs @ as' @ bs'" "length zs + length as' + length bs' \<le> length ?as + length ?bs" by auto
  from copy_runs [OF m(2), of as'] m(3,5) cap(1) obtain s2 where
    s2: "copy_items as' (length zs) s1 = Some (length (zs @ as'), s2)" "written s2 (zs @ as')" "t_capacity s2 = t_capacity ?s" by auto
  from copy_runs [OF s2(2), of bs'] m(5) s2(3) cap(1) obtain s3 where
    s3: "copy_items bs' (length (zs @ as')) s2 = Some (length (merged ?as ?bs), s3)" "written s3 (merged ?as ?bs)"
    "t_capacity s3 = t_capacity ?s" by (auto simp: m(4) add.assoc)
  have "2 \<le> t_capacity s3" using s3(3) cap(2) by simp
  from finish_runs [OF ok room s3(2) this] obtain n ca' s' where
    "cell_put s3 0 (int (length (merged ?as ?bs))) = Some s'"
    "cil_buffer_add (ca\<lparr>cil_buffer := s'\<rparr>) = Some ((n, merged ?as ?bs), ca')"
    "cilar_ok ca'" "cils ca' = insert (n, merged ?as ?bs) (cils ca)" "cil_obs ca' \<le> Suc (cil_obs ca)" .
  with m(1) s2(1) s3(1) that show thesis by (simp add: cil_merge_def)
qed

text \<open>One more item: the part before it, unless it is there already.\<close>

lemma before_runs:
  "written s ys \<Longrightarrow> length ys + length xs < t_capacity s \<Longrightarrow> ascending xs \<Longrightarrow>
    \<exists>r s'. items_before x xs (length ys) s = Some (r, s') \<and> t_capacity s' = t_capacity s
      \<and> (if x \<in> set xs then r = None
         else \<exists>zs vs. r = Some (vs, length (ys @ zs)) \<and> written s' (ys @ zs) \<and> xs = zs @ vs \<and> (\<forall>z \<in> set zs. z < x) \<and> (\<forall>v \<in> set vs. x < v))"
proof (induction xs arbitrary: ys s)
  case (Cons y xs)
  consider "y = x" | "x < y" | "y < x" by linarith
  then show ?case
  proof cases
    case 1
    then show ?thesis by simp
  next
    case 2
    with Cons.prems show ?thesis by auto
  next
    case 3
    have "Suc (length ys) < t_capacity s" using Cons.prems(2) by simp
    from item_put_runs [OF Cons.prems(1) this] obtain s1 where
      s1: "item_put s (length ys) y = Some s1" "written s1 (ys @ [y])" "t_capacity s1 = t_capacity s" .
    have "length (ys @ [y]) + length xs < t_capacity s1" "ascending xs" using Cons.prems(2,3) s1(3) by simp_all
    from Cons.IH [OF s1(2) this] obtain r s' where
      r: "items_before x xs (length (ys @ [y])) s1 = Some (r, s')" "t_capacity s' = t_capacity s1"
      "if x \<in> set xs then r = None
         else \<exists>zs vs. r = Some (vs, length ((ys @ [y]) @ zs)) \<and> written s' ((ys @ [y]) @ zs) \<and> xs = zs @ vs
           \<and> (\<forall>z \<in> set zs. z < x) \<and> (\<forall>v \<in> set vs. x < v)" by blast
    have run: "items_before x (y # xs) (length ys) s = Some (r, s')" using 3 s1(1) r(1) by simp
    show ?thesis
    proof (cases "x \<in> set xs")
      case True
      with run r s1(3) show ?thesis by simp
    next
      case False
      with r(3) obtain zs vs where "r = Some (vs, length ((ys @ [y]) @ zs))" "written s' ((ys @ [y]) @ zs)" "xs = zs @ vs"
        "\<forall>z \<in> set zs. z < x" "\<forall>v \<in> set vs. x < v" by auto
      with run r(2) s1(3) 3 False show ?thesis
        by (intro exI [of _ r] exI [of _ s']) (auto intro!: exI [of _ "y # zs"])
    qed
  qed
qed simp

text \<open>The list of the bits of a vector.\<close>

definition counted :: "dstack \<Rightarrow> int list \<Rightarrow> bool" where
  "counted s xs \<longleftrightarrow> buffer_holds s xs \<and> t_count s = Suc (length xs) \<and> 2 \<le> t_capacity s"

lemma push_runs:
  assumes "t_count s \<le> t_capacity s" "0 < t_capacity s"
  obtains s' where "MARPA_DSTACK_PUSH s x = Some s'" "t_count s' = Suc (t_count s)" "t_capacity s \<le> t_capacity s'"
    "t_count s' \<le> t_capacity s'" "t_cells s' ! t_count s = Some x" "\<forall>i < t_count s. t_cells s' ! i = t_cells s ! i"
proof -
  let ?s1 = "if t_capacity s \<le> t_count s then marpa_dstack_resize s (t_capacity s * 2) else s"
  have s1: "t_count ?s1 = t_count s" "t_count s < t_capacity ?s1" "t_capacity s \<le> t_capacity ?s1"
    "\<And>i. i < t_count s \<Longrightarrow> t_cells ?s1 ! i = t_cells s ! i"
    using assms by (auto simp: marpa_dstack_resize_def t_capacity_def pad_def nth_append)
  let ?s = "?s1\<lparr>t_count := Suc (t_count s), t_cells := (t_cells ?s1)[t_count s := Some x]\<rparr>"
  have "MARPA_DSTACK_PUSH s x = Some ?s"
    using s1(1,2) by (simp add: MARPA_DSTACK_PUSH_def cell_put_def t_capacity_def Let_def)
  moreover have "t_cells ?s ! t_count s = Some x" "\<forall>i < t_count s. t_cells ?s ! i = t_cells s ! i"
    using s1(2,4) by (simp_all add: t_capacity_def)
  ultimately show thesis using s1(2,3) by (intro that [of ?s]) (simp_all add: t_capacity_def)
qed

lemma clear_runs:
  assumes "2 \<le> t_capacity s"
  obtains s' where "cil_buffer_clear s = Some s'" "counted s' []"
proof -
  have "t_count (s\<lparr>t_count := 0\<rparr>) \<le> t_capacity (s\<lparr>t_count := 0\<rparr>)" "0 < t_capacity (s\<lparr>t_count := 0\<rparr>)"
    using assms by (cases "t_cells s"; simp add: t_capacity_def)+
  from push_runs [OF this, of 0] obtain s' where s': "MARPA_DSTACK_PUSH (s\<lparr>t_count := 0\<rparr>) 0 = Some s'"
    "t_count s' = 1" "t_capacity s \<le> t_capacity s'" "t_cells s' ! 0 = Some 0"
    by (auto simp: t_capacity_def)
  with assms show thesis
    by (intro that [of s']) (simp_all add: cil_buffer_clear_def counted_def buffer_holds_def written_def)
qed

lemma buffer_push_runs:
  assumes "counted s xs"
  obtains s' where "cil_buffer_push s x = Some s'" "counted s' (xs @ [x])"
proof -
  have s: "t_count s = Suc (length xs)" "2 \<le> t_capacity s" "length xs < t_capacity s" "t_cells s ! 0 = Some (int (length xs))"
    "\<forall>i < length xs. t_cells s ! Suc i = Some (xs ! i)"
    using assms by (simp_all add: counted_def buffer_holds_def written_def)
  then have "t_count s \<le> t_capacity s" "0 < t_capacity s" by simp_all
  from push_runs [OF this, of x] obtain s1 where s1: "MARPA_DSTACK_PUSH s x = Some s1" "t_count s1 = Suc (t_count s)"
    "t_capacity s \<le> t_capacity s1" "t_count s1 \<le> t_capacity s1" "t_cells s1 ! t_count s = Some x"
    "\<forall>i < t_count s. t_cells s1 ! i = t_cells s ! i" .
  let ?s = "s1\<lparr>t_cells := (t_cells s1)[0 := Some (int (length xs) + 1)]\<rparr>"
  have 0: "cell_get s1 0 = Some (int (length xs))" "0 < t_capacity s1" using s s1(3,6) by (simp_all add: cell_get_def)
  have "cil_buffer_push s x = Some ?s" using s1(1) 0 by (simp add: cil_buffer_push_def cell_put_def)
  moreover have old: "\<forall>i < length xs. t_cells s1 ! Suc i = Some (xs ! i)" using s(1,5) s1(6) by simp
  have "counted ?s (xs @ [x])"
    using s(1-3) s1(2-5) old 0(2) by (auto simp: counted_def buffer_holds_def written_def t_capacity_def nth_append less_Suc_eq)
  ultimately show thesis by (rule that)
qed

lemma pushes_run: "counted s xs \<Longrightarrow> \<exists>s'. each (\<lambda>i s. cil_buffer_push s (int i)) is s = Some s' \<and> counted s' (xs @ map int is)"
proof (induction "is" arbitrary: s xs)
  case (Cons i "is")
  from buffer_push_runs [OF Cons.prems, of "int i"] obtain s1 where
    s1: "cil_buffer_push s (int i) = Some s1" "counted s1 (xs @ [int i])" .
  from Cons.IH [OF s1(2)] s1(1) show ?case by auto
qed simp

section \<open>The lists that the operations return\<close>

text \<open>The list of a set, ascending.\<close>

abbreviation list_of :: "int set \<Rightarrow> int list" where
  "list_of A \<equiv> sorted_list_of_set A"

lemma ascending_list_of: "ascending xs \<Longrightarrow> set xs = A \<Longrightarrow> xs = list_of A"
  by (intro strict_sorted_equal) auto

lemma merged_list_of: "ascending as \<Longrightarrow> ascending bs \<Longrightarrow> merged as bs = list_of (set as \<union> set bs)"
  by (rule ascending_list_of) (simp_all add: merged_ascending)

text \<open>The list \<open>xs\<close> is now in the arena, at the one place of its items.\<close>

definition interned :: "cilar \<Rightarrow> int list \<Rightarrow> cil \<Rightarrow> cilar \<Rightarrow> bool" where
  "interned ca xs c ca' \<longleftrightarrow> snd c = xs \<and> cilar_ok ca' \<and> cils ca' = insert c (cils ca) \<and> cil_obs ca' \<le> Suc (cil_obs ca)
     \<and> (\<forall>d \<in> cils ca. snd d = xs \<longrightarrow> d = c)"

lemma internedI:
  "cilar_ok ca' \<Longrightarrow> cils ca' = insert (n, xs) (cils ca) \<Longrightarrow> cil_obs ca' \<le> Suc (cil_obs ca) \<Longrightarrow> interned ca xs (n, xs) ca'"
  unfolding interned_def cilar_ok_def inj_on_def by auto

text \<open>C35: the merge of two ascending lists is the ascending list of their union, found in the arena
  or added to it, so that the pointer is that of every list with these items.\<close>

theorem cil_merge_unites:
  assumes "cilar_ok ca" "cil_obs ca + 1 < SIZE_MOD" "ascending (snd c1)" "ascending (snd c2)"
  shows "\<exists>c ca'. cil_merge ca c1 c2 = Some (c, ca') \<and> interned ca (list_of (set (snd c1) \<union> set (snd c2))) c ca'"
proof -
  from cil_merge_runs [OF assms(1,2), of c1 c2] obtain n ca' where
    "cil_merge ca c1 c2 = Some ((n, merged (snd c1) (snd c2)), ca')" "interned ca (merged (snd c1) (snd c2)) (n, merged (snd c1) (snd c2)) ca'"
    by (metis internedI)
  then show ?thesis by (auto simp: merged_list_of [OF assms(3,4)])
qed

definition demo_cilar :: cilar where
  "demo_cilar = \<lparr>cil_obs = 1, cil_avl = \<lparr>avl_root = Node 0 NoNode (0, [1, 3, 5]) 0 NoNode, avl_compare = cil_cmp,
     avl_obstack = 1, avl_count = 1, avl_generation = 0\<rparr>, cil_buffer = MARPA_DSTACK_INIT 2\<rparr>"

lemma demo_cilar_ok: "cilar_ok demo_cilar"
  by (auto simp: cilar_ok_def demo_cilar_def table_ok_def ordered_def SIZE_MOD_def cil.total_compare_axioms cils_def items_of_def
      MARPA_DSTACK_INIT_def t_capacity_def)

theorem cil_merge_unites_witness:
  "\<exists>c ca'. cil_merge demo_cilar (0, [1, 3]) (1, [3, 5]) = Some (c, ca') \<and> interned demo_cilar [1, 3, 5] c ca'"
proof -
  have "list_of (set [1, 3] \<union> set [3, 5]) = [1, 3, 5]" by (rule ascending_list_of [symmetric]) auto
  then show ?thesis
    using cil_merge_unites [OF demo_cilar_ok, of "(0, [1, 3])" "(1, [3, 5])"] by (simp add: demo_cilar_def SIZE_MOD_def)
qed

text \<open>The list of one more item, or none when the item is in the list already.\<close>

lemma cil_merge_one_adds:
  assumes ok: "cilar_ok ca" and room: "cil_obs ca + 1 < SIZE_MOD" and c: "ascending (snd c)"
  shows "\<exists>r ca'. cil_merge_one ca c x = Some (r, ca')
    \<and> (case r of None \<Rightarrow> x \<in> set (snd c) \<and> cilar_ok ca' \<and> cils ca' = cils ca
        | Some d \<Rightarrow> x \<notin> set (snd c) \<and> interned ca (list_of (insert x (set (snd c)))) d ca')"
proof -
  let ?xs = "snd c"
  let ?s = "cil_buffer_reserve (cil_buffer ca) (length ?xs + 1)"
  have "2 \<le> t_capacity (cil_buffer ca)" using ok by (simp add: cilar_ok_def)
  note cap = reserve_runs [OF this, of "length ?xs + 1"]
  have "length [] + length ?xs < t_capacity ?s" using cap(1) by simp
  from before_runs [OF written_empty [OF cap(2)] this c, of x, unfolded append_Nil list.size(3)] obtain r s1 where
    r: "items_before x ?xs 0 ?s = Some (r, s1)" "t_capacity s1 = t_capacity ?s" "if x \<in> set ?xs then r = None
         else \<exists>zs vs. r = Some (vs, length zs) \<and> written s1 zs \<and> ?xs = zs @ vs \<and> (\<forall>z \<in> set zs. z < x) \<and> (\<forall>v \<in> set vs. x < v)"
    by blast
  show ?thesis
  proof (cases "x \<in> set ?xs")
    case True
    moreover have "cilar_ok (ca\<lparr>cil_buffer := s1\<rparr>)" "cils (ca\<lparr>cil_buffer := s1\<rparr>) = cils ca"
      using ok r(2) cap(2) by (simp_all add: cilar_ok_def cils_def)
    ultimately show ?thesis using r by (simp add: cil_merge_one_def)
  next
    case False
    with r(3) obtain zs vs where v: "r = Some (vs, length zs)" "written s1 zs" "?xs = zs @ vs" "\<forall>z \<in> set zs. z < x" "\<forall>v \<in> set vs. x < v"
      by auto
    have "Suc (length zs) < t_capacity s1" using r(2) v(3) cap(1) by simp
    from item_put_runs [OF v(2) this] obtain s2 where
      s2: "item_put s1 (length zs) x = Some s2" "written s2 (zs @ [x])" "t_capacity s2 = t_capacity s1" .
    have "length (zs @ [x]) + length vs < t_capacity s2" using r(2) s2(3) v(3) cap(1) by simp
    from copy_runs [OF s2(2) this] obtain s3 where
      s3: "copy_items vs (Suc (length zs)) s2 = Some (length (zs @ x # vs), s3)" "written s3 (zs @ x # vs)" "t_capacity s3 = t_capacity s2" by auto
    have "2 \<le> t_capacity s3" using cap(2) s3(3) s2(3) r(2) by simp
    from finish_runs [OF ok room s3(2) this] obtain n ca' s' where
      "cell_put s3 0 (int (length (zs @ x # vs))) = Some s'" "cil_buffer_add (ca\<lparr>cil_buffer := s'\<rparr>) = Some ((n, zs @ x # vs), ca')"
      and i: "cilar_ok ca'" "cils ca' = insert (n, zs @ x # vs) (cils ca)" "cil_obs ca' \<le> Suc (cil_obs ca)" .
    then have "cil_merge_one ca c x = Some (Some (n, zs @ x # vs), ca')"
      using r(1) v(1) s2(1) s3(1) by (simp add: cil_merge_one_def)
    moreover have "zs @ x # vs = list_of (insert x (set ?xs))"
      using v(3-5) c by (intro ascending_list_of) (auto simp: sorted_wrt_append)
    ultimately show ?thesis using internedI [OF i] False by auto
  qed
qed

lemma bv_add_runs:
  assumes ok: "cilar_ok ca" and room: "cil_obs ca + 1 < SIZE_MOD" and v: "bv_ok m v n"
  obtains c ca' where "cil_bv_add ca m v = Some ((c, ca'), m)" "interned ca (map int (sorted_list_of_set (bits_at m v n))) c ca'"
proof -
  have "2 \<le> t_capacity (cil_buffer ca)" using ok by (simp add: cilar_ok_def)
  from clear_runs [OF this] obtain s where s: "cil_buffer_clear (cil_buffer ca) = Some s" "counted s []" .
  let ?is = "sorted_list_of_set (bits_at m v n)"
  from pushes_run [OF s(2), of ?is] obtain s1 where
    s1: "each (\<lambda>i s. cil_buffer_push s (int i)) ?is s = Some s1" "counted s1 (map int ?is)" by auto
  let ?ca = "ca\<lparr>cil_buffer := s1\<rparr>"
  have "cilar_ok ?ca" "buffer_holds (cil_buffer ?ca) (map int ?is)" "cil_obs ?ca + 1 < SIZE_MOD"
    using ok s1(2) room by (simp_all add: cilar_ok_def cils_def counted_def)
  from add_runs [OF this] obtain k ca' where a: "cil_buffer_add ?ca = Some ((k, map int ?is), ca')" "cilar_ok ca'"
    "cils ca' = insert (k, map int ?is) (cils ?ca)" "cil_obs ca' \<le> Suc (cil_obs ?ca)" .
  then have "interned ca (map int ?is) (k, map int ?is) ca'" by (intro internedI) (simp_all add: cils_def)
  moreover have "bits_at m v n \<inter> {0..} = bits_at m v n" by auto
  then have "cil_bv_add ca m v = Some (((k, map int ?is), ca'), m)"
    using s(1) s1(1) a(1) by (simp add: cil_bv_add_def scan_loop_runs [OF v])
  ultimately show thesis using that by blast
qed

lemma cil_init_ok: "\<exists>ca. cilar_init = Some ca \<and> cilar_ok ca \<and> cils ca = {}"
  by (auto simp: cilar_init_def cell_put_def MARPA_DSTACK_INIT_def t_capacity_def cilar_ok_def cils_def
      intro: create_ok cil.total_compare_axioms)

end
