(* ===== verification/GrammarOptions.thy ===== *)
theory GrammarOptions
  imports MarpaGrammar
begin

text \<open>
  The other functions of the interface of a grammar (\<open>src/libmarpa-dist/marpa.c\<close>): what it tells about its
  symbols and rules, the ranks, the event marks and the other settings, its events and errors, and the
  zero-width assertions.
\<close>

section \<open>Versions\<close>

text \<open>The version of the library.\<close>

definition marpa_check_version :: "int \<times> int \<times> int \<Rightarrow> int \<Rightarrow> int \<Rightarrow> int \<Rightarrow> int" where
  "marpa_check_version library required_major required_minor required_micro =
     (case library of (marpa_major_version, marpa_minor_version, marpa_micro_version) \<Rightarrow>
        if required_major \<noteq> marpa_major_version then MARPA_ERR_MAJOR_VERSION_MISMATCH
        else if required_minor \<noteq> marpa_minor_version then MARPA_ERR_MINOR_VERSION_MISMATCH
        else if required_micro \<noteq> marpa_micro_version then MARPA_ERR_MICRO_VERSION_MISMATCH
        else MARPA_ERR_NONE)"

definition marpa_version :: "int \<times> int \<times> int \<Rightarrow> int \<times> int list" where
  "marpa_version library = (case library of (major, minor, micro) \<Rightarrow> (0, [major, minor, micro]))"

section \<open>The grammar as a whole\<close>

definition marpa_g_highest_symbol_id :: "marpa_g \<Rightarrow> int \<times> marpa_g" where
  "marpa_g_highest_symbol_id g = or_else (g_fail_if_fatal g) (int (length (t_xsys g)) - 1, g)"

definition marpa_g_highest_rule_id :: "marpa_g \<Rightarrow> int \<times> marpa_g" where
  "marpa_g_highest_rule_id g = or_else (g_fail_if_fatal g) (int (length (t_xrls g)) - 1, g)"

definition marpa_g_is_precomputed :: "marpa_g \<Rightarrow> int \<times> marpa_g" where
  "marpa_g_is_precomputed g = or_else (g_fail_if_fatal g) (of_bool (t_is_precomputed g), g)"

definition marpa_g_has_cycle :: "marpa_g \<Rightarrow> int \<times> marpa_g" where
  "marpa_g_has_cycle g = or_else (g_fail_if_fatal g) (of_bool (t_has_cycle g), g)"

text \<open>The first part of \<open>marpa_g_event\<close> is its value; then what is stored in \<open>public_event\<close>, if anything.\<close>

definition marpa_g_event :: "marpa_g \<Rightarrow> int \<Rightarrow> int \<times> (int \<times> int) option \<times> marpa_g" where
  "marpa_g_event g ix =
     (case first_failure [fail_if (ix < 0) MARPA_ERR_EVENT_IX_NEGATIVE (- 2) g,
        fail_if (ix \<ge> int (length (t_events g))) MARPA_ERR_EVENT_IX_OOB (- 2) g]
      of Some (result, g1) \<Rightarrow> (result, None, g1)
      | None \<Rightarrow> (fst (t_events g ! nat ix), Some (t_events g ! nat ix), g))"

definition marpa_g_event_count :: "marpa_g \<Rightarrow> int \<times> marpa_g" where
  "marpa_g_event_count g = or_else (g_fail_if_fatal g) (int (length (t_events g)), g)"

definition marpa_g_error :: "marpa_g \<Rightarrow> int \<times> string option" where
  "marpa_g_error g = (g_error g, t_error_string g)"

definition marpa_g_error_clear :: "marpa_g \<Rightarrow> int \<times> marpa_g" where
  "marpa_g_error_clear g = (let g1 = snd (clear_error g) in (g_error g1, g1))"

section \<open>Ranks\<close>

definition MAXIMUM_RANK :: int where
  "MAXIMUM_RANK = 2147483647 div 4"

definition MINIMUM_RANK :: int where
  "MINIMUM_RANK = - (2147483648 div 4)"

definition marpa_g_default_rank :: "marpa_g \<Rightarrow> int \<times> marpa_g" where
  "marpa_g_default_rank g = (let g1 = snd (clear_error g) in or_else (g_fail_if_fatal g1) (t_default_rank g1, g1))"

definition fail_if_rank :: "int \<Rightarrow> marpa_g \<Rightarrow> check" where
  "fail_if_rank rank g = first_failure
     [fail_if (rank < MINIMUM_RANK) MARPA_ERR_RANK_TOO_LOW (- 2) g, fail_if (rank > MAXIMUM_RANK) MARPA_ERR_RANK_TOO_HIGH (- 2) g]"

definition marpa_g_default_rank_set :: "marpa_g \<Rightarrow> int \<Rightarrow> int \<times> marpa_g" where
  "marpa_g_default_rank_set g rank =
     (let g1 = snd (clear_error g) in
      or_else (first_failure [g_fail_if_fatal g1, fail_if_precomputed g1, fail_if_rank rank g1])
        (rank, g1\<lparr>t_default_rank := rank\<rparr>))"

definition marpa_g_symbol_rank :: "marpa_g \<Rightarrow> int \<Rightarrow> int \<times> marpa_g" where
  "marpa_g_symbol_rank g xsy_id =
     (let g1 = snd (clear_error g) in
      or_else (first_failure [g_fail_if_fatal g1, fail_if_xsy_id_is_malformed g1 xsy_id, no_such_symbol (- 2) g1 xsy_id])
        (xsy_rank (XSY_by_ID g1 xsy_id), g1))"

definition marpa_g_symbol_rank_set :: "marpa_g \<Rightarrow> int \<Rightarrow> int \<Rightarrow> int \<times> marpa_g" where
  "marpa_g_symbol_rank_set g xsy_id rank =
     (let g1 = snd (clear_error g) in
      or_else (first_failure [g_fail_if_fatal g1, fail_if_precomputed g1, fail_if_xsy_id_is_malformed g1 xsy_id,
         no_such_symbol (- 2) g1 xsy_id, fail_if_rank rank g1])
        (rank, xsy_update (nat xsy_id) (\<lambda>xsy. xsy\<lparr>xsy_rank := rank\<rparr>) g1))"

definition marpa_g_rule_rank :: "marpa_g \<Rightarrow> int \<Rightarrow> int \<times> marpa_g" where
  "marpa_g_rule_rank g xrl_id =
     (let g1 = snd (clear_error g) in
      or_else (first_failure [g_fail_if_fatal g1, fail_if_xrl_id_is_malformed g1 xrl_id, no_such_rule (- 2) g1 xrl_id])
        (xrl_rank (XRL_by_ID g1 xrl_id), g1))"

definition marpa_g_rule_rank_set :: "marpa_g \<Rightarrow> int \<Rightarrow> int \<Rightarrow> int \<times> marpa_g" where
  "marpa_g_rule_rank_set g xrl_id rank =
     (let g1 = snd (clear_error g) in
      or_else (first_failure [g_fail_if_fatal g1, fail_if_precomputed g1, fail_if_xrl_id_is_malformed g1 xrl_id,
         no_such_rule (- 2) g1 xrl_id, fail_if_rank rank g1])
        (rank, xrl_update (nat xrl_id) (\<lambda>xrl. xrl\<lparr>xrl_rank := rank\<rparr>) g1))"

section \<open>Symbols\<close>

text \<open>The checks for a symbol, and those that need a precomputed grammar.\<close>

definition symbol_checks :: "marpa_g \<Rightarrow> int \<Rightarrow> check" where
  "symbol_checks g xsy_id = first_failure
     [g_fail_if_fatal g, fail_if_xsy_id_is_malformed g xsy_id, no_such_symbol (- 1) g xsy_id]"

definition precomputed_symbol_checks :: "marpa_g \<Rightarrow> int \<Rightarrow> check" where
  "precomputed_symbol_checks g xsy_id = first_failure
     [g_fail_if_fatal g, fail_if_not_precomputed g, fail_if_xsy_id_is_malformed g xsy_id, no_such_symbol (- 1) g xsy_id]"

text \<open>\<open>marpa_g_force_valued\<close> stops at the first symbol that is locked as unvalued.\<close>

fun force_valued :: "marpa_g \<Rightarrow> nat list \<Rightarrow> int \<times> marpa_g" where
  "force_valued g [] = (0, g\<lparr>t_force_valued := True\<rparr>)"
| "force_valued g (xsyid # ids) =
     (if \<not> xsy_is_valued (t_xsys g ! xsyid) \<and> xsy_is_valued_locked (t_xsys g ! xsyid) then fail MARPA_ERR_VALUED_IS_LOCKED g
      else force_valued (xsy_update xsyid (\<lambda>xsy. xsy\<lparr>xsy_is_valued := True, xsy_is_valued_locked := True\<rparr>) g) ids)"

definition marpa_g_force_valued :: "marpa_g \<Rightarrow> int \<times> marpa_g" where
  "marpa_g_force_valued g = force_valued g [0..<length (t_xsys g)]"

definition marpa_g_symbol_is_valued :: "marpa_g \<Rightarrow> int \<Rightarrow> int \<times> marpa_g" where
  "marpa_g_symbol_is_valued g xsy_id = or_else
     (first_failure [fail_if_xsy_id_is_malformed g xsy_id, no_such_symbol (- 1) g xsy_id])
     (of_bool (xsy_is_valued (XSY_by_ID g xsy_id)), g)"

definition marpa_g_symbol_is_valued_set :: "marpa_g \<Rightarrow> int \<Rightarrow> int \<Rightarrow> int \<times> marpa_g" where
  "marpa_g_symbol_is_valued_set g xsy_id val = or_else
     (first_failure [fail_if_xsy_id_is_malformed g xsy_id, no_such_symbol (- 1) g xsy_id,
        fail_if (val < 0 \<or> val > 1) MARPA_ERR_INVALID_BOOLEAN (- 2) g,
        fail_if (xsy_is_valued_locked (XSY_by_ID g xsy_id) \<and> val \<noteq> of_bool (xsy_is_valued (XSY_by_ID g xsy_id)))
          MARPA_ERR_VALUED_IS_LOCKED (- 2) g])
     (val, xsy_update (nat xsy_id) (\<lambda>xsy. xsy\<lparr>xsy_is_valued := val \<noteq> 0\<rparr>) g)"

definition marpa_g_symbol_is_start :: "marpa_g \<Rightarrow> int \<Rightarrow> int \<times> marpa_g" where
  "marpa_g_symbol_is_start g xsy_id = or_else (symbol_checks g xsy_id) (of_bool (xsy_is_start (XSY_by_ID g xsy_id)), g)"

definition marpa_g_symbol_is_counted :: "marpa_g \<Rightarrow> int \<Rightarrow> int \<times> marpa_g" where
  "marpa_g_symbol_is_counted g xsy_id = or_else (symbol_checks g xsy_id) (of_bool (xsy_is_counted (XSY_by_ID g xsy_id)), g)"

definition marpa_g_symbol_is_accessible :: "marpa_g \<Rightarrow> int \<Rightarrow> int \<times> marpa_g" where
  "marpa_g_symbol_is_accessible g xsy_id = or_else (precomputed_symbol_checks g xsy_id) (of_bool (xsy_is_accessible (XSY_by_ID g xsy_id)), g)"

definition marpa_g_symbol_is_nulling :: "marpa_g \<Rightarrow> int \<Rightarrow> int \<times> marpa_g" where
  "marpa_g_symbol_is_nulling g xsy_id = or_else (precomputed_symbol_checks g xsy_id) (of_bool (xsy_is_nulling (XSY_by_ID g xsy_id)), g)"

definition marpa_g_symbol_is_nullable :: "marpa_g \<Rightarrow> int \<Rightarrow> int \<times> marpa_g" where
  "marpa_g_symbol_is_nullable g xsy_id = or_else (precomputed_symbol_checks g xsy_id) (of_bool (xsy_is_nullable (XSY_by_ID g xsy_id)), g)"

definition marpa_g_symbol_is_productive :: "marpa_g \<Rightarrow> int \<Rightarrow> int \<times> marpa_g" where
  "marpa_g_symbol_is_productive g xsy_id = or_else (precomputed_symbol_checks g xsy_id) (of_bool (xsy_is_productive (XSY_by_ID g xsy_id)), g)"

text \<open>The event marks of a symbol.\<close>

definition mark_checks :: "marpa_g \<Rightarrow> int \<Rightarrow> int \<Rightarrow> check" where
  "mark_checks g xsy_id val = first_failure
     [g_fail_if_fatal g, fail_if_precomputed g, fail_if_xsy_id_is_malformed g xsy_id, no_such_symbol (- 1) g xsy_id,
      fail_if (val \<notin> {0, 1}) MARPA_ERR_INVALID_BOOLEAN (- 2) g]"

definition marpa_g_symbol_is_completion_event :: "marpa_g \<Rightarrow> int \<Rightarrow> int \<times> marpa_g" where
  "marpa_g_symbol_is_completion_event g xsy_id = or_else (symbol_checks g xsy_id) (of_bool (xsy_is_completion_event (XSY_by_ID g xsy_id)), g)"

definition marpa_g_symbol_is_completion_event_set :: "marpa_g \<Rightarrow> int \<Rightarrow> int \<Rightarrow> int \<times> marpa_g" where
  "marpa_g_symbol_is_completion_event_set g xsy_id val = or_else (mark_checks g xsy_id val)
     (val, xsy_update (nat xsy_id) (\<lambda>xsy. xsy\<lparr>xsy_is_completion_event := val \<noteq> 0\<rparr>) g)"

definition marpa_g_symbol_is_nulled_event :: "marpa_g \<Rightarrow> int \<Rightarrow> int \<times> marpa_g" where
  "marpa_g_symbol_is_nulled_event g xsy_id = or_else (symbol_checks g xsy_id) (of_bool (xsy_is_nulled_event (XSY_by_ID g xsy_id)), g)"

definition marpa_g_symbol_is_nulled_event_set :: "marpa_g \<Rightarrow> int \<Rightarrow> int \<Rightarrow> int \<times> marpa_g" where
  "marpa_g_symbol_is_nulled_event_set g xsy_id val = or_else (mark_checks g xsy_id val)
     (val, xsy_update (nat xsy_id) (\<lambda>xsy. xsy\<lparr>xsy_is_nulled_event := val \<noteq> 0\<rparr>) g)"

definition marpa_g_symbol_is_prediction_event :: "marpa_g \<Rightarrow> int \<Rightarrow> int \<times> marpa_g" where
  "marpa_g_symbol_is_prediction_event g xsy_id = or_else (symbol_checks g xsy_id) (of_bool (xsy_is_prediction_event (XSY_by_ID g xsy_id)), g)"

definition marpa_g_symbol_is_prediction_event_set :: "marpa_g \<Rightarrow> int \<Rightarrow> int \<Rightarrow> int \<times> marpa_g" where
  "marpa_g_symbol_is_prediction_event_set g xsy_id val = or_else (mark_checks g xsy_id val)
     (val, xsy_update (nat xsy_id) (\<lambda>xsy. xsy\<lparr>xsy_is_prediction_event := val \<noteq> 0\<rparr>) g)"

section \<open>Rules\<close>

definition rule_checks :: "marpa_g \<Rightarrow> int \<Rightarrow> check" where
  "rule_checks g xrl_id = first_failure
     [g_fail_if_fatal g, fail_if_xrl_id_is_malformed g xrl_id, no_such_rule (- 1) g xrl_id]"

definition marpa_g_rule_lhs :: "marpa_g \<Rightarrow> int \<Rightarrow> int \<times> marpa_g" where
  "marpa_g_rule_lhs g xrl_id = or_else (rule_checks g xrl_id) (int (LHS_ID_of_XRL (XRL_by_ID g xrl_id)), g)"

definition marpa_g_rule_rhs :: "marpa_g \<Rightarrow> int \<Rightarrow> int \<Rightarrow> int \<times> marpa_g" where
  "marpa_g_rule_rhs g xrl_id ix = or_else (first_failure [rule_checks g xrl_id,
       fail_if (ix < 0) MARPA_ERR_RHS_IX_NEGATIVE (- 2) g,
       fail_if (int (length (RHS_IDs_of_XRL (XRL_by_ID g xrl_id))) \<le> ix) MARPA_ERR_RHS_IX_OOB (- 2) g])
     (int (RHS_IDs_of_XRL (XRL_by_ID g xrl_id) ! nat ix), g)"

definition marpa_g_rule_length :: "marpa_g \<Rightarrow> int \<Rightarrow> int \<times> marpa_g" where
  "marpa_g_rule_length g xrl_id = or_else (rule_checks g xrl_id) (int (length (RHS_IDs_of_XRL (XRL_by_ID g xrl_id))), g)"

definition marpa_g_rule_null_high :: "marpa_g \<Rightarrow> int \<Rightarrow> int \<times> marpa_g" where
  "marpa_g_rule_null_high g xrl_id = or_else (rule_checks g xrl_id) (of_bool (t_null_ranks_high (XRL_by_ID g xrl_id)), g)"

definition marpa_g_rule_null_high_set :: "marpa_g \<Rightarrow> int \<Rightarrow> int \<Rightarrow> int \<times> marpa_g" where
  "marpa_g_rule_null_high_set g xrl_id flag = or_else (first_failure
     [g_fail_if_fatal g, fail_if_precomputed g, fail_if_xrl_id_is_malformed g xrl_id, no_such_rule (- 1) g xrl_id,
      fail_if (flag < 0 \<or> flag > 1) MARPA_ERR_INVALID_BOOLEAN (- 2) g])
     (flag, xrl_update (nat xrl_id) (\<lambda>xrl. xrl\<lparr>t_null_ranks_high := flag \<noteq> 0\<rparr>) g)"

definition sequence_checks :: "marpa_g \<Rightarrow> int \<Rightarrow> check" where
  "sequence_checks g xrl_id = first_failure
     [g_fail_if_fatal g, fail_if_xrl_id_is_malformed g xrl_id, no_such_rule (- 2) g xrl_id]"

definition marpa_g_sequence_min :: "marpa_g \<Rightarrow> int \<Rightarrow> int \<times> marpa_g" where
  "marpa_g_sequence_min g xrl_id = or_else (sequence_checks g xrl_id)
     (let xrl = XRL_by_ID g xrl_id in if \<not> t_is_sequence xrl then - 1 else t_minimum xrl, g)"

definition marpa_g_sequence_separator :: "marpa_g \<Rightarrow> int \<Rightarrow> int \<times> marpa_g" where
  "marpa_g_sequence_separator g xrl_id = or_else (sequence_checks g xrl_id)
     (let xrl = XRL_by_ID g xrl_id in if \<not> t_is_sequence xrl then - 1 else t_separator_id xrl, g)"

definition marpa_g_rule_is_keep_separation :: "marpa_g \<Rightarrow> int \<Rightarrow> int \<times> marpa_g" where
  "marpa_g_rule_is_keep_separation g xrl_id = or_else (rule_checks g xrl_id) (of_bool (\<not> t_is_discard (XRL_by_ID g xrl_id)), g)"

definition marpa_g_rule_is_proper_separation :: "marpa_g \<Rightarrow> int \<Rightarrow> int \<times> marpa_g" where
  "marpa_g_rule_is_proper_separation g xrl_id = or_else (rule_checks g xrl_id)
     (of_bool (\<not> t_is_proper_separation (XRL_by_ID g xrl_id)), g)"

definition marpa_g_rule_is_loop :: "marpa_g \<Rightarrow> int \<Rightarrow> int \<times> marpa_g" where
  "marpa_g_rule_is_loop g xrl_id = or_else (first_failure [rule_checks g xrl_id, fail_if_not_precomputed g])
     (of_bool (t_is_loop (XRL_by_ID g xrl_id)), g)"

definition marpa_g_rule_is_nulling :: "marpa_g \<Rightarrow> int \<Rightarrow> int \<times> marpa_g" where
  "marpa_g_rule_is_nulling g xrl_id = or_else (rule_checks g xrl_id) (of_bool (xrl_is_nulling (XRL_by_ID g xrl_id)), g)"

definition marpa_g_rule_is_nullable :: "marpa_g \<Rightarrow> int \<Rightarrow> int \<times> marpa_g" where
  "marpa_g_rule_is_nullable g xrl_id = or_else (rule_checks g xrl_id) (of_bool (xrl_is_nullable (XRL_by_ID g xrl_id)), g)"

definition marpa_g_rule_is_accessible :: "marpa_g \<Rightarrow> int \<Rightarrow> int \<times> marpa_g" where
  "marpa_g_rule_is_accessible g xrl_id = or_else (rule_checks g xrl_id) (of_bool (xrl_is_accessible (XRL_by_ID g xrl_id)), g)"

definition marpa_g_rule_is_productive :: "marpa_g \<Rightarrow> int \<Rightarrow> int \<times> marpa_g" where
  "marpa_g_rule_is_productive g xrl_id = or_else (rule_checks g xrl_id) (of_bool (xrl_is_productive (XRL_by_ID g xrl_id)), g)"

definition marpa_g_rule_is_used :: "marpa_g \<Rightarrow> int \<Rightarrow> int \<times> marpa_g" where
  "marpa_g_rule_is_used g xrl_id = or_else
     (first_failure [fail_if_xrl_id_is_malformed g xrl_id, no_such_rule (- 1) g xrl_id])
     (of_bool (xrl_is_used (XRL_by_ID g xrl_id)), g)"

section \<open>Zero-width assertions\<close>

definition marpa_g_zwa_new :: "marpa_g \<Rightarrow> int \<Rightarrow> int \<times> marpa_g" where
  "marpa_g_zwa_new g default_value = or_else (first_failure
     [g_fail_if_fatal g, fail_if_precomputed g,
      fail_if (default_value < 0 \<or> default_value > 1) MARPA_ERR_INVALID_BOOLEAN (- 2) g])
     (int (length (t_gzwas g)), g\<lparr>t_gzwas := t_gzwas g @ [default_value \<noteq> 0]\<rparr>)"

definition marpa_g_highest_zwa_id :: "marpa_g \<Rightarrow> int \<times> marpa_g" where
  "marpa_g_highest_zwa_id g = or_else (g_fail_if_fatal g) (int (length (t_gzwas g)) - 1, g)"

definition marpa_g_zwa_place :: "marpa_g \<Rightarrow> int \<Rightarrow> int \<Rightarrow> int \<Rightarrow> (int \<times> marpa_g) option" where
  "marpa_g_zwa_place g zwaid xrl_id rhs_ix =
     (let xrl = XRL_by_ID g xrl_id; xrl_length = int (length (RHS_IDs_of_XRL xrl)) in
      case first_failure
        [g_fail_if_fatal g, fail_if_precomputed g, fail_if_xrl_id_is_malformed g xrl_id, no_such_rule (- 1) g xrl_id,
         fail_if (zwaid < 0) MARPA_ERR_INVALID_ASSERTION_ID (- 2) g,
         fail_if (\<not> zwaid < int (length (t_gzwas g))) MARPA_ERR_NO_SUCH_ASSERTION_ID (- 2) g,
         fail_if (rhs_ix < - 1) MARPA_ERR_RHS_IX_NEGATIVE (- 2) g,
         fail_if (xrl_length \<le> rhs_ix) MARPA_ERR_RHS_IX_OOB (- 2) g]
      of Some failure \<Rightarrow> Some failure
      | None \<Rightarrow> do {
          let ix = (if rhs_ix = - 1 then (if t_is_sequence xrl then 1 else xrl_length) else rhs_ix);
          let zwp = (t_zwps g, \<lparr>t_xrl_id = xrl_id, t_dot = ix, t_zwaid = zwaid\<rparr>);
          (found, tree) \<leftarrow> marpa_avl_insert (t_zwp_tree g) zwp;
          Some (if found \<noteq> None then - 1 else 0, g\<lparr>t_zwps := Suc (t_zwps g), t_zwp_tree := tree\<rparr>)
        })"

end
