(* ===== verification/GrammarProps.thy ===== *)
theory GrammarProps
  imports GrammarOptions CilProps
begin

text \<open>
  The invariant of a grammar that is being built: every rule is about symbols that exist, the flags of
  the symbols and the sizes say what the rules are, and the table of BNF rules holds each of them once.
\<close>

section \<open>The order of the rules\<close>

lemma rhs_cmp_0: "length xs = length ys \<Longrightarrow> rhs_cmp xs ys = 0 \<longleftrightarrow> xs = ys"
  by (induction xs ys rule: list_induct2) (auto simp: Let_def)

lemma rhs_cmp_swap: "rhs_cmp ys xs = - rhs_cmp xs ys"
  by (induction xs ys rule: rhs_cmp.induct) (auto simp: Let_def)

lemma rhs_cmp_trans:
  "length xs = length ys \<Longrightarrow> length ys = length zs \<Longrightarrow> rhs_cmp xs ys \<le> 0 \<Longrightarrow> rhs_cmp ys zs \<le> 0 \<Longrightarrow> rhs_cmp xs zs \<le> 0"
  by (induction xs ys zs rule: list_induct3) (auto simp: Let_def split: if_split_asm)

interpretation duplicate_rule: total_compare duplicate_rule_cmp
proof
  fix a b c :: xrl_ptr
  show "duplicate_rule_cmp b a < 0 \<longleftrightarrow> 0 < duplicate_rule_cmp a b"
    using rhs_cmp_swap [of "snd (snd b)" "snd (snd a)"]
    by (auto simp: duplicate_rule_cmp_def Let_def split: prod.split)
  show "duplicate_rule_cmp a b \<le> 0 \<Longrightarrow> duplicate_rule_cmp b c \<le> 0 \<Longrightarrow> duplicate_rule_cmp a c \<le> 0"
    using rhs_cmp_trans [of "snd (snd a)" "snd (snd b)" "snd (snd c)"]
    by (auto simp: duplicate_rule_cmp_def Let_def split: prod.splits if_split_asm)
qed

lemma duplicate_rule_cmp_0: "duplicate_rule_cmp a b = 0 \<longleftrightarrow> snd a = snd b"
  using rhs_cmp_0 [of "snd (snd a)" "snd (snd b)"] by (auto simp: duplicate_rule_cmp_def Let_def split: prod.split)

section \<open>The invariant\<close>

definition bnf_rule :: "marpa_xrl \<Rightarrow> bool" where
  "bnf_rule r \<longleftrightarrow> \<not> t_is_sequence r"

text \<open>A rule on its own, with \<open>n\<close> symbols.\<close>

definition rule_ok :: "nat \<Rightarrow> marpa_xrl \<Rightarrow> bool" where
  "rule_ok n r \<longleftrightarrow> LHS_ID_of_XRL r < n \<and> (\<forall>x \<in> set (RHS_IDs_of_XRL r). x < n)
     \<and> - 1 \<le> t_separator_id r \<and> t_separator_id r < int n
     \<and> (if t_is_sequence r then length (RHS_IDs_of_XRL r) = 1 else t_separator_id r = - 1)
     \<and> t_is_bnf r = bnf_rule r \<and> \<not> t_is_loop r"

text \<open>The symbols that a sequence rule counts.\<close>

definition counts :: "marpa_xrl \<Rightarrow> nat set" where
  "counts r = (if t_is_sequence r
     then set (RHS_IDs_of_XRL r) \<union> (if 0 \<le> t_separator_id r then {nat (t_separator_id r)} else {}) else {})"

text \<open>What the flags of the symbol \<open>s\<close> say of the rules.\<close>

definition flags_ok :: "marpa_xrl list \<Rightarrow> nat \<Rightarrow> marpa_xsy \<Rightarrow> bool" where
  "flags_ok rules s x \<longleftrightarrow> (xsy_is_lhs x \<longleftrightarrow> (\<exists>r \<in> set rules. LHS_ID_of_XRL r = s))
     \<and> (xsy_is_sequence_lhs x \<longleftrightarrow> (\<exists>r \<in> set rules. t_is_sequence r \<and> LHS_ID_of_XRL r = s))
     \<and> (xsy_is_counted x \<longleftrightarrow> (\<exists>r \<in> set rules. s \<in> counts r))"

text \<open>Two rules that must not both be there: a sequence shares its left hand side with no rule, and
  BNF rules differ.\<close>

definition clash :: "marpa_xrl \<Rightarrow> marpa_xrl \<Rightarrow> bool" where
  "clash r q \<longleftrightarrow> LHS_ID_of_XRL r = LHS_ID_of_XRL q
     \<and> (t_is_sequence r \<or> t_is_sequence q \<or> RHS_IDs_of_XRL r = RHS_IDs_of_XRL q)"

definition bnf_items :: "marpa_xrl list \<Rightarrow> xrl_ptr set" where
  "bnf_items rules = (\<lambda>i. (i, LHS_ID_of_XRL (rules ! i), RHS_IDs_of_XRL (rules ! i))) ` {i. i < length rules \<and> bnf_rule (rules ! i)}"

definition rules_ok :: "marpa_g \<Rightarrow> bool" where
  "rules_ok g \<longleftrightarrow> (\<forall>r \<in> set (t_xrls g). rule_ok (length (t_xsys g)) r)
     \<and> (\<forall>s < length (t_xsys g). flags_ok (t_xrls g) s (t_xsys g ! s))
     \<and> (\<forall>i < length (t_xrls g). t_id (t_xrls g ! i) = int i \<and> (\<forall>j < i. \<not> clash (t_xrls g ! i) (t_xrls g ! j)))
     \<and> t_external_size g = (\<Sum>r \<leftarrow> t_xrls g. 1 + length (RHS_IDs_of_XRL r))
     \<and> (\<forall>r \<in> set (t_xrls g). length (RHS_IDs_of_XRL r) \<le> t_max_rule_length g)
     \<and> - 1 \<le> t_start_xsy_id g \<and> t_start_xsy_id g < int (length (t_xsys g))"

text \<open>The table of BNF rules, until it is destroyed.\<close>

definition tree_ok :: "marpa_g \<Rightarrow> bool" where
  "tree_ok g \<longleftrightarrow> (\<forall>T. t_xrl_tree g = Some T \<longrightarrow> table_ok T \<and> avl_compare T = duplicate_rule_cmp
     \<and> items_of T = bnf_items (t_xrls g) \<and> avl_count T \<le> length (t_xrls g))"

text \<open>What a precomputation has not set yet.\<close>

definition fresh_xsy :: "marpa_xsy \<Rightarrow> bool" where
  "fresh_xsy x \<longleftrightarrow> \<not> xsy_is_accessible x \<and> \<not> xsy_is_nulling x \<and> \<not> xsy_is_nullable x \<and> \<not> xsy_is_productive x
     \<and> (xsy_is_terminal x \<longrightarrow> xsy_is_locked_terminal x)"

definition all_fresh :: "marpa_g \<Rightarrow> bool" where
  "all_fresh g \<longleftrightarrow> (\<forall>x \<in> set (t_xsys g). fresh_xsy x)"

definition grammar_ok :: "marpa_g \<Rightarrow> bool" where
  "grammar_ok g \<longleftrightarrow> rules_ok g \<and> tree_ok g \<and> cilar_ok (t_cilar g)
     \<and> table_ok (t_zwp_tree g) \<and> avl_compare (t_zwp_tree g) = zwp_ptr_cmp \<and> avl_count (t_zwp_tree g) \<le> t_zwps g"

definition being_built :: "marpa_g \<Rightarrow> bool" where
  "being_built g \<longleftrightarrow> grammar_ok g \<and> \<not> t_is_precomputed g \<and> \<not> t_has_cycle g \<and> t_xrl_tree g \<noteq> None \<and> all_fresh g"

section \<open>Small steps\<close>

lemma xsy_update_simps [simp]:
  "t_xrls (xsy_update i f g) = t_xrls g" "length (t_xsys (xsy_update i f g)) = length (t_xsys g)"
  "t_external_size (xsy_update i f g) = t_external_size g" "t_max_rule_length (xsy_update i f g) = t_max_rule_length g"
  "t_start_xsy_id (xsy_update i f g) = t_start_xsy_id g" "t_xrl_tree (xsy_update i f g) = t_xrl_tree g"
  "t_cilar (xsy_update i f g) = t_cilar g" "t_zwp_tree (xsy_update i f g) = t_zwp_tree g" "t_zwps (xsy_update i f g) = t_zwps g"
  "t_has_cycle (xsy_update i f g) = t_has_cycle g" "t_is_precomputed (xsy_update i f g) = t_is_precomputed g" "t_default_rank (xsy_update i f g) = t_default_rank g"
  "g_is_ok (xsy_update i f g) = g_is_ok g" "g_header_mismatch (xsy_update i f g) = g_header_mismatch g"
  by (simp_all add: xsy_update_def)

lemma xsy_update_nth: "j < length (t_xsys g) \<Longrightarrow> t_xsys (xsy_update i f g) ! j = (if j = i then f (t_xsys g ! j) else t_xsys g ! j)"
  by (auto simp: xsy_update_def nth_list_update)

lemma xrl_update_simps [simp]:
  "t_xsys (xrl_update i f g) = t_xsys g" "length (t_xrls (xrl_update i f g)) = length (t_xrls g)"
  "t_external_size (xrl_update i f g) = t_external_size g" "t_max_rule_length (xrl_update i f g) = t_max_rule_length g"
  "t_start_xsy_id (xrl_update i f g) = t_start_xsy_id g" "t_xrl_tree (xrl_update i f g) = t_xrl_tree g"
  "t_cilar (xrl_update i f g) = t_cilar g" "t_zwp_tree (xrl_update i f g) = t_zwp_tree g" "t_zwps (xrl_update i f g) = t_zwps g"
  "t_has_cycle (xrl_update i f g) = t_has_cycle g" "t_is_precomputed (xrl_update i f g) = t_is_precomputed g" "t_default_rank (xrl_update i f g) = t_default_rank g"
  "g_is_ok (xrl_update i f g) = g_is_ok g" "g_header_mismatch (xrl_update i f g) = g_header_mismatch g"
  by (simp_all add: xrl_update_def)

lemma set_error_simps [simp]:
  "t_xsys (MARPA_G_ERROR e g) = t_xsys g" "t_xrls (MARPA_G_ERROR e g) = t_xrls g"
  "t_external_size (MARPA_G_ERROR e g) = t_external_size g" "t_max_rule_length (MARPA_G_ERROR e g) = t_max_rule_length g"
  "t_start_xsy_id (MARPA_G_ERROR e g) = t_start_xsy_id g" "t_xrl_tree (MARPA_G_ERROR e g) = t_xrl_tree g"
  "t_cilar (MARPA_G_ERROR e g) = t_cilar g" "t_zwp_tree (MARPA_G_ERROR e g) = t_zwp_tree g" "t_zwps (MARPA_G_ERROR e g) = t_zwps g"
  "t_has_cycle (MARPA_G_ERROR e g) = t_has_cycle g" "t_is_precomputed (MARPA_G_ERROR e g) = t_is_precomputed g" "g_error (MARPA_G_ERROR e g) = e"
  "g_is_ok (MARPA_G_ERROR e g) = g_is_ok g" "g_header_mismatch (MARPA_G_ERROR e g) = g_header_mismatch g"
  "t_events (MARPA_G_ERROR e g) = t_events g"
  by (simp_all add: MARPA_G_ERROR_def set_error_def)

lemma all_fresh_simps [simp]:
  "all_fresh (xrl_update i h g) = all_fresh g" "all_fresh (MARPA_G_ERROR e g) = all_fresh g"
  "all_fresh (rule_add g r) = all_fresh g" "all_fresh (g\<lparr>t_xrl_tree := t\<rparr>) = all_fresh g"
  by (simp_all add: all_fresh_def rule_add_def)

lemma all_fresh_update: "all_fresh g \<Longrightarrow> (\<And>z. fresh_xsy z \<Longrightarrow> fresh_xsy (f z)) \<Longrightarrow> all_fresh (xsy_update i f g)"
proof (cases "i < length (t_xsys g)")
  case True
  then have "t_xsys g ! i \<in> set (t_xsys g)" by simp
  then show "all_fresh g \<Longrightarrow> (\<And>z. fresh_xsy z \<Longrightarrow> fresh_xsy (f z)) \<Longrightarrow> all_fresh (xsy_update i f g)"
    by (auto simp: all_fresh_def xsy_update_def dest!: set_update_subset_insert [THEN subsetD])
qed (simp add: all_fresh_def xsy_update_def list_update_beyond not_less)

lemma error_ok [simp]: "grammar_ok (MARPA_G_ERROR e g) = grammar_ok g" "being_built (MARPA_G_ERROR e g) = being_built g"
  by (simp_all add: grammar_ok_def rules_ok_def tree_ok_def being_built_def)

lemma first_failure_None: "first_failure cs = None \<longleftrightarrow> (\<forall>c \<in> set cs. c = None)"
  by (induction cs) (auto split: option.split)

lemma fail_if_None [simp]: "fail_if b e r g = None \<longleftrightarrow> \<not> b" "fail_if False e r g = None"
  by (simp_all add: fail_if_def)

text \<open>A failed check changes the error only.\<close>

definition only_error :: "marpa_g \<Rightarrow> marpa_g \<Rightarrow> bool" where
  "only_error g g' \<longleftrightarrow> (\<exists>e. g' = MARPA_G_ERROR e g)"

definition refuses :: "marpa_g \<Rightarrow> check \<Rightarrow> bool" where
  "refuses g c \<longleftrightarrow> (\<forall>n g'. c = Some (n, g') \<longrightarrow> n < 0 \<and> only_error g g')"

lemma refuses_first: "\<forall>c \<in> set cs. refuses g c \<Longrightarrow> refuses g (first_failure cs)"
  by (induction cs) (auto simp: refuses_def split: option.split)

lemma refuses_fail_if: "r < 0 \<Longrightarrow> refuses g (fail_if b e r g)"
  by (auto simp: refuses_def fail_if_def only_error_def)

named_theorems checks \<open>the checks of the grammar functions\<close>

lemmas [checks] = g_fail_if_fatal_def fail_if_precomputed_def fail_if_not_precomputed_def fail_if_xsy_id_is_malformed_def
  no_such_symbol_def fail_if_xrl_id_is_malformed_def no_such_rule_def fail_if_rank_def symbol_checks_def
  precomputed_symbol_checks_def mark_checks_def rule_checks_def sequence_checks_def

lemma refuses_checks [simp]:
  "refuses g (g_fail_if_fatal g)" "refuses g (fail_if_precomputed g)" "refuses g (fail_if_not_precomputed g)"
  "refuses g (fail_if_xsy_id_is_malformed g i)" "refuses g (fail_if_xrl_id_is_malformed g i)"
  "r < 0 \<Longrightarrow> refuses g (no_such_symbol r g i)" "r < 0 \<Longrightarrow> refuses g (no_such_rule r g i)"
  "r < 0 \<Longrightarrow> refuses g (fail_if b e r g)" "refuses g (fail_if_rank k g)" "refuses g (symbol_checks g i)"
  "refuses g (precomputed_symbol_checks g i)" "refuses g (mark_checks g i k)" "refuses g (rule_checks g i)"
  "refuses g (sequence_checks g i)" "refuses g None"
  by (auto simp: checks refuses_def only_error_def fail_if_def split: option.splits if_splits)

definition working :: "marpa_g \<Rightarrow> bool" where
  "working g \<longleftrightarrow> \<not> g_header_mismatch g \<and> g_is_ok g"

lemma working_checks [simp]: "working g \<Longrightarrow> g_fail_if_fatal g = None"
  by (simp add: working_def g_fail_if_fatal_def)

lemma fatal_None: "g_fail_if_fatal g = None \<longleftrightarrow> working g"
  unfolding g_fail_if_fatal_def first_failure_None by (auto simp: working_def)

lemma fresh_checks [simp]: "being_built g \<Longrightarrow> fail_if_precomputed g = None"
  by (simp add: being_built_def fail_if_precomputed_def)

lemma only_error_ok: "only_error g g' \<Longrightarrow> grammar_ok g' = grammar_ok g" "only_error g g' \<Longrightarrow> being_built g' = being_built g"
  by (auto simp: only_error_def)

section \<open>Creation\<close>

lemma new_grammar_fresh: "\<exists>g. new_grammar mismatch = Some g \<and> being_built g \<and> g_is_ok g \<and> g_header_mismatch g = mismatch
    \<and> t_xsys g = [] \<and> t_xrls g = []"
proof -
  from cil_init_ok obtain arena where arena: "cilar_init = Some arena" "cilar_ok arena" by blast
  have "total_compare zwp_ptr_cmp"
    by unfold_locales (auto simp: zwp_ptr_cmp_def zwp.swap intro: zwp.trans)
  then have tables: "table_ok (marpa_avl_create zwp_ptr_cmp)" "table_ok (marpa_avl_create duplicate_rule_cmp)"
    by (simp_all add: create_ok duplicate_rule.total_compare_axioms)
  show ?thesis
    unfolding new_grammar_def arena(1) Option.bind.simps
    by (rule exI, rule conjI, rule refl)
      (simp add: being_built_def all_fresh_def grammar_ok_def rules_ok_def tree_ok_def bnf_items_def arena(2) tables)
qed

lemma rule_ok_mono: "rule_ok n r \<Longrightarrow> n \<le> m \<Longrightarrow> rule_ok m r"
  by (auto simp: rule_ok_def)

lemma counts_less: "rule_ok n r \<Longrightarrow> s \<in> counts r \<Longrightarrow> s < n"
  by (auto simp: rule_ok_def counts_def split: if_splits)

lemma rules_ok_symbol:
  assumes "rules_ok g"
  shows "rules_ok (symbol_add g (symbol_new g))"
proof -
  let ?g = "symbol_add g (symbol_new g)" and ?n = "length (t_xsys g)"
  have r: "\<forall>r \<in> set (t_xrls g). rule_ok ?n r" using assms by (simp add: rules_ok_def)
  have "LHS_ID_of_XRL q \<noteq> ?n \<and> ?n \<notin> counts q" if "rule_ok ?n q" for q
    using that counts_less [OF that, of ?n] by (auto simp: rule_ok_def)
  with r have "\<forall>r \<in> set (t_xrls g). LHS_ID_of_XRL r \<noteq> ?n \<and> ?n \<notin> counts r" by blast
  then have "flags_ok (t_xrls g) ?n (symbol_new g)" by (auto simp: flags_ok_def symbol_new_def)
  moreover have "rule_ok ?n q \<Longrightarrow> rule_ok (Suc ?n) q" for q by (erule rule_ok_mono) simp
  with r have "\<forall>r \<in> set (t_xrls g). rule_ok (Suc ?n) r" by blast
  ultimately show ?thesis
    using assms by (auto simp: rules_ok_def symbol_add_def nth_append less_Suc_eq)
qed

lemma symbol_new_fresh:
  assumes "being_built g"
  shows "being_built (snd (marpa_g_symbol_new g))"
proof -
  have "fresh_xsy (symbol_new g)" by (simp add: fresh_xsy_def symbol_new_def)
  then show ?thesis
    using assms rules_ok_symbol [of g]
    by (auto simp: marpa_g_symbol_new_def being_built_def grammar_ok_def tree_ok_def symbol_add_def all_fresh_def)
qed

section \<open>Rules\<close>

lemma rules_ok_add:
  assumes g: "rules_ok g" and r: "rule_ok (length (t_xsys g)) r" "t_id r = int (length (t_xrls g))" "\<forall>q \<in> set (t_xrls g). \<not> clash r q"
    and g': "t_xrls g' = t_xrls g @ [r]" "length (t_xsys g') = length (t_xsys g)"
      "t_external_size g' = t_external_size g + (1 + length (RHS_IDs_of_XRL r))"
      "t_max_rule_length g' = max (length (RHS_IDs_of_XRL r)) (t_max_rule_length g)" "t_start_xsy_id g' = t_start_xsy_id g"
    and flags: "\<And>s. s < length (t_xsys g) \<Longrightarrow> xsy_is_lhs (t_xsys g' ! s) = (xsy_is_lhs (t_xsys g ! s) \<or> s = LHS_ID_of_XRL r)"
      "\<And>s. s < length (t_xsys g) \<Longrightarrow> xsy_is_sequence_lhs (t_xsys g' ! s)
        = (xsy_is_sequence_lhs (t_xsys g ! s) \<or> t_is_sequence r \<and> s = LHS_ID_of_XRL r)"
      "\<And>s. s < length (t_xsys g) \<Longrightarrow> xsy_is_counted (t_xsys g' ! s) = (xsy_is_counted (t_xsys g ! s) \<or> s \<in> counts r)"
  shows "rules_ok g'"
  unfolding rules_ok_def g'
proof (intro conjI allI impI)
  show "\<forall>q \<in> set (t_xrls g @ [r]). rule_ok (length (t_xsys g)) q" using g r(1) by (auto simp: rules_ok_def)
  fix s assume s: "s < length (t_xsys g)"
  then have "flags_ok (t_xrls g) s (t_xsys g ! s)" using g by (simp add: rules_ok_def)
  with flags [OF s] show "flags_ok (t_xrls g @ [r]) s (t_xsys g' ! s)" by (auto simp: flags_ok_def)
next
  fix i j assume i: "i < length (t_xrls g @ [r])"
  show "t_id ((t_xrls g @ [r]) ! i) = int i" using g r(2) i by (auto simp: rules_ok_def nth_append less_Suc_eq)
  assume "j < i"
  with g r(3) i show "\<not> clash ((t_xrls g @ [r]) ! i) ((t_xrls g @ [r]) ! j)"
    by (auto simp: rules_ok_def nth_append less_Suc_eq)
qed (use g in \<open>auto simp: rules_ok_def\<close>)

lemma bnf_items_append: "bnf_items (rules @ [r])
    = (if bnf_rule r then insert (length rules, LHS_ID_of_XRL r, RHS_IDs_of_XRL r) (bnf_items rules) else bnf_items rules)"
proof -
  have "{i. i < length (rules @ [r]) \<and> bnf_rule ((rules @ [r]) ! i)}
      = {i. i < length rules \<and> bnf_rule (rules ! i)} \<union> (if bnf_rule r then {length rules} else {})"
    by (auto simp: nth_append less_Suc_eq split: if_splits)
  then show ?thesis unfolding bnf_items_def by (auto simp: image_Un nth_append)
qed

lemma bnf_items_snd: "(lhs, rhs) \<in> snd ` bnf_items rules
    \<longleftrightarrow> (\<exists>r \<in> set rules. bnf_rule r \<and> LHS_ID_of_XRL r = lhs \<and> RHS_IDs_of_XRL r = rhs)"
  by (force simp: bnf_items_def in_set_conv_nth image_iff)

text \<open>The new BNF rule, and why it is refused.\<close>

definition bnf_of :: "marpa_g \<Rightarrow> nat \<Rightarrow> nat list \<Rightarrow> marpa_xrl" where
  "bnf_of g lhs rhs =
     \<lparr>t_id = int (length (t_xrls g)), t_is_sequence = False, LHS_ID_of_XRL = lhs, RHS_IDs_of_XRL = rhs, xrl_rank = t_default_rank g,
      t_null_ranks_high = False, t_is_bnf = True, t_minimum = - 1, t_separator_id = - 1, t_is_discard = False,
      t_is_proper_separation = False, t_is_loop = False, xrl_is_nulling = False, xrl_is_nullable = False,
      xrl_is_accessible = True, xrl_is_productive = True, xrl_is_used = False\<rparr>"

definition bnf_refused :: "marpa_xrl list \<Rightarrow> nat \<Rightarrow> nat list \<Rightarrow> int option" where
  "bnf_refused rules lhs rhs =
     (if \<exists>r \<in> set rules. t_is_sequence r \<and> LHS_ID_of_XRL r = lhs then Some MARPA_ERR_SEQUENCE_LHS_NOT_UNIQUE
      else if \<exists>r \<in> set rules. LHS_ID_of_XRL r = lhs \<and> RHS_IDs_of_XRL r = rhs then Some MARPA_ERR_DUPLICATE_RULE
      else None)"

lemma bnf_not_refused: "bnf_refused rules lhs rhs = None \<Longrightarrow> q \<in> set rules \<Longrightarrow> \<not> clash (bnf_of g lhs rhs) q"
  by (auto simp: bnf_refused_def clash_def bnf_of_def split: if_splits)

lemma rhs_valid_runs: "\<forall>x \<in> set rhs. x < length (t_xsys g) \<Longrightarrow> rhs_is_valid g (map int rhs) (length rhs) = Some True"
  by (induction rhs) (auto simp: xsy_id_is_valid_def XSYID_is_Malformed_def XSYID_of_G_Exists_def)

lemma marked_again: "i < length (t_xsys g) \<Longrightarrow> f (t_xsys g ! i) = t_xsys g ! i \<Longrightarrow> xsy_update i f g = g"
  by (simp add: xsy_update_def list_update_id)

text \<open>The table of rules when a BNF rule is tried.\<close>

lemma tree_insert:
  assumes "tree_ok g" "t_xrl_tree g = Some T" "length (t_xrls g) + 1 < SIZE_MOD"
  obtains found T' where "marpa_avl_insert T (length (t_xrls g), lhs, rhs) = Some (found, T')"
    "found \<noteq> None \<longleftrightarrow> (\<exists>r \<in> set (t_xrls g). bnf_rule r \<and> LHS_ID_of_XRL r = lhs \<and> RHS_IDs_of_XRL r = rhs)"
    "found \<noteq> None \<longrightarrow> T' = T"
    "found = None \<longrightarrow> table_ok T' \<and> avl_compare T' = duplicate_rule_cmp
       \<and> items_of T' = insert (length (t_xrls g), lhs, rhs) (bnf_items (t_xrls g)) \<and> avl_count T' \<le> Suc (length (t_xrls g))"
proof -
  let ?x = "(length (t_xrls g), lhs, rhs)"
  have T: "table_ok T" "avl_compare T = duplicate_rule_cmp" "avl_count T + 1 < SIZE_MOD"
    and items: "items_of T = bnf_items (t_xrls g)" and n: "avl_count T \<le> length (t_xrls g)"
    using assms by (auto simp: tree_ok_def)
  show thesis
  proof (cases "(lhs, rhs) \<in> snd ` bnf_items (t_xrls g)")
    case True
    then obtain i where i: "(i, lhs, rhs) \<in> items_of T" unfolding items by force
    then have "i < length (t_xrls g)" unfolding items by (auto simp: bnf_items_def)
    moreover have "duplicate_rule_cmp ?x (i, lhs, rhs) = 0" by (simp add: duplicate_rule_cmp_0)
    ultimately have "marpa_avl_insert T ?x = Some (Some (i, lhs, rhs), T)"
      using duplicate_rule.insert_found [OF T i, of ?x] by simp
    with True show thesis using that [of "Some (i, lhs, rhs)" T] by (simp add: bnf_items_snd)
  next
    case False
    then have "\<forall>y \<in> items_of T. duplicate_rule_cmp ?x y \<noteq> 0" unfolding items duplicate_rule_cmp_0 by force
    from duplicate_rule.insert_new [OF T this] obtain T' where
      "marpa_avl_insert T ?x = Some (None, T')" "table_ok T'" "avl_compare T' = duplicate_rule_cmp"
      "items_of T' = insert ?x (items_of T)" "avl_count T' = avl_count T + 1" .
    with False n items show thesis using that [of None T'] by (simp add: bnf_items_snd)
  qed
qed

lemma rule_new_runs:
  assumes g: "being_built g" "working g" and lhs: "lhs < length (t_xsys g)" and rhs: "\<forall>x \<in> set rhs. x < length (t_xsys g)"
    and len: "int (length rhs) \<le> MAX_RHS_LENGTH" "length (t_xrls g) + 1 < SIZE_MOD"
  shows "\<exists>n g'. marpa_g_rule_new g (int lhs) (map int rhs) (int (length rhs)) = Some (n, g') \<and> being_built g'
    \<and> (case bnf_refused (t_xrls g) lhs rhs of Some e \<Rightarrow> n = - 2 \<and> g' = MARPA_G_ERROR e g
        | None \<Rightarrow> n = int (length (t_xrls g)) \<and> t_xrls g' = t_xrls g @ [bnf_of g lhs rhs])"
proof -
  have ok: "rules_ok g" "tree_ok g" using g(1) by (simp_all add: being_built_def grammar_ok_def)
  have flags: "flags_ok (t_xrls g) lhs (t_xsys g ! lhs)" using ok(1) lhs by (simp add: rules_ok_def)
  have valid: "xsy_id_is_valid g (int lhs)"
    using lhs by (simp add: xsy_id_is_valid_def XSYID_is_Malformed_def XSYID_of_G_Exists_def)
  obtain T where T: "t_xrl_tree g = Some T" using g(1) by (auto simp: being_built_def)
  from tree_insert [OF ok(2) T len(2)] obtain found T' where
    ins: "marpa_avl_insert T (length (t_xrls g), lhs, rhs) = Some (found, T')"
    "found \<noteq> None \<longleftrightarrow> (\<exists>r \<in> set (t_xrls g). bnf_rule r \<and> LHS_ID_of_XRL r = lhs \<and> RHS_IDs_of_XRL r = rhs)"
    "found \<noteq> None \<longrightarrow> T' = T"
    "found = None \<longrightarrow> table_ok T' \<and> avl_compare T' = duplicate_rule_cmp
       \<and> items_of T' = insert (length (t_xrls g), lhs, rhs) (bnf_items (t_xrls g)) \<and> avl_count T' \<le> Suc (length (t_xrls g))" .
  let ?g1 = "xrl_start g lhs"
  have map_nat: "map nat (map int rhs) = rhs" by (simp add: comp_def)
  have run: "marpa_g_rule_new g (int lhs) (map int rhs) (int (length rhs)) =
      (if xsy_is_sequence_lhs (t_xsys g ! lhs) then Some (fail MARPA_ERR_SEQUENCE_LHS_NOT_UNIQUE g)
       else if found \<noteq> None then Some (fail MARPA_ERR_DUPLICATE_RULE (?g1\<lparr>t_xrl_tree := Some T'\<rparr>))
       else Some (int (length (t_xrls g)), xrl_update (length (t_xrls g)) (\<lambda>rule. rule\<lparr>t_is_bnf := True\<rparr>)
              (xrl_finish (?g1\<lparr>t_xrl_tree := Some T'\<rparr>) lhs rhs)))"
    using g(2) g(1) len(1) valid rhs_valid_runs [OF rhs] T ins(1) map_nat
    by (simp add: marpa_g_rule_new_def XSY_by_ID_def Let_def xrl_start_def del: map_map)
  show ?thesis
  proof (cases "bnf_refused (t_xrls g) lhs rhs")
    case (Some e)
    show ?thesis
    proof (cases "xsy_is_sequence_lhs (t_xsys g ! lhs)")
      case True
      then have "e = MARPA_ERR_SEQUENCE_LHS_NOT_UNIQUE" using flags Some by (auto simp: flags_ok_def bnf_refused_def)
      with run True Some g(1) show ?thesis by (simp add: fail_def)
    next
      case False
      then have e: "e = MARPA_ERR_DUPLICATE_RULE" and dup: "\<exists>r \<in> set (t_xrls g). LHS_ID_of_XRL r = lhs \<and> RHS_IDs_of_XRL r = rhs"
        and "\<not> (\<exists>r \<in> set (t_xrls g). t_is_sequence r \<and> LHS_ID_of_XRL r = lhs)"
        using flags Some by (auto simp: flags_ok_def bnf_refused_def split: if_splits)
      then have "found \<noteq> None" using ins(2) by (auto simp: bnf_rule_def)
      moreover have "xsy_is_lhs (t_xsys g ! lhs)" using dup flags by (auto simp: flags_ok_def)
      then have "?g1 = g" using lhs by (simp add: xrl_start_def marked_again)
      ultimately have "marpa_g_rule_new g (int lhs) (map int rhs) (int (length rhs)) = Some (fail MARPA_ERR_DUPLICATE_RULE (g\<lparr>t_xrl_tree := t_xrl_tree g\<rparr>))"
        using run False ins(3) T by simp
      then show ?thesis using Some g(1) e by (simp add: fail_def)
    qed
  next
    case None
    let ?r = "bnf_of g lhs rhs"
    have seq: "\<not> xsy_is_sequence_lhs (t_xsys g ! lhs)" using flags None by (auto simp: flags_ok_def bnf_refused_def split: if_splits)
    have new: "found = None" using ins(2) None by (auto simp: bnf_refused_def split: if_splits)
    let ?g' = "xrl_update (length (t_xrls g)) (\<lambda>rule. rule\<lparr>t_is_bnf := True\<rparr>) (xrl_finish (?g1\<lparr>t_xrl_tree := Some T'\<rparr>) lhs rhs)"
    have rules: "t_xrls ?g' = t_xrls g @ [?r]"
      by (simp add: xrl_update_def xrl_finish_def rule_add_def xrl_start_def bnf_of_def)
    have "rules_ok ?g'"
    proof (rule rules_ok_add [OF ok(1) _ _ _ rules])
      show "rule_ok (length (t_xsys g)) ?r" using lhs rhs by (simp add: rule_ok_def bnf_of_def bnf_rule_def)
      show "\<forall>q \<in> set (t_xrls g). \<not> clash ?r q" using bnf_not_refused [OF None] by blast
    qed (auto simp: bnf_of_def counts_def xrl_finish_def rule_add_def xrl_start_def xsy_update_nth)
    moreover have "tree_ok ?g'"
      using ins(4) new unfolding tree_ok_def rules bnf_items_append
      by (simp add: xrl_finish_def rule_add_def bnf_of_def bnf_rule_def)
    moreover have "all_fresh ?g'"
      using g(1) by (auto simp: being_built_def xrl_finish_def xrl_start_def fresh_xsy_def intro!: all_fresh_update)
    ultimately have "being_built ?g'"
      using g(1) by (simp add: being_built_def grammar_ok_def xrl_finish_def rule_add_def xrl_start_def)
    then show ?thesis using run seq new None rules by simp
  qed
qed

text \<open>C33: a BNF rule over existing symbols is added at the end with the next number, unless its left hand side is
  that of a sequence or the rule is there already, when only the error code changes; the invariant stays.\<close>

theorem rule_new_adds:
  assumes g: "being_built g" "working g" and lhs: "lhs < length (t_xsys g)" and rhs: "\<forall>x \<in> set rhs. x < length (t_xsys g)"
    and len: "int (length rhs) \<le> MAX_RHS_LENGTH" "length (t_xrls g) + 1 < SIZE_MOD"
  shows "\<exists>n g'. marpa_g_rule_new g (int lhs) (map int rhs) (int (length rhs)) = Some (n, g') \<and> being_built g'
    \<and> (case bnf_refused (t_xrls g) lhs rhs of Some e \<Rightarrow> n = - 2 \<and> g' = MARPA_G_ERROR e g
        | None \<Rightarrow> n = int (length (t_xrls g)) \<and> t_xrls g' = t_xrls g @ [bnf_of g lhs rhs])"
  using rule_new_runs [OF assms] .

definition with_symbols :: "nat \<Rightarrow> marpa_g \<Rightarrow> marpa_g" where
  "with_symbols k g = ((\<lambda>g. snd (marpa_g_symbol_new g)) ^^ k) g"

lemma with_symbols_ok: "being_built g \<Longrightarrow> being_built (with_symbols k g)"
  by (induction k) (simp_all add: with_symbols_def symbol_new_fresh)

lemma with_symbols_simps [simp]:
  "length (t_xsys (with_symbols k g)) = length (t_xsys g) + k" "t_xrls (with_symbols k g) = t_xrls g"
  "working (with_symbols k g) = working g"
  by (induction k) (simp_all add: with_symbols_def marpa_g_symbol_new_def symbol_add_def working_def)

definition empty_g :: marpa_g where
  "empty_g = the (new_grammar False)"

lemma empty_g_ok: "being_built empty_g \<and> working empty_g \<and> t_xsys empty_g = [] \<and> t_xrls empty_g = []"
proof -
  from new_grammar_fresh [of False] obtain g where
    "new_grammar False = Some g" "being_built g" "g_is_ok g" "\<not> g_header_mismatch g" "t_xsys g = []" "t_xrls g = []" by auto
  then show ?thesis by (simp add: empty_g_def working_def)
qed

theorem rule_new_adds_witness:
  "\<exists>n g'. marpa_g_rule_new (with_symbols 2 empty_g) 0 [1, 0] 2 = Some (n, g') \<and> being_built g'
    \<and> n = 0 \<and> t_xrls g' = [bnf_of (with_symbols 2 empty_g) 0 [1, 0]]"
  using rule_new_adds [of "with_symbols 2 empty_g" 0 "[1, 0]"] empty_g_ok with_symbols_ok [of empty_g 2]
  by (simp add: MAX_RHS_LENGTH_def SIZE_MOD_def bnf_refused_def numeral_2_eq_2)

text \<open>Sequence rules.\<close>

definition sequence_of :: "marpa_g \<Rightarrow> nat \<Rightarrow> nat \<Rightarrow> int \<Rightarrow> int \<Rightarrow> int \<Rightarrow> marpa_xrl" where
  "sequence_of g lhs x separator mn flags =
     \<lparr>t_id = int (length (t_xrls g)), t_is_sequence = True, LHS_ID_of_XRL = lhs, RHS_IDs_of_XRL = [x], xrl_rank = t_default_rank g,
      t_null_ranks_high = False, t_is_bnf = False, t_minimum = mn, t_separator_id = separator,
      t_is_discard = (\<not> bit flags 0 \<and> 0 \<le> separator),
      t_is_proper_separation = bit flags 1, t_is_loop = False, xrl_is_nulling = False, xrl_is_nullable = False,
      xrl_is_accessible = True, xrl_is_productive = True, xrl_is_used = False\<rparr>"

definition sequence_refused :: "marpa_g \<Rightarrow> int \<Rightarrow> int \<Rightarrow> int \<Rightarrow> int option" where
  "sequence_refused g lhs x separator =
     (if separator \<noteq> - 1 \<and> \<not> xsy_id_is_valid g separator then Some MARPA_ERR_BAD_SEPARATOR
      else if \<not> xsy_id_is_valid g lhs then Some MARPA_ERR_INVALID_SYMBOL_ID
      else if \<exists>r \<in> set (t_xrls g). int (LHS_ID_of_XRL r) = lhs then Some MARPA_ERR_SEQUENCE_LHS_NOT_UNIQUE
      else if \<not> xsy_id_is_valid g x then Some MARPA_ERR_INVALID_SYMBOL_ID
      else None)"

lemma valid_nat: "xsy_id_is_valid g i \<Longrightarrow> 0 \<le> i \<and> nat i < length (t_xsys g)"
  by (auto simp: xsy_id_is_valid_def XSYID_is_Malformed_def XSYID_of_G_Exists_def)

lemma flag_bits: "flags AND MARPA_KEEP_SEPARATION = 0 \<longleftrightarrow> \<not> bit flags 0" "flags AND MARPA_PROPER_SEPARATION \<noteq> 0 \<longleftrightarrow> bit flags 1"
  for flags :: int
  using bit_iff_and_push_bit_not_eq_0 [of flags 0] bit_iff_and_push_bit_not_eq_0 [of flags 1]
  by (simp_all add: MARPA_KEEP_SEPARATION_def MARPA_PROPER_SEPARATION_def)

lemma sequence_new_runs:
  assumes g: "being_built g" "working g"
  shows "\<exists>n g'. marpa_g_sequence_new g lhs x separator mn flags = (n, g') \<and> being_built g'
    \<and> (case sequence_refused g lhs x separator of Some e \<Rightarrow> n = - 2 \<and> g' = MARPA_G_ERROR e g
        | None \<Rightarrow> n = int (length (t_xrls g)) \<and> t_xrls g' = t_xrls g @ [sequence_of g (nat lhs) (nat x) separator mn flags])"
proof -
  have ok: "rules_ok g" "tree_ok g" using g(1) by (simp_all add: being_built_def grammar_ok_def)
  have isl: "xsy_is_lhs (XSY_by_ID g lhs) \<longleftrightarrow> (\<exists>r \<in> set (t_xrls g). int (LHS_ID_of_XRL r) = lhs)" if "xsy_id_is_valid g lhs"
  proof -
    have "flags_ok (t_xrls g) (nat lhs) (XSY_by_ID g lhs)" using ok(1) valid_nat [OF that] by (simp add: rules_ok_def XSY_by_ID_def)
    moreover have "int l = lhs \<longleftrightarrow> l = nat lhs" for l using valid_nat [OF that] by auto
    ultimately show ?thesis by (simp add: flags_ok_def)
  qed
  show ?thesis
  proof (cases "sequence_refused g lhs x separator")
    case (Some e)
    then have "marpa_g_sequence_new g lhs x separator mn flags = (- 2, MARPA_G_ERROR e g)"
      using g isl by (auto simp: marpa_g_sequence_new_def sequence_refused_def or_else_def fail_if_def split: if_splits)
    with Some g(1) show ?thesis by simp
  next
    case None
    then have v: "(separator \<noteq> - 1 \<and> \<not> xsy_id_is_valid g separator) = False" "xsy_id_is_valid g lhs" "xsy_id_is_valid g x"
      "\<not> xsy_is_lhs (XSY_by_ID g lhs)" "\<forall>q \<in> set (t_xrls g). int (LHS_ID_of_XRL q) \<noteq> lhs"
      using isl by (auto simp: sequence_refused_def split: if_splits)
    then have other: "\<forall>q \<in> set (t_xrls g). LHS_ID_of_XRL q \<noteq> nat lhs" using valid_nat [OF v(2)] by auto
    have sep: "- 1 \<le> separator" "separator < int (length (t_xsys g))"
      using v(1) valid_nat [OF v(2)] by (cases "separator = - 1"; auto dest: valid_nat)+
    let ?r = "sequence_of g (nat lhs) (nat x) separator mn flags"
    have checked: "first_failure
        [g_fail_if_fatal g, fail_if_precomputed g,
         fail_if (separator \<noteq> - 1 \<and> \<not> xsy_id_is_valid g separator) MARPA_ERR_BAD_SEPARATOR (- 2) g,
         fail_if (\<not> xsy_id_is_valid g lhs) MARPA_ERR_INVALID_SYMBOL_ID (- 2) g,
         fail_if (xsy_is_lhs (XSY_by_ID g lhs)) MARPA_ERR_SEQUENCE_LHS_NOT_UNIQUE (- 2) g,
         fail_if (\<not> xsy_id_is_valid g x) MARPA_ERR_INVALID_SYMBOL_ID (- 2) g] = None"
      unfolding v(1) using g v(2-4) by simp
    define g' where "g' = snd (marpa_g_sequence_new g lhs x separator mn flags)"
    have run: "marpa_g_sequence_new g lhs x separator mn flags = (int (length (t_xrls g)), g')"
      unfolding g'_def marpa_g_sequence_new_def checked by (simp add: or_else_def Let_def)
    have g'_eq: "g' = (let g1 = xrl_update (length (t_xrls g)) (\<lambda>rule. rule
                  \<lparr>t_separator_id := (if 0 \<le> separator then separator else t_separator_id rule),
                   t_minimum := mn, t_is_sequence := True,
                   t_is_discard := (flags AND MARPA_KEEP_SEPARATION) = 0 \<and> 0 \<le> separator,
                   t_is_proper_separation :=
                     (if flags AND MARPA_PROPER_SEPARATION \<noteq> 0 then True else t_is_proper_separation rule)\<rparr>)
                 (rule_new g (nat lhs) [nat x]);
           g2 = xsy_update (nat x) (\<lambda>xsy. xsy\<lparr>xsy_is_counted := True\<rparr>)
             (xsy_update (nat lhs) (\<lambda>xsy. xsy\<lparr>xsy_is_sequence_lhs := True\<rparr>) g1)
       in if 0 \<le> separator then xsy_update (nat separator) (\<lambda>xsy. xsy\<lparr>xsy_is_counted := True\<rparr>) g2 else g2)"
      unfolding g'_def marpa_g_sequence_new_def checked by (simp add: or_else_def Let_def)
    have new_simps: "t_xrls (rule_new g l [y]) = t_xrls g @ [(bnf_of g l [y])\<lparr>t_is_bnf := False\<rparr>]"
      "t_xsys (rule_new g l [y]) = t_xsys (xrl_start g l)" "length (t_xsys (rule_new g l [y])) = length (t_xsys g)"
      "t_external_size (rule_new g l [y]) = t_external_size g + 2" "t_max_rule_length (rule_new g l [y]) = max 1 (t_max_rule_length g)"
      "t_start_xsy_id (rule_new g l [y]) = t_start_xsy_id g" "t_xrl_tree (rule_new g l [y]) = t_xrl_tree g"
      "t_cilar (rule_new g l [y]) = t_cilar g" "t_zwp_tree (rule_new g l [y]) = t_zwp_tree g" "t_zwps (rule_new g l [y]) = t_zwps g"
      "t_is_precomputed (rule_new g l [y]) = t_is_precomputed g" "t_has_cycle (rule_new g l [y]) = t_has_cycle g" for l y
      by (simp_all add: rule_new_def xrl_finish_def rule_add_def xrl_start_def bnf_of_def)
    have rules: "t_xrls g' = t_xrls g @ [?r]"
      using sep(1) flag_bits [of flags] unfolding g'_eq
      by (auto simp: Let_def new_simps xrl_update_def nth_append bnf_of_def sequence_of_def)
    have "rules_ok g'"
    proof (rule rules_ok_add [OF ok(1) _ _ _ rules])
      show "rule_ok (length (t_xsys g)) ?r"
        using valid_nat [OF v(2)] valid_nat [OF v(3)] sep by (simp add: rule_ok_def sequence_of_def bnf_rule_def)
      show "\<forall>q \<in> set (t_xrls g). \<not> clash ?r q" using other by (auto simp: clash_def sequence_of_def)
    qed (auto simp: g'_eq Let_def new_simps sequence_of_def counts_def xsy_update_nth xrl_start_def)
    moreover have "tree_ok g'"
      using ok(2) unfolding tree_ok_def rules bnf_items_append
      by (auto simp: g'_eq Let_def new_simps sequence_of_def bnf_rule_def)
    moreover have "all_fresh g'"
      using g(1) unfolding g'_eq Let_def rule_new_def xrl_finish_def xrl_start_def
      by (auto simp: being_built_def fresh_xsy_def intro!: all_fresh_update)
    ultimately have "being_built g'"
      using g(1) unfolding g'_eq by (auto simp: being_built_def grammar_ok_def new_simps Let_def)
    then show ?thesis using run None rules by simp
  qed
qed

text \<open>C34: a sequence rule is added with the next number exactly when its symbols exist and no rule has its left
  hand side; otherwise only the error code changes; the invariant stays.\<close>

theorem sequence_new_adds:
  assumes g: "being_built g" "working g"
  shows "\<exists>n g'. marpa_g_sequence_new g lhs x separator mn flags = (n, g') \<and> being_built g'
    \<and> (case sequence_refused g lhs x separator of Some e \<Rightarrow> n = - 2 \<and> g' = MARPA_G_ERROR e g
        | None \<Rightarrow> n = int (length (t_xrls g)) \<and> t_xrls g' = t_xrls g @ [sequence_of g (nat lhs) (nat x) separator mn flags])"
  using sequence_new_runs [OF assms] .

theorem sequence_new_adds_witness:
  "\<exists>n g'. marpa_g_sequence_new (with_symbols 3 empty_g) 0 1 2 1 2 = (n, g') \<and> being_built g'
    \<and> n = 0 \<and> t_xrls g' = [sequence_of (with_symbols 3 empty_g) 0 1 2 1 2]"
  using sequence_new_adds [of "with_symbols 3 empty_g" 0 1 2 1 2] empty_g_ok with_symbols_ok [of empty_g 3]
  by (simp add: sequence_refused_def xsy_id_is_valid_def XSYID_is_Malformed_def XSYID_of_G_Exists_def)

text \<open>A call of \<open>marpa_g_rule_new\<close> with any arguments keeps the invariant if it has a defined result.\<close>

lemma rhs_is_valid_True:
  "rhs_is_valid g ids k = Some True \<Longrightarrow> k \<le> length ids \<and> (\<forall>x \<in> set (take k ids). xsy_id_is_valid g x)
     \<and> rhs_is_valid g (take k ids) k = Some True"
  by (induction g ids k rule: rhs_is_valid.induct) (auto split: if_splits)

lemma rule_new_keeps:
  assumes g: "being_built g" and room: "length (t_xrls g) + 1 < SIZE_MOD"
    and run: "marpa_g_rule_new g l ids k = Some (n, g')"
  shows "being_built g'"
proof (cases "first_failure
        [g_fail_if_fatal g, fail_if_precomputed g, fail_if (k > MAX_RHS_LENGTH) MARPA_ERR_RHS_TOO_LONG (- 2) g,
         fail_if (\<not> xsy_id_is_valid g l) MARPA_ERR_INVALID_SYMBOL_ID (- 2) g]")
  case (Some c)
  moreover have "refuses g (first_failure
        [g_fail_if_fatal g, fail_if_precomputed g, fail_if (k > MAX_RHS_LENGTH) MARPA_ERR_RHS_TOO_LONG (- 2) g,
         fail_if (\<not> xsy_id_is_valid g l) MARPA_ERR_INVALID_SYMBOL_ID (- 2) g])"
    by (rule refuses_first) simp
  ultimately show ?thesis using run g by (auto simp: marpa_g_rule_new_def refuses_def only_error_ok)
next
  case None
  then have pre: "working g" "k \<le> MAX_RHS_LENGTH" "xsy_id_is_valid g l"
    unfolding first_failure_None by (simp_all add: fatal_None not_less)
  from run None obtain v where v: "rhs_is_valid g ids (nat k) = Some v" by (auto simp: marpa_g_rule_new_def run_simps)
  show ?thesis
  proof (cases "v \<and> \<not> xsy_is_sequence_lhs (XSY_by_ID g l)")
    case False
    with run None v g show ?thesis by (auto simp: marpa_g_rule_new_def fail_def split: if_splits)
  next
    case True
    then have k: "0 \<le> k" using run None v by (auto simp: marpa_g_rule_new_def run_simps)
    let ?rhs = "map nat (take (nat k) ids)"
    have valid: "nat k \<le> length ids" "\<forall>x \<in> set (take (nat k) ids). xsy_id_is_valid g x"
      "rhs_is_valid g (take (nat k) ids) (nat k) = Some True"
      using rhs_is_valid_True [of g ids "nat k"] v True by simp_all
    have small: "\<forall>x \<in> set (take (nat k) ids). 0 \<le> x \<and> nat x < length (t_xsys g)" using valid(2) valid_nat by blast
    then have "map int ?rhs = take (nat k) ids" by (auto simp: comp_def intro!: map_idI)
    moreover have "int (length ?rhs) = k" "int (nat l) = l" using k valid(1) valid_nat [OF pre(3)] by simp_all
    ultimately have "marpa_g_rule_new g (int (nat l)) (map int ?rhs) (int (length ?rhs)) = Some (n, g')"
      using run None v True valid(3) k by (simp add: marpa_g_rule_new_def del: map_map)
    moreover have "\<forall>x \<in> set ?rhs. x < length (t_xsys g)" using small by auto
    moreover have "int (length ?rhs) \<le> MAX_RHS_LENGTH" using k valid(1) pre(2) by simp
    ultimately show ?thesis
      using rule_new_runs [OF g pre(1), of "nat l" ?rhs] room valid_nat [OF pre(3)] by auto
  qed
qed

end
