(* ===== verification/Census.thy ===== *)
theory Census
  imports RuleIndex GrammarOptions BitVector
begin

text \<open>
  The first part of \<open>marpa_g_precompute\<close> (\<open>src/libmarpa-dist/marpa.c\<close>): the checks, the census of the
  symbols and the rules, which finds out what is nullable, productive, accessible and nulling, and the
  search for cycles. The rewriting of the rules, which follows, is not modelled.

  The vectors and matrices of the census are those of one memory, which is empty at first. \<open>bv_free\<close> and
  the release of the nullification matrix leave their words unused. The code under \<open>if(0)\<close> is left out.
\<close>

section \<open>Events and checks\<close>

definition G_EVENTS_CLEAR :: "marpa_g \<Rightarrow> marpa_g" where
  "G_EVENTS_CLEAR g = g\<lparr>t_events := []\<rparr>"

definition int_event_new :: "marpa_g \<Rightarrow> int \<Rightarrow> int \<Rightarrow> marpa_g" where
  "int_event_new g ty value = g\<lparr>t_events := t_events g @ [(ty, value)]\<rparr>"

definition start_checks :: "marpa_g \<Rightarrow> check" where
  "start_checks g = first_failure
     [fail_if (t_xrls g = []) MARPA_ERR_NO_RULES (- 2) g,
      fail_if_precomputed g,
      fail_if (t_start_xsy_id g < 0) MARPA_ERR_NO_START_SYMBOL (- 2) g,
      fail_if (\<not> xsy_id_is_valid g (t_start_xsy_id g)) MARPA_ERR_INVALID_START_SYMBOL (- 2) g,
      fail_if (\<not> xsy_is_lhs (XSY_by_ID g (t_start_xsy_id g))) MARPA_ERR_START_NOT_LHS (- 2) g]"

section \<open>Loops over bits\<close>

text \<open>A loop over the set bits of a vector, whose body may write to other vectors.\<close>

partial_function (option) scan_each ::
  "(nat \<Rightarrow> 's \<times> words \<Rightarrow> ('s \<times> words) option) \<Rightarrow> nat \<Rightarrow> nat \<Rightarrow> 's \<times> words \<Rightarrow> ('s \<times> words) option" where
  "scan_each body v start sm = do {
     (x, m1) \<leftarrow> bv_scan (snd sm) v start;
     (case x of
        None \<Rightarrow> Some (fst sm, m1)
      | Some (lo, hi) \<Rightarrow> do { sm1 \<leftarrow> each body [lo..<Suc hi] (fst sm, m1); scan_each body v (hi + 2) sm1 })
   }"

declare scan_each.simps [code]

text \<open>The loop that marks the symbols of a vector.\<close>

definition mark_symbol :: "(marpa_xsy \<Rightarrow> marpa_xsy) \<Rightarrow> nat \<Rightarrow> marpa_g \<Rightarrow> marpa_g option" where
  "mark_symbol f xsy_id g = do { require (xsy_id < length (t_xsys g)); Some (xsy_update xsy_id f g) }"

section \<open>Terminals\<close>

fun classify_terminals :: "nat \<Rightarrow> nat list \<Rightarrow> marpa_g \<Rightarrow> words \<Rightarrow> (marpa_g \<times> words) option" where
  "classify_terminals tv [] g m = Some (g, m)"
| "classify_terminals tv (symid # ids) g m =
     (let symbol = t_xsys g ! symid in
      if xsy_is_locked_terminal symbol
      then do {
        m1 \<leftarrow> (if xsy_is_terminal symbol then bv_bit_set m tv symid else bv_bit_clear m tv symid);
        classify_terminals tv ids g m1
      }
      else do {
        t \<leftarrow> bv_bit_test m tv symid;
        classify_terminals tv ids (if t then xsy_update symid (\<lambda>x. x\<lparr>xsy_is_terminal := True\<rparr>) g else g) m
      })"

definition census_terminals :: "nat \<Rightarrow> marpa_g \<Rightarrow> words \<Rightarrow> (nat \<times> marpa_g \<times> words) option" where
  "census_terminals lv g m = do {
     let (tv, m1) = bv_create m (length (t_xsys g));
     m2 \<leftarrow> bv_not m1 tv lv;
     (g1, m3) \<leftarrow> classify_terminals tv [0..<length (t_xsys g)] g m2;
     Some (tv, g1, m3)
   }"

section \<open>Reachability\<close>

fun set_columns :: "Bit_Matrix \<Rightarrow> nat \<Rightarrow> nat list \<Rightarrow> words \<Rightarrow> words option" where
  "set_columns M row [] m = Some m"
| "set_columns M row (c # cs) m = do { m1 \<leftarrow> matrix_bit_set m M row c; set_columns M row cs m1 }"

fun reach_rules :: "Bit_Matrix \<Rightarrow> marpa_xrl list \<Rightarrow> words \<Rightarrow> words option" where
  "reach_rules M [] m = Some m"
| "reach_rules M (rule # rules) m = do {
     m1 \<leftarrow> set_columns M (LHS_ID_of_XRL rule) (RHS_IDs_of_XRL rule) m;
     m2 \<leftarrow> (if t_is_sequence rule \<and> 0 \<le> t_separator_id rule
            then matrix_bit_set m1 M (LHS_ID_of_XRL rule) (nat (t_separator_id rule)) else Some m1);
     reach_rules M rules m2
   }"

definition census_reach :: "marpa_g \<Rightarrow> words \<Rightarrow> (Bit_Matrix \<times> words) option" where
  "census_reach g m = do {
     (M, m1) \<leftarrow> matrix_obs_create m (length (t_xsys g)) (length (t_xsys g));
     m2 \<leftarrow> reach_rules M (t_xrls g) m1;
     m3 \<leftarrow> transitive_closure m2 M;
     Some (M, m3)
   }"

section \<open>Nullable and productive symbols\<close>

text \<open>The number of counted symbols that are nullable is the second part of the state.\<close>

definition mark_nullable :: "nat \<Rightarrow> marpa_g \<times> nat \<Rightarrow> (marpa_g \<times> nat) option" where
  "mark_nullable xsy_id s = (case s of (g, counted_nullables) \<Rightarrow> do {
     g1 \<leftarrow> mark_symbol (\<lambda>x. x\<lparr>xsy_is_nullable := True\<rparr>) xsy_id g;
     if xsy_is_counted (t_xsys g ! xsy_id)
     then Some (int_event_new g1 MARPA_EVENT_COUNTED_NULLABLE (int xsy_id), Suc counted_nullables)
     else Some (g1, counted_nullables)
   })"

text \<open>The vector, and whether a counted symbol is nullable, which is an error.\<close>

definition census_nullable :: "rule_index \<Rightarrow> marpa_g \<Rightarrow> words \<Rightarrow> (nat \<times> bool \<times> marpa_g \<times> words) option" where
  "census_nullable ri g m = do {
     (nv, m1) \<leftarrow> bv_clone m (empty_lhs_v ri);
     m2 \<leftarrow> rhs_closure g nv (xrl_list_x_rh_sym ri) (rh_rule_data ri) m1;
     ((g1, counted_nullables), m3) \<leftarrow> scan_loop mark_nullable m2 nv 0 (g, 0);
     Some (nv, 0 < counted_nullables, g1, m3)
   }"

definition census_productive :: "rule_index \<Rightarrow> nat \<Rightarrow> nat \<Rightarrow> marpa_g \<Rightarrow> words \<Rightarrow> (nat \<times> marpa_g \<times> words) option" where
  "census_productive ri nv tv g m = do {
     (pv, m1) \<leftarrow> bv_shadow m nv;
     m2 \<leftarrow> bv_or m1 pv nv tv;
     m3 \<leftarrow> rhs_closure g pv (xrl_list_x_rh_sym ri) (rh_rule_data ri) m2;
     (g1, m4) \<leftarrow> scan_loop (mark_symbol (\<lambda>x. x\<lparr>xsy_is_productive := True\<rparr>)) m3 pv 0 g;
     Some (pv, g1, m4)
   }"

section \<open>Accessible and nulling symbols\<close>

definition census_accessible :: "Bit_Matrix \<Rightarrow> marpa_g \<Rightarrow> words \<Rightarrow> (marpa_g \<times> words) option" where
  "census_accessible M g m = do {
     accessible_v \<leftarrow> matrix_row m M (nat (t_start_xsy_id g));
     (g1, m1) \<leftarrow> scan_loop (mark_symbol (\<lambda>x. x\<lparr>xsy_is_accessible := True\<rparr>)) m accessible_v 0 g;
     g2 \<leftarrow> mark_symbol (\<lambda>x. x\<lparr>xsy_is_accessible := True\<rparr>) (nat (t_start_xsy_id g1)) g1;
     Some (g2, m1)
   }"

text \<open>A left hand side is nulling when no terminal is in its row; a nulling terminal is an error.\<close>

definition mark_nulling ::
  "nat \<Rightarrow> nat \<Rightarrow> Bit_Matrix \<Rightarrow> nat \<Rightarrow> (marpa_g \<times> bool) \<times> words \<Rightarrow> ((marpa_g \<times> bool) \<times> words) option" where
  "mark_nulling rv tv M xsy_id s = (case s of ((g, nulling_terminal_found), m) \<Rightarrow> do {
     row \<leftarrow> matrix_row m M xsy_id;
     m1 \<leftarrow> bv_and m rv tv row;
     (empty, m2) \<leftarrow> bv_is_empty m1 rv;
     if \<not> empty then Some ((g, nulling_terminal_found), m2)
     else do {
       g1 \<leftarrow> mark_symbol (\<lambda>x. x\<lparr>xsy_is_nulling := True\<rparr>) xsy_id g;
       if xsy_is_terminal (t_xsys g ! xsy_id)
       then Some ((int_event_new g1 MARPA_EVENT_NULLING_TERMINAL (int xsy_id), True), m2)
       else Some ((g1, nulling_terminal_found), m2)
     }
   })"

definition census_nulling :: "nat \<Rightarrow> nat \<Rightarrow> Bit_Matrix \<Rightarrow> marpa_g \<Rightarrow> words \<Rightarrow> (bool \<times> marpa_g \<times> words) option" where
  "census_nulling tv lv M g m = do {
     (rv, m1) \<leftarrow> bv_shadow m tv;
     ((g1, found), m2) \<leftarrow> scan_each (mark_nulling rv tv M) lv 0 ((g, False), m1);
     Some (found, g1, m2)
   }"

section \<open>Rules\<close>

definition sequence_flags :: "marpa_g \<Rightarrow> marpa_xrl \<Rightarrow> marpa_xrl" where
  "sequence_flags g xrl =
     (let rh_xsy = t_xsys g ! (RHS_IDs_of_XRL xrl ! 0);
          nullable = (t_minimum xrl \<le> 0 \<or> xsy_is_nullable rh_xsy);
          nulling = xsy_is_nulling rh_xsy;
          productive = (nullable \<or> xsy_is_productive rh_xsy);
          used = (xrl_is_accessible xrl \<and> xsy_is_productive rh_xsy);
          separator_xsy = t_xsys g ! nat (t_separator_id xrl);
          separated = 0 \<le> t_separator_id xrl;
          nulling = (if separated \<and> \<not> xsy_is_nulling separator_xsy then False else nulling);
          productive = (if separated \<and> \<not> xsy_is_productive separator_xsy then nullable else productive);
          used = (if separated \<and> \<not> xsy_is_productive separator_xsy then False else used);
          used = (if nulling then False else used)
      in xrl\<lparr>xrl_is_nullable := nullable, xrl_is_nulling := nulling, xrl_is_productive := productive,
             xrl_is_used := used\<rparr>)"

fun rhs_flags :: "marpa_g \<Rightarrow> nat list \<Rightarrow> bool \<times> bool \<times> bool \<Rightarrow> bool \<times> bool \<times> bool" where
  "rhs_flags g [] flags = flags"
| "rhs_flags g (rhs_id # ids) (is_nulling, is_nullable, is_productive) =
     (let rh_xsy = t_xsys g ! rhs_id in
      rhs_flags g ids (is_nulling \<and> xsy_is_nulling rh_xsy, is_nullable \<and> xsy_is_nullable rh_xsy,
        is_productive \<and> xsy_is_productive rh_xsy))"

definition bnf_flags :: "marpa_g \<Rightarrow> marpa_xrl \<Rightarrow> marpa_xrl" where
  "bnf_flags g xrl =
     (case rhs_flags g (RHS_IDs_of_XRL xrl) (True, True, True) of (is_nulling, is_nullable, is_productive) \<Rightarrow>
        xrl\<lparr>xrl_is_nulling := is_nulling, xrl_is_nullable := is_nullable, xrl_is_productive := is_productive,
            xrl_is_used := (xrl_is_accessible xrl \<and> is_productive \<and> \<not> is_nulling)\<rparr>)"

definition rule_flags :: "marpa_g \<Rightarrow> marpa_xrl \<Rightarrow> marpa_xrl" where
  "rule_flags g xrl =
     (let xrl1 = xrl\<lparr>xrl_is_accessible := xsy_is_accessible (t_xsys g ! LHS_ID_of_XRL xrl)\<rparr>
      in if t_is_sequence xrl1 then sequence_flags g xrl1 else bnf_flags g xrl1)"

text \<open>The flags of a rule depend on the symbols only.\<close>

definition census_rules :: "marpa_g \<Rightarrow> marpa_g" where
  "census_rules g = g\<lparr>t_xrls := map (rule_flags g) (t_xrls g)\<rparr>"

section \<open>Nulled symbols\<close>

fun nullification_symbols :: "Bit_Matrix \<Rightarrow> marpa_g \<Rightarrow> nat list \<Rightarrow> words \<Rightarrow> words option" where
  "nullification_symbols M g [] m = Some m"
| "nullification_symbols M g (xsyid # ids) m = do {
     m1 \<leftarrow> (if xsy_is_nullable (t_xsys g ! xsyid) then matrix_bit_set m M xsyid xsyid else Some m);
     nullification_symbols M g ids m1
   }"

fun nullification_rules :: "Bit_Matrix \<Rightarrow> marpa_xrl list \<Rightarrow> words \<Rightarrow> words option" where
  "nullification_rules M [] m = Some m"
| "nullification_rules M (xrl # xrls) m = do {
     m1 \<leftarrow> (if xrl_is_nullable xrl then set_columns M (LHS_ID_of_XRL xrl) (RHS_IDs_of_XRL xrl) m else Some m);
     nullification_rules M xrls m1
   }"

fun nulled_lists :: "Bit_Matrix \<Rightarrow> nat list \<Rightarrow> marpa_g \<Rightarrow> words \<Rightarrow> (marpa_g \<times> words) option" where
  "nulled_lists M [] g m = Some (g, m)"
| "nulled_lists M (xsyid # ids) g m = do {
     row \<leftarrow> matrix_row m M xsyid;
     ((c, arena), m1) \<leftarrow> cil_bv_add (t_cilar g) m row;
     nulled_lists M ids (xsy_update xsyid (\<lambda>x. x\<lparr>xsy_nulled_event_xsyids := Some c\<rparr>) (g\<lparr>t_cilar := arena\<rparr>)) m1
   }"

definition census_nulled :: "marpa_g \<Rightarrow> words \<Rightarrow> (marpa_g \<times> words) option" where
  "census_nulled g m = do {
     let n = length (t_xsys g);
     (M, m1) \<leftarrow> matrix_obs_create m n n;
     m2 \<leftarrow> nullification_symbols M g [0..<n] m1;
     m3 \<leftarrow> nullification_rules M (t_xrls g) m2;
     m4 \<leftarrow> transitive_closure m3 M;
     nulled_lists M [0..<n] g m4
   }"

section \<open>Cycles\<close>

text \<open>The last symbol that is not nullable, and how many there are.\<close>

fun count_nonnullable :: "words \<Rightarrow> nat \<Rightarrow> nat list \<Rightarrow> int \<times> nat \<Rightarrow> (int \<times> nat) option" where
  "count_nonnullable m nv [] s = Some s"
| "count_nonnullable m nv (xsy_id # ids) s = do {
     t \<leftarrow> bv_bit_test m nv xsy_id;
     count_nonnullable m nv ids (if t then s else (int xsy_id, Suc (snd s)))
   }"

definition transitions_to :: "rule_index \<Rightarrow> Bit_Matrix \<Rightarrow> nat \<Rightarrow> nat \<Rightarrow> words \<Rightarrow> words option" where
  "transitions_to ri M rule_id xsy_id m = do {
     ids \<leftarrow> listed (xrl_list_x_lh_sym ri) (lh_rule_data ri) xsy_id;
     set_columns M rule_id ids m
   }"

fun nullable_transitions :: "marpa_g \<Rightarrow> rule_index \<Rightarrow> Bit_Matrix \<Rightarrow> nat \<Rightarrow> nat list \<Rightarrow> words \<Rightarrow> words option" where
  "nullable_transitions g ri M rule_id [] m = Some m"
| "nullable_transitions g ri M rule_id (xsy_id # ids) m = do {
     m1 \<leftarrow> (if xsy_is_nulling (t_xsys g ! xsy_id) then Some m else transitions_to ri M rule_id xsy_id m);
     nullable_transitions g ri M rule_id ids m1
   }"

fun unit_transitions :: "marpa_g \<Rightarrow> rule_index \<Rightarrow> nat \<Rightarrow> Bit_Matrix \<Rightarrow> nat list \<Rightarrow> words \<Rightarrow> words option" where
  "unit_transitions g ri nv M [] m = Some m"
| "unit_transitions g ri nv M (rule_id # ids) m = do {
     let rhs = RHS_IDs_of_XRL (t_xrls g ! rule_id);
     (nonnullable_id, nonnullable_count) \<leftarrow> count_nonnullable m nv rhs (- 1, 0);
     m1 \<leftarrow> (if nonnullable_count = 1 then transitions_to ri M rule_id (nat nonnullable_id) m
            else if nonnullable_count = 0 then nullable_transitions g ri M rule_id rhs m
            else Some m);
     unit_transitions g ri nv M ids m1
   }"

fun mark_loops :: "Bit_Matrix \<Rightarrow> words \<Rightarrow> nat list \<Rightarrow> marpa_g \<Rightarrow> nat \<Rightarrow> (marpa_g \<times> nat) option" where
  "mark_loops M m [] g loop_rule_count = Some (g, loop_rule_count)"
| "mark_loops M m (rule_id # ids) g loop_rule_count = do {
     t \<leftarrow> matrix_bit_test m M rule_id rule_id;
     if t then mark_loops M m ids (xrl_update rule_id (\<lambda>r. r\<lparr>t_is_loop := True\<rparr>) g) (Suc loop_rule_count)
     else mark_loops M m ids g loop_rule_count
   }"

definition detect_cycles :: "rule_index \<Rightarrow> nat \<Rightarrow> marpa_g \<Rightarrow> words \<Rightarrow> (marpa_g \<times> words) option" where
  "detect_cycles ri nv g m = do {
     let k = length (t_xrls g);
     (M, m1) \<leftarrow> matrix_obs_create m k k;
     m2 \<leftarrow> unit_transitions g ri nv M [0..<k] m1;
     m3 \<leftarrow> transitive_closure m2 M;
     (g1, loop_rule_count) \<leftarrow> mark_loops M m3 [0..<k] g 0;
     Some (if loop_rule_count = 0 then g1
           else int_event_new (g1\<lparr>t_has_cycle := True\<rparr>) MARPA_EVENT_LOOP_RULES (int loop_rule_count), m3)
   }"

section \<open>The whole\<close>

text \<open>A failure of the census, or the grammar with the vectors that the rewriting reads.\<close>

definition census :: "marpa_g \<Rightarrow> ((int \<times> marpa_g) + marpa_g \<times> rule_index \<times> nat \<times> words) option" where
  "census g = do {
     (ri, m1) \<leftarrow> census_index g [];
     (tv, g1, m2) \<leftarrow> census_terminals (lhs_v ri) g m1;
     (M, m3) \<leftarrow> census_reach g1 m2;
     (nv, bad, g2, m4) \<leftarrow> census_nullable ri g1 m3;
     if bad then Some (Inl (fail MARPA_ERR_COUNTED_NULLABLE g2))
     else do {
       (pv, g3, m5) \<leftarrow> census_productive ri nv tv g2 m4;
       productive \<leftarrow> bv_bit_test m5 pv (nat (t_start_xsy_id g3));
       if \<not> productive then Some (Inl (fail MARPA_ERR_UNPRODUCTIVE_START g3))
       else do {
         (g4, m6) \<leftarrow> census_accessible M g3 m5;
         (bad, g5, m7) \<leftarrow> census_nulling tv (lhs_v ri) M g4 m6;
         if bad then Some (Inl (fail MARPA_ERR_NULLING_TERMINAL g5))
         else do {
           (g6, m8) \<leftarrow> census_nulled (census_rules g5) m7;
           Some (Inr (g6, ri, nv, m8))
         }
       }
     }
   }"

text \<open>\<open>marpa_g_precompute\<close> up to the rewriting of the rules. The table of BNF rules is destroyed.\<close>

definition marpa_g_precompute_start :: "marpa_g \<Rightarrow> ((int \<times> marpa_g) + marpa_g) option" where
  "marpa_g_precompute_start g =
     (case g_fail_if_fatal g of
        Some failure \<Rightarrow> Some (Inl failure)
      | None \<Rightarrow>
          (let g1 = G_EVENTS_CLEAR g in
           case start_checks g1 of
             Some failure \<Rightarrow> Some (Inl failure)
           | None \<Rightarrow> do {
               x \<leftarrow> census (g1\<lparr>t_xrl_tree := None\<rparr>);
               (case x of
                  Inl failure \<Rightarrow> Some (Inl failure)
                | Inr (g2, ri, nv, m) \<Rightarrow> do { (g3, m1) \<leftarrow> detect_cycles ri nv g2 m; Some (Inr g3) })
             }))"

end
