(* ===== verification/CensusSteps.thy ===== *)
theory CensusSteps
  imports Census IndexProps GrammarProps
begin

text \<open>
  The steps of the census, one by one, over the map from the vectors of the memory to sets: each makes
  new vectors and leaves the sets of the others. What a step does to the grammar is written with
  \<open>mark_all\<close>, which sets a flag for a set of symbols, and \<open>add_events\<close>.
\<close>

section \<open>Marks\<close>

definition mark_all :: "(marpa_xsy \<Rightarrow> marpa_xsy) \<Rightarrow> nat set \<Rightarrow> marpa_g \<Rightarrow> marpa_g" where
  "mark_all f S g = g\<lparr>t_xsys := map (\<lambda>i. if i \<in> S then f (t_xsys g ! i) else t_xsys g ! i) [0..<length (t_xsys g)]\<rparr>"

definition add_events :: "(int \<times> int) list \<Rightarrow> marpa_g \<Rightarrow> marpa_g" where
  "add_events es g = g\<lparr>t_events := t_events g @ es\<rparr>"

lemma mark_all_xsys [simp]: "length (t_xsys (mark_all f S g)) = length (t_xsys g)"
  "i < length (t_xsys g) \<Longrightarrow> t_xsys (mark_all f S g) ! i = (if i \<in> S then f (t_xsys g ! i) else t_xsys g ! i)"
  by (simp_all add: mark_all_def)

lemma mark_all_simps [simp]:
  "t_xrls (mark_all f S g) = t_xrls g" "t_events (mark_all f S g) = t_events g" "t_start_xsy_id (mark_all f S g) = t_start_xsy_id g"
  "t_cilar (mark_all f S g) = t_cilar g" "t_external_size (mark_all f S g) = t_external_size g"
  by (simp_all add: mark_all_def)

lemma add_events_simps [simp]:
  "t_xsys (add_events es g) = t_xsys g" "t_xrls (add_events es g) = t_xrls g" "t_start_xsy_id (add_events es g) = t_start_xsy_id g"
  "t_cilar (add_events es g) = t_cilar g" "t_external_size (add_events es g) = t_external_size g"
  "t_events (add_events es g) = t_events g @ es" "add_events [] g = g"
  by (simp_all add: add_events_def)

lemma mark_none [simp]: "mark_all f {} g = g"
proof -
  have "map (\<lambda>i. t_xsys g ! i) [0..<length (t_xsys g)] = t_xsys g" by (rule map_nth)
  then show ?thesis by (simp add: mark_all_def)
qed

lemma xsys_eqI: "length xs = length ys \<Longrightarrow> (\<And>i. i < length xs \<Longrightarrow> xs ! i = ys ! i) \<Longrightarrow> (xs :: marpa_xsy list) = ys"
  by (rule nth_equalityI)

lemma mark_insert:
  assumes "i < length (t_xsys g)" "i \<notin> S"
  shows "mark_all f S (xsy_update i f g) = mark_all f (insert i S) g"
proof -
  have "t_xsys (mark_all f S (xsy_update i f g)) = t_xsys (mark_all f (insert i S) g)"
    using assms by (intro xsys_eqI) (auto simp: xsy_update_def nth_list_update)
  then show ?thesis by (simp add: mark_all_def xsy_update_def)
qed

lemma mark_event: "mark_all f S (add_events es g) = add_events es (mark_all f S g)"
  by (simp add: mark_all_def add_events_def)

lemma add_events_twice: "add_events es (add_events fs g) = add_events (fs @ es) g"
  by (simp add: add_events_def)

lemma event_new: "int_event_new g ty v = add_events [(ty, v)] g"
  by (simp add: int_event_new_def add_events_def)

lemma mark_runs:
  "distinct xs \<Longrightarrow> \<forall>x \<in> set xs. x < length (t_xsys g) \<Longrightarrow> each (mark_symbol f) xs g = Some (mark_all f (set xs) g)"
proof (induction xs arbitrary: g)
  case (Cons x xs)
  then have "each (mark_symbol f) xs (xsy_update x f g) = Some (mark_all f (set xs) (xsy_update x f g))"
    by (intro Cons.IH) (simp_all add: xsy_update_def)
  moreover have "mark_symbol f x g = Some (xsy_update x f g)" using Cons.prems(2) by (simp add: mark_symbol_def)
  ultimately show ?case using Cons.prems by (simp add: mark_insert)
qed simp

lemma sorted_set_below: "A \<subseteq> {..<n} \<Longrightarrow> set (sorted_list_of_set A) = A \<and> distinct (sorted_list_of_set A)"
  for A :: "nat set"
  using finite_subset [OF _ finite_lessThan, of A n] by simp

text \<open>A scan whose body marks symbols.\<close>

lemma scan_marks:
  assumes "layout m n f" "f v = Some A" "length (t_xsys g) = n"
  shows "scan_loop (mark_symbol h) m v 0 g = Some (mark_all h A g, m)"
proof -
  have A: "A \<subseteq> {..<n}" using layout_less [OF assms(1,2)] .
  note s = sorted_set_below [OF A]
  have "\<forall>x \<in> set (sorted_list_of_set A). x < length (t_xsys g)" using A assms(3) s by auto
  with mark_runs [of "sorted_list_of_set A" g h] s have "each (mark_symbol h) (sorted_list_of_set A) g = Some (mark_all h A g)" by simp
  then show ?thesis by (simp add: layout_scan [OF assms(1,2)])
qed

text \<open>A loop whose body writes to the memory and keeps the vector that it goes through.\<close>

lemma scan_each_runs:
  assumes P: "\<And>s m. P (s, m) \<Longrightarrow> bv_ok m v n \<and> bits_at m v n = A"
    and keeps: "\<And>i sm sm'. i \<in> A \<Longrightarrow> P sm \<Longrightarrow> body i sm = Some sm' \<Longrightarrow> P sm'"
  shows "P sm \<Longrightarrow> scan_each body v start sm = each body (sorted_list_of_set (A \<inter> {start..})) sm"
proof (induction "n - start" arbitrary: start sm rule: less_induct)
  case less
  obtain s m where sm: "sm = (s, m)" by (cases sm)
  have ok: "bv_ok m v n" "bits_at m v n = A" using P less.prems sm by auto
  then have fin: "finite A" by auto
  from scan_runs [OF ok(1), of start] obtain res where
    res: "bv_scan m v start = Some (res, m)" "next_run A start res" using ok(2) by auto
  show ?case
  proof (cases res)
    case None
    with res no_run [of A start] show ?thesis
      unfolding sm by (subst scan_each.simps) simp
  next
    case (Some r)
    obtain lo hi where r: "r = (lo, hi)" by (cases r)
    have nr: "next_run A start (Some (lo, hi))" using res(2) Some r by simp
    have run: "{lo..hi} \<subseteq> A" "lo \<le> hi" "start \<le> lo" using nr by (auto simp: next_run_def)
    have "hi \<in> A" using run by auto
    then have hi: "hi < n" using ok(2) bits_at_less by blast
    have each_P: "\<forall>i \<in> set is. i \<in> A \<Longrightarrow> P a \<Longrightarrow> each body is a = Some b \<Longrightarrow> P b" for "is" a b
    proof (induction "is" arbitrary: a)
      case (Cons i js)
      then obtain c where "body i a = Some c" "each body js c = Some b" by (auto simp: run_simps)
      with Cons keeps [of i a c] show ?case by simp
    qed simp
    have "scan_each body v start sm = do { sm1 \<leftarrow> each body [lo..<Suc hi] sm; scan_each body v (hi + 2) sm1 }"
      unfolding sm using res(1) Some r by (subst scan_each.simps) (simp del: upt_Suc)
    also have "\<dots> = do { sm1 \<leftarrow> each body [lo..<Suc hi] sm; each body (sorted_list_of_set (A \<inter> {hi + 2..})) sm1 }"
    proof (cases "each body [lo..<Suc hi] sm")
      case (Some sm1)
      have "\<forall>i \<in> set [lo..<Suc hi]. i \<in> A" using run(1) by (auto simp del: upt_Suc)
      from each_P [OF this less.prems Some] have "P sm1" .
      with less.hyps [of "hi + 2" sm1] hi run Some show ?thesis by simp
    qed simp
    also have "\<dots> = each body (sorted_list_of_set (A \<inter> {start..})) sm"
      unfolding sorted_runs [OF nr fin] each_append ..
    finally show ?thesis .
  qed
qed

section \<open>Terminals\<close>

definition lhs_of :: "marpa_xrl list \<Rightarrow> nat set" where
  "lhs_of rules = LHS_ID_of_XRL ` set rules"

definition is_terminal_of :: "marpa_xrl list \<Rightarrow> marpa_xsy \<Rightarrow> nat \<Rightarrow> bool" where
  "is_terminal_of rules x s \<longleftrightarrow> (if xsy_is_locked_terminal x then xsy_is_terminal x else s \<notin> lhs_of rules)"

definition terminals_of :: "marpa_g \<Rightarrow> nat set" where
  "terminals_of g = {s. s < length (t_xsys g) \<and> is_terminal_of (t_xrls g) (t_xsys g ! s) s}"

text \<open>The symbols that the step makes terminals.\<close>

definition default_terminals :: "marpa_g \<Rightarrow> nat set" where
  "default_terminals g = {s \<in> terminals_of g. \<not> xsy_is_locked_terminal (t_xsys g ! s)}"

abbreviation set_terminal :: "marpa_xsy \<Rightarrow> marpa_xsy" where
  "set_terminal x \<equiv> x\<lparr>xsy_is_terminal := True\<rparr>"

definition classified :: "marpa_g \<Rightarrow> nat set \<Rightarrow> nat set \<Rightarrow> nat set" where
  "classified g I A = {s. if s \<in> I \<and> xsy_is_locked_terminal (t_xsys g ! s) then xsy_is_terminal (t_xsys g ! s) else s \<in> A}"

definition defaulted :: "marpa_g \<Rightarrow> nat set \<Rightarrow> nat set \<Rightarrow> nat set" where
  "defaulted g I A = {s \<in> I. \<not> xsy_is_locked_terminal (t_xsys g ! s) \<and> s \<in> A}"

lemma classify_runs:
  assumes "layout m n (f(tv \<mapsto> A))" "length (t_xsys g) = n" "\<forall>x \<in> set ids. x < n" "distinct ids"
  shows "\<exists>m'. classify_terminals tv ids g m = Some (mark_all set_terminal (defaulted g (set ids) A) g, m')
    \<and> layout m' n (f(tv \<mapsto> classified g (set ids) A))"
  using assms
proof (induction ids arbitrary: g m A)
  case Nil
  then show ?case by (simp add: defaulted_def classified_def)
next
  case (Cons x ids)
  let ?x = "t_xsys g ! x"
  have x: "x < n" "x < length (t_xsys g)" "x \<notin> set ids" using Cons.prems(2-4) by auto
  have tv: "(f(tv \<mapsto> A)) tv = Some A" by simp
  have ids: "\<forall>x \<in> set ids. x < n" "distinct ids" using Cons.prems(3,4) by simp_all
  show ?case
  proof (cases "xsy_is_locked_terminal ?x")
    case True
    define B where "B = (if xsy_is_terminal ?x then insert x A else A - {x})"
    obtain m1 where m1: "(if xsy_is_terminal ?x then bv_bit_set m tv x else bv_bit_clear m tv x) = Some m1"
      "layout m1 n (f(tv \<mapsto> B))"
    proof (cases "xsy_is_terminal ?x")
      case True
      from layout_set [OF Cons.prems(1) tv x(1)] obtain m1 where
        "bv_bit_set m tv x = Some m1" "layout m1 n (f(tv \<mapsto> A, tv \<mapsto> insert x A))" .
      with True that [of m1] show thesis by (simp add: B_def)
    next
      case False
      from layout_clear [OF Cons.prems(1) tv x(1)] obtain m1 where
        "bv_bit_clear m tv x = Some m1" "layout m1 n (f(tv \<mapsto> A, tv \<mapsto> A - {x}))" .
      with False that [of m1] show thesis by (simp add: B_def)
    qed
    from Cons.IH [OF m1(2) Cons.prems(2) ids] obtain m' where m':
      "classify_terminals tv ids g m1 = Some (mark_all set_terminal (defaulted g (set ids) B) g, m')"
      "layout m' n (f(tv \<mapsto> classified g (set ids) B))" by blast
    have D: "defaulted g (set ids) B = defaulted g (set (x # ids)) A" "classified g (set ids) B = classified g (set (x # ids)) A"
      using True x(3) by (auto simp: B_def defaulted_def classified_def)
    have "classify_terminals tv (x # ids) g m = classify_terminals tv ids g m1" using m1(1) True by (simp add: Let_def)
    then show ?thesis using m' unfolding D by metis
  next
    case False
    let ?g = "if x \<in> A then xsy_update x set_terminal g else g"
    have len: "length (t_xsys ?g) = n" using Cons.prems(2) by simp
    have other: "t_xsys ?g ! s = t_xsys g ! s" if "s \<noteq> x" for s using that by (simp add: xsy_update_def)
    from Cons.IH [OF Cons.prems(1) len ids] obtain m' where m':
      "classify_terminals tv ids ?g m = Some (mark_all set_terminal (defaulted ?g (set ids) A) ?g, m')"
      "layout m' n (f(tv \<mapsto> classified ?g (set ids) A))" by blast
    have "t_xsys ?g ! s = t_xsys g ! s" if "s \<in> set ids" for s using that x(3) other by metis
    then have D: "defaulted ?g (set ids) A = defaulted g (set ids) A" "classified ?g (set ids) A = classified g (set ids) A"
      by (auto simp: defaulted_def classified_def)
    have "mark_all set_terminal (defaulted g (set ids) A) ?g = mark_all set_terminal (defaulted g (set (x # ids)) A) g"
    proof (cases "x \<in> A")
      case True
      then have "defaulted g (set (x # ids)) A = insert x (defaulted g (set ids) A)" using False by (auto simp: defaulted_def)
      moreover have "x \<notin> defaulted g (set ids) A" using x(3) by (simp add: defaulted_def)
      ultimately show ?thesis using True mark_insert [OF x(2)] by simp
    next
      case nA: False
      then have "defaulted g (set (x # ids)) A = defaulted g (set ids) A" by (auto simp: defaulted_def)
      with nA show ?thesis by simp
    qed
    moreover have "classified g (set ids) A = classified g (set (x # ids)) A" using False by (auto simp: classified_def)
    moreover have "classify_terminals tv (x # ids) g m = classify_terminals tv ids ?g m"
      using False layout_test [OF Cons.prems(1) tv x(1)] by (simp add: Let_def)
    ultimately show ?thesis using m' unfolding D by metis
  qed
qed

text \<open>The step.\<close>

lemma terminals_run:
  assumes f: "layout m n f" "f lv = Some (lhs_of (t_xrls g))" and n: "length (t_xsys g) = n"
  obtains tv m' f' where "census_terminals lv g m = Some (tv, mark_all set_terminal (default_terminals g) g, m')"
    "layout m' n f'" "f \<subseteq>\<^sub>m f'" "f' tv = Some (terminals_of g)"
proof -
  obtain tv m1 where tv: "bv_create m n = (tv, m1)" by (cases "bv_create m n")
  note l1 = layout_create [OF f(1) tv]
  have ne: "tv \<noteq> lv" using l1(2) f(2) by auto
  have "(f(tv \<mapsto> {})) tv = Some {}" "(f(tv \<mapsto> {})) lv = Some (lhs_of (t_xrls g))" using f(2) ne by simp_all
  from layout_not [OF l1(1) this ne] obtain m2 where
    m2: "bv_not m1 tv lv = Some m2" "layout m2 n (f(tv \<mapsto> {}, tv \<mapsto> {..<n} - lhs_of (t_xrls g)))" .
  let ?A = "{..<n} - lhs_of (t_xrls g)"
  have "layout m2 n (f(tv \<mapsto> ?A))" using m2(2) by simp
  from classify_runs [OF this n, of "[0..<n]"] obtain m3 where
    m3: "classify_terminals tv [0..<n] g m2 = Some (mark_all set_terminal (defaulted g {..<n} ?A) g, m3)"
    "layout m3 n (f(tv \<mapsto> classified g {..<n} ?A))" by (auto simp: atLeast0LessThan)
  have tv3: "(f(tv \<mapsto> classified g {..<n} ?A)) tv = Some (classified g {..<n} ?A)" by simp
  have "classified g {..<n} ?A = terminals_of g"
    using layout_less [OF m3(2) tv3] n by (auto simp: classified_def terminals_of_def is_terminal_of_def split: if_split_asm)
  moreover have "defaulted g {..<n} ?A = default_terminals g"
    using n by (auto simp: defaulted_def default_terminals_def terminals_of_def is_terminal_of_def)
  ultimately show thesis
    using tv m2(1) m3 n l1(2) that [of tv m3 "f(tv \<mapsto> terminals_of g)"]
    by (simp add: census_terminals_def map_le_new)
qed

section \<open>Matrices\<close>

text \<open>A square matrix, its relation, and what changes of the memory.\<close>

definition matrix_at :: "words \<Rightarrow> nat \<Rightarrow> Bit_Matrix \<Rightarrow> (nat \<times> nat) set \<Rightarrow> bool" where
  "matrix_at m n M R \<longleftrightarrow> matrix_ok m M n \<and> t_row_count M = n \<and> relation_of m M n = R"

lemma matrix_at_less: "matrix_at m n M R \<Longrightarrow> R \<subseteq> {..<n} \<times> {..<n}"
  by (auto simp: matrix_at_def relation_of_def dest: bits_at_less)

lemma bit_at_set:
  assumes "matrix_at m n M R" "i < n" "j < n"
  obtains m' where "matrix_bit_set m M i j = Some m'" "matrix_at m' n M (insert (i, j) R)" "only_rows M n m m'"
proof -
  have M: "matrix_ok m M n" "t_row_count M = n" "relation_of m M n = R" "i < t_row_count M"
    using assms(1,2) by (simp_all add: matrix_at_def)
  have "bv_ok m (row_at M n i) n" using M by (simp add: matrix_ok_def)
  from bit_set_runs [OF this assms(3)] obtain m' where m': "bv_bit_set m (row_at M n i) j = Some m'" "only_data (row_at M n i) n m m'"
    "bv_ok m' (row_at M n i) n" "bits_at m' (row_at M n i) n = insert j (bits_at m (row_at M n i) n)" .
  note ch = row_changed [OF M(1,4) m'(2,3)]
  have "relation_of m' M n = insert (i, j) R"
    unfolding ch(2) m'(4) using M by (auto simp: relation_of_def)
  then have "matrix_at m' n M (insert (i, j) R)" using ch(1) M(2) by (simp add: matrix_at_def)
  moreover have "matrix_bit_set m M i j = Some m'" using m'(1) matrix_reads(2) [OF M(1,4)] by (simp add: matrix_bit_set_def)
  ultimately show thesis using row_only_rows [OF M(4) m'(2)] that by blast
qed

lemma bit_at_test: "matrix_at m n M R \<Longrightarrow> i < n \<Longrightarrow> j < n \<Longrightarrow> matrix_bit_test m M i j = Some ((i, j) \<in> R)"
  using matrix_reads(2) [of m M n i] bit_test_runs [of m "row_at M n i" n j]
  by (auto simp: matrix_bit_test_def matrix_at_def relation_of_def matrix_ok_def)

lemma columns_set:
  assumes "matrix_at m n M R" "i < n" "\<forall>j \<in> set js. j < n"
  shows "\<exists>m'. set_columns M i js m = Some m' \<and> matrix_at m' n M (R \<union> {i} \<times> set js) \<and> only_rows M n m m'"
  using assms
proof (induction js arbitrary: m R)
  case (Cons j js)
  have j: "j < n" "\<forall>j \<in> set js. j < n" using Cons.prems(3) by simp_all
  from bit_at_set [OF Cons.prems(1,2) j(1)] obtain m1 where
    m1: "matrix_bit_set m M i j = Some m1" "matrix_at m1 n M (insert (i, j) R)" "only_rows M n m m1" .
  from Cons.IH [OF m1(2) Cons.prems(2) j(2)] obtain m' where
    m': "set_columns M i js m1 = Some m'" "matrix_at m' n M (insert (i, j) R \<union> {i} \<times> set js)" "only_rows M n m1 m'" by blast
  have "insert (i, j) R \<union> {i} \<times> set js = R \<union> {i} \<times> set (j # js)" by auto
  with m' m1(1) only_rows_trans [OF m1(3) m'(3)] show ?case by simp
qed (simp add: only_rows_refl)

lemma closure_at:
  assumes "matrix_at m n M R"
  obtains m' where "transitive_closure m M = Some m'" "matrix_at m' n M (R\<^sup>+)" "only_rows M n m m'"
proof -
  have M: "matrix_ok m M n" "t_row_count M = n" "relation_of m M n = R" using assms by (simp_all add: matrix_at_def)
  from closure_runs [OF M(1,2)] M(2,3) that show thesis by (metis matrix_at_def)
qed

text \<open>A new matrix that is filled leaves all vectors as they were.\<close>

definition placed_after :: "words \<Rightarrow> words \<Rightarrow> nat \<Rightarrow> Bit_Matrix \<Rightarrow> bool" where
  "placed_after m m' n M \<longleftrightarrow> (\<forall>k w A. vec m k w A \<longrightarrow> vec m' k w A \<and> outside M n w k)
     \<and> (\<forall>w A i. vec m n w A \<longrightarrow> i < n \<longrightarrow> apart n w (row_at M n i))"

lemma matrix_new:
  assumes "matrix_fits n"
  obtains M m' where "matrix_obs_create m n n = Some (M, m')" "matrix_at m' n M {}" "placed_after m m' n M"
proof -
  from matrix_create_runs [OF assms, of m] obtain M m' where
    M: "matrix_obs_create m n n = Some (M, m')" "matrix_ok m' M n" "t_row_count M = n" "relation_of m' M n = {}"
    "\<And>k. frame k {} m m'" "row0 M = length m + 3" by blast
  have "vec m' k w A \<and> outside M n w k" if "vec m k w A" for k w A
    using frame_vec [OF M(5) that] outside_before [of w k M n] vec_place [OF that] M(6) by simp
  moreover have "apart n w (row_at M n i)" if "vec m n w A" for w A i
    using vec_place [OF that] M(6) by (simp add: apart_def row_at_def)
  ultimately have "placed_after m m' n M" by (simp add: placed_after_def)
  moreover have "matrix_at m' n M {}" using M(2-4) by (simp add: matrix_at_def)
  ultimately show thesis using M(1) that by blast
qed

lemma kept_vec: "only_rows M n m m' \<Longrightarrow> outside M n w k \<Longrightarrow> vec m k w A \<Longrightarrow> vec m' k w A"
  by (simp add: only_rows_def vec_def)

text \<open>The map after a matrix of the same size was made and filled.\<close>

lemma layout_filled:
  assumes f: "layout m n f" and new: "placed_after m m1 n M"
    and m': "only_rows M n m1 m'" "matrix_at m' n M R"
  obtains f' where "layout m' n f'" "f \<subseteq>\<^sub>m f'" "\<And>i. i < n \<Longrightarrow> f' (row_at M n i) = Some (R `` {i})"
proof -
  have "layout m' n f"
    unfolding layout_def
  proof (intro conjI allI impI)
    show "n < 2 ^ 31" using f by (rule layout_small)
    show "vec m' n v A" if "f v = Some A" for v A
      using kept_vec [OF m'(1)] new layout_vec [OF f that] unfolding placed_after_def by blast
  qed (use f in \<open>simp add: layout_def\<close>)
  moreover have "matrix_ok m' M n" "t_row_count M = n" "relation_of m' M n = R" using m'(2) by (simp_all add: matrix_at_def)
  moreover have "apart n v (row_at M n i)" if "v \<in> dom f" "i < n" for v i
    using that new layout_vec [OF f] unfolding placed_after_def by blast
  ultimately show thesis using layout_matrix [of m' n f M] that by metis
qed

section \<open>Reachability\<close>

definition mention_rel :: "marpa_xrl list \<Rightarrow> (nat \<times> nat) set" where
  "mention_rel rules = {(LHS_ID_of_XRL r, x) | r x. r \<in> set rules \<and> x \<in> mentions r}"

lemma reach_rules_run:
  assumes "matrix_at m n M R" "symbols_ok n rules"
  shows "\<exists>m'. reach_rules M rules m = Some m' \<and> matrix_at m' n M (R \<union> mention_rel rules) \<and> only_rows M n m m'"
  using assms
proof (induction rules arbitrary: m R)
  case Nil
  then show ?case by (simp add: mention_rel_def only_rows_refl)
next
  case (Cons r rules)
  let ?l = "LHS_ID_of_XRL r" and ?sep = "t_is_sequence r \<and> 0 \<le> t_separator_id r"
  have r: "?l < n" "\<forall>x \<in> set (RHS_IDs_of_XRL r). x < n" "t_separator_id r < int n" "symbols_ok n rules"
    using Cons.prems(2) by (auto simp: symbols_ok_def)
  from columns_set [OF Cons.prems(1) r(1,2)] obtain m1 where
    m1: "set_columns M ?l (RHS_IDs_of_XRL r) m = Some m1" "matrix_at m1 n M (R \<union> {?l} \<times> set (RHS_IDs_of_XRL r))" "only_rows M n m m1"
    by blast
  let ?R = "R \<union> {?l} \<times> mentions r"
  obtain m2 where m2: "(if ?sep then matrix_bit_set m1 M ?l (nat (t_separator_id r)) else Some m1) = Some m2"
    "matrix_at m2 n M ?R" "only_rows M n m1 m2"
  proof (cases ?sep)
    case True
    then have "nat (t_separator_id r) < n" using r(3) by linarith
    from bit_at_set [OF m1(2) r(1) this] obtain m2 where
      m2: "matrix_bit_set m1 M ?l (nat (t_separator_id r)) = Some m2"
      "matrix_at m2 n M (insert (?l, nat (t_separator_id r)) (R \<union> {?l} \<times> set (RHS_IDs_of_XRL r)))" "only_rows M n m1 m2" .
    have "insert (?l, nat (t_separator_id r)) (R \<union> {?l} \<times> set (RHS_IDs_of_XRL r)) = ?R"
      using True by (auto simp: mentions_def)
    with True m2 that show thesis by simp
  next
    case False
    then have "mentions r = set (RHS_IDs_of_XRL r)" by (auto simp: mentions_def)
    with m1(2) only_rows_refl [of M n m1] that [of m1] show thesis unfolding if_not_P [OF False] by simp
  qed
  from Cons.IH [OF m2(2) r(4)] obtain m' where
    m': "reach_rules M rules m2 = Some m'" "matrix_at m' n M (?R \<union> mention_rel rules)" "only_rows M n m2 m'" by blast
  have "?R \<union> mention_rel rules = R \<union> mention_rel (r # rules)" by (auto simp: mention_rel_def)
  with m' m1(1) m2(1) only_rows_trans [OF m1(3) only_rows_trans [OF m2(3) m'(3)]] show ?case by simp
qed

lemma reach_run:
  assumes f: "layout m n f" and n: "length (t_xsys g) = n" "matrix_fits n" and ok: "symbols_ok n (t_xrls g)"
  obtains M m' f' where "census_reach g m = Some (M, m')" "layout m' n f'" "f \<subseteq>\<^sub>m f'" "matrix_at m' n M ((mention_rel (t_xrls g))\<^sup>+)"
    "\<And>i. i < n \<Longrightarrow> f' (row_at M n i) = Some ((mention_rel (t_xrls g))\<^sup>+ `` {i})"
proof -
  from matrix_new [OF n(2), of m] obtain M m1 where M: "matrix_obs_create m n n = Some (M, m1)" "matrix_at m1 n M {}"
    "placed_after m m1 n M" .
  from reach_rules_run [OF M(2) ok] obtain m2 where
    m2: "reach_rules M (t_xrls g) m1 = Some m2" "matrix_at m2 n M (mention_rel (t_xrls g))" "only_rows M n m1 m2" by auto
  from closure_at [OF m2(2)] obtain m3 where
    m3: "transitive_closure m2 M = Some m3" "matrix_at m3 n M ((mention_rel (t_xrls g))\<^sup>+)" "only_rows M n m2 m3" .
  from layout_filled [OF f M(3) only_rows_trans [OF m2(3) m3(3)] m3(2)] obtain f' where
    "layout m3 n f'" "f \<subseteq>\<^sub>m f'" "\<And>i. i < n \<Longrightarrow> f' (row_at M n i) = Some ((mention_rel (t_xrls g))\<^sup>+ `` {i})" by blast
  moreover have "census_reach g m = Some (M, m3)" using n(1) M(1) m2(1) m3(1) by (simp add: census_reach_def)
  ultimately show thesis using m3(2) that by blast
qed

section \<open>Nullable and productive symbols\<close>

lemma layout_closure:
  assumes f: "layout m n f" "f v = Some A" and g: "length (t_xsys g) = n" "symbols_ok n (t_xrls g)"
    and ix: "index_ok (t_xrls g) n xl rd"
  obtains m' where "rhs_closure g v xl rd m = Some m'" "layout m' n (f(v \<mapsto> rhs_closed (t_xrls g) A))"
proof -
  have v: "bv_ok m v n" "bits_at m v n = A" using layout_vec [OF f] by (simp_all add: vec_def)
  from rhs_closure_runs [OF g ix v(1)] obtain m' where
    m': "rhs_closure g v xl rd m = Some m'" "only_data v n m m'" "bv_ok m' v n" "bits_at m' v n = rhs_closed (t_xrls g) A"
    using v(2) by blast
  then have "vec m' n v (rhs_closed (t_xrls g) A)" by (simp add: vec_def)
  from layout_put [OF f this frame_data [OF m'(2)]] m'(1) that show thesis by blast
qed

definition empty_lhs :: "marpa_xrl list \<Rightarrow> nat set" where
  "empty_lhs rules = {LHS_ID_of_XRL r | r. r \<in> set rules \<and> has_empty r}"

definition nullable_of :: "marpa_xrl list \<Rightarrow> nat set" where
  "nullable_of rules = rhs_closed rules (empty_lhs rules)"

abbreviation set_nullable :: "marpa_xsy \<Rightarrow> marpa_xsy" where
  "set_nullable x \<equiv> x\<lparr>xsy_is_nullable := True\<rparr>"

abbreviation set_productive :: "marpa_xsy \<Rightarrow> marpa_xsy" where
  "set_productive x \<equiv> x\<lparr>xsy_is_productive := True\<rparr>"

abbreviation set_accessible :: "marpa_xsy \<Rightarrow> marpa_xsy" where
  "set_accessible x \<equiv> x\<lparr>xsy_is_accessible := True\<rparr>"

abbreviation set_nulling :: "marpa_xsy \<Rightarrow> marpa_xsy" where
  "set_nulling x \<equiv> x\<lparr>xsy_is_nulling := True\<rparr>"

definition counted_events :: "marpa_g \<Rightarrow> nat list \<Rightarrow> (int \<times> int) list" where
  "counted_events g xs = map (\<lambda>s. (MARPA_EVENT_COUNTED_NULLABLE, int s)) (filter (\<lambda>s. xsy_is_counted (t_xsys g ! s)) xs)"

lemma nullable_marks:
  "distinct xs \<Longrightarrow> \<forall>x \<in> set xs. x < length (t_xsys g)
    \<Longrightarrow> each mark_nullable xs (g, k)
      = Some (add_events (counted_events g xs) (mark_all set_nullable (set xs) g), k + length (counted_events g xs))"
proof (induction xs arbitrary: g k)
  case Nil
  then show ?case by (simp add: counted_events_def)
next
  case (Cons x xs)
  let ?es = "if xsy_is_counted (t_xsys g ! x) then [(MARPA_EVENT_COUNTED_NULLABLE, int x)] else []"
  let ?g = "add_events ?es (xsy_update x set_nullable g)"
  have step: "mark_nullable x (g, k) = Some (?g, k + length ?es)"
    using Cons.prems(2) by (simp add: mark_nullable_def mark_symbol_def event_new)
  have "t_xsys ?g ! s = t_xsys g ! s" if "s \<in> set xs" for s
  proof -
    have "x \<noteq> s" using that Cons.prems(1) by auto
    then show ?thesis by (simp add: xsy_update_def)
  qed
  then have evs: "counted_events ?g xs = counted_events g xs" unfolding counted_events_def by (metis (no_types, lifting) filter_cong)
  have "each mark_nullable xs (?g, k + length ?es)
      = Some (add_events (counted_events ?g xs) (mark_all set_nullable (set xs) ?g), k + length ?es + length (counted_events ?g xs))"
    using Cons.prems by (intro Cons.IH) simp_all
  also have "mark_all set_nullable (set xs) ?g = add_events ?es (mark_all set_nullable (set (x # xs)) g)"
    using Cons.prems by (simp add: mark_event mark_insert)
  finally have "each mark_nullable xs (?g, k + length ?es)
      = Some (add_events (?es @ counted_events g xs) (mark_all set_nullable (set (x # xs)) g), k + length (?es @ counted_events g xs))"
    by (simp only: evs add_events_twice length_append add.assoc)
  moreover have "?es @ counted_events g xs = counted_events g (x # xs)" by (simp add: counted_events_def)
  ultimately show ?case using step by simp
qed

lemma nullable_run:
  assumes f: "layout m n f" "f (empty_lhs_v ri) = Some (empty_lhs (t_xrls g))" and g: "length (t_xsys g) = n" "symbols_ok n (t_xrls g)"
    and ri: "rules_indexed (t_xrls g) n ri"
  obtains nv m' f' where "layout m' n f'" "f \<subseteq>\<^sub>m f'" "f' nv = Some (nullable_of (t_xrls g))"
    "let es = counted_events g (sorted_list_of_set (nullable_of (t_xrls g)))
     in census_nullable ri g m = Some (nv, es \<noteq> [], add_events es (mark_all set_nullable (nullable_of (t_xrls g)) g), m')"
proof -
  from layout_clone [OF f] obtain nv m1 where
    nv: "bv_clone m (empty_lhs_v ri) = Some (nv, m1)" "layout m1 n (f(nv \<mapsto> empty_lhs (t_xrls g)))" "f nv = None" .
  have "(f(nv \<mapsto> empty_lhs (t_xrls g))) nv = Some (empty_lhs (t_xrls g))" by simp
  moreover have "index_ok (t_xrls g) n (xrl_list_x_rh_sym ri) (rh_rule_data ri)" using ri by (simp add: rules_indexed_def)
  ultimately obtain m2 where m2: "rhs_closure g nv (xrl_list_x_rh_sym ri) (rh_rule_data ri) m1 = Some m2"
    "layout m2 n (f(nv \<mapsto> empty_lhs (t_xrls g), nv \<mapsto> nullable_of (t_xrls g)))"
    using layout_closure [OF nv(2) _ g] unfolding nullable_of_def by metis
  then have l2: "layout m2 n (f(nv \<mapsto> nullable_of (t_xrls g)))" by simp
  have at: "(f(nv \<mapsto> nullable_of (t_xrls g))) nv = Some (nullable_of (t_xrls g))" by simp
  note A = layout_less [OF l2 at]
  let ?xs = "sorted_list_of_set (nullable_of (t_xrls g))"
  have xs: "set ?xs = nullable_of (t_xrls g)" "distinct ?xs" using sorted_set_below [OF A] by simp_all
  have "\<forall>x \<in> set ?xs. x < length (t_xsys g)" using A g(1) xs(1) by auto
  from nullable_marks [OF xs(2) this, of 0] have
    "scan_loop mark_nullable m2 nv 0 (g, 0) = Some ((add_events (counted_events g ?xs) (mark_all set_nullable (nullable_of (t_xrls g)) g),
       length (counted_events g ?xs)), m2)"
    by (simp add: layout_scan [OF l2 at] xs(1))
  then have "let es = counted_events g ?xs
     in census_nullable ri g m = Some (nv, es \<noteq> [], add_events es (mark_all set_nullable (nullable_of (t_xrls g)) g), m2)"
    using nv(1) m2(1) by (simp add: census_nullable_def Let_def)
  with l2 at nv(3) that [OF l2, of nv] show thesis by (simp add: map_le_new)
qed

definition productive_of :: "marpa_g \<Rightarrow> nat set" where
  "productive_of g = rhs_closed (t_xrls g) (nullable_of (t_xrls g) \<union> terminals_of g)"

lemma productive_run:
  assumes f: "layout m n f" "f nv = Some N" "f tv = Some T" and g: "length (t_xsys g) = n" "symbols_ok n (t_xrls g)"
    and ri: "rules_indexed (t_xrls g) n ri"
  obtains pv m' f' where "layout m' n f'" "f \<subseteq>\<^sub>m f'" "f' pv = Some (rhs_closed (t_xrls g) (N \<union> T))"
    "census_productive ri nv tv g m = Some (pv, mark_all set_productive (rhs_closed (t_xrls g) (N \<union> T)) g, m')"
proof -
  let ?P = "rhs_closed (t_xrls g) (N \<union> T)"
  from layout_shadow [OF f(1,2)] obtain pv m1 where
    pv: "bv_shadow m nv = Some (pv, m1)" "layout m1 n (f(pv \<mapsto> {}))" "f pv = None" .
  have ne: "pv \<noteq> nv" "pv \<noteq> tv" using pv(3) f(2,3) by auto
  have "(f(pv \<mapsto> {})) pv = Some {}" "(f(pv \<mapsto> {})) nv = Some N" "(f(pv \<mapsto> {})) tv = Some T" using f(2,3) ne by simp_all
  from layout_or [OF pv(2) this(1,2) ne(1) this(3) ne(2)] obtain m2 where
    m2: "bv_or m1 pv nv tv = Some m2" "layout m2 n (f(pv \<mapsto> {}, pv \<mapsto> N \<union> T))" .
  then have l2: "layout m2 n (f(pv \<mapsto> N \<union> T))" by simp
  have "(f(pv \<mapsto> N \<union> T)) pv = Some (N \<union> T)" by simp
  moreover have "index_ok (t_xrls g) n (xrl_list_x_rh_sym ri) (rh_rule_data ri)" using ri by (simp add: rules_indexed_def)
  ultimately obtain m3 where m3: "rhs_closure g pv (xrl_list_x_rh_sym ri) (rh_rule_data ri) m2 = Some m3"
    "layout m3 n (f(pv \<mapsto> N \<union> T, pv \<mapsto> ?P))"
    using layout_closure [OF l2 _ g] by metis
  then have l3: "layout m3 n (f(pv \<mapsto> ?P))" by simp
  have at: "(f(pv \<mapsto> ?P)) pv = Some ?P" by simp
  have "census_productive ri nv tv g m = Some (pv, mark_all set_productive ?P g, m3)"
    using pv(1) m2(1) m3(1) scan_marks [OF l3 at g(1), of set_productive] by (simp add: census_productive_def)
  with l3 at pv(3) that [OF l3, of pv] show thesis by (simp add: map_le_new)
qed

section \<open>Accessible and nulling symbols\<close>

lemma mark_mark: "mark_all f A (mark_all f B g) = mark_all f (A \<union> B) g" if "\<And>x. f (f x) = f x"
proof -
  have "t_xsys (mark_all f A (mark_all f B g)) = t_xsys (mark_all f (A \<union> B) g)"
    using that by (intro xsys_eqI) auto
  then show ?thesis by (simp add: mark_all_def)
qed

lemma mark_one: "i < length (t_xsys g) \<Longrightarrow> xsy_update i f g = mark_all f {i} g"
  using mark_insert [of i g "{}" f] by simp

lemma accessible_run:
  assumes f: "layout m n f" and M: "matrix_at m n M R" and n: "length (t_xsys g) = n"
    and rows: "\<And>i. i < n \<Longrightarrow> f (row_at M n i) = Some (R `` {i})" and s: "t_start_xsy_id g = int s" "s < n"
  shows "census_accessible M g m = Some (mark_all set_accessible (insert s (R `` {s})) g, m)"
proof -
  have row: "matrix_row m M s = Some (row_at M n s)" using matrix_reads(2) [of m M n s] M s by (simp add: matrix_at_def)
  have "mark_all set_accessible {s} (mark_all set_accessible (R `` {s}) g) = mark_all set_accessible (insert s (R `` {s})) g"
    by (subst mark_mark) simp_all
  with row scan_marks [OF f rows [OF s(2)] n, of set_accessible] s n show ?thesis
    by (simp add: census_accessible_def mark_symbol_def mark_one)
qed

text \<open>A symbol from which no terminal is reached.\<close>

definition quiet :: "(nat \<times> nat) set \<Rightarrow> nat set \<Rightarrow> nat \<Rightarrow> bool" where
  "quiet R T i \<longleftrightarrow> T \<inter> R `` {i} = {}"

definition nulling_events :: "(nat \<times> nat) set \<Rightarrow> nat set \<Rightarrow> marpa_g \<Rightarrow> nat list \<Rightarrow> (int \<times> int) list" where
  "nulling_events R T g xs = map (\<lambda>s. (MARPA_EVENT_NULLING_TERMINAL, int s)) (filter (\<lambda>s. quiet R T s \<and> xsy_is_terminal (t_xsys g ! s)) xs)"

lemma nulling_step:
  assumes f: "layout m n f" "f rv = Some X" "f tv = Some T" and M: "matrix_at m n M R"
    and rows: "\<And>i. i < n \<Longrightarrow> f (row_at M n i) = Some (R `` {i})" and ne: "rv \<noteq> tv" "\<And>i. i < n \<Longrightarrow> rv \<noteq> row_at M n i"
    and i: "i < n" "length (t_xsys g) = n"
  obtains m' X' where "layout m' n (f(rv \<mapsto> X'))" "matrix_at m' n M R"
    "mark_nulling rv tv M i ((g, b), m)
      = Some ((add_events (nulling_events R T g [i]) (if quiet R T i then xsy_update i set_nulling g else g), b \<or> nulling_events R T g [i] \<noteq> []), m')"
proof -
  have row: "matrix_row m M i = Some (row_at M n i)" using matrix_reads(2) [of m M n i] M i by (simp add: matrix_at_def)
  from layout_and [OF f(1,2,3) ne(1) rows [OF i(1)] ne(2) [OF i(1)]] obtain m1 where
    m1: "bv_and m rv tv (row_at M n i) = Some m1" "layout m1 n (f(rv \<mapsto> T \<inter> R `` {i}))" .
  have "(f(rv \<mapsto> T \<inter> R `` {i})) rv = Some (T \<inter> R `` {i})" by simp
  from layout_empty_test [OF m1(2) this] have e: "bv_is_empty m1 rv = Some (quiet R T i, m1)" by (simp add: quiet_def)
  have "vec m1 n (row_at M n j) (R `` {j})" if "j < n" for j
    using layout_vec [OF m1(2), of "row_at M n j"] rows [OF that] ne(2) [OF that] by simp
  then have "matrix_at m1 n M R"
    using M matrix_at_less [OF M] by (auto simp: matrix_at_def matrix_ok_def vec_def relation_of_def)
  moreover have "mark_nulling rv tv M i ((g, b), m)
      = Some ((add_events (nulling_events R T g [i]) (if quiet R T i then xsy_update i set_nulling g else g), b \<or> nulling_events R T g [i] \<noteq> []), m1)"
    using row m1(1) e i by (simp add: mark_nulling_def mark_symbol_def event_new nulling_events_def)
  ultimately show thesis using m1(2) that by blast
qed

lemma nulling_marks:
  assumes M: "matrix_at m n M R" and f: "layout m n (f(rv \<mapsto> X))" "f tv = Some T"
    and rows: "\<And>i. i < n \<Longrightarrow> f (row_at M n i) = Some (R `` {i})" and rv: "f rv = None"
    and xs: "distinct xs" "\<forall>x \<in> set xs. x < n" and n: "length (t_xsys g) = n"
  shows "\<exists>m' X'. layout m' n (f(rv \<mapsto> X')) \<and> matrix_at m' n M R
    \<and> each (mark_nulling rv tv M) xs ((g, b), m)
      = Some ((add_events (nulling_events R T g xs) (mark_all set_nulling {x \<in> set xs. quiet R T x} g), b \<or> nulling_events R T g xs \<noteq> []), m')"
  using M f(1) xs n
proof (induction xs arbitrary: m X g b)
  case Nil
  then show ?case by (auto simp: nulling_events_def)
next
  case (Cons x xs)
  let ?f = "f(rv \<mapsto> X)"
  have ne: "rv \<noteq> tv" "rv \<noteq> row_at M n i" if "i < n" for i using rv f(2) rows [OF that] by auto
  have x: "x < n" "x \<notin> set xs" "distinct xs" "\<forall>x \<in> set xs. x < n" using Cons.prems(3,4) by auto
  have at: "?f rv = Some X" "?f tv = Some T" "?f (row_at M n i) = Some (R `` {i})" if "i < n" for i
    using f(2) rows [OF that] ne [OF that] by simp_all
  from nulling_step [OF Cons.prems(2) at(1) [OF x(1)] at(2) [OF x(1)] Cons.prems(1) at(3) ne(1) [OF x(1)] ne(2) x(1) Cons.prems(5), of b]
  obtain m1 X1 where m1: "layout m1 n (?f(rv \<mapsto> X1))" "matrix_at m1 n M R"
    "mark_nulling rv tv M x ((g, b), m)
      = Some ((add_events (nulling_events R T g [x]) (if quiet R T x then xsy_update x set_nulling g else g), b \<or> nulling_events R T g [x] \<noteq> []), m1)" .
  let ?g = "add_events (nulling_events R T g [x]) (if quiet R T x then xsy_update x set_nulling g else g)"
  let ?b = "b \<or> nulling_events R T g [x] \<noteq> []"
  have l1: "layout m1 n (f(rv \<mapsto> X1))" using m1(1) by simp
  have len: "length (t_xsys ?g) = n" using Cons.prems(5) by simp
  from Cons.IH [OF m1(2) l1 x(3,4) len, of ?b] obtain m' X' where
    m': "layout m' n (f(rv \<mapsto> X'))" "matrix_at m' n M R"
    "each (mark_nulling rv tv M) xs ((?g, ?b), m1)
      = Some ((add_events (nulling_events R T ?g xs) (mark_all set_nulling {x \<in> set xs. quiet R T x} ?g), ?b \<or> nulling_events R T ?g xs \<noteq> []), m')"
    by blast
  have "t_xsys ?g ! s = t_xsys g ! s" if "s \<in> set xs" for s
  proof -
    have "x \<noteq> s" using that x(2) by auto
    then show ?thesis by (simp add: xsy_update_def)
  qed
  then have evs: "nulling_events R T ?g xs = nulling_events R T g xs"
    unfolding nulling_events_def by (metis (no_types, lifting) filter_cong)
  have cat: "nulling_events R T g [x] @ nulling_events R T g xs = nulling_events R T g (x # xs)" by (simp add: nulling_events_def)
  have "mark_all set_nulling {y \<in> set xs. quiet R T y} (if quiet R T x then xsy_update x set_nulling g else g)
      = mark_all set_nulling {y \<in> set (x # xs). quiet R T y} g"
  proof (cases "quiet R T x")
    case True
    then have "{y \<in> set (x # xs). quiet R T y} = insert x {y \<in> set xs. quiet R T y}" by auto
    with True x(1,2) Cons.prems(5) show ?thesis by (simp add: mark_insert)
  next
    case False
    then have "{y \<in> set (x # xs). quiet R T y} = {y \<in> set xs. quiet R T y}" by auto
    with False show ?thesis by simp
  qed
  then have E: "add_events (nulling_events R T ?g xs) (mark_all set_nulling {y \<in> set xs. quiet R T y} ?g)
      = add_events (nulling_events R T g (x # xs)) (mark_all set_nulling {y \<in> set (x # xs). quiet R T y} g)"
    unfolding evs mark_event add_events_twice cat by simp
  have B: "(?b \<or> nulling_events R T ?g xs \<noteq> []) = (b \<or> nulling_events R T g (x # xs) \<noteq> [])"
    unfolding evs cat [symmetric] by simp
  have "each (mark_nulling rv tv M) (x # xs) ((g, b), m) = each (mark_nulling rv tv M) xs ((?g, ?b), m1)"
    using m1(3) by simp
  note S = this [unfolded m'(3) E B]
  show ?case by (rule exI [of _ m'], rule exI [of _ X'], intro conjI m'(1,2) S)
qed

lemma nulling_run:
  assumes f: "layout m n f" "f lv = Some L" "f tv = Some T" and M: "matrix_at m n M R"
    and rows: "\<And>i. i < n \<Longrightarrow> f (row_at M n i) = Some (R `` {i})" and n: "length (t_xsys g) = n"
  obtains m' f' where "layout m' n f'" "f \<subseteq>\<^sub>m f'"
    "let es = nulling_events R T g (sorted_list_of_set L)
     in census_nulling tv lv M g m = Some (es \<noteq> [], add_events es (mark_all set_nulling {x \<in> L. quiet R T x} g), m')"
proof -
  from layout_shadow [OF f(1,3)] obtain rv m1 where
    rv: "bv_shadow m tv = Some (rv, m1)" "layout m1 n (f(rv \<mapsto> {}))" "f rv = None" .
  have ne: "rv \<noteq> lv" "rv \<noteq> tv" "rv \<noteq> row_at M n i" if "i < n" for i using rv(3) f(2,3) rows [OF that] by auto
  have row: "(f(rv \<mapsto> X)) (row_at M n j) = Some (R `` {j})" if "j < n" for j X
    using rows [OF that] ne(3) [OF that] by simp
  have "vec m1 n (row_at M n j) (R `` {j})" if "j < n" for j by (rule layout_vec [OF rv(2) row [OF that]])
  then have M1: "matrix_at m1 n M R"
    using M matrix_at_less [OF M] by (auto simp: matrix_at_def matrix_ok_def vec_def relation_of_def)
  have L: "L \<subseteq> {..<n}" using layout_less [OF f(1,2)] .
  define P :: "(marpa_g \<times> bool) \<times> words \<Rightarrow> bool" where
    "P = (\<lambda>sm. length (t_xsys (fst (fst sm))) = n \<and> matrix_at (snd sm) n M R \<and> (\<exists>X. layout (snd sm) n (f(rv \<mapsto> X))))"
  have "n \<noteq> 0" using M by (simp add: matrix_at_def matrix_ok_def)
  then have n0: "0 < n" by simp
  have P1: "bv_ok m lv n \<and> bits_at m lv n = L" if "P (s, m)" for s m
  proof -
    from that obtain X where "layout m n (f(rv \<mapsto> X))" by (auto simp: P_def)
    moreover have "(f(rv \<mapsto> X)) lv = Some L" using f(2) ne(1) [OF n0] by simp
    ultimately show ?thesis using layout_vec by (auto simp: vec_def)
  qed
  have P2: "P sm'" if i: "i \<in> L" and sm: "P sm" "mark_nulling rv tv M i sm = Some sm'" for i sm sm'
  proof -
    obtain g b m where sm_eq: "sm = ((g, b), m)" by (cases sm) auto
    with sm(1) obtain X where X: "length (t_xsys g) = n" "matrix_at m n M R" "layout m n (f(rv \<mapsto> X))" by (auto simp: P_def)
    have at: "(f(rv \<mapsto> X)) rv = Some X" "(f(rv \<mapsto> X)) tv = Some T" using f(3) ne(2) [OF n0] by simp_all
    have i: "i < n" using i L by auto
    from nulling_step [OF X(3) at X(2) row ne(2) [OF n0] ne(3) i X(1), of b] obtain m' X' where
      "layout m' n (f(rv \<mapsto> X, rv \<mapsto> X'))" "matrix_at m' n M R" "mark_nulling rv tv M i ((g, b), m)
        = Some ((add_events (nulling_events R T g [i]) (if quiet R T i then xsy_update i set_nulling g else g), b \<or> nulling_events R T g [i] \<noteq> []), m')" .
    with sm(2) X(1) show ?thesis by (auto simp: P_def sm_eq)
  qed
  have "P ((g, False), m1)" using n M1 rv(2) by (auto simp: P_def)
  with scan_each_runs [where P = P and v = lv and n = n and A = L and body = "mark_nulling rv tv M"
      and sm = "((g, False), m1)" and start = 0, OF P1 P2]
  have scan: "scan_each (mark_nulling rv tv M) lv 0 ((g, False), m1) = each (mark_nulling rv tv M) (sorted_list_of_set L) ((g, False), m1)"
    by simp
  have xs: "set (sorted_list_of_set L) = L" "distinct (sorted_list_of_set L)" using sorted_set_below [OF L] by simp_all
  have "\<forall>x \<in> set (sorted_list_of_set L). x < n" using L xs(1) by auto
  from nulling_marks [OF M1 rv(2) f(3) rows rv(3) xs(2) this n, of False] obtain m' X' where
    m': "layout m' n (f(rv \<mapsto> X'))" "each (mark_nulling rv tv M) (sorted_list_of_set L) ((g, False), m1)
      = Some ((add_events (nulling_events R T g (sorted_list_of_set L)) (mark_all set_nulling {x \<in> L. quiet R T x} g),
          nulling_events R T g (sorted_list_of_set L) \<noteq> []), m')"
    unfolding xs(1) by auto
  have "let es = nulling_events R T g (sorted_list_of_set L)
     in census_nulling tv lv M g m = Some (es \<noteq> [], add_events es (mark_all set_nulling {x \<in> L. quiet R T x} g), m')"
    using rv(1) scan m'(2) by (simp add: census_nulling_def Let_def)
  with m'(1) map_le_new [of f rv X', OF rv(3)] that show thesis by blast
qed

section \<open>Nulled symbols\<close>

text \<open>What the step writes: the lists \<open>h\<close> of the symbols and the arena.\<close>

definition put_nulled :: "(nat \<rightharpoonup> cil) \<Rightarrow> cilar \<Rightarrow> marpa_g \<Rightarrow> marpa_g" where
  "put_nulled h ca g = g\<lparr>t_cilar := ca, t_xsys := map (\<lambda>i. case h i of None \<Rightarrow> t_xsys g ! i
     | Some c \<Rightarrow> (t_xsys g ! i)\<lparr>xsy_nulled_event_xsyids := Some c\<rparr>) [0..<length (t_xsys g)]\<rparr>"

definition lists_sets :: "cilar \<Rightarrow> (nat \<rightharpoonup> cil) \<Rightarrow> nat set \<Rightarrow> (nat \<times> nat) set \<Rightarrow> bool" where
  "lists_sets ca h I R \<longleftrightarrow> cilar_ok ca \<and> dom h = I
     \<and> (\<forall>i \<in> I. \<exists>c \<in> cils ca. h i = Some c \<and> snd c = map int (sorted_list_of_set (R `` {i})))"

lemma put_nulled_xsys [simp]: "length (t_xsys (put_nulled h ca g)) = length (t_xsys g)"
  "i < length (t_xsys g) \<Longrightarrow> t_xsys (put_nulled h ca g) ! i
    = (case h i of None \<Rightarrow> t_xsys g ! i | Some c \<Rightarrow> (t_xsys g ! i)\<lparr>xsy_nulled_event_xsyids := Some c\<rparr>)"
  by (auto simp: put_nulled_def split: option.split)

lemma put_nulled_simps [simp]:
  "t_xrls (put_nulled h ca g) = t_xrls g" "t_events (put_nulled h ca g) = t_events g" "t_start_xsy_id (put_nulled h ca g) = t_start_xsy_id g"
  "t_cilar (put_nulled h ca g) = ca" "t_external_size (put_nulled h ca g) = t_external_size g"
  by (simp_all add: put_nulled_def)

lemma put_nulled_insert:
  assumes "i < length (t_xsys g)" "h i = None"
  shows "put_nulled h ca (xsy_update i (\<lambda>x. x\<lparr>xsy_nulled_event_xsyids := Some c\<rparr>) (g\<lparr>t_cilar := ca1\<rparr>)) = put_nulled (h(i \<mapsto> c)) ca g"
proof -
  let ?g = "xsy_update i (\<lambda>x. x\<lparr>xsy_nulled_event_xsyids := Some c\<rparr>) (g\<lparr>t_cilar := ca1\<rparr>)"
  have "t_xsys (put_nulled h ca ?g) = t_xsys (put_nulled (h(i \<mapsto> c)) ca g)"
    using assms by (intro xsys_eqI) (auto simp: xsy_update_def nth_list_update split: option.split)
  then show ?thesis by (simp add: put_nulled_def xsy_update_def)
qed

lemma put_nulled_none: "put_nulled Map.empty (t_cilar g) g = g"
proof -
  have "map (\<lambda>i. t_xsys g ! i) [0..<length (t_xsys g)] = t_xsys g" by (rule map_nth)
  then show ?thesis by (simp add: put_nulled_def)
qed

lemma nulled_lists_run:
  assumes "matrix_at m n M R" "distinct ids" "\<forall>i \<in> set ids. i < n" "length (t_xsys g) = n" "cilar_ok (t_cilar g)"
    "cil_obs (t_cilar g) + length ids < SIZE_MOD"
  shows "\<exists>h ca. nulled_lists M ids g m = Some (put_nulled h ca g, m) \<and> lists_sets ca h (set ids) R \<and> cils (t_cilar g) \<subseteq> cils ca"
  using assms
proof (induction ids arbitrary: g)
  case Nil
  then have "nulled_lists M [] g m = Some (put_nulled Map.empty (t_cilar g) g, m)" by (simp add: put_nulled_none)
  moreover have "lists_sets (t_cilar g) Map.empty (set []) R" using Nil by (simp add: lists_sets_def)
  ultimately show ?case by blast
next
  case (Cons i ids)
  have i: "i < n" "i \<notin> set ids" "distinct ids" "\<forall>i \<in> set ids. i < n" using Cons.prems(2,3) by auto
  have row: "matrix_row m M i = Some (row_at M n i)" "bv_ok m (row_at M n i) n" "bits_at m (row_at M n i) n = R `` {i}"
    using matrix_reads(2) [of m M n i] Cons.prems(1) i(1) by (auto simp: matrix_at_def matrix_ok_def relation_of_def)
  have "cil_obs (t_cilar g) + 1 < SIZE_MOD" using Cons.prems(6) by simp
  from bv_add_runs [OF Cons.prems(5) this row(2)] obtain c ca where
    c: "cil_bv_add (t_cilar g) m (row_at M n i) = Some ((c, ca), m)" "interned (t_cilar g) (map int (sorted_list_of_set (R `` {i}))) c ca"
    unfolding row(3) .
  let ?g = "xsy_update i (\<lambda>x. x\<lparr>xsy_nulled_event_xsyids := Some c\<rparr>) (g\<lparr>t_cilar := ca\<rparr>)"
  have ca: "cilar_ok ca" "cils ca = insert c (cils (t_cilar g))" "cil_obs ca \<le> Suc (cil_obs (t_cilar g))"
    "snd c = map int (sorted_list_of_set (R `` {i}))" using c(2) by (simp_all add: interned_def)
  have "cil_obs ca + length ids < SIZE_MOD" using ca(3) Cons.prems(6) by simp
  with Cons.IH [OF Cons.prems(1) i(3,4), of ?g] Cons.prems(4) ca(1) obtain h ca' where
    h: "nulled_lists M ids ?g m = Some (put_nulled h ca' ?g, m)" "lists_sets ca' h (set ids) R" "cils ca \<subseteq> cils ca'"
    by auto
  have "h i = None" using h(2) i(2) by (auto simp: lists_sets_def dom_def)
  with i(1) Cons.prems(4) have put: "put_nulled h ca' ?g = put_nulled (h(i \<mapsto> c)) ca' g" by (intro put_nulled_insert) simp_all
  have run: "nulled_lists M (i # ids) g m = Some (put_nulled (h(i \<mapsto> c)) ca' g, m)"
    using row(1) c(1) h(1) unfolding put by simp
  have "c \<in> cils ca'" using ca(2) h(3) by auto
  then have "lists_sets ca' (h(i \<mapsto> c)) (set (i # ids)) R"
    using h(2) i(2) ca(4) unfolding lists_sets_def by auto
  moreover have "cils (t_cilar g) \<subseteq> cils ca'" using ca(2) h(3) by auto
  ultimately show ?case using run by blast
qed

definition nullification_rel :: "marpa_g \<Rightarrow> (nat \<times> nat) set" where
  "nullification_rel g = {(s, s) | s. s < length (t_xsys g) \<and> xsy_is_nullable (t_xsys g ! s)}
     \<union> {(LHS_ID_of_XRL r, x) | r x. r \<in> set (t_xrls g) \<and> xrl_is_nullable r \<and> x \<in> set (RHS_IDs_of_XRL r)}"

lemma nullification_symbols_run:
  assumes "matrix_at m n M R" "\<forall>i \<in> set ids. i < n"
  shows "\<exists>m'. nullification_symbols M g ids m = Some m' \<and> only_rows M n m m'
    \<and> matrix_at m' n M (R \<union> {(s, s) | s. s \<in> set ids \<and> xsy_is_nullable (t_xsys g ! s)})"
  using assms
proof (induction ids arbitrary: m R)
  case Nil
  then show ?case by (simp add: only_rows_refl)
next
  case (Cons i ids)
  let ?R = "if xsy_is_nullable (t_xsys g ! i) then insert (i, i) R else R"
  obtain m1 where m1: "(if xsy_is_nullable (t_xsys g ! i) then matrix_bit_set m M i i else Some m) = Some m1"
    "matrix_at m1 n M ?R" "only_rows M n m m1"
  proof (cases "xsy_is_nullable (t_xsys g ! i)")
    case True
    have "i < n" using Cons.prems(2) by simp
    from bit_at_set [OF Cons.prems(1) this this] True that show thesis by auto
  qed (use Cons.prems(1) that only_rows_refl in auto)
  from Cons.IH [OF m1(2)] Cons.prems(2) obtain m' where m': "nullification_symbols M g ids m1 = Some m'" "only_rows M n m1 m'"
    "matrix_at m' n M (?R \<union> {(s, s) | s. s \<in> set ids \<and> xsy_is_nullable (t_xsys g ! s)})" by auto
  have "?R \<union> {(s, s) | s. s \<in> set ids \<and> xsy_is_nullable (t_xsys g ! s)}
      = R \<union> {(s, s) | s. s \<in> set (i # ids) \<and> xsy_is_nullable (t_xsys g ! s)}" by auto
  with m1(1) m' only_rows_trans [OF m1(3) m'(2)] show ?case by simp
qed

lemma nullification_rules_run:
  assumes "matrix_at m n M R" "symbols_ok n rules"
  shows "\<exists>m'. nullification_rules M rules m = Some m' \<and> only_rows M n m m'
    \<and> matrix_at m' n M (R \<union> {(LHS_ID_of_XRL r, x) | r x. r \<in> set rules \<and> xrl_is_nullable r \<and> x \<in> set (RHS_IDs_of_XRL r)})"
  using assms
proof (induction rules arbitrary: m R)
  case Nil
  then show ?case by (simp add: only_rows_refl)
next
  case (Cons r rules)
  let ?S = "\<lambda>rules. {(LHS_ID_of_XRL r, x) | r x. r \<in> set rules \<and> xrl_is_nullable r \<and> x \<in> set (RHS_IDs_of_XRL r)}"
  let ?R = "if xrl_is_nullable r then R \<union> {LHS_ID_of_XRL r} \<times> set (RHS_IDs_of_XRL r) else R"
  have r: "LHS_ID_of_XRL r < n" "\<forall>x \<in> set (RHS_IDs_of_XRL r). x < n" "symbols_ok n rules"
    using Cons.prems(2) by (auto simp: symbols_ok_def)
  obtain m1 where m1: "(if xrl_is_nullable r then set_columns M (LHS_ID_of_XRL r) (RHS_IDs_of_XRL r) m else Some m) = Some m1"
    "matrix_at m1 n M ?R" "only_rows M n m m1"
    using columns_set [OF Cons.prems(1) r(1,2)] Cons.prems(1) only_rows_refl by (cases "xrl_is_nullable r") auto
  from Cons.IH [OF m1(2) r(3)] obtain m' where m': "nullification_rules M rules m1 = Some m'" "only_rows M n m1 m'"
    "matrix_at m' n M (?R \<union> ?S rules)" by blast
  have "?R \<union> ?S rules = R \<union> ?S (r # rules)" by auto
  with m1(1) m' only_rows_trans [OF m1(3) m'(2)] show ?case by simp
qed

lemma nulled_run:
  assumes f: "layout m n f" and g: "length (t_xsys g) = n" "matrix_fits n" "symbols_ok n (t_xrls g)" "cilar_ok (t_cilar g)"
    "cil_obs (t_cilar g) + n < SIZE_MOD"
  obtains h ca m' f' where "census_nulled g m = Some (put_nulled h ca g, m')" "layout m' n f'" "f \<subseteq>\<^sub>m f'"
    "lists_sets ca h {..<n} ((nullification_rel g)\<^sup>+)"
proof -
  from matrix_new [OF g(2), of m] obtain M m1 where M: "matrix_obs_create m n n = Some (M, m1)" "matrix_at m1 n M {}" "placed_after m m1 n M" .
  from nullification_symbols_run [OF M(2), of "[0..<n]" g] obtain m2 where m2: "nullification_symbols M g [0..<n] m1 = Some m2"
    "only_rows M n m1 m2" "matrix_at m2 n M {(s, s) | s. s < n \<and> xsy_is_nullable (t_xsys g ! s)}" by auto
  from nullification_rules_run [OF m2(3) g(3)] obtain m3 where m3: "nullification_rules M (t_xrls g) m2 = Some m3"
    "only_rows M n m2 m3" "matrix_at m3 n M (nullification_rel g)" unfolding nullification_rel_def g(1) by blast
  from closure_at [OF m3(3)] obtain m4 where m4: "transitive_closure m3 M = Some m4" "matrix_at m4 n M ((nullification_rel g)\<^sup>+)"
    "only_rows M n m3 m4" .
  from nulled_lists_run [OF m4(2), of "[0..<n]" g] g(1,4,5) obtain h ca where
    h: "nulled_lists M [0..<n] g m4 = Some (put_nulled h ca g, m4)" "lists_sets ca h {..<n} ((nullification_rel g)\<^sup>+)"
    by (auto simp: atLeast0LessThan)
  from layout_filled [OF f M(3) only_rows_trans [OF m2(2) only_rows_trans [OF m3(2) m4(3)]] m4(2)] obtain f' where
    "layout m4 n f'" "f \<subseteq>\<^sub>m f'" by blast
  moreover have "census_nulled g m = Some (put_nulled h ca g, m4)"
    using g(1) M(1) m2(1) m3(1) m4(1) h(1) by (simp add: census_nulled_def Let_def)
  ultimately show thesis using h(2) that by blast
qed

end
