(* ===== verification/CycleSteps.thy ===== *)
theory CycleSteps
  imports CensusSteps
begin

text \<open>
  The search for cycles: the unit transitions between the rules are put into a matrix, whose closure
  has a loop rule on the diagonal. The vector of nullable symbols is only read.
\<close>

section \<open>Unit transitions\<close>

text \<open>The symbols to whose rules a rule has a transition: its one symbol that is not nullable, or all that are
  not nulling when all are nullable.\<close>

definition unit_symbols :: "marpa_g \<Rightarrow> nat set \<Rightarrow> nat list \<Rightarrow> nat set" where
  "unit_symbols g N rhs =
     (let others = filter (\<lambda>x. x \<notin> N) rhs in
      if length others = 1 then set others
      else if others = [] then {x \<in> set rhs. \<not> xsy_is_nulling (t_xsys g ! x)}
      else {})"

definition unit_rel :: "marpa_g \<Rightarrow> nat set \<Rightarrow> nat \<Rightarrow> (nat \<times> nat) set" where
  "unit_rel g N k = {(i, j). i < k \<and> j < length (t_xrls g)
     \<and> LHS_ID_of_XRL (t_xrls g ! j) \<in> unit_symbols g N (RHS_IDs_of_XRL (t_xrls g ! i))}"

lemma count_runs:
  assumes "vec m n nv N" "\<forall>x \<in> set xs. x < n"
  shows "count_nonnullable m nv xs s
    = Some (if filter (\<lambda>x. x \<notin> N) xs = [] then fst s else int (last (filter (\<lambda>x. x \<notin> N) xs)), snd s + length (filter (\<lambda>x. x \<notin> N) xs))"
  using assms(2) by (induction xs arbitrary: s) (auto simp: test_vec [OF assms(1)])

lemma transitions_run:
  assumes M: "matrix_at m k M R" "i < k" and ri: "rules_indexed (t_xrls g) n ri" "length (t_xrls g) = k" and x: "x < n"
  obtains m' where "transitions_to ri M i x m = Some m'" "matrix_at m' k M (R \<union> {(i, j) | j. j < k \<and> LHS_ID_of_XRL (t_xrls g ! j) = x})"
    "only_rows M k m m'"
proof -
  from ri(1) x obtain ids where ids: "listed (xrl_list_x_lh_sym ri) (lh_rule_data ri) x = Some ids"
    "set ids = {j. (x, j) \<in> lhs_pairs_of (t_xrls g) k}" unfolding rules_indexed_def lists_of_def ri(2) by blast
  then have js: "\<forall>j \<in> set ids. j < k" by (auto simp: lhs_pairs_of_def)
  from columns_set [OF M js] obtain m' where
    m': "set_columns M i ids m = Some m'" "matrix_at m' k M (R \<union> {i} \<times> set ids)" "only_rows M k m m'" by blast
  have "{i} \<times> set ids = {(i, j) | j. j < k \<and> LHS_ID_of_XRL (t_xrls g ! j) = x}" using ids(2) by (auto simp: lhs_pairs_of_def)
  with ids(1) m' that show thesis by (simp add: transitions_to_def)
qed

lemma nullable_transitions_run:
  assumes "matrix_at m k M R" "i < k" "rules_indexed (t_xrls g) n ri" "length (t_xrls g) = k" "\<forall>x \<in> set xs. x < n"
  shows "\<exists>m'. nullable_transitions g ri M i xs m = Some m' \<and> only_rows M k m m'
    \<and> matrix_at m' k M (R \<union> {(i, j) | j. j < k \<and> LHS_ID_of_XRL (t_xrls g ! j) \<in> {x \<in> set xs. \<not> xsy_is_nulling (t_xsys g ! x)}})"
  using assms
proof (induction xs arbitrary: m R)
  case Nil
  then show ?case by (simp add: only_rows_refl)
next
  case (Cons x xs)
  let ?S = "\<lambda>xs. {(i, j) | j. j < k \<and> LHS_ID_of_XRL (t_xrls g ! j) \<in> {x \<in> set xs. \<not> xsy_is_nulling (t_xsys g ! x)}}"
  have x: "x < n" "\<forall>x \<in> set xs. x < n" using Cons.prems(5) by simp_all
  let ?R = "R \<union> (if xsy_is_nulling (t_xsys g ! x) then {} else {(i, j) | j. j < k \<and> LHS_ID_of_XRL (t_xrls g ! j) = x})"
  obtain m1 where m1: "(if xsy_is_nulling (t_xsys g ! x) then Some m else transitions_to ri M i x m) = Some m1"
    "matrix_at m1 k M ?R" "only_rows M k m m1"
  proof (cases "xsy_is_nulling (t_xsys g ! x)")
    case True
    with Cons.prems(1) that [of m] only_rows_refl [of M k m] show thesis by simp
  next
    case False
    from transitions_run [OF Cons.prems(1-4) x(1)] obtain m1 where "transitions_to ri M i x m = Some m1"
      "matrix_at m1 k M (R \<union> {(i, j) | j. j < k \<and> LHS_ID_of_XRL (t_xrls g ! j) = x})" "only_rows M k m m1" .
    with False that [of m1] show thesis by simp
  qed
  from Cons.IH [OF m1(2) Cons.prems(2-4) x(2)] obtain m' where
    m': "nullable_transitions g ri M i xs m1 = Some m'" "only_rows M k m1 m'" "matrix_at m' k M (?R \<union> ?S xs)" by blast
  have "?R \<union> ?S xs = R \<union> ?S (x # xs)" by auto
  with m1(1) m' only_rows_trans [OF m1(3) m'(2)] show ?case by simp
qed

lemma unit_rel_Suc: "unit_rel g N (Suc i)
    = unit_rel g N i \<union> {(i, j) | j. j < length (t_xrls g)
        \<and> LHS_ID_of_XRL (t_xrls g ! j) \<in> unit_symbols g N (RHS_IDs_of_XRL (t_xrls g ! i))}"
  by (auto simp: unit_rel_def less_Suc_eq)

lemma unit_transitions_run:
  assumes M: "matrix_at m k M (unit_rel g N i)" and i: "i + l = k" and nv: "vec m n nv N" "outside M k nv n"
    and g: "rules_indexed (t_xrls g) n ri" "length (t_xrls g) = k" "symbols_ok n (t_xrls g)"
  shows "\<exists>m'. unit_transitions g ri nv M [i..<k] m = Some m' \<and> matrix_at m' k M (unit_rel g N k) \<and> only_rows M k m m'"
  using M i nv(1)
proof (induction l arbitrary: i m)
  case 0
  then show ?case by (simp add: only_rows_refl)
next
  case (Suc l)
  have i: "i < k" using Suc.prems(2) by simp
  let ?rhs = "RHS_IDs_of_XRL (t_xrls g ! i)"
  let ?others = "filter (\<lambda>x. x \<notin> N) ?rhs"
  have rhs: "\<forall>x \<in> set ?rhs. x < n" using g(2,3) nth_mem [of i "t_xrls g"] i unfolding symbols_ok_def by blast
  note count = count_runs [OF Suc.prems(3) rhs, of "(- 1, 0)"]
  define step where "step = (if length ?others = 1 then transitions_to ri M i (nat (if ?others = [] then - 1 else int (last ?others))) m
      else if length ?others = 0 then nullable_transitions g ri M i ?rhs m else Some m)"
  obtain m1 where m1: "step = Some m1" "matrix_at m1 k M (unit_rel g N (Suc i))" "only_rows M k m m1"
  proof (cases "length ?others = 1")
    case True
    then obtain x where x: "?others = [x]" by (auto simp: length_Suc_conv)
    then have "x \<in> set ?rhs" by (metis filter_is_subset list.set_intros(1) subsetD)
    then have "x < n" using rhs by simp
    from transitions_run [OF Suc.prems(1) i g(1,2) this] obtain m1 where m1: "transitions_to ri M i x m = Some m1"
      "matrix_at m1 k M (unit_rel g N i \<union> {(i, j) | j. j < k \<and> LHS_ID_of_XRL (t_xrls g ! j) = x})" "only_rows M k m m1" .
    have "unit_symbols g N ?rhs = {x}" using x by (simp add: unit_symbols_def)
    then have "unit_rel g N i \<union> {(i, j) | j. j < k \<and> LHS_ID_of_XRL (t_xrls g ! j) = x} = unit_rel g N (Suc i)"
      using g(2) by (simp add: unit_rel_Suc)
    with m1 x that [of m1] show thesis by (simp add: step_def)
  next
    case ne: False
    show thesis
    proof (cases "?others = []")
      case True
      from nullable_transitions_run [OF Suc.prems(1) i g(1,2) rhs] obtain m1 where
        m1: "nullable_transitions g ri M i ?rhs m = Some m1" "only_rows M k m m1"
        "matrix_at m1 k M (unit_rel g N i \<union> {(i, j) | j. j < k \<and> LHS_ID_of_XRL (t_xrls g ! j) \<in> {x \<in> set ?rhs. \<not> xsy_is_nulling (t_xsys g ! x)}})"
        by blast
      have "unit_symbols g N ?rhs = {x \<in> set ?rhs. \<not> xsy_is_nulling (t_xsys g ! x)}"
        unfolding unit_symbols_def Let_def True by simp
      then have "unit_rel g N (Suc i) = unit_rel g N i
          \<union> {(i, j) | j. j < k \<and> LHS_ID_of_XRL (t_xrls g ! j) \<in> {x \<in> set ?rhs. \<not> xsy_is_nulling (t_xsys g ! x)}}"
        using g(2) by (simp add: unit_rel_Suc)
      moreover have "step = Some m1" unfolding step_def True using m1(1) by simp
      ultimately show thesis using m1(2,3) that by metis
    next
      case False
      then have "unit_symbols g N ?rhs = {}" using ne unfolding unit_symbols_def Let_def by simp
      then have "unit_rel g N (Suc i) = unit_rel g N i" by (simp add: unit_rel_Suc)
      moreover have "step = Some m" unfolding step_def using ne False by simp
      ultimately show thesis using Suc.prems(1) that [of m] only_rows_refl [of M k m] by simp
    qed
  qed
  have "Suc i + l = k" using Suc.prems(2) by simp
  from Suc.IH [OF m1(2) this kept_vec [OF m1(3) nv(2) Suc.prems(3)]] obtain m' where
    m': "unit_transitions g ri nv M [Suc i..<k] m1 = Some m'" "matrix_at m' k M (unit_rel g N k)" "only_rows M k m1 m'" by blast
  have "unit_transitions g ri nv M [i..<k] m = do { m1 \<leftarrow> step; unit_transitions g ri nv M [Suc i..<k] m1 }"
    unfolding upt_conv_Cons [OF i] step_def by (simp add: count Let_def)
  with m1(1) m' only_rows_trans [OF m1(3) m'(3)] show ?case by simp
qed

section \<open>Loop rules\<close>

definition mark_rules :: "nat set \<Rightarrow> marpa_g \<Rightarrow> marpa_g" where
  "mark_rules L g = g\<lparr>t_xrls := map (\<lambda>i. if i \<in> L then (t_xrls g ! i)\<lparr>t_is_loop := True\<rparr> else t_xrls g ! i) [0..<length (t_xrls g)]\<rparr>"

lemma mark_rules_xrls [simp]: "length (t_xrls (mark_rules L g)) = length (t_xrls g)"
  "i < length (t_xrls g) \<Longrightarrow> t_xrls (mark_rules L g) ! i = (if i \<in> L then (t_xrls g ! i)\<lparr>t_is_loop := True\<rparr> else t_xrls g ! i)"
  by (simp_all add: mark_rules_def)

lemma mark_rules_simps [simp]: "t_xsys (mark_rules L g) = t_xsys g" "t_events (mark_rules L g) = t_events g"
  "t_cilar (mark_rules L g) = t_cilar g" "t_start_xsy_id (mark_rules L g) = t_start_xsy_id g"
  by (simp_all add: mark_rules_def)

lemma mark_rules_none [simp]: "mark_rules {} g = g"
proof -
  have "map (\<lambda>i. t_xrls g ! i) [0..<length (t_xrls g)] = t_xrls g" by (rule map_nth)
  then show ?thesis by (simp add: mark_rules_def)
qed

lemma mark_rules_insert:
  assumes "i < length (t_xrls g)" "i \<notin> L"
  shows "mark_rules L (xrl_update i (\<lambda>r. r\<lparr>t_is_loop := True\<rparr>) g) = mark_rules (insert i L) g"
proof -
  have "t_xrls (mark_rules L (xrl_update i (\<lambda>r. r\<lparr>t_is_loop := True\<rparr>) g)) = t_xrls (mark_rules (insert i L) g)"
    using assms by (intro nth_equalityI) (auto simp: xrl_update_def nth_list_update)
  then show ?thesis by (simp add: mark_rules_def xrl_update_def)
qed

lemma mark_loops_run:
  assumes M: "matrix_at m k M R" and ids: "distinct ids" "\<forall>i \<in> set ids. i < k" and g: "length (t_xrls g) = k"
  shows "mark_loops M m ids g c = Some (mark_rules {i \<in> set ids. (i, i) \<in> R} g, c + card {i \<in> set ids. (i, i) \<in> R})"
  using ids g
proof (induction ids arbitrary: g c)
  case (Cons i ids)
  have i: "i < k" "i \<notin> set ids" "distinct ids" "\<forall>i \<in> set ids. i < k" using Cons.prems(1,2) by auto
  let ?L = "{j \<in> set ids. (j, j) \<in> R}"
  note test = bit_at_test [OF M i(1,1)]
  show ?case
  proof (cases "(i, i) \<in> R")
    case True
    then have L: "{j \<in> set (i # ids). (j, j) \<in> R} = insert i ?L" by auto
    have "mark_loops M m (i # ids) g c = mark_loops M m ids (xrl_update i (\<lambda>r. r\<lparr>t_is_loop := True\<rparr>) g) (Suc c)"
      using test True by simp
    also have "\<dots> = Some (mark_rules ?L (xrl_update i (\<lambda>r. r\<lparr>t_is_loop := True\<rparr>) g), Suc c + card ?L)"
      using Cons.prems(3) by (intro Cons.IH [OF i(3,4)]) simp
    also have "mark_rules ?L (xrl_update i (\<lambda>r. r\<lparr>t_is_loop := True\<rparr>) g) = mark_rules (insert i ?L) g"
      using i(1,2) Cons.prems(3) by (intro mark_rules_insert) simp_all
    also have "Suc c + card ?L = c + card (insert i ?L)" using i(2) by simp
    finally show ?thesis unfolding L .
  next
    case False
    then have L: "{j \<in> set (i # ids). (j, j) \<in> R} = ?L" by auto
    show ?thesis unfolding L using Cons.IH [OF i(3,4) Cons.prems(3), of c] test False by simp
  qed
qed simp

definition loops_of :: "marpa_g \<Rightarrow> nat set \<Rightarrow> nat set" where
  "loops_of g N = {i. (i, i) \<in> (unit_rel g N (length (t_xrls g)))\<^sup>+}"

definition cycle_result :: "nat set \<Rightarrow> marpa_g \<Rightarrow> marpa_g" where
  "cycle_result L g = (if L = {} then g
     else add_events [(MARPA_EVENT_LOOP_RULES, int (card L))] ((mark_rules L g)\<lparr>t_has_cycle := True\<rparr>))"

lemma loops_less: "loops_of g N \<subseteq> {..<length (t_xrls g)}"
proof
  fix i assume "i \<in> loops_of g N"
  then have "(i, i) \<in> (unit_rel g N (length (t_xrls g)))\<^sup>+" by (simp add: loops_of_def)
  then show "i \<in> {..<length (t_xrls g)}" by (cases rule: tranclE) (auto simp: unit_rel_def)
qed

lemma cycles_run:
  assumes nv: "vec m n nv N" and g: "rules_indexed (t_xrls g) n ri" "symbols_ok n (t_xrls g)" "matrix_fits (length (t_xrls g))"
  obtains m' where "detect_cycles ri nv g m = Some (cycle_result (loops_of g N) g, m')"
proof -
  let ?k = "length (t_xrls g)" and ?L = "loops_of g N"
  from matrix_new [OF g(3), of m] obtain M m1 where
    M: "matrix_obs_create m ?k ?k = Some (M, m1)" "matrix_at m1 ?k M {}" "placed_after m m1 ?k M" .
  have nv1: "vec m1 n nv N" "outside M ?k nv n" using M(3) nv by (auto simp: placed_after_def)
  have "matrix_at m1 ?k M (unit_rel g N 0)" using M(2) by (simp add: unit_rel_def)
  from unit_transitions_run [OF this _ nv1 g(1) refl g(2)] obtain m2 where
    m2: "unit_transitions g ri nv M [0..<?k] m1 = Some m2" "matrix_at m2 ?k M (unit_rel g N ?k)" by auto
  from closure_at [OF m2(2)] obtain m3 where m3: "transitive_closure m2 M = Some m3" "matrix_at m3 ?k M ((unit_rel g N ?k)\<^sup>+)" .
  have L: "{i \<in> set [0..<?k]. (i, i) \<in> (unit_rel g N ?k)\<^sup>+} = ?L" using loops_less [of g N] by (auto simp: loops_of_def)
  have fin: "finite ?L" using loops_less by (rule finite_subset) simp
  from mark_loops_run [OF m3(2), of "[0..<?k]" g 0] have
    "mark_loops M m3 [0..<?k] g 0 = Some (mark_rules ?L g, card ?L)" unfolding L by simp
  with M(1) m2(1) m3(1) fin have "detect_cycles ri nv g m = Some (cycle_result ?L g, m3)"
    by (simp add: detect_cycles_def Let_def cycle_result_def event_new)
  then show thesis by (rule that)
qed

end
