(* ===== verification/CensusProps.thy ===== *)
theory CensusProps
  imports CycleSteps
begin

text \<open>
  The census as a whole: on every well-formed grammar it returns, and its result is the one given by
  the sets of symbols, \<open>precompute_outcome\<close>, up to the places of the lists of nulled symbols.
\<close>

section \<open>The outcome\<close>

definition reach_of :: "marpa_xrl list \<Rightarrow> (nat \<times> nat) set" where
  "reach_of rules = (mention_rel rules)\<^sup>+"

definition accessible_of :: "marpa_g \<Rightarrow> nat set" where
  "accessible_of g = insert (nat (t_start_xsy_id g)) (reach_of (t_xrls g) `` {nat (t_start_xsy_id g)})"

definition nulling_of :: "marpa_g \<Rightarrow> nat set" where
  "nulling_of g = {x \<in> lhs_of (t_xrls g). quiet (reach_of (t_xrls g)) (terminals_of g) x}"

definition counted_nullables :: "marpa_g \<Rightarrow> (int \<times> int) list" where
  "counted_nullables g = counted_events g (sorted_list_of_set (nullable_of (t_xrls g)))"

definition nulling_terminals :: "marpa_g \<Rightarrow> (int \<times> int) list" where
  "nulling_terminals g = map (\<lambda>s. (MARPA_EVENT_NULLING_TERMINAL, int s))
     (filter (\<lambda>s. s \<in> nulling_of g \<and> s \<in> terminals_of g) (sorted_list_of_set (lhs_of (t_xrls g))))"

text \<open>The grammar after the marking of the terminals and nullable symbols, of the productive ones, and of all.\<close>

definition marked_nullable :: "marpa_g \<Rightarrow> marpa_g" where
  "marked_nullable g = add_events (counted_nullables g)
     (mark_all set_nullable (nullable_of (t_xrls g)) (mark_all set_terminal (default_terminals g) g))"

definition marked_productive :: "marpa_g \<Rightarrow> marpa_g" where
  "marked_productive g = mark_all set_productive (productive_of g) (marked_nullable g)"

definition marked_nulling :: "marpa_g \<Rightarrow> marpa_g" where
  "marked_nulling g = add_events (nulling_terminals g)
     (mark_all set_nulling (nulling_of g) (mark_all set_accessible (accessible_of g) (marked_productive g)))"

definition census_outcome :: "marpa_g \<Rightarrow> (int \<times> marpa_g) + marpa_g" where
  "census_outcome g =
     (if counted_nullables g \<noteq> [] then Inl (fail MARPA_ERR_COUNTED_NULLABLE (marked_nullable g))
      else if nat (t_start_xsy_id g) \<notin> productive_of g then Inl (fail MARPA_ERR_UNPRODUCTIVE_START (marked_productive g))
      else if nulling_terminals g \<noteq> [] then Inl (fail MARPA_ERR_NULLING_TERMINAL (marked_nulling g))
      else Inr (census_rules (marked_nulling g)))"

definition precompute_outcome :: "marpa_g \<Rightarrow> (int \<times> marpa_g) + marpa_g" where
  "precompute_outcome g =
     (case start_checks (G_EVENTS_CLEAR g) of
        Some failure \<Rightarrow> Inl failure
      | None \<Rightarrow>
          (case census_outcome ((G_EVENTS_CLEAR g)\<lparr>t_xrl_tree := None\<rparr>) of
             Inl failure \<Rightarrow> Inl failure
           | Inr g1 \<Rightarrow> Inr (cycle_result (loops_of g1 (nullable_of (t_xrls g))) g1)))"

text \<open>The grammar is small enough for its matrices, tables and lists.\<close>

definition census_fits :: "marpa_g \<Rightarrow> bool" where
  "census_fits g \<longleftrightarrow> matrix_fits (length (t_xsys g)) \<and> matrix_fits (length (t_xrls g)) \<and> t_external_size g < SIZE_MOD
     \<and> cil_obs (t_cilar g) + length (t_xsys g) < SIZE_MOD"

section \<open>The census\<close>

lemma rules_ok_symbols:
  assumes "rules_ok g"
  shows "symbols_ok (length (t_xsys g)) (t_xrls g)" "\<forall>r \<in> set (t_xrls g). t_is_sequence r \<longrightarrow> RHS_IDs_of_XRL r \<noteq> []"
    "t_external_size g = room_for (t_xrls g)"
  using assms by (auto simp: rules_ok_def rule_ok_def symbols_ok_def room_for_def)

text \<open>The parts of a rule that the census does not change.\<close>

lemma rule_flags_shape [simp]:
  "t_id (rule_flags g r) = t_id r" "t_is_sequence (rule_flags g r) = t_is_sequence r" "LHS_ID_of_XRL (rule_flags g r) = LHS_ID_of_XRL r"
  "RHS_IDs_of_XRL (rule_flags g r) = RHS_IDs_of_XRL r" "t_separator_id (rule_flags g r) = t_separator_id r"
  "t_minimum (rule_flags g r) = t_minimum r" "t_is_loop (rule_flags g r) = t_is_loop r"
  by (auto simp: rule_flags_def Let_def sequence_flags_def bnf_flags_def split: prod.split)

lemma shape_same [simp]: "mentions (rule_flags g r) = mentions r" "needs (rule_flags g r) = needs r" "has_empty (rule_flags g r) = has_empty r"
  by (simp_all add: mentions_def needs_def has_empty_def)

lemma census_rules_simps [simp]:
  "t_xsys (census_rules g) = t_xsys g" "t_xrls (census_rules g) = map (rule_flags g) (t_xrls g)" "t_events (census_rules g) = t_events g"
  "t_cilar (census_rules g) = t_cilar g" "t_start_xsy_id (census_rules g) = t_start_xsy_id g"
  by (simp_all add: census_rules_def)

lemma shape_symbols: "symbols_ok n (map (rule_flags g) rules) = symbols_ok n rules"
  by (simp add: symbols_ok_def)

lemma shape_index: "rules_indexed (map (rule_flags g) rules) n ri = rules_indexed rules n ri"
proof -
  have "rhs_pairs_of (map (rule_flags g) rules) (length rules) = rhs_pairs_of rules (length rules)"
    "lhs_pairs_of (map (rule_flags g) rules) (length rules) = lhs_pairs_of rules (length rules)"
    by (auto simp: rhs_pairs_of_def lhs_pairs_of_def)
  moreover have "index_ok (map (rule_flags g) rules) n xl rd = index_ok rules n xl rd" for xl rd
    by (simp add: index_ok_def conj_commute cong: conj_cong)
  ultimately show ?thesis by (simp add: rules_indexed_def)
qed

lemma marked_simps [simp]:
  "t_xrls (marked_nullable g) = t_xrls g" "length (t_xsys (marked_nullable g)) = length (t_xsys g)"
  "t_start_xsy_id (marked_nullable g) = t_start_xsy_id g" "t_cilar (marked_nullable g) = t_cilar g"
  "t_xrls (marked_productive g) = t_xrls g" "length (t_xsys (marked_productive g)) = length (t_xsys g)"
  "t_start_xsy_id (marked_productive g) = t_start_xsy_id g" "t_cilar (marked_productive g) = t_cilar g"
  "t_xrls (marked_nulling g) = t_xrls g" "length (t_xsys (marked_nulling g)) = length (t_xsys g)"
  "t_start_xsy_id (marked_nulling g) = t_start_xsy_id g" "t_cilar (marked_nulling g) = t_cilar g"
  by (simp_all add: marked_nullable_def marked_productive_def marked_nulling_def)

lemma census_runs:
  assumes g: "rules_ok g" "cilar_ok (t_cilar g)" "all_fresh g" and fits: "census_fits g" and start: "0 \<le> t_start_xsy_id g"
  shows "\<exists>x. census g = Some x \<and> (case census_outcome g of Inl failure \<Rightarrow> x = Inl failure
    | Inr g1 \<Rightarrow> \<exists>h ca ri nv m. x = Inr (put_nulled h ca g1, ri, nv, m)
        \<and> lists_sets ca h {..<length (t_xsys g)} ((nullification_rel g1)\<^sup>+)
        \<and> rules_indexed (t_xrls g) (length (t_xsys g)) ri \<and> vec m (length (t_xsys g)) nv (nullable_of (t_xrls g)))"
proof -
  let ?n = "length (t_xsys g)" and ?rules = "t_xrls g" and ?R = "reach_of (t_xrls g)" and ?T = "terminals_of g"
  let ?N = "nullable_of (t_xrls g)" and ?P = "productive_of g" and ?s = "nat (t_start_xsy_id g)"
  have fit: "matrix_fits ?n" "?n < 2 ^ 31" "t_external_size g < SIZE_MOD" "length ?rules < SIZE_MOD" "cil_obs (t_cilar g) + ?n < SIZE_MOD"
    using fits by (simp_all add: census_fits_def matrix_fits_def SIZE_MOD_def)
  note rules = rules_ok_symbols [OF g(1)]
  have "t_start_xsy_id g < int ?n" using g(1) by (simp add: rules_ok_def)
  then have s: "t_start_xsy_id g = int ?s" "?s < ?n" using start by linarith+
  from census_index_runs [OF layout_empty [OF fit(2)] refl rules fit(3,4), of "[]"] obtain ri m1 f1 where
    ri: "census_index g [] = Some (ri, m1)" "layout m1 ?n f1" "f1 (lhs_v ri) = Some (lhs_of ?rules)"
      "f1 (empty_lhs_v ri) = Some (empty_lhs ?rules)" "rules_indexed ?rules ?n ri"
    unfolding lhs_of_def empty_lhs_def by blast
  let ?g1 = "mark_all set_terminal (default_terminals g) g"
  from terminals_run [OF ri(2,3) refl] obtain tv m2 f2 where
    tv: "census_terminals (lhs_v ri) g m1 = Some (tv, ?g1, m2)" "layout m2 ?n f2" "f1 \<subseteq>\<^sub>m f2" "f2 tv = Some ?T" .
  have g1: "length (t_xsys ?g1) = ?n" "symbols_ok ?n (t_xrls ?g1)" "rules_indexed (t_xrls ?g1) ?n ri" using rules(1) ri(5) by simp_all
  from reach_run [OF tv(2) g1(1) fit(1) g1(2)] obtain M m3 f3 where
    M: "census_reach ?g1 m2 = Some (M, m3)" "layout m3 ?n f3" "f2 \<subseteq>\<^sub>m f3" "matrix_at m3 ?n M ?R"
      "\<And>i. i < ?n \<Longrightarrow> f3 (row_at M ?n i) = Some (?R `` {i})" unfolding reach_of_def by auto
  have up3: "f3 (lhs_v ri) = Some (lhs_of ?rules)" "f3 (empty_lhs_v ri) = Some (empty_lhs (t_xrls ?g1))" "f3 tv = Some ?T"
    using map_leD [OF M(3) map_leD [OF tv(3)]] map_leD [OF M(3) tv(4)] ri(3,4) by simp_all
  from nullable_run [OF M(2) up3(2) g1] obtain nv m4 f4 where
    nv: "layout m4 ?n f4" "f3 \<subseteq>\<^sub>m f4" "f4 nv = Some ?N"
      "let es = counted_events ?g1 (sorted_list_of_set ?N)
       in census_nullable ri ?g1 m3 = Some (nv, es \<noteq> [], add_events es (mark_all set_nullable ?N ?g1), m4)"
    unfolding mark_all_simps by blast
  have "xsy_is_counted (t_xsys ?g1 ! i) = xsy_is_counted (t_xsys g ! i)" if "i \<in> set (sorted_list_of_set ?N)" for i
  proof -
    have "i < ?n" using that sorted_set_below [OF layout_less [OF nv(1,3)]] layout_less [OF nv(1,3)] by auto
    then show ?thesis by simp
  qed
  then have evs: "counted_events ?g1 (sorted_list_of_set ?N) = counted_nullables g"
    unfolding counted_nullables_def counted_events_def by (metis (no_types, lifting) filter_cong)
  let ?g2 = "marked_nullable g"
  have nv4: "census_nullable ri ?g1 m3 = Some (nv, counted_nullables g \<noteq> [], ?g2, m4)"
    using nv(4) unfolding evs Let_def marked_nullable_def .
  have g2: "length (t_xsys ?g2) = ?n" "symbols_ok ?n (t_xrls ?g2)" "rules_indexed (t_xrls ?g2) ?n ri" using rules(1) ri(5) by simp_all
  from productive_run [OF nv(1,3) map_leD [OF nv(2) up3(3)] g2] obtain pv m5 f5 where
    pv: "layout m5 ?n f5" "f4 \<subseteq>\<^sub>m f5" "f5 pv = Some ?P" "census_productive ri nv tv ?g2 m4 = Some (pv, marked_productive g, m5)"
    unfolding productive_of_def marked_productive_def marked_simps by blast
  let ?g3 = "marked_productive g"
  have test: "bv_bit_test m5 pv ?s = Some (?s \<in> ?P)" using layout_test [OF pv(1,3) s(2)] .
  have up: "f5 v = Some A" if "f3 v = Some A" for v A using map_leD [OF pv(2) map_leD [OF nv(2) that]] .
  have rows: "f5 (row_at M ?n i) = Some (?R `` {i})" if "i < ?n" for i using up [OF M(5) [OF that]] .
  have M5: "matrix_at m5 ?n M ?R"
  proof -
    have "vec m5 ?n (row_at M ?n j) (?R `` {j})" if "j < ?n" for j by (rule layout_vec [OF pv(1) rows [OF that]])
    then show ?thesis using M(4) matrix_at_less [OF M(4)] by (auto simp: matrix_at_def matrix_ok_def vec_def relation_of_def)
  qed
  let ?g4 = "mark_all set_accessible (accessible_of g) ?g3"
  have acc: "census_accessible M ?g3 m5 = Some (?g4, m5)"
    using accessible_run [OF pv(1) M5, of ?g3 ?s] rows s by (simp add: accessible_of_def)
  from nulling_run [OF pv(1) up [OF up3(1)] up [OF up3(3)] M5 rows, of ?g4] obtain m7 f7 where
    nl: "layout m7 ?n f7" "f5 \<subseteq>\<^sub>m f7" "let es = nulling_events ?R ?T ?g4 (sorted_list_of_set (lhs_of ?rules))
     in census_nulling tv (lhs_v ri) M ?g4 m5 = Some (es \<noteq> [], add_events es (mark_all set_nulling {x \<in> lhs_of ?rules. quiet ?R ?T x} ?g4), m7)"
    unfolding mark_all_xsys marked_simps by blast
  have term_flag: "xsy_is_terminal (t_xsys ?g4 ! i) \<longleftrightarrow> i \<in> ?T" if "i < ?n" for i
  proof -
    have "xsy_is_terminal (t_xsys ?g4 ! i) \<longleftrightarrow> i \<in> default_terminals g \<or> xsy_is_terminal (t_xsys g ! i)"
      using that by (simp add: marked_productive_def marked_nullable_def)
    moreover have "fresh_xsy (t_xsys g ! i)" using g(3) that by (simp add: all_fresh_def)
    ultimately show ?thesis using that by (auto simp: fresh_xsy_def default_terminals_def terminals_of_def is_terminal_of_def)
  qed
  have L: "lhs_of ?rules \<subseteq> {..<?n}" using rules(1) by (auto simp: lhs_of_def symbols_ok_def)
  have "nulling_events ?R ?T ?g4 (sorted_list_of_set (lhs_of ?rules)) = nulling_terminals g"
  proof -
    have "(quiet ?R ?T i \<and> xsy_is_terminal (t_xsys ?g4 ! i)) = (i \<in> nulling_of g \<and> i \<in> ?T)" if "i \<in> set (sorted_list_of_set (lhs_of ?rules))" for i
      using that sorted_set_below [OF L] L term_flag [of i] by (auto simp: nulling_of_def)
    then show ?thesis unfolding nulling_events_def nulling_terminals_def by (metis (no_types, lifting) filter_cong)
  qed
  then have nl': "census_nulling tv (lhs_v ri) M ?g4 m5 = Some (nulling_terminals g \<noteq> [], marked_nulling g, m7)"
    using nl(3) unfolding Let_def marked_nulling_def nulling_of_def by simp
  let ?g6 = "census_rules (marked_nulling g)"
  have g6: "length (t_xsys ?g6) = ?n" "symbols_ok ?n (t_xrls ?g6)" "cilar_ok (t_cilar ?g6)" "cil_obs (t_cilar ?g6) + ?n < SIZE_MOD"
    using rules(1) g(2) fit(5) by (simp_all add: shape_symbols)
  from nulled_run [OF nl(1) g6(1) fit(1) g6(2-4)] obtain h ca m8 f8 where
    nu: "census_nulled ?g6 m7 = Some (put_nulled h ca ?g6, m8)" "layout m8 ?n f8" "f7 \<subseteq>\<^sub>m f8" "lists_sets ca h {..<?n} ((nullification_rel ?g6)\<^sup>+)" .
  have nv8: "vec m8 ?n nv ?N" using layout_vec [OF nu(2) map_leD [OF nu(3) map_leD [OF nl(2) map_leD [OF pv(2) nv(3)]]]] .
  have run: "census g = (if counted_nullables g \<noteq> [] then Some (Inl (fail MARPA_ERR_COUNTED_NULLABLE ?g2))
      else if ?s \<notin> ?P then Some (Inl (fail MARPA_ERR_UNPRODUCTIVE_START ?g3))
      else if nulling_terminals g \<noteq> [] then Some (Inl (fail MARPA_ERR_NULLING_TERMINAL (marked_nulling g)))
      else Some (Inr (put_nulled h ca ?g6, ri, nv, m8)))"
    using ri(1) tv(1) M(1) nv4 pv(4) test acc nl' nu(1) by (simp add: census_def)
  then show ?thesis
    unfolding census_outcome_def using nu(4) ri(5) nv8
    by (cases "counted_nullables g = []"; cases "?s \<in> ?P"; cases "nulling_terminals g = []") auto
qed

section \<open>Precomputation\<close>

lemma put_nulled_cycle: "cycle_result L (put_nulled h ca g) = put_nulled h ca (cycle_result L g)"
  by (simp add: cycle_result_def mark_rules_def add_events_def put_nulled_def cong: if_cong option.case_cong)

lemma put_nulled_loops:
  assumes "symbols_ok (length (t_xsys g)) (t_xrls g)"
  shows "loops_of (put_nulled h ca g) N = loops_of g N"
proof -
  have "unit_symbols (put_nulled h ca g) N rhs = unit_symbols g N rhs" if "\<forall>x \<in> set rhs. x < length (t_xsys g)" for rhs
    using that by (auto simp: unit_symbols_def Let_def split: option.splits)
  moreover have "\<forall>x \<in> set (RHS_IDs_of_XRL (t_xrls g ! i)). x < length (t_xsys g)" if "i < length (t_xrls g)" for i
    using assms nth_mem [OF that] unfolding symbols_ok_def by blast
  ultimately have "unit_rel (put_nulled h ca g) N (length (t_xrls g)) = unit_rel g N (length (t_xrls g))"
    by (auto simp: unit_rel_def)
  then show ?thesis by (simp add: loops_of_def)
qed

lemma mark_rules_image:
  assumes "\<And>r. F (r\<lparr>t_is_loop := True\<rparr>) = F r"
  shows "F ` set (t_xrls (mark_rules L g)) = F ` set (t_xrls g)"
proof -
  have "map F (t_xrls (mark_rules L g)) = map F (t_xrls g)"
    by (rule nth_equalityI) (simp_all add: assms)
  then show ?thesis by (metis set_map)
qed

lemma nullification_cycle: "nullification_rel (cycle_result L g) = nullification_rel g"
proof -
  define F where "F = (\<lambda>r :: marpa_xrl. if xrl_is_nullable r then {LHS_ID_of_XRL r} \<times> set (RHS_IDs_of_XRL r) else {})"
  have rel: "{(LHS_ID_of_XRL r, x) | r x. r \<in> S \<and> xrl_is_nullable r \<and> x \<in> set (RHS_IDs_of_XRL r)} = \<Union> (F ` S)" for S
    by (auto simp: F_def split: if_split_asm)
  have "F ` set (t_xrls (mark_rules L g)) = F ` set (t_xrls g)" by (rule mark_rules_image) (simp add: F_def)
  then show ?thesis unfolding nullification_rel_def rel by (simp add: cycle_result_def)
qed

lemma precompute_runs:
  assumes g: "being_built g" "working g" and fits: "census_fits g"
  shows "\<exists>x. marpa_g_precompute_start g = Some x \<and> (case precompute_outcome g of Inl failure \<Rightarrow> x = Inl failure
    | Inr g1 \<Rightarrow> \<exists>h ca. x = Inr (put_nulled h ca g1) \<and> lists_sets ca h {..<length (t_xsys g)} ((nullification_rel g1)\<^sup>+))"
proof (cases "start_checks (G_EVENTS_CLEAR g)")
  case (Some failure)
  with g(2) show ?thesis by (simp add: marpa_g_precompute_start_def precompute_outcome_def Let_def)
next
  case None
  let ?g = "(G_EVENTS_CLEAR g)\<lparr>t_xrl_tree := None\<rparr>"
  have same: "t_xsys ?g = t_xsys g" "t_xrls ?g = t_xrls g" "t_cilar ?g = t_cilar g" "t_start_xsy_id ?g = t_start_xsy_id g"
    "t_external_size ?g = t_external_size g" "t_max_rule_length ?g = t_max_rule_length g" by (simp_all add: G_EVENTS_CLEAR_def)
  have ok: "rules_ok ?g" "cilar_ok (t_cilar ?g)" "all_fresh ?g"
    using g(1) by (simp_all add: being_built_def grammar_ok_def rules_ok_def all_fresh_def same)
  have fit: "census_fits ?g" using fits by (simp add: census_fits_def same)
  have start: "0 \<le> t_start_xsy_id ?g"
    using None unfolding same start_checks_def first_failure_None by (simp add: G_EVENTS_CLEAR_def)
  from census_runs [OF ok fit start] obtain x where x: "census ?g = Some x" "case census_outcome ?g of Inl failure \<Rightarrow> x = Inl failure
    | Inr g1 \<Rightarrow> \<exists>h ca ri nv m. x = Inr (put_nulled h ca g1, ri, nv, m)
        \<and> lists_sets ca h {..<length (t_xsys g)} ((nullification_rel g1)\<^sup>+)
        \<and> rules_indexed (t_xrls g) (length (t_xsys g)) ri \<and> vec m (length (t_xsys g)) nv (nullable_of (t_xrls g))"
    unfolding same by blast
  have run: "marpa_g_precompute_start g = (case x of Inl failure \<Rightarrow> Some (Inl failure)
      | Inr (g2, ri, nv, m) \<Rightarrow> do { (g3, m1) \<leftarrow> detect_cycles ri nv g2 m; Some (Inr g3) })"
    using g(2) None x(1) by (simp add: marpa_g_precompute_start_def Let_def)
  show ?thesis
  proof (cases "census_outcome ?g")
    case (Inl failure)
    with x(2) run None show ?thesis by (simp add: precompute_outcome_def)
  next
    case (Inr g1)
    with x(2) obtain h ca ri nv m where x1: "x = Inr (put_nulled h ca g1, ri, nv, m)"
      "lists_sets ca h {..<length (t_xsys g)} ((nullification_rel g1)\<^sup>+)" "rules_indexed (t_xrls g) (length (t_xsys g)) ri"
      "vec m (length (t_xsys g)) nv (nullable_of (t_xrls g))" by auto
    have g1: "g1 = census_rules (marked_nulling ?g)" using Inr by (simp add: census_outcome_def split: if_split_asm)
    have shape: "t_xrls g1 = map (rule_flags (marked_nulling ?g)) (t_xrls g)" "length (t_xsys g1) = length (t_xsys g)"
      unfolding g1 by (simp_all add: same)
    let ?L = "loops_of g1 (nullable_of (t_xrls g))"
    have sym: "symbols_ok (length (t_xsys g)) (t_xrls g1)"
      using rules_ok_symbols(1) [OF ok(1)] unfolding shape by (simp add: shape_symbols same)
    have "rules_indexed (t_xrls (put_nulled h ca g1)) (length (t_xsys g)) ri" "symbols_ok (length (t_xsys g)) (t_xrls (put_nulled h ca g1))"
      "matrix_fits (length (t_xrls (put_nulled h ca g1)))"
      using x1(3) sym fits by (simp_all add: shape shape_index census_fits_def)
    from cycles_run [OF x1(4) this] obtain m' where
      "detect_cycles ri nv (put_nulled h ca g1) m = Some (cycle_result (loops_of (put_nulled h ca g1) (nullable_of (t_xrls g))) (put_nulled h ca g1), m')" .
    then have "marpa_g_precompute_start g = Some (Inr (put_nulled h ca (cycle_result ?L g1)))"
      using run x1(1) sym by (simp add: put_nulled_loops put_nulled_cycle shape(2))
    moreover have "nullification_rel (cycle_result ?L g1) = nullification_rel g1" by (rule nullification_cycle)
    ultimately show ?thesis using x1(2) None Inr by (auto simp: precompute_outcome_def)
  qed
qed

end
