(* ===== verification/Derivation.thy ===== *)
theory Derivation
  imports CensusProps
begin

text \<open>
  What the rules of a grammar derive: the sentential forms that come from a list of symbols by replacing
  left hand sides with right hand sides, a sequence rule standing for one rule for each number of items. The
  sets of symbols that the census computes are those of the derivations: nullable, productive and reached.
\<close>

section \<open>Derivations\<close>

text \<open>A sequence of \<open>k\<close> items \<open>x\<close>, with the separator between them unless it is negative.\<close>

definition sequence_items :: "nat \<Rightarrow> int \<Rightarrow> nat \<Rightarrow> nat list" where
  "sequence_items x separator k =
     (if k = 0 then [] else x # concat (replicate (k - 1) (if 0 \<le> separator then [nat separator, x] else [x])))"

text \<open>The right hand sides that a rule stands for. Unless the separation is proper, a separator may follow.\<close>

definition expansions :: "'a marpa_xrl_scheme \<Rightarrow> nat list set" where
  "expansions r = (if t_is_sequence r
     then {sequence_items (hd (RHS_IDs_of_XRL r)) (t_separator_id r) k | k. t_minimum r \<le> int k}
       \<union> {sequence_items (hd (RHS_IDs_of_XRL r)) (t_separator_id r) k @ [nat (t_separator_id r)] | k.
            t_minimum r \<le> int k \<and> 0 < k \<and> 0 \<le> t_separator_id r \<and> \<not> t_is_proper_separation r}
     else {RHS_IDs_of_XRL r})"

inductive derives1 :: "'a marpa_xrl_scheme list \<Rightarrow> nat list \<Rightarrow> nat list \<Rightarrow> bool" for rules where
  "r \<in> set rules \<Longrightarrow> w \<in> expansions r \<Longrightarrow> derives1 rules (u @ LHS_ID_of_XRL r # v) (u @ w @ v)"

abbreviation derives :: "'a marpa_xrl_scheme list \<Rightarrow> nat list \<Rightarrow> nat list \<Rightarrow> bool" where
  "derives rules \<equiv> (derives1 rules)\<^sup>*\<^sup>*"

inductive_cases derives1E: "derives1 rules u w"

lemma derives1_context: "derives1 rules u w \<Longrightarrow> derives1 rules (a @ u @ b) (a @ w @ b)"
proof (induction rule: derives1.induct)
  case (1 r w u v)
  from derives1.intros [OF 1, of "a @ u" "v @ b"] show ?case by simp
qed

lemma derives_context: "derives rules u w \<Longrightarrow> derives rules (a @ u @ b) (a @ w @ b)"
proof (induction rule: rtranclp_induct)
  case (step v w)
  from this(3) derives1_context [OF this(2), of a b] show ?case by (rule rtranclp.rtrancl_into_rtrancl)
qed simp

lemma derives_append:
  assumes "derives rules u u'" "derives rules v v'"
  shows "derives rules (u @ v) (u' @ v')"
  using derives_context [OF assms(1), of "[]" v] derives_context [OF assms(2), of u' "[]"] by simp

lemma derives_rule: "r \<in> set rules \<Longrightarrow> w \<in> expansions r \<Longrightarrow> derives rules [LHS_ID_of_XRL r] w"
  using derives1.intros [of r rules w "[]" "[]"] by simp

lemma derives_all:
  assumes "\<forall>x \<in> set u. \<exists>w. set w \<subseteq> A \<and> derives rules [x] w"
  shows "\<exists>w. set w \<subseteq> A \<and> derives rules u w"
  using assms
proof (induction u)
  case (Cons x u)
  then obtain w1 w2 where "set w1 \<subseteq> A" "derives rules [x] w1" "set w2 \<subseteq> A" "derives rules u w2" by auto
  with derives_append [of rules "[x]" w1 u w2] show ?case by (intro exI [of _ "w1 @ w2"]) simp
qed (auto intro: exI [of _ "[]"])

text \<open>What a form derives is put together from what its parts derive.\<close>

lemma derives1_split:
  assumes "derives1 rules (u @ v) w"
  shows "\<exists>u' v'. w = u' @ v' \<and> (derives1 rules u u' \<and> v' = v \<or> u' = u \<and> derives1 rules v v')"
proof -
  obtain r x a b where r: "u @ v = a @ LHS_ID_of_XRL r # b" "w = a @ x @ b" "r \<in> set rules" "x \<in> expansions r"
    using assms by (auto elim: derives1E)
  from r(1) consider c where "u = a @ LHS_ID_of_XRL r # c" "b = c @ v" | c where "a = u @ c" "v = c @ LHS_ID_of_XRL r # b"
    unfolding append_eq_append_conv2 by (fastforce simp: Cons_eq_append_conv append_eq_Cons_conv)
  then show ?thesis
  proof cases
    case 1
    with r(3,4) have "derives1 rules u (a @ x @ c)" by (simp add: derives1.intros)
    with 1 r(2) show ?thesis by (intro exI [of _ "a @ x @ c"] exI [of _ v]) simp
  next
    case 2
    with r(3,4) have "derives1 rules v (c @ x @ b)" by (simp add: derives1.intros)
    with 2 r(2) show ?thesis by (intro exI [of _ u] exI [of _ "c @ x @ b"]) simp
  qed
qed

text \<open>The same with the number of steps.\<close>

abbreviation derives_in :: "'a marpa_xrl_scheme list \<Rightarrow> nat \<Rightarrow> nat list \<Rightarrow> nat list \<Rightarrow> bool" where
  "derives_in rules n \<equiv> derives1 rules ^^ n"

lemma derives_split:
  assumes "derives_in rules n (u @ v) w"
  shows "\<exists>u' v' i j. w = u' @ v' \<and> i \<le> n \<and> j \<le> n \<and> derives_in rules i u u' \<and> derives_in rules j v v'"
  using assms
proof (induction n arbitrary: w)
  case 0
  then show ?case by (intro exI [of _ u] exI [of _ v] exI [of _ 0]) simp
next
  case (Suc n)
  then obtain w1 where w1: "derives_in rules n (u @ v) w1" "derives1 rules w1 w" by auto
  from Suc.IH [OF this(1)] obtain u1 v1 i j where 1: "w1 = u1 @ v1" "i \<le> n" "j \<le> n" "derives_in rules i u u1" "derives_in rules j v v1" by blast
  from derives1_split [OF w1(2) [unfolded 1(1)]] obtain u' v' where
    "w = u' @ v'" "derives1 rules u1 u' \<and> v' = v1 \<or> u' = u1 \<and> derives1 rules v1 v'" by blast
  then consider "w = u' @ v1" "derives_in rules (Suc i) u u'" | "w = u1 @ v'" "derives_in rules (Suc j) v v'"
    using 1(4,5) by auto
  then show ?case
  proof cases
    case 1
    with \<open>i \<le> n\<close> \<open>j \<le> n\<close> \<open>derives_in rules j v v1\<close> show ?thesis
      by (intro exI [of _ u'] exI [of _ v1] exI [of _ "Suc i"] exI [of _ j]) simp
  next
    case 2
    with \<open>i \<le> n\<close> \<open>j \<le> n\<close> \<open>derives_in rules i u u1\<close> show ?thesis
      by (intro exI [of _ u1] exI [of _ v'] exI [of _ i] exI [of _ "Suc j"]) simp
  qed
qed

lemma derives_nothing: "derives rules [] w \<longleftrightarrow> w = []"
proof
  assume "derives rules [] w"
  then show "w = []" by (induction rule: rtranclp_induct) (auto elim: derives1E)
qed simp

text \<open>A form that derives one symbol: all its symbols but one derive nothing.\<close>

lemma derives_one:
  assumes "derives_in rules n w [a]"
  shows "\<exists>u c v i. w = u @ c # v \<and> i \<le> n \<and> derives rules u [] \<and> derives rules v [] \<and> derives_in rules i [c] [a]"
  using assms
proof (induction w arbitrary: n)
  case Nil
  then have "derives rules [] [a]" by (metis relpowp_imp_rtranclp)
  then show ?case by (simp add: derives_nothing)
next
  case (Cons x w)
  from derives_split [of n rules "[x]" w "[a]"] Cons.prems obtain u' v' i j where
    s: "[a] = u' @ v'" "i \<le> n" "j \<le> n" "derives_in rules i [x] u'" "derives_in rules j w v'" by auto
  from s(1) consider "u' = [a]" "v' = []" | "u' = []" "v' = [a]" by (auto simp: Cons_eq_append_conv)
  then show ?case
  proof cases
    case 1
    have "derives rules w []" using s(5) 1 by (metis relpowp_imp_rtranclp)
    then show ?thesis using s 1 by (intro exI [of _ "[]"] exI [of _ x] exI [of _ w] exI [of _ i]) simp
  next
    case 2
    have x: "derives rules [x] []" using s(4) 2 by (metis relpowp_imp_rtranclp)
    from Cons.IH s(5) 2 obtain u c v k where
      "w = u @ c # v" "k \<le> j" "derives rules u []" "derives rules v []" "derives_in rules k [c] [a]" by blast
    with derives_append [OF x, of u "[]"] s(3) show ?thesis
      by (intro exI [of _ "x # u"] exI [of _ c] exI [of _ v] exI [of _ k]) simp
  qed
qed

section \<open>The expansions of a rule\<close>

lemma items_set: "set (sequence_items x separator k)
    = (if k = 0 then {} else {x} \<union> (if 1 < k \<and> 0 \<le> separator then {nat separator} else {}))"
  by (auto simp: sequence_items_def set_replicate_conv_if)

lemma items_none [simp]: "sequence_items x s k = [] \<longleftrightarrow> k = 0" "[] = sequence_items x s k \<longleftrightarrow> k = 0"
  by (auto simp: sequence_items_def)

lemma items_one [simp]: "sequence_items x separator 0 = []" "sequence_items x separator (Suc 0) = [x]"
  by (simp_all add: sequence_items_def)

text \<open>A sequence rule has one symbol on the right.\<close>

definition one_item :: "'a marpa_xrl_scheme \<Rightarrow> bool" where
  "one_item r \<longleftrightarrow> (t_is_sequence r \<longrightarrow> length (RHS_IDs_of_XRL r) = 1)"

lemma one_itemE:
  assumes "one_item r" "t_is_sequence r"
  obtains x where "RHS_IDs_of_XRL r = [x]"
  using assms by (auto simp: one_item_def length_Suc_conv)

lemma expansion_empty:
  assumes "one_item r"
  shows "[] \<in> expansions r \<longleftrightarrow> has_empty r"
proof (cases "t_is_sequence r")
  case True
  with assms obtain x where x: "RHS_IDs_of_XRL r = [x]" by (rule one_itemE)
  then show ?thesis using True x by (auto simp: expansions_def has_empty_def)
qed (auto simp: expansions_def has_empty_def)

lemma expansion_mentions:
  assumes "one_item r" "w \<in> expansions r"
  shows "set w \<subseteq> mentions r"
proof (cases "t_is_sequence r")
  case True
  with assms(1) obtain x where x: "RHS_IDs_of_XRL r = [x]" by (rule one_itemE)
  with assms(2) True show ?thesis by (auto simp: expansions_def mentions_def items_set split: if_splits)
qed (use assms in \<open>simp add: expansions_def mentions_def\<close>)

lemma expansion_needs:
  assumes "one_item r" "w \<in> expansions r" "w \<noteq> []"
  shows "needs r \<subseteq> set w"
proof (cases "t_is_sequence r")
  case True
  with assms(1) obtain x where x: "RHS_IDs_of_XRL r = [x]" by (rule one_itemE)
  with assms(2,3) True show ?thesis by (auto simp: expansions_def needs_def items_set split: if_splits)
qed (use assms in \<open>simp add: expansions_def needs_def\<close>)

text \<open>The shortest expansion that is not empty, and one with all symbols that the rule mentions.\<close>

lemma shortest_expansion:
  assumes "one_item r" "RHS_IDs_of_XRL r \<noteq> []"
  shows "\<exists>w \<in> expansions r. set w = needs r"
proof (cases "t_is_sequence r")
  case True
  with assms(1) obtain x where x: "RHS_IDs_of_XRL r = [x]" by (rule one_itemE)
  let ?k = "nat (max 1 (t_minimum r))"
  have "t_minimum r \<le> int ?k" by linarith
  then have "sequence_items x (t_separator_id r) ?k \<in> expansions r" using True x unfolding expansions_def by auto
  moreover have "set (sequence_items x (t_separator_id r) ?k) = needs r" using True x by (auto simp: items_set needs_def)
  ultimately show ?thesis by blast
qed (simp add: expansions_def needs_def)

lemma full_expansion:
  assumes "one_item r" "RHS_IDs_of_XRL r \<noteq> []"
  shows "\<exists>w \<in> expansions r. set w = mentions r"
proof (cases "t_is_sequence r")
  case True
  with assms(1) obtain x where x: "RHS_IDs_of_XRL r = [x]" by (rule one_itemE)
  let ?k = "nat (max 2 (t_minimum r))"
  have "t_minimum r \<le> int ?k" by linarith
  then have "sequence_items x (t_separator_id r) ?k \<in> expansions r" using True x unfolding expansions_def by auto
  moreover have "set (sequence_items x (t_separator_id r) ?k) = mentions r" using True x by (auto simp: items_set mentions_def)
  ultimately show ?thesis by blast
qed (simp add: expansions_def mentions_def)

section \<open>Symbols that derive strings over a set\<close>

lemma closed_derives:
  assumes "\<forall>r \<in> set rules. one_item r"
  shows "x \<in> rhs_closed rules (A \<union> empty_lhs rules) \<Longrightarrow> \<exists>w. set w \<subseteq> A \<and> derives rules [x] w"
proof (induction rule: rhs_closed.induct)
  case (base x)
  then consider "x \<in> A" | r where "r \<in> set rules" "has_empty r" "x = LHS_ID_of_XRL r" by (auto simp: empty_lhs_def)
  then show ?case
  proof cases
    case 1
    then show ?thesis by (intro exI [of _ "[x]"]) simp
  next
    case 2
    with assms have "[] \<in> expansions r" by (simp add: expansion_empty)
    from derives_rule [OF 2(1) this] 2(3) show ?thesis by (intro exI [of _ "[]"]) simp
  qed
next
  case (step r)
  with assms shortest_expansion obtain u where u: "u \<in> expansions r" "set u = needs r" by blast
  have "\<forall>x \<in> set u. \<exists>w. set w \<subseteq> A \<and> derives rules [x] w" using step u(2) by blast
  from derives_all [OF this] obtain w where "set w \<subseteq> A" "derives rules u w" by blast
  then show ?case using rtranclp_trans [OF derives_rule [OF step(1) u(1)]] by blast
qed

lemma derives_closed:
  assumes "\<forall>r \<in> set rules. one_item r" "derives rules u w" "set w \<subseteq> A"
  shows "set u \<subseteq> rhs_closed rules (A \<union> empty_lhs rules)"
  using assms(2)
proof (induction rule: converse_rtranclp_induct)
  case base
  then show ?case using assms(3) by (auto intro: rhs_closed.base)
next
  case (step u v)
  from step(1) obtain r x a b where r: "u = a @ LHS_ID_of_XRL r # b" "v = a @ x @ b" "r \<in> set rules" "x \<in> expansions r"
    by (auto elim: derives1E)
  have "LHS_ID_of_XRL r \<in> rhs_closed rules (A \<union> empty_lhs rules)"
  proof (cases "x = []")
    case True
    with r assms(1) have "has_empty r" by (simp add: expansion_empty [symmetric])
    then show ?thesis using r(3) by (intro rhs_closed.base) (auto simp: empty_lhs_def)
  next
    case False
    with assms(1) r(3,4) have "needs r \<subseteq> set x" by (simp add: expansion_needs)
    moreover have "RHS_IDs_of_XRL r \<noteq> []"
      using False r(3,4) assms(1) by (auto simp: expansions_def one_item_def split: if_splits)
    ultimately show ?thesis using r step(3) by (intro rhs_closed.step) auto
  qed
  then show ?case using r(1,2) step(3) by simp
qed

text \<open>The closure holds the symbols that derive a string over \<open>A\<close>.\<close>

lemma closed_iff_derives:
  assumes "\<forall>r \<in> set rules. one_item r"
  shows "x \<in> rhs_closed rules (A \<union> empty_lhs rules) \<longleftrightarrow> (\<exists>w. set w \<subseteq> A \<and> derives rules [x] w)"
  using closed_derives [OF assms] derives_closed [OF assms, of "[x]"] by auto

lemma closed_within:
  assumes "A \<subseteq> rhs_closed rules B"
  shows "rhs_closed rules A \<subseteq> rhs_closed rules B"
proof
  fix x assume "x \<in> rhs_closed rules A"
  then show "x \<in> rhs_closed rules B"
    by induction (use assms in \<open>auto intro: rhs_closed.step\<close>)
qed

lemma closed_again: "rhs_closed rules (rhs_closed rules A \<union> B) = rhs_closed rules (A \<union> B)"
proof
  have "rhs_closed rules A \<subseteq> rhs_closed rules (A \<union> B)" by (rule closed_within) (auto intro: rhs_closed.base)
  then show "rhs_closed rules (rhs_closed rules A \<union> B) \<subseteq> rhs_closed rules (A \<union> B)"
    by (intro closed_within) (auto intro: rhs_closed.base)
  show "rhs_closed rules (A \<union> B) \<subseteq> rhs_closed rules (rhs_closed rules A \<union> B)"
    by (rule closed_within) (auto intro: rhs_closed.base)
qed

section \<open>Symbols that occur in what a symbol derives\<close>

lemma derives1_reach:
  assumes "\<forall>r \<in> set rules. one_item r" "derives1 rules u w"
  shows "set w \<subseteq> set u \<union> mention_rel rules `` set u"
proof -
  obtain r x a b where r: "u = a @ LHS_ID_of_XRL r # b" "w = a @ x @ b" "r \<in> set rules" "x \<in> expansions r"
    using assms(2) by (auto elim: derives1E)
  then have "set x \<subseteq> mentions r" using assms(1) expansion_mentions by blast
  with r(1-3) show ?thesis by (auto simp: mention_rel_def)
qed

text \<open>In one step or more, and in any number of steps.\<close>

lemma derives_reach:
  assumes "\<forall>r \<in> set rules. one_item r" "(derives1 rules)\<^sup>+\<^sup>+ [s] w" "x \<in> set w"
  shows "(s, x) \<in> (mention_rel rules)\<^sup>+"
  using assms(2,3)
proof (induction arbitrary: x rule: tranclp_induct)
  case (base w)
  obtain r y where r: "s = LHS_ID_of_XRL r" "r \<in> set rules" "y \<in> expansions r" "w = y"
    using base(1) by (auto elim!: derives1E simp: Cons_eq_append_conv)
  with base(2) assms(1) expansion_mentions have "x \<in> mentions r" by blast
  with r show ?case by (auto simp: mention_rel_def)
next
  case (step v w)
  from derives1_reach [OF assms(1) step(2)] step(4) consider "x \<in> set v" | y where "y \<in> set v" "(y, x) \<in> mention_rel rules" by auto
  then show ?case using step(3) by cases (auto intro: trancl_into_trancl)
qed

lemma mention_derives:
  assumes "\<forall>r \<in> set rules. one_item r" "(s, x) \<in> mention_rel rules"
  shows "\<exists>w. derives1 rules [s] w \<and> x \<in> set w"
proof -
  from assms(2) obtain r where r: "s = LHS_ID_of_XRL r" "r \<in> set rules" "x \<in> mentions r" by (auto simp: mention_rel_def)
  then have "RHS_IDs_of_XRL r \<noteq> []" using assms(1) by (auto simp: mentions_def one_item_def split: if_splits)
  with full_expansion assms(1) r(2) obtain w where "w \<in> expansions r" "set w = mentions r" by blast
  with derives1.intros [OF r(2), of w "[]" "[]"] r show ?thesis by auto
qed

lemma reach_derives:
  assumes rules: "\<forall>r \<in> set rules. one_item r"
  shows "(s, x) \<in> (mention_rel rules)\<^sup>+ \<Longrightarrow> \<exists>w. (derives1 rules)\<^sup>+\<^sup>+ [s] w \<and> x \<in> set w"
proof (induction rule: trancl_induct)
  case (base y)
  with mention_derives [OF rules] show ?case by blast
next
  case (step y z)
  then obtain w a b where w: "(derives1 rules)\<^sup>+\<^sup>+ [s] w" "w = a @ y # b" by (auto simp: in_set_conv_decomp)
  from mention_derives [OF rules step(2)] obtain v where v: "derives1 rules [y] v" "z \<in> set v" by blast
  from derives1_context [OF v(1), of a b] w have "(derives1 rules)\<^sup>+\<^sup>+ [s] (a @ v @ b)" by simp
  with v(2) show ?case by (intro exI [of _ "a @ v @ b"]) simp
qed

lemma reach_iff_derives:
  assumes "\<forall>r \<in> set rules. one_item r"
  shows "(s, x) \<in> (mention_rel rules)\<^sup>+ \<longleftrightarrow> (\<exists>w. (derives1 rules)\<^sup>+\<^sup>+ [s] w \<and> x \<in> set w)"
  using derives_reach [OF assms] reach_derives [OF assms] by blast

lemma reach_or_same:
  assumes "\<forall>r \<in> set rules. one_item r"
  shows "x = s \<or> (s, x) \<in> (mention_rel rules)\<^sup>+ \<longleftrightarrow> (\<exists>w. derives rules [s] w \<and> x \<in> set w)"
proof -
  have "derives rules [s] w \<longleftrightarrow> w = [s] \<or> (derives1 rules)\<^sup>+\<^sup>+ [s] w" for w by (metis rtranclpD rtranclp.simps tranclp_into_rtranclp)
  then show ?thesis unfolding reach_iff_derives [OF assms] by fastforce
qed

lemma derives_trans: "derives rules u v \<Longrightarrow> derives rules v w \<Longrightarrow> derives rules u w"
  by (rule rtranclp_trans)

end
