(* ===== verification/CensusMeaning.thy ===== *)
theory CensusMeaning
  imports Derivation
begin

text \<open>
  What the first part of \<open>marpa_g_precompute\<close> finds out, in terms of the derivations of the grammar: the
  flags of the symbols and the rules, the loops, the lists of nulled symbols and the errors.
\<close>

section \<open>The grammar after the census\<close>

text \<open>The grammar on which the census works.\<close>

definition census_input :: "marpa_g \<Rightarrow> marpa_g" where
  "census_input g = (G_EVENTS_CLEAR g)\<lparr>t_xrl_tree := None\<rparr>"

lemma census_input_simps [simp]:
  "t_xsys (census_input g) = t_xsys g" "t_xrls (census_input g) = t_xrls g" "t_cilar (census_input g) = t_cilar g"
  "t_start_xsy_id (census_input g) = t_start_xsy_id g" "t_events (census_input g) = []"
  by (simp_all add: census_input_def G_EVENTS_CLEAR_def)

lemma census_input_sets [simp]:
  "terminals_of (census_input g) = terminals_of g" "default_terminals (census_input g) = default_terminals g"
  "productive_of (census_input g) = productive_of g" "accessible_of (census_input g) = accessible_of g"
  "nulling_of (census_input g) = nulling_of g" "counted_nullables (census_input g) = counted_nullables g"
  "nulling_terminals (census_input g) = nulling_terminals g"
  by (simp_all add: terminals_of_def default_terminals_def productive_of_def accessible_of_def nulling_of_def
      counted_nullables_def counted_events_def nulling_terminals_def)

lemma precompute_outcome_eq:
  "precompute_outcome g =
     (case start_checks (G_EVENTS_CLEAR g) of
        Some failure \<Rightarrow> Inl failure
      | None \<Rightarrow>
          if counted_nullables g \<noteq> [] then Inl (fail MARPA_ERR_COUNTED_NULLABLE (marked_nullable (census_input g)))
          else if nat (t_start_xsy_id g) \<notin> productive_of g then Inl (fail MARPA_ERR_UNPRODUCTIVE_START (marked_productive (census_input g)))
          else if nulling_terminals g \<noteq> [] then Inl (fail MARPA_ERR_NULLING_TERMINAL (marked_nulling (census_input g)))
          else (let g1 = census_rules (marked_nulling (census_input g))
                in Inr (cycle_result (loops_of g1 (nullable_of (t_xrls g))) g1)))"
  unfolding precompute_outcome_def census_outcome_def census_input_def [symmetric]
  by (simp add: Let_def split: option.split)

text \<open>The flags of a symbol.\<close>

lemma marked_flags:
  assumes "i < length (t_xsys g)"
  shows "t_xsys (marked_nulling g) ! i = (t_xsys g ! i)
    \<lparr>xsy_is_terminal := i \<in> default_terminals g \<or> xsy_is_terminal (t_xsys g ! i),
     xsy_is_nullable := i \<in> nullable_of (t_xrls g) \<or> xsy_is_nullable (t_xsys g ! i),
     xsy_is_productive := i \<in> productive_of g \<or> xsy_is_productive (t_xsys g ! i),
     xsy_is_accessible := i \<in> accessible_of g \<or> xsy_is_accessible (t_xsys g ! i),
     xsy_is_nulling := i \<in> nulling_of g \<or> xsy_is_nulling (t_xsys g ! i)\<rparr>"
  using assms by (auto simp: marked_nulling_def marked_productive_def marked_nullable_def)

lemma fresh_terminal:
  assumes "all_fresh g" "i < length (t_xsys g)"
  shows "i \<in> default_terminals g \<or> xsy_is_terminal (t_xsys g ! i) \<longleftrightarrow> i \<in> terminals_of g"
proof -
  have "fresh_xsy (t_xsys g ! i)" using assms by (simp add: all_fresh_def)
  with assms(2) show ?thesis by (auto simp: fresh_xsy_def default_terminals_def terminals_of_def is_terminal_of_def)
qed

definition symbol_flags_of :: "marpa_g \<Rightarrow> nat \<Rightarrow> marpa_xsy \<Rightarrow> bool" where
  "symbol_flags_of g s x \<longleftrightarrow> (xsy_is_terminal x \<longleftrightarrow> s \<in> terminals_of g) \<and> (xsy_is_nullable x \<longleftrightarrow> s \<in> nullable_of (t_xrls g))
     \<and> (xsy_is_productive x \<longleftrightarrow> s \<in> productive_of g) \<and> (xsy_is_accessible x \<longleftrightarrow> s \<in> accessible_of g)
     \<and> (xsy_is_nulling x \<longleftrightarrow> s \<in> nulling_of g)
     \<and> (\<forall>y. y = t_xsys g ! s \<longrightarrow> xsy_is_counted x = xsy_is_counted y \<and> xsy_is_lhs x = xsy_is_lhs y)"

lemma marked_symbol:
  assumes "all_fresh g" "i < length (t_xsys g)"
  shows "symbol_flags_of g i (t_xsys (marked_nulling g) ! i)"
proof -
  have "fresh_xsy (t_xsys g ! i)" using assms by (simp add: all_fresh_def)
  then show ?thesis using fresh_terminal [OF assms]
    unfolding symbol_flags_of_def marked_flags [OF assms(2)] by (auto simp: fresh_xsy_def)
qed

text \<open>What a precomputation that succeeds leaves.\<close>

definition after_census :: "marpa_g \<Rightarrow> marpa_g" where
  "after_census g = census_rules (marked_nulling (census_input g))"

lemma success_means:
  assumes g: "being_built g" "working g" "census_fits g" and run: "marpa_g_precompute_start g = Some (Inr g')"
  defines "L \<equiv> loops_of (after_census g) (nullable_of (t_xrls g))"
  obtains h ca where "g' = put_nulled h ca (cycle_result L (after_census g))"
    "lists_sets ca h {..<length (t_xsys g)} ((nullification_rel (after_census g))\<^sup>+)"
    "start_checks (G_EVENTS_CLEAR g) = None" "counted_nullables g = []" "nat (t_start_xsy_id g) \<in> productive_of g" "nulling_terminals g = []"
proof -
  from precompute_runs [OF g] run have
    c: "case precompute_outcome g of Inl failure \<Rightarrow> Inr g' = Inl failure
      | Inr g1 \<Rightarrow> \<exists>h ca. Inr g' = (Inr (put_nulled h ca g1) :: (int \<times> marpa_g) + marpa_g)
          \<and> lists_sets ca h {..<length (t_xsys g)} ((nullification_rel g1)\<^sup>+)" by auto
  then obtain g1 where g1: "precompute_outcome g = Inr g1" by (auto split: sum.splits)
  then have *: "start_checks (G_EVENTS_CLEAR g) = None" "counted_nullables g = []" "nat (t_start_xsy_id g) \<in> productive_of g"
    "nulling_terminals g = []" "g1 = cycle_result L (after_census g)"
    unfolding precompute_outcome_eq L_def after_census_def by (auto simp: Let_def split: option.splits if_splits)
  from c g1 obtain h ca where hc: "g' = put_nulled h ca g1" "lists_sets ca h {..<length (t_xsys g)} ((nullification_rel g1)\<^sup>+)" by auto
  then have "lists_sets ca h {..<length (t_xsys g)} ((nullification_rel (after_census g))\<^sup>+)" by (simp add: *(5) nullification_cycle)
  with that hc(1) * show thesis by blast
qed

lemma cycle_result_simps [simp]:
  "t_xsys (cycle_result L g) = t_xsys g" "length (t_xrls (cycle_result L g)) = length (t_xrls g)"
  "t_has_cycle (cycle_result L g) \<longleftrightarrow> L \<noteq> {} \<or> t_has_cycle g"
  "i < length (t_xrls g) \<Longrightarrow> t_xrls (cycle_result L g) ! i
     = (if i \<in> L then (t_xrls g ! i)\<lparr>t_is_loop := True\<rparr> else t_xrls g ! i)"
  by (auto simp: cycle_result_def add_events_def mark_rules_def)

lemma after_census_simps [simp]:
  "length (t_xsys (after_census g)) = length (t_xsys g)" "t_xsys (after_census g) = t_xsys (marked_nulling (census_input g))"
  "t_xrls (after_census g) = map (rule_flags (marked_nulling (census_input g))) (t_xrls g)"
  by (simp_all add: after_census_def)

lemma put_nulled_flags:
  assumes "i < length (t_xsys g)" "symbol_flags_of g0 i (t_xsys g ! i)"
  shows "symbol_flags_of g0 i (t_xsys (put_nulled h ca g) ! i)"
  using assms by (auto simp: symbol_flags_of_def split: option.split)

lemma fresh_input: "being_built g \<Longrightarrow> all_fresh (census_input g)"
  by (simp add: being_built_def all_fresh_def)

lemma flags_input: "symbol_flags_of (census_input g) s x = symbol_flags_of g s x"
  by (simp add: symbol_flags_of_def)

lemma success_symbols:
  assumes g: "being_built g" "working g" "census_fits g" and run: "marpa_g_precompute_start g = Some (Inr g')"
  shows "length (t_xsys g') = length (t_xsys g)" "s < length (t_xsys g) \<Longrightarrow> symbol_flags_of g s (t_xsys g' ! s)"
proof -
  from success_means [OF assms] obtain h ca where
    g': "g' = put_nulled h ca (cycle_result (loops_of (after_census g) (nullable_of (t_xrls g))) (after_census g))" .
  show "length (t_xsys g') = length (t_xsys g)" using g' by simp
  assume "s < length (t_xsys g)"
  then show "symbol_flags_of g s (t_xsys g' ! s)"
    using marked_symbol [OF fresh_input [OF g(1)], of s] unfolding g' flags_input by (intro put_nulled_flags) simp_all
qed

section \<open>Symbols\<close>

lemma rules_one_item: "rules_ok g \<Longrightarrow> \<forall>r \<in> set (t_xrls g). one_item r"
  by (auto simp: rules_ok_def rule_ok_def one_item_def)

lemma built_rules: "being_built g \<Longrightarrow> \<forall>r \<in> set (t_xrls g). one_item r"
  using rules_one_item by (auto simp: being_built_def grammar_ok_def)

lemma nullable_derives:
  assumes "\<forall>r \<in> set rules. one_item r"
  shows "s \<in> nullable_of rules \<longleftrightarrow> derives rules [s] []"
  using closed_iff_derives [OF assms, of s "{}"] by (simp add: nullable_of_def)

lemma productive_derives:
  assumes "\<forall>r \<in> set (t_xrls g). one_item r"
  shows "s \<in> productive_of g \<longleftrightarrow> (\<exists>w. set w \<subseteq> terminals_of g \<and> derives (t_xrls g) [s] w)"
  unfolding productive_of_def nullable_of_def closed_again Un_commute [of "empty_lhs _"] by (rule closed_iff_derives [OF assms])

lemma accessible_derives:
  assumes "\<forall>r \<in> set (t_xrls g). one_item r"
  shows "s \<in> accessible_of g \<longleftrightarrow> (\<exists>w. derives (t_xrls g) [nat (t_start_xsy_id g)] w \<and> s \<in> set w)"
  using reach_or_same [OF assms, of s "nat (t_start_xsy_id g)"] by (auto simp: accessible_of_def reach_of_def)

lemma nulling_derives:
  assumes "\<forall>r \<in> set (t_xrls g). one_item r"
  shows "s \<in> nulling_of g \<longleftrightarrow> s \<in> lhs_of (t_xrls g)
    \<and> (\<forall>w. (derives1 (t_xrls g))\<^sup>+\<^sup>+ [s] w \<longrightarrow> set w \<inter> terminals_of g = {})"
  using reach_iff_derives [OF assms, of s] by (auto simp: nulling_of_def reach_of_def quiet_def)

text \<open>The sets are sets of left hand sides and, for the productive symbols, of terminals.\<close>

lemma closed_sub: "rhs_closed rules A \<subseteq> A \<union> lhs_of rules"
proof
  fix x assume "x \<in> rhs_closed rules A"
  then show "x \<in> A \<union> lhs_of rules" by induction (auto simp: lhs_of_def)
qed

lemma nullable_lhs: "nullable_of rules \<subseteq> lhs_of rules"
  using closed_sub [of rules "empty_lhs rules"] by (auto simp: nullable_of_def empty_lhs_def lhs_of_def)

lemma finite_nullable: "finite (nullable_of rules)"
  by (rule finite_subset [OF nullable_lhs]) (simp add: lhs_of_def)

text \<open>When the census succeeds, no symbol that is counted is nullable, and no terminal is nulling.\<close>

lemma no_counted: "counted_nullables g = [] \<longleftrightarrow> (\<forall>s \<in> nullable_of (t_xrls g). \<not> xsy_is_counted (t_xsys g ! s))"
  using finite_nullable [of "t_xrls g"] by (simp add: counted_nullables_def counted_events_def filter_empty_conv)

lemma no_nulling_terminals: "nulling_terminals g = [] \<longleftrightarrow> nulling_of g \<inter> terminals_of g = {}"
proof -
  have "nulling_of g \<subseteq> lhs_of (t_xrls g)" by (auto simp: nulling_of_def)
  moreover have "finite (lhs_of (t_xrls g))" by (simp add: lhs_of_def)
  ultimately show ?thesis by (auto simp: nulling_terminals_def filter_empty_conv)
qed

lemma items_not_nullable:
  assumes "rules_ok g" "counted_nullables g = []" "r \<in> set (t_xrls g)" "t_is_sequence r" "x \<in> mentions r"
  shows "x \<notin> nullable_of (t_xrls g)"
proof -
  have "x < length (t_xsys g)" using assms(1,3,5) by (auto simp: rules_ok_def rule_ok_def mentions_def split: if_splits)
  moreover have "x \<in> counts r" using assms(4,5) by (simp add: counts_def mentions_def)
  ultimately have "xsy_is_counted (t_xsys g ! x)" using assms(1,3) by (auto simp: rules_ok_def flags_ok_def)
  then show ?thesis using assms(2) unfolding no_counted by blast
qed

section \<open>Rules\<close>

lemma rhs_flags_all:
  "rhs_flags g xs (a, b, c) = (a \<and> (\<forall>x \<in> set xs. xsy_is_nulling (t_xsys g ! x)), b \<and> (\<forall>x \<in> set xs. xsy_is_nullable (t_xsys g ! x)),
     c \<and> (\<forall>x \<in> set xs. xsy_is_productive (t_xsys g ! x)))"
  by (induction xs arbitrary: a b c) (auto simp: Let_def)

lemma sequence_flags_all:
  assumes "RHS_IDs_of_XRL r = [x]" "S = {x} \<union> (if 0 \<le> t_separator_id r then {nat (t_separator_id r)} else {})"
  shows "xrl_is_nullable (sequence_flags g r) \<longleftrightarrow> t_minimum r \<le> 0 \<or> xsy_is_nullable (t_xsys g ! x)"
    "xrl_is_nulling (sequence_flags g r) \<longleftrightarrow> (\<forall>s \<in> S. xsy_is_nulling (t_xsys g ! s))"
    "xrl_is_productive (sequence_flags g r) \<longleftrightarrow> t_minimum r \<le> 0 \<or> xsy_is_nullable (t_xsys g ! x) \<or> (\<forall>s \<in> S. xsy_is_productive (t_xsys g ! s))"
    "xrl_is_used (sequence_flags g r) \<longleftrightarrow> xrl_is_accessible r \<and> (\<forall>s \<in> S. xsy_is_productive (t_xsys g ! s)) \<and> \<not> (\<forall>s \<in> S. xsy_is_nulling (t_xsys g ! s))"
    "xrl_is_accessible (sequence_flags g r) = xrl_is_accessible r"
  using assms by (simp_all add: sequence_flags_def Let_def)

text \<open>The flags of a rule from the sets of symbols.\<close>

definition rule_flags_of :: "marpa_g \<Rightarrow> marpa_xrl \<Rightarrow> marpa_xrl \<Rightarrow> bool" where
  "rule_flags_of g r q \<longleftrightarrow> (xrl_is_accessible q \<longleftrightarrow> LHS_ID_of_XRL r \<in> accessible_of g)
     \<and> (xrl_is_nullable q \<longleftrightarrow> has_empty r \<or> set (RHS_IDs_of_XRL r) \<subseteq> nullable_of (t_xrls g))
     \<and> (xrl_is_nulling q \<longleftrightarrow> mentions r \<subseteq> nulling_of g)
     \<and> (xrl_is_productive q \<longleftrightarrow> has_empty r \<or> mentions r \<subseteq> productive_of g)
     \<and> (xrl_is_used q \<longleftrightarrow> xrl_is_accessible q \<and> mentions r \<subseteq> productive_of g \<and> \<not> xrl_is_nulling q)"

lemma productive_nullable: "nullable_of (t_xrls g) \<subseteq> productive_of g"
  by (auto simp: productive_of_def intro: rhs_closed.base)

lemma rule_flags_mean:
  assumes "rule_ok (length (t_xsys g)) r" "\<And>s. s < length (t_xsys g) \<Longrightarrow> symbol_flags_of g s (t_xsys gm ! s)"
    "t_is_sequence r \<longrightarrow> mentions r \<inter> nullable_of (t_xrls g) = {}"
  shows "rule_flags_of g r (rule_flags gm r)"
proof (cases "t_is_sequence r")
  case True
  then obtain x where x: "RHS_IDs_of_XRL r = [x]" using assms(1) by (auto simp: rule_ok_def length_Suc_conv)
  have n: "x < length (t_xsys g)" "LHS_ID_of_XRL r < length (t_xsys g)" "0 \<le> t_separator_id r \<Longrightarrow> nat (t_separator_id r) < length (t_xsys g)"
    using assms(1) x by (auto simp: rule_ok_def)
  have m: "mentions r = {x} \<union> (if 0 \<le> t_separator_id r then {nat (t_separator_id r)} else {})" "x \<notin> nullable_of (t_xrls g)"
    using True x assms(3) by (auto simp: mentions_def)
  then have "\<forall>s \<in> mentions r. s < length (t_xsys g)" using n(1,3) by auto
  then have f: "\<forall>s \<in> mentions r. (xsy_is_nulling (t_xsys gm ! s) \<longleftrightarrow> s \<in> nulling_of g)
      \<and> (xsy_is_productive (t_xsys gm ! s) \<longleftrightarrow> s \<in> productive_of g)" "\<not> xsy_is_nullable (t_xsys gm ! x)"
    "xsy_is_accessible (t_xsys gm ! LHS_ID_of_XRL r) \<longleftrightarrow> LHS_ID_of_XRL r \<in> accessible_of g"
    using n assms(2) m(2) by (auto simp: symbol_flags_of_def)
  let ?r = "r\<lparr>xrl_is_accessible := xsy_is_accessible (t_xsys gm ! LHS_ID_of_XRL r)\<rparr>"
  have q: "rule_flags gm r = sequence_flags gm ?r" using True by (simp add: rule_flags_def)
  have "RHS_IDs_of_XRL ?r = [x]" "mentions r = {x} \<union> (if 0 \<le> t_separator_id ?r then {nat (t_separator_id ?r)} else {})"
    using x m(1) by simp_all
  note s = sequence_flags_all [OF this, of gm]
  have all: "(\<forall>s \<in> mentions r. xsy_is_nulling (t_xsys gm ! s)) \<longleftrightarrow> mentions r \<subseteq> nulling_of g"
    "(\<forall>s \<in> mentions r. xsy_is_productive (t_xsys gm ! s)) \<longleftrightarrow> mentions r \<subseteq> productive_of g"
    using f(1) by blast+
  have e: "has_empty r \<longleftrightarrow> t_minimum r \<le> 0" using True x by (simp add: has_empty_def)
  have "xrl_is_accessible ?r \<longleftrightarrow> LHS_ID_of_XRL r \<in> accessible_of g" using f(3) by simp
  then show ?thesis unfolding rule_flags_of_def q s all e using f(2) m(2) x by simp
next
  case False
  have n: "\<forall>x \<in> set (RHS_IDs_of_XRL r). x < length (t_xsys g)" "LHS_ID_of_XRL r < length (t_xsys g)"
    using assms(1) by (auto simp: rule_ok_def)
  have f: "\<forall>x \<in> set (RHS_IDs_of_XRL r). (xsy_is_nulling (t_xsys gm ! x) \<longleftrightarrow> x \<in> nulling_of g)
      \<and> (xsy_is_nullable (t_xsys gm ! x) \<longleftrightarrow> x \<in> nullable_of (t_xrls g)) \<and> (xsy_is_productive (t_xsys gm ! x) \<longleftrightarrow> x \<in> productive_of g)"
    "xsy_is_accessible (t_xsys gm ! LHS_ID_of_XRL r) \<longleftrightarrow> LHS_ID_of_XRL r \<in> accessible_of g"
    using n assms(2) by (auto simp: symbol_flags_of_def)
  have all: "(\<forall>x \<in> set (RHS_IDs_of_XRL r). xsy_is_nulling (t_xsys gm ! x)) \<longleftrightarrow> mentions r \<subseteq> nulling_of g"
    "(\<forall>x \<in> set (RHS_IDs_of_XRL r). xsy_is_nullable (t_xsys gm ! x)) \<longleftrightarrow> set (RHS_IDs_of_XRL r) \<subseteq> nullable_of (t_xrls g)"
    "(\<forall>x \<in> set (RHS_IDs_of_XRL r). xsy_is_productive (t_xsys gm ! x)) \<longleftrightarrow> mentions r \<subseteq> productive_of g"
    using False f(1) unfolding mentions_def by auto
  have e: "has_empty r \<longleftrightarrow> RHS_IDs_of_XRL r = []" using False by (simp add: has_empty_def)
  have none: "RHS_IDs_of_XRL r = [] \<Longrightarrow> mentions r = {}" using False by (simp add: mentions_def)
  have q: "rule_flags gm r = bnf_flags gm (r\<lparr>xrl_is_accessible := xsy_is_accessible (t_xsys gm ! LHS_ID_of_XRL r)\<rparr>)"
    using False by (simp add: rule_flags_def)
  show ?thesis unfolding rule_flags_of_def q e bnf_flags_def using f(2) none by (auto simp: rhs_flags_all all)
qed

lemma rule_flags_loop: "rule_flags_of g r (q\<lparr>t_is_loop := b\<rparr>) = rule_flags_of g r q"
  by (simp add: rule_flags_of_def)

lemma success_rules:
  assumes g: "being_built g" "working g" "census_fits g" and run: "marpa_g_precompute_start g = Some (Inr g')"
  shows "length (t_xrls g') = length (t_xrls g)" "i < length (t_xrls g) \<Longrightarrow> rule_flags_of g (t_xrls g ! i) (t_xrls g' ! i)"
proof -
  from success_means [OF assms] obtain h ca where
    g': "g' = put_nulled h ca (cycle_result (loops_of (after_census g) (nullable_of (t_xrls g))) (after_census g))"
    "counted_nullables g = []" .
  have ok: "rules_ok g" using g(1) by (simp add: being_built_def grammar_ok_def)
  show "length (t_xrls g') = length (t_xrls g)" using g' by simp
  assume i: "i < length (t_xrls g)"
  let ?r = "t_xrls g ! i"
  have "?r \<in> set (t_xrls g)" using i by simp
  then have "rule_ok (length (t_xsys g)) ?r" using ok by (simp add: rules_ok_def)
  moreover have "symbol_flags_of g s (t_xsys (marked_nulling (census_input g)) ! s)" if "s < length (t_xsys g)" for s
    using marked_symbol [OF fresh_input [OF g(1)], of s] that by (simp add: flags_input)
  moreover have "t_is_sequence ?r \<longrightarrow> mentions ?r \<inter> nullable_of (t_xrls g) = {}"
    using items_not_nullable [OF ok g'(2) \<open>?r \<in> set (t_xrls g)\<close>] by blast
  ultimately have "rule_flags_of g ?r (rule_flags (marked_nulling (census_input g)) ?r)" by (rule rule_flags_mean)
  then show "rule_flags_of g (t_xrls g ! i) (t_xrls g' ! i)" using i unfolding g'(1) by (simp add: rule_flags_loop)
qed

end
