(* ===== verification/LoopMeaning.thy ===== *)
theory LoopMeaning
  imports CensusMeaning
begin

text \<open>
  The loop rules in terms of derivations: a rule is marked when its left hand side can derive itself, starting with that
  rule, unless the symbol derives nothing but the empty string.
\<close>

section \<open>Unit transitions and derivations\<close>

text \<open>The symbols that are nullable and from which no terminal is reached.\<close>

definition only_empty :: "marpa_g \<Rightarrow> nat set" where
  "only_empty g = nullable_of (t_xrls g) \<inter> nulling_of g"

text \<open>A rule of the grammar, and what has a transition to what, by the sets of symbols.\<close>

definition unit_of :: "marpa_g \<Rightarrow> nat list \<Rightarrow> nat set" where
  "unit_of g rhs = (let others = filter (\<lambda>x. x \<notin> nullable_of (t_xrls g)) rhs in
     if length others = 1 then set others
     else if others = [] then set rhs - nulling_of g
     else {})"

lemma unit_symbols_of:
  assumes "being_built g" "\<forall>x \<in> set rhs. x < length (t_xsys g)"
  shows "unit_symbols (after_census g) (nullable_of (t_xrls g)) rhs = unit_of g rhs"
proof -
  have "xsy_is_nulling (t_xsys (after_census g) ! x) \<longleftrightarrow> x \<in> nulling_of g" if "x \<in> set rhs" for x
    using marked_symbol [OF fresh_input [OF assms(1)], of x] that assms(2) by (simp add: flags_input symbol_flags_of_def)
  then show ?thesis by (auto simp: unit_symbols_def unit_of_def Let_def)
qed

text \<open>Where a nulling symbol can be found, everything that it derives is nulling.\<close>

lemma nulling_down:
  assumes "x \<in> nulling_of g" "(x, y) \<in> reach_of (t_xrls g)" "y \<in> lhs_of (t_xrls g)"
  shows "y \<in> nulling_of g"
  using assms by (auto simp: nulling_of_def quiet_def reach_of_def dest: trancl_trans)

lemma unit_of_split:
  assumes "c \<in> unit_of g w"
  obtains u v where "w = u @ c # v" "\<forall>x \<in> set (u @ v). x \<in> nullable_of (t_xrls g)" "c \<notin> only_empty g"
proof -
  let ?N = "nullable_of (t_xrls g)"
  let ?o = "filter (\<lambda>x. x \<notin> ?N) w"
  consider "?o = [c]" | "?o = []" "c \<in> set w" "c \<notin> nulling_of g"
    using assms by (auto simp: unit_of_def Let_def length_Suc_conv split: if_splits)
  then show thesis
  proof cases
    case 1
    then have "c \<in> set ?o" by simp
    then have "c \<in> set w" "c \<notin> ?N" by simp_all
    from split_list [OF this(1)] obtain u v where uv: "w = u @ c # v" by blast
    then have "filter (\<lambda>x. x \<notin> ?N) u = []" "filter (\<lambda>x. x \<notin> ?N) v = []"
      using 1 \<open>c \<notin> ?N\<close> by (auto simp: append_eq_Cons_conv)
    then have "\<forall>x \<in> set (u @ v). x \<in> ?N" by (auto simp: filter_empty_conv)
    then show thesis using that [OF uv] \<open>c \<notin> ?N\<close> by (simp add: only_empty_def)
  next
    case 2
    from split_list [OF 2(2)] obtain u v where "w = u @ c # v" by blast
    moreover have "\<forall>x \<in> set w. x \<in> ?N" using 2(1) by (auto simp: filter_empty_conv)
    ultimately show thesis using that [of u v] 2(3) by (simp add: only_empty_def)
  qed
qed

lemma unit_of_mid:
  assumes "\<forall>x \<in> set (u @ v). x \<in> nullable_of (t_xrls g)" "c \<in> nullable_of (t_xrls g) \<Longrightarrow> c \<notin> nulling_of g"
  shows "c \<in> unit_of g (u @ c # v)"
proof -
  have e: "filter (\<lambda>x. x \<notin> nullable_of (t_xrls g)) u = []" "filter (\<lambda>x. x \<notin> nullable_of (t_xrls g)) v = []"
    using assms(1) by (auto simp: filter_empty_conv)
  show ?thesis using assms(2) unfolding unit_of_def Let_def filter_append by (auto simp: e)
qed

text \<open>A grammar in which no item of a sequence is nullable; whether every sequence may have one item.\<close>

definition settled :: "marpa_g \<Rightarrow> bool" where
  "settled g \<longleftrightarrow> being_built g \<and> counted_nullables g = []"

definition short_sequences :: "marpa_g \<Rightarrow> bool" where
  "short_sequences g \<longleftrightarrow> (\<forall>r \<in> set (t_xrls g). t_is_sequence r \<longrightarrow> t_minimum r \<le> 1)"

lemma settled_rules:
  assumes "settled g"
  shows "\<forall>r \<in> set (t_xrls g). one_item r" "rules_ok g" "counted_nullables g = []"
  using assms built_rules by (auto simp: settled_def being_built_def grammar_ok_def)

lemma erased_iff:
  assumes "settled g"
  shows "derives (t_xrls g) u [] \<longleftrightarrow> (\<forall>x \<in> set u. x \<in> nullable_of (t_xrls g))"
proof
  note rules = settled_rules(1) [OF assms]
  show "derives (t_xrls g) u [] \<Longrightarrow> \<forall>x \<in> set u. x \<in> nullable_of (t_xrls g)"
    using derives_closed [OF rules, of u "[]" "{}"] by (auto simp: nullable_of_def)
  show "\<forall>x \<in> set u. x \<in> nullable_of (t_xrls g) \<Longrightarrow> derives (t_xrls g) u []"
    using derives_all [of u "{}" "t_xrls g"] nullable_derives [OF rules] by fastforce
qed

text \<open>An expansion all of whose symbols but one are nullable is the right hand side itself.\<close>

lemma unit_expansion:
  assumes g: "settled g" and r: "r \<in> set (t_xrls g)" "w \<in> expansions r" "w = u @ c # v"
    and e: "derives (t_xrls g) u []" "derives (t_xrls g) v []"
  shows "w = RHS_IDs_of_XRL r"
proof (cases "t_is_sequence r")
  case True
  note rules = settled_rules [OF g]
  obtain x where x: "RHS_IDs_of_XRL r = [x]" using one_itemE rules(1) r(1) True by blast
  have "set w \<subseteq> mentions r" using expansion_mentions r rules(1) by blast
  then have "set w \<inter> nullable_of (t_xrls g) = {}" using items_not_nullable [OF rules(2,3) r(1) True] by blast
  moreover have "set u \<subseteq> nullable_of (t_xrls g)" "set v \<subseteq> nullable_of (t_xrls g)" using e unfolding erased_iff [OF g] by auto
  moreover have "set u \<subseteq> set w" "set v \<subseteq> set w" using r(3) by auto
  ultimately have "\<forall>x \<in> set u \<union> set v. False" by fast
  then have "u = []" "v = []" by (cases u; cases v; simp)+
  then have c: "w = [c]" using r(3) by simp
  moreover have "needs r \<subseteq> set w" using expansion_needs r(1,2) rules(1) c by blast
  ultimately show ?thesis using x by (auto simp: needs_def)
qed (use r in \<open>simp add: expansions_def\<close>)

lemma rhs_expansion:
  assumes "settled g" "short_sequences g" "r \<in> set (t_xrls g)"
  shows "RHS_IDs_of_XRL r \<in> expansions r"
proof (cases "t_is_sequence r")
  case True
  then obtain x where x: "RHS_IDs_of_XRL r = [x]" using one_itemE settled_rules(1) [OF assms(1)] assms(3) by blast
  have "t_minimum r \<le> int 1" using assms True by (simp add: short_sequences_def)
  with True x show ?thesis unfolding expansions_def by (auto intro!: exI [of _ "1 :: nat"])
qed (simp add: expansions_def)

section \<open>Loops\<close>

text \<open>The transitions of the census.\<close>

definition rule_steps :: "marpa_g \<Rightarrow> (nat \<times> nat) set" where
  "rule_steps g = {(i, j). i < length (t_xrls g) \<and> j < length (t_xrls g)
     \<and> LHS_ID_of_XRL (t_xrls g ! j) \<in> unit_of g (RHS_IDs_of_XRL (t_xrls g ! i))}"

abbreviation lhs_at :: "marpa_g \<Rightarrow> nat \<Rightarrow> nat" where
  "lhs_at g i \<equiv> LHS_ID_of_XRL (t_xrls g ! i)"

lemma step_derives:
  assumes g: "settled g" "short_sequences g" and ij: "(i, j) \<in> rule_steps g"
  shows "\<exists>w \<in> expansions (t_xrls g ! i). derives (t_xrls g) w [lhs_at g j]" "lhs_at g j \<notin> only_empty g"
proof -
  have i: "t_xrls g ! i \<in> set (t_xrls g)" and c: "lhs_at g j \<in> unit_of g (RHS_IDs_of_XRL (t_xrls g ! i))"
    using ij by (auto simp: rule_steps_def)
  from unit_of_split [OF c] obtain u v where
    uv: "RHS_IDs_of_XRL (t_xrls g ! i) = u @ lhs_at g j # v" "\<forall>x \<in> set (u @ v). x \<in> nullable_of (t_xrls g)" "lhs_at g j \<notin> only_empty g" .
  then have e: "derives (t_xrls g) u []" "derives (t_xrls g) v []" by (simp_all add: erased_iff [OF g(1)])
  have "derives (t_xrls g) (u @ [lhs_at g j] @ v) ([] @ [lhs_at g j] @ [])"
    by (intro derives_append e rtranclp.rtrancl_refl)
  then have "derives (t_xrls g) (RHS_IDs_of_XRL (t_xrls g ! i)) [lhs_at g j]" using uv(1) by simp
  with rhs_expansion [OF g i] show "\<exists>w \<in> expansions (t_xrls g ! i). derives (t_xrls g) w [lhs_at g j]" by blast
  show "lhs_at g j \<notin> only_empty g" by fact
qed

lemma steps_derive:
  assumes g: "settled g" "short_sequences g" and ij: "(i, j) \<in> (rule_steps g)\<^sup>+"
  shows "(\<exists>w \<in> expansions (t_xrls g ! i). derives (t_xrls g) w [lhs_at g j]) \<and> lhs_at g j \<notin> only_empty g"
  using ij
proof (induction rule: trancl_induct)
  case (base j)
  with step_derives [OF g] show ?case by blast
next
  case (step j k)
  then obtain w where w: "w \<in> expansions (t_xrls g ! i)" "derives (t_xrls g) w [lhs_at g j]" by blast
  have "t_xrls g ! j \<in> set (t_xrls g)" using step(2) by (auto simp: rule_steps_def)
  moreover from step_derives [OF g step(2)] obtain v where v: "v \<in> expansions (t_xrls g ! j)" "derives (t_xrls g) v [lhs_at g k]" by blast
  ultimately have "derives (t_xrls g) [lhs_at g j] [lhs_at g k]" using derives_rule derives_trans by blast
  with w derives_trans step_derives(2) [OF g step(2)] show ?case by blast
qed

lemma first_step:
  assumes "derives_in rules n [c] [a]" "c \<noteq> a"
  obtains r w k where "n = Suc k" "r \<in> set rules" "LHS_ID_of_XRL r = c" "w \<in> expansions r" "derives_in rules k w [a]"
proof -
  from assms obtain k where k: "n = Suc k" by (cases n) auto
  with assms(1) obtain v where "derives1 rules [c] v" "derives_in rules k v [a]" by (metis relpowp_Suc_D2)
  with that k show thesis by (auto elim!: derives1E simp: Cons_eq_append_conv)
qed

lemma transition:
  assumes g: "settled g" and a: "a \<notin> only_empty g" "a \<in> lhs_of (t_xrls g)" and r: "r \<in> set (t_xrls g)" "derives (t_xrls g) [a] [LHS_ID_of_XRL r]"
    and w: "w \<in> expansions r" "derives_in (t_xrls g) k w [a]"
  obtains d i where "i \<le> k" "d \<in> unit_of g (RHS_IDs_of_XRL r)" "derives_in (t_xrls g) i [d] [a]" "derives (t_xrls g) [a] [d]"
proof -
  note rules = settled_rules(1) [OF g]
  from derives_one [OF w(2)] obtain u d v i where
    d: "w = u @ d # v" "i \<le> k" "derives (t_xrls g) u []" "derives (t_xrls g) v []" "derives_in (t_xrls g) i [d] [a]" by blast
  have "derives (t_xrls g) (u @ [d] @ v) ([] @ [d] @ [])"
    by (intro derives_append d(3,4) rtranclp.rtrancl_refl)
  then have "derives (t_xrls g) w [d]" using d(1) by simp
  then have ad: "derives (t_xrls g) [a] [d]" using derives_trans r(2) derives_rule [OF r(1) w(1)] by blast
  have "d \<notin> nulling_of g" if "d \<in> nullable_of (t_xrls g)"
  proof
    assume n: "d \<in> nulling_of g"
    have "derives (t_xrls g) [d] []" using that nullable_derives [OF rules] by blast
    then have "a \<in> nullable_of (t_xrls g)" using derives_trans [OF ad] nullable_derives [OF rules] by blast
    with a(1) have "a \<notin> nulling_of g" by (simp add: only_empty_def)
    moreover have "derives (t_xrls g) [d] [a]" using d(5) by (rule relpowp_imp_rtranclp)
    then have "a = d \<or> (d, a) \<in> reach_of (t_xrls g)"
      unfolding reach_of_def reach_or_same [OF rules] by (intro exI [of _ "[a]"]) simp
    ultimately show False using nulling_down [OF n _ a(2)] n by blast
  qed
  then have "d \<in> unit_of g w"
    unfolding d(1) using d(3,4) erased_iff [OF g] by (intro unit_of_mid) auto
  then have "d \<in> unit_of g (RHS_IDs_of_XRL r)" using unit_expansion [OF g r(1) w(1) d(1,3,4)] by simp
  with that d(2,5) ad show thesis by blast
qed

lemma chain:
  assumes g: "settled g" and j: "j < length (t_xrls g)" "lhs_at g j = a" and a: "a \<notin> only_empty g"
  shows "derives_in (t_xrls g) n [c] [a] \<Longrightarrow> derives (t_xrls g) [a] [c] \<Longrightarrow> c \<noteq> a
    \<Longrightarrow> \<exists>i < length (t_xrls g). lhs_at g i = c \<and> (i, j) \<in> (rule_steps g)\<^sup>+"
proof (induction n arbitrary: c rule: less_induct)
  case (less n)
  have al: "a \<in> lhs_of (t_xrls g)" using j by (auto simp: lhs_of_def)
  from first_step [OF less.prems(1,3)] obtain r w k where
    r: "n = Suc k" "r \<in> set (t_xrls g)" "LHS_ID_of_XRL r = c" "w \<in> expansions r" "derives_in (t_xrls g) k w [a]" .
  from transition [OF g a al r(2) _ r(4,5)] less.prems(2) r(3) obtain d m where
    d: "m \<le> k" "d \<in> unit_of g (RHS_IDs_of_XRL r)" "derives_in (t_xrls g) m [d] [a]" "derives (t_xrls g) [a] [d]" by blast
  from r(2) obtain i where i: "i < length (t_xrls g)" "t_xrls g ! i = r" by (auto simp: in_set_conv_nth)
  show ?case
  proof (cases "d = a")
    case True
    then have "(i, j) \<in> rule_steps g" using i j d(2) by (simp add: rule_steps_def)
    then show ?thesis using i r(3) by auto
  next
    case False
    have "m < n" using d(1) r(1) by simp
    from less.IH [OF this d(3,4) False] obtain i' where i': "i' < length (t_xrls g)" "lhs_at g i' = d" "(i', j) \<in> (rule_steps g)\<^sup>+" by blast
    then have "(i, i') \<in> rule_steps g" using i d(2) by (simp add: rule_steps_def)
    then have "(i, j) \<in> (rule_steps g)\<^sup>+" using i'(3) by (rule trancl_into_trancl2)
    then show ?thesis using i r(3) by auto
  qed
qed

text \<open>A rule is in a cycle of transitions exactly when it starts a derivation of its left hand side from itself.\<close>

definition self_deriving :: "marpa_g \<Rightarrow> marpa_xrl \<Rightarrow> bool" where
  "self_deriving g r \<longleftrightarrow> (\<exists>w \<in> expansions r. derives (t_xrls g) w [LHS_ID_of_XRL r])"

lemma cycle_iff:
  assumes g: "settled g" and sq: "short_sequences g" and i: "i < length (t_xrls g)"
  shows "(i, i) \<in> (rule_steps g)\<^sup>+ \<longleftrightarrow> self_deriving g (t_xrls g ! i) \<and> lhs_at g i \<notin> only_empty g"
proof
  show "(i, i) \<in> (rule_steps g)\<^sup>+ \<Longrightarrow> self_deriving g (t_xrls g ! i) \<and> lhs_at g i \<notin> only_empty g"
    using steps_derive [OF g sq, of i i] by (simp add: self_deriving_def)
next
  assume s: "self_deriving g (t_xrls g ! i) \<and> lhs_at g i \<notin> only_empty g"
  let ?a = "lhs_at g i"
  obtain w n where w: "w \<in> expansions (t_xrls g ! i)" "derives_in (t_xrls g) n w [?a]"
    using s rtranclp_imp_relpowp by (fastforce simp: self_deriving_def)
  have "?a \<in> lhs_of (t_xrls g)" "t_xrls g ! i \<in> set (t_xrls g)" using i by (auto simp: lhs_of_def)
  from transition [OF g _ this(1,2) rtranclp.rtrancl_refl w] s obtain d m where
    d: "d \<in> unit_of g (RHS_IDs_of_XRL (t_xrls g ! i))" "derives_in (t_xrls g) m [d] [?a]" "derives (t_xrls g) [?a] [d]" by blast
  show "(i, i) \<in> (rule_steps g)\<^sup>+"
  proof (cases "d = ?a")
    case True
    then have "(i, i) \<in> rule_steps g" using i d(1) by (simp add: rule_steps_def)
    then show ?thesis by auto
  next
    case False
    from chain [OF g i refl _ d(2,3) False] s obtain j where
      j: "j < length (t_xrls g)" "lhs_at g j = d" "(j, i) \<in> (rule_steps g)\<^sup>+" by blast
    then have "(i, j) \<in> rule_steps g" using i d(1) by (simp add: rule_steps_def)
    then show ?thesis using j(3) by (rule trancl_into_trancl2)
  qed
qed

section \<open>The loops of a precomputed grammar\<close>

lemma loops_steps:
  assumes "settled g"
  shows "loops_of (after_census g) (nullable_of (t_xrls g)) = {i. (i, i) \<in> (rule_steps g)\<^sup>+}"
proof -
  have b: "being_built g" "rules_ok g" using assms settled_rules(2) by (simp_all add: settled_def)
  have "\<forall>x \<in> set (RHS_IDs_of_XRL (t_xrls g ! i)). x < length (t_xsys g)" if "i < length (t_xrls g)" for i
    using b(2) nth_mem [OF that] unfolding rules_ok_def rule_ok_def by blast
  then have "unit_rel (after_census g) (nullable_of (t_xrls g)) (length (t_xrls g)) = rule_steps g"
    using unit_symbols_of [OF b(1)] by (auto simp: unit_rel_def rule_steps_def)
  then show ?thesis by (simp add: loops_of_def)
qed

lemma success_loops:
  assumes g: "being_built g" "working g" "census_fits g" and run: "marpa_g_precompute_start g = Some (Inr g')"
    and one: "short_sequences g"
    and i: "i < length (t_xrls g)"
  shows "t_is_loop (t_xrls g' ! i) \<longleftrightarrow> self_deriving g (t_xrls g ! i) \<and> lhs_at g i \<notin> only_empty g"
proof -
  from success_means [OF g run] obtain h ca where
    g': "g' = put_nulled h ca (cycle_result (loops_of (after_census g) (nullable_of (t_xrls g))) (after_census g))"
    "counted_nullables g = []" .
  then have s: "settled g" using g one by (simp add: settled_def)
  have "\<not> t_is_loop (t_xrls g ! i)" using settled_rules(2) [OF s] i by (simp add: rules_ok_def rule_ok_def)
  then show ?thesis using i unfolding g'(1) loops_steps [OF s] by (simp add: cycle_iff [OF s one])
qed

end
