(* ===== verification/NulledMeaning.thy ===== *)
theory NulledMeaning
  imports LoopMeaning
begin

text \<open>
  The lists of nulled symbols in terms of derivations, the errors of the first part of \<open>marpa_g_precompute\<close>
  as a function of the grammar, and when it succeeds.
\<close>

section \<open>Nulled symbols\<close>

text \<open>The symbols of the forms that \<open>s\<close> derives and that derive the empty string.\<close>

definition nulled_with :: "marpa_g \<Rightarrow> nat \<Rightarrow> nat set" where
  "nulled_with g s = {y. \<exists>w. derives (t_xrls g) [s] w \<and> y \<in> set w \<and> derives (t_xrls g) w []}"

text \<open>The items of the sequences that may be empty.\<close>

definition empty_items :: "marpa_g \<Rightarrow> (nat \<times> nat) set" where
  "empty_items g = {(LHS_ID_of_XRL r, y) | r y. r \<in> set (t_xrls g) \<and> t_is_sequence r \<and> t_minimum r \<le> 0 \<and> y \<in> set (RHS_IDs_of_XRL r)}"

definition null_steps :: "marpa_g \<Rightarrow> (nat \<times> nat) set" where
  "null_steps g = {(s, s) | s. s < length (t_xsys g) \<and> s \<in> nullable_of (t_xrls g)}
     \<union> {(LHS_ID_of_XRL r, x) | r x. r \<in> set (t_xrls g) \<and> (has_empty r \<or> set (RHS_IDs_of_XRL r) \<subseteq> nullable_of (t_xrls g))
          \<and> x \<in> set (RHS_IDs_of_XRL r)}"

lemma lhs_nullable:
  assumes "\<forall>q \<in> set rules. one_item q" "r \<in> set rules" "has_empty r \<or> set (RHS_IDs_of_XRL r) \<subseteq> nullable_of rules" "\<not> t_is_sequence r \<or> has_empty r"
  shows "LHS_ID_of_XRL r \<in> nullable_of rules"
proof (cases "has_empty r")
  case True
  with assms(2) have "LHS_ID_of_XRL r \<in> empty_lhs rules" by (auto simp: empty_lhs_def)
  then show ?thesis by (simp add: nullable_of_def rhs_closed.base)
next
  case False
  then have "RHS_IDs_of_XRL r \<noteq> []" "needs r = set (RHS_IDs_of_XRL r)" using assms(4) by (auto simp: has_empty_def needs_def)
  with assms(2,3) False show ?thesis by (auto simp: nullable_of_def intro: rhs_closed.step)
qed

lemma null_steps_nullable:
  assumes g: "settled g" and yz: "(y, z) \<in> null_steps g"
  shows "y \<in> nullable_of (t_xrls g)"
    and "y = z \<or> (y, z) \<in> empty_items g \<or> (\<exists>r \<in> set (t_xrls g). \<not> t_is_sequence r \<and> y = LHS_ID_of_XRL r
      \<and> z \<in> set (RHS_IDs_of_XRL r) \<and> set (RHS_IDs_of_XRL r) \<subseteq> nullable_of (t_xrls g))"
proof -
  note rules = settled_rules [OF g]
  consider "y = z" "y \<in> nullable_of (t_xrls g)"
    | r where "r \<in> set (t_xrls g)" "has_empty r \<or> set (RHS_IDs_of_XRL r) \<subseteq> nullable_of (t_xrls g)" "y = LHS_ID_of_XRL r" "z \<in> set (RHS_IDs_of_XRL r)"
    using yz by (auto simp: null_steps_def)
  then have "y \<in> nullable_of (t_xrls g) \<and> (y = z \<or> (y, z) \<in> empty_items g \<or> (\<exists>r \<in> set (t_xrls g). \<not> t_is_sequence r \<and> y = LHS_ID_of_XRL r
      \<and> z \<in> set (RHS_IDs_of_XRL r) \<and> set (RHS_IDs_of_XRL r) \<subseteq> nullable_of (t_xrls g)))"
  proof cases
    case 2
    show ?thesis
    proof (cases "t_is_sequence r")
      case True
      have "z \<notin> nullable_of (t_xrls g)"
        using items_not_nullable [OF rules(2,3) 2(1) True, of z] 2(4) by (simp add: mentions_def)
      then have "has_empty r" using 2(2,4) by auto
      moreover have "RHS_IDs_of_XRL r \<noteq> []" using 2(4) by auto
      ultimately have "t_minimum r \<le> 0" by (simp add: has_empty_def)
      then have "(y, z) \<in> empty_items g" using 2 True by (auto simp: empty_items_def)
      moreover have "y \<in> nullable_of (t_xrls g)" using lhs_nullable [OF rules(1) 2(1,2)] \<open>has_empty r\<close> 2(3) by simp
      ultimately show ?thesis by simp
    next
      case False
      have "\<not> has_empty r" using False 2(4) by (auto simp: has_empty_def)
      moreover have "y \<in> nullable_of (t_xrls g)" using lhs_nullable [OF rules(1) 2(1,2)] False 2(3) by simp
      ultimately show ?thesis using 2 False by auto
    qed
  qed auto
  then show "y \<in> nullable_of (t_xrls g)"
    and "y = z \<or> (y, z) \<in> empty_items g \<or> (\<exists>r \<in> set (t_xrls g). \<not> t_is_sequence r \<and> y = LHS_ID_of_XRL r
      \<and> z \<in> set (RHS_IDs_of_XRL r) \<and> set (RHS_IDs_of_XRL r) \<subseteq> nullable_of (t_xrls g))" by auto
qed

text \<open>Every symbol of a form that is erased is reached.\<close>

lemma erased_reached:
  assumes g: "settled g" and s: "s < length (t_xsys g)"
  shows "derives (t_xrls g) [s] w \<Longrightarrow> derives (t_xrls g) w [] \<Longrightarrow> \<forall>y \<in> set w. (s, y) \<in> (null_steps g)\<^sup>+"
proof (induction rule: rtranclp_induct)
  case base
  then have "s \<in> nullable_of (t_xrls g)" using nullable_derives settled_rules(1) [OF g] by blast
  then have "(s, s) \<in> null_steps g" using s by (simp add: null_steps_def)
  then show ?case by auto
next
  case (step v w)
  note rules = settled_rules [OF g]
  have "derives (t_xrls g) v []" using step(2,4) by (rule converse_rtranclp_into_rtranclp)
  with step.IH have v: "\<forall>y \<in> set v. (s, y) \<in> (null_steps g)\<^sup>+" by blast
  obtain r x a b where r: "v = a @ LHS_ID_of_XRL r # b" "w = a @ x @ b" "r \<in> set (t_xrls g)" "x \<in> expansions r"
    using step(2) by (auto elim: derives1E)
  have x: "set x \<subseteq> nullable_of (t_xrls g)" using step(4) r(2) unfolding erased_iff [OF g] by auto
  have "(s, y) \<in> (null_steps g)\<^sup>+" if "y \<in> set x" for y
  proof -
    have "\<not> t_is_sequence r"
    proof
      assume "t_is_sequence r"
      then have "y \<notin> nullable_of (t_xrls g)"
        using items_not_nullable [OF rules(2,3) r(3)] expansion_mentions [OF _ r(4)] rules(1) r(3) that by blast
      with x that show False by blast
    qed
    then have "x = RHS_IDs_of_XRL r" using r(4) by (simp add: expansions_def)
    then have "(LHS_ID_of_XRL r, y) \<in> null_steps g" using r(3) x that by (auto simp: null_steps_def)
    moreover have "(s, LHS_ID_of_XRL r) \<in> (null_steps g)\<^sup>+" using v r(1) by simp
    ultimately show ?thesis by (rule trancl_into_trancl [rotated])
  qed
  then show ?case using v r(1,2) by auto
qed

lemma erase_inside:
  assumes g: "settled g" and w: "derives (t_xrls g) [s] w" "y \<in> set w" "derives (t_xrls g) w []"
    and r: "r \<in> set (t_xrls g)" "\<not> t_is_sequence r" "y = LHS_ID_of_XRL r" "z \<in> set (RHS_IDs_of_XRL r)" "set (RHS_IDs_of_XRL r) \<subseteq> nullable_of (t_xrls g)"
  shows "z \<in> nulled_with g s"
proof -
  from w(2) obtain a b where ab: "w = a @ y # b" by (auto simp: in_set_conv_decomp)
  have "RHS_IDs_of_XRL r \<in> expansions r" using r(2) by (simp add: expansions_def)
  from derives_context [OF derives_rule [OF r(1) this], of a b] have "derives (t_xrls g) w (a @ RHS_IDs_of_XRL r @ b)"
    using ab r(3) by simp
  then have "derives (t_xrls g) [s] (a @ RHS_IDs_of_XRL r @ b)" using derives_trans w(1) by blast
  moreover have "derives (t_xrls g) (a @ RHS_IDs_of_XRL r @ b) []"
    using w(3) r(5) unfolding erased_iff [OF g] ab by auto
  ultimately show ?thesis using r(4) unfolding nulled_with_def by (intro CollectI exI conjI) auto
qed

lemma reached_nulled:
  assumes g: "settled g"
  shows "(s, y) \<in> (null_steps g)\<^sup>+ \<Longrightarrow> y \<in> nulled_with g s \<or> (\<exists>x \<in> nulled_with g s. (x, y) \<in> empty_items g)"
proof (induction rule: trancl_induct)
  case (base y)
  note n = null_steps_nullable [OF g base]
  have e: "derives (t_xrls g) [s] []" using n(1) nullable_derives settled_rules(1) [OF g] by blast
  then have s: "s \<in> nulled_with g s" by (auto simp: nulled_with_def intro!: exI [of _ "[s]"])
  from n(2) consider "s = y" | "(s, y) \<in> empty_items g" | r where "r \<in> set (t_xrls g)" "\<not> t_is_sequence r" "s = LHS_ID_of_XRL r"
      "y \<in> set (RHS_IDs_of_XRL r)" "set (RHS_IDs_of_XRL r) \<subseteq> nullable_of (t_xrls g)" by blast
  then show ?case
  proof cases
    case 3
    with erase_inside [OF g rtranclp.rtrancl_refl _ e, of s r y] show ?thesis by simp
  qed (use s in auto)
next
  case (step y z)
  note n = null_steps_nullable [OF g step(2)]
  have "\<not> (x, y) \<in> empty_items g" for x
    using items_not_nullable settled_rules(2,3) [OF g] n(1) by (auto simp: empty_items_def mentions_def)
  with step.IH obtain w where w: "derives (t_xrls g) [s] w" "y \<in> set w" "derives (t_xrls g) w []" by (auto simp: nulled_with_def)
  then have y: "y \<in> nulled_with g s" by (auto simp: nulled_with_def)
  from n(2) consider "y = z" | "(y, z) \<in> empty_items g" | r where "r \<in> set (t_xrls g)" "\<not> t_is_sequence r" "y = LHS_ID_of_XRL r"
      "z \<in> set (RHS_IDs_of_XRL r)" "set (RHS_IDs_of_XRL r) \<subseteq> nullable_of (t_xrls g)" by blast
  then show ?case
  proof cases
    case 3
    with erase_inside [OF g w] show ?thesis by blast
  qed (use y in auto)
qed

text \<open>What the list of a symbol holds.\<close>

lemma nulled_iff:
  assumes g: "settled g" and s: "s < length (t_xsys g)"
  shows "(null_steps g)\<^sup>+ `` {s} = nulled_with g s \<union> empty_items g `` nulled_with g s"
proof (intro equalityI subsetI)
  fix y assume "y \<in> (null_steps g)\<^sup>+ `` {s}"
  then show "y \<in> nulled_with g s \<union> empty_items g `` nulled_with g s" using reached_nulled [OF g, of s y] by auto
next
  have r: "x \<in> nulled_with g s \<Longrightarrow> (s, x) \<in> (null_steps g)\<^sup>+" for x
    using erased_reached [OF g s] by (auto simp: nulled_with_def)
  fix y assume "y \<in> nulled_with g s \<union> empty_items g `` nulled_with g s"
  then consider "y \<in> nulled_with g s" | x where "x \<in> nulled_with g s" "(x, y) \<in> empty_items g" by blast
  then show "y \<in> (null_steps g)\<^sup>+ `` {s}"
  proof cases
    case 2
    then have "(x, y) \<in> null_steps g" by (auto simp: empty_items_def null_steps_def has_empty_def)
    with r [OF 2(1)] show ?thesis by auto
  qed (use r in auto)
qed

lemma nullification_steps:
  assumes "settled g"
  shows "nullification_rel (after_census g) = null_steps g"
proof -
  have b: "being_built g" "rules_ok g" "counted_nullables g = []" using assms settled_rules(2) by (simp_all add: settled_def)
  have s: "symbol_flags_of g x (t_xsys (marked_nulling (census_input g)) ! x)" if "x < length (t_xsys g)" for x
    using marked_symbol [OF fresh_input [OF b(1)], of x] that by (simp add: flags_input)
  then have 1: "xsy_is_nullable (t_xsys (after_census g) ! x) \<longleftrightarrow> x \<in> nullable_of (t_xrls g)" if "x < length (t_xsys g)" for x
    using that by (simp add: symbol_flags_of_def)
  have 2: "xrl_is_nullable (rule_flags (marked_nulling (census_input g)) r) \<longleftrightarrow> has_empty r \<or> set (RHS_IDs_of_XRL r) \<subseteq> nullable_of (t_xrls g)"
    if "r \<in> set (t_xrls g)" for r
  proof -
    have "rule_ok (length (t_xsys g)) r" using b(2) that by (simp add: rules_ok_def)
    moreover have "t_is_sequence r \<longrightarrow> mentions r \<inter> nullable_of (t_xrls g) = {}"
      using items_not_nullable [OF b(2,3) that] by blast
    ultimately have "rule_flags_of g r (rule_flags (marked_nulling (census_input g)) r)" using s by (intro rule_flags_mean)
    then show ?thesis by (simp add: rule_flags_of_def)
  qed
  have "{(s, s) | s. s < length (t_xsys (after_census g)) \<and> xsy_is_nullable (t_xsys (after_census g) ! s)}
      = {(s, s) | s. s < length (t_xsys g) \<and> s \<in> nullable_of (t_xrls g)}" using 1 by auto
  moreover define F where "F = (\<lambda>r :: marpa_xrl. if xrl_is_nullable r then {LHS_ID_of_XRL r} \<times> set (RHS_IDs_of_XRL r) else {})"
  have "{(LHS_ID_of_XRL r, x) | r x. r \<in> set (t_xrls (after_census g)) \<and> xrl_is_nullable r \<and> x \<in> set (RHS_IDs_of_XRL r)}
      = (\<Union>r \<in> set (t_xrls (after_census g)). F r)" by (auto simp: F_def split: if_split_asm)
  moreover have "\<dots> = (\<Union>r \<in> set (t_xrls g). if has_empty r \<or> set (RHS_IDs_of_XRL r) \<subseteq> nullable_of (t_xrls g)
      then {LHS_ID_of_XRL r} \<times> set (RHS_IDs_of_XRL r) else {})"
    unfolding after_census_simps set_map image_image by (rule SUP_cong) (simp_all add: F_def 2)
  moreover have "\<dots> = {(LHS_ID_of_XRL r, x) | r x. r \<in> set (t_xrls g) \<and> (has_empty r \<or> set (RHS_IDs_of_XRL r) \<subseteq> nullable_of (t_xrls g))
          \<and> x \<in> set (RHS_IDs_of_XRL r)}" by (auto split: if_split_asm)
  ultimately show ?thesis unfolding nullification_rel_def null_steps_def by simp
qed

end
