(* ===== verification/GrammarLife.thy ===== *)
theory GrammarLife
  imports GrammarProps
begin

text \<open>
  The life of a grammar before its precomputation: every sequence of calls that add symbols and rules or change
  settings has a defined result and keeps the invariant, whatever its arguments, as long as the arrays that are passed
  have the length that is given with them. What was stored for a rule is what the accessors read back.
\<close>

section \<open>Calls\<close>

datatype grammar_call =
    Symbol_new
  | Rule_new int "int list" int
  | Sequence_new int int int int int
  | Start_symbol_set int
  | Symbol_is_terminal_set int int
  | Default_rank_set int
  | Symbol_rank_set int int
  | Rule_rank_set int int
  | Rule_null_high_set int int
  | Force_valued
  | Symbol_is_valued_set int int
  | Symbol_is_completion_event_set int int
  | Symbol_is_nulled_event_set int int
  | Symbol_is_prediction_event_set int int
  | Zwa_new int
  | Zwa_place int int int
  | Error_clear

fun grammar_step :: "grammar_call \<Rightarrow> marpa_g \<Rightarrow> (int \<times> marpa_g) option" where
  "grammar_step Symbol_new g = Some (marpa_g_symbol_new g)"
| "grammar_step (Rule_new lhs rhs n) g = marpa_g_rule_new g lhs rhs n"
| "grammar_step (Sequence_new lhs rhs separator mn flags) g = Some (marpa_g_sequence_new g lhs rhs separator mn flags)"
| "grammar_step (Start_symbol_set s) g = Some (marpa_g_start_symbol_set g s)"
| "grammar_step (Symbol_is_terminal_set s val) g = Some (marpa_g_symbol_is_terminal_set g s val)"
| "grammar_step (Default_rank_set rank) g = Some (marpa_g_default_rank_set g rank)"
| "grammar_step (Symbol_rank_set s rank) g = Some (marpa_g_symbol_rank_set g s rank)"
| "grammar_step (Rule_rank_set r rank) g = Some (marpa_g_rule_rank_set g r rank)"
| "grammar_step (Rule_null_high_set r flag) g = Some (marpa_g_rule_null_high_set g r flag)"
| "grammar_step Force_valued g = Some (marpa_g_force_valued g)"
| "grammar_step (Symbol_is_valued_set s val) g = Some (marpa_g_symbol_is_valued_set g s val)"
| "grammar_step (Symbol_is_completion_event_set s val) g = Some (marpa_g_symbol_is_completion_event_set g s val)"
| "grammar_step (Symbol_is_nulled_event_set s val) g = Some (marpa_g_symbol_is_nulled_event_set g s val)"
| "grammar_step (Symbol_is_prediction_event_set s val) g = Some (marpa_g_symbol_is_prediction_event_set g s val)"
| "grammar_step (Zwa_new val) g = Some (marpa_g_zwa_new g val)"
| "grammar_step (Zwa_place zwa r ix) g = marpa_g_zwa_place g zwa r ix"
| "grammar_step Error_clear g = Some (marpa_g_error_clear g)"

fun grammar_steps :: "grammar_call list \<Rightarrow> marpa_g \<Rightarrow> marpa_g option" where
  "grammar_steps [] g = Some g"
| "grammar_steps (c # cs) g = do { (n, g1) \<leftarrow> grammar_step c g; grammar_steps cs g1 }"

text \<open>The array of a rule has as many entries as its length says.\<close>

fun call_ok :: "grammar_call \<Rightarrow> bool" where
  "call_ok (Rule_new lhs rhs n) = (0 \<le> n \<and> n \<le> int (length rhs))"
| "call_ok c = True"

section \<open>Updates\<close>

lemma built_symbol:
  assumes g: "being_built g"
    and f: "\<And>x. xsy_is_lhs (f x) = xsy_is_lhs x \<and> xsy_is_sequence_lhs (f x) = xsy_is_sequence_lhs x \<and> xsy_is_counted (f x) = xsy_is_counted x"
      "\<And>x. fresh_xsy x \<Longrightarrow> fresh_xsy (f x)"
  shows "being_built (xsy_update i f g)"
proof -
  have "rules_ok (xsy_update i f g)"
    using g f(1) by (simp add: being_built_def grammar_ok_def rules_ok_def xsy_update_nth flags_ok_def)
  moreover have "all_fresh (xsy_update i f g)" using g f(2) by (intro all_fresh_update) (simp_all add: being_built_def)
  ultimately show ?thesis using g by (simp add: being_built_def grammar_ok_def tree_ok_def)
qed

definition rule_shape :: "marpa_xrl \<Rightarrow> int \<times> bool \<times> nat \<times> nat list \<times> int \<times> bool \<times> bool" where
  "rule_shape r = (t_id r, t_is_sequence r, LHS_ID_of_XRL r, RHS_IDs_of_XRL r, t_separator_id r, t_is_bnf r, t_is_loop r)"

text \<open>A rule changed in other parts.\<close>

lemma shape_nth: "(\<And>r. rule_shape (f r) = rule_shape r) \<Longrightarrow> j < length (t_xrls g) \<Longrightarrow> rule_shape (t_xrls (xrl_update i f g) ! j) = rule_shape (t_xrls g ! j)"
  by (cases "i < length (t_xrls g)") (auto simp: xrl_update_def nth_list_update list_update_beyond)

lemma ball_nth: "(\<forall>x \<in> set xs. P x) \<longleftrightarrow> (\<forall>i < length xs. P (xs ! i))"
  by (metis in_set_conv_nth)

lemma bex_nth: "(\<exists>x \<in> set xs. P x) \<longleftrightarrow> (\<exists>i < length xs. P (xs ! i))"
  by (metis in_set_conv_nth)

lemma built_rule:
  assumes g: "being_built g" and f: "\<And>r. rule_shape (f r) = rule_shape r"
  shows "being_built (xrl_update i f g)"
proof -
  let ?g = "xrl_update i f g" and ?k = "length (t_xrls g)"
  have s: "rule_shape (t_xrls ?g ! j) = rule_shape (t_xrls g ! j)" if "j < ?k" for j using shape_nth [OF f that] .
  have e: "t_id (t_xrls ?g ! j) = t_id (t_xrls g ! j)" "t_is_sequence (t_xrls ?g ! j) = t_is_sequence (t_xrls g ! j)"
    "LHS_ID_of_XRL (t_xrls ?g ! j) = LHS_ID_of_XRL (t_xrls g ! j)" "RHS_IDs_of_XRL (t_xrls ?g ! j) = RHS_IDs_of_XRL (t_xrls g ! j)"
    "t_separator_id (t_xrls ?g ! j) = t_separator_id (t_xrls g ! j)" "t_is_bnf (t_xrls ?g ! j) = t_is_bnf (t_xrls g ! j)"
    "t_is_loop (t_xrls ?g ! j) = t_is_loop (t_xrls g ! j)" if "j < ?k" for j
    using s [OF that] by (simp_all add: rule_shape_def)
  have "map (\<lambda>r. 1 + length (RHS_IDs_of_XRL r)) (t_xrls ?g) = map (\<lambda>r. 1 + length (RHS_IDs_of_XRL r)) (t_xrls g)"
    by (rule nth_equalityI) (simp_all add: e)
  then have size: "(\<Sum>r \<leftarrow> t_xrls ?g. 1 + length (RHS_IDs_of_XRL r)) = (\<Sum>r \<leftarrow> t_xrls g. 1 + length (RHS_IDs_of_XRL r))" by simp
  have ok: "rules_ok g" using g by (simp add: being_built_def grammar_ok_def)
  have "rules_ok ?g"
    unfolding rules_ok_def size
  proof (intro conjI)
    show "\<forall>r \<in> set (t_xrls ?g). rule_ok (length (t_xsys ?g)) r"
      using ok unfolding rules_ok_def ball_nth by (simp add: e rule_ok_def bnf_rule_def)
    show "\<forall>s < length (t_xsys ?g). flags_ok (t_xrls ?g) s (t_xsys ?g ! s)"
      using ok unfolding rules_ok_def flags_ok_def bex_nth by (simp add: e counts_def cong: conj_cong)
    show "\<forall>i < length (t_xrls ?g). t_id (t_xrls ?g ! i) = int i \<and> (\<forall>j < i. \<not> clash (t_xrls ?g ! i) (t_xrls ?g ! j))"
      using ok unfolding rules_ok_def by (simp add: e clash_def)
    show "\<forall>r \<in> set (t_xrls ?g). length (RHS_IDs_of_XRL r) \<le> t_max_rule_length ?g"
      using ok unfolding rules_ok_def ball_nth by (simp add: e)
  qed (use ok in \<open>simp_all add: rules_ok_def\<close>)
  moreover have "bnf_items (t_xrls ?g) = bnf_items (t_xrls g)"
    unfolding bnf_items_def bnf_rule_def by (rule image_cong) (auto simp: e)
  then have "tree_ok ?g" using g by (simp add: being_built_def grammar_ok_def tree_ok_def)
  ultimately show ?thesis using g by (simp add: being_built_def grammar_ok_def)
qed

section \<open>Rules\<close>

lemma working_simps [simp]:
  "working (MARPA_G_ERROR e g) = working g" "working (xsy_update i f g) = working g" "working (xrl_update i h g) = working g"
  "working (g\<lparr>t_start_xsy_id := s\<rparr>) = working g" "working (g\<lparr>t_xsys := xs\<rparr>) = working g" "working (g\<lparr>t_default_rank := n\<rparr>) = working g"
  "working (g\<lparr>t_force_valued := b\<rparr>) = working g" "working (g\<lparr>t_gzwas := zs\<rparr>) = working g" "working (g\<lparr>g_error := n\<rparr>) = working g"
  "working (g\<lparr>t_error_string := t\<rparr>) = working g" "working (g\<lparr>t_zwps := k\<rparr>) = working g" "working (g\<lparr>t_zwp_tree := T\<rparr>) = working g"
  by (simp_all add: working_def)

text \<open>The rules that are there stay, with their symbols.\<close>

definition rule_text :: "marpa_xrl \<Rightarrow> nat \<times> nat list \<times> bool" where
  "rule_text r = (LHS_ID_of_XRL r, RHS_IDs_of_XRL r, t_is_sequence r)"

definition same_rules :: "marpa_g \<Rightarrow> marpa_g \<Rightarrow> bool" where
  "same_rules g g' \<longleftrightarrow> take (length (t_xrls g)) (map rule_text (t_xrls g')) = map rule_text (t_xrls g)"

lemma same_rules_same [simp]: "t_xrls g' = t_xrls g \<Longrightarrow> same_rules g g'" "t_xrls g' = t_xrls g @ rs \<Longrightarrow> same_rules g g'"
  by (simp_all add: same_rules_def)

lemma same_rules_update [simp]:
  assumes "\<And>r. rule_text (f r) = rule_text r"
  shows "same_rules g (xrl_update i f g)"
proof -
  have "map rule_text (t_xrls (xrl_update i f g)) = map rule_text (t_xrls g)"
    by (cases "i < length (t_xrls g)") (simp_all add: xrl_update_def list_update_beyond map_update assms list_update_same_conv)
  then show ?thesis by (simp add: same_rules_def)
qed

lemma same_rules_add [simp]: "t_xrls h = t_xrls g @ [r] \<Longrightarrow> same_rules g (xrl_update (length (t_xrls g)) f h)"
  by (simp add: same_rules_def xrl_update_def)

text \<open>What adding a rule leaves as it is.\<close>

definition same_symbols :: "marpa_g \<Rightarrow> marpa_g \<Rightarrow> bool" where
  "same_symbols g g' \<longleftrightarrow> length (t_xsys g') = length (t_xsys g) \<and> working g' = working g \<and> t_start_xsy_id g' = t_start_xsy_id g
    \<and> map xsy_is_locked_terminal (t_xsys g') = map xsy_is_locked_terminal (t_xsys g) \<and> t_cilar g' = t_cilar g
    \<and> length (t_xrls g') \<le> Suc (length (t_xrls g)) \<and> t_zwps g' \<le> Suc (t_zwps g) \<and> same_rules g g'"

lemma same_symbols_update: "(\<And>x. xsy_is_locked_terminal (f x) = xsy_is_locked_terminal x) \<Longrightarrow> same_symbols g (xsy_update i f g)"
  unfolding same_symbols_def by (intro conjI nth_equalityI) (simp_all add: working_def xsy_update_nth)

lemma same_symbols_error: "refuses g c \<Longrightarrow> c = Some (n, g') \<Longrightarrow> same_symbols g g'"
  by (auto simp: refuses_def only_error_def same_symbols_def working_def)

lemma rule_new_frame:
  assumes "marpa_g_rule_new g l ids k = Some (n, g')"
  shows "same_symbols g g'"
proof (cases "first_failure
        [g_fail_if_fatal g, fail_if_precomputed g, fail_if (k > MAX_RHS_LENGTH) MARPA_ERR_RHS_TOO_LONG (- 2) g,
         fail_if (\<not> xsy_id_is_valid g l) MARPA_ERR_INVALID_SYMBOL_ID (- 2) g]")
  case (Some c)
  have "refuses g (first_failure
        [g_fail_if_fatal g, fail_if_precomputed g, fail_if (k > MAX_RHS_LENGTH) MARPA_ERR_RHS_TOO_LONG (- 2) g,
         fail_if (\<not> xsy_id_is_valid g l) MARPA_ERR_INVALID_SYMBOL_ID (- 2) g])"
    by (rule refuses_first) simp
  with Some assms same_symbols_error show ?thesis by (simp add: marpa_g_rule_new_def)
next
  case None
  have s: "same_symbols g (xrl_start g (nat l))" unfolding xrl_start_def by (rule same_symbols_update) simp
  have q: "t_xrls (xrl_start g i) = t_xrls g" "t_zwps (xrl_start g i) = t_zwps g" for i by (simp_all add: xrl_start_def)
  have e: "same_symbols g (MARPA_G_ERROR e g)" for e by (simp add: same_symbols_def working_def)
  from assms None show ?thesis
    by (auto simp: marpa_g_rule_new_def run_simps fail_def Let_def xrl_finish_def rule_add_def e split: if_splits option.splits)
      (use s in \<open>auto simp: same_symbols_def working_def q\<close>)
qed

lemma rhs_is_valid_defined: "n \<le> length ids \<Longrightarrow> \<exists>v. rhs_is_valid g ids n = Some v"
  by (induction g ids n rule: rhs_is_valid.induct) auto

lemma rule_new_defined:
  assumes g: "being_built g" and room: "length (t_xrls g) + 1 < SIZE_MOD" and k: "0 \<le> k" "k \<le> int (length ids)"
  shows "\<exists>n g'. marpa_g_rule_new g l ids k = Some (n, g')"
proof (cases "first_failure
        [g_fail_if_fatal g, fail_if_precomputed g, fail_if (k > MAX_RHS_LENGTH) MARPA_ERR_RHS_TOO_LONG (- 2) g,
         fail_if (\<not> xsy_id_is_valid g l) MARPA_ERR_INVALID_SYMBOL_ID (- 2) g]")
  case (Some c)
  then show ?thesis by (cases c) (simp add: marpa_g_rule_new_def)
next
  case None
  have "nat k \<le> length ids" using k by simp
  then obtain v where v: "rhs_is_valid g ids (nat k) = Some v" using rhs_is_valid_defined by blast
  obtain T where T: "t_xrl_tree g = Some T" using g by (auto simp: being_built_def)
  have t: "tree_ok g" using g by (simp add: being_built_def grammar_ok_def)
  from tree_insert [OF t T room] obtain found T' where
    "marpa_avl_insert T (length (t_xrls g), nat l, map nat (take (nat k) ids)) = Some (found, T')" by metis
  then show ?thesis using None v T k(1) by (auto simp: marpa_g_rule_new_def fail_def Let_def xrl_start_def)
qed

lemma sequence_new_frame: "same_symbols g (snd (marpa_g_sequence_new g lhs x separator mn flags))"
proof (cases "first_failure
        [g_fail_if_fatal g, fail_if_precomputed g,
         fail_if (separator \<noteq> - 1 \<and> \<not> xsy_id_is_valid g separator) MARPA_ERR_BAD_SEPARATOR (- 2) g,
         fail_if (\<not> xsy_id_is_valid g lhs) MARPA_ERR_INVALID_SYMBOL_ID (- 2) g,
         fail_if (xsy_is_lhs (XSY_by_ID g lhs)) MARPA_ERR_SEQUENCE_LHS_NOT_UNIQUE (- 2) g,
         fail_if (\<not> xsy_id_is_valid g x) MARPA_ERR_INVALID_SYMBOL_ID (- 2) g]")
  case (Some f)
  have "refuses g (first_failure
        [g_fail_if_fatal g, fail_if_precomputed g,
         fail_if (separator \<noteq> - 1 \<and> \<not> xsy_id_is_valid g separator) MARPA_ERR_BAD_SEPARATOR (- 2) g,
         fail_if (\<not> xsy_id_is_valid g lhs) MARPA_ERR_INVALID_SYMBOL_ID (- 2) g,
         fail_if (xsy_is_lhs (XSY_by_ID g lhs)) MARPA_ERR_SEQUENCE_LHS_NOT_UNIQUE (- 2) g,
         fail_if (\<not> xsy_id_is_valid g x) MARPA_ERR_INVALID_SYMBOL_ID (- 2) g])" by (rule refuses_first) simp
  with Some show ?thesis by (cases f) (simp add: marpa_g_sequence_new_def or_else_def same_symbols_error)
next
  case None
  have u: "map xsy_is_locked_terminal (t_xsys (xsy_update i h q)) = map xsy_is_locked_terminal (t_xsys q)"
    if "\<And>x. xsy_is_locked_terminal (h x) = xsy_is_locked_terminal x" for i h and q :: marpa_g
    using same_symbols_update [OF that] by (simp add: same_symbols_def)
  show ?thesis unfolding marpa_g_sequence_new_def None or_else_def
    by (simp add: same_symbols_def Let_def rule_new_def xrl_finish_def rule_add_def xrl_start_def working_def u same_rules_def xrl_update_def)
qed

section \<open>Each call\<close>

text \<open>A call that keeps the invariant and the number of rules.\<close>

definition keeps :: "marpa_g \<Rightarrow> marpa_g \<Rightarrow> bool" where
  "keeps g g' \<longleftrightarrow> being_built g' \<and> working g' = working g \<and> same_rules g g' \<and> length (t_xrls g') \<le> Suc (length (t_xrls g)) \<and> t_zwps g' \<le> Suc (t_zwps g)"

lemma or_else_keeps:
  assumes "refuses g c" "being_built g" "c = None \<Longrightarrow> keeps g (snd r)"
  shows "keeps g (snd (or_else c r))"
proof (cases c)
  case (Some f)
  with assms(1,2) show ?thesis by (cases f) (auto simp: or_else_def keeps_def refuses_def only_error_def)
qed (use assms(3) in \<open>simp add: or_else_def\<close>)

lemma first_keeps:
  assumes "\<forall>c \<in> set cs. refuses g c" "being_built g" "\<forall>c \<in> set cs. c = None \<Longrightarrow> keeps g (snd r)"
  shows "keeps g (snd (or_else (first_failure cs) r))"
  using assms by (intro or_else_keeps refuses_first) (simp_all add: first_failure_None)

lemma clear_error_keeps: "being_built g \<Longrightarrow> being_built (snd (clear_error g))"
  by (auto simp: clear_error_def Let_def being_built_def grammar_ok_def rules_ok_def tree_ok_def all_fresh_def)

lemma built_fields:
  "being_built g \<Longrightarrow> being_built (g\<lparr>t_default_rank := r\<rparr>)" "being_built g \<Longrightarrow> being_built (g\<lparr>t_force_valued := b\<rparr>)"
  "being_built g \<Longrightarrow> being_built (g\<lparr>t_gzwas := z\<rparr>)"
  "being_built g \<Longrightarrow> - 1 \<le> s \<Longrightarrow> s < int (length (t_xsys g)) \<Longrightarrow> being_built (g\<lparr>t_start_xsy_id := s\<rparr>)"
  by (simp_all add: being_built_def grammar_ok_def rules_ok_def tree_ok_def all_fresh_def)

lemma force_valued_keeps: "being_built g \<Longrightarrow> being_built (snd (force_valued g ids))"
proof (induction g ids rule: force_valued.induct)
  case (2 g i ids)
  have "being_built (xsy_update i (\<lambda>xsy. xsy\<lparr>xsy_is_valued := True, xsy_is_valued_locked := True\<rparr>) g)"
    using 2(2) by (intro built_symbol) (simp_all add: fresh_xsy_def)
  with 2 show ?case by (auto simp: fail_def)
qed (simp add: built_fields)

interpretation zwp_ptr: total_compare zwp_ptr_cmp
  by unfold_locales (auto simp: zwp_ptr_cmp_def zwp.swap intro: zwp.trans)

lemma zwa_place_keeps:
  assumes g: "being_built g" and room: "t_zwps g + 1 < SIZE_MOD"
  shows "\<exists>n g'. marpa_g_zwa_place g zwa r ix = Some (n, g') \<and> being_built g' \<and> working g' = working g \<and> t_xrls g' = t_xrls g \<and> t_zwps g' \<le> Suc (t_zwps g)"
proof -
  let ?xrl = "XRL_by_ID g r"
  let ?cs = "[g_fail_if_fatal g, fail_if_precomputed g, fail_if_xrl_id_is_malformed g r, no_such_rule (- 1) g r,
         fail_if (zwa < 0) MARPA_ERR_INVALID_ASSERTION_ID (- 2) g,
         fail_if (\<not> zwa < int (length (t_gzwas g))) MARPA_ERR_NO_SUCH_ASSERTION_ID (- 2) g,
         fail_if (ix < - 1) MARPA_ERR_RHS_IX_NEGATIVE (- 2) g,
         fail_if (int (length (RHS_IDs_of_XRL ?xrl)) \<le> ix) MARPA_ERR_RHS_IX_OOB (- 2) g]"
  show ?thesis
  proof (cases "first_failure ?cs")
    case (Some f)
    have "refuses g (first_failure ?cs)" by (rule refuses_first) simp
    with Some g obtain n e where "f = (n, MARPA_G_ERROR e g)" by (cases f) (auto simp: refuses_def only_error_def)
    with Some g show ?thesis by (simp add: marpa_g_zwa_place_def Let_def)
  next
    case None
    let ?z = "(t_zwps g, \<lparr>t_xrl_id = r, t_dot = (if ix = - 1 then (if t_is_sequence ?xrl then 1 else int (length (RHS_IDs_of_XRL ?xrl))) else ix), t_zwaid = zwa\<rparr>)"
    have t: "table_ok (t_zwp_tree g)" "avl_compare (t_zwp_tree g) = zwp_ptr_cmp" "avl_count (t_zwp_tree g) \<le> t_zwps g"
      using g by (simp_all add: being_built_def grammar_ok_def)
    have "\<exists>found T. marpa_avl_insert (t_zwp_tree g) ?z = Some (found, T) \<and> table_ok T \<and> avl_compare T = zwp_ptr_cmp \<and> avl_count T \<le> Suc (t_zwps g)"
    proof (cases "\<exists>y \<in> items_of (t_zwp_tree g). zwp_ptr_cmp ?z y = 0")
      case True
      then obtain y where "y \<in> items_of (t_zwp_tree g)" "zwp_ptr_cmp ?z y = 0" by blast
      from zwp_ptr.insert_found [OF t(1,2) _ this] t room show ?thesis by auto
    next
      case False
      then have "\<forall>y \<in> items_of (t_zwp_tree g). zwp_ptr_cmp ?z y \<noteq> 0" by blast
      moreover have "avl_count (t_zwp_tree g) + 1 < SIZE_MOD" using t(3) room by simp
      ultimately obtain T where "marpa_avl_insert (t_zwp_tree g) ?z = Some (None, T)" "table_ok T" "avl_compare T = zwp_ptr_cmp"
        "avl_count T = avl_count (t_zwp_tree g) + 1" using zwp_ptr.insert_new [OF t(1,2)] by blast
      then show ?thesis using t(3) by (intro exI [of _ None] exI [of _ T]) simp
    qed
    then obtain found T where T: "marpa_avl_insert (t_zwp_tree g) ?z = Some (found, T)" "table_ok T" "avl_compare T = zwp_ptr_cmp" "avl_count T \<le> Suc (t_zwps g)" by blast
    have "being_built (g\<lparr>t_zwps := Suc (t_zwps g), t_zwp_tree := T\<rparr>)"
      using g T(2-4) by (simp add: being_built_def grammar_ok_def rules_ok_def tree_ok_def all_fresh_def)
    with None T(1) show ?thesis by (simp add: marpa_g_zwa_place_def Let_def)
  qed
qed

text \<open>The setters.\<close>

lemma keeps_clear:
  assumes "being_built g"
  shows "keeps (snd (clear_error g)) g' = keeps g g'"
  by (auto simp: clear_error_def Let_def keeps_def same_rules_def)

lemma setter_keeps:
  assumes g: "being_built g"
  shows "keeps g (snd (marpa_g_start_symbol_set g s))" "keeps g (snd (marpa_g_symbol_is_terminal_set g s val))"
    "keeps g (snd (marpa_g_default_rank_set g rank))" "keeps g (snd (marpa_g_symbol_rank_set g s rank))"
    "keeps g (snd (marpa_g_rule_rank_set g i rank))" "keeps g (snd (marpa_g_rule_null_high_set g i flag))"
    "keeps g (snd (marpa_g_force_valued g))" "keeps g (snd (marpa_g_symbol_is_valued_set g s val))"
    "keeps g (snd (marpa_g_symbol_is_completion_event_set g s val))" "keeps g (snd (marpa_g_symbol_is_nulled_event_set g s val))"
    "keeps g (snd (marpa_g_symbol_is_prediction_event_set g s val))" "keeps g (snd (marpa_g_zwa_new g val))"
    "keeps g (snd (marpa_g_error_clear g))"
proof -
  let ?c = "snd (clear_error g)"
  have c: "being_built ?c" using g by (rule clear_error_keeps)
  note via = keeps_clear [OF g, THEN iffD1]
  show "keeps g (snd (marpa_g_start_symbol_set g s))" unfolding marpa_g_start_symbol_set_def
    by (rule first_keeps [OF _ g])
      (auto simp: keeps_def fail_if_xsy_id_is_malformed_def no_such_symbol_def XSYID_is_Malformed_def XSYID_of_G_Exists_def intro!: built_fields(4) g)
  show "keeps g (snd (marpa_g_symbol_is_terminal_set g s val))" unfolding marpa_g_symbol_is_terminal_set_def
    by (rule first_keeps [OF _ g]) (auto simp: keeps_def fresh_xsy_def intro!: built_symbol g)
  show "keeps g (snd (marpa_g_default_rank_set g rank))" unfolding marpa_g_default_rank_set_def Let_def
    by (rule via, rule first_keeps [OF _ c]) (auto simp: keeps_def intro!: built_fields c)
  show "keeps g (snd (marpa_g_symbol_rank_set g s rank))" unfolding marpa_g_symbol_rank_set_def Let_def
    by (rule via, rule first_keeps [OF _ c]) (auto simp: keeps_def fresh_xsy_def intro!: built_symbol c)
  show "keeps g (snd (marpa_g_rule_rank_set g i rank))" unfolding marpa_g_rule_rank_set_def Let_def
    by (rule via, rule first_keeps [OF _ c]) (auto simp: keeps_def rule_shape_def rule_text_def intro!: built_rule c)
  show "keeps g (snd (marpa_g_rule_null_high_set g i flag))" unfolding marpa_g_rule_null_high_set_def
    by (rule first_keeps [OF _ g]) (auto simp: keeps_def rule_shape_def rule_text_def intro!: built_rule g)
  have "length (t_xrls (snd (force_valued g ids))) = length (t_xrls g) \<and> t_zwps (snd (force_valued g ids)) = t_zwps g
      \<and> working (snd (force_valued g ids)) = working g \<and> t_xrls (snd (force_valued g ids)) = t_xrls g" for ids
    by (induction g ids rule: force_valued.induct) (auto simp: fail_def)
  then show "keeps g (snd (marpa_g_force_valued g))"
    using force_valued_keeps [OF g] by (simp add: marpa_g_force_valued_def keeps_def)
  show "keeps g (snd (marpa_g_symbol_is_valued_set g s val))" unfolding marpa_g_symbol_is_valued_set_def
    by (rule first_keeps [OF _ g]) (auto simp: keeps_def fresh_xsy_def intro!: built_symbol g)
  show "keeps g (snd (marpa_g_symbol_is_completion_event_set g s val))" unfolding marpa_g_symbol_is_completion_event_set_def
    by (rule or_else_keeps [OF _ g]) (auto simp: keeps_def fresh_xsy_def intro!: built_symbol g)
  show "keeps g (snd (marpa_g_symbol_is_nulled_event_set g s val))" unfolding marpa_g_symbol_is_nulled_event_set_def
    by (rule or_else_keeps [OF _ g]) (auto simp: keeps_def fresh_xsy_def intro!: built_symbol g)
  show "keeps g (snd (marpa_g_symbol_is_prediction_event_set g s val))" unfolding marpa_g_symbol_is_prediction_event_set_def
    by (rule or_else_keeps [OF _ g]) (auto simp: keeps_def fresh_xsy_def intro!: built_symbol g)
  show "keeps g (snd (marpa_g_zwa_new g val))" unfolding marpa_g_zwa_new_def
    by (rule first_keeps [OF _ g]) (auto simp: keeps_def intro!: built_fields g)
  show "keeps g (snd (marpa_g_error_clear g))" unfolding marpa_g_error_clear_def Let_def
    using c keeps_clear [OF g, of ?c] by (simp add: keeps_def)
qed

text \<open>Every call that is well formed returns and keeps the invariant; it adds one rule at most.\<close>

lemma step_keeps:
  assumes g: "being_built g" and room: "length (t_xrls g) + 1 < SIZE_MOD" "t_zwps g + 1 < SIZE_MOD" and c: "call_ok c"
  shows "\<exists>n g'. grammar_step c g = Some (n, g') \<and> keeps g g'"
proof -
  have total: "\<exists>n g'. Some p = Some (n, g') \<and> keeps g g'" if "keeps g (snd p)" for p :: "int \<times> marpa_g"
    using that by (cases p) simp
  show ?thesis
  proof (cases c)
    case Symbol_new
    have "keeps g (snd (marpa_g_symbol_new g))"
      using symbol_new_fresh [OF g] by (simp add: keeps_def marpa_g_symbol_new_def symbol_add_def)
    then show ?thesis unfolding Symbol_new grammar_step.simps by (rule total)
  next
    case (Rule_new l ids k)
    with c obtain n g' where r: "marpa_g_rule_new g l ids k = Some (n, g')"
      using rule_new_defined [OF g room(1), of k ids l] by auto
    from rule_new_keeps [OF g room(1) r] rule_new_frame [OF r] have "keeps g g'" by (simp add: keeps_def same_symbols_def)
    then show ?thesis using r Rule_new by simp
  next
    case (Sequence_new l x sep mn flags)
    have "being_built (snd (marpa_g_sequence_new g l x sep mn flags))"
    proof (cases "working g")
      case True
      from sequence_new_runs [OF g this, of l x sep mn flags] show ?thesis by auto
    next
      case False
      then obtain e where "g_fail_if_fatal g = Some (- 2, MARPA_G_ERROR e g)"
        by (cases "g_header_mismatch g") (auto simp: g_fail_if_fatal_def working_def fail_if_def)
      then show ?thesis using g by (simp add: marpa_g_sequence_new_def or_else_def)
    qed
    then have "keeps g (snd (marpa_g_sequence_new g l x sep mn flags))"
      using sequence_new_frame [of g l x sep mn flags] by (simp add: keeps_def same_symbols_def)
    then show ?thesis unfolding Sequence_new grammar_step.simps by (rule total)
  next
    case (Zwa_place zwa r ix)
    with zwa_place_keeps [OF g room(2), of zwa r ix] show ?thesis by (auto simp: keeps_def)
  qed (simp_all only: grammar_step.simps, (rule total, rule setter_keeps [OF g])+)
qed

lemma same_rules_trans:
  assumes "same_rules g h" "same_rules h k"
  shows "same_rules g k"
proof -
  let ?n = "length (t_xrls g)"
  have "?n \<le> length (t_xrls h)" using arg_cong [OF assms(1) [unfolded same_rules_def], of length] by simp
  then have "take ?n (map rule_text (t_xrls k)) = take ?n (take (length (t_xrls h)) (map rule_text (t_xrls k)))"
    unfolding take_take by (simp add: min_absorb1)
  also have "\<dots> = take ?n (map rule_text (t_xrls h))" using assms(2) unfolding same_rules_def by (rule arg_cong)
  also have "\<dots> = map rule_text (t_xrls g)" using assms(1) unfolding same_rules_def .
  finally show ?thesis unfolding same_rules_def .
qed

lemma steps_keep:
  assumes "being_built g" "length (t_xrls g) + length cs < SIZE_MOD" "t_zwps g + length cs < SIZE_MOD" "\<forall>c \<in> set cs. call_ok c"
  shows "\<exists>g'. grammar_steps cs g = Some g' \<and> being_built g' \<and> working g' = working g \<and> same_rules g g'"
  using assms
proof (induction cs arbitrary: g)
  case (Cons c cs)
  then obtain n g1 where g1: "grammar_step c g = Some (n, g1)" "keeps g g1" using step_keeps [of g c] by auto
  have "\<exists>g'. grammar_steps cs g1 = Some g' \<and> being_built g' \<and> working g' = working g1 \<and> same_rules g1 g'"
    by (rule Cons.IH) (use Cons.prems g1(2) in \<open>auto simp: keeps_def\<close>)
  with g1 show ?case by (auto simp: keeps_def intro: same_rules_trans)
qed simp

section \<open>Properties\<close>



text \<open>C40: what \<open>marpa_g_rule_new\<close> stored for a rule is what the accessors give for its number, after any later calls.\<close>

theorem rule_read_back:
  assumes g: "being_built g" "working g" and lhs: "lhs < length (t_xsys g)" and rhs: "\<forall>x \<in> set rhs. x < length (t_xsys g)"
    and len: "int (length rhs) \<le> MAX_RHS_LENGTH" and new: "bnf_refused (t_xrls g) lhs rhs = None"
    and later: "length (t_xrls g) + 1 + length cs < SIZE_MOD" "t_zwps g + 1 + length cs < SIZE_MOD" "\<forall>c \<in> set cs. call_ok c"
  shows "\<exists>n g1 g2. marpa_g_rule_new g (int lhs) (map int rhs) (int (length rhs)) = Some (n, g1) \<and> grammar_steps cs g1 = Some g2
    \<and> marpa_g_rule_lhs g2 n = (int lhs, g2) \<and> marpa_g_rule_length g2 n = (int (length rhs), g2)
    \<and> (\<forall>ix < length rhs. marpa_g_rule_rhs g2 n (int ix) = (int (rhs ! ix), g2))"
proof -
  let ?n = "length (t_xrls g)"
  have room: "?n + 1 < SIZE_MOD" using later(1) by simp
  from rule_new_runs [OF g lhs rhs len room] new obtain g1 where
    g1: "marpa_g_rule_new g (int lhs) (map int rhs) (int (length rhs)) = Some (int ?n, g1)" "being_built g1" "t_xrls g1 = t_xrls g @ [bnf_of g lhs rhs]" by auto
  have f: "working g1" "t_zwps g1 \<le> Suc (t_zwps g)" using rule_new_frame [OF g1(1)] g(2) by (simp_all add: same_symbols_def)
  have "length (t_xrls g1) + length cs < SIZE_MOD" "t_zwps g1 + length cs < SIZE_MOD" using later f(2) g1(3) by simp_all
  from steps_keep [OF g1(2) this later(3)] f(1) obtain g2 where
    g2: "grammar_steps cs g1 = Some g2" "working g2" "same_rules g1 g2" by auto
  then have r: "take (Suc ?n) (map rule_text (t_xrls g2)) = map rule_text (t_xrls g) @ [(lhs, rhs, False)]"
    by (simp add: same_rules_def g1(3) rule_text_def bnf_of_def)
  have k: "?n < length (t_xrls g2)" using arg_cong [OF r, of length] by simp
  have "map rule_text (t_xrls g2) ! ?n = (lhs, rhs, False)" using arg_cong [OF r, of "\<lambda>xs. xs ! ?n"] k by (simp add: nth_append)
  then have t: "LHS_ID_of_XRL (t_xrls g2 ! ?n) = lhs" "RHS_IDs_of_XRL (t_xrls g2 ! ?n) = rhs" using k by (simp_all add: rule_text_def)
  have c: "rule_checks g2 (int ?n) = None"
    unfolding rule_checks_def first_failure_None using g2(2) k by (simp add: checks XRLID_is_Malformed_def XRLID_of_G_Exists_def working_def)
  then show ?thesis
    using g1(1) g2(1) t by (intro exI [of _ "int ?n"] exI [of _ g1] exI [of _ g2])
      (simp add: marpa_g_rule_lhs_def marpa_g_rule_length_def marpa_g_rule_rhs_def or_else_def fail_if_def XRL_by_ID_def)
qed

theorem rule_read_back_witness:
  "\<exists>n g1 g2. marpa_g_rule_new (with_symbols 3 empty_g) 0 [1, 2] 2 = Some (n, g1) \<and> grammar_steps [Rule_new 0 [1] 1, Sequence_new 1 2 (- 1) 0 0] g1 = Some g2
    \<and> marpa_g_rule_lhs g2 n = (0, g2) \<and> marpa_g_rule_length g2 n = (2, g2) \<and> marpa_g_rule_rhs g2 n 1 = (2, g2)"
proof -
  have "t_zwps (with_symbols k empty_g) = t_zwps empty_g" for k
    by (induction k) (simp_all add: with_symbols_def marpa_g_symbol_new_def symbol_add_def)
  moreover have "t_zwps empty_g = 0" by code_simp
  ultimately obtain n g1 g2 where
    "marpa_g_rule_new (with_symbols 3 empty_g) 0 [1, 2] 2 = Some (n, g1)" "grammar_steps [Rule_new 0 [1] 1, Sequence_new 1 2 (- 1) 0 0] g1 = Some g2"
    "marpa_g_rule_lhs g2 n = (0, g2)" "marpa_g_rule_length g2 n = (2, g2)" "\<forall>ix < 2. marpa_g_rule_rhs g2 n (int ix) = (int ([1, 2] ! ix), g2)"
    using rule_read_back [of "with_symbols 3 empty_g" 0 "[1, 2]" "[Rule_new 0 [1] 1, Sequence_new 1 2 (- 1) 0 0]"] empty_g_ok with_symbols_ok [of empty_g 3]
    by (auto simp: MAX_RHS_LENGTH_def SIZE_MOD_def bnf_refused_def)
  then show ?thesis by (intro exI [of _ n] exI [of _ g1] exI [of _ g2]) (simp add: All_less_Suc2 numeral_2_eq_2)
qed

end
