(* ===== verification/PrecomputeProps.thy ===== *)
theory PrecomputeProps
  imports NulledMeaning GrammarLife
begin

text \<open>The properties of the first part of \<open>marpa_g_precompute\<close>: when it fails, and what its flags mean.\<close>

section \<open>Errors\<close>

text \<open>The error of a grammar, in the order of the checks.\<close>

definition precompute_error :: "marpa_g \<Rightarrow> int option" where
  "precompute_error g =
     (let rules = t_xrls g; s = nat (t_start_xsy_id g); T = terminals_of g in
      if rules = [] then Some MARPA_ERR_NO_RULES
      else if t_start_xsy_id g < 0 then Some MARPA_ERR_NO_START_SYMBOL
      else if s \<notin> lhs_of rules then Some MARPA_ERR_START_NOT_LHS
      else if \<exists>r \<in> set rules. \<exists>x \<in> counts r. derives rules [x] [] then Some MARPA_ERR_COUNTED_NULLABLE
      else if \<not> (\<exists>w. set w \<subseteq> T \<and> derives rules [s] w) then Some MARPA_ERR_UNPRODUCTIVE_START
      else if \<exists>x \<in> T \<inter> lhs_of rules. \<forall>w. (derives1 rules)\<^sup>+\<^sup>+ [x] w \<longrightarrow> set w \<inter> T = {} then Some MARPA_ERR_NULLING_TERMINAL
      else None)"

lemma start_checks_fail:
  assumes "being_built g"
  shows "start_checks (G_EVENTS_CLEAR g) =
    (if t_xrls g = [] then Some (fail MARPA_ERR_NO_RULES (G_EVENTS_CLEAR g))
     else if t_start_xsy_id g < 0 then Some (fail MARPA_ERR_NO_START_SYMBOL (G_EVENTS_CLEAR g))
     else if nat (t_start_xsy_id g) \<notin> lhs_of (t_xrls g) then Some (fail MARPA_ERR_START_NOT_LHS (G_EVENTS_CLEAR g))
     else None)"
proof (cases "t_start_xsy_id g < 0")
  case True
  then show ?thesis using assms by (simp add: start_checks_def fail_if_def fail_def fail_if_precomputed_def G_EVENTS_CLEAR_def being_built_def)
next
  case False
  have ok: "rules_ok g" "\<not> t_is_precomputed g" using assms by (simp_all add: being_built_def grammar_ok_def)
  then have s: "nat (t_start_xsy_id g) < length (t_xsys g)" using False by (auto simp: rules_ok_def)
  then have "xsy_id_is_valid g (t_start_xsy_id g)"
    using False by (simp add: xsy_id_is_valid_def XSYID_is_Malformed_def XSYID_of_G_Exists_def)
  moreover have "xsy_is_lhs (XSY_by_ID g (t_start_xsy_id g)) \<longleftrightarrow> nat (t_start_xsy_id g) \<in> lhs_of (t_xrls g)"
    using ok(1) s by (simp add: rules_ok_def flags_ok_def lhs_of_def XSY_by_ID_def image_iff) metis
  moreover have "xsy_id_is_valid (G_EVENTS_CLEAR g) i = xsy_id_is_valid g i" "XSY_by_ID (G_EVENTS_CLEAR g) i = XSY_by_ID g i" for i
    by (simp_all add: G_EVENTS_CLEAR_def xsy_id_is_valid_def XSYID_of_G_Exists_def XSY_by_ID_def)
  moreover have "t_xrls (G_EVENTS_CLEAR g) = t_xrls g" "t_start_xsy_id (G_EVENTS_CLEAR g) = t_start_xsy_id g"
    "t_is_precomputed (G_EVENTS_CLEAR g) = t_is_precomputed g" by (simp_all add: G_EVENTS_CLEAR_def)
  ultimately show ?thesis using False ok(2) by (simp add: start_checks_def fail_if_def fail_def fail_if_precomputed_def)
qed

lemma counted_nullable_derives:
  assumes "being_built g"
  shows "counted_nullables g \<noteq> [] \<longleftrightarrow> (\<exists>r \<in> set (t_xrls g). \<exists>x \<in> counts r. derives (t_xrls g) [x] [])"
proof -
  note rules = built_rules [OF assms]
  have ok: "rules_ok g" using assms by (simp add: being_built_def grammar_ok_def)
  have n: "x < length (t_xsys g)" if "x \<in> nullable_of (t_xrls g)" for x
  proof -
    have "x \<in> lhs_of (t_xrls g)" using that nullable_lhs by (rule subsetD [rotated])
    then obtain r where "r \<in> set (t_xrls g)" "x = LHS_ID_of_XRL r" by (auto simp: lhs_of_def)
    then show ?thesis using ok by (simp add: rules_ok_def rule_ok_def)
  qed
  have "xsy_is_counted (t_xsys g ! x) \<longleftrightarrow> (\<exists>r \<in> set (t_xrls g). x \<in> counts r)" if "x \<in> nullable_of (t_xrls g)" for x
    using ok n [OF that] by (simp add: rules_ok_def flags_ok_def)
  then show ?thesis unfolding no_counted nullable_derives [OF rules, symmetric] by blast
qed

lemma nulling_terminal_derives:
  assumes "being_built g"
  shows "nulling_terminals g \<noteq> [] \<longleftrightarrow> (\<exists>x \<in> terminals_of g \<inter> lhs_of (t_xrls g).
    \<forall>w. (derives1 (t_xrls g))\<^sup>+\<^sup>+ [x] w \<longrightarrow> set w \<inter> terminals_of g = {})"
  unfolding no_nulling_terminals using nulling_derives [OF built_rules [OF assms]] by blast

lemma precompute_error_eq:
  assumes "being_built g"
  shows "precompute_error g =
    (case start_checks (G_EVENTS_CLEAR g) of
       Some (_, h) \<Rightarrow> Some (g_error h)
     | None \<Rightarrow>
         if counted_nullables g \<noteq> [] then Some MARPA_ERR_COUNTED_NULLABLE
         else if nat (t_start_xsy_id g) \<notin> productive_of g then Some MARPA_ERR_UNPRODUCTIVE_START
         else if nulling_terminals g \<noteq> [] then Some MARPA_ERR_NULLING_TERMINAL
         else None)"
  unfolding precompute_error_def Let_def start_checks_fail [OF assms] counted_nullable_derives [OF assms]
    nulling_terminal_derives [OF assms] productive_derives [OF built_rules [OF assms]]
  by (simp add: fail_def)

lemma start_checks_result: "start_checks g = Some (n, h) \<Longrightarrow> n = - 2"
  by (auto simp: start_checks_def fail_if_def fail_if_precomputed_def split: if_splits)

lemma precompute_returns:
  assumes g: "being_built g" "working g" and fits: "t_xrls g \<noteq> [] \<longrightarrow> census_fits g"
  shows "\<exists>x. marpa_g_precompute_start g = Some x \<and> (case precompute_error g of
      Some e \<Rightarrow> \<exists>h. x = Inl (- 2, h) \<and> g_error h = e
    | None \<Rightarrow> \<exists>h. x = Inr h)"
proof (cases "start_checks (G_EVENTS_CLEAR g)")
  case None
  then have "census_fits g" using fits unfolding start_checks_fail [OF g(1)] by (simp split: if_splits)
  from precompute_runs [OF g this] obtain x where x: "marpa_g_precompute_start g = Some x"
    "case precompute_outcome g of Inl failure \<Rightarrow> x = Inl failure
      | Inr g1 \<Rightarrow> \<exists>h ca. x = Inr (put_nulled h ca g1) \<and> lists_sets ca h {..<length (t_xsys g)} ((nullification_rel g1)\<^sup>+)" by blast
  with None show ?thesis unfolding precompute_error_eq [OF g(1)] precompute_outcome_eq
    by (auto simp: fail_def Let_def split: if_splits)
next
  case (Some f)
  with start_checks_result obtain h where "f = (- 2, h)" by (cases f) auto
  then show ?thesis using g(2) Some unfolding precompute_error_eq [OF g(1)]
    by (simp add: marpa_g_precompute_start_def)
qed

section \<open>A grammar\<close>

text \<open>Three symbols, with the rules \<open>0 ::= 1 2\<close>, \<open>1 ::=\<close> and \<open>0 ::= 0\<close>.\<close>

definition add_rule :: "nat \<Rightarrow> nat list \<Rightarrow> marpa_g \<Rightarrow> marpa_g" where
  "add_rule lhs rhs g = snd (the (marpa_g_rule_new g (int lhs) (map int rhs) (int (length rhs))))"

definition bnf_shape :: "marpa_g \<Rightarrow> (nat \<times> nat list) list \<Rightarrow> bool" where
  "bnf_shape g ps \<longleftrightarrow> being_built g \<and> working g \<and> map (\<lambda>r. (LHS_ID_of_XRL r, RHS_IDs_of_XRL r)) (t_xrls g) = ps
     \<and> (\<forall>r \<in> set (t_xrls g). \<not> t_is_sequence r)"

lemma bnf_shape_add:
  assumes g: "bnf_shape g ps" and new: "(lhs, rhs) \<notin> set ps" and small: "lhs < length (t_xsys g)" "\<forall>x \<in> set rhs. x < length (t_xsys g)"
    and len: "int (length rhs) \<le> MAX_RHS_LENGTH" "length ps + 1 < SIZE_MOD"
  shows "bnf_shape (add_rule lhs rhs g) (ps @ [(lhs, rhs)]) \<and> same_symbols g (add_rule lhs rhs g)"
proof -
  have b: "being_built g" "working g" and l: "length (t_xrls g) + 1 < SIZE_MOD"
    using g len(2) by (auto simp: bnf_shape_def)
  have "bnf_refused (t_xrls g) lhs rhs = None"
    using g new by (force simp: bnf_refused_def bnf_shape_def)
  with rule_new_runs [OF b small len(1) l] obtain g' where
    g': "marpa_g_rule_new g (int lhs) (map int rhs) (int (length rhs)) = Some (int (length (t_xrls g)), g')" "being_built g'"
      "t_xrls g' = t_xrls g @ [bnf_of g lhs rhs]" by auto
  then have "add_rule lhs rhs g = g'" by (simp add: add_rule_def)
  moreover have "same_symbols g g'" using g'(1) by (rule rule_new_frame)
  ultimately show ?thesis using g g'(2,3) by (auto simp: bnf_shape_def same_symbols_def bnf_of_def)
qed

definition start_at :: "nat \<Rightarrow> marpa_g \<Rightarrow> marpa_g" where
  "start_at s g = snd (marpa_g_start_symbol_set g (int s))"

lemma bnf_shape_start:
  assumes g: "bnf_shape g ps" and s: "s < length (t_xsys g)"
  shows "bnf_shape (start_at s g) ps \<and> t_start_xsy_id (start_at s g) = int s \<and> t_xsys (start_at s g) = t_xsys g
    \<and> t_cilar (start_at s g) = t_cilar g \<and> t_xrls (start_at s g) = t_xrls g"
proof -
  have "first_failure [g_fail_if_fatal g, fail_if_precomputed g, fail_if_xsy_id_is_malformed g (int s), no_such_symbol (- 1) g (int s)] = None"
    unfolding first_failure_None using g s
    by (simp add: bnf_shape_def checks XSYID_is_Malformed_def XSYID_of_G_Exists_def working_def being_built_def)
  then have "start_at s g = g\<lparr>t_start_xsy_id := int s\<rparr>"
    by (simp add: start_at_def marpa_g_start_symbol_set_def or_else_def)
  then show ?thesis using g s
    by (simp add: bnf_shape_def being_built_def grammar_ok_def rules_ok_def tree_ok_def all_fresh_def working_def)
qed

definition demo_g :: marpa_g where
  "demo_g = start_at 0 (add_rule 0 [0] (add_rule 1 [] (add_rule 0 [1, 2] (with_symbols 3 empty_g))))"

lemma demo_g_ok:
  "bnf_shape demo_g [(0, [1, 2]), (1, []), (0, [0])] \<and> length (t_xsys demo_g) = 3 \<and> t_start_xsy_id demo_g = 0
    \<and> (\<forall>x \<in> set (t_xsys demo_g). \<not> xsy_is_locked_terminal x) \<and> cil_obs (t_cilar demo_g) = cil_obs (t_cilar empty_g)"
proof -
  let ?g = "with_symbols 3 empty_g"
  let ?g1 = "add_rule 0 [1, 2] ?g"
  let ?g2 = "add_rule 1 [] ?g1"
  let ?g3 = "add_rule 0 [0] ?g2"
  have locked: "t_xsys empty_g = []" using empty_g_ok by simp
  have syms: "(\<forall>x \<in> set (t_xsys (with_symbols k empty_g)). \<not> xsy_is_locked_terminal x) \<and> t_cilar (with_symbols k empty_g) = t_cilar empty_g" for k
    by (induction k) (auto simp: with_symbols_def marpa_g_symbol_new_def symbol_add_def symbol_new_def locked)
  have 0: "bnf_shape ?g []" using empty_g_ok with_symbols_ok [of empty_g 3] by (simp add: bnf_shape_def)
  have n: "length (t_xsys ?g) = 3" using locked by simp
  have small: "MAX_RHS_LENGTH = 536870911" "SIZE_MOD = 18446744073709551616" by (simp_all add: MAX_RHS_LENGTH_def SIZE_MOD_def)
  from bnf_shape_add [OF 0, of 0 "[1, 2]"] have 1: "bnf_shape ?g1 [(0, [1, 2])]" "same_symbols ?g ?g1"
    unfolding n by (simp_all add: small)
  then have n1: "length (t_xsys ?g1) = 3" using n by (simp add: same_symbols_def)
  from bnf_shape_add [OF 1(1), of 1 "[]"] have 2: "bnf_shape ?g2 [(0, [1, 2]), (1, [])]" "same_symbols ?g1 ?g2"
    unfolding n1 by (simp_all add: small)
  then have n2: "length (t_xsys ?g2) = 3" using n1 by (simp add: same_symbols_def)
  from bnf_shape_add [OF 2(1), of 0 "[0]"] have 3: "bnf_shape ?g3 [(0, [1, 2]), (1, []), (0, [0])]" "same_symbols ?g2 ?g3"
    unfolding n2 by (simp_all add: small)
  then have n3: "length (t_xsys ?g3) = 3" using n2 by (simp add: same_symbols_def)
  have "map xsy_is_locked_terminal (t_xsys ?g3) = map xsy_is_locked_terminal (t_xsys ?g)" "t_cilar ?g3 = t_cilar ?g"
    using 1(2) 2(2) 3(2) by (simp_all add: same_symbols_def)
  then have "\<forall>x \<in> set (t_xsys ?g3). \<not> xsy_is_locked_terminal x" "t_cilar ?g3 = t_cilar empty_g"
    using syms [of 3] by (metis (no_types, lifting) image_iff list.set_map, simp)
  moreover define h where "h = ?g3"
  ultimately have "\<forall>x \<in> set (t_xsys h). \<not> xsy_is_locked_terminal x" "t_cilar h = t_cilar empty_g"
    "bnf_shape h [(0, [1, 2]), (1, []), (0, [0])]" "length (t_xsys h) = 3" using 3(1) n3 by simp_all
  moreover have "demo_g = start_at 0 h" by (simp add: demo_g_def h_def)
  ultimately show ?thesis using bnf_shape_start [of h _ 0] by simp
qed

lemma demo_rules:
  "length (t_xrls demo_g) = 3" "LHS_ID_of_XRL (t_xrls demo_g ! 1) = 1" "RHS_IDs_of_XRL (t_xrls demo_g ! 1) = []"
  "LHS_ID_of_XRL (t_xrls demo_g ! 2) = 0" "RHS_IDs_of_XRL (t_xrls demo_g ! 2) = [0]" "\<forall>r \<in> set (t_xrls demo_g). \<not> t_is_sequence r"
proof -
  let ?F = "\<lambda>r. (LHS_ID_of_XRL r, RHS_IDs_of_XRL r)"
  have m: "map ?F (t_xrls demo_g) = [(0, [1, 2]), (1, []), (0, [0])]" and s: "\<forall>r \<in> set (t_xrls demo_g). \<not> t_is_sequence r"
    using demo_g_ok by (simp_all add: bnf_shape_def)
  have "length (map ?F (t_xrls demo_g)) = 3" unfolding m by simp
  then show k: "length (t_xrls demo_g) = 3" by simp
  have f: "?F (t_xrls demo_g ! i) = [(0, [1, 2]), (1, []), (0, [0])] ! i" if "i < 3" for i
    using nth_map [of i "t_xrls demo_g" ?F] that unfolding k m by simp
  show "LHS_ID_of_XRL (t_xrls demo_g ! 1) = 1" "RHS_IDs_of_XRL (t_xrls demo_g ! 1) = []" using f [of 1] by simp_all
  show "LHS_ID_of_XRL (t_xrls demo_g ! 2) = 0" "RHS_IDs_of_XRL (t_xrls demo_g ! 2) = [0]" using f [of 2] by simp_all
  show "\<forall>r \<in> set (t_xrls demo_g). \<not> t_is_sequence r" by (fact s)
qed

lemma demo_fits: "census_fits demo_g"
proof -
  let ?F = "\<lambda>r. (LHS_ID_of_XRL r, RHS_IDs_of_XRL r)"
  have ok: "cilar_ok (t_cilar demo_g)" "rules_ok demo_g" using demo_g_ok by (simp_all add: bnf_shape_def being_built_def grammar_ok_def)
  have m: "map ?F (t_xrls demo_g) = [(0, [1, 2]), (1, []), (0, [0])]" using demo_g_ok by (simp add: bnf_shape_def)
  have "length (map ?F (t_xrls demo_g)) = 3" unfolding m by simp
  then have l: "length (t_xrls demo_g) = 3" by simp
  have "map (\<lambda>r. 1 + length (RHS_IDs_of_XRL r)) (t_xrls demo_g) = map ((\<lambda>p. 1 + length (snd p)) \<circ> ?F) (t_xrls demo_g)"
    unfolding comp_def by simp
  also have "\<dots> = map (\<lambda>p. 1 + length (snd p)) (map ?F (t_xrls demo_g))" by simp
  finally have e: "t_external_size demo_g = 6" using ok(2) unfolding m by (simp add: rules_ok_def)
  have "cil_obs (t_cilar empty_g) = 0" by code_simp
  then have o: "cil_obs (t_cilar demo_g) = 0" using demo_g_ok by simp
  have "data_words 3 \<le> 2" by code_simp
  then have "matrix_fits 3" by (simp add: matrix_fits_def UINT_MOD_def)
  then show ?thesis using demo_g_ok l e o by (simp add: census_fits_def SIZE_MOD_def)
qed

lemma shape_rule:
  assumes "bnf_shape g ps" "(l, rhs) \<in> set ps"
  shows "derives1 (t_xrls g) (u @ l # v) (u @ rhs @ v)"
proof -
  have "(l, rhs) \<in> (\<lambda>r. (LHS_ID_of_XRL r, RHS_IDs_of_XRL r)) ` set (t_xrls g)" using assms by (auto simp: bnf_shape_def)
  then obtain r where "r \<in> set (t_xrls g)" "l = LHS_ID_of_XRL r" "rhs = RHS_IDs_of_XRL r" "\<not> t_is_sequence r"
    using assms(1) unfolding bnf_shape_def by auto
  then show ?thesis using derives1.intros [of r "t_xrls g" rhs u v] by (simp add: expansions_def)
qed

lemma shape_lhs: "bnf_shape g ps \<Longrightarrow> lhs_of (t_xrls g) = fst ` set ps"
  by (auto simp: bnf_shape_def lhs_of_def image_image)

lemma demo_terminals: "terminals_of demo_g = {2}"
proof -
  have "lhs_of (t_xrls demo_g) = {0, 1}" using shape_lhs demo_g_ok by fastforce
  moreover have "\<not> xsy_is_locked_terminal (t_xsys demo_g ! s)" if "s < 3" for s using that demo_g_ok by simp
  moreover have "length (t_xsys demo_g) = 3" using demo_g_ok by simp
  ultimately have "s \<in> terminals_of demo_g \<longleftrightarrow> s < 3 \<and> s \<noteq> 0 \<and> s \<noteq> 1" for s
    by (cases "s < 3") (simp_all add: terminals_of_def is_terminal_of_def)
  moreover have "s < 3 \<and> s \<noteq> 0 \<and> s \<noteq> 1 \<longleftrightarrow> s = 2" for s :: nat by arith
  ultimately show ?thesis by blast
qed

lemma demo_derives: "derives (t_xrls demo_g) [1] []" "derives (t_xrls demo_g) [0] [1, 2]" "derives (t_xrls demo_g) [0] [2]"
proof -
  have s: "bnf_shape demo_g [(0, [1, 2]), (1, []), (0, [0])]" using demo_g_ok by simp
  show 1: "derives (t_xrls demo_g) [1] []" using shape_rule [OF s, of 1 "[]" "[]" "[]"] by simp
  show 2: "derives (t_xrls demo_g) [0] [1, 2]" using shape_rule [OF s, of 0 "[1, 2]" "[]" "[]"] by simp
  show "derives (t_xrls demo_g) [0] [2]" using derives_trans [OF 2] derives_context [OF 1, of "[]" "[2]"] by simp
qed

lemma demo_no_error: "precompute_error demo_g = None"
proof -
  have s: "bnf_shape demo_g [(0, [1, 2]), (1, []), (0, [0])]" using demo_g_ok by simp
  have "lhs_of (t_xrls demo_g) = {0, 1}" using shape_lhs [OF s] by auto
  moreover have "t_xrls demo_g \<noteq> []" "\<forall>r \<in> set (t_xrls demo_g). counts r = {}" using s by (auto simp: bnf_shape_def counts_def)
  moreover have "\<exists>w. set w \<subseteq> terminals_of demo_g \<and> derives (t_xrls demo_g) [0] w"
    using demo_derives(3) by (intro exI [of _ "[2]"]) (simp add: demo_terminals)
  ultimately show ?thesis using demo_g_ok by (simp add: precompute_error_def Let_def demo_terminals)
qed

section \<open>Rules\<close>

lemma success_settled:
  assumes "being_built g" "working g" "census_fits g" "marpa_g_precompute_start g = Some (Inr g')"
  shows "settled g"
  using success_means [OF assms] assms(1) by (auto simp: settled_def)

lemma rule_nullable_iff:
  assumes g: "settled g" and r: "r \<in> set (t_xrls g)"
  shows "has_empty r \<or> set (RHS_IDs_of_XRL r) \<subseteq> nullable_of (t_xrls g) \<longleftrightarrow> (\<exists>w \<in> expansions r. derives (t_xrls g) w [])"
proof -
  note rules = settled_rules [OF g]
  have one: "one_item r" using rules(1) r by blast
  have e: "has_empty r \<longleftrightarrow> [] \<in> expansions r" using expansion_empty [OF one] by simp
  have seq: "t_is_sequence r \<Longrightarrow> x \<in> mentions r \<Longrightarrow> x \<notin> nullable_of (t_xrls g)" for x
    using items_not_nullable [OF rules(2,3) r] by blast
  show ?thesis
  proof (cases "t_is_sequence r")
    case True
    then obtain x where x: "RHS_IDs_of_XRL r = [x]" using one by (auto elim: one_itemE)
    then have "\<not> set (RHS_IDs_of_XRL r) \<subseteq> nullable_of (t_xrls g)" using seq [OF True, of x] by (simp add: mentions_def)
    moreover have "w = []" if "w \<in> expansions r" "derives (t_xrls g) w []" for w
      using that seq [OF True] expansion_mentions [OF one that(1)] erased_iff [OF g] by (cases w) auto
    ultimately show ?thesis using e by auto
  next
    case False
    then have "has_empty r \<longleftrightarrow> RHS_IDs_of_XRL r = []" by (simp add: has_empty_def)
    then show ?thesis using False by (auto simp: expansions_def erased_iff [OF g])
  qed
qed

section \<open>After a failure\<close>

text \<open>A census that fails has destroyed the table of BNF rules already: a rule can no longer be added.\<close>

lemma failed_census_drops_tree:
  assumes g: "being_built g" "working g" "census_fits g" and run: "marpa_g_precompute_start g = Some (Inl (n, h))"
    and checks: "start_checks (G_EVENTS_CLEAR g) = None"
  shows "t_xrl_tree h = None \<and> working h \<and> \<not> t_is_precomputed h"
proof -
  have p: "\<not> t_is_precomputed g" using g(1) by (simp add: being_built_def)
  have k: "t_xrl_tree (mark_all f S q) = t_xrl_tree q" "t_xrl_tree (add_events es q) = t_xrl_tree q" "t_xrl_tree (MARPA_G_ERROR e q) = t_xrl_tree q"
    "working (mark_all f S q) = working q" "working (add_events es q) = working q"
    "t_is_precomputed (mark_all f S q) = t_is_precomputed q" "t_is_precomputed (add_events es q) = t_is_precomputed q" for f S q es e
    by (simp_all add: mark_all_def add_events_def working_def)
  from precompute_runs [OF g] run have "case precompute_outcome g of Inl failure \<Rightarrow> (n, h) = failure | Inr g1 \<Rightarrow> False" by (auto split: sum.splits)
  then have "h \<in> {MARPA_G_ERROR MARPA_ERR_COUNTED_NULLABLE (marked_nullable (census_input g)),
      MARPA_G_ERROR MARPA_ERR_UNPRODUCTIVE_START (marked_productive (census_input g)),
      MARPA_G_ERROR MARPA_ERR_NULLING_TERMINAL (marked_nulling (census_input g))}"
    unfolding precompute_outcome_eq using checks by (auto simp: fail_def Let_def split: if_splits)
  moreover have "t_xrl_tree (census_input g) = None" "working (census_input g)" "\<not> t_is_precomputed (census_input g)"
    using g(2) p by (simp_all add: census_input_def G_EVENTS_CLEAR_def working_def)
  ultimately show ?thesis by (auto simp: marked_nulling_def marked_productive_def marked_nullable_def k)
qed

lemma rule_new_without_tree:
  assumes "t_xrl_tree h = None" "working h" "\<not> t_is_precomputed h" "xsy_id_is_valid h lhs" "\<not> xsy_is_sequence_lhs (XSY_by_ID h lhs)"
  shows "marpa_g_rule_new h lhs [] 0 = None"
proof -
  have "first_failure [g_fail_if_fatal h, fail_if_precomputed h, fail_if (0 > MAX_RHS_LENGTH) MARPA_ERR_RHS_TOO_LONG (- 2) h,
      fail_if (\<not> xsy_id_is_valid h lhs) MARPA_ERR_INVALID_SYMBOL_ID (- 2) h] = None"
    unfolding first_failure_None using assms by (simp add: fail_if_precomputed_def MAX_RHS_LENGTH_def)
  then show ?thesis using assms(1,5) by (simp add: marpa_g_rule_new_def xrl_start_def)
qed

section \<open>Properties\<close>

text \<open>C4: on a well-formed grammar the first part of \<open>marpa_g_precompute\<close> always returns, and its result is the first of the
  documented errors that the derivations of the grammar give, or success.\<close>

theorem precompute_fails_as_documented:
  assumes "being_built g" "working g" "t_xrls g \<noteq> [] \<longrightarrow> census_fits g"
  shows "\<exists>x. marpa_g_precompute_start g = Some x \<and> (case precompute_error g of
      Some e \<Rightarrow> \<exists>h. x = Inl (- 2, h) \<and> g_error h = e
    | None \<Rightarrow> \<exists>h. x = Inr h)"
  by (rule precompute_returns [OF assms])

theorem precompute_fails_as_documented_witness:
  "\<exists>h. marpa_g_precompute_start demo_g = Some (Inr h)"
  using precompute_fails_as_documented [of demo_g] demo_g_ok demo_fits demo_no_error by (auto simp: bnf_shape_def)

lemma demo_success: "\<exists>h. marpa_g_precompute_start demo_g = Some (Inr h)"
  using precompute_returns [of demo_g] demo_g_ok demo_fits demo_no_error by (auto simp: bnf_shape_def)

text \<open>C3: after success a symbol is nullable when it derives the empty string, productive when it derives a string of
  terminals, accessible when the start symbol derives a form with it, and nulling when it is a left hand side and no form
  that it derives has a terminal; the terminals are the symbols marked so and, among the others, those without rules.\<close>

theorem symbol_flags_mean_derivations:
  assumes "being_built g" "working g" "census_fits g" "marpa_g_precompute_start g = Some (Inr g')" "s < length (t_xsys g)"
  shows "(xsy_is_nullable (t_xsys g' ! s) \<longleftrightarrow> derives (t_xrls g) [s] [])
    \<and> (xsy_is_productive (t_xsys g' ! s) \<longleftrightarrow> (\<exists>w. set w \<subseteq> terminals_of g \<and> derives (t_xrls g) [s] w))
    \<and> (xsy_is_accessible (t_xsys g' ! s) \<longleftrightarrow> (\<exists>w. derives (t_xrls g) [nat (t_start_xsy_id g)] w \<and> s \<in> set w))
    \<and> (xsy_is_nulling (t_xsys g' ! s) \<longleftrightarrow> s \<in> lhs_of (t_xrls g)
        \<and> (\<forall>w. (derives1 (t_xrls g))\<^sup>+\<^sup>+ [s] w \<longrightarrow> set w \<inter> terminals_of g = {}))
    \<and> (xsy_is_terminal (t_xsys g' ! s) \<longleftrightarrow> s \<in> terminals_of g)"
  using success_symbols(2) [OF assms] unfolding symbol_flags_of_def
  by (simp add: nullable_derives productive_derives accessible_derives nulling_derives built_rules [OF assms(1)])

theorem symbol_flags_mean_derivations_witness:
  "\<exists>g'. marpa_g_precompute_start demo_g = Some (Inr g') \<and> xsy_is_nullable (t_xsys g' ! 1) \<and> xsy_is_accessible (t_xsys g' ! 1)
    \<and> xsy_is_productive (t_xsys g' ! 0) \<and> xsy_is_terminal (t_xsys g' ! 2)"
proof -
  obtain g' where g': "marpa_g_precompute_start demo_g = Some (Inr g')" using demo_success by blast
  have d: "being_built demo_g" "working demo_g" "census_fits demo_g" "t_start_xsy_id demo_g = 0" "length (t_xsys demo_g) = 3"
    using demo_g_ok demo_fits by (simp_all add: bnf_shape_def)
  note f = symbol_flags_mean_derivations [OF d(1-3) g']
  have "\<exists>w. set w \<subseteq> {2} \<and> derives (t_xrls demo_g) [0] w" using demo_derives(3) by (intro exI [of _ "[2]"]) simp
  moreover have "\<exists>w. derives (t_xrls demo_g) [0] w \<and> 1 \<in> set w" using demo_derives(2) by (intro exI [of _ "[1, 2]"]) simp
  ultimately show ?thesis using g' f [of 0] f [of 1] f [of 2] demo_derives(1) by (simp add: d demo_terminals)
qed

text \<open>C38: after success a rule is accessible when its left hand side is, nullable when one of its right hand sides derives the
  empty string, nulling when all symbols that it mentions are, productive when it may be empty or all these symbols
  are productive, and used when it is accessible, not nulling, and all of them are productive.\<close>

theorem rule_flags_mean_derivations:
  assumes "being_built g" "working g" "census_fits g" "marpa_g_precompute_start g = Some (Inr g')" "i < length (t_xrls g)"
  defines "r \<equiv> t_xrls g ! i" and "q \<equiv> t_xrls g' ! i"
  shows "(xrl_is_accessible q \<longleftrightarrow> (\<exists>w. derives (t_xrls g) [nat (t_start_xsy_id g)] w \<and> LHS_ID_of_XRL r \<in> set w))
    \<and> (xrl_is_nullable q \<longleftrightarrow> (\<exists>w \<in> expansions r. derives (t_xrls g) w []))
    \<and> (xrl_is_nulling q \<longleftrightarrow> (\<forall>x \<in> mentions r. xsy_is_nulling (t_xsys g' ! x)))
    \<and> (xrl_is_productive q \<longleftrightarrow> has_empty r \<or> (\<forall>x \<in> mentions r. \<exists>w. set w \<subseteq> terminals_of g \<and> derives (t_xrls g) [x] w))
    \<and> (xrl_is_used q \<longleftrightarrow> xrl_is_accessible q \<and> \<not> xrl_is_nulling q
        \<and> (\<forall>x \<in> mentions r. \<exists>w. set w \<subseteq> terminals_of g \<and> derives (t_xrls g) [x] w))"
proof -
  have r: "r \<in> set (t_xrls g)" using assms(5) by (simp add: r_def)
  have ok: "rules_ok g" using assms(1) by (simp add: being_built_def grammar_ok_def)
  have f: "rule_flags_of g r q" unfolding r_def q_def using success_rules(2) [OF assms(1-5)] .
  have n: "\<forall>x \<in> mentions r. x < length (t_xsys g)" using ok r by (auto simp: rules_ok_def rule_ok_def mentions_def split: if_splits)
  have 1: "mentions r \<subseteq> nulling_of g \<longleftrightarrow> (\<forall>x \<in> mentions r. xsy_is_nulling (t_xsys g' ! x))"
    using success_symbols(2) [OF assms(1-4)] n unfolding symbol_flags_of_def by blast
  have 2: "mentions r \<subseteq> productive_of g \<longleftrightarrow> (\<forall>x \<in> mentions r. \<exists>w. set w \<subseteq> terminals_of g \<and> derives (t_xrls g) [x] w)"
    using productive_derives [OF built_rules [OF assms(1)]] by blast
  show ?thesis
    using f unfolding rule_flags_of_def 1 2 rule_nullable_iff [OF success_settled [OF assms(1-4)] r]
      accessible_derives [OF built_rules [OF assms(1)]] by blast
qed

theorem rule_flags_mean_derivations_witness:
  "\<exists>g'. marpa_g_precompute_start demo_g = Some (Inr g') \<and> xrl_is_nullable (t_xrls g' ! 1) \<and> xrl_is_accessible (t_xrls g' ! 1)"
proof -
  obtain g' where g': "marpa_g_precompute_start demo_g = Some (Inr g')" using demo_success by blast
  have d: "being_built demo_g" "working demo_g" "census_fits demo_g" "t_start_xsy_id demo_g = 0"
    using demo_g_ok demo_fits by (simp_all add: bnf_shape_def)
  have k: "1 < length (t_xrls demo_g)" using demo_rules(1) by simp
  note r = demo_rules(2,3)
  have "\<not> t_is_sequence (t_xrls demo_g ! 1)" using demo_rules(6) k by simp
  then have "expansions (t_xrls demo_g ! 1) = {[]}" unfolding expansions_def r by simp
  moreover have "\<exists>w. derives (t_xrls demo_g) [0] w \<and> 1 \<in> set w" using demo_derives(2) by (intro exI [of _ "[1, 2]"]) simp
  ultimately show ?thesis using g' rule_flags_mean_derivations [OF d(1-3) g' k] unfolding r by (simp add: d(4))
qed



text \<open>C39: after success the list of a symbol names, in ascending order, the symbols of the forms that it derives and that derive the
  empty string, and also the items of the sequences among them that may be empty, although these are not nullable.\<close>

theorem nulled_lists_hold:
  assumes "being_built g" "working g" "census_fits g" "marpa_g_precompute_start g = Some (Inr g')" "s < length (t_xsys g)"
  shows "\<exists>c. xsy_nulled_event_xsyids (t_xsys g' ! s) = Some c \<and> c \<in> cils (t_cilar g')
    \<and> snd c = map int (sorted_list_of_set (nulled_with g s \<union> empty_items g `` nulled_with g s))"
proof -
  let ?L = "loops_of (after_census g) (nullable_of (t_xrls g))"
  have st: "settled g" using success_settled [OF assms(1-4)] .
  from success_means [OF assms(1-4)] obtain h ca where g': "g' = put_nulled h ca (cycle_result ?L (after_census g))"
    "lists_sets ca h {..<length (t_xsys g)} ((null_steps g)\<^sup>+)" unfolding nullification_steps [OF st] .
  then obtain c where "c \<in> cils ca" "h s = Some c" "snd c = map int (sorted_list_of_set ((null_steps g)\<^sup>+ `` {s}))"
    using assms(5) unfolding lists_sets_def by (metis lessThan_iff)
  then show ?thesis using assms(5) unfolding g'(1) nulled_iff [OF st assms(5)] by simp
qed

theorem nulled_lists_hold_witness:
  "\<exists>g' c. marpa_g_precompute_start demo_g = Some (Inr g') \<and> xsy_nulled_event_xsyids (t_xsys g' ! 1) = Some c
    \<and> snd c = map int (sorted_list_of_set (nulled_with demo_g 1 \<union> empty_items demo_g `` nulled_with demo_g 1))"
proof -
  obtain g' where g': "marpa_g_precompute_start demo_g = Some (Inr g')" using demo_success by blast
  have "being_built demo_g" "working demo_g" "1 < length (t_xsys demo_g)" using demo_g_ok by (simp_all add: bnf_shape_def)
  from nulled_lists_hold [OF this(1,2) demo_fits g' this(3)] g' show ?thesis by blast
qed

end
