(* ===== verification/Rewrite.thy ===== *)
theory Rewrite
  imports Census GrammarOptions
begin

text \<open>
  The rewriting of the rules in \<open>marpa_g_precompute\<close> (\<open>src/libmarpa-dist/marpa.c\<close>), the step after the
  census: every accessible and productive symbol gets an internal symbol (NSY), a nullable one a second
  internal symbol that stands for the empty string, and every rule that is used becomes internal rules
  (IRLs) in which no nullable symbol is left. A rule with many nullable symbols is cut into pieces of
  two, each piece but the last ending in a new internal symbol (the method that the code calls CHAF).

  An NSY or an IRL is its number, which indexes the stacks. The two NSYs of a symbol are fields of the
  symbol in the code; here they are lists beside the grammar, \<open>None\<close> for the pointer \<open>NULL\<close>. Fields that
  only the later steps write (AHMs, the CIL of left hand sides, or nodes) are left out.
\<close>

section \<open>Internal symbols and rules\<close>

record marpa_nsy =
  nsy_source_xsy :: "nat option"
  nsy_lhs_xrl :: "nat option"
  nsy_xrl_offset :: int
  nsy_rank :: int
  nsy_is_start :: bool
  nsy_is_lhs :: bool
  nsy_is_nulling :: bool
  nsy_is_semantic :: bool

text \<open>The array of an IRL holds its left hand side and then its right hand side.\<close>

record marpa_irl =
  irl_source_xrl :: "nat option"
  irl_nsyids :: "nat list"
  irl_real_symbol_count :: int
  irl_virtual_start :: int
  irl_virtual_end :: int
  irl_rank :: int
  irl_is_virtual_lhs :: bool
  irl_is_virtual_rhs :: bool
  irl_is_right_recursive :: bool

definition LHSID_of_IRL :: "marpa_irl \<Rightarrow> nat" where
  "LHSID_of_IRL irl = irl_nsyids irl ! 0"

definition RHSIDs_of_IRL :: "marpa_irl \<Rightarrow> nat list" where
  "RHSIDs_of_IRL irl = tl (irl_nsyids irl)"

definition Length_of_IRL :: "marpa_irl \<Rightarrow> nat" where
  "Length_of_IRL irl = length (RHSIDs_of_IRL irl)"

record marpa_rw =
  rw_g :: marpa_g
  t_nsys :: "marpa_nsy list"
  t_irls :: "marpa_irl list"
  t_nsy_equivalents :: "nat option list"
  t_nulling_nsys :: "nat option list"
  t_start_irl :: "nat option"

text \<open>Before the rewriting there are none.\<close>

definition rw_start :: "marpa_g \<Rightarrow> marpa_rw" where
  "rw_start g = \<lparr>rw_g = g, t_nsys = [], t_irls = [], t_nsy_equivalents = replicate (length (t_xsys g)) None,
     t_nulling_nsys = replicate (length (t_xsys g)) None, t_start_irl = None\<rparr>"

section \<open>Ranks\<close>

definition EXTERNAL_RANK_FACTOR :: int where
  "EXTERNAL_RANK_FACTOR = 4"

definition MAXIMUM_CHAF_RANK :: int where
  "MAXIMUM_CHAF_RANK = 3"

definition IRL_CHAF_Rank_by_XRL :: "marpa_xrl \<Rightarrow> int \<Rightarrow> int" where
  "IRL_CHAF_Rank_by_XRL xrl chaf_rank =
     xrl_rank xrl * EXTERNAL_RANK_FACTOR + (if t_null_ranks_high xrl then MAXIMUM_CHAF_RANK - chaf_rank else chaf_rank)"

definition IRL_Rank_by_XRL :: "marpa_xrl \<Rightarrow> int" where
  "IRL_Rank_by_XRL xrl = IRL_CHAF_Rank_by_XRL xrl MAXIMUM_CHAF_RANK"

definition NSY_Rank_by_XSY :: "marpa_xsy \<Rightarrow> int" where
  "NSY_Rank_by_XSY xsy = xsy_rank xsy * EXTERNAL_RANK_FACTOR + MAXIMUM_CHAF_RANK"

definition default_internal_rank :: "marpa_g \<Rightarrow> int" where
  "default_internal_rank g = t_default_rank g * EXTERNAL_RANK_FACTOR + MAXIMUM_CHAF_RANK"

section \<open>New internal symbols\<close>

definition nsy_update :: "nat \<Rightarrow> (marpa_nsy \<Rightarrow> marpa_nsy) \<Rightarrow> marpa_rw \<Rightarrow> marpa_rw" where
  "nsy_update i f rw = rw\<lparr>t_nsys := (t_nsys rw)[i := f (t_nsys rw ! i)]\<rparr>"

definition nsy_start :: "marpa_rw \<Rightarrow> nat \<times> marpa_rw" where
  "nsy_start rw = (length (t_nsys rw), rw\<lparr>t_nsys := t_nsys rw @
     [\<lparr>nsy_source_xsy = None, nsy_lhs_xrl = None, nsy_xrl_offset = - 1, nsy_rank = default_internal_rank (rw_g rw),
       nsy_is_start = False, nsy_is_lhs = False, nsy_is_nulling = False, nsy_is_semantic = False\<rparr>]\<rparr>)"

definition nsy_new :: "nat \<Rightarrow> marpa_rw \<Rightarrow> nat \<times> marpa_rw" where
  "nsy_new source rw =
     (let (new_nsy, rw1) = nsy_start rw
      in (new_nsy, nsy_update new_nsy (\<lambda>nsy. nsy\<lparr>nsy_source_xsy := Some source,
            nsy_rank := NSY_Rank_by_XSY (t_xsys (rw_g rw) ! source)\<rparr>) rw1))"

definition semantic_nsy_new :: "nat \<Rightarrow> marpa_rw \<Rightarrow> nat \<times> marpa_rw" where
  "semantic_nsy_new source rw =
     (let (new_nsy, rw1) = nsy_new source rw
      in (new_nsy, nsy_update new_nsy (\<lambda>nsy. nsy\<lparr>nsy_is_semantic := True\<rparr>) rw1))"

definition nsy_clone :: "nat \<Rightarrow> marpa_rw \<Rightarrow> nat \<times> marpa_rw" where
  "nsy_clone xsy rw =
     (let (new_nsy, rw1) = nsy_start rw
      in (new_nsy, nsy_update new_nsy (\<lambda>nsy. nsy\<lparr>nsy_source_xsy := Some xsy, nsy_is_semantic := True,
            nsy_rank := NSY_Rank_by_XSY (t_xsys (rw_g rw) ! xsy),
            nsy_is_nulling := xsy_is_nulling (t_xsys (rw_g rw) ! xsy)\<rparr>) rw1))"

definition symbol_alias_create :: "nat \<Rightarrow> marpa_rw \<Rightarrow> nat \<times> marpa_rw" where
  "symbol_alias_create symbol rw =
     (let (alias_nsy, rw1) = semantic_nsy_new symbol rw;
          rw2 = rw1\<lparr>rw_g := xsy_update symbol (\<lambda>xsy. xsy\<lparr>xsy_is_nulling := False, xsy_is_nullable := True\<rparr>) (rw_g rw1)\<rparr>
      in (alias_nsy, nsy_update alias_nsy (\<lambda>nsy. nsy\<lparr>nsy_is_nulling := True\<rparr>) rw2))"

text \<open>The loop that gives every symbol its internal symbols.\<close>

definition clone_symbol :: "nat \<Rightarrow> marpa_rw \<Rightarrow> marpa_rw" where
  "clone_symbol xsy_id rw =
     (let xsy_to_clone = t_xsys (rw_g rw) ! xsy_id in
      if \<not> xsy_is_accessible xsy_to_clone then rw
      else if \<not> xsy_is_productive xsy_to_clone then rw
      else (let (nsy, rw1) = nsy_clone xsy_id rw;
                rw2 = rw1\<lparr>t_nsy_equivalents := (t_nsy_equivalents rw1)[xsy_id := Some nsy]\<rparr> in
            if xsy_is_nulling xsy_to_clone then rw2\<lparr>t_nulling_nsys := (t_nulling_nsys rw2)[xsy_id := Some nsy]\<rparr>
            else if xsy_is_nullable xsy_to_clone
            then (let (alias, rw3) = symbol_alias_create xsy_id rw2
                  in rw3\<lparr>t_nulling_nsys := (t_nulling_nsys rw3)[xsy_id := Some alias]\<rparr>)
            else rw2))"

definition clone_symbols :: "marpa_rw \<Rightarrow> marpa_rw" where
  "clone_symbols rw = fold clone_symbol [0..<length (t_xsys (rw_g rw))] rw"

section \<open>New internal rules\<close>

text \<open>
  An IRL is on the stack from its start, and its array and fields are written through the pointer. Here
  the array is an argument, the fields are set next, and \<open>irl_finish\<close> puts the IRL on the stack and marks
  its left hand side.
\<close>

definition irl_start :: "nat list \<Rightarrow> marpa_rw \<Rightarrow> marpa_irl" where
  "irl_start nsyids rw = \<lparr>irl_source_xrl = None, irl_nsyids = nsyids, irl_real_symbol_count = 0, irl_virtual_start = - 1,
     irl_virtual_end = - 1, irl_rank = default_internal_rank (rw_g rw), irl_is_virtual_lhs = False,
     irl_is_virtual_rhs = False, irl_is_right_recursive = False\<rparr>"

definition irl_finish :: "marpa_irl \<Rightarrow> marpa_rw \<Rightarrow> marpa_rw" where
  "irl_finish irl rw = nsy_update (LHSID_of_IRL irl) (\<lambda>nsy. nsy\<lparr>nsy_is_lhs := True\<rparr>) (rw\<lparr>t_irls := t_irls rw @ [irl]\<rparr>)"

text \<open>The internal symbol of a symbol; without one the code reads through \<open>NULL\<close>.\<close>

definition NSYID_by_XSYID :: "marpa_rw \<Rightarrow> nat \<Rightarrow> nat option" where
  "NSYID_by_XSYID rw xsy_id = t_nsy_equivalents rw ! xsy_id"

definition Nulling_NSYID_by_XSYID :: "marpa_rw \<Rightarrow> nat \<Rightarrow> nat option" where
  "Nulling_NSYID_by_XSYID rw xsy_id = t_nulling_nsys rw ! xsy_id"

text \<open>A sequence rule: an internal symbol for one item or more, and its four rules.\<close>

definition sequence_top :: "nat \<Rightarrow> marpa_xrl \<Rightarrow> nat \<Rightarrow> nat \<Rightarrow> marpa_rw \<Rightarrow> marpa_rw" where
  "sequence_top rule_id rule lhs_nsyid internal_lhs_nsyid rw = irl_finish
     ((irl_start [lhs_nsyid, internal_lhs_nsyid] rw)
        \<lparr>irl_source_xrl := Some rule_id, irl_rank := IRL_Rank_by_XRL rule, irl_is_virtual_rhs := True\<rparr>) rw"

definition sequence_top_separated :: "nat \<Rightarrow> marpa_xrl \<Rightarrow> nat \<Rightarrow> nat \<Rightarrow> nat \<Rightarrow> marpa_rw \<Rightarrow> marpa_rw" where
  "sequence_top_separated rule_id rule lhs_nsyid internal_lhs_nsyid separator_nsyid rw = irl_finish
     ((irl_start [lhs_nsyid, internal_lhs_nsyid, separator_nsyid] rw)
        \<lparr>irl_source_xrl := Some rule_id, irl_rank := IRL_Rank_by_XRL rule, irl_is_virtual_rhs := True,
         irl_real_symbol_count := 1\<rparr>) rw"

definition sequence_base :: "nat \<Rightarrow> marpa_xrl \<Rightarrow> nat \<Rightarrow> nat \<Rightarrow> marpa_rw \<Rightarrow> marpa_rw" where
  "sequence_base rule_id rule internal_lhs_nsyid rhs_nsyid rw = irl_finish
     ((irl_start [internal_lhs_nsyid, rhs_nsyid] rw)
        \<lparr>irl_source_xrl := Some rule_id, irl_rank := IRL_Rank_by_XRL rule, irl_is_virtual_lhs := True,
         irl_real_symbol_count := 1\<rparr>) rw"

definition sequence_step :: "nat \<Rightarrow> marpa_xrl \<Rightarrow> nat \<Rightarrow> nat option \<Rightarrow> nat \<Rightarrow> marpa_rw \<Rightarrow> marpa_rw" where
  "sequence_step rule_id rule internal_lhs_nsyid separator_nsyid rhs_nsyid rw =
     (let rhs = [internal_lhs_nsyid] @ (case separator_nsyid of None \<Rightarrow> [] | Some s \<Rightarrow> [s]) @ [rhs_nsyid]
      in irl_finish
           ((irl_start (internal_lhs_nsyid # rhs) rw)
              \<lparr>irl_source_xrl := Some rule_id, irl_rank := IRL_Rank_by_XRL rule, irl_is_virtual_lhs := True,
               irl_is_virtual_rhs := True, irl_real_symbol_count := int (length rhs) - 1\<rparr>) rw)"

definition rewrite_sequence :: "nat \<Rightarrow> marpa_xrl \<Rightarrow> marpa_rw \<Rightarrow> marpa_rw option" where
  "rewrite_sequence rule_id rule rw = do {
     lhs_nsyid \<leftarrow> NSYID_by_XSYID rw (LHS_ID_of_XRL rule);
     let (internal_lhs_nsyid, rw1) = nsy_new (LHS_ID_of_XRL rule) rw;
     rhs_nsyid \<leftarrow> NSYID_by_XSYID rw1 (RHS_IDs_of_XRL rule ! 0);
     separator_nsyid \<leftarrow> (if 0 \<le> t_separator_id rule
       then map_option Some (NSYID_by_XSYID rw1 (nat (t_separator_id rule))) else Some None);
     let rw2 = nsy_update internal_lhs_nsyid (\<lambda>nsy. nsy\<lparr>nsy_lhs_xrl := Some rule_id\<rparr>) rw1;
     let rw3 = sequence_top rule_id rule lhs_nsyid internal_lhs_nsyid rw2;
     let rw4 = (case separator_nsyid of
         Some s \<Rightarrow> if \<not> t_is_proper_separation rule
           then sequence_top_separated rule_id rule lhs_nsyid internal_lhs_nsyid s rw3 else rw3
       | None \<Rightarrow> rw3);
     let rw5 = sequence_base rule_id rule internal_lhs_nsyid rhs_nsyid rw4;
     Some (sequence_step rule_id rule internal_lhs_nsyid separator_nsyid rhs_nsyid rw5)
   }"

section \<open>Rules with nullable symbols\<close>

text \<open>
  The places of the nullable symbols that are not nulling (the factors), and the place after the last
  symbol that is not nullable, from where on the rule can vanish.
\<close>

fun factor_scan :: "marpa_g \<Rightarrow> nat list \<Rightarrow> nat \<Rightarrow> nat list \<Rightarrow> nat \<Rightarrow> nat list \<times> nat" where
  "factor_scan g [] rhs_ix factor_positions nullable_suffix_ix = (factor_positions, nullable_suffix_ix)"
| "factor_scan g (symid # symids) rhs_ix factor_positions nullable_suffix_ix =
     (let symbol = t_xsys g ! symid in
      if xsy_is_nulling symbol then factor_scan g symids (rhs_ix + 1) factor_positions nullable_suffix_ix
      else if xsy_is_nullable symbol then factor_scan g symids (rhs_ix + 1) (factor_positions @ [rhs_ix]) nullable_suffix_ix
      else factor_scan g symids (rhs_ix + 1) factor_positions (rhs_ix + 1))"

text \<open>
  The right hand sides are written by loops over ranges of places, each with the nulling or with the
  other internal symbols. The ranges are given in the order of the loops; the end is not included.
\<close>

type_synonym symbol_range = "bool \<times> nat \<times> nat"

fun piece_symbols :: "marpa_rw \<Rightarrow> nat list \<Rightarrow> symbol_range list \<Rightarrow> nat list option" where
  "piece_symbols rw rhs [] = Some []"
| "piece_symbols rw rhs ((nulling, low, high) # ranges) = do {
     nsyids \<leftarrow> those (map (\<lambda>p. (if nulling then Nulling_NSYID_by_XSYID else NSYID_by_XSYID) rw (rhs ! p)) [low..<high]);
     rest \<leftarrow> piece_symbols rw rhs ranges;
     Some (nsyids @ rest)
   }"

text \<open>The settings that all the IRLs of a rule with factors have in common.\<close>

definition add_chaf_irl :: "nat \<Rightarrow> marpa_xrl \<Rightarrow> nat \<Rightarrow> nat \<Rightarrow> int \<Rightarrow> int \<Rightarrow> nat list \<Rightarrow> marpa_rw \<Rightarrow> marpa_rw" where
  "add_chaf_irl rule_id rule current_lhs_nsyid piece_start real_symbol_count chaf_rank rhs rw =
     (let chaf_irl = (irl_start (current_lhs_nsyid # rhs) rw)
            \<lparr>irl_rank := IRL_CHAF_Rank_by_XRL rule chaf_rank, irl_source_xrl := Some rule_id,
             irl_is_virtual_lhs := piece_start > 0, irl_is_virtual_rhs := int (length rhs) > real_symbol_count,
             irl_virtual_start := int piece_start, irl_virtual_end := int piece_start + real_symbol_count - 1,
             irl_real_symbol_count := real_symbol_count\<rparr>
      in nsy_update current_lhs_nsyid (\<lambda>nsy. nsy\<lparr>nsy_lhs_xrl := Some rule_id, nsy_xrl_offset := int piece_start\<rparr>)
           (irl_finish chaf_irl rw))"

text \<open>
  The two factors of a piece are both there (PP), the second is nulled (PN), the first (NP), or both (NN).
  A piece ends in a new internal symbol for the rest of the rule. Where the rest can vanish, what
  vanishes with it is written out to the end of the rule (\<open>chaf_P_rest\<close>, \<open>chaf_N_rest\<close>).
\<close>

definition chaf_PP :: "nat \<Rightarrow> marpa_xrl \<Rightarrow> nat \<Rightarrow> nat \<Rightarrow> nat \<Rightarrow> nat \<Rightarrow> marpa_rw \<Rightarrow> marpa_rw option" where
  "chaf_PP rule_id rule lhs piece_start piece_end virtual rw = do {
     nsyids \<leftarrow> piece_symbols rw (RHS_IDs_of_XRL rule) [(False, piece_start, piece_end + 1)];
     Some (add_chaf_irl rule_id rule lhs piece_start (int piece_end - int piece_start + 1) 3 (nsyids @ [virtual]) rw)
   }"

definition chaf_P_rest :: "nat \<Rightarrow> marpa_xrl \<Rightarrow> nat \<Rightarrow> nat \<Rightarrow> nat \<Rightarrow> marpa_rw \<Rightarrow> marpa_rw option" where
  "chaf_P_rest rule_id rule lhs piece_start second_factor_position rw =
     (let rewrite_xrl_length = length (RHS_IDs_of_XRL rule) in do {
        nsyids \<leftarrow> piece_symbols rw (RHS_IDs_of_XRL rule)
          [(False, piece_start, second_factor_position), (True, second_factor_position, rewrite_xrl_length)];
        Some (add_chaf_irl rule_id rule lhs piece_start (int rewrite_xrl_length - int piece_start) 2 nsyids rw)
      })"

definition chaf_NP :: "nat \<Rightarrow> marpa_xrl \<Rightarrow> nat \<Rightarrow> nat \<Rightarrow> nat \<Rightarrow> nat \<Rightarrow> nat \<Rightarrow> marpa_rw \<Rightarrow> marpa_rw option" where
  "chaf_NP rule_id rule lhs piece_start piece_end first_factor_position virtual rw = do {
     nsyids \<leftarrow> piece_symbols rw (RHS_IDs_of_XRL rule)
       [(False, piece_start, first_factor_position), (True, first_factor_position, first_factor_position + 1),
        (False, first_factor_position + 1, piece_end + 1)];
     Some (add_chaf_irl rule_id rule lhs piece_start (int piece_end - int piece_start + 1) 1 (nsyids @ [virtual]) rw)
   }"

definition chaf_N_rest :: "nat \<Rightarrow> marpa_xrl \<Rightarrow> nat \<Rightarrow> nat \<Rightarrow> nat \<Rightarrow> nat \<Rightarrow> nat \<Rightarrow> marpa_rw \<Rightarrow> marpa_rw option" where
  "chaf_N_rest rule_id rule lhs piece_start first_factor_position second_factor_position nullable_suffix_ix rw =
     (let rewrite_xrl_length = length (RHS_IDs_of_XRL rule) in
      if piece_start < nullable_suffix_ix then do {
        nsyids \<leftarrow> piece_symbols rw (RHS_IDs_of_XRL rule)
          [(False, piece_start, first_factor_position), (True, first_factor_position, first_factor_position + 1),
           (False, first_factor_position + 1, second_factor_position), (True, second_factor_position, rewrite_xrl_length)];
        Some (add_chaf_irl rule_id rule lhs piece_start (int rewrite_xrl_length - int piece_start) 0 nsyids rw)
      } else Some rw)"

definition chaf_PN :: "nat \<Rightarrow> marpa_xrl \<Rightarrow> nat \<Rightarrow> nat \<Rightarrow> nat \<Rightarrow> nat \<Rightarrow> nat \<Rightarrow> marpa_rw \<Rightarrow> marpa_rw option" where
  "chaf_PN rule_id rule lhs piece_start piece_end second_factor_position virtual rw = do {
     nsyids \<leftarrow> piece_symbols rw (RHS_IDs_of_XRL rule)
       [(False, piece_start, second_factor_position), (True, second_factor_position, second_factor_position + 1),
        (False, second_factor_position + 1, piece_end + 1)];
     Some (add_chaf_irl rule_id rule lhs piece_start (int piece_end - int piece_start + 1) 2 (nsyids @ [virtual]) rw)
   }"

definition chaf_NN :: "nat \<Rightarrow> marpa_xrl \<Rightarrow> nat \<Rightarrow> nat \<Rightarrow> nat \<Rightarrow> nat \<Rightarrow> nat \<Rightarrow> nat \<Rightarrow> marpa_rw \<Rightarrow> marpa_rw option" where
  "chaf_NN rule_id rule lhs piece_start piece_end first_factor_position second_factor_position virtual rw = do {
     nsyids \<leftarrow> piece_symbols rw (RHS_IDs_of_XRL rule)
       [(False, piece_start, first_factor_position), (True, first_factor_position, first_factor_position + 1),
        (False, first_factor_position + 1, second_factor_position), (True, second_factor_position, second_factor_position + 1),
        (False, second_factor_position + 1, piece_end + 1)];
     Some (add_chaf_irl rule_id rule lhs piece_start (int piece_end - int piece_start + 1) 0 (nsyids @ [virtual]) rw)
   }"

text \<open>The last piece, with two factors.\<close>

definition last_PP :: "nat \<Rightarrow> marpa_xrl \<Rightarrow> nat \<Rightarrow> nat \<Rightarrow> nat \<Rightarrow> marpa_rw \<Rightarrow> marpa_rw option" where
  "last_PP rule_id rule lhs piece_start piece_end rw = do {
     nsyids \<leftarrow> piece_symbols rw (RHS_IDs_of_XRL rule) [(False, piece_start, piece_end + 1)];
     Some (add_chaf_irl rule_id rule lhs piece_start (int (length (RHS_IDs_of_XRL rule)) - int piece_start) 3 nsyids rw)
   }"

definition last_PN :: "nat \<Rightarrow> marpa_xrl \<Rightarrow> nat \<Rightarrow> nat \<Rightarrow> nat \<Rightarrow> nat \<Rightarrow> marpa_rw \<Rightarrow> marpa_rw option" where
  "last_PN rule_id rule lhs piece_start piece_end second_factor_position rw = do {
     nsyids \<leftarrow> piece_symbols rw (RHS_IDs_of_XRL rule)
       [(False, piece_start, second_factor_position), (True, second_factor_position, second_factor_position + 1),
        (False, second_factor_position + 1, piece_end + 1)];
     Some (add_chaf_irl rule_id rule lhs piece_start (int (length (RHS_IDs_of_XRL rule)) - int piece_start) 2 nsyids rw)
   }"

definition last_NP :: "nat \<Rightarrow> marpa_xrl \<Rightarrow> nat \<Rightarrow> nat \<Rightarrow> nat \<Rightarrow> nat \<Rightarrow> marpa_rw \<Rightarrow> marpa_rw option" where
  "last_NP rule_id rule lhs piece_start piece_end first_factor_position rw = do {
     nsyids \<leftarrow> piece_symbols rw (RHS_IDs_of_XRL rule)
       [(False, piece_start, first_factor_position), (True, first_factor_position, first_factor_position + 1),
        (False, first_factor_position + 1, piece_end + 1)];
     Some (add_chaf_irl rule_id rule lhs piece_start (int (length (RHS_IDs_of_XRL rule)) - int piece_start) 1 nsyids rw)
   }"

definition last_NN :: "nat \<Rightarrow> marpa_xrl \<Rightarrow> nat \<Rightarrow> nat \<Rightarrow> nat \<Rightarrow> nat \<Rightarrow> nat \<Rightarrow> nat \<Rightarrow> marpa_rw \<Rightarrow> marpa_rw option" where
  "last_NN rule_id rule lhs piece_start piece_end first_factor_position second_factor_position nullable_suffix_ix rw =
     (if piece_start < nullable_suffix_ix then do {
        nsyids \<leftarrow> piece_symbols rw (RHS_IDs_of_XRL rule)
          [(False, piece_start, first_factor_position), (True, first_factor_position, first_factor_position + 1),
           (False, first_factor_position + 1, second_factor_position), (True, second_factor_position, second_factor_position + 1),
           (False, second_factor_position + 1, piece_end + 1)];
        Some (add_chaf_irl rule_id rule lhs piece_start (int (length (RHS_IDs_of_XRL rule)) - int piece_start) 0 nsyids rw)
      } else Some rw)"

text \<open>The last piece, with one factor.\<close>

definition last_P :: "nat \<Rightarrow> marpa_xrl \<Rightarrow> nat \<Rightarrow> nat \<Rightarrow> nat \<Rightarrow> marpa_rw \<Rightarrow> marpa_rw option" where
  "last_P rule_id rule lhs piece_start piece_end rw = do {
     nsyids \<leftarrow> piece_symbols rw (RHS_IDs_of_XRL rule) [(False, piece_start, piece_end + 1)];
     Some (add_chaf_irl rule_id rule lhs piece_start (int piece_end - int piece_start + 1) 3 nsyids rw)
   }"

definition last_N :: "nat \<Rightarrow> marpa_xrl \<Rightarrow> nat \<Rightarrow> nat \<Rightarrow> nat \<Rightarrow> nat \<Rightarrow> nat \<Rightarrow> marpa_rw \<Rightarrow> marpa_rw option" where
  "last_N rule_id rule lhs piece_start piece_end first_factor_position nullable_suffix_ix rw =
     (if piece_start < nullable_suffix_ix then do {
        nsyids \<leftarrow> piece_symbols rw (RHS_IDs_of_XRL rule)
          [(False, piece_start, first_factor_position), (True, first_factor_position, first_factor_position + 1),
           (False, first_factor_position + 1, piece_end + 1)];
        Some (add_chaf_irl rule_id rule lhs piece_start (int piece_end - int piece_start + 1) 0 nsyids rw)
      } else Some rw)"

text \<open>
  The loop over the pieces; the list holds the factors that are left, of which there is always one. A
  piece whose second factor is in the nullable end of the rule takes one factor, any other takes two.
\<close>

fun chaf_loop :: "nat \<Rightarrow> marpa_xrl \<Rightarrow> nat \<Rightarrow> nat list \<Rightarrow> nat \<Rightarrow> nat \<Rightarrow> marpa_rw \<Rightarrow> marpa_rw option" where
  "chaf_loop rule_id rule nullable_suffix_ix (first # second # third # factors) piece_start lhs rw =
     (if second \<ge> nullable_suffix_ix then do {
        let piece_end = second - 1;
        let (virtual, rw1) = nsy_new (LHS_ID_of_XRL rule) rw;
        rw2 \<leftarrow> chaf_PP rule_id rule lhs piece_start piece_end virtual rw1;
        rw3 \<leftarrow> chaf_P_rest rule_id rule lhs piece_start second rw2;
        rw4 \<leftarrow> chaf_NP rule_id rule lhs piece_start piece_end first virtual rw3;
        rw5 \<leftarrow> chaf_N_rest rule_id rule lhs piece_start first second nullable_suffix_ix rw4;
        chaf_loop rule_id rule nullable_suffix_ix (second # third # factors) (piece_end + 1) virtual rw5
      } else do {
        let piece_end = second;
        let (virtual, rw1) = nsy_new (LHS_ID_of_XRL rule) rw;
        rw2 \<leftarrow> chaf_PP rule_id rule lhs piece_start piece_end virtual rw1;
        rw3 \<leftarrow> chaf_PN rule_id rule lhs piece_start piece_end second virtual rw2;
        rw4 \<leftarrow> chaf_NP rule_id rule lhs piece_start piece_end first virtual rw3;
        rw5 \<leftarrow> chaf_NN rule_id rule lhs piece_start piece_end first second virtual rw4;
        chaf_loop rule_id rule nullable_suffix_ix (third # factors) (piece_end + 1) virtual rw5
      })"
| "chaf_loop rule_id rule nullable_suffix_ix [first, second] piece_start lhs rw = do {
     let piece_end = length (RHS_IDs_of_XRL rule) - 1;
     rw1 \<leftarrow> last_PP rule_id rule lhs piece_start piece_end rw;
     rw2 \<leftarrow> last_PN rule_id rule lhs piece_start piece_end second rw1;
     rw3 \<leftarrow> last_NP rule_id rule lhs piece_start piece_end first rw2;
     last_NN rule_id rule lhs piece_start piece_end first second nullable_suffix_ix rw3
   }"
| "chaf_loop rule_id rule nullable_suffix_ix [first] piece_start lhs rw = do {
     let piece_end = length (RHS_IDs_of_XRL rule) - 1;
     rw1 \<leftarrow> last_P rule_id rule lhs piece_start piece_end rw;
     last_N rule_id rule lhs piece_start piece_end first nullable_suffix_ix rw1
   }"
| "chaf_loop rule_id rule nullable_suffix_ix [] piece_start lhs rw = None"

definition chaf_rewrite :: "nat \<Rightarrow> marpa_xrl \<Rightarrow> nat list \<Rightarrow> nat \<Rightarrow> marpa_rw \<Rightarrow> marpa_rw option" where
  "chaf_rewrite rule_id rule factor_positions nullable_suffix_ix rw = do {
     current_lhs_nsyid \<leftarrow> NSYID_by_XSYID rw (LHS_ID_of_XRL rule);
     chaf_loop rule_id rule nullable_suffix_ix factor_positions 0 current_lhs_nsyid rw
   }"

text \<open>A rule without factors is copied.\<close>

definition copy_rule :: "nat \<Rightarrow> marpa_xrl \<Rightarrow> marpa_rw \<Rightarrow> marpa_rw option" where
  "copy_rule rule_id rule rw = do {
     nsyids \<leftarrow> those (map (NSYID_by_XSYID rw) (LHS_ID_of_XRL rule # RHS_IDs_of_XRL rule));
     Some (irl_finish ((irl_start nsyids rw)\<lparr>irl_source_xrl := Some rule_id, irl_rank := IRL_Rank_by_XRL rule\<rparr>) rw)
   }"

section \<open>All the rules\<close>

text \<open>The array for the factors has one place for each symbol of the longest rule.\<close>

definition rewrite_rule :: "nat \<Rightarrow> marpa_rw \<Rightarrow> marpa_rw option" where
  "rewrite_rule rule_id rw =
     (let rule = t_xrls (rw_g rw) ! rule_id in
      if \<not> xrl_is_used rule then Some rw
      else if t_is_sequence rule then rewrite_sequence rule_id rule rw
      else (let (factor_positions, nullable_suffix_ix) = factor_scan (rw_g rw) (RHS_IDs_of_XRL rule) 0 [] 0 in do {
        require (length factor_positions \<le> t_max_rule_length (rw_g rw));
        (if length factor_positions > 0 then chaf_rewrite rule_id rule factor_positions nullable_suffix_ix rw
         else copy_rule rule_id rule rw)
      }))"

fun rewrite_rules :: "nat list \<Rightarrow> marpa_rw \<Rightarrow> marpa_rw option" where
  "rewrite_rules [] rw = Some rw"
| "rewrite_rules (rule_id # rule_ids) rw = do {
     rw1 \<leftarrow> rewrite_rule rule_id rw;
     rewrite_rules rule_ids rw1
   }"

text \<open>A new start symbol, unless the grammar has only the empty string.\<close>

definition augment_start :: "marpa_rw \<Rightarrow> marpa_rw option" where
  "augment_start rw =
     (let start_xsy = nat (t_start_xsy_id (rw_g rw)) in
      if xsy_is_nulling (t_xsys (rw_g rw) ! start_xsy) then Some rw
      else do {
        let (new_start_nsy, rw1) = nsy_new start_xsy rw;
        let rw2 = nsy_update new_start_nsy (\<lambda>nsy. nsy\<lparr>nsy_is_start := True\<rparr>) rw1;
        let rw3 = rw2\<lparr>rw_g := xsy_update start_xsy (\<lambda>xsy. xsy\<lparr>xsy_is_start := False\<rparr>) (rw_g rw2)\<rparr>;
        start_nsyid \<leftarrow> NSYID_by_XSYID rw3 start_xsy;
        let new_start_irl = (irl_start [new_start_nsy, start_nsyid] rw3)
              \<lparr>irl_is_virtual_lhs := True, irl_real_symbol_count := 1\<rparr>;
        Some ((irl_finish new_start_irl rw3)\<lparr>t_start_irl := Some (length (t_irls rw3))\<rparr>)
      })"

definition rewrite_grammar :: "marpa_g \<Rightarrow> marpa_rw option" where
  "rewrite_grammar g = do {
     rw \<leftarrow> rewrite_rules [0..<length (t_xrls g)] (clone_symbols (rw_start g));
     augment_start rw
   }"

text \<open>\<open>marpa_g_precompute\<close> up to the internal rules.\<close>

definition marpa_g_precompute_rewrite :: "marpa_g \<Rightarrow> ((int \<times> marpa_g) + marpa_rw) option" where
  "marpa_g_precompute_rewrite g = do {
     x \<leftarrow> marpa_g_precompute_start g;
     (case x of
        Inl failure \<Rightarrow> Some (Inl failure)
      | Inr g1 \<Rightarrow> do { rw \<leftarrow> rewrite_grammar g1; Some (Inr rw) })
   }"

text \<open>
  What the interface tells about the internal symbols and rules (\<open>src/libmarpa-dist/marpa.c\<close>). The checks are
  those of the grammar; a function that follows a pointer that may be NULL, or reads an array at a
  place that it does not check, has an optional result.
\<close>

definition rw_or_else :: "check \<Rightarrow> int \<Rightarrow> marpa_rw \<Rightarrow> int \<times> marpa_rw" where
  "rw_or_else c result rw = (case c of None \<Rightarrow> (result, rw) | Some (failure, g) \<Rightarrow> (failure, rw\<lparr>rw_g := g\<rparr>))"

definition rw_or_run :: "check \<Rightarrow> int option \<Rightarrow> marpa_rw \<Rightarrow> (int \<times> marpa_rw) option" where
  "rw_or_run c result rw = (case c of
     None \<Rightarrow> map_option (\<lambda>n. (n, rw)) result
   | Some (failure, g) \<Rightarrow> Some (failure, rw\<lparr>rw_g := g\<rparr>))"

section \<open>Internal symbols\<close>

definition nsy_is_valid :: "marpa_rw \<Rightarrow> int \<Rightarrow> bool" where
  "nsy_is_valid rw nsyid \<longleftrightarrow> nsyid \<ge> 0 \<and> nsyid < int (length (t_nsys rw))"

definition fail_if_nsyid_is_invalid :: "marpa_rw \<Rightarrow> int \<Rightarrow> check" where
  "fail_if_nsyid_is_invalid rw nsy_id = fail_if (\<not> nsy_is_valid rw nsy_id) MARPA_ERR_INVALID_NSYID (- 2) (rw_g rw)"

definition NSY_by_ID :: "marpa_rw \<Rightarrow> int \<Rightarrow> marpa_nsy" where
  "NSY_by_ID rw nsy_id = t_nsys rw ! nat nsy_id"

definition nsy_checks :: "marpa_rw \<Rightarrow> int \<Rightarrow> check" where
  "nsy_checks rw nsy_id = first_failure
     [g_fail_if_fatal (rw_g rw), fail_if_not_precomputed (rw_g rw), fail_if_nsyid_is_invalid rw nsy_id]"

definition xsy_nsy_checks :: "marpa_rw \<Rightarrow> int \<Rightarrow> check" where
  "xsy_nsy_checks rw xsy_id = first_failure
     [fail_if_xsy_id_is_malformed (rw_g rw) xsy_id, no_such_symbol (- 1) (rw_g rw) xsy_id]"

definition id_or_none :: "nat option \<Rightarrow> int" where
  "id_or_none x = (case x of None \<Rightarrow> - 1 | Some i \<Rightarrow> int i)"

definition marpa_g_xsy_nsy :: "marpa_rw \<Rightarrow> int \<Rightarrow> int \<times> marpa_rw" where
  "marpa_g_xsy_nsy rw xsy_id = rw_or_else (xsy_nsy_checks rw xsy_id) (id_or_none (NSYID_by_XSYID rw (nat xsy_id))) rw"

definition marpa_g_xsy_nulling_nsy :: "marpa_rw \<Rightarrow> int \<Rightarrow> int \<times> marpa_rw" where
  "marpa_g_xsy_nulling_nsy rw xsy_id = rw_or_else (xsy_nsy_checks rw xsy_id) (id_or_none (Nulling_NSYID_by_XSYID rw (nat xsy_id))) rw"

definition marpa_g_nsy_count :: "marpa_rw \<Rightarrow> int \<times> marpa_rw" where
  "marpa_g_nsy_count rw = rw_or_else (g_fail_if_fatal (rw_g rw)) (int (length (t_nsys rw))) rw"

definition marpa_g_nsy_is_start :: "marpa_rw \<Rightarrow> int \<Rightarrow> int \<times> marpa_rw" where
  "marpa_g_nsy_is_start rw nsy_id = rw_or_else (nsy_checks rw nsy_id) (of_bool (nsy_is_start (NSY_by_ID rw nsy_id))) rw"

definition marpa_g_nsy_is_lhs :: "marpa_rw \<Rightarrow> int \<Rightarrow> int \<times> marpa_rw" where
  "marpa_g_nsy_is_lhs rw nsy_id = rw_or_else (nsy_checks rw nsy_id) (of_bool (nsy_is_lhs (NSY_by_ID rw nsy_id))) rw"

definition marpa_g_nsy_is_nulling :: "marpa_rw \<Rightarrow> int \<Rightarrow> int \<times> marpa_rw" where
  "marpa_g_nsy_is_nulling rw nsy_id = rw_or_else (nsy_checks rw nsy_id) (of_bool (nsy_is_nulling (NSY_by_ID rw nsy_id))) rw"

text \<open>The following functions do not check that the grammar is precomputed.\<close>

definition marpa_g_nsy_is_semantic :: "marpa_rw \<Rightarrow> int \<Rightarrow> int \<times> marpa_rw" where
  "marpa_g_nsy_is_semantic rw nsy_id = rw_or_else (fail_if_nsyid_is_invalid rw nsy_id) (of_bool (nsy_is_semantic (NSY_by_ID rw nsy_id))) rw"

definition marpa_g_source_xsy :: "marpa_rw \<Rightarrow> int \<Rightarrow> (int \<times> marpa_rw) option" where
  "marpa_g_source_xsy rw nsy_id = rw_or_run (fail_if_nsyid_is_invalid rw nsy_id) (map_option int (nsy_source_xsy (NSY_by_ID rw nsy_id))) rw"

definition marpa_g_nsy_lhs_xrl :: "marpa_rw \<Rightarrow> int \<Rightarrow> int \<times> marpa_rw" where
  "marpa_g_nsy_lhs_xrl rw nsy_id = rw_or_else (fail_if_nsyid_is_invalid rw nsy_id) (id_or_none (nsy_lhs_xrl (NSY_by_ID rw nsy_id))) rw"

definition marpa_g_nsy_xrl_offset :: "marpa_rw \<Rightarrow> int \<Rightarrow> int \<times> marpa_rw" where
  "marpa_g_nsy_xrl_offset rw nsy_id = rw_or_else (fail_if_nsyid_is_invalid rw nsy_id) (nsy_xrl_offset (NSY_by_ID rw nsy_id)) rw"

definition marpa_g_nsy_rank :: "marpa_rw \<Rightarrow> int \<Rightarrow> int \<times> marpa_rw" where
  "marpa_g_nsy_rank rw nsy_id = rw_or_else (fail_if_nsyid_is_invalid rw nsy_id) (nsy_rank (NSY_by_ID rw nsy_id)) rw"

section \<open>Internal rules\<close>

definition IRLID_of_G_is_Valid :: "marpa_rw \<Rightarrow> int \<Rightarrow> bool" where
  "IRLID_of_G_is_Valid rw irl_id \<longleftrightarrow> irl_id \<ge> 0 \<and> irl_id < int (length (t_irls rw))"

definition fail_if_irlid_is_invalid :: "marpa_rw \<Rightarrow> int \<Rightarrow> check" where
  "fail_if_irlid_is_invalid rw irl_id = fail_if (\<not> IRLID_of_G_is_Valid rw irl_id) MARPA_ERR_INVALID_IRLID (- 2) (rw_g rw)"

definition IRL_by_ID :: "marpa_rw \<Rightarrow> int \<Rightarrow> marpa_irl" where
  "IRL_by_ID rw irl_id = t_irls rw ! nat irl_id"

definition irl_checks :: "marpa_rw \<Rightarrow> int \<Rightarrow> check" where
  "irl_checks rw irl_id = first_failure
     [g_fail_if_fatal (rw_g rw), fail_if_not_precomputed (rw_g rw), fail_if_irlid_is_invalid rw irl_id]"

definition precomputed_irl_checks :: "marpa_rw \<Rightarrow> int \<Rightarrow> check" where
  "precomputed_irl_checks rw irl_id = first_failure [fail_if_not_precomputed (rw_g rw), fail_if_irlid_is_invalid rw irl_id]"

definition marpa_g_irl_count :: "marpa_rw \<Rightarrow> int \<times> marpa_rw" where
  "marpa_g_irl_count rw = rw_or_else (g_fail_if_fatal (rw_g rw)) (int (length (t_irls rw))) rw"

definition marpa_g_irl_semantic_equivalent :: "marpa_rw \<Rightarrow> int \<Rightarrow> (int \<times> marpa_rw) option" where
  "marpa_g_irl_semantic_equivalent rw irl_id = rw_or_run (fail_if_irlid_is_invalid rw irl_id)
     (let irl = IRL_by_ID rw irl_id in if irl_is_virtual_lhs irl then Some (- 1) else map_option int (irl_source_xrl irl)) rw"

definition marpa_g_irl_lhs :: "marpa_rw \<Rightarrow> int \<Rightarrow> int \<times> marpa_rw" where
  "marpa_g_irl_lhs rw irl_id = rw_or_else (irl_checks rw irl_id) (int (LHSID_of_IRL (IRL_by_ID rw irl_id))) rw"

text \<open>The place is checked from above only; the left hand side is before the right hand side in the array.\<close>

definition marpa_g_irl_rhs :: "marpa_rw \<Rightarrow> int \<Rightarrow> int \<Rightarrow> (int \<times> marpa_rw) option" where
  "marpa_g_irl_rhs rw irl_id ix = rw_or_run (irl_checks rw irl_id)
     (let irl = IRL_by_ID rw irl_id in
      if int (Length_of_IRL irl) \<le> ix then Some (- 1)
      else if ix + 1 < 0 then None
      else Some (int (irl_nsyids irl ! nat (ix + 1)))) rw"

definition marpa_g_irl_length :: "marpa_rw \<Rightarrow> int \<Rightarrow> int \<times> marpa_rw" where
  "marpa_g_irl_length rw irl_id = rw_or_else (irl_checks rw irl_id) (int (Length_of_IRL (IRL_by_ID rw irl_id))) rw"

definition marpa_g_irl_is_virtual_lhs :: "marpa_rw \<Rightarrow> int \<Rightarrow> int \<times> marpa_rw" where
  "marpa_g_irl_is_virtual_lhs rw irl_id = rw_or_else (precomputed_irl_checks rw irl_id) (of_bool (irl_is_virtual_lhs (IRL_by_ID rw irl_id))) rw"

definition marpa_g_irl_is_virtual_rhs :: "marpa_rw \<Rightarrow> int \<Rightarrow> int \<times> marpa_rw" where
  "marpa_g_irl_is_virtual_rhs rw irl_id = rw_or_else (precomputed_irl_checks rw irl_id) (of_bool (irl_is_virtual_rhs (IRL_by_ID rw irl_id))) rw"

definition marpa_g_real_symbol_count :: "marpa_rw \<Rightarrow> int \<Rightarrow> int \<times> marpa_rw" where
  "marpa_g_real_symbol_count rw irl_id = rw_or_else (precomputed_irl_checks rw irl_id) (irl_real_symbol_count (IRL_by_ID rw irl_id)) rw"

definition marpa_g_virtual_start :: "marpa_rw \<Rightarrow> int \<Rightarrow> int \<times> marpa_rw" where
  "marpa_g_virtual_start rw irl_id = rw_or_else (precomputed_irl_checks rw irl_id) (irl_virtual_start (IRL_by_ID rw irl_id)) rw"

definition marpa_g_virtual_end :: "marpa_rw \<Rightarrow> int \<Rightarrow> int \<times> marpa_rw" where
  "marpa_g_virtual_end rw irl_id = rw_or_else (precomputed_irl_checks rw irl_id) (irl_virtual_end (IRL_by_ID rw irl_id)) rw"

definition marpa_g_source_xrl :: "marpa_rw \<Rightarrow> int \<Rightarrow> int \<times> marpa_rw" where
  "marpa_g_source_xrl rw irl_id = rw_or_else (fail_if_irlid_is_invalid rw irl_id) (id_or_none (irl_source_xrl (IRL_by_ID rw irl_id))) rw"

definition marpa_g_irl_rank :: "marpa_rw \<Rightarrow> int \<Rightarrow> int \<times> marpa_rw" where
  "marpa_g_irl_rank rw irl_id = rw_or_else (fail_if_irlid_is_invalid rw irl_id) (irl_rank (IRL_by_ID rw irl_id)) rw"

end
