(* ===== verification/ChafForms.thy ===== *)
theory ChafForms
  imports Main
begin

text \<open>
  The pieces into which a rule with nullable symbols is cut, as pairs of a left hand side and a right hand
  side. A choice of the factors that are nulled gives one right hand side of the rule; the pieces spell
  every choice that they may, each in one way.
\<close>

section \<open>Spelling\<close>

text \<open>
  What a symbol stands for when the virtual symbols are replaced by their rules. A right hand side has at
  most one virtual symbol, so the rules that are used form a path.
\<close>

inductive spells :: "(nat \<times> nat list) set \<Rightarrow> (nat \<Rightarrow> bool) \<Rightarrow> nat \<Rightarrow> nat list list \<Rightarrow> nat list \<Rightarrow> bool" for P virt where
  spells_whole: "(v, xs) \<in> P \<Longrightarrow> \<forall>x \<in> set xs. \<not> virt x \<Longrightarrow> spells P virt v [xs] xs"
| spells_piece: "(v, xs @ w # zs) \<in> P \<Longrightarrow> virt w \<Longrightarrow> \<forall>x \<in> set (xs @ zs). \<not> virt x \<Longrightarrow> spells P virt w path ys
    \<Longrightarrow> spells P virt v ((xs @ w # zs) # path) (xs @ ys @ zs)"

inductive_cases spellsE: "spells P virt v path ys"

definition opens :: "(nat \<times> nat list) set \<Rightarrow> (nat \<Rightarrow> bool) \<Rightarrow> nat list \<Rightarrow> nat list list \<Rightarrow> nat list \<Rightarrow> bool" where
  "opens P virt xs path ys \<longleftrightarrow> (\<forall>x \<in> set xs. \<not> virt x) \<and> path = [xs] \<and> ys = xs
     \<or> (\<exists>a w b path' ys'. xs = a @ w # b \<and> virt w \<and> (\<forall>x \<in> set (a @ b). \<not> virt x) \<and> path = xs # path' \<and> ys = a @ ys' @ b
          \<and> spells P virt w path' ys')"

lemma spells_iff: "spells P virt v path ys \<longleftrightarrow> (\<exists>xs. (v, xs) \<in> P \<and> opens P virt xs path ys)"
proof
  assume "spells P virt v path ys"
  then show "\<exists>xs. (v, xs) \<in> P \<and> opens P virt xs path ys"
  proof cases
    case (spells_piece xs w zs path' ys')
    then show ?thesis unfolding opens_def by (intro exI [of _ "xs @ w # zs"]) blast
  qed (auto simp: opens_def)
next
  assume "\<exists>xs. (v, xs) \<in> P \<and> opens P virt xs path ys"
  then show "spells P virt v path ys" unfolding opens_def by (auto intro: spells.intros)
qed

lemma opens_plain: "\<forall>x \<in> set xs. \<not> virt x \<Longrightarrow> opens P virt xs path ys \<longleftrightarrow> path = [xs] \<and> ys = xs"
  unfolding opens_def by auto

lemma one_virtual:
  assumes "a @ w # b = c @ v # d" "virt v" "virt w" "\<forall>x \<in> set (a @ b). \<not> virt x"
  shows "a = c \<and> w = v \<and> b = d"
  using assms by (auto simp: append_eq_append_conv2 Cons_eq_append_conv append_eq_Cons_conv)

lemma opens_virtual:
  assumes "virt w" "\<forall>x \<in> set (a @ b). \<not> virt x"
  shows "opens P virt (a @ w # b) path ys \<longleftrightarrow>
    (\<exists>path' ys'. path = (a @ w # b) # path' \<and> ys = a @ ys' @ b \<and> spells P virt w path' ys')"
proof
  assume "opens P virt (a @ w # b) path ys"
  then obtain c v d path' ys' where *: "c @ v # d = a @ w # b" "virt v" "\<forall>x \<in> set (c @ d). \<not> virt x" "path = (a @ w # b) # path'"
    "ys = c @ ys' @ d" "spells P virt v path' ys'"
    using assms(1) unfolding opens_def by auto
  from one_virtual [OF *(1) assms(1) *(2,3)] * show "\<exists>path' ys'. path = (a @ w # b) # path' \<and> ys = a @ ys' @ b \<and> spells P virt w path' ys'"
    by auto
next
  assume "\<exists>path' ys'. path = (a @ w # b) # path' \<and> ys = a @ ys' @ b \<and> spells P virt w path' ys'"
  with assms show "opens P virt (a @ w # b) path ys" unfolding opens_def by blast
qed

lemma opens_last:
  "virt w \<Longrightarrow> \<forall>x \<in> set a. \<not> virt x \<Longrightarrow> opens P virt (a @ [w]) path ys \<longleftrightarrow>
    (\<exists>path' ys'. path = (a @ [w]) # path' \<and> ys = a @ ys' \<and> spells P virt w path' ys')"
  using opens_virtual [of virt w a "[]" P path ys] by simp

text \<open>Only the rules that the symbol can come to matter.\<close>

lemma spells_within:
  assumes "\<And>x xs. (x, xs) \<in> P \<Longrightarrow> x \<in> D \<Longrightarrow> (x, xs) \<in> Q \<and> (\<forall>w \<in> set xs. virt w \<longrightarrow> w \<in> D)"
  shows "spells P virt v path ys \<Longrightarrow> v \<in> D \<Longrightarrow> spells Q virt v path ys"
proof (induction rule: spells.induct)
  case (spells_whole v xs)
  with assms [OF spells_whole(1,3)] show ?case by (intro spells.spells_whole) simp_all
next
  case (spells_piece v xs w zs path ys)
  note a = assms [OF spells_piece(1) spells_piece.prems]
  have "spells Q virt w path ys" using a spells_piece(2,5) by simp
  with a spells_piece(2,3) show ?case by (intro spells.spells_piece) simp_all
qed

lemma spells_mono:
  assumes "spells P virt v path ys" "P \<subseteq> Q"
  shows "spells Q virt v path ys"
  using assms(2) by (intro spells_within [OF _ assms(1), of UNIV]) auto

lemma spells_plain: "spells P virt v path ys \<Longrightarrow> \<forall>y \<in> set ys. \<not> virt y"
  by (induction rule: spells.induct) auto

section \<open>Choices\<close>

text \<open>The symbols at the places from \<open>a\<close> to \<open>b\<close>, those of \<open>N\<close> nulled.\<close>

definition choice :: "(nat \<Rightarrow> nat) \<Rightarrow> (nat \<Rightarrow> nat) \<Rightarrow> nat list \<Rightarrow> nat set \<Rightarrow> nat \<Rightarrow> nat \<Rightarrow> nat list" where
  "choice proper nulled rhs N a b = map (\<lambda>p. (if p \<in> N then nulled else proper) (rhs ! p)) [a..<b]"

lemma choice_append: "a \<le> b \<Longrightarrow> b \<le> c \<Longrightarrow> choice proper nulled rhs N a b @ choice proper nulled rhs N b c = choice proper nulled rhs N a c"
  unfolding choice_def map_append [symmetric] using upt_add_eq_append [of a b "c - b"] by simp

lemma choice_cong:
  "(\<And>p. a \<le> p \<Longrightarrow> p < b \<Longrightarrow> p \<in> N \<longleftrightarrow> p \<in> M) \<Longrightarrow> choice proper nulled rhs N a b = choice proper nulled rhs M a b"
  unfolding choice_def by simp

lemma choice_same:
  assumes "\<And>p. a \<le> p \<Longrightarrow> p < b \<Longrightarrow> p \<in> N \<Longrightarrow> p \<in> M \<or> nulled (rhs ! p) = proper (rhs ! p)" "M \<inter> {a..<b} \<subseteq> N"
  shows "choice proper nulled rhs N a b = choice proper nulled rhs M a b"
  unfolding choice_def
proof (rule map_cong [OF refl])
  fix p assume "p \<in> set [a..<b]"
  then have p: "a \<le> p" "p < b" by simp_all
  then have "p \<in> M \<Longrightarrow> p \<in> N" using assms(2) by auto
  with assms(1) [OF p] show "(if p \<in> N then nulled else proper) (rhs ! p) = (if p \<in> M then nulled else proper) (rhs ! p)"
    by (cases "p \<in> N") auto
qed

lemma choice_length [simp]: "length (choice proper nulled rhs N a b) = b - a"
  by (simp add: choice_def)

section \<open>The pieces\<close>

text \<open>The pairs that the loop makes, with the number \<open>v\<close> of the next new symbol.\<close>

fun chaf_sides :: "(nat set \<Rightarrow> nat \<Rightarrow> nat \<Rightarrow> nat list) \<Rightarrow> nat \<Rightarrow> nat \<Rightarrow> nat list \<Rightarrow> nat \<Rightarrow> nat \<Rightarrow> nat \<Rightarrow> (nat \<times> nat list) list" where
  "chaf_sides form n suffix (f # s # t # fs) ps lhs v =
     (if suffix \<le> s
      then [(lhs, form {} ps s @ [v]), (lhs, form {s..<n} ps n), (lhs, form {f} ps s @ [v])]
        @ (if ps < suffix then [(lhs, form (insert f {s..<n}) ps n)] else [])
        @ chaf_sides form n suffix (s # t # fs) s v (Suc v)
      else [(lhs, form {} ps (Suc s) @ [v]), (lhs, form {s} ps (Suc s) @ [v]), (lhs, form {f} ps (Suc s) @ [v]),
          (lhs, form {f, s} ps (Suc s) @ [v])]
        @ chaf_sides form n suffix (t # fs) (Suc s) v (Suc v))"
| "chaf_sides form n suffix [f, s] ps lhs v =
     [(lhs, form {} ps n), (lhs, form {s} ps n), (lhs, form {f} ps n)] @ (if ps < suffix then [(lhs, form {f, s} ps n)] else [])"
| "chaf_sides form n suffix [f] ps lhs v = [(lhs, form {} ps n)] @ (if ps < suffix then [(lhs, form {f} ps n)] else [])"
| "chaf_sides form n suffix [] ps lhs v = []"

text \<open>How many new symbols there are, and the path that spells a choice.\<close>

fun chaf_virtuals :: "nat \<Rightarrow> nat list \<Rightarrow> nat" where
  "chaf_virtuals suffix (f # s # t # fs) = Suc (if suffix \<le> s then chaf_virtuals suffix (s # t # fs) else chaf_virtuals suffix (t # fs))"
| "chaf_virtuals suffix fs = 0"

fun route :: "(nat set \<Rightarrow> nat \<Rightarrow> nat \<Rightarrow> nat list) \<Rightarrow> nat \<Rightarrow> nat \<Rightarrow> nat list \<Rightarrow> nat \<Rightarrow> nat \<Rightarrow> nat set \<Rightarrow> nat list list" where
  "route form n suffix (f # s # t # fs) ps v N =
     (if suffix \<le> s
      then if set (s # t # fs) \<subseteq> N then [form N ps n] else (form N ps s @ [v]) # route form n suffix (s # t # fs) s (Suc v) N
      else (form N ps (Suc s) @ [v]) # route form n suffix (t # fs) (Suc s) (Suc v) N)"
| "route form n suffix fs ps v N = [form N ps n]"

definition plain :: "(nat set \<Rightarrow> nat \<Rightarrow> nat \<Rightarrow> nat list) \<Rightarrow> (nat \<Rightarrow> bool) \<Rightarrow> bool" where
  "plain form virt \<longleftrightarrow> (\<forall>N a b. \<forall>x \<in> set (form N a b). \<not> virt x)"

lemma sides_range:
  assumes "plain form virt"
  shows "(x, xs) \<in> set (chaf_sides form n suffix fs ps lhs v) \<Longrightarrow>
    (x = lhs \<or> v \<le> x \<and> x < v + chaf_virtuals suffix fs) \<and> (\<forall>y \<in> set xs. virt y \<longrightarrow> v \<le> y \<and> y < v + chaf_virtuals suffix fs)"
  using assms
proof (induction form n suffix fs ps lhs v arbitrary: x xs rule: chaf_sides.induct)
  case (1 form n suffix f s t fs ps lhs v)
  show ?case
  proof (cases "suffix \<le> s")
    case True
    then consider "x = lhs" "\<forall>y \<in> set xs. virt y \<longrightarrow> y = v" | "(x, xs) \<in> set (chaf_sides form n suffix (s # t # fs) s v (Suc v))"
      using 1(3,4) by (auto simp: plain_def split: if_splits)
    then show ?thesis
    proof cases
      case 2
      from 1(1) [OF True this 1(4)] True show ?thesis by auto
    qed (use True in auto)
  next
    case False
    then consider "x = lhs" "\<forall>y \<in> set xs. virt y \<longrightarrow> y = v" | "(x, xs) \<in> set (chaf_sides form n suffix (t # fs) (Suc s) v (Suc v))"
      using 1(3,4) by (auto simp: plain_def split: if_splits)
    then show ?thesis
    proof cases
      case 2
      from 1(2) [OF False this 1(4)] False show ?thesis by auto
    qed (use False in auto)
  qed
qed (auto simp: plain_def split: if_splits)

section \<open>The pieces spell the choices\<close>

lemma subsets_insert: "(\<exists>N \<subseteq> insert f S. Q N) \<longleftrightarrow> (\<exists>N \<subseteq> S. Q N \<or> Q (insert f N))"
proof
  assume "\<exists>N \<subseteq> insert f S. Q N"
  then obtain N where N: "N \<subseteq> insert f S" "Q N" by blast
  show "\<exists>N \<subseteq> S. Q N \<or> Q (insert f N)"
  proof (cases "f \<in> N")
    case True
    then have "insert f (N - {f}) = N" by blast
    with N show ?thesis by (intro exI [of _ "N - {f}"]) auto
  next
    case False
    with N show ?thesis by (intro exI [of _ N]) blast
  qed
qed blast

lemma route_cong:
  "sorted_wrt (<) fs \<Longrightarrow> \<forall>p \<in> set fs. ps \<le> p \<Longrightarrow> (\<And>p. ps \<le> p \<Longrightarrow> p \<in> N \<longleftrightarrow> p \<in> M)
    \<Longrightarrow> route (choice proper nulled rhs) n suffix fs ps v N = route (choice proper nulled rhs) n suffix fs ps v M"
proof (induction "choice proper nulled rhs" n suffix fs ps v N rule: route.induct)
  case (1 n suffix f s t fs ps v N)
  have c: "choice proper nulled rhs N a b = choice proper nulled rhs M a b" if "ps \<le> a" for a b
    using 1(5) that by (intro choice_cong) simp
  have "set (s # t # fs) \<subseteq> N \<longleftrightarrow> set (s # t # fs) \<subseteq> M" using 1(4,5) by (auto simp: subset_iff)
  moreover have "route (choice proper nulled rhs) n suffix (s # t # fs) s (Suc v) N = route (choice proper nulled rhs) n suffix (s # t # fs) s (Suc v) M"
    if "suffix \<le> s" "\<not> set (s # t # fs) \<subseteq> N"
    using 1(3,4) by (intro 1(1) [OF that] 1(5)) auto
  moreover have "route (choice proper nulled rhs) n suffix (t # fs) (Suc s) (Suc v) N = route (choice proper nulled rhs) n suffix (t # fs) (Suc s) (Suc v) M"
    if "\<not> suffix \<le> s"
    using 1(3,4) by (intro 1(2) [OF that] 1(5)) auto
  ultimately show ?case by (simp add: c)
qed (auto intro!: choice_cong)

text \<open>The pieces after the first, seen alone.\<close>

lemma spells_rest:
  assumes "plain form virt" "\<forall>p \<in> set front. fst p < v"
  shows "spells (set (front @ chaf_sides form n suffix fs ps v (Suc v))) virt v path ys
    \<longleftrightarrow> spells (set (chaf_sides form n suffix fs ps v (Suc v))) virt v path ys"
proof
  assume "spells (set (front @ chaf_sides form n suffix fs ps v (Suc v))) virt v path ys"
  then show "spells (set (chaf_sides form n suffix fs ps v (Suc v))) virt v path ys"
  proof (rule spells_within [rotated])
    fix x xs assume x: "(x, xs) \<in> set (front @ chaf_sides form n suffix fs ps v (Suc v))" "x \<in> {v..}"
    then have r: "(x, xs) \<in> set (chaf_sides form n suffix fs ps v (Suc v))" using assms(2) by auto
    from sides_range [OF assms(1) r] r
    show "(x, xs) \<in> set (chaf_sides form n suffix fs ps v (Suc v)) \<and> (\<forall>w \<in> set xs. virt w \<longrightarrow> w \<in> {v..})"
      by fastforce
  qed simp
qed (rule spells_mono, auto)

lemma spells_front:
  assumes "plain form virt" "lhs < v"
  shows "spells (set (map (Pair lhs) rs @ chaf_sides form n suffix fs ps v (Suc v))) virt lhs path ys
    \<longleftrightarrow> (\<exists>r \<in> set rs. opens (set (map (Pair lhs) rs @ chaf_sides form n suffix fs ps v (Suc v))) virt r path ys)"
proof -
  have "(lhs, xs) \<notin> set (chaf_sides form n suffix fs ps v (Suc v))" for xs
    using sides_range [OF assms(1), of lhs xs n suffix fs ps v "Suc v"] assms(2) by fastforce
  then show ?thesis by (subst spells_iff) auto
qed

text \<open>
  What is known of the factors that are left: they are in order, they are all the places after \<open>ps\<close> where
  the two symbols differ once the rest can vanish, and the end of the nullable suffix is not one of them.
\<close>

definition factors_left :: "(nat \<Rightarrow> nat) \<Rightarrow> (nat \<Rightarrow> nat) \<Rightarrow> nat list \<Rightarrow> nat \<Rightarrow> nat list \<Rightarrow> nat \<Rightarrow> bool" where
  "factors_left proper nulled rhs suffix fs ps \<longleftrightarrow> sorted_wrt (<) fs \<and> (\<forall>p \<in> set fs. ps \<le> p \<and> p < length rhs \<and> Suc p \<noteq> suffix)
     \<and> (\<forall>p. suffix \<le> p \<and> ps \<le> p \<and> p < length rhs \<longrightarrow> p \<in> set fs \<or> nulled (rhs ! p) = proper (rhs ! p))"

lemma factors_left_later:
  assumes "factors_left proper nulled rhs suffix (gs @ fs) ps" "\<forall>p \<in> set gs. p < q" "\<forall>p \<in> set fs. q \<le> p" "ps \<le> q"
  shows "factors_left proper nulled rhs suffix fs q"
proof -
  have "p \<in> set fs \<or> nulled (rhs ! p) = proper (rhs ! p)" if "suffix \<le> p" "q \<le> p" "p < length rhs" for p
  proof -
    have "p \<in> set gs \<or> p \<in> set fs \<or> nulled (rhs ! p) = proper (rhs ! p)"
      using assms(1,4) that by (auto simp: factors_left_def)
    then show ?thesis using assms(2) that by auto
  qed
  then show ?thesis using assms(1,3) by (auto simp: factors_left_def sorted_wrt_append)
qed

text \<open>The choices, and what a list of pieces is said to spell.\<close>

definition chosen :: "nat \<Rightarrow> nat list \<Rightarrow> nat \<Rightarrow> nat set \<Rightarrow> bool" where
  "chosen suffix fs ps N \<longleftrightarrow> N \<subseteq> set fs \<and> \<not> (suffix \<le> ps \<and> N = set fs)"

definition spells_choices :: "(nat set \<Rightarrow> nat \<Rightarrow> nat \<Rightarrow> nat list) \<Rightarrow> (nat \<Rightarrow> bool) \<Rightarrow> nat \<Rightarrow> nat \<Rightarrow> nat list \<Rightarrow> nat \<Rightarrow> nat \<Rightarrow> nat \<Rightarrow> bool" where
  "spells_choices form virt n suffix fs ps lhs v \<longleftrightarrow> (\<forall>path ys. spells (set (chaf_sides form n suffix fs ps lhs v)) virt lhs path ys
     \<longleftrightarrow> (\<exists>N. chosen suffix fs ps N \<and> ys = form N ps n \<and> path = route form n suffix fs ps v N))"

lemma chosen_insert:
  "(\<exists>N. chosen suffix (f # fs) ps N \<and> Q N) \<longleftrightarrow>
    (\<exists>N \<subseteq> set fs. Q N \<and> \<not> (suffix \<le> ps \<and> N = insert f (set fs)) \<or> Q (insert f N) \<and> \<not> (suffix \<le> ps \<and> insert f N = insert f (set fs)))"
  using subsets_insert [of f "set fs" "\<lambda>N. Q N \<and> \<not> (suffix \<le> ps \<and> N = insert f (set fs))"] unfolding chosen_def by auto

lemma front_one:
  assumes "plain form virt" "lhs < v" "virt v" "\<forall>x \<in> set r. \<not> virt x"
    and IH: "spells_choices form virt n suffix fs q v (Suc v)"
    and P: "P = set (map (Pair lhs) rs @ chaf_sides form n suffix fs q v (Suc v))"
  shows "opens P virt (r @ [v]) path ys \<longleftrightarrow> (\<exists>N. chosen suffix fs q N \<and> path = (r @ [v]) # route form n suffix fs q (Suc v) N \<and> ys = r @ form N q n)"
proof -
  have "\<forall>p \<in> set (map (Pair lhs) rs). fst p < v" using assms(2) by auto
  from spells_rest [OF assms(1) this] IH
  have "spells P virt v path' ys' \<longleftrightarrow> (\<exists>N. chosen suffix fs q N \<and> ys' = form N q n \<and> path' = route form n suffix fs q (Suc v) N)" for path' ys'
    unfolding P spells_choices_def by blast
  then show ?thesis unfolding opens_last [OF assms(3,4)] by blast
qed

lemma split_choices:
  assumes "\<And>N. N \<subseteq> S \<Longrightarrow> A N \<longleftrightarrow> (if N = S then a else B N)" "\<And>N. N \<subseteq> S \<Longrightarrow> C N \<longleftrightarrow> (if N = S then c else D N)"
  shows "(\<exists>N \<subseteq> S. A N \<or> C N \<and> \<not> (\<not> b \<and> N = S)) \<longleftrightarrow> a \<or> b \<and> c \<or> (\<exists>N. N \<subset> S \<and> B N) \<or> (\<exists>N. N \<subset> S \<and> D N)"
proof -
  have self: "(\<exists>N \<subseteq> S. Q N) \<longleftrightarrow> Q S \<or> (\<exists>N. N \<subset> S \<and> Q N)" for Q by (metis order_refl psubset_eq)
  have "(\<exists>N. N \<subset> S \<and> (A N \<or> C N \<and> \<not> (\<not> b \<and> N = S))) \<longleftrightarrow> (\<exists>N. N \<subset> S \<and> (B N \<or> D N))"
    by (intro ex_cong1 conj_cong refl) (simp add: assms psubset_eq)
  moreover have "A S \<longleftrightarrow> a" "C S \<longleftrightarrow> c" using assms [of S] by simp_all
  moreover have "(\<exists>N. N \<subset> S \<and> (B N \<or> D N)) \<longleftrightarrow> (\<exists>N. N \<subset> S \<and> B N) \<or> (\<exists>N. N \<subset> S \<and> D N)" by blast
  ultimately show ?thesis unfolding self [of "\<lambda>N. A N \<or> C N \<and> \<not> (\<not> b \<and> N = S)"] by (simp add: conj_commute)
qed

lemma step_nullable:
  assumes form: "form = choice proper nulled rhs" "n = length rhs" and plain: "plain form virt" and v: "lhs < v" "virt v"
    and left: "factors_left proper nulled rhs suffix (f # s # t # fs) ps" and s: "suffix \<le> s"
    and IH: "spells_choices form virt n suffix (s # t # fs) s v (Suc v)"
  shows "spells_choices form virt n suffix (f # s # t # fs) ps lhs v"
  unfolding spells_choices_def
proof (intro allI)
  fix path ys
  let ?S = "set (s # t # fs)"
  let ?route = "\<lambda>N. route form n suffix (s # t # fs) s (Suc v) N"
  let ?rs = "[form {} ps s @ [v], form {s..<n} ps n, form {f} ps s @ [v]] @ (if ps < suffix then [form (insert f {s..<n}) ps n] else [])"
  define P where "P = set (map (Pair lhs) ?rs @ chaf_sides form n suffix (s # t # fs) s v (Suc v))"
  have o: "f < s" "ps \<le> f" "\<forall>p \<in> ?S. s \<le> p \<and> p < n" "sorted_wrt (<) (s # t # fs)" "s < n"
    using left by (auto simp: factors_left_def form)
  have same: "p \<in> ?S \<or> nulled (rhs ! p) = proper (rhs ! p)" if "s \<le> p" "p < n" for p
  proof -
    have "suffix \<le> p" "ps \<le> p" "p \<noteq> f" "p < length rhs" using that o(1,2) s form(2) by auto
    moreover from this left have "p \<in> set (f # s # t # fs) \<or> nulled (rhs ! p) = proper (rhs ! p)" unfolding factors_left_def by blast
    ultimately show ?thesis by auto
  qed
  have fl: "\<forall>x \<in> set (form N a b). \<not> virt x" for N a b using plain by (simp add: plain_def)
  have sides: "set (chaf_sides form n suffix (f # s # t # fs) ps lhs v) = P" using s by (auto simp: P_def)
  have all: "form {s..<n} ps n = form ?S ps n" "form (insert f {s..<n}) ps n = form (insert f ?S) ps n"
    unfolding form(1) by (rule choice_same; use o(3) same in fastforce)+
  have split: "form N ps n = form M ps s @ form N s n" if "\<And>p. ps \<le> p \<Longrightarrow> p < s \<Longrightarrow> p \<in> N \<longleftrightarrow> p \<in> M" for N M
  proof -
    have "form N ps s = form M ps s" unfolding form(1) using that by (rule choice_cong)
    moreover have "form N ps s @ form N s n = form N ps n" unfolding form(1) using o(1,2,5) by (intro choice_append) simp_all
    ultimately show ?thesis by simp
  qed
  have late: "form (insert f N) s n = form N s n" for N unfolding form(1) using o(1) by (intro choice_cong) auto
  have later: "?route (insert f N) = ?route N" for N unfolding form(1) using o(1,3,4) by (intro route_cong) auto
  have early: "form N ps s = form {} ps s" "form (insert f N) ps s = form {f} ps s" if "N \<subseteq> ?S" for N
  proof -
    have "p \<notin> N" if "p < s" for p using \<open>N \<subseteq> ?S\<close> that o(3) by (meson in_mono not_le)
    then show "form N ps s = form {} ps s" "form (insert f N) ps s = form {f} ps s"
      unfolding form(1) by (intro choice_cong; simp)+
  qed
  have nf: "f \<notin> ?S" using o(1,3) by auto
  have spell: "spells P virt lhs path ys \<longleftrightarrow>
      (path = [form ?S ps n] \<and> ys = form ?S ps n) \<or> (ps < suffix \<and> path = [form (insert f ?S) ps n] \<and> ys = form (insert f ?S) ps n)
      \<or> (\<exists>N. N \<subset> ?S \<and> path = (form {} ps s @ [v]) # ?route N \<and> ys = form {} ps s @ form N s n)
      \<or> (\<exists>N. N \<subset> ?S \<and> path = (form {f} ps s @ [v]) # ?route N \<and> ys = form {f} ps s @ form N s n)"
  proof -
    have c: "chosen suffix (s # t # fs) s N \<longleftrightarrow> N \<subset> ?S" for N using s unfolding chosen_def by blast
    have "spells P virt lhs path ys \<longleftrightarrow> (\<exists>r \<in> set ?rs. opens P virt r path ys)"
      unfolding P_def by (rule spells_front [OF plain v(1)])
    also have "\<dots> \<longleftrightarrow> opens P virt (form {} ps s @ [v]) path ys \<or> opens P virt (form {f} ps s @ [v]) path ys
        \<or> opens P virt (form {s..<n} ps n) path ys \<or> ps < suffix \<and> opens P virt (form (insert f {s..<n}) ps n) path ys" by auto
    finally show ?thesis
      unfolding front_one [OF plain v fl IH P_def] opens_plain [OF fl] all c by blast
  qed
  have rt: "route form n suffix (f # s # t # fs) ps v N = (if ?S \<subseteq> N then [form N ps n] else (form N ps s @ [v]) # ?route N)" for N
    using s by simp
  have chosen: "(\<exists>N. chosen suffix (f # s # t # fs) ps N \<and> ys = form N ps n \<and> path = route form n suffix (f # s # t # fs) ps v N) \<longleftrightarrow>
      (\<exists>N \<subseteq> ?S. ys = form N ps n \<and> path = route form n suffix (f # s # t # fs) ps v N \<or>
        (ys = form (insert f N) ps n \<and> path = route form n suffix (f # s # t # fs) ps v (insert f N)) \<and> \<not> (\<not> ps < suffix \<and> N = ?S))"
    unfolding chosen_insert not_less using nf by (intro ex_cong1) (metis insert_ident insert_iff subsetD)
  have one: "ys = form N ps n \<and> path = route form n suffix (f # s # t # fs) ps v N \<longleftrightarrow>
      (if N = ?S then path = [form ?S ps n] \<and> ys = form ?S ps n else path = (form {} ps s @ [v]) # ?route N \<and> ys = form {} ps s @ form N s n)"
    and two: "ys = form (insert f N) ps n \<and> path = route form n suffix (f # s # t # fs) ps v (insert f N) \<longleftrightarrow>
      (if N = ?S then path = [form (insert f ?S) ps n] \<and> ys = form (insert f ?S) ps n
       else path = (form {f} ps s @ [v]) # ?route N \<and> ys = form {f} ps s @ form N s n)"
    if N: "N \<subseteq> ?S" for N
  proof -
    have "?S \<subseteq> N \<longleftrightarrow> N = ?S" "?S \<subseteq> insert f N \<longleftrightarrow> N = ?S" using N nf by auto
    moreover have x: "p \<notin> N" if "p < s" for p using N that o(3) by (meson in_mono not_le)
    moreover have "form N ps n = form {} ps s @ form N s n" using x by (intro split) auto
    moreover have "form (insert f N) ps n = form {f} ps s @ form N s n"
      using split [of "insert f N" "{f}"] x unfolding late by blast
    ultimately show
      "ys = form N ps n \<and> path = route form n suffix (f # s # t # fs) ps v N \<longleftrightarrow>
      (if N = ?S then path = [form ?S ps n] \<and> ys = form ?S ps n else path = (form {} ps s @ [v]) # ?route N \<and> ys = form {} ps s @ form N s n)"
      "ys = form (insert f N) ps n \<and> path = route form n suffix (f # s # t # fs) ps v (insert f N) \<longleftrightarrow>
      (if N = ?S then path = [form (insert f ?S) ps n] \<and> ys = form (insert f ?S) ps n
       else path = (form {f} ps s @ [v]) # ?route N \<and> ys = form {f} ps s @ form N s n)"
      unfolding rt later early [OF N] by auto
  qed
  have "(\<exists>N \<subseteq> ?S. ys = form N ps n \<and> path = route form n suffix (f # s # t # fs) ps v N \<or>
        (ys = form (insert f N) ps n \<and> path = route form n suffix (f # s # t # fs) ps v (insert f N)) \<and> \<not> (\<not> ps < suffix \<and> N = ?S))
      \<longleftrightarrow> spells P virt lhs path ys"
    unfolding spell by (rule split_choices [OF one two])
  then show "spells (set (chaf_sides form n suffix (f # s # t # fs) ps lhs v)) virt lhs path ys
     \<longleftrightarrow> (\<exists>N. chosen suffix (f # s # t # fs) ps N \<and> ys = form N ps n \<and> path = route form n suffix (f # s # t # fs) ps v N)"
    unfolding sides chosen by blast
qed

lemma subsets_insert2: "(\<exists>N \<subseteq> insert f (insert s S). Q N) \<longleftrightarrow> (\<exists>N \<subseteq> S. \<exists>M \<in> {{}, {s}, {f}, {f, s}}. Q (M \<union> N))"
  unfolding subsets_insert [of f "insert s S"] subsets_insert [of s S] by (simp add: disj_ac)

lemma swapped_choices:
  assumes "\<And>N M. N \<subseteq> T \<Longrightarrow> M \<subseteq> S \<Longrightarrow> Q M N \<longleftrightarrow> R M N" "\<forall>M \<in> \<M>. M \<subseteq> S"
  shows "(\<exists>N \<subseteq> T. \<exists>M \<in> \<M>. Q M N) \<longleftrightarrow> (\<exists>M \<in> \<M>. \<exists>N \<subseteq> T. R M N)"
  using assms by blast

lemma step_proper:
  assumes form: "form = choice proper nulled rhs" "n = length rhs" and plain: "plain form virt" and v: "lhs < v" "virt v"
    and left: "factors_left proper nulled rhs suffix (f # s # t # fs) ps" and s: "\<not> suffix \<le> s"
    and IH: "spells_choices form virt n suffix (t # fs) (Suc s) v (Suc v)"
  shows "spells_choices form virt n suffix (f # s # t # fs) ps lhs v"
  unfolding spells_choices_def
proof (intro allI)
  fix path ys
  let ?T = "set (t # fs)"
  let ?route = "\<lambda>N. route form n suffix (t # fs) (Suc s) (Suc v) N"
  let ?rs = "[form {} ps (Suc s) @ [v], form {s} ps (Suc s) @ [v], form {f} ps (Suc s) @ [v], form {f, s} ps (Suc s) @ [v]]"
  define P where "P = set (map (Pair lhs) ?rs @ chaf_sides form n suffix (t # fs) (Suc s) v (Suc v))"
  have o: "f < s" "ps \<le> f" "\<forall>p \<in> ?T. s < p \<and> p < n" "sorted_wrt (<) (t # fs)" "s < n" "Suc s < suffix" "ps < suffix"
    using left s by (auto simp: factors_left_def form)
  have fl: "\<forall>x \<in> set (form N a b). \<not> virt x" for N a b using plain by (simp add: plain_def)
  have sides: "set (chaf_sides form n suffix (f # s # t # fs) ps lhs v) = P" using s by (auto simp: P_def)
  have c: "chosen suffix (t # fs) (Suc s) N \<longleftrightarrow> N \<subseteq> ?T" for N using o(6) by (simp add: chosen_def)
  have x: "p \<notin> N" if "N \<subseteq> ?T" "p \<le> s" for N p using that o(3) by (meson in_mono not_le)
  have spell: "spells P virt lhs path ys \<longleftrightarrow> (\<exists>M \<in> {{}, {s}, {f}, {f, s}}. \<exists>N \<subseteq> ?T.
      path = (form M ps (Suc s) @ [v]) # ?route N \<and> ys = form M ps (Suc s) @ form N (Suc s) n)"
  proof -
    have "spells P virt lhs path ys \<longleftrightarrow> (\<exists>r \<in> set ?rs. opens P virt r path ys)"
      unfolding P_def by (rule spells_front [OF plain v(1)])
    also have "\<dots> \<longleftrightarrow> (\<exists>M \<in> {{}, {s}, {f}, {f, s}}. opens P virt (form M ps (Suc s) @ [v]) path ys)" by simp
    finally show ?thesis unfolding front_one [OF plain v fl IH P_def] c by blast
  qed
  have one: "ys = form (M \<union> N) ps n \<and> path = route form n suffix (f # s # t # fs) ps v (M \<union> N) \<longleftrightarrow>
      path = (form M ps (Suc s) @ [v]) # ?route N \<and> ys = form M ps (Suc s) @ form N (Suc s) n"
    if "N \<subseteq> ?T" "M \<subseteq> {f, s}" for M N
  proof -
    have "form (M \<union> N) ps (Suc s) @ form (M \<union> N) (Suc s) n = form (M \<union> N) ps n"
      unfolding form(1) using o(1,2,5) by (intro choice_append) simp_all
    moreover have "form (M \<union> N) ps (Suc s) = form M ps (Suc s)" unfolding form(1) using x [OF that(1)] by (intro choice_cong) simp
    moreover have m: "p \<notin> M" if "Suc s \<le> p" for p using \<open>M \<subseteq> {f, s}\<close> that o(1) by auto
    then have "form (M \<union> N) (Suc s) n = form N (Suc s) n" unfolding form(1) by (intro choice_cong) simp
    moreover have "?route (M \<union> N) = ?route N" unfolding form(1) using o(3,4) m by (intro route_cong) (auto simp: Suc_le_eq)
    ultimately show ?thesis using s by auto
  qed
  have "(\<exists>N. chosen suffix (f # s # t # fs) ps N \<and> ys = form N ps n \<and> path = route form n suffix (f # s # t # fs) ps v N) \<longleftrightarrow>
      (\<exists>N \<subseteq> insert f (insert s ?T). ys = form N ps n \<and> path = route form n suffix (f # s # t # fs) ps v N)"
  proof -
    have "chosen suffix (f # s # t # fs) ps N \<longleftrightarrow> N \<subseteq> insert f (insert s ?T)" for N using o(7) by (simp add: chosen_def)
    then show ?thesis by (simp only:)
  qed
  also have "\<dots> \<longleftrightarrow> (\<exists>N \<subseteq> ?T. \<exists>M \<in> {{}, {s}, {f}, {f, s}}.
      ys = form (M \<union> N) ps n \<and> path = route form n suffix (f # s # t # fs) ps v (M \<union> N))"
    by (rule subsets_insert2)
  also have "\<dots> \<longleftrightarrow> spells P virt lhs path ys" unfolding spell by (rule swapped_choices [where S = "{f, s}"]) (erule (1) one, auto)
  finally show "spells (set (chaf_sides form n suffix (f # s # t # fs) ps lhs v)) virt lhs path ys
     \<longleftrightarrow> (\<exists>N. chosen suffix (f # s # t # fs) ps N \<and> ys = form N ps n \<and> path = route form n suffix (f # s # t # fs) ps v N)"
    unfolding sides by blast
qed

text \<open>The last pieces have no virtual symbol.\<close>

lemma spells_all_plain:
  assumes "\<forall>(x, xs) \<in> set P. \<forall>y \<in> set xs. \<not> virt y"
  shows "spells (set P) virt lhs path ys \<longleftrightarrow> (\<exists>xs. (lhs, xs) \<in> set P \<and> path = [xs] \<and> ys = xs)"
  using assms by (subst spells_iff) (metis (mono_tags, lifting) case_prodD opens_plain)

lemma step_last:
  assumes plain: "plain form virt"
    and sides: "chaf_sides form n suffix fs ps lhs v = map (\<lambda>N. (lhs, form N ps n)) Ns"
    and choices: "\<And>N. chosen suffix fs ps N \<longleftrightarrow> N \<in> set Ns"
    and route: "\<And>N. route form n suffix fs ps v N = [form N ps n]"
  shows "spells_choices form virt n suffix fs ps lhs v"
  unfolding spells_choices_def route choices
proof (intro allI)
  fix path ys
  have "\<forall>(x, xs) \<in> set (chaf_sides form n suffix fs ps lhs v). \<forall>y \<in> set xs. \<not> virt y"
    unfolding sides using plain by (auto simp: plain_def)
  from spells_all_plain [OF this] show "spells (set (chaf_sides form n suffix fs ps lhs v)) virt lhs path ys
      \<longleftrightarrow> (\<exists>N. N \<in> set Ns \<and> ys = form N ps n \<and> path = [form N ps n])"
    unfolding sides by auto
qed

lemma subset_two: "N \<subseteq> {f, s} \<longleftrightarrow> N \<in> {{}, {s}, {f}, {f, s}}"
  by auto

theorem chaf_spells:
  assumes form: "form = choice proper nulled rhs" "n = length rhs" and plain: "plain form virt"
  shows "fs \<noteq> [] \<Longrightarrow> factors_left proper nulled rhs suffix fs ps \<Longrightarrow> lhs < v \<Longrightarrow> \<forall>x \<ge> v. virt x
    \<Longrightarrow> spells_choices form virt n suffix fs ps lhs v"
proof (induction suffix fs arbitrary: ps lhs v rule: chaf_virtuals.induct [case_names 1 none one two])
  case (1 suffix f s t fs)
  have o: "f < s" "ps \<le> f" "s < t" "\<forall>p \<in> set fs. t < p" using 1(4) by (auto simp: factors_left_def)
  show ?case
  proof (cases "suffix \<le> s")
    case True
    have "factors_left proper nulled rhs suffix (s # t # fs) s"
      using factors_left_later [of proper nulled rhs suffix "[f]" "s # t # fs" ps s] 1(4) o by fastforce
    from 1(1) [OF True _ this] 1(5,6) show ?thesis by (intro step_nullable [OF form plain 1(5) _ 1(4) True]) simp_all
  next
    case False
    have "factors_left proper nulled rhs suffix (t # fs) (Suc s)"
      using factors_left_later [of proper nulled rhs suffix "[f, s]" "t # fs" ps "Suc s"] 1(4) o by fastforce
    from 1(2) [OF False _ this] 1(5,6) show ?thesis by (intro step_proper [OF form plain 1(5) _ 1(4) False]) simp_all
  qed
next
  case (two suffix f s)
  have "f \<noteq> s" using two(2) by (auto simp: factors_left_def)
  show ?case
  proof (rule step_last [OF plain, of _ _ _ _ _ _ "[{}, {s}, {f}] @ (if ps < suffix then [{f, s}] else [])"])
    show "chosen suffix [f, s] ps N \<longleftrightarrow> N \<in> set ([{}, {s}, {f}] @ (if ps < suffix then [{f, s}] else []))" for N
    proof (cases "ps < suffix")
      case True
      with subset_two [of N f s] show ?thesis by (simp add: chosen_def)
    next
      case False
      have "{f, s} \<noteq> {}" "{f, s} \<noteq> {s}" "{f, s} \<noteq> {f}" using \<open>f \<noteq> s\<close> by auto
      with False subset_two [of N f s] show ?thesis by (simp add: chosen_def) blast
    qed
  qed simp_all
next
  case (one suffix f)
  show ?case
    by (rule step_last [OF plain, of _ _ _ _ _ _ "[{}] @ (if ps < suffix then [{f}] else [])"]) (auto simp: chosen_def)
qed simp

section \<open>One path for each choice\<close>

text \<open>The rules \<open>P\<close> spell the members of \<open>Y\<close> from \<open>v\<close>, each in exactly one way.\<close>

definition spells_once :: "(nat \<times> nat list) set \<Rightarrow> (nat \<Rightarrow> bool) \<Rightarrow> nat \<Rightarrow> nat list set \<Rightarrow> bool" where
  "spells_once P virt v Y \<longleftrightarrow> (\<forall>ys. (\<exists>path. spells P virt v path ys) \<longleftrightarrow> ys \<in> Y)
     \<and> (\<forall>path path' ys. spells P virt v path ys \<longrightarrow> spells P virt v path' ys \<longrightarrow> path = path')"

lemma spells_onceI:
  assumes "\<And>path ys. spells P virt v path ys \<longleftrightarrow> (\<exists>c. C c \<and> ys = word c \<and> path = way c)"
    "\<And>c c'. C c \<Longrightarrow> C c' \<Longrightarrow> word c = word c' \<Longrightarrow> c = c'"
  shows "spells_once P virt v {word c | c. C c}"
  unfolding spells_once_def assms(1) using assms(2) by blast

lemma choice_inj:
  assumes "choice proper nulled rhs N 0 (length rhs) = choice proper nulled rhs M 0 (length rhs)"
    "\<forall>p \<in> F. p < length rhs \<and> nulled (rhs ! p) \<noteq> proper (rhs ! p)" "N \<subseteq> F" "M \<subseteq> F"
  shows "N = M"
proof -
  have "p \<in> N \<longleftrightarrow> p \<in> M" if "p \<in> F" for p
  proof -
    have p: "p < length rhs" "nulled (rhs ! p) \<noteq> proper (rhs ! p)" using assms(2) that by auto
    then have "choice proper nulled rhs N 0 (length rhs) ! p = choice proper nulled rhs M 0 (length rhs) ! p" using assms(1) by simp
    with p show ?thesis by (auto simp: choice_def split: if_splits)
  qed
  with assms(3,4) show ?thesis by blast
qed

lemma chaf_spells_once:
  assumes "plain (choice proper nulled rhs) virt" "fs \<noteq> []" "factors_left proper nulled rhs suffix fs 0" "lhs < v" "\<forall>x \<ge> v. virt x"
    "\<forall>p \<in> set fs. nulled (rhs ! p) \<noteq> proper (rhs ! p)"
  shows "spells_once (set (chaf_sides (choice proper nulled rhs) (length rhs) suffix fs 0 lhs v)) virt lhs
    {choice proper nulled rhs N 0 (length rhs) | N. chosen suffix fs 0 N}"
proof (rule spells_onceI)
  from chaf_spells [OF refl refl assms(1-5)]
  show "spells (set (chaf_sides (choice proper nulled rhs) (length rhs) suffix fs 0 lhs v)) virt lhs path ys \<longleftrightarrow>
    (\<exists>N. chosen suffix fs 0 N \<and> ys = choice proper nulled rhs N 0 (length rhs)
      \<and> path = route (choice proper nulled rhs) (length rhs) suffix fs 0 v N)" for path ys
    unfolding spells_choices_def by blast
  have "\<forall>p \<in> set fs. p < length rhs \<and> nulled (rhs ! p) \<noteq> proper (rhs ! p)"
    using assms(3,6) by (auto simp: factors_left_def)
  then show "N = M" if "chosen suffix fs 0 N" "chosen suffix fs 0 M"
    "choice proper nulled rhs N 0 (length rhs) = choice proper nulled rhs M 0 (length rhs)" for N M
    using choice_inj [OF that(3)] that(1,2) by (auto simp: chosen_def)
qed

section \<open>Sequences\<close>

text \<open>The sides of a sequence rule with the item \<open>x\<close> and the separator, if there is one.\<close>

definition sequence_sides :: "nat \<Rightarrow> nat \<Rightarrow> nat \<Rightarrow> nat option \<Rightarrow> bool \<Rightarrow> (nat \<times> nat list) list" where
  "sequence_sides lhs v x separator proper = [(lhs, [v])]
     @ (case separator of Some s \<Rightarrow> if proper then [] else [(lhs, [v, s])] | None \<Rightarrow> [])
     @ [(v, [x]), (v, v # (case separator of Some s \<Rightarrow> [s] | None \<Rightarrow> []) @ [x])]"

definition repeated :: "nat \<Rightarrow> nat option \<Rightarrow> nat \<Rightarrow> nat list" where
  "repeated x separator k = x # concat (replicate k ((case separator of Some s \<Rightarrow> [s] | None \<Rightarrow> []) @ [x]))"

lemma repeated_Suc: "repeated x separator (Suc k) = repeated x separator k @ (case separator of Some s \<Rightarrow> [s] | None \<Rightarrow> []) @ [x]"
proof -
  have "concat (replicate (Suc k) b) = concat (replicate k b) @ b" for b :: "nat list"
    by (metis concat.simps(1) concat.simps(2) concat_append replicate_Suc replicate_append_same append_Nil2)
  then show ?thesis by (simp only: repeated_def append_Cons)
qed

lemma repeated_length: "length (repeated x separator k) = 1 + k * (if separator = None then 1 else 2)"
  by (induction k) (auto simp: repeated_def split: option.splits)

lemma spells_repeated:
  fixes proper
  assumes v: "virt v" "\<not> virt x" "\<forall>s. separator = Some s \<longrightarrow> \<not> virt s" "lhs \<noteq> v"
  defines "P \<equiv> set (sequence_sides lhs v x separator proper)"
  defines "step \<equiv> v # (case separator of Some s \<Rightarrow> [s] | None \<Rightarrow> []) @ [x]"
  shows "spells P virt v path ys \<longleftrightarrow> (\<exists>k. path = replicate k step @ [[x]] \<and> ys = repeated x separator k)"
proof
  have in_P: "(v, xs) \<in> P \<longleftrightarrow> xs = [x] \<or> xs = step" for xs
    using v(4) by (auto simp: P_def sequence_sides_def step_def split: option.splits if_splits)
  have b: "\<forall>y \<in> set ((case separator of Some s \<Rightarrow> [s] | None \<Rightarrow> []) @ [x]). \<not> virt y" using v by (auto split: option.splits)
  have o: "opens P virt step path ys \<longleftrightarrow> (\<exists>path' ys'. path = step # path'
      \<and> ys = ys' @ (case separator of Some s \<Rightarrow> [s] | None \<Rightarrow> []) @ [x] \<and> spells P virt v path' ys')" for path ys
    using opens_virtual [of virt v "[]" "(case separator of Some s \<Rightarrow> [s] | None \<Rightarrow> []) @ [x]" P path ys] v(1) b
    by (simp add: step_def)
  have iff: "spells P virt v path ys \<longleftrightarrow> path = [[x]] \<and> ys = [x] \<or> (\<exists>path' ys'. path = step # path'
      \<and> ys = ys' @ (case separator of Some s \<Rightarrow> [s] | None \<Rightarrow> []) @ [x] \<and> spells P virt v path' ys')" for path ys
    using opens_plain [of "[x]" virt P path ys] v(2) by (subst spells_iff) (auto simp: in_P o)
  {
    assume "spells P virt v path ys"
    then show "\<exists>k. path = replicate k step @ [[x]] \<and> ys = repeated x separator k"
    proof (induction path arbitrary: ys)
      case Nil
      with iff show ?case by blast
    next
      case (Cons a path)
      then consider "a = [x]" "path = []" "ys = [x]" | ys' where "a = step" "ys = ys' @ (case separator of Some s \<Rightarrow> [s] | None \<Rightarrow> []) @ [x]"
        "spells P virt v path ys'" using iff [of "a # path" ys] by blast
      then show ?case
      proof cases
        case 1
        then show ?thesis by (intro exI [of _ 0]) (simp add: repeated_def)
      next
        case 2
        with Cons.IH obtain k where "path = replicate k step @ [[x]]" "ys' = repeated x separator k" by blast
        with 2 show ?thesis by (intro exI [of _ "Suc k"]) (simp add: repeated_Suc)
      qed
    qed
  }
  assume "\<exists>k. path = replicate k step @ [[x]] \<and> ys = repeated x separator k"
  then obtain k where "path = replicate k step @ [[x]]" "ys = repeated x separator k" by blast
  then show "spells P virt v path ys"
  proof (induction k arbitrary: path ys)
    case 0
    then show ?case using iff [of path ys] by (simp add: repeated_def)
  next
    case (Suc k)
    with iff [of path ys] show ?case by (simp add: repeated_Suc)
  qed
qed

text \<open>The words that a sequence rule spells: items, and a separator after them unless the separation is proper.\<close>

definition sequence_words :: "nat \<Rightarrow> nat option \<Rightarrow> bool \<Rightarrow> nat list set" where
  "sequence_words x separator proper = {repeated x separator k @ (if t then [the separator] else []) | k t.
     t \<longrightarrow> separator \<noteq> None \<and> \<not> proper}"

theorem sequence_spells_once:
  assumes v: "virt v" "\<not> virt x" "\<forall>s. separator = Some s \<longrightarrow> \<not> virt s" "lhs \<noteq> v"
  shows "spells_once (set (sequence_sides lhs v x separator proper)) virt lhs (sequence_words x separator proper)"
proof -
  let ?P = "set (sequence_sides lhs v x separator proper)"
  let ?step = "v # (case separator of Some s \<Rightarrow> [s] | None \<Rightarrow> []) @ [x]"
  define C where "C c \<longleftrightarrow> (case c of (k :: nat, t) \<Rightarrow> t \<longrightarrow> separator \<noteq> None \<and> \<not> proper)" for c
  define word where "word c = (case c of (k, t) \<Rightarrow> repeated x separator k @ (if t then [the separator] else []))" for c
  define way where "way c = (case c of (k, t) \<Rightarrow> (if t then [v, the separator] else [v]) # replicate k ?step @ [[x]])" for c
  have in_P: "(lhs, xs) \<in> ?P \<longleftrightarrow> xs = [v] \<or> (\<exists>s. separator = Some s \<and> \<not> proper \<and> xs = [v, s])" for xs
    using v(4) by (auto simp: sequence_sides_def split: option.splits if_splits)
  have once: "spells_once ?P virt lhs {word c | c. C c}"
  proof (rule spells_onceI)
    fix path ys
    have o1: "opens ?P virt [v] path ys \<longleftrightarrow> (\<exists>k. path = [v] # replicate k ?step @ [[x]] \<and> ys = repeated x separator k)"
      using opens_virtual [of virt v "[]" "[]" ?P path ys] spells_repeated [OF v, of proper] v(1) by auto
    have o2: "opens ?P virt [v, s] path ys \<longleftrightarrow> (\<exists>k. path = [v, s] # replicate k ?step @ [[x]] \<and> ys = repeated x separator k @ [s])"
      if "separator = Some s" for s
      using opens_virtual [of virt v "[]" "[s]" ?P path ys] spells_repeated [OF v, of proper] v(1,3) that by auto
    have "spells ?P virt lhs path ys \<longleftrightarrow> opens ?P virt [v] path ys \<or> (\<exists>s. separator = Some s \<and> \<not> proper \<and> opens ?P virt [v, s] path ys)"
      by (subst spells_iff) (auto simp: in_P)
    also have "\<dots> \<longleftrightarrow> (\<exists>k. path = [v] # replicate k ?step @ [[x]] \<and> ys = repeated x separator k)
        \<or> (\<exists>s k. separator = Some s \<and> \<not> proper \<and> path = [v, s] # replicate k ?step @ [[x]] \<and> ys = repeated x separator k @ [s])"
      unfolding o1 using o2 by blast
    also have "\<dots> \<longleftrightarrow> (\<exists>c. C c \<and> ys = word c \<and> path = way c)"
      unfolding C_def word_def way_def split_paired_Ex ex_bool_eq by auto
    finally show "spells ?P virt lhs path ys \<longleftrightarrow> (\<exists>c. C c \<and> ys = word c \<and> path = way c)" .
  next
    fix c c' assume c: "C c" "C c'" "word c = word c'"
    obtain k t k' t' where *: "c = (k, t)" "c' = (k', t')" by (cases c; cases c')
    from c(3) have "length (word c) = length (word c')" by simp
    then have l: "k * (if separator = None then 1 else 2) + of_bool t = k' * (if separator = None then 1 else 2) + of_bool t'"
      by (cases "separator = None"; cases t; cases t'; simp add: * word_def repeated_length)
    show "c = c'"
    proof (cases "separator = None")
      case True
      with c(1,2) have "\<not> t" "\<not> t'" by (auto simp: C_def *)
      with l True show ?thesis by (simp add: *)
    next
      case False
      with l have "2 * k + of_bool t = 2 * k' + of_bool t'" by simp
      then have "k = k' \<and> t = t'" by (cases t; cases t'; simp; presburger)
      then show ?thesis by (simp add: *)
    qed
  qed
  moreover have "{word c | c. C c} = sequence_words x separator proper"
    unfolding sequence_words_def word_def C_def by auto
  ultimately show ?thesis by simp
qed

text \<open>Every new symbol is the left hand side of a piece.\<close>

lemma sides_cover:
  "fs \<noteq> [] \<Longrightarrow> lhs \<in> fst ` set (chaf_sides form n suffix fs ps lhs v)
    \<and> (\<forall>x. v \<le> x \<and> x < v + chaf_virtuals suffix fs \<longrightarrow> x \<in> fst ` set (chaf_sides form n suffix fs ps lhs v))"
proof (induction suffix fs arbitrary: ps lhs v rule: chaf_virtuals.induct)
  case (1 suffix f s t fs)
  have grow: "lhs \<in> fst ` set (front @ rest) \<and> (\<forall>x. v \<le> x \<and> x < v + Suc m \<longrightarrow> x \<in> fst ` set (front @ rest))"
    if "lhs \<in> fst ` set front" "v \<in> fst ` set rest \<and> (\<forall>x. Suc v \<le> x \<and> x < Suc v + m \<longrightarrow> x \<in> fst ` set rest)"
    for front rest :: "(nat \<times> nat list) list" and m
  proof -
    have "x \<in> fst ` set rest" if "v \<le> x" "x < v + Suc m" for x
    proof (cases "x = v")
      case False
      with that have "Suc v \<le> x \<and> x < Suc v + m" by simp
      with \<open>v \<in> _ \<and> _\<close> show ?thesis by blast
    qed (use \<open>v \<in> _ \<and> _\<close> in blast)
    with that(1) show ?thesis unfolding set_append image_Un by blast
  qed
  show ?case
  proof (cases "suffix \<le> s")
    case True
    from 1(1) [OF True, of v s "Suc v"] True
      grow [of "[(lhs, form {} ps s @ [v]), (lhs, form {s..<n} ps n), (lhs, form {f} ps s @ [v])]
        @ (if ps < suffix then [(lhs, form (insert f {s..<n}) ps n)] else [])"
        "chaf_sides form n suffix (s # t # fs) s v (Suc v)" "chaf_virtuals suffix (s # t # fs)"]
    show ?thesis by simp
  next
    case False
    from 1(2) [OF False, of v "Suc s" "Suc v"] False
      grow [of "[(lhs, form {} ps (Suc s) @ [v]), (lhs, form {s} ps (Suc s) @ [v]), (lhs, form {f} ps (Suc s) @ [v]),
          (lhs, form {f, s} ps (Suc s) @ [v])]"
        "chaf_sides form n suffix (t # fs) (Suc s) v (Suc v)" "chaf_virtuals suffix (t # fs)"]
    show ?thesis by simp
  qed
qed auto

text \<open>Symbols above a bound are virtual; a function that is kept below it.\<close>

definition clip :: "nat \<Rightarrow> (nat \<Rightarrow> nat) \<Rightarrow> nat \<Rightarrow> nat" where
  "clip B h x = (if h x < B then h x else 0)"

lemma clip_plain: "0 < B \<Longrightarrow> plain (choice (clip B proper) (clip B nulled) rhs) (\<lambda>v. B \<le> v)"
  by (auto simp: plain_def choice_def clip_def)

lemma choice_clip:
  assumes "\<And>p. p < length rhs \<Longrightarrow> (if p \<in> N then nulled (rhs ! p) else proper (rhs ! p)) < B"
  shows "choice (clip B proper) (clip B nulled) rhs N 0 (length rhs) = choice proper nulled rhs N 0 (length rhs)"
  unfolding choice_def
proof (rule map_cong [OF refl])
  fix p assume "p \<in> set [0..<length rhs]"
  with assms [of p] show "(if p \<in> N then clip B nulled else clip B proper) (rhs ! p) = (if p \<in> N then nulled else proper) (rhs ! p)"
    by (auto simp: clip_def split: if_splits)
qed

text \<open>A side has at most one virtual symbol.\<close>

definition linear :: "(nat \<Rightarrow> bool) \<Rightarrow> nat list \<Rightarrow> bool" where
  "linear virt xs \<longleftrightarrow> (\<forall>y \<in> set xs. \<not> virt y) \<or> (\<exists>a w b. xs = a @ w # b \<and> virt w \<and> (\<forall>y \<in> set (a @ b). \<not> virt y))"

lemma linear_plain: "\<forall>y \<in> set xs. \<not> virt y \<Longrightarrow> linear virt xs"
  by (simp add: linear_def)

lemma linear_one: "\<forall>y \<in> set (a @ b). \<not> virt y \<Longrightarrow> linear virt (a @ w # b)"
  unfolding linear_def by (cases "virt w") (blast, simp)

lemma sides_linear:
  assumes "plain form virt"
  shows "(x, xs) \<in> set (chaf_sides form n suffix fs ps lhs v) \<Longrightarrow> linear virt xs"
proof -
  have p: "linear virt (form N a b)" "linear virt (form N a b @ [w])" for N a b w
    using assms linear_one [of "form N a b" "[]" virt w] by (auto simp: plain_def intro: linear_plain)
  show "(x, xs) \<in> set (chaf_sides form n suffix fs ps lhs v) \<Longrightarrow> linear virt xs"
    using p by (induction form n suffix fs ps lhs v rule: chaf_sides.induct) (auto split: if_splits)
qed

lemma sequence_sides_linear:
  assumes "\<not> virt x" "\<forall>s. separator = Some s \<longrightarrow> \<not> virt s" "(l, xs) \<in> set (sequence_sides lhs v x separator proper)"
  shows "linear virt xs"
  using assms linear_one [of "[]" "[]" virt v] linear_one [of "[]" _ virt v]
  by (auto simp: sequence_sides_def linear_plain split: option.splits if_splits)

end
