(* ===== verification/RewriteRuns.thy ===== *)
theory RewriteRuns
  imports Rewrite ChafForms
begin

text \<open>
  What the rewriting of one rule does: it adds internal rules, whose two sides are those of \<open>chaf_sides\<close> for a
  rule with nullable symbols, and the new internal symbols that they need, each marked with the rule.
\<close>

section \<open>Additions\<close>

definition sides_of :: "marpa_irl \<Rightarrow> nat \<times> nat list" where
  "sides_of irl = (LHSID_of_IRL irl, RHSIDs_of_IRL irl)"

text \<open>What the rewriting of the rules never changes in an internal symbol, and the rule it is marked with.\<close>

definition nsy_kind :: "marpa_nsy \<Rightarrow> nat option \<times> int \<times> bool \<times> bool \<times> bool" where
  "nsy_kind nsy = (nsy_source_xsy nsy, nsy_rank nsy, nsy_is_start nsy, nsy_is_nulling nsy, nsy_is_semantic nsy)"

definition owner :: "marpa_rw \<Rightarrow> nat \<Rightarrow> nat option" where
  "owner rw i = nsy_lhs_xrl (t_nsys rw ! i)"

definition same_table :: "marpa_rw \<Rightarrow> marpa_rw \<Rightarrow> bool" where
  "same_table rw rw' \<longleftrightarrow> rw_g rw' = rw_g rw \<and> t_nsy_equivalents rw' = t_nsy_equivalents rw \<and> t_nulling_nsys rw' = t_nulling_nsys rw
     \<and> t_start_irl rw' = t_start_irl rw"

definition new_virtual :: "marpa_g \<Rightarrow> nat \<Rightarrow> marpa_nsy \<Rightarrow> bool" where
  "new_virtual g source nsy \<longleftrightarrow> nsy_kind nsy = (Some source, NSY_Rank_by_XSY (t_xsys g ! source), False, False, False)"

text \<open>The rules \<open>sides\<close> for the rule \<open>k\<close> and \<open>m\<close> new symbols, the names of the left hand side \<open>source\<close>.\<close>

definition adds :: "nat \<Rightarrow> nat \<Rightarrow> (nat \<times> nat list) list \<Rightarrow> nat \<Rightarrow> marpa_rw \<Rightarrow> marpa_rw \<Rightarrow> bool" where
  "adds k source sides m rw rw' \<longleftrightarrow> same_table rw rw'
     \<and> (\<exists>irls. t_irls rw' = t_irls rw @ irls \<and> map sides_of irls = sides \<and> (\<forall>irl \<in> set irls. irl_source_xrl irl = Some k))
     \<and> length (t_nsys rw') = length (t_nsys rw) + m \<and> (\<forall>p \<in> set sides. fst p < length (t_nsys rw'))
     \<and> (\<forall>i < length (t_nsys rw). nsy_kind (t_nsys rw' ! i) = nsy_kind (t_nsys rw ! i))
     \<and> (\<forall>i < length (t_nsys rw'). length (t_nsys rw) \<le> i \<longrightarrow> new_virtual (rw_g rw) source (t_nsys rw' ! i))
     \<and> (\<forall>i < length (t_nsys rw'). \<not> nsy_is_semantic (t_nsys rw' ! i) \<longrightarrow>
          owner rw' i = (if i \<in> fst ` set sides then Some k else if i < length (t_nsys rw) then owner rw i else None))"

lemma kind_eq: "nsy_kind a = nsy_kind b \<Longrightarrow> nsy_is_semantic a = nsy_is_semantic b \<and> nsy_is_nulling a = nsy_is_nulling b
    \<and> nsy_source_xsy a = nsy_source_xsy b \<and> nsy_is_start a = nsy_is_start b \<and> nsy_rank a = nsy_rank b"
  by (simp add: nsy_kind_def)

lemma adds_trans:
  assumes 1: "adds k source s1 m1 rw rw1" and 2: "adds k source s2 m2 rw1 rw2"
  shows "adds k source (s1 @ s2) (m1 + m2) rw rw2"
proof -
  from 1 obtain irls1 where i1: "t_irls rw1 = t_irls rw @ irls1" "map sides_of irls1 = s1" "\<forall>irl \<in> set irls1. irl_source_xrl irl = Some k"
    unfolding adds_def by blast
  from 2 obtain irls2 where i2: "t_irls rw2 = t_irls rw1 @ irls2" "map sides_of irls2 = s2" "\<forall>irl \<in> set irls2. irl_source_xrl irl = Some k"
    unfolding adds_def by blast
  have len: "length (t_nsys rw1) = length (t_nsys rw) + m1" "length (t_nsys rw2) = length (t_nsys rw1) + m2"
    using 1 2 by (simp_all add: adds_def)
  have same: "same_table rw rw1" "same_table rw1 rw2" using 1 2 by (simp_all add: adds_def)
  have kind1: "nsy_kind (t_nsys rw2 ! i) = nsy_kind (t_nsys rw1 ! i)" if "i < length (t_nsys rw1)" for i
    using 2 that by (simp add: adds_def)
  have new: "new_virtual (rw_g rw) source (t_nsys rw2 ! i)" if "i < length (t_nsys rw2)" "length (t_nsys rw) \<le> i" for i
  proof (cases "i < length (t_nsys rw1)")
    case True
    then have "new_virtual (rw_g rw) source (t_nsys rw1 ! i)" using 1 that by (simp add: adds_def)
    with kind1 [OF True] show ?thesis by (simp add: new_virtual_def)
  next
    case False
    then have "new_virtual (rw_g rw1) source (t_nsys rw2 ! i)" using 2 that by (simp add: adds_def)
    with same(1) show ?thesis by (simp add: same_table_def)
  qed
  have own: "owner rw2 i = (if i \<in> fst ` set (s1 @ s2) then Some k else if i < length (t_nsys rw) then owner rw i else None)"
    if i: "i < length (t_nsys rw2)" "\<not> nsy_is_semantic (t_nsys rw2 ! i)" for i
  proof -
    have 2: "owner rw2 i = (if i \<in> fst ` set s2 then Some k else if i < length (t_nsys rw1) then owner rw1 i else None)"
      using 2 i by (simp add: adds_def)
    show ?thesis
    proof (cases "i < length (t_nsys rw1)")
      case True
      then have "\<not> nsy_is_semantic (t_nsys rw1 ! i)" using kind1 [OF True] i(2) by (auto dest: kind_eq)
      with True 1 have "owner rw1 i = (if i \<in> fst ` set s1 then Some k else if i < length (t_nsys rw) then owner rw i else None)"
        by (simp add: adds_def)
      with 2 True show ?thesis by auto
    next
      case False
      have "i \<notin> fst ` set s1" "\<not> i < length (t_nsys rw)" using False 1 len(1) by (auto simp: adds_def)
      with 2 False show ?thesis by auto
    qed
  qed
  have "same_table rw rw2" using same by (simp add: same_table_def)
  moreover have "\<exists>irls. t_irls rw2 = t_irls rw @ irls \<and> map sides_of irls = s1 @ s2 \<and> (\<forall>irl \<in> set irls. irl_source_xrl irl = Some k)"
    using i1 i2 by (intro exI [of _ "irls1 @ irls2"]) auto
  moreover have "\<forall>i < length (t_nsys rw). nsy_kind (t_nsys rw2 ! i) = nsy_kind (t_nsys rw ! i)"
    using 1 kind1 len(1) by (simp add: adds_def)
  moreover have "\<forall>p \<in> set (s1 @ s2). fst p < length (t_nsys rw2)" using 1 2 len(2) by (auto simp: adds_def)
  ultimately show ?thesis unfolding adds_def using len new own by simp
qed

lemma adds_none: "adds k source [] 0 rw rw"
  by (simp add: adds_def same_table_def)

text \<open>A new internal symbol.\<close>

lemma nsy_new_eq:
  "nsy_new source rw = (length (t_nsys rw), rw\<lparr>t_nsys := t_nsys rw @
     [\<lparr>nsy_source_xsy = Some source, nsy_lhs_xrl = None, nsy_xrl_offset = - 1,
       nsy_rank = NSY_Rank_by_XSY (t_xsys (rw_g rw) ! source), nsy_is_start = False, nsy_is_lhs = False,
       nsy_is_nulling = False, nsy_is_semantic = False\<rparr>]\<rparr>)"
  by (simp add: nsy_new_def nsy_start_def nsy_update_def)

lemma nsy_new_adds:
  assumes "nsy_new source rw = (v, rw1)"
  shows "adds k source [] 1 rw rw1 \<and> v = length (t_nsys rw)"
  using assms by (auto simp: nsy_new_eq adds_def same_table_def nth_append new_virtual_def nsy_kind_def owner_def less_Suc_eq)

text \<open>A new internal rule of a rule with factors.\<close>

lemma nsy_update_simps [simp]:
  "rw_g (nsy_update i f rw) = rw_g rw" "t_irls (nsy_update i f rw) = t_irls rw"
  "t_nsy_equivalents (nsy_update i f rw) = t_nsy_equivalents rw" "t_nulling_nsys (nsy_update i f rw) = t_nulling_nsys rw"
  "t_start_irl (nsy_update i f rw) = t_start_irl rw" "length (t_nsys (nsy_update i f rw)) = length (t_nsys rw)"
  "i < length (t_nsys rw) \<Longrightarrow> t_nsys (nsy_update i f rw) ! j = (if j = i then f (t_nsys rw ! i) else t_nsys rw ! j)"
  by (auto simp: nsy_update_def nth_list_update)

lemma irl_finish_simps [simp]:
  "rw_g (irl_finish irl rw) = rw_g rw" "t_irls (irl_finish irl rw) = t_irls rw @ [irl]"
  "t_nsy_equivalents (irl_finish irl rw) = t_nsy_equivalents rw" "t_nulling_nsys (irl_finish irl rw) = t_nulling_nsys rw"
  "t_start_irl (irl_finish irl rw) = t_start_irl rw" "length (t_nsys (irl_finish irl rw)) = length (t_nsys rw)"
  "LHSID_of_IRL irl < length (t_nsys rw) \<Longrightarrow> t_nsys (irl_finish irl rw) ! j =
     (if j = LHSID_of_IRL irl then (t_nsys rw ! j)\<lparr>nsy_is_lhs := True\<rparr> else t_nsys rw ! j)"
  by (simp_all add: irl_finish_def)

lemma chaf_irl_adds:
  assumes "lhs < length (t_nsys rw)"
  shows "adds k source [(lhs, rhs)] 0 rw (add_chaf_irl k rule lhs ps real rank rhs rw)"
  using assms
  by (auto simp: adds_def add_chaf_irl_def Let_def same_table_def irl_start_def LHSID_of_IRL_def RHSIDs_of_IRL_def sides_of_def
      nsy_kind_def owner_def)

section \<open>The symbols of a piece\<close>

text \<open>The internal symbols of the right hand side of a rule are \<open>proper\<close> and, where they may be nulled, \<open>nulled\<close>.\<close>

definition symbols_known :: "(nat \<Rightarrow> nat) \<Rightarrow> (nat \<Rightarrow> nat) \<Rightarrow> nat list \<Rightarrow> nat \<Rightarrow> nat list \<Rightarrow> marpa_rw \<Rightarrow> bool" where
  "symbols_known proper nulled rhs suffix fs rw \<longleftrightarrow> (\<forall>x \<in> set rhs. NSYID_by_XSYID rw x = Some (proper x))
     \<and> (\<forall>p < length rhs. p \<in> set fs \<or> suffix \<le> p \<longrightarrow> Nulling_NSYID_by_XSYID rw (rhs ! p) = Some (nulled (rhs ! p)))"

lemma known_same: "same_table rw rw' \<Longrightarrow> symbols_known proper nulled rhs suffix fs rw' = symbols_known proper nulled rhs suffix fs rw"
  by (simp add: symbols_known_def same_table_def NSYID_by_XSYID_def Nulling_NSYID_by_XSYID_def)

lemma known_subset: "symbols_known proper nulled rhs suffix fs rw \<Longrightarrow> set gs \<subseteq> set fs \<Longrightarrow> symbols_known proper nulled rhs suffix gs rw"
  unfolding symbols_known_def by blast

lemma those_all: "(\<And>x. x \<in> set xs \<Longrightarrow> f x = Some (g x)) \<Longrightarrow> those (map f xs) = Some (map g xs)"
  by (induction xs) auto

definition range_known :: "nat \<Rightarrow> nat list \<Rightarrow> nat \<Rightarrow> symbol_range \<Rightarrow> bool" where
  "range_known n fs suffix part \<longleftrightarrow> (case part of (nulling, low, high) \<Rightarrow>
     high \<le> n \<and> (nulling \<longrightarrow> (\<forall>p. low \<le> p \<and> p < high \<longrightarrow> p \<in> set fs \<or> suffix \<le> p)))"

definition range_choice :: "(nat \<Rightarrow> nat) \<Rightarrow> (nat \<Rightarrow> nat) \<Rightarrow> nat list \<Rightarrow> symbol_range \<Rightarrow> nat list" where
  "range_choice proper nulled rhs part = (case part of (nulling, low, high) \<Rightarrow>
     choice proper nulled rhs (if nulling then UNIV else {}) low high)"

lemma piece_symbols_eq:
  assumes "symbols_known proper nulled rhs suffix fs rw"
  shows "\<forall>part \<in> set ranges. range_known (length rhs) fs suffix part \<Longrightarrow>
    piece_symbols rw rhs ranges = Some (concat (map (range_choice proper nulled rhs) ranges))"
proof (induction ranges)
  case (Cons part ranges)
  obtain nulling low high where r: "part = (nulling, low, high)" by (cases part)
  have "(if nulling then Nulling_NSYID_by_XSYID else NSYID_by_XSYID) rw (rhs ! p) = Some ((if nulling then nulled else proper) (rhs ! p))"
    if "p \<in> set [low..<high]" for p
    using that Cons.prems assms by (auto simp: r range_known_def symbols_known_def)
  then have "those (map (\<lambda>p. (if nulling then Nulling_NSYID_by_XSYID else NSYID_by_XSYID) rw (rhs ! p)) [low..<high])
      = Some (range_choice proper nulled rhs part)"
    by (subst those_all) (auto simp: r range_choice_def choice_def)
  with Cons r show ?case by simp
qed simp

lemma ranges_choice:
  "a \<le> b \<Longrightarrow> range_choice proper nulled rhs (False, a, b) = choice proper nulled rhs {} a b"
  "a \<le> f \<Longrightarrow> f < b \<Longrightarrow> range_choice proper nulled rhs (False, a, f) @ range_choice proper nulled rhs (True, f, Suc f)
     @ range_choice proper nulled rhs (False, Suc f, b) = choice proper nulled rhs {f} a b"
  "a \<le> s \<Longrightarrow> s \<le> b \<Longrightarrow> range_choice proper nulled rhs (False, a, s) @ range_choice proper nulled rhs (True, s, b)
     = choice proper nulled rhs {s..<b} a b"
  "a \<le> f \<Longrightarrow> f < s \<Longrightarrow> s \<le> b \<Longrightarrow> range_choice proper nulled rhs (False, a, f) @ range_choice proper nulled rhs (True, f, Suc f)
     @ range_choice proper nulled rhs (False, Suc f, s) @ range_choice proper nulled rhs (True, s, b)
     = choice proper nulled rhs (insert f {s..<b}) a b"
  "a \<le> f \<Longrightarrow> f < s \<Longrightarrow> s < b \<Longrightarrow> range_choice proper nulled rhs (False, a, f) @ range_choice proper nulled rhs (True, f, Suc f)
     @ range_choice proper nulled rhs (False, Suc f, s) @ range_choice proper nulled rhs (True, s, Suc s)
     @ range_choice proper nulled rhs (False, Suc s, b) = choice proper nulled rhs {f, s} a b"
proof -
  have piece: "choice proper nulled rhs (if nulling then UNIV else {}) c d = choice proper nulled rhs N c d"
    if "\<And>p. c \<le> p \<Longrightarrow> p < d \<Longrightarrow> p \<in> N \<longleftrightarrow> nulling" for nulling c d N
    using that by (intro choice_cong) auto
  note r = range_choice_def prod.case
  show "range_choice proper nulled rhs (False, a, b) = choice proper nulled rhs {} a b" by (simp add: r)
  show "range_choice proper nulled rhs (False, a, f) @ range_choice proper nulled rhs (True, f, Suc f)
     @ range_choice proper nulled rhs (False, Suc f, b) = choice proper nulled rhs {f} a b" if "a \<le> f" "f < b"
    using that piece [of a f "{f}" False] piece [of f "Suc f" "{f}" True] piece [of "Suc f" b "{f}" False]
    by (simp add: r choice_append)
  show "range_choice proper nulled rhs (False, a, s) @ range_choice proper nulled rhs (True, s, b)
     = choice proper nulled rhs {s..<b} a b" if "a \<le> s" "s \<le> b"
    using that piece [of a s "{s..<b}" False] piece [of s b "{s..<b}" True] by (simp add: r choice_append)
  show "range_choice proper nulled rhs (False, a, f) @ range_choice proper nulled rhs (True, f, Suc f)
     @ range_choice proper nulled rhs (False, Suc f, s) @ range_choice proper nulled rhs (True, s, b)
     = choice proper nulled rhs (insert f {s..<b}) a b" if "a \<le> f" "f < s" "s \<le> b"
    using that piece [of a f "insert f {s..<b}" False] piece [of f "Suc f" "insert f {s..<b}" True]
      piece [of "Suc f" s "insert f {s..<b}" False] piece [of s b "insert f {s..<b}" True] by (simp add: r choice_append)
  show "range_choice proper nulled rhs (False, a, f) @ range_choice proper nulled rhs (True, f, Suc f)
     @ range_choice proper nulled rhs (False, Suc f, s) @ range_choice proper nulled rhs (True, s, Suc s)
     @ range_choice proper nulled rhs (False, Suc s, b) = choice proper nulled rhs {f, s} a b" if "a \<le> f" "f < s" "s < b"
    using that piece [of a f "{f, s}" False] piece [of f "Suc f" "{f, s}" True]
      piece [of "Suc f" s "{f, s}" False] piece [of s "Suc s" "{f, s}" True] piece [of "Suc s" b "{f, s}" False]
    by (simp add: r choice_append)
qed

section \<open>One piece\<close>

text \<open>What all the blocks do with a right hand side.\<close>

definition adds_side :: "nat \<Rightarrow> nat \<Rightarrow> nat \<Rightarrow> nat list \<Rightarrow> marpa_rw \<Rightarrow> marpa_rw option \<Rightarrow> bool" where
  "adds_side k source lhs side rw result \<longleftrightarrow> (\<exists>rw'. result = Some rw' \<and> adds k source [(lhs, side)] 0 rw rw')"

lemma adds_sideI:
  assumes "symbols_known proper nulled (RHS_IDs_of_XRL rule) suffix fs rw" "lhs < length (t_nsys rw)"
    "\<forall>part \<in> set ranges. range_known (length (RHS_IDs_of_XRL rule)) fs suffix part"
    "concat (map (range_choice proper nulled (RHS_IDs_of_XRL rule)) ranges) @ ending = side"
  shows "adds_side k source lhs side rw (do {
     nsyids \<leftarrow> piece_symbols rw (RHS_IDs_of_XRL rule) ranges;
     Some (add_chaf_irl k rule lhs ps real rank (nsyids @ ending) rw)})"
  using chaf_irl_adds [OF assms(2), of k source side rule ps real rank] assms(4)
  unfolding adds_side_def piece_symbols_eq [OF assms(1,3)] by simp

lemmas adds_sideI_nil = adds_sideI [where ending = "[]", unfolded append_Nil2]

text \<open>The ranges of the blocks.\<close>

lemma ranges_known:
  "range_known n fs suffix (False, a, b) \<longleftrightarrow> b \<le> n"
  "range_known n fs suffix (True, f, Suc f) \<longleftrightarrow> f < n \<and> (f \<in> set fs \<or> suffix \<le> f)"
  "suffix \<le> s \<Longrightarrow> range_known n fs suffix (True, s, b) \<longleftrightarrow> b \<le> n"
  by (auto simp: range_known_def less_Suc_eq_le dest!: le_antisym)

definition ranges_of :: "nat list \<Rightarrow> nat \<Rightarrow> nat \<Rightarrow> symbol_range list" where
  "ranges_of fs a b = (case fs of
     [] \<Rightarrow> [(False, a, b)]
   | [f] \<Rightarrow> [(False, a, f), (True, f, f + 1), (False, f + 1, b)]
   | f # s # _ \<Rightarrow> [(False, a, f), (True, f, f + 1), (False, f + 1, s), (True, s, s + 1), (False, s + 1, b)])"

definition vanishing_ranges :: "nat list \<Rightarrow> nat \<Rightarrow> nat \<Rightarrow> nat \<Rightarrow> symbol_range list" where
  "vanishing_ranges fs a s b = (case fs of
     [] \<Rightarrow> [(False, a, s), (True, s, b)]
   | f # _ \<Rightarrow> [(False, a, f), (True, f, f + 1), (False, f + 1, s), (True, s, b)])"

lemma ranges_of_choice:
  assumes "length fs \<le> 2" "sorted_wrt (<) fs" "\<forall>f \<in> set fs. a \<le> f \<and> f < b \<and> f \<in> set gs" "a \<le> b" "b \<le> n"
  shows "concat (map (range_choice proper nulled rhs) (ranges_of fs a b)) = choice proper nulled rhs (set fs) a b"
    "\<forall>part \<in> set (ranges_of fs a b). range_known n gs suffix part"
proof -
  from assms(1) consider "fs = []" | f where "fs = [f]" | f s where "fs = [f, s]"
    by (cases fs; cases "tl fs") (auto simp: neq_Nil_conv)
  then have "concat (map (range_choice proper nulled rhs) (ranges_of fs a b)) = choice proper nulled rhs (set fs) a b
    \<and> (\<forall>part \<in> set (ranges_of fs a b). range_known n gs suffix part)"
  proof cases
    case 1
    then show ?thesis using assms ranges_choice(1) [of a b proper nulled rhs] by (simp add: ranges_of_def ranges_known)
  next
    case (2 f)
    then show ?thesis using assms ranges_choice(2) [of a f b proper nulled rhs] by (simp add: ranges_of_def ranges_known)
  next
    case (3 f s)
    then show ?thesis using assms ranges_choice(5) [of a f s b proper nulled rhs] by (simp add: ranges_of_def ranges_known)
  qed
  then show "concat (map (range_choice proper nulled rhs) (ranges_of fs a b)) = choice proper nulled rhs (set fs) a b"
    "\<forall>part \<in> set (ranges_of fs a b). range_known n gs suffix part" by blast+
qed

lemma vanishing_choice:
  assumes "length fs \<le> 1" "\<forall>f \<in> set fs. a \<le> f \<and> f < s \<and> f \<in> set gs" "a \<le> s" "s \<le> n" "suffix \<le> s"
  shows "concat (map (range_choice proper nulled rhs) (vanishing_ranges fs a s n)) = choice proper nulled rhs (set fs \<union> {s..<n}) a n"
    "\<forall>part \<in> set (vanishing_ranges fs a s n). range_known n gs suffix part"
proof -
  from assms(1) consider "fs = []" | f where "fs = [f]" by (cases fs) auto
  then have "concat (map (range_choice proper nulled rhs) (vanishing_ranges fs a s n)) = choice proper nulled rhs (set fs \<union> {s..<n}) a n
    \<and> (\<forall>part \<in> set (vanishing_ranges fs a s n). range_known n gs suffix part)"
  proof cases
    case 1
    then show ?thesis using assms ranges_choice(3) [of a s n proper nulled rhs] by (simp add: vanishing_ranges_def ranges_known)
  next
    case (2 f)
    then show ?thesis using assms ranges_choice(4) [of a f s n proper nulled rhs] by (simp add: vanishing_ranges_def ranges_known)
  qed
  then show "concat (map (range_choice proper nulled rhs) (vanishing_ranges fs a s n)) = choice proper nulled rhs (set fs \<union> {s..<n}) a n"
    "\<forall>part \<in> set (vanishing_ranges fs a s n). range_known n gs suffix part" by blast+
qed

lemma piece_adds:
  assumes "symbols_known proper nulled (RHS_IDs_of_XRL rule) suffix gs rw" "lhs < length (t_nsys rw)"
    "length fs \<le> 2" "sorted_wrt (<) fs" "\<forall>f \<in> set fs. a \<le> f \<and> f < b \<and> f \<in> set gs" "a \<le> b" "b \<le> length (RHS_IDs_of_XRL rule)"
  shows "adds_side k source lhs (choice proper nulled (RHS_IDs_of_XRL rule) (set fs) a b @ ending) rw (do {
     nsyids \<leftarrow> piece_symbols rw (RHS_IDs_of_XRL rule) (ranges_of fs a b);
     Some (add_chaf_irl k rule lhs ps real rank (nsyids @ ending) rw)})"
  using ranges_of_choice [OF assms(3-7)] by (intro adds_sideI [OF assms(1,2)]) auto

lemma vanishing_adds:
  assumes "symbols_known proper nulled (RHS_IDs_of_XRL rule) suffix gs rw" "lhs < length (t_nsys rw)"
    "length fs \<le> 1" "\<forall>f \<in> set fs. a \<le> f \<and> f < s \<and> f \<in> set gs" "a \<le> s" "s \<le> length (RHS_IDs_of_XRL rule)" "suffix \<le> s"
  shows "adds_side k source lhs (choice proper nulled (RHS_IDs_of_XRL rule) (set fs \<union> {s..<length (RHS_IDs_of_XRL rule)}) a
      (length (RHS_IDs_of_XRL rule))) rw (do {
     nsyids \<leftarrow> piece_symbols rw (RHS_IDs_of_XRL rule) (vanishing_ranges fs a s (length (RHS_IDs_of_XRL rule)));
     Some (add_chaf_irl k rule lhs ps real rank nsyids rw)})"
  using vanishing_choice [OF assms(3-7)] adds_sideI [OF assms(1,2), of _ "[]"] by auto

lemmas last_adds = piece_adds [where ending = "[]", unfolded append_Nil2]

lemma chaf_pieces_nullable:
  fixes proper nulled rule
  defines "rhs \<equiv> RHS_IDs_of_XRL rule"
  assumes known: "symbols_known proper nulled rhs suffix fs rw" and lhs: "lhs < length (t_nsys rw)"
    and p: "ps \<le> f" "f < s" "s < length rhs" "suffix \<le> s" "f \<in> set fs"
  shows "adds_side k source lhs (choice proper nulled rhs {} ps s @ [v]) rw (chaf_PP k rule lhs ps (s - 1) v rw)"
    "adds_side k source lhs (choice proper nulled rhs {s..<length rhs} ps (length rhs)) rw (chaf_P_rest k rule lhs ps s rw)"
    "adds_side k source lhs (choice proper nulled rhs {f} ps s @ [v]) rw (chaf_NP k rule lhs ps (s - 1) f v rw)"
    "ps < suffix \<Longrightarrow> adds_side k source lhs (choice proper nulled rhs (insert f {s..<length rhs}) ps (length rhs)) rw
       (chaf_N_rest k rule lhs ps f s suffix rw)"
proof -
  have s: "s - 1 + 1 = s" using p by simp
  note * = piece_adds [OF known [unfolded rhs_def] lhs, where a = ps and b = s] and ** = vanishing_adds [OF known [unfolded rhs_def] lhs, where a = ps and s = s]
  show "adds_side k source lhs (choice proper nulled rhs {} ps s @ [v]) rw (chaf_PP k rule lhs ps (s - 1) v rw)"
    using * [of "[]"] p unfolding chaf_PP_def s by (simp add: ranges_of_def rhs_def)
  show "adds_side k source lhs (choice proper nulled rhs {f} ps s @ [v]) rw (chaf_NP k rule lhs ps (s - 1) f v rw)"
    using * [of "[f]"] p unfolding chaf_NP_def s by (simp add: ranges_of_def rhs_def)
  show "adds_side k source lhs (choice proper nulled rhs {s..<length rhs} ps (length rhs)) rw (chaf_P_rest k rule lhs ps s rw)"
    using ** [of "[]"] p unfolding chaf_P_rest_def Let_def by (simp add: vanishing_ranges_def rhs_def)
  show "ps < suffix \<Longrightarrow> adds_side k source lhs (choice proper nulled rhs (insert f {s..<length rhs}) ps (length rhs)) rw
       (chaf_N_rest k rule lhs ps f s suffix rw)"
    using ** [of "[f]"] p unfolding chaf_N_rest_def Let_def by (simp add: vanishing_ranges_def rhs_def)
qed

lemma chaf_pieces_proper:
  fixes proper nulled rule
  defines "rhs \<equiv> RHS_IDs_of_XRL rule"
  assumes known: "symbols_known proper nulled rhs suffix fs rw" and lhs: "lhs < length (t_nsys rw)"
    and p: "ps \<le> f" "f < s" "s < length rhs" "f \<in> set fs" "s \<in> set fs"
  shows "adds_side k source lhs (choice proper nulled rhs {} ps (Suc s) @ [v]) rw (chaf_PP k rule lhs ps s v rw)"
    "adds_side k source lhs (choice proper nulled rhs {s} ps (Suc s) @ [v]) rw (chaf_PN k rule lhs ps s s v rw)"
    "adds_side k source lhs (choice proper nulled rhs {f} ps (Suc s) @ [v]) rw (chaf_NP k rule lhs ps s f v rw)"
    "adds_side k source lhs (choice proper nulled rhs {f, s} ps (Suc s) @ [v]) rw (chaf_NN k rule lhs ps s f s v rw)"
proof -
  note * = piece_adds [OF known [unfolded rhs_def] lhs, where a = ps and b = "Suc s"]
  show "adds_side k source lhs (choice proper nulled rhs {} ps (Suc s) @ [v]) rw (chaf_PP k rule lhs ps s v rw)"
    using * [of "[]"] p unfolding chaf_PP_def by (simp add: ranges_of_def rhs_def)
  show "adds_side k source lhs (choice proper nulled rhs {s} ps (Suc s) @ [v]) rw (chaf_PN k rule lhs ps s s v rw)"
    using * [of "[s]"] p unfolding chaf_PN_def by (simp add: ranges_of_def rhs_def)
  show "adds_side k source lhs (choice proper nulled rhs {f} ps (Suc s) @ [v]) rw (chaf_NP k rule lhs ps s f v rw)"
    using * [of "[f]"] p unfolding chaf_NP_def by (simp add: ranges_of_def rhs_def)
  show "adds_side k source lhs (choice proper nulled rhs {f, s} ps (Suc s) @ [v]) rw (chaf_NN k rule lhs ps s f s v rw)"
    using * [of "[f, s]"] p unfolding chaf_NN_def by (simp add: ranges_of_def rhs_def)
qed

lemma last_pieces:
  fixes proper nulled rule
  defines "rhs \<equiv> RHS_IDs_of_XRL rule"
  assumes known: "symbols_known proper nulled rhs suffix fs rw" and lhs: "lhs < length (t_nsys rw)"
    and p: "ps \<le> f" "f < length rhs" "f \<in> set fs"
  shows "adds_side k source lhs (choice proper nulled rhs {} ps (length rhs)) rw (last_P k rule lhs ps (length rhs - 1) rw)"
    "ps < suffix \<Longrightarrow> adds_side k source lhs (choice proper nulled rhs {f} ps (length rhs)) rw (last_N k rule lhs ps (length rhs - 1) f suffix rw)"
    "adds_side k source lhs (choice proper nulled rhs {} ps (length rhs)) rw (last_PP k rule lhs ps (length rhs - 1) rw)"
    "adds_side k source lhs (choice proper nulled rhs {f} ps (length rhs)) rw (last_NP k rule lhs ps (length rhs - 1) f rw)"
    "adds_side k source lhs (choice proper nulled rhs {f} ps (length rhs)) rw (last_PN k rule lhs ps (length rhs - 1) f rw)"
    "ps < suffix \<Longrightarrow> f < s \<Longrightarrow> s < length rhs \<Longrightarrow> s \<in> set fs \<Longrightarrow> adds_side k source lhs (choice proper nulled rhs {f, s} ps (length rhs)) rw
       (last_NN k rule lhs ps (length rhs - 1) f s suffix rw)"
proof -
  have n: "length rhs - 1 + 1 = length rhs" using p by simp
  note * = last_adds [OF known [unfolded rhs_def] lhs, where a = ps and b = "length (RHS_IDs_of_XRL rule)"]
  show "adds_side k source lhs (choice proper nulled rhs {} ps (length rhs)) rw (last_P k rule lhs ps (length rhs - 1) rw)"
    using * [of "[]"] p unfolding last_P_def n by (simp add: ranges_of_def rhs_def)
  show "adds_side k source lhs (choice proper nulled rhs {} ps (length rhs)) rw (last_PP k rule lhs ps (length rhs - 1) rw)"
    using * [of "[]"] p unfolding last_PP_def n by (simp add: ranges_of_def rhs_def)
  show "adds_side k source lhs (choice proper nulled rhs {f} ps (length rhs)) rw (last_NP k rule lhs ps (length rhs - 1) f rw)"
    using * [of "[f]"] p unfolding last_NP_def n by (simp add: ranges_of_def rhs_def)
  show "adds_side k source lhs (choice proper nulled rhs {f} ps (length rhs)) rw (last_PN k rule lhs ps (length rhs - 1) f rw)"
    using * [of "[f]"] p unfolding last_PN_def n by (simp add: ranges_of_def rhs_def)
  show "ps < suffix \<Longrightarrow> adds_side k source lhs (choice proper nulled rhs {f} ps (length rhs)) rw (last_N k rule lhs ps (length rhs - 1) f suffix rw)"
    using * [of "[f]"] p unfolding last_N_def n by (simp add: ranges_of_def rhs_def)
  show "ps < suffix \<Longrightarrow> f < s \<Longrightarrow> s < length rhs \<Longrightarrow> s \<in> set fs \<Longrightarrow> adds_side k source lhs (choice proper nulled rhs {f, s} ps (length rhs)) rw
       (last_NN k rule lhs ps (length rhs - 1) f s suffix rw)"
    using * [of "[f, s]"] p unfolding last_NN_def n by (simp add: ranges_of_def rhs_def)
qed

section \<open>The loop over the pieces\<close>

lemma adds_sideE:
  assumes "adds_side k source lhs side rw result"
  obtains rw' where "result = Some rw'" "adds k source [(lhs, side)] 0 rw rw'"
  using assms unfolding adds_side_def by blast

lemma adds_len: "adds k source sides m rw rw' \<Longrightarrow> length (t_nsys rw') = length (t_nsys rw) + m"
  by (simp add: adds_def)

lemma adds_known:
  "adds k source sides m rw rw' \<Longrightarrow> symbols_known proper nulled rhs suffix fs rw \<Longrightarrow> set gs \<subseteq> set fs
    \<Longrightarrow> symbols_known proper nulled rhs suffix gs rw'"
  using known_same [of rw rw'] known_subset unfolding adds_def by blast

theorem chaf_loop_adds:
  fixes proper nulled rule
  defines "rhs \<equiv> RHS_IDs_of_XRL rule"
  defines "form \<equiv> choice proper nulled rhs"
  shows "fs \<noteq> [] \<Longrightarrow> factors_left proper nulled rhs suffix fs ps \<Longrightarrow> symbols_known proper nulled rhs suffix fs rw
    \<Longrightarrow> lhs < length (t_nsys rw)
    \<Longrightarrow> \<exists>rw'. chaf_loop k rule suffix fs ps lhs rw = Some rw'
      \<and> adds k (LHS_ID_of_XRL rule) (chaf_sides form (length rhs) suffix fs ps lhs (length (t_nsys rw))) (chaf_virtuals suffix fs) rw rw'"
proof (induction suffix fs arbitrary: ps lhs rw rule: chaf_virtuals.induct [case_names 1 none one two])
  case (1 suffix f s t fs)
  let ?a = "adds k (LHS_ID_of_XRL rule)"
  have o: "f < s" "ps \<le> f" "s < t" "\<forall>p \<in> set fs. t < p" "s < length rhs" using 1(4) by (auto simp: factors_left_def)
  obtain v rw1 where new: "nsy_new (LHS_ID_of_XRL rule) rw = (v, rw1)" by (cases "nsy_new (LHS_ID_of_XRL rule) rw")
  from nsy_new_adds [OF new] have a1: "?a [] 1 rw rw1" and v: "v = length (t_nsys rw)" by blast+
  have k1: "symbols_known proper nulled rhs suffix (f # s # t # fs) rw1" "lhs < length (t_nsys rw1)"
    using adds_known [OF a1 1(5)] adds_len [OF a1] 1(6) by auto
  show ?case
  proof (cases "suffix \<le> s")
    case True
    have m: "f \<in> set (f # s # t # fs)" by simp
    note p = chaf_pieces_nullable [of proper nulled rule suffix "f # s # t # fs" _ lhs ps f s, folded rhs_def, OF _ _ o(2,1,5) True m, folded form_def]
    from p(1) [OF k1] obtain rw2 where 2: "chaf_PP k rule lhs ps (s - 1) v rw1 = Some rw2" "?a [(lhs, form {} ps s @ [v])] 0 rw1 rw2"
      by (rule adds_sideE)
    have k2: "symbols_known proper nulled rhs suffix (f # s # t # fs) rw2" "lhs < length (t_nsys rw2)"
      using adds_known [OF 2(2) k1(1)] adds_len [OF 2(2)] k1(2) by auto
    from p(2) [OF k2] obtain rw3 where 3: "chaf_P_rest k rule lhs ps s rw2 = Some rw3" "?a [(lhs, form {s..<length rhs} ps (length rhs))] 0 rw2 rw3"
      by (rule adds_sideE)
    have k3: "symbols_known proper nulled rhs suffix (f # s # t # fs) rw3" "lhs < length (t_nsys rw3)"
      using adds_known [OF 3(2) k2(1)] adds_len [OF 3(2)] k2(2) by auto
    from p(3) [OF k3] obtain rw4 where 4: "chaf_NP k rule lhs ps (s - 1) f v rw3 = Some rw4" "?a [(lhs, form {f} ps s @ [v])] 0 rw3 rw4"
      by (rule adds_sideE)
    have k4: "symbols_known proper nulled rhs suffix (f # s # t # fs) rw4" "lhs < length (t_nsys rw4)"
      using adds_known [OF 4(2) k3(1)] adds_len [OF 4(2)] k3(2) by auto
    obtain rw5 where 5: "chaf_N_rest k rule lhs ps f s suffix rw4 = Some rw5"
      "?a (if ps < suffix then [(lhs, form (insert f {s..<length rhs}) ps (length rhs))] else []) 0 rw4 rw5"
    proof (cases "ps < suffix")
      case True
      from p(4) [OF k4 True] show thesis by (rule adds_sideE) (rule that, use True in simp_all)
    next
      case False
      then have "chaf_N_rest k rule lhs ps f s suffix rw4 = Some rw4" by (simp add: chaf_N_rest_def)
      with that False adds_none show thesis by simp
    qed
    have k5: "symbols_known proper nulled rhs suffix (s # t # fs) rw5" "length (t_nsys rw5) = Suc v"
      using adds_known [OF 5(2) k4(1), of "s # t # fs"] adds_len [OF 5(2)] adds_len [OF 4(2)] adds_len [OF 3(2)] adds_len [OF 2(2)] adds_len [OF a1] v by auto
    have "factors_left proper nulled rhs suffix (s # t # fs) s"
      using factors_left_later [of proper nulled rhs suffix "[f]" "s # t # fs" ps s] 1(4) o by fastforce
    from 1(1) [OF True _ this k5(1), of v] k5(2) obtain rw' where
      6: "chaf_loop k rule suffix (s # t # fs) s v rw5 = Some rw'"
      "?a (chaf_sides form (length rhs) suffix (s # t # fs) s v (Suc v)) (chaf_virtuals suffix (s # t # fs)) rw5 rw'"
      by auto
    note all = adds_trans [OF adds_trans [OF adds_trans [OF adds_trans [OF adds_trans [OF a1 2(2)] 3(2)] 4(2)] 5(2)] 6(2)]
    have "Suc (s - Suc 0) = s" using o(1) by simp
    then have "chaf_loop k rule suffix (f # s # t # fs) ps lhs rw = Some rw'"
      using True 2(1) 3(1) 4(1) 5(1) 6(1) by (simp add: Let_def new)
    with all True show ?thesis by (simp add: v)
  next
    case False
    have m: "f \<in> set (f # s # t # fs)" "s \<in> set (f # s # t # fs)" by simp_all
    note p = chaf_pieces_proper [of proper nulled rule suffix "f # s # t # fs" _ lhs ps f s, folded rhs_def, OF _ _ o(2,1,5) m, folded form_def]
    from p(1) [OF k1] obtain rw2 where 2: "chaf_PP k rule lhs ps s v rw1 = Some rw2" "?a [(lhs, form {} ps (Suc s) @ [v])] 0 rw1 rw2"
      by (rule adds_sideE)
    have k2: "symbols_known proper nulled rhs suffix (f # s # t # fs) rw2" "lhs < length (t_nsys rw2)"
      using adds_known [OF 2(2) k1(1)] adds_len [OF 2(2)] k1(2) by auto
    from p(2) [OF k2] obtain rw3 where 3: "chaf_PN k rule lhs ps s s v rw2 = Some rw3" "?a [(lhs, form {s} ps (Suc s) @ [v])] 0 rw2 rw3"
      by (rule adds_sideE)
    have k3: "symbols_known proper nulled rhs suffix (f # s # t # fs) rw3" "lhs < length (t_nsys rw3)"
      using adds_known [OF 3(2) k2(1)] adds_len [OF 3(2)] k2(2) by auto
    from p(3) [OF k3] obtain rw4 where 4: "chaf_NP k rule lhs ps s f v rw3 = Some rw4" "?a [(lhs, form {f} ps (Suc s) @ [v])] 0 rw3 rw4"
      by (rule adds_sideE)
    have k4: "symbols_known proper nulled rhs suffix (f # s # t # fs) rw4" "lhs < length (t_nsys rw4)"
      using adds_known [OF 4(2) k3(1)] adds_len [OF 4(2)] k3(2) by auto
    from p(4) [OF k4] obtain rw5 where 5: "chaf_NN k rule lhs ps s f s v rw4 = Some rw5" "?a [(lhs, form {f, s} ps (Suc s) @ [v])] 0 rw4 rw5"
      by (rule adds_sideE)
    have k5: "symbols_known proper nulled rhs suffix (t # fs) rw5" "length (t_nsys rw5) = Suc v"
      using adds_known [OF 5(2) k4(1), of "t # fs"] adds_len [OF 5(2)] adds_len [OF 4(2)] adds_len [OF 3(2)] adds_len [OF 2(2)] adds_len [OF a1] v by auto
    have "factors_left proper nulled rhs suffix (t # fs) (Suc s)"
      using factors_left_later [of proper nulled rhs suffix "[f, s]" "t # fs" ps "Suc s"] 1(4) o by fastforce
    from 1(2) [OF False _ this k5(1), of v] k5(2) obtain rw' where
      6: "chaf_loop k rule suffix (t # fs) (Suc s) v rw5 = Some rw'"
      "?a (chaf_sides form (length rhs) suffix (t # fs) (Suc s) v (Suc v)) (chaf_virtuals suffix (t # fs)) rw5 rw'"
      by auto
    note all = adds_trans [OF adds_trans [OF adds_trans [OF adds_trans [OF adds_trans [OF a1 2(2)] 3(2)] 4(2)] 5(2)] 6(2)]
    have "chaf_loop k rule suffix (f # s # t # fs) ps lhs rw = Some rw'"
      using False 2(1) 3(1) 4(1) 5(1) 6(1) by (simp add: Let_def new)
    with all False show ?thesis by (simp add: v)
  qed
next
  case (two suffix f s)
  let ?a = "adds k (LHS_ID_of_XRL rule)"
  have o: "f < s" "ps \<le> f" "s < length rhs" using two(2) by (auto simp: factors_left_def)
  note k = two(3,4)
  have n: "f < length rhs" "ps \<le> s" using o by simp_all
  have m: "f \<in> set [f, s]" "s \<in> set [f, s]" by simp_all
  note pf = last_pieces [of proper nulled rule suffix "[f, s]" _ lhs ps f, folded rhs_def, OF _ _ o(2) n(1) m(1), folded form_def]
    and ps = last_pieces(5) [of proper nulled rule suffix "[f, s]" _ lhs ps s, folded rhs_def, OF _ _ n(2) o(3) m(2), folded form_def]
  from pf(3) [OF k] obtain rw1 where 1: "last_PP k rule lhs ps (length rhs - 1) rw = Some rw1" "?a [(lhs, form {} ps (length rhs))] 0 rw rw1"
      by (rule adds_sideE)
  have k1: "symbols_known proper nulled rhs suffix [f, s] rw1" "lhs < length (t_nsys rw1)"
    using adds_known [OF 1(2) k(1)] adds_len [OF 1(2)] k(2) by auto
  from ps [OF k1] obtain rw2 where 2: "last_PN k rule lhs ps (length rhs - 1) s rw1 = Some rw2" "?a [(lhs, form {s} ps (length rhs))] 0 rw1 rw2"
      by (rule adds_sideE)
  have k2: "symbols_known proper nulled rhs suffix [f, s] rw2" "lhs < length (t_nsys rw2)"
    using adds_known [OF 2(2) k1(1)] adds_len [OF 2(2)] k1(2) by auto
  from pf(4) [OF k2] obtain rw3 where 3: "last_NP k rule lhs ps (length rhs - 1) f rw2 = Some rw3" "?a [(lhs, form {f} ps (length rhs))] 0 rw2 rw3"
      by (rule adds_sideE)
  have k3: "symbols_known proper nulled rhs suffix [f, s] rw3" "lhs < length (t_nsys rw3)"
    using adds_known [OF 3(2) k2(1)] adds_len [OF 3(2)] k2(2) by auto
  obtain rw4 where 4: "last_NN k rule lhs ps (length rhs - 1) f s suffix rw3 = Some rw4"
    "?a (if ps < suffix then [(lhs, form {f, s} ps (length rhs))] else []) 0 rw3 rw4"
  proof (cases "ps < suffix")
    case True
    from pf(6) [OF k3 True o(1,3) m(2)] show thesis by (rule adds_sideE) (rule that, use True in simp_all)
  next
    case False
    then have "last_NN k rule lhs ps (length rhs - 1) f s suffix rw3 = Some rw3" by (simp add: last_NN_def)
    with that False adds_none show thesis by simp
  qed
  note all = adds_trans [OF adds_trans [OF adds_trans [OF 1(2) 2(2)] 3(2)] 4(2)]
  have "chaf_loop k rule suffix [f, s] ps lhs rw = Some rw4"
    using 1(1) 2(1) 3(1) 4(1) by (simp add: Let_def rhs_def)
  with all show ?case by simp
next
  case (one suffix f)
  let ?a = "adds k (LHS_ID_of_XRL rule)"
  have o: "ps \<le> f" "f < length rhs" using one(2) by (auto simp: factors_left_def)
  note k = one(3,4)
  have m: "f \<in> set [f]" by simp
  note p = last_pieces [of proper nulled rule suffix "[f]" _ lhs ps f, folded rhs_def, OF _ _ o m, folded form_def]
  from p(1) [OF k] obtain rw1 where 1: "last_P k rule lhs ps (length rhs - 1) rw = Some rw1" "?a [(lhs, form {} ps (length rhs))] 0 rw rw1"
      by (rule adds_sideE)
  have k1: "symbols_known proper nulled rhs suffix [f] rw1" "lhs < length (t_nsys rw1)"
    using adds_known [OF 1(2) k(1)] adds_len [OF 1(2)] k(2) by auto
  obtain rw2 where 2: "last_N k rule lhs ps (length rhs - 1) f suffix rw1 = Some rw2"
    "?a (if ps < suffix then [(lhs, form {f} ps (length rhs))] else []) 0 rw1 rw2"
  proof (cases "ps < suffix")
    case True
    from p(2) [OF k1 True] show thesis by (rule adds_sideE) (rule that, use True in simp_all)
  next
    case False
    then have "last_N k rule lhs ps (length rhs - 1) f suffix rw1 = Some rw1" by (simp add: last_N_def)
    with that False adds_none show thesis by simp
  qed
  have "chaf_loop k rule suffix [f] ps lhs rw = Some rw2" using 1(1) 2(1) by (simp add: Let_def rhs_def)
  with adds_trans [OF 1(2) 2(2)] show ?case by simp
qed simp

end
