(* ===== verification/RewriteShape.thy ===== *)
theory RewriteShape
  imports RewriteRuns Derivation
begin

text \<open>
  The whole rewriting: the internal symbols of the symbols, the loop over the rules, and what is known of
  the internal rules at its end. The census gives what the rewriting needs (\<open>ready\<close>).
\<close>

section \<open>What the census leaves\<close>

definition usable :: "marpa_g \<Rightarrow> nat \<Rightarrow> bool" where
  "usable g x \<longleftrightarrow> x < length (t_xsys g) \<and> xsy_is_accessible (t_xsys g ! x) \<and> xsy_is_productive (t_xsys g ! x)"

abbreviation nulling :: "marpa_g \<Rightarrow> nat \<Rightarrow> bool" where
  "nulling g x \<equiv> xsy_is_nulling (t_xsys g ! x)"

abbreviation nullable :: "marpa_g \<Rightarrow> nat \<Rightarrow> bool" where
  "nullable g x \<equiv> xsy_is_nullable (t_xsys g ! x)"

definition rule_ready :: "marpa_g \<Rightarrow> marpa_xrl \<Rightarrow> bool" where
  "rule_ready g r \<longleftrightarrow> usable g (LHS_ID_of_XRL r) \<and> \<not> nulling g (LHS_ID_of_XRL r) \<and> (\<forall>x \<in> mentions r. usable g x)
     \<and> length (RHS_IDs_of_XRL r) \<le> t_max_rule_length g
     \<and> (if t_is_sequence r then length (RHS_IDs_of_XRL r) = 1 \<and> (\<forall>x \<in> mentions r. \<not> nullable g x \<and> \<not> nulling g x)
        else \<exists>x \<in> set (RHS_IDs_of_XRL r). \<not> nulling g x)"

definition ready :: "marpa_g \<Rightarrow> bool" where
  "ready g \<longleftrightarrow> (\<forall>r \<in> set (t_xrls g). xrl_is_used r \<longrightarrow> rule_ready g r)
     \<and> (\<forall>x. usable g x \<longrightarrow> nulling g x \<longrightarrow> nullable g x) \<and> usable g (nat (t_start_xsy_id g))"

section \<open>The internal symbols of the symbols\<close>

text \<open>The kind of an internal symbol that stands for \<open>x\<close>.\<close>

definition stands_for :: "marpa_g \<Rightarrow> nat \<Rightarrow> bool \<Rightarrow> marpa_nsy \<Rightarrow> bool" where
  "stands_for g x null nsy \<longleftrightarrow> nsy_kind nsy = (Some x, NSY_Rank_by_XSY (t_xsys g ! x), False, null, True)"

definition cloned :: "marpa_g \<Rightarrow> marpa_rw \<Rightarrow> nat \<Rightarrow> bool" where
  "cloned g rw x \<longleftrightarrow> (\<exists>i < length (t_nsys rw). NSYID_by_XSYID rw x = Some i \<and> stands_for g x (nulling g x) (t_nsys rw ! i)
     \<and> (if nulling g x then Nulling_NSYID_by_XSYID rw x = Some i
        else if nullable g x then \<exists>j < length (t_nsys rw). Nulling_NSYID_by_XSYID rw x = Some j \<and> stands_for g x True (t_nsys rw ! j)
        else Nulling_NSYID_by_XSYID rw x = None))"

definition not_cloned :: "marpa_rw \<Rightarrow> nat \<Rightarrow> bool" where
  "not_cloned rw x \<longleftrightarrow> NSYID_by_XSYID rw x = None \<and> Nulling_NSYID_by_XSYID rw x = None"

definition clones :: "marpa_g \<Rightarrow> nat \<Rightarrow> marpa_rw \<Rightarrow> bool" where
  "clones g k rw \<longleftrightarrow> rw_g rw = g \<and> t_irls rw = [] \<and> t_start_irl rw = None
     \<and> length (t_nsy_equivalents rw) = length (t_xsys g) \<and> length (t_nulling_nsys rw) = length (t_xsys g)
     \<and> (\<forall>i < length (t_nsys rw). nsy_is_semantic (t_nsys rw ! i) \<and> nsy_source_xsy (t_nsys rw ! i) \<noteq> None)
     \<and> (\<forall>x < length (t_xsys g). if x < k \<and> usable g x then cloned g rw x else not_cloned rw x)"

lemma flags_same:
  assumes "\<not> nulling g x" "nullable g x"
  shows "xsy_update x (\<lambda>xsy. xsy\<lparr>xsy_is_nulling := False, xsy_is_nullable := True\<rparr>) g = g"
proof -
  have "(t_xsys g ! x)\<lparr>xsy_is_nulling := False, xsy_is_nullable := True\<rparr> = t_xsys g ! x" using assms by simp
  then show ?thesis by (simp add: xsy_update_def)
qed

lemma nsy_clone_eq:
  "nsy_clone x rw = (length (t_nsys rw), rw\<lparr>t_nsys := t_nsys rw @
     [\<lparr>nsy_source_xsy = Some x, nsy_lhs_xrl = None, nsy_xrl_offset = - 1,
       nsy_rank = NSY_Rank_by_XSY (t_xsys (rw_g rw) ! x), nsy_is_start = False, nsy_is_lhs = False,
       nsy_is_nulling = xsy_is_nulling (t_xsys (rw_g rw) ! x), nsy_is_semantic = True\<rparr>]\<rparr>)"
  by (simp add: nsy_clone_def nsy_start_def nsy_update_def)

lemma symbol_alias_eq:
  assumes "\<not> nulling (rw_g rw) x" "nullable (rw_g rw) x"
  shows "symbol_alias_create x rw = (length (t_nsys rw), rw\<lparr>t_nsys := t_nsys rw @
     [\<lparr>nsy_source_xsy = Some x, nsy_lhs_xrl = None, nsy_xrl_offset = - 1,
       nsy_rank = NSY_Rank_by_XSY (t_xsys (rw_g rw) ! x), nsy_is_start = False, nsy_is_lhs = False,
       nsy_is_nulling = True, nsy_is_semantic = True\<rparr>]\<rparr>)"
  by (simp add: symbol_alias_create_def semantic_nsy_new_def nsy_new_eq nsy_update_def flags_same [OF assms])

lemma cloned_kept:
  assumes "cloned g rw x" "NSYID_by_XSYID rw' x = NSYID_by_XSYID rw x" "Nulling_NSYID_by_XSYID rw' x = Nulling_NSYID_by_XSYID rw x"
    "length (t_nsys rw) \<le> length (t_nsys rw')" "\<forall>i < length (t_nsys rw). nsy_kind (t_nsys rw' ! i) = nsy_kind (t_nsys rw ! i)"
  shows "cloned g rw' x"
proof -
  have k: "stands_for g x e (t_nsys rw' ! i)" if "i < length (t_nsys rw)" "stands_for g x e (t_nsys rw ! i)" for i e
    using assms(5) that by (simp add: stands_for_def)
  from assms(1) obtain i where i: "i < length (t_nsys rw)" "NSYID_by_XSYID rw x = Some i" "stands_for g x (nulling g x) (t_nsys rw ! i)"
    "if nulling g x then Nulling_NSYID_by_XSYID rw x = Some i
        else if nullable g x then \<exists>j < length (t_nsys rw). Nulling_NSYID_by_XSYID rw x = Some j \<and> stands_for g x True (t_nsys rw ! j)
        else Nulling_NSYID_by_XSYID rw x = None" unfolding cloned_def by blast
  have "if nulling g x then Nulling_NSYID_by_XSYID rw x = Some i
        else if nullable g x then \<exists>j < length (t_nsys rw'). Nulling_NSYID_by_XSYID rw x = Some j \<and> stands_for g x True (t_nsys rw' ! j)
        else Nulling_NSYID_by_XSYID rw x = None"
    using i(4) k assms(4) by (auto split: if_splits intro: less_le_trans)
  moreover have "i < length (t_nsys rw')" using i(1) assms(4) by simp
  ultimately show ?thesis unfolding cloned_def assms(2,3) using i(2) k [OF i(1,3)] by blast
qed

lemma clone_step:
  assumes "clones g k rw" "k < length (t_xsys g)"
  shows "clones g (Suc k) (clone_symbol k rw)"
proof (cases "usable g k")
  case False
  then have "clone_symbol k rw = rw" using assms by (auto simp: clone_symbol_def clones_def usable_def Let_def)
  with assms False show ?thesis by (auto simp: clones_def less_Suc_eq)
next
  case True
  let ?rw = "clone_symbol k rw"
  have g: "rw_g rw = g" "length (t_nsy_equivalents rw) = length (t_xsys g)" "length (t_nulling_nsys rw) = length (t_xsys g)"
    using assms(1) by (simp_all add: clones_def)
  note eqs = clone_symbol_def nsy_clone_eq Let_def g(1)
  have u: "xsy_is_accessible (t_xsys g ! k)" "xsy_is_productive (t_xsys g ! k)" using True by (simp_all add: usable_def)
  have n: "not_cloned rw k" using assms by (simp add: clones_def)
  have frame: "rw_g ?rw = g" "t_irls ?rw = t_irls rw" "t_start_irl ?rw = t_start_irl rw"
      "length (t_nsy_equivalents ?rw) = length (t_xsys g)" "length (t_nulling_nsys ?rw) = length (t_xsys g)"
      "length (t_nsys rw) \<le> length (t_nsys ?rw)"
      "\<forall>i < length (t_nsys rw). nsy_kind (t_nsys ?rw ! i) = nsy_kind (t_nsys rw ! i)"
      "\<forall>i < length (t_nsys ?rw). length (t_nsys rw) \<le> i \<longrightarrow> nsy_is_semantic (t_nsys ?rw ! i) \<and> nsy_source_xsy (t_nsys ?rw ! i) \<noteq> None"
      "\<forall>x. x \<noteq> k \<longrightarrow> NSYID_by_XSYID ?rw x = NSYID_by_XSYID rw x \<and> Nulling_NSYID_by_XSYID ?rw x = Nulling_NSYID_by_XSYID rw x"
    using u g by (auto simp: eqs symbol_alias_eq NSYID_by_XSYID_def Nulling_NSYID_by_XSYID_def nth_append less_Suc_eq nsy_kind_def)
  have self: "cloned g ?rw k"
    using u g assms(2) n
    by (auto simp: eqs symbol_alias_eq cloned_def not_cloned_def NSYID_by_XSYID_def Nulling_NSYID_by_XSYID_def nth_append stands_for_def nsy_kind_def)
  have "if x < Suc k \<and> usable g x then cloned g ?rw x else not_cloned ?rw x" if "x < length (t_xsys g)" for x
  proof (cases "x = k")
    case True
    then show ?thesis using self \<open>usable g k\<close> by simp
  next
    case False
    then have s: "NSYID_by_XSYID ?rw x = NSYID_by_XSYID rw x" "Nulling_NSYID_by_XSYID ?rw x = Nulling_NSYID_by_XSYID rw x"
      using frame(9) by blast+
    have "if x < k \<and> usable g x then cloned g rw x else not_cloned rw x" using assms(1) that by (simp add: clones_def)
    with cloned_kept [OF _ s frame(6,7)] s False show ?thesis by (auto simp: not_cloned_def less_Suc_eq split: if_splits)
  qed
  moreover have "\<forall>i < length (t_nsys ?rw). nsy_is_semantic (t_nsys ?rw ! i) \<and> nsy_source_xsy (t_nsys ?rw ! i) \<noteq> None"
  proof (intro allI impI)
    fix i assume i: "i < length (t_nsys ?rw)"
    show "nsy_is_semantic (t_nsys ?rw ! i) \<and> nsy_source_xsy (t_nsys ?rw ! i) \<noteq> None"
    proof (cases "i < length (t_nsys rw)")
      case True
      then have *: "nsy_is_semantic (t_nsys rw ! i) \<and> nsy_source_xsy (t_nsys rw ! i) \<noteq> None" using assms(1) by (simp add: clones_def)
      from True frame(7) have "nsy_kind (t_nsys ?rw ! i) = nsy_kind (t_nsys rw ! i)" by blast
      from kind_eq [OF this] * show ?thesis by simp
    qed (use frame(8) i in simp)
  qed
  ultimately show ?thesis using frame(1-5) assms(1) unfolding clones_def by simp
qed

lemma clone_symbols_clones: "clones g (length (t_xsys g)) (clone_symbols (rw_start g))"
proof -
  have "k \<le> length (t_xsys g) \<Longrightarrow> clones g k (fold clone_symbol [0..<k] (rw_start g))" for k
  proof (induction k)
    case 0
    then show ?case by (simp add: clones_def rw_start_def not_cloned_def NSYID_by_XSYID_def Nulling_NSYID_by_XSYID_def)
  next
    case (Suc k)
    then show ?case using clone_step [of g k] by simp
  qed
  from this [of "length (t_xsys g)"] show ?thesis by (simp add: clone_symbols_def rw_start_def)
qed

section \<open>The factors of a rule\<close>

abbreviation factor :: "marpa_g \<Rightarrow> nat \<Rightarrow> bool" where
  "factor g x \<equiv> \<not> nulling g x \<and> nullable g x"

abbreviation solid :: "marpa_g \<Rightarrow> nat \<Rightarrow> bool" where
  "solid g x \<equiv> \<not> nulling g x \<and> \<not> nullable g x"

lemma factor_scan_finds:
  assumes "factor_scan g xs ix fs suffix = (fs', suffix')" "ix \<le> length rhs" "drop ix rhs = xs"
  shows "fs' = fs @ filter (\<lambda>p. factor g (rhs ! p)) [ix..<length rhs]
    \<and> (\<forall>p. suffix' \<le> p \<and> ix \<le> p \<and> p < length rhs \<longrightarrow> \<not> solid g (rhs ! p))
    \<and> (suffix' = suffix \<or> (\<exists>p. ix \<le> p \<and> p < length rhs \<and> solid g (rhs ! p) \<and> suffix' = Suc p))"
  using assms
proof (induction xs arbitrary: ix fs suffix)
  case Nil
  then show ?case by auto
next
  case (Cons x xs)
  have less: "ix < length rhs" using Cons.prems(3) by (metis drop_all leI list.discI)
  with Cons_nth_drop_Suc [OF less] Cons.prems(3) have ix: "ix < length rhs" "rhs ! ix = x" "drop (Suc ix) rhs = xs" by simp_all
  have up: "[ix..<length rhs] = ix # [Suc ix..<length rhs]" using ix(1) by (rule upt_conv_Cons)
  have later: "Suc ix \<le> length rhs" using ix(1) by simp
  have step: "ix \<le> p \<Longrightarrow> p = ix \<or> Suc ix \<le> p" for p by auto
  consider "nulling g x" | "factor g x" | "solid g x" by blast
  then show ?case
  proof cases
    case 1
    with Cons.prems(1) have "factor_scan g xs (Suc ix) fs suffix = (fs', suffix')" by (simp add: Let_def)
    from Cons.IH [OF this later ix(3)] 1 show ?thesis unfolding up using ix(2) step by (auto dest: Suc_leD)
  next
    case 2
    with Cons.prems(1) have "factor_scan g xs (Suc ix) (fs @ [ix]) suffix = (fs', suffix')" by (simp add: Let_def)
    from Cons.IH [OF this later ix(3)] 2 show ?thesis unfolding up using ix(2) step by (auto dest: Suc_leD)
  next
    case 3
    with Cons.prems(1) have "factor_scan g xs (Suc ix) fs (Suc ix) = (fs', suffix')" by (simp add: Let_def)
    from Cons.IH [OF this later ix(3)] 3 show ?thesis unfolding up using ix step by (auto dest: Suc_leD)
  qed
qed

text \<open>What the scan finds in a whole rule.\<close>

definition scanned :: "marpa_g \<Rightarrow> nat list \<Rightarrow> nat list \<Rightarrow> nat \<Rightarrow> bool" where
  "scanned g rhs fs suffix \<longleftrightarrow> fs = filter (\<lambda>p. factor g (rhs ! p)) [0..<length rhs]
     \<and> (\<forall>p. suffix \<le> p \<and> p < length rhs \<longrightarrow> \<not> solid g (rhs ! p))
     \<and> (suffix = 0 \<or> (\<exists>p < length rhs. solid g (rhs ! p) \<and> suffix = Suc p))"

lemma factor_scan_scanned: "factor_scan g rhs 0 [] 0 = (fs, suffix) \<Longrightarrow> scanned g rhs fs suffix"
  using factor_scan_finds [of g rhs 0 "[]" 0 fs suffix rhs] by (auto simp: scanned_def)

definition proper_nsy :: "marpa_rw \<Rightarrow> nat \<Rightarrow> nat" where
  "proper_nsy rw x = the (NSYID_by_XSYID rw x)"

definition nulled_nsy :: "marpa_rw \<Rightarrow> nat \<Rightarrow> nat" where
  "nulled_nsy rw x = the (Nulling_NSYID_by_XSYID rw x)"

text \<open>All usable symbols have their internal symbols, which are the first \<open>B\<close>.\<close>

definition has_clones :: "marpa_g \<Rightarrow> nat \<Rightarrow> marpa_rw \<Rightarrow> bool" where
  "has_clones g B rw \<longleftrightarrow> rw_g rw = g \<and> B \<le> length (t_nsys rw)
     \<and> (\<forall>i < length (t_nsys rw). (nsy_is_semantic (t_nsys rw ! i) \<longleftrightarrow> i < B) \<and> nsy_source_xsy (t_nsys rw ! i) \<noteq> None)
     \<and> (\<forall>x. usable g x \<longrightarrow> cloned g rw x) \<and> (\<forall>x < length (t_xsys g). \<not> usable g x \<longrightarrow> not_cloned rw x)"

lemma stands_semantic: "stands_for g x e nsy \<Longrightarrow> nsy_is_semantic nsy"
  by (simp add: stands_for_def nsy_kind_def)

lemma clonesE:
  assumes c: "has_clones g B rw" "usable g x"
  obtains "NSYID_by_XSYID rw x = Some (proper_nsy rw x)" "proper_nsy rw x < B" "stands_for g x (nulling g x) (t_nsys rw ! proper_nsy rw x)"
    "nulling g x \<Longrightarrow> Nulling_NSYID_by_XSYID rw x = Some (proper_nsy rw x)" "nulling g x \<Longrightarrow> nulled_nsy rw x = proper_nsy rw x"
    "factor g x \<Longrightarrow> Nulling_NSYID_by_XSYID rw x = Some (nulled_nsy rw x) \<and> nulled_nsy rw x < B \<and> stands_for g x True (t_nsys rw ! nulled_nsy rw x)"
    "solid g x \<Longrightarrow> Nulling_NSYID_by_XSYID rw x = None"
proof -
  have "cloned g rw x" using c by (simp add: has_clones_def)
  then obtain i where i: "i < length (t_nsys rw)" "NSYID_by_XSYID rw x = Some i" "stands_for g x (nulling g x) (t_nsys rw ! i)"
    "if nulling g x then Nulling_NSYID_by_XSYID rw x = Some i
        else if nullable g x then \<exists>j < length (t_nsys rw). Nulling_NSYID_by_XSYID rw x = Some j \<and> stands_for g x True (t_nsys rw ! j)
        else Nulling_NSYID_by_XSYID rw x = None" unfolding cloned_def by blast
  have B: "j < B" if "j < length (t_nsys rw)" "stands_for g x e (t_nsys rw ! j)" for j e
    using c(1) that stands_semantic by (auto simp: has_clones_def)
  have p: "proper_nsy rw x = i" using i(2) by (simp add: proper_nsy_def)
  show thesis
    by (rule that) (use i B p in \<open>auto simp: nulled_nsy_def split: if_splits\<close>)
qed

lemma clonesD:
  assumes c: "has_clones g B rw" "usable g x"
  shows "NSYID_by_XSYID rw x = Some (proper_nsy rw x)" "proper_nsy rw x < B"
    "nulling g x \<Longrightarrow> nulled_nsy rw x = proper_nsy rw x" "\<not> solid g x \<Longrightarrow> Nulling_NSYID_by_XSYID rw x = Some (nulled_nsy rw x)"
    "\<not> solid g x \<Longrightarrow> nulled_nsy rw x < B"
  by (rule clonesE [OF c]; metis)+

lemma proper_differs:
  assumes "has_clones g B rw" "usable g x" "factor g x"
  shows "nulled_nsy rw x \<noteq> proper_nsy rw x"
  using assms by (elim clonesE) (auto simp: stands_for_def nsy_kind_def)

section \<open>The words of a rule\<close>

text \<open>
  The right hand sides that a rule stands for, over internal symbols: a nullable symbol may be nulled, but
  something must be left.
\<close>

definition variant_words :: "marpa_g \<Rightarrow> marpa_rw \<Rightarrow> marpa_xrl \<Rightarrow> nat list set" where
  "variant_words g rw r = {ys. \<exists>w \<in> expansions r.
     list_all2 (\<lambda>x y. y = proper_nsy rw x \<or> nullable g x \<and> y = nulled_nsy rw x) w ys
     \<and> (\<exists>p < length w. ys ! p = proper_nsy rw (w ! p) \<and> \<not> nulling g (w ! p))}"

lemma scanned_factors_left:
  assumes "scanned g rhs fs suffix" "has_clones g B rw" "\<forall>x \<in> set rhs. usable g x"
  shows "factors_left (proper_nsy rw) (nulled_nsy rw) rhs suffix fs 0"
proof -
  have "p \<in> set fs \<or> nulled_nsy rw (rhs ! p) = proper_nsy rw (rhs ! p)" if "suffix \<le> p" "p < length rhs" for p
  proof -
    have "\<not> solid g (rhs ! p)" using assms(1) that by (simp add: scanned_def)
    then consider "nulling g (rhs ! p)" | "factor g (rhs ! p)" by blast
    then show ?thesis
    proof cases
      case 1
      have "usable g (rhs ! p)" using assms(3) that by simp
      from clonesE [OF assms(2) this] 1 show ?thesis by metis
    qed (use assms(1) that in \<open>simp add: scanned_def\<close>)
  qed
  moreover have "Suc p \<noteq> suffix" if "p \<in> set fs" for p using assms(1) that by (auto simp: scanned_def)
  moreover have "sorted_wrt (<) fs" using assms(1) by (simp add: scanned_def sorted_wrt_filter)
  moreover have "p < length rhs" if "p \<in> set fs" for p using assms(1) that by (simp add: scanned_def)
  ultimately show ?thesis by (simp add: factors_left_def)
qed

lemma choices_variants:
  assumes s: "scanned g (RHS_IDs_of_XRL r) fs suffix" and c: "has_clones g B rw" and r: "rule_ready g r" "\<not> t_is_sequence r"
  shows "{choice (proper_nsy rw) (nulled_nsy rw) (RHS_IDs_of_XRL r) N 0 (length (RHS_IDs_of_XRL r)) | N. chosen suffix fs 0 N} = variant_words g rw r"
proof -
  let ?rhs = "RHS_IDs_of_XRL r"
  let ?c = "\<lambda>N. choice (proper_nsy rw) (nulled_nsy rw) ?rhs N 0 (length ?rhs)"
  have u: "\<forall>x \<in> set ?rhs. usable g x" using r by (auto simp: rule_ready_def mentions_def)
  have fs: "p \<in> set fs \<longleftrightarrow> p < length ?rhs \<and> factor g (?rhs ! p)" for p using s by (auto simp: scanned_def)
  have d: "nulled_nsy rw (?rhs ! p) \<noteq> proper_nsy rw (?rhs ! p)" if "p \<in> set fs" for p
    using proper_differs [OF c] u that fs by simp
  have e: "nulled_nsy rw (?rhs ! p) = proper_nsy rw (?rhs ! p)" if "p < length ?rhs" "nulling g (?rhs ! p)" for p
    using clonesE [OF c, of "?rhs ! p"] u that by (metis nth_mem)
  have v: "variant_words g rw r = {ys. length ys = length ?rhs
      \<and> (\<forall>p < length ?rhs. ys ! p = proper_nsy rw (?rhs ! p) \<or> nullable g (?rhs ! p) \<and> ys ! p = nulled_nsy rw (?rhs ! p))
      \<and> (\<exists>p < length ?rhs. ys ! p = proper_nsy rw (?rhs ! p) \<and> \<not> nulling g (?rhs ! p))}"
    using r(2) by (auto simp: variant_words_def expansions_def list_all2_conv_all_nth)
  have nth: "?c N ! p = (if p \<in> N then nulled_nsy rw (?rhs ! p) else proper_nsy rw (?rhs ! p))" if "p < length ?rhs" for N p
    using that by (simp add: choice_def)
  show ?thesis
  proof
    show "{?c N | N. chosen suffix fs 0 N} \<subseteq> variant_words g rw r"
    proof
      fix ys assume "ys \<in> {?c N | N. chosen suffix fs 0 N}"
      then obtain N where N: "ys = ?c N" "N \<subseteq> set fs" "\<not> (suffix \<le> 0 \<and> N = set fs)" unfolding chosen_def by blast
      have all: "\<forall>p < length ?rhs. ys ! p = proper_nsy rw (?rhs ! p) \<or> nullable g (?rhs ! p) \<and> ys ! p = nulled_nsy rw (?rhs ! p)"
        using N(2) fs by (auto simp: N(1) nth)
      obtain p where "p < length ?rhs" "p \<notin> N" "\<not> nulling g (?rhs ! p)"
      proof (cases "suffix = 0")
        case True
        with N obtain p where "p \<in> set fs" "p \<notin> N" by auto
        with fs that show thesis by blast
      next
        case False
        with s obtain p where "p < length ?rhs" "solid g (?rhs ! p)" by (auto simp: scanned_def)
        with fs N(2) that show thesis by blast
      qed
      then have "\<exists>p < length ?rhs. ys ! p = proper_nsy rw (?rhs ! p) \<and> \<not> nulling g (?rhs ! p)" by (auto simp: N(1) nth)
      with all show "ys \<in> variant_words g rw r" unfolding v by (simp add: N(1))
    qed
  next
    show "variant_words g rw r \<subseteq> {?c N | N. chosen suffix fs 0 N}"
    proof
      fix ys assume "ys \<in> variant_words g rw r"
      then have y: "length ys = length ?rhs"
        "\<And>p. p < length ?rhs \<Longrightarrow> ys ! p = proper_nsy rw (?rhs ! p) \<or> nullable g (?rhs ! p) \<and> ys ! p = nulled_nsy rw (?rhs ! p)"
        "\<exists>p < length ?rhs. ys ! p = proper_nsy rw (?rhs ! p) \<and> \<not> nulling g (?rhs ! p)" unfolding v by auto
      define N where "N = {p \<in> set fs. ys ! p = nulled_nsy rw (?rhs ! p)}"
      have "ys = ?c N"
      proof (rule nth_equalityI)
        fix p assume "p < length ys"
        then have p: "p < length ?rhs" using y(1) by simp
        show "ys ! p = ?c N ! p" using y(2) [OF p] e [OF p] p fs [of p] unfolding nth [OF p] N_def by auto
      qed (simp add: y(1))
      moreover have "chosen suffix fs 0 N"
      proof -
        have False if z: "suffix = 0" "N = set fs"
        proof -
          obtain p where p: "p < length ?rhs" "ys ! p = proper_nsy rw (?rhs ! p)" "\<not> nulling g (?rhs ! p)" using y(3) by blast
          have "\<not> solid g (?rhs ! p)" using s z(1) p(1) by (simp add: scanned_def)
          then have "p \<in> set fs" using fs p by blast
          then have "ys ! p = nulled_nsy rw (?rhs ! p)" using z(2) by (auto simp: N_def)
          with d [OF \<open>p \<in> set fs\<close>] p(2) show False by simp
        qed
        then show ?thesis unfolding chosen_def N_def by auto
      qed
      ultimately show "ys \<in> {?c N | N. chosen suffix fs 0 N}" by blast
    qed
  qed
qed

text \<open>The words of a sequence rule, whose minimum is 0 or 1.\<close>

definition separator_of :: "marpa_xrl \<Rightarrow> nat option" where
  "separator_of r = (if 0 \<le> t_separator_id r then Some (nat (t_separator_id r)) else None)"

lemma items_repeated: "map h (sequence_items x sep (Suc k)) = repeated (h x) (map_option h (if 0 \<le> sep then Some (nat sep) else None)) k"
  by (simp add: sequence_items_def repeated_def map_concat map_replicate)

lemma sequence_expansions:
  assumes "t_is_sequence r" "t_minimum r \<le> 1" "RHS_IDs_of_XRL r = [x]" "w \<noteq> []"
  shows "w \<in> expansions r \<longleftrightarrow> (\<exists>k t. w = sequence_items x (t_separator_id r) (Suc k) @ (if t then [the (separator_of r)] else [])
     \<and> (t \<longrightarrow> separator_of r \<noteq> None \<and> \<not> t_is_proper_separation r))"
proof
  assume "w \<in> expansions r"
  then consider k where "w = sequence_items x (t_separator_id r) k"
    | k where "w = sequence_items x (t_separator_id r) k @ [nat (t_separator_id r)]" "0 < k" "0 \<le> t_separator_id r" "\<not> t_is_proper_separation r"
    using assms(1,3) by (auto simp: expansions_def)
  then show "\<exists>k t. w = sequence_items x (t_separator_id r) (Suc k) @ (if t then [the (separator_of r)] else [])
     \<and> (t \<longrightarrow> separator_of r \<noteq> None \<and> \<not> t_is_proper_separation r)"
  proof cases
    case (1 k)
    with assms(4) obtain j where "k = Suc j" by (cases k) auto
    with 1 show ?thesis by (intro exI [of _ j] exI [of _ False]) simp
  next
    case (2 k)
    then obtain j where "k = Suc j" by (cases k) auto
    with 2 show ?thesis by (intro exI [of _ j] exI [of _ True]) (simp add: separator_of_def)
  qed
next
  assume "\<exists>k t. w = sequence_items x (t_separator_id r) (Suc k) @ (if t then [the (separator_of r)] else [])
     \<and> (t \<longrightarrow> separator_of r \<noteq> None \<and> \<not> t_is_proper_separation r)"
  then obtain k t where w: "w = sequence_items x (t_separator_id r) (Suc k) @ (if t then [the (separator_of r)] else [])"
    "t \<longrightarrow> separator_of r \<noteq> None \<and> \<not> t_is_proper_separation r" by blast
  have m: "t_minimum r \<le> int (Suc k)" using assms(2) by simp
  show "w \<in> expansions r"
  proof (cases t)
    case True
    then have "0 \<le> t_separator_id r" "\<not> t_is_proper_separation r" "the (separator_of r) = nat (t_separator_id r)"
      using w(2) by (auto simp: separator_of_def split: if_splits)
    with w(1) True m assms(1,3) show ?thesis unfolding expansions_def by auto
  qed (use w(1) m assms(1,3) in \<open>auto simp: expansions_def\<close>)
qed

lemma described_image:
  assumes "\<And>w. Q w \<longleftrightarrow> (\<exists>k t. w = W k t \<and> C k t)"
  shows "{f w | w. Q w} = {f (W k t) | k t. C k t}"
  unfolding assms by blast

lemma sequence_variants:
  assumes r: "rule_ready g r" "t_is_sequence r" "t_minimum r \<le> 1"
  shows "sequence_words (proper_nsy rw (RHS_IDs_of_XRL r ! 0)) (map_option (proper_nsy rw) (separator_of r)) (t_is_proper_separation r)
    = variant_words g rw r"
proof -
  obtain x where x: "RHS_IDs_of_XRL r = [x]" using r(1,2) by (auto simp: rule_ready_def length_Suc_conv)
  have one: "one_item r" using x by (simp add: one_item_def)
  have m: "\<forall>y \<in> mentions r. \<not> nullable g y \<and> \<not> nulling g y" using r(1,2) by (simp add: rule_ready_def)
  have all: "list_all2 (\<lambda>a y. y = proper_nsy rw a \<or> nullable g a \<and> y = nulled_nsy rw a) w ys \<longleftrightarrow> ys = map (proper_nsy rw) w"
    and some: "(\<exists>p < length w. map (proper_nsy rw) w ! p = proper_nsy rw (w ! p) \<and> \<not> nulling g (w ! p)) \<longleftrightarrow> w \<noteq> []"
    if "w \<in> expansions r" for w ys
  proof -
    have w: "\<forall>a \<in> set w. \<not> nullable g a \<and> \<not> nulling g a" using expansion_mentions [OF one that] m by blast
    then show "list_all2 (\<lambda>a y. y = proper_nsy rw a \<or> nullable g a \<and> y = nulled_nsy rw a) w ys \<longleftrightarrow> ys = map (proper_nsy rw) w"
      by (auto simp: list_all2_conv_all_nth list_eq_iff_nth_eq)
    show "(\<exists>p < length w. map (proper_nsy rw) w ! p = proper_nsy rw (w ! p) \<and> \<not> nulling g (w ! p)) \<longleftrightarrow> w \<noteq> []"
      using w by (cases w) auto
  qed
  have "variant_words g rw r = {map (proper_nsy rw) w | w. w \<in> expansions r \<and> w \<noteq> []}"
  proof (rule set_eqI)
    fix ys
    have "list_all2 (\<lambda>a y. y = proper_nsy rw a \<or> nullable g a \<and> y = nulled_nsy rw a) w ys
        \<and> (\<exists>p < length w. ys ! p = proper_nsy rw (w ! p) \<and> \<not> nulling g (w ! p)) \<longleftrightarrow> ys = map (proper_nsy rw) w \<and> w \<noteq> []"
      if "w \<in> expansions r" for w
      unfolding all [OF that] using some [OF that] by (intro conj_cong refl) simp
    then show "ys \<in> variant_words g rw r \<longleftrightarrow> ys \<in> {map (proper_nsy rw) w | w. w \<in> expansions r \<and> w \<noteq> []}"
      unfolding variant_words_def mem_Collect_eq by (metis (no_types, lifting))
  qed
  also have "\<dots> = {map (proper_nsy rw) (sequence_items x (t_separator_id r) (Suc k) @ (if t then [the (separator_of r)] else [])) | k t.
      t \<longrightarrow> separator_of r \<noteq> None \<and> \<not> t_is_proper_separation r}"
  proof -
    have "w \<in> expansions r \<and> w \<noteq> [] \<longleftrightarrow> (\<exists>k t. w = sequence_items x (t_separator_id r) (Suc k) @ (if t then [the (separator_of r)] else [])
       \<and> (t \<longrightarrow> separator_of r \<noteq> None \<and> \<not> t_is_proper_separation r))" for w
    proof (cases "w = []")
      case False
      with sequence_expansions [OF r(2,3) x, of w] show ?thesis by (simp only: simp_thms)
    qed simp
    then show ?thesis
      by (rule described_image [where Q = "\<lambda>w. w \<in> expansions r \<and> w \<noteq> []"
        and W = "\<lambda>k t. sequence_items x (t_separator_id r) (Suc k) @ (if t then [the (separator_of r)] else [])"
        and C = "\<lambda>k t. t \<longrightarrow> separator_of r \<noteq> None \<and> \<not> t_is_proper_separation r"])
  qed
  also have "\<dots> = sequence_words (proper_nsy rw x) (map_option (proper_nsy rw) (separator_of r)) (t_is_proper_separation r)"
  proof -
    have E: "map (proper_nsy rw) (sequence_items x (t_separator_id r) (Suc k) @ (if t then [the (separator_of r)] else []))
      = repeated (proper_nsy rw x) (map_option (proper_nsy rw) (separator_of r)) k
        @ (if t then [the (map_option (proper_nsy rw) (separator_of r))] else [])"
      if "t \<longrightarrow> separator_of r \<noteq> None" for k t
      using that by (cases "0 \<le> t_separator_id r") (auto simp: items_repeated separator_of_def)
    have "ys = map (proper_nsy rw) (sequence_items x (t_separator_id r) (Suc k) @ (if t then [the (separator_of r)] else []))
        \<and> (t \<longrightarrow> separator_of r \<noteq> None \<and> \<not> t_is_proper_separation r)
      \<longleftrightarrow> ys = repeated (proper_nsy rw x) (map_option (proper_nsy rw) (separator_of r)) k
          @ (if t then [the (map_option (proper_nsy rw) (separator_of r))] else [])
        \<and> (t \<longrightarrow> map_option (proper_nsy rw) (separator_of r) \<noteq> None \<and> \<not> t_is_proper_separation r)" for ys k t
    proof (cases "t \<longrightarrow> separator_of r \<noteq> None")
      case True
      show ?thesis unfolding E [OF True] option.map_disc_iff ..
    qed simp
    then show ?thesis unfolding sequence_words_def by (simp only:)
  qed
  finally show ?thesis using x by simp
qed

section \<open>The rewriting of one rule\<close>

lemma finish_adds:
  assumes "LHSID_of_IRL irl < length (t_nsys rw)" "irl_source_xrl irl = Some k" "sides_of irl = side"
    "nsy_is_semantic (t_nsys rw ! LHSID_of_IRL irl) \<or> owner rw (LHSID_of_IRL irl) = Some k"
  shows "adds k source [side] 0 rw (irl_finish irl rw)"
  using assms by (auto simp: adds_def same_table_def sides_of_def owner_def nsy_kind_def)

lemma adds_marked:
  assumes "nsy_new source rw = (v, rw1)" "adds k source sides 0 (nsy_update v (\<lambda>nsy. nsy\<lparr>nsy_lhs_xrl := Some k\<rparr>) rw1) rw'" "v \<in> fst ` set sides"
  shows "adds k source sides 1 rw rw'"
proof -
  have v: "v = length (t_nsys rw)" using assms(1) by (simp add: nsy_new_eq)
  let ?rw2 = "nsy_update v (\<lambda>nsy. nsy\<lparr>nsy_lhs_xrl := Some k\<rparr>) rw1"
  have 2: "same_table rw ?rw2" "t_irls ?rw2 = t_irls rw" "length (t_nsys ?rw2) = Suc v"
    "\<forall>i < v. t_nsys ?rw2 ! i = t_nsys rw ! i" "new_virtual (rw_g rw) source (t_nsys ?rw2 ! v)" "rw_g ?rw2 = rw_g rw"
    using assms(1) by (auto simp: nsy_new_eq v same_table_def nsy_update_def nth_append new_virtual_def nsy_kind_def)
  note a = assms(2) [unfolded adds_def 2]
  have "new_virtual (rw_g rw) source (t_nsys rw' ! v)"
  proof -
    have "nsy_kind (t_nsys rw' ! v) = nsy_kind (t_nsys ?rw2 ! v)" using a by simp
    with 2(5) show ?thesis by (simp add: new_virtual_def)
  qed
  moreover have "\<forall>i < v. nsy_kind (t_nsys rw' ! i) = nsy_kind (t_nsys rw ! i)" using a 2(4) by simp
  moreover have "same_table rw rw'" using a 2(1) by (simp add: same_table_def)
  moreover have "owner rw' i = (if i \<in> fst ` set sides then Some k else if i < v then owner rw i else None)"
    if "i < Suc v" "\<not> nsy_is_semantic (t_nsys rw' ! i)" for i
  proof -
    have "owner rw' i = (if i \<in> fst ` set sides then Some k else if i < Suc v then owner ?rw2 i else None)" using a that by simp
    then show ?thesis using 2(4) assms(3) that(1) by (auto simp: owner_def less_Suc_eq)
  qed
  ultimately show ?thesis using a unfolding adds_def by (auto simp: v less_Suc_eq)
qed

lemma sequence_adds:
  assumes c: "has_clones g B rw" and r: "rule_ready g r" "t_is_sequence r"
  shows "\<exists>rw'. rewrite_sequence k r rw = Some rw' \<and> adds k (LHS_ID_of_XRL r)
    (sequence_sides (proper_nsy rw (LHS_ID_of_XRL r)) (length (t_nsys rw)) (proper_nsy rw (RHS_IDs_of_XRL r ! 0))
       (map_option (proper_nsy rw) (separator_of r)) (t_is_proper_separation r)) 1 rw rw'"
proof -
  obtain x where x: "RHS_IDs_of_XRL r = [x]" using r by (auto simp: rule_ready_def length_Suc_conv)
  let ?l = "proper_nsy rw (LHS_ID_of_XRL r)" and ?x = "proper_nsy rw x" and ?v = "length (t_nsys rw)"
  let ?sep = "map_option (proper_nsy rw) (separator_of r)"
  have u: "usable g (LHS_ID_of_XRL r)" "usable g x" "0 \<le> t_separator_id r \<Longrightarrow> usable g (nat (t_separator_id r))"
    using r x by (auto simp: rule_ready_def mentions_def)
  obtain v rw1 where new: "nsy_new (LHS_ID_of_XRL r) rw = (v, rw1)" by (cases "nsy_new (LHS_ID_of_XRL r) rw")
  have v: "v = ?v" using new by (simp add: nsy_new_eq)
  have same: "NSYID_by_XSYID rw1 y = NSYID_by_XSYID rw y" for y using new by (auto simp: nsy_new_eq NSYID_by_XSYID_def)
  have l: "NSYID_by_XSYID rw (LHS_ID_of_XRL r) = Some ?l" "?l < B" using clonesE [OF c u(1)] by blast+
  have lx: "NSYID_by_XSYID rw x = Some ?x" using clonesE [OF c u(2)] by blast
  have ls: "(if 0 \<le> t_separator_id r then map_option Some (NSYID_by_XSYID rw1 (nat (t_separator_id r))) else Some None) = Some ?sep"
  proof (cases "0 \<le> t_separator_id r")
    case True
    from clonesE [OF c u(3) [OF True]] have "NSYID_by_XSYID rw (nat (t_separator_id r)) = Some (proper_nsy rw (nat (t_separator_id r)))" by blast
    with True show ?thesis by (simp add: same separator_of_def)
  qed (simp add: separator_of_def)
  define rw2 where "rw2 = nsy_update v (\<lambda>nsy. nsy\<lparr>nsy_lhs_xrl := Some k\<rparr>) rw1"
  have B: "B \<le> ?v" using c by (simp add: has_clones_def)
  then have lv: "?l < ?v" using l(2) by simp
  have sem: "nsy_is_semantic (t_nsys rw ! ?l)" using c l(2) lv by (simp add: has_clones_def)
  have 2: "length (t_nsys rw2) = Suc v" "owner rw2 v = Some k" "nsy_is_semantic (t_nsys rw2 ! ?l)"
    using new sem lv by (auto simp: rw2_def nsy_new_eq owner_def nsy_update_def nth_append)
  define good where "good rw' \<longleftrightarrow> length (t_nsys rw') = Suc v \<and> owner rw' v = Some k \<and> nsy_is_semantic (t_nsys rw' ! ?l) \<and> \<not> nsy_is_semantic (t_nsys rw' ! v)" for rw'
  have g2: "good rw2" using 2 new by (auto simp: good_def rw2_def nsy_new_eq nsy_update_def nth_append)
  have good: "good rb" if a: "adds k (LHS_ID_of_XRL r) sides 0 ra rb" and g: "good ra" for sides ra rb
  proof -
    have n: "length (t_nsys ra) = Suc v" "length (t_nsys rb) = Suc v" using a g by (simp_all add: adds_def good_def)
    have "nsy_kind (t_nsys rb ! i) = nsy_kind (t_nsys ra ! i)" if "i < Suc v" for i using a n that by (simp add: adds_def)
    then have "nsy_is_semantic (t_nsys rb ! i) = nsy_is_semantic (t_nsys ra ! i)" if "i < Suc v" for i using kind_eq that by blast
    then have s: "nsy_is_semantic (t_nsys rb ! ?l)" "\<not> nsy_is_semantic (t_nsys rb ! v)" using g lv v by (simp_all add: good_def)
    then have "owner rb v = (if v \<in> fst ` set sides then Some k else owner ra v)" using a n by (simp add: adds_def)
    then show ?thesis using n s g by (simp add: good_def)
  qed
  note d = irl_start_def sides_of_def LHSID_of_IRL_def RHSIDs_of_IRL_def good_def
  define rw3 where "rw3 = sequence_top k r ?l v rw2"
  have a3: "adds k (LHS_ID_of_XRL r) [(?l, [v])] 0 rw2 rw3"
    unfolding rw3_def sequence_top_def by (rule finish_adds; use g2 lv v in \<open>simp add: d\<close>)
  define rw4 where "rw4 = (case ?sep of Some s \<Rightarrow> if \<not> t_is_proper_separation r then sequence_top_separated k r ?l v s rw3 else rw3 | None \<Rightarrow> rw3)"
  have a4: "adds k (LHS_ID_of_XRL r) (case ?sep of Some s \<Rightarrow> if t_is_proper_separation r then [] else [(?l, [v, s])] | None \<Rightarrow> []) 0 rw3 rw4"
  proof -
    have "adds k (LHS_ID_of_XRL r) [(?l, [v, s])] 0 rw3 (sequence_top_separated k r ?l v s rw3)" for s
      unfolding sequence_top_separated_def by (rule finish_adds; use good [OF a3 g2] lv v in \<open>simp add: d\<close>)
    then show ?thesis using adds_none by (auto simp: rw4_def split: option.split)
  qed
  define rw5 where "rw5 = sequence_base k r v ?x rw4"
  have a5: "adds k (LHS_ID_of_XRL r) [(v, [?x])] 0 rw4 rw5"
    unfolding rw5_def sequence_base_def by (rule finish_adds; use good [OF a4 good [OF a3 g2]] in \<open>simp add: d\<close>)
  define rw6 where "rw6 = sequence_step k r v ?sep ?x rw5"
  have a6: "adds k (LHS_ID_of_XRL r) [(v, v # (case ?sep of None \<Rightarrow> [] | Some s \<Rightarrow> [s]) @ [?x])] 0 rw5 rw6"
    unfolding rw6_def sequence_step_def Let_def by (rule finish_adds; use good [OF a5 good [OF a4 good [OF a3 g2]]] in \<open>simp add: d\<close>)
  note all = adds_trans [OF adds_trans [OF adds_trans [OF a3 a4] a5] a6]
  have sides: "(([(?l, [v])] @ (case ?sep of Some s \<Rightarrow> if t_is_proper_separation r then [] else [(?l, [v, s])] | None \<Rightarrow> [])) @ [(v, [?x])])
      @ [(v, v # (case ?sep of None \<Rightarrow> [] | Some s \<Rightarrow> [s]) @ [?x])] = sequence_sides ?l v ?x ?sep (t_is_proper_separation r)"
    by (simp add: sequence_sides_def)
  have "adds k (LHS_ID_of_XRL r) (sequence_sides ?l v ?x ?sep (t_is_proper_separation r)) 0 rw2 rw6" using all unfolding sides by simp
  then have "adds k (LHS_ID_of_XRL r) (sequence_sides ?l v ?x ?sep (t_is_proper_separation r)) 1 rw rw6"
    unfolding rw2_def by (rule adds_marked [OF new]) (simp add: sequence_sides_def)
  moreover have "rewrite_sequence k r rw = Some rw6"
    unfolding rewrite_sequence_def rw6_def rw5_def rw4_def rw3_def rw2_def using l(1) lx ls by (simp add: new same x Let_def)
  ultimately show ?thesis using x by (simp add: v)
qed

text \<open>What is known of the internal rules of one rule, made with the symbols \<open>L\<close> to \<open>U\<close>.\<close>

definition rule_block :: "marpa_g \<Rightarrow> nat \<Rightarrow> marpa_rw \<Rightarrow> marpa_xrl \<Rightarrow> nat \<Rightarrow> nat \<Rightarrow> (nat \<times> nat list) set \<Rightarrow> bool" where
  "rule_block g B rw r L U P \<longleftrightarrow>
     ((t_is_sequence r \<longrightarrow> t_minimum r \<le> 1) \<longrightarrow> spells_once P (\<lambda>v. B \<le> v) (proper_nsy rw (LHS_ID_of_XRL r)) (variant_words g rw r))
     \<and> (\<forall>(l, xs) \<in> P. (l = proper_nsy rw (LHS_ID_of_XRL r) \<or> L \<le> l \<and> l < U) \<and> (\<forall>y \<in> set xs. B \<le> y \<longrightarrow> L \<le> y \<and> y < U))
     \<and> (\<forall>v. L \<le> v \<and> v < U \<longrightarrow> v \<in> fst ` P) \<and> (\<forall>(l, xs) \<in> P. linear (\<lambda>v. B \<le> v) xs)"

lemma chaf_rule:
  assumes c: "has_clones g B rw" and r: "rule_ready g r" "\<not> t_is_sequence r"
    and s: "scanned g (RHS_IDs_of_XRL r) fs suffix" "fs \<noteq> []"
  shows "\<exists>rw' sides m. chaf_rewrite k r fs suffix rw = Some rw' \<and> adds k (LHS_ID_of_XRL r) sides m rw rw'
    \<and> rule_block g B rw r (length (t_nsys rw)) (length (t_nsys rw')) (set sides)"
proof -
  let ?rhs = "RHS_IDs_of_XRL r" and ?l = "proper_nsy rw (LHS_ID_of_XRL r)" and ?L = "length (t_nsys rw)"
  let ?p = "clip B (proper_nsy rw)" and ?q = "clip B (nulled_nsy rw)"
  let ?sides = "chaf_sides (choice ?p ?q ?rhs) (length ?rhs) suffix fs 0 ?l ?L"
  have u: "usable g (LHS_ID_of_XRL r)" "\<forall>x \<in> set ?rhs. usable g x" using r by (auto simp: rule_ready_def mentions_def)
  have l: "NSYID_by_XSYID rw (LHS_ID_of_XRL r) = Some ?l" "?l < B" using clonesE [OF c u(1)] by blast+
  have B: "B \<le> ?L" using c by (simp add: has_clones_def)
  have fs: "p \<in> set fs \<longleftrightarrow> p < length ?rhs \<and> factor g (?rhs ! p)" for p using s by (auto simp: scanned_def)
  have clip: "?p x = proper_nsy rw x" "\<not> solid g x \<Longrightarrow> ?q x = nulled_nsy rw x" if "usable g x" for x
  proof -
    show "?p x = proper_nsy rw x" using clonesD(2) [OF c that] by (simp add: clip_def)
    assume "\<not> solid g x"
    then have "nulled_nsy rw x < B" using clonesD(5) [OF c that] by blast
    then show "?q x = nulled_nsy rw x" by (simp add: clip_def)
  qed
  have left0: "factors_left (proper_nsy rw) (nulled_nsy rw) ?rhs suffix fs 0" by (rule scanned_factors_left [OF s(1) c u(2)])
  then have left: "factors_left ?p ?q ?rhs suffix fs 0" by (auto simp: factors_left_def clip_def)
  have known: "symbols_known ?p ?q ?rhs suffix fs rw"
  proof -
    have "NSYID_by_XSYID rw x = Some (?p x)" if "x \<in> set ?rhs" for x
      using clonesD(1) [OF c] clip(1) u(2) that by simp
    moreover have "Nulling_NSYID_by_XSYID rw (?rhs ! p) = Some (?q (?rhs ! p))" if "p < length ?rhs" "p \<in> set fs \<or> suffix \<le> p" for p
    proof -
      have up: "usable g (?rhs ! p)" using u(2) that(1) by simp
      have "\<not> solid g (?rhs ! p)" using that s(1) fs by (auto simp: scanned_def)
      with clip(2) [OF up] clonesD(4) [OF c up] show ?thesis by simp
    qed
    ultimately show ?thesis by (simp add: symbols_known_def)
  qed
  from chaf_loop_adds [OF s(2) left known, of ?l] l(2) B obtain rw' where
    run: "chaf_loop k r suffix fs 0 ?l rw = Some rw'" and adds: "adds k (LHS_ID_of_XRL r) ?sides (chaf_virtuals suffix fs) rw rw'"
    by auto
  have U: "length (t_nsys rw') = ?L + chaf_virtuals suffix fs" using adds_len [OF adds] .
  have "chaf_rewrite k r fs suffix rw = Some rw'" using run l(1) by (simp add: chaf_rewrite_def)
  moreover have "rule_block g B rw r ?L (length (t_nsys rw')) (set ?sides)"
  proof -
    have plain: "plain (choice ?p ?q ?rhs) (\<lambda>v. B \<le> v)" using l(2) by (intro clip_plain) simp
    have diff: "\<forall>p \<in> set fs. ?q (?rhs ! p) \<noteq> ?p (?rhs ! p)"
    proof
      fix p assume p: "p \<in> set fs"
      then have up: "usable g (?rhs ! p)" "factor g (?rhs ! p)" using u(2) fs by auto
      with proper_differs [OF c up] clip [OF up(1)] show "?q (?rhs ! p) \<noteq> ?p (?rhs ! p)" by simp
    qed
    have e: "choice ?p ?q ?rhs N 0 (length ?rhs) = choice (proper_nsy rw) (nulled_nsy rw) ?rhs N 0 (length ?rhs)" if "chosen suffix fs 0 N" for N
    proof (rule choice_clip)
      fix p assume "p < length ?rhs"
      then have up: "usable g (?rhs ! p)" using u(2) by simp
      have "p \<in> N \<Longrightarrow> factor g (?rhs ! p)" using that fs by (auto simp: chosen_def)
      then show "(if p \<in> N then nulled_nsy rw (?rhs ! p) else proper_nsy rw (?rhs ! p)) < B" using clonesD(2,5) [OF c up] by auto
    qed
    have "{choice ?p ?q ?rhs N 0 (length ?rhs) | N. chosen suffix fs 0 N} = variant_words g rw r"
      unfolding choices_variants [OF s(1) c r, symmetric] by (rule Collect_cong, rule ex_cong1) (metis e)
    with chaf_spells_once [OF plain s(2) left _ _ diff, of ?l ?L] l(2) B
    have "spells_once (set ?sides) (\<lambda>v. B \<le> v) ?l (variant_words g rw r)" by simp
    moreover have "\<forall>(x, xs) \<in> set ?sides. (x = ?l \<or> ?L \<le> x \<and> x < length (t_nsys rw'))
        \<and> (\<forall>y \<in> set xs. B \<le> y \<longrightarrow> ?L \<le> y \<and> y < length (t_nsys rw'))"
      using sides_range [OF plain] unfolding U by fast
    moreover have "\<forall>(x, xs) \<in> set ?sides. linear (\<lambda>v. B \<le> v) xs" using sides_linear [OF plain] by blast
    ultimately show ?thesis unfolding rule_block_def using sides_cover [OF s(2)] U by simp
  qed
  ultimately show ?thesis using adds by blast
qed

lemma copied_rule:
  assumes c: "has_clones g B rw" and r: "rule_ready g r" "\<not> t_is_sequence r" and s: "scanned g (RHS_IDs_of_XRL r) [] suffix"
  shows "\<exists>rw' sides m. copy_rule k r rw = Some rw' \<and> adds k (LHS_ID_of_XRL r) sides m rw rw'
    \<and> rule_block g B rw r (length (t_nsys rw)) (length (t_nsys rw')) (set sides)"
proof -
  let ?rhs = "RHS_IDs_of_XRL r" and ?l = "proper_nsy rw (LHS_ID_of_XRL r)"
  let ?ys = "map (proper_nsy rw) ?rhs"
  have u: "usable g (LHS_ID_of_XRL r)" "\<forall>x \<in> set ?rhs. usable g x" using r by (auto simp: rule_ready_def mentions_def)
  have B: "B \<le> length (t_nsys rw)" using c by (simp add: has_clones_def)
  have l: "?l < B" using clonesD(2) [OF c u(1)] .
  have those: "those (map (NSYID_by_XSYID rw) (LHS_ID_of_XRL r # ?rhs)) = Some (map (proper_nsy rw) (LHS_ID_of_XRL r # ?rhs))"
    by (rule those_all) (use clonesD(1) [OF c] u in auto)
  have eq: "copy_rule k r rw = Some (irl_finish ((irl_start (map (proper_nsy rw) (LHS_ID_of_XRL r # ?rhs)) rw)
      \<lparr>irl_source_xrl := Some k, irl_rank := IRL_Rank_by_XRL r\<rparr>) rw)"
    unfolding copy_rule_def those by simp
  define rw' where "rw' = the (copy_rule k r rw)"
  have run: "copy_rule k r rw = Some rw'" using eq by (simp add: rw'_def)
  have "adds k (LHS_ID_of_XRL r) [(?l, ?ys)] 0 rw rw'"
    unfolding rw'_def eq option.sel
    by (rule finish_adds) (use l B c in \<open>auto simp: LHSID_of_IRL_def RHSIDs_of_IRL_def irl_start_def sides_of_def has_clones_def\<close>)
  moreover have "rule_block g B rw r (length (t_nsys rw)) (length (t_nsys rw')) (set [(?l, ?ys)])"
  proof -
    have n: "length (t_nsys rw') = length (t_nsys rw)" using adds_len [OF \<open>adds _ _ _ _ _ _\<close>] by simp
    have small: "\<forall>y \<in> set ?ys. y < B" using clonesD(2) [OF c] u(2) by auto
    then have spell: "spells (set [(?l, ?ys)]) (\<lambda>v. B \<le> v) ?l path ys \<longleftrightarrow> path = [?ys] \<and> ys = ?ys" for path ys
      using spells_all_plain [of "[(?l, ?ys)]" "\<lambda>v. B \<le> v" ?l path ys] by (auto simp: not_le)
    have "0 < suffix"
    proof -
      obtain x where "x \<in> set ?rhs" "\<not> nulling g x" using r by (auto simp: rule_ready_def)
      then obtain p where p: "p < length ?rhs" "\<not> nulling g (?rhs ! p)" by (auto simp: in_set_conv_nth)
      have "filter (\<lambda>p. factor g (?rhs ! p)) [0..<length ?rhs] = []" using s by (simp add: scanned_def)
      then have "solid g (?rhs ! p)" using p by (auto simp: filter_empty_conv)
      then show ?thesis using s p by (cases suffix) (auto simp: scanned_def)
    qed
    then have "chosen suffix [] 0 N \<longleftrightarrow> N = {}" for N by (auto simp: chosen_def)
    then have "variant_words g rw r = {choice (proper_nsy rw) (nulled_nsy rw) ?rhs {} 0 (length ?rhs)}"
      unfolding choices_variants [OF s c r, symmetric] by auto
    also have "choice (proper_nsy rw) (nulled_nsy rw) ?rhs {} 0 (length ?rhs) = ?ys"
      by (rule nth_equalityI) (simp_all add: choice_def)
    finally have "spells_once (set [(?l, ?ys)]) (\<lambda>v. B \<le> v) ?l (variant_words g rw r)" unfolding spells_once_def spell by simp
    moreover have "linear (\<lambda>v. B \<le> v) ?ys" using small by (intro linear_plain) (simp add: not_le)
    ultimately show ?thesis unfolding rule_block_def n using small by auto
  qed
  ultimately show ?thesis using run by blast
qed

lemma sequence_rule:
  assumes c: "has_clones g B rw" and r: "rule_ready g r" "t_is_sequence r"
  shows "\<exists>rw' sides m. rewrite_sequence k r rw = Some rw' \<and> adds k (LHS_ID_of_XRL r) sides m rw rw'
    \<and> rule_block g B rw r (length (t_nsys rw)) (length (t_nsys rw')) (set sides)"
proof -
  let ?l = "proper_nsy rw (LHS_ID_of_XRL r)" and ?v = "length (t_nsys rw)" and ?x = "proper_nsy rw (RHS_IDs_of_XRL r ! 0)"
  let ?sep = "map_option (proper_nsy rw) (separator_of r)"
  let ?sides = "sequence_sides ?l ?v ?x ?sep (t_is_proper_separation r)"
  from sequence_adds [OF c r] obtain rw' where rw': "rewrite_sequence k r rw = Some rw'" "adds k (LHS_ID_of_XRL r) ?sides 1 rw rw'" by blast
  obtain x where x: "RHS_IDs_of_XRL r = [x]" using r by (auto simp: rule_ready_def length_Suc_conv)
  have u: "usable g (LHS_ID_of_XRL r)" "usable g x" "0 \<le> t_separator_id r \<Longrightarrow> usable g (nat (t_separator_id r))"
    using r x by (auto simp: rule_ready_def mentions_def)
  have B: "B \<le> ?v" using c by (simp add: has_clones_def)
  have n: "length (t_nsys rw') = Suc ?v" using adds_len [OF rw'(2)] by simp
  have small: "?l < B" "?x < B" "\<forall>s. ?sep = Some s \<longrightarrow> s < B"
    using clonesD(2) [OF c] u x by (auto simp: separator_of_def split: if_splits)
  have "spells_once (set ?sides) (\<lambda>v. B \<le> v) ?l (variant_words g rw r)" if "t_minimum r \<le> 1"
  proof -
    have "spells_once (set ?sides) (\<lambda>v. B \<le> v) ?l (sequence_words ?x ?sep (t_is_proper_separation r))"
      by (rule sequence_spells_once) (use small B in auto)
    then show ?thesis unfolding sequence_variants [OF r that] .
  qed
  moreover have "\<forall>(a, xs) \<in> set ?sides. (a = ?l \<or> ?v \<le> a \<and> a < Suc ?v) \<and> (\<forall>y \<in> set xs. B \<le> y \<longrightarrow> ?v \<le> y \<and> y < Suc ?v)"
    using small by (cases "separator_of r") (auto simp: sequence_sides_def split: if_splits)
  moreover have "\<forall>v. ?v \<le> v \<and> v < Suc ?v \<longrightarrow> v \<in> fst ` set ?sides"
    by (auto simp: sequence_sides_def less_Suc_eq)
  moreover have "\<forall>(a, xs) \<in> set ?sides. linear (\<lambda>v. B \<le> v) xs"
  proof -
    have "\<not> B \<le> ?x" "\<forall>s. ?sep = Some s \<longrightarrow> \<not> B \<le> s" using small by auto
    from sequence_sides_linear [where virt = "\<lambda>v. B \<le> v", OF this] show ?thesis by blast
  qed
  ultimately have "rule_block g B rw r ?v (length (t_nsys rw')) (set ?sides)" using r(2) unfolding rule_block_def n by blast
  with rw' show ?thesis by blast
qed

theorem rule_rewritten:
  assumes c: "has_clones g B rw" and k: "k < length (t_xrls g)" "xrl_is_used (t_xrls g ! k)" and r: "rule_ready g (t_xrls g ! k)"
  shows "\<exists>rw' sides m. rewrite_rule k rw = Some rw' \<and> adds k (LHS_ID_of_XRL (t_xrls g ! k)) sides m rw rw'
    \<and> rule_block g B rw (t_xrls g ! k) (length (t_nsys rw)) (length (t_nsys rw')) (set sides)"
proof -
  let ?r = "t_xrls g ! k"
  have g: "rw_g rw = g" using c by (simp add: has_clones_def)
  show ?thesis
  proof (cases "t_is_sequence ?r")
    case True
    then have "rewrite_rule k rw = rewrite_sequence k ?r rw" using k by (simp add: rewrite_rule_def g Let_def)
    with sequence_rule [OF c r True] show ?thesis by simp
  next
    case False
    obtain fs suffix where scan: "factor_scan g (RHS_IDs_of_XRL ?r) 0 [] 0 = (fs, suffix)" by (cases "factor_scan g (RHS_IDs_of_XRL ?r) 0 [] 0")
    then have s: "scanned g (RHS_IDs_of_XRL ?r) fs suffix" by (rule factor_scan_scanned)
    have "length fs \<le> length (RHS_IDs_of_XRL ?r)" using s length_filter_le [of _ "[0..<length (RHS_IDs_of_XRL ?r)]"] by (simp add: scanned_def)
    then have room: "length fs \<le> t_max_rule_length g" using r by (simp add: rule_ready_def)
    then have eq: "rewrite_rule k rw = (if fs \<noteq> [] then chaf_rewrite k ?r fs suffix rw else copy_rule k ?r rw)"
      using k False by (simp add: rewrite_rule_def g Let_def scan)
    show ?thesis
    proof (cases "fs = []")
      case True
      with copied_rule [OF c r False, of suffix] s eq show ?thesis by simp
    next
      case fs: False
      with chaf_rule [OF c r False s fs] eq show ?thesis by simp
    qed
  qed
qed

section \<open>All the rules\<close>

definition sides_for :: "marpa_rw \<Rightarrow> nat \<Rightarrow> (nat \<times> nat list) set" where
  "sides_for rw k = {sides_of irl | irl. irl \<in> set (t_irls rw) \<and> irl_source_xrl irl = Some k}"

definition rebuilt :: "marpa_g \<Rightarrow> nat \<Rightarrow> nat \<Rightarrow> marpa_rw \<Rightarrow> bool" where
  "rebuilt g B k rw \<longleftrightarrow> has_clones g B rw \<and> t_start_irl rw = None
     \<and> (\<forall>irl \<in> set (t_irls rw). \<exists>j < k. irl_source_xrl irl = Some j \<and> xrl_is_used (t_xrls g ! j))
     \<and> (\<forall>j < k. xrl_is_used (t_xrls g ! j) \<longrightarrow> (\<exists>L U. B \<le> L \<and> U \<le> length (t_nsys rw)
          \<and> rule_block g B rw (t_xrls g ! j) L U (sides_for rw j) \<and> (\<forall>v. L \<le> v \<and> v < U \<longrightarrow> owner rw v = Some j)))
     \<and> (\<forall>i < length (t_nsys rw). B \<le> i \<longrightarrow> \<not> nsy_is_nulling (t_nsys rw ! i) \<and> \<not> nsy_is_start (t_nsys rw ! i))"

lemma adds_symbols:
  assumes "adds k source sides m rw rw'"
  shows "rw_g rw' = rw_g rw" "NSYID_by_XSYID rw' = NSYID_by_XSYID rw" "Nulling_NSYID_by_XSYID rw' = Nulling_NSYID_by_XSYID rw"
    "proper_nsy rw' = proper_nsy rw" "nulled_nsy rw' = nulled_nsy rw" "variant_words g rw' = variant_words g rw"
    "rule_block g B rw' = rule_block g B rw" "t_start_irl rw' = t_start_irl rw"
proof -
  show *: "rw_g rw' = rw_g rw" "NSYID_by_XSYID rw' = NSYID_by_XSYID rw" "Nulling_NSYID_by_XSYID rw' = Nulling_NSYID_by_XSYID rw" "t_start_irl rw' = t_start_irl rw"
    using assms by (auto simp: adds_def same_table_def NSYID_by_XSYID_def Nulling_NSYID_by_XSYID_def)
  then show **: "proper_nsy rw' = proper_nsy rw" "nulled_nsy rw' = nulled_nsy rw" by (simp_all add: proper_nsy_def nulled_nsy_def fun_eq_iff)
  then show ***: "variant_words g rw' = variant_words g rw" by (simp add: variant_words_def fun_eq_iff)
  show "rule_block g B rw' = rule_block g B rw" unfolding rule_block_def fun_eq_iff ** *** by simp
qed

lemma adds_clones:
  assumes c: "has_clones g B rw" and a: "adds k source sides m rw rw'"
  shows "has_clones g B rw'"
proof -
  have n: "length (t_nsys rw') = length (t_nsys rw) + m" using a by (simp add: adds_def)
  have kind: "\<forall>i < length (t_nsys rw). nsy_kind (t_nsys rw' ! i) = nsy_kind (t_nsys rw ! i)" using a by (simp add: adds_def)
  have "(nsy_is_semantic (t_nsys rw' ! i) \<longleftrightarrow> i < B) \<and> nsy_source_xsy (t_nsys rw' ! i) \<noteq> None" if "i < length (t_nsys rw')" for i
  proof (cases "i < length (t_nsys rw)")
    case True
    then have "nsy_kind (t_nsys rw' ! i) = nsy_kind (t_nsys rw ! i)" using kind by blast
    from kind_eq [OF this] True c show ?thesis by (simp add: has_clones_def)
  next
    case False
    then have "new_virtual (rw_g rw) source (t_nsys rw' ! i)" using a that by (simp add: adds_def)
    then have "\<not> nsy_is_semantic (t_nsys rw' ! i) \<and> nsy_source_xsy (t_nsys rw' ! i) \<noteq> None" by (simp add: new_virtual_def nsy_kind_def)
    with False c show ?thesis by (simp add: has_clones_def)
  qed
  moreover have "cloned g rw' x" if "usable g x" for x
    by (rule cloned_kept [of g rw]) (use c that n kind in \<open>simp_all add: has_clones_def adds_symbols [OF a]\<close>)
  ultimately show ?thesis using c n by (simp add: has_clones_def adds_symbols [OF a] not_cloned_def)
qed

lemma sides_for_new:
  assumes "\<forall>irl \<in> set (t_irls rw). \<exists>j < k. irl_source_xrl irl = Some j" "adds k source sides m rw rw'"
  shows "sides_for rw' k = set sides" "j < k \<Longrightarrow> sides_for rw' j = sides_for rw j"
proof -
  from assms(2) obtain irls where i: "t_irls rw' = t_irls rw @ irls" "map sides_of irls = sides" "\<forall>irl \<in> set irls. irl_source_xrl irl = Some k"
    unfolding adds_def by blast
  have "irl_source_xrl irl \<noteq> Some k" if "irl \<in> set (t_irls rw)" for irl using assms(1) that by auto
  then show "sides_for rw' k = set sides" using i unfolding sides_for_def by (auto simp: i(1) i(2) [symmetric])
  show "j < k \<Longrightarrow> sides_for rw' j = sides_for rw j" using i(1,3) by (auto simp: sides_for_def)
qed

lemma built_step:
  assumes b: "rebuilt g B k rw" and k: "k < length (t_xrls g)" and ready: "ready g"
  shows "\<exists>rw'. rewrite_rule k rw = Some rw' \<and> rebuilt g B (Suc k) rw'"
proof (cases "xrl_is_used (t_xrls g ! k)")
  case False
  have "rw_g rw = g" using b by (simp add: rebuilt_def has_clones_def)
  with False have "rewrite_rule k rw = Some rw" by (simp add: rewrite_rule_def Let_def)
  moreover have "rebuilt g B (Suc k) rw"
    using b False unfolding rebuilt_def by (auto simp: less_Suc_eq)
  ultimately show ?thesis by simp
next
  case True
  let ?r = "t_xrls g ! k"
  have c: "has_clones g B rw" using b by (simp add: rebuilt_def)
  have r: "rule_ready g ?r" using ready True k by (simp add: ready_def)
  from rule_rewritten [OF c k True r] obtain rw' sides m where
    run: "rewrite_rule k rw = Some rw'" and a: "adds k (LHS_ID_of_XRL ?r) sides m rw rw'"
    and block: "rule_block g B rw ?r (length (t_nsys rw)) (length (t_nsys rw')) (set sides)" by blast
  have n: "length (t_nsys rw') = length (t_nsys rw) + m" using adds_len [OF a] .
  have c': "has_clones g B rw'" using adds_clones [OF c a] .
  have B: "B \<le> length (t_nsys rw)" using c by (simp add: has_clones_def)
  have src: "\<forall>irl \<in> set (t_irls rw). \<exists>j < k. irl_source_xrl irl = Some j" using b by (auto simp: rebuilt_def)
  note sides = sides_for_new [OF src a]
  have own: "owner rw' i = (if i \<in> fst ` set sides then Some k else if i < length (t_nsys rw) then owner rw i else None)"
    if "B \<le> i" "i < length (t_nsys rw')" for i
    using a c' that by (simp add: adds_def has_clones_def)
  have sources: "\<forall>irl \<in> set (t_irls rw'). \<exists>j < Suc k. irl_source_xrl irl = Some j \<and> xrl_is_used (t_xrls g ! j)"
  proof -
    from a obtain irls where i: "t_irls rw' = t_irls rw @ irls" "\<forall>irl \<in> set irls. irl_source_xrl irl = Some k"
      unfolding adds_def by blast
    then show ?thesis using b True by (fastforce simp: rebuilt_def less_Suc_eq)
  qed
  have blocks: "\<exists>L U. B \<le> L \<and> U \<le> length (t_nsys rw') \<and> rule_block g B rw' (t_xrls g ! j) L U (sides_for rw' j)
      \<and> (\<forall>v. L \<le> v \<and> v < U \<longrightarrow> owner rw' v = Some j)" if j: "j < Suc k" "xrl_is_used (t_xrls g ! j)" for j
  proof (cases "j = k")
    case True
    have "owner rw' v = Some k" if "length (t_nsys rw) \<le> v" "v < length (t_nsys rw')" for v
      using own [of v] that B block by (auto simp: rule_block_def)
    then show ?thesis using block B sides(1) unfolding True adds_symbols [OF a] by (intro exI [of _ "length (t_nsys rw)"] exI [of _ "length (t_nsys rw')"]) simp
  next
    case False
    with j have jk: "j < k" by simp
    with b j(2) obtain L U where LU: "B \<le> L" "U \<le> length (t_nsys rw)" "rule_block g B rw (t_xrls g ! j) L U (sides_for rw j)"
      "\<forall>v. L \<le> v \<and> v < U \<longrightarrow> owner rw v = Some j" unfolding rebuilt_def by blast
    have "owner rw' v = Some j" if v: "L \<le> v" "v < U" for v
    proof -
      have "v \<notin> fst ` set sides"
      proof
        assume "v \<in> fst ` set sides"
        with block have "v = proper_nsy rw (LHS_ID_of_XRL ?r) \<or> length (t_nsys rw) \<le> v" by (fastforce simp: rule_block_def)
        moreover have "proper_nsy rw (LHS_ID_of_XRL ?r) < B" using clonesD(2) [OF c] r by (simp add: rule_ready_def)
        ultimately show False using v LU(1,2) by simp
      qed
      then show ?thesis using own [of v] v LU n by simp
    qed
    then show ?thesis using LU n jk unfolding adds_symbols [OF a] sides(2) [OF jk] by (intro exI [of _ L] exI [of _ U]) simp
  qed
  have plain: "\<not> nsy_is_nulling (t_nsys rw' ! i) \<and> \<not> nsy_is_start (t_nsys rw' ! i)" if i: "i < length (t_nsys rw')" "B \<le> i" for i
  proof (cases "i < length (t_nsys rw)")
    case True
    then have "nsy_kind (t_nsys rw' ! i) = nsy_kind (t_nsys rw ! i)" using a by (simp add: adds_def)
    from kind_eq [OF this] show ?thesis using b True i(2) by (simp add: rebuilt_def)
  next
    case False
    then have "new_virtual (rw_g rw) (LHS_ID_of_XRL ?r) (t_nsys rw' ! i)" using a i by (simp add: adds_def)
    then show ?thesis by (simp add: new_virtual_def nsy_kind_def)
  qed
  have "t_start_irl rw' = None" using b by (simp add: rebuilt_def adds_symbols [OF a])
  with c' sources blocks plain have "rebuilt g B (Suc k) rw'" unfolding rebuilt_def by blast
  with run show ?thesis by blast
qed

lemma rewrite_rules_built:
  assumes ready: "ready g"
  shows "k + n \<le> length (t_xrls g) \<Longrightarrow> rebuilt g B k rw \<Longrightarrow> \<exists>rw'. rewrite_rules [k..<k + n] rw = Some rw' \<and> rebuilt g B (k + n) rw'"
proof (induction n arbitrary: k rw)
  case (Suc n)
  then have k: "k < length (t_xrls g)" by simp
  from built_step [OF Suc.prems(2) k ready] obtain rw1 where 1: "rewrite_rule k rw = Some rw1" "rebuilt g B (Suc k) rw1" by blast
  from Suc.IH [OF _ 1(2)] Suc.prems(1) obtain rw' where "rewrite_rules [Suc k..<Suc k + n] rw1 = Some rw'" "rebuilt g B (Suc k + n) rw'" by auto
  moreover have "[k..<k + Suc n] = k # [Suc k..<Suc k + n]" by (simp add: upt_conv_Cons)
  ultimately show ?case using 1(1) by simp
qed simp

lemma clones_built:
  assumes "clones g (length (t_xsys g)) rw"
  shows "rebuilt g (length (t_nsys rw)) 0 rw"
  using assms by (auto simp: rebuilt_def clones_def has_clones_def usable_def)

theorem all_rewritten:
  assumes "ready g"
  obtains B rw where "rewrite_rules [0..<length (t_xrls g)] (clone_symbols (rw_start g)) = Some rw" "rebuilt g B (length (t_xrls g)) rw"
proof -
  have "0 + length (t_xrls g) \<le> length (t_xrls g)" by simp
  from rewrite_rules_built [OF assms this clones_built [OF clone_symbols_clones [of g]]] that show thesis by auto
qed

end
