(* ===== verification/InternalGrammar.thy ===== *)
theory InternalGrammar
  imports RewriteShape CensusMeaning
begin

text \<open>
  The internal rules as a grammar of their own. What they derive, without the symbols that stand for the
  empty string, is what the rules of the grammar derive.
\<close>

section \<open>The result of the rewriting\<close>

text \<open>The start rule is the last one, with a symbol of its own.\<close>

definition starts_at :: "marpa_rw \<Rightarrow> marpa_rw \<Rightarrow> nat \<Rightarrow> bool" where
  "starts_at rw0 rw x \<longleftrightarrow> NSYID_by_XSYID rw = NSYID_by_XSYID rw0 \<and> Nulling_NSYID_by_XSYID rw = Nulling_NSYID_by_XSYID rw0
     \<and> length (t_nsys rw) = Suc (length (t_nsys rw0))
     \<and> (\<forall>i < length (t_nsys rw0). nsy_kind (t_nsys rw ! i) = nsy_kind (t_nsys rw0 ! i) \<and> owner rw i = owner rw0 i)
     \<and> nsy_kind (t_nsys rw ! length (t_nsys rw0)) = (Some x, NSY_Rank_by_XSY (t_xsys (rw_g rw0) ! x), True, False, False)
     \<and> owner rw (length (t_nsys rw0)) = None \<and> t_start_irl rw = Some (length (t_irls rw0))
     \<and> (\<exists>irl. t_irls rw = t_irls rw0 @ [irl] \<and> sides_of irl = (length (t_nsys rw0), [proper_nsy rw0 x]) \<and> irl_source_xrl irl = None \<and> irl_is_virtual_lhs irl)
     \<and> t_xrls (rw_g rw) = t_xrls (rw_g rw0)"

lemma augment_eq:
  assumes b: "rebuilt g B k rw0" and x: "x = nat (t_start_xsy_id g)" "usable g x"
  shows "augment_start rw0 = Some rw0 \<and> nulling g x \<or> (\<exists>rw. augment_start rw0 = Some rw \<and> starts_at rw0 rw x \<and> \<not> nulling g x)"
proof (cases "nulling g x")
  case True
  then show ?thesis using b x(1) by (simp add: augment_start_def rebuilt_def has_clones_def Let_def)
next
  case False
  have c: "has_clones g B rw0" using b by (simp add: rebuilt_def)
  then have g: "rw_g rw0 = g" by (simp add: has_clones_def)
  note l = clonesD(1) [OF c x(2)]
  have l': "t_nsy_equivalents rw0 ! x = Some (proper_nsy rw0 x)" using l by (simp add: NSYID_by_XSYID_def)
  define S where "S = length (t_nsys rw0)"
  define rw where "rw = the (augment_start rw0)"
  have run: "augment_start rw0 = Some rw"
    using False l' unfolding rw_def by (simp add: augment_start_def g x(1) [symmetric] Let_def nsy_new_eq nsy_update_def NSYID_by_XSYID_def)
  have rw: "(irl_finish ((irl_start [S, proper_nsy rw0 x] rw0)\<lparr>irl_is_virtual_lhs := True, irl_real_symbol_count := 1\<rparr>)
      (rw0\<lparr>t_nsys := t_nsys rw0 @
        [\<lparr>nsy_source_xsy = Some x, nsy_lhs_xrl = None, nsy_xrl_offset = - 1, nsy_rank = NSY_Rank_by_XSY (t_xsys g ! x), nsy_is_start = True,
          nsy_is_lhs = False, nsy_is_nulling = False, nsy_is_semantic = False\<rparr>],
        rw_g := xsy_update x (\<lambda>xsy. xsy\<lparr>xsy_is_start := False\<rparr>) g\<rparr>))\<lparr>t_start_irl := Some (length (t_irls rw0))\<rparr> = rw"
    using run False l' by (simp add: augment_start_def g x(1) [symmetric] Let_def nsy_new_eq nsy_update_def NSYID_by_XSYID_def S_def irl_start_def
        default_internal_rank_def xsy_update_def)
  have "starts_at rw0 rw x"
    unfolding starts_at_def rw [symmetric] S_def
    by (auto simp: g NSYID_by_XSYID_def Nulling_NSYID_by_XSYID_def irl_finish_def nsy_update_def irl_start_def LHSID_of_IRL_def
        RHSIDs_of_IRL_def sides_of_def nth_append nsy_kind_def owner_def)
  with run False show ?thesis by blast
qed

section \<open>The grammar of the internal rules\<close>

text \<open>An internal rule as a rule without flags.\<close>

definition pair_rule :: "nat \<times> nat list \<Rightarrow> marpa_xrl" where
  "pair_rule p = \<lparr>t_id = 0, t_is_sequence = False, LHS_ID_of_XRL = fst p, RHS_IDs_of_XRL = snd p, xrl_rank = 0,
      t_null_ranks_high = False, t_is_bnf = True, t_minimum = - 1, t_separator_id = - 1, t_is_discard = False,
      t_is_proper_separation = False, t_is_loop = False, xrl_is_nulling = False, xrl_is_nullable = False,
      xrl_is_accessible = True, xrl_is_productive = True, xrl_is_used = True\<rparr>"

definition internal_rules :: "marpa_rw \<Rightarrow> marpa_xrl list" where
  "internal_rules rw = map (\<lambda>irl. pair_rule (sides_of irl)) (t_irls rw)"

lemma internal_derives1: "derives1 (internal_rules rw) u w \<longleftrightarrow>
    (\<exists>a b l xs. u = a @ l # b \<and> w = a @ xs @ b \<and> (l, xs) \<in> sides_of ` set (t_irls rw))"
proof -
  have e: "expansions (pair_rule p) = {snd p}" and l: "LHS_ID_of_XRL (pair_rule p) = fst p" for p
    by (simp_all add: expansions_def pair_rule_def)
  have r: "r \<in> set (internal_rules rw) \<and> w \<in> expansions r \<longleftrightarrow> (\<exists>p \<in> sides_of ` set (t_irls rw). r = pair_rule p \<and> w = snd p)"
    for r w by (auto simp: internal_rules_def e)
  show ?thesis
  proof
    assume "derives1 (internal_rules rw) u w"
    then obtain r x a b where "u = a @ LHS_ID_of_XRL r # b" "w = a @ x @ b" "r \<in> set (internal_rules rw)" "x \<in> expansions r"
      by (auto elim: derives1E)
    with r [of r x] l show "\<exists>a b l xs. u = a @ l # b \<and> w = a @ xs @ b \<and> (l, xs) \<in> sides_of ` set (t_irls rw)"
      by (metis prod.collapse)
  next
    assume "\<exists>a b l xs. u = a @ l # b \<and> w = a @ xs @ b \<and> (l, xs) \<in> sides_of ` set (t_irls rw)"
    then obtain a b l xs where *: "u = a @ l # b" "w = a @ xs @ b" "(l, xs) \<in> sides_of ` set (t_irls rw)" by blast
    have "\<exists>p \<in> sides_of ` set (t_irls rw). pair_rule (l, xs) = pair_rule p \<and> xs = snd p"
      using *(3) by (intro bexI [of _ "(l, xs)"]) simp_all
    then have "pair_rule (l, xs) \<in> set (internal_rules rw)" "xs \<in> expansions (pair_rule (l, xs))"
      using r [of "pair_rule (l, xs)" xs] by blast+
    from derives1.intros [OF this, of a b] show "derives1 (internal_rules rw) u w" using * l [of "(l, xs)"] by simp
  qed
qed

lemma internal_step: "(l, xs) \<in> sides_of ` set (t_irls rw) \<Longrightarrow> derives (internal_rules rw) [l] xs"
  by (rule r_into_rtranclp) (metis internal_derives1 append_Nil append_Nil2)

lemma spells_derives:
  assumes "P \<subseteq> sides_of ` set (t_irls rw)"
  shows "spells P virt v path ys \<Longrightarrow> derives (internal_rules rw) [v] ys"
proof (induction rule: spells.induct)
  case (spells_whole v xs)
  with assms show ?case by (intro internal_step) blast
next
  case (spells_piece v xs w zs path ys)
  with assms have "derives (internal_rules rw) [v] (xs @ w # zs)" by (intro internal_step) blast
  moreover have "derives (internal_rules rw) (xs @ [w] @ zs) (xs @ ys @ zs)" using derives_context [OF spells_piece(5)] .
  ultimately show ?case by (metis append_Cons append_Nil derives_trans)
qed

section \<open>Joined languages\<close>

fun joined :: "(nat \<Rightarrow> nat list set) \<Rightarrow> nat list \<Rightarrow> nat list set" where
  "joined M [] = {[]}"
| "joined M (y # ys) = {u @ v | u v. u \<in> M y \<and> v \<in> joined M ys}"

lemma joined_simps: "w \<in> joined M (y # ys) \<longleftrightarrow> (\<exists>u v. w = u @ v \<and> u \<in> M y \<and> v \<in> joined M ys)"
  by auto

lemma joined_words: "w \<in> joined M ys \<longleftrightarrow> (\<exists>ws. w = concat ws \<and> list_all2 (\<lambda>y u. u \<in> M y) ys ws)"
proof (induction ys arbitrary: w)
  case (Cons y ys)
  show ?case unfolding joined_simps Cons.IH list_all2_Cons1 by (metis concat.simps(2))
qed simp

lemma joined_append: "w \<in> joined M (xs @ ys) \<longleftrightarrow> (\<exists>u v. w = u @ v \<and> u \<in> joined M xs \<and> v \<in> joined M ys)"
proof (induction xs arbitrary: w)
  case (Cons x xs)
  show ?case unfolding append_Cons joined_simps Cons.IH by (metis append.assoc)
qed simp

lemma joined_cong: "(\<And>y. y \<in> set ys \<Longrightarrow> M y = M' y) \<Longrightarrow> joined M ys = joined M' ys"
proof (induction ys)
  case (Cons y ys)
  then have "joined M ys = joined M' ys" "M y = M' y" by simp_all
  then show ?case by (intro set_eqI) simp
qed simp

text \<open>If every rule is sound for the meanings of the symbols, so is every derivation.\<close>

lemma joined_sound:
  assumes "\<And>l xs. (l, xs) \<in> sides_of ` set (t_irls rw) \<Longrightarrow> joined M xs \<subseteq> M l" "derives (internal_rules rw) u ys"
  shows "joined M ys \<subseteq> joined M u"
  using assms(2)
proof (induction rule: rtranclp_induct)
  case (step y z)
  from step(2) obtain a b l xs where s: "y = a @ l # b" "z = a @ xs @ b" "(l, xs) \<in> sides_of ` set (t_irls rw)"
    unfolding internal_derives1 by blast
  have "joined M z \<subseteq> joined M y" using assms(1) [OF s(3)] unfolding s(1,2) by (auto simp: joined_append) blast
  with step(3) show ?case by blast
qed simp

text \<open>What a derivation does to the symbols of a form, one by one.\<close>

lemma derives_parts:
  "derives_in rules n e w \<Longrightarrow> \<exists>ws. concat ws = w \<and> list_all2 (\<lambda>x u. \<exists>m \<le> n. derives_in rules m [x] u) e ws"
proof (induction e arbitrary: n w)
  case Nil
  then have "derives rules [] w" by (metis relpowp_imp_rtranclp)
  then show ?case by (simp add: derives_nothing)
next
  case (Cons x e)
  then have "derives_in rules n ([x] @ e) w" by simp
  from derives_split [OF this] obtain u v i j where s: "w = u @ v" "i \<le> n" "j \<le> n" "derives_in rules i [x] u" "derives_in rules j e v" by blast
  from Cons.IH [OF s(5)] obtain ws where ws: "concat ws = v" "list_all2 (\<lambda>x u. \<exists>m \<le> j. derives_in rules m [x] u) e ws" by blast
  have "list_all2 (\<lambda>x u. \<exists>m \<le> n. derives_in rules m [x] u) e ws"
    using ws(2) by (rule list_all2_mono) (use s(3) le_trans in blast)
  with s ws(1) show ?case by (intro exI [of _ "u # ws"]) auto
qed

lemma derives_together: "list_all2 (\<lambda>x u. derives rules [x] u) e ws \<Longrightarrow> derives rules e (concat ws)"
proof (induction rule: list_all2_induct)
  case (Cons x xs u us)
  from derives_append [OF Cons(1,3)] show ?case by simp
qed simp

section \<open>The setting\<close>

text \<open>
  What the flags of the census say of derivations, for strings over the set \<open>T\<close> of terminals. A rule that is
  needed to derive such a string is used.
\<close>

definition live :: "marpa_g \<Rightarrow> nat set \<Rightarrow> bool" where
  "live g T \<longleftrightarrow> (\<forall>x. usable g x \<longrightarrow> (nullable g x \<longleftrightarrow> derives (t_xrls g) [x] []))
     \<and> (\<forall>x w. usable g x \<longrightarrow> nulling g x \<longrightarrow> derives (t_xrls g) [x] w \<longrightarrow> set w \<subseteq> T \<longrightarrow> w = [])
     \<and> (\<forall>x \<in> T. \<not> nulling g x)
     \<and> (\<forall>r \<in> set (t_xrls g). \<forall>e \<in> expansions r. \<forall>w. usable g (LHS_ID_of_XRL r) \<longrightarrow> derives (t_xrls g) e w \<longrightarrow> set w \<subseteq> T \<longrightarrow> w \<noteq> []
          \<longrightarrow> xrl_is_used r)"

definition short :: "marpa_g \<Rightarrow> bool" where
  "short g \<longleftrightarrow> (\<forall>r \<in> set (t_xrls g). t_is_sequence r \<longrightarrow> t_minimum r \<le> 1)"

definition result :: "marpa_g \<Rightarrow> nat \<Rightarrow> marpa_rw \<Rightarrow> marpa_rw \<Rightarrow> nat \<Rightarrow> bool" where
  "result g B rw0 rw x \<longleftrightarrow> ready g \<and> short g \<and> rebuilt g B (length (t_xrls g)) rw0 \<and> usable g x \<and> \<not> nulling g x \<and> starts_at rw0 rw x"

lemma resultD:
  assumes "result g B rw0 rw x"
  shows "has_clones g B rw0" "ready g" "rebuilt g B (length (t_xrls g)) rw0" "starts_at rw0 rw x" "usable g x" "\<not> nulling g x" "B \<le> length (t_nsys rw0)"
  using assms by (simp_all add: result_def rebuilt_def has_clones_def)

lemma result_symbols:
  assumes "result g B rw0 rw x"
  shows "proper_nsy rw = proper_nsy rw0" "nulled_nsy rw = nulled_nsy rw0"
    "i < length (t_nsys rw0) \<Longrightarrow> nsy_is_nulling (t_nsys rw ! i) = nsy_is_nulling (t_nsys rw0 ! i)
      \<and> nsy_source_xsy (t_nsys rw ! i) = nsy_source_xsy (t_nsys rw0 ! i)"
    "k < length (t_xrls g) \<Longrightarrow> sides_for rw k = sides_for rw0 k"
proof -
  have s: "starts_at rw0 rw x" using resultD(4) [OF assms] .
  then show "proper_nsy rw = proper_nsy rw0" "nulled_nsy rw = nulled_nsy rw0"
    by (simp_all add: starts_at_def proper_nsy_def nulled_nsy_def fun_eq_iff)
  show "i < length (t_nsys rw0) \<Longrightarrow> nsy_is_nulling (t_nsys rw ! i) = nsy_is_nulling (t_nsys rw0 ! i)
      \<and> nsy_source_xsy (t_nsys rw ! i) = nsy_source_xsy (t_nsys rw0 ! i)"
    using s kind_eq unfolding starts_at_def by blast
  show "k < length (t_xrls g) \<Longrightarrow> sides_for rw k = sides_for rw0 k"
    using s by (auto simp: starts_at_def sides_for_def)
qed

text \<open>The internal symbols of a usable symbol.\<close>

lemma proper_facts:
  assumes r: "result g B rw0 rw x" and u: "usable g y"
  shows "proper_nsy rw y < B" "nsy_is_nulling (t_nsys rw ! proper_nsy rw y) \<longleftrightarrow> nulling g y"
    "nsy_source_xsy (t_nsys rw ! proper_nsy rw y) = Some y"
    "nullable g y \<Longrightarrow> nulled_nsy rw y < B \<and> nsy_is_nulling (t_nsys rw ! nulled_nsy rw y)"
proof -
  note c = resultD(1) [OF r] and B = resultD(7) [OF r]
  note s = result_symbols(3) [OF r]
  show less: "proper_nsy rw y < B" using clonesD(2) [OF c u] by (simp add: result_symbols [OF r])
  have st: "stands_for g y (nulling g y) (t_nsys rw0 ! proper_nsy rw0 y)" by (rule clonesE [OF c u])
  then show "nsy_is_nulling (t_nsys rw ! proper_nsy rw y) \<longleftrightarrow> nulling g y" "nsy_source_xsy (t_nsys rw ! proper_nsy rw y) = Some y"
    using s [of "proper_nsy rw0 y"] less B by (simp_all add: result_symbols [OF r] stands_for_def nsy_kind_def)
  assume n: "nullable g y"
  show "nulled_nsy rw y < B \<and> nsy_is_nulling (t_nsys rw ! nulled_nsy rw y)"
  proof (cases "nulling g y")
    case True
    then have "nulled_nsy rw y = proper_nsy rw y" using clonesD(3) [OF c u] by (simp add: result_symbols [OF r])
    with True less \<open>nsy_is_nulling (t_nsys rw ! proper_nsy rw y) \<longleftrightarrow> nulling g y\<close> show ?thesis by simp
  next
    case False
    with n have f: "factor g y" by simp
    from clonesE [OF c u] f have "nulled_nsy rw0 y < B \<and> stands_for g y True (t_nsys rw0 ! nulled_nsy rw0 y)" by metis
    then show ?thesis using s [of "nulled_nsy rw0 y"] B by (simp add: result_symbols [OF r] stands_for_def nsy_kind_def)
  qed
qed

text \<open>The rules of one rule of the grammar.\<close>

lemma block_facts:
  assumes r: "result g B rw0 rw x" and k: "k < length (t_xrls g)" "xrl_is_used (t_xrls g ! k)"
  obtains L U where "B \<le> L" "U \<le> length (t_nsys rw0)" "\<forall>v. L \<le> v \<and> v < U \<longrightarrow> owner rw v = Some k"
    "spells_once (sides_for rw k) (\<lambda>v. B \<le> v) (proper_nsy rw (LHS_ID_of_XRL (t_xrls g ! k))) (variant_words g rw (t_xrls g ! k))"
    "\<forall>l xs. (l, xs) \<in> sides_for rw k \<longrightarrow> (l = proper_nsy rw (LHS_ID_of_XRL (t_xrls g ! k)) \<or> L \<le> l \<and> l < U)
       \<and> (\<forall>y \<in> set xs. B \<le> y \<longrightarrow> L \<le> y \<and> y < U) \<and> linear (\<lambda>v. B \<le> v) xs"
proof -
  from resultD(3) [OF r] k obtain L U where LU: "B \<le> L" "U \<le> length (t_nsys rw0)"
    "rule_block g B rw0 (t_xrls g ! k) L U (sides_for rw0 k)" "\<forall>v. L \<le> v \<and> v < U \<longrightarrow> owner rw0 v = Some k"
    unfolding rebuilt_def by blast
  note s = result_symbols [OF r]
  have w: "variant_words g rw = variant_words g rw0" by (simp add: variant_words_def s fun_eq_iff)
  have sh: "t_is_sequence (t_xrls g ! k) \<longrightarrow> t_minimum (t_xrls g ! k) \<le> 1" using r k(1) by (simp add: result_def short_def)
  have own: "owner rw v = Some k" if "L \<le> v" "v < U" for v
    using LU(2,4) that resultD(4) [OF r] by (simp add: starts_at_def)
  show thesis
    by (rule that [OF LU(1,2)]) (use LU(3) sh own in \<open>auto simp: rule_block_def s w k\<close>)
qed

lemma all_sides:
  assumes r: "result g B rw0 rw x" and p: "(l, xs) \<in> sides_of ` set (t_irls rw)"
  shows "l = length (t_nsys rw0) \<and> xs = [proper_nsy rw x]
    \<or> (\<exists>k < length (t_xrls g). xrl_is_used (t_xrls g ! k) \<and> (l, xs) \<in> sides_for rw k)"
proof -
  from resultD(4) [OF r] obtain irl0 where i: "t_irls rw = t_irls rw0 @ [irl0]" "sides_of irl0 = (length (t_nsys rw0), [proper_nsy rw0 x])"
    unfolding starts_at_def by blast
  from p obtain irl where irl: "irl \<in> set (t_irls rw)" "sides_of irl = (l, xs)" by auto
  show ?thesis
  proof (cases "irl \<in> set (t_irls rw0)")
    case True
    with resultD(3) [OF r] obtain k where "k < length (t_xrls g)" "irl_source_xrl irl = Some k" "xrl_is_used (t_xrls g ! k)"
      unfolding rebuilt_def by blast
    with irl show ?thesis unfolding sides_for_def by (intro disjI2 exI [of _ k]) (metis (mono_tags, lifting) mem_Collect_eq)
  next
    case False
    with i irl show ?thesis by (simp add: result_symbols [OF r])
  qed
qed

section \<open>Every internal derivation is one of the grammar\<close>

definition plain_means :: "marpa_g \<Rightarrow> marpa_rw \<Rightarrow> nat \<Rightarrow> nat list set" where
  "plain_means g rw y = (if nsy_is_nulling (t_nsys rw ! y) then {[]}
     else {w. w \<noteq> [] \<and> derives (t_xrls g) [the (nsy_source_xsy (t_nsys rw ! y))] w})"

definition means :: "marpa_g \<Rightarrow> nat \<Rightarrow> marpa_rw \<Rightarrow> nat \<Rightarrow> nat \<Rightarrow> nat list set" where
  "means g B rw x y = (if y < B then plain_means g rw y
     else case owner rw y of
       None \<Rightarrow> {w. w \<noteq> [] \<and> derives (t_xrls g) [x] w}
     | Some k \<Rightarrow> {w. \<exists>path ys. spells (sides_for rw k) (\<lambda>v. B \<le> v) y path ys \<and> w \<in> joined (plain_means g rw) ys})"

lemma joined_plain: "\<forall>y \<in> set ys. \<not> B \<le> y \<Longrightarrow> joined (means g B rw x) ys = joined (plain_means g rw) ys"
  by (rule joined_cong) (simp add: means_def not_le)

text \<open>A word that a rule stands for, with meanings for its symbols, is derived by the left hand side.\<close>

lemma variant_sound:
  assumes r: "result g B rw0 rw x" and live: "live g T" and k: "q \<in> set (t_xrls g)" "rule_ready g q"
    and ys: "ys \<in> variant_words g rw q" and w: "w \<in> joined (plain_means g rw) ys"
  shows "w \<noteq> [] \<and> derives (t_xrls g) [LHS_ID_of_XRL q] w"
proof -
  from ys obtain e p where e: "e \<in> expansions q" "list_all2 (\<lambda>x y. y = proper_nsy rw x \<or> nullable g x \<and> y = nulled_nsy rw x) e ys"
    and p: "p < length e" "ys ! p = proper_nsy rw (e ! p)" "\<not> nulling g (e ! p)" unfolding variant_words_def by blast
  from w obtain ws where ws: "w = concat ws" "list_all2 (\<lambda>y u. u \<in> plain_means g rw y) ys ws" unfolding joined_words by blast
  have one: "one_item q" using k(2) by (auto simp: rule_ready_def one_item_def)
  have u: "usable g (e ! i)" if "i < length e" for i
  proof -
    have "e ! i \<in> mentions q" using expansion_mentions [OF one e(1)] nth_mem [OF that] by blast
    with k(2) show ?thesis by (simp add: rule_ready_def)
  qed
  have len: "length ys = length e" "length ws = length e"
    using list_all2_lengthD [OF e(2)] list_all2_lengthD [OF ws(2)] by simp_all
  have each: "derives (t_xrls g) [e ! i] (ws ! i)" "ys ! i = proper_nsy rw (e ! i) \<Longrightarrow> \<not> nulling g (e ! i) \<Longrightarrow> ws ! i \<noteq> []" if i: "i < length e" for i
  proof -
    have y: "ys ! i = proper_nsy rw (e ! i) \<or> nullable g (e ! i) \<and> ys ! i = nulled_nsy rw (e ! i)" "ws ! i \<in> plain_means g rw (ys ! i)"
      using e(2) ws(2) i len by (auto simp: list_all2_conv_all_nth)
    note f = proper_facts [OF r u [OF i]]
    have empty: "derives (t_xrls g) [e ! i] []" if "nullable g (e ! i)" using live u [OF i] that by (simp add: live_def)
    have null: "nullable g (e ! i)" if "nulling g (e ! i)" using resultD(2) [OF r] u [OF i] that by (simp add: ready_def)
    show "derives (t_xrls g) [e ! i] (ws ! i)"
      using y f empty null by (auto simp: plain_means_def split: if_splits)
    show "ys ! i = proper_nsy rw (e ! i) \<Longrightarrow> \<not> nulling g (e ! i) \<Longrightarrow> ws ! i \<noteq> []"
      using y f by (auto simp: plain_means_def)
  qed
  have "list_all2 (\<lambda>x u. derives (t_xrls g) [x] u) e ws" using each(1) len by (simp add: list_all2_conv_all_nth)
  from derives_together [OF this] have "derives (t_xrls g) e w" by (simp add: ws(1))
  with derives_rule [OF k(1) e(1)] have "derives (t_xrls g) [LHS_ID_of_XRL q] w" by (rule derives_trans)
  moreover have "w \<noteq> []" using each(2) [OF p(1,2,3)] p(1) len ws(1) nth_mem [of p ws] by auto
  ultimately show ?thesis by blast
qed

lemma side_sound:
  assumes r: "result g B rw0 rw x" and live: "live g T" and p: "(l, xs) \<in> sides_of ` set (t_irls rw)"
  shows "joined (means g B rw x) xs \<subseteq> means g B rw x l"
proof -
  have B: "B \<le> length (t_nsys rw0)" using resultD(7) [OF r] .
  from all_sides [OF r p] show ?thesis
  proof (elim disjE exE conjE)
    assume l: "l = length (t_nsys rw0)" "xs = [proper_nsy rw x]"
    have "owner rw l = None" using resultD(4) [OF r] l(1) by (simp add: starts_at_def)
    moreover note f = proper_facts [OF r resultD(5) [OF r]]
    ultimately show ?thesis using B f resultD(6) [OF r] unfolding l(2) by (auto simp: means_def plain_means_def l(1))
  next
    fix k assume k: "k < length (t_xrls g)" "xrl_is_used (t_xrls g ! k)" "(l, xs) \<in> sides_for rw k"
    let ?q = "t_xrls g ! k"
    obtain L U where b: "B \<le> L" "U \<le> length (t_nsys rw0)" "\<forall>v. L \<le> v \<and> v < U \<longrightarrow> owner rw v = Some k"
      "spells_once (sides_for rw k) (\<lambda>v. B \<le> v) (proper_nsy rw (LHS_ID_of_XRL ?q)) (variant_words g rw ?q)"
      "\<forall>l xs. (l, xs) \<in> sides_for rw k \<longrightarrow> (l = proper_nsy rw (LHS_ID_of_XRL ?q) \<or> L \<le> l \<and> l < U)
         \<and> (\<forall>y \<in> set xs. B \<le> y \<longrightarrow> L \<le> y \<and> y < U) \<and> linear (\<lambda>v. B \<le> v) xs"
      by (rule block_facts [OF r k(1,2)])
    note b5 = b(5) [rule_format, OF k(3)]
    have q: "?q \<in> set (t_xrls g)" "rule_ready g ?q" using resultD(2) [OF r] k(1,2) by (auto simp: ready_def)
    show ?thesis
    proof
      fix w assume w: "w \<in> joined (means g B rw x) xs"
      have "\<exists>path ys. spells (sides_for rw k) (\<lambda>v. B \<le> v) l path ys \<and> w \<in> joined (plain_means g rw) ys"
      proof (cases "\<forall>y \<in> set xs. \<not> B \<le> y")
        case True
        with w have "w \<in> joined (plain_means g rw) xs" by (simp only: joined_plain)
        moreover have "spells (sides_for rw k) (\<lambda>v. B \<le> v) l [xs] xs" using True k(3) by (intro spells_whole)
        ultimately show ?thesis by blast
      next
        case False
        with b5 obtain a y c where s: "xs = a @ y # c" "B \<le> y" "\<forall>z \<in> set (a @ c). \<not> B \<le> z" unfolding linear_def by blast
        from w obtain w1 w2 w3 where ws: "w = w1 @ w2 @ w3" "w1 \<in> joined (means g B rw x) a" "w2 \<in> means g B rw x y" "w3 \<in> joined (means g B rw x) c"
          unfolding s(1) joined_append joined_simps by blast
        have "L \<le> y \<and> y < U" using b5 s(1,2) by simp
        then have "owner rw y = Some k" using b(3) by blast
        with ws(3) s(2) obtain path ys where ys: "spells (sides_for rw k) (\<lambda>v. B \<le> v) y path ys" "w2 \<in> joined (plain_means g rw) ys"
          unfolding means_def by auto
        have "spells (sides_for rw k) (\<lambda>v. B \<le> v) l ((a @ y # c) # path) (a @ ys @ c)"
          using k(3) s ys(1) by (intro spells_piece) simp_all
        moreover have "w1 \<in> joined (plain_means g rw) a" "w3 \<in> joined (plain_means g rw) c" using ws(2,4) s(3) by (simp_all add: joined_plain)
        then have "w \<in> joined (plain_means g rw) (a @ ys @ c)" using ys(2) unfolding ws(1) joined_append by blast
        ultimately show ?thesis by blast
      qed
      then obtain path ys where ys: "spells (sides_for rw k) (\<lambda>v. B \<le> v) l path ys" "w \<in> joined (plain_means g rw) ys" by blast
      show "w \<in> means g B rw x l"
      proof (cases "l < B")
        case True
        then have l: "l = proper_nsy rw (LHS_ID_of_XRL ?q)" using b(1) b5 by auto
        have "ys \<in> variant_words g rw ?q" using b(4) ys(1) unfolding spells_once_def l by blast
        from variant_sound [OF r live q this ys(2)] have "w \<noteq> [] \<and> derives (t_xrls g) [LHS_ID_of_XRL ?q] w" .
        moreover have "usable g (LHS_ID_of_XRL ?q)" "\<not> nulling g (LHS_ID_of_XRL ?q)" using q(2) by (simp_all add: rule_ready_def)
        ultimately show ?thesis using proper_facts [OF r, of "LHS_ID_of_XRL ?q"] True unfolding means_def plain_means_def l by simp
      next
        case False
        then have "L \<le> l \<and> l < U" using b5 proper_facts(1) [OF r, of "LHS_ID_of_XRL ?q"] q(2) by (auto simp: rule_ready_def)
        then have "owner rw l = Some k" using b(3) by blast
        with False ys show ?thesis unfolding means_def by auto
      qed
    qed
  qed
qed

text \<open>
  The two directions of the language of the internal rules. Internal symbols that stand for the empty
  string are not visible; the others of a derived form must be the symbols of the terminals.
\<close>

section \<open>Visible symbols\<close>

definition visible :: "marpa_rw \<Rightarrow> nat list \<Rightarrow> nat list" where
  "visible rw ys = filter (\<lambda>y. \<not> (y < length (t_nsys rw) \<and> nsy_is_nulling (t_nsys rw ! y))) ys"

lemma visible_simps [simp]: "visible rw [] = []" "visible rw (xs @ ys) = visible rw xs @ visible rw ys"
  by (simp_all add: visible_def)

lemma visible_concat: "visible rw (concat yss) = concat (map (visible rw) yss)"
  by (induction yss) simp_all

definition reads :: "marpa_rw \<Rightarrow> nat list \<Rightarrow> nat list \<Rightarrow> bool" where
  "reads rw w ys \<longleftrightarrow> map (NSYID_by_XSYID rw) w = map Some (visible rw ys)"

lemma reads_nothing: "reads rw [] ys \<longleftrightarrow> visible rw ys = []"
  by (simp add: reads_def)

lemma reads_append: "reads rw u xs \<Longrightarrow> reads rw v ys \<Longrightarrow> reads rw (u @ v) (xs @ ys)"
  by (simp add: reads_def)

lemma reads_concat: "list_all2 (reads rw) ws yss \<Longrightarrow> reads rw (concat ws) (concat yss)"
  by (induction rule: list_all2_induct) (simp_all add: reads_nothing reads_append)

lemma reads_Cons:
  assumes "reads rw w (y # ys)"
  shows "(y < length (t_nsys rw) \<and> nsy_is_nulling (t_nsys rw ! y)) \<and> reads rw w ys
    \<or> (\<exists>t u. w = t # u \<and> NSYID_by_XSYID rw t = Some y \<and> \<not> (y < length (t_nsys rw) \<and> nsy_is_nulling (t_nsys rw ! y)) \<and> reads rw u ys)"
  using assms by (auto simp: reads_def visible_def map_eq_Cons_conv split: if_splits)

section \<open>Soundness\<close>

lemma rw_nulling:
  assumes r: "result g B rw0 rw x" and y: "y < length (t_nsys rw)" "B \<le> y"
  shows "\<not> nsy_is_nulling (t_nsys rw ! y)"
proof (cases "y < length (t_nsys rw0)")
  case True
  then show ?thesis using resultD(3) [OF r] y result_symbols(3) [OF r True] by (simp add: rebuilt_def)
next
  case False
  have s: "starts_at rw0 rw x" using resultD(4) [OF r] .
  with False y have "y = length (t_nsys rw0)" by (simp add: starts_at_def)
  with s show ?thesis by (auto simp: starts_at_def nsy_kind_def)
qed

lemma unusable_unknown:
  assumes r: "result g B rw0 rw x" and t: "t < length (t_xsys g)" "NSYID_by_XSYID rw t = Some y"
  shows "usable g t" "y = proper_nsy rw t"
proof -
  have e: "NSYID_by_XSYID rw = NSYID_by_XSYID rw0" using resultD(4) [OF r] by (simp add: starts_at_def)
  show "usable g t" using resultD(1) [OF r] t unfolding e by (auto simp: has_clones_def not_cloned_def)
  show "y = proper_nsy rw t" using t by (simp add: proper_nsy_def)
qed

lemma reads_joined:
  assumes r: "result g B rw0 rw x" and live: "live g T" and T: "T \<subseteq> {..<length (t_xsys g)}"
  shows "reads rw w ys \<Longrightarrow> set w \<subseteq> T \<Longrightarrow> w \<in> joined (means g B rw x) ys"
proof (induction ys arbitrary: w)
  case Nil
  then show ?case by (simp add: reads_def)
next
  case (Cons y ys)
  from reads_Cons [OF Cons.prems(1)] show ?case
  proof (elim disjE exE conjE)
    assume y: "y < length (t_nsys rw)" "nsy_is_nulling (t_nsys rw ! y)" and w: "reads rw w ys"
    have "y < B" using rw_nulling [OF r y(1)] y(2) by (simp add: not_le [symmetric]) blast
    with y have "[] \<in> means g B rw x y" by (simp add: means_def plain_means_def)
    with Cons.IH [OF w Cons.prems(2)] show ?case unfolding joined_simps by (metis append_Nil)
  next
    fix t u assume w: "w = t # u" "NSYID_by_XSYID rw t = Some y" "reads rw u ys"
    have t: "t < length (t_xsys g)" "t \<in> T" using Cons.prems(2) w(1) T by auto
    note u = unusable_unknown [OF r t(1) w(2)]
    have "\<not> nulling g t" using live t(2) by (simp add: live_def)
    with proper_facts [OF r u(1)] have "[t] \<in> means g B rw x y" unfolding u(2) by (simp add: means_def plain_means_def)
    moreover have "u \<in> joined (means g B rw x) ys" using Cons.IH [OF w(3)] Cons.prems(2) w(1) by simp
    ultimately show ?case unfolding joined_simps w(1) by (metis append_Cons append_Nil)
  qed
qed

theorem internal_sound:
  assumes r: "result g B rw0 rw x" and live: "live g T" and T: "T \<subseteq> {..<length (t_xsys g)}"
    and d: "derives (internal_rules rw) [length (t_nsys rw0)] ys" and w: "reads rw w ys" "set w \<subseteq> T"
  shows "w \<noteq> [] \<and> derives (t_xrls g) [x] w"
proof -
  have "w \<in> joined (means g B rw x) ys" using reads_joined [OF r live T w] .
  also have "\<dots> \<subseteq> joined (means g B rw x) [length (t_nsys rw0)]"
    by (rule joined_sound [OF side_sound [OF r live] d])
  finally have "w \<in> means g B rw x (length (t_nsys rw0))" unfolding joined_simps by simp
  moreover have "owner rw (length (t_nsys rw0)) = None" using resultD(4) [OF r] by (simp add: starts_at_def)
  ultimately show ?thesis using resultD(7) [OF r] by (simp add: means_def)
qed

section \<open>Completeness\<close>

text \<open>What a symbol of a form turns into: its proper symbol, or its nulled one when nothing is derived from it.\<close>

definition written :: "marpa_rw \<Rightarrow> nat \<Rightarrow> nat list \<Rightarrow> nat" where
  "written rw x u = (if u = [] then nulled_nsy rw x else proper_nsy rw x)"

definition covered :: "marpa_rw \<Rightarrow> nat \<Rightarrow> nat list \<Rightarrow> bool" where
  "covered rw y u \<longleftrightarrow> (\<exists>ys. derives (internal_rules rw) [y] ys \<and> reads rw u ys)"

lemma covered_together: "list_all2 (covered rw) cs ws \<Longrightarrow> \<exists>ys. derives (internal_rules rw) cs ys \<and> reads rw (concat ws) ys"
proof (induction rule: list_all2_induct)
  case Nil
  then show ?case by (metis concat.simps(1) reads_nothing rtranclp.rtrancl_refl visible_simps(1))
next
  case (Cons c cs u us)
  from Cons(1) obtain ys where ys: "derives (internal_rules rw) [c] ys" "reads rw u ys" unfolding covered_def by blast
  from Cons(3) obtain zs where zs: "derives (internal_rules rw) cs zs" "reads rw (concat us) zs" by blast
  from derives_append [OF ys(1) zs(1)] reads_append [OF ys(2) zs(2)] show ?case by auto
qed

lemma nulled_covered:
  assumes r: "result g B rw0 rw x" and u: "usable g y" "nullable g y"
  shows "covered rw (nulled_nsy rw y) []"
proof -
  have "nulled_nsy rw y < length (t_nsys rw)"
    using proper_facts(4) [OF r u] resultD(4,7) [OF r] by (simp add: starts_at_def)
  then have "reads rw [] [nulled_nsy rw y]" using proper_facts(4) [OF r u] by (simp add: reads_nothing visible_def)
  then show ?thesis unfolding covered_def by blast
qed

text \<open>A rule of the grammar, seen from its left hand side.\<close>

lemma rule_covered:
  assumes r: "result g B rw0 rw x" and live: "live g T"
    and q: "k < length (t_xrls g)" "xrl_is_used (t_xrls g ! k)" and e: "e \<in> expansions (t_xrls g ! k)"
    and ws: "list_all2 (\<lambda>y u. derives (t_xrls g) [y] u \<and> set u \<subseteq> T \<and> (u \<noteq> [] \<longrightarrow> covered rw (proper_nsy rw y) u)) e ws" "concat ws \<noteq> []"
  shows "covered rw (proper_nsy rw (LHS_ID_of_XRL (t_xrls g ! k))) (concat ws)"
proof -
  let ?q = "t_xrls g ! k"
  let ?cs = "map2 (written rw) e ws"
  have rr: "rule_ready g ?q" using resultD(2) [OF r] q by (simp add: ready_def)
  then have one: "one_item ?q" by (auto simp: rule_ready_def one_item_def)
  have len: "length ws = length e" using list_all2_lengthD [OF ws(1)] by simp
  have u: "usable g (e ! i)" if "i < length e" for i
    using expansion_mentions [OF one e] nth_mem [OF that] rr unfolding rule_ready_def by blast
  have w: "derives (t_xrls g) [e ! i] (ws ! i)" "set (ws ! i) \<subseteq> T" "ws ! i \<noteq> [] \<Longrightarrow> covered rw (proper_nsy rw (e ! i)) (ws ! i)"
    if "i < length e" for i using ws(1) that len by (simp_all add: list_all2_conv_all_nth)
  have null: "nullable g (e ! i)" if "i < length e" "ws ! i = []" for i
    using live u [OF that(1)] w(1) [OF that(1)] that(2) unfolding live_def by metis
  have "list_all2 (\<lambda>x y. y = proper_nsy rw x \<or> nullable g x \<and> y = nulled_nsy rw x) e ?cs"
    using len null by (auto simp: list_all2_conv_all_nth written_def)
  moreover obtain p where p: "p < length e" "ws ! p \<noteq> []" using ws(2) len by (auto simp: in_set_conv_nth)
  moreover have "\<not> nulling g (e ! p)" using live u [OF p(1)] w [OF p(1)] p(2) unfolding live_def by metis
  ultimately have "?cs \<in> variant_words g rw ?q"
    unfolding variant_words_def using e len by (auto simp: written_def intro!: bexI [of _ e] exI [of _ p])
  moreover obtain L U where "spells_once (sides_for rw k) (\<lambda>v. B \<le> v) (proper_nsy rw (LHS_ID_of_XRL ?q)) (variant_words g rw ?q)"
    by (rule block_facts [OF r q])
  ultimately obtain path where "spells (sides_for rw k) (\<lambda>v. B \<le> v) (proper_nsy rw (LHS_ID_of_XRL ?q)) path ?cs"
    unfolding spells_once_def by blast
  moreover have "sides_for rw k \<subseteq> sides_of ` set (t_irls rw)" by (auto simp: sides_for_def)
  ultimately have d: "derives (internal_rules rw) [proper_nsy rw (LHS_ID_of_XRL ?q)] ?cs" by (intro spells_derives)
  have "list_all2 (covered rw) ?cs ws"
    using len w(3) nulled_covered [OF r u null] by (auto simp: list_all2_conv_all_nth written_def)
  from covered_together [OF this] obtain ys where "derives (internal_rules rw) ?cs ys" "reads rw (concat ws) ys" by blast
  with derives_trans [OF d] show ?thesis unfolding covered_def by blast
qed

lemma internal_covers:
  assumes r: "result g B rw0 rw x" and live: "live g T"
  shows "derives_in (t_xrls g) n [y] w \<Longrightarrow> usable g y \<Longrightarrow> w \<noteq> [] \<Longrightarrow> set w \<subseteq> T \<Longrightarrow> covered rw (proper_nsy rw y) w"
proof (induction n arbitrary: y w rule: less_induct)
  case (less n)
  show ?case
  proof (cases n)
    case 0
    with less.prems have w: "w = [y]" "y \<in> T" by auto
    then have "\<not> nulling g y" using live by (simp add: live_def)
    with proper_facts [OF r less.prems(2)] have "visible rw [proper_nsy rw y] = [proper_nsy rw y]" by (simp add: visible_def)
    moreover have "NSYID_by_XSYID rw y = Some (proper_nsy rw y)"
    proof -
      have "NSYID_by_XSYID rw = NSYID_by_XSYID rw0" using resultD(4) [OF r] by (simp add: starts_at_def)
      with clonesD(1) [OF resultD(1) [OF r] less.prems(2)] result_symbols(1) [OF r] show ?thesis by simp
    qed
    ultimately have "reads rw w [proper_nsy rw y]" by (simp add: reads_def w(1))
    then show ?thesis unfolding covered_def by blast
  next
    case (Suc m)
    with less.prems(1) obtain z where z: "derives1 (t_xrls g) [y] z" "derives_in (t_xrls g) m z w" by (metis relpowp_Suc_D2)
    from z(1) obtain q e where q: "q \<in> set (t_xrls g)" "y = LHS_ID_of_XRL q" "z = e" "e \<in> expansions q"
      by (auto elim!: derives1E simp: Cons_eq_append_conv)
    have "derives (t_xrls g) e w" using z(2) q(3) by (metis relpowp_imp_rtranclp)
    then have used: "xrl_is_used q" using live q(1,2,4) less.prems(2-4) unfolding live_def by blast
    from q(1) obtain k where k: "k < length (t_xrls g)" "q = t_xrls g ! k" by (auto simp: in_set_conv_nth)
    from derives_parts [OF z(2)] q(3) obtain ws where
      ws: "concat ws = w" "list_all2 (\<lambda>x u. \<exists>i \<le> m. derives_in (t_xrls g) i [x] u) e ws" by blast
    have rr: "rule_ready g q" using resultD(2) [OF r] q(1) used by (simp add: ready_def)
    then have one: "one_item q" by (auto simp: rule_ready_def one_item_def)
    have "list_all2 (\<lambda>y u. derives (t_xrls g) [y] u \<and> set u \<subseteq> T \<and> (u \<noteq> [] \<longrightarrow> covered rw (proper_nsy rw y) u)) e ws"
      unfolding list_all2_conv_all_nth
    proof (intro conjI allI impI)
      show "length e = length ws" using list_all2_lengthD [OF ws(2)] .
      fix i assume i: "i < length e"
      then have u: "usable g (e ! i)" using expansion_mentions [OF one q(4)] nth_mem rr unfolding rule_ready_def by blast
      obtain j where j: "j \<le> m" "derives_in (t_xrls g) j [e ! i] (ws ! i)" using ws(2) i by (auto simp: list_all2_conv_all_nth)
      then show "derives (t_xrls g) [e ! i] (ws ! i)" by (metis relpowp_imp_rtranclp)
      have "ws ! i \<in> set ws" using i \<open>length e = length ws\<close> by simp
      then have "set (ws ! i) \<subseteq> set w" unfolding ws(1) [symmetric] set_concat by blast
      then show T: "set (ws ! i) \<subseteq> T" using less.prems(4) by blast
      show "covered rw (proper_nsy rw (e ! i)) (ws ! i)" if "ws ! i \<noteq> []"
        using less.IH [OF _ j(2) u that T] j(1) Suc by simp
    qed
    from rule_covered [OF r live k(1) _ _ this] used q(2,4) k(2) ws(1) less.prems(3) show ?thesis by simp
  qed
qed

theorem internal_language:
  assumes r: "result g B rw0 rw x" and live: "live g T" and T: "T \<subseteq> {..<length (t_xsys g)}" and w: "set w \<subseteq> T"
  shows "(\<exists>ys. derives (internal_rules rw) [length (t_nsys rw0)] ys \<and> reads rw w ys) \<longleftrightarrow> w \<noteq> [] \<and> derives (t_xrls g) [x] w"
proof
  assume "\<exists>ys. derives (internal_rules rw) [length (t_nsys rw0)] ys \<and> reads rw w ys"
  with internal_sound [OF r live T _ _ w] show "w \<noteq> [] \<and> derives (t_xrls g) [x] w" by blast
next
  assume d: "w \<noteq> [] \<and> derives (t_xrls g) [x] w"
  then obtain n where "derives_in (t_xrls g) n [x] w" by (metis rtranclp_imp_relpowp)
  from internal_covers [OF r live this resultD(5) [OF r]] d w obtain ys where
    ys: "derives (internal_rules rw) [proper_nsy rw x] ys" "reads rw w ys" unfolding covered_def by blast
  have "(length (t_nsys rw0), [proper_nsy rw x]) \<in> sides_of ` set (t_irls rw)"
    using resultD(4) [OF r] result_symbols(1) [OF r] by (force simp: starts_at_def)
  from derives_trans [OF internal_step [OF this] ys(1)] ys(2)
  show "\<exists>ys. derives (internal_rules rw) [length (t_nsys rw0)] ys \<and> reads rw w ys" by blast
qed

end
