(* ===== verification/RewriteReady.thy ===== *)
theory RewriteReady
  imports InternalGrammar LoopMeaning
begin

text \<open>The census leaves a grammar that is ready for the rewriting.\<close>

section \<open>Only flags have changed\<close>

definition same_rule :: "marpa_xrl \<Rightarrow> marpa_xrl \<Rightarrow> bool" where
  "same_rule r q \<longleftrightarrow> t_is_sequence q = t_is_sequence r \<and> LHS_ID_of_XRL q = LHS_ID_of_XRL r \<and> RHS_IDs_of_XRL q = RHS_IDs_of_XRL r
     \<and> t_minimum q = t_minimum r \<and> t_separator_id q = t_separator_id r \<and> t_is_proper_separation q = t_is_proper_separation r"

lemma same_rule_facts:
  assumes "same_rule r q"
  shows "expansions q = expansions r" "mentions q = mentions r"
  using assms by (simp_all add: same_rule_def expansions_def mentions_def)

lemma same_rule_flags: "same_rule r (rule_flags g r)" "same_rule r q \<Longrightarrow> same_rule r (q\<lparr>t_is_loop := b\<rparr>)"
  by (simp_all add: same_rule_def rule_flags_def sequence_flags_def bnf_flags_def Let_def split: prod.split)

lemma same_derives1: "list_all2 same_rule rules rules' \<Longrightarrow> derives1 rules' = derives1 rules"
proof (intro ext iffI)
  fix u w
  assume l: "list_all2 same_rule rules rules'" and d: "derives1 rules' u w"
  from d obtain q e a b where q: "u = a @ LHS_ID_of_XRL q # b" "w = a @ e @ b" "q \<in> set rules'" "e \<in> expansions q"
    by (auto elim: derives1E)
  from q(3) obtain i where "i < length rules'" "q = rules' ! i" by (auto simp: in_set_conv_nth)
  with l have r: "rules ! i \<in> set rules" "same_rule (rules ! i) q" by (simp_all add: list_all2_conv_all_nth)
  have "LHS_ID_of_XRL q = LHS_ID_of_XRL (rules ! i)" "e \<in> expansions (rules ! i)"
    using r(2) q(4) same_rule_facts(1) [OF r(2)] by (simp_all add: same_rule_def)
  with derives1.intros [OF r(1), of e a b] q show "derives1 rules u w" by simp
next
  fix u w
  assume l: "list_all2 same_rule rules rules'" and d: "derives1 rules u w"
  from d obtain r e a b where r: "u = a @ LHS_ID_of_XRL r # b" "w = a @ e @ b" "r \<in> set rules" "e \<in> expansions r"
    by (auto elim: derives1E)
  from r(3) obtain i where "i < length rules" "r = rules ! i" by (auto simp: in_set_conv_nth)
  with l have q: "rules' ! i \<in> set rules'" "same_rule r (rules' ! i)" by (simp_all add: list_all2_conv_all_nth)
  have "LHS_ID_of_XRL (rules' ! i) = LHS_ID_of_XRL r" "e \<in> expansions (rules' ! i)"
    using q(2) r(4) same_rule_facts(1) [OF q(2)] by (simp_all add: same_rule_def)
  with derives1.intros [OF q(1), of e a b] r show "derives1 rules' u w" by simp
qed

lemma census_numbers:
  "t_max_rule_length (put_nulled h ca (cycle_result L (after_census g))) = t_max_rule_length g"
  "t_start_xsy_id (put_nulled h ca (cycle_result L (after_census g))) = t_start_xsy_id g"
  by (simp_all add: put_nulled_def cycle_result_def add_events_def mark_rules_def after_census_def census_rules_def
      marked_nulling_def marked_productive_def marked_nullable_def mark_all_def census_input_def G_EVENTS_CLEAR_def)

lemma success_same:
  assumes g: "being_built g" "working g" "census_fits g" and run: "marpa_g_precompute_start g = Some (Inr g')"
  shows "list_all2 same_rule (t_xrls g) (t_xrls g')" "t_max_rule_length g' = t_max_rule_length g" "t_start_xsy_id g' = t_start_xsy_id g"
proof -
  from success_means [OF assms] obtain h ca where
    g': "g' = put_nulled h ca (cycle_result (loops_of (after_census g) (nullable_of (t_xrls g))) (after_census g))" .
  show "t_max_rule_length g' = t_max_rule_length g" "t_start_xsy_id g' = t_start_xsy_id g" unfolding g' by (rule census_numbers)+
  show "list_all2 same_rule (t_xrls g) (t_xrls g')"
    unfolding g' by (simp add: list_all2_conv_all_nth same_rule_flags)
qed

section \<open>Ready\<close>

text \<open>A separator that no string of terminals can be derived from takes its rule out of use.\<close>

definition separators_productive :: "marpa_g \<Rightarrow> bool" where
  "separators_productive g \<longleftrightarrow> (\<forall>r \<in> set (t_xrls g). t_is_sequence r \<and> 0 \<le> t_separator_id r
     \<longrightarrow> (\<exists>w. set w \<subseteq> terminals_of g \<and> derives (t_xrls g) [nat (t_separator_id r)] w))"

definition census_done :: "marpa_g \<Rightarrow> marpa_g \<Rightarrow> bool" where
  "census_done g g' \<longleftrightarrow> being_built g \<and> working g \<and> census_fits g \<and> marpa_g_precompute_start g = Some (Inr g')"

lemma done_run:
  assumes "census_done g g'"
  shows "being_built g" "working g" "census_fits g" "marpa_g_precompute_start g = Some (Inr g')"
  using assms by (simp_all add: census_done_def)

lemma done_ok:
  assumes "census_done g g'"
  shows "rules_ok g" "\<forall>r \<in> set (t_xrls g). one_item r"
  using done_run(1) [OF assms] built_rules by (simp_all add: being_built_def grammar_ok_def)

lemma done_same:
  assumes d: "census_done g g'"
  shows "list_all2 same_rule (t_xrls g) (t_xrls g')" "t_max_rule_length g' = t_max_rule_length g" "t_start_xsy_id g' = t_start_xsy_id g"
  "derives1 (t_xrls g') = derives1 (t_xrls g)" "length (t_xsys g') = length (t_xsys g)"
  using success_same [OF done_run [OF d]] success_symbols(1) [OF done_run [OF d]] same_derives1 by blast+

lemma done_flags:
  assumes d: "census_done g g'" and s: "s < length (t_xsys g)"
  shows "nullable g' s \<longleftrightarrow> s \<in> nullable_of (t_xrls g)" "nulling g' s \<longleftrightarrow> s \<in> nulling_of g"
    "usable g' s \<longleftrightarrow> s \<in> accessible_of g \<and> s \<in> productive_of g"
  using success_symbols(2) [OF done_run [OF d] s] s by (simp_all add: usable_def done_same(5) [OF d] symbol_flags_of_def)

lemma done_settled:
  assumes d: "census_done g g'"
  shows "counted_nullables g = []" "nat (t_start_xsy_id g) \<in> productive_of g" "nulling_terminals g = []"
    "nat (t_start_xsy_id g) < length (t_xsys g)"
proof -
  from success_means [OF done_run [OF d]] obtain h ca where *: "start_checks (G_EVENTS_CLEAR g) = None"
    "counted_nullables g = []" "nat (t_start_xsy_id g) \<in> productive_of g" "nulling_terminals g = []" by metis
  then show "counted_nullables g = []" "nat (t_start_xsy_id g) \<in> productive_of g" "nulling_terminals g = []" by blast+
  show "nat (t_start_xsy_id g) < length (t_xsys g)"
  proof -
    have "0 \<le> t_start_xsy_id g" using *(1)
      by (auto simp: start_checks_def fail_if_def fail_def fail_if_precomputed_def G_EVENTS_CLEAR_def split: if_splits)
    then show ?thesis using done_ok(1) [OF d] by (auto simp: rules_ok_def)
  qed
qed

lemma nulling_empty:
  assumes d: "census_done g g'" and n: "s \<in> nulling_of g" "derives (t_xrls g) [s] w" "set w \<subseteq> terminals_of g"
  shows "w = []"
proof -
  from n(1) have *: "\<forall>w. (derives1 (t_xrls g))\<^sup>+\<^sup>+ [s] w \<longrightarrow> set w \<inter> terminals_of g = {}"
    using nulling_derives [OF done_ok(2) [OF d]] by blast
  have "w \<noteq> [s]" using n(1,3) done_settled(3) [OF d] unfolding no_nulling_terminals by auto
  then have "(derives1 (t_xrls g))\<^sup>+\<^sup>+ [s] w" using n(2) by (metis rtranclpD)
  with * n(3) show ?thesis by (cases w) auto
qed

lemma nulling_is_nullable:
  assumes d: "census_done g g'" and n: "s \<in> nulling_of g" "s \<in> productive_of g"
  shows "s \<in> nullable_of (t_xrls g)"
proof -
  from n(2) obtain w where w: "set w \<subseteq> terminals_of g" "derives (t_xrls g) [s] w" unfolding productive_derives [OF done_ok(2) [OF d]] by blast
  with nulling_empty [OF d n(1)] show ?thesis unfolding nullable_derives [OF done_ok(2) [OF d]] by blast
qed

lemma mentions_less: "rules_ok g \<Longrightarrow> r \<in> set (t_xrls g) \<Longrightarrow> x \<in> mentions r \<Longrightarrow> x < length (t_xsys g)"
  by (auto simp: rules_ok_def rule_ok_def mentions_def split: if_splits)

text \<open>A rule that is used has only usable symbols.\<close>

lemma used_rule:
  assumes d: "census_done g g'" and k: "k < length (t_xrls g)" "xrl_is_used (t_xrls g' ! k)"
  shows "rule_ready g' (t_xrls g' ! k)"
proof -
  let ?r = "t_xrls g ! k" and ?q = "t_xrls g' ! k"
  have r: "?r \<in> set (t_xrls g)" "rule_ok (length (t_xsys g)) ?r" "length (RHS_IDs_of_XRL ?r) \<le> t_max_rule_length g"
    using k done_ok(1) [OF d] by (simp_all add: rules_ok_def)
  have s: "same_rule ?r ?q" using done_same(1) [OF d] k(1) by (simp add: list_all2_conv_all_nth)
  note f = success_rules(2) [OF done_run [OF d] k(1)]
  have acc: "LHS_ID_of_XRL ?r \<in> accessible_of g" and prod: "mentions ?r \<subseteq> productive_of g" and nul: "\<not> mentions ?r \<subseteq> nulling_of g"
    using f k(2) by (auto simp: rule_flags_of_def)
  have lhs: "LHS_ID_of_XRL ?r < length (t_xsys g)" using r(2) by (simp add: rule_ok_def)
  have one: "one_item ?r" using done_ok(2) [OF d] r(1) by blast
  have "RHS_IDs_of_XRL ?r \<noteq> []" using nul one by (auto simp: mentions_def one_item_def split: if_splits)
  from full_expansion [OF one this] obtain e where e: "e \<in> expansions ?r" "set e = mentions ?r" by blast
  have step: "derives (t_xrls g) [LHS_ID_of_XRL ?r] e" by (rule derives_rule [OF r(1) e(1)])
  have reached: "x \<in> accessible_of g" if "x \<in> mentions ?r" for x
  proof -
    from acc obtain u where u: "derives (t_xrls g) [nat (t_start_xsy_id g)] u" "LHS_ID_of_XRL ?r \<in> set u"
      unfolding accessible_derives [OF done_ok(2) [OF d]] by blast
    then obtain a b where "u = a @ [LHS_ID_of_XRL ?r] @ b" by (auto simp: in_set_conv_decomp)
    with derives_trans [OF u(1)] derives_context [OF step, of a b] have "derives (t_xrls g) [nat (t_start_xsy_id g)] (a @ e @ b)" by simp
    moreover have "x \<in> set (a @ e @ b)" using e(2) that by simp
    ultimately show ?thesis unfolding accessible_derives [OF done_ok(2) [OF d]] by blast
  qed
  have all: "usable g' x" if "x \<in> mentions ?r" for x
    using done_flags(3) [OF d mentions_less [OF done_ok(1) [OF d] r(1) that]] reached [OF that] prod that by blast
  have "\<forall>x \<in> set e. \<exists>w. set w \<subseteq> terminals_of g \<and> derives (t_xrls g) [x] w"
    using prod e(2) productive_derives [OF done_ok(2) [OF d]] by blast
  from derives_all [OF this] obtain w where w: "set w \<subseteq> terminals_of g" "derives (t_xrls g) e w" by blast
  have "LHS_ID_of_XRL ?r \<in> productive_of g"
    unfolding productive_derives [OF done_ok(2) [OF d]] using w derives_trans [OF step] by blast
  then have ulhs: "usable g' (LHS_ID_of_XRL ?r)" using done_flags(3) [OF d lhs] acc by blast
  have nlhs: "LHS_ID_of_XRL ?r \<notin> nulling_of g"
  proof
    assume n: "LHS_ID_of_XRL ?r \<in> nulling_of g"
    have "x \<in> nulling_of g" if x: "x \<in> mentions ?r" for x
    proof -
      have "(LHS_ID_of_XRL ?r, x) \<in> reach_of (t_xrls g)" using r(1) x by (auto simp: reach_of_def mention_rel_def)
      moreover have "x \<in> terminals_of g \<or> x \<in> lhs_of (t_xrls g)"
      proof -
        from prod x have "x \<in> productive_of g" by blast
        then obtain w where w: "set w \<subseteq> terminals_of g" "derives (t_xrls g) [x] w" unfolding productive_derives [OF done_ok(2) [OF d]] by blast
        show ?thesis
        proof (cases "w = [x]")
          case False
          with w(2) obtain z where "derives1 (t_xrls g) [x] z" by (metis converse_rtranclpE)
          then show ?thesis by (auto elim!: derives1E simp: Cons_eq_append_conv lhs_of_def)
        qed (use w in auto)
      qed
      moreover have "x \<notin> terminals_of g"
      proof
        assume "x \<in> terminals_of g"
        moreover have "(derives1 (t_xrls g))\<^sup>+\<^sup>+ [LHS_ID_of_XRL ?r] e"
          using derives1.intros [OF r(1) e(1), of "[]" "[]"] by simp
        ultimately show False using n x e(2) unfolding nulling_derives [OF done_ok(2) [OF d]] by blast
      qed
      ultimately show ?thesis using nulling_down [OF n] by blast
    qed
    with nul show False by blast
  qed
  have seq: "x \<notin> nullable_of (t_xrls g) \<and> x \<notin> nulling_of g" if "t_is_sequence ?r" "x \<in> mentions ?r" for x
    using items_not_nullable [OF done_ok(1) [OF d] done_settled(1) [OF d] r(1) that] nulling_is_nullable [OF d] prod that(2) by blast
  show ?thesis
    unfolding rule_ready_def same_rule_facts [OF s] done_same(2) [OF d]
    using s ulhs nlhs all r(2,3) seq nul done_flags(1,2) [OF d] lhs mentions_less [OF done_ok(1) [OF d] r(1)]
    by (auto simp: same_rule_def rule_ok_def mentions_def split: if_splits)
qed

lemma census_ready:
  assumes d: "census_done g g'"
  shows "ready g'"
  unfolding ready_def
proof (intro conjI ballI allI impI)
  fix q assume "q \<in> set (t_xrls g')" "xrl_is_used q"
  then show "rule_ready g' q" using used_rule [OF d] done_same(1) [OF d] by (auto simp: in_set_conv_nth list_all2_conv_all_nth)
next
  fix x assume x: "usable g' x" "nulling g' x"
  then have "x < length (t_xsys g)" by (simp add: usable_def done_same(5) [OF d])
  with x done_flags [OF d] nulling_is_nullable [OF d] show "nullable g' x" by blast
next
  have "nat (t_start_xsy_id g) \<in> accessible_of g" unfolding accessible_derives [OF done_ok(2) [OF d]] by (intro exI [of _ "[nat (t_start_xsy_id g)]"]) simp
  then show "usable g' (nat (t_start_xsy_id g'))" using done_flags(3) [OF d done_settled(4) [OF d]] done_settled(2) [OF d] by (simp add: done_same(3) [OF d])
qed

section \<open>Live\<close>

text \<open>A rule that derives a string of terminals that is not empty is used, if its left hand side is usable.\<close>

lemma rule_used:
  assumes d: "census_done g g'" and sep: "separators_productive g" and k: "k < length (t_xrls g)"
    and l: "usable g' (LHS_ID_of_XRL (t_xrls g ! k))"
    and e: "e \<in> expansions (t_xrls g ! k)" and w: "derives (t_xrls g) e w" "set w \<subseteq> terminals_of g" "w \<noteq> []"
  shows "xrl_is_used (t_xrls g' ! k)"
proof -
  let ?r = "t_xrls g ! k"
  note rules = done_ok(2) [OF d]
  have r: "?r \<in> set (t_xrls g)" "rule_ok (length (t_xsys g)) ?r" "one_item ?r" using k done_ok [OF d] by (simp_all add: rules_ok_def)
  have lhs: "LHS_ID_of_XRL ?r < length (t_xsys g)" using r(2) by (simp add: rule_ok_def)
  have acc: "LHS_ID_of_XRL ?r \<in> accessible_of g" using l unfolding done_flags(3) [OF d lhs] by blast
  from w(1) obtain n where "derives_in (t_xrls g) n e w" by (metis rtranclp_imp_relpowp)
  from derives_parts [OF this] obtain ws where ws: "concat ws = w" "list_all2 (\<lambda>x u. \<exists>m \<le> n. derives_in (t_xrls g) m [x] u) e ws" by blast
  have part: "derives (t_xrls g) [e ! i] (ws ! i)" "set (ws ! i) \<subseteq> terminals_of g" if "i < length e" for i
  proof -
    show "derives (t_xrls g) [e ! i] (ws ! i)" using ws(2) that by (auto simp: list_all2_conv_all_nth dest!: relpowp_imp_rtranclp)
    have "ws ! i \<in> set ws" using that list_all2_lengthD [OF ws(2)] by simp
    then have "set (ws ! i) \<subseteq> set w" unfolding ws(1) [symmetric] set_concat by blast
    then show "set (ws ! i) \<subseteq> terminals_of g" using w(2) by blast
  qed
  have "e \<noteq> []" using w(1,3) derives_nothing by blast
  have prod: "mentions ?r \<subseteq> productive_of g"
  proof
    fix x assume x: "x \<in> mentions ?r"
    show "x \<in> productive_of g"
    proof (cases "x \<in> set e")
      case True
      with part show ?thesis unfolding productive_derives [OF rules] by (auto simp: in_set_conv_nth)
    next
      case False
      with expansion_needs [OF r(3) e \<open>e \<noteq> []\<close>] have "x \<notin> needs ?r" by blast
      with x have "t_is_sequence ?r" "0 \<le> t_separator_id ?r" "x = nat (t_separator_id ?r)"
        by (auto simp: mentions_def needs_def split: if_splits)
      with sep r(1) show ?thesis unfolding productive_derives [OF rules] separators_productive_def by blast
    qed
  qed
  have "ws \<noteq> []" "\<exists>u \<in> set ws. u \<noteq> []" using w(3) ws(1) by auto
  then obtain i where i: "i < length e" "ws ! i \<noteq> []" using list_all2_lengthD [OF ws(2)] by (auto simp: in_set_conv_nth)
  have "e ! i \<notin> nulling_of g" using nulling_empty [OF d _ part [OF i(1)]] i(2) by blast
  moreover have "e ! i \<in> mentions ?r" using expansion_mentions [OF r(3) e] i(1) nth_mem by blast
  ultimately show ?thesis using success_rules(2) [OF done_run [OF d] k] acc prod by (auto simp: rule_flags_of_def)
qed

lemma census_live:
  assumes d: "census_done g g'" and sep: "separators_productive g"
  shows "live g' (terminals_of g)"
proof -
  have less: "x < length (t_xsys g)" if "usable g' x" for x using that by (simp add: usable_def done_same(5) [OF d])
  have "nullable g' x \<longleftrightarrow> derives (t_xrls g) [x] []" if "usable g' x" for x
    using done_flags(1) [OF d less [OF that]] nullable_derives [OF done_ok(2) [OF d]] by simp
  moreover have "w = []" if "usable g' x" "nulling g' x" "derives (t_xrls g) [x] w" "set w \<subseteq> terminals_of g" for x w
    using nulling_empty [OF d _ that(3,4)] done_flags(2) [OF d less [OF that(1)]] that(2) by blast
  moreover have "\<not> nulling g' x" if "x \<in> terminals_of g" for x
  proof -
    have "x < length (t_xsys g)" using that by (simp add: terminals_of_def)
    from done_flags(2) [OF d this] that done_settled(3) [OF d] show ?thesis unfolding no_nulling_terminals by blast
  qed
  moreover have "xrl_is_used q"
    if q: "q \<in> set (t_xrls g')" "e \<in> expansions q" "usable g' (LHS_ID_of_XRL q)" and w: "derives (t_xrls g) e w" "set w \<subseteq> terminals_of g" "w \<noteq> []"
    for q e w
  proof -
    from q(1) obtain k where k: "k < length (t_xrls g')" "q = t_xrls g' ! k" by (auto simp: in_set_conv_nth)
    then have s: "k < length (t_xrls g)" "same_rule (t_xrls g ! k) q" using done_same(1) [OF d] by (simp_all add: list_all2_conv_all_nth)
    have "usable g' (LHS_ID_of_XRL (t_xrls g ! k))" "e \<in> expansions (t_xrls g ! k)"
      using q(2,3) s(2) same_rule_facts(1) [OF s(2)] by (simp_all add: same_rule_def)
    from rule_used [OF d sep s(1) this w] show ?thesis by (simp add: k(2))
  qed
  ultimately show ?thesis unfolding live_def done_same(4) [OF d] by blast
qed

end
