(* ===== verification/RewriteProps.thy ===== *)
theory RewriteProps
  imports RewriteReady Rewrite PrecomputeProps
begin

text \<open>The properties of the rewriting: it returns, each rule keeps its meaning, and so does the grammar.\<close>

section \<open>The result\<close>

lemma rewriting_runs:
  assumes "census_done g g'"
  obtains B rw0 rw where "marpa_g_precompute_rewrite g = Some (Inr rw)" "rebuilt g' B (length (t_xrls g')) rw0"
    "rw = rw0 \<and> nulling g' (nat (t_start_xsy_id g)) \<or> result g' B rw0 rw (nat (t_start_xsy_id g)) \<or> \<not> short_sequences g"
    "rw = rw0 \<and> nulling g' (nat (t_start_xsy_id g)) \<or> starts_at rw0 rw (nat (t_start_xsy_id g)) \<and> \<not> nulling g' (nat (t_start_xsy_id g))"
proof -
  have ready: "ready g'" using census_ready [OF assms] .
  obtain B rw0 where rw0: "rewrite_rules [0..<length (t_xrls g')] (clone_symbols (rw_start g')) = Some rw0" "rebuilt g' B (length (t_xrls g')) rw0"
    by (rule all_rewritten [OF ready])
  note same = done_same [OF assms]
  have u: "usable g' (nat (t_start_xsy_id g))" using ready by (simp add: ready_def same(3))
  have sh: "short g'" if "short_sequences g"
    unfolding short_def
  proof (intro ballI impI)
    fix q assume "q \<in> set (t_xrls g')" "t_is_sequence q"
    then obtain k where k: "k < length (t_xrls g')" "t_is_sequence (t_xrls g' ! k)" "q = t_xrls g' ! k" by (auto simp: in_set_conv_nth)
    then have s: "k < length (t_xrls g)" "same_rule (t_xrls g ! k) (t_xrls g' ! k)" using same(1) by (simp_all add: list_all2_conv_all_nth)
    then have "t_is_sequence (t_xrls g ! k)" "t_xrls g ! k \<in> set (t_xrls g)" using k(2) by (simp_all add: same_rule_def)
    with that have "t_minimum (t_xrls g ! k) \<le> 1" unfolding short_sequences_def by blast
    then show "t_minimum q \<le> 1" using s(2) by (simp add: same_rule_def k(3))
  qed
  have run: "marpa_g_precompute_rewrite g = Some (Inr rw)" if "augment_start rw0 = Some rw" for rw
    using rw0(1) that done_run(4) [OF assms] by (simp add: marpa_g_precompute_rewrite_def rewrite_grammar_def)
  from augment_eq [OF rw0(2) _ u] same(3) consider "augment_start rw0 = Some rw0" "nulling g' (nat (t_start_xsy_id g))"
    | rw where "augment_start rw0 = Some rw" "starts_at rw0 rw (nat (t_start_xsy_id g))" "\<not> nulling g' (nat (t_start_xsy_id g))" by auto
  then show thesis
  proof cases
    case 1
    then show ?thesis using that run rw0(2) by blast
  next
    case (2 rw)
    then have "result g' B rw0 rw (nat (t_start_xsy_id g)) \<or> \<not> short_sequences g" using sh ready rw0(2) u by (auto simp: result_def)
    then show ?thesis using that [OF run [OF 2(1)] rw0(2)] 2(2,3) by blast
  qed
qed

lemma rewriting_done:
  assumes "being_built g" "working g" "census_fits g" "marpa_g_precompute_rewrite g = Some (Inr rw)"
  obtains g' where "census_done g g'"
proof -
  from assms(4) obtain y where y: "marpa_g_precompute_start g = Some y"
    "(case y of Inl failure \<Rightarrow> Some (Inl failure) | Inr g1 \<Rightarrow> do { rw \<leftarrow> rewrite_grammar g1; Some (Inr rw) }) = Some (Inr rw)"
    unfolding marpa_g_precompute_rewrite_def by (auto simp: bind_eq_Some_conv)
  then obtain g' where "marpa_g_precompute_start g = Some (Inr g')" by (cases y) auto
  with that assms(1-3) show thesis by (simp add: census_done_def)
qed

text \<open>C7: the rewriting always returns, with the error of the census or with internal rules: no rule reads an internal symbol
  that its symbol does not have, and the array of factors is long enough.\<close>

theorem rewriting_returns:
  assumes "being_built g" "working g" "t_xrls g \<noteq> [] \<longrightarrow> census_fits g"
  shows "\<exists>x. marpa_g_precompute_rewrite g = Some x \<and> (case precompute_error g of
      Some e \<Rightarrow> \<exists>h. x = Inl (- 2, h) \<and> g_error h = e
    | None \<Rightarrow> \<exists>rw. x = Inr rw)"
proof (cases "precompute_error g")
  case None
  with precompute_returns [OF assms] obtain g' where g': "marpa_g_precompute_start g = Some (Inr g')" by auto
  have "t_xrls g \<noteq> []" using None by (simp add: precompute_error_def Let_def split: if_splits)
  with g' assms have "census_done g g'" by (simp add: census_done_def)
  then obtain rw where "marpa_g_precompute_rewrite g = Some (Inr rw)" by (rule rewriting_runs)
  with None show ?thesis by simp
next
  case (Some e)
  with precompute_returns [OF assms] obtain h where "marpa_g_precompute_start g = Some (Inl (- 2, h))" "g_error h = e" by auto
  with Some show ?thesis by (simp add: marpa_g_precompute_rewrite_def)
qed

theorem rewriting_returns_witness: "\<exists>rw. marpa_g_precompute_rewrite demo_g = Some (Inr rw)"
proof -
  have d: "being_built demo_g" "working demo_g" using demo_g_ok by (simp_all add: bnf_shape_def)
  obtain g' where g': "marpa_g_precompute_start demo_g = Some (Inr g')" using demo_success by blast
  have "precompute_error demo_g = None"
  proof (rule ccontr)
    assume "precompute_error demo_g \<noteq> None"
    with precompute_returns [OF d] demo_fits g' show False by auto
  qed
  with rewriting_returns [OF d] demo_fits show ?thesis by auto
qed

section \<open>One rule\<close>

text \<open>The internal symbols that stand for no symbol of the grammar come last.\<close>

definition first_virtual :: "marpa_rw \<Rightarrow> nat" where
  "first_virtual rw = length (filter nsy_is_semantic (t_nsys rw))"

lemma count_prefix:
  assumes "B \<le> length xs" "\<forall>i < length xs. P (xs ! i) \<longleftrightarrow> i < B"
  shows "length (filter P xs) = B"
proof -
  have "{i. i < length xs \<and> P (xs ! i)} = {..<B}" using assms by auto
  then show ?thesis by (simp add: length_filter_conv_card)
qed

lemma first_virtual_eq:
  assumes b: "rebuilt g B k rw0" and s: "rw = rw0 \<or> starts_at rw0 rw x"
  shows "first_virtual rw = B"
proof -
  have c: "B \<le> length (t_nsys rw0)" "\<forall>i < length (t_nsys rw0). nsy_is_semantic (t_nsys rw0 ! i) \<longleftrightarrow> i < B"
    using b by (simp_all add: rebuilt_def has_clones_def)
  from s show ?thesis
  proof
    assume "rw = rw0"
    with c show ?thesis unfolding first_virtual_def by (intro count_prefix) simp_all
  next
    assume s: "starts_at rw0 rw x"
    have l: "length (t_nsys rw) = Suc (length (t_nsys rw0))" using s by (simp add: starts_at_def)
    have "nsy_is_semantic (t_nsys rw ! i) \<longleftrightarrow> i < B" if "i < length (t_nsys rw)" for i
    proof (cases "i < length (t_nsys rw0)")
      case True
      then have "nsy_kind (t_nsys rw ! i) = nsy_kind (t_nsys rw0 ! i)" using s by (simp add: starts_at_def)
      from kind_eq [OF this] c(2) True show ?thesis by simp
    next
      case False
      with that l have "i = length (t_nsys rw0)" by simp
      with s c(1) show ?thesis by (simp add: starts_at_def nsy_kind_def)
    qed
    with c(1) l show ?thesis unfolding first_virtual_def by (intro count_prefix) simp_all
  qed
qed

lemma rule_kept:
  assumes d: "census_done g g'" and run: "marpa_g_precompute_rewrite g = Some (Inr rw)" and short: "short_sequences g" and k: "k < length (t_xrls g')"
  shows "if xrl_is_used (t_xrls g' ! k)
    then spells_once (sides_for rw k) (\<lambda>v. first_virtual rw \<le> v) (proper_nsy rw (LHS_ID_of_XRL (t_xrls g' ! k))) (variant_words g' rw (t_xrls g' ! k))
    else sides_for rw k = {}"
proof -
  let ?x = "nat (t_start_xsy_id g)"
  obtain B rw0 rw1 where 1: "marpa_g_precompute_rewrite g = Some (Inr rw1)" and b: "rebuilt g' B (length (t_xrls g')) rw0"
    and r: "rw1 = rw0 \<and> nulling g' ?x \<or> result g' B rw0 rw1 ?x \<or> \<not> short_sequences g"
    and s: "rw1 = rw0 \<and> nulling g' ?x \<or> starts_at rw0 rw1 ?x \<and> \<not> nulling g' ?x" by (rule rewriting_runs [OF d])
  have rw: "rw1 = rw" using run 1 by simp
  from r short have r: "rw = rw0 \<or> result g' B rw0 rw ?x" unfolding rw by blast
  then have "rw = rw0 \<or> starts_at rw0 rw ?x" by (auto dest: resultD)
  with first_virtual_eq [OF b] have B: "first_virtual rw = B" by blast
  have sides: "sides_for rw k = sides_for rw0 k" using r result_symbols(4) k by blast
  have "proper_nsy rw = proper_nsy rw0" "nulled_nsy rw = nulled_nsy rw0" using r result_symbols(1,2) by blast+
  then have names: "proper_nsy rw = proper_nsy rw0" "variant_words g' rw = variant_words g' rw0"
    by (simp_all add: variant_words_def fun_eq_iff)
  show ?thesis
  proof (cases "xrl_is_used (t_xrls g' ! k)")
    case True
    from b k True obtain L U where "rule_block g' B rw0 (t_xrls g' ! k) L U (sides_for rw0 k)" unfolding rebuilt_def by blast
    moreover have "t_is_sequence (t_xrls g' ! k) \<longrightarrow> t_minimum (t_xrls g' ! k) \<le> 1"
    proof -
      have s: "k < length (t_xrls g)" "same_rule (t_xrls g ! k) (t_xrls g' ! k)" using done_same(1) [OF d] k by (simp_all add: list_all2_conv_all_nth)
      then show ?thesis using short by (simp add: short_sequences_def same_rule_def)
    qed
    ultimately show ?thesis using True unfolding B sides names by (auto simp: rule_block_def)
  next
    case False
    with b have "sides_for rw0 k = {}" unfolding rebuilt_def sides_for_def by fastforce
    with False sides show ?thesis by simp
  qed
qed

text \<open>C6: the internal rules of a rule spell exactly its right hand sides with each nullable symbol either kept or nulled, but not all
  nulled, and each of them in one way only; a rule that is not used has no internal rules.\<close>

theorem rules_spelled_once:
  assumes "being_built g" "working g" "census_fits g" "short_sequences g" "marpa_g_precompute_start g = Some (Inr g')"
    "marpa_g_precompute_rewrite g = Some (Inr rw)" "k < length (t_xrls g)"
  shows "if xrl_is_used (t_xrls g' ! k)
    then spells_once (sides_for rw k) (\<lambda>v. first_virtual rw \<le> v) (proper_nsy rw (lhs_at g k)) (variant_words g' rw (t_xrls g ! k))
    else sides_for rw k = {}"
proof -
  have d: "census_done g g'" using assms by (simp add: census_done_def)
  have s: "k < length (t_xrls g')" "same_rule (t_xrls g ! k) (t_xrls g' ! k)"
    using done_same(1) [OF d] assms(7) by (simp_all add: list_all2_conv_all_nth)
  have v: "variant_words g' rw (t_xrls g' ! k) = variant_words g' rw (t_xrls g ! k)"
    unfolding variant_words_def same_rule_facts(1) [OF s(2)] ..
  have l: "LHS_ID_of_XRL (t_xrls g' ! k) = lhs_at g k" using s(2) by (simp add: same_rule_def)
  show ?thesis using rule_kept [OF d assms(6,4) s(1)] unfolding v l .
qed

section \<open>The grammar\<close>

text \<open>The internal symbol from which the internal rules start.\<close>

definition internal_start :: "marpa_rw \<Rightarrow> nat option" where
  "internal_start rw = map_option (\<lambda>i. LHSID_of_IRL (t_irls rw ! i)) (t_start_irl rw)"

lemma start_at_last:
  assumes "starts_at rw0 rw x"
  shows "internal_start rw = Some (length (t_nsys rw0))"
proof -
  from assms obtain irl where "t_irls rw = t_irls rw0 @ [irl]" "sides_of irl = (length (t_nsys rw0), [proper_nsy rw0 x])"
    "t_start_irl rw = Some (length (t_irls rw0))" unfolding starts_at_def by blast
  then show ?thesis by (simp add: internal_start_def sides_of_def LHSID_of_IRL_def nth_append)
qed

text \<open>C2: when separators are productive, the internal rules derive, from their start symbol and without the symbols that stand for the
  empty string, exactly the strings of terminals that the grammar derives, the empty string excepted.\<close>

theorem rewriting_preserves_language:
  assumes "being_built g" "working g" "census_fits g" "short_sequences g" "separators_productive g"
    "marpa_g_precompute_rewrite g = Some (Inr rw)" "set w \<subseteq> terminals_of g"
  shows "(\<exists>s ys. internal_start rw = Some s \<and> derives (internal_rules rw) [s] ys \<and> reads rw w ys)
    \<longleftrightarrow> w \<noteq> [] \<and> derives (t_xrls g) [nat (t_start_xsy_id g)] w"
proof -
  let ?x = "nat (t_start_xsy_id g)"
  obtain g' where d: "census_done g g'" by (rule rewriting_done [OF assms(1-3,6)])
  obtain B rw0 rw1 where 1: "marpa_g_precompute_rewrite g = Some (Inr rw1)" and b: "rebuilt g' B (length (t_xrls g')) rw0"
    and r: "rw1 = rw0 \<and> nulling g' ?x \<or> result g' B rw0 rw1 ?x \<or> \<not> short_sequences g"
    and s: "rw1 = rw0 \<and> nulling g' ?x \<or> starts_at rw0 rw1 ?x \<and> \<not> nulling g' ?x" by (rule rewriting_runs [OF d])
  have rw: "rw1 = rw" using assms(6) 1 by simp
  from r assms(4) consider "rw = rw0" "nulling g' ?x" | "result g' B rw0 rw ?x" unfolding rw by blast
  then show ?thesis
  proof cases
    case 1
    have "internal_start rw = None" using b by (simp add: 1(1) internal_start_def rebuilt_def)
    moreover have "?x \<in> nulling_of g" using done_flags(2) [OF d done_settled(4) [OF d]] 1(2) by blast
    then have "\<not> (w \<noteq> [] \<and> derives (t_xrls g) [?x] w)" using nulling_empty [OF d _ _ assms(7)] by blast
    ultimately show ?thesis by simp
  next
    case 2
    have T: "terminals_of g \<subseteq> {..<length (t_xsys g')}" by (auto simp: terminals_of_def done_same(5) [OF d])
    from internal_language [OF 2 census_live [OF d assms(5)] T assms(7)] start_at_last [OF resultD(4) [OF 2]]
    show ?thesis by (simp add: done_same(4) [OF d])
  qed
qed

text \<open>The facts that the witnesses share.\<close>

lemma demo_rewritten:
  obtains g' rw where "being_built demo_g" "working demo_g" "short_sequences demo_g" "separators_productive demo_g"
    "marpa_g_precompute_start demo_g = Some (Inr g')" "marpa_g_precompute_rewrite demo_g = Some (Inr rw)"
proof -
  have d: "being_built demo_g" "working demo_g" using demo_g_ok by (simp_all add: bnf_shape_def)
  obtain g' where g': "marpa_g_precompute_start demo_g = Some (Inr g')" using demo_success by blast
  then have "census_done demo_g g'" using d demo_fits by (simp add: census_done_def)
  then obtain rw where "marpa_g_precompute_rewrite demo_g = Some (Inr rw)" by (rule rewriting_runs)
  moreover have "short_sequences demo_g" "separators_productive demo_g"
    using demo_rules(6) by (simp_all add: short_sequences_def separators_productive_def)
  ultimately show thesis using that d g' by blast
qed

theorem rewriting_preserves_language_witness:
  "\<exists>rw s ys. marpa_g_precompute_rewrite demo_g = Some (Inr rw) \<and> internal_start rw = Some s
    \<and> derives (internal_rules rw) [s] ys \<and> reads rw [2] ys"
proof -
  obtain g' rw where d: "being_built demo_g" "working demo_g" "short_sequences demo_g" "separators_productive demo_g"
    and rw: "marpa_g_precompute_rewrite demo_g = Some (Inr rw)" by (rule demo_rewritten)
  have "t_start_xsy_id demo_g = 0" using demo_g_ok by simp
  with demo_derives(3) show ?thesis
    using rewriting_preserves_language [OF d(1,2) demo_fits d(3,4) rw, of "[2]"] rw by (auto simp: demo_terminals)
qed

theorem rules_spelled_once_witness:
  "\<exists>g' rw. marpa_g_precompute_start demo_g = Some (Inr g') \<and> marpa_g_precompute_rewrite demo_g = Some (Inr rw)
    \<and> (if xrl_is_used (t_xrls g' ! 0)
       then spells_once (sides_for rw 0) (\<lambda>v. first_virtual rw \<le> v) (proper_nsy rw (lhs_at demo_g 0)) (variant_words g' rw (t_xrls demo_g ! 0))
       else sides_for rw 0 = {})"
proof -
  obtain g' rw where d: "being_built demo_g" "working demo_g" "short_sequences demo_g"
    and g': "marpa_g_precompute_start demo_g = Some (Inr g')" and rw: "marpa_g_precompute_rewrite demo_g = Some (Inr rw)" by (rule demo_rewritten)
  have "0 < length (t_xrls demo_g)" using demo_rules(1) by simp
  from rules_spelled_once [OF d(1,2) demo_fits d(3) g' rw this] g' rw show ?thesis by blast
qed

section \<open>The symbols\<close>

text \<open>C11: a symbol that is accessible and productive has one internal symbol, which is nulling when the symbol is, and the nulling one
  beside it when the symbol is nullable only; any other symbol has none.\<close>

theorem symbols_cloned:
  assumes "being_built g" "working g" "census_fits g" "marpa_g_precompute_start g = Some (Inr g')"
    "marpa_g_precompute_rewrite g = Some (Inr rw)" "x < length (t_xsys g)"
  shows "if xsy_is_accessible (t_xsys g' ! x) \<and> xsy_is_productive (t_xsys g' ! x)
    then \<exists>i < length (t_nsys rw). NSYID_by_XSYID rw x = Some i \<and> nsy_source_xsy (t_nsys rw ! i) = Some x \<and> nsy_is_semantic (t_nsys rw ! i)
        \<and> (nsy_is_nulling (t_nsys rw ! i) \<longleftrightarrow> xsy_is_nulling (t_xsys g' ! x))
        \<and> (if xsy_is_nullable (t_xsys g' ! x)
           then \<exists>j < length (t_nsys rw). Nulling_NSYID_by_XSYID rw x = Some j \<and> nsy_source_xsy (t_nsys rw ! j) = Some x
             \<and> nsy_is_nulling (t_nsys rw ! j) \<and> nsy_is_semantic (t_nsys rw ! j) \<and> (i = j \<longleftrightarrow> xsy_is_nulling (t_xsys g' ! x))
           else Nulling_NSYID_by_XSYID rw x = None)
    else NSYID_by_XSYID rw x = None \<and> Nulling_NSYID_by_XSYID rw x = None"
proof -
  let ?x = "nat (t_start_xsy_id g)"
  have d: "census_done g g'" using assms by (simp add: census_done_def)
  obtain B rw0 rw1 where 1: "marpa_g_precompute_rewrite g = Some (Inr rw1)" and b: "rebuilt g' B (length (t_xrls g')) rw0"
    and s: "rw1 = rw0 \<and> nulling g' ?x \<or> starts_at rw0 rw1 ?x \<and> \<not> nulling g' ?x" by (rule rewriting_runs [OF d])
  have s: "rw = rw0 \<or> starts_at rw0 rw ?x" using s 1 assms(5) by auto
  have c: "has_clones g' B rw0" using b by (simp add: rebuilt_def)
  have names: "NSYID_by_XSYID rw = NSYID_by_XSYID rw0" "Nulling_NSYID_by_XSYID rw = Nulling_NSYID_by_XSYID rw0"
    "\<forall>i < length (t_nsys rw0). i < length (t_nsys rw) \<and> nsy_kind (t_nsys rw ! i) = nsy_kind (t_nsys rw0 ! i)"
    using s by (auto simp: starts_at_def)
  have x: "x < length (t_xsys g')" using assms(6) by (simp add: done_same(5) [OF d])
  show ?thesis
  proof (cases "usable g' x")
    case False
    with c x show ?thesis by (auto simp: has_clones_def not_cloned_def names usable_def)
  next
    case True
    have null: "nulling g' x \<longrightarrow> nullable g' x" using census_ready [OF d] True by (simp add: ready_def)
    from c True have "cloned g' rw0 x" by (simp add: has_clones_def)
    then obtain i where i: "i < length (t_nsys rw0)" "NSYID_by_XSYID rw0 x = Some i" "stands_for g' x (nulling g' x) (t_nsys rw0 ! i)"
      "if nulling g' x then Nulling_NSYID_by_XSYID rw0 x = Some i
        else if nullable g' x then \<exists>j < length (t_nsys rw0). Nulling_NSYID_by_XSYID rw0 x = Some j \<and> stands_for g' x True (t_nsys rw0 ! j)
        else Nulling_NSYID_by_XSYID rw0 x = None" unfolding cloned_def by blast
    have f: "nsy_source_xsy (t_nsys rw ! j) = Some x \<and> nsy_is_semantic (t_nsys rw ! j) \<and> nsy_is_nulling (t_nsys rw ! j) = e \<and> j < length (t_nsys rw)"
      if "j < length (t_nsys rw0)" "stands_for g' x e (t_nsys rw0 ! j)" for j e
      using names(3) that by (auto simp: stands_for_def nsy_kind_def)
    have u: "xsy_is_accessible (t_xsys g' ! x) \<and> xsy_is_productive (t_xsys g' ! x)" using True by (simp add: usable_def)
    show ?thesis unfolding if_P [OF u] names
    proof (intro exI [of _ i] conjI)
      show "if nullable g' x then \<exists>j < length (t_nsys rw). Nulling_NSYID_by_XSYID rw0 x = Some j \<and> nsy_source_xsy (t_nsys rw ! j) = Some x
             \<and> nsy_is_nulling (t_nsys rw ! j) \<and> nsy_is_semantic (t_nsys rw ! j) \<and> (i = j \<longleftrightarrow> nulling g' x)
           else Nulling_NSYID_by_XSYID rw0 x = None"
      proof (cases "nulling g' x")
        case True
        with i(4) null f [OF i(1,3)] show ?thesis by simp
      next
        case False
        show ?thesis
        proof (cases "nullable g' x")
          case n: True
          with False i(4) obtain j where j: "j < length (t_nsys rw0)" "Nulling_NSYID_by_XSYID rw0 x = Some j" "stands_for g' x True (t_nsys rw0 ! j)" by auto
          have "i \<noteq> j" using f [OF i(1,3)] f [OF j(1,3)] False by auto
          with n False j f [OF j(1,3)] show ?thesis by (auto intro!: exI [of _ j])
        qed (use False i(4) in simp)
      qed
    qed (use i f [OF i(1,3)] in auto)
  qed
qed

theorem symbols_cloned_witness: "\<exists>rw i. marpa_g_precompute_rewrite demo_g = Some (Inr rw) \<and> NSYID_by_XSYID rw 2 = Some i
    \<and> nsy_source_xsy (t_nsys rw ! i) = Some 2"
proof -
  obtain g' rw where d: "being_built demo_g" "working demo_g"
    and g': "marpa_g_precompute_start demo_g = Some (Inr g')" and rw: "marpa_g_precompute_rewrite demo_g = Some (Inr rw)" by (rule demo_rewritten)
  have n: "2 < length (t_xsys demo_g)" using demo_g_ok by simp
  have "derives (t_xrls demo_g) [0] [1, 2]" using demo_derives(2) by simp
  then have "2 \<in> accessible_of demo_g" unfolding accessible_derives [OF built_rules [OF d(1)]] using demo_g_ok by force
  moreover have "2 \<in> productive_of demo_g"
    unfolding productive_derives [OF built_rules [OF d(1)]] by (intro exI [of _ "[2]"]) (simp add: demo_terminals)
  ultimately have "xsy_is_accessible (t_xsys g' ! 2) \<and> xsy_is_productive (t_xsys g' ! 2)"
    using success_symbols(2) [OF d(1,2) demo_fits g' n] by (simp add: symbol_flags_of_def)
  with symbols_cloned [OF d demo_fits g' rw n] rw show ?thesis by auto
qed

section \<open>The accessors\<close>

text \<open>
  Two accessors follow pointers without looking: every internal symbol has a symbol, and every internal
  rule whose left hand side is not virtual has a rule. The place in \<open>_marpa_g_irl_rhs\<close> has no lower bound:
  \<open>- 1\<close> gives the left hand side, and a smaller one reads before the array.
\<close>

lemma pointers_defined:
  assumes g: "being_built g" "working g" "census_fits g" and run: "marpa_g_precompute_rewrite g = Some (Inr rw)"
  shows "marpa_g_source_xsy rw i \<noteq> None" "marpa_g_irl_semantic_equivalent rw i \<noteq> None"
proof -
  let ?x = "nat (t_start_xsy_id g)"
  obtain g' where d: "census_done g g'" by (rule rewriting_done [OF g run])
  obtain B rw0 rw1 where 1: "marpa_g_precompute_rewrite g = Some (Inr rw1)" and b: "rebuilt g' B (length (t_xrls g')) rw0"
    and s: "rw1 = rw0 \<and> nulling g' ?x \<or> starts_at rw0 rw1 ?x \<and> \<not> nulling g' ?x" by (rule rewriting_runs [OF d])
  have s: "rw = rw0 \<or> starts_at rw0 rw ?x" using s 1 run by auto
  have sources: "\<forall>k < length (t_nsys rw0). nsy_source_xsy (t_nsys rw0 ! k) \<noteq> None" "\<forall>irl \<in> set (t_irls rw0). irl_source_xrl irl \<noteq> None"
    using b by (auto simp: rebuilt_def has_clones_def)
  have "nsy_source_xsy (t_nsys rw ! k) \<noteq> None" if k: "k < length (t_nsys rw)" for k
  proof (cases "k < length (t_nsys rw0)")
    case True
    then have "nsy_kind (t_nsys rw ! k) = nsy_kind (t_nsys rw0 ! k)" using s by (auto simp: starts_at_def)
    from kind_eq [OF this] sources(1) True show ?thesis by simp
  next
    case False
    with k s have "starts_at rw0 rw ?x" "k = length (t_nsys rw0)" by (auto simp: starts_at_def)
    then show ?thesis by (auto simp: starts_at_def nsy_kind_def)
  qed
  then show "marpa_g_source_xsy rw i \<noteq> None"
    by (auto simp: marpa_g_source_xsy_def rw_or_run_def fail_if_nsyid_is_invalid_def fail_if_def nsy_is_valid_def NSY_by_ID_def)
  have "\<forall>irl \<in> set (t_irls rw). irl_is_virtual_lhs irl \<or> irl_source_xrl irl \<noteq> None"
    using s sources(2) by (auto simp: starts_at_def)
  then have "irl_is_virtual_lhs (t_irls rw ! k) \<or> irl_source_xrl (t_irls rw ! k) \<noteq> None" if "k < length (t_irls rw)" for k using that by simp
  from this [of "nat i"] show "marpa_g_irl_semantic_equivalent rw i \<noteq> None"
    by (auto simp: marpa_g_irl_semantic_equivalent_def rw_or_run_def fail_if_irlid_is_invalid_def fail_if_def IRLID_of_G_is_Valid_def
        IRL_by_ID_def Let_def)
qed

lemma irl_rhs_before:
  assumes "irl_checks rw irl_id = None" "ix < 0"
  shows "marpa_g_irl_rhs rw irl_id ix = (if ix = - 1 then Some (int (LHSID_of_IRL (IRL_by_ID rw irl_id)), rw) else None)"
  using assms by (simp add: marpa_g_irl_rhs_def rw_or_run_def Let_def LHSID_of_IRL_def)

end
